(* ===== verification/Prelude.thy ===== *)
theory Prelude
  imports Complex_Main "HOL-Library.AList" "HOL-Library.Multiset"
begin

text \<open>
  Shared vocabulary of the development: Python exceptions as values, results
  as sums, Python's list indexing, rounding-up division, and the list lemmas
  that several components use.

  Python integers are unbounded, so token counts, lengths and reference counts
  are \<open>int\<close>; identifiers that only ever index a list (physical block numbers)
  are \<open>nat\<close>.
\<close>

section \<open>Exceptions and results\<close>

datatype py_error = ValueError | KeyError | IndexError | RuntimeError | TypeError | ZeroDivisionError

type_synonym 'a result = "py_error + 'a"

definition and_then :: "'a result \<Rightarrow> ('a \<Rightarrow> 'b result) \<Rightarrow> 'b result" where
  "and_then m f = (case m of Inl e \<Rightarrow> Inl e | Inr x \<Rightarrow> f x)"

definition ok :: "'a result \<Rightarrow> bool" where
  "ok r = (case r of Inl _ \<Rightarrow> False | Inr _ \<Rightarrow> True)"

definition require :: "bool \<Rightarrow> py_error \<Rightarrow> 'a result \<Rightarrow> 'a result" where
  "require b e k = (if b then k else Inl e)"

named_theorems result_simps \<open>unfolding of the result combinators\<close>

lemma and_then_simps [simp, result_simps]:
  "and_then (Inl e) f = Inl e"
  "and_then (Inr x) f = f x"
  by (simp_all add: and_then_def)

lemma and_then_Inr_iff [simp]:
  "and_then m f = Inr y \<longleftrightarrow> (\<exists>x. m = Inr x \<and> f x = Inr y)"
  by (cases m) auto

lemma and_then_Inl_iff:
  "and_then m f = Inl e \<longleftrightarrow> m = Inl e \<or> (\<exists>x. m = Inr x \<and> f x = Inl e)"
  by (cases m) auto

lemma and_then_cong [fundef_cong]:
  assumes "m = m'" and "\<And>x. m' = Inr x \<Longrightarrow> f x = f' x"
  shows "and_then m f = and_then m' f'"
  using assms by (cases m') auto

lemma and_then_assoc: "and_then (and_then m f) g = and_then m (\<lambda>x. and_then (f x) g)"
  by (cases m) auto

lemma ok_simps [simp, result_simps]: "ok (Inr x)" "\<not> ok (Inl e)"
  by (simp_all add: ok_def)

lemma ok_iff: "ok r \<longleftrightarrow> (\<exists>x. r = Inr x)"
  by (cases r) auto

lemma require_simps [simp, result_simps]:
  "require True e k = k"
  "require False e k = Inl e"
  by (simp_all add: require_def)

lemma require_Inr_iff [simp]: "require b e k = Inr y \<longleftrightarrow> b \<and> k = Inr y"
  by (simp add: require_def)

section \<open>Integer division that rounds up\<close>

text \<open>The source writes \<open>(n + size - 1) // size\<close> wherever it turns tokens into blocks.\<close>

definition ceil_div :: "int \<Rightarrow> int \<Rightarrow> int" where
  "ceil_div n s = (n + s - 1) div s"

lemma ceil_div_covers: "0 < s \<Longrightarrow> n \<le> ceil_div n s * s"
proof -
  assume s: "0 < s"
  have "(n + s - 1) div s * s = (n + s - 1) - (n + s - 1) mod s"
    by (simp add: minus_mod_eq_div_mult)
  moreover have "(n + s - 1) mod s < s"
    using s by simp
  ultimately show ?thesis
    unfolding ceil_div_def by linarith
qed

lemma ceil_div_tight: "0 < s \<Longrightarrow> (ceil_div n s - 1) * s < n"
proof -
  assume s: "0 < s"
  have "(n + s - 1) div s * s = (n + s - 1) - (n + s - 1) mod s"
    by (simp add: minus_mod_eq_div_mult)
  moreover have "0 \<le> (n + s - 1) mod s"
    using s by simp
  moreover have "((n + s - 1) div s - 1) * s = (n + s - 1) div s * s - s"
    by (simp add: left_diff_distrib)
  ultimately show ?thesis
    unfolding ceil_div_def by linarith
qed

lemma ceil_div_le_iff: "0 < s \<Longrightarrow> ceil_div n s \<le> k \<longleftrightarrow> n \<le> k * s"
proof
  assume s: "0 < s" and le: "ceil_div n s \<le> k"
  then have "ceil_div n s * s \<le> k * s"
    by (simp add: mult_right_mono)
  with ceil_div_covers [OF s, of n] show "n \<le> k * s" by linarith
next
  assume s: "0 < s" and le: "n \<le> k * s"
  with ceil_div_tight [OF s, of n] have "(ceil_div n s - 1) * s < k * s" by linarith
  then have "ceil_div n s - 1 < k"
    using s by (simp add: mult_less_cancel_right)
  then show "ceil_div n s \<le> k" by linarith
qed

lemma ceil_div_pos: "0 < s \<Longrightarrow> 0 < n \<Longrightarrow> 0 < ceil_div n s"
  using ceil_div_le_iff [of s n 0] by linarith

lemma ceil_div_nonneg: "0 < s \<Longrightarrow> 0 \<le> n \<Longrightarrow> 0 \<le> ceil_div n s"
  by (simp add: ceil_div_def pos_imp_zdiv_nonneg_iff)

lemma ceil_div_mono: "0 < s \<Longrightarrow> m \<le> n \<Longrightarrow> ceil_div m s \<le> ceil_div n s"
  by (simp add: ceil_div_def zdiv_mono1)

section \<open>Lists\<close>

text \<open>\<open>for b in bs: rs[b] = f(rs[b])\<close> over a list without repetitions.\<close>

definition update_at :: "('a \<Rightarrow> 'a) \<Rightarrow> nat list \<Rightarrow> 'a list \<Rightarrow> 'a list" where
  "update_at f bs rs = fold (\<lambda>b rs. rs[b := f (rs ! b)]) bs rs"

lemma update_at_simps [simp]:
  "update_at f [] rs = rs"
  "update_at f (b # bs) rs = update_at f bs (rs[b := f (rs ! b)])"
  by (simp_all add: update_at_def)

lemma length_update_at [simp]: "length (update_at f bs rs) = length rs"
  by (induction bs arbitrary: rs) auto

lemma nth_update_at:
  "distinct bs \<Longrightarrow> i < length rs \<Longrightarrow>
   update_at f bs rs ! i = (if i \<in> set bs then f (rs ! i) else rs ! i)"
proof (induction bs arbitrary: rs)
  case (Cons b bs)
  then show ?case by (cases "i = b") (auto simp: nth_list_update)
qed simp

lemma take_rev_take_drop:
  "n \<le> length xs \<Longrightarrow> take (length xs - n) xs @ rev (take n (rev xs)) = xs"
  by (simp add: take_rev)

lemma set_take_rev_disjoint:
  assumes "distinct xs" and "n \<le> length xs"
  shows "set (take n (rev xs)) \<inter> set (take (length xs - n) xs) = {}"
proof -
  have "distinct (take (length xs - n) xs @ rev (take n (rev xs)))"
    using assms by (simp add: take_rev_take_drop)
  then show ?thesis by auto
qed

lemma sort_eqI: "mset xs = mset ys \<Longrightarrow> sorted ys \<Longrightarrow> sort xs = ys"
  by (metis properties_for_sort)

text \<open>Flattening equally long pages: element \<open>i\<close> is in page \<open>i div k\<close> at offset \<open>i mod k\<close>.\<close>

lemma length_concat_uniform:
  "\<forall>p \<in> set ps. length p = k \<Longrightarrow> length (concat ps) = length ps * k"
  by (induction ps) auto

lemma nth_concat_uniform:
  "\<forall>p \<in> set ps. length p = k \<Longrightarrow> i < length ps * k \<Longrightarrow>
   concat ps ! i = ps ! (i div k) ! (i mod k)"
proof (induction ps arbitrary: i)
  case (Cons p ps)
  then have p: "length p = k" and k: "0 < k" by (auto intro: gr0I)
  show ?case
  proof (cases "i < k")
    case True
    with p show ?thesis by (simp add: nth_append)
  next
    case False
    then have "i div k = Suc ((i - k) div k)" and "i mod k = (i - k) mod k"
      using k by (simp_all add: le_div_geq le_mod_geq)
    with False Cons p show ?thesis by (simp add: nth_append)
  qed
qed simp

text \<open>A position below \<open>n * s\<close> lies in one of the pages \<open>0 \<dots> n - 1\<close>.\<close>

lemma page_index:
  fixes s t :: int
  assumes "0 < s" and "0 \<le> t" and "t < int n * s"
  shows "0 \<le> t div s" and "nat (t div s) < n"
proof -
  show p: "0 \<le> t div s" using assms by (simp add: pos_imp_zdiv_nonneg_iff)
  have "t div s * s \<le> t" using assms(1) by (simp add: minus_mod_eq_div_mult [symmetric])
  with assms(3) have "t div s * s < int n * s" by linarith
  then have "t div s < int n" using assms(1) by (simp add: mult_less_cancel_right)
  with p show "nat (t div s) < n" by linarith
qed

lemma page_index_nat:
  fixes s t :: nat
  shows "t < n * s \<Longrightarrow> t div s < n"
  by (simp add: less_mult_imp_div_less)

section \<open>Minimum and maximum by key\<close>

text \<open>
  Python's \<open>min(xs, key=f)\<close> and \<open>max(xs, key=f)\<close>: the first element whose key is
  extremal. The head is given separately, because both raise on an empty sequence.
\<close>

fun least_by :: "('a \<Rightarrow> 'k::linorder) \<Rightarrow> 'a \<Rightarrow> 'a list \<Rightarrow> 'a" where
  "least_by f x [] = x"
| "least_by f x (y # ys) = least_by f (if f y < f x then y else x) ys"

fun greatest_by :: "('a \<Rightarrow> 'k::linorder) \<Rightarrow> 'a \<Rightarrow> 'a list \<Rightarrow> 'a" where
  "greatest_by f x [] = x"
| "greatest_by f x (y # ys) = greatest_by f (if f x < f y then y else x) ys"

lemma least_by_in: "least_by f x ys \<in> insert x (set ys)"
proof (induction ys arbitrary: x)
  case (Cons y ys)
  show ?case using Cons.IH [of x] Cons.IH [of y] by (cases "f y < f x") (simp_all, blast+)
qed simp

lemma least_by_le: "z \<in> insert x (set ys) \<Longrightarrow> f (least_by f x ys) \<le> f z"
proof (induction ys arbitrary: x z)
  case (Cons y ys)
  show ?case
  proof (cases "f y < f x")
    case True
    with Cons.IH [of z y] Cons.IH [of y y] Cons.prems show ?thesis by (auto intro: order.strict_implies_order order_trans)
  next
    case False
    with Cons.IH [of z x] Cons.IH [of x x] Cons.prems show ?thesis by (auto simp: not_less intro: order_trans)
  qed
qed simp

lemma greatest_by_in: "greatest_by f x ys \<in> insert x (set ys)"
proof (induction ys arbitrary: x)
  case (Cons y ys)
  show ?case using Cons.IH [of x] Cons.IH [of y] by (cases "f x < f y") (simp_all, blast+)
qed simp

lemma greatest_by_ge: "z \<in> insert x (set ys) \<Longrightarrow> f z \<le> f (greatest_by f x ys)"
proof (induction ys arbitrary: x z)
  case (Cons y ys)
  show ?case
  proof (cases "f x < f y")
    case True
    with Cons.IH [of z y] Cons.IH [of y y] Cons.prems show ?thesis by (auto intro: order.strict_implies_order order_trans)
  next
    case False
    with Cons.IH [of z x] Cons.IH [of x x] Cons.prems show ?thesis by (auto simp: not_less intro: order_trans)
  qed
qed simp

section \<open>Dictionaries that are iterated\<close>

text \<open>
  A Python dictionary that the source iterates or counts is an association list in
  insertion order, updated with \<open>AList.update\<close> and \<open>AList.delete\<close>.
\<close>

lemma length_delete_less: "map_of al k \<noteq> None \<Longrightarrow> length (AList.delete k al) < length al"
proof (induction al)
  case (Cons p al)
  then show ?case
    using AList.length_delete_le [of k al] by (cases p) (auto simp: less_Suc_eq_le split: if_splits)
qed simp

lemma map_of_map_entry_app:
  "map_of (AList.map_entry k f al) x = (if x = k then map_option f (map_of al k) else map_of al x)"
  by (simp add: AList.map_of_map_entry split: option.split)

lemma keys_map_entry [simp]: "map fst (AList.map_entry k f al) = map fst al"
  by (induction al) auto

lemma length_map_entry [simp]: "length (AList.map_entry k f al) = length al"
  by (metis keys_map_entry length_map)

end
