(* ===== verification/Block_Allocator.thy ===== *)
theory Block_Allocator
  imports Prelude
begin

text \<open>
  The reference-counted allocator of physical KV blocks: \<open>BlockAllocator\<close> of
  \<open>engine/cache/allocator.py\<close>. Blocks are shared by copy-on-write prefixes, so a
  block returns to the free list only when its last owner releases it.

  Owners are Python objects used as dictionary keys: request ids (strings), the
  prefix cache's \<open>_CacheOwner\<close> and \<open>_ExactOwner\<close>. Physical block ids are list
  indices and are natural numbers here, so the lower half of the range checks
  \<open>0 <= block_id < num_blocks\<close> is carried by the type.
\<close>

section \<open>State\<close>

datatype owner = Req string | CacheOwner nat | ExactOwner nat

text \<open>\<open>not request_id\<close>: the empty string is falsy, the cache's owner objects never are.\<close>

fun falsy_owner :: "owner \<Rightarrow> bool" where
  "falsy_owner (Req s) = (s = [])"
| "falsy_owner (CacheOwner _) = False"
| "falsy_owner (ExactOwner _) = False"

record block_allocator =
  num_blocks :: nat
  block_size_tokens :: int
  free_blocks :: "nat list"
  allocations :: "owner \<rightharpoonup> nat list"
  refcounts :: "int list"

section \<open>Operations\<close>

definition block_allocator_init :: "int \<Rightarrow> int \<Rightarrow> block_allocator result" where
  "block_allocator_init n bs =
     (if n \<le> 0 \<or> bs \<le> 0 then Inl ValueError
      else Inr \<lparr>num_blocks = nat n, block_size_tokens = bs, free_blocks = [0..<nat n],
                allocations = Map.empty, refcounts = replicate (nat n) 0\<rparr>)"

text \<open>
  \<open>tuple(self._free_blocks.pop() for _ in range(count))\<close>: blocks come off the end of
  the free list, one at a time.
\<close>

fun pop_blocks :: "nat \<Rightarrow> nat list \<Rightarrow> nat list \<times> nat list" where
  "pop_blocks 0 fs = ([], fs)"
| "pop_blocks (Suc k) fs = (let (bs, fs') = pop_blocks k (butlast fs) in (last fs # bs, fs'))"

definition block_allocate ::
  "block_allocator \<Rightarrow> owner \<Rightarrow> int \<Rightarrow> (nat list option \<times> block_allocator) result" where
  "block_allocate al request_id cnt =
     (if falsy_owner request_id \<or> cnt \<le> 0 then Inl ValueError
      else if request_id \<in> dom (allocations al) then Inl ValueError
      else if cnt > int (length (free_blocks al)) then Inr (None, al)
      else let (block_ids, free') = pop_blocks (nat cnt) (free_blocks al) in
        Inr (Some block_ids,
             al\<lparr>free_blocks := free',
                allocations := (allocations al)(request_id \<mapsto> block_ids),
                refcounts := update_at (\<lambda>_. 1) block_ids (refcounts al)\<rparr>))"

definition block_attach ::
  "block_allocator \<Rightarrow> owner \<Rightarrow> nat list \<Rightarrow> (nat list \<times> block_allocator) result" where
  "block_attach al request_id block_ids =
     (if falsy_owner request_id \<or> block_ids = [] then Inl ValueError
      else if request_id \<in> dom (allocations al) then Inl ValueError
      else if card (set block_ids) \<noteq> length block_ids then Inl ValueError
      else if list_ex (\<lambda>b. \<not> b < num_blocks al \<or> refcounts al ! b = 0) block_ids then Inl ValueError
      else Inr (block_ids,
             al\<lparr>allocations := (allocations al)(request_id \<mapsto> block_ids),
                refcounts := update_at (\<lambda>c. c + 1) block_ids (refcounts al)\<rparr>))"

text \<open>The release loop: decrement each count and collect the blocks that reach zero.\<close>

fun drop_references :: "nat list \<Rightarrow> int list \<Rightarrow> int list \<times> nat list" where
  "drop_references [] rs = (rs, [])"
| "drop_references (b # bs) rs =
     (let rs1 = rs[b := rs ! b - 1];
          (rs2, freed) = drop_references bs rs1
      in (rs2, (if rs1 ! b = 0 then [b] else []) @ freed))"

definition block_release ::
  "block_allocator \<Rightarrow> owner \<Rightarrow> (nat list \<times> block_allocator) result" where
  "block_release al request_id =
     (case allocations al request_id of
        None \<Rightarrow> Inl KeyError
      | Some block_ids \<Rightarrow>
          let (rs, freed) = drop_references block_ids (refcounts al) in
          Inr (block_ids,
               al\<lparr>allocations := (allocations al)(request_id := None),
                  refcounts := rs,
                  free_blocks := sort (free_blocks al @ freed)\<rparr>))"

definition block_extend ::
  "block_allocator \<Rightarrow> owner \<Rightarrow> int \<Rightarrow> (nat list option \<times> block_allocator) result" where
  "block_extend al request_id cnt =
     (if cnt \<le> 0 then Inl ValueError
      else case allocations al request_id of
        None \<Rightarrow> Inl KeyError
      | Some held \<Rightarrow>
          if cnt > int (length (free_blocks al)) then Inr (None, al)
          else let (new_blocks, free') = pop_blocks (nat cnt) (free_blocks al) in
            Inr (Some new_blocks,
                 al\<lparr>free_blocks := free',
                    allocations := (allocations al)(request_id \<mapsto> held @ new_blocks),
                    refcounts := update_at (\<lambda>_. 1) new_blocks (refcounts al)\<rparr>))"

definition block_replace_shared ::
  "block_allocator \<Rightarrow> owner \<Rightarrow> int \<Rightarrow> ((nat \<times> nat) option \<times> block_allocator) result" where
  "block_replace_shared al request_id index =
     (case allocations al request_id of
        None \<Rightarrow> Inl KeyError
      | Some blocks \<Rightarrow>
          if \<not> (- int (length blocks) \<le> index \<and> index < int (length blocks)) then Inl IndexError
          else let i = nat (index mod int (length blocks)); old_block = blocks ! i in
            if refcounts al ! old_block \<le> 1 then Inl ValueError
            else if free_blocks al = [] then Inr (None, al)
            else let new_block = last (free_blocks al) in
              Inr (Some (old_block, new_block),
                   al\<lparr>free_blocks := butlast (free_blocks al),
                      refcounts := ((refcounts al)[new_block := 1])
                                     [old_block := (refcounts al)[new_block := 1] ! old_block - 1],
                      allocations := (allocations al)(request_id \<mapsto> blocks[i := new_block])\<rparr>))"

definition block_refcount :: "block_allocator \<Rightarrow> nat \<Rightarrow> int result" where
  "block_refcount al b = (if b < num_blocks al then Inr (refcounts al ! b) else Inl IndexError)"

definition free_block_count :: "block_allocator \<Rightarrow> int" where
  "free_block_count al = int (length (free_blocks al))"

definition used_block_count :: "block_allocator \<Rightarrow> int" where
  "used_block_count al = int (num_blocks al) - free_block_count al"

definition shared_block_count :: "block_allocator \<Rightarrow> int" where
  "shared_block_count al = int (length (filter (\<lambda>c. c > 1) (refcounts al)))"

definition total_references :: "block_allocator \<Rightarrow> int" where
  "total_references al = sum_list (refcounts al)"

section \<open>The allocator invariant\<close>

definition owners_of :: "(owner \<rightharpoonup> nat list) \<Rightarrow> nat \<Rightarrow> owner set" where
  "owners_of m b = {w. \<exists>bs. m w = Some bs \<and> b \<in> set bs}"

abbreviation owners :: "block_allocator \<Rightarrow> nat \<Rightarrow> owner set" where
  "owners al b \<equiv> owners_of (allocations al) b"

text \<open>
  Every reference count is the number of owners of the block, and the free list is
  the sorted list of exactly the blocks nobody owns.
\<close>

definition alloc_inv :: "block_allocator \<Rightarrow> bool" where
  "alloc_inv al \<longleftrightarrow>
     0 < num_blocks al \<and> 0 < block_size_tokens al \<and>
     length (refcounts al) = num_blocks al \<and>
     sorted (free_blocks al) \<and> distinct (free_blocks al) \<and>
     set (free_blocks al) = {b. b < num_blocks al \<and> refcounts al ! b = 0} \<and>
     finite (dom (allocations al)) \<and>
     (\<forall>w bs. allocations al w = Some bs \<longrightarrow> bs \<noteq> [] \<and> distinct bs \<and> set bs \<subseteq> {..<num_blocks al}) \<and>
     (\<forall>b < num_blocks al. refcounts al ! b = int (card (owners al b)))"

lemma owners_of_upd:
  "owners_of (m(w \<mapsto> bs)) b = (owners_of m b - {w}) \<union> (if b \<in> set bs then {w} else {})"
  by (auto simp: owners_of_def)

lemma owners_of_del: "owners_of (m(w := None)) b = owners_of m b - {w}"
  by (auto simp: owners_of_def split: if_splits)

lemma owners_of_empty [simp]: "owners_of Map.empty b = {}"
  by (simp add: owners_of_def)

lemma finite_owners_of: "finite (dom m) \<Longrightarrow> finite (owners_of m b)"
  by (rule finite_subset [of _ "dom m"]) (auto simp: owners_of_def)

lemma not_owner_outside_dom: "w \<notin> dom m \<Longrightarrow> w \<notin> owners_of m b"
  by (auto simp: owners_of_def)

text \<open>How the number of owners of a block moves with the owner map.\<close>

lemma card_owners_new:
  assumes "finite (dom m)" and "w \<notin> dom m"
  shows "int (card (owners_of (m(w \<mapsto> bs)) b))
       = int (card (owners_of m b)) + (if b \<in> set bs then 1 else 0)"
  using assms not_owner_outside_dom [of w m b] finite_owners_of [of m b]
  by (simp add: owners_of_upd)

lemma card_owners_del:
  assumes "finite (dom m)" and "m w = Some bs"
  shows "int (card (owners_of (m(w := None)) b))
       = int (card (owners_of m b)) - (if b \<in> set bs then 1 else 0)"
proof (cases "b \<in> set bs")
  case True
  then have "w \<in> owners_of m b" using assms by (auto simp: owners_of_def)
  moreover from this have "0 < card (owners_of m b)"
    using finite_owners_of [OF assms(1)] by (auto simp: card_gt_0_iff)
  ultimately show ?thesis
    using True finite_owners_of [OF assms(1), of b]
    by (simp add: owners_of_del of_nat_diff)
next
  case False
  then have "w \<notin> owners_of m b" using assms by (auto simp: owners_of_def)
  with False show ?thesis by (simp add: owners_of_del)
qed

lemma owners_nonempty_iff: "finite (dom m) \<Longrightarrow> card (owners_of m b) = 0 \<longleftrightarrow> owners_of m b = {}"
  by (simp add: finite_owners_of)

subsection \<open>The loops, in closed form\<close>

lemma pop_blocks_eq:
  "k \<le> length fs \<Longrightarrow> pop_blocks k fs = (take k (rev fs), take (length fs - k) fs)"
proof (induction k arbitrary: fs)
  case (Suc k)
  then obtain ys y where fs: "fs = ys @ [y]" by (cases fs rule: rev_cases) auto
  with Suc show ?case by simp
qed simp

lemma drop_references_eq:
  assumes "distinct bs" and "\<forall>b \<in> set bs. b < length rs"
  shows "drop_references bs rs
       = (update_at (\<lambda>c. c - 1) bs rs, filter (\<lambda>b. rs ! b = 1) bs)"
  using assms
proof (induction bs arbitrary: rs)
  case (Cons b bs)
  let ?rs1 = "rs[b := rs ! b - 1]"
  have "filter (\<lambda>x. ?rs1 ! x = 1) bs = filter (\<lambda>x. rs ! x = 1) bs"
    using Cons.prems by (intro filter_cong) (auto simp: nth_list_update)
  with Cons show ?case by (auto simp: Let_def)
qed simp

section \<open>Every operation keeps the invariant\<close>

lemma alloc_invD:
  assumes "alloc_inv al"
  shows "0 < num_blocks al" and "0 < block_size_tokens al"
    and "length (refcounts al) = num_blocks al"
    and "sorted (free_blocks al)" and "distinct (free_blocks al)"
    and "set (free_blocks al) = {b. b < num_blocks al \<and> refcounts al ! b = 0}"
    and "finite (dom (allocations al))"
  using assms by (auto simp: alloc_inv_def)

lemma alloc_inv_free_iff:
  "alloc_inv al \<Longrightarrow> b \<in> set (free_blocks al) \<longleftrightarrow> b < num_blocks al \<and> refcounts al ! b = 0"
  by (simp add: alloc_inv_def)

lemma nth_update_refcounts:
  "alloc_inv al \<Longrightarrow> distinct bs \<Longrightarrow> b < num_blocks al \<Longrightarrow>
   update_at f bs (refcounts al) ! b = (if b \<in> set bs then f (refcounts al ! b) else refcounts al ! b)"
  by (simp add: nth_update_at alloc_inv_def)

lemma alloc_invI:
  assumes "0 < num_blocks al" and "0 < block_size_tokens al"
    and "length (refcounts al) = num_blocks al"
    and "sorted (free_blocks al)" and "distinct (free_blocks al)"
    and "set (free_blocks al) = {b. b < num_blocks al \<and> refcounts al ! b = 0}"
    and "finite (dom (allocations al))"
    and "\<And>w bs. allocations al w = Some bs \<Longrightarrow> bs \<noteq> [] \<and> distinct bs \<and> set bs \<subseteq> {..<num_blocks al}"
    and "\<And>b. b < num_blocks al \<Longrightarrow> refcounts al ! b = int (card (owners al b))"
  shows "alloc_inv al"
  using assms by (simp add: alloc_inv_def)

lemma alloc_inv_owned:
  assumes "alloc_inv al" and "allocations al w = Some bs"
  shows "bs \<noteq> []" and "distinct bs" and "set bs \<subseteq> {..<num_blocks al}"
  using assms by (auto simp: alloc_inv_def)

lemma alloc_inv_refcount:
  "alloc_inv al \<Longrightarrow> b < num_blocks al \<Longrightarrow> refcounts al ! b = int (card (owners al b))"
  by (simp add: alloc_inv_def)

lemma alloc_inv_free_unowned:
  assumes "alloc_inv al" and "b \<in> set (free_blocks al)"
  shows "owners al b = {}" and "b < num_blocks al"
proof -
  show b: "b < num_blocks al" using assms by (auto simp: alloc_inv_def)
  have "card (owners al b) = 0"
    using assms b alloc_inv_refcount [OF assms(1) b] by (auto simp: alloc_inv_def)
  then show "owners al b = {}"
    using finite_owners_of [OF alloc_invD(7) [OF assms(1)]] by simp
qed

lemma alloc_inv_owned_live:
  assumes "alloc_inv al" and "allocations al w = Some bs" and "b \<in> set bs"
  shows "1 \<le> refcounts al ! b"
proof -
  have "b < num_blocks al" using assms alloc_inv_owned(3) by blast
  moreover have "w \<in> owners al b" using assms by (auto simp: owners_of_def)
  then have "0 < card (owners al b)"
    using finite_owners_of [OF alloc_invD(7) [OF assms(1)]] by (auto simp: card_gt_0_iff)
  ultimately show ?thesis using alloc_inv_refcount [OF assms(1)] by simp
qed

lemma init_inv: "block_allocator_init n bs = Inr al \<Longrightarrow> alloc_inv al"
  by (auto simp: block_allocator_init_def alloc_inv_def split: if_splits)

text \<open>What taking \<open>k\<close> blocks off the free list yields, shared by allocate and extend.\<close>

lemma taken_blocks:
  assumes inv: "alloc_inv al" and k: "k \<le> length (free_blocks al)"
    and pop: "pop_blocks k (free_blocks al) = (bs, fs)"
  shows "bs = take k (rev (free_blocks al))"
    and "fs = take (length (free_blocks al) - k) (free_blocks al)"
    and "distinct bs" and "length bs = k" and "set bs \<union> set fs = set (free_blocks al)"
    and "set bs \<inter> set fs = {}" and "sorted fs" and "distinct fs"
    and "\<forall>b \<in> set bs. owners al b = {} \<and> b < num_blocks al \<and> refcounts al ! b = 0"
proof -
  show bs: "bs = take k (rev (free_blocks al))"
    and fs: "fs = take (length (free_blocks al) - k) (free_blocks al)"
    using pop pop_blocks_eq [OF k] by auto
  show "distinct bs" using alloc_invD(5) [OF inv] by (simp add: bs)
  show "length bs = k" using k by (simp add: bs)
  have split: "fs @ rev bs = free_blocks al" using k by (simp add: bs fs take_rev_take_drop)
  then show un: "set bs \<union> set fs = set (free_blocks al)" by (metis Un_commute set_append set_rev)
  have "distinct (fs @ rev bs)" using split alloc_invD(5) [OF inv] by simp
  then show "set bs \<inter> set fs = {}" and "distinct fs" by auto
  show "sorted fs" using alloc_invD(4) [OF inv] by (simp add: fs sorted_wrt_take)
  show "\<forall>b \<in> set bs. owners al b = {} \<and> b < num_blocks al \<and> refcounts al ! b = 0"
    using un alloc_inv_free_unowned [OF inv] alloc_invD(6) [OF inv] by blast
qed

text \<open>
  The common step of allocate, extend and copy-on-write: owner \<open>w\<close> comes to hold \<open>held\<close>,
  which adds the blocks \<open>bs\<close> taken from the free list to what it held.
\<close>

lemma grant_inv:
  assumes inv: "alloc_inv al" and k: "k \<le> length (free_blocks al)"
    and pop: "pop_blocks k (free_blocks al) = (bs, fs)"
    and held: "case allocations al w of None \<Rightarrow> held = bs \<and> bs \<noteq> [] | Some old \<Rightarrow> held = old @ bs"
  shows "alloc_inv (al\<lparr>free_blocks := fs, allocations := (allocations al)(w \<mapsto> held),
                      refcounts := update_at (\<lambda>_. 1) bs (refcounts al)\<rparr>)"
proof -
  note t = taken_blocks [OF inv k pop] and d = alloc_invD [OF inv]
  have old: "\<And>old. allocations al w = Some old \<Longrightarrow> set bs \<inter> set old = {}"
    using t(9) by (fastforce simp: owners_of_def)
  have own: "owners_of ((allocations al)(w \<mapsto> held)) b
      = owners al b \<union> (if b \<in> set bs then {w} else {})" for b
    using held by (auto simp: owners_of_upd owners_of_def split: option.splits)
  have wf: "held \<noteq> [] \<and> distinct held \<and> set held \<subseteq> {..<num_blocks al}"
  proof (cases "allocations al w")
    case None
    with held t(3,9) show ?thesis by auto
  next
    case (Some prev)
    with held t(3,9) old [OF Some] alloc_inv_owned [OF inv Some] show ?thesis by auto
  qed
  show ?thesis
  proof (rule alloc_invI, simp_all add: d(1-3) d(7) t(7,8))
    have "set fs = set (free_blocks al) - set bs" using t(5,6) by blast
    then show "set fs = {b. b < num_blocks al \<and> update_at (\<lambda>_. 1) bs (refcounts al) ! b = 0}"
      using alloc_inv_free_iff [OF inv] nth_update_refcounts [OF inv t(3)] t(9) by fastforce
  next
    fix w' bs' assume "(if w' = w then Some held else allocations al w') = Some bs'"
    then show "bs' \<noteq> [] \<and> distinct bs' \<and> set bs' \<subseteq> {..<num_blocks al}"
      using wf alloc_inv_owned [OF inv, of w' bs'] by (cases "w' = w") auto
  next
    fix b assume b: "b < num_blocks al"
    show "update_at (\<lambda>_. 1) bs (refcounts al) ! b = int (card (owners_of ((allocations al)(w \<mapsto> held)) b))"
    proof (cases "b \<in> set bs")
      case True
      with t(9) have "owners al b = {}" by blast
      with True b show ?thesis by (simp add: own nth_update_at t(3) d(3))
    next
      case False
      with b show ?thesis
        by (simp add: own nth_update_at t(3) d(3) alloc_inv_refcount [OF inv b])
    qed
  qed
qed


lemma allocate_inv:
  assumes inv: "alloc_inv al" and run: "block_allocate al w cnt = Inr (r, al')"
  shows "alloc_inv al'"
proof -
  obtain bs fs where pop: "pop_blocks (nat cnt) (free_blocks al) = (bs, fs)" by fastforce
  show ?thesis
  proof (cases "cnt > int (length (free_blocks al))")
    case True
    with run inv show ?thesis by (auto simp: block_allocate_def split: if_splits)
  next
    case False
    then have k: "nat cnt \<le> length (free_blocks al)" by simp
    from run False have g: "0 < cnt" "allocations al w = None"
      and al': "al' = al\<lparr>free_blocks := fs, allocations := (allocations al)(w \<mapsto> bs),
                          refcounts := update_at (\<lambda>_. 1) bs (refcounts al)\<rparr>"
      by (auto simp: block_allocate_def pop domIff split: if_splits)
    from taken_blocks(4) [OF inv k pop] g have "bs \<noteq> []" by auto
    with grant_inv [OF inv k pop, where w = w and held = bs] g show ?thesis by (simp add: al')
  qed
qed

lemma extend_inv:
  assumes inv: "alloc_inv al" and run: "block_extend al w cnt = Inr (r, al')"
  shows "alloc_inv al'"
proof -
  obtain bs fs where pop: "pop_blocks (nat cnt) (free_blocks al) = (bs, fs)" by fastforce
  from run obtain held where h: "allocations al w = Some held"
    by (auto simp: block_extend_def split: if_splits option.splits)
  show ?thesis
  proof (cases "cnt > int (length (free_blocks al))")
    case True
    with run inv h show ?thesis by (auto simp: block_extend_def split: if_splits)
  next
    case False
    then have k: "nat cnt \<le> length (free_blocks al)" by simp
    from run False h have
      "al' = al\<lparr>free_blocks := fs, allocations := (allocations al)(w \<mapsto> held @ bs),
                 refcounts := update_at (\<lambda>_. 1) bs (refcounts al)\<rparr>"
      by (auto simp: block_extend_def pop split: if_splits)
    with grant_inv [OF inv k pop, where w = w and held = "held @ bs"] h show ?thesis by simp
  qed
qed

lemma attach_inv:
  assumes inv: "alloc_inv al" and run: "block_attach al w bs = Inr (r, al')"
  shows "alloc_inv al'"
proof -
  note d = alloc_invD [OF inv]
  from run have new: "w \<notin> dom (allocations al)" and ne: "bs \<noteq> []" and dist: "distinct bs"
    and live: "\<forall>b \<in> set bs. b < num_blocks al \<and> refcounts al ! b \<noteq> 0"
    and al': "al' = al\<lparr>allocations := (allocations al)(w \<mapsto> bs),
                        refcounts := update_at (\<lambda>c. c + 1) bs (refcounts al)\<rparr>"
    by (auto simp: block_attach_def list_ex_iff card_distinct split: if_splits)
  show ?thesis
  proof (rule alloc_invI, simp_all add: al' d(1-5) d(7))
    have "0 \<le> refcounts al ! b" if "b < num_blocks al" for b
      using alloc_inv_refcount [OF inv that] by simp
    then have "b \<in> set (free_blocks al) \<longleftrightarrow>
        b < num_blocks al \<and> update_at (\<lambda>c. c + 1) bs (refcounts al) ! b = 0" for b
      using live alloc_inv_free_iff [OF inv, of b] nth_update_refcounts [OF inv dist, of b "\<lambda>c. c + 1"]
      by (cases "b < num_blocks al") (fastforce split: if_splits)+
    then show "set (free_blocks al) = {b. b < num_blocks al \<and> update_at (\<lambda>c. c + 1) bs (refcounts al) ! b = 0}"
      by blast
  next
    fix w' bs' assume "(if w' = w then Some bs else allocations al w') = Some bs'"
    then show "bs' \<noteq> [] \<and> distinct bs' \<and> set bs' \<subseteq> {..<num_blocks al}"
      using ne dist live alloc_inv_owned [OF inv, of w' bs'] by (cases "w' = w") auto
  next
    fix b assume b: "b < num_blocks al"
    show "update_at (\<lambda>c. c + 1) bs (refcounts al) ! b = int (card (owners_of ((allocations al)(w \<mapsto> bs)) b))"
      by (simp add: card_owners_new [OF d(7) new] nth_update_at dist d(3) b alloc_inv_refcount [OF inv b])
  qed
qed

lemma release_eq:
  assumes inv: "alloc_inv al" and bs: "allocations al w = Some bs"
  shows "block_release al w = Inr (bs,
    al\<lparr>allocations := (allocations al)(w := None),
       refcounts := update_at (\<lambda>c. c - 1) bs (refcounts al),
       free_blocks := sort (free_blocks al @ filter (\<lambda>b. refcounts al ! b = 1) bs)\<rparr>)"
proof -
  have "\<forall>b \<in> set bs. b < length (refcounts al)"
    using alloc_inv_owned(3) [OF inv bs] alloc_invD(3) [OF inv] by auto
  then show ?thesis
    by (simp add: block_release_def bs drop_references_eq [OF alloc_inv_owned(2) [OF inv bs]])
qed

lemma release_inv:
  assumes inv: "alloc_inv al" and run: "block_release al w = Inr (r, al')"
  shows "alloc_inv al'"
proof -
  note d = alloc_invD [OF inv]
  from run obtain bs where bs: "allocations al w = Some bs"
    by (auto simp: block_release_def split: option.splits)
  note own = alloc_inv_owned [OF inv bs]
  let ?freed = "filter (\<lambda>b. refcounts al ! b = 1) bs"
  have al': "al' = al\<lparr>allocations := (allocations al)(w := None),
       refcounts := update_at (\<lambda>c. c - 1) bs (refcounts al),
       free_blocks := sort (free_blocks al @ ?freed)\<rparr>"
    using run release_eq [OF inv bs] by auto
  have live: "b < num_blocks al \<and> 1 \<le> refcounts al ! b" if "b \<in> set bs" for b
    using that own(3) alloc_inv_owned_live [OF inv bs that] by blast
  have disj: "distinct (free_blocks al @ ?freed)"
    using d(5) own(2) live alloc_inv_free_iff [OF inv] by fastforce
  have mem: "set (sort (free_blocks al @ ?freed)) =
      {b. b < num_blocks al \<and> update_at (\<lambda>c. c - 1) bs (refcounts al) ! b = 0}"
  proof (rule set_eqI)
    fix b
    show "b \<in> set (sort (free_blocks al @ ?freed)) \<longleftrightarrow>
        b \<in> {b. b < num_blocks al \<and> update_at (\<lambda>c. c - 1) bs (refcounts al) ! b = 0}"
      using live [of b] alloc_inv_free_iff [OF inv, of b] nth_update_refcounts [OF inv own(2), of b "\<lambda>c. c - 1"]
      by (cases "b \<in> set bs") auto
  qed
  have f: "num_blocks al' = num_blocks al" "block_size_tokens al' = block_size_tokens al"
    "free_blocks al' = sort (free_blocks al @ ?freed)" "allocations al' = (allocations al)(w := None)"
    "refcounts al' = update_at (\<lambda>c. c - 1) bs (refcounts al)"
    by (simp_all add: al')
  show ?thesis
  proof (rule alloc_invI, unfold f)
    fix b assume b: "b < num_blocks al"
    show "update_at (\<lambda>c. c - 1) bs (refcounts al) ! b = int (card (owners_of ((allocations al)(w := None)) b))"
      by (simp add: card_owners_del [OF d(7) bs] nth_update_at own(2) d(3) b alloc_inv_refcount [OF inv b])
  next
    fix w' bs' assume "((allocations al)(w := None)) w' = Some bs'"
    then show "bs' \<noteq> [] \<and> distinct bs' \<and> set bs' \<subseteq> {..<num_blocks al}"
      using alloc_inv_owned [OF inv, of w' bs'] by (cases "w' = w") auto
  qed (use d mem disj in \<open>simp_all only: sorted_sort distinct_sort length_update_at, simp_all\<close>)
qed

lemma replace_shared_run:
  assumes "block_replace_shared al w index = Inr (Some (old, new), al')"
  obtains blocks i where "allocations al w = Some blocks" and "i < length blocks"
    and "i = nat (index mod int (length blocks))"
    and "old = blocks ! i" and "1 < refcounts al ! old"
    and "free_blocks al \<noteq> []" and "new = last (free_blocks al)"
    and "al' = al\<lparr>free_blocks := butlast (free_blocks al),
                 refcounts := ((refcounts al)[new := 1])[old := (refcounts al)[new := 1] ! old - 1],
                 allocations := (allocations al)(w \<mapsto> blocks[i := new])\<rparr>"
proof -
  from assms obtain blocks where b: "allocations al w = Some blocks"
    by (auto simp: block_replace_shared_def split: option.splits)
  with assms have r: "- int (length blocks) \<le> index" "index < int (length blocks)"
    by (auto simp: block_replace_shared_def split: if_splits)
  then have "0 < int (length blocks)" by linarith
  then have i: "nat (index mod int (length blocks)) < length blocks"
    by (simp add: nat_less_iff)
  with assms b r show thesis
    by (intro that [of blocks "nat (index mod int (length blocks))"])
      (auto simp: block_replace_shared_def Let_def split: if_splits)
qed

lemma replace_shared_inv:
  assumes inv: "alloc_inv al" and run: "block_replace_shared al w index = Inr (r, al')"
  shows "alloc_inv al'"
proof (cases r)
  case None
  with run inv show ?thesis
    by (auto simp: block_replace_shared_def Let_def split: option.splits if_splits)
next
  case (Some p)
  obtain old new where "p = (old, new)" by fastforce
  with run Some obtain blocks i where m: "allocations al w = Some blocks" and i: "i < length blocks"
    and old: "old = blocks ! i" and shared: "1 < refcounts al ! old"
    and ne: "free_blocks al \<noteq> []" and new: "new = last (free_blocks al)"
    and al': "al' = al\<lparr>free_blocks := butlast (free_blocks al),
                 refcounts := ((refcounts al)[new := 1])[old := (refcounts al)[new := 1] ! old - 1],
                 allocations := (allocations al)(w \<mapsto> blocks[i := new])\<rparr>"
    by (auto elim: replace_shared_run)
  note d = alloc_invD [OF inv] and own = alloc_inv_owned [OF inv m]
  have new_free: "new \<in> set (free_blocks al)" using ne new by simp
  note nf = alloc_inv_free_unowned [OF inv new_free]
  have "new \<notin> set blocks" using nf(1) m by (auto simp: owners_of_def)
  moreover have oldin: "old \<in> set blocks" using old i by simp
  ultimately have neq: "new \<noteq> old" by auto
  have oldlt: "old < num_blocks al" using oldin own(3) by blast
  have set': "set (blocks[i := new]) = insert new (set blocks - {old})"
    using i old own(2) by (simp add: set_update_distinct)
  have f: "num_blocks al' = num_blocks al" "block_size_tokens al' = block_size_tokens al"
    "free_blocks al' = butlast (free_blocks al)"
    "allocations al' = (allocations al)(w \<mapsto> blocks[i := new])"
    "refcounts al' = ((refcounts al)[new := 1])[old := refcounts al ! old - 1]"
    using neq by (simp_all add: al')
  have ref: "refcounts al' ! b = (if b = new then 1 else if b = old then refcounts al ! old - 1 else refcounts al ! b)"
    if "b < num_blocks al" for b
    using that d(3) neq by (auto simp: f nth_list_update)
  have owns: "owners al' b = (if b = new then {w} else if b = old then owners al b - {w} else owners al b)" for b
    using m set' nf(1) neq \<open>new \<notin> set blocks\<close> by (auto simp: f owners_of_upd owners_of_def)
  have free: "set (free_blocks al) = insert new (set (butlast (free_blocks al)))"
    and newfresh: "new \<notin> set (butlast (free_blocks al))"
    using d(5) ne new by (cases "free_blocks al" rule: rev_cases; auto)+
  show ?thesis
  proof (rule alloc_invI)
    fix b assume "b < num_blocks al'"
    then have b: "b < num_blocks al" by (simp add: f)
    have "w \<in> owners al old" using m oldin by (auto simp: owners_of_def)
    moreover from this have "0 < card (owners al old)"
      using finite_owners_of [OF d(7)] by (auto simp: card_gt_0_iff)
    ultimately have "int (card (owners al old - {w})) = int (card (owners al old)) - 1"
      using finite_owners_of [OF d(7)] by (simp add: of_nat_diff)
    then show "refcounts al' ! b = int (card (owners al' b))"
      using alloc_inv_refcount [OF inv b] by (auto simp: ref [OF b] owns)
  next
    have "b \<in> set (butlast (free_blocks al)) \<longleftrightarrow> b < num_blocks al \<and> refcounts al' ! b = 0" for b
    proof (cases "b < num_blocks al")
      case True
      then show ?thesis
        using alloc_inv_free_iff [OF inv, of b] free newfresh shared
        by (auto simp: ref)
    next
      case False
      then show ?thesis using alloc_inv_free_iff [OF inv, of b] free by auto
    qed
    then show "set (free_blocks al') = {b. b < num_blocks al' \<and> refcounts al' ! b = 0}"
      by (auto simp: f)
  next
    fix w' bs' assume "allocations al' w' = Some bs'"
    then show "bs' \<noteq> [] \<and> distinct bs' \<and> set bs' \<subseteq> {..<num_blocks al'}"
      using own nf(2) i set' \<open>new \<notin> set blocks\<close> alloc_inv_owned [OF inv, of w' bs']
      by (cases "w' = w") (auto simp: f distinct_list_update)
  qed (use d ne in \<open>auto simp: f sorted_butlast distinct_butlast\<close>)
qed

section \<open>Functional behaviour\<close>

lemma allocate_cases:
  assumes inv: "alloc_inv al" and run: "block_allocate al w cnt = Inr (r, al')"
  obtains (refused) "r = None" and "al' = al" and "free_block_count al < cnt"
  | (granted) bs where "r = Some bs" and "cnt \<le> free_block_count al" and "0 < cnt"
      and "\<not> falsy_owner w" and "allocations al w = None"
      and "int (length bs) = cnt" and "distinct bs" and "set bs \<subseteq> set (free_blocks al)"
      and "al' = al\<lparr>free_blocks := take (length (free_blocks al) - nat cnt) (free_blocks al),
                    allocations := (allocations al)(w \<mapsto> bs),
                    refcounts := update_at (\<lambda>_. 1) bs (refcounts al)\<rparr>"
      and "bs = take (nat cnt) (rev (free_blocks al))"
proof (cases "cnt > int (length (free_blocks al))")
  case True
  with run show thesis
    by (intro refused) (auto simp: block_allocate_def free_block_count_def split: if_splits)
next
  case False
  obtain bs fs where pop: "pop_blocks (nat cnt) (free_blocks al) = (bs, fs)" by fastforce
  from False have k: "nat cnt \<le> length (free_blocks al)" by simp
  note t = taken_blocks [OF inv k pop]
  from run False pop t show thesis
    by (intro granted [of bs])
      (auto simp: block_allocate_def free_block_count_def domIff split: if_splits)
qed

lemma extend_cases:
  assumes inv: "alloc_inv al" and run: "block_extend al w cnt = Inr (r, al')"
  obtains (refused) "r = None" and "al' = al" and "free_block_count al < cnt" and "w \<in> dom (allocations al)"
  | (granted) bs held where "r = Some bs" and "cnt \<le> free_block_count al" and "0 < cnt"
      and "allocations al w = Some held"
      and "int (length bs) = cnt" and "distinct bs" and "set bs \<subseteq> set (free_blocks al)"
      and "al' = al\<lparr>free_blocks := take (length (free_blocks al) - nat cnt) (free_blocks al),
                    allocations := (allocations al)(w \<mapsto> held @ bs),
                    refcounts := update_at (\<lambda>_. 1) bs (refcounts al)\<rparr>"
proof (cases "cnt > int (length (free_blocks al))")
  case True
  with run show thesis
    by (intro refused) (auto simp: block_extend_def free_block_count_def split: if_splits option.splits)
next
  case False
  obtain bs fs where pop: "pop_blocks (nat cnt) (free_blocks al) = (bs, fs)" by fastforce
  from False have k: "nat cnt \<le> length (free_blocks al)" by simp
  note t = taken_blocks [OF inv k pop]
  from run obtain held where "allocations al w = Some held"
    by (auto simp: block_extend_def split: if_splits option.splits)
  with run False pop t show thesis
    by (intro granted [of bs held]) (auto simp: block_extend_def free_block_count_def split: if_splits)
qed

lemma release_allocate_eq:
  assumes inv: "alloc_inv al" and run: "block_allocate al w cnt = Inr (Some bs, al1)"
  shows "block_release al1 w = Inr (bs, al)"
  using inv run
proof (cases rule: allocate_cases)
  case (granted bs')
  note d = alloc_invD [OF inv] and inv1 = allocate_inv [OF inv run]
  have bs: "bs' = bs" using granted(1) by simp
  note g = granted [unfolded bs]
  have k: "nat cnt \<le> length (free_blocks al)"
    using g(2) by (simp add: free_block_count_def)
  have zero: "refcounts al ! b = 0 \<and> b < num_blocks al" if "b \<in> set bs" for b
    using that g(8) alloc_inv_free_iff [OF inv] by blast
  have "update_at (\<lambda>c. c - 1) bs (refcounts al1) = refcounts al"
    using zero g(7) d(3) by (intro nth_equalityI) (auto simp: g(9) nth_update_at)
  moreover have "filter (\<lambda>b. refcounts al1 ! b = 1) bs = bs"
    using zero g(7) d(3) by (auto simp: g(9) nth_update_at filter_id_conv)
  moreover have "mset (free_blocks al1 @ bs) = mset (free_blocks al)"
    using take_rev_take_drop [OF k] g(9,10) by (metis block_allocator.select_convs(3)
        block_allocator.simps(8) mset_append mset_rev block_allocator.surjective
        block_allocator.update_convs(3-5))
  then have "sort (free_blocks al1 @ bs) = free_blocks al"
    by (rule sort_eqI) (rule d(4))
  moreover have "(allocations al1)(w := None) = allocations al"
    using g(5) by (auto simp: g(9))
  ultimately show ?thesis
    using release_eq [OF inv1, of w bs] by (simp add: g(9))
qed simp

lemma release_attach_eq:
  assumes inv: "alloc_inv al" and run: "block_attach al w bs = Inr (r, al1)"
  shows "r = bs" and "block_release al1 w = Inr (bs, al)"
proof -
  note d = alloc_invD [OF inv] and inv1 = attach_inv [OF inv run]
  from run have new: "allocations al w = None" and dist: "distinct bs"
    and live: "\<forall>b \<in> set bs. b < num_blocks al \<and> refcounts al ! b \<noteq> 0"
    and al1: "al1 = al\<lparr>allocations := (allocations al)(w \<mapsto> bs),
                        refcounts := update_at (\<lambda>c. c + 1) bs (refcounts al)\<rparr>"
    and r: "r = bs"
    by (auto simp: block_attach_def list_ex_iff card_distinct split: if_splits)
  show "r = bs" by (rule r)
  have "update_at (\<lambda>c. c - 1) bs (refcounts al1) = refcounts al"
    using dist live d(3) by (intro nth_equalityI) (auto simp: al1 nth_update_at)
  moreover have "filter (\<lambda>b. refcounts al1 ! b = 1) bs = []"
    using dist live d(3) by (auto simp: al1 nth_update_at filter_empty_conv)
  moreover have "(allocations al1)(w := None) = allocations al"
    using new by (auto simp: al1)
  moreover have "sort (free_blocks al1) = free_blocks al"
    using d(4) by (simp add: al1 sort_key_id_if_sorted)
  ultimately show "block_release al1 w = Inr (bs, al)"
    using release_eq [OF inv1, of w bs] by (simp add: al1)
qed

lemma release_frees:
  assumes inv: "alloc_inv al" and run: "block_release al w = Inr (bs, al')"
  shows "b \<in> set (free_blocks al') \<longleftrightarrow> b \<in> set (free_blocks al) \<or> owners al b = {w}"
proof -
  from run have bs: "allocations al w = Some bs"
    by (auto simp: block_release_def split: option.splits prod.splits)
  have al': "al' = al\<lparr>allocations := (allocations al)(w := None),
       refcounts := update_at (\<lambda>c. c - 1) bs (refcounts al),
       free_blocks := sort (free_blocks al @ filter (\<lambda>b. refcounts al ! b = 1) bs)\<rparr>"
    using run release_eq [OF inv bs] by auto
  have "b \<in> set bs \<and> refcounts al ! b = 1 \<longleftrightarrow> owners al b = {w}"
  proof
    assume a: "b \<in> set bs \<and> refcounts al ! b = 1"
    then have "b < num_blocks al" using alloc_inv_owned(3) [OF inv bs] by blast
    then have "card (owners al b) = 1" using a alloc_inv_refcount [OF inv] by simp
    moreover have "w \<in> owners al b" using a bs by (auto simp: owners_of_def)
    ultimately show "owners al b = {w}" by (auto simp: card_1_singleton_iff)
  next
    assume a: "owners al b = {w}"
    then have "w \<in> owners al b" by simp
    then have "b \<in> set bs" using bs by (auto simp: owners_of_def)
    moreover from this have "b < num_blocks al" using alloc_inv_owned(3) [OF inv bs] by blast
    ultimately show "b \<in> set bs \<and> refcounts al ! b = 1"
      using a alloc_inv_refcount [OF inv] by simp
  qed
  then show ?thesis by (auto simp: al')
qed

lemma used_blocks_owned:
  assumes inv: "alloc_inv al"
  shows "used_block_count al = int (card {b. b < num_blocks al \<and> owners al b \<noteq> {}})"
proof -
  have free: "set (free_blocks al) = {b. b < num_blocks al \<and> owners al b = {}}"
    using alloc_inv_free_iff [OF inv] alloc_inv_refcount [OF inv]
      owners_nonempty_iff [OF alloc_invD(7) [OF inv]] by fastforce
  have "{..<num_blocks al} = set (free_blocks al) \<union> {b. b < num_blocks al \<and> owners al b \<noteq> {}}"
    by (auto simp: free)
  then have "num_blocks al = card (set (free_blocks al)) + card {b. b < num_blocks al \<and> owners al b \<noteq> {}}"
    by (metis (no_types, lifting) card_Un_disjoint card_lessThan disjoint_iff finite_Un finite_lessThan
        free mem_Collect_eq)
  then show ?thesis
    using distinct_card [OF alloc_invD(5) [OF inv]]
    by (simp add: used_block_count_def free_block_count_def)
qed

lemma total_references_eq:
  assumes inv: "alloc_inv al"
  shows "total_references al = (\<Sum>w \<in> dom (allocations al). int (length (the (allocations al w))))"
proof -
  note d = alloc_invD [OF inv]
  let ?D = "dom (allocations al)" and ?in = "\<lambda>b w. if b \<in> set (the (allocations al w)) then 1 else (0::int)"
  have "int (card (owners al b)) = (\<Sum>w \<in> ?D. ?in b w)" for b
  proof -
    have "owners al b = {w \<in> ?D. b \<in> set (the (allocations al w))}"
      by (auto simp: owners_of_def)
    then show ?thesis using d(7) by (simp add: sum.If_cases Int_def)
  qed
  then have "total_references al = (\<Sum>b < num_blocks al. \<Sum>w \<in> ?D. ?in b w)"
    using alloc_inv_refcount [OF inv] d(3)
    by (simp add: total_references_def sum_list_sum_nth atLeast0LessThan)
  also have "\<dots> = (\<Sum>w \<in> ?D. \<Sum>b < num_blocks al. ?in b w)"
    by (rule sum.swap)
  also have "\<dots> = (\<Sum>w \<in> ?D. int (length (the (allocations al w))))"
  proof (rule sum.cong [OF refl])
    fix w assume "w \<in> ?D"
    then obtain bs where bs: "allocations al w = Some bs" by auto
    note own = alloc_inv_owned [OF inv bs]
    have "{..<num_blocks al} \<inter> {b. b \<in> set bs} = set bs" using own(3) by blast
    then show "(\<Sum>b < num_blocks al. ?in b w) = int (length (the (allocations al w)))"
      using distinct_card [OF own(2)] by (simp add: bs sum.If_cases)
  qed
  finally show ?thesis .
qed

section \<open>The interface the block manager and the prefix cache rely on\<close>

text \<open>
  A pool of blocks seen from its clients: an ownership map, a number of available
  blocks, and what each operation does to the two.
\<close>

locale block_pool =
  fixes inv :: "'s \<Rightarrow> bool"
    and owned :: "'s \<Rightarrow> owner \<rightharpoonup> nat list"
    and avail :: "'s \<Rightarrow> int"
    and alloc :: "'s \<Rightarrow> owner \<Rightarrow> int \<Rightarrow> (nat list option \<times> 's) result"
    and grow :: "'s \<Rightarrow> owner \<Rightarrow> int \<Rightarrow> (nat list option \<times> 's) result"
    and share :: "'s \<Rightarrow> owner \<Rightarrow> nat list \<Rightarrow> (nat list \<times> 's) result"
    and free :: "'s \<Rightarrow> owner \<Rightarrow> (nat list \<times> 's) result"
  assumes alloc_inv: "inv s \<Longrightarrow> alloc s w n = Inr (r, s') \<Longrightarrow> inv s'"
    and alloc_some: "inv s \<Longrightarrow> alloc s w n = Inr (Some bs, s') \<Longrightarrow>
      owned s w = None \<and> owned s' = (owned s)(w \<mapsto> bs) \<and> int (length bs) = n \<and> 0 < n \<and>
      distinct bs \<and> (\<forall>v vs. owned s v = Some vs \<longrightarrow> set vs \<inter> set bs = {}) \<and> avail s' = avail s - n"
    and alloc_none: "inv s \<Longrightarrow> alloc s w n = Inr (None, s') \<Longrightarrow> s' = s \<and> avail s < n"
    and grow_inv: "inv s \<Longrightarrow> grow s w n = Inr (r, s') \<Longrightarrow> inv s'"
    and grow_some: "inv s \<Longrightarrow> grow s w n = Inr (Some bs, s') \<Longrightarrow>
      (\<exists>held. owned s w = Some held \<and> owned s' = (owned s)(w \<mapsto> held @ bs)) \<and> int (length bs) = n \<and> 0 < n \<and>
      distinct bs \<and> (\<forall>v vs. owned s v = Some vs \<longrightarrow> set vs \<inter> set bs = {}) \<and> avail s' = avail s - n"
    and grow_none: "inv s \<Longrightarrow> grow s w n = Inr (None, s') \<Longrightarrow> s' = s \<and> avail s < n"
    and share_ok: "inv s \<Longrightarrow> share s w bs = Inr (q, s') \<Longrightarrow>
      inv s' \<and> q = bs \<and> owned s w = None \<and> owned s' = (owned s)(w \<mapsto> bs) \<and> avail s' = avail s"
    and free_ok: "inv s \<Longrightarrow> free s w = Inr (bs, s') \<Longrightarrow>
      inv s' \<and> owned s w = Some bs \<and> owned s' = (owned s)(w := None) \<and> avail s \<le> avail s'"
begin

lemma grants_disjoint:
  assumes "inv s" and "alloc s v m = Inr (Some bs, s1)" and "alloc s1 w n = Inr (Some cs, s2)"
  shows "set bs \<inter> set cs = {}" and "v \<noteq> w"
proof -
  have 1: "owned s1 v = Some bs" using alloc_some [OF assms(1,2)] by simp
  have 2: "inv s1" by (rule alloc_inv [OF assms(1,2)])
  from alloc_some [OF 2 assms(3)] 1 show "set bs \<inter> set cs = {}" and "v \<noteq> w" by auto
qed

lemma grow_disjoint:
  assumes "inv s" and "grow s w n = Inr (Some bs, s')" and "owned s v = Some vs"
  shows "set vs \<inter> set bs = {}"
  using grow_some [OF assms(1,2)] assms(3) by blast

lemma frame:
  assumes "inv s" and "v \<noteq> w"
  shows "alloc s w n = Inr (r, s') \<Longrightarrow> owned s' v = owned s v"
    and "grow s w n = Inr (r, s') \<Longrightarrow> owned s' v = owned s v"
    and "share s w bs = Inr (q, s') \<Longrightarrow> owned s' v = owned s v"
    and "free s w = Inr (q, s') \<Longrightarrow> owned s' v = owned s v"
  using assms alloc_some [of s w n _ s'] alloc_none [of s w n s'] grow_some [of s w n _ s']
    grow_none [of s w n s'] share_ok [of s w bs q s'] free_ok [of s w q s']
  by (cases r; fastforce)+

lemma alloc_free_owned:
  assumes "inv s" and "alloc s w n = Inr (Some bs, s1)" and "free s1 w = Inr (cs, s2)"
  shows "cs = bs" and "owned s2 = owned s"
proof -
  note a = alloc_some [OF assms(1,2)] and i = alloc_inv [OF assms(1,2)]
  note f = free_ok [OF i assms(3)]
  from a f show "cs = bs" by auto
  from a f show "owned s2 = owned s" by (auto simp: fun_eq_iff)
qed

end

lemma free_count_take:
  assumes "cnt \<le> free_block_count al" and "0 < cnt"
  shows "int (length (take (length (free_blocks al) - nat cnt) (free_blocks al))) = free_block_count al - cnt"
  using assms by (simp add: free_block_count_def)

lemma fresh_disjoint:
  assumes "alloc_inv al" and "set bs \<subseteq> set (free_blocks al)" and "allocations al v = Some vs"
  shows "set vs \<inter> set bs = {}"
  using alloc_inv_free_unowned(1) [OF assms(1)] assms(2,3) by (fastforce simp: owners_of_def)

interpretation pool: block_pool alloc_inv allocations free_block_count
  block_allocate block_extend block_attach block_release
proof (unfold_locales)
  fix al w cnt r al' assume "alloc_inv al" "block_allocate al w cnt = Inr (r, al')"
  then show "alloc_inv al'" by (rule allocate_inv)
next
  fix al w cnt bs al' assume inv: "alloc_inv al" and run: "block_allocate al w cnt = Inr (Some bs, al')"
  then show "allocations al w = None \<and> allocations al' = (allocations al)(w \<mapsto> bs) \<and> int (length bs) = cnt \<and>
      0 < cnt \<and> distinct bs \<and> (\<forall>v vs. allocations al v = Some vs \<longrightarrow> set vs \<inter> set bs = {}) \<and>
      free_block_count al' = free_block_count al - cnt"
    by (cases rule: allocate_cases)
      (auto simp: fresh_disjoint [OF inv] free_count_take simp flip: free_block_count_def,
       simp_all add: free_block_count_def)
next
  fix al w cnt al' assume "alloc_inv al" "block_allocate al w cnt = Inr (None, al')"
  then show "al' = al \<and> free_block_count al < cnt" by (cases rule: allocate_cases) auto
next
  fix al w cnt r al' assume "alloc_inv al" "block_extend al w cnt = Inr (r, al')"
  then show "alloc_inv al'" by (rule extend_inv)
next
  fix al w cnt bs al' assume inv: "alloc_inv al" and run: "block_extend al w cnt = Inr (Some bs, al')"
  then show "(\<exists>held. allocations al w = Some held \<and> allocations al' = (allocations al)(w \<mapsto> held @ bs)) \<and>
      int (length bs) = cnt \<and> 0 < cnt \<and> distinct bs \<and>
      (\<forall>v vs. allocations al v = Some vs \<longrightarrow> set vs \<inter> set bs = {}) \<and>
      free_block_count al' = free_block_count al - cnt"
    by (cases rule: extend_cases) (auto simp: fresh_disjoint [OF inv], simp_all add: free_block_count_def)
next
  fix al w cnt al' assume "alloc_inv al" "block_extend al w cnt = Inr (None, al')"
  then show "al' = al \<and> free_block_count al < cnt" by (cases rule: extend_cases) auto
next
  fix al w bs r al' assume inv: "alloc_inv al" and run: "block_attach al w bs = Inr (r, al')"
  show "alloc_inv al' \<and> r = bs \<and> allocations al w = None \<and> allocations al' = (allocations al)(w \<mapsto> bs) \<and>
      free_block_count al' = free_block_count al"
    using attach_inv [OF inv run] run
    by (auto simp: block_attach_def free_block_count_def split: if_splits)
next
  fix al w bs al' assume inv: "alloc_inv al" and run: "block_release al w = Inr (bs, al')"
  then obtain cs where cs: "allocations al w = Some cs"
    by (auto simp: block_release_def split: option.splits prod.splits)
  with run inv release_inv [OF inv run] show "alloc_inv al' \<and> allocations al w = Some bs \<and>
      allocations al' = (allocations al)(w := None) \<and> free_block_count al \<le> free_block_count al'"
    by (auto simp: release_eq [OF inv cs] free_block_count_def)
qed

section \<open>Any sequence of calls\<close>

text \<open>
  A client may issue any calls in any order. Every operation validates before it
  writes, so a call that raises leaves the allocator as it was.
\<close>

datatype alloc_op =
    Allocate owner int
  | Attach owner "nat list"
  | Release owner
  | Extend owner int
  | ReplaceShared owner int

definition commit :: "'s \<Rightarrow> ('r \<times> 's) result \<Rightarrow> 's" where
  "commit s r = (case r of Inl _ \<Rightarrow> s | Inr (_, s') \<Rightarrow> s')"

lemma commit_simps [simp]: "commit s (Inl e) = s" "commit s (Inr (x, s')) = s'"
  by (simp_all add: commit_def)

lemma commit_inv: "P s \<Longrightarrow> (\<And>x s'. r = Inr (x, s') \<Longrightarrow> P s') \<Longrightarrow> P (commit s r)"
  by (cases r) (auto simp: commit_def split: prod.splits)

fun alloc_exec :: "alloc_op \<Rightarrow> block_allocator \<Rightarrow> block_allocator" where
  "alloc_exec (Allocate w n) al = commit al (block_allocate al w n)"
| "alloc_exec (Attach w bs) al = commit al (block_attach al w bs)"
| "alloc_exec (Release w) al = commit al (block_release al w)"
| "alloc_exec (Extend w n) al = commit al (block_extend al w n)"
| "alloc_exec (ReplaceShared w i) al = commit al (block_replace_shared al w i)"

lemma alloc_exec_inv: "alloc_inv al \<Longrightarrow> alloc_inv (alloc_exec opn al)"
  by (cases opn) (auto intro: commit_inv allocate_inv attach_inv release_inv extend_inv replace_shared_inv)

lemma alloc_run_inv: "alloc_inv al \<Longrightarrow> alloc_inv (fold alloc_exec ops al)"
  by (induction ops arbitrary: al) (auto intro: alloc_exec_inv)

lemma alloc_inv_partition:
  assumes "alloc_inv al"
  shows "b \<in> set (free_blocks al) \<longleftrightarrow> b < num_blocks al \<and> owners al b = {}"
  using alloc_inv_free_iff [OF assms] alloc_inv_refcount [OF assms]
    owners_nonempty_iff [OF alloc_invD(7) [OF assms]] by fastforce

section \<open>Properties\<close>

text \<open>
  C10: whatever sequence of calls a client makes on a fresh allocator, a block is on the
  free list exactly when nobody owns it, its reference count is the number of its
  owners, the free list has no duplicates, and the used blocks are the owned ones: no
  block leaks, and none is free and owned.
\<close>

theorem allocator_conserves_blocks:
  assumes "block_allocator_init n bs = Inr al0" and "al = fold alloc_exec ops al0"
  shows "distinct (free_blocks al) \<and>
    (\<forall>b < num_blocks al. refcounts al ! b = int (card (owners_of (allocations al) b)) \<and>
       (b \<in> set (free_blocks al) \<longleftrightarrow> owners_of (allocations al) b = {})) \<and>
    used_block_count al = int (card {b. b < num_blocks al \<and> owners_of (allocations al) b \<noteq> {}})"
proof -
  have inv: "alloc_inv al" using assms alloc_run_inv init_inv by blast
  then show ?thesis
    using alloc_inv_refcount [OF inv] alloc_inv_partition [OF inv] used_blocks_owned [OF inv] alloc_invD(5) by blast
qed

definition sample_ops :: "alloc_op list" where
  "sample_ops = [Allocate (Req ''a'') 2, Attach (CacheOwner 0) [2], Extend (Req ''a'') 1, Release (Req ''b'')]"

theorem allocator_conserves_blocks_witness:
  "\<exists>al0. block_allocator_init 4 16 = Inr al0 \<and> distinct (free_blocks (fold alloc_exec sample_ops al0))"
proof -
  let ?al0 = "\<lparr>num_blocks = 4, block_size_tokens = 16, free_blocks = [0,1,2,3],
    allocations = Map.empty, refcounts = [0,0,0,0]\<rparr>"
  have "block_allocator_init 4 16 = Inr ?al0"
    by (simp add: block_allocator_init_def upt_rec eval_nat_numeral)
  then show ?thesis using allocator_conserves_blocks [of 4 16 ?al0 _ sample_ops] by blast
qed

text \<open>
  C12: releasing an owner right after it was granted fresh blocks, or attached to shared
  ones, restores the allocator exactly, the order of its free list included.
\<close>

theorem release_undoes_grant:
  assumes "block_allocator_init n bs = Inr al0" and "al = fold alloc_exec ops al0"
  shows "(\<forall>w k xs al1. block_allocate al w k = Inr (Some xs, al1) \<longrightarrow> block_release al1 w = Inr (xs, al)) \<and>
         (\<forall>w ys xs al1. block_attach al w ys = Inr (xs, al1) \<longrightarrow> block_release al1 w = Inr (ys, al))"
proof -
  have inv: "alloc_inv al" using assms alloc_run_inv init_inv by blast
  then show ?thesis using release_allocate_eq release_attach_eq(2) by blast
qed

theorem release_undoes_grant_witness:
  "\<exists>al0 al1 xs. block_allocator_init 2 4 = Inr al0 \<and> block_allocate al0 (Req ''r'') 1 = Inr (Some xs, al1) \<and>
     block_release al1 (Req ''r'') = Inr (xs, al0)"
proof -
  let ?al0 = "\<lparr>num_blocks = 2, block_size_tokens = 4, free_blocks = [0,1],
    allocations = Map.empty, refcounts = [0,0]\<rparr>"
  have 1: "block_allocator_init 2 4 = Inr ?al0"
    by (simp add: block_allocator_init_def upt_rec eval_nat_numeral)
  obtain al1 where 2: "block_allocate ?al0 (Req ''r'') 1 = Inr (Some [1], al1)"
    by (simp add: block_allocate_def)
  from release_undoes_grant [OF 1, of ?al0 "[]"] 2 have "block_release al1 (Req ''r'') = Inr ([1], ?al0)"
    by simp
  with 1 2 show ?thesis by blast
qed

text \<open>
  Releasing an owner returns to the free list exactly the blocks it was the last
  owner of; a block somebody else still shares stays out.
\<close>

theorem release_frees_sole_blocks:
  assumes "block_allocator_init n bs = Inr al0" and "al = fold alloc_exec ops al0"
    and "block_release al w = Inr (xs, al')"
  shows "set (free_blocks al') = set (free_blocks al) \<union> {b. owners_of (allocations al) b = {w}}"
proof -
  have inv: "alloc_inv al" using assms alloc_run_inv init_inv by blast
  show ?thesis using release_frees [OF inv assms(3)] by blast
qed

end
