(* ===== verification/Paging.thy ===== *)
theory Paging
  imports Block_Allocator
begin

text \<open>
  Request-level ownership of KV blocks: \<open>KVBlockAllocation\<close>, \<open>KVBlockManager\<close> and
  \<open>gather_paged_tokens\<close> of \<open>engine/cache/paging.py\<close>, and the frozen \<open>BlockTable\<close> of
  \<open>engine/cache/block_table.py\<close>. The manager is the only writer of a request's block
  table; the allocator underneath is reached through the \<open>block_pool\<close> interface.
\<close>

section \<open>Block tables\<close>

record kv_allocation =
  kv_request_id :: string
  kv_block_size :: int
  physical_block_ids :: "nat list"
  sequence_length :: int

definition capacity_tokens :: "kv_allocation \<Rightarrow> int" where
  "capacity_tokens a = int (length (physical_block_ids a)) * kv_block_size a"

definition physical_location :: "kv_allocation \<Rightarrow> int \<Rightarrow> (nat \<times> int) result" where
  "physical_location a t =
     (if \<not> (0 \<le> t \<and> t < capacity_tokens a) then Inl IndexError
      else Inr (physical_block_ids a ! nat (t div kv_block_size a), t mod kv_block_size a))"

record block_table =
  bt_request_id :: string
  bt_block_size_tokens :: int
  bt_physical_block_ids :: "nat list"

definition bt_capacity_tokens :: "block_table \<Rightarrow> int" where
  "bt_capacity_tokens t = int (length (bt_physical_block_ids t)) * bt_block_size_tokens t"

definition bt_physical_location :: "block_table \<Rightarrow> int \<Rightarrow> (nat \<times> int) result" where
  "bt_physical_location t i =
     (if \<not> (0 \<le> i \<and> i < bt_capacity_tokens t) then Inl IndexError
      else Inr (bt_physical_block_ids t ! nat (i div bt_block_size_tokens t),
                i mod bt_block_size_tokens t))"

section \<open>The block manager\<close>

record kv_manager =
  allocator :: block_allocator
  mgr_block_size :: int
  requests :: "string \<rightharpoonup> kv_allocation"

definition kv_manager_init :: "int \<Rightarrow> int \<Rightarrow> kv_manager result" where
  "kv_manager_init n bs =
     and_then (block_allocator_init n bs)
       (\<lambda>al. Inr \<lparr>allocator = al, mgr_block_size = bs, requests = Map.empty\<rparr>)"

definition reserve ::
  "kv_manager \<Rightarrow> string \<Rightarrow> int \<Rightarrow> int \<Rightarrow> (kv_allocation option \<times> kv_manager) result" where
  "reserve m rid capacity seq_len =
     (if capacity \<le> 0 \<or> seq_len < 0 \<or> seq_len > capacity then Inl ValueError
      else if rid \<in> dom (requests m) then Inl ValueError
      else and_then (block_allocate (allocator m) (Req rid) (ceil_div capacity (mgr_block_size m)))
        (\<lambda>(ids, al). case ids of
           None \<Rightarrow> Inr (None, m\<lparr>allocator := al\<rparr>)
         | Some block_ids \<Rightarrow>
             let a = \<lparr>kv_request_id = rid, kv_block_size = mgr_block_size m,
                      physical_block_ids = block_ids, sequence_length = seq_len\<rparr> in
             Inr (Some a, m\<lparr>allocator := al, requests := (requests m)(rid \<mapsto> a)\<rparr>)))"

definition attach_prefix ::
  "kv_manager \<Rightarrow> string \<Rightarrow> nat list \<Rightarrow> int \<Rightarrow> (kv_allocation \<times> kv_manager) result" where
  "attach_prefix m rid block_ids seq_len =
     (if rid \<in> dom (requests m) then Inl ValueError
      else if block_ids = [] \<or> seq_len \<le> 0 then Inl ValueError
      else let capacity = int (length block_ids) * mgr_block_size m in
        if \<not> (capacity - mgr_block_size m < seq_len \<and> seq_len \<le> capacity) then Inl ValueError
        else and_then (block_attach (allocator m) (Req rid) block_ids)
          (\<lambda>(_, al).
             let a = \<lparr>kv_request_id = rid, kv_block_size = mgr_block_size m,
                      physical_block_ids = block_ids, sequence_length = seq_len\<rparr> in
             Inr (a, m\<lparr>allocator := al, requests := (requests m)(rid \<mapsto> a)\<rparr>)))"

definition copy_on_write_tail ::
  "kv_manager \<Rightarrow> string \<Rightarrow> ((nat \<times> nat) option \<times> kv_manager) result" where
  "copy_on_write_tail m rid =
     (case requests m rid of
        None \<Rightarrow> Inl KeyError
      | Some a \<Rightarrow>
          if sequence_length a mod mgr_block_size m = 0 then Inl ValueError
          else and_then (block_replace_shared (allocator m) (Req rid) (-1))
            (\<lambda>(r, al). case r of
               None \<Rightarrow> Inr (None, m\<lparr>allocator := al\<rparr>)
             | Some (old_block, new_block) \<Rightarrow>
                 let ids = physical_block_ids a;
                     a' = a\<lparr>physical_block_ids := ids[length ids - 1 := new_block]\<rparr> in
                 Inr (Some (old_block, new_block),
                      m\<lparr>allocator := al, requests := (requests m)(rid \<mapsto> a')\<rparr>)))"

definition set_sequence_length :: "kv_manager \<Rightarrow> string \<Rightarrow> int \<Rightarrow> kv_manager result" where
  "set_sequence_length m rid n =
     (case requests m rid of
        None \<Rightarrow> Inl KeyError
      | Some a \<Rightarrow>
          if \<not> (0 \<le> n \<and> n \<le> capacity_tokens a) then Inl ValueError
          else Inr (m\<lparr>requests := (requests m)(rid \<mapsto> a\<lparr>sequence_length := n\<rparr>)\<rparr>))"

definition ensure_capacity :: "kv_manager \<Rightarrow> string \<Rightarrow> int \<Rightarrow> (bool \<times> kv_manager) result" where
  "ensure_capacity m rid target =
     (case requests m rid of
        None \<Rightarrow> Inl KeyError
      | Some a \<Rightarrow>
          if target < sequence_length a then Inl ValueError
          else let extra = ceil_div target (mgr_block_size m) - int (length (physical_block_ids a)) in
            if extra \<le> 0 then Inr (True, m)
            else and_then (block_extend (allocator m) (Req rid) extra)
              (\<lambda>(r, al). case r of
                 None \<Rightarrow> Inr (False, m\<lparr>allocator := al\<rparr>)
               | Some new_ids \<Rightarrow>
                   let a' = a\<lparr>physical_block_ids := physical_block_ids a @ new_ids\<rparr> in
                   Inr (True, m\<lparr>allocator := al, requests := (requests m)(rid \<mapsto> a')\<rparr>)))"

definition append_tokens :: "kv_manager \<Rightarrow> string \<Rightarrow> int \<Rightarrow> (bool \<times> kv_manager) result" where
  "append_tokens m rid cnt =
     (if cnt \<le> 0 then Inl ValueError
      else case requests m rid of
        None \<Rightarrow> Inl KeyError
      | Some a \<Rightarrow>
          let target = sequence_length a + cnt in
          and_then (ensure_capacity m rid target)
            (\<lambda>(fits, m'). if \<not> fits then Inr (False, m')
              else case requests m' rid of
                None \<Rightarrow> Inl KeyError
              | Some a' \<Rightarrow>
                  Inr (True, m'\<lparr>requests := (requests m')(rid \<mapsto> a'\<lparr>sequence_length := target\<rparr>)\<rparr>)))"

definition mgr_release :: "kv_manager \<Rightarrow> string \<Rightarrow> (kv_allocation \<times> kv_manager) result" where
  "mgr_release m rid =
     (case requests m rid of
        None \<Rightarrow> Inl KeyError
      | Some a \<Rightarrow>
          and_then (block_release (allocator m) (Req rid))
            (\<lambda>(_, al). Inr (a, m\<lparr>allocator := al, requests := (requests m)(rid := None)\<rparr>)))"

record kv_snapshot =
  snap_num_blocks :: int
  snap_block_size_tokens :: int
  snap_free_blocks :: int
  snap_used_blocks :: int
  snap_shared_blocks :: int
  snap_block_references :: int
  snap_active_requests :: int
  snap_allocated_capacity_tokens :: int
  snap_used_sequence_tokens :: int
  snap_internal_fragmentation_tokens :: int

definition mgr_snapshot :: "kv_manager \<Rightarrow> kv_snapshot" where
  "mgr_snapshot m =
     (let allocated_capacity = (\<Sum>rid \<in> dom (requests m). capacity_tokens (the (requests m rid)));
          used_tokens = (\<Sum>rid \<in> dom (requests m). sequence_length (the (requests m rid)))
      in \<lparr>snap_num_blocks = int (num_blocks (allocator m)),
          snap_block_size_tokens = mgr_block_size m,
          snap_free_blocks = free_block_count (allocator m),
          snap_used_blocks = used_block_count (allocator m),
          snap_shared_blocks = shared_block_count (allocator m),
          snap_block_references = total_references (allocator m),
          snap_active_requests = int (card (dom (requests m))),
          snap_allocated_capacity_tokens = allocated_capacity,
          snap_used_sequence_tokens = used_tokens,
          snap_internal_fragmentation_tokens = allocated_capacity - used_tokens\<rparr>)"

section \<open>Gathering logical tokens from physical pages\<close>

text \<open>\<open>pages.index_select(0, ids).flatten(0, 1)[:sequence_length]\<close>, with its three checks.\<close>

definition gather_paged_tokens :: "'a list list \<Rightarrow> kv_allocation \<Rightarrow> int \<Rightarrow> 'a list result" where
  "gather_paged_tokens pages a n =
     (if list_ex (\<lambda>p. int (length p) \<noteq> kv_block_size a) pages then Inl ValueError
      else if \<not> (0 \<le> n \<and> n \<le> capacity_tokens a) then Inl ValueError
      else if list_ex (\<lambda>b. \<not> b < length pages) (physical_block_ids a) then Inl IndexError
      else Inr (take (nat n) (concat (map (\<lambda>b. pages ! b) (physical_block_ids a)))))"

section \<open>The manager invariant\<close>

lemma capacity_tokens_update [simp]:
  "capacity_tokens (a\<lparr>sequence_length := n\<rparr>) = capacity_tokens a"
  by (simp add: capacity_tokens_def)

text \<open>The manager's tables and the allocator's ownership map say the same thing.\<close>

definition mgr_inv :: "kv_manager \<Rightarrow> bool" where
  "mgr_inv m \<longleftrightarrow>
     alloc_inv (allocator m) \<and> block_size_tokens (allocator m) = mgr_block_size m \<and>
     (\<forall>rid. allocations (allocator m) (Req rid) = map_option physical_block_ids (requests m rid)) \<and>
     (\<forall>rid a. requests m rid = Some a \<longrightarrow>
        kv_request_id a = rid \<and> kv_block_size a = mgr_block_size m \<and>
        0 \<le> sequence_length a \<and> sequence_length a \<le> capacity_tokens a)"

named_theorems alloc_const \<open>fields no allocator operation writes\<close>

lemma allocate_const [alloc_const]:
  "block_allocate al w n = Inr (r, al') \<Longrightarrow>
     num_blocks al' = num_blocks al \<and> block_size_tokens al' = block_size_tokens al"
  by (auto simp: block_allocate_def split: if_splits prod.splits)

lemma extend_const [alloc_const]:
  "block_extend al w n = Inr (r, al') \<Longrightarrow>
     num_blocks al' = num_blocks al \<and> block_size_tokens al' = block_size_tokens al"
  by (auto simp: block_extend_def split: if_splits prod.splits option.splits)

lemma attach_const [alloc_const]:
  "block_attach al w bs = Inr (q, al') \<Longrightarrow>
     num_blocks al' = num_blocks al \<and> block_size_tokens al' = block_size_tokens al"
  by (auto simp: block_attach_def split: if_splits)

lemma release_const [alloc_const]:
  "block_release al w = Inr (q, al') \<Longrightarrow>
     num_blocks al' = num_blocks al \<and> block_size_tokens al' = block_size_tokens al"
  by (auto simp: block_release_def split: prod.splits option.splits)

lemma replace_shared_const [alloc_const]:
  "block_replace_shared al w i = Inr (p, al') \<Longrightarrow>
     num_blocks al' = num_blocks al \<and> block_size_tokens al' = block_size_tokens al"
  by (auto simp: block_replace_shared_def Let_def split: if_splits option.splits)

lemma mgr_invI:
  assumes "alloc_inv (allocator m)" and "block_size_tokens (allocator m) = mgr_block_size m"
    and "\<And>rid. allocations (allocator m) (Req rid) = map_option physical_block_ids (requests m rid)"
    and "\<And>rid a. requests m rid = Some a \<Longrightarrow>
        kv_request_id a = rid \<and> kv_block_size a = mgr_block_size m \<and>
        0 \<le> sequence_length a \<and> sequence_length a \<le> capacity_tokens a"
  shows "mgr_inv m"
  using assms by (simp add: mgr_inv_def)

lemma mgr_invD:
  assumes "mgr_inv m"
  shows "alloc_inv (allocator m)" and "block_size_tokens (allocator m) = mgr_block_size m"
    and "allocations (allocator m) (Req rid) = map_option physical_block_ids (requests m rid)"
    and "0 < mgr_block_size m"
  using assms alloc_invD(2) [of "allocator m"] by (auto simp: mgr_inv_def)

lemma mgr_inv_request:
  assumes "mgr_inv m" and "requests m rid = Some a"
  shows "kv_request_id a = rid" and "kv_block_size a = mgr_block_size m"
    and "0 \<le> sequence_length a" and "sequence_length a \<le> capacity_tokens a"
    and "allocations (allocator m) (Req rid) = Some (physical_block_ids a)"
    and "distinct (physical_block_ids a)" and "physical_block_ids a \<noteq> []"
    and "set (physical_block_ids a) \<subseteq> {..<num_blocks (allocator m)}"
proof -
  show "kv_request_id a = rid" and "kv_block_size a = mgr_block_size m"
    and "0 \<le> sequence_length a" and "sequence_length a \<le> capacity_tokens a"
    and al: "allocations (allocator m) (Req rid) = Some (physical_block_ids a)"
    using assms by (auto simp: mgr_inv_def)
  show "distinct (physical_block_ids a)" and "physical_block_ids a \<noteq> []"
    and "set (physical_block_ids a) \<subseteq> {..<num_blocks (allocator m)}"
    using alloc_inv_owned [OF mgr_invD(1) [OF assms(1)] al] by auto
qed

lemma manager_init_inv: "kv_manager_init n bs = Inr m \<Longrightarrow> mgr_inv m"
  using init_inv [of n bs]
  by (auto simp: kv_manager_init_def mgr_inv_def block_allocator_init_def split: if_splits)

text \<open>Installing the table of a request whose owner entry was just written.\<close>

lemma install_request_inv:
  assumes inv: "mgr_inv m" and al: "alloc_inv al" "block_size_tokens al = mgr_block_size m"
    and own: "\<And>r. allocations al (Req r) = (if r = rid then Some (physical_block_ids a) else allocations (allocator m) (Req r))"
    and a: "kv_request_id a = rid" "kv_block_size a = mgr_block_size m"
      "0 \<le> sequence_length a" "sequence_length a \<le> capacity_tokens a"
  shows "mgr_inv (m\<lparr>allocator := al, requests := (requests m)(rid \<mapsto> a)\<rparr>)"
  using assms mgr_inv_request(1-4) [OF inv] mgr_invD(3) [OF inv]
  by (intro mgr_invI) (auto split: if_splits)

lemma reserve_inv:
  assumes inv: "mgr_inv m" and run: "reserve m rid capacity n = Inr (r, m')"
  shows "mgr_inv m'"
proof -
  note d = mgr_invD [OF inv]
  from run obtain ids al where al: "block_allocate (allocator m) (Req rid) (ceil_div capacity (mgr_block_size m)) = Inr (ids, al)"
    and pre: "0 < capacity" "0 \<le> n" "n \<le> capacity"
    by (auto simp: reserve_def split: if_splits)
  note inv' = pool.alloc_inv [OF d(1) al]
  show ?thesis
  proof (cases ids)
    case None
    with run al have "m' = m\<lparr>allocator := al\<rparr>" by (auto simp: reserve_def split: if_splits)
    moreover have "al = allocator m" using pool.alloc_none [OF d(1)] al None by blast
    ultimately show ?thesis using inv by simp
  next
    case (Some bs)
    note grant = pool.alloc_some [OF d(1) al [unfolded Some]]
    let ?a = "\<lparr>kv_request_id = rid, kv_block_size = mgr_block_size m, physical_block_ids = bs, sequence_length = n\<rparr>"
    from run al Some have m': "m' = m\<lparr>allocator := al, requests := (requests m)(rid \<mapsto> ?a)\<rparr>"
      by (auto simp: reserve_def Let_def split: if_splits)
    have "capacity \<le> capacity_tokens ?a"
      using grant ceil_div_covers [OF d(4), of capacity] by (simp add: capacity_tokens_def)
    with pre grant d(2) inv' show ?thesis
      unfolding m' using allocate_const [OF al]
      by (intro install_request_inv [OF inv]) auto
  qed
qed

lemma attach_prefix_inv:
  assumes inv: "mgr_inv m" and run: "attach_prefix m rid bs n = Inr (a, m')"
  shows "mgr_inv m'"
proof -
  note d = mgr_invD [OF inv]
  let ?a = "\<lparr>kv_request_id = rid, kv_block_size = mgr_block_size m, physical_block_ids = bs, sequence_length = n\<rparr>"
  from run obtain q al where al: "block_attach (allocator m) (Req rid) bs = Inr (q, al)"
    and pre: "0 < n" "n \<le> int (length bs) * mgr_block_size m"
    and m': "m' = m\<lparr>allocator := al, requests := (requests m)(rid \<mapsto> ?a)\<rparr>"
    by (auto simp: attach_prefix_def Let_def split: if_splits)
  from pool.share_ok [OF d(1) al] pre d(2) attach_const [OF al] show ?thesis
    unfolding m' by (intro install_request_inv [OF inv]) (auto simp: capacity_tokens_def)
qed

lemma set_sequence_length_inv:
  assumes inv: "mgr_inv m" and run: "set_sequence_length m rid n = Inr m'"
  shows "mgr_inv m'"
proof -
  from run obtain a where a: "requests m rid = Some a" and n: "0 \<le> n" "n \<le> capacity_tokens a"
    and m': "m' = m\<lparr>requests := (requests m)(rid \<mapsto> a\<lparr>sequence_length := n\<rparr>)\<rparr>"
    by (auto simp: set_sequence_length_def split: option.splits if_splits)
  show ?thesis
    unfolding m' using mgr_invD [OF inv] mgr_inv_request(1-4) [OF inv] a n
    by (intro mgr_invI) (auto split: if_splits)
qed

lemma copy_on_write_run:
  assumes inv: "mgr_inv m" and run: "copy_on_write_tail m rid = Inr (Some (old, new), m')"
  obtains a al where "requests m rid = Some a" and "sequence_length a mod mgr_block_size m \<noteq> 0"
    and "block_replace_shared (allocator m) (Req rid) (-1) = Inr (Some (old, new), al)"
    and "old = last (physical_block_ids a)"
    and "m' = m\<lparr>allocator := al, requests := (requests m)(rid \<mapsto>
           a\<lparr>physical_block_ids := (physical_block_ids a)[length (physical_block_ids a) - 1 := new]\<rparr>)\<rparr>"
    and "allocations al = (allocations (allocator m))(Req rid \<mapsto>
           (physical_block_ids a)[length (physical_block_ids a) - 1 := new])"
proof -
  from run obtain a al where a: "requests m rid = Some a"
    and c: "sequence_length a mod mgr_block_size m \<noteq> 0"
    and rep: "block_replace_shared (allocator m) (Req rid) (-1) = Inr (Some (old, new), al)"
    and m': "m' = m\<lparr>allocator := al, requests := (requests m)(rid \<mapsto>
           a\<lparr>physical_block_ids := (physical_block_ids a)[length (physical_block_ids a) - 1 := new]\<rparr>)\<rparr>"
    by (auto simp: copy_on_write_tail_def Let_def split: option.splits if_splits)
  note r = mgr_inv_request [OF inv a]
  have ne: "0 < length (physical_block_ids a)" using r(7) by simp
  then have idx: "nat (- 1 mod int (length (physical_block_ids a))) = length (physical_block_ids a) - 1"
    by (simp add: zmod_minus1 nat_diff_distrib)
  from rep r(5) idx ne have "old = last (physical_block_ids a)"
    and "allocations al = (allocations (allocator m))(Req rid \<mapsto>
           (physical_block_ids a)[length (physical_block_ids a) - 1 := new])"
    by (auto elim!: replace_shared_run simp: last_conv_nth r(7))
  with a c rep m' show thesis by (intro that [of a al])
qed

lemma copy_on_write_tail_inv:
  assumes inv: "mgr_inv m" and run: "copy_on_write_tail m rid = Inr (r, m')"
  shows "mgr_inv m'"
proof (cases r)
  case None
  with run obtain al where "block_replace_shared (allocator m) (Req rid) (-1) = Inr (None, al)"
    and m': "m' = m\<lparr>allocator := al\<rparr>"
    by (auto simp: copy_on_write_tail_def Let_def split: option.splits if_splits)
      (metis option.exhaust surj_pair)
  then have "al = allocator m"
    by (auto simp: block_replace_shared_def Let_def split: option.splits if_splits)
  with inv show ?thesis by (simp add: m')
next
  case (Some p)
  obtain old new where p: "p = (old, new)" by fastforce
  from inv run [unfolded Some p] show ?thesis
  proof (cases rule: copy_on_write_run)
    case (1 a al)
    note d = mgr_invD [OF inv] and q = mgr_inv_request [OF inv 1(1)]
    from 1 d q replace_shared_inv [OF d(1) 1(3)] replace_shared_const [OF 1(3)] show ?thesis
      unfolding 1(5) by (intro install_request_inv [OF inv]) (auto simp: capacity_tokens_def)
  qed
qed

lemma ensure_capacity_run:
  assumes inv: "mgr_inv m" and run: "ensure_capacity m rid target = Inr (fits, m')"
  obtains a where "requests m rid = Some a" and "sequence_length a \<le> target"
    and "\<not> fits \<Longrightarrow> m' = m \<and> free_block_count (allocator m) < ceil_div target (mgr_block_size m) - int (length (physical_block_ids a))"
    and "fits \<Longrightarrow> target \<le> capacity_tokens a \<and> m' = m \<or>
      (\<exists>new_ids al. block_extend (allocator m) (Req rid) (ceil_div target (mgr_block_size m) - int (length (physical_block_ids a))) = Inr (Some new_ids, al) \<and>
        m' = m\<lparr>allocator := al, requests := (requests m)(rid \<mapsto> a\<lparr>physical_block_ids := physical_block_ids a @ new_ids\<rparr>)\<rparr>)"
proof -
  note d = mgr_invD [OF inv]
  from run obtain a where a: "requests m rid = Some a" and le: "sequence_length a \<le> target"
    by (auto simp: ensure_capacity_def split: option.splits if_splits)
  let ?x = "ceil_div target (mgr_block_size m) - int (length (physical_block_ids a))"
  show thesis
  proof (cases "?x \<le> 0")
    case True
    then have "target \<le> capacity_tokens a"
      using ceil_div_le_iff [OF d(4)] mgr_inv_request(2) [OF inv a] by (simp add: capacity_tokens_def)
    with True run a le show thesis
      by (intro that [of a]) (auto simp: ensure_capacity_def Let_def split: if_splits)
  next
    case False
    with run a le obtain q al where x: "block_extend (allocator m) (Req rid) ?x = Inr (q, al)"
      by (auto simp: ensure_capacity_def Let_def split: if_splits)
    from False run a le x pool.grow_none [OF d(1), of "Req rid" ?x al] show thesis
      by (intro that [of a]) (auto simp: ensure_capacity_def Let_def split: option.splits)
  qed
qed

lemma ensure_capacity_inv:
  assumes inv: "mgr_inv m" and run: "ensure_capacity m rid target = Inr (fits, m')"
  shows "mgr_inv m'"
  using inv run
proof (cases rule: ensure_capacity_run)
  case (1 a)
  note d = mgr_invD [OF inv] and q = mgr_inv_request [OF inv 1(1)]
  show ?thesis
  proof (cases "m' = m")
    case False
    with 1(3,4) obtain ids al n where x: "block_extend (allocator m) (Req rid) n = Inr (Some ids, al)"
      and m': "m' = m\<lparr>allocator := al, requests := (requests m)(rid \<mapsto> a\<lparr>physical_block_ids := physical_block_ids a @ ids\<rparr>)\<rparr>"
      by blast
    have "capacity_tokens a \<le> capacity_tokens (a\<lparr>physical_block_ids := physical_block_ids a @ ids\<rparr>)"
      using q(2) d(4) by (simp add: capacity_tokens_def distrib_right)
    with q d pool.grow_some [OF d(1) x] pool.grow_inv [OF d(1) x] extend_const [OF x] show ?thesis
      unfolding m' by (intro install_request_inv [OF inv]) auto
  qed (use inv in simp)
qed

lemma ensure_capacity_fits:
  assumes inv: "mgr_inv m" and run: "ensure_capacity m rid target = Inr (True, m')"
  obtains a a' where "requests m rid = Some a" and "requests m' rid = Some a'"
    and "target \<le> capacity_tokens a'" and "sequence_length a' = sequence_length a"
    and "\<exists>ids. physical_block_ids a' = physical_block_ids a @ ids"
    and "sequence_length a \<le> target"
  using inv run
proof (cases rule: ensure_capacity_run)
  case (1 a)
  note d = mgr_invD [OF inv] and q = mgr_inv_request [OF inv 1(1)]
  let ?n = "ceil_div target (mgr_block_size m)"
  have "target \<le> capacity_tokens a \<and> m' = m \<or>
      (\<exists>ids al. block_extend (allocator m) (Req rid) (?n - int (length (physical_block_ids a))) = Inr (Some ids, al) \<and>
        m' = m\<lparr>allocator := al, requests := (requests m)(rid \<mapsto> a\<lparr>physical_block_ids := physical_block_ids a @ ids\<rparr>)\<rparr>)"
    using 1(4) by simp
  then show thesis
  proof
    assume "target \<le> capacity_tokens a \<and> m' = m"
    with 1 show thesis by (intro that [of a a]) auto
  next
    assume "\<exists>ids al. block_extend (allocator m) (Req rid) (?n - int (length (physical_block_ids a))) = Inr (Some ids, al) \<and>
        m' = m\<lparr>allocator := al, requests := (requests m)(rid \<mapsto> a\<lparr>physical_block_ids := physical_block_ids a @ ids\<rparr>)\<rparr>"
    then obtain ids al where x: "block_extend (allocator m) (Req rid) (?n - int (length (physical_block_ids a))) = Inr (Some ids, al)"
      and m': "m' = m\<lparr>allocator := al, requests := (requests m)(rid \<mapsto> a\<lparr>physical_block_ids := physical_block_ids a @ ids\<rparr>)\<rparr>"
      by blast
    have "int (length (physical_block_ids a @ ids)) = ?n"
      using pool.grow_some [OF d(1) x] by simp
    then have "target \<le> capacity_tokens (a\<lparr>physical_block_ids := physical_block_ids a @ ids\<rparr>)"
      using ceil_div_covers [OF d(4), of target] q(2) by (simp add: capacity_tokens_def)
    with 1(1,2) show thesis
      by (intro that [of a "a\<lparr>physical_block_ids := physical_block_ids a @ ids\<rparr>"]) (auto simp: m')
  qed
qed

lemma append_tokens_run:
  assumes inv: "mgr_inv m" and run: "append_tokens m rid cnt = Inr (True, m')"
  obtains a a' m1 where "requests m rid = Some a" and "requests m' rid = Some a'"
    and "sequence_length a' = sequence_length a + cnt"
    and "\<exists>ids. physical_block_ids a' = physical_block_ids a @ ids"
    and "ensure_capacity m rid (sequence_length a + cnt) = Inr (True, m1)" and "0 < cnt"
    and "set_sequence_length m1 rid (sequence_length a + cnt) = Inr m'"
proof -
  from run obtain a a1 m1 where a: "requests m rid = Some a" and cnt: "0 < cnt"
    and e: "ensure_capacity m rid (sequence_length a + cnt) = Inr (True, m1)"
    and a1: "requests m1 rid = Some a1"
    and m': "m' = m1\<lparr>requests := (requests m1)(rid \<mapsto> a1\<lparr>sequence_length := sequence_length a + cnt\<rparr>)\<rparr>"
    by (auto simp: append_tokens_def Let_def split: if_splits option.splits)
  from inv e show thesis
  proof (cases rule: ensure_capacity_fits)
    case (1 b b')
    note nonneg = mgr_inv_request(3) [OF inv a]
    have "set_sequence_length m1 rid (sequence_length a + cnt) = Inr m'"
      using 1 a a1 m' cnt nonneg by (auto simp: set_sequence_length_def)
    with 1 a a1 m' cnt e show thesis
      by (intro that [of a "a1\<lparr>sequence_length := sequence_length a + cnt\<rparr>" m1]) auto
  qed
qed

lemma append_tokens_inv:
  assumes inv: "mgr_inv m" and run: "append_tokens m rid cnt = Inr (fits, m')"
  shows "mgr_inv m'"
proof (cases fits)
  case True
  with inv run show ?thesis
    by (auto elim!: append_tokens_run intro: set_sequence_length_inv ensure_capacity_inv [OF inv])
next
  case False
  with run have "\<exists>len. ensure_capacity m rid len = Inr (False, m')"
    by (auto simp: append_tokens_def Let_def split: if_splits option.splits)
  then obtain len where "ensure_capacity m rid len = Inr (False, m')" ..
  then show ?thesis by (rule ensure_capacity_inv [OF inv])
qed

lemma mgr_release_inv:
  assumes inv: "mgr_inv m" and run: "mgr_release m rid = Inr (a, m')"
  shows "mgr_inv m'"
proof -
  from run obtain bs al where a: "requests m rid = Some a"
    and rel: "block_release (allocator m) (Req rid) = Inr (bs, al)"
    and m': "m' = m\<lparr>allocator := al, requests := (requests m)(rid := None)\<rparr>"
    by (auto simp: mgr_release_def split: option.splits)
  note d = mgr_invD [OF inv]
  show ?thesis
    unfolding m' using d mgr_inv_request(1-4) [OF inv] pool.free_ok [OF d(1) rel] release_const [OF rel]
    by (intro mgr_invI) (auto split: if_splits)
qed

lemma mgr_release_total:
  assumes inv: "mgr_inv m" and a: "requests m rid = Some a"
  shows "\<exists>m'. mgr_release m rid = Inr (a, m')"
  using mgr_inv_request(5) [OF inv a] a
  by (auto simp: mgr_release_def release_eq [OF mgr_invD(1) [OF inv]])

section \<open>Addressing\<close>

text \<open>Distinct tokens of one request never share a slot.\<close>

lemma physical_location_inj:
  assumes dist: "distinct (physical_block_ids a)" and bs: "0 < kv_block_size a"
    and i: "physical_location a i = Inr p" and j: "physical_location a j = Inr p"
  shows "i = j"
proof -
  let ?s = "kv_block_size a" and ?ids = "physical_block_ids a"
  have in_range: "nat (t div ?s) < length ?ids" and pos: "0 \<le> t"
    if "physical_location a t = Inr q" for t q
  proof -
    from that have t: "0 \<le> t" "t < int (length ?ids) * ?s"
      by (auto simp: physical_location_def capacity_tokens_def split: if_splits)
    then show "nat (t div ?s) < length ?ids" by (intro page_index(2) bs)
    show "0 \<le> t" by (rule t(1))
  qed
  from i j have eq: "?ids ! nat (i div ?s) = ?ids ! nat (j div ?s)" and "i mod ?s = j mod ?s"
    by (auto simp: physical_location_def split: if_splits)
  from eq have "nat (i div ?s) = nat (j div ?s)"
    using nth_eq_iff_index_eq [OF dist in_range [OF i] in_range [OF j]] by simp
  moreover have "0 \<le> i div ?s" "0 \<le> j div ?s"
    using pos [OF i] pos [OF j] bs by (simp_all add: pos_imp_zdiv_nonneg_iff)
  ultimately have "i div ?s = j div ?s" by linarith
  with \<open>i mod ?s = j mod ?s\<close> show ?thesis by (metis div_mult_mod_eq)
qed

lemma physical_location_block:
  assumes "0 < kv_block_size a" and "physical_location a t = Inr (b, off)"
  shows "b \<in> set (physical_block_ids a)" and "0 \<le> off" and "off < kv_block_size a"
proof -
  from assms(2) have t: "0 \<le> t" "t < int (length (physical_block_ids a)) * kv_block_size a"
    and b: "b = physical_block_ids a ! nat (t div kv_block_size a)" and off: "off = t mod kv_block_size a"
    by (auto simp: physical_location_def capacity_tokens_def split: if_splits)
  show "b \<in> set (physical_block_ids a)"
    unfolding b by (intro nth_mem page_index(2) assms(1) t)
  show "0 \<le> off" and "off < kv_block_size a" using assms(1) by (simp_all add: off)
qed

lemma gather_nth:
  assumes bs: "0 < kv_block_size a" and run: "gather_paged_tokens pages a n = Inr xs"
    and i: "0 \<le> i" "i < n"
  shows "\<exists>b off. physical_location a i = Inr (b, off) \<and> b < length pages \<and> nat off < length (pages ! b) \<and>
           xs ! nat i = pages ! b ! nat off"
proof -
  let ?s = "nat (kv_block_size a)" and ?ps = "map (\<lambda>b. pages ! b) (physical_block_ids a)"
  from run have len: "\<forall>p \<in> set pages. length p = ?s"
    and n: "0 \<le> n" "n \<le> int (length (physical_block_ids a)) * kv_block_size a"
    and ids: "\<forall>b \<in> set (physical_block_ids a). b < length pages"
    and xs: "xs = take (nat n) (concat ?ps)"
    using bs by (auto simp: gather_paged_tokens_def capacity_tokens_def list_ex_iff split: if_splits)
  then have psl: "\<forall>p \<in> set ?ps. length p = ?s" by auto
  have "int (nat i) < int (length ?ps * ?s)" using n i bs by simp
  then have ilt: "nat i < length ?ps * ?s" by linarith
  have idx: "nat i div ?s < length (physical_block_ids a)"
    using ilt by (intro page_index_nat) simp
  have "xs ! nat i = concat ?ps ! nat i" using i by (simp add: xs)
  also have "\<dots> = ?ps ! (nat i div ?s) ! (nat i mod ?s)"
    by (rule nth_concat_uniform [OF psl ilt])
  also have "\<dots> = pages ! (physical_block_ids a ! (nat i div ?s)) ! (nat i mod ?s)"
    using idx by simp
  finally have "xs ! nat i = pages ! (physical_block_ids a ! nat (i div kv_block_size a)) ! nat (i mod kv_block_size a)"
    using i bs by (simp add: nat_div_distrib nat_mod_distrib)
  moreover have "physical_block_ids a ! (nat i div ?s) < length pages"
    using ids idx by (meson nth_mem)
  ultimately show ?thesis
    using i n bs len by (auto simp: physical_location_def capacity_tokens_def nat_div_distrib nat_mod_distrib)
qed

lemma gather_length:
  assumes "0 < kv_block_size a" and "gather_paged_tokens pages a n = Inr xs"
  shows "int (length xs) = n"
proof -
  from assms have len: "\<forall>b \<in> set (physical_block_ids a). length (pages ! b) = nat (kv_block_size a)"
    and n: "0 \<le> n" "n \<le> int (length (physical_block_ids a)) * kv_block_size a"
    and xs: "xs = take (nat n) (concat (map (\<lambda>b. pages ! b) (physical_block_ids a)))"
    by (force simp: gather_paged_tokens_def capacity_tokens_def list_ex_iff split: if_splits dest: nth_mem)+
  have "length (concat (map (\<lambda>b. pages ! b) (physical_block_ids a)))
      = length (physical_block_ids a) * nat (kv_block_size a)"
    using length_concat_uniform [of "map (\<lambda>b. pages ! b) (physical_block_ids a)" "nat (kv_block_size a)"] len
    by simp
  moreover have "nat n \<le> length (physical_block_ids a) * nat (kv_block_size a)"
    using n assms(1) by (simp add: nat_le_iff)
  ultimately show ?thesis using n by (simp add: xs)
qed

section \<open>Any sequence of calls\<close>

text \<open>
  The manager's clients call its own methods; the prefix cache also calls the
  allocator underneath directly, always under one of its own owner objects.
\<close>

datatype mgr_op =
    Reserve string int int
  | AttachPrefix string "nat list" int
  | CopyOnWrite string
  | SetLength string int
  | EnsureCapacity string int
  | AppendTokens string int
  | ReleaseRequest string
  | CacheCall alloc_op

fun op_owner :: "alloc_op \<Rightarrow> owner" where
  "op_owner (Allocate w _) = w"
| "op_owner (Attach w _) = w"
| "op_owner (Release w) = w"
| "op_owner (Extend w _) = w"
| "op_owner (ReplaceShared w _) = w"

fun is_request :: "owner \<Rightarrow> bool" where
  "is_request (Req _) = True"
| "is_request _ = False"

definition keep :: "'s \<Rightarrow> 's result \<Rightarrow> 's" where
  "keep s r = (case r of Inl _ \<Rightarrow> s | Inr s' \<Rightarrow> s')"

fun mgr_exec :: "mgr_op \<Rightarrow> kv_manager \<Rightarrow> kv_manager" where
  "mgr_exec (Reserve rid c n) m = commit m (reserve m rid c n)"
| "mgr_exec (AttachPrefix rid bs n) m = commit m (attach_prefix m rid bs n)"
| "mgr_exec (CopyOnWrite rid) m = commit m (copy_on_write_tail m rid)"
| "mgr_exec (SetLength rid n) m = keep m (set_sequence_length m rid n)"
| "mgr_exec (EnsureCapacity rid n) m = commit m (ensure_capacity m rid n)"
| "mgr_exec (AppendTokens rid n) m = commit m (append_tokens m rid n)"
| "mgr_exec (ReleaseRequest rid) m = commit m (mgr_release m rid)"
| "mgr_exec (CacheCall opn) m =
     (if is_request (op_owner opn) then m else m\<lparr>allocator := alloc_exec opn (allocator m)\<rparr>)"

lemma alloc_exec_const:
  "num_blocks (alloc_exec opn al) = num_blocks al \<and> block_size_tokens (alloc_exec opn al) = block_size_tokens al"
  using allocate_const attach_const release_const extend_const replace_shared_const
  by (cases opn) (auto simp: commit_def split: sum.splits)

lemma allocate_frame: "block_allocate al w n = Inr (r, al') \<Longrightarrow> v \<noteq> w \<Longrightarrow> allocations al' v = allocations al v"
  by (auto simp: block_allocate_def split: if_splits prod.splits)

lemma extend_frame: "block_extend al w n = Inr (r, al') \<Longrightarrow> v \<noteq> w \<Longrightarrow> allocations al' v = allocations al v"
  by (auto simp: block_extend_def split: if_splits prod.splits option.splits)

lemma attach_frame: "block_attach al w bs = Inr (q, al') \<Longrightarrow> v \<noteq> w \<Longrightarrow> allocations al' v = allocations al v"
  by (auto simp: block_attach_def split: if_splits)

lemma release_frame: "block_release al w = Inr (q, al') \<Longrightarrow> v \<noteq> w \<Longrightarrow> allocations al' v = allocations al v"
  by (auto simp: block_release_def split: prod.splits option.splits)

lemma replace_shared_frame:
  "block_replace_shared al w i = Inr (p, al') \<Longrightarrow> v \<noteq> w \<Longrightarrow> allocations al' v = allocations al v"
  by (auto simp: block_replace_shared_def Let_def split: if_splits option.splits)

lemmas alloc_frames = allocate_frame extend_frame attach_frame release_frame replace_shared_frame

lemma alloc_exec_frame:
  "v \<noteq> op_owner opn \<Longrightarrow> allocations (alloc_exec opn al) v = allocations al v"
  using alloc_frames by (cases opn) (auto simp: commit_def split: sum.splits)

lemma cache_call_inv:
  assumes inv: "mgr_inv m" and "\<not> is_request (op_owner opn)"
  shows "mgr_inv (m\<lparr>allocator := alloc_exec opn (allocator m)\<rparr>)"
proof -
  have "Req rid \<noteq> op_owner opn" for rid using assms(2) by (metis is_request.simps(1))
  then show ?thesis
    using alloc_exec_inv [OF mgr_invD(1) [OF inv]] alloc_exec_const [of opn] mgr_invD(2,3) [OF inv]
      mgr_inv_request(1-4) [OF inv] alloc_exec_frame
    by (intro mgr_invI) auto
qed

lemma keep_inv: "P s \<Longrightarrow> (\<And>s'. r = Inr s' \<Longrightarrow> P s') \<Longrightarrow> P (keep s r)"
  by (cases r) (auto simp: keep_def)

lemma mgr_exec_inv: "mgr_inv m \<Longrightarrow> mgr_inv (mgr_exec opn m)"
  by (cases opn)
    (auto intro: commit_inv keep_inv reserve_inv attach_prefix_inv copy_on_write_tail_inv set_sequence_length_inv
      ensure_capacity_inv append_tokens_inv mgr_release_inv cache_call_inv)

lemma mgr_run_inv: "mgr_inv m \<Longrightarrow> mgr_inv (fold mgr_exec ops m)"
  by (induction ops arbitrary: m) (auto intro: mgr_exec_inv)

lemma manager_run_inv: "kv_manager_init n bs = Inr m0 \<Longrightarrow> mgr_inv (fold mgr_exec ops m0)"
  by (intro mgr_run_inv manager_init_inv)

section \<open>Sharing\<close>

lemma one_owner:
  assumes inv: "alloc_inv al" and "refcounts al ! b = 1" and "b < num_blocks al"
    and "v \<in> owners al b" and "w \<in> owners al b"
  shows "v = w"
proof -
  have "card (owners al b) = 1" using alloc_inv_refcount [OF inv assms(3)] assms(2) by simp
  then show ?thesis using assms(4,5) by (auto simp: card_1_singleton_iff)
qed

lemma mgr_owner:
  assumes "mgr_inv m" and "requests m rid = Some a" and "b \<in> set (physical_block_ids a)"
  shows "Req rid \<in> owners (allocator m) b" and "b < num_blocks (allocator m)"
    and "1 \<le> refcounts (allocator m) ! b"
  using mgr_inv_request(5,8) [OF assms(1,2)] assms(3)
    alloc_inv_owned_live [OF mgr_invD(1) [OF assms(1)] mgr_inv_request(5) [OF assms(1,2)] assms(3)]
  by (auto simp: owners_of_def)

text \<open>The block that copy-on-write installs belongs to the request alone.\<close>

lemma copy_on_write_private:
  assumes inv: "mgr_inv m" and run: "copy_on_write_tail m rid = Inr (Some (old, new), m')"
  obtains a a' where "requests m rid = Some a" and "requests m' rid = Some a'"
    and "old = last (physical_block_ids a)" and "new = last (physical_block_ids a')"
    and "butlast (physical_block_ids a') = butlast (physical_block_ids a)"
    and "sequence_length a' = sequence_length a"
    and "owners (allocator m') new = {Req rid}" and "owners (allocator m) new = {}"
    and "\<forall>v. v \<noteq> rid \<longrightarrow> requests m' v = requests m v"
  using inv run
proof (cases rule: copy_on_write_run)
  case (1 a al)
  note q = mgr_inv_request [OF inv 1(1)] and d = mgr_invD(1) [OF inv]
  let ?ids = "physical_block_ids a"
  from 1(3) have free: "new \<in> set (free_blocks (allocator m))"
    by (auto elim!: replace_shared_run)
  then have none: "owners (allocator m) new = {}" by (rule alloc_inv_free_unowned(1) [OF d])
  have upd: "?ids[length ?ids - 1 := new] = butlast ?ids @ [new]"
    using q(7) by (metis append_butlast_last_id length_butlast list_update_length)
  have "owners (allocator m') new = {Req rid}"
    unfolding 1(5) using none upd by (simp add: 1(6) owners_of_upd)
  with 1 none upd show thesis
    by (intro that [of a "a\<lparr>physical_block_ids := ?ids[length ?ids - 1 := new]\<rparr>"]) auto
qed

section \<open>Properties\<close>

text \<open>
  C13: whatever a scheduler and a prefix cache do to a fresh manager, every live request
  has a table of distinct, in-range, non-free blocks that is exactly what the allocator
  records for it and that covers the request's tokens.
\<close>

theorem manager_tables_agree:
  assumes "kv_manager_init n bs = Inr m0" and "m = fold mgr_exec ops m0" and "requests m rid = Some a"
  shows "allocations (allocator m) (Req rid) = Some (physical_block_ids a) \<and>
    distinct (physical_block_ids a) \<and>
    set (physical_block_ids a) \<subseteq> {..<num_blocks (allocator m)} - set (free_blocks (allocator m)) \<and>
    0 \<le> sequence_length a \<and> sequence_length a \<le> capacity_tokens a"
proof -
  have inv: "mgr_inv m" unfolding assms(2) by (rule manager_run_inv [OF assms(1)])
  show ?thesis
    using mgr_inv_request [OF inv assms(3)] mgr_owner [OF inv assms(3)] alloc_inv_partition [OF mgr_invD(1) [OF inv]]
    by blast
qed

lemma sample_manager:
  "\<exists>m0. kv_manager_init 2 4 = Inr m0 \<and>
     requests (fold mgr_exec [Reserve ''r'' 6 5] m0) ''r''
       = Some \<lparr>kv_request_id = ''r'', kv_block_size = 4, physical_block_ids = [1, 0], sequence_length = 5\<rparr>"
  by (simp add: kv_manager_init_def block_allocator_init_def reserve_def ceil_div_def block_allocate_def
      upt_rec eval_nat_numeral Let_def)

theorem manager_tables_agree_witness:
  "\<exists>m0 a. kv_manager_init 2 4 = Inr m0 \<and>
     requests (fold mgr_exec [Reserve ''r'' 6 5] m0) ''r'' = Some a \<and> distinct (physical_block_ids a)"
  using sample_manager manager_tables_agree [OF _ refl] by meson

text \<open>
  C11: no two tokens ever share a slot unless their block is shared: if two live requests
  (or two positions of one) resolve to the same physical slot, it is the same logical
  position of one request, or the block has more than one reference.
\<close>

theorem token_slots_disjoint:
  assumes "kv_manager_init n bs = Inr m0" and "m = fold mgr_exec ops m0"
    and "requests m r = Some a" and "requests m s = Some c"
    and "physical_location a i = Inr (b, off)" and "physical_location c j = Inr (b, off)"
  shows "r = s \<and> i = j \<or> r \<noteq> s \<and> 1 < refcounts (allocator m) ! b"
proof (cases "r = s")
  have inv: "mgr_inv m" unfolding assms(2) by (rule manager_run_inv [OF assms(1)])
  have bs: "0 < kv_block_size a" "0 < kv_block_size c"
    using mgr_inv_request(2) [OF inv] assms(3,4) mgr_invD(4) [OF inv] by auto
  {
    case True
    then have "i = j"
      using physical_location_inj [OF mgr_inv_request(6) [OF inv assms(3)] bs(1) assms(5)] assms(3,4,6) by simp
    with True show ?thesis by simp
  next
    case False
    have "Req r \<in> owners (allocator m) b" "Req s \<in> owners (allocator m) b" "b < num_blocks (allocator m)"
      and pos: "1 \<le> refcounts (allocator m) ! b"
      using mgr_owner [OF inv assms(3)] mgr_owner [OF inv assms(4)]
        physical_location_block(1) [OF bs(1) assms(5)] physical_location_block(1) [OF bs(2) assms(6)] by auto
    then have "refcounts (allocator m) ! b \<noteq> 1"
      using one_owner [OF mgr_invD(1) [OF inv]] False by blast
    with pos False show ?thesis by simp
  }
qed

theorem token_slots_disjoint_witness:
  "\<exists>m0 a. kv_manager_init 2 4 = Inr m0 \<and> requests (fold mgr_exec [Reserve ''r'' 6 5] m0) ''r'' = Some a \<and>
     (\<forall>j. physical_location a 4 = Inr (0, 0) \<and> (physical_location a j = Inr (0, 0) \<longrightarrow> 4 = j))"
proof -
  let ?a = "\<lparr>kv_request_id = ''r'', kv_block_size = 4, physical_block_ids = [1, 0], sequence_length = 5\<rparr>"
  have loc: "physical_location ?a 4 = Inr (0, 0)"
    by (simp add: physical_location_def capacity_tokens_def)
  from sample_manager obtain m0 where m0: "kv_manager_init 2 4 = Inr m0"
    and a: "requests (fold mgr_exec [Reserve ''r'' 6 5] m0) ''r'' = Some ?a" by blast
  have "4 = j" if "physical_location ?a j = Inr (0, 0)" for j
    using token_slots_disjoint [OF m0 refl a a loc that] by simp
  with m0 a loc show ?thesis by blast
qed

text \<open>
  A successful copy-on-write replaces exactly the request's last block by a block
  that nobody owned and that only this request owns afterwards; its other blocks, its
  length and every other request's table stay as they were.
\<close>

theorem copy_on_write_gives_private_tail:
  assumes "kv_manager_init n bs = Inr m0" and "m = fold mgr_exec ops m0"
    and "copy_on_write_tail m rid = Inr (Some (old, new), m')"
  shows "\<exists>a a'. requests m rid = Some a \<and> requests m' rid = Some a' \<and>
      old = last (physical_block_ids a) \<and> physical_block_ids a' = butlast (physical_block_ids a) @ [new] \<and>
      sequence_length a' = sequence_length a \<and>
      owners_of (allocations (allocator m)) new = {} \<and> owners_of (allocations (allocator m')) new = {Req rid} \<and>
      (\<forall>v. v \<noteq> rid \<longrightarrow> requests m' v = requests m v)"
proof -
  have inv: "mgr_inv m" unfolding assms(2) by (rule manager_run_inv [OF assms(1)])
  from assms(3) have inv': "mgr_inv m'" by (rule copy_on_write_tail_inv [OF inv])
  from inv assms(3) show ?thesis
  proof (cases rule: copy_on_write_private)
    case (1 a a')
    have "physical_block_ids a' = butlast (physical_block_ids a) @ [new]"
      using 1(4,5) mgr_inv_request(7) [OF inv' 1(2)] by (metis append_butlast_last_id)
    with 1 show ?thesis by blast
  qed
qed

definition shared_tail_ops :: "mgr_op list" where
  "shared_tail_ops = [Reserve ''r'' 2 2, CacheCall (Attach (ExactOwner 0) [1])]"

text \<open>
  The reference gather returns the request's tokens in logical order: it has
  exactly the requested length and its element \<open>i\<close> is the page slot at
  \<open>physical_location i\<close>.
\<close>

theorem gather_follows_block_table:
  assumes "0 < kv_block_size a" and "gather_paged_tokens pages a n = Inr xs"
  shows "int (length xs) = n \<and>
    (\<forall>i. 0 \<le> i \<and> i < n \<longrightarrow>
      (\<exists>b off. physical_location a i = Inr (b, off) \<and> xs ! nat i = pages ! b ! nat off))"
  using gather_length [OF assms] gather_nth [OF assms] by meson

text \<open>
  \<open>ensure_capacity\<close> succeeds exactly when the blocks it still needs are free, and
  then the table covers the target with less than one block to spare (unless it
  already did); otherwise the manager is unchanged.
\<close>

theorem ensure_capacity_exact:
  assumes "kv_manager_init n bs = Inr m0" and "m = fold mgr_exec ops m0"
    and "requests m rid = Some a" and "sequence_length a \<le> target"
  shows "\<exists>fits m'. ensure_capacity m rid target = Inr (fits, m') \<and>
    (fits \<longleftrightarrow> ceil_div target (mgr_block_size m) - int (length (physical_block_ids a)) \<le> free_block_count (allocator m)
              \<or> target \<le> capacity_tokens a) \<and>
    (\<not> fits \<longrightarrow> m' = m) \<and>
    (fits \<longrightarrow> (\<exists>a'. requests m' rid = Some a' \<and> target \<le> capacity_tokens a' \<and>
       (capacity_tokens a < target \<longrightarrow> capacity_tokens a' - mgr_block_size m < target)))"
proof -
  have inv: "mgr_inv m" unfolding assms(2) by (rule manager_run_inv [OF assms(1)])
  note d = mgr_invD [OF inv] and q = mgr_inv_request [OF inv assms(3)]
  let ?s = "mgr_block_size m" and ?len = "int (length (physical_block_ids a))"
  let ?x = "ceil_div target ?s - ?len"
  have cap: "capacity_tokens a = ?len * ?s" by (simp add: capacity_tokens_def q(2))
  have fit: "?x \<le> 0 \<longleftrightarrow> target \<le> capacity_tokens a"
    using ceil_div_le_iff [OF d(4), of target ?len] by (simp add: cap)
  show ?thesis
  proof (cases "?x \<le> 0")
    case True
    with assms(3,4) fit show ?thesis by (auto simp: ensure_capacity_def Let_def)
  next
    case False
    show ?thesis
    proof (cases "free_block_count (allocator m) < ?x")
      case True
      with False q(5) have "block_extend (allocator m) (Req rid) ?x = Inr (None, allocator m)"
        by (simp add: block_extend_def free_block_count_def)
      with False assms(3,4) have "ensure_capacity m rid target = Inr (False, m)"
        by (simp add: ensure_capacity_def Let_def)
      with False fit True show ?thesis by auto
    next
      case enough: False
      obtain ids fs where "pop_blocks (nat ?x) (free_blocks (allocator m)) = (ids, fs)" by fastforce
      with False q(5) enough have "\<exists>al. block_extend (allocator m) (Req rid) ?x = Inr (Some ids, al)"
        by (simp add: block_extend_def free_block_count_def)
      then obtain al where x: "block_extend (allocator m) (Req rid) ?x = Inr (Some ids, al)" ..
      let ?a' = "a\<lparr>physical_block_ids := physical_block_ids a @ ids\<rparr>"
      have "int (length ids) = ?x" using pool.grow_some [OF d(1) x] by simp
      then have "capacity_tokens ?a' = ceil_div target ?s * ?s" by (simp add: capacity_tokens_def q(2))
      moreover have "ceil_div target ?s * ?s - ?s < target"
        using ceil_div_tight [OF d(4), of target] by (simp add: left_diff_distrib)
      moreover have "ensure_capacity m rid target =
          Inr (True, m\<lparr>allocator := al, requests := (requests m)(rid \<mapsto> ?a')\<rparr>)"
        using False x assms(3,4) by (simp add: ensure_capacity_def Let_def)
      ultimately show ?thesis
        using enough ceil_div_covers [OF d(4), of target] by fastforce
    qed
  qed
qed

end
