(* ===== verification/Prefix_Cache.thy ===== *)
theory Prefix_Cache
  imports Paging "HOL-Library.Product_Lexorder"
begin

text \<open>
  The block-aligned radix prefix cache, \<open>engine/cache/prefix.py\<close>. A node owns one
  complete physical block, an exact entry owns every block of a prompt together with
  the token its prefill predicted. The cache shares the block manager with the
  scheduler, so its operations take and return both states.
\<close>

section \<open>State\<close>

record prefix_node =
  node_id :: nat
  parent_id :: "nat option"
  token_block :: "int list"
  physical_block_id :: nat
  node_owner :: owner
  children :: "nat set"
  node_last_access :: nat

record exact_entry =
  entry_id :: nat
  entry_token_ids :: "int list"
  entry_block_ids :: "nat list"
  next_token_id :: int
  entry_owner :: owner
  entry_last_access :: nat

record prefix_match =
  match_block_ids :: "nat list"
  token_count :: int
  match_next_token_id :: "int option"
  exact_match :: bool

text \<open>
  \<open>_nodes\<close>, \<open>_exact\<close> and \<open>_references\<close> are iterated or counted, so they are association
  lists; \<open>_edges\<close> is only looked up.
\<close>

record prefix_cache =
  max_blocks :: int
  nodes :: "(nat \<times> prefix_node) list"
  edges :: "(nat option \<times> int list) \<rightharpoonup> nat"
  exact :: "(int list \<times> exact_entry) list"
  references :: "(nat \<times> int) list"
  next_node_id :: nat
  next_entry_id :: nat
  clock :: nat
  lookups :: nat
  hits :: nat
  hit_tokens :: int
  evictions :: nat

definition prefix_cache_init :: "int \<Rightarrow> prefix_cache result" where
  "prefix_cache_init n =
     (if n < 0 then Inl ValueError
      else Inr \<lparr>max_blocks = n, nodes = [], edges = Map.empty, exact = [], references = [],
                next_node_id = 0, next_entry_id = 0, clock = 0, lookups = 0, hits = 0,
                hit_tokens = 0, evictions = 0\<rparr>)"

section \<open>Bookkeeping\<close>

definition touch_node :: "nat \<Rightarrow> prefix_cache \<Rightarrow> prefix_cache" where
  "touch_node nid pc =
     pc\<lparr>clock := clock pc + 1,
        nodes := AList.map_entry nid (\<lambda>n. n\<lparr>node_last_access := clock pc + 1\<rparr>) (nodes pc)\<rparr>"

definition touch_entry :: "int list \<Rightarrow> prefix_cache \<Rightarrow> prefix_cache" where
  "touch_entry key pc =
     pc\<lparr>clock := clock pc + 1,
        exact := AList.map_entry key (\<lambda>e. e\<lparr>entry_last_access := clock pc + 1\<rparr>) (exact pc)\<rparr>"

definition reference_of :: "(nat \<times> int) list \<Rightarrow> nat \<Rightarrow> int" where
  "reference_of refs b = (case map_of refs b of None \<Rightarrow> 0 | Some k \<Rightarrow> k)"

fun add_references :: "nat list \<Rightarrow> (nat \<times> int) list \<Rightarrow> (nat \<times> int) list" where
  "add_references [] refs = refs"
| "add_references (b # bs) refs = add_references bs (AList.update b (reference_of refs b + 1) refs)"

fun unreference :: "nat list \<Rightarrow> (nat \<times> int) list \<Rightarrow> (nat \<times> int) list result" where
  "unreference [] refs = Inr refs"
| "unreference (b # bs) refs =
     (case map_of refs b of
        None \<Rightarrow> Inl KeyError
      | Some k \<Rightarrow>
          unreference bs (if k - 1 \<noteq> 0 then AList.update b (k - 1) refs else AList.delete b refs))"

section \<open>Lookup\<close>

definition block_at :: "int \<Rightarrow> int list \<Rightarrow> nat \<Rightarrow> int list" where
  "block_at bs toks i = take (nat bs) (drop (i * nat bs) toks)"

text \<open>The walk of \<open>lookup\<close> over the block indices still to match.\<close>

fun lookup_walk ::
  "int \<Rightarrow> int list \<Rightarrow> nat list \<Rightarrow> nat option \<Rightarrow> prefix_cache \<Rightarrow> (nat list \<times> prefix_cache) result" where
  "lookup_walk bs toks [] parent pc = Inr ([], pc)"
| "lookup_walk bs toks (i # is) parent pc =
     (case edges pc (parent, block_at bs toks i) of
        None \<Rightarrow> Inr ([], pc)
      | Some nid \<Rightarrow>
          (case map_of (nodes pc) nid of
             None \<Rightarrow> Inl KeyError
           | Some n \<Rightarrow>
               and_then (lookup_walk bs toks is (Some nid) (touch_node nid pc))
                 (\<lambda>(blocks, pc'). Inr (physical_block_id n # blocks, pc'))))"

definition cache_lookup ::
  "kv_manager \<Rightarrow> int list \<Rightarrow> bool \<Rightarrow> prefix_cache \<Rightarrow> (prefix_match \<times> prefix_cache) result" where
  "cache_lookup m toks allow_exact pc0 =
     (let pc = pc0\<lparr>lookups := lookups pc0 + 1\<rparr>;
          bs = mgr_block_size m in
      case (if allow_exact then map_of (exact pc) toks else None) of
        Some e \<Rightarrow>
          (let pc1 = touch_entry toks pc in
           Inr (\<lparr>match_block_ids = entry_block_ids e, token_count = int (length toks),
                 match_next_token_id = Some (next_token_id e), exact_match = True\<rparr>,
                pc1\<lparr>hits := hits pc1 + 1, hit_tokens := hit_tokens pc1 + int (length toks)\<rparr>))
      | None \<Rightarrow>
          (let reusable_tokens = max 0 (int (length toks) - 1);
               complete_blocks = reusable_tokens div bs in
           and_then (lookup_walk bs toks [0..<nat complete_blocks] None pc)
             (\<lambda>(blocks, pc1).
                let cnt = int (length blocks) * bs;
                    pc2 = (if cnt \<noteq> 0 then pc1\<lparr>hits := hits pc1 + 1, hit_tokens := hit_tokens pc1 + cnt\<rparr>
                           else pc1) in
                Inr (\<lparr>match_block_ids = blocks, token_count = cnt,
                      match_next_token_id = None, exact_match = False\<rparr>, pc2))))"

section \<open>Eviction\<close>

datatype cache_item = NodeItem prefix_node | EntryItem exact_entry

fun item_blocks :: "cache_item \<Rightarrow> nat list" where
  "item_blocks (NodeItem n) = [physical_block_id n]"
| "item_blocks (EntryItem e) = entry_block_ids e"

fun item_owner :: "cache_item \<Rightarrow> owner" where
  "item_owner (NodeItem n) = node_owner n"
| "item_owner (EntryItem e) = entry_owner e"

fun item_key :: "cache_item \<Rightarrow> nat \<times> nat" where
  "item_key (NodeItem n) = (node_last_access n, node_id n)"
| "item_key (EntryItem e) = (entry_last_access e, entry_id e)"

definition is_freeable :: "block_allocator \<Rightarrow> (nat \<times> int) list \<Rightarrow> cache_item \<Rightarrow> bool" where
  "is_freeable al refs item =
     list_ex (\<lambda>b. block_refcount al b = Inr (reference_of refs b)) (item_blocks item)"

definition evict_candidates :: "bool \<Rightarrow> prefix_cache \<Rightarrow> kv_manager \<Rightarrow> cache_item list" where
  "evict_candidates only_freeable pc m =
     (let leaves = filter (\<lambda>n. children n = {}) (map snd (nodes pc));
          candidates = map NodeItem leaves @ map EntryItem (map snd (exact pc)) in
      if only_freeable then filter (is_freeable (allocator m) (references pc)) candidates
      else candidates)"

text \<open>Dropping the victim's entry from the radix tree or from the exact table.\<close>

fun remove_item :: "cache_item \<Rightarrow> prefix_cache \<Rightarrow> prefix_cache result" where
  "remove_item (EntryItem e) pc =
     require (map_of (exact pc) (entry_token_ids e) \<noteq> None) KeyError
       (Inr (pc\<lparr>exact := AList.delete (entry_token_ids e) (exact pc)\<rparr>))"
| "remove_item (NodeItem n) pc =
     require (edges pc (parent_id n, token_block n) \<noteq> None) KeyError
       (require (map_of (nodes pc) (node_id n) \<noteq> None) KeyError
         (let ns = AList.delete (node_id n) (nodes pc) in
          Inr (pc\<lparr>edges := (edges pc)((parent_id n, token_block n) := None),
                  nodes := (case parent_id n of
                              None \<Rightarrow> ns
                            | Some p \<Rightarrow>
                                AList.map_entry p (\<lambda>q. q\<lparr>children := children q - {node_id n}\<rparr>) ns)\<rparr>)))"

definition evict_one ::
  "bool \<Rightarrow> prefix_cache \<Rightarrow> kv_manager \<Rightarrow> (bool \<times> prefix_cache \<times> kv_manager) result" where
  "evict_one only_freeable pc m =
     (case evict_candidates only_freeable pc m of
        [] \<Rightarrow> Inr (False, pc, m)
      | c # cs \<Rightarrow>
          let victim = least_by item_key c cs in
          and_then (block_release (allocator m) (item_owner victim)) (\<lambda>(_, al).
          and_then (unreference (item_blocks victim) (references pc)) (\<lambda>refs.
          and_then (remove_item victim (pc\<lparr>references := refs\<rparr>)) (\<lambda>pc'.
            Inr (True, pc'\<lparr>evictions := evictions pc' + 1\<rparr>, m\<lparr>allocator := al\<rparr>)))))"

text \<open>\<open>while cond and self._evict_one(...): pass\<close>, the loop of all three evictors.\<close>

definition cache_size :: "prefix_cache \<Rightarrow> nat" where
  "cache_size pc = length (nodes pc) + length (exact pc)"

lemma remove_item_smaller: "remove_item item pc = Inr pc' \<Longrightarrow> cache_size pc' < cache_size pc"
  by (cases item)
    (auto simp: cache_size_def Let_def intro!: length_delete_less split: option.splits)

lemma evict_one_smaller:
  assumes "evict_one f pc m = Inr (True, pc', m')"
  shows "cache_size pc' < cache_size pc"
proof -
  from assms obtain item refs pc1 where "remove_item item (pc\<lparr>references := refs\<rparr>) = Inr pc1"
    and "pc' = pc1\<lparr>evictions := evictions pc1 + 1\<rparr>"
    by (auto simp: evict_one_def Let_def split: list.splits)
  with remove_item_smaller [of item "pc\<lparr>references := refs\<rparr>" pc1] show ?thesis
    by (simp add: cache_size_def)
qed

function evict_while ::
  "(prefix_cache \<Rightarrow> kv_manager \<Rightarrow> bool) \<Rightarrow> bool \<Rightarrow> prefix_cache \<Rightarrow> kv_manager \<Rightarrow>
     (prefix_cache \<times> kv_manager) result" where
  "evict_while cond f pc m =
     (if \<not> cond pc m then Inr (pc, m)
      else case evict_one f pc m of
        Inl e \<Rightarrow> Inl e
      | Inr (False, pc', m') \<Rightarrow> Inr (pc', m')
      | Inr (True, pc', m') \<Rightarrow> evict_while cond f pc' m')"
  by pat_completeness auto
termination
  by (relation "measure (\<lambda>(cond, f, pc, m). cache_size pc)") (auto intro: evict_one_smaller)

declare evict_while.simps [simp del]

definition evict_to_limit :: "prefix_cache \<Rightarrow> kv_manager \<Rightarrow> (prefix_cache \<times> kv_manager) result" where
  "evict_to_limit = evict_while (\<lambda>pc m. int (length (references pc)) > max_blocks pc) False"

definition evict_until_free ::
  "int \<Rightarrow> prefix_cache \<Rightarrow> kv_manager \<Rightarrow> (int \<times> prefix_cache \<times> kv_manager) result" where
  "evict_until_free required pc m =
     (if required < 0 then Inl ValueError
      else and_then (evict_while (\<lambda>pc m. free_block_count (allocator m) < required) True pc m)
        (\<lambda>(pc', m'). Inr (free_block_count (allocator m') - free_block_count (allocator m), pc', m')))"

definition clear :: "prefix_cache \<Rightarrow> kv_manager \<Rightarrow> (prefix_cache \<times> kv_manager) result" where
  "clear = evict_while (\<lambda>pc m. True) False"

section \<open>Publishing\<close>

text \<open>
  The loop of \<open>publish\<close> over block indices; the result counts the nodes it added. The
  new node is touched before it is stored, so it enters with the new clock.
\<close>

fun publish_walk ::
  "int list \<Rightarrow> nat list \<Rightarrow> nat list \<Rightarrow> nat option \<Rightarrow> prefix_cache \<Rightarrow> kv_manager \<Rightarrow>
     (nat \<times> prefix_cache \<times> kv_manager) result" where
  "publish_walk toks phys [] parent pc m = Inr (0, pc, m)"
| "publish_walk toks phys (i # is) parent pc m =
     (let tb = block_at (mgr_block_size m) toks i in
      case edges pc (parent, tb) of
        Some nid \<Rightarrow>
          (case map_of (nodes pc) nid of
             None \<Rightarrow> Inl KeyError
           | Some n \<Rightarrow> publish_walk toks phys is (Some nid) (touch_node nid pc) m)
      | None \<Rightarrow>
          (if \<not> i < length phys then Inl IndexError
           else let b = phys ! i; nid = next_node_id pc; own = CacheOwner nid in
             and_then (block_attach (allocator m) own [b]) (\<lambda>(_, al).
             let n = \<lparr>node_id = nid, parent_id = parent, token_block = tb, physical_block_id = b,
                      node_owner = own, children = {}, node_last_access = clock pc + 1\<rparr>;
                 ns = AList.update nid n (nodes pc) in
             case (case parent of
                     None \<Rightarrow> Inr ns
                   | Some p \<Rightarrow>
                       require (map_of ns p \<noteq> None) KeyError
                         (Inr (AList.map_entry p (\<lambda>q. q\<lparr>children := insert nid (children q)\<rparr>) ns))) of
               Inl e \<Rightarrow> Inl e
             | Inr ns' \<Rightarrow>
                 and_then (publish_walk toks phys is (Some nid)
                     (pc\<lparr>next_node_id := nid + 1, references := add_references [b] (references pc),
                         clock := clock pc + 1, nodes := ns',
                         edges := (edges pc)((parent, tb) \<mapsto> nid)\<rparr>)
                     (m\<lparr>allocator := al\<rparr>))
                   (\<lambda>(k, r). Inr (k + 1, r)))))"

definition publish_exact ::
  "int list \<Rightarrow> nat list \<Rightarrow> int option \<Rightarrow> prefix_cache \<Rightarrow> kv_manager \<Rightarrow>
     (prefix_cache \<times> kv_manager) result" where
  "publish_exact toks phys next_token pc m =
     (let prompt_blocks = ceil_div (int (length toks)) (mgr_block_size m) in
      case next_token of
        None \<Rightarrow> Inr (pc, m)
      | Some t \<Rightarrow>
          if prompt_blocks \<le> max_blocks pc \<and> map_of (exact pc) toks = None then
            let block_ids = take (nat prompt_blocks) phys; eid = next_entry_id pc; own = ExactOwner eid in
            and_then (block_attach (allocator m) own block_ids) (\<lambda>(_, al).
              Inr (pc\<lparr>next_entry_id := eid + 1, references := add_references block_ids (references pc),
                      clock := clock pc + 1,
                      exact := AList.update toks
                        \<lparr>entry_id = eid, entry_token_ids = toks, entry_block_ids = block_ids,
                         next_token_id = t, entry_owner = own, entry_last_access = clock pc + 1\<rparr>
                        (exact pc)\<rparr>,
                   m\<lparr>allocator := al\<rparr>))
          else Inr (pc, m))"

definition publish ::
  "int list \<Rightarrow> kv_allocation \<Rightarrow> int option \<Rightarrow> prefix_cache \<Rightarrow> kv_manager \<Rightarrow>
     (nat \<times> prefix_cache \<times> kv_manager) result" where
  "publish toks a next_token pc m =
     (if max_blocks pc = 0 then Inr (0, pc, m)
      else let phys = physical_block_ids a;
               complete_blocks = min (int (length toks) div mgr_block_size m) (int (length phys)) in
        and_then (publish_walk toks phys [0..<nat complete_blocks] None pc m) (\<lambda>(published, pc1, m1).
        and_then (publish_exact toks phys next_token pc1 m1) (\<lambda>(pc2, m2).
        and_then (evict_to_limit pc2 m2) (\<lambda>(pc3, m3). Inr (published, pc3, m3)))))"

section \<open>Snapshot\<close>

record cache_snapshot =
  cs_max_blocks :: int
  cs_cached_blocks :: nat
  cs_radix_nodes :: nat
  cs_exact_entries :: nat
  cs_lookups :: nat
  cs_hits :: nat
  cs_hit_tokens :: int
  cs_hit_rate :: rat
  cs_evictions :: nat

definition cache_snapshot_of :: "prefix_cache \<Rightarrow> cache_snapshot" where
  "cache_snapshot_of pc =
     \<lparr>cs_max_blocks = max_blocks pc, cs_cached_blocks = card (set (map fst (references pc))),
      cs_radix_nodes = length (nodes pc), cs_exact_entries = length (exact pc),
      cs_lookups = lookups pc, cs_hits = hits pc, cs_hit_tokens = hit_tokens pc,
      cs_hit_rate = (if lookups pc \<noteq> 0 then rat_of_nat (hits pc) / rat_of_nat (lookups pc) else 0),
      cs_evictions = evictions pc\<rparr>"

section \<open>What the cache may rely on\<close>

text \<open>The allocator entries that belong to the cache.\<close>

definition cache_map :: "(owner \<rightharpoonup> nat list) \<Rightarrow> (owner \<rightharpoonup> nat list)" where
  "cache_map m = (\<lambda>w. if is_request w then None else m w)"

lemma cache_map_upd [simp]:
  "\<not> is_request w \<Longrightarrow> cache_map (m(w \<mapsto> bs)) = (cache_map m)(w \<mapsto> bs)"
  "\<not> is_request w \<Longrightarrow> cache_map (m(w := None)) = (cache_map m)(w := None)"
  by (auto simp: cache_map_def)

lemma cache_map_apply [simp]: "\<not> is_request w \<Longrightarrow> cache_map m w = m w"
  by (simp add: cache_map_def)

lemma finite_cache_map [simp]: "finite (dom m) \<Longrightarrow> finite (dom (cache_map m))"
  by (rule finite_subset [of _ "dom m"]) (auto simp: cache_map_def split: if_splits)

lemma cache_owners_subset: "owners_of (cache_map m) b \<subseteq> owners_of m b"
  by (auto simp: owners_of_def cache_map_def split: if_splits)

definition nodes_ok ::
  "(nat \<times> prefix_node) list \<Rightarrow> (nat option \<times> int list \<rightharpoonup> nat) \<Rightarrow> nat \<Rightarrow> bool" where
  "nodes_ok ns E nxt \<longleftrightarrow>
     distinct (map fst ns) \<and>
     (\<forall>nid n. map_of ns nid = Some n \<longrightarrow>
        node_id n = nid \<and> node_owner n = CacheOwner nid \<and> nid < nxt \<and>
        children n = {c. \<exists>k. map_of ns c = Some k \<and> parent_id k = Some nid} \<and>
        (\<forall>p. parent_id n = Some p \<longrightarrow> p < nid \<and> map_of ns p \<noteq> None)) \<and>
     (\<forall>p tb nid. E (p, tb) = Some nid \<longleftrightarrow>
        (\<exists>n. map_of ns nid = Some n \<and> parent_id n = p \<and> token_block n = tb))"

definition exact_ok :: "(int list \<times> exact_entry) list \<Rightarrow> nat \<Rightarrow> bool" where
  "exact_ok xs nxt \<longleftrightarrow>
     distinct (map fst xs) \<and>
     (\<forall>key e. map_of xs key = Some e \<longrightarrow>
        entry_token_ids e = key \<and> entry_owner e = ExactOwner (entry_id e) \<and> entry_id e < nxt) \<and>
     (\<forall>k1 k2 e1 e2. map_of xs k1 = Some e1 \<longrightarrow> map_of xs k2 = Some e2 \<longrightarrow>
        entry_id e1 = entry_id e2 \<longrightarrow> k1 = k2)"

definition owners_ok ::
  "(nat \<times> prefix_node) list \<Rightarrow> (int list \<times> exact_entry) list \<Rightarrow> (owner \<rightharpoonup> nat list) \<Rightarrow> bool" where
  "owners_ok ns xs am \<longleftrightarrow>
     (\<forall>nid. am (CacheOwner nid) = map_option (\<lambda>n. [physical_block_id n]) (map_of ns nid)) \<and>
     (\<forall>eid bs. am (ExactOwner eid) = Some bs \<longleftrightarrow>
        (\<exists>key e. map_of xs key = Some e \<and> entry_id e = eid \<and> entry_block_ids e = bs))"

definition refs_ok :: "(nat \<times> int) list \<Rightarrow> (owner \<rightharpoonup> nat list) \<Rightarrow> bool" where
  "refs_ok refs am \<longleftrightarrow>
     distinct (map fst refs) \<and>
     (\<forall>b. reference_of refs b = int (card (owners_of (cache_map am) b))) \<and>
     (\<forall>b k. map_of refs b = Some k \<longrightarrow> 0 < k)"

definition cache_inv :: "prefix_cache \<Rightarrow> kv_manager \<Rightarrow> bool" where
  "cache_inv pc m \<longleftrightarrow>
     nodes_ok (nodes pc) (edges pc) (next_node_id pc) \<and>
     exact_ok (exact pc) (next_entry_id pc) \<and>
     owners_ok (nodes pc) (exact pc) (allocations (allocator m)) \<and>
     refs_ok (references pc) (allocations (allocator m))"

lemma cache_invI:
  assumes "nodes_ok (nodes pc) (edges pc) (next_node_id pc)"
    and "exact_ok (exact pc) (next_entry_id pc)"
    and "owners_ok (nodes pc) (exact pc) (allocations (allocator m))"
    and "refs_ok (references pc) (allocations (allocator m))"
  shows "cache_inv pc m"
  using assms by (simp add: cache_inv_def)

lemma cache_invD:
  assumes "cache_inv pc m"
  shows "nodes_ok (nodes pc) (edges pc) (next_node_id pc)"
    and "exact_ok (exact pc) (next_entry_id pc)"
    and "owners_ok (nodes pc) (exact pc) (allocations (allocator m))"
    and "refs_ok (references pc) (allocations (allocator m))"
  using assms by (simp_all add: cache_inv_def)

lemma cache_init_inv:
  assumes "prefix_cache_init n = Inr pc" and "kv_manager_init k bs = Inr m"
  shows "cache_inv pc m"
  using assms
  by (auto simp: prefix_cache_init_def kv_manager_init_def block_allocator_init_def cache_inv_def
      nodes_ok_def exact_ok_def owners_ok_def refs_ok_def reference_of_def cache_map_def owners_of_def
      split: if_splits)

subsection \<open>Reference counting\<close>

lemma reference_of_update [simp]:
  "reference_of (AList.update b k refs) x = (if x = b then k else reference_of refs x)"
  by (simp add: reference_of_def update_conv')

lemma reference_of_delete [simp]:
  "reference_of (AList.delete b refs) x = (if x = b then 0 else reference_of refs x)"
  by (simp add: reference_of_def delete_conv')

lemma reference_of_add:
  "distinct bs \<Longrightarrow> reference_of (add_references bs refs) x = reference_of refs x + (if x \<in> set bs then 1 else 0)"
  by (induction bs arbitrary: refs) auto

lemma add_references_distinct:
  "distinct (map fst refs) \<Longrightarrow> distinct (map fst (add_references bs refs))"
  by (induction bs arbitrary: refs) (simp_all add: distinct_update)

lemma add_references_pos:
  "(\<And>b k. map_of refs b = Some k \<Longrightarrow> 0 < k) \<Longrightarrow> map_of (add_references bs refs) b = Some k \<Longrightarrow> 0 < k"
proof (induction bs arbitrary: refs)
  case (Cons c bs)
  have "0 < k" if "map_of (AList.update c (reference_of refs c + 1) refs) b = Some k" for b k
    using that Cons.prems(1) [of c] Cons.prems(1) [of b k]
    by (cases "map_of refs c") (auto simp: update_conv' reference_of_def split: if_splits)
  from Cons.IH [OF this] Cons.prems(2) show ?case by simp
qed simp

lemma refs_ok_add:
  assumes ok: "refs_ok refs am" and fin: "finite (dom am)"
    and new: "am w = None" "\<not> is_request w" and dist: "distinct bs"
  shows "refs_ok (add_references bs refs) (am(w \<mapsto> bs))"
  unfolding refs_ok_def
proof (intro conjI allI impI)
  show "distinct (map fst (add_references bs refs))"
    using ok by (simp add: refs_ok_def add_references_distinct)
next
  fix b
  have "w \<notin> dom (cache_map am)" using new by (auto simp: cache_map_def)
  then show "reference_of (add_references bs refs) b = int (card (owners_of (cache_map (am(w \<mapsto> bs))) b))"
    using ok new(2) fin by (simp add: refs_ok_def reference_of_add [OF dist] card_owners_new)
next
  fix b k assume "map_of (add_references bs refs) b = Some k"
  with ok show "0 < k" by (intro add_references_pos [of refs bs b k]) (auto simp: refs_ok_def)
qed

text \<open>The counts of a victim's blocks can always be decremented, and end as they should.\<close>

lemma unreference_ok:
  assumes "distinct (map fst refs)" and "\<And>b k. map_of refs b = Some k \<Longrightarrow> 0 < k"
    and "\<And>b. b \<in> set bs \<Longrightarrow> map_of refs b \<noteq> None" and "distinct bs"
  shows "\<exists>refs'. unreference bs refs = Inr refs' \<and> distinct (map fst refs') \<and>
    (\<forall>b k. map_of refs' b = Some k \<longrightarrow> 0 < k) \<and>
    (\<forall>b. reference_of refs' b = reference_of refs b - (if b \<in> set bs then 1 else 0))"
  using assms
proof (induction bs arbitrary: refs)
  case (Cons c bs)
  from Cons.prems(3) obtain k where k: "map_of refs c = Some k" by fastforce
  then have rk: "reference_of refs c = k" and kp: "0 < k" using Cons.prems(2) by (auto simp: reference_of_def)
  let ?refs = "if k - 1 \<noteq> 0 then AList.update c (k - 1) refs else AList.delete c refs"
  have "\<exists>refs'. unreference bs ?refs = Inr refs' \<and> distinct (map fst refs') \<and>
    (\<forall>b k. map_of refs' b = Some k \<longrightarrow> 0 < k) \<and>
    (\<forall>b. reference_of refs' b = reference_of ?refs b - (if b \<in> set bs then 1 else 0))"
  proof (rule Cons.IH)
    show "distinct (map fst ?refs)"
      using Cons.prems(1) by (simp add: distinct_update distinct_delete)
    show "0 < j" if "map_of ?refs b = Some j" for b j
      using that kp Cons.prems(2) by (auto simp: update_conv' delete_conv' split: if_splits)
    show "map_of ?refs b \<noteq> None" if "b \<in> set bs" for b
      using that Cons.prems(3,4) by (auto simp: update_conv' delete_conv')
    show "distinct bs" using Cons.prems(4) by simp
  qed
  then obtain refs' where r: "unreference bs ?refs = Inr refs'" "distinct (map fst refs')"
    "\<forall>b k. map_of refs' b = Some k \<longrightarrow> 0 < k"
    "\<forall>b. reference_of refs' b = reference_of ?refs b - (if b \<in> set bs then 1 else 0)" by blast
  have "reference_of ?refs b = reference_of refs b - (if b = c then 1 else 0)" for b
    using rk by simp
  with r k Cons.prems(4) show ?case by auto
qed simp

lemma refs_ok_remove:
  assumes ok: "refs_ok refs am" and fin: "finite (dom am)"
    and held: "am w = Some bs" "\<not> is_request w" and dist: "distinct bs"
  shows "\<exists>refs'. unreference bs refs = Inr refs' \<and> refs_ok refs' (am(w := None))"
proof -
  have cm: "cache_map am w = Some bs" using held by simp
  have "map_of refs b \<noteq> None" if "b \<in> set bs" for b
  proof -
    have "w \<in> owners_of (cache_map am) b" using cm that by (auto simp: owners_of_def)
    then have "0 < card (owners_of (cache_map am) b)"
      using fin by (auto simp: card_gt_0_iff finite_owners_of)
    then have "0 < reference_of refs b" using ok by (simp add: refs_ok_def)
    then show ?thesis by (auto simp: reference_of_def split: option.splits)
  qed
  with unreference_ok [of refs bs] ok dist obtain refs' where
    r: "unreference bs refs = Inr refs'" "distinct (map fst refs')" "\<forall>b k. map_of refs' b = Some k \<longrightarrow> 0 < k"
      "\<forall>b. reference_of refs' b = reference_of refs b - (if b \<in> set bs then 1 else 0)"
    unfolding refs_ok_def by blast
  have "refs_ok refs' (am(w := None))"
    using r ok held(2) fin cm by (simp add: refs_ok_def card_owners_del)
  with r(1) show ?thesis by blast
qed

subsection \<open>The radix tree\<close>

named_theorems alist_simps \<open>association lists as maps\<close>
declare update_conv' [alist_simps] delete_conv' [alist_simps] map_of_map_entry_app [alist_simps]
  AList.distinct_map_entry [alist_simps] distinct_update [alist_simps] distinct_delete [alist_simps]

lemma nodes_okD:
  assumes "nodes_ok ns E nxt" and "map_of ns nid = Some n"
  shows "node_id n = nid" and "node_owner n = CacheOwner nid" and "nid < nxt"
    and "children n = {c. \<exists>k. map_of ns c = Some k \<and> parent_id k = Some nid}"
    and "parent_id n = Some p \<Longrightarrow> p < nid \<and> (\<exists>q. map_of ns p = Some q)"
    and "E (parent_id n, token_block n) = Some nid"
  using assms by (auto simp: nodes_ok_def)

lemma nodes_ok_edge:
  assumes "nodes_ok ns E nxt" and "E (p, tb) = Some nid"
  obtains n where "map_of ns nid = Some n" and "parent_id n = p" and "token_block n = tb"
  using assms by (auto simp: nodes_ok_def)

lemma nodes_ok_distinct: "nodes_ok ns E nxt \<Longrightarrow> distinct (map fst ns)"
  by (simp add: nodes_ok_def)

lemma nodes_okI:
  assumes "distinct (map fst ns)"
    and "\<And>nid n. map_of ns nid = Some n \<Longrightarrow> node_id n = nid \<and> node_owner n = CacheOwner nid \<and> nid < nxt"
    and "\<And>nid n c. map_of ns nid = Some n \<Longrightarrow>
           c \<in> children n \<longleftrightarrow> (\<exists>k. map_of ns c = Some k \<and> parent_id k = Some nid)"
    and "\<And>nid n p. map_of ns nid = Some n \<Longrightarrow> parent_id n = Some p \<Longrightarrow> p < nid \<and> (\<exists>q. map_of ns p = Some q)"
    and "\<And>p tb nid. E (p, tb) = Some nid \<Longrightarrow> \<exists>n. map_of ns nid = Some n \<and> parent_id n = p \<and> token_block n = tb"
    and "\<And>nid n. map_of ns nid = Some n \<Longrightarrow> E (parent_id n, token_block n) = Some nid"
  shows "nodes_ok ns E nxt"
  unfolding nodes_ok_def using assms by (intro conjI allI impI iffI) (fast | blast)+

lemma nodes_ok_touch:
  assumes "nodes_ok ns E nxt"
  shows "nodes_ok (AList.map_entry i (\<lambda>n. n\<lparr>node_last_access := t\<rparr>) ns) E nxt"
    (is "nodes_ok ?ns _ _")
proof -
  have m: "map_of ?ns nid = (if nid = i then map_option (\<lambda>n. n\<lparr>node_last_access := t\<rparr>) (map_of ns nid) else map_of ns nid)"
    for nid by (simp add: alist_simps)
  have fields: "\<exists>n0. map_of ns nid = Some n0 \<and> node_id n = node_id n0 \<and> node_owner n = node_owner n0 \<and>
      children n = children n0 \<and> parent_id n = parent_id n0 \<and> token_block n = token_block n0"
    if "map_of ?ns nid = Some n" for nid n
    using that by (auto simp: m split: if_splits)
  have some: "\<exists>n. map_of ?ns nid = Some n \<and> parent_id n = parent_id n0 \<and> token_block n = token_block n0"
    if "map_of ns nid = Some n0" for nid n0
    using that by (auto simp: m)
  show ?thesis
  proof (rule nodes_okI)
    show "distinct (map fst ?ns)" using assms by (simp add: nodes_ok_distinct)
  next
    fix nid n assume "map_of ?ns nid = Some n"
    with fields obtain n0 where n0: "map_of ns nid = Some n0" "node_id n = node_id n0" "node_owner n = node_owner n0"
      "children n = children n0" "parent_id n = parent_id n0" "token_block n = token_block n0" by blast
    note d = nodes_okD [OF assms n0(1)]
    show "node_id n = nid \<and> node_owner n = CacheOwner nid \<and> nid < nxt" using d n0 by simp
    show "E (parent_id n, token_block n) = Some nid" using d(6) n0 by simp
    show "p < nid \<and> (\<exists>q. map_of ?ns p = Some q)" if "parent_id n = Some p" for p
      using d(5) [of p] n0(5) that some by (metis (no_types))
    show "c \<in> children n \<longleftrightarrow> (\<exists>k. map_of ?ns c = Some k \<and> parent_id k = Some nid)" for c
    proof -
      have "(\<exists>k. map_of ?ns c = Some k \<and> parent_id k = Some nid) \<longleftrightarrow> (\<exists>k. map_of ns c = Some k \<and> parent_id k = Some nid)"
        using fields [of c] some [of c] by fastforce
      then show ?thesis using d(4) n0(4) by simp
    qed
  next
    fix p tb nid assume "E (p, tb) = Some nid"
    then show "\<exists>n. map_of ?ns nid = Some n \<and> parent_id n = p \<and> token_block n = tb"
      using nodes_ok_edge [OF assms] some by metis
  qed
qed

lemma nodes_ok_insert:
  assumes ok: "nodes_ok ns E nxt" and dist: "distinct (map fst ns')"
    and M: "\<And>x. map_of ns' x = (if x = nxt then Some n else
       map_option (\<lambda>q. if parent_id n = Some x then q\<lparr>children := insert nxt (children q)\<rparr> else q) (map_of ns x))"
    and n: "node_id n = nxt" "node_owner n = CacheOwner nxt" "children n = {}"
    and par: "\<And>p. parent_id n = Some p \<Longrightarrow> \<exists>q. map_of ns p = Some q"
    and new: "E (parent_id n, token_block n) = None"
  shows "nodes_ok ns' (E((parent_id n, token_block n) \<mapsto> nxt)) (nxt + 1)"
proof -
  have none: "map_of ns nxt = None"
    using nodes_okD(3) [OF ok] by (cases "map_of ns nxt") auto
  have old: "\<exists>q0. map_of ns x = Some q0 \<and> x < nxt \<and> node_id q = node_id q0 \<and> node_owner q = node_owner q0 \<and>
      parent_id q = parent_id q0 \<and> token_block q = token_block q0 \<and>
      children q = (if parent_id n = Some x then insert nxt (children q0) else children q0)"
    if "map_of ns' x = Some q" "x \<noteq> nxt" for x q
    using that nodes_okD(3) [OF ok] by (auto simp: M)
  have keep: "\<exists>q. map_of ns' x = Some q \<and> parent_id q = parent_id q0 \<and> token_block q = token_block q0"
    if "map_of ns x = Some q0" for x q0
    using that none by (cases "x = nxt") (auto simp: M)
  have nn: "map_of ns' nxt = Some n" by (simp add: M)
  have kids: "(\<exists>k. map_of ns' c = Some k \<and> parent_id k = Some x) \<longleftrightarrow>
      (\<exists>k. map_of ns c = Some k \<and> parent_id k = Some x) \<or> c = nxt \<and> parent_id n = Some x" for c x
  proof (cases "c = nxt")
    case False
    then show ?thesis using old [of c] keep [of c] by fastforce
  qed (use none in \<open>auto simp: nn\<close>)
  show ?thesis
  proof (rule nodes_okI)
    show "distinct (map fst ns')" by (rule dist)
  next
    fix x q assume q: "map_of ns' x = Some q"
    show "node_id q = x \<and> node_owner q = CacheOwner x \<and> x < nxt + 1"
      using q n nn old [OF q] nodes_okD(1,2) [OF ok] by (cases "x = nxt") fastforce+
    show "c \<in> children q \<longleftrightarrow> (\<exists>k. map_of ns' c = Some k \<and> parent_id k = Some x)" for c
    proof (cases "x = nxt")
      case True
      have "parent_id k \<noteq> Some nxt" if "map_of ns c = Some k" for k
        using nodes_okD(5) [OF ok that] none by fastforce
      moreover have "parent_id n \<noteq> Some nxt" using par none by fastforce
      ultimately show ?thesis using True q nn n(3) by (auto simp: kids)
    next
      case False
      from old [OF q False] obtain q0 where q0: "map_of ns x = Some q0"
        "children q = (if parent_id n = Some x then insert nxt (children q0) else children q0)" by blast
      show ?thesis unfolding kids q0(2) nodes_okD(4) [OF ok q0(1)] by auto
    qed
    show "p < x \<and> (\<exists>r. map_of ns' p = Some r)" if "parent_id q = Some p" for p
    proof (cases "x = nxt")
      case True
      with q nn that par obtain r where "map_of ns p = Some r" by auto
      with nodes_okD(3) [OF ok this] True keep [of p] show ?thesis by blast
    next
      case False
      from old [OF q False] that nodes_okD(5) [OF ok] keep show ?thesis by metis
    qed
    show "(E((parent_id n, token_block n) \<mapsto> nxt)) (parent_id q, token_block q) = Some x"
    proof (cases "x = nxt")
      case False
      from old [OF q False] nodes_okD(6) [OF ok] new show ?thesis by fastforce
    qed (use q nn in auto)
  next
    fix p tb x assume "(E((parent_id n, token_block n) \<mapsto> nxt)) (p, tb) = Some x"
    then show "\<exists>q. map_of ns' x = Some q \<and> parent_id q = p \<and> token_block q = tb"
      using nn nodes_ok_edge [OF ok, of p tb x] keep [of x] by (metis (no_types) fun_upd_apply option.inject prod.inject)
  qed
qed

lemma nodes_ok_delete:
  assumes ok: "nodes_ok ns E nxt" and dist: "distinct (map fst ns')"
    and M: "\<And>x. map_of ns' x = (if x = i then None else
       map_option (\<lambda>q. if parent_id n = Some x then q\<lparr>children := children q - {i}\<rparr> else q) (map_of ns x))"
    and n: "map_of ns i = Some n" "children n = {}"
  shows "nodes_ok ns' (E((parent_id n, token_block n) := None)) nxt"
proof -
  have old: "\<exists>q0. map_of ns x = Some q0 \<and> x \<noteq> i \<and> node_id q = node_id q0 \<and> node_owner q = node_owner q0 \<and>
      parent_id q = parent_id q0 \<and> token_block q = token_block q0 \<and>
      children q = (if parent_id n = Some x then children q0 - {i} else children q0)"
    if q: "map_of ns' x = Some q" for x q
  proof -
    have x: "x \<noteq> i" using q by (auto simp: M)
    then obtain q0 where "map_of ns x = Some q0" using q by (cases "map_of ns x") (auto simp: M)
    with q x show ?thesis by (intro exI [of _ q0]) (simp add: M split: if_splits, force+)
  qed
  have keep: "\<exists>q. map_of ns' x = Some q \<and> parent_id q = parent_id q0 \<and> token_block q = token_block q0"
    if "map_of ns x = Some q0" "x \<noteq> i" for x q0
    using that by (auto simp: M)
  have leaf: "parent_id q \<noteq> Some i" if "map_of ns x = Some q" for x q
    using nodes_okD(4) [OF ok n(1)] n(2) that by auto
  have kids: "(\<exists>k. map_of ns' c = Some k \<and> parent_id k = Some x) \<longleftrightarrow>
      (\<exists>k. map_of ns c = Some k \<and> parent_id k = Some x) \<and> c \<noteq> i" for c x
    using old [of c] keep [of c] by fastforce
  show ?thesis
  proof (rule nodes_okI)
    show "distinct (map fst ns')" by (rule dist)
  next
    fix x q assume q: "map_of ns' x = Some q"
    from old [OF q] obtain q0 where q0: "map_of ns x = Some q0" "x \<noteq> i" "node_id q = node_id q0"
      "node_owner q = node_owner q0" "parent_id q = parent_id q0" "token_block q = token_block q0"
      "children q = (if parent_id n = Some x then children q0 - {i} else children q0)" by blast
    note d = nodes_okD [OF ok q0(1)]
    show "node_id q = x \<and> node_owner q = CacheOwner x \<and> x < nxt" using d(1-3) q0 by simp
    show "c \<in> children q \<longleftrightarrow> (\<exists>k. map_of ns' c = Some k \<and> parent_id k = Some x)" for c
      using d(4) q0(7) n(1) by (auto simp: kids)
    show "p < x \<and> (\<exists>r. map_of ns' p = Some r)" if "parent_id q = Some p" for p
      using d(5) [of p] q0(5) that leaf [OF q0(1)] keep [of p] by fastforce
    have "(parent_id q, token_block q) \<noteq> (parent_id n, token_block n)"
      using d(6) nodes_okD(6) [OF ok n(1)] q0 by auto
    then show "(E((parent_id n, token_block n) := None)) (parent_id q, token_block q) = Some x"
      using d(6) q0(5,6) by simp
  next
    fix p tb x assume "(E((parent_id n, token_block n) := None)) (p, tb) = Some x"
    then have e: "E (p, tb) = Some x" and ne: "(p, tb) \<noteq> (parent_id n, token_block n)"
      by (auto split: if_splits)
    from nodes_ok_edge [OF ok e] obtain q0 where q0: "map_of ns x = Some q0" "parent_id q0 = p" "token_block q0 = tb" .
    moreover have "x \<noteq> i" using q0 n(1) ne by auto
    ultimately show "\<exists>q. map_of ns' x = Some q \<and> parent_id q = p \<and> token_block q = tb"
      using keep by metis
  qed
qed

subsection \<open>Exact entries and owners\<close>

lemma exact_ok_touch:
  "exact_ok xs nxt \<Longrightarrow> exact_ok (AList.map_entry key (\<lambda>e. e\<lparr>entry_last_access := t\<rparr>) xs) nxt"
  unfolding exact_ok_def by (auto simp: alist_simps split: if_splits; blast)

lemma exact_ok_insert:
  "exact_ok xs nxt \<Longrightarrow> map_of xs key = None \<Longrightarrow> entry_token_ids e = key \<Longrightarrow> entry_id e = nxt \<Longrightarrow>
   entry_owner e = ExactOwner nxt \<Longrightarrow> exact_ok (AList.update key e xs) (nxt + 1)"
  unfolding exact_ok_def by (auto simp: alist_simps split: if_splits; fastforce)

lemma exact_ok_delete: "exact_ok xs nxt \<Longrightarrow> exact_ok (AList.delete key xs) nxt"
  unfolding exact_ok_def by (auto simp: alist_simps split: if_splits; blast)

lemma exact_okD:
  assumes "exact_ok xs nxt" and "map_of xs key = Some e"
  shows "entry_token_ids e = key" and "entry_owner e = ExactOwner (entry_id e)" and "entry_id e < nxt"
    and "map_of xs k2 = Some e2 \<Longrightarrow> entry_id e2 = entry_id e \<Longrightarrow> k2 = key"
  using assms unfolding exact_ok_def by blast+

lemma owners_okD:
  assumes "owners_ok ns xs am"
  shows "map_of ns nid = Some n \<Longrightarrow> am (CacheOwner nid) = Some [physical_block_id n]"
    and "map_of ns nid = None \<Longrightarrow> am (CacheOwner nid) = None"
    and "map_of xs key = Some e \<Longrightarrow> am (ExactOwner (entry_id e)) = Some (entry_block_ids e)"
  using assms unfolding owners_ok_def by auto

lemma owners_ok_cong:
  assumes "owners_ok ns xs am"
    and "\<And>nid. map_option physical_block_id (map_of ns' nid) = map_option physical_block_id (map_of ns nid)"
    and "\<And>key. map_option (\<lambda>e. (entry_id e, entry_block_ids e)) (map_of xs' key)
             = map_option (\<lambda>e. (entry_id e, entry_block_ids e)) (map_of xs key)"
    and "\<And>w. \<not> is_request w \<Longrightarrow> am' w = am w"
  shows "owners_ok ns' xs' am'"
  unfolding owners_ok_def
proof (intro conjI allI)
  fix nid
  have "map_option (\<lambda>n. [physical_block_id n]) (map_of ns' nid)
      = map_option (\<lambda>n. [physical_block_id n]) (map_of ns nid)"
    using assms(2) [of nid] by (cases "map_of ns' nid"; cases "map_of ns nid") auto
  then show "am' (CacheOwner nid) = map_option (\<lambda>n. [physical_block_id n]) (map_of ns' nid)"
    using assms(1,4) by (simp add: owners_ok_def)
next
  fix eid bs
  have "(\<exists>e. map_of xs' key = Some e \<and> entry_id e = eid \<and> entry_block_ids e = bs) \<longleftrightarrow>
      (\<exists>e. map_of xs key = Some e \<and> entry_id e = eid \<and> entry_block_ids e = bs)" for key
    using assms(3) [of key] by (cases "map_of xs' key"; cases "map_of xs key") auto
  then show "am' (ExactOwner eid) = Some bs \<longleftrightarrow>
      (\<exists>key e. map_of xs' key = Some e \<and> entry_id e = eid \<and> entry_block_ids e = bs)"
    using assms(1,4) by (simp add: owners_ok_def)
qed

lemma owners_ok_node_upd:
  assumes "owners_ok ns xs am"
    and "\<And>x. map_option physical_block_id (map_of ns' x)
           = (if x = i then r else map_option physical_block_id (map_of ns x))"
  shows "owners_ok ns' xs (am(CacheOwner i := map_option (\<lambda>b. [b]) r))"
proof -
  have "map_option (\<lambda>n. [physical_block_id n]) (map_of ns' x)
      = (if x = i then map_option (\<lambda>b. [b]) r else map_option (\<lambda>n. [physical_block_id n]) (map_of ns x))" for x
    using assms(2) [of x] by (cases "map_of ns' x"; cases "map_of ns x") (auto split: if_splits)
  with assms(1) show ?thesis by (simp add: owners_ok_def)
qed

lemma owners_ok_entry_insert:
  assumes "owners_ok ns xs am" and "exact_ok xs nxt" and "map_of xs key = None" and "entry_id e = nxt"
  shows "owners_ok ns (AList.update key e xs) (am(ExactOwner nxt \<mapsto> entry_block_ids e))"
  unfolding owners_ok_def
proof (intro conjI allI)
  fix eid bs
  have upd: "map_of (AList.update key e xs) k = Some e2 \<longleftrightarrow> k = key \<and> e2 = e \<or> map_of xs k = Some e2" for k e2
    using assms(3) by (auto simp: alist_simps)
  have old: "am (ExactOwner eid) = Some bs \<longleftrightarrow>
      (\<exists>k e2. map_of xs k = Some e2 \<and> entry_id e2 = eid \<and> entry_block_ids e2 = bs)"
    using assms(1) by (simp add: owners_ok_def)
  have fresh: "entry_id e2 \<noteq> nxt" if "map_of xs k = Some e2" for k e2
    using exact_okD(3) [OF assms(2) that] by simp
  show "(am(ExactOwner nxt \<mapsto> entry_block_ids e)) (ExactOwner eid) = Some bs \<longleftrightarrow>
      (\<exists>k e2. map_of (AList.update key e xs) k = Some e2 \<and> entry_id e2 = eid \<and> entry_block_ids e2 = bs)"
  proof (cases "eid = nxt")
    case True
    with assms(4) show ?thesis unfolding upd using fresh by auto
  next
    case False
    with assms(4) have "(am(ExactOwner nxt \<mapsto> entry_block_ids e)) (ExactOwner eid) = am (ExactOwner eid)"
      and "entry_id e \<noteq> eid" by simp_all
    then show ?thesis unfolding upd using old by metis
  qed
qed (use assms(1) in \<open>simp add: owners_ok_def\<close>)

lemma owners_ok_entry_delete:
  assumes "owners_ok ns xs am" and "exact_ok xs nxt" and "map_of xs key = Some e"
  shows "owners_ok ns (AList.delete key xs) (am(ExactOwner (entry_id e) := None))"
  unfolding owners_ok_def
proof (intro conjI allI)
  fix eid bs
  have del: "map_of (AList.delete key xs) k = Some e2 \<longleftrightarrow> k \<noteq> key \<and> map_of xs k = Some e2" for k e2
    by (auto simp: alist_simps)
  have old: "am (ExactOwner eid) = Some bs \<longleftrightarrow>
      (\<exists>k e2. map_of xs k = Some e2 \<and> entry_id e2 = eid \<and> entry_block_ids e2 = bs)"
    using assms(1) by (simp add: owners_ok_def)
  show "(am(ExactOwner (entry_id e) := None)) (ExactOwner eid) = Some bs \<longleftrightarrow>
      (\<exists>k e2. map_of (AList.delete key xs) k = Some e2 \<and> entry_id e2 = eid \<and> entry_block_ids e2 = bs)"
  proof (cases "eid = entry_id e")
    case True
    then show ?thesis unfolding del using exact_okD(4) [OF assms(2,3)] by auto
  next
    case False
    then have "(am(ExactOwner (entry_id e) := None)) (ExactOwner eid) = am (ExactOwner eid)" by simp
    moreover have "entry_id e2 = eid \<Longrightarrow> map_of xs k = Some e2 \<Longrightarrow> k \<noteq> key" for k e2
      using False assms(3) by auto
    ultimately show ?thesis unfolding del using old by metis
  qed
qed (use assms(1) in \<open>simp add: owners_ok_def\<close>)

lemma touch_node_inv: "cache_inv pc m \<Longrightarrow> cache_inv (touch_node nid pc) m"
  unfolding cache_inv_def touch_node_def
  by (auto intro: nodes_ok_touch elim!: owners_ok_cong simp: alist_simps option.map_comp o_def)

lemma touch_entry_inv: "cache_inv pc m \<Longrightarrow> cache_inv (touch_entry key pc) m"
  unfolding cache_inv_def touch_entry_def
  by (auto intro: exact_ok_touch elim!: owners_ok_cong simp: alist_simps option.map_comp o_def)

text \<open>Counters the invariant does not read.\<close>

lemma cache_inv_stats [simp]:
  "cache_inv (pc\<lparr>lookups := x\<rparr>) m = cache_inv pc m"
  "cache_inv (pc\<lparr>hits := x\<rparr>) m = cache_inv pc m"
  "cache_inv (pc\<lparr>hit_tokens := y\<rparr>) m = cache_inv pc m"
  "cache_inv (pc\<lparr>evictions := x\<rparr>) m = cache_inv pc m"
  by (simp_all add: cache_inv_def)

text \<open>A manager that treats the cache's owners alike is as good.\<close>

lemma cache_inv_other_manager:
  assumes "cache_inv pc m" and "\<And>w. \<not> is_request w \<Longrightarrow> allocations (allocator m') w = allocations (allocator m) w"
  shows "cache_inv pc m'"
proof -
  have "cache_map (allocations (allocator m')) = cache_map (allocations (allocator m))"
    using assms(2) by (auto simp: cache_map_def)
  with assms show ?thesis by (auto simp: cache_inv_def refs_ok_def elim: owners_ok_cong)
qed

section \<open>Eviction keeps the invariant\<close>

text \<open>Everything still cached was cached before, with the same contents.\<close>

definition shrinks :: "prefix_cache \<Rightarrow> prefix_cache \<Rightarrow> bool" where
  "shrinks pc pc' \<longleftrightarrow>
     (\<forall>x n'. map_of (nodes pc') x = Some n' \<longrightarrow> (\<exists>n. map_of (nodes pc) x = Some n \<and>
        physical_block_id n' = physical_block_id n \<and> parent_id n' = parent_id n \<and> token_block n' = token_block n)) \<and>
     (\<forall>k e'. map_of (exact pc') k = Some e' \<longrightarrow> (\<exists>e. map_of (exact pc) k = Some e \<and>
        entry_block_ids e' = entry_block_ids e \<and> next_token_id e' = next_token_id e))"

lemma shrinks_refl [simp]: "shrinks pc pc"
  by (simp add: shrinks_def)

lemma shrinks_trans:
  assumes "shrinks a b" and "shrinks b c" shows "shrinks a c"
  unfolding shrinks_def
proof (intro conjI allI impI)
  fix x n' assume "map_of (nodes c) x = Some n'"
  then obtain n where "map_of (nodes b) x = Some n" and "physical_block_id n' = physical_block_id n"
    "parent_id n' = parent_id n" "token_block n' = token_block n"
    using assms(2) unfolding shrinks_def by blast
  moreover from this(1) obtain n0 where "map_of (nodes a) x = Some n0" "physical_block_id n = physical_block_id n0"
    "parent_id n = parent_id n0" "token_block n = token_block n0"
    using assms(1) unfolding shrinks_def by blast
  ultimately show "\<exists>n. map_of (nodes a) x = Some n \<and> physical_block_id n' = physical_block_id n \<and>
      parent_id n' = parent_id n \<and> token_block n' = token_block n" by simp
next
  fix k e' assume "map_of (exact c) k = Some e'"
  then obtain e where "map_of (exact b) k = Some e" "entry_block_ids e' = entry_block_ids e" "next_token_id e' = next_token_id e"
    using assms(2) unfolding shrinks_def by blast
  moreover from this(1) obtain e0 where "map_of (exact a) k = Some e0" "entry_block_ids e = entry_block_ids e0"
    "next_token_id e = next_token_id e0"
    using assms(1) unfolding shrinks_def by blast
  ultimately show "\<exists>e. map_of (exact a) k = Some e \<and> entry_block_ids e' = entry_block_ids e \<and> next_token_id e' = next_token_id e"
    by simp
qed

lemma shrinks_touch_node: "shrinks pc (touch_node nid pc)"
  by (auto simp: shrinks_def touch_node_def alist_simps split: if_splits)

lemma shrinks_touch_entry: "shrinks pc (touch_entry key pc)"
  by (auto simp: shrinks_def touch_entry_def alist_simps split: if_splits)

lemma shrinks_stats [simp]:
  "shrinks pc (pc'\<lparr>evictions := x\<rparr>) = shrinks pc pc'"
  "shrinks pc (pc'\<lparr>hits := x\<rparr>) = shrinks pc pc'"
  "shrinks pc (pc'\<lparr>hit_tokens := y\<rparr>) = shrinks pc pc'"
  "shrinks (pc\<lparr>lookups := x\<rparr>) pc' = shrinks pc pc'"
  by (simp_all add: shrinks_def)

definition item_present :: "prefix_cache \<Rightarrow> cache_item \<Rightarrow> bool" where
  "item_present pc item \<longleftrightarrow>
     (case item of
        NodeItem n \<Rightarrow> map_of (nodes pc) (node_id n) = Some n \<and> children n = {}
      | EntryItem e \<Rightarrow> map_of (exact pc) (entry_token_ids e) = Some e)"

lemma candidate_present:
  assumes inv: "cache_inv pc m" and "item \<in> set (evict_candidates f pc m)"
  shows "item_present pc item"
proof -
  note d = cache_invD [OF inv]
  have dn: "distinct (map fst (nodes pc))" and de: "distinct (map fst (exact pc))"
    using d by (simp_all add: nodes_ok_def exact_ok_def)
  from assms(2) consider n where "item = NodeItem n" "n \<in> snd ` set (nodes pc)" "children n = {}"
    | e where "item = EntryItem e" "e \<in> snd ` set (exact pc)"
    by (auto simp: evict_candidates_def Let_def split: if_splits)
  then show ?thesis
  proof cases
    case 1
    then obtain nid where "map_of (nodes pc) nid = Some n"
      using dn by (auto simp: map_of_eq_Some_iff)
    with nodes_okD(1) [OF d(1) this] 1 show ?thesis by (simp add: item_present_def)
  next
    case 2
    then obtain k where "map_of (exact pc) k = Some e"
      using de by (auto simp: map_of_eq_Some_iff)
    with exact_okD(1) [OF d(2) this] 2 show ?thesis by (simp add: item_present_def)
  qed
qed

lemma item_owned:
  assumes inv: "cache_inv pc m" and "item_present pc item"
  shows "allocations (allocator m) (item_owner item) = Some (item_blocks item)"
    and "\<not> is_request (item_owner item)"
proof -
  note d = cache_invD [OF inv]
  show "allocations (allocator m) (item_owner item) = Some (item_blocks item)"
    and "\<not> is_request (item_owner item)"
    using assms(2) nodes_okD(2) [OF d(1)] exact_okD(2) [OF d(2)] owners_okD(1,3) [OF d(3)]
    by (cases item; force simp: item_present_def)+
qed

lemma remove_item_ok:
  assumes inv: "cache_inv pc m" and pres: "item_present pc item"
  obtains pc' where "remove_item item (pc\<lparr>references := refs\<rparr>) = Inr pc'"
    and "nodes_ok (nodes pc') (edges pc') (next_node_id pc')" and "exact_ok (exact pc') (next_entry_id pc')"
    and "owners_ok (nodes pc') (exact pc') ((allocations (allocator m))(item_owner item := None))"
    and "references pc' = refs" and "shrinks pc pc'" and "max_blocks pc' = max_blocks pc"
proof (cases item)
  case (EntryItem e)
  note d = cache_invD [OF inv]
  from pres EntryItem have e: "map_of (exact pc) (entry_token_ids e) = Some e" by (simp add: item_present_def)
  have sh: "shrinks pc (pc\<lparr>references := refs, exact := AList.delete (entry_token_ids e) (exact pc)\<rparr>)"
    by (auto simp: shrinks_def alist_simps split: if_splits)
  from e d exact_ok_delete [OF d(2)] owners_ok_entry_delete [OF d(3,2) e] exact_okD(2) [OF d(2) e] sh show thesis
    by (intro that [of "pc\<lparr>references := refs, exact := AList.delete (entry_token_ids e) (exact pc)\<rparr>"])
      (simp_all add: EntryItem)
next
  case (NodeItem n)
  note d = cache_invD [OF inv]
  let ?i = "node_id n" and ?ns = "AList.delete (node_id n) (nodes pc)"
  let ?ns' = "case parent_id n of None \<Rightarrow> ?ns
     | Some p \<Rightarrow> AList.map_entry p (\<lambda>q. q\<lparr>children := children q - {?i}\<rparr>) ?ns"
  from pres NodeItem have n: "map_of (nodes pc) ?i = Some n" "children n = {}" by (simp_all add: item_present_def)
  have M: "map_of ?ns' x = (if x = ?i then None else
       map_option (\<lambda>q. if parent_id n = Some x then q\<lparr>children := children q - {?i}\<rparr> else q) (map_of (nodes pc) x))" for x
    by (cases "parent_id n") (auto simp: alist_simps option.map_id [unfolded id_def])
  have dist: "distinct (map fst ?ns')"
    using nodes_ok_distinct [OF d(1)] by (cases "parent_id n") (simp_all add: alist_simps)
  note ok = nodes_ok_delete [OF d(1) dist M n]
  have own: "owners_ok ?ns' (exact pc) ((allocations (allocator m))(CacheOwner ?i := None))"
    using owners_ok_node_upd [OF d(3), of ?ns' ?i None] by (auto simp: M option.map_comp o_def if_distrib cong: if_cong)
  let ?pc = "pc\<lparr>references := refs, edges := (edges pc)((parent_id n, token_block n) := None), nodes := ?ns'\<rparr>"
  have "shrinks pc ?pc"
    by (auto simp: shrinks_def M split: if_splits)
  moreover have "remove_item item (pc\<lparr>references := refs\<rparr>) = Inr ?pc"
    using n nodes_okD(6) [OF d(1) n(1)] by (simp add: NodeItem Let_def)
  ultimately show thesis
    using ok own d(2) nodes_okD(2) [OF d(1) n(1)] by (intro that [of ?pc]) (simp_all add: NodeItem)
qed

text \<open>A successful eviction releases the least recently used candidate, and nothing else.\<close>

lemma release_manager_inv:
  assumes inv: "mgr_inv m" and "block_release (allocator m) w = Inr (bs, al)" and "\<not> is_request w"
  shows "mgr_inv (m\<lparr>allocator := al\<rparr>)"
  using cache_call_inv [OF inv, of "Release w"] assms(2,3) by simp

lemma evict_one_cases:
  assumes minv: "mgr_inv m" and inv: "cache_inv pc m"
  obtains (none) "evict_candidates f pc m = []" and "evict_one f pc m = Inr (False, pc, m)"
  | (victim) v bs al pc' where "evict_one f pc m = Inr (True, pc', m\<lparr>allocator := al\<rparr>)"
      and "v \<in> set (evict_candidates f pc m)"
      and "\<And>c. c \<in> set (evict_candidates f pc m) \<Longrightarrow> item_key v \<le> item_key c"
      and "block_release (allocator m) (item_owner v) = Inr (bs, al)"
      and "\<not> is_request (item_owner v)" and "item_present pc v"
      and "cache_inv pc' (m\<lparr>allocator := al\<rparr>)" and "shrinks pc pc'" and "max_blocks pc' = max_blocks pc"
proof (cases "evict_candidates f pc m")
  case Nil
  with none show thesis by (simp add: evict_one_def)
next
  case (Cons c cs)
  define v where "v = least_by item_key c cs"
  have v: "v \<in> set (evict_candidates f pc m)"
    and least: "\<And>c. c \<in> set (evict_candidates f pc m) \<Longrightarrow> item_key v \<le> item_key c"
    using least_by_in [of item_key c cs] least_by_le [of _ c cs item_key] by (auto simp: Cons v_def)
  note pres = candidate_present [OF inv v] and d = cache_invD [OF inv] and a = mgr_invD(1) [OF minv]
  note own = item_owned [OF inv pres]
  from release_eq [OF a own(1)] obtain al where rel: "block_release (allocator m) (item_owner v) = Inr (item_blocks v, al)"
    and al: "allocations al = (allocations (allocator m))(item_owner v := None)" by auto
  from refs_ok_remove [OF d(4) alloc_invD(7) [OF a] own alloc_inv_owned(2) [OF a own(1)]]
  obtain refs where refs: "unreference (item_blocks v) (references pc) = Inr refs"
    and rok: "refs_ok refs (allocations al)" by (auto simp: al)
  from remove_item_ok [OF inv pres, of refs] obtain pc' where
    rem: "remove_item v (pc\<lparr>references := refs\<rparr>) = Inr pc'"
    and ok: "nodes_ok (nodes pc') (edges pc') (next_node_id pc')" "exact_ok (exact pc') (next_entry_id pc')"
      "owners_ok (nodes pc') (exact pc') (allocations al)" "references pc' = refs"
    and sh: "shrinks pc pc'" and mb: "max_blocks pc' = max_blocks pc" unfolding al by blast
  have "evict_one f pc m = Inr (True, pc'\<lparr>evictions := evictions pc' + 1\<rparr>, m\<lparr>allocator := al\<rparr>)"
    using rel refs rem by (simp add: evict_one_def Cons v_def [symmetric])
  moreover have "cache_inv (pc'\<lparr>evictions := evictions pc' + 1\<rparr>) (m\<lparr>allocator := al\<rparr>)"
    using ok rok by (simp add: cache_inv_def)
  ultimately show thesis
    using v least rel own(2) pres sh mb by (intro victim [where v = v and al = al and pc' = "pc'\<lparr>evictions := evictions pc' + 1\<rparr>"]) simp_all
qed

text \<open>The loops: no exception can stop them, they keep both invariants, and they stop for a reason.\<close>

lemma evict_while_run:
  assumes "mgr_inv m" and "cache_inv pc m"
  shows "\<exists>pc' m'. evict_while cond f pc m = Inr (pc', m') \<and> mgr_inv m' \<and> cache_inv pc' m' \<and>
    shrinks pc pc' \<and> max_blocks pc' = max_blocks pc \<and> requests m' = requests m \<and>
    mgr_block_size m' = mgr_block_size m \<and>
    num_blocks (allocator m') = num_blocks (allocator m) \<and>
    free_block_count (allocator m) \<le> free_block_count (allocator m') \<and>
    (\<forall>rid. allocations (allocator m') (Req rid) = allocations (allocator m) (Req rid)) \<and>
    (cond pc' m' \<longrightarrow> evict_candidates f pc' m' = [])"
  using assms
proof (induction cond f pc m rule: evict_while.induct)
  case (1 cond f pc m)
  show ?case
  proof (cases "cond pc m")
    case False
    with 1 show ?thesis by (simp add: evict_while.simps [of cond f pc m])
  next
    case True
    from 1(2,3) show ?thesis
    proof (cases rule: evict_one_cases [where f = f])
      case none
      with True 1(2,3) show ?thesis by (simp add: evict_while.simps [of cond f pc m])
    next
      case (victim v bs al pc1)
      let ?m1 = "m\<lparr>allocator := al\<rparr>"
      have minv1: "mgr_inv ?m1" by (rule release_manager_inv [OF 1(2) victim(4,5)])
      have free: "free_block_count (allocator m) \<le> free_block_count al"
        using release_frees [OF mgr_invD(1) [OF 1(2)] victim(4)] alloc_invD(5) [OF mgr_invD(1) [OF 1(2)]]
          alloc_invD(5) [OF mgr_invD(1) [OF minv1]]
        by (simp add: free_block_count_def flip: distinct_card) (auto intro!: card_mono)
      have rids: "allocations al (Req rid) = allocations (allocator m) (Req rid)" for rid
        using release_frame [OF victim(4), of "Req rid"] victim(5) by (metis is_request.simps(1))
      have step: "evict_while cond f pc m = evict_while cond f pc1 ?m1"
        using True victim(1) by (simp add: evict_while.simps [of cond f pc m])
      from 1(1) [of "(True, pc1, ?m1)" True "(pc1, ?m1)" pc1 ?m1] True victim(1,7) minv1
      obtain pc' m' where r: "evict_while cond f pc1 ?m1 = Inr (pc', m')" "mgr_inv m'" "cache_inv pc' m'"
        "shrinks pc1 pc'" "max_blocks pc' = max_blocks pc1" "requests m' = requests m"
        "mgr_block_size m' = mgr_block_size m" "num_blocks (allocator m') = num_blocks al"
        "free_block_count al \<le> free_block_count (allocator m')"
        "\<forall>rid. allocations (allocator m') (Req rid) = allocations al (Req rid)"
        "cond pc' m' \<longrightarrow> evict_candidates f pc' m' = []" by auto
      show ?thesis
        using r step shrinks_trans [OF victim(8) r(4)] victim(9) free rids release_const [OF victim(4)] by auto
    qed
  qed
qed

section \<open>What the cached blocks contain\<close>

text \<open>
  \<open>kv b\<close> is the token prefix whose keys and values block \<open>b\<close> completes: block \<open>i\<close> of a
  sequence holds the positions of that block, which depend on every token before them.
\<close>

definition content_ok :: "(nat \<Rightarrow> int list) \<Rightarrow> nat \<Rightarrow> prefix_cache \<Rightarrow> bool" where
  "content_ok kv s pc \<longleftrightarrow>
     (\<forall>nid n. map_of (nodes pc) nid = Some n \<longrightarrow>
        length (token_block n) = s \<and>
        (case parent_id n of
           None \<Rightarrow> kv (physical_block_id n) = token_block n
         | Some p \<Rightarrow> \<forall>q. map_of (nodes pc) p = Some q \<longrightarrow>
             kv (physical_block_id n) = kv (physical_block_id q) @ token_block n)) \<and>
     (\<forall>key e. map_of (exact pc) key = Some e \<longrightarrow>
        key \<noteq> [] \<and> int (length (entry_block_ids e)) = ceil_div (int (length key)) (int s) \<and>
        (\<forall>i < length (entry_block_ids e). kv (entry_block_ids e ! i) = take (Suc i * s) key))"

text \<open>The table of a request that has computed all of \<open>toks\<close> holds the prefixes of \<open>toks\<close>.\<close>

definition table_holds :: "(nat \<Rightarrow> int list) \<Rightarrow> nat \<Rightarrow> int list \<Rightarrow> nat list \<Rightarrow> bool" where
  "table_holds kv s toks phys \<longleftrightarrow>
     (\<forall>i < length phys. i * s < length toks \<longrightarrow> kv (phys ! i) = take (Suc i * s) toks)"

text \<open>
  Publishing needs the complete blocks of the tokens, and the partial one only when a
  prediction for exactly these tokens is stored. A resumed request publishes its prompt when
  the block that ends the prompt already holds some of its output.
\<close>

definition publishable :: "(nat \<Rightarrow> int list) \<Rightarrow> nat \<Rightarrow> int list \<Rightarrow> nat list \<Rightarrow> int option \<Rightarrow> bool" where
  "publishable kv s toks phys t \<longleftrightarrow>
     (\<forall>i < length phys. Suc i * s \<le> length toks \<longrightarrow> kv (phys ! i) = take (Suc i * s) toks) \<and>
     (t \<noteq> None \<longrightarrow> table_holds kv s toks phys)"

lemma holds_publishable: "0 < s \<Longrightarrow> table_holds kv s toks phys \<Longrightarrow> publishable kv s toks phys t"
  by (auto simp: table_holds_def publishable_def)

lemma content_ok_shrinks:
  assumes ok: "content_ok kv s pc" and sh: "shrinks pc pc'"
  shows "content_ok kv s pc'"
  unfolding content_ok_def
proof (intro conjI allI impI)
  fix nid n' assume "map_of (nodes pc') nid = Some n'"
  with sh obtain n where n: "map_of (nodes pc) nid = Some n" "physical_block_id n' = physical_block_id n"
    "parent_id n' = parent_id n" "token_block n' = token_block n" unfolding shrinks_def by blast
  from ok n(1) have c: "length (token_block n) = s" "case parent_id n of
           None \<Rightarrow> kv (physical_block_id n) = token_block n
         | Some p \<Rightarrow> \<forall>q. map_of (nodes pc) p = Some q \<longrightarrow>
             kv (physical_block_id n) = kv (physical_block_id q) @ token_block n"
    unfolding content_ok_def by blast+
  show "length (token_block n') = s" using c n by simp
  show "case parent_id n' of None \<Rightarrow> kv (physical_block_id n') = token_block n'
      | Some p \<Rightarrow> \<forall>q. map_of (nodes pc') p = Some q \<longrightarrow>
          kv (physical_block_id n') = kv (physical_block_id q) @ token_block n'"
    using c(2) n(2-4) sh unfolding shrinks_def by (cases "parent_id n") fastforce+
next
  fix key e' assume "map_of (exact pc') key = Some e'"
  with sh obtain e where e: "map_of (exact pc) key = Some e" "entry_block_ids e' = entry_block_ids e"
    unfolding shrinks_def by blast
  with ok show "key \<noteq> []" and "int (length (entry_block_ids e')) = ceil_div (int (length key)) (int s)"
    unfolding content_ok_def by auto
  show "kv (entry_block_ids e' ! i) = take (Suc i * s) key" if "i < length (entry_block_ids e')" for i
    using ok e that unfolding content_ok_def by auto
qed

lemma content_okD:
  assumes "content_ok kv s pc" and "map_of (nodes pc) nid = Some n"
  shows "length (token_block n) = s"
    and "parent_id n = None \<Longrightarrow> kv (physical_block_id n) = token_block n"
    and "parent_id n = Some p \<Longrightarrow> map_of (nodes pc) p = Some q \<Longrightarrow>
           kv (physical_block_id n) = kv (physical_block_id q) @ token_block n"
proof -
  from assms have "length (token_block n) = s \<and>
        (case parent_id n of
           None \<Rightarrow> kv (physical_block_id n) = token_block n
         | Some p \<Rightarrow> \<forall>q. map_of (nodes pc) p = Some q \<longrightarrow>
             kv (physical_block_id n) = kv (physical_block_id q) @ token_block n)"
    unfolding content_ok_def by blast
  then show "length (token_block n) = s"
    and "parent_id n = None \<Longrightarrow> kv (physical_block_id n) = token_block n"
    and "parent_id n = Some p \<Longrightarrow> map_of (nodes pc) p = Some q \<Longrightarrow>
           kv (physical_block_id n) = kv (physical_block_id q) @ token_block n"
    by simp_all
qed

lemma content_ok_entry:
  assumes "content_ok kv s pc" and "map_of (exact pc) key = Some e"
  shows "key \<noteq> []" and "int (length (entry_block_ids e)) = ceil_div (int (length key)) (int s)"
    and "\<forall>i < length (entry_block_ids e). kv (entry_block_ids e ! i) = take (Suc i * s) key"
  using assms unfolding content_ok_def by blast+

text \<open>Block \<open>i\<close> of the tokens extends the prefix of the first \<open>i\<close> blocks.\<close>

lemma take_block_at: "take (i * nat bs) toks @ block_at bs toks i = take (Suc i * nat bs) toks"
  unfolding block_at_def by (simp add: take_add [symmetric] add.commute)

lemma length_block_at: "Suc i * nat bs \<le> length toks \<Longrightarrow> length (block_at bs toks i) = nat bs"
  by (simp add: block_at_def)

text \<open>The chain of nodes matched or created so far ends in \<open>parent\<close> and covers \<open>i\<close> blocks.\<close>

definition chain_at :: "(nat \<Rightarrow> int list) \<Rightarrow> nat \<Rightarrow> int list \<Rightarrow> nat \<Rightarrow> nat option \<Rightarrow> prefix_cache \<Rightarrow> bool" where
  "chain_at kv s toks i parent pc \<longleftrightarrow>
     (case parent of
        None \<Rightarrow> i = 0
      | Some p \<Rightarrow> \<exists>q. map_of (nodes pc) p = Some q \<and> kv (physical_block_id q) = take (i * s) toks)"

lemma chain_at_edge:
  assumes inv: "cache_inv pc m" and con: "content_ok kv (nat bs) pc"
    and chain: "chain_at kv (nat bs) toks i parent pc"
    and e: "edges pc (parent, block_at bs toks i) = Some nid"
  obtains n where "map_of (nodes pc) nid = Some n" and "kv (physical_block_id n) = take (Suc i * nat bs) toks"
    and "chain_at kv (nat bs) toks (Suc i) (Some nid) pc"
proof -
  from nodes_ok_edge [OF cache_invD(1) [OF inv] e] obtain n where
    n: "map_of (nodes pc) nid = Some n" "parent_id n = parent" "token_block n = block_at bs toks i" .
  have "kv (physical_block_id n) = take (Suc i * nat bs) toks"
  proof (cases parent)
    case None
    with chain content_okD(2) [OF con n(1)] n show ?thesis by (simp add: chain_at_def block_at_def)
  next
    case (Some p)
    with chain obtain q where "map_of (nodes pc) p = Some q" "kv (physical_block_id q) = take (i * nat bs) toks"
      by (auto simp: chain_at_def)
    with content_okD(3) [OF con n(1)] n Some show ?thesis by (simp add: take_block_at)
  qed
  with n(1) show thesis by (intro that [of n]) (simp_all add: chain_at_def)
qed

lemma chain_at_touch: "chain_at kv s toks i parent pc \<Longrightarrow> chain_at kv s toks i parent (touch_node nid pc)"
  by (auto simp: chain_at_def touch_node_def alist_simps split: option.splits)

section \<open>Lookup\<close>

lemma lookup_walk_run:
  assumes inv: "cache_inv pc m" and con: "content_ok kv (nat bs) pc"
    and chain: "chain_at kv (nat bs) toks i parent pc" and "i \<le> n"
  shows "\<exists>blocks pc'. lookup_walk bs toks [i..<n] parent pc = Inr (blocks, pc') \<and>
    cache_inv pc' m \<and> shrinks pc pc' \<and> max_blocks pc' = max_blocks pc \<and>
    i + length blocks \<le> n \<and>
    (\<forall>j < length blocks. kv (blocks ! j) = take (Suc (i + j) * nat bs) toks \<and>
       (\<exists>w. \<not> is_request w \<and> w \<in> owners (allocator m) (blocks ! j)))"
  using assms
proof (induction "n - i" arbitrary: i parent pc)
  case 0
  then show ?case by simp
next
  case (Suc d)
  then have i: "i < n" and upt: "[i..<n] = i # [Suc i..<n]" by (simp_all add: upt_rec)
  show ?case
  proof (cases "edges pc (parent, block_at bs toks i)")
    case None
    with Suc.prems show ?thesis by (simp add: upt)
  next
    case (Some nid)
    from chain_at_edge [OF Suc.prems(1-3) Some] obtain q where
      q: "map_of (nodes pc) nid = Some q" "kv (physical_block_id q) = take (Suc i * nat bs) toks"
        "chain_at kv (nat bs) toks (Suc i) (Some nid) pc" .
    let ?pc = "touch_node nid pc"
    have "d = n - Suc i" using Suc.hyps(2) by simp
    from Suc.hyps(1) [OF this touch_node_inv [OF Suc.prems(1)] content_ok_shrinks [OF Suc.prems(2) shrinks_touch_node]
      chain_at_touch [OF q(3)] Suc_leI [OF i]]
    obtain blocks pc' where r: "lookup_walk bs toks [Suc i..<n] (Some nid) ?pc = Inr (blocks, pc')"
      "cache_inv pc' m" "shrinks ?pc pc'" "max_blocks pc' = max_blocks ?pc" "Suc i + length blocks \<le> n"
      and content: "\<forall>j < length blocks. kv (blocks ! j) = take (Suc (Suc i + j) * nat bs) toks \<and>
       (\<exists>w. \<not> is_request w \<and> w \<in> owners (allocator m) (blocks ! j))" by blast
    have own: "CacheOwner nid \<in> owners (allocator m) (physical_block_id q)"
      using owners_okD(1) [OF cache_invD(3) [OF Suc.prems(1)] q(1)] by (auto simp: owners_of_def)
    have "kv ((physical_block_id q # blocks) ! j) = take (Suc (i + j) * nat bs) toks \<and>
       (\<exists>w. \<not> is_request w \<and> w \<in> owners (allocator m) ((physical_block_id q # blocks) ! j))"
      if "j < length (physical_block_id q # blocks)" for j
      using that q(2) content own by (cases j) (auto intro: exI [of _ "CacheOwner nid"])
    with r q Some show ?thesis
      using shrinks_trans [OF shrinks_touch_node r(3)] by (simp add: upt touch_node_def)
  qed
qed

text \<open>What a scheduler needs of a match: the right blocks, all live, exactly covering it.\<close>

definition good_match :: "(nat \<Rightarrow> int list) \<Rightarrow> kv_manager \<Rightarrow> int list \<Rightarrow> prefix_match \<Rightarrow> bool" where
  "good_match kv m toks r \<longleftrightarrow>
     0 \<le> token_count r \<and> token_count r \<le> int (length toks) \<and>
     (if exact_match r then token_count r = int (length toks) else token_count r = 0 \<or> token_count r < int (length toks)) \<and>
     int (length (match_block_ids r)) = ceil_div (token_count r) (mgr_block_size m) \<and>
     (\<forall>j < length (match_block_ids r).
        kv (match_block_ids r ! j) = take (Suc j * nat (mgr_block_size m)) toks \<and>
        (\<exists>w. \<not> is_request w \<and> w \<in> owners (allocator m) (match_block_ids r ! j)))"

lemma good_match_distinct:
  assumes good: "good_match kv m toks r" and s: "0 < mgr_block_size m"
  shows "distinct (match_block_ids r)"
proof -
  let ?s = "nat (mgr_block_size m)" and ?bs = "match_block_ids r"
  have "(int (length ?bs) - 1) * mgr_block_size m < token_count r" and "token_count r \<le> int (length toks)"
    using ceil_div_tight [OF s, of "token_count r"] good by (simp_all add: good_match_def)
  then have "(int (length ?bs) - 1) * mgr_block_size m < int (length toks)" by linarith
  moreover have "int j * mgr_block_size m \<le> (int (length ?bs) - 1) * mgr_block_size m" if "j < length ?bs" for j
    using that s by (intro mult_right_mono) auto
  ultimately have "int j * mgr_block_size m < int (length toks)" if "j < length ?bs" for j
    using that order_le_less_trans by blast
  then have "int (j * ?s) < int (length toks)" if "j < length ?bs" for j using that s by simp
  then have below: "j * ?s < length toks" if "j < length ?bs" for j using that by (simp only: of_nat_less_iff)
  have "?bs ! i \<noteq> ?bs ! j" if "i < j" "j < length ?bs" for i j
  proof
    assume "?bs ! i = ?bs ! j"
    then have "take (Suc i * ?s) toks = take (Suc j * ?s) toks"
      using good that by (simp add: good_match_def) (metis order.strict_trans)
    then have "min (length toks) (Suc i * ?s) = min (length toks) (Suc j * ?s)"
      by (metis length_take)
    moreover have "Suc i * ?s \<le> j * ?s" using that by (intro mult_right_mono) auto
    ultimately show False using below [of j] that s by (simp add: min_def split: if_splits)
  qed
  then show ?thesis by (metis distinct_conv_nth linorder_neqE_nat)
qed

lemma good_match_live:
  assumes "good_match kv m toks r" and "mgr_inv m" and "b \<in> set (match_block_ids r)"
  shows "b < num_blocks (allocator m)" and "1 \<le> refcounts (allocator m) ! b"
proof -
  from assms(1,3) obtain w where "w \<in> owners (allocator m) b"
    unfolding good_match_def in_set_conv_nth by blast
  then obtain bs where "allocations (allocator m) w = Some bs" "b \<in> set bs" by (auto simp: owners_of_def)
  with alloc_inv_owned(3) [OF mgr_invD(1) [OF assms(2)]] alloc_inv_owned_live [OF mgr_invD(1) [OF assms(2)]]
  show "b < num_blocks (allocator m)" and "1 \<le> refcounts (allocator m) ! b" by auto
qed

lemma cache_lookup_run:
  assumes minv: "mgr_inv m" and inv: "cache_inv pc m" and con: "content_ok kv (nat (mgr_block_size m)) pc"
  shows "\<exists>r pc'. cache_lookup m toks allow pc = Inr (r, pc') \<and> cache_inv pc' m \<and> shrinks pc pc' \<and>
    max_blocks pc' = max_blocks pc \<and> good_match kv m toks r"
proof (cases "if allow then map_of (exact pc) toks else None")
  case (Some e)
  then have e: "map_of (exact pc) toks = Some e" and allow by (auto split: if_splits)
  note s = mgr_invD(4) [OF minv]
  have own: "ExactOwner (entry_id e) \<in> owners (allocator m) b" if "b \<in> set (entry_block_ids e)" for b
    using owners_okD(3) [OF cache_invD(3) [OF inv] e] that by (auto simp: owners_of_def)
  have c: "int (length (entry_block_ids e)) = ceil_div (int (length toks)) (mgr_block_size m)"
    "\<forall>i < length (entry_block_ids e). kv (entry_block_ids e ! i) = take (Suc i * nat (mgr_block_size m)) toks"
    using content_ok_entry [OF con e] s by auto
  have "good_match kv m toks \<lparr>match_block_ids = entry_block_ids e, token_count = int (length toks),
                 match_next_token_id = Some (next_token_id e), exact_match = True\<rparr>"
    using c own unfolding good_match_def by (auto intro!: exI [of _ "ExactOwner (entry_id e)"])
  moreover have "cache_inv (touch_entry toks (pc\<lparr>lookups := lookups pc + 1\<rparr>)) m"
    using inv by (intro touch_entry_inv) simp
  moreover have "shrinks pc (touch_entry toks (pc\<lparr>lookups := lookups pc + 1\<rparr>))"
    using shrinks_touch_entry [of "pc\<lparr>lookups := lookups pc + 1\<rparr>" toks] by simp
  ultimately show ?thesis
    using e \<open>allow\<close> by (simp add: cache_lookup_def Let_def touch_entry_def)
next
  case None
  note s = mgr_invD(4) [OF minv]
  let ?bs = "mgr_block_size m" and ?pc = "pc\<lparr>lookups := lookups pc + 1\<rparr>"
  let ?n = "nat (max 0 (int (length toks) - 1) div ?bs)"
  have con': "content_ok kv (nat ?bs) ?pc" using con by (rule content_ok_shrinks) (simp add: shrinks_def)
  have "cache_inv ?pc m" using inv by simp
  from lookup_walk_run [OF this con', of toks 0 None ?n]
  obtain blocks pc' where r: "lookup_walk ?bs toks [0..<?n] None ?pc = Inr (blocks, pc')"
    "cache_inv pc' m" "shrinks ?pc pc'" "max_blocks pc' = max_blocks ?pc" "length blocks \<le> ?n"
    and content: "\<forall>j < length blocks. kv (blocks ! j) = take (Suc j * nat ?bs) toks \<and>
       (\<exists>w. \<not> is_request w \<and> w \<in> owners (allocator m) (blocks ! j))"
    by (auto simp: chain_at_def)
  let ?c = "int (length blocks) * ?bs"
  have "0 \<le> max 0 (int (length toks) - 1) div ?bs" using s by (simp add: pos_imp_zdiv_nonneg_iff)
  with r(5) have "int (length blocks) \<le> max 0 (int (length toks) - 1) div ?bs" by linarith
  then have "?c \<le> max 0 (int (length toks) - 1) div ?bs * ?bs" using s by (simp add: mult_right_mono)
  also have "\<dots> \<le> max 0 (int (length toks) - 1)" using s by (simp add: minus_mod_eq_div_mult [symmetric])
  finally have cov: "?c \<le> max 0 (int (length toks) - 1)" .
  have "int (length blocks) = ceil_div ?c ?bs"
    using ceil_div_le_iff [OF s, of ?c] s by (metis dual_order.refl mult_le_cancel_right not_le order_antisym)
  with content cov s have "good_match kv m toks \<lparr>match_block_ids = blocks, token_count = ?c,
                      match_next_token_id = None, exact_match = False\<rparr>"
    unfolding good_match_def by (auto simp: max_def split: if_splits)
  with r None show ?thesis
    by (auto simp: cache_lookup_def Let_def)
qed

text \<open>So a match can always be attached to a new request.\<close>

lemma good_match_attaches:
  assumes good: "good_match kv m toks r" and minv: "mgr_inv m" and pos: "token_count r \<noteq> 0"
    and new: "requests m rid = None" and rid: "rid \<noteq> []"
  shows "\<exists>a m'. attach_prefix m rid (match_block_ids r) (token_count r) = Inr (a, m') \<and>
    physical_block_ids a = match_block_ids r \<and> sequence_length a = token_count r"
proof -
  note s = mgr_invD(4) [OF minv]
  let ?bs = "mgr_block_size m" and ?k = "int (length (match_block_ids r))"
  have k: "?k = ceil_div (token_count r) ?bs" and c: "0 < token_count r"
    using good pos by (auto simp: good_match_def)
  have "?k * ?bs - ?bs < token_count r"
    using ceil_div_tight [OF s, of "token_count r"] by (simp add: k left_diff_distrib)
  moreover have "token_count r \<le> ?k * ?bs" using ceil_div_covers [OF s] by (simp add: k)
  moreover have "match_block_ids r \<noteq> []" using ceil_div_pos [OF s c] k by auto
  moreover have "card (set (match_block_ids r)) = length (match_block_ids r)"
    using good_match_distinct [OF good s] by (rule distinct_card)
  moreover have "Req rid \<notin> dom (allocations (allocator m))"
    using mgr_invD(3) [OF minv, of rid] new by auto
  moreover have "\<not> list_ex (\<lambda>b. \<not> b < num_blocks (allocator m) \<or> refcounts (allocator m) ! b = 0) (match_block_ids r)"
    using good_match_live [OF good minv] by (fastforce simp: list_ex_iff)
  ultimately show ?thesis
    using new rid c by (auto simp: attach_prefix_def block_attach_def Let_def)
qed

section \<open>Publishing\<close>

text \<open>Attaching a fresh cache owner to blocks of a live request always succeeds.\<close>

lemma attach_cache_owner:
  assumes minv: "mgr_inv m" and w: "\<not> is_request w" "allocations (allocator m) w = None"
    and held: "allocations (allocator m) (Req rid) = Some phys"
    and bs: "set bs \<subseteq> set phys" "distinct bs" "bs \<noteq> []"
  obtains al where "block_attach (allocator m) w bs = Inr (bs, al)"
    and "mgr_inv (m\<lparr>allocator := al\<rparr>)" and "allocations al = (allocations (allocator m))(w \<mapsto> bs)"
    and "free_blocks al = free_blocks (allocator m)" and "num_blocks al = num_blocks (allocator m)"
proof -
  note a = mgr_invD(1) [OF minv]
  have "\<not> falsy_owner w" using w(1) by (cases w) auto
  moreover have "\<not> list_ex (\<lambda>b. \<not> b < num_blocks (allocator m) \<or> refcounts (allocator m) ! b = 0) bs"
    using alloc_inv_owned(3) [OF a held] alloc_inv_owned_live [OF a held] bs(1) by (fastforce simp: list_ex_iff)
  moreover have "w \<notin> dom (allocations (allocator m))" using w(2) by auto
  ultimately have run: "block_attach (allocator m) w bs = Inr (bs,
     (allocator m)\<lparr>allocations := (allocations (allocator m))(w \<mapsto> bs),
                refcounts := update_at (\<lambda>c. c + 1) bs (refcounts (allocator m))\<rparr>)"
    using bs by (simp add: block_attach_def distinct_card)
  have "mgr_inv (m\<lparr>allocator := alloc_exec (Attach w bs) (allocator m)\<rparr>)"
    by (rule cache_call_inv [OF minv]) (simp add: w(1))
  with run show thesis by (intro that [OF run]) simp_all
qed

lemma publish_node_ok:
  assumes minv: "mgr_inv m" and inv: "cache_inv pc m" and con: "content_ok kv (nat (mgr_block_size m)) pc"
    and chain: "chain_at kv (nat (mgr_block_size m)) toks i parent pc"
    and held: "allocations (allocator m) (Req rid) = Some phys" and i: "i < length phys"
    and full: "Suc i * nat (mgr_block_size m) \<le> length toks"
    and kvb: "kv (phys ! i) = take (Suc i * nat (mgr_block_size m)) toks"
    and new: "edges pc (parent, block_at (mgr_block_size m) toks i) = None"
  obtains al pc1 where "mgr_inv (m\<lparr>allocator := al\<rparr>)" and "cache_inv pc1 (m\<lparr>allocator := al\<rparr>)"
    and "content_ok kv (nat (mgr_block_size m)) pc1"
    and "chain_at kv (nat (mgr_block_size m)) toks (Suc i) (Some (next_node_id pc)) pc1"
    and "max_blocks pc1 = max_blocks pc"
    and "free_blocks al = free_blocks (allocator m)" and "num_blocks al = num_blocks (allocator m)"
    and "\<forall>r. allocations al (Req r) = allocations (allocator m) (Req r)"
    and "\<forall>is. publish_walk toks phys (i # is) parent pc m =
          and_then (publish_walk toks phys is (Some (next_node_id pc)) pc1 (m\<lparr>allocator := al\<rparr>))
            (\<lambda>(k, r). Inr (k + 1, r))"
proof -
  let ?s = "mgr_block_size m" and ?nid = "next_node_id pc" and ?b = "phys ! i"
  let ?tb = "block_at ?s toks i" and ?own = "CacheOwner (next_node_id pc)"
  note d = cache_invD [OF inv] and a = mgr_invD(1) [OF minv]
  have none: "map_of (nodes pc) ?nid = None"
    using nodes_okD(3) [OF d(1)] by (cases "map_of (nodes pc) ?nid") auto
  then have own: "allocations (allocator m) ?own = None" by (rule owners_okD(2) [OF d(3)])
  obtain al where att: "block_attach (allocator m) ?own [?b] = Inr ([?b], al)"
    and minv1: "mgr_inv (m\<lparr>allocator := al\<rparr>)" and am: "allocations al = (allocations (allocator m))(?own \<mapsto> [?b])"
    and fr: "free_blocks al = free_blocks (allocator m)" "num_blocks al = num_blocks (allocator m)"
    by (rule attach_cache_owner [OF minv _ own held, of "[?b]"]) (use i in auto)
  define n where "n = \<lparr>node_id = ?nid, parent_id = parent, token_block = ?tb, physical_block_id = ?b,
                      node_owner = ?own, children = {}, node_last_access = clock pc + 1\<rparr>"
  let ?ns0 = "AList.update ?nid n (nodes pc)"
  let ?ns = "case parent of None \<Rightarrow> ?ns0
     | Some p \<Rightarrow> AList.map_entry p (\<lambda>q. q\<lparr>children := insert ?nid (children q)\<rparr>) ?ns0"
  have par: "\<exists>q. map_of (nodes pc) p = Some q \<and> kv (physical_block_id q) = take (i * nat ?s) toks" if "parent = Some p" for p
    using chain that by (auto simp: chain_at_def)
  have pn: "parent \<noteq> Some ?nid" using par none by fastforce
  have M: "map_of ?ns x = (if x = ?nid then Some n else
       map_option (\<lambda>q. if parent_id n = Some x then q\<lparr>children := insert ?nid (children q)\<rparr> else q) (map_of (nodes pc) x))" for x
    using pn by (cases parent) (auto simp: alist_simps n_def option.map_id [unfolded id_def])
  have dist: "distinct (map fst ?ns)"
    using nodes_ok_distinct [OF d(1)] by (cases parent) (simp_all add: alist_simps)
  define pc1 where "pc1 = pc\<lparr>next_node_id := ?nid + 1, references := add_references [?b] (references pc),
      clock := clock pc + 1, nodes := ?ns, edges := (edges pc)((parent, ?tb) \<mapsto> ?nid)\<rparr>"
  have nok: "nodes_ok ?ns ((edges pc)((parent, ?tb) \<mapsto> ?nid)) (?nid + 1)"
    using nodes_ok_insert [OF d(1) dist M] par new by (simp add: n_def) blast
  have ook: "owners_ok ?ns (exact pc) (allocations al)"
    using owners_ok_node_upd [OF d(3), of ?ns ?nid "Some ?b"]
    by (auto simp: am M n_def option.map_comp o_def if_distrib cong: if_cong)
  have rok: "refs_ok (add_references [?b] (references pc)) (allocations al)"
    unfolding am by (rule refs_ok_add [OF d(4) alloc_invD(7) [OF a] own]) auto
  have inv1: "cache_inv pc1 (m\<lparr>allocator := al\<rparr>)"
    using nok ook rok d(2) by (simp add: cache_inv_def pc1_def)
  have con1: "content_ok kv (nat ?s) pc1"
    unfolding content_ok_def
  proof (intro conjI allI impI)
    fix x k assume k: "map_of (nodes pc1) x = Some k"
    have phys: "\<exists>q0. map_of (nodes pc) y = Some q0 \<and> physical_block_id q = physical_block_id q0 \<and>
        parent_id q = parent_id q0 \<and> token_block q = token_block q0"
      if "map_of (nodes pc1) y = Some q" "y \<noteq> ?nid" for y q
      using that by (cases "map_of (nodes pc) y") (auto simp: pc1_def M)
    have "length (token_block k) = nat ?s \<and> (case parent_id k of None \<Rightarrow> kv (physical_block_id k) = token_block k
         | Some p \<Rightarrow> \<forall>q. map_of (nodes pc1) p = Some q \<longrightarrow> kv (physical_block_id k) = kv (physical_block_id q) @ token_block k)"
    proof (cases "x = ?nid")
      case True
      then have "k = n" using k by (simp add: pc1_def M)
      moreover have "length ?tb = nat ?s" by (rule length_block_at [OF full])
      moreover have "kv ?b = ?tb" if "parent = None"
        using chain that kvb by (simp add: chain_at_def block_at_def)
      moreover have "kv ?b = kv (physical_block_id q) @ ?tb" if "parent = Some p" "map_of (nodes pc1) p = Some q" for p q
        using phys [OF that(2)] par [OF that(1)] that(1) pn kvb by (auto simp: take_block_at)
      ultimately show ?thesis by (auto simp: n_def split: option.split)
    next
      case False
      from phys [OF k False] obtain k0 where k0: "map_of (nodes pc) x = Some k0" "physical_block_id k = physical_block_id k0"
        "parent_id k = parent_id k0" "token_block k = token_block k0" by blast
      have "kv (physical_block_id k) = kv (physical_block_id q) @ token_block k"
        if "parent_id k = Some p" "map_of (nodes pc1) p = Some q" for p q
      proof -
        have "p \<noteq> ?nid" using nodes_okD(5) [OF d(1) k0(1), of p] k0(3) that(1) none by auto
        from phys [OF that(2) this] obtain q0 where
          q0: "map_of (nodes pc) p = Some q0" "physical_block_id q = physical_block_id q0" by blast
        have "parent_id k0 = Some p" using k0(3) that(1) by simp
        from content_okD(3) [OF con k0(1) this q0(1)] k0 q0(2) show ?thesis by simp
      qed
      with content_okD(1,2) [OF con k0(1)] k0 show ?thesis by (auto split: option.split)
    qed
    then show "length (token_block k) = nat ?s" and "case parent_id k of None \<Rightarrow> kv (physical_block_id k) = token_block k
         | Some p \<Rightarrow> \<forall>q. map_of (nodes pc1) p = Some q \<longrightarrow> kv (physical_block_id k) = kv (physical_block_id q) @ token_block k"
      by blast+
  qed (use content_ok_entry [OF con] in \<open>auto simp: pc1_def\<close>)
  have chain1: "chain_at kv (nat ?s) toks (Suc i) (Some ?nid) pc1"
    using kvb by (simp add: chain_at_def pc1_def M n_def)
  have walk: "publish_walk toks phys (i # is) parent pc m =
      and_then (publish_walk toks phys is (Some ?nid) pc1 (m\<lparr>allocator := al\<rparr>)) (\<lambda>(k, r). Inr (k + 1, r))" for "is"
    using new i att par pn
    by (cases parent) (auto simp: Let_def pc1_def n_def alist_simps)
  show thesis
    using minv1 inv1 con1 chain1 fr walk by (intro that [of al pc1]) (auto simp: pc1_def am)
qed

text \<open>What every cache operation preserves, besides the cache's own entries.\<close>

definition same_pool :: "kv_manager \<Rightarrow> kv_manager \<Rightarrow> bool" where
  "same_pool m m' \<longleftrightarrow>
     requests m' = requests m \<and> mgr_block_size m' = mgr_block_size m \<and>
     num_blocks (allocator m') = num_blocks (allocator m) \<and>
     (\<forall>rid. allocations (allocator m') (Req rid) = allocations (allocator m) (Req rid))"

lemma same_pool_refl [simp]: "same_pool m m"
  by (simp add: same_pool_def)

lemma same_pool_trans [trans]: "same_pool a b \<Longrightarrow> same_pool b c \<Longrightarrow> same_pool a c"
  by (simp add: same_pool_def)

definition cache_good :: "(nat \<Rightarrow> int list) \<Rightarrow> prefix_cache \<Rightarrow> kv_manager \<Rightarrow> bool" where
  "cache_good kv pc m \<longleftrightarrow> mgr_inv m \<and> cache_inv pc m \<and> content_ok kv (nat (mgr_block_size m)) pc"

lemma publish_walk_run:
  assumes "cache_good kv pc m" and "chain_at kv (nat (mgr_block_size m)) toks i parent pc"
    and "allocations (allocator m) (Req rid) = Some phys" and "i \<le> n" and "n \<le> length phys"
    and "n * nat (mgr_block_size m) \<le> length toks"
    and "\<forall>j < n. kv (phys ! j) = take (Suc j * nat (mgr_block_size m)) toks"
  shows "\<exists>k pc' m'. publish_walk toks phys [i..<n] parent pc m = Inr (k, pc', m') \<and>
    cache_good kv pc' m' \<and> same_pool m m' \<and> max_blocks pc' = max_blocks pc"
  using assms
proof (induction "n - i" arbitrary: i parent pc m)
  case 0
  then show ?case by simp
next
  case (Suc d)
  then have i: "i < n" and upt: "[i..<n] = i # [Suc i..<n]" and d: "d = n - Suc i" by (simp_all add: upt_rec)
  note good = Suc.prems(1) [unfolded cache_good_def]
  let ?s = "mgr_block_size m"
  show ?case
  proof (cases "edges pc (parent, block_at ?s toks i)")
    case (Some nid)
    from good have inv: "cache_inv pc m" and con: "content_ok kv (nat ?s) pc" by simp_all
    from chain_at_edge [OF inv con Suc.prems(2) Some] obtain q where
      q: "map_of (nodes pc) nid = Some q" "chain_at kv (nat ?s) toks (Suc i) (Some nid) pc" .
    have "cache_good kv (touch_node nid pc) m"
      using good touch_node_inv [of pc m nid] content_ok_shrinks [OF con shrinks_touch_node] by (simp add: cache_good_def)
    from Suc.hyps(1) [OF d this chain_at_touch [OF q(2)] Suc.prems(3) Suc_leI [OF i] Suc.prems(5-7)] Some q(1)
    show ?thesis by (simp add: upt Let_def touch_node_def)
  next
    case None
    from good have minv: "mgr_inv m" and inv: "cache_inv pc m" and con: "content_ok kv (nat ?s) pc" by simp_all
    have "Suc i * nat ?s \<le> n * nat ?s" using i by (intro mult_right_mono) auto
    then have full: "Suc i * nat ?s \<le> length toks" using Suc.prems(6) by linarith
    have "i < length phys" using i Suc.prems(5) by simp
    from publish_node_ok [OF minv inv con Suc.prems(2,3) this full Suc.prems(7) [rule_format, OF i] None]
    obtain al pc1 where s: "mgr_inv (m\<lparr>allocator := al\<rparr>)" "cache_inv pc1 (m\<lparr>allocator := al\<rparr>)"
      "content_ok kv (nat ?s) pc1" "chain_at kv (nat ?s) toks (Suc i) (Some (next_node_id pc)) pc1"
      "max_blocks pc1 = max_blocks pc" "num_blocks al = num_blocks (allocator m)"
      "\<forall>r. allocations al (Req r) = allocations (allocator m) (Req r)"
      "\<forall>is. publish_walk toks phys (i # is) parent pc m =
          and_then (publish_walk toks phys is (Some (next_node_id pc)) pc1 (m\<lparr>allocator := al\<rparr>))
            (\<lambda>(k, r). Inr (k + 1, r))" by metis
    let ?m1 = "m\<lparr>allocator := al\<rparr>"
    have "cache_good kv pc1 ?m1" using s by (simp add: cache_good_def)
    moreover have "same_pool m ?m1" using s by (simp add: same_pool_def)
    ultimately show ?thesis
      using Suc.hyps(1) [OF d, of pc1 ?m1 "Some (next_node_id pc)"] s(4-8) i Suc.prems(3,5-7)
      unfolding upt by (force dest: same_pool_trans)
  qed
qed

lemma publish_exact_run:
  assumes good: "cache_good kv pc m" and held: "allocations (allocator m) (Req rid) = Some phys"
    and holds: "t \<noteq> None \<Longrightarrow> table_holds kv (nat (mgr_block_size m)) toks phys" and ne: "toks \<noteq> []"
    and cov: "int (length toks) \<le> int (length phys) * mgr_block_size m"
  shows "\<exists>pc' m'. publish_exact toks phys t pc m = Inr (pc', m') \<and>
    cache_good kv pc' m' \<and> same_pool m m' \<and> max_blocks pc' = max_blocks pc"
proof -
  let ?s = "mgr_block_size m" and ?eid = "next_entry_id pc"
  let ?pb = "ceil_div (int (length toks)) ?s"
  from good have minv: "mgr_inv m" and inv: "cache_inv pc m" and con: "content_ok kv (nat ?s) pc"
    by (simp_all add: cache_good_def)
  note d = cache_invD [OF inv] and a = mgr_invD(1) [OF minv] and s = mgr_invD(4) [OF minv]
  show ?thesis
  proof (cases "t = None \<or> \<not> (?pb \<le> max_blocks pc \<and> map_of (exact pc) toks = None)")
    case True
    with good show ?thesis by (auto simp: publish_exact_def Let_def split: option.split)
  next
    case False
    then obtain tok where t: "t = Some tok" and fits: "?pb \<le> max_blocks pc" and new: "map_of (exact pc) toks = None"
      by auto
    let ?ids = "take (nat ?pb) phys" and ?own = "ExactOwner (next_entry_id pc)"
    have pos: "0 < ?pb" using ceil_div_pos [OF s] ne by simp
    have "?pb \<le> int (length phys)" using ceil_div_le_iff [OF s] cov by simp
    then have len: "int (length ?ids) = ?pb" using pos by (simp add: min_def) linarith
    have own: "allocations (allocator m) ?own = None"
    proof (cases "allocations (allocator m) ?own")
      case (Some bs)
      then obtain key e where "map_of (exact pc) key = Some e" "entry_id e = ?eid"
        using d(3) unfolding owners_ok_def by blast
      with exact_okD(3) [OF d(2)] show ?thesis by fastforce
    qed
    have dist: "distinct ?ids" using alloc_inv_owned(2) [OF a held] by simp
    have nr: "\<not> is_request ?own" by simp
    have ne': "?ids \<noteq> []" using len pos by auto
    obtain al where att: "block_attach (allocator m) ?own ?ids = Inr (?ids, al)"
      and minv1: "mgr_inv (m\<lparr>allocator := al\<rparr>)" and am: "allocations al = (allocations (allocator m))(?own \<mapsto> ?ids)"
      and nb: "num_blocks al = num_blocks (allocator m)"
      using attach_cache_owner [OF minv nr own held set_take_subset dist ne'] by blast
    define e where "e = \<lparr>entry_id = ?eid, entry_token_ids = toks, entry_block_ids = ?ids,
                         next_token_id = tok, entry_owner = ?own, entry_last_access = clock pc + 1\<rparr>"
    define pc1 where "pc1 = pc\<lparr>next_entry_id := ?eid + 1, references := add_references ?ids (references pc),
                      clock := clock pc + 1, exact := AList.update toks e (exact pc)\<rparr>"
    have "exact_ok (AList.update toks e (exact pc)) (?eid + 1)"
      by (rule exact_ok_insert [OF d(2) new]) (simp_all add: e_def)
    moreover have "owners_ok (nodes pc) (AList.update toks e (exact pc)) (allocations al)"
      using owners_ok_entry_insert [OF d(3,2) new, of e] by (simp add: e_def am)
    moreover have "refs_ok (add_references ?ids (references pc)) (allocations al)"
      unfolding am by (rule refs_ok_add [OF d(4) alloc_invD(7) [OF a] own _ dist]) simp
    ultimately have inv1: "cache_inv pc1 (m\<lparr>allocator := al\<rparr>)"
      using d(1) by (simp add: cache_inv_def pc1_def)
    have below: "i * nat ?s < length toks" if "i < length ?ids" for i
    proof -
      have "int i * ?s \<le> (?pb - 1) * ?s" using that len s by (intro mult_right_mono) auto
      then have "int i * ?s < int (length toks)" using ceil_div_tight [OF s, of "int (length toks)"] by linarith
      then have "int (i * nat ?s) < int (length toks)" using s by simp
      then show ?thesis by (simp only: of_nat_less_iff)
    qed
    have ent: "toks \<noteq> [] \<and> int (length ?ids) = ceil_div (int (length toks)) (int (nat ?s)) \<and>
        (\<forall>i < length ?ids. kv (?ids ! i) = take (Suc i * nat ?s) toks)"
      using ne len s holds t below by (auto simp: table_holds_def)
    have "content_ok kv (nat ?s) pc1"
      unfolding content_ok_def
    proof (intro conjI allI impI)
      fix key k assume k: "map_of (exact pc1) key = Some k"
      have "key \<noteq> [] \<and> int (length (entry_block_ids k)) = ceil_div (int (length key)) (int (nat ?s)) \<and>
          (\<forall>i < length (entry_block_ids k). kv (entry_block_ids k ! i) = take (Suc i * nat ?s) key)"
      proof (cases "key = toks")
        case True
        with k have "k = e" by (simp add: pc1_def alist_simps)
        with True ent show ?thesis by (simp add: e_def)
      next
        case False
        with k have "map_of (exact pc) key = Some k" by (simp add: pc1_def alist_simps)
        from content_ok_entry [OF con this] show ?thesis by blast
      qed
      then show "key \<noteq> []" and "int (length (entry_block_ids k)) = ceil_div (int (length key)) (int (nat ?s))"
        and "i < length (entry_block_ids k) \<Longrightarrow> kv (entry_block_ids k ! i) = take (Suc i * nat ?s) key" for i
        by blast+
    next
      fix nid n assume "map_of (nodes pc1) nid = Some n"
      then have "map_of (nodes pc) nid = Some n" by (simp add: pc1_def)
      then show "length (token_block n) = nat ?s" and "case parent_id n of None \<Rightarrow> kv (physical_block_id n) = token_block n
         | Some p \<Rightarrow> \<forall>q. map_of (nodes pc1) p = Some q \<longrightarrow> kv (physical_block_id n) = kv (physical_block_id q) @ token_block n"
        using content_okD [OF con, of nid n] by (auto simp: pc1_def split: option.split)
    qed
    then have "cache_good kv pc1 (m\<lparr>allocator := al\<rparr>)" using minv1 inv1 by (simp add: cache_good_def)
    moreover have "same_pool m (m\<lparr>allocator := al\<rparr>)" using nb by (simp add: same_pool_def am)
    moreover have "publish_exact toks phys t pc m = Inr (pc1, m\<lparr>allocator := al\<rparr>)"
      using fits new att by (simp add: publish_exact_def Let_def t pc1_def e_def)
    moreover have "max_blocks pc1 = max_blocks pc" by (simp add: pc1_def)
    ultimately show ?thesis by blast
  qed
qed

lemma evict_while_good:
  assumes "cache_good kv pc m"
  shows "\<exists>pc' m'. evict_while cond f pc m = Inr (pc', m') \<and> cache_good kv pc' m' \<and> same_pool m m' \<and>
    max_blocks pc' = max_blocks pc \<and> free_block_count (allocator m) \<le> free_block_count (allocator m') \<and>
    (cond pc' m' \<longrightarrow> evict_candidates f pc' m' = [])"
proof -
  from assms have "mgr_inv m" and "cache_inv pc m" and con: "content_ok kv (nat (mgr_block_size m)) pc"
    by (simp_all add: cache_good_def)
  from evict_while_run [OF this(1,2), of cond f] obtain pc' m' where
    r: "evict_while cond f pc m = Inr (pc', m')" "mgr_inv m'" "cache_inv pc' m'" "shrinks pc pc'"
      "max_blocks pc' = max_blocks pc" "requests m' = requests m" "mgr_block_size m' = mgr_block_size m"
      "num_blocks (allocator m') = num_blocks (allocator m)"
      "free_block_count (allocator m) \<le> free_block_count (allocator m')"
      "\<forall>rid. allocations (allocator m') (Req rid) = allocations (allocator m) (Req rid)"
      "cond pc' m' \<longrightarrow> evict_candidates f pc' m' = []" by blast
  with content_ok_shrinks [OF con r(4)] show ?thesis by (auto simp: cache_good_def same_pool_def)
qed

text \<open>Children are younger than their parents, so a nonempty tree has a leaf.\<close>

lemma leaf_exists:
  assumes ok: "nodes_ok ns E nxt" and "ns \<noteq> []"
  shows "\<exists>nid n. map_of ns nid = Some n \<and> children n = {}"
proof -
  let ?K = "fst ` set ns" and ?m = "Max (fst ` set ns)"
  have "?m \<in> ?K" using assms(2) by (intro Max_in) auto
  then obtain n where n: "map_of ns ?m = Some n" using nodes_ok_distinct [OF ok] by force
  have "c \<notin> children n" for c
  proof
    assume "c \<in> children n"
    then obtain k where k: "map_of ns c = Some k" "parent_id k = Some ?m"
      using nodes_okD(4) [OF ok n] by auto
    then have "?m < c" using nodes_okD(5) [OF ok k(1)] by blast
    moreover have "c \<in> ?K" using k(1) by (metis map_of_eq_None_iff option.distinct(1))
    ultimately show False using Max_ge [of ?K c] by (meson finite_imageI finite_set leD)
  qed
  with n show ?thesis by auto
qed

lemma no_candidates_empty:
  assumes inv: "cache_inv pc m" and "evict_candidates False pc m = []"
  shows "nodes pc = []" and "exact pc = []" and "references pc = []"
proof -
  note d = cache_invD [OF inv]
  from assms(2) have x: "exact pc = []" and leaves: "\<forall>n \<in> snd ` set (nodes pc). children n \<noteq> {}"
    by (auto simp: evict_candidates_def Let_def filter_empty_conv)
  show ns: "nodes pc = []"
  proof (rule ccontr)
    assume "nodes pc \<noteq> []"
    then obtain nid n where n: "map_of (nodes pc) nid = Some n" "children n = {}" using leaf_exists [OF d(1)] by blast
    from map_of_SomeD [OF n(1)] have "n \<in> snd ` set (nodes pc)" by force
    with n(2) leaves show False by auto
  qed
  show "exact pc = []" by (rule x)
  have "cache_map (allocations (allocator m)) w = None" for w
    using d(3) ns x by (cases w) (auto simp: owners_ok_def cache_map_def)
  then have none: "owners_of (cache_map (allocations (allocator m))) b = {}" for b by (auto simp: owners_of_def)
  show "references pc = []"
  proof (cases "references pc")
    case (Cons p rest)
    then have "map_of (references pc) (fst p) = Some (snd p)" by (cases p) simp
    moreover from this d(4) have "0 < snd p" unfolding refs_ok_def by blast
    ultimately have "0 < reference_of (references pc) (fst p)" by (simp add: reference_of_def)
    with d(4) none show ?thesis unfolding refs_ok_def by simp
  qed simp
qed

lemma publish_within_limit:
  assumes good: "cache_good kv pc m" and mx: "0 < max_blocks pc"
    and run: "evict_to_limit pc m = Inr (pc', m')"
  shows "int (length (references pc')) \<le> max_blocks pc'"
proof (rule ccontr)
  assume over: "\<not> int (length (references pc')) \<le> max_blocks pc'"
  from evict_while_good [OF good, of "\<lambda>pc m. int (length (references pc)) > max_blocks pc" False] run over
  have "cache_inv pc' m'" "evict_candidates False pc' m' = []" "max_blocks pc' = max_blocks pc"
    by (auto simp: evict_to_limit_def cache_good_def)
  with no_candidates_empty(3) over mx show False by fastforce
qed

lemma publish_stages:
  assumes good: "cache_good kv pc m" and a: "requests m rid = Some a" and ne: "toks \<noteq> []"
    and len: "int (length toks) \<le> sequence_length a"
    and holds: "publishable kv (nat (mgr_block_size m)) toks (physical_block_ids a) t"
  shows "\<exists>k pc1 m1 pc2 m2. publish_walk toks (physical_block_ids a)
        [0..<nat (min (int (length toks) div mgr_block_size m) (int (length (physical_block_ids a))))] None pc m
        = Inr (k, pc1, m1) \<and>
      publish_exact toks (physical_block_ids a) t pc1 m1 = Inr (pc2, m2) \<and>
      cache_good kv pc2 m2 \<and> same_pool m m2 \<and> max_blocks pc2 = max_blocks pc"
proof -
  let ?s = "mgr_block_size m" and ?phys = "physical_block_ids a"
  from good have minv: "mgr_inv m" by (simp add: cache_good_def)
  note q = mgr_inv_request [OF minv a] and s = mgr_invD(4) [OF minv]
  define n where "n = nat (min (int (length toks) div ?s) (int (length ?phys)))"
  have n1: "n \<le> length ?phys" by (simp add: n_def)
  have "0 \<le> int (length toks) div ?s" using s by (simp add: pos_imp_zdiv_nonneg_iff)
  then have "int n \<le> int (length toks) div ?s" by (simp add: n_def)
  then have "int n * ?s \<le> int (length toks) div ?s * ?s" using s by (simp add: mult_right_mono)
  also have "\<dots> \<le> int (length toks)" using s by (simp add: minus_mod_eq_div_mult [symmetric])
  finally have "int (n * nat ?s) \<le> int (length toks)" using s by simp
  then have n2: "n * nat ?s \<le> length toks" by (simp only: of_nat_le_iff)
  have "chain_at kv (nat ?s) toks 0 None pc" by (simp add: chain_at_def)
  moreover have "\<forall>j < n. kv (?phys ! j) = take (Suc j * nat ?s) toks"
  proof (intro allI impI)
    fix j assume j: "j < n"
    then have "Suc j * nat ?s \<le> n * nat ?s" by (intro mult_le_mono1) simp
    with n1 n2 j holds show "kv (?phys ! j) = take (Suc j * nat ?s) toks" by (simp add: publishable_def)
  qed
  ultimately obtain k pc1 m1 where
    w: "publish_walk toks ?phys [0..<n] None pc m = Inr (k, pc1, m1)" "cache_good kv pc1 m1" "same_pool m m1"
      "max_blocks pc1 = max_blocks pc" using publish_walk_run [OF good _ q(5) le0 n1 n2] by blast
  have s1: "mgr_block_size m1 = ?s" and h1: "allocations (allocator m1) (Req rid) = Some ?phys"
    using w(3) q(5) by (simp_all add: same_pool_def)
  have "int (length toks) \<le> int (length ?phys) * ?s"
    using len q(2,4) by (simp add: capacity_tokens_def)
  with publish_exact_run [OF w(2) h1, of t toks] holds [unfolded publishable_def] ne s1 obtain pc2 m2 where
    x: "publish_exact toks ?phys t pc1 m1 = Inr (pc2, m2)" "cache_good kv pc2 m2" "same_pool m1 m2"
      "max_blocks pc2 = max_blocks pc1" by auto
  have mb: "max_blocks pc2 = max_blocks pc" using x(4) w(4) by simp
  show ?thesis
    by (intro exI conjI, rule w(1) [unfolded n_def], rule x(1), rule x(2), rule same_pool_trans [OF w(3) x(3)], rule mb)
qed

lemma publish_run:
  assumes good: "cache_good kv pc m" and a: "requests m rid = Some a" and ne: "toks \<noteq> []"
    and len: "int (length toks) \<le> sequence_length a"
    and holds: "publishable kv (nat (mgr_block_size m)) toks (physical_block_ids a) t"
  shows "\<exists>k pc' m'. publish toks a t pc m = Inr (k, pc', m') \<and> cache_good kv pc' m' \<and> same_pool m m' \<and>
    max_blocks pc' = max_blocks pc \<and>
    (0 < max_blocks pc \<longrightarrow> int (length (references pc')) \<le> max_blocks pc)"
proof (cases "max_blocks pc = 0")
  case True
  with good show ?thesis by (simp add: publish_def)
next
  case False
  from publish_stages [OF assms] obtain k pc1 m1 pc2 m2 where
    w: "publish_walk toks (physical_block_ids a)
        [0..<nat (min (int (length toks) div mgr_block_size m) (int (length (physical_block_ids a))))] None pc m
        = Inr (k, pc1, m1)" "publish_exact toks (physical_block_ids a) t pc1 m1 = Inr (pc2, m2)"
    and g2: "cache_good kv pc2 m2" "same_pool m m2" "max_blocks pc2 = max_blocks pc" by blast
  from evict_while_good [OF g2(1)] obtain pc3 m3 where
    e: "evict_to_limit pc2 m2 = Inr (pc3, m3)" "cache_good kv pc3 m3" "same_pool m2 m3" "max_blocks pc3 = max_blocks pc2"
    unfolding evict_to_limit_def by blast
  have "publish toks a t pc m = Inr (k, pc3, m3)"
    using False w e(1) by (simp add: publish_def Let_def)
  moreover have "0 < max_blocks pc \<longrightarrow> int (length (references pc3)) \<le> max_blocks pc"
    using publish_within_limit [OF g2(1) _ e(1)] e(4) g2(3) by simp
  moreover have "same_pool m m3" by (rule same_pool_trans [OF g2(2) e(3)])
  moreover have "max_blocks pc3 = max_blocks pc" using e(4) g2(3) by simp
  ultimately show ?thesis using e(2) by blast
qed

section \<open>The cache beside a running engine\<close>

text \<open>
  The steps of an engine that shares the pool with the cache. A request publishes only
  tokens its table holds, and it writes into a block only while it is the block's sole
  owner; that is what copy-on-write is for.
\<close>

type_synonym cache_world = "prefix_cache \<times> kv_manager \<times> (nat \<Rightarrow> int list)"

fun is_cache_call :: "mgr_op \<Rightarrow> bool" where
  "is_cache_call (CacheCall _) = True"
| "is_cache_call _ = False"

inductive cache_step :: "cache_world \<Rightarrow> cache_world \<Rightarrow> bool" where
  step_lookup: "cache_lookup m toks allow pc = Inr (r, pc') \<Longrightarrow> cache_step (pc, m, kv) (pc', m, kv)"
| step_publish: "requests m rid = Some a \<Longrightarrow> toks \<noteq> [] \<Longrightarrow> int (length toks) \<le> sequence_length a \<Longrightarrow>
    publishable kv (nat (mgr_block_size m)) toks (physical_block_ids a) t \<Longrightarrow>
    publish toks a t pc m = Inr (k, pc', m') \<Longrightarrow> cache_step (pc, m, kv) (pc', m', kv)"
| step_evict: "evict_until_free k pc m = Inr (n, pc', m') \<Longrightarrow> cache_step (pc, m, kv) (pc', m', kv)"
| step_clear: "clear pc m = Inr (pc', m') \<Longrightarrow> cache_step (pc, m, kv) (pc', m', kv)"
| step_manager: "\<not> is_cache_call opn \<Longrightarrow> cache_step (pc, m, kv) (pc, mgr_exec opn m, kv)"
| step_write: "requests m rid = Some a \<Longrightarrow> b \<in> set (physical_block_ids a) \<Longrightarrow>
    refcounts (allocator m) ! b = 1 \<Longrightarrow> cache_step (pc, m, kv) (pc, m, kv(b := xs))"

inductive cache_reachable :: "int \<Rightarrow> int \<Rightarrow> int \<Rightarrow> cache_world \<Rightarrow> bool" for n bs mx where
  cache_start: "prefix_cache_init mx = Inr pc \<Longrightarrow> kv_manager_init n bs = Inr m \<Longrightarrow>
    cache_reachable n bs mx (pc, m, kv)"
| cache_next: "cache_reachable n bs mx w \<Longrightarrow> cache_step w w' \<Longrightarrow> cache_reachable n bs mx w'"

lemma mgr_exec_cache_frame:
  assumes "\<not> is_cache_call opn"
  shows "\<not> is_request w \<Longrightarrow> allocations (allocator (mgr_exec opn m)) w = allocations (allocator m) w"
    and "mgr_block_size (mgr_exec opn m) = mgr_block_size m"
proof -
  have ne: "w \<noteq> Req rid" if "\<not> is_request w" for rid using that by auto
  show "\<not> is_request w \<Longrightarrow> allocations (allocator (mgr_exec opn m)) w = allocations (allocator m) w"
    using assms ne
    by (cases opn)
      (auto simp: commit_def keep_def reserve_def attach_prefix_def copy_on_write_tail_def set_sequence_length_def
        ensure_capacity_def append_tokens_def mgr_release_def Let_def
        split: sum.splits option.splits if_splits prod.splits dest!: alloc_frames [where v = w])
  show "mgr_block_size (mgr_exec opn m) = mgr_block_size m"
    using assms
    by (cases opn)
      (auto simp: commit_def keep_def reserve_def attach_prefix_def copy_on_write_tail_def set_sequence_length_def
        ensure_capacity_def append_tokens_def mgr_release_def Let_def
        split: sum.splits option.splits if_splits prod.splits)
qed

lemma content_ok_kv:
  assumes ok: "content_ok kv s pc"
    and "\<And>nid n. map_of (nodes pc) nid = Some n \<Longrightarrow> kv' (physical_block_id n) = kv (physical_block_id n)"
    and "\<And>key e b. map_of (exact pc) key = Some e \<Longrightarrow> b \<in> set (entry_block_ids e) \<Longrightarrow> kv' b = kv b"
  shows "content_ok kv' s pc"
  unfolding content_ok_def
proof (intro conjI allI impI)
  fix nid n assume n: "map_of (nodes pc) nid = Some n"
  from content_okD [OF ok n] assms(2) n show "length (token_block n) = s" and
    "case parent_id n of None \<Rightarrow> kv' (physical_block_id n) = token_block n
      | Some p \<Rightarrow> \<forall>q. map_of (nodes pc) p = Some q \<longrightarrow> kv' (physical_block_id n) = kv' (physical_block_id q) @ token_block n"
    by (auto split: option.split)
next
  fix key e assume e: "map_of (exact pc) key = Some e"
  from content_ok_entry [OF ok e] assms(3) [OF e]
  show "key \<noteq> []" and "int (length (entry_block_ids e)) = ceil_div (int (length key)) (int s)"
    and "i < length (entry_block_ids e) \<Longrightarrow> kv' (entry_block_ids e ! i) = take (Suc i * s) key" for i
    by auto
qed

lemma write_good:
  assumes good: "cache_good kv pc m" and a: "requests m rid = Some a" and b: "b \<in> set (physical_block_ids a)"
    and one: "refcounts (allocator m) ! b = 1"
  shows "cache_good (kv(b := xs)) pc m"
proof -
  from good have minv: "mgr_inv m" and inv: "cache_inv pc m" and con: "content_ok kv (nat (mgr_block_size m)) pc"
    by (simp_all add: cache_good_def)
  note own = mgr_owner [OF minv a b] and d = cache_invD [OF inv]
  have sole: "w = Req rid" if "w \<in> owners (allocator m) b" for w
    using one_owner [OF mgr_invD(1) [OF minv] one own(2) that own(1)] .
  have "content_ok (kv(b := xs)) (nat (mgr_block_size m)) pc"
  proof (rule content_ok_kv [OF con])
    fix nid n assume "map_of (nodes pc) nid = Some n"
    from owners_okD(1) [OF d(3) this] have "CacheOwner nid \<in> owners (allocator m) (physical_block_id n)"
      by (auto simp: owners_of_def)
    with sole show "(kv(b := xs)) (physical_block_id n) = kv (physical_block_id n)" by fastforce
  next
    fix key e c assume "map_of (exact pc) key = Some e" "c \<in> set (entry_block_ids e)"
    with owners_okD(3) [OF d(3)] have "ExactOwner (entry_id e) \<in> owners (allocator m) c"
      by (auto simp: owners_of_def)
    with sole show "(kv(b := xs)) c = kv c" by fastforce
  qed
  with minv inv show ?thesis by (simp add: cache_good_def)
qed

lemma cache_step_good:
  assumes "cache_step (pc, m, kv) (pc', m', kv')" and good: "cache_good kv pc m"
  shows "cache_good kv' pc' m'"
  using assms(1)
proof (cases rule: cache_step.cases)
  case (step_lookup toks allow r)
  then show ?thesis
    using cache_lookup_run [of m pc kv toks allow] good content_ok_shrinks by (auto simp: cache_good_def)
next
  case (step_publish rid a toks t k)
  then show ?thesis using publish_run [OF good, of rid a toks t] by auto
next
  case (step_evict k n)
  then show ?thesis
    using evict_while_good [OF good, of "\<lambda>pc m. free_block_count (allocator m) < k" True]
    by (auto simp: evict_until_free_def split: if_splits)
next
  case step_clear
  then show ?thesis using evict_while_good [OF good, of "\<lambda>pc m. True" False] by (auto simp: clear_def)
next
  case (step_manager opn)
  then show ?thesis
    using good mgr_exec_inv mgr_exec_cache_frame [where opn = opn and m = m] cache_inv_other_manager [of pc m m']
    by (simp add: cache_good_def)
next
  case (step_write rid a b xs)
  then show ?thesis using write_good [OF good] by simp
qed

lemma cache_reachable_good: "cache_reachable n bs mx (pc, m, kv) \<Longrightarrow> cache_good kv pc m"
proof (induction "(pc, m, kv)" arbitrary: pc m kv rule: cache_reachable.induct)
  case (cache_start pc m kv)
  then show ?case
    using cache_init_inv manager_init_inv by (auto simp: cache_good_def prefix_cache_init_def content_ok_def split: if_splits)
next
  case (cache_next w)
  then show ?case by (cases w) (auto intro: cache_step_good)
qed

section \<open>When eviction can run dry\<close>

lemma idle_no_freeable_empty:
  assumes inv: "cache_inv pc m" and minv: "mgr_inv m" and idle: "requests m = Map.empty"
    and stuck: "evict_candidates True pc m = []"
  shows "evict_candidates False pc m = []"
proof (rule ccontr)
  note a = mgr_invD(1) [OF minv]
  assume "evict_candidates False pc m \<noteq> []"
  then obtain c where c: "c \<in> set (evict_candidates False pc m)" by (metis list.set_intros(1) neq_Nil_conv)
  note pres = candidate_present [OF inv c]
  note own = item_owned [OF inv pres]
  from alloc_inv_owned [OF a own(1)] obtain b where b: "b \<in> set (item_blocks c)" and lt: "b < num_blocks (allocator m)"
    by (cases "item_blocks c") auto
  have "cache_map (allocations (allocator m)) = allocations (allocator m)"
  proof
    fix w
    show "cache_map (allocations (allocator m)) w = allocations (allocator m) w"
      using mgr_invD(3) [OF minv] idle by (cases w) (auto simp: cache_map_def)
  qed
  then have "reference_of (references pc) b = refcounts (allocator m) ! b"
    using cache_invD(4) [OF inv] alloc_inv_refcount [OF a lt] by (simp add: refs_ok_def)
  then have "is_freeable (allocator m) (references pc) c"
    using b lt by (auto simp: is_freeable_def list_ex_iff block_refcount_def intro!: bexI [of _ b])
  with c stuck show False by (auto simp: evict_candidates_def Let_def filter_empty_conv)
qed

lemma empty_cache_all_free:
  assumes inv: "cache_inv pc m" and minv: "mgr_inv m" and idle: "requests m = Map.empty"
    and "evict_candidates False pc m = []"
  shows "free_block_count (allocator m) = int (num_blocks (allocator m))"
proof -
  note a = mgr_invD(1) [OF minv]
  have "allocations (allocator m) w = None" for w
    using no_candidates_empty [OF inv assms(4)] cache_invD(3) [OF inv] mgr_invD(3) [OF minv] idle
    by (cases w) (auto simp: owners_ok_def)
  then have "owners (allocator m) b = {}" for b by (auto simp: owners_of_def)
  then have "used_block_count (allocator m) = 0" using used_blocks_owned [OF a] by simp
  then show ?thesis by (simp add: used_block_count_def)
qed

lemma max_blocks_const:
  assumes "cache_step (pc, m, kv) (pc', m', kv')" and good: "cache_good kv pc m"
  shows "max_blocks pc' = max_blocks pc"
  using assms(1)
proof (cases rule: cache_step.cases)
  case (step_lookup toks allow r)
  then show ?thesis using cache_lookup_run [of m pc kv toks allow] good by (auto simp: cache_good_def)
next
  case (step_publish rid a toks t k)
  then show ?thesis using publish_run [OF good, of rid a toks t] by auto
next
  case (step_evict k n)
  then show ?thesis
    using evict_while_good [OF good, of "\<lambda>pc m. free_block_count (allocator m) < k" True]
    by (auto simp: evict_until_free_def split: if_splits)
next
  case step_clear
  then show ?thesis using evict_while_good [OF good, of "\<lambda>pc m. True" False] by (auto simp: clear_def)
qed auto

lemma cache_reachable_max: "cache_reachable n bs mx (pc, m, kv) \<Longrightarrow> max_blocks pc = mx \<and> 0 \<le> mx"
proof (induction "(pc, m, kv)" arbitrary: pc m kv rule: cache_reachable.induct)
  case (cache_next w)
  obtain pc0 m0 kv0 where w: "w = (pc0, m0, kv0)" by (cases w)
  show ?case using cache_next max_blocks_const cache_reachable_good unfolding w by metis
qed (auto simp: prefix_cache_init_def split: if_splits)

lemma reserve_total:
  assumes minv: "mgr_inv m" and "requests m rid = None" and "rid \<noteq> []" and "0 < cap"
  shows "\<exists>a m'. reserve m rid cap 0 = Inr (a, m')"
proof -
  have "allocations (allocator m) (Req rid) = None" using mgr_invD(3) [OF minv] assms(2) by simp
  moreover have "0 < ceil_div cap (mgr_block_size m)" using ceil_div_pos [OF mgr_invD(4) [OF minv] assms(4)] .
  ultimately have "ok (block_allocate (allocator m) (Req rid) (ceil_div cap (mgr_block_size m)))"
    using assms(3) by (simp add: block_allocate_def dom_def split: prod.split)
  then obtain ids al where
    al: "block_allocate (allocator m) (Req rid) (ceil_div cap (mgr_block_size m)) = Inr (ids, al)"
    by (auto simp: ok_iff)
  then have "ok (reserve m rid cap 0)"
    using assms(2,4) by (cases ids) (simp_all add: reserve_def Let_def dom_def)
  then show ?thesis by (auto simp: ok_iff)
qed

section \<open>What a scheduler relies on\<close>

text \<open>
  A prefix store: lookups answer, a hit can be attached, eviction answers and leaves the
  requests alone, and whatever requests do with the pool through the manager is fine.
\<close>

locale prefix_store =
  fixes good :: "'c \<Rightarrow> kv_manager \<Rightarrow> bool"
    and lookup :: "kv_manager \<Rightarrow> int list \<Rightarrow> bool \<Rightarrow> 'c \<Rightarrow> (prefix_match \<times> 'c) result"
    and evict :: "int \<Rightarrow> 'c \<Rightarrow> kv_manager \<Rightarrow> (int \<times> 'c \<times> kv_manager) result"
  assumes good_manager: "good c m \<Longrightarrow> mgr_inv m"
    and lookup_total: "good c m \<Longrightarrow> \<exists>r c'. lookup m toks allow c = Inr (r, c')"
    and lookup_good: "good c m \<Longrightarrow> lookup m toks allow c = Inr (r, c') \<Longrightarrow> good c' m"
    and lookup_range: "good c m \<Longrightarrow> lookup m toks allow c = Inr (r, c') \<Longrightarrow>
      0 \<le> token_count r \<and> token_count r \<le> int (length toks)"
    and lookup_attach: "good c m \<Longrightarrow> lookup m toks allow c = Inr (r, c') \<Longrightarrow> token_count r \<noteq> 0 \<Longrightarrow>
      requests m rid = None \<Longrightarrow> rid \<noteq> [] \<Longrightarrow>
      \<exists>a m'. attach_prefix m rid (match_block_ids r) (token_count r) = Inr (a, m')"
    and evict_good: "good c m \<Longrightarrow> 0 \<le> k \<Longrightarrow>
      \<exists>n c' m'. evict k c m = Inr (n, c', m') \<and> good c' m' \<and> same_pool m m'"
    and manager_step: "good c m \<Longrightarrow> \<not> is_cache_call opn \<Longrightarrow> good c (mgr_exec opn m)"
begin

text \<open>A hit leads to an attached table, in a state that is good again.\<close>

lemma hit_attaches:
  assumes g: "good c m" and run: "lookup m toks allow c = Inr (r, c')" and "token_count r \<noteq> 0"
    and "requests m rid = None" and "rid \<noteq> []"
  obtains a m' where "attach_prefix m rid (match_block_ids r) (token_count r) = Inr (a, m')" and "good c' m'"
proof -
  from lookup_attach [OF assms] obtain a m' where
    a: "attach_prefix m rid (match_block_ids r) (token_count r) = Inr (a, m')" by blast
  moreover have "good c' (mgr_exec (AttachPrefix rid (match_block_ids r) (token_count r)) m)"
    by (rule manager_step [OF lookup_good [OF g run]]) simp
  ultimately show thesis by (intro that) simp_all
qed

text \<open>Reserving pages for a new request never raises; it may just fail to find pages.\<close>

lemma reserve_answers:
  assumes g: "good c m" and "requests m rid = None" and "rid \<noteq> []" and "0 < cap"
  obtains a m' where "reserve m rid cap 0 = Inr (a, m')" and "good c m'" and "mgr_inv m'"
proof -
  note minv = good_manager [OF g]
  from reserve_total [OF minv assms(2-4)] obtain a m' where r: "reserve m rid cap 0 = Inr (a, m')" by blast
  moreover have "good c (mgr_exec (Reserve rid cap 0) m)" by (rule manager_step [OF g]) simp
  ultimately show thesis using reserve_inv [OF minv r] by (intro that) simp_all
qed

lemma evict_then_reserve:
  assumes g: "good c m" and "requests m rid = None" and "rid \<noteq> []" and "0 < cap"
  obtains n c' m1 a m2 where "evict 1 c m = Inr (n, c', m1)" and "reserve m1 rid cap 0 = Inr (a, m2)"
    and "good c' m2" and "same_pool m m1"
proof -
  from evict_good [OF g, of 1] obtain n c' m1 where e: "evict 1 c m = Inr (n, c', m1)" "good c' m1" "same_pool m m1"
    by auto
  have "requests m1 rid = None" using e(3) assms(2) by (simp add: same_pool_def)
  from reserve_answers [OF e(2) this assms(3,4)] obtain a m2 where "reserve m1 rid cap 0 = Inr (a, m2)" "good c' m2" .
  with e that show thesis by blast
qed

end

interpretation store: prefix_store "cache_good kv" cache_lookup evict_until_free for kv
proof (unfold_locales)
  fix c m toks allow r c' rid k opn
  assume g: "cache_good kv c m"
  then have parts: "mgr_inv m" "cache_inv c m" "content_ok kv (nat (mgr_block_size m)) c" by (simp_all add: cache_good_def)
  show "mgr_inv m" by (rule parts(1))
  note look = cache_lookup_run [OF parts, of toks allow]
  show "\<exists>r c'. cache_lookup m toks allow c = Inr (r, c')" using look by blast
  show "cache_good kv c' m" if "cache_lookup m toks allow c = Inr (r, c')"
    using look that parts content_ok_shrinks [OF parts(3)] by (auto simp: cache_good_def)
  have gm: "good_match kv m toks r" if "cache_lookup m toks allow c = Inr (r, c')" using look that by auto
  then show "0 \<le> token_count r \<and> token_count r \<le> int (length toks)" if "cache_lookup m toks allow c = Inr (r, c')"
    using that by (auto simp: good_match_def)
  show "\<exists>a m'. attach_prefix m rid (match_block_ids r) (token_count r) = Inr (a, m')"
    if "cache_lookup m toks allow c = Inr (r, c')" "token_count r \<noteq> 0" "requests m rid = None" "rid \<noteq> []"
    using good_match_attaches [OF gm [OF that(1)] parts(1) that(2-4)] by blast
  show "\<exists>n c' m'. evict_until_free k c m = Inr (n, c', m') \<and> cache_good kv c' m' \<and> same_pool m m'" if "0 \<le> k"
    using evict_while_good [OF g, of "\<lambda>pc m. free_block_count (allocator m) < k" True] that
    by (auto simp: evict_until_free_def)
  show "cache_good kv c (mgr_exec opn m)" if "\<not> is_cache_call opn"
    using cache_step_good [OF step_manager [OF that] g] .
qed

section \<open>Properties\<close>

text \<open>
  C14: a prefix hit never serves another prompt's KV. In every state an engine can reach,
  block \<open>j\<close> of a match holds the KV of the first \<open>j + 1\<close> blocks of the very tokens that
  were looked up, the match never covers more than those tokens (a non-exact one always
  leaves a token to prefill), and attaching it to a new request succeeds.
\<close>

theorem prefix_hit_is_right:
  assumes "cache_reachable n bs mx (pc, m, kv)" and "cache_lookup m toks allow pc = Inr (r, pc')"
  shows "(\<forall>j < length (match_block_ids r). kv (match_block_ids r ! j) = take (Suc j * nat (mgr_block_size m)) toks) \<and>
    token_count r \<le> int (length toks) \<and>
    (exact_match r \<or> token_count r = 0 \<or> token_count r < int (length toks)) \<and>
    (\<forall>rid. token_count r \<noteq> 0 \<and> requests m rid = None \<and> rid \<noteq> [] \<longrightarrow>
       (\<exists>a m'. attach_prefix m rid (match_block_ids r) (token_count r) = Inr (a, m')))"
proof -
  from cache_reachable_good [OF assms(1)] have minv: "mgr_inv m" and "cache_inv pc m"
    and "content_ok kv (nat (mgr_block_size m)) pc" by (simp_all add: cache_good_def)
  from cache_lookup_run [OF this, of toks allow] assms(2) have good: "good_match kv m toks r" by auto
  then have "(\<forall>j < length (match_block_ids r). kv (match_block_ids r ! j) = take (Suc j * nat (mgr_block_size m)) toks)"
    and "token_count r \<le> int (length toks)" and "exact_match r \<or> token_count r = 0 \<or> token_count r < int (length toks)"
    by (auto simp: good_match_def split: if_splits)
  with good_match_attaches [OF good minv] show ?thesis by blast
qed

text \<open>
  C15: publishing tokens a live request holds never raises, leaves every request's table
  alone, and leaves at most \<open>max_blocks\<close> distinct blocks cached.
\<close>

theorem publish_bounded:
  assumes "cache_reachable n bs mx (pc, m, kv)" and "requests m rid = Some a" and "toks \<noteq> []"
    and "int (length toks) \<le> sequence_length a"
    and "table_holds kv (nat (mgr_block_size m)) toks (physical_block_ids a)" and "max_blocks pc \<noteq> 0"
  shows "\<exists>k pc' m'. publish toks a t pc m = Inr (k, pc', m') \<and>
    int (length (references pc')) \<le> max_blocks pc \<and> requests m' = requests m \<and>
    (\<forall>r. allocations (allocator m') (Req r) = allocations (allocator m) (Req r))"
proof -
  note good = cache_reachable_good [OF assms(1)]
  then have s: "0 < nat (mgr_block_size m)" using mgr_invD(4) by (auto simp: cache_good_def)
  from publish_run [OF good assms(2-4) holds_publishable [OF _ assms(5)], of t] s obtain k pc' m' where
    p: "publish toks a t pc m = Inr (k, pc', m')" "same_pool m m'" "max_blocks pc' = max_blocks pc"
      "0 < max_blocks pc \<longrightarrow> int (length (references pc')) \<le> max_blocks pc" by blast
  with cache_reachable_max [OF assms(1)] assms(6) show ?thesis by (auto simp: same_pool_def)
qed

text \<open>
  C16: \<open>evict_until_free\<close> never raises and never shrinks the free list; it stops with
  enough free blocks, or only when no remaining entry frees memory by itself. With no
  live request it always reaches any target the pool can hold: cached blocks never
  deprive a request of memory for good.
\<close>

theorem evict_until_free_contract:
  assumes "cache_reachable n bs mx (pc, m, kv)" and "0 \<le> required"
  shows "\<exists>gain pc' m'. evict_until_free required pc m = Inr (gain, pc', m') \<and> 0 \<le> gain \<and>
    requests m' = requests m \<and>
    (required \<le> free_block_count (allocator m') \<or> evict_candidates True pc' m' = []) \<and>
    (requests m = Map.empty \<and> required \<le> int (num_blocks (allocator m)) \<longrightarrow>
       required \<le> free_block_count (allocator m'))"
proof -
  from evict_while_good [OF cache_reachable_good [OF assms(1)], of "\<lambda>pc m. free_block_count (allocator m) < required" True]
  obtain pc' m' where e: "evict_while (\<lambda>pc m. free_block_count (allocator m) < required) True pc m = Inr (pc', m')"
    "cache_good kv pc' m'" "same_pool m m'" "free_block_count (allocator m) \<le> free_block_count (allocator m')"
    "free_block_count (allocator m') < required \<longrightarrow> evict_candidates True pc' m' = []" by blast
  have "required \<le> free_block_count (allocator m')"
    if "requests m = Map.empty" "required \<le> int (num_blocks (allocator m))"
  proof (rule ccontr)
    assume short: "\<not> required \<le> free_block_count (allocator m')"
    have idle: "requests m' = Map.empty" and nb: "num_blocks (allocator m') = num_blocks (allocator m)"
      using e(3) that(1) by (simp_all add: same_pool_def)
    from e(2) have inv: "cache_inv pc' m'" and minv: "mgr_inv m'" by (simp_all add: cache_good_def)
    from short e(5) have "evict_candidates True pc' m' = []" by simp
    from empty_cache_all_free [OF inv minv idle idle_no_freeable_empty [OF inv minv idle this]] short that(2) nb
    show False by simp
  qed
  with e assms(2) show ?thesis by (auto simp: evict_until_free_def same_pool_def)
qed

text \<open>A concrete run: a request stores two tokens and publishes them with its prediction.\<close>

definition demo_node :: prefix_node where
  "demo_node = \<lparr>node_id = 0, parent_id = None, token_block = [7, 8], physical_block_id = 1,
     node_owner = CacheOwner 0, children = {}, node_last_access = 1\<rparr>"

definition demo_entry :: exact_entry where
  "demo_entry = \<lparr>entry_id = 0, entry_token_ids = [7, 8], entry_block_ids = [1], next_token_id = 9,
     entry_owner = ExactOwner 0, entry_last_access = 2\<rparr>"

definition demo_cache :: prefix_cache where
  "demo_cache = \<lparr>max_blocks = 4, nodes = [(0, demo_node)], edges = [(None, [7, 8]) \<mapsto> 0],
     exact = [([7, 8], demo_entry)], references = [(1, 2)], next_node_id = 1, next_entry_id = 1, clock = 2,
     lookups = 0, hits = 0, hit_tokens = 0, evictions = 0\<rparr>"

definition demo_allocation :: kv_allocation where
  "demo_allocation = \<lparr>kv_request_id = ''r'', kv_block_size = 2, physical_block_ids = [1], sequence_length = 2\<rparr>"

definition demo_before :: kv_manager where
  "demo_before = \<lparr>allocator = \<lparr>num_blocks = 2, block_size_tokens = 2, free_blocks = [0],
       allocations = [Req ''r'' \<mapsto> [1]], refcounts = [0, 1]\<rparr>,
     mgr_block_size = 2, requests = [''r'' \<mapsto> demo_allocation]\<rparr>"

definition demo_manager :: kv_manager where
  "demo_manager = demo_before\<lparr>allocator := \<lparr>num_blocks = 2, block_size_tokens = 2, free_blocks = [0],
       allocations = [Req ''r'' \<mapsto> [1], CacheOwner 0 \<mapsto> [1], ExactOwner 0 \<mapsto> [1]], refcounts = [0, 3]\<rparr>\<rparr>"

lemma demo_walk:
  assumes "prefix_cache_init 4 = Inr pc"
  shows "publish_walk [7, 8] [1] [0] None pc demo_before =
    Inr (1, demo_cache\<lparr>exact := [], references := [(1, 1)], next_entry_id := 0, clock := 1\<rparr>,
      demo_before\<lparr>allocator := \<lparr>num_blocks = 2, block_size_tokens = 2, free_blocks = [0],
       allocations = [Req ''r'' \<mapsto> [1], CacheOwner 0 \<mapsto> [1]], refcounts = [0, 2]\<rparr>\<rparr>)"
  using assms
  by (auto simp: prefix_cache_init_def demo_before_def block_attach_def block_at_def demo_cache_def demo_node_def
      Let_def reference_of_def)

lemma demo_exact:
  "publish_exact [7, 8] [1] (Some 9)
     (demo_cache\<lparr>exact := [], references := [(1, 1)], next_entry_id := 0, clock := 1\<rparr>)
     (demo_before\<lparr>allocator := \<lparr>num_blocks = 2, block_size_tokens = 2, free_blocks = [0],
       allocations = [Req ''r'' \<mapsto> [1], CacheOwner 0 \<mapsto> [1]], refcounts = [0, 2]\<rparr>\<rparr>)
   = Inr (demo_cache, demo_manager)"
  by (simp add: publish_exact_def demo_before_def demo_manager_def demo_cache_def demo_entry_def ceil_div_def
      block_attach_def Let_def reference_of_def)

lemma demo_publish:
  assumes "prefix_cache_init 4 = Inr pc"
  shows "publish [7, 8] demo_allocation (Some 9) pc demo_before = Inr (1, demo_cache, demo_manager)"
proof -
  have "evict_to_limit demo_cache demo_manager = Inr (demo_cache, demo_manager)"
    by (simp add: evict_to_limit_def evict_while.simps demo_cache_def)
  moreover have "max_blocks pc = 4" using assms by (auto simp: prefix_cache_init_def)
  moreover have "[0..<nat (min (int (length [7::int, 8]) div mgr_block_size demo_before) (int (length [1::nat])))] = [0]"
    by (simp add: demo_before_def)
  ultimately show ?thesis
    using demo_walk [OF assms] demo_exact by (simp add: publish_def demo_allocation_def Let_def del: upt_rec)
qed

lemma demo_reachable: "cache_reachable 2 2 4 (demo_cache, demo_manager, \<lambda>_. [7, 8])"
proof -
  let ?m0 = "\<lparr>allocator = \<lparr>num_blocks = 2, block_size_tokens = 2, free_blocks = [0, 1], allocations = Map.empty,
      refcounts = [0, 0]\<rparr>, mgr_block_size = 2, requests = Map.empty\<rparr>"
  obtain pc where pc: "prefix_cache_init 4 = Inr pc" by (simp add: prefix_cache_init_def)
  have m0: "kv_manager_init 2 2 = Inr ?m0"
    by (simp add: kv_manager_init_def block_allocator_init_def upt_rec eval_nat_numeral)
  have "mgr_exec (Reserve ''r'' 2 2) ?m0 = demo_before"
    by (simp add: reserve_def ceil_div_def block_allocate_def demo_before_def demo_allocation_def Let_def)
  then have "cache_reachable 2 2 4 (pc, demo_before, \<lambda>_. [7, 8])"
    using cache_next [OF cache_start [OF pc m0] step_manager [of "Reserve ''r'' 2 2"]] by simp
  then show ?thesis
    by (rule cache_next) (rule step_publish [of _ "''r''", OF _ _ _ _ demo_publish [OF pc]],
      simp_all add: demo_before_def demo_allocation_def table_holds_def publishable_def)
qed

theorem prefix_hit_is_right_witness:
  "\<exists>r pc'. cache_lookup demo_manager [7, 8, 5] True demo_cache = Inr (r, pc') \<and> match_block_ids r = [1] \<and>
     (\<exists>a m'. attach_prefix demo_manager ''s'' [1] 2 = Inr (a, m'))"
proof -
  have "\<exists>r pc'. cache_lookup demo_manager [7, 8, 5] True demo_cache = Inr (r, pc') \<and> match_block_ids r = [1] \<and> token_count r = 2"
    by (simp add: cache_lookup_def Let_def demo_cache_def demo_manager_def demo_before_def block_at_def demo_node_def touch_node_def)
  then obtain r pc' where l: "cache_lookup demo_manager [7, 8, 5] True demo_cache = Inr (r, pc')"
    "match_block_ids r = [1]" "token_count r = 2" by blast
  moreover have "requests demo_manager ''s'' = None" by (simp add: demo_manager_def demo_before_def)
  ultimately show ?thesis using prefix_hit_is_right [OF demo_reachable l(1)] by fastforce
qed

theorem publish_bounded_witness:
  "\<exists>k pc' m'. publish [7, 8] demo_allocation None demo_cache demo_manager = Inr (k, pc', m') \<and>
     int (length (references pc')) \<le> 4"
proof -
  have "requests demo_manager ''r'' = Some demo_allocation" "max_blocks demo_cache = 4"
    by (simp_all add: demo_manager_def demo_before_def demo_cache_def)
  moreover have "table_holds (\<lambda>_. [7, 8]) (nat (mgr_block_size demo_manager)) [7, 8] (physical_block_ids demo_allocation)"
    by (simp add: table_holds_def demo_manager_def demo_before_def demo_allocation_def)
  ultimately show ?thesis
    using publish_bounded [OF demo_reachable, of "''r''" demo_allocation "[7, 8]" None] by (auto simp: demo_allocation_def)
qed

theorem evict_until_free_contract_witness:
  "\<exists>gain pc' m'. evict_until_free 2 demo_cache demo_manager = Inr (gain, pc', m') \<and> 0 \<le> gain"
  using evict_until_free_contract [OF demo_reachable, of 2] by auto

end
