(* ===== verification/Request.thy ===== *)
theory Request
  imports Prelude
begin

text \<open>
  The life of one generation request, \<open>engine/runtime/request.py\<close>, and its sampling
  parameters, \<open>engine/runtime/sampling.py\<close>. Every method that reads the clock
  (\<open>perf_counter_ns\<close>) takes the reading as the argument \<open>now\<close>; floats are exact reals,
  nanoseconds and token counts are unbounded integers. The \<open>allocation\<close> attribute is a
  reference to the block manager's record of the request: here a handle, the request id
  under which the manager's \<open>requests\<close> table holds that record.
\<close>

section \<open>Sampling parameters\<close>

record sampling_params =
  temperature :: real
  top_p :: real
  top_k :: int
  min_p :: real
  repetition_penalty :: real
  presence_penalty :: real
  frequency_penalty :: real
  penalize_prompt :: bool
  seed :: "int option"
  stop_token_ids :: "int set"
  ignore_eos :: bool
  sp_logprobs :: "int option"

definition GREEDY :: sampling_params where
  "GREEDY = \<lparr>temperature = 0, top_p = 1, top_k = 0, min_p = 0, repetition_penalty = 1,
     presence_penalty = 0, frequency_penalty = 0, penalize_prompt = False, seed = None,
     stop_token_ids = {}, ignore_eos = False, sp_logprobs = None\<rparr>"

definition validate_sampling :: "sampling_params \<Rightarrow> sampling_params result" where
  "validate_sampling p =
     (if \<not> (0 \<le> temperature p \<and> temperature p \<le> 2) then Inl ValueError
      else if \<not> (0 < top_p p \<and> top_p p \<le> 1) then Inl ValueError
      else if top_k p < 0 then Inl ValueError
      else if \<not> (0 \<le> min_p p \<and> min_p p \<le> 1) then Inl ValueError
      else if \<not> (0 < repetition_penalty p \<and> repetition_penalty p \<le> 2) then Inl ValueError
      else if \<not> (- 2 \<le> presence_penalty p \<and> presence_penalty p \<le> 2) then Inl ValueError
      else if \<not> (- 2 \<le> frequency_penalty p \<and> frequency_penalty p \<le> 2) then Inl ValueError
      else if (case sp_logprobs p of None \<Rightarrow> False | Some k \<Rightarrow> \<not> (0 \<le> k \<and> k \<le> 20)) then Inl ValueError
      else if (case seed p of None \<Rightarrow> False | Some s \<Rightarrow> \<not> (0 \<le> s \<and> s < 2 ^ 63)) then Inl ValueError
      else Inr p)"

definition sp_greedy :: "sampling_params \<Rightarrow> bool" where
  "sp_greedy p = (temperature p = 0 \<or> top_k p = 1)"

definition has_penalties :: "sampling_params \<Rightarrow> bool" where
  "has_penalties p = (repetition_penalty p \<noteq> 1 \<or> presence_penalty p \<noteq> 0 \<or> frequency_penalty p \<noteq> 0)"

definition deterministic :: "sampling_params \<Rightarrow> bool" where
  "deterministic p = (sp_greedy p \<or> seed p \<noteq> None)"

definition can_reuse_cached_prediction :: "sampling_params \<Rightarrow> bool" where
  "can_reuse_cached_prediction p = (sp_greedy p \<and> \<not> has_penalties p \<and> sp_logprobs p = None)"

section \<open>States\<close>

datatype request_state = WAITING | PREFILLING | DECODING | FINISHED | CANCELLED | FAILED | REJECTED

fun allowed_transitions :: "request_state \<Rightarrow> request_state set" where
  "allowed_transitions WAITING = {PREFILLING, CANCELLED, REJECTED}"
| "allowed_transitions PREFILLING = {DECODING, WAITING, CANCELLED, FAILED}"
| "allowed_transitions DECODING = {FINISHED, WAITING, CANCELLED, FAILED}"
| "allowed_transitions FINISHED = {}"
| "allowed_transitions CANCELLED = {}"
| "allowed_transitions FAILED = {}"
| "allowed_transitions REJECTED = {}"

fun terminal :: "request_state \<Rightarrow> bool" where
  "terminal WAITING = False"
| "terminal PREFILLING = False"
| "terminal DECODING = False"
| "terminal FINISHED = True"
| "terminal CANCELLED = True"
| "terminal FAILED = True"
| "terminal REJECTED = True"

section \<open>The request\<close>

record request =
  request_id :: string
  prompt_token_count :: int
  max_new_tokens :: int
  state :: request_state
  created_ns :: int
  admitted_ns :: "int option"
  prompt_token_ids :: "int list"
  allocation :: "string option"
  output_token_ids :: "int list"
  output_logprobs :: "(nat \<times> real) list list"
  sampling :: sampling_params
  req_next_token_id :: "int option"
  finish_reason :: "string option"
  prefilled_token_count :: int
  first_token_ns :: "int option"
  last_token_ns :: "int option"
  token_timestamps_ns :: "int list"
  cached_prefix_tokens :: int
  cached_next_token_id :: "int option"
  preempted_count :: int
  resuming :: bool
  recomputing :: bool
  preempted_at_epoch :: int
  recomputed_token_count :: int
  recompute_ns :: int
  preempted_wait_ns :: int
  preempted_ns :: "int option"
  resume_started_ns :: "int option"
  stalled_ns :: int
  held_pages_at_exit :: bool
  speculative_rounds :: int
  speculative_proposed_tokens :: int
  speculative_accepted_tokens :: int
  speculative_fallbacks :: int

text \<open>Construction: the defaults of the dataclass and the checks of \<open>__post_init__\<close>.\<close>

definition new_request ::
  "string \<Rightarrow> int \<Rightarrow> int \<Rightarrow> int list \<Rightarrow> sampling_params \<Rightarrow> int \<Rightarrow> request" where
  "new_request rid cnt mx ids sp now =
     \<lparr>request_id = rid, prompt_token_count = cnt, max_new_tokens = mx, state = WAITING,
      created_ns = now, admitted_ns = None, prompt_token_ids = ids, allocation = None,
      output_token_ids = [], output_logprobs = [], sampling = sp, req_next_token_id = None, finish_reason = None,
      prefilled_token_count = 0, first_token_ns = None, last_token_ns = None,
      token_timestamps_ns = [], cached_prefix_tokens = 0, cached_next_token_id = None,
      preempted_count = 0, resuming = False, recomputing = False, preempted_at_epoch = 0,
      recomputed_token_count = 0, recompute_ns = 0, preempted_wait_ns = 0, preempted_ns = None,
      resume_started_ns = None, stalled_ns = 0, held_pages_at_exit = False,
      speculative_rounds = 0, speculative_proposed_tokens = 0, speculative_accepted_tokens = 0,
      speculative_fallbacks = 0\<rparr>"

definition post_init :: "request \<Rightarrow> request result" where
  "post_init r =
     (if request_id r = [] then Inl ValueError
      else if prompt_token_count r \<le> 0 then Inl ValueError
      else if max_new_tokens r \<le> 0 then Inl ValueError
      else if prompt_token_ids r \<noteq> [] \<and> int (length (prompt_token_ids r)) \<noteq> prompt_token_count r then Inl ValueError
      else if \<not> (0 \<le> prefilled_token_count r \<and> prefilled_token_count r \<le> prompt_token_count r) then Inl ValueError
      else if \<not> (0 \<le> cached_prefix_tokens r \<and> cached_prefix_tokens r \<le> prefilled_token_count r) then Inl ValueError
      else Inr r)"

definition reserved_tokens :: "request \<Rightarrow> int" where
  "reserved_tokens r = prompt_token_count r + max_new_tokens r"

definition prefill_token_ids :: "request \<Rightarrow> int list" where
  "prefill_token_ids r =
     (if resuming r \<and> output_token_ids r \<noteq> [] then prompt_token_ids r @ butlast (output_token_ids r)
      else prompt_token_ids r)"

definition prefill_token_count :: "request \<Rightarrow> int" where
  "prefill_token_count r =
     (if resuming r \<and> output_token_ids r \<noteq> [] then prompt_token_count r + int (length (output_token_ids r)) - 1
      else prompt_token_count r)"

definition req_done :: "request \<Rightarrow> bool" where
  "req_done r = (state r \<in> {FINISHED, CANCELLED, FAILED, REJECTED})"

definition remaining_prefill_tokens :: "request \<Rightarrow> int" where
  "remaining_prefill_tokens r = prefill_token_count r - prefilled_token_count r"

section \<open>Transitions\<close>

text \<open>The timing bookkeeping of \<open>transition\<close>, in the order of its statements.\<close>

definition enter_prefilling :: "int \<Rightarrow> request \<Rightarrow> request" where
  "enter_prefilling now r =
     (let r1 = (if admitted_ns r = None then r\<lparr>admitted_ns := Some now\<rparr> else r) in
      case preempted_ns r1 of
        None \<Rightarrow> r1
      | Some p \<Rightarrow>
          r1\<lparr>preempted_wait_ns := preempted_wait_ns r1 + (now - p),
             stalled_ns := (if first_token_ns r1 \<noteq> None then stalled_ns r1 + (now - p) else stalled_ns r1),
             preempted_ns := None,
             resume_started_ns := Some now\<rparr>)"

definition enter_decoding :: "int \<Rightarrow> request \<Rightarrow> request" where
  "enter_decoding now r =
     (if recomputing r then
        let r1 = r\<lparr>recomputing := False\<rparr> in
        case resume_started_ns r1 of
          None \<Rightarrow> r1
        | Some s \<Rightarrow>
            r1\<lparr>recompute_ns := recompute_ns r1 + (now - s),
               stalled_ns := (if first_token_ns r1 \<noteq> None then stalled_ns r1 + (now - s) else stalled_ns r1),
               resume_started_ns := None\<rparr>
      else r)"

definition close_wait :: "int \<Rightarrow> request \<Rightarrow> request" where
  "close_wait now r =
     (case preempted_ns r of
        None \<Rightarrow> r
      | Some p \<Rightarrow> r\<lparr>preempted_wait_ns := preempted_wait_ns r + (now - p), preempted_ns := None\<rparr>)"

definition req_transition :: "int \<Rightarrow> request_state \<Rightarrow> string option \<Rightarrow> request \<Rightarrow> request result" where
  "req_transition now nxt reason r =
     (if nxt \<notin> allowed_transitions (state r) then Inl RuntimeError
      else if nxt = DECODING \<and> remaining_prefill_tokens r \<noteq> 0 then Inl RuntimeError
      else
        let r1 = r\<lparr>state := nxt\<rparr>;
            r2 = (if nxt = PREFILLING then enter_prefilling now r1 else r1);
            r3 = (if nxt = DECODING then enter_decoding now r2 else r2);
            r4 = (if nxt \<noteq> WAITING then close_wait now r3 else r3)
        in Inr (if nxt \<in> {FINISHED, CANCELLED, FAILED, REJECTED}
                then r4\<lparr>finish_reason := reason, allocation := None\<rparr> else r4))"

definition req_preempt :: "int \<Rightarrow> string \<Rightarrow> int \<Rightarrow> request \<Rightarrow> request result" where
  "req_preempt now reason epoch r =
     (if state r \<notin> {PREFILLING, DECODING} then Inl RuntimeError
      else and_then (req_transition now WAITING (Some reason) r) (\<lambda>r1.
        Inr (r1\<lparr>allocation := None, prefilled_token_count := 0, cached_prefix_tokens := 0,
                cached_next_token_id := None, resuming := (output_token_ids r1 \<noteq> []),
                recomputing := True, preempted_count := preempted_count r1 + 1,
                preempted_at_epoch := epoch, preempted_ns := Some now, resume_started_ns := None\<rparr>)))"

definition complete_resumption :: "request \<Rightarrow> request result" where
  "complete_resumption r =
     (if state r \<noteq> DECODING \<or> \<not> resuming r then Inl RuntimeError
      else Inr (r\<lparr>resuming := False, prefilled_token_count := prompt_token_count r\<rparr>))"

definition advance_prefill :: "int \<Rightarrow> request \<Rightarrow> request result" where
  "advance_prefill cnt r =
     (if state r \<noteq> PREFILLING then Inl RuntimeError
      else if cnt \<le> 0 \<or> cnt > remaining_prefill_tokens r then Inl ValueError
      else let r1 = (if recomputing r then r\<lparr>recomputed_token_count := recomputed_token_count r + cnt\<rparr> else r) in
        Inr (r1\<lparr>prefilled_token_count := prefilled_token_count r1 + cnt\<rparr>))"

definition append_token :: "int \<Rightarrow> int \<Rightarrow> request \<Rightarrow> request result" where
  "append_token now token_id r =
     (if state r \<noteq> DECODING then Inl RuntimeError
      else if int (length (output_token_ids r)) \<ge> max_new_tokens r then Inl RuntimeError
      else Inr (r\<lparr>output_token_ids := output_token_ids r @ [token_id],
                  first_token_ns := (if first_token_ns r = None then Some now else first_token_ns r),
                  last_token_ns := Some now,
                  token_timestamps_ns := token_timestamps_ns r @ [now]\<rparr>))"

section \<open>Latency reports\<close>

definition queue_time_ms :: "request \<Rightarrow> real option" where
  "queue_time_ms r = map_option (\<lambda>a. real_of_int (a - created_ns r) / 1000000) (admitted_ns r)"

definition preempted_wait_time_ms :: "request \<Rightarrow> real" where
  "preempted_wait_time_ms r = real_of_int (preempted_wait_ns r) / 1000000"

definition total_queue_time_ms :: "request \<Rightarrow> real option" where
  "total_queue_time_ms r = map_option (\<lambda>q. q + preempted_wait_time_ms r) (queue_time_ms r)"

definition time_to_first_token_ms :: "request \<Rightarrow> real option" where
  "time_to_first_token_ms r = map_option (\<lambda>f. real_of_int (f - created_ns r) / 1000000) (first_token_ns r)"

definition generation_time_ms :: "request \<Rightarrow> real option" where
  "generation_time_ms r =
     (case (first_token_ns r, last_token_ns r) of
        (Some f, Some l) \<Rightarrow> Some (real_of_int (l - f) / 1000000)
      | _ \<Rightarrow> None)"

definition stall_time_ms :: "request \<Rightarrow> real" where
  "stall_time_ms r = real_of_int (stalled_ns r) / 1000000"

definition decode_time_ms :: "request \<Rightarrow> real option" where
  "decode_time_ms r = map_option (\<lambda>wall. max 0 (wall - stall_time_ms r)) (generation_time_ms r)"

definition mean_inter_token_latency_ms :: "request \<Rightarrow> real option" where
  "mean_inter_token_latency_ms r =
     (let produced = length (output_token_ids r) in
      case decode_time_ms r of
        None \<Rightarrow> None
      | Some d \<Rightarrow> if produced < 2 then None else Some (d / (real produced - 1)))"

definition recompute_time_ms :: "request \<Rightarrow> real" where
  "recompute_time_ms r = real_of_int (recompute_ns r) / 1000000"

record latency_report =
  lr_queue_ms :: "real option"
  lr_total_queue_ms :: "real option"
  lr_ttft_ms :: "real option"
  lr_generation_ms :: "real option"
  lr_decode_ms :: "real option"
  lr_stall_ms :: real
  lr_mean_itl_ms :: "real option"
  lr_output_tokens :: nat

definition latency_report_of :: "request \<Rightarrow> latency_report" where
  "latency_report_of r =
     \<lparr>lr_queue_ms = queue_time_ms r, lr_total_queue_ms = total_queue_time_ms r,
      lr_ttft_ms = time_to_first_token_ms r, lr_generation_ms = generation_time_ms r,
      lr_decode_ms = decode_time_ms r, lr_stall_ms = stall_time_ms r,
      lr_mean_itl_ms = mean_inter_token_latency_ms r, lr_output_tokens = length (output_token_ids r)\<rparr>"

record recompute_overhead =
  ro_preempted_count :: int
  ro_recomputed_tokens :: int
  ro_recompute_ms :: real
  ro_preempted_wait_ms :: real
  ro_tokens_per_output :: real

definition recompute_overhead_of :: "request \<Rightarrow> recompute_overhead" where
  "recompute_overhead_of r =
     (let produced = length (output_token_ids r) in
      \<lparr>ro_preempted_count = preempted_count r, ro_recomputed_tokens = recomputed_token_count r,
       ro_recompute_ms = recompute_time_ms r, ro_preempted_wait_ms = preempted_wait_time_ms r,
       ro_tokens_per_output =
         (if produced \<noteq> 0 then real_of_int (recomputed_token_count r) / real produced else 0)\<rparr>)"

section \<open>What the engine does to a request\<close>

text \<open>
  Admission by the scheduler: the matched prefix (if any) counts as prefilled, the
  request gets its allocation handle and enters prefill. The code makes these writes before
  the transition, which raises unless the request is waiting; the model keeps no half-written
  request for that case. The scheduler only admits requests of its queue, and these are
  waiting in every reachable world (theory \<open>Scheduling\<close>), so it does not arise.
\<close>

definition admit_request :: "int \<Rightarrow> int \<Rightarrow> int option \<Rightarrow> request \<Rightarrow> request result" where
  "admit_request now matched nxt r =
     (let r1 = (if matched \<noteq> 0 then r\<lparr>prefilled_token_count := matched, cached_prefix_tokens := matched,
                                     cached_next_token_id := nxt\<rparr> else r)
      in req_transition now PREFILLING None (r1\<lparr>allocation := Some (request_id r1)\<rparr>))"

datatype req_op =
    Admit int "int option"
  | Advance int
  | MarkDecoding
  | AppendToken int
  | CompleteResumption
  | Preempt string int
  | Finish string
  | Fail string
  | Cancel string
  | Reject string

fun req_apply :: "int \<Rightarrow> req_op \<Rightarrow> request \<Rightarrow> request result" where
  "req_apply now (Admit k nxt) r =
     (if 0 \<le> k \<and> k \<le> prefill_token_count r then admit_request now k nxt r else Inl ValueError)"
| "req_apply now (Advance k) r = advance_prefill k r"
| "req_apply now MarkDecoding r = req_transition now DECODING None r"
| "req_apply now (AppendToken t) r = append_token now t r"
| "req_apply now CompleteResumption r = complete_resumption r"
| "req_apply now (Preempt reason e) r = req_preempt now reason e r"
| "req_apply now (Finish reason) r = req_transition now FINISHED (Some reason) r"
| "req_apply now (Fail reason) r = req_transition now FAILED (Some reason) r"
| "req_apply now (Cancel reason) r = req_transition now CANCELLED (Some reason) r"
| "req_apply now (Reject reason) r = req_transition now REJECTED (Some reason) r"

definition req_exec :: "int \<times> req_op \<Rightarrow> request \<Rightarrow> request" where
  "req_exec c r = (case req_apply (fst c) (snd c) r of Inl _ \<Rightarrow> r | Inr r' \<Rightarrow> r')"

section \<open>The request invariant\<close>

definition req_inv :: "request \<Rightarrow> bool" where
  "req_inv r \<longleftrightarrow>
     request_id r \<noteq> [] \<and> 0 < prompt_token_count r \<and> 0 < max_new_tokens r \<and>
     (prompt_token_ids r = [] \<or> int (length (prompt_token_ids r)) = prompt_token_count r) \<and>
     0 \<le> prefilled_token_count r \<and> prefilled_token_count r \<le> prefill_token_count r \<and>
     int (length (output_token_ids r)) \<le> max_new_tokens r \<and>
     (resuming r \<longrightarrow> output_token_ids r \<noteq> []) \<and>
     (state r = DECODING \<longrightarrow> prompt_token_count r \<le> prefilled_token_count r) \<and>
     (state r = WAITING \<or> terminal (state r) \<longrightarrow> allocation r = None) \<and>
     (state r = PREFILLING \<or> state r = DECODING \<longrightarrow> allocation r = Some (request_id r)) \<and>
     length (token_timestamps_ns r) = length (output_token_ids r) \<and>
     (first_token_ns r = None \<longleftrightarrow> output_token_ids r = []) \<and>
     (last_token_ns r = None \<longleftrightarrow> output_token_ids r = [])"

lemma new_request_inv:
  "post_init (new_request rid cnt mx ids sp now) = Inr r \<Longrightarrow> req_inv r"
  by (auto simp: post_init_def new_request_def req_inv_def prefill_token_count_def split: if_splits)

text \<open>The timing fields do not matter to the structure.\<close>

definition same_shape :: "request \<Rightarrow> request \<Rightarrow> bool" where
  "same_shape r r' \<longleftrightarrow>
     request_id r' = request_id r \<and> prompt_token_count r' = prompt_token_count r \<and>
     max_new_tokens r' = max_new_tokens r \<and> prompt_token_ids r' = prompt_token_ids r \<and>
     output_token_ids r' = output_token_ids r \<and> prefilled_token_count r' = prefilled_token_count r \<and>
     resuming r' = resuming r \<and> token_timestamps_ns r' = token_timestamps_ns r \<and>
     first_token_ns r' = first_token_ns r \<and> last_token_ns r' = last_token_ns r \<and>
     created_ns r' = created_ns r \<and> sampling r' = sampling r \<and> cached_prefix_tokens r' = cached_prefix_tokens r"

lemma transition_shape:
  assumes "req_transition now nxt reason r = Inr r'"
  shows "same_shape r r'" and "state r' = nxt" and "nxt \<in> allowed_transitions (state r)"
    and "nxt = DECODING \<Longrightarrow> remaining_prefill_tokens r = 0"
    and "allocation r' = (if terminal nxt then None else allocation r)"
  using assms
  by (cases nxt; auto simp: req_transition_def Let_def same_shape_def enter_prefilling_def enter_decoding_def
      close_wait_def split: if_splits option.splits)+

lemma prefill_count_shape:
  "same_shape r r' \<Longrightarrow> prefill_token_count r' = prefill_token_count r"
  by (simp add: same_shape_def prefill_token_count_def)

lemma prefill_count_ge: "0 < prompt_token_count r \<Longrightarrow> prompt_token_count r \<le> prefill_token_count r"
  by (cases "output_token_ids r") (auto simp: prefill_token_count_def)

lemma transition_inv:
  assumes inv: "req_inv r" and run: "req_transition now nxt reason r = Inr r'"
    and "nxt = WAITING \<Longrightarrow> allocation r = None"
    and "nxt = PREFILLING \<Longrightarrow> allocation r = Some (request_id r)"
  shows "req_inv r'"
proof -
  note t = transition_shape [OF run]
  have "prompt_token_count r \<le> prefilled_token_count r" if "nxt = DECODING"
    using t(4) [OF that] prefill_count_ge [of r] inv by (auto simp: remaining_prefill_tokens_def req_inv_def)
  moreover have "allocation r = Some (request_id r)" if "nxt = DECODING"
    using that t(3) inv by (cases "state r") (auto simp: req_inv_def)
  ultimately show ?thesis
    using inv t(1,2,5) assms(3,4) prefill_count_shape [OF t(1)] unfolding req_inv_def same_shape_def
    by (cases nxt) auto
qed

lemma req_inv_cong:
  assumes "req_inv r" and "same_shape r r'" and "state r' = state r" and "allocation r' = allocation r"
  shows "req_inv r'"
  using assms prefill_count_shape [OF assms(2)] unfolding req_inv_def same_shape_def by auto

lemma admit_inv:
  assumes inv: "req_inv r" and k: "0 \<le> k" "k \<le> prefill_token_count r"
    and run: "admit_request now k nxt r = Inr r'"
  shows "req_inv r'"
proof -
  let ?r1 = "if k \<noteq> 0 then r\<lparr>prefilled_token_count := k, cached_prefix_tokens := k, cached_next_token_id := nxt\<rparr> else r"
  let ?r2 = "?r1\<lparr>allocation := Some (request_id ?r1)\<rparr>"
  from run have t: "req_transition now PREFILLING None ?r2 = Inr r'" by (simp add: admit_request_def Let_def)
  note ts = transition_shape [OF t]
  have w: "state r = WAITING" using ts(3) by (cases "state r") (auto split: if_splits)
  have "prefill_token_count ?r2 = prefill_token_count r" by (simp add: prefill_token_count_def)
  then have "req_inv (?r2\<lparr>state := PREFILLING\<rparr>)"
    using inv k w by (auto simp: req_inv_def prefill_token_count_def)
  moreover have "same_shape (?r2\<lparr>state := PREFILLING\<rparr>) r'"
    using ts(1) by (simp add: same_shape_def)
  ultimately show ?thesis
    using ts by (elim req_inv_cong) auto
qed

lemma preempt_run:
  assumes "req_preempt now reason e r = Inr r'"
  obtains r1 where "req_transition now WAITING (Some reason) r = Inr r1"
    and "state r = PREFILLING \<or> state r = DECODING"
    and "r' = r1\<lparr>allocation := None, prefilled_token_count := 0, cached_prefix_tokens := 0,
                cached_next_token_id := None, resuming := (output_token_ids r1 \<noteq> []),
                recomputing := True, preempted_count := preempted_count r1 + 1,
                preempted_at_epoch := e, preempted_ns := Some now, resume_started_ns := None\<rparr>"
  using assms by (auto simp: req_preempt_def split: if_splits)

lemma preempt_inv:
  assumes inv: "req_inv r" and run: "req_preempt now reason e r = Inr r'"
  shows "req_inv r'"
  using run
proof (cases rule: preempt_run)
  case (1 r1)
  note t = transition_shape [OF 1(1)]
  show ?thesis
    using inv t(1,2) unfolding 1(3) by (auto simp: req_inv_def same_shape_def prefill_token_count_def neq_Nil_conv)
qed

lemma req_apply_inv:
  assumes inv: "req_inv r" and run: "req_apply now opn r = Inr r'"
  shows "req_inv r'"
proof (cases opn)
  case (Admit k nxt)
  with run admit_inv [OF inv] show ?thesis by (auto split: if_splits)
next
  case (Advance k)
  with run have "state r = PREFILLING" and k: "0 < k" "k \<le> prefill_token_count r - prefilled_token_count r"
    and r': "r' = (if recomputing r then r\<lparr>recomputed_token_count := recomputed_token_count r + k\<rparr> else r)
        \<lparr>prefilled_token_count := prefilled_token_count r + k\<rparr>"
    by (auto simp: advance_prefill_def Let_def remaining_prefill_tokens_def split: if_splits)
  moreover have "prefill_token_count r' = prefill_token_count r" by (simp add: r' prefill_token_count_def)
  ultimately show ?thesis using inv unfolding req_inv_def by (cases "recomputing r") auto
next
  case (AppendToken t)
  with inv run show ?thesis
    by (auto simp: append_token_def req_inv_def prefill_token_count_def split: if_splits)
next
  case CompleteResumption
  with inv run show ?thesis
    by (auto simp: complete_resumption_def req_inv_def prefill_token_count_def split: if_splits)
next
  case (Preempt reason e)
  with preempt_inv [OF inv] run show ?thesis by simp
qed (use run transition_inv [OF inv] in auto)

lemma req_exec_inv: "req_inv r \<Longrightarrow> req_inv (req_exec c r)"
  using req_apply_inv by (auto simp: req_exec_def split: sum.split)

lemma req_run_inv: "req_inv r \<Longrightarrow> req_inv (fold req_exec cs r)"
  by (induction cs arbitrary: r) (auto intro: req_exec_inv)

text \<open>No operation forgets a generated token or changes the prompt.\<close>

lemma req_apply_outputs:
  assumes "req_apply now opn r = Inr r'"
  shows "\<exists>ts. output_token_ids r' = output_token_ids r @ ts" and "prompt_token_ids r' = prompt_token_ids r"
    and "request_id r' = request_id r" and "max_new_tokens r' = max_new_tokens r"
    and "prompt_token_count r' = prompt_token_count r"
  using assms
  by (cases opn; fastforce simp: advance_prefill_def append_token_def complete_resumption_def admit_request_def Let_def
      same_shape_def elim!: preempt_run dest!: transition_shape(1) split: if_splits)+

lemma req_run_outputs:
  "\<exists>ts. output_token_ids (fold req_exec cs r) = output_token_ids r @ ts"
proof (induction cs arbitrary: r)
  case (Cons c cs)
  have "\<exists>ts. output_token_ids (req_exec c r) = output_token_ids r @ ts"
    using req_apply_outputs(1) by (auto simp: req_exec_def split: sum.split)
  with Cons [of "req_exec c r"] show ?case by auto
qed simp

section \<open>The clock\<close>

text \<open>The instant up to which stalls have been accounted for.\<close>

definition accounted_until :: "int \<Rightarrow> request \<Rightarrow> int" where
  "accounted_until t r =
     (case preempted_ns r of Some p \<Rightarrow> p | None \<Rightarrow> (case resume_started_ns r of Some s \<Rightarrow> s | None \<Rightarrow> t))"

definition time_inv :: "int \<Rightarrow> request \<Rightarrow> bool" where
  "time_inv t r \<longleftrightarrow>
     created_ns r \<le> t \<and>
     (\<forall>p. preempted_ns r = Some p \<longrightarrow> p \<le> t \<and> state r = WAITING \<and> recomputing r) \<and>
     (\<forall>s. resume_started_ns r = Some s \<longrightarrow> s \<le> t \<and> recomputing r \<and> state r \<noteq> DECODING \<and> state r \<noteq> WAITING) \<and>
     0 \<le> stalled_ns r \<and> 0 \<le> preempted_wait_ns r \<and> 0 \<le> recompute_ns r \<and>
     (first_token_ns r = None \<longrightarrow> stalled_ns r = 0) \<and>
     (\<forall>f. first_token_ns r = Some f \<longrightarrow>
        stalled_ns r + f \<le> accounted_until t r \<and> (\<exists>l. last_token_ns r = Some l \<and> f \<le> l \<and> l \<le> t))"

lemma time_inv_mono:
  assumes inv: "time_inv t r" and le: "t \<le> now" shows "time_inv now r"
proof -
  have "accounted_until t r \<le> accounted_until now r"
    using le by (auto simp: accounted_until_def split: option.split)
  with assms show ?thesis unfolding time_inv_def by (auto 0 4 intro: order_trans)
qed

lemma accounted_le: "time_inv t r \<Longrightarrow> accounted_until t r \<le> t"
  by (auto simp: time_inv_def accounted_until_def split: option.split)

lemma enter_prefilling_time:
  assumes inv: "time_inv t r" and le: "t \<le> now" and w: "state r = WAITING"
  shows "time_inv now (enter_prefilling now (r\<lparr>state := PREFILLING\<rparr>))"
proof (cases "preempted_ns r")
  case None
  have "resume_started_ns r = None" using inv w by (cases "resume_started_ns r") (auto simp: time_inv_def)
  with None time_inv_mono [OF inv le] show ?thesis
    by (auto simp: enter_prefilling_def Let_def time_inv_def accounted_until_def)
next
  case (Some p)
  then have "p \<le> t" "recomputing r" using inv by (auto simp: time_inv_def)
  with Some inv le show ?thesis
    by (cases "first_token_ns r") (auto simp: enter_prefilling_def Let_def time_inv_def accounted_until_def)
qed

lemma enter_decoding_time:
  assumes inv: "time_inv t r" and le: "t \<le> now" and p: "state r = PREFILLING"
  shows "time_inv now (enter_decoding now (r\<lparr>state := DECODING\<rparr>))"
proof -
  have pn: "preempted_ns r = None" using inv p by (cases "preempted_ns r") (auto simp: time_inv_def)
  show ?thesis
  proof (cases "resume_started_ns r")
    case None
    with pn time_inv_mono [OF inv le] show ?thesis
      by (auto simp: enter_decoding_def Let_def time_inv_def accounted_until_def)
  next
    case (Some s)
    then have "s \<le> t" "recomputing r" using inv by (auto simp: time_inv_def)
    with Some pn inv le show ?thesis
      by (cases "first_token_ns r") (auto simp: enter_decoding_def Let_def time_inv_def accounted_until_def)
  qed
qed

lemma terminal_time:
  assumes inv: "time_inv t r" and le: "t \<le> now" and nxt: "terminal nxt"
  shows "time_inv now (close_wait now (r\<lparr>state := nxt\<rparr>))"
proof (cases "preempted_ns r")
  case None
  with time_inv_mono [OF inv le] nxt show ?thesis
    by (cases nxt) (auto simp: close_wait_def time_inv_def accounted_until_def)
next
  case (Some p)
  then have "p \<le> t" "state r = WAITING" "recomputing r" using inv by (auto simp: time_inv_def)
  moreover from this have "resume_started_ns r = None"
    using inv by (cases "resume_started_ns r") (auto simp: time_inv_def)
  ultimately show ?thesis
    using Some inv le nxt by (cases nxt) (auto simp: close_wait_def time_inv_def accounted_until_def)
qed

lemma close_wait_idle: "preempted_ns r = None \<Longrightarrow> close_wait now r = r"
  by (simp add: close_wait_def)

lemma preempted_after_prefill: "preempted_ns (enter_prefilling now r) = None"
  by (auto simp: enter_prefilling_def Let_def split: option.split)

lemma preempted_after_decode: "preempted_ns (enter_decoding now r) = preempted_ns r"
  by (auto simp: enter_decoding_def Let_def split: option.split)

lemma time_inv_fields [simp]:
  "time_inv t (r\<lparr>finish_reason := x\<rparr>) = time_inv t r"
  "time_inv t (r\<lparr>allocation := y\<rparr>) = time_inv t r"
  "time_inv t (r\<lparr>prefilled_token_count := i\<rparr>) = time_inv t r"
  "time_inv t (r\<lparr>recomputed_token_count := i\<rparr>) = time_inv t r"
  "time_inv t (r\<lparr>resuming := b\<rparr>) = time_inv t r"
  "time_inv t (r\<lparr>cached_prefix_tokens := i\<rparr>) = time_inv t r"
  "time_inv t (r\<lparr>cached_next_token_id := z\<rparr>) = time_inv t r"
  by (simp_all add: time_inv_def accounted_until_def cong: option.case_cong)

lemma transition_time:
  assumes inv: "time_inv t r" and le: "t \<le> now" and nxt: "nxt \<noteq> WAITING"
    and run: "req_transition now nxt reason r = Inr r'"
  shows "time_inv now r'"
proof -
  note ts = transition_shape [OF run]
  consider "nxt = PREFILLING" | "nxt = DECODING" | "terminal nxt" using nxt by (cases nxt) auto
  then show ?thesis
  proof cases
    case 1
    then have "state r = WAITING" using ts(3) by (cases "state r") auto
    moreover from run 1 have "r' = enter_prefilling now (r\<lparr>state := PREFILLING\<rparr>)"
      by (simp add: req_transition_def Let_def close_wait_idle preempted_after_prefill split: if_splits)
    ultimately show ?thesis using enter_prefilling_time [OF inv le] by simp
  next
    case 2
    then have p: "state r = PREFILLING" using ts(3) by (cases "state r") auto
    then have "preempted_ns r = None" using inv by (cases "preempted_ns r") (auto simp: time_inv_def)
    with run 2 have "r' = enter_decoding now (r\<lparr>state := DECODING\<rparr>)"
      by (simp add: req_transition_def Let_def close_wait_idle preempted_after_decode split: if_splits)
    with enter_decoding_time [OF inv le p] show ?thesis by simp
  next
    case 3
    with run have "r' = (close_wait now (r\<lparr>state := nxt\<rparr>))\<lparr>finish_reason := reason, allocation := None\<rparr>"
      by (cases nxt) (simp_all add: req_transition_def Let_def split: if_splits)
    with terminal_time [OF inv le 3] show ?thesis by simp
  qed
qed

lemma preempt_time:
  assumes inv: "time_inv t r" and le: "t \<le> now" and run: "req_preempt now reason e r = Inr r'"
  shows "time_inv now r'"
  using run
proof (cases rule: preempt_run)
  case (1 r1)
  have "r1 = r\<lparr>state := WAITING\<rparr>" using 1(1) by (auto simp: req_transition_def Let_def split: if_splits)
  moreover have "accounted_until t r \<le> now" using accounted_le [OF inv] le by simp
  moreover have "\<exists>l. last_token_ns r = Some l \<and> f \<le> l \<and> l \<le> now \<and> stalled_ns r + f \<le> accounted_until t r"
    if "first_token_ns r = Some f" for f
    using inv le that by (fastforce simp: time_inv_def)
  ultimately show ?thesis
    using inv le unfolding 1(3) time_inv_def by (fastforce simp: accounted_until_def [of now])
qed

lemma append_time:
  assumes inv: "time_inv t r" and le: "t \<le> now" and run: "append_token now tok r = Inr r'"
  shows "time_inv now r'" and "\<exists>f. first_token_ns r' = Some f \<and> last_token_ns r' = Some now \<and> stalled_ns r' \<le> now - f"
proof -
  from run have st: "state r = DECODING" by (simp add: append_token_def split: if_splits)
  have "preempted_ns r = None" using inv st by (cases "preempted_ns r") (auto simp: time_inv_def)
  moreover have "resume_started_ns r = None" using inv st by (cases "resume_started_ns r") (auto simp: time_inv_def)
  moreover note inv le run st
  ultimately show "time_inv now r'"
    and "\<exists>f. first_token_ns r' = Some f \<and> last_token_ns r' = Some now \<and> stalled_ns r' \<le> now - f"
    by (auto simp: append_token_def time_inv_def accounted_until_def split: if_splits)
qed

lemma req_apply_time:
  assumes inv: "time_inv t r" and le: "t \<le> now" and run: "req_apply now opn r = Inr r'"
  shows "time_inv now r'"
proof (cases opn)
  case (Admit k nxt)
  let ?r1 = "if k \<noteq> 0 then r\<lparr>prefilled_token_count := k, cached_prefix_tokens := k, cached_next_token_id := nxt\<rparr> else r"
  have "req_transition now PREFILLING None (?r1\<lparr>allocation := Some (request_id ?r1)\<rparr>) = Inr r'"
    using run Admit by (simp add: admit_request_def Let_def split: if_splits)
  moreover have "time_inv t (?r1\<lparr>allocation := Some (request_id ?r1)\<rparr>)" using inv by simp
  ultimately show ?thesis using transition_time [OF _ le] by blast
next
  case (Advance k)
  with run time_inv_mono [OF inv le] show ?thesis
    by (auto simp: advance_prefill_def Let_def split: if_splits)
next
  case (AppendToken tok)
  with run append_time(1) [OF inv le] show ?thesis by simp
next
  case CompleteResumption
  with run time_inv_mono [OF inv le] show ?thesis by (auto simp: complete_resumption_def split: if_splits)
next
  case (Preempt reason e)
  with run preempt_time [OF inv le] show ?thesis by simp
qed (use run transition_time [OF inv le] in auto)

text \<open>A run whose clock readings never go back.\<close>

lemma req_run_time:
  assumes "time_inv t r" and "sorted_wrt (\<le>) (t # map fst cs)"
  shows "time_inv (last (t # map fst cs)) (fold req_exec cs r)"
  using assms
proof (induction cs arbitrary: t r)
  case (Cons c cs)
  have le: "t \<le> fst c" using Cons.prems(2) by simp
  have "time_inv (fst c) (req_exec c r)"
    using req_apply_time [OF Cons.prems(1) le] time_inv_mono [OF Cons.prems(1) le]
    by (auto simp: req_exec_def split: sum.split)
  from Cons.IH [OF this] Cons.prems(2) show ?case by simp
qed simp

section \<open>Properties\<close>

text \<open>
  C17: a request never loses a generated token, never exceeds \<open>max_new_tokens\<close>, holds an
  allocation handle exactly while it is prefilling or decoding, and decodes only with its
  whole prompt prefilled, whatever legal or illegal calls are made on it. What a preempted
  request must rebuild is always a prefix of prompt plus output, never the pending token.
\<close>

theorem request_keeps_its_tokens:
  assumes "post_init (new_request rid cnt mx ids sp t0) = Inr r0" and "r = fold req_exec cs r0"
  shows "(\<forall>c. \<exists>ts. output_token_ids (req_exec c r) = output_token_ids r @ ts) \<and>
    int (length (output_token_ids r)) \<le> mx \<and> prompt_token_ids r = ids \<and>
    (allocation r = (if state r = PREFILLING \<or> state r = DECODING then Some rid else None)) \<and>
    (state r = DECODING \<longrightarrow> cnt \<le> prefilled_token_count r) \<and>
    0 \<le> remaining_prefill_tokens r \<and>
    (\<exists>rest. prompt_token_ids r @ output_token_ids r = prefill_token_ids r @ rest)"
proof -
  have r0: "r0 = new_request rid cnt mx ids sp t0" using assms(1) by (auto simp: post_init_def split: if_splits)
  have inv: "req_inv r" unfolding assms(2) by (rule req_run_inv [OF new_request_inv [OF assms(1)]])
  have const: "request_id r = rid \<and> max_new_tokens r = mx \<and> prompt_token_ids r = ids \<and> prompt_token_count r = cnt"
    unfolding assms(2)
  proof (rule fold_invariant [where P = "\<lambda>r. request_id r = rid \<and> max_new_tokens r = mx \<and> prompt_token_ids r = ids \<and>
      prompt_token_count r = cnt" and Q = "\<lambda>_. True"])
    show "request_id r0 = rid \<and> max_new_tokens r0 = mx \<and> prompt_token_ids r0 = ids \<and> prompt_token_count r0 = cnt"
      by (simp add: r0 new_request_def)
  qed (use req_apply_outputs(2-5) in \<open>auto simp: req_exec_def split: sum.split\<close>)
  have "\<exists>rest. prompt_token_ids r @ output_token_ids r = prefill_token_ids r @ rest"
  proof (cases "resuming r \<and> output_token_ids r \<noteq> []")
    case True
    then have "output_token_ids r = butlast (output_token_ids r) @ [last (output_token_ids r)]" by simp
    with True show ?thesis by (metis append_assoc prefill_token_ids_def)
  qed (auto simp: prefill_token_ids_def)
  moreover have "allocation r = (if state r = PREFILLING \<or> state r = DECODING then Some rid else None)"
    using inv const by (cases "state r") (auto simp: req_inv_def)
  moreover have "\<exists>ts. output_token_ids (req_exec c r) = output_token_ids r @ ts" for c
    using req_run_outputs [of "[c]" r] by simp
  ultimately show ?thesis
    using inv const by (auto simp: req_inv_def remaining_prefill_tokens_def)
qed

definition demo_request :: request where
  "demo_request = new_request ''r'' 2 2 [5, 6] GREEDY 0"

lemma demo_request_ok: "post_init (new_request ''r'' 2 2 [5, 6] GREEDY 0) = Inr demo_request"
  by (simp add: post_init_def demo_request_def new_request_def)

definition demo_run :: "(int \<times> req_op) list" where
  "demo_run = [(1, Admit 0 None), (2, Advance 2), (3, MarkDecoding), (4, AppendToken 9), (5, Preempt ''P'' 0)]"

theorem request_keeps_its_tokens_witness:
  "output_token_ids (fold req_exec demo_run demo_request) = [9] \<and>
   allocation (fold req_exec demo_run demo_request) = None"
proof -
  have "output_token_ids (fold req_exec demo_run demo_request) = [9]" "state (fold req_exec demo_run demo_request) = WAITING"
    by (simp_all add: demo_run_def demo_request_def new_request_def req_exec_def admit_request_def req_transition_def
        enter_prefilling_def enter_decoding_def close_wait_def advance_prefill_def append_token_def req_preempt_def
        remaining_prefill_tokens_def prefill_token_count_def Let_def)
  with request_keeps_its_tokens [OF demo_request_ok refl, of demo_run] show ?thesis by simp
qed

text \<open>
  A terminal state is final: every method of a finished, cancelled, failed or rejected request
  raises, and the scheduler's admission writes end in a transition that raises.
\<close>

lemma terminal_is_final:
  assumes "terminal (state r)"
  shows "\<not> ok (req_apply now opn r)"
proof -
  have "state r \<noteq> PREFILLING" "state r \<noteq> DECODING" "allowed_transitions (state r) = {}"
    using assms by (cases "state r"; simp)+
  then have "\<exists>e. req_apply now opn r = Inl e"
    by (cases opn) (auto simp: admit_request_def advance_prefill_def append_token_def complete_resumption_def
        req_preempt_def req_transition_def Let_def)
  then show ?thesis by auto
qed

text \<open>
  C18: if the clock never goes back, the stall time of a request never exceeds its
  generation time when a token arrives, so the clamp in \<open>decode_time_ms\<close> is never used
  there: generation time is decode time plus stall time.
\<close>

theorem decode_time_plus_stall:
  assumes "post_init (new_request rid cnt mx ids sp t0) = Inr r0"
    and "sorted_wrt (\<le>) (t0 # map fst cs @ [now])"
    and "append_token now tok (fold req_exec cs r0) = Inr r"
  shows "0 \<le> stall_time_ms r \<and>
    (\<exists>wall d. generation_time_ms r = Some wall \<and> decode_time_ms r = Some d \<and> 0 \<le> d \<and> wall = d + stall_time_ms r)"
proof -
  have r0: "r0 = new_request rid cnt mx ids sp t0" using assms(1) by (auto simp: post_init_def split: if_splits)
  then have "time_inv t0 r0" by (simp add: new_request_def time_inv_def)
  moreover have "sorted_wrt (\<le>) (t0 # map fst cs)" using assms(2) by (auto simp: sorted_wrt_append)
  ultimately have inv: "time_inv (last (t0 # map fst cs)) (fold req_exec cs r0)" by (rule req_run_time)
  have "last (t0 # map fst cs) \<in> set (t0 # map fst cs)" by (rule last_in_set) simp
  then have le: "last (t0 # map fst cs) \<le> now" using assms(2) by (auto simp: sorted_wrt_append)
  from append_time [OF inv le assms(3)] obtain f where
    f: "first_token_ns r = Some f" "last_token_ns r = Some now" "stalled_ns r \<le> now - f" and sn: "0 \<le> stalled_ns r"
    by (auto simp: time_inv_def)
  define w where "w = real_of_int (now - f) / 1000000"
  have "stall_time_ms r \<le> w"
    unfolding stall_time_ms_def w_def by (intro divide_right_mono) (use f(3) of_int_le_iff in \<open>blast | simp\<close>)+
  moreover have "generation_time_ms r = Some w"
    using f by (simp add: generation_time_ms_def w_def)
  moreover from calculation have "decode_time_ms r = Some (w - stall_time_ms r)"
    by (simp add: decode_time_ms_def max_def)
  moreover have "0 \<le> stall_time_ms r" using sn by (simp add: stall_time_ms_def)
  ultimately show ?thesis by auto
qed

definition stall_run :: "(int \<times> req_op) list" where
  "stall_run = [(1, Admit 0 None), (2, Advance 2), (3, MarkDecoding), (4, AppendToken 9), (5, Preempt ''P'' 0),
     (7, Admit 0 None), (9, Advance 2), (10, MarkDecoding), (10, CompleteResumption)]"

lemmas run_simps = demo_request_def new_request_def req_exec_def admit_request_def req_transition_def
  enter_prefilling_def enter_decoding_def close_wait_def advance_prefill_def append_token_def req_preempt_def
  complete_resumption_def remaining_prefill_tokens_def prefill_token_count_def Let_def

theorem decode_time_plus_stall_witness:
  "\<exists>r wall d. append_token 12 8 (fold req_exec stall_run demo_request) = Inr r \<and> stalled_ns r = 5 \<and>
     generation_time_ms r = Some wall \<and> decode_time_ms r = Some d \<and> wall = d + stall_time_ms r"
proof -
  obtain r where r: "append_token 12 8 (fold req_exec stall_run demo_request) = Inr r" "stalled_ns r = 5"
    by (simp add: stall_run_def run_simps)
  have "sorted_wrt (\<le>) (0 # map fst stall_run @ [12 :: int])" by (simp add: stall_run_def)
  from decode_time_plus_stall [OF demo_request_ok this r(1)] r show ?thesis by blast
qed

text \<open>
  A preemption during a rebuild drops the time already spent on it. In this run the
  request does not decode between its tokens at 4 and 21, yet of the 15 ns from its
  preemption at 5 to its return at 20 only 7 are reported as stall: the rebuild of 8 ns
  that the second preemption interrupts is charged neither to \<open>stalled_ns\<close>, nor to
  \<open>recompute_ns\<close>, nor to the queue.
\<close>

definition interrupted_run :: "(int \<times> req_op) list" where
  "interrupted_run = [(1, Admit 0 None), (2, Advance 2), (3, MarkDecoding), (4, AppendToken 9), (5, Preempt ''P'' 0),
     (7, Admit 0 None), (15, Preempt ''P'' 0), (16, Admit 0 None), (17, Advance 2), (20, MarkDecoding),
     (20, CompleteResumption), (21, AppendToken 8)]"

theorem interrupted_rebuild_not_charged:
  "let r = fold req_exec interrupted_run demo_request in
     token_timestamps_ns r = [4, 21] \<and> stalled_ns r = 7 \<and> recompute_ns r = 4 \<and> preempted_wait_ns r = 3"
  by (simp add: interrupted_run_def run_simps)

end
