(* ===== verification/Scheduler.thy ===== *)
theory Scheduler
  imports Prefix_Cache Request "HOL-Library.List_Lexorder" "HOL-Library.Char_ord"
begin

text \<open>
  First-come-first-served admission, preemption and prefill planning:
  \<open>FCFSScheduler\<close> of \<open>engine/scheduler/scheduler.py\<close>.

  Every request object is in exactly one of the scheduler's containers, so the
  containers hold the request values: \<open>waiting\<close> is the deque, \<open>active\<close> the dictionary in
  insertion order. A request that leaves is returned to the caller; one that admission
  rejects is only reachable by whoever submitted it and is kept in \<open>dropped\<close>. Each
  request changes state at most once in a call; \<open>clk rid\<close> is the clock reading it sees.
\<close>

section \<open>State\<close>

record sched =
  manager :: kv_manager
  max_waiting_requests :: "int option"
  cache :: "prefix_cache option"
  reserved_blocks :: int
  waiting :: "request list"
  active :: "(string \<times> request) list"
  prefill_order :: "string list"
  rejected_count :: int
  admission_count :: int
  preemption_count :: int
  recomputed_tokens_total :: int
  recompute_ns_total :: int
  progress_epoch :: int
  dropped :: "request list"

definition scheduler_init ::
  "kv_manager \<Rightarrow> int option \<Rightarrow> prefix_cache option \<Rightarrow> int \<Rightarrow> sched result" where
  "scheduler_init m mw pc res =
     (if (case mw of None \<Rightarrow> False | Some k \<Rightarrow> k \<le> 0) then Inl ValueError
      else if \<not> (0 \<le> res \<and> res < int (num_blocks (allocator m))) then Inl ValueError
      else Inr \<lparr>manager = m, max_waiting_requests = mw, cache = pc, reserved_blocks = res,
                waiting = [], active = [], prefill_order = [], rejected_count = 0,
                admission_count = 0, preemption_count = 0, recomputed_tokens_total = 0,
                recompute_ns_total = 0, progress_epoch = 0, dropped = []\<rparr>)"

definition effective_capacity_tokens :: "sched \<Rightarrow> int" where
  "effective_capacity_tokens s =
     (int (num_blocks (allocator (manager s))) - reserved_blocks s) * mgr_block_size (manager s)"

definition advance_progress :: "request \<Rightarrow> sched \<Rightarrow> request \<times> sched" where
  "advance_progress r s =
     (r\<lparr>held_pages_at_exit := True\<rparr>,
      s\<lparr>progress_epoch := progress_epoch s + 1,
        recomputed_tokens_total := recomputed_tokens_total s + recomputed_token_count r,
        recompute_ns_total := recompute_ns_total s + recompute_ns r\<rparr>)"

section \<open>Submission and admission\<close>

definition sched_submit :: "int \<Rightarrow> request \<Rightarrow> sched \<Rightarrow> (bool \<times> request \<times> sched) result" where
  "sched_submit now r s =
     (if state r \<noteq> WAITING then Inl ValueError
      else if map_of (active s) (request_id r) \<noteq> None
              \<or> list_ex (\<lambda>q. request_id q = request_id r) (waiting s) then Inl ValueError
      else if (case max_waiting_requests s of None \<Rightarrow> False | Some k \<Rightarrow> int (length (waiting s)) \<ge> k) then
        and_then (req_transition now REJECTED (Some ''QUEUE_FULL'') r)
          (\<lambda>r'. Inr (False, r', s\<lparr>rejected_count := rejected_count s + 1\<rparr>))
      else Inr (True, r, s\<lparr>waiting := waiting s @ [r]\<rparr>))"

definition lookup_prefix :: "request \<Rightarrow> sched \<Rightarrow> (prefix_match option \<times> sched) result" where
  "lookup_prefix r s =
     (case cache s of
        None \<Rightarrow> Inr (None, s)
      | Some pc \<Rightarrow>
          if prefill_token_ids r = [] then Inr (None, s)
          else and_then (cache_lookup (manager s) (prefill_token_ids r)
                           (can_reuse_cached_prediction (sampling r)) pc)
            (\<lambda>(mt, pc'). Inr (Some mt, s\<lparr>cache := Some pc'\<rparr>)))"

text \<open>Pages for a request at the head of the queue: \<open>None\<close> when the pool cannot give any.\<close>

definition acquire_pages :: "request \<Rightarrow> sched \<Rightarrow> ((int \<times> int option) option \<times> sched) result" where
  "acquire_pages r s =
     and_then (lookup_prefix r s) (\<lambda>(mt, s1).
       case (case mt of None \<Rightarrow> None | Some x \<Rightarrow> if token_count x \<noteq> 0 then Some x else None) of
         Some x \<Rightarrow>
           and_then (attach_prefix (manager s1) (request_id r) (match_block_ids x) (token_count x))
             (\<lambda>(_, m'). Inr (Some (token_count x, match_next_token_id x), s1\<lparr>manager := m'\<rparr>))
       | None \<Rightarrow>
           let initial_tokens = min (prefill_token_count r) (mgr_block_size (manager s1)) in
           and_then (reserve (manager s1) (request_id r) initial_tokens 0) (\<lambda>(a, m1).
             case (a, cache s1) of
               (Some _, _) \<Rightarrow> Inr (Some (0, None), s1\<lparr>manager := m1\<rparr>)
             | (None, None) \<Rightarrow> Inr (None, s1\<lparr>manager := m1\<rparr>)
             | (None, Some pc) \<Rightarrow>
                 and_then (evict_until_free 1 pc m1) (\<lambda>(_, pc2, m2).
                 and_then (reserve m2 (request_id r) initial_tokens 0) (\<lambda>(a', m3).
                   Inr (map_option (\<lambda>_. (0, None)) a', s1\<lparr>manager := m3, cache := Some pc2\<rparr>)))))"

definition over_limit :: "int option \<Rightarrow> sched \<Rightarrow> bool" where
  "over_limit mx s = (case mx of None \<Rightarrow> False | Some k \<Rightarrow> int (length (active s)) \<ge> k)"

definition epoch_gated :: "request \<Rightarrow> sched \<Rightarrow> bool" where
  "epoch_gated r s = (recomputing r \<and> preempted_at_epoch r \<ge> progress_epoch s \<and> active s \<noteq> [])"

function admit_loop ::
  "(string \<Rightarrow> int) \<Rightarrow> int option \<Rightarrow> sched \<Rightarrow> (request list \<times> sched) result" where
  "admit_loop clk mx s =
     (case waiting s of
        [] \<Rightarrow> Inr ([], s)
      | r # rest \<Rightarrow>
          if over_limit mx s then Inr ([], s)
          else if reserved_tokens r > effective_capacity_tokens s then
            and_then (req_transition (clk (request_id r)) REJECTED (Some ''KV_CAPACITY_EXCEEDED'') r)
              (\<lambda>r'. admit_loop clk mx
                 (s\<lparr>waiting := rest, rejected_count := rejected_count s + 1, dropped := dropped s @ [r']\<rparr>))
          else if epoch_gated r s then Inr ([], s)
          else
            and_then (acquire_pages r s) (\<lambda>(got, s1).
              case got of
                None \<Rightarrow> Inr ([], s1)
              | Some (matched, nxt) \<Rightarrow>
                  and_then (admit_request (clk (request_id r)) matched nxt r) (\<lambda>r'.
                  and_then (admit_loop clk mx
                    (s1\<lparr>waiting := rest,
                        active := AList.update (request_id r') r' (active s1),
                        prefill_order := prefill_order s1 @ [request_id r'],
                        admission_count := admission_count s1 + 1\<rparr>))
                    (\<lambda>(more, s2). Inr (r' # more, s2)))))"
  by pat_completeness auto
termination
  by (relation "measure (\<lambda>(clk, mx, s). length (waiting s))") auto

declare admit_loop.simps [simp del]

definition admit_available ::
  "(string \<Rightarrow> int) \<Rightarrow> int option \<Rightarrow> sched \<Rightarrow> (request list \<times> sched) result" where
  "admit_available clk mx s =
     (if (case mx of None \<Rightarrow> False | Some k \<Rightarrow> k \<le> 0) then Inl ValueError else admit_loop clk mx s)"

section \<open>Leaving the active set\<close>

definition pop_active :: "string \<Rightarrow> sched \<Rightarrow> (request \<times> sched) result" where
  "pop_active rid s =
     (case map_of (active s) rid of
        None \<Rightarrow> Inl KeyError
      | Some r \<Rightarrow> Inr (r, s\<lparr>active := AList.delete rid (active s),
                            prefill_order := remove1 rid (prefill_order s)\<rparr>))"

definition release_pages :: "string \<Rightarrow> sched \<Rightarrow> sched result" where
  "release_pages rid s =
     and_then (mgr_release (manager s) rid) (\<lambda>(_, m'). Inr (s\<lparr>manager := m'\<rparr>))"

definition leave ::
  "int \<Rightarrow> request_state \<Rightarrow> string \<Rightarrow> string \<Rightarrow> sched \<Rightarrow> (request \<times> sched) result" where
  "leave now nxt rid reason s =
     and_then (pop_active rid s) (\<lambda>(r, s1).
     and_then (release_pages rid s1) (\<lambda>s2.
     and_then (req_transition now nxt (Some reason) r) (\<lambda>r'. Inr (advance_progress r' s2))))"

definition mark_decoding :: "int \<Rightarrow> string \<Rightarrow> sched \<Rightarrow> (request \<times> sched) result" where
  "mark_decoding now rid s =
     (case map_of (active s) rid of
        None \<Rightarrow> Inl KeyError
      | Some r \<Rightarrow>
          and_then (req_transition now DECODING None r)
            (\<lambda>r'. Inr (r', s\<lparr>active := AList.update rid r' (active s)\<rparr>)))"

definition finish :: "int \<Rightarrow> string \<Rightarrow> string \<Rightarrow> sched \<Rightarrow> (request \<times> sched) result" where
  "finish now rid reason s = leave now FINISHED rid reason s"

definition fail :: "int \<Rightarrow> string \<Rightarrow> string \<Rightarrow> sched \<Rightarrow> (request \<times> sched) result" where
  "fail now rid reason s = leave now FAILED rid reason s"

definition arrival_key :: "request \<Rightarrow> int \<times> string" where
  "arrival_key r = (created_ns r, request_id r)"

definition newest_active :: "sched \<Rightarrow> request option" where
  "newest_active s =
     (case map snd (active s) of
        [] \<Rightarrow> None
      | r # rs \<Rightarrow> Some (greatest_by arrival_key r rs))"

fun requeue_in_arrival_order :: "request \<Rightarrow> request list \<Rightarrow> request list" where
  "requeue_in_arrival_order r [] = [r]"
| "requeue_in_arrival_order r (q # qs) =
     (if arrival_key q > arrival_key r then r # q # qs else q # requeue_in_arrival_order r qs)"

definition preempt :: "int \<Rightarrow> string \<Rightarrow> string \<Rightarrow> sched \<Rightarrow> (request \<times> sched) result" where
  "preempt now rid reason s =
     and_then (pop_active rid s) (\<lambda>(r, s1).
     and_then (release_pages rid s1) (\<lambda>s2.
     and_then (req_preempt now reason (progress_epoch s2) r) (\<lambda>r'.
       Inr (r', s2\<lparr>waiting := requeue_in_arrival_order r' (waiting s2),
                   preemption_count := preemption_count s2 + 1\<rparr>))))"

definition cancel :: "int \<Rightarrow> string \<Rightarrow> string \<Rightarrow> sched \<Rightarrow> (request \<times> sched) result" where
  "cancel now rid reason s =
     (case find (\<lambda>q. request_id q = rid) (waiting s) of
        Some q \<Rightarrow>
          and_then (req_transition now CANCELLED (Some reason) q)
            (\<lambda>q'. Inr (q', s\<lparr>waiting := remove1 q (waiting s)\<rparr>))
      | None \<Rightarrow> leave now CANCELLED rid reason s)"

section \<open>Prefill planning\<close>

text \<open>
  At most \<open>visits\<close> turns: rotate the head of the order, drop it if it is no longer active,
  and give a prefilling request up to one chunk of what is left of the budget.
\<close>

fun plan_loop ::
  "nat \<Rightarrow> int \<Rightarrow> int \<Rightarrow> (string \<times> request) list \<Rightarrow> string list \<Rightarrow> (request \<times> int) list \<times> string list" where
  "plan_loop 0 chunk budget act order = ([], order)"
| "plan_loop (Suc visits) chunk budget act [] = ([], [])"
| "plan_loop (Suc visits) chunk budget act (rid # order) =
     (case map_of act rid of
        None \<Rightarrow> plan_loop visits chunk budget act order
      | Some r \<Rightarrow>
          if state r \<noteq> PREFILLING then plan_loop visits chunk budget act (order @ [rid])
          else
            let cnt = min (min (remaining_prefill_tokens r) chunk) budget;
                budget' = (if cnt \<noteq> 0 then budget - cnt else budget);
                here = (if cnt \<noteq> 0 then [(r, cnt)] else []) in
            if budget' = 0 then (here, order @ [rid])
            else let (plans, order') = plan_loop visits chunk budget' act (order @ [rid]) in (here @ plans, order'))"

definition plan_prefill ::
  "int \<Rightarrow> int \<Rightarrow> sched \<Rightarrow> ((request \<times> int) list \<times> sched) result" where
  "plan_prefill chunk budget s =
     (if chunk \<le> 0 \<or> budget \<le> 0 then Inl ValueError
      else let (plans, order') = plan_loop (length (prefill_order s)) chunk budget (active s) (prefill_order s) in
        Inr (plans, s\<lparr>prefill_order := order'\<rparr>))"

record sched_snapshot =
  ss_waiting_requests :: nat
  ss_active_requests :: nat
  ss_admission_count :: int
  ss_rejected_count :: int
  ss_preemption_count :: int
  ss_progress_epoch :: int
  ss_effective_capacity_tokens :: int
  ss_recomputed_tokens_total :: int
  ss_recompute_ms_total :: real
  ss_head_request_id :: "string option"
  ss_block_manager :: kv_snapshot
  ss_prefix_cache :: "cache_snapshot option"

definition sched_snapshot_of :: "sched \<Rightarrow> sched_snapshot" where
  "sched_snapshot_of s =
     \<lparr>ss_waiting_requests = length (waiting s), ss_active_requests = length (active s),
      ss_admission_count = admission_count s, ss_rejected_count = rejected_count s,
      ss_preemption_count = preemption_count s, ss_progress_epoch = progress_epoch s,
      ss_effective_capacity_tokens = effective_capacity_tokens s,
      ss_recomputed_tokens_total = recomputed_tokens_total s,
      ss_recompute_ms_total = real_of_int (recompute_ns_total s) / 1000000,
      ss_head_request_id = (case waiting s of [] \<Rightarrow> None | r # _ \<Rightarrow> Some (request_id r)),
      ss_block_manager = mgr_snapshot (manager s),
      ss_prefix_cache = map_option cache_snapshot_of (cache s)\<rparr>"

section \<open>The scheduler invariant\<close>

definition pool_good :: "(nat \<Rightarrow> int list) \<Rightarrow> sched \<Rightarrow> bool" where
  "pool_good kv s \<longleftrightarrow> mgr_inv (manager s) \<and> (\<forall>pc. cache s = Some pc \<longrightarrow> cache_good kv pc (manager s))"

text \<open>
  The queue holds waiting requests without pages, the active set prefilling or decoding
  ones with pages; no id occurs twice; the prefill order lists exactly the active ids.
\<close>

definition sched_inv :: "(nat \<Rightarrow> int list) \<Rightarrow> sched \<Rightarrow> bool" where
  "sched_inv kv s \<longleftrightarrow>
     pool_good kv s \<and>
     distinct (map request_id (waiting s)) \<and> distinct (map fst (active s)) \<and>
     set (map request_id (waiting s)) \<inter> set (map fst (active s)) = {} \<and>
     (\<forall>r \<in> set (waiting s). state r = WAITING \<and> req_inv r \<and> requests (manager s) (request_id r) = None) \<and>
     (\<forall>rid r. map_of (active s) rid = Some r \<longrightarrow> request_id r = rid \<and> req_inv r \<and>
        (state r = PREFILLING \<or> state r = DECODING) \<and> requests (manager s) rid \<noteq> None) \<and>
     distinct (prefill_order s) \<and> set (prefill_order s) = set (map fst (active s))"

lemma sched_invI:
  assumes "pool_good kv s" and "distinct (map request_id (waiting s))" and "distinct (map fst (active s))"
    and "set (map request_id (waiting s)) \<inter> set (map fst (active s)) = {}"
    and "\<And>r. r \<in> set (waiting s) \<Longrightarrow> state r = WAITING \<and> req_inv r \<and> requests (manager s) (request_id r) = None"
    and "\<And>rid r. map_of (active s) rid = Some r \<Longrightarrow> request_id r = rid \<and> req_inv r \<and>
        (state r = PREFILLING \<or> state r = DECODING) \<and> requests (manager s) rid \<noteq> None"
    and "distinct (prefill_order s)" and "set (prefill_order s) = set (map fst (active s))"
  shows "sched_inv kv s"
  using assms unfolding sched_inv_def by blast

lemma sched_invD:
  assumes "sched_inv kv s"
  shows "pool_good kv s" and "distinct (map request_id (waiting s))" and "distinct (map fst (active s))"
    and "set (map request_id (waiting s)) \<inter> set (map fst (active s)) = {}"
    and "r \<in> set (waiting s) \<Longrightarrow> state r = WAITING \<and> req_inv r \<and> requests (manager s) (request_id r) = None"
    and "map_of (active s) rid = Some q \<Longrightarrow> request_id q = rid \<and> req_inv q \<and>
        (state q = PREFILLING \<or> state q = DECODING) \<and> requests (manager s) rid \<noteq> None"
    and "distinct (prefill_order s)" and "set (prefill_order s) = set (map fst (active s))"
  using assms unfolding sched_inv_def by blast+

lemma active_id_iff: "map_of al k \<noteq> None \<longleftrightarrow> k \<in> set (map fst al)"
  by (simp add: map_of_eq_None_iff)

lemma pool_good_exec:
  assumes "pool_good kv s" and "\<not> is_cache_call opn"
  shows "pool_good kv (s\<lparr>manager := mgr_exec opn (manager s)\<rparr>)"
  using assms mgr_exec_inv store.manager_step unfolding pool_good_def by auto

lemma pool_good_fields [simp]:
  "pool_good kv (s\<lparr>waiting := a\<rparr>) = pool_good kv s"
  "pool_good kv (s\<lparr>active := b\<rparr>) = pool_good kv s"
  "pool_good kv (s\<lparr>prefill_order := c\<rparr>) = pool_good kv s"
  "pool_good kv (s\<lparr>rejected_count := i\<rparr>) = pool_good kv s"
  "pool_good kv (s\<lparr>admission_count := i\<rparr>) = pool_good kv s"
  "pool_good kv (s\<lparr>preemption_count := i\<rparr>) = pool_good kv s"
  "pool_good kv (s\<lparr>recomputed_tokens_total := i\<rparr>) = pool_good kv s"
  "pool_good kv (s\<lparr>recompute_ns_total := i\<rparr>) = pool_good kv s"
  "pool_good kv (s\<lparr>progress_epoch := i\<rparr>) = pool_good kv s"
  "pool_good kv (s\<lparr>dropped := a\<rparr>) = pool_good kv s"
  by (simp_all add: pool_good_def)

subsection \<open>Removing a request from the active set\<close>

lemma release_pages_ok:
  assumes good: "pool_good kv s" and a: "requests (manager s) rid \<noteq> None"
  obtains m' where "release_pages rid s = Inr (s\<lparr>manager := m'\<rparr>)" and "pool_good kv (s\<lparr>manager := m'\<rparr>)"
    and "requests m' = (requests (manager s))(rid := None)"
    and "num_blocks (allocator m') = num_blocks (allocator (manager s))" and "mgr_block_size m' = mgr_block_size (manager s)"
proof -
  have minv: "mgr_inv (manager s)" using good by (simp add: pool_good_def)
  from a obtain al where al: "requests (manager s) rid = Some al" by blast
  from mgr_release_total [OF minv al] obtain m' where rel: "mgr_release (manager s) rid = Inr (al, m')" ..
  have "m' = mgr_exec (ReleaseRequest rid) (manager s)" using rel by simp
  then have "pool_good kv (s\<lparr>manager := m'\<rparr>)" using pool_good_exec [OF good, of "ReleaseRequest rid"] by simp
  moreover have "requests m' = (requests (manager s))(rid := None)"
    and "num_blocks (allocator m') = num_blocks (allocator (manager s))" and "mgr_block_size m' = mgr_block_size (manager s)"
    using rel by (auto simp: mgr_release_def split: option.splits dest: release_const)
  ultimately show thesis using rel by (intro that [of m']) (simp_all add: release_pages_def)
qed

text \<open>The common part of finishing, failing, cancelling and preempting.\<close>

lemma drop_active_ok:
  assumes inv: "sched_inv kv s" and r: "map_of (active s) rid = Some r"
  obtains m' where "pop_active rid s = Inr (r, s\<lparr>active := AList.delete rid (active s),
                            prefill_order := remove1 rid (prefill_order s)\<rparr>)"
    and "release_pages rid (s\<lparr>active := AList.delete rid (active s), prefill_order := remove1 rid (prefill_order s)\<rparr>)
       = Inr (s\<lparr>active := AList.delete rid (active s), prefill_order := remove1 rid (prefill_order s), manager := m'\<rparr>)"
    and "sched_inv kv (s\<lparr>active := AList.delete rid (active s), prefill_order := remove1 rid (prefill_order s), manager := m'\<rparr>)"
    and "requests m' = (requests (manager s))(rid := None)"
    and "num_blocks (allocator m') = num_blocks (allocator (manager s))" and "mgr_block_size m' = mgr_block_size (manager s)"
proof -
  note d = sched_invD [OF inv]
  let ?s1 = "s\<lparr>active := AList.delete rid (active s), prefill_order := remove1 rid (prefill_order s)\<rparr>"
  have pop: "pop_active rid s = Inr (r, ?s1)" using r by (simp add: pop_active_def)
  have "pool_good kv ?s1" and "requests (manager ?s1) rid \<noteq> None" using d(1) d(6) [OF r] by simp_all
  from release_pages_ok [OF this] obtain m' where rel: "release_pages rid ?s1 = Inr (?s1\<lparr>manager := m'\<rparr>)"
    and good: "pool_good kv (?s1\<lparr>manager := m'\<rparr>)" and rq: "requests m' = (requests (manager s))(rid := None)"
    and const: "num_blocks (allocator m') = num_blocks (allocator (manager s))" "mgr_block_size m' = mgr_block_size (manager s)"
    by auto
  let ?s2 = "?s1\<lparr>manager := m'\<rparr>"
  have keys: "set (map fst (AList.delete rid (active s))) = set (map fst (active s)) - {rid}"
    by (auto simp: delete_keys)
  have "sched_inv kv ?s2"
  proof (rule sched_invI)
    show "pool_good kv ?s2" by (rule good)
    show "distinct (map fst (active ?s2))" using d(3) by (simp add: distinct_delete)
    show "set (map request_id (waiting ?s2)) \<inter> set (map fst (active ?s2)) = {}" using d(4) keys by auto
    show "state q = WAITING \<and> req_inv q \<and> requests (manager ?s2) (request_id q) = None" if "q \<in> set (waiting ?s2)" for q
      using that d(5) rq by auto
    show "request_id q = x \<and> req_inv q \<and> (state q = PREFILLING \<or> state q = DECODING) \<and> requests (manager ?s2) x \<noteq> None"
      if "map_of (active ?s2) x = Some q" for x q
      using that d(6) rq by (auto simp: delete_conv' split: if_splits)
    show "set (prefill_order ?s2) = set (map fst (active ?s2))" using d(7,8) keys by (simp add: set_remove1_eq)
  qed (use d(2,7) in simp_all)
  with pop rel rq const show thesis by (intro that [of m']) simp_all
qed

lemma transition_total:
  assumes "nxt \<in> allowed_transitions (state r)" and "nxt = DECODING \<longrightarrow> remaining_prefill_tokens r = 0"
  shows "\<exists>r'. req_transition now nxt reason r = Inr r'"
  using assms by (simp add: req_transition_def Let_def)

lemma sched_inv_counters [simp]:
  "sched_inv kv (s\<lparr>rejected_count := i\<rparr>) = sched_inv kv s"
  "sched_inv kv (s\<lparr>admission_count := i\<rparr>) = sched_inv kv s"
  "sched_inv kv (s\<lparr>preemption_count := i\<rparr>) = sched_inv kv s"
  "sched_inv kv (s\<lparr>recomputed_tokens_total := i\<rparr>) = sched_inv kv s"
  "sched_inv kv (s\<lparr>recompute_ns_total := i\<rparr>) = sched_inv kv s"
  "sched_inv kv (s\<lparr>progress_epoch := i\<rparr>) = sched_inv kv s"
  "sched_inv kv (s\<lparr>dropped := a\<rparr>) = sched_inv kv s"
  by (simp_all add: sched_inv_def)

lemma leave_ok:
  assumes inv: "sched_inv kv s" and r: "map_of (active s) rid = Some r"
    and nxt: "nxt \<in> allowed_transitions (state r)" "terminal nxt"
  shows "\<exists>r' s'. leave now nxt rid reason s = Inr (r', s') \<and> sched_inv kv s' \<and>
    state r' = nxt \<and> output_token_ids r' = output_token_ids r \<and> request_id r' = rid \<and>
    active s' = AList.delete rid (active s) \<and> waiting s' = waiting s \<and>
    requests (manager s') = (requests (manager s))(rid := None) \<and>
    progress_epoch s' = progress_epoch s + 1 \<and>
    recomputed_tokens_total s' = recomputed_tokens_total s + recomputed_token_count r'"
proof -
  from drop_active_ok [OF inv r] obtain m' where
    d: "pop_active rid s = Inr (r, s\<lparr>active := AList.delete rid (active s), prefill_order := remove1 rid (prefill_order s)\<rparr>)"
      "release_pages rid (s\<lparr>active := AList.delete rid (active s), prefill_order := remove1 rid (prefill_order s)\<rparr>)
       = Inr (s\<lparr>active := AList.delete rid (active s), prefill_order := remove1 rid (prefill_order s), manager := m'\<rparr>)"
      "sched_inv kv (s\<lparr>active := AList.delete rid (active s), prefill_order := remove1 rid (prefill_order s), manager := m'\<rparr>)"
      "requests m' = (requests (manager s))(rid := None)" by blast
  have "nxt \<noteq> DECODING" using nxt(2) by auto
  then obtain r' where t: "req_transition now nxt (Some reason) r = Inr r'" using transition_total [OF nxt(1)] by blast
  note ts = transition_shape [OF t]
  have "request_id r = rid" using sched_invD(6) [OF inv r] by simp
  with d t ts show ?thesis
    by (simp add: leave_def advance_progress_def same_shape_def)
qed

lemma requeue_set: "set (requeue_in_arrival_order r qs) = insert r (set qs)"
  by (induction qs) auto

lemma requeue_mset: "mset (requeue_in_arrival_order r qs) = add_mset r (mset qs)"
  by (induction qs) auto

lemma requeue_sorted:
  "sorted (map arrival_key qs) \<Longrightarrow> sorted (map arrival_key (requeue_in_arrival_order r qs))"
proof (induction qs)
  case (Cons q qs)
  then show ?case
    by (auto simp: requeue_set intro: order_trans less_imp_le)
qed simp

lemma requeue_ids: "mset (map request_id (requeue_in_arrival_order r qs)) = add_mset (request_id r) (mset (map request_id qs))"
  by (metis image_mset_add_mset mset_map requeue_mset)

lemma preempt_total:
  assumes "state r = PREFILLING \<or> state r = DECODING"
  shows "\<exists>r'. req_preempt now reason e r = Inr r' \<and> state r' = WAITING \<and> request_id r' = request_id r \<and>
    created_ns r' = created_ns r \<and> output_token_ids r' = output_token_ids r \<and> recomputing r' \<and> preempted_at_epoch r' = e \<and>
    reserved_tokens r' = reserved_tokens r"
proof -
  have "WAITING \<in> allowed_transitions (state r)" using assms by auto
  then obtain r1 where r1: "req_transition now WAITING (Some reason) r = Inr r1" using transition_total by fastforce
  note ts = transition_shape [OF r1]
  from assms r1 ts show ?thesis by (auto simp: req_preempt_def same_shape_def reserved_tokens_def)
qed

lemma preempt_ok:
  assumes inv: "sched_inv kv s" and r: "map_of (active s) rid = Some r"
  shows "\<exists>r' s'. preempt now rid reason s = Inr (r', s') \<and> sched_inv kv s' \<and>
    request_id r' = rid \<and> created_ns r' = created_ns r \<and> output_token_ids r' = output_token_ids r \<and> state r' = WAITING \<and>
    recomputing r' \<and> preempted_at_epoch r' = progress_epoch s \<and> reserved_tokens r' = reserved_tokens r \<and>
    active s' = AList.delete rid (active s) \<and> waiting s' = requeue_in_arrival_order r' (waiting s) \<and>
    requests (manager s') = (requests (manager s))(rid := None) \<and> progress_epoch s' = progress_epoch s \<and>
    cache s' = cache s \<and> reserved_blocks s' = reserved_blocks s \<and>
    num_blocks (allocator (manager s')) = num_blocks (allocator (manager s)) \<and>
    mgr_block_size (manager s') = mgr_block_size (manager s)"
proof -
  from drop_active_ok [OF inv r] obtain m' where
    d: "pop_active rid s = Inr (r, s\<lparr>active := AList.delete rid (active s), prefill_order := remove1 rid (prefill_order s)\<rparr>)"
      "release_pages rid (s\<lparr>active := AList.delete rid (active s), prefill_order := remove1 rid (prefill_order s)\<rparr>)
       = Inr (s\<lparr>active := AList.delete rid (active s), prefill_order := remove1 rid (prefill_order s), manager := m'\<rparr>)"
    and inv2: "sched_inv kv (s\<lparr>active := AList.delete rid (active s), prefill_order := remove1 rid (prefill_order s), manager := m'\<rparr>)"
      (is "sched_inv kv ?s2")
    and rq: "requests m' = (requests (manager s))(rid := None)"
    and const: "num_blocks (allocator m') = num_blocks (allocator (manager s))" "mgr_block_size m' = mgr_block_size (manager s)"
    by blast
  note rr = sched_invD(6) [OF inv r] and e = sched_invD [OF inv2]
  from preempt_total rr obtain r' where p: "req_preempt now reason (progress_epoch s) r = Inr r'" "state r' = WAITING"
    "request_id r' = rid" "created_ns r' = created_ns r" "output_token_ids r' = output_token_ids r" "recomputing r'"
    "preempted_at_epoch r' = progress_epoch s" "reserved_tokens r' = reserved_tokens r" by blast
  have rinv: "req_inv r'" using preempt_inv [OF _ p(1)] rr by blast
  let ?s3 = "?s2\<lparr>waiting := requeue_in_arrival_order r' (waiting s)\<rparr>"
  have fresh: "rid \<notin> set (map request_id (waiting s))"
    using sched_invD(4) [OF inv] r active_id_iff [of "active s" rid] by auto
  have gone: "rid \<notin> set (map fst (AList.delete rid (active s)))" by (simp add: delete_keys)
  have "sched_inv kv ?s3"
  proof (rule sched_invI)
    have "distinct (request_id r' # map request_id (waiting s))" using sched_invD(2) [OF inv] fresh p(3) by simp
    moreover have "mset (map request_id (waiting ?s3)) = mset (request_id r' # map request_id (waiting s))"
      using requeue_ids [of r' "waiting s"] by simp
    ultimately show "distinct (map request_id (waiting ?s3))" using mset_eq_imp_distinct_iff by blast
    show "pool_good kv ?s3" using e(1) by simp
    show "distinct (map fst (active ?s3))" using e(3) by simp
    show "set (map request_id (waiting ?s3)) \<inter> set (map fst (active ?s3)) = {}"
      using e(4) gone p(3) by (simp add: requeue_set)
    show "state q = WAITING \<and> req_inv q \<and> requests (manager ?s3) (request_id q) = None" if "q \<in> set (waiting ?s3)" for q
    proof (cases "q = r'")
      case True
      with p(2,3) rinv rq show ?thesis by simp
    next
      case False
      with that have "q \<in> set (waiting ?s2)" by (simp add: requeue_set)
      from e(5) [OF this] show ?thesis by simp
    qed
    show "request_id q = x \<and> req_inv q \<and> (state q = PREFILLING \<or> state q = DECODING) \<and> requests (manager ?s3) x \<noteq> None"
      if "map_of (active ?s3) x = Some q" for x q
      using e(6) [of x q] that by simp
    show "distinct (prefill_order ?s3)" using e(7) by simp
    show "set (prefill_order ?s3) = set (map fst (active ?s3))" using e(8) by simp
  qed
  with d p const rq show ?thesis by (simp add: preempt_def)
qed

subsection \<open>The other transitions\<close>

lemma sched_inv_set_active:
  assumes inv: "sched_inv kv s" and r: "map_of (active s) rid = Some r"
    and q: "request_id q = rid" "req_inv q" "state q = PREFILLING \<or> state q = DECODING"
  shows "sched_inv kv (s\<lparr>active := AList.update rid q (active s)\<rparr>)" (is "sched_inv kv ?s")
proof -
  note d = sched_invD [OF inv]
  have "rid \<in> set (map fst (active s))" using active_id_iff [of "active s" rid] r by simp
  then have keys: "map fst (AList.update rid q (active s)) = map fst (active s)" by (simp add: update_keys)
  show ?thesis
  proof (rule sched_invI)
    show "pool_good kv ?s" using d(1) by simp
    show "distinct (map request_id (waiting ?s))" using d(2) by simp
    show "distinct (map fst (active ?s))" using d(3) keys by simp
    show "set (map request_id (waiting ?s)) \<inter> set (map fst (active ?s)) = {}" using d(4) keys by simp
    show "state x = WAITING \<and> req_inv x \<and> requests (manager ?s) (request_id x) = None" if "x \<in> set (waiting ?s)" for x
      using d(5) that by simp
    show "request_id x = i \<and> req_inv x \<and> (state x = PREFILLING \<or> state x = DECODING) \<and> requests (manager ?s) i \<noteq> None"
      if "map_of (active ?s) i = Some x" for i x
      using that d(6) [OF r] d(6) [of i x] q by (simp add: update_conv' split: if_splits)
    show "distinct (prefill_order ?s)" using d(7) by simp
    show "set (prefill_order ?s) = set (map fst (active ?s))" using d(8) keys by simp
  qed
qed

lemma mark_decoding_ok:
  assumes inv: "sched_inv kv s" and r: "map_of (active s) rid = Some r"
    and "state r = PREFILLING" and "remaining_prefill_tokens r = 0"
  shows "\<exists>r'. mark_decoding now rid s = Inr (r', s\<lparr>active := AList.update rid r' (active s)\<rparr>) \<and>
    sched_inv kv (s\<lparr>active := AList.update rid r' (active s)\<rparr>) \<and> state r' = DECODING"
proof -
  note d = sched_invD(6) [OF inv r]
  obtain r' where t: "req_transition now DECODING None r = Inr r'"
    using transition_total [of DECODING r now None] assms(3,4) by auto
  have "sched_inv kv (s\<lparr>active := AList.update rid r' (active s)\<rparr>)"
    using transition_shape [OF t] transition_inv [OF _ t] d by (intro sched_inv_set_active [OF inv r]) (auto simp: same_shape_def)
  with t r transition_shape(2) [OF t] show ?thesis by (simp add: mark_decoding_def)
qed

lemma submit_ok:
  assumes inv: "sched_inv kv s" and r: "state r = WAITING" "req_inv r" "requests (manager s) (request_id r) = None"
    and run: "sched_submit now r s = Inr (accepted, r', s')"
  shows "sched_inv kv s'" and "accepted \<Longrightarrow> waiting s' = waiting s @ [r]" and "\<not> accepted \<Longrightarrow> state r' = REJECTED"
proof -
  note d = sched_invD [OF inv]
  from run consider
    (queued) "accepted" "s' = s\<lparr>waiting := waiting s @ [r]\<rparr>" "map_of (active s) (request_id r) = None"
      "\<not> list_ex (\<lambda>q. request_id q = request_id r) (waiting s)"
    | (full) "\<not> accepted" "s' = s\<lparr>rejected_count := rejected_count s + 1\<rparr>"
      "req_transition now REJECTED (Some ''QUEUE_FULL'') r = Inr r'"
    by (auto simp: sched_submit_def split: if_splits)
  then show "sched_inv kv s'" and "accepted \<Longrightarrow> waiting s' = waiting s @ [r]" and "\<not> accepted \<Longrightarrow> state r' = REJECTED"
  proof (atomize (full), cases)
    case queued
    have "request_id r \<notin> set (map fst (active s))" using queued(3) by (simp add: map_of_eq_None_iff)
    moreover have "request_id r \<notin> set (map request_id (waiting s))" using queued(4) by (auto simp: list_ex_iff)
    ultimately have "sched_inv kv (s\<lparr>waiting := waiting s @ [r]\<rparr>)"
      using d r unfolding sched_inv_def by auto
    with queued show "sched_inv kv s' \<and> (accepted \<longrightarrow> waiting s' = waiting s @ [r]) \<and> (\<not> accepted \<longrightarrow> state r' = REJECTED)"
      by simp
  qed (use inv transition_shape(2) in auto)
qed

lemma cancel_waiting_ok:
  assumes inv: "sched_inv kv s" and q: "find (\<lambda>q. request_id q = rid) (waiting s) = Some q"
  shows "\<exists>q'. cancel now rid reason s = Inr (q', s\<lparr>waiting := remove1 q (waiting s)\<rparr>) \<and> state q' = CANCELLED \<and>
    sched_inv kv (s\<lparr>waiting := remove1 q (waiting s)\<rparr>)"
proof -
  note d = sched_invD [OF inv]
  from q have mem: "q \<in> set (waiting s)" "request_id q = rid" by (auto simp: find_Some_iff)
  then obtain q' where t: "req_transition now CANCELLED (Some reason) q = Inr q'"
    using transition_total [of CANCELLED q] d(5) by fastforce
  have sub: "set (remove1 q (waiting s)) \<subseteq> set (waiting s)" by (rule set_remove1_subset)
  have "distinct (map request_id (remove1 q (waiting s)))"
    using d(2) inj_on_subset [OF _ sub] by (auto simp: distinct_map)
  then have "sched_inv kv (s\<lparr>waiting := remove1 q (waiting s)\<rparr>)"
    using d sub unfolding sched_inv_def by (auto 0 3)
  with q t transition_shape(2) [OF t] show ?thesis by (simp add: cancel_def)
qed

section \<open>Admission\<close>

lemma reserve_effect:
  "reserve m rid c n = Inr (a, m') \<Longrightarrow>
     requests m' = (case a of None \<Rightarrow> requests m | Some x \<Rightarrow> (requests m)(rid \<mapsto> x)) \<and>
     num_blocks (allocator m') = num_blocks (allocator m) \<and> mgr_block_size m' = mgr_block_size m"
  by (cases a) (auto simp: reserve_def Let_def split: if_splits option.splits dest!: allocate_const)

lemma attach_prefix_effect:
  "attach_prefix m rid bs n = Inr (a, m') \<Longrightarrow>
     requests m' = (requests m)(rid \<mapsto> a) \<and>
     num_blocks (allocator m') = num_blocks (allocator m) \<and> mgr_block_size m' = mgr_block_size m"
  by (auto simp: attach_prefix_def Let_def split: if_splits dest: attach_const)

lemma prefill_ids_length:
  "req_inv r \<Longrightarrow> int (length (prefill_token_ids r)) \<le> prefill_token_count r"
  by (auto simp: req_inv_def prefill_token_ids_def prefill_token_count_def of_nat_diff Suc_leI)

text \<open>Looking for pages never raises, and touches only the pool.\<close>

definition pool_changed :: "sched \<Rightarrow> sched \<Rightarrow> bool" where
  "pool_changed s s' \<longleftrightarrow>
     s' = s\<lparr>manager := manager s', cache := cache s'\<rparr> \<and>
     num_blocks (allocator (manager s')) = num_blocks (allocator (manager s)) \<and>
     mgr_block_size (manager s') = mgr_block_size (manager s)"

lemma pool_changedD:
  assumes "pool_changed s s'"
  shows "waiting s' = waiting s" and "active s' = active s" and "prefill_order s' = prefill_order s"
    and "progress_epoch s' = progress_epoch s" and "reserved_blocks s' = reserved_blocks s"
    and "dropped s' = dropped s" and "rejected_count s' = rejected_count s"
    and "effective_capacity_tokens s' = effective_capacity_tokens s"
proof -
  have e: "s' = s\<lparr>manager := manager s', cache := cache s'\<rparr>" using assms by (simp only: pool_changed_def)
  show "waiting s' = waiting s" by (subst e) simp
  show "active s' = active s" by (subst e) simp
  show "prefill_order s' = prefill_order s" by (subst e) simp
  show "progress_epoch s' = progress_epoch s" by (subst e) simp
  show rb: "reserved_blocks s' = reserved_blocks s" by (subst e) simp
  show "dropped s' = dropped s" by (subst e) simp
  show "rejected_count s' = rejected_count s" by (subst e) simp
  show "effective_capacity_tokens s' = effective_capacity_tokens s"
    using assms rb by (simp add: effective_capacity_tokens_def pool_changed_def)
qed

lemma lookup_prefix_ok:
  assumes good: "pool_good kv s" and r: "req_inv r"
  obtains mt pc where "lookup_prefix r s = Inr (mt, s\<lparr>cache := pc\<rparr>)" and "pool_good kv (s\<lparr>cache := pc\<rparr>)"
    and "\<And>x rid. mt = Some x \<Longrightarrow> token_count x \<noteq> 0 \<Longrightarrow> requests (manager s) rid = None \<Longrightarrow> rid \<noteq> [] \<Longrightarrow>
       0 \<le> token_count x \<and> token_count x \<le> prefill_token_count r \<and>
       (\<exists>a m'. attach_prefix (manager s) rid (match_block_ids x) (token_count x) = Inr (a, m') \<and>
          pool_good kv (s\<lparr>cache := pc, manager := m'\<rparr>))"
proof (cases "cache s")
  case None
  with good show thesis by (intro that [of None None]) (simp_all add: lookup_prefix_def pool_good_def)
next
  case (Some c)
  let ?m = "manager s" and ?t = "prefill_token_ids r"
  have g: "cache_good kv c ?m" using good Some by (simp add: pool_good_def)
  show thesis
  proof (cases "?t = []")
    case True
    with Some good show thesis by (intro that [of None "Some c"]) (simp_all add: lookup_prefix_def pool_good_def)
  next
    case False
    from store.lookup_total [OF g] obtain x c' where
      l: "cache_lookup ?m ?t (can_reuse_cached_prediction (sampling r)) c = Inr (x, c')" by blast
    have g': "cache_good kv c' ?m" by (rule store.lookup_good [OF g l])
    have "lookup_prefix r s = Inr (Some x, s\<lparr>cache := Some c'\<rparr>)" using Some False l by (simp add: lookup_prefix_def)
    moreover have "pool_good kv (s\<lparr>cache := Some c'\<rparr>)" using g' store.good_manager by (simp add: pool_good_def)
    moreover have "0 \<le> token_count x \<and> token_count x \<le> prefill_token_count r"
      using store.lookup_range [OF g l] prefill_ids_length [OF r] by linarith
    moreover have "\<exists>a m'. attach_prefix ?m rid (match_block_ids x) (token_count x) = Inr (a, m') \<and>
          pool_good kv (s\<lparr>cache := Some c', manager := m'\<rparr>)"
      if "token_count x \<noteq> 0" "requests ?m rid = None" "rid \<noteq> []" for rid
      using store.hit_attaches [OF g l that] store.good_manager by (fastforce simp: pool_good_def)
    ultimately show thesis by (intro that [of "Some x" "Some c'"]) auto
  qed
qed

lemma acquire_pages_ok:
  assumes good: "pool_good kv s" and r: "req_inv r" and new: "requests (manager s) (request_id r) = None"
  shows "\<exists>got s'. acquire_pages r s = Inr (got, s') \<and> pool_good kv s' \<and> pool_changed s s' \<and>
    (got = None \<longrightarrow> requests (manager s') = requests (manager s)) \<and>
    (\<forall>k nxt. got = Some (k, nxt) \<longrightarrow> 0 \<le> k \<and> k \<le> prefill_token_count r \<and>
       (\<exists>a. requests (manager s') = (requests (manager s))(request_id r \<mapsto> a)))"
proof -
  let ?rid = "request_id r"
  have rid: "?rid \<noteq> []" using r by (simp add: req_inv_def)
  have cnt: "0 \<le> prefill_token_count r" "0 < prefill_token_count r"
    using prefill_count_ge [of r] r by (auto simp: req_inv_def)
  from lookup_prefix_ok [OF good r] obtain mt pc where
    l: "lookup_prefix r s = Inr (mt, s\<lparr>cache := pc\<rparr>)" "pool_good kv (s\<lparr>cache := pc\<rparr>)"
    and hit: "\<And>x rid. mt = Some x \<Longrightarrow> token_count x \<noteq> 0 \<Longrightarrow> requests (manager s) rid = None \<Longrightarrow> rid \<noteq> [] \<Longrightarrow>
       0 \<le> token_count x \<and> token_count x \<le> prefill_token_count r \<and>
       (\<exists>a m'. attach_prefix (manager s) rid (match_block_ids x) (token_count x) = Inr (a, m') \<and>
          pool_good kv (s\<lparr>cache := pc, manager := m'\<rparr>))" by blast
  show ?thesis
  proof (cases "case mt of None \<Rightarrow> None | Some x \<Rightarrow> if token_count x \<noteq> 0 then Some x else None")
    case (Some x)
    then have x: "mt = Some x" "token_count x \<noteq> 0" by (auto split: option.splits if_splits)
    from hit [OF x new rid] obtain a m' where
      h: "0 \<le> token_count x" "token_count x \<le> prefill_token_count r"
        "attach_prefix (manager s) ?rid (match_block_ids x) (token_count x) = Inr (a, m')"
        "pool_good kv (s\<lparr>cache := pc, manager := m'\<rparr>)" by blast
    from attach_prefix_effect [OF h(3)] h l x show ?thesis
      by (auto simp: acquire_pages_def pool_changed_def)
  next
    case None
    let ?init = "min (prefill_token_count r) (mgr_block_size (manager s))"
    have minv: "mgr_inv (manager s)" using l(2) by (simp add: pool_good_def)
    have pos: "0 < ?init" using cnt mgr_invD(4) [OF minv] by simp
    show ?thesis
    proof (cases pc)
      case None2: None
      obtain a m1 where r1: "reserve (manager s) ?rid ?init 0 = Inr (a, m1)"
        using reserve_total [OF minv new rid pos] by blast
      then have "mgr_inv m1" by (rule reserve_inv [OF minv])
      with None None2 l r1 cnt(1) reserve_effect [OF r1] show ?thesis
        by (cases a) (auto simp: acquire_pages_def Let_def pool_changed_def pool_good_def)
    next
      case (Some c)
      have g: "cache_good kv c (manager s)" using l(2) Some by (simp add: pool_good_def)
      from store.reserve_answers [OF g new rid pos] obtain a m1 where
        r1: "reserve (manager s) ?rid ?init 0 = Inr (a, m1)" "cache_good kv c m1" "mgr_inv m1" .
      note e1 = reserve_effect [OF r1(1)]
      show ?thesis
      proof (cases a)
        case (Some x)
        with None l r1 cnt(1) e1 \<open>pc = Some c\<close> show ?thesis
          by (auto simp: acquire_pages_def Let_def pool_changed_def pool_good_def)
      next
        case None3: None
        have new1: "requests m1 ?rid = None" using e1 None3 new by simp
        from store.evict_then_reserve [OF r1(2) new1 rid pos] obtain n c2 m2 a3 m3 where
          ev: "evict_until_free 1 c m1 = Inr (n, c2, m2)" "reserve m2 ?rid ?init 0 = Inr (a3, m3)"
            "cache_good kv c2 m3" "same_pool m1 m2" .
        note e3 = reserve_effect [OF ev(2)]
        have "mgr_inv m3" by (rule store.good_manager [OF ev(3)])
        with None None3 l r1 cnt(1) e1 e3 ev \<open>pc = Some c\<close> show ?thesis
          by (cases a3) (auto simp: acquire_pages_def Let_def pool_changed_def pool_good_def same_pool_def)
      qed
    qed
  qed
qed

lemma admit_request_total:
  assumes "state r = WAITING"
  shows "\<exists>r'. admit_request now k nxt r = Inr r' \<and> state r' = PREFILLING \<and> request_id r' = request_id r"
proof -
  let ?r1 = "if k \<noteq> 0 then r\<lparr>prefilled_token_count := k, cached_prefix_tokens := k, cached_next_token_id := nxt\<rparr> else r"
  have "PREFILLING \<in> allowed_transitions (state (?r1\<lparr>allocation := Some (request_id ?r1)\<rparr>))" using assms by simp
  from transition_total [OF this, of now None] obtain r' where
    t: "req_transition now PREFILLING None (?r1\<lparr>allocation := Some (request_id ?r1)\<rparr>) = Inr r'" by auto
  from t transition_shape(1,2) [OF t] show ?thesis by (auto simp: admit_request_def Let_def same_shape_def split: if_splits)
qed

text \<open>
  One call admits requests strictly in arrival order: what it takes off the queue is a
  prefix of it, split into the requests it rejects as too large and those it admits.
\<close>

definition fits_pool :: "sched \<Rightarrow> request \<Rightarrow> bool" where
  "fits_pool s r \<longleftrightarrow> reserved_tokens r \<le> effective_capacity_tokens s"

lemma activate_inv:
  assumes inv: "sched_inv kv s" and w: "waiting s = r # rest" and s1: "pool_changed s s1" "pool_good kv s1"
    and rq: "requests (manager s1) = (requests (manager s))(request_id r \<mapsto> a)"
    and r': "req_inv r'" "state r' = PREFILLING" "request_id r' = request_id r"
  shows "sched_inv kv (s1\<lparr>waiting := rest, active := AList.update (request_id r') r' (active s1),
     prefill_order := prefill_order s1 @ [request_id r'], admission_count := admission_count s1 + 1\<rparr>)" (is "sched_inv kv ?s")
proof -
  note d = sched_invD [OF inv]
  have same: "waiting s1 = waiting s" "active s1 = active s" "prefill_order s1 = prefill_order s"
    using pool_changedD [OF s1(1)] by simp_all
  have fresh: "request_id r \<notin> set (map fst (active s))" "request_id r \<notin> set (map request_id rest)"
    using d(2,4) w by auto
  have keys: "map fst (AList.update (request_id r') r' (active s)) = map fst (active s) @ [request_id r]"
    using fresh r'(3) by (simp add: update_keys)
  show ?thesis
  proof (rule sched_invI)
    show "pool_good kv ?s" using s1(2) by simp
    show "distinct (map request_id (waiting ?s))" using d(2) w by simp
    show "distinct (map fst (active ?s))" using d(3) keys fresh same by simp
    show "set (map request_id (waiting ?s)) \<inter> set (map fst (active ?s)) = {}"
      using d(4) keys fresh same w by auto
    show "state q = WAITING \<and> req_inv q \<and> requests (manager ?s) (request_id q) = None" if "q \<in> set (waiting ?s)" for q
    proof -
      have q: "q \<in> set rest" using that by simp
      then have "request_id q \<in> set (map request_id rest)" by simp
      with fresh(2) have "request_id q \<noteq> request_id r" by metis
      with q d(5) [of q] w rq show ?thesis by simp
    qed
    show "request_id q = x \<and> req_inv q \<and> (state q = PREFILLING \<or> state q = DECODING) \<and> requests (manager ?s) x \<noteq> None"
      if "map_of (active ?s) x = Some q" for x q
      using that d(6) [of x q] r' rq same by (auto simp: update_conv' split: if_splits)
    show "distinct (prefill_order ?s)" using d(7,8) same fresh r'(3) by simp
    show "set (prefill_order ?s) = set (map fst (active ?s))" using d(8) same keys r'(3) by simp
  qed
qed

lemma reject_head_inv:
  assumes inv: "sched_inv kv s" and w: "waiting s = r # rest"
  shows "sched_inv kv (s\<lparr>waiting := rest, rejected_count := i, dropped := ds\<rparr>)"
  using assms unfolding sched_inv_def by auto

lemma admit_loop_run:
  assumes "sched_inv kv s"
  shows "\<exists>adm s' k. admit_loop clk mx s = Inr (adm, s') \<and> sched_inv kv s' \<and>
    k \<le> length (waiting s) \<and> waiting s' = drop k (waiting s) \<and>
    map request_id adm = map request_id (filter (fits_pool s) (take k (waiting s))) \<and>
    map request_id (dropped s') = map request_id (dropped s) @
      map request_id (filter (\<lambda>r. \<not> fits_pool s r) (take k (waiting s))) \<and>
    map fst (active s') = map fst (active s) @ map request_id adm \<and>
    (\<forall>r \<in> set adm. state r = PREFILLING) \<and> progress_epoch s' = progress_epoch s"
  using assms
proof (induction clk mx s rule: admit_loop.induct)
  case (1 clk mx s)
  note d = sched_invD [OF 1(3)]
  have stop: "?case" if "admit_loop clk mx s = Inr ([], s)"
    using that 1(3) by (intro exI [of _ "[]"] exI [of _ s] exI [of _ 0]) simp
  show ?case
  proof (cases "waiting s")
    case Nil
    then show ?thesis using stop by (simp add: admit_loop.simps [of clk mx s])
  next
    case (Cons r rest)
    note w = d(5) [of r] and eq = admit_loop.simps [of clk mx s]
    have r: "state r = WAITING" "req_inv r" "requests (manager s) (request_id r) = None" using w Cons by auto
    show ?thesis
    proof (cases "over_limit mx s")
      case True
      then show ?thesis using stop Cons by (simp add: eq)
    next
      case live: False
      show ?thesis
      proof (cases "reserved_tokens r > effective_capacity_tokens s")
        case True
        obtain r' where t: "req_transition (clk (request_id r)) REJECTED (Some ''KV_CAPACITY_EXCEEDED'') r = Inr r'"
          using transition_total [of REJECTED r] r(1) by fastforce
        let ?s1 = "s\<lparr>waiting := rest, rejected_count := rejected_count s + 1, dropped := dropped s @ [r']\<rparr>"
        have id: "request_id r' = request_id r" using transition_shape(1) [OF t] by (simp add: same_shape_def)
        have cap: "fits_pool ?s1 = fits_pool s" by (auto simp: fits_pool_def effective_capacity_tokens_def)
        have step: "admit_loop clk mx s = admit_loop clk mx ?s1" using Cons live True t by (simp add: eq)
        from 1(1) [OF Cons live True t reject_head_inv [OF 1(3) Cons]] obtain adm s' k where
          ih: "admit_loop clk mx ?s1 = Inr (adm, s')" "sched_inv kv s'" "k \<le> length rest" "waiting s' = drop k rest"
            "map request_id adm = map request_id (filter (fits_pool s) (take k rest))"
            "map request_id (dropped s') = map request_id (dropped ?s1) @ map request_id (filter (\<lambda>r. \<not> fits_pool s r) (take k rest))"
            "map fst (active s') = map fst (active s) @ map request_id adm"
            "\<forall>r \<in> set adm. state r = PREFILLING" "progress_epoch s' = progress_epoch s"
          unfolding cap [symmetric] by auto
        have "\<not> fits_pool s r" using True by (simp add: fits_pool_def)
        with ih step id Cons show ?thesis
          by (intro exI [of _ adm] exI [of _ s'] exI [of _ "Suc k"]) simp
      next
        case fits: False
        show ?thesis
        proof (cases "epoch_gated r s")
          case True
          then show ?thesis using stop Cons live fits by (simp add: eq)
        next
          case open_gate: False
          from acquire_pages_ok [OF d(1) r(2,3)] obtain got s1 where
            a: "acquire_pages r s = Inr (got, s1)" "pool_good kv s1" "pool_changed s s1"
              "got = None \<longrightarrow> requests (manager s1) = requests (manager s)"
              "\<forall>k nxt. got = Some (k, nxt) \<longrightarrow> 0 \<le> k \<and> k \<le> prefill_token_count r \<and>
                 (\<exists>a. requests (manager s1) = (requests (manager s))(request_id r \<mapsto> a))" by blast
          note same = pool_changedD [OF a(3)]
          show ?thesis
          proof (cases got)
            case None
            have "sched_inv kv s1"
              using 1(3) a(2,4) None same unfolding sched_inv_def by simp
            with None a(1) same Cons live fits open_gate show ?thesis
              by (intro exI [of _ "[]"] exI [of _ s1] exI [of _ 0]) (simp add: eq)
          next
            case (Some p)
            obtain m nxt where p: "p = (m, nxt)" by fastforce
            from a(5) Some p obtain al where m: "0 \<le> m" "m \<le> prefill_token_count r"
              "requests (manager s1) = (requests (manager s))(request_id r \<mapsto> al)" by blast
            from admit_request_total [OF r(1)] obtain r' where
              adr: "admit_request (clk (request_id r)) m nxt r = Inr r'" "state r' = PREFILLING" "request_id r' = request_id r"
              by blast
            let ?s2 = "s1\<lparr>waiting := rest, active := AList.update (request_id r') r' (active s1),
                 prefill_order := prefill_order s1 @ [request_id r'], admission_count := admission_count s1 + 1\<rparr>"
            have inv2: "sched_inv kv ?s2"
              by (rule activate_inv [OF 1(3) Cons a(3,2) m(3) admit_inv [OF r(2) m(1,2) adr(1)] adr(2,3)])
            have cap: "fits_pool ?s2 = fits_pool s" using same by (auto simp: fits_pool_def effective_capacity_tokens_def)
            have fresh: "request_id r \<notin> set (map fst (active s))" using d(4) Cons by auto
            then have keys: "map fst (active ?s2) = map fst (active s) @ [request_id r]"
              using same(2) adr(3) by (simp add: update_keys)
            from 1(2) [OF Cons live fits open_gate a(1) refl Some p [symmetric] adr(1) inv2, unfolded cap]
            obtain adm s' k where
              ih: "admit_loop clk mx ?s2 = Inr (adm, s')" "sched_inv kv s'" "k \<le> length rest" "waiting s' = drop k rest"
                "map request_id adm = map request_id (filter (fits_pool s) (take k rest))"
                "map request_id (dropped s') = map request_id (dropped s) @ map request_id (filter (\<lambda>r. \<not> fits_pool s r) (take k rest))"
                "map fst (active s') = map fst (active ?s2) @ map request_id adm"
                "\<forall>r \<in> set adm. state r = PREFILLING" "progress_epoch s' = progress_epoch s"
              by (auto simp: same)
            have "admit_loop clk mx s = Inr (r' # adm, s')"
              using Cons live fits open_gate a(1) Some p adr(1) ih(1) by (simp add: eq)
            moreover have "fits_pool s r" using fits by (simp add: fits_pool_def)
            ultimately show ?thesis
              using ih keys adr(2,3) Cons by (intro exI [of _ "r' # adm"] exI [of _ s'] exI [of _ "Suc k"]) simp
          qed
        qed
      qed
    qed
  qed
qed

text \<open>
  A yielded request stays parked while anything is active and nothing has ended since.
\<close>

lemma gated_stays:
  assumes "sched_inv kv s" and "r \<in> set (waiting s)" and "recomputing r" and "progress_epoch s \<le> preempted_at_epoch r"
    and "active s \<noteq> []" and "fits_pool s r" and "admit_loop clk mx s = Inr (adm, s')"
  shows "r \<in> set (waiting s')"
  using assms
proof (induction clk mx s arbitrary: adm s' rule: admit_loop.induct)
  case (1 clk mx s)
  note d = sched_invD [OF 1(3)] and eq = admit_loop.simps [of clk mx s]
  show ?case
  proof (cases "waiting s")
    case Nil
    with 1(4) show ?thesis by simp
  next
    case (Cons h rest)
    have h: "state h = WAITING" "req_inv h" "requests (manager s) (request_id h) = None" using d(5) [of h] Cons by auto
    show ?thesis
    proof (cases "over_limit mx s")
      case True
      with 1(4,9) Cons show ?thesis by (simp add: eq)
    next
      case live: False
      show ?thesis
      proof (cases "reserved_tokens h > effective_capacity_tokens s")
        case True
        with 1(8) have "r \<noteq> h" by (auto simp: fits_pool_def)
        with 1(4) Cons have mem: "r \<in> set rest" by simp
        obtain h' where t: "req_transition (clk (request_id h)) REJECTED (Some ''KV_CAPACITY_EXCEEDED'') h = Inr h'"
          using transition_total [of REJECTED h] h(1) by fastforce
        have "admit_loop clk mx (s\<lparr>waiting := rest, rejected_count := rejected_count s + 1, dropped := dropped s @ [h']\<rparr>)
            = Inr (adm, s')"
          using 1(9) Cons live True t by (simp add: eq)
        from 1(1) [OF Cons live True t reject_head_inv [OF 1(3) Cons] _ 1(5) _ _ _ this] mem 1(6-8)
        show ?thesis by (simp add: fits_pool_def effective_capacity_tokens_def)
      next
        case fits: False
        show ?thesis
        proof (cases "epoch_gated h s")
          case True
          with 1(4,9) Cons live fits show ?thesis by (simp add: eq)
        next
          case open_gate: False
          then have "r \<noteq> h" using 1(5-7) by (auto simp: epoch_gated_def)
          with 1(4) Cons have mem: "r \<in> set rest" by simp
          from acquire_pages_ok [OF d(1) h(2,3)] obtain got s1 where
            a: "acquire_pages h s = Inr (got, s1)" "pool_good kv s1" "pool_changed s s1"
              "\<forall>k nxt. got = Some (k, nxt) \<longrightarrow> 0 \<le> k \<and> k \<le> prefill_token_count h \<and>
                 (\<exists>a. requests (manager s1) = (requests (manager s))(request_id h \<mapsto> a))" by blast
          note same = pool_changedD [OF a(3)]
          show ?thesis
          proof (cases got)
            case None
            with 1(9) a(1) Cons live fits open_gate have "s' = s1" by (simp add: eq)
            with same(1) 1(4) show ?thesis by simp
          next
            case (Some p)
            obtain m nxt where p: "p = (m, nxt)" by fastforce
            from a(4) Some p obtain al where m: "0 \<le> m" "m \<le> prefill_token_count h"
              "requests (manager s1) = (requests (manager s))(request_id h \<mapsto> al)" by blast
            from admit_request_total [OF h(1)] obtain h' where
              adr: "admit_request (clk (request_id h)) m nxt h = Inr h'" "state h' = PREFILLING" "request_id h' = request_id h"
              by blast
            let ?s2 = "s1\<lparr>waiting := rest, active := AList.update (request_id h') h' (active s1),
                 prefill_order := prefill_order s1 @ [request_id h'], admission_count := admission_count s1 + 1\<rparr>"
            have inv2: "sched_inv kv ?s2"
              by (rule activate_inv [OF 1(3) Cons a(3,2) m(3) admit_inv [OF h(2) m(1,2) adr(1)] adr(2,3)])
            from 1(9) a(1) Cons live fits open_gate Some p adr(1) obtain more where
              rec: "admit_loop clk mx ?s2 = Inr (more, s')" by (auto simp: eq)
            have "request_id h' \<in> set (map fst (active ?s2))" by (simp add: update_keys)
            then have "active ?s2 \<noteq> []" by force
            with 1(2) [OF Cons live fits open_gate a(1) refl Some p [symmetric] adr(1) inv2 _ 1(5) _ _ _ rec] mem 1(6,8) same
            show ?thesis by (simp add: fits_pool_def effective_capacity_tokens_def)
          qed
        qed
      qed
    qed
  qed
qed

section \<open>Planning\<close>

definition plannable :: "(string \<times> request) list \<Rightarrow> string \<Rightarrow> bool" where
  "plannable act rid \<longleftrightarrow>
     (\<exists>r. map_of act rid = Some r \<and> state r = PREFILLING \<and> 0 < remaining_prefill_tokens r)"

lemma plan_loop_run:
  assumes "n \<le> length order" and "\<forall>x \<in> set order. map_of act x \<noteq> None" and "0 < budget" and "0 < chunk"
    and "\<forall>x r. map_of act x = Some r \<longrightarrow> 0 \<le> remaining_prefill_tokens r"
  shows "\<exists>k plans. plan_loop n chunk budget act order = (plans, drop k order @ take k order) \<and> k \<le> n \<and>
    (k < n \<longrightarrow> sum_list (map snd plans) = budget) \<and> sum_list (map snd plans) \<le> budget \<and>
    map fst plans = map (\<lambda>x. the (map_of act x)) (filter (plannable act) (take k order)) \<and>
    (\<forall>(r, c) \<in> set plans. 0 < c \<and> c \<le> chunk \<and> c \<le> remaining_prefill_tokens r)"
  using assms
proof (induction n arbitrary: order budget)
  case 0
  then show ?case by (intro exI [of _ 0]) simp
next
  case (Suc n)
  then obtain rid tl where o: "order = rid # tl" by (cases order) auto
  with Suc.prems obtain r where r: "map_of act rid = Some r" by auto
  have len: "n \<le> length (tl @ [rid])" "n \<le> length tl" using Suc.prems(1) o by simp_all
  have tot: "\<forall>x \<in> set (tl @ [rid]). map_of act x \<noteq> None" using Suc.prems(2) o by auto
  have rot: "drop k (tl @ [rid]) @ take k (tl @ [rid]) = drop (Suc k) order @ take (Suc k) order"
    and tk: "take k (tl @ [rid]) = take k tl" if "k \<le> n" for k
    using that len o by simp_all
  show ?case
  proof (cases "state r = PREFILLING")
    case False
    then have np: "\<not> plannable act rid" using r by (simp add: plannable_def)
    from Suc.IH [OF len(1) tot Suc.prems(3-5)] obtain k plans where
      ih: "plan_loop n chunk budget act (tl @ [rid]) = (plans, drop k (tl @ [rid]) @ take k (tl @ [rid]))" "k \<le> n"
        "k < n \<longrightarrow> sum_list (map snd plans) = budget" "sum_list (map snd plans) \<le> budget"
        "map fst plans = map (\<lambda>x. the (map_of act x)) (filter (plannable act) (take k (tl @ [rid])))"
        "\<forall>(r, c) \<in> set plans. 0 < c \<and> c \<le> chunk \<and> c \<le> remaining_prefill_tokens r" by blast
    with False r np o rot [OF ih(2)] tk [OF ih(2)] show ?thesis
      by (intro exI [of _ "Suc k"] exI [of _ plans]) simp
  next
    case True
    define c where "c = min (min (remaining_prefill_tokens r) chunk) budget"
    have rem: "0 \<le> remaining_prefill_tokens r" using Suc.prems(5) r by blast
    have pl: "plannable act rid \<longleftrightarrow> c \<noteq> 0" "0 \<le> c" "c \<le> budget" "c \<le> chunk" "c \<le> remaining_prefill_tokens r"
      using True r rem Suc.prems(3,4) by (auto simp: plannable_def c_def)
    show ?thesis
    proof (cases "c = budget")
      case full: True
      then have "plan_loop (Suc n) chunk budget act order = ([(r, c)], tl @ [rid])"
        using True r o Suc.prems(3) by (simp add: c_def [symmetric] Let_def)
      moreover have "plannable act rid" using pl(1) full Suc.prems(3) by simp
      ultimately show ?thesis
        using full pl o r Suc.prems(3) by (intro exI [of _ 1] exI [of _ "[(r, c)]"]) simp
    next
      case part: False
      let ?b = "budget - c" and ?here = "if c \<noteq> 0 then [(r, c)] else []"
      have b: "0 < ?b" using part pl(3) by simp
      from Suc.IH [OF len(1) tot b Suc.prems(4,5)] obtain k plans where
        ih: "plan_loop n chunk ?b act (tl @ [rid]) = (plans, drop k (tl @ [rid]) @ take k (tl @ [rid]))" "k \<le> n"
          "k < n \<longrightarrow> sum_list (map snd plans) = ?b" "sum_list (map snd plans) \<le> ?b"
          "map fst plans = map (\<lambda>x. the (map_of act x)) (filter (plannable act) (take k (tl @ [rid])))"
          "\<forall>(r, c) \<in> set plans. 0 < c \<and> c \<le> chunk \<and> c \<le> remaining_prefill_tokens r" by blast
      have "plan_loop (Suc n) chunk budget act order = (?here @ plans, drop k (tl @ [rid]) @ take k (tl @ [rid]))"
        using True r o part b ih(1) by (cases "c = 0") (simp_all add: c_def [symmetric] Let_def)
      with ih pl o r rot [OF ih(2)] tk [OF ih(2)] show ?thesis
        by (intro exI [of _ "Suc k"] exI [of _ "?here @ plans"]) (auto simp: c_def [symmetric])
    qed
  qed
qed

end
