(* ===== verification/Scheduling.thy ===== *)
theory Scheduling
  imports Scheduler
begin

text \<open>
  The scheduler of \<open>engine/scheduler/scheduler.py\<close> among the other steps of an engine: the
  reachable worlds, and what admission, preemption and prefill planning promise in them.
\<close>

section \<open>The scheduler in a running engine\<close>

text \<open>
  Steps of a world made of the scheduler and the contents of the KV blocks: the
  scheduler's own operations, what the engine does to an active request, and what it does
  to the pool without adding or dropping a request's table.
\<close>

type_synonym sched_world = "sched \<times> (nat \<Rightarrow> int list)"

inductive sched_step :: "sched_world \<Rightarrow> sched_world \<Rightarrow> bool" where
  ss_submit: "post_init (new_request rid cnt mx ids sp born) = Inr r \<Longrightarrow> requests (manager s) rid = None \<Longrightarrow>
    sched_submit now r s = Inr (b, r', s') \<Longrightarrow> sched_step (s, kv) (s', kv)"
| ss_admit: "admit_available clk mx s = Inr (adm, s') \<Longrightarrow> sched_step (s, kv) (s', kv)"
| ss_mark: "mark_decoding now rid s = Inr (r, s') \<Longrightarrow> sched_step (s, kv) (s', kv)"
| ss_finish: "finish now rid reason s = Inr (r, s') \<Longrightarrow> sched_step (s, kv) (s', kv)"
| ss_fail: "fail now rid reason s = Inr (r, s') \<Longrightarrow> sched_step (s, kv) (s', kv)"
| ss_cancel: "cancel now rid reason s = Inr (r, s') \<Longrightarrow> sched_step (s, kv) (s', kv)"
| ss_preempt: "preempt now rid reason s = Inr (r, s') \<Longrightarrow> sched_step (s, kv) (s', kv)"
| ss_plan: "plan_prefill chunk budget s = Inr (plans, s') \<Longrightarrow> sched_step (s, kv) (s', kv)"
| ss_advance: "map_of (active s) rid = Some r \<Longrightarrow> advance_prefill k r = Inr q \<Longrightarrow>
    sched_step (s, kv) (s\<lparr>active := AList.update rid q (active s)\<rparr>, kv)"
| ss_token: "map_of (active s) rid = Some r \<Longrightarrow> append_token now t r = Inr q \<Longrightarrow>
    sched_step (s, kv) (s\<lparr>active := AList.update rid q (active s)\<rparr>, kv)"
| ss_resumed: "map_of (active s) rid = Some r \<Longrightarrow> complete_resumption r = Inr q \<Longrightarrow>
    sched_step (s, kv) (s\<lparr>active := AList.update rid q (active s)\<rparr>, kv)"
| ss_pool: "cache s = Some pc \<Longrightarrow> cache_step (pc, manager s, kv) (pc', m', kv') \<Longrightarrow>
    dom (requests m') = dom (requests (manager s)) \<Longrightarrow>
    sched_step (s, kv) (s\<lparr>manager := m', cache := Some pc'\<rparr>, kv')"

text \<open>A start: a fresh pool, some permanent reservations, an empty cache, an empty scheduler.\<close>

inductive sched_reachable :: "string set \<Rightarrow> sched_world \<Rightarrow> bool" for D where
  sched_start: "kv_manager_init n bs = Inr m0 \<Longrightarrow> \<forall>opn \<in> set pre. \<not> is_cache_call opn \<Longrightarrow>
    m = fold mgr_exec pre m0 \<Longrightarrow> D = dom (requests m) \<Longrightarrow> prefix_cache_init k = Inr pc \<Longrightarrow>
    scheduler_init m mw (Some pc) res = Inr s \<Longrightarrow> sched_reachable D (s, kv)"
| sched_next: "sched_reachable D w \<Longrightarrow> sched_step w w' \<Longrightarrow> sched_reachable D w'"

definition pages_inv :: "string set \<Rightarrow> sched \<Rightarrow> bool" where
  "pages_inv D s \<longleftrightarrow> dom (requests (manager s)) = D \<union> set (map fst (active s)) \<and> D \<inter> set (map fst (active s)) = {}"

text \<open>
  A property that a rejection, a failed attempt at pages and an activation each keep is kept
  by the whole admission loop. The first rule says what each of them did, the second what
  that leaves of the pool.
\<close>

abbreviation rejected_head :: "request list \<Rightarrow> request \<Rightarrow> sched \<Rightarrow> sched" where
  "rejected_head rest h' s \<equiv> s\<lparr>waiting := rest, rejected_count := rejected_count s + 1, dropped := dropped s @ [h']\<rparr>"

abbreviation activated :: "request list \<Rightarrow> request \<Rightarrow> sched \<Rightarrow> sched" where
  "activated rest h' s1 \<equiv> s1\<lparr>waiting := rest, active := AList.update (request_id h') h' (active s1),
     prefill_order := prefill_order s1 @ [request_id h'], admission_count := admission_count s1 + 1\<rparr>"

lemma admit_loop_steps:
  assumes "sched_inv kv s" and "admit_loop clk mx s = Inr (adm, s')" and "P s"
    and reject: "\<And>s h rest h' now. sched_inv kv s \<Longrightarrow> P s \<Longrightarrow> waiting s = h # rest \<Longrightarrow>
      req_transition now REJECTED (Some ''KV_CAPACITY_EXCEEDED'') h = Inr h' \<Longrightarrow> P (rejected_head rest h' s)"
    and stall: "\<And>s s1 h rest. sched_inv kv s \<Longrightarrow> P s \<Longrightarrow> waiting s = h # rest \<Longrightarrow> acquire_pages h s = Inr (None, s1) \<Longrightarrow> P s1"
    and activate: "\<And>s s1 h rest h' m nxt now. sched_inv kv s \<Longrightarrow> P s \<Longrightarrow> waiting s = h # rest \<Longrightarrow> \<not> over_limit mx s \<Longrightarrow>
      acquire_pages h s = Inr (Some (m, nxt), s1) \<Longrightarrow> admit_request now m nxt h = Inr h' \<Longrightarrow> P (activated rest h' s1)"
  shows "P s'"
  using assms(1-3) activate
proof (induction clk mx s arbitrary: adm s' rule: admit_loop.induct)
  case (1 clk mx s)
  note d = sched_invD [OF 1(3)] and activate = 1(6) and eq = admit_loop.simps [of clk mx s]
  show ?case
  proof (cases "waiting s")
    case Nil
    with 1(4,5) show ?thesis by (simp add: eq)
  next
    case (Cons h rest)
    have h: "state h = WAITING" "req_inv h" "requests (manager s) (request_id h) = None" using d(5) [of h] Cons by auto
    show ?thesis
    proof (cases "over_limit mx s \<or> effective_capacity_tokens s \<ge> reserved_tokens h \<and> epoch_gated h s")
      case True
      with 1(4,5) Cons show ?thesis by (auto simp: eq split: if_splits)
    next
      case live: False
      then have live': "\<not> over_limit mx s" by simp
      show ?thesis
      proof (cases "reserved_tokens h > effective_capacity_tokens s")
        case True
        obtain h' where t: "req_transition (clk (request_id h)) REJECTED (Some ''KV_CAPACITY_EXCEEDED'') h = Inr h'"
          using transition_total [of REJECTED h] h(1) by fastforce
        have "admit_loop clk mx (rejected_head rest h' s) = Inr (adm, s')" using 1(4) Cons live' True t by (simp add: eq)
        with 1(1) [OF Cons live' True t reject_head_inv [OF 1(3) Cons]] reject [OF 1(3,5) Cons t] activate show ?thesis by blast
      next
        case fits: False
        then have open_gate: "\<not> epoch_gated h s" using live by auto
        from acquire_pages_ok [OF d(1) h(2,3)] obtain got s1 where
          a: "acquire_pages h s = Inr (got, s1)" "pool_good kv s1" "pool_changed s s1"
            "\<forall>k nxt. got = Some (k, nxt) \<longrightarrow> 0 \<le> k \<and> k \<le> prefill_token_count h \<and>
               (\<exists>a. requests (manager s1) = (requests (manager s))(request_id h \<mapsto> a))" by blast
        show ?thesis
        proof (cases got)
          case None
          with 1(4) a(1) Cons live' fits open_gate have "s' = s1" by (simp add: eq)
          with stall [OF 1(3,5) Cons] a(1) None show ?thesis by simp
        next
          case (Some p)
          obtain m nxt where p: "p = (m, nxt)" by fastforce
          from a(4) Some p obtain al where m: "0 \<le> m" "m \<le> prefill_token_count h"
            "requests (manager s1) = (requests (manager s))(request_id h \<mapsto> al)" by blast
          from admit_request_total [OF h(1)] obtain h' where
            adr: "admit_request (clk (request_id h)) m nxt h = Inr h'" "state h' = PREFILLING" "request_id h' = request_id h"
            by blast
          have inv2: "sched_inv kv (activated rest h' s1)"
            by (rule activate_inv [OF 1(3) Cons a(3,2) m(3) admit_inv [OF h(2) m(1,2) adr(1)] adr(2,3)])
          have P2: "P (activated rest h' s1)"
            by (rule activate [OF 1(3,5) Cons live' _ adr(1)]) (use a(1) Some p in simp)
          obtain more where more: "admit_loop clk mx (activated rest h' s1) = Inr (more, s')"
            using 1(4) a(1) Cons live' fits open_gate Some p adr(1) by (auto simp: eq)
          show ?thesis
            using 1(2) [OF Cons live' fits open_gate a(1) refl Some p [symmetric] adr(1) inv2 more P2 activate] .
        qed
      qed
    qed
  qed
qed

lemma admit_loop_rule:
  assumes inv: "sched_inv kv s" and run: "admit_loop clk mx s = Inr (adm, s')" and P: "P s"
    and reject: "\<And>s h rest h'. P s \<Longrightarrow> waiting s = h # rest \<Longrightarrow> P (rejected_head rest h' s)"
    and stall: "\<And>s s1. P s \<Longrightarrow> pool_changed s s1 \<Longrightarrow> requests (manager s1) = requests (manager s) \<Longrightarrow> P s1"
    and activate: "\<And>s s1 h rest h' a. P s \<Longrightarrow> waiting s = h # rest \<Longrightarrow> \<not> over_limit mx s \<Longrightarrow>
      requests (manager s) (request_id h) = None \<Longrightarrow> pool_changed s s1 \<Longrightarrow>
      requests (manager s1) = (requests (manager s))(request_id h \<mapsto> a) \<Longrightarrow> request_id h' = request_id h \<Longrightarrow>
      P (activated rest h' s1)"
  shows "P s'"
proof (rule admit_loop_steps [of kv s clk mx adm s' P, OF inv run P])
  fix s s1 :: sched and h rest
  assume i: "sched_inv kv s" and p: "P s" and w: "waiting s = h # rest"
  from sched_invD(5) [OF i, of h] w have h: "state h = WAITING" "req_inv h" "requests (manager s) (request_id h) = None" by simp_all
  from acquire_pages_ok [OF sched_invD(1) [OF i] h(2,3)] obtain got s2 where
    a: "acquire_pages h s = Inr (got, s2)" "pool_changed s s2" "got = None \<longrightarrow> requests (manager s2) = requests (manager s)"
      "\<forall>k nxt. got = Some (k, nxt) \<longrightarrow> (\<exists>a. requests (manager s2) = (requests (manager s))(request_id h \<mapsto> a))" by blast
  show "P s1" if "acquire_pages h s = Inr (None, s1)" using stall [OF p a(2)] a(1,3) that by simp
  fix h' m nxt now assume ov: "\<not> over_limit mx s" and acq: "acquire_pages h s = Inr (Some (m, nxt), s1)"
    and adr: "admit_request now m nxt h = Inr h'"
  from a acq obtain al where al: "pool_changed s s1" "requests (manager s1) = (requests (manager s))(request_id h \<mapsto> al)" by auto
  have "request_id h' = request_id h" using admit_request_total [OF h(1), of now m nxt] adr by auto
  with activate [OF p w ov h(3) al] show "P (activated rest h' s1)" .
qed (use reject in blast)

lemma length_update_le: "length (AList.update k v xs) \<le> Suc (length xs)"
  by (induction xs) auto

lemma admit_pages:
  assumes "sched_inv kv s" and "pages_inv D s" and "admit_loop clk mx s = Inr (adm, s')"
  shows "pages_inv D s'"
  using assms(1,3,2)
proof (rule admit_loop_rule)
  fix s s1 :: sched and h h' :: request and rest a
  assume pg: "pages_inv D s" and h: "requests (manager s) (request_id h) = None" and same: "pool_changed s s1"
    and rq: "requests (manager s1) = (requests (manager s))(request_id h \<mapsto> a)" and id: "request_id h' = request_id h"
  let ?s2 = "s1\<lparr>waiting := rest, active := AList.update (request_id h') h' (active s1),
       prefill_order := prefill_order s1 @ [request_id h'], admission_count := admission_count s1 + 1\<rparr>"
  have "request_id h \<notin> D" using pg h unfolding pages_inv_def by blast
  moreover have "set (map fst (active ?s2)) = insert (request_id h) (set (map fst (active s)))"
    using pool_changedD(2) [OF same] id by (auto simp: update_keys)
  moreover have "dom (requests (manager ?s2)) = insert (request_id h) (dom (requests (manager s)))"
    using rq by simp
  ultimately show "pages_inv D ?s2" using pg unfolding pages_inv_def by auto
next
  fix s s1 assume "pages_inv D s" and "pool_changed s s1" and "requests (manager s1) = requests (manager s)"
  then show "pages_inv D s1" using pool_changedD(2) [of s s1] by (simp add: pages_inv_def)
qed (simp add: pages_inv_def)

lemma admit_limit:
  assumes "sched_inv kv s" and "admit_loop clk (Some n) s = Inr (adm, s')" and "int (length (active s)) \<le> n"
  shows "int (length (active s')) \<le> n"
  using assms
proof (rule admit_loop_rule)
  fix s s1 :: sched and h h' :: request and rest and a :: kv_allocation
  assume "\<not> over_limit (Some n) s" and "pool_changed s s1"
  then show "int (length (active (s1\<lparr>waiting := rest, active := AList.update (request_id h') h' (active s1),
       prefill_order := prefill_order s1 @ [request_id h'], admission_count := admission_count s1 + 1\<rparr>))) \<le> n"
    using length_update_le [of "request_id h'" h' "active s"] by (simp add: over_limit_def pool_changedD(2))
next
  fix s s1 assume "int (length (active s)) \<le> n" and "pool_changed s s1"
  then show "int (length (active s1)) \<le> n" using pool_changedD(2) [of s s1] by simp
qed simp

lemma leave_step:
  assumes inv: "sched_inv kv s" and pg: "pages_inv D s" and nxt: "terminal nxt"
    and run: "leave now nxt rid reason s = Inr (r', s')"
  shows "sched_inv kv s' \<and> pages_inv D s'"
proof -
  from run obtain r where r: "map_of (active s) rid = Some r"
    by (auto simp: leave_def pop_active_def split: option.splits)
  have "nxt \<in> allowed_transitions (state r)"
    using run r by (auto simp: leave_def pop_active_def release_pages_def dest: transition_shape(3))
  from leave_ok [OF inv r this nxt, of now reason] run have
    "sched_inv kv s'" "active s' = AList.delete rid (active s)" "requests (manager s') = (requests (manager s))(rid := None)"
    by auto
  moreover have "rid \<notin> D" using pg r active_id_iff [of "active s" rid] unfolding pages_inv_def by auto
  ultimately show ?thesis using pg by (auto simp: pages_inv_def delete_keys)
qed

lemma preempt_step:
  assumes inv: "sched_inv kv s" and pg: "pages_inv D s" and run: "preempt now rid reason s = Inr (r', s')"
  shows "sched_inv kv s' \<and> pages_inv D s'"
proof -
  from run obtain r where r: "map_of (active s) rid = Some r"
    by (auto simp: preempt_def pop_active_def split: option.splits)
  from preempt_ok [OF inv r, of now reason] run have
    "sched_inv kv s'" "active s' = AList.delete rid (active s)" "requests (manager s') = (requests (manager s))(rid := None)"
    by auto
  moreover have "rid \<notin> D" using pg r active_id_iff [of "active s" rid] unfolding pages_inv_def by auto
  ultimately show ?thesis using pg by (auto simp: pages_inv_def delete_keys)
qed

lemma pages_inv_update:
  assumes "pages_inv D s" and "map_of (active s) rid \<noteq> None"
  shows "pages_inv D (s\<lparr>active := AList.update rid q (active s)\<rparr>)"
proof -
  have "rid \<in> set (map fst (active s))" using assms(2) active_id_iff by metis
  then have "map fst (AList.update rid q (active s)) = map fst (active s)" by (simp add: update_keys)
  with assms(1) show ?thesis by (simp add: pages_inv_def)
qed

lemma request_step:
  assumes inv: "sched_inv kv s" and pg: "pages_inv D s" and r: "map_of (active s) rid = Some r"
    and run: "req_apply now opn r = Inr q" and st: "state q = state r"
  shows "sched_inv kv (s\<lparr>active := AList.update rid q (active s)\<rparr>) \<and>
    pages_inv D (s\<lparr>active := AList.update rid q (active s)\<rparr>)"
proof -
  note d = sched_invD(6) [OF inv r]
  have "sched_inv kv (s\<lparr>active := AList.update rid q (active s)\<rparr>)"
    using d st req_apply_outputs(3) [OF run] req_apply_inv [OF _ run] by (intro sched_inv_set_active [OF inv r]) auto
  with pages_inv_update [OF pg] r show ?thesis by simp
qed

lemma pool_step:
  assumes inv: "sched_inv kv s" and pg: "pages_inv D s" and c: "cache s = Some pc"
    and step: "cache_step (pc, manager s, kv) (pc', m', kv')" and dom: "dom (requests m') = dom (requests (manager s))"
  shows "sched_inv kv' (s\<lparr>manager := m', cache := Some pc'\<rparr>) \<and> pages_inv D (s\<lparr>manager := m', cache := Some pc'\<rparr>)"
proof -
  note d = sched_invD [OF inv]
  have "cache_good kv pc (manager s)" using d(1) c by (simp add: pool_good_def)
  from cache_step_good [OF step this] have g: "cache_good kv' pc' m'" .
  then have good: "pool_good kv' (s\<lparr>manager := m', cache := Some pc'\<rparr>)" by (simp add: pool_good_def cache_good_def)
  have same: "requests m' x = None \<longleftrightarrow> requests (manager s) x = None" for x using dom by (metis domIff)
  have "sched_inv kv' (s\<lparr>manager := m', cache := Some pc'\<rparr>)"
    using inv good unfolding sched_inv_def by (simp add: same)
  with pg dom show ?thesis by (simp add: pages_inv_def)
qed

lemma set_rotation: "set (drop k xs @ take k xs) = set xs"
  by (metis Un_commute append_take_drop_id set_append)

lemma distinct_rotation: "distinct (drop k xs @ take k xs) = distinct xs"
  by (metis Int_commute append_take_drop_id distinct_append)

lemma prefill_order_active:
  assumes "sched_inv kv s"
  shows "\<forall>x \<in> set (prefill_order s). map_of (active s) x \<noteq> None"
  using sched_invD(8) [OF assms] by (simp add: map_of_eq_None_iff del: not_None_eq)

lemma remaining_nonneg:
  assumes "sched_inv kv s"
  shows "\<forall>x r. map_of (active s) x = Some r \<longrightarrow> 0 \<le> remaining_prefill_tokens r"
  using sched_invD(6) [OF assms] by (auto simp: req_inv_def remaining_prefill_tokens_def)

lemma sched_step_inv:
  assumes "sched_step (s, kv) (s', kv')" and inv: "sched_inv kv s" and pg: "pages_inv D s"
  shows "sched_inv kv' s' \<and> pages_inv D s'"
  using assms(1)
proof (cases rule: sched_step.cases)
  case (ss_submit rid cnt mx ids sp born r now b r')
  have r0: "r = new_request rid cnt mx ids sp born" using ss_submit(2) by (auto simp: post_init_def split: if_splits)
  then have "state r = WAITING" "request_id r = rid" by (simp_all add: new_request_def)
  with submit_ok(1) [OF inv _ new_request_inv [OF ss_submit(2)] _ ss_submit(4)] ss_submit(1,3) have "sched_inv kv' s'" by simp
  moreover have "manager s' = manager s \<and> active s' = active s" using ss_submit(4) by (auto simp: sched_submit_def split: if_splits)
  ultimately show ?thesis using pg by (simp add: pages_inv_def)
next
  case (ss_admit clk mx adm)
  then have run: "admit_loop clk mx s = Inr (adm, s')" by (auto simp: admit_available_def split: if_splits)
  from admit_loop_run [OF inv, of clk mx] run have "sched_inv kv s'" by auto
  with admit_pages [OF inv pg run] ss_admit(1) show ?thesis by simp
next
  case (ss_mark now rid r)
  then obtain q where q: "map_of (active s) rid = Some q" and t: "req_transition now DECODING None q = Inr r"
    and s': "s' = s\<lparr>active := AList.update rid r (active s)\<rparr>"
    by (auto simp: mark_decoding_def split: option.splits)
  note ts = transition_shape [OF t] and d = sched_invD(6) [OF inv q]
  have "sched_inv kv s'"
    unfolding s' using ts d transition_inv [OF _ t] by (intro sched_inv_set_active [OF inv q]) (auto simp: same_shape_def)
  with pages_inv_update [OF pg, of rid r] q ss_mark(1) s' show ?thesis by simp
next
  case (ss_finish now rid reason r)
  with leave_step [OF inv pg, of FINISHED] show ?thesis by (simp add: finish_def)
next
  case (ss_fail now rid reason r)
  with leave_step [OF inv pg, of FAILED] show ?thesis by (simp add: fail_def)
next
  case (ss_cancel now rid reason r)
  show ?thesis
  proof (cases "find (\<lambda>q. request_id q = rid) (waiting s)")
    case None
    with leave_step [OF inv pg, of CANCELLED] ss_cancel show ?thesis by (simp add: cancel_def)
  next
    case (Some q)
    from cancel_waiting_ok [OF inv Some, of now reason] obtain q' where
      "cancel now rid reason s = Inr (q', s\<lparr>waiting := remove1 q (waiting s)\<rparr>)"
      "sched_inv kv (s\<lparr>waiting := remove1 q (waiting s)\<rparr>)" by blast
    then have "s' = s\<lparr>waiting := remove1 q (waiting s)\<rparr>" "sched_inv kv s'" using ss_cancel(2) by auto
    with ss_cancel(1) pg show ?thesis by (simp add: pages_inv_def)
  qed
next
  case (ss_preempt now rid reason r)
  with preempt_step [OF inv pg] show ?thesis by simp
next
  case (ss_plan chunk budget plans)
  then obtain order' where pl: "plan_loop (length (prefill_order s)) chunk budget (active s) (prefill_order s) = (plans, order')"
    and s': "s' = s\<lparr>prefill_order := order'\<rparr>" and pos: "0 < chunk" "0 < budget"
    by (auto simp: plan_prefill_def Let_def split: if_splits prod.splits)
  note d = sched_invD [OF inv]
  from plan_loop_run [OF le_refl prefill_order_active [OF inv] pos(2,1) remaining_nonneg [OF inv]] pl obtain k where "order' = drop k (prefill_order s) @ take k (prefill_order s)"
    by (metis prod.inject)
  then have "distinct order' \<and> set order' = set (prefill_order s)"
    using d(7) by (simp only: distinct_rotation set_rotation simp_thms)
  with inv pg s' ss_plan(1) show ?thesis by (simp add: sched_inv_def pages_inv_def)
next
  case (ss_advance rid r k q)
  with request_step [OF inv pg ss_advance(3), of 0 "Advance k" q] show ?thesis
    by (auto simp: advance_prefill_def Let_def split: if_splits)
next
  case (ss_token rid r now t q)
  with request_step [OF inv pg ss_token(3), of now "AppendToken t" q] show ?thesis
    by (auto simp: append_token_def split: if_splits)
next
  case (ss_resumed rid r q)
  with request_step [OF inv pg ss_resumed(3), of 0 CompleteResumption q] show ?thesis
    by (auto simp: complete_resumption_def split: if_splits)
next
  case (ss_pool pc pc' m')
  with pool_step [OF inv pg ss_pool(2,3)] show ?thesis by simp
qed

lemma sched_start_inv:
  assumes m0: "kv_manager_init n bs = Inr m0" and pre: "\<forall>opn \<in> set pre. \<not> is_cache_call opn"
    and m: "m = fold mgr_exec pre m0" and pc: "prefix_cache_init k = Inr pc"
    and s: "scheduler_init m mw (Some pc) res = Inr s"
  shows "sched_inv kv s \<and> pages_inv (dom (requests m)) s"
proof -
  have "cache_good kv pc m0"
    using cache_reachable_good [OF cache_start [OF pc m0, of kv]] .
  then have "cache_good kv pc m"
    unfolding m using pre by (induction pre arbitrary: m0) (simp_all add: store.manager_step)
  with s show ?thesis
    by (auto simp: scheduler_init_def sched_inv_def pages_inv_def pool_good_def cache_good_def split: if_splits)
qed

lemma sched_reachable_inv: "sched_reachable D (s, kv) \<Longrightarrow> sched_inv kv s \<and> pages_inv D s"
proof (induction "(s, kv)" arbitrary: s kv rule: sched_reachable.induct)
  case (sched_start n bs m0 pre m k pc mw res s kv)
  then show ?case using sched_start_inv by blast
next
  case (sched_next w)
  then show ?case by (cases w) (auto dest: sched_step_inv)
qed

section \<open>Properties\<close>

text \<open>
  C19: no page leaks and none is shared out twice. In every reachable world the requests
  that hold pages are exactly the permanent reservations made before the scheduler started
  and the active requests; a queued request is waiting and holds none, an active one is
  prefilling or decoding, no id occurs twice, and the prefill order lists the active ids.
\<close>

theorem pages_match_active:
  assumes "sched_reachable D (s, kv)"
  shows "dom (requests (manager s)) = D \<union> set (map fst (active s)) \<and> D \<inter> set (map fst (active s)) = {} \<and>
    (\<forall>r \<in> set (waiting s). state r = WAITING \<and> allocation r = None) \<and>
    (\<forall>rid r. map_of (active s) rid = Some r \<longrightarrow> request_id r = rid \<and> (state r = PREFILLING \<or> state r = DECODING)) \<and>
    distinct (map request_id (waiting s) @ map fst (active s)) \<and>
    distinct (prefill_order s) \<and> set (prefill_order s) = set (map fst (active s))"
proof -
  from sched_reachable_inv [OF assms] have i: "sched_inv kv s" "pages_inv D s" by auto
  have "allocation r = None" if "r \<in> set (waiting s)" for r
    using sched_invD(5) [OF i(1) that] by (auto simp: req_inv_def)
  with i show ?thesis unfolding pages_inv_def sched_inv_def by (auto 0 0)
qed

text \<open>
  C20: admission is first come, first served and total. It never raises in a reachable
  world; what it takes off the queue is a prefix of it, the members of that prefix too
  large for the pool are rejected, all others are admitted in queue order after the ones
  already active, and the active set stays within the limit.
\<close>

theorem fcfs_admission:
  assumes "sched_reachable D (s, kv)" and "0 < n" and "int (length (active s)) \<le> n"
  shows "\<exists>adm s' k. admit_available clk (Some n) s = Inr (adm, s') \<and> k \<le> length (waiting s) \<and>
    waiting s' = drop k (waiting s) \<and>
    map request_id adm = map request_id (filter (fits_pool s) (take k (waiting s))) \<and>
    map request_id (dropped s') = map request_id (dropped s) @
      map request_id (filter (\<lambda>r. \<not> fits_pool s r) (take k (waiting s))) \<and>
    map fst (active s') = map fst (active s) @ map request_id adm \<and> int (length (active s')) \<le> n"
proof -
  have inv: "sched_inv kv s" using sched_reachable_inv [OF assms(1)] by simp
  from admit_loop_run [OF inv, of clk "Some n"] obtain adm s' k where
    r: "admit_loop clk (Some n) s = Inr (adm, s')" "k \<le> length (waiting s)" "waiting s' = drop k (waiting s)"
      "map request_id adm = map request_id (filter (fits_pool s) (take k (waiting s)))"
      "map request_id (dropped s') = map request_id (dropped s) @
        map request_id (filter (\<lambda>r. \<not> fits_pool s r) (take k (waiting s)))"
      "map fst (active s') = map fst (active s) @ map request_id adm" by blast
  moreover have "admit_available clk (Some n) s = Inr (adm, s')" using r(1) assms(2) by (simp add: admit_available_def)
  ultimately show ?thesis using admit_limit [OF inv r(1) assms(3)] by blast
qed

text \<open>
  A quiet step for \<open>rid\<close>: any step of the world that ends no active request (the progress
  counter of the scheduler stands still), leaves some request active and is not the
  cancellation of \<open>rid\<close> itself. Submissions, admissions, prefill, tokens, further preemptions,
  cancellations of other queued requests and cache traffic are all quiet.
\<close>

definition quiet_step :: "string \<Rightarrow> sched_world \<Rightarrow> sched_world \<Rightarrow> bool" where
  "quiet_step rid w w' \<longleftrightarrow> sched_step w w' \<and> progress_epoch (fst w') = progress_epoch (fst w) \<and> active (fst w') \<noteq> [] \<and>
     (\<forall>now reason r. cancel now rid reason (fst w) \<noteq> Inr (r, fst w'))"

definition parked :: "string set \<Rightarrow> request \<Rightarrow> sched_world \<Rightarrow> bool" where
  "parked D r w \<longleftrightarrow> sched_inv (snd w) (fst w) \<and> pages_inv D (fst w) \<and> r \<in> set (waiting (fst w)) \<and> recomputing r \<and>
     progress_epoch (fst w) \<le> preempted_at_epoch r \<and> fits_pool (fst w) r \<and> active (fst w) \<noteq> []"

lemma mgr_exec_num_blocks: "num_blocks (allocator (mgr_exec opn m)) = num_blocks (allocator m)"
  using alloc_exec_const alloc_const
  by (cases opn)
    (auto simp: commit_def keep_def reserve_def attach_prefix_def copy_on_write_tail_def set_sequence_length_def
      ensure_capacity_def append_tokens_def mgr_release_def Let_def
      split: sum.splits option.splits if_splits prod.splits)

lemma cache_step_pool_size:
  assumes "cache_step (pc, m, kv) (pc', m', kv')" and good: "cache_good kv pc m"
  shows "num_blocks (allocator m') = num_blocks (allocator m)" and "mgr_block_size m' = mgr_block_size m"
  using assms(1)
proof (atomize (full), cases rule: cache_step.cases)
  case (step_publish rid a toks t k)
  then show "num_blocks (allocator m') = num_blocks (allocator m) \<and> mgr_block_size m' = mgr_block_size m"
    using publish_run [OF good, of rid a toks t] by (auto simp: same_pool_def)
next
  case (step_evict k n)
  then show "num_blocks (allocator m') = num_blocks (allocator m) \<and> mgr_block_size m' = mgr_block_size m"
    using evict_while_good [OF good, of "\<lambda>pc m. free_block_count (allocator m) < k" True]
    by (auto simp: evict_until_free_def same_pool_def split: if_splits)
next
  case step_clear
  then show "num_blocks (allocator m') = num_blocks (allocator m) \<and> mgr_block_size m' = mgr_block_size m"
    using evict_while_good [OF good, of "\<lambda>pc m. True" False] by (auto simp: clear_def same_pool_def)
next
  case (step_manager opn)
  then show "num_blocks (allocator m') = num_blocks (allocator m) \<and> mgr_block_size m' = mgr_block_size m"
    using mgr_exec_num_blocks [of opn m] mgr_exec_cache_frame(2) [of opn m] by simp
qed simp_all

lemma pool_changed_capacity: "pool_changed s s1 \<Longrightarrow> effective_capacity_tokens s1 = effective_capacity_tokens s"
  using pool_changedD [of s s1] by (auto simp: effective_capacity_tokens_def pool_changed_def)

lemma capacity_more [simp]:
  "effective_capacity_tokens (s\<lparr>waiting := w, rejected_count := n, dropped := d\<rparr>) = effective_capacity_tokens s"
  "effective_capacity_tokens (s\<lparr>waiting := w, active := a, prefill_order := po, admission_count := n\<rparr>) = effective_capacity_tokens s"
  by (simp_all add: effective_capacity_tokens_def)

lemma admit_keeps_capacity:
  assumes "sched_inv kv s" and "admit_loop clk mx s = Inr (adm, s')"
  shows "effective_capacity_tokens s' = effective_capacity_tokens s"
  by (rule admit_loop_rule [of kv s clk mx adm s' "\<lambda>x. effective_capacity_tokens x = effective_capacity_tokens s", OF assms])
    (simp_all add: pool_changed_capacity)

lemma leave_epoch:
  assumes inv: "sched_inv kv s" and nxt: "terminal nxt" and run: "leave now nxt rid reason s = Inr (r', s')"
  shows "progress_epoch s' = progress_epoch s + 1"
proof -
  from run obtain r where r: "map_of (active s) rid = Some r"
    by (auto simp: leave_def pop_active_def split: option.splits)
  have "nxt \<in> allowed_transitions (state r)"
    using run r by (auto simp: leave_def pop_active_def release_pages_def dest: transition_shape(3))
  from leave_ok [OF inv r this nxt, of now reason] run show ?thesis by auto
qed

text \<open>What a quiet step leaves of the queue, the counter and the capacity of the pool.\<close>

lemma quiet_frame:
  assumes "quiet_step rid (s, kv) (s', kv')" and inv: "sched_inv kv s"
    and r: "r \<in> set (waiting s)" "request_id r = rid" "recomputing r" "progress_epoch s \<le> preempted_at_epoch r"
      "active s \<noteq> []" "fits_pool s r"
  shows "r \<in> set (waiting s') \<and> effective_capacity_tokens s' = effective_capacity_tokens s"
proof -
  from assms(1) have step: "sched_step (s, kv) (s', kv')" and ep: "progress_epoch s' = progress_epoch s"
    and nc: "\<And>now reason q. cancel now rid reason s \<noteq> Inr (q, s')" by (simp_all add: quiet_step_def)
  note ended = leave_epoch [OF inv]
  from step show ?thesis
  proof (cases rule: sched_step.cases)
    case (ss_submit rid' cnt mx ids sp born q now b q')
    then show ?thesis using r(1) by (auto simp: sched_submit_def effective_capacity_tokens_def split: if_splits)
  next
    case (ss_admit clk mx adm)
    then have run: "admit_loop clk mx s = Inr (adm, s')" by (auto simp: admit_available_def split: if_splits)
    with gated_stays [OF inv r(1,3,4,5,6)] admit_keeps_capacity [OF inv] show ?thesis by blast
  next
    case (ss_mark now x q)
    then show ?thesis using r(1) by (auto simp: mark_decoding_def effective_capacity_tokens_def split: option.splits)
  next
    case (ss_finish now x reason q)
    then show ?thesis using ended [of FINISHED] ep by (simp add: finish_def)
  next
    case (ss_fail now x reason q)
    then show ?thesis using ended [of FAILED] ep by (simp add: fail_def)
  next
    case (ss_cancel now x reason q)
    show ?thesis
    proof (cases "find (\<lambda>q. request_id q = x) (waiting s)")
      case None
      then show ?thesis using ended [of CANCELLED] ep ss_cancel by (simp add: cancel_def)
    next
      case (Some w)
      from cancel_waiting_ok [OF inv Some, of now reason] ss_cancel(2)
      have s': "s' = s\<lparr>waiting := remove1 w (waiting s)\<rparr>" by auto
      have "request_id w = x" "x \<noteq> rid" using Some nc ss_cancel(2) by (auto simp: find_Some_iff)
      then have "w \<noteq> r" using r(2) by blast
      then show ?thesis using r(1) by (simp add: s' effective_capacity_tokens_def)
    qed
  next
    case (ss_preempt now x reason q)
    then obtain a where a: "map_of (active s) x = Some a" by (auto simp: preempt_def pop_active_def split: option.splits)
    from preempt_ok [OF inv a, of now reason] ss_preempt(2) show ?thesis
      using r(1) by (auto simp: requeue_set effective_capacity_tokens_def)
  next
    case (ss_plan chunk budget plans)
    then show ?thesis
      using r(1) by (auto simp: plan_prefill_def Let_def effective_capacity_tokens_def split: if_splits prod.splits)
  next
    case (ss_pool pc pc' m')
    have "cache_good kv pc (manager s)" using sched_invD(1) [OF inv] ss_pool(2) by (simp add: pool_good_def)
    from cache_step_pool_size [OF ss_pool(3) this] show ?thesis
      using r(1) ss_pool(1) by (simp add: effective_capacity_tokens_def)
  qed (use r(1) in \<open>simp_all add: effective_capacity_tokens_def\<close>)
qed

lemma parked_step:
  assumes "parked D r w" and "quiet_step (request_id r) w w'"
  shows "parked D r w'"
proof -
  obtain s kv s' kv' where w: "w = (s, kv)" "w' = (s', kv')" by (cases w, cases w') blast
  note p = assms(1) [unfolded parked_def w fst_conv snd_conv]
  from assms(2) have step: "sched_step (s, kv) (s', kv')" and ep: "progress_epoch s' = progress_epoch s" and "active s' \<noteq> []"
    by (simp_all add: quiet_step_def w)
  moreover have "sched_inv kv' s' \<and> pages_inv D s'" using sched_step_inv [OF step] p by blast
  moreover have "r \<in> set (waiting s') \<and> effective_capacity_tokens s' = effective_capacity_tokens s"
    using quiet_frame [OF assms(2) [unfolded w]] p by blast
  ultimately show ?thesis using p by (simp add: parked_def w fits_pool_def)
qed

lemma parked_run: "(quiet_step (request_id r))\<^sup>*\<^sup>* w w' \<Longrightarrow> parked D r w \<Longrightarrow> parked D r w'"
  by (induction rule: rtranclp_induct) (auto intro: parked_step)

lemma parked_gated:
  assumes "parked D r (s, kv)"
  shows "r \<in> set (waiting s) \<and> (\<forall>clk mx. \<exists>adm s2. admit_loop clk mx s = Inr (adm, s2) \<and> r \<in> set (waiting s2))"
proof -
  note p = assms [unfolded parked_def fst_conv snd_conv]
  have "\<exists>adm s2. admit_loop clk mx s = Inr (adm, s2) \<and> r \<in> set (waiting s2)" for clk mx
    using admit_loop_run [of kv s clk mx] gated_stays [of kv s r clk mx] p by blast
  with p show ?thesis by blast
qed

text \<open>
  C21: a request that yields its pages parks. Preempting an active request, beside another
  active one and with a demand the pool can hold at all, never raises, keeps its tokens and
  requeues it. However long the engine then runs, it stays queued: through every sequence of
  submissions, admissions, prefill and decode steps, further preemptions and cache traffic in
  which no active request ends, some request stays active and the parked request is not
  itself cancelled; and at each point of such a sequence one more admission succeeds and
  still leaves it queued. So two requests never evict each other in turns without progress.
\<close>

theorem preempted_request_parks:
  assumes "sched_reachable D (s, kv)" and "map_of (active s) rid = Some r" and "2 \<le> length (active s)"
    and "fits_pool s r"
  shows "\<exists>r' s1. preempt now rid reason s = Inr (r', s1) \<and> request_id r' = rid \<and> output_token_ids r' = output_token_ids r \<and>
    (\<forall>s' kv'. (quiet_step rid)\<^sup>*\<^sup>* (s1, kv) (s', kv') \<longrightarrow> r' \<in> set (waiting s') \<and>
      (\<forall>clk mx. \<exists>adm s2. admit_loop clk mx s' = Inr (adm, s2) \<and> r' \<in> set (waiting s2)))"
proof -
  from sched_reachable_inv [OF assms(1)] have inv: "sched_inv kv s" and pg: "pages_inv D s" by auto
  from preempt_ok [OF inv assms(2), of now reason] obtain r' s1 where p: "preempt now rid reason s = Inr (r', s1)"
    "sched_inv kv s1" "request_id r' = rid" "output_token_ids r' = output_token_ids r" "recomputing r'"
    "preempted_at_epoch r' = progress_epoch s" "reserved_tokens r' = reserved_tokens r"
    "active s1 = AList.delete rid (active s)" "waiting s1 = requeue_in_arrival_order r' (waiting s)"
    "progress_epoch s1 = progress_epoch s" "reserved_blocks s1 = reserved_blocks s"
    "num_blocks (allocator (manager s1)) = num_blocks (allocator (manager s))"
    "mgr_block_size (manager s1) = mgr_block_size (manager s)" by blast
  have "\<exists>x \<in> set (map fst (active s)). x \<noteq> rid"
  proof (rule ccontr)
    assume "\<not> ?thesis"
    then have "set (map fst (active s)) \<subseteq> {rid}" by blast
    then have "card (set (map fst (active s))) \<le> 1" using card_mono [of "{rid}"] by fastforce
    with distinct_card [OF sched_invD(3) [OF inv]] assms(3) show False by simp
  qed
  then have "set (map fst (active s1)) \<noteq> {}" unfolding p(8) delete_keys set_removeAll by blast
  then have "active s1 \<noteq> []" by auto
  then have "parked D r' (s1, kv)"
    using p assms(4) preempt_step [OF inv pg p(1)] by (simp add: parked_def requeue_set fits_pool_def effective_capacity_tokens_def)
  from parked_gated [OF parked_run [OF _ this]] p(1,3,4) show ?thesis by blast
qed

text \<open>
  Preemption preserves arrival order. A queue sorted by arrival stays sorted, so the
  oldest request that had to yield is the first to return; no request of the queue is lost.
\<close>

theorem preempt_requeues_in_order:
  assumes "sched_reachable D (s, kv)" and "map_of (active s) rid = Some r" and "sorted (map arrival_key (waiting s))"
  shows "\<exists>r' s'. preempt now rid reason s = Inr (r', s') \<and> sorted (map arrival_key (waiting s')) \<and>
    mset (waiting s') = add_mset r' (mset (waiting s)) \<and> arrival_key r' = arrival_key r"
proof -
  have inv: "sched_inv kv s" using sched_reachable_inv [OF assms(1)] by simp
  from preempt_ok [OF inv assms(2), of now reason] obtain r' s' where p: "preempt now rid reason s = Inr (r', s')"
    "request_id r' = rid" "created_ns r' = created_ns r" "waiting s' = requeue_in_arrival_order r' (waiting s)" by blast
  moreover have "request_id r = rid" using sched_invD(6) [OF inv assms(2)] by simp
  ultimately show ?thesis using requeue_sorted [OF assms(3)] by (simp add: requeue_mset arrival_key_def)
qed

text \<open>
  C22: one planning call shares the prefill budget fairly. It hands out at most the budget,
  in chunks of at most the chunk size and never more than a prompt still needs; it visits a
  prefix of the rotation, plans every prefilling request of that prefix in order, and moves
  the prefix behind the rest, so the next call starts with the requests it did not reach. It
  stops early only when the whole budget is spent.
\<close>

theorem prefill_round_robin:
  assumes "sched_reachable D (s, kv)" and "0 < chunk" and "0 < budget"
  shows "\<exists>k plans s'. plan_prefill chunk budget s = Inr (plans, s') \<and> k \<le> length (prefill_order s) \<and>
    prefill_order s' = drop k (prefill_order s) @ take k (prefill_order s) \<and>
    map fst plans = map (\<lambda>x. the (map_of (active s) x)) (filter (plannable (active s)) (take k (prefill_order s))) \<and>
    (\<forall>(r, c) \<in> set plans. 0 < c \<and> c \<le> chunk \<and> c \<le> remaining_prefill_tokens r) \<and>
    sum_list (map snd plans) \<le> budget \<and>
    (k < length (prefill_order s) \<longrightarrow> sum_list (map snd plans) = budget)"
proof -
  have inv: "sched_inv kv s" using sched_reachable_inv [OF assms(1)] by simp
  from plan_loop_run [OF le_refl prefill_order_active [OF inv] assms(3,2) remaining_nonneg [OF inv]] obtain k plans where
    "plan_loop (length (prefill_order s)) chunk budget (active s) (prefill_order s) =
       (plans, drop k (prefill_order s) @ take k (prefill_order s))"
    "k \<le> length (prefill_order s)" "k < length (prefill_order s) \<longrightarrow> sum_list (map snd plans) = budget"
    "sum_list (map snd plans) \<le> budget"
    "map fst plans = map (\<lambda>x. the (map_of (active s) x)) (filter (plannable (active s)) (take k (prefill_order s)))"
    "\<forall>(r, c) \<in> set plans. 0 < c \<and> c \<le> chunk \<and> c \<le> remaining_prefill_tokens r" by blast
  moreover from this(1) assms(2,3) have "plan_prefill chunk budget s =
      Inr (plans, s\<lparr>prefill_order := drop k (prefill_order s) @ take k (prefill_order s)\<rparr>)"
    by (simp add: plan_prefill_def)
  ultimately show ?thesis by (intro exI [of _ k] exI [of _ plans] exI [of _ "s\<lparr>prefill_order := drop k (prefill_order s) @ take k (prefill_order s)\<rparr>"]) simp
qed

section \<open>A concrete run\<close>

text \<open>Two requests in a pool of four blocks of two tokens: submitted, then both admitted.\<close>

definition demo_pool :: kv_manager where
  "demo_pool = \<lparr>allocator = \<lparr>num_blocks = 4, block_size_tokens = 2, free_blocks = [0, 1, 2, 3],
     allocations = Map.empty, refcounts = [0, 0, 0, 0]\<rparr>, mgr_block_size = 2, requests = Map.empty\<rparr>"

definition demo_empty :: prefix_cache where
  "demo_empty = (case prefix_cache_init 0 of Inr pc \<Rightarrow> pc | Inl _ \<Rightarrow> undefined)"

definition demo_sched :: sched where
  "demo_sched = \<lparr>manager = demo_pool, max_waiting_requests = None, cache = Some demo_empty, reserved_blocks = 0,
     waiting = [new_request ''a'' 2 2 [5, 6] GREEDY 0, new_request ''b'' 2 2 [7, 8] GREEDY 1], active = [],
     prefill_order = [], rejected_count = 0, admission_count = 0, preemption_count = 0, recomputed_tokens_total = 0,
     recompute_ns_total = 0, progress_epoch = 0, dropped = []\<rparr>"

lemma demo_sched_reachable: "sched_reachable {} (demo_sched, \<lambda>_. [])"
proof -
  have m0: "kv_manager_init 4 2 = Inr demo_pool"
    by (simp add: kv_manager_init_def block_allocator_init_def demo_pool_def upt_rec eval_nat_numeral)
  have pc: "prefix_cache_init 0 = Inr demo_empty" by (simp add: prefix_cache_init_def demo_empty_def)
  let ?s0 = "demo_sched\<lparr>waiting := []\<rparr>"
  let ?s1 = "demo_sched\<lparr>waiting := [new_request ''a'' 2 2 [5, 6] GREEDY 0]\<rparr>"
  have "scheduler_init demo_pool None (Some demo_empty) 0 = Inr ?s0"
    by (simp add: scheduler_init_def demo_sched_def demo_pool_def)
  then have "sched_reachable {} (?s0, \<lambda>_. [])"
    using sched_start [OF m0, of "[]" demo_pool "{}"] pc by (simp add: demo_pool_def)
  moreover have "sched_step (?s0, \<lambda>_. []) (?s1, \<lambda>_. [])"
    by (rule ss_submit [where rid = "''a''" and cnt = 2 and mx = 2 and ids = "[5, 6]" and sp = GREEDY and born = 0 and now = 0 and b = True
        and r = "new_request ''a'' 2 2 [5, 6] GREEDY 0" and r' = "new_request ''a'' 2 2 [5, 6] GREEDY 0"])
      (simp_all add: post_init_def new_request_def sched_submit_def demo_sched_def demo_pool_def)
  moreover have "sched_step (?s1, \<lambda>_. []) (demo_sched, \<lambda>_. [])"
    by (rule ss_submit [where rid = "''b''" and cnt = 2 and mx = 2 and ids = "[7, 8]" and sp = GREEDY and born = 1 and now = 1 and b = True
        and r = "new_request ''b'' 2 2 [7, 8] GREEDY 1" and r' = "new_request ''b'' 2 2 [7, 8] GREEDY 1"])
      (simp_all add: post_init_def new_request_def sched_submit_def demo_sched_def demo_pool_def)
  ultimately show ?thesis by (blast intro: sched_next)
qed

lemma demo_admits:
  "\<exists>adm s'. admit_available (\<lambda>_. 2) (Some 4) demo_sched = Inr (adm, s') \<and> map fst (active s') = [''a'', ''b''] \<and>
     prefill_order s' = [''a'', ''b''] \<and> effective_capacity_tokens s' = 8 \<and> waiting s' = [] \<and>
     (\<forall>rid r. map_of (active s') rid = Some r \<longrightarrow> reserved_tokens r = 4)"
  by (simp add: admit_available_def admit_loop.simps demo_sched_def demo_pool_def demo_empty_def prefix_cache_init_def
      over_limit_def reserved_tokens_def new_request_def effective_capacity_tokens_def epoch_gated_def acquire_pages_def
      lookup_prefix_def cache_lookup_def Let_def admit_request_def req_transition_def prefill_token_ids_def
      prefill_token_count_def enter_prefilling_def close_wait_def reserve_def ceil_div_def block_allocate_def)

definition demo_state :: "sched \<Rightarrow> bool" where
  "demo_state s \<longleftrightarrow> sched_reachable {} (s, \<lambda>_. []) \<and> map fst (active s) = [''a'', ''b''] \<and>
     prefill_order s = [''a'', ''b''] \<and> waiting s = [] \<and> (\<forall>rid r. map_of (active s) rid = Some r \<longrightarrow> fits_pool s r)"

lemma demo_stateD:
  assumes "demo_state s"
  shows "sched_reachable {} (s, \<lambda>_. [])" and "map fst (active s) = [''a'', ''b'']" and "length (active s) = 2"
    and "prefill_order s = [''a'', ''b'']" and "waiting s = []" and "map_of (active s) rid = Some r \<Longrightarrow> fits_pool s r"
    and "\<exists>r. map_of (active s) ''b'' = Some r"
proof -
  show keys: "map fst (active s) = [''a'', ''b'']" using assms by (simp add: demo_state_def)
  show "length (active s) = 2" using arg_cong [OF keys, of length] by simp
  show "\<exists>r. map_of (active s) ''b'' = Some r" using active_id_iff [of "active s" "''b''"] unfolding keys by simp
qed (use assms in \<open>simp_all add: demo_state_def\<close>)

lemma demo_admitted: "\<exists>s. demo_state s"
proof -
  from demo_admits obtain adm s where s: "admit_available (\<lambda>_. 2) (Some 4) demo_sched = Inr (adm, s) \<and>
    map fst (active s) = [''a'', ''b''] \<and> prefill_order s = [''a'', ''b''] \<and> effective_capacity_tokens s = 8 \<and>
    waiting s = [] \<and> (\<forall>rid r. map_of (active s) rid = Some r \<longrightarrow> reserved_tokens r = 4)"
    by (elim exE) (rule that)
  then have "sched_reachable {} (s, \<lambda>_. [])" using sched_next [OF demo_sched_reachable ss_admit] by blast
  with s have "demo_state s" by (simp add: demo_state_def fits_pool_def)
  then show ?thesis ..
qed

theorem pages_match_active_witness: "\<exists>s :: sched. map fst (active s) = [''a'', ''b''] \<and> dom (requests (manager s)) = {''a'', ''b''}"
proof -
  obtain s where "demo_state s" using demo_admitted ..
  note s = demo_stateD [OF this]
  from pages_match_active [OF s(1)] have "dom (requests (manager s)) = set (map fst (active s))" by (simp only: Un_empty_left)
  then have "dom (requests (manager s)) = {''a'', ''b''}" unfolding s(2) by simp
  with s(2) have "map fst (active s) = [''a'', ''b''] \<and> dom (requests (manager s)) = {''a'', ''b''}" by (rule conjI)
  then show ?thesis ..
qed

theorem fcfs_admission_witness:
  "\<exists>adm s' k. admit_available (\<lambda>_. 2) (Some 4) demo_sched = Inr (adm, s') \<and> k \<le> length (waiting demo_sched) \<and>
     map fst (active s') = map request_id adm"
proof -
  have d: "length (waiting demo_sched) = 2" "active demo_sched = []" by (simp_all add: demo_sched_def)
  then have "0 < (4 :: int)" "int (length (active demo_sched)) \<le> 4" by simp_all
  from fcfs_admission [OF demo_sched_reachable this, of "\<lambda>_. 2"] obtain adm s' k where
    "admit_available (\<lambda>_. 2) (Some 4) demo_sched = Inr (adm, s')" "k \<le> length (waiting demo_sched)"
    "map fst (active s') = map fst (active demo_sched) @ map request_id adm" by (elim exE conjE) (rule that)
  with d show ?thesis by (intro exI [of _ adm] exI [of _ s'] exI [of _ k]) simp
qed

text \<open>A submission is a quiet step for every queued request.\<close>

lemma submit_quiet:
  assumes inv: "sched_inv kv s" and r: "r \<in> set (waiting s)" "active s \<noteq> []"
    and q: "post_init (new_request x cnt mx ids sp born) = Inr q" "requests (manager s) x = None"
    and run: "sched_submit now q s = Inr (b, q', s')"
  shows "quiet_step (request_id r) (s, kv) (s', kv)"
proof -
  have s': "length (waiting s) \<le> length (waiting s')" "active s' = active s" "progress_epoch s' = progress_epoch s"
    using run by (auto simp: sched_submit_def split: if_splits)
  have "cancel t (request_id r) reason s \<noteq> Inr (c, s')" for t reason c
  proof
    assume c: "cancel t (request_id r) reason s = Inr (c, s')"
    obtain w where w: "find (\<lambda>q. request_id q = request_id r) (waiting s) = Some w"
      using r(1) by (cases "find (\<lambda>q. request_id q = request_id r) (waiting s)") (auto simp: find_None_iff)
    from cancel_waiting_ok [OF inv w, of t reason] c have "waiting s' = remove1 w (waiting s)" by auto
    moreover have "w \<in> set (waiting s)" using w by (auto simp: find_Some_iff)
    moreover have "0 < length (waiting s)" using r(1) by (auto simp: length_pos_if_in_set)
    ultimately have "length (waiting s') < length (waiting s)" by (simp only: length_remove1 if_True)
    with s'(1) show False by simp
  qed
  moreover have "sched_step (s, kv) (s', kv)" by (rule ss_submit [OF q run])
  ultimately show ?thesis using s' r(2) by (simp add: quiet_step_def)
qed

theorem preempted_request_parks_witness:
  "\<exists>s r' s1 s' b q'. preempt 3 ''b'' ''P'' s = Inr (r', s1) \<and> active s1 \<noteq> [] \<and>
     sched_submit 4 (new_request ''c'' 2 2 [9, 9] GREEDY 4) s1 = Inr (b, q', s') \<and> quiet_step ''b'' (s1, \<lambda>_. []) (s', \<lambda>_. []) \<and>
     r' \<in> set (waiting s') \<and> (\<exists>adm s2. admit_loop (\<lambda>_. 4) None s' = Inr (adm, s2) \<and> r' \<in> set (waiting s2))"
proof -
  obtain s where "demo_state s" using demo_admitted ..
  note s = demo_stateD [OF this]
  obtain r where r: "map_of (active s) ''b'' = Some r" using s(7) ..
  have two: "2 \<le> length (active s)" using s(3) by simp
  from preempted_request_parks [OF s(1) r two s(6) [OF r], of 3 "''P''"] obtain r' s1 where
    p: "preempt 3 ''b'' ''P'' s = Inr (r', s1)" "request_id r' = ''b''"
    and park: "\<forall>s' kv'. (quiet_step ''b'')\<^sup>*\<^sup>* (s1, \<lambda>_. []) (s', kv') \<longrightarrow> r' \<in> set (waiting s') \<and>
      (\<forall>clk mx. \<exists>adm s2. admit_loop clk mx s' = Inr (adm, s2) \<and> r' \<in> set (waiting s2))" by (elim exE conjE) (rule that)
  from sched_reachable_inv [OF s(1)] have inv: "sched_inv (\<lambda>_. []) s" "pages_inv {} s" by auto
  from preempt_ok [OF inv(1) r, of 3 "''P''"] p(1) have s1: "sched_inv (\<lambda>_. []) s1" "active s1 = AList.delete ''b'' (active s)"
    "waiting s1 = requeue_in_arrival_order r' (waiting s)" "requests (manager s1) = (requests (manager s))(''b'' := None)" by auto
  have w1: "waiting s1 = [r']" using s1(3) s(5) by simp
  have keys: "map fst (active s1) = [''a'']" unfolding s1(2) delete_keys s(2) by simp
  then have ne: "active s1 \<noteq> []" by auto
  have "dom (requests (manager s)) = {''a'', ''b''}" using inv(2) s(2) unfolding pages_inv_def by simp
  then have "''c'' \<notin> dom (requests (manager s))" by simp
  then have free: "requests (manager s1) ''c'' = None" unfolding s1(4) by (simp add: domIff)
  have "\<not> map_of (active s1) ''c'' \<noteq> None" unfolding active_id_iff keys by simp
  then have new: "map_of (active s1) ''c'' = None" by (simp only: not_not)
  have "\<exists>b q' s'. sched_submit 4 (new_request ''c'' 2 2 [9, 9] GREEDY 4) s1 = Inr (b, q', s')"
    using transition_total [of REJECTED "new_request ''c'' 2 2 [9, 9] GREEDY 4" 4 "Some ''QUEUE_FULL''"]
    by (auto simp: sched_submit_def w1 p(2) new new_request_def split: option.split)
  then obtain b q' s' where sub: "sched_submit 4 (new_request ''c'' 2 2 [9, 9] GREEDY 4) s1 = Inr (b, q', s')" by blast
  have "post_init (new_request ''c'' 2 2 [9, 9] GREEDY 4) = Inr (new_request ''c'' 2 2 [9, 9] GREEDY 4)"
    by (simp add: post_init_def new_request_def)
  from submit_quiet [OF s1(1) _ ne this free sub, of r'] w1 p(2) have "quiet_step ''b'' (s1, \<lambda>_. []) (s', \<lambda>_. [])" by simp
  with park p(1) ne sub show ?thesis by blast
qed

theorem prefill_round_robin_witness:
  "\<exists>s plans s'. plan_prefill 8 1 s = Inr (plans, s') \<and> sum_list (map snd plans) \<le> 1 \<and> set (prefill_order s') = {''a'', ''b''}"
proof -
  obtain s where "demo_state s" using demo_admitted ..
  note s = demo_stateD [OF this]
  have "0 < (8 :: int)" "0 < (1 :: int)" by simp_all
  from prefill_round_robin [OF s(1) this] obtain k plans s' where
    "plan_prefill 8 1 s = Inr (plans, s')" "prefill_order s' = drop k (prefill_order s) @ take k (prefill_order s)"
    "sum_list (map snd plans) \<le> 1" by blast
  moreover from this(2) have "set (prefill_order s') = {''a'', ''b''}" using set_rotation [of k "prefill_order s"] s(4) by simp
  ultimately show ?thesis by blast
qed

end
