(* ===== verification/Acceptance.thy ===== *)
theory Acceptance
  imports Prelude
begin

text \<open>
  Greedy decoding and the acceptance rule of speculative decoding:
  \<open>engine/speculative/acceptance.py\<close> and the round shared by the decoders under
  \<open>engine/speculative\<close> and \<open>engine/batching/batched_speculative.py\<close>.

  A causal language model is the parameter \<open>f\<close>: \<open>f ctx\<close> is the arg-max of its logits
  after the tokens \<open>ctx\<close>. One forward over several tokens with a key/value cache gives
  such a prediction after each of them and extends the cache by them; this is what the
  source relies on of the Transformers library.
\<close>

type_synonym lm = "int list \<Rightarrow> int"

section \<open>Plain greedy decoding\<close>

fun forward_preds :: "lm \<Rightarrow> int list \<Rightarrow> int list \<Rightarrow> int list" where
  "forward_preds f c [] = []"
| "forward_preds f c (t # ts) = f (c @ [t]) # forward_preds f (c @ [t]) ts"

lemma length_forward_preds [simp]: "length (forward_preds f c ts) = length ts"
  by (induction ts arbitrary: c) auto

lemma forward_preds_snoc: "forward_preds f c (ts @ [t]) = forward_preds f c ts @ [f (c @ ts @ [t])]"
  by (induction ts arbitrary: c) auto

lemma last_forward_preds: "last (f c # forward_preds f c ts) = f (c @ ts)"
  by (cases ts rule: rev_cases) (simp_all add: forward_preds_snoc)

text \<open>
  The reference: one token per step until a stop token, an end-of-sequence token or the
  length bound ends the request, with the reason.
\<close>

fun greedy_run :: "lm \<Rightarrow> int set \<Rightarrow> int set \<Rightarrow> bool \<Rightarrow> int list \<Rightarrow> nat \<Rightarrow> int list \<times> string" where
  "greedy_run f stop eos ign ctx 0 = ([], ''LENGTH'')"
| "greedy_run f stop eos ign ctx (Suc n) =
     (let t = f ctx in
      if t \<in> stop then ([t], ''STOP'')
      else if \<not> ign \<and> t \<in> eos then ([t], ''EOS'')
      else let (ts, reason) = greedy_run f stop eos ign (ctx @ [t]) n in (t # ts, reason))"

text \<open>A list of tokens each of which is the model's choice after the ones before.\<close>

fun greedy_chain :: "lm \<Rightarrow> int list \<Rightarrow> int list \<Rightarrow> bool" where
  "greedy_chain f ctx [] = True"
| "greedy_chain f ctx (t # ts) = (t = f ctx \<and> greedy_chain f (ctx @ [t]) ts)"

lemma greedy_chain_append:
  "greedy_chain f ctx (xs @ ys) \<longleftrightarrow> greedy_chain f ctx xs \<and> greedy_chain f (ctx @ xs) ys"
  by (induction xs arbitrary: ctx) auto

lemma greedy_chain_take: "greedy_chain f ctx ts \<Longrightarrow> greedy_chain f ctx (take n ts)"
  by (metis append_take_drop_id greedy_chain_append)

section \<open>Acceptance\<close>

fun match_len :: "int list \<Rightarrow> int list \<Rightarrow> nat" where
  "match_len (d # ds) (t # ts) = (if d \<noteq> t then 0 else Suc (match_len ds ts))"
| "match_len ds ts = 0"

definition round_candidates :: "int list \<Rightarrow> int list \<Rightarrow> int \<Rightarrow> int list" where
  "round_candidates draft target bonus =
     (let accepted = match_len draft target in
      if accepted = length draft then draft @ [bonus] else take accepted draft @ [target ! accepted])"

fun emit_until :: "int set \<Rightarrow> int set \<Rightarrow> bool \<Rightarrow> int list \<Rightarrow> int list \<times> string option" where
  "emit_until stop eos ign [] = ([], None)"
| "emit_until stop eos ign (t # ts) =
     (if t \<in> stop then ([t], Some ''STOP'')
      else if \<not> ign \<and> t \<in> eos then ([t], Some ''EOS'')
      else let (es, reason) = emit_until stop eos ign ts in (t # es, reason))"

record greedy_commit =
  gc_emitted :: "int list"
  accepted_draft_tokens :: nat
  cached_input_count :: nat
  fully_accepted :: bool
  terminal_reason :: "string option"

definition plan_greedy_commit ::
  "int list \<Rightarrow> int list \<Rightarrow> int \<Rightarrow> int \<Rightarrow> int set \<Rightarrow> int set \<Rightarrow> bool \<Rightarrow> greedy_commit result" where
  "plan_greedy_commit draft target bonus remaining eos stop ign =
     (if draft = [] \<or> length draft \<noteq> length target then Inl ValueError
      else if remaining \<le> 0 then Inl ValueError
      else
        let accepted = match_len draft target;
            candidates = round_candidates draft target bonus;
            (es, ended) = emit_until stop eos ign (take (nat remaining) candidates);
            reason = (if ended = None \<and> int (length es) = remaining then Some ''LENGTH'' else ended) in
        Inr \<lparr>gc_emitted = es, accepted_draft_tokens = min accepted (length es), cached_input_count = length es,
             fully_accepted = (accepted = length draft), terminal_reason = reason\<rparr>)"

lemma match_len_le: "match_len ds ts \<le> length ds" "match_len ds ts \<le> length ts"
  by (induction ds ts rule: match_len.induct) auto

lemma length_candidates:
  "length draft = length target \<Longrightarrow> length (round_candidates draft target bonus) = Suc (match_len draft target)"
  using match_len_le [of draft target] by (auto simp: round_candidates_def Let_def)

text \<open>
  Verified by the target, the candidates of a round are a greedy chain of the target:
  the target's predictions are what it says after the context and after each proposal.
\<close>

lemma match_len_Cons:
  "round_candidates (d # ds) (t # ts) b = (if d \<noteq> t then [t] else d # round_candidates ds ts b)"
  by (auto simp: round_candidates_def Let_def)

lemma candidates_chain:
  "greedy_chain f ctx (round_candidates draft (butlast (f ctx # forward_preds f ctx draft))
     (last (f ctx # forward_preds f ctx draft)))"
proof (induction draft arbitrary: ctx)
  case Nil
  then show ?case by (simp add: round_candidates_def)
next
  case (Cons d ds)
  show ?case
  proof (cases "d = f ctx")
    case True
    then show ?thesis using Cons.IH [of "ctx @ [d]"] by (simp add: match_len_Cons split: if_splits)
  qed (simp add: match_len_Cons)
qed

lemma emit_until_chain:
  assumes "greedy_chain f ctx ts" and "length ts \<le> n" and "emit_until stop eos ign ts = (es, r)"
  shows "greedy_run f stop eos ign ctx n =
    (case r of Some x \<Rightarrow> (es, x)
     | None \<Rightarrow> (es @ fst (greedy_run f stop eos ign (ctx @ es) (n - length es)),
               snd (greedy_run f stop eos ign (ctx @ es) (n - length es))))"
    and "r = None \<Longrightarrow> es = ts" and "length es \<le> length ts" and "ts \<noteq> [] \<Longrightarrow> es \<noteq> []"
  using assms
proof (atomize (full), induction ts arbitrary: ctx n es r)
  case Nil
  then show ?case by (simp add: case_prod_beta)
next
  case (Cons t ts)
  then obtain m where n: "n = Suc m" by (cases n) auto
  obtain es' r' where e: "emit_until stop eos ign ts = (es', r')" by fastforce
  have c: "t = f ctx" "greedy_chain f (ctx @ [f ctx]) ts" "length ts \<le> m" using Cons.prems n by auto
  from Cons.IH [OF c(2,3) e] Cons.prems(3) c(1) n e show ?case
    by (cases r') (auto simp: Let_def split: if_splits)
qed

lemma emit_until_take_chain: "emit_until stop eos ign ts = (es, r) \<Longrightarrow> es = take (length es) ts"
  by (induction ts arbitrary: es r) (auto split: if_splits prod.splits)

lemma commit_round:
  assumes "draft \<noteq> []" and "0 < remaining"
    and "f ctx # forward_preds f ctx draft = target @ [bonus]"
  shows "\<exists>c. plan_greedy_commit draft target bonus remaining eos stop ign = Inr c \<and>
    gc_emitted c \<noteq> [] \<and> int (length (gc_emitted c)) \<le> remaining \<and>
    cached_input_count c = length (gc_emitted c) \<and> length (gc_emitted c) \<le> Suc (length draft) \<and>
    (let run = greedy_run f stop eos ign ctx (nat remaining);
         rest = greedy_run f stop eos ign (ctx @ gc_emitted c) (nat remaining - length (gc_emitted c)) in
     (case terminal_reason c of
        Some x \<Rightarrow> run = (gc_emitted c, x)
      | None \<Rightarrow> run = (gc_emitted c @ fst rest, snd rest) \<and> int (length (gc_emitted c)) < remaining))"
proof -
  have len: "length target = length draft" using arg_cong [OF assms(3), of length] by simp
  have eqs: "butlast (f ctx # forward_preds f ctx draft) = target" "last (f ctx # forward_preds f ctx draft) = bonus"
    unfolding assms(3) by simp_all
  let ?cs = "take (nat remaining) (round_candidates draft target bonus)"
  have chain: "greedy_chain f ctx ?cs" using greedy_chain_take [OF candidates_chain [of f ctx draft]] unfolding eqs .
  have cs: "?cs \<noteq> []" "length ?cs \<le> nat remaining" "length ?cs \<le> Suc (length draft)"
    using length_candidates [of draft target bonus] len assms(2) match_len_le(1) [of draft target] by auto
  obtain es r where e: "emit_until stop eos ign ?cs = (es, r)" by fastforce
  note u = emit_until_chain [OF chain cs(2) e]
  have b: "es \<noteq> []" "length es \<le> nat remaining" using u(3,4) cs by auto
  then have br: "int (length es) \<le> remaining" using assms(2) by linarith
  show ?thesis
  proof (cases r)
    case (Some x)
    with e u b br cs len assms(1,2) show ?thesis by (simp add: plan_greedy_commit_def Let_def)
  next
    case None
    with e u b br cs len assms(1,2) show ?thesis
      by (cases "int (length es) = remaining") (auto simp: plan_greedy_commit_def Let_def)
  qed
qed

section \<open>Properties\<close>

text \<open>
  C23: a speculative round commits exactly what plain decoding would emit. When the target's
  predictions are its choices after the context and after each proposal, the emitted tokens
  are a nonempty prefix of the plain greedy run of the remaining tokens. With a terminal
  reason they are that whole run and the reason is the run's; without one the run goes on
  from the committed context. The cached inputs are as many as the emitted tokens.
\<close>

theorem speculative_commit_is_greedy:
  assumes "draft \<noteq> []" and "0 < remaining"
    and "f ctx # forward_preds f ctx draft = target @ [bonus]"
  shows "\<exists>c. plan_greedy_commit draft target bonus remaining eos stop ign = Inr c \<and>
    gc_emitted c \<noteq> [] \<and> int (length (gc_emitted c)) \<le> remaining \<and>
    cached_input_count c = length (gc_emitted c) \<and> length (gc_emitted c) \<le> Suc (length draft) \<and>
    (let run = greedy_run f stop eos ign ctx (nat remaining);
         rest = greedy_run f stop eos ign (ctx @ gc_emitted c) (nat remaining - length (gc_emitted c)) in
     (case terminal_reason c of
        Some x \<Rightarrow> run = (gc_emitted c, x)
      | None \<Rightarrow> run = (gc_emitted c @ fst rest, snd rest) \<and> int (length (gc_emitted c)) < remaining))"
  by (rule commit_round [OF assms])

theorem speculative_commit_is_greedy_witness:
  "\<exists>c. plan_greedy_commit [2, 3] [2, 9] 7 5 {} {} False = Inr c \<and> gc_emitted c = [2, 9]"
proof -
  let ?f = "\<lambda>ctx :: int list. if ctx = [1] then 2 else if ctx = [1, 2] then 9 else 7"
  have d: "[2, 3 :: int] \<noteq> []" "0 < (5 :: int)"
    "?f [1] # forward_preds ?f [1] [2, 3] = [2, 9] @ [7]" by simp_all
  have "\<exists>c. plan_greedy_commit [2, 3] [2, 9] 7 5 {} {} False = Inr c \<and> gc_emitted c = [2, 9]"
    by (simp add: plan_greedy_commit_def round_candidates_def Let_def)
  with speculative_commit_is_greedy [OF d, of "{}" "{}" False] show ?thesis by blast
qed

end
