(* ===== verification/Proposers.thy ===== *)
theory Proposers
  imports Acceptance
begin

text \<open>
  The token proposers of the live engine: \<open>engine/speculative/proposer.py\<close>,
  \<open>ngram.py\<close> and \<open>draft_model.py\<close>.
\<close>

section \<open>Proposals\<close>

record proposal =
  pr_token_ids :: "int list"
  pr_method :: string
  pr_matched_tokens :: nat

definition make_proposal :: "int list \<Rightarrow> string \<Rightarrow> nat \<Rightarrow> proposal result" where
  "make_proposal ts name matched =
     (if list_ex (\<lambda>t. t < 0) ts then Inl ValueError
      else Inr \<lparr>pr_token_ids = ts, pr_method = name, pr_matched_tokens = matched\<rparr>)"

definition pr_depth :: "proposal \<Rightarrow> nat" where
  "pr_depth p = length (pr_token_ids p)"

section \<open>Copying the continuation of an earlier occurrence\<close>

record ngram_proposer =
  min_match :: int
  max_match :: int

definition ngram_init :: "int \<Rightarrow> int \<Rightarrow> ngram_proposer result" where
  "ngram_init mn mx = (if mn \<le> 0 \<or> mx < mn then Inl ValueError else Inr \<lparr>min_match = mn, max_match = mx\<rparr>)"

definition slice :: "'a list \<Rightarrow> nat \<Rightarrow> nat \<Rightarrow> 'a list" where
  "slice xs i j = drop i (take j xs)"

text \<open>\<open>for start in range(suffix_start - width, -1, -1)\<close>\<close>

fun scan_starts :: "int list \<Rightarrow> nat \<Rightarrow> nat \<Rightarrow> nat list \<Rightarrow> int list option" where
  "scan_starts tokens width mx [] = None"
| "scan_starts tokens width mx (start # rest) =
     (if slice tokens start (start + width) \<noteq> drop (length tokens - width) tokens then scan_starts tokens width mx rest
      else
        let continuation = slice tokens (start + width) (min (start + width + mx) (length tokens)) in
        if continuation \<noteq> [] then Some continuation else scan_starts tokens width mx rest)"

text \<open>\<open>for width in range(largest, min_match - 1, -1)\<close>\<close>

fun scan_widths :: "int list \<Rightarrow> nat \<Rightarrow> nat list \<Rightarrow> (int list \<times> nat) option" where
  "scan_widths tokens mx [] = None"
| "scan_widths tokens mx (width # rest) =
     (case scan_starts tokens width mx (rev [0..<Suc (length tokens - width - width)]) of
        Some continuation \<Rightarrow> Some (continuation, width)
      | None \<Rightarrow> scan_widths tokens mx rest)"

definition ngram_propose :: "ngram_proposer \<Rightarrow> int list \<Rightarrow> int \<Rightarrow> proposal result" where
  "ngram_propose p history max_tokens =
     (if max_tokens \<le> 0 then make_proposal [] ''ngram'' 0
      else
        let largest = min (max_match p) (int (length history) div 2) in
        case scan_widths history (nat max_tokens) (rev [nat (min_match p)..<Suc (nat largest)]) of
          Some (continuation, width) \<Rightarrow> make_proposal continuation ''ngram'' width
        | None \<Rightarrow> make_proposal [] ''ngram'' 0)"

text \<open>An earlier occurrence of the last \<open>w\<close> tokens that ends before they begin.\<close>

definition occurs_at :: "int list \<Rightarrow> nat \<Rightarrow> nat \<Rightarrow> bool" where
  "occurs_at tokens w i \<longleftrightarrow> i + 2 * w \<le> length tokens \<and> take w (drop i tokens) = drop (length tokens - w) tokens"

lemma slice_take: "slice xs i (i + w) = take w (drop i xs)"
  by (simp add: slice_def drop_take)

lemma scan_starts_run:
  assumes "0 < mx" and "0 < width" and "2 * width \<le> length tokens" and "k \<le> Suc (length tokens - 2 * width)"
  shows "(case scan_starts tokens width mx (rev [0..<k]) of
      None \<Rightarrow> \<forall>i < k. \<not> occurs_at tokens width i
    | Some c \<Rightarrow> \<exists>i < k. occurs_at tokens width i \<and> c = take mx (drop (i + width) tokens) \<and> c \<noteq> [] \<and>
        (\<forall>j. i < j \<and> j < k \<longrightarrow> \<not> occurs_at tokens width j))"
  using assms(4)
proof (induction k)
  case (Suc k)
  let ?c = "slice tokens (k + width) (min (k + width + mx) (length tokens))"
  have fit: "k + 2 * width \<le> length tokens" using Suc.prems assms(3) by linarith
  have c: "?c = take mx (drop (k + width) tokens)"
    by (cases "k + width + mx \<le> length tokens") (simp_all add: slice_def drop_take)
  have ne: "?c \<noteq> []" using fit assms(1,2) c by simp
  have occ: "slice tokens k (k + width) = drop (length tokens - width) tokens \<longleftrightarrow> occurs_at tokens width k"
    using fit by (simp add: occurs_at_def slice_take)
  show ?case
  proof (cases "occurs_at tokens width k")
    case True
    with occ c ne show ?thesis by (auto simp: Let_def intro!: exI [of _ k])
  next
    case False
    with occ Suc show ?thesis
      by (cases "scan_starts tokens width mx (rev [0..<k])") (auto simp: less_Suc_eq)
  qed
qed simp

lemma scan_widths_run:
  assumes "0 < mx" and "0 < lo" and "2 * hi \<le> length tokens + 2"
  shows "(case scan_widths tokens mx (rev [lo..<hi]) of
      None \<Rightarrow> \<forall>w i. lo \<le> w \<and> w < hi \<longrightarrow> \<not> occurs_at tokens w i
    | Some (c, w) \<Rightarrow> lo \<le> w \<and> w < hi \<and>
        (\<exists>i. occurs_at tokens w i \<and> c = take mx (drop (i + w) tokens) \<and> c \<noteq> [] \<and> (\<forall>j > i. \<not> occurs_at tokens w j)) \<and>
        (\<forall>w' i. w < w' \<and> w' < hi \<longrightarrow> \<not> occurs_at tokens w' i))"
  using assms(3)
proof (induction hi)
  case (Suc hi)
  show ?case
  proof (cases "lo \<le> hi")
    case False
    then show ?thesis by auto
  next
    case True
    have hi: "0 < hi" "2 * hi \<le> length tokens" using assms(2) True Suc.prems by simp_all
    have none: "\<not> occurs_at tokens hi i" if "Suc (length tokens - 2 * hi) \<le> i" for i
    proof -
      have "\<not> i + 2 * hi \<le> length tokens" using that hi by linarith
      then show ?thesis by (simp only: occurs_at_def simp_thms)
    qed
    have st: "length tokens - hi - hi = length tokens - 2 * hi" by simp
    have top: "rev [lo..<Suc hi] = hi # rev [lo..<hi]" using True by simp
    note sc = scan_starts_run [OF assms(1) hi le_refl]
    show ?thesis
    proof (cases "scan_starts tokens hi mx (rev [0..<Suc (length tokens - 2 * hi)])")
      case None
      then have out: "\<not> occurs_at tokens hi i" for i using sc none by (cases "i < Suc (length tokens - 2 * hi)") auto
      have e: "scan_widths tokens mx (rev [lo..<Suc hi]) = scan_widths tokens mx (rev [lo..<hi])"
        unfolding top scan_widths.simps st None by simp
      have IH: "2 * hi \<le> length tokens + 2" using Suc.prems by simp
      show ?thesis
      proof (cases "scan_widths tokens mx (rev [lo..<hi])")
        case None
        with Suc.IH [OF IH] out e show ?thesis by (auto simp: less_Suc_eq)
      next
        case (Some p)
        with Suc.IH [OF IH] out e show ?thesis by (auto simp: less_Suc_eq split: prod.splits)
      qed
    next
      case (Some c)
      with sc obtain i where i: "occurs_at tokens hi i" "c = take mx (drop (i + hi) tokens)" "c \<noteq> []"
        "\<forall>j. i < j \<and> j < Suc (length tokens - 2 * hi) \<longrightarrow> \<not> occurs_at tokens hi j" by auto
      then have "\<forall>j > i. \<not> occurs_at tokens hi j" using none by (meson not_less)
      moreover have "scan_widths tokens mx (rev [lo..<Suc hi]) = Some (c, hi)"
        unfolding top scan_widths.simps st Some by simp
      ultimately show ?thesis using True i by auto
    qed
  qed
qed simp

text \<open>
  C25: a lookup proposal copies the most recent occurrence of the longest repeated suffix.
  On a history of token ids, a nonempty proposal is the continuation, at most \<open>max_tokens\<close>
  long, of the latest earlier occurrence of the last \<open>w\<close> tokens, \<open>w\<close> is the reported match
  width within the configured bounds, and no wider suffix within them occurs earlier. An
  empty proposal means that no suffix of a permitted width occurs earlier at all.
\<close>

theorem ngram_copies_longest_recent_match:
  assumes "ngram_init mn mx = Inr p" and "0 < max_tokens" and "\<forall>t \<in> set history. 0 \<le> t"
  shows "\<exists>pr. ngram_propose p history max_tokens = Inr pr \<and>
    (if pr_token_ids pr = [] then
       \<forall>w i. mn \<le> int w \<and> int w \<le> mx \<longrightarrow> \<not> occurs_at history w i
     else
       let w = pr_matched_tokens pr in
       mn \<le> int w \<and> int w \<le> mx \<and>
       (\<exists>i. occurs_at history w i \<and> pr_token_ids pr = take (nat max_tokens) (drop (i + w) history) \<and>
          (\<forall>j > i. \<not> occurs_at history w j)) \<and>
       (\<forall>w' i. w < w' \<and> int w' \<le> mx \<longrightarrow> \<not> occurs_at history w' i))"
proof -
  have p: "0 < mn" "mn \<le> mx" "min_match p = mn" "max_match p = mx"
    using assms(1) by (auto simp: ngram_init_def split: if_splits)
  let ?hi = "Suc (nat (min mx (int (length history) div 2)))"
  have lo: "0 < nat mn" and mt: "0 < nat max_tokens" using p assms(2) by simp_all
  have "nat (min mx (int (length history) div 2)) \<le> length history div 2" by (simp add: nat_le_iff zdiv_int)
  then have "2 * nat (min mx (int (length history) div 2)) \<le> 2 * (length history div 2)" by simp
  then have hi: "2 * ?hi \<le> length history + 2" using times_div_less_eq_dividend [of 2 "length history"] by simp
  have wide: "\<not> occurs_at history w i" if "?hi \<le> w" "int w \<le> mx" for w i
  proof -
    have "int (length history) div 2 < int w" using that p by linarith
    then show ?thesis unfolding occurs_at_def by linarith
  qed
  have rng: "nat mn \<le> w \<longleftrightarrow> mn \<le> int w" "w < ?hi \<longrightarrow> int w \<le> mx" for w using p by linarith+
  note run = scan_widths_run [OF mt lo hi]
  show ?thesis
  proof (cases "scan_widths history (nat max_tokens) (rev [nat mn..<?hi])")
    case None
    then have no: "\<forall>w i. nat mn \<le> w \<and> w < ?hi \<longrightarrow> \<not> occurs_at history w i" using run by simp
    have "\<not> occurs_at history w i" if "mn \<le> int w" "int w \<le> mx" for w i
      using no wide [of w i] that rng(1) [of w] by (cases "w < ?hi") auto
    then show ?thesis using None assms(2) p
      by (simp add: ngram_propose_def make_proposal_def Let_def del: upt_Suc)
  next
    case (Some q)
    obtain c w where q: "q = (c, w)" by fastforce
    from run Some q obtain i where w: "nat mn \<le> w" "w < ?hi" and i: "occurs_at history w i"
      "c = take (nat max_tokens) (drop (i + w) history)" "c \<noteq> []" "\<forall>j > i. \<not> occurs_at history w j"
      and longer: "\<forall>w' i. w < w' \<and> w' < ?hi \<longrightarrow> \<not> occurs_at history w' i" by auto
    have "\<not> occurs_at history w' i'" if "w < w'" "int w' \<le> mx" for w' i'
      using longer wide [of w' i'] that by (cases "w' < ?hi") auto
    moreover have "\<not> list_ex (\<lambda>t. t < 0) c"
      using i(2) assms(3) by (force simp: list_ex_iff dest: in_set_takeD in_set_dropD)
    ultimately show ?thesis using Some q i w rng p assms(2)
      by (auto simp: ngram_propose_def make_proposal_def Let_def simp del: upt_Suc)
  qed
qed

theorem ngram_copies_longest_recent_match_witness:
  "\<exists>p pr. ngram_init 1 3 = Inr p \<and> ngram_propose p [5, 6, 7, 5, 6] 2 = Inr pr \<and> pr_token_ids pr = [7, 5]"
proof -
  obtain p where p: "ngram_init 1 3 = Inr p" by (simp add: ngram_init_def)
  have h: "(0 :: int) < 2" "\<forall>t \<in> set [5, 6, 7, 5, 6 :: int]. 0 \<le> t" by simp_all
  have "min_match p = 1" "max_match p = 3" using p by (auto simp: ngram_init_def)
  moreover have "rev [nat 1..<Suc (nat 2)] = [2, 1]" by (simp add: upt_rec)
  moreover have "scan_widths [5, 6, 7, 5, 6] (nat 2) [2, 1] = Some ([7, 5], 2)" by (simp add: slice_def upt_rec)
  ultimately have "\<exists>pr. ngram_propose p [5, 6, 7, 5, 6] 2 = Inr pr \<and> pr_token_ids pr = [7, 5]"
    by (simp add: ngram_propose_def make_proposal_def del: upt_Suc)
  with ngram_copies_longest_recent_match [OF p h] p show ?thesis by blast
qed

section \<open>A draft model on a second device\<close>

record draft_state =
  ds_cache :: "int list"
  ds_tokens :: "int list"
  ds_next :: int

record draft_proposer =
  dp_states :: "string \<rightharpoonup> draft_state"
  dp_proposal_ms :: real
  dp_proposed_tokens :: int
  dp_rollback_tokens :: int

definition draft_proposer_init :: draft_proposer where
  "draft_proposer_init = \<lparr>dp_states = Map.empty, dp_proposal_ms = 0, dp_proposed_tokens = 0, dp_rollback_tokens = 0\<rparr>"

fun common_prefix :: "int list \<Rightarrow> int list \<Rightarrow> nat" where
  "common_prefix (x # xs) (y # ys) = (if x \<noteq> y then 0 else Suc (common_prefix xs ys))"
| "common_prefix xs ys = 0"

text \<open>A forward whose attention mask does not span the cache and the input is refused.\<close>

definition forward_ids :: "lm \<Rightarrow> int list \<Rightarrow> int list \<Rightarrow> nat \<Rightarrow> draft_state result" where
  "forward_ids g ids cache prefix_length =
     (if prefix_length + length ids \<noteq> length cache + length ids then Inl RuntimeError
      else Inr \<lparr>ds_cache = cache @ ids, ds_tokens = [], ds_next = last (forward_preds g cache ids)\<rparr>)"

definition forward_tokens :: "lm \<Rightarrow> int list \<Rightarrow> int list \<Rightarrow> nat \<Rightarrow> draft_state result" where
  "forward_tokens g ts cache prefix_length =
     (if ts = [] then Inl ValueError else forward_ids g ts cache prefix_length)"

definition synchronize ::
  "lm \<Rightarrow> string \<Rightarrow> int list \<Rightarrow> draft_proposer \<Rightarrow> (draft_state \<times> draft_proposer) result" where
  "synchronize g rid history p =
     (case dp_states p rid of
        None \<Rightarrow> and_then (forward_tokens g history [] 0) (\<lambda>st. Inr (st\<lparr>ds_tokens := history\<rparr>, p))
      | Some st \<Rightarrow>
          let common = common_prefix (ds_tokens st) history;
              suffix = drop common history in
          if suffix = [] then
            and_then (forward_tokens g history [] 0) (\<lambda>st. Inr (st\<lparr>ds_tokens := history\<rparr>, p))
          else
            and_then (forward_tokens g suffix (take common (ds_cache st)) common) (\<lambda>adv.
              Inr (adv\<lparr>ds_tokens := history\<rparr>,
                   p\<lparr>dp_rollback_tokens := dp_rollback_tokens p + (int (length (ds_tokens st)) - int common)\<rparr>)))"

text \<open>\<open>for step in range(max_tokens)\<close>, starting at \<open>step\<close> with \<open>n\<close> turns left.\<close>

fun draft_loop :: "lm \<Rightarrow> nat \<Rightarrow> nat \<Rightarrow> nat \<Rightarrow> draft_state \<Rightarrow> (int list \<times> draft_state) result" where
  "draft_loop g committed step 0 st = Inr ([], st)"
| "draft_loop g committed step (Suc n) st =
     and_then (forward_ids g [ds_next st] (ds_cache st) (committed + step)) (\<lambda>adv.
     and_then (draft_loop g committed (Suc step) n
         \<lparr>ds_cache = ds_cache adv, ds_tokens = [], ds_next = ds_next adv\<rparr>)
       (\<lambda>(ts, st'). Inr (ds_next st # ts, st')))"

definition draft_propose ::
  "lm \<Rightarrow> real \<Rightarrow> int list \<Rightarrow> int \<Rightarrow> string option \<Rightarrow> draft_proposer \<Rightarrow> (proposal \<times> draft_proposer) result" where
  "draft_propose g elapsed_ms history max_tokens rid p =
     (if max_tokens \<le> 0 then and_then (make_proposal [] ''draft_model'' 0) (\<lambda>pr. Inr (pr, p))
      else case rid of
        None \<Rightarrow> Inl ValueError
      | Some r \<Rightarrow>
          if history = [] then and_then (make_proposal [] ''draft_model'' 0) (\<lambda>pr. Inr (pr, p))
          else
            and_then (synchronize g r history p) (\<lambda>(st, p1).
            and_then (draft_loop g (length history) 0 (nat max_tokens) st) (\<lambda>(ts, st').
            and_then (make_proposal ts ''draft_model'' 0) (\<lambda>pr.
              Inr (pr, p1\<lparr>dp_states := (dp_states p1)(r \<mapsto> st'\<lparr>ds_tokens := history @ ts\<rparr>),
                          dp_proposed_tokens := dp_proposed_tokens p1 + int (length ts),
                          dp_proposal_ms := dp_proposal_ms p1 + elapsed_ms\<rparr>)))))"

definition draft_forget :: "string \<Rightarrow> draft_proposer \<Rightarrow> draft_proposer" where
  "draft_forget rid p = p\<lparr>dp_states := (dp_states p)(rid := None)\<rparr>"

definition draft_reset :: "draft_proposer \<Rightarrow> draft_proposer" where
  "draft_reset p = p\<lparr>dp_states := Map.empty\<rparr>"

fun greedy_tokens :: "lm \<Rightarrow> int list \<Rightarrow> nat \<Rightarrow> int list" where
  "greedy_tokens g ctx 0 = []"
| "greedy_tokens g ctx (Suc n) = g ctx # greedy_tokens g (ctx @ [g ctx]) n"

lemma length_greedy_tokens [simp]: "length (greedy_tokens g ctx n) = n"
  by (induction n arbitrary: ctx) auto

lemma greedy_tokens_chain: "greedy_chain g ctx (greedy_tokens g ctx n)"
  by (induction n arbitrary: ctx) auto

text \<open>Every retained cache holds exactly the tokens it is remembered for.\<close>

definition draft_inv :: "draft_proposer \<Rightarrow> bool" where
  "draft_inv p \<longleftrightarrow> (\<forall>rid st. dp_states p rid = Some st \<longrightarrow> ds_cache st = ds_tokens st)"

inductive draft_reachable :: "lm \<Rightarrow> draft_proposer \<Rightarrow> bool" for g where
  draft_start: "draft_reachable g draft_proposer_init"
| draft_step: "draft_reachable g p \<Longrightarrow> draft_propose g ms history k rid p = Inr (pr, p') \<Longrightarrow> draft_reachable g p'"
| draft_drop: "draft_reachable g p \<Longrightarrow> draft_reachable g (draft_forget rid p)"
| draft_clear: "draft_reachable g p \<Longrightarrow> draft_reachable g (draft_reset p)"

lemma common_prefix_take: "take (common_prefix xs ys) xs = take (common_prefix xs ys) ys"
  by (induction xs ys rule: common_prefix.induct) auto

lemma common_prefix_le: "common_prefix xs ys \<le> length xs" "common_prefix xs ys \<le> length ys"
  by (induction xs ys rule: common_prefix.induct) auto

lemma forward_tokens_ok:
  "ts \<noteq> [] \<Longrightarrow> k = length c \<Longrightarrow> forward_tokens g ts c k = Inr \<lparr>ds_cache = c @ ts, ds_tokens = [], ds_next = g (c @ ts)\<rparr>"
  using last_forward_preds [of g c ts] by (cases ts) (auto simp: forward_tokens_def forward_ids_def)

lemma synchronize_ok:
  assumes "draft_inv p" and "history \<noteq> []"
  shows "\<exists>st p1. synchronize g rid history p = Inr (st, p1) \<and> ds_cache st = history \<and> ds_next st = g history \<and>
    dp_states p1 = dp_states p"
proof (cases "dp_states p rid")
  case None
  then show ?thesis using forward_tokens_ok [of history 0 "[]" g] assms(2) by (simp add: synchronize_def)
next
  case (Some st)
  let ?k = "common_prefix (ds_tokens st) history"
  have c: "ds_cache st = ds_tokens st" using assms(1) Some by (simp add: draft_inv_def)
  have "take ?k (ds_cache st) @ drop ?k history = history"
    using common_prefix_take [of "ds_tokens st" history] c by simp
  moreover have "?k = length (take ?k (ds_cache st))" using common_prefix_le(1) [of "ds_tokens st" history] c by simp
  ultimately show ?thesis
    using Some assms(2) forward_tokens_ok [of history 0 "[]" g]
      forward_tokens_ok [of "drop ?k history" ?k "take ?k (ds_cache st)" g]
    by (auto simp: synchronize_def Let_def simp del: append_take_drop_id)
qed

lemma draft_loop_ok:
  assumes "length (ds_cache st) = committed + step" and "ds_next st = g (ds_cache st)"
  shows "\<exists>st'. draft_loop g committed step n st = Inr (greedy_tokens g (ds_cache st) n, st') \<and>
    ds_cache st' = ds_cache st @ greedy_tokens g (ds_cache st) n"
  using assms
proof (induction n arbitrary: step st)
  case (Suc n)
  let ?st = "\<lparr>ds_cache = ds_cache st @ [ds_next st], ds_tokens = [], ds_next = g (ds_cache st @ [ds_next st])\<rparr>"
  from Suc.IH [of ?st "Suc step"] Suc.prems show ?case by (auto simp: forward_ids_def)
qed simp

lemma draft_propose_ok:
  assumes "draft_inv p" and "history \<noteq> []" and "0 < k" and "\<forall>ctx. 0 \<le> g ctx"
  shows "\<exists>pr p'. draft_propose g ms history k (Some rid) p = Inr (pr, p') \<and> pr_token_ids pr = greedy_tokens g history (nat k) \<and>
    draft_inv p'"
proof -
  from synchronize_ok [OF assms(1,2)] obtain st p1 where
    s: "synchronize g rid history p = Inr (st, p1)" "ds_cache st = history" "ds_next st = g history" "dp_states p1 = dp_states p"
    by blast
  from draft_loop_ok [of st "length history" 0 g "nat k"] s(2,3) obtain st' where
    l: "draft_loop g (length history) 0 (nat k) st = Inr (greedy_tokens g history (nat k), st')"
      "ds_cache st' = history @ greedy_tokens g history (nat k)" by auto
  have "\<not> list_ex (\<lambda>t. t < 0) (greedy_tokens g ctx n)" for ctx n
    using assms(4) by (induction n arbitrary: ctx) (auto simp: not_less)
  then show ?thesis
    using s l assms by (auto simp: draft_propose_def make_proposal_def draft_inv_def)
qed

lemma draft_inv_reachable: "draft_reachable g p \<Longrightarrow> draft_inv p"
proof (induction rule: draft_reachable.induct)
  case (draft_step p ms history k rid pr p')
  show ?case
  proof (cases "0 < k \<and> rid \<noteq> None \<and> history \<noteq> []")
    case False
    with draft_step show ?thesis by (auto simp: draft_propose_def split: if_splits option.splits)
  next
    case True
    then obtain r where r: "rid = Some r" by blast
    from synchronize_ok [OF draft_step.IH] True obtain st p1 where
      s: "synchronize g r history p = Inr (st, p1)" "ds_cache st = history" "ds_next st = g history" "dp_states p1 = dp_states p"
      by blast
    from draft_loop_ok [of st "length history" 0 g "nat k"] s(2,3) obtain st' where
      l: "draft_loop g (length history) 0 (nat k) st = Inr (greedy_tokens g history (nat k), st')"
        "ds_cache st' = history @ greedy_tokens g history (nat k)" by auto
    from draft_step.hyps(2) r True s l draft_step.IH show ?thesis
      by (auto simp: draft_propose_def draft_inv_def split: if_splits)
  qed
qed (auto simp: draft_inv_def draft_proposer_init_def draft_forget_def draft_reset_def)

text \<open>
  C26: the retained draft caches are invisible. Whatever proposals, rollbacks, forgets and
  resets came before, a proposal for a nonempty history never raises and is the draft
  model's own greedy continuation of that history, as a fresh proposer would compute it.
\<close>

theorem draft_proposals_are_stateless:
  assumes "draft_reachable g p" and "history \<noteq> []" and "0 < max_tokens" and "\<forall>ctx. 0 \<le> g ctx"
  shows "\<exists>pr p' p0. draft_propose g ms history max_tokens (Some rid) p = Inr (pr, p') \<and>
    draft_propose g ms history max_tokens (Some rid) draft_proposer_init = Inr (pr, p0) \<and>
    length (pr_token_ids pr) = nat max_tokens \<and> greedy_chain g history (pr_token_ids pr)"
proof -
  have i: "draft_inv p" "draft_inv draft_proposer_init"
    using draft_inv_reachable [OF assms(1)] draft_inv_reachable [OF draft_start] by auto
  from draft_propose_ok [OF i(1) assms(2-4), where ms = ms and rid = rid]
    draft_propose_ok [OF i(2) assms(2-4), where ms = ms and rid = rid]
  obtain pr p' pr0 p0 where "draft_propose g ms history max_tokens (Some rid) p = Inr (pr, p')"
    "draft_propose g ms history max_tokens (Some rid) draft_proposer_init = Inr (pr0, p0)"
    "pr_token_ids pr = greedy_tokens g history (nat max_tokens)" "pr_token_ids pr0 = greedy_tokens g history (nat max_tokens)"
    by blast
  moreover from this have "pr = pr0" using assms(2,3) by (auto simp: draft_propose_def make_proposal_def split: if_splits)
  ultimately show ?thesis using greedy_tokens_chain [of g history "nat max_tokens"] by auto
qed

theorem draft_proposals_are_stateless_witness:
  "\<exists>pr p'. draft_propose (\<lambda>ctx. int (length ctx)) 0 [7, 8] 2 (Some ''r'') draft_proposer_init = Inr (pr, p') \<and>
     length (pr_token_ids pr) = 2"
proof -
  have h: "[7, 8 :: int] \<noteq> []" "(0 :: int) < 2" "\<forall>ctx :: int list. 0 \<le> int (length ctx)" by simp_all
  from draft_proposals_are_stateless [OF draft_start h, where ms = 0 and rid = "''r''"] show ?thesis by auto
qed

end
