(* ===== verification/Speculative.thy ===== *)
theory Speculative
  imports Acceptance
begin

text \<open>
  The single-sequence speculative decoders and token proposers of \<open>engine/speculative\<close>:
  \<open>vanilla.py\<close>, \<open>optimized.py\<close>, \<open>ngram.py\<close> and \<open>draft_model.py\<close>.

  A Transformers cache is the list of tokens it was fed; \<open>crop(-n)\<close> drops its last \<open>n\<close>
  tokens and \<open>crop(n)\<close> keeps its first \<open>n\<close>. An attention mask of ones is its width. The
  target model \<open>f\<close> and the draft model \<open>g\<close> are parameters.
\<close>

section \<open>Model states\<close>

record model_state =
  ms_cache :: "int list"
  ms_mask :: nat
  ms_next :: int

definition lm_prefill :: "lm \<Rightarrow> int list \<Rightarrow> model_state result" where
  "lm_prefill f ids =
     (if ids = [] then Inl IndexError
      else Inr \<lparr>ms_cache = ids, ms_mask = length ids, ms_next = last (forward_preds f [] ids)\<rparr>)"

definition lm_decode :: "lm \<Rightarrow> model_state \<Rightarrow> int \<Rightarrow> model_state" where
  "lm_decode f st t =
     \<lparr>ms_cache = ms_cache st @ [t], ms_mask = ms_mask st + 1,
      ms_next = last (forward_preds f (ms_cache st) [t])\<rparr>"

definition vanilla_crop :: "model_state \<Rightarrow> nat \<Rightarrow> model_state result" where
  "vanilla_crop st len =
     (if ms_mask st < len then Inl ValueError
      else Inr (st\<lparr>ms_cache := take (length (ms_cache st) - (ms_mask st - len)) (ms_cache st), ms_mask := len\<rparr>))"

definition optimized_crop :: "model_state \<Rightarrow> nat \<Rightarrow> model_state" where
  "optimized_crop st len =
     st\<lparr>ms_cache := (if len < ms_mask st then take (length (ms_cache st) - (ms_mask st - len)) (ms_cache st) else ms_cache st),
        ms_mask := min len (ms_mask st)\<rparr>"

text \<open>The draft loop: propose the pending prediction, feed it back.\<close>

fun draft_tokens :: "lm \<Rightarrow> nat \<Rightarrow> model_state \<Rightarrow> int list \<times> model_state" where
  "draft_tokens g 0 st = ([], st)"
| "draft_tokens g (Suc n) st =
     (let (ps, st') = draft_tokens g n (lm_decode g st (ms_next st)) in (ms_next st # ps, st'))"

text \<open>The end-of-sequence ids: \<open>generation_config.eos_token_id or tokenizer.eos_token_id\<close>.\<close>

datatype eos_value = NoEos | EosInt int | EosList "int list"

definition truthy_eos :: "eos_value \<Rightarrow> bool" where
  "truthy_eos v = (case v of NoEos \<Rightarrow> False | EosInt k \<Rightarrow> k \<noteq> 0 | EosList ks \<Rightarrow> ks \<noteq> [])"

definition eos_set :: "eos_value \<Rightarrow> eos_value \<Rightarrow> int set result" where
  "eos_set gen tok =
     (case (if truthy_eos gen then gen else tok) of
        NoEos \<Rightarrow> Inl TypeError | EosInt k \<Rightarrow> Inr {k} | EosList ks \<Rightarrow> Inr (set ks))"

fun first_in :: "int set \<Rightarrow> int list \<Rightarrow> nat option" where
  "first_in eos [] = None"
| "first_in eos (t # ts) = (if t \<in> eos then Some 0 else map_option Suc (first_in eos ts))"

section \<open>Vanilla speculative decoding\<close>

record greedy_acceptance =
  ga_emitted :: "int list"
  ga_accepted :: nat
  ga_full :: bool

fun accept_from :: "int list \<Rightarrow> int \<Rightarrow> nat \<Rightarrow> (int \<times> int) list \<Rightarrow> greedy_acceptance" where
  "accept_from draft bonus acc [] = \<lparr>ga_emitted = draft @ [bonus], ga_accepted = acc, ga_full = True\<rparr>"
| "accept_from draft bonus acc ((d, t) # rest) =
     (if d \<noteq> t then \<lparr>ga_emitted = take acc draft @ [t], ga_accepted = acc, ga_full = False\<rparr>
      else accept_from draft bonus (acc + 1) rest)"

definition greedy_accept :: "int list \<Rightarrow> int list \<Rightarrow> int \<Rightarrow> greedy_acceptance result" where
  "greedy_accept draft target bonus =
     (if draft = [] \<or> length draft \<noteq> length target then Inl ValueError
      else Inr (accept_from draft bonus 0 (zip draft target)))"

record spec_run =
  sr_target :: model_state
  sr_draft :: model_state
  sr_emitted :: "int list"
  sr_accepted :: nat
  sr_proposed :: nat
  sr_rounds :: nat

definition vanilla_round ::
  "lm \<Rightarrow> lm \<Rightarrow> int set \<Rightarrow> nat \<Rightarrow> nat \<Rightarrow> spec_run \<Rightarrow> (bool \<times> spec_run) result" where
  "vanilla_round f g eos maxn depth0 s =
     (let depth = min depth0 (maxn - length (sr_emitted s));
          context_length = ms_mask (sr_target s);
          (proposals, draft1) = draft_tokens g depth (sr_draft s);
          verified = forward_preds f (ms_cache (sr_target s)) proposals;
          target_predictions = ms_next (sr_target s) # butlast verified;
          bonus = last verified in
      and_then (greedy_accept proposals target_predictions bonus) (\<lambda>acceptance.
        let eos_index = first_in eos (ga_emitted acceptance);
            round_tokens = (case eos_index of Some i \<Rightarrow> take (i + 1) (ga_emitted acceptance) | None \<Rightarrow> ga_emitted acceptance);
            retained = (case eos_index of Some i \<Rightarrow> min (ga_accepted acceptance) (i + 1) | None \<Rightarrow> ga_accepted acceptance);
            target1 = \<lparr>ms_cache = ms_cache (sr_target s) @ proposals,
                       ms_mask = ms_mask (sr_target s) + length proposals, ms_next = bonus\<rparr> in
        and_then (vanilla_crop target1 (context_length + retained)) (\<lambda>target2.
        and_then (vanilla_crop draft1 (context_length + retained)) (\<lambda>draft2.
          Inr (eos_index \<noteq> None,
               \<lparr>sr_target = lm_decode f target2 (last round_tokens), sr_draft = lm_decode g draft2 (last round_tokens),
                sr_emitted = sr_emitted s @ take (maxn - length (sr_emitted s)) round_tokens,
                sr_accepted = sr_accepted s + retained, sr_proposed = sr_proposed s + length proposals,
                sr_rounds = sr_rounds s + 1\<rparr>)))))"

lemma accept_from_eq:
  "length ds = length ts \<Longrightarrow>
   ga_emitted (accept_from (pre @ ds) bonus (length pre) (zip ds ts)) = pre @ round_candidates ds ts bonus \<and>
   ga_accepted (accept_from (pre @ ds) bonus (length pre) (zip ds ts)) = length pre + match_len ds ts"
proof (induction ds arbitrary: pre ts)
  case Nil
  then show ?case by (simp add: round_candidates_def)
next
  case (Cons d ds)
  then obtain t ts' where ts: "ts = t # ts'" by (cases ts) auto
  show ?case
  proof (cases "d = t")
    case True
    from Cons.IH [of ts' "pre @ [d]"] Cons.prems ts True show ?thesis by (simp add: match_len_Cons)
  qed (simp add: ts match_len_Cons)
qed

lemma greedy_accept_eq:
  assumes "draft \<noteq> []" and "length target = length draft"
  shows "\<exists>a. greedy_accept draft target bonus = Inr a \<and> ga_emitted a = round_candidates draft target bonus \<and>
    ga_accepted a = match_len draft target"
  using accept_from_eq [of draft target "[]" bonus] assms by (simp add: greedy_accept_def)

lemma greedy_accept_nonempty: "greedy_accept draft target bonus = Inr a \<Longrightarrow> ga_emitted a \<noteq> []"
  using accept_from_eq [of draft target "[]" bonus]
  by (auto simp: greedy_accept_def round_candidates_def Let_def split: if_splits)

lemma round_grows:
  assumes "vanilla_round f g eos maxn depth0 s = Inr (ended, s')" and "length (sr_emitted s) < maxn"
  shows "length (sr_emitted s) < length (sr_emitted s')"
  using assms
  by (auto simp: vanilla_round_def Let_def dest!: greedy_accept_nonempty split: prod.splits option.splits)

function vanilla_loop :: "lm \<Rightarrow> lm \<Rightarrow> int set \<Rightarrow> nat \<Rightarrow> nat \<Rightarrow> spec_run \<Rightarrow> spec_run result" where
  "vanilla_loop f g eos maxn depth0 s =
     (if length (sr_emitted s) < maxn then
        and_then (vanilla_round f g eos maxn depth0 s) (\<lambda>(ended, s').
          if ended then Inr s' else vanilla_loop f g eos maxn depth0 s')
      else Inr s)"
  by pat_completeness auto
termination
  by (relation "measure (\<lambda>(f, g, eos, maxn, depth0, s). maxn - length (sr_emitted s))")
    (auto dest: round_grows)

declare vanilla_loop.simps [simp del]

record spec_result =
  sp_token_ids :: "int list"
  sp_accepted :: nat
  sp_proposed :: nat
  sp_rounds :: nat

definition spec_result_of :: "spec_run \<Rightarrow> spec_result" where
  "spec_result_of s = \<lparr>sp_token_ids = sr_emitted s, sp_accepted = sr_accepted s, sp_proposed = sr_proposed s, sp_rounds = sr_rounds s\<rparr>"

definition acceptance_rate :: "spec_result \<Rightarrow> real" where
  "acceptance_rate r = (if sp_proposed r \<noteq> 0 then real (sp_accepted r) / real (sp_proposed r) else 0)"

definition vanilla_generate ::
  "(string \<Rightarrow> int list) \<Rightarrow> lm \<Rightarrow> lm \<Rightarrow> eos_value \<Rightarrow> eos_value \<Rightarrow> string \<Rightarrow> int \<Rightarrow> int \<Rightarrow> spec_result result" where
  "vanilla_generate encode f g gen tok prompt max_new_tokens speculation_depth =
     (if prompt = [] \<or> max_new_tokens < 1 \<or> speculation_depth < 1 then Inl ValueError
      else
        and_then (lm_prefill f (encode prompt)) (\<lambda>t.
        and_then (lm_prefill g (encode prompt)) (\<lambda>d.
        and_then (eos_set gen tok) (\<lambda>eos.
        and_then (vanilla_loop f g eos (nat max_new_tokens) (nat speculation_depth)
            \<lparr>sr_target = t, sr_draft = d, sr_emitted = [], sr_accepted = 0, sr_proposed = 0, sr_rounds = 0\<rparr>)
          (\<lambda>s. Inr (spec_result_of s))))))"

section \<open>The optimized decoder\<close>

text \<open>Stacking the proposals of a round of depth zero raises: there is no tensor to stack.\<close>

definition optimized_round ::
  "lm \<Rightarrow> lm \<Rightarrow> int set \<Rightarrow> nat \<Rightarrow> nat \<Rightarrow> spec_run \<Rightarrow> (bool \<times> spec_run) result" where
  "optimized_round f g eos maxn depth0 s =
     (let depth = min depth0 (maxn - length (sr_emitted s));
          context_length = ms_mask (sr_target s);
          (proposals, draft1) = draft_tokens g depth (sr_draft s) in
      if depth = 0 then Inl RuntimeError else
      let verified = forward_preds f (ms_cache (sr_target s)) proposals;
          target_predictions = ms_next (sr_target s) # butlast verified;
          bonus = last verified;
          accepted = match_len proposals target_predictions;
          round0 = (if accepted = depth then proposals @ [bonus]
                    else take accepted proposals @ [target_predictions ! accepted]);
          eos_index = first_in eos round0;
          round_tokens = (case eos_index of Some i \<Rightarrow> take (i + 1) round0 | None \<Rightarrow> round0);
          retained = (case eos_index of Some i \<Rightarrow> min accepted (i + 1) | None \<Rightarrow> accepted);
          final_token = last round_tokens;
          target1 = \<lparr>ms_cache = ms_cache (sr_target s) @ proposals,
                     ms_mask = ms_mask (sr_target s) + depth, ms_next = final_token\<rparr>;
          target2 = optimized_crop target1 (context_length + retained);
          draft2 = optimized_crop draft1 (context_length + retained) in
      Inr (eos_index \<noteq> None,
           \<lparr>sr_target = lm_decode f target2 final_token, sr_draft = lm_decode g draft2 final_token,
            sr_emitted = sr_emitted s @ take (maxn - length (sr_emitted s)) round_tokens,
            sr_accepted = sr_accepted s + retained, sr_proposed = sr_proposed s + depth,
            sr_rounds = sr_rounds s + 1\<rparr>))"

lemma optimized_round_grows:
  assumes "optimized_round f g eos maxn depth0 s = Inr (ended, s')" and "length (sr_emitted s) < maxn"
  shows "length (sr_emitted s) < length (sr_emitted s')"
  using assms by (auto simp: optimized_round_def Let_def split: prod.splits option.splits if_splits)

function optimized_loop :: "lm \<Rightarrow> lm \<Rightarrow> int set \<Rightarrow> nat \<Rightarrow> nat \<Rightarrow> spec_run \<Rightarrow> spec_run result" where
  "optimized_loop f g eos maxn depth0 s =
     (if length (sr_emitted s) < maxn then
        and_then (optimized_round f g eos maxn depth0 s) (\<lambda>(ended, s').
          if ended then Inr s' else optimized_loop f g eos maxn depth0 s')
      else Inr s)"
  by pat_completeness auto
termination
  by (relation "measure (\<lambda>(f, g, eos, maxn, depth0, s). maxn - length (sr_emitted s))")
    (auto dest: optimized_round_grows)

declare optimized_loop.simps [simp del]

definition optimized_generate ::
  "(string \<Rightarrow> int list) \<Rightarrow> lm \<Rightarrow> lm \<Rightarrow> eos_value \<Rightarrow> eos_value \<Rightarrow> string \<Rightarrow> int \<Rightarrow> int \<Rightarrow> spec_result result" where
  "optimized_generate encode f g gen tok prompt max_new_tokens speculation_depth =
     and_then (lm_prefill f (encode prompt)) (\<lambda>t.
     and_then (lm_prefill g (encode prompt)) (\<lambda>d.
     and_then (eos_set gen tok) (\<lambda>eos.
     and_then (optimized_loop f g eos (nat max_new_tokens) (nat speculation_depth)
         \<lparr>sr_target = t, sr_draft = d, sr_emitted = [], sr_accepted = 0, sr_proposed = 0, sr_rounds = 0\<rparr>)
       (\<lambda>s. Inr (spec_result_of s)))))"

text \<open>The coherent states between rounds: both caches hold exactly the committed context.\<close>

definition holds :: "lm \<Rightarrow> int list \<Rightarrow> model_state \<Rightarrow> bool" where
  "holds f ctx st \<longleftrightarrow> ms_cache st = ctx \<and> ms_mask st = length ctx \<and> ms_next st = f ctx"

lemma holds_prefill: "ids \<noteq> [] \<Longrightarrow> \<exists>st. lm_prefill f ids = Inr st \<and> holds f ids st"
  using last_forward_preds [of f "[]" ids] by (cases ids) (auto simp: lm_prefill_def holds_def)

lemma holds_decode: "holds f ctx st \<Longrightarrow> holds f (ctx @ [t]) (lm_decode f st t)"
  by (simp add: holds_def lm_decode_def)

lemma holds_draft:
  assumes "holds g ctx st"
  shows "\<exists>ps st'. draft_tokens g n st = (ps, st') \<and> length ps = n \<and> holds g (ctx @ ps) st'"
  using assms
proof (induction n arbitrary: ctx st)
  case (Suc n)
  from Suc.IH [OF holds_decode [OF Suc.prems, of "ms_next st"]] show ?case by (fastforce split: prod.split)
qed simp

lemma crop_cached:
  assumes "ms_cache st = ctx @ ps" and "ms_mask st = length (ctx @ ps)" and "k \<le> length ps"
  shows "\<exists>st'. vanilla_crop st (length ctx + k) = Inr st' \<and> optimized_crop st (length ctx + k) = st' \<and>
    ms_cache st' = ctx @ take k ps \<and> ms_mask st' = length (ctx @ take k ps)"
  using assms by (auto simp: vanilla_crop_def optimized_crop_def)

lemma decode_cached:
  "ms_cache st = ctx \<Longrightarrow> ms_mask st = length ctx \<Longrightarrow> holds f (ctx @ [t]) (lm_decode f st t)"
  by (simp add: holds_def lm_decode_def)

text \<open>Cutting a round at its first end-of-sequence token, and then at the length bound.\<close>

definition cut_eos :: "int set \<Rightarrow> int list \<Rightarrow> int list" where
  "cut_eos eos ts = (case first_in eos ts of Some i \<Rightarrow> take (Suc i) ts | None \<Rightarrow> ts)"

lemma cut_eos_simps [simp]:
  "cut_eos eos [] = []"
  "cut_eos eos (t # ts) = (if t \<in> eos then [t] else t # cut_eos eos ts)"
  by (simp_all add: cut_eos_def split: option.split)

lemma cut_eos_bounds: "length (cut_eos eos ts) \<le> length ts" "ts \<noteq> [] \<Longrightarrow> cut_eos eos ts \<noteq> []"
  by (induction ts) auto

lemma cut_eos_emit:
  "\<exists>r. emit_until {} eos False (take n ts) = (take n (cut_eos eos ts), r) \<and>
     (r \<noteq> None \<longleftrightarrow> first_in eos (take n ts) \<noteq> None)"
proof (induction ts arbitrary: n)
  case (Cons t ts)
  show ?case
  proof (cases n)
    case (Suc m)
    from Cons.IH [of m] Suc show ?thesis by (cases "t \<in> eos") auto
  qed simp
qed simp

lemma first_in_take: "first_in eos ts = None \<Longrightarrow> first_in eos (take n ts) = None"
proof (induction ts arbitrary: n)
  case (Cons t ts)
  then show ?case by (cases n) (auto split: if_splits)
qed simp

lemma first_in_bounds: "first_in eos ts = Some i \<Longrightarrow> i < length ts"
  by (induction ts arbitrary: i) (auto split: if_splits)

text \<open>
  One round of either decoder: it never raises from coherent states, both decoders do the
  same, and it commits the candidates up to the first end-of-sequence token and the bound.
\<close>

definition spec_counts_ok :: "spec_run \<Rightarrow> bool" where
  "spec_counts_ok s \<longleftrightarrow> sr_accepted s \<le> sr_proposed s \<and> sr_rounds s \<le> length (sr_emitted s)"

lemma round_ok:
  assumes t: "holds f ctx (sr_target s)" and d: "holds g ctx (sr_draft s)"
    and n: "length (sr_emitted s) < maxn" and depth: "0 < depth0"
  shows "\<exists>cs s'. vanilla_round f g eos maxn depth0 s = Inr (first_in eos cs \<noteq> None, s') \<and>
    optimized_round f g eos maxn depth0 s = Inr (first_in eos cs \<noteq> None, s') \<and>
    cs \<noteq> [] \<and> greedy_chain f ctx cs \<and>
    sr_emitted s' = sr_emitted s @ take (maxn - length (sr_emitted s)) (cut_eos eos cs) \<and>
    (spec_counts_ok s \<longrightarrow> spec_counts_ok s') \<and>
    (first_in eos cs = None \<longrightarrow> holds f (ctx @ cs) (sr_target s') \<and> holds g (ctx @ cs) (sr_draft s'))"
proof -
  let ?depth = "min depth0 (maxn - length (sr_emitted s))"
  from holds_draft [OF d, of ?depth] obtain ps d1 where
    dr: "draft_tokens g ?depth (sr_draft s) = (ps, d1)" "length ps = ?depth" "holds g (ctx @ ps) d1" by blast
  have pos: "0 < ?depth" "ps \<noteq> []" using n depth dr(2) by auto
  let ?v = "forward_preds f ctx ps"
  let ?tp = "f ctx # butlast ?v" and ?bonus = "last ?v"
  have ne: "?v \<noteq> []" using pos(2) by (cases ps) auto
  have eqs: "butlast (f ctx # ?v) = ?tp" "last (f ctx # ?v) = ?bonus" using ne by simp_all
  have lt: "length ?tp = length ps" using pos(2) by (cases "length ps") simp_all
  define cs where "cs = round_candidates ps ?tp ?bonus"
  define a where "a = match_len ps ?tp"
  have chain: "greedy_chain f ctx cs" using candidates_chain [of f ctx ps] unfolding eqs cs_def .
  have len: "length cs = Suc a" using length_candidates [of ps ?tp ?bonus] lt by (simp add: cs_def a_def)
  have a_le: "a \<le> length ps" using match_len_le(1) by (simp add: a_def)
  have pre: "take a cs = take a ps" using a_le by (auto simp: cs_def a_def round_candidates_def Let_def)
  from greedy_accept_eq [OF pos(2) lt, of ?bonus] obtain ga where
    ga: "greedy_accept ps ?tp ?bonus = Inr ga" "ga_emitted ga = cs" "ga_accepted ga = a"
    by (auto simp: cs_def a_def)
  define ret where "ret = (case first_in eos cs of Some i \<Rightarrow> min a (Suc i) | None \<Rightarrow> a)"
  have ret: "ret \<le> length ps" using a_le by (auto simp: ret_def split: option.split)
  let ?t1 = "\<lambda>nx. \<lparr>ms_cache = ctx @ ps, ms_mask = length ctx + length ps, ms_next = nx\<rparr>"
  have "ms_cache (?t1 nx) = ctx @ ps" "ms_mask (?t1 nx) = length (ctx @ ps)" for nx by simp_all
  note ct = crop_cached [OF this ret]
  from ct [of ?bonus] obtain t2 where
    t2: "vanilla_crop (?t1 ?bonus) (length ctx + ret) = Inr t2" "ms_cache t2 = ctx @ take ret ps" by blast
  have d1: "ms_cache d1 = ctx @ ps" "ms_mask d1 = length (ctx @ ps)" using dr(3) by (simp_all add: holds_def)
  from crop_cached [OF d1 ret] obtain d2 where
    d2: "vanilla_crop d1 (length ctx + ret) = Inr d2" "optimized_crop d1 (length ctx + ret) = d2"
      "ms_cache d2 = ctx @ take ret ps" "ms_mask d2 = length (ctx @ take ret ps)" by blast
  have m2: "ms_mask t2 = length (ctx @ take ret ps)" using ct [of ?bonus] t2 by simp
  have same: "lm_decode f (optimized_crop (?t1 nx) (length ctx + ret)) x = lm_decode f t2 x" for nx x
    using ct [of nx] t2 m2 by (auto simp: lm_decode_def)
  define s' where "s' = \<lparr>sr_target = lm_decode f t2 (last (cut_eos eos cs)), sr_draft = lm_decode g d2 (last (cut_eos eos cs)),
     sr_emitted = sr_emitted s @ take (maxn - length (sr_emitted s)) (cut_eos eos cs),
     sr_accepted = sr_accepted s + ret, sr_proposed = sr_proposed s + length ps, sr_rounds = sr_rounds s + 1\<rparr>"
  have tt: "ms_cache (sr_target s) = ctx" "ms_mask (sr_target s) = length ctx" "ms_next (sr_target s) = f ctx"
    using t by (simp_all add: holds_def)
  have "vanilla_round f g eos maxn depth0 s = Inr (first_in eos cs \<noteq> None, s')"
    using ga t2(1) d2(1)
    by (simp add: vanilla_round_def Let_def dr(1) tt s'_def ret_def [symmetric] cut_eos_def [symmetric] cong: option.case_cong)
  moreover have "optimized_round f g eos maxn depth0 s = Inr (first_in eos cs \<noteq> None, s')"
  proof -
    have "(if a = ?depth then ps @ [?bonus] else take a ps @ [?tp ! a]) = cs"
      using dr(2) by (simp add: cs_def a_def round_candidates_def Let_def)
    moreover have nz: "?depth \<noteq> 0" using pos(1) by simp
    ultimately show ?thesis using d2(2) same dr(2)
      by (simp add: if_not_P [OF nz] optimized_round_def Let_def dr(1) tt s'_def a_def [symmetric] ret_def [symmetric] cut_eos_def [symmetric]
        cong: option.case_cong if_cong split del: if_split)
  qed
  moreover have "holds f (ctx @ cs) (sr_target s') \<and> holds g (ctx @ cs) (sr_draft s')" if none: "first_in eos cs = None"
  proof -
    have r: "ret = a" "cut_eos eos cs = cs" using none by (simp_all add: ret_def cut_eos_def)
    have "take a cs @ [last cs] = cs"
      using len by (metis append_butlast_last_id butlast_conv_take diff_Suc_1 length_0_conv nat.simps(3))
    then have e: "ctx @ cs = (ctx @ take a ps) @ [last cs]" using pre by simp
    have "sr_target s' = lm_decode f t2 (last cs)" "sr_draft s' = lm_decode g d2 (last cs)" using r by (simp_all add: s'_def)
    then show ?thesis
      using decode_cached [OF t2(2) m2, of f "last cs"] decode_cached [OF d2(3,4), of g "last cs"] r(1) e by simp
  qed
  moreover have ne_cs: "cs \<noteq> []" using len by auto
  moreover have "spec_counts_ok s \<longrightarrow> spec_counts_ok s'"
  proof -
    have "cut_eos eos cs \<noteq> []" using cut_eos_bounds(2) [OF ne_cs] .
    then have "1 \<le> length (take (maxn - length (sr_emitted s)) (cut_eos eos cs))" using n by (cases "cut_eos eos cs") auto
    then show ?thesis using ret by (auto simp: spec_counts_ok_def s'_def min_def)
  qed
  ultimately show ?thesis using chain by (intro exI [of _ cs] exI [of _ s']) (simp add: s'_def)
qed

text \<open>Plain greedy decoding of the whole request, and what is left of it after some tokens.\<close>

definition plain :: "lm \<Rightarrow> int set \<Rightarrow> int list \<Rightarrow> nat \<Rightarrow> int list" where
  "plain f eos ctx n = fst (greedy_run f {} eos False ctx n)"

lemma plain_round:
  assumes "greedy_chain f ctx cs" and "cs \<noteq> []" and "0 < n"
  shows "plain f eos ctx n = take n (cut_eos eos cs) @
    (if first_in eos cs = None \<and> length cs < n then plain f eos (ctx @ cs) (n - length cs) else [])"
proof -
  obtain r where r: "emit_until {} eos False (take n cs) = (take n (cut_eos eos cs), r)"
    "r \<noteq> None \<longleftrightarrow> first_in eos (take n cs) \<noteq> None" using cut_eos_emit by blast
  have c: "greedy_chain f ctx (take n cs)" "length (take n cs) \<le> n" using greedy_chain_take [OF assms(1)] by auto
  note e = emit_until_chain [OF c r(1)]
  show ?thesis
  proof (cases r)
    case (Some x)
    then have "first_in eos cs \<noteq> None" using r(2) first_in_take by fastforce
    then have "\<not> (first_in eos cs = None \<and> length cs < n)" by blast
    then have "(if first_in eos cs = None \<and> length cs < n then plain f eos (ctx @ cs) (n - length cs) else []) = []"
      by (rule if_not_P)
    with e(1) Some show ?thesis by (simp only: plain_def fst_conv option.case append_Nil2)
  next
    case None
    have es: "take n (cut_eos eos cs) = take n cs" using e(2) None by simp
    show ?thesis
    proof (cases "length cs < n")
      case True
      then have "first_in eos cs = None" using r(2) None by simp
      with e(1) None es True show ?thesis by (simp add: plain_def)
    next
      case False
      with e(1) None es show ?thesis by (simp add: plain_def)
    qed
  qed
qed

lemma loops_ok:
  assumes "0 < depth0" and "length (sr_emitted s) < maxn \<longrightarrow> holds f ctx (sr_target s) \<and> holds g ctx (sr_draft s)"
  shows "\<exists>s'. vanilla_loop f g eos maxn depth0 s = Inr s' \<and> optimized_loop f g eos maxn depth0 s = Inr s' \<and>
    sr_emitted s' = sr_emitted s @ plain f eos ctx (maxn - length (sr_emitted s)) \<and>
    (spec_counts_ok s \<longrightarrow> spec_counts_ok s')"
  using assms
proof (induction f g eos maxn depth0 s arbitrary: ctx rule: vanilla_loop.induct)
  case (1 f g eos maxn depth0 s)
  show ?case
  proof (cases "length (sr_emitted s) < maxn")
    case False
    then show ?thesis by (simp add: vanilla_loop.simps optimized_loop.simps plain_def)
  next
    case True
    let ?n = "maxn - length (sr_emitted s)"
    have h: "holds f ctx (sr_target s)" "holds g ctx (sr_draft s)" using 1(3) True by auto
    from round_ok [OF h True 1(2), of eos] obtain cs s1 where
      r: "vanilla_round f g eos maxn depth0 s = Inr (first_in eos cs \<noteq> None, s1)"
        "optimized_round f g eos maxn depth0 s = Inr (first_in eos cs \<noteq> None, s1)"
        "cs \<noteq> []" "greedy_chain f ctx cs" "sr_emitted s1 = sr_emitted s @ take ?n (cut_eos eos cs)"
        "spec_counts_ok s \<longrightarrow> spec_counts_ok s1"
        "first_in eos cs = None \<longrightarrow> holds f (ctx @ cs) (sr_target s1) \<and> holds g (ctx @ cs) (sr_draft s1)" by (elim exE conjE) (rule that)
    note pl = plain_round [OF r(4,3), of ?n eos]
    show ?thesis
    proof (cases "first_in eos cs")
      case (Some i)
      with r True pl show ?thesis by (simp add: vanilla_loop.simps [of f g eos maxn depth0 s] optimized_loop.simps [of f g eos maxn depth0 s])
    next
      case None
      have cut: "cut_eos eos cs = cs" using None by (simp add: cut_eos_def)
      have next_ok: "length (sr_emitted s1) < maxn \<longrightarrow> holds f (ctx @ cs) (sr_target s1) \<and> holds g (ctx @ cs) (sr_draft s1)"
        using r(7) None by simp
      from 1(1) [OF True r(1) refl _ 1(2) next_ok] None obtain s' where
        s': "vanilla_loop f g eos maxn depth0 s1 = Inr s'" "optimized_loop f g eos maxn depth0 s1 = Inr s'"
          "sr_emitted s' = sr_emitted s1 @ plain f eos (ctx @ cs) (maxn - length (sr_emitted s1))"
          "spec_counts_ok s1 \<longrightarrow> spec_counts_ok s'" by auto
      have "sr_emitted s' = sr_emitted s @ plain f eos ctx ?n"
        using s'(3) r(5) cut pl True None by (auto simp: plain_def)
      with r(1,2,6) s'(1,2,4) None True show ?thesis
        by (simp add: vanilla_loop.simps [of f g eos maxn depth0 s] optimized_loop.simps [of f g eos maxn depth0 s])
    qed
  qed
qed

text \<open>
  C24: speculative decoding is lossless. For every draft model, valid arguments (a positive
  token limit and depth, an end-of-sequence setting) and a prompt that tokenizes to something,
  both decoders return, agree in every reported number, and their tokens are exactly the plain
  greedy decoding of the target model. They never report more proposals accepted than made,
  so the acceptance rate is at most one, and every round committed at least one token.
\<close>

theorem speculation_is_lossless:
  assumes "prompt \<noteq> []" and "encode prompt \<noteq> []" and "1 \<le> max_new_tokens" and "1 \<le> speculation_depth"
    and "eos_set gen tok = Inr eos"
  shows "\<exists>r. vanilla_generate encode f g gen tok prompt max_new_tokens speculation_depth = Inr r \<and>
    optimized_generate encode f g gen tok prompt max_new_tokens speculation_depth = Inr r \<and>
    sp_token_ids r = fst (greedy_run f {} eos False (encode prompt) (nat max_new_tokens)) \<and>
    sp_accepted r \<le> sp_proposed r \<and> acceptance_rate r \<le> 1 \<and> sp_rounds r \<le> length (sp_token_ids r)"
proof -
  from holds_prefill [OF assms(2)] obtain t d where
    td: "lm_prefill f (encode prompt) = Inr t" "holds f (encode prompt) t"
      "lm_prefill g (encode prompt) = Inr d" "holds g (encode prompt) d" by metis
  let ?s = "\<lparr>sr_target = t, sr_draft = d, sr_emitted = [], sr_accepted = 0, sr_proposed = 0, sr_rounds = 0\<rparr>"
  have "0 < nat speculation_depth" using assms(4) by simp
  from loops_ok [OF this, of ?s "nat max_new_tokens" f "encode prompt" g eos] td(2,4) obtain s' where
    "vanilla_loop f g eos (nat max_new_tokens) (nat speculation_depth) ?s = Inr s'"
    "optimized_loop f g eos (nat max_new_tokens) (nat speculation_depth) ?s = Inr s'"
    "sr_emitted s' = plain f eos (encode prompt) (nat max_new_tokens)" "spec_counts_ok s'"
    by (auto simp: spec_counts_ok_def)
  with td(1,3) assms show ?thesis
    by (simp add: vanilla_generate_def optimized_generate_def spec_result_of_def plain_def spec_counts_ok_def
      acceptance_rate_def)
qed

theorem speculation_is_lossless_witness:
  "\<exists>r. vanilla_generate (\<lambda>_. [1]) (\<lambda>ctx. int (length ctx)) (\<lambda>ctx. if length ctx = 2 then 9 else int (length ctx))
      (EosInt 4) NoEos ''p'' 6 3 = Inr r \<and> sp_token_ids r = [1, 2, 3, 4] \<and> sp_accepted r \<le> sp_proposed r"
proof -
  have a: "''p'' \<noteq> []" "(\<lambda>_. [1 :: int]) ''p'' \<noteq> []" "(1 :: int) \<le> 6" "(1 :: int) \<le> 3" "eos_set (EosInt 4) NoEos = Inr {4}"
    by (simp_all add: eos_set_def truthy_eos_def)
  from speculation_is_lossless [OF a, of "\<lambda>ctx. int (length ctx)" "\<lambda>ctx. if length ctx = 2 then 9 else int (length ctx)"]
  obtain r where r: "vanilla_generate (\<lambda>_. [1]) (\<lambda>ctx. int (length ctx)) (\<lambda>ctx. if length ctx = 2 then 9 else int (length ctx))
      (EosInt 4) NoEos ''p'' 6 3 = Inr r" "sp_token_ids r = fst (greedy_run (\<lambda>ctx. int (length ctx)) {} {4} False [1] (nat 6))"
      "sp_accepted r \<le> sp_proposed r" by auto
  moreover have "fst (greedy_run (\<lambda>ctx. int (length ctx)) {} {4} False [1] (nat 6)) = [1, 2, 3, 4 :: int]"
    by (simp add: eval_nat_numeral Let_def)
  ultimately show ?thesis by simp
qed

end
