(* ===== verification/Batched_Speculative.thy ===== *)
theory Batched_Speculative
  imports Speculative
begin

text \<open>
  Speculation over a left-padded batch, \<open>engine/batching/batched_speculative.py\<close>.

  A column of a cache is a token with the position it was rotated to; an attention mask
  says which columns a row sees. The models are functions of the visible columns. The
  padded prompts come from the tokenizer: pads on the left, masked.
\<close>

section \<open>Rows of a padded batch\<close>

type_synonym column = "int \<times> int"
type_synonym plm = "column list \<Rightarrow> int"

record batch_row =
  br_cache :: "column list"
  br_mask :: "bool list"
  br_next :: int

definition visible :: "column list \<Rightarrow> bool list \<Rightarrow> column list" where
  "visible cols msk = map fst (filter snd (zip cols msk))"

definition cumsum_mask :: "bool list \<Rightarrow> int list" where
  "cumsum_mask msk = map (\<lambda>k. int (length (filter id (take (Suc k) msk)))) [0..<length msk]"

definition position_ids_from_mask :: "bool list \<Rightarrow> int list" where
  "position_ids_from_mask msk = map (\<lambda>(m, c). if m then c - 1 else 1) (zip msk (cumsum_mask msk))"

definition batched_prefill :: "plm \<Rightarrow> int list \<Rightarrow> bool list \<Rightarrow> batch_row" where
  "batched_prefill f ids msk =
     (let cols = zip ids (position_ids_from_mask msk) in
      \<lparr>br_cache = cols, br_mask = msk, br_next = f (visible cols msk)\<rparr>)"

definition batched_decode :: "plm \<Rightarrow> batch_row \<Rightarrow> int \<Rightarrow> batch_row" where
  "batched_decode f row t =
     (let new_mask = br_mask row @ [True];
          pos = max 0 (last (cumsum_mask new_mask) - 1);
          cols = br_cache row @ [(t, pos)] in
      \<lparr>br_cache = cols, br_mask = new_mask, br_next = f (visible cols new_mask)\<rparr>)"

definition verify_row :: "plm \<Rightarrow> batch_row \<Rightarrow> int list \<Rightarrow> batch_row \<times> int list" where
  "verify_row f row ps =
     (let verify_mask = br_mask row @ replicate (length ps) True;
          pos = map (\<lambda>c. max 0 (c - 1)) (drop (length (br_mask row)) (cumsum_mask verify_mask));
          cols = zip ps pos;
          preds = map (\<lambda>j. f (visible (br_cache row @ take (Suc j) cols)
                                (take (length (br_cache row) + Suc j) verify_mask))) [0..<length ps] in
      (\<lparr>br_cache = br_cache row @ cols, br_mask = verify_mask, br_next = br_next row\<rparr>, preds))"

definition crop_row :: "nat \<Rightarrow> batch_row \<Rightarrow> batch_row" where
  "crop_row len row =
     row\<lparr>br_cache := take (length (br_cache row) - (length (br_mask row) - len)) (br_cache row),
         br_mask := take len (br_mask row)\<rparr>"

fun draft_row :: "plm \<Rightarrow> nat \<Rightarrow> batch_row \<Rightarrow> int list \<times> batch_row" where
  "draft_row g 0 row = ([], row)"
| "draft_row g (Suc n) row =
     (let (ps, row') = draft_row g n (batched_decode g row (br_next row)) in (br_next row # ps, row'))"

definition left_pad :: "int \<Rightarrow> nat \<Rightarrow> int list \<Rightarrow> int list \<times> bool list" where
  "left_pad pad width ids =
     (replicate (width - length ids) pad @ ids, replicate (width - length ids) False @ replicate (length ids) True)"

text \<open>The model on an unpadded sequence, at positions \<open>0, 1, 2, \<dots>\<close>.\<close>

definition positioned :: "int list \<Rightarrow> column list" where
  "positioned ctx = zip ctx (map int [0..<length ctx])"

definition seq_lm :: "plm \<Rightarrow> lm" where
  "seq_lm f ctx = f (positioned ctx)"

lemma positioned_snoc: "positioned (ctx @ [t]) = positioned ctx @ [(t, int (length ctx))]"
  by (simp add: positioned_def)

lemma length_positioned [simp]: "length (positioned ctx) = length ctx"
  by (simp add: positioned_def)

text \<open>A row holds a context when its visible columns are that context at its positions.\<close>

definition row_ctx :: "int list \<Rightarrow> column list \<Rightarrow> bool list \<Rightarrow> bool" where
  "row_ctx ctx cols msk \<longleftrightarrow> length cols = length msk \<and> visible cols msk = positioned ctx"

definition row_holds :: "plm \<Rightarrow> int list \<Rightarrow> batch_row \<Rightarrow> bool" where
  "row_holds f ctx row \<longleftrightarrow> row_ctx ctx (br_cache row) (br_mask row) \<and> br_next row = seq_lm f ctx"

lemma row_ctx_count:
  assumes "row_ctx ctx cols msk"
  shows "length (filter id msk) = length ctx"
proof -
  have "length (visible cols msk) = length (filter id msk)" if "length cols = length msk"
    using that by (induction cols msk rule: list_induct2) (auto simp: visible_def)
  then show ?thesis using assms by (simp add: row_ctx_def)
qed

lemma row_ctx_snoc: "row_ctx ctx cols msk \<Longrightarrow> row_ctx (ctx @ [t]) (cols @ [(t, int (length ctx))]) (msk @ [True])"
  by (simp add: row_ctx_def visible_def positioned_snoc)

lemma row_ctx_append:
  "row_ctx ctx cols msk \<Longrightarrow>
   row_ctx (ctx @ ps) (cols @ zip ps (map int [length ctx..<length ctx + length ps])) (msk @ replicate (length ps) True)"
proof (induction ps rule: rev_induct)
  case (snoc p ps)
  from row_ctx_snoc [OF snoc.IH [OF snoc.prems], of p] show ?case
    by (simp add: replicate_append_same [symmetric])
qed simp

lemma decode_holds:
  assumes "row_ctx ctx (br_cache row) (br_mask row)"
  shows "row_holds f (ctx @ [t]) (batched_decode f row t)"
  using row_ctx_snoc [OF assms, of t] row_ctx_count [OF assms]
  by (simp add: row_holds_def batched_decode_def cumsum_mask_def Let_def seq_lm_def row_ctx_def)

lemma draft_row_holds:
  assumes "row_holds g ctx row"
  shows "\<exists>ps row'. draft_row g n row = (ps, row') \<and> length ps = n \<and> row_holds g (ctx @ ps) row' \<and>
    br_cache row' = br_cache row @ zip ps (map int [length ctx..<length ctx + n]) \<and>
    br_mask row' = br_mask row @ replicate n True"
  using assms
proof (induction n arbitrary: ctx row)
  case (Suc n)
  let ?row = "batched_decode g row (br_next row)"
  have r: "row_ctx ctx (br_cache row) (br_mask row)" using Suc.prems by (simp add: row_holds_def)
  have "br_cache ?row = br_cache row @ [(br_next row, int (length ctx))]" "br_mask ?row = br_mask row @ [True]"
    using row_ctx_count [OF r] by (simp_all add: batched_decode_def cumsum_mask_def Let_def)
  moreover have "[length ctx..<length ctx + Suc n] = length ctx # [length ctx + Suc 0..<length ctx + Suc 0 + n]"
    by (simp add: upt_conv_Cons del: upt_Suc)
  ultimately show ?case using Suc.IH [OF decode_holds [OF r, of g "br_next row"]]
    by (auto simp del: upt_Suc add_Suc_right split: prod.splits)
qed simp

lemma verify_row_holds:
  assumes "row_holds f ctx row"
  shows "verify_row f row ps =
    (\<lparr>br_cache = br_cache row @ zip ps (map int [length ctx..<length ctx + length ps]),
      br_mask = br_mask row @ replicate (length ps) True, br_next = br_next row\<rparr>,
     forward_preds (seq_lm f) ctx ps)"
proof -
  note r = assms [unfolded row_holds_def, THEN conjunct1]
  let ?vm = "br_mask row @ replicate (length ps) True"
  let ?n = "length (br_mask row)"
  have cnt: "length (filter id (br_mask row)) = length ctx" by (rule row_ctx_count [OF r])
  have pos: "map (\<lambda>c. max 0 (c - 1)) (drop ?n (cumsum_mask ?vm)) = map int [length ctx..<length ctx + length ps]"
    by (rule nth_equalityI) (simp_all add: cumsum_mask_def drop_map cnt)
  have "f (visible (br_cache row @ take (Suc j) (zip ps (map int [length ctx..<length ctx + length ps])))
      (take (length (br_cache row) + Suc j) ?vm)) = seq_lm f (ctx @ take (Suc j) ps)" if "j < length ps" for j
  proof -
    let ?qs = "take (Suc j) ps"
    have q: "length ?qs = Suc j" using that by simp
    have m: "take (length (br_cache row) + Suc j) ?vm = br_mask row @ replicate (length ?qs) True"
      unfolding q using r that by (simp add: row_ctx_def min_absorb1 Suc_leI)
    have "take (Suc j) [length ctx..<length ctx + length ps] = [length ctx..<length ctx + length ?qs]"
      unfolding q using that by (simp add: take_upt del: upt_Suc)
    then have z: "take (Suc j) (zip ps (map int [length ctx..<length ctx + length ps])) =
      zip ?qs (map int [length ctx..<length ctx + length ?qs])"
      by (simp only: take_zip take_map)
    have "row_ctx (ctx @ ?qs) (br_cache row @ zip ?qs (map int [length ctx..<length ctx + length ?qs]))
       (br_mask row @ replicate (length ?qs) True)" by (rule row_ctx_append [OF r])
    then show ?thesis unfolding m z seq_lm_def row_ctx_def by (simp only: simp_thms)
  qed
  moreover have "forward_preds (seq_lm f) ctx ps = map (\<lambda>j. seq_lm f (ctx @ take (Suc j) ps)) [0..<length ps]"
    by (induction ps rule: rev_induct) (auto simp: forward_preds_snoc)
  ultimately show ?thesis unfolding verify_row_def Let_def pos by simp
qed

lemma crop_holds:
  assumes "row_ctx ctx cols msk" and "br_cache row = cols @ zip ps (map int [length ctx..<length ctx + length ps])"
    and "br_mask row = msk @ replicate (length ps) True" and "k \<le> length ps"
  shows "row_ctx (ctx @ take k ps) (br_cache (crop_row (length msk + k) row)) (br_mask (crop_row (length msk + k) row))"
proof -
  have len: "length cols = length msk" using assms(1) by (simp add: row_ctx_def)
  have "take k [length ctx..<length ctx + length ps] = [length ctx..<length ctx + k]"
    using assms(4) by (simp add: take_upt)
  then have "br_cache (crop_row (length msk + k) row) =
      cols @ zip (take k ps) (map int [length ctx..<length ctx + length (take k ps)])"
    and "br_mask (crop_row (length msk + k) row) = msk @ replicate (length (take k ps)) True"
    using assms len by (simp_all add: crop_row_def take_zip take_map min_def)
  with row_ctx_append [OF assms(1), of "take k ps"] show ?thesis by simp
qed

lemma prefill_holds:
  assumes "left_pad pad width ids = (padded, msk)"
  shows "row_holds f ids (batched_prefill f padded msk)"
proof -
  define k where "k = width - length ids"
  have p: "padded = replicate k pad @ ids" "msk = replicate k False @ replicate (length ids) True"
    using assms by (simp_all add: left_pad_def k_def)
  have "position_ids_from_mask msk = replicate k 1 @ map int [0..<length ids]"
    by (rule nth_equalityI) (auto simp: position_ids_from_mask_def cumsum_mask_def p nth_append min_def)
  then have "visible (zip padded (position_ids_from_mask msk)) msk = positioned ids"
    unfolding p visible_def positioned_def by (simp add: zip_replicate2 filter_map o_def zip_append1)
  moreover have "length (zip padded (position_ids_from_mask msk)) = length msk"
    by (simp add: position_ids_from_mask_def cumsum_mask_def p)
  ultimately show ?thesis
    by (simp add: row_holds_def batched_prefill_def Let_def row_ctx_def seq_lm_def)
qed

section \<open>The lockstep loop\<close>

record batch_run =
  bs_target :: "batch_row list"
  bs_draft :: "batch_row list"
  bs_outputs :: "int list list"
  bs_done :: "bool list"
  bs_accepted :: nat
  bs_proposed :: nat
  bs_rounds :: nat
  bs_true_accepted :: nat
  bs_commit_hist :: "(nat \<times> nat) list"

definition count_commit :: "nat \<Rightarrow> (nat \<times> nat) list \<Rightarrow> (nat \<times> nat) list" where
  "count_commit k h = AList.update k ((case map_of h k of None \<Rightarrow> 0 | Some n \<Rightarrow> n) + 1) h"

text \<open>\<open>for t in round_emit[i][:commit]\<close>: append while the row is open and below the bound.\<close>

fun commit_tokens :: "int set \<Rightarrow> nat \<Rightarrow> int list \<Rightarrow> bool \<Rightarrow> int list \<Rightarrow> int list \<times> bool" where
  "commit_tokens eos maxn out d [] = (out, d)"
| "commit_tokens eos maxn out d (t # ts) =
     (if length out < maxn \<and> \<not> d then commit_tokens eos maxn (out @ [t]) (t \<in> eos) ts
      else commit_tokens eos maxn out d ts)"

text \<open>What row \<open>i\<close> accepts and would emit, from its proposals and the target's verdict.\<close>

definition row_verdict :: "nat \<Rightarrow> batch_row \<Rightarrow> int list \<Rightarrow> int list \<Rightarrow> nat \<times> int list" where
  "row_verdict depth row ps preds =
     (let want = br_next row # butlast preds; bonus = last preds; acc = match_len ps want in
      (acc, if acc = depth then ps @ [bonus] else take acc ps @ [want ! acc]))"

definition batch_round ::
  "plm \<Rightarrow> plm \<Rightarrow> int set \<Rightarrow> int \<Rightarrow> nat \<Rightarrow> nat \<Rightarrow> batch_run \<Rightarrow> (bool \<times> batch_run) result" where
  "batch_round f g eos pad maxn depth s =
     (if depth = 0 then Inl RuntimeError else
      let n = length (bs_outputs s);
          drafted = map (draft_row g depth) (bs_draft s);
          verified = map (\<lambda>i. verify_row f (bs_target s ! i) (fst (drafted ! i))) [0..<n];
          verdict = map (\<lambda>i. if bs_done s ! i then (0, [])
                             else row_verdict depth (bs_target s ! i) (fst (drafted ! i)) (snd (verified ! i))) [0..<n];
          active = filter (\<lambda>i. \<not> bs_done s ! i) [0..<n];
          commit = min_list (map (\<lambda>i. length (snd (verdict ! i))) active);
          committed = map (\<lambda>i. if bs_done s ! i then (bs_outputs s ! i, True)
                               else commit_tokens eos maxn (bs_outputs s ! i) False (take commit (snd (verdict ! i)))) [0..<n];
          crop_len = length (br_mask (bs_target s ! 0)) + commit - 1;
          last_committed = map (\<lambda>i. if bs_done s ! i then pad else snd (verdict ! i) ! (commit - 1)) [0..<n] in
      if active = [] then
        Inr (True, s\<lparr>bs_proposed := bs_proposed s + depth * n, bs_rounds := bs_rounds s + 1\<rparr>)
      else
      Inr (False, \<lparr>bs_target = map (\<lambda>i. batched_decode f (crop_row crop_len (fst (verified ! i))) (last_committed ! i)) [0..<n],
           bs_draft = map (\<lambda>i. batched_decode g (crop_row crop_len (snd (drafted ! i))) (last_committed ! i)) [0..<n],
           bs_outputs = map fst committed, bs_done = map snd committed,
           bs_accepted = bs_accepted s + sum_list (map (\<lambda>i. min (fst (verdict ! i)) commit) active),
           bs_proposed = bs_proposed s + depth * n, bs_rounds = bs_rounds s + 1,
           bs_true_accepted = bs_true_accepted s + sum_list (map (\<lambda>i. fst (verdict ! i)) active),
           bs_commit_hist = count_commit commit (bs_commit_hist s)\<rparr>))"

lemma commit_tokens_eq:
  "commit_tokens eos maxn out d ts =
    (if d then (out, True)
     else (out @ take (maxn - length out) (cut_eos eos ts), first_in eos (take (maxn - length out) ts) \<noteq> None))"
proof (induction ts arbitrary: out d)
  case (Cons t ts)
  show ?case
  proof (cases "length out < maxn \<and> \<not> d")
    case True
    then obtain k where "maxn - length out = Suc k" by (metis Suc_diff_Suc)
    moreover from this have "maxn - length (out @ [t]) = k" by simp
    ultimately show ?thesis using True Cons.IH [of "out @ [t]" "t \<in> eos"] by auto
  qed (use Cons.IH [of out d] in auto)
qed simp

definition open_tokens :: "nat \<Rightarrow> batch_run \<Rightarrow> nat" where
  "open_tokens maxn s = sum_list (map (\<lambda>out. maxn - length out) (bs_outputs s))"

lemma row_verdict_nonempty: "snd (row_verdict depth row ps preds) \<noteq> []"
  by (simp add: row_verdict_def Let_def)

lemma cut_eos_nonempty: "ts \<noteq> [] \<Longrightarrow> cut_eos eos ts \<noteq> []"
  by (rule cut_eos_bounds(2))

lemma sum_list_decreases:
  assumes "\<forall>i \<in> set is. (h :: nat \<Rightarrow> nat) i \<le> k i" and "j \<in> set is" and "h j < k j"
  shows "sum_list (map h is) < sum_list (map k is)"
  using assms
proof (induction "is")
  case (Cons i "is")
  have le: "sum_list (map h is) \<le> sum_list (map k is)" using Cons.prems(1) by (intro sum_list_mono) simp
  show ?case
  proof (cases "j = i")
    case True
    with le Cons.prems(3) show ?thesis by simp
  next
    case False
    with Cons have "sum_list (map h is) < sum_list (map k is)" by simp
    with Cons.prems(1) show ?thesis by (simp add: add_le_less_mono)
  qed
qed simp

lemma map_nth_upt: "map h xs = map (\<lambda>i. h (xs ! i)) [0..<length xs]"
  by (rule nth_equalityI) simp_all

lemma batch_round_shrinks:
  assumes run: "batch_round f g eos pad maxn depth s = Inr (False, s')"
    and room: "list_all (\<lambda>out. length out < maxn) (bs_outputs s)"
  shows "open_tokens maxn s' < open_tokens maxn s"
proof -
  let ?n = "length (bs_outputs s)"
  let ?drafted = "map (draft_row g depth) (bs_draft s)"
  let ?verified = "map (\<lambda>i. verify_row f (bs_target s ! i) (fst (?drafted ! i))) [0..<?n]"
  let ?verdict = "map (\<lambda>i. if bs_done s ! i then (0, []) else row_verdict depth (bs_target s ! i) (fst (?drafted ! i)) (snd (?verified ! i))) [0..<?n]"
  let ?active = "filter (\<lambda>i. \<not> bs_done s ! i) [0..<?n]"
  let ?commit = "min_list (map (\<lambda>i. length (snd (?verdict ! i))) ?active)"
  let ?out = "\<lambda>i. if bs_done s ! i then (bs_outputs s ! i, True)
       else commit_tokens eos maxn (bs_outputs s ! i) False (take ?commit (snd (?verdict ! i)))"
  from run have act: "?active \<noteq> []" and outs: "bs_outputs s' = map (\<lambda>i. fst (?out i)) [0..<?n]"
    by (auto simp: batch_round_def Let_def comp_def split: if_splits)
  have pos: "0 < length (snd (?verdict ! i))" if "i < ?n" "\<not> bs_done s ! i" for i
    using that row_verdict_nonempty by simp
  have "?commit = Min (set (map (\<lambda>i. length (snd (?verdict ! i))) ?active))" using act by (simp add: min_list_Min)
  moreover have "\<dots> \<in> set (map (\<lambda>i. length (snd (?verdict ! i))) ?active)"
    using act by (intro Min_in) (auto simp: filter_empty_conv)
  ultimately have c: "0 < ?commit" using pos by auto
  have len: "length (bs_outputs s ! i) < maxn" if "i < ?n" for i using room that by (simp add: list_all_length)
  have grow: "length (bs_outputs s ! i) < length (fst (?out i))" if "i < ?n" "\<not> bs_done s ! i" for i
  proof -
    have "take ?commit (snd (?verdict ! i)) \<noteq> []" using c pos [OF that] by simp
    from cut_eos_nonempty [OF this] len [OF that(1)] that(2) show ?thesis by (simp add: commit_tokens_eq)
  qed
  obtain j where "j \<in> set ?active" using act by (meson last_in_set)
  then have j: "j < ?n" "\<not> bs_done s ! j" by auto
  have "open_tokens maxn s' = sum_list (map (\<lambda>i. maxn - length (fst (?out i))) [0..<?n])"
    by (simp add: open_tokens_def outs comp_def)
  also have "\<dots> < sum_list (map (\<lambda>i. maxn - length (bs_outputs s ! i)) [0..<?n])"
  proof (rule sum_list_decreases [of _ _ _ j])
    show "\<forall>i \<in> set [0..<?n]. maxn - length (fst (?out i)) \<le> maxn - length (bs_outputs s ! i)"
      using grow by (auto simp: less_imp_le intro!: diff_le_mono2)
    show "maxn - length (fst (?out j)) < maxn - length (bs_outputs s ! j)" using grow [OF j] len [OF j(1)] by linarith
  qed (use j in simp)
  also have "\<dots> = open_tokens maxn s" unfolding open_tokens_def by (simp add: map_nth_upt [of _ "bs_outputs s"])
  finally show ?thesis .
qed

function batch_loop :: "plm \<Rightarrow> plm \<Rightarrow> int set \<Rightarrow> int \<Rightarrow> nat \<Rightarrow> nat \<Rightarrow> batch_run \<Rightarrow> batch_run result" where
  "batch_loop f g eos pad maxn depth s =
     (if list_all id (bs_done s) \<or> \<not> list_all (\<lambda>out. length out < maxn) (bs_outputs s) then Inr s
      else and_then (batch_round f g eos pad maxn depth s) (\<lambda>(stop, s').
        if stop then Inr s' else batch_loop f g eos pad maxn depth s'))"
  by pat_completeness auto
termination
  by (relation "measure (\<lambda>(f, g, eos, pad, maxn, depth, s). open_tokens maxn s)") (auto intro: batch_round_shrinks)

declare batch_loop.simps [simp del]

text \<open>A batch of empty rows has no last column to read.\<close>

definition batched_generate ::
  "(string \<Rightarrow> int list) \<Rightarrow> plm \<Rightarrow> plm \<Rightarrow> int set \<Rightarrow> int \<Rightarrow> string list \<Rightarrow> int \<Rightarrow> int \<Rightarrow> batch_run result" where
  "batched_generate encode f g eos pad prompts max_new_tokens speculation_depth =
     (let n = length prompts;
          width = fold max (map (\<lambda>p. length (encode p)) prompts) 0;
          rows = map (\<lambda>p. left_pad pad width (encode p)) prompts in
      if width = 0 then Inl IndexError
      else batch_loop f g eos pad (nat max_new_tokens) (nat speculation_depth)
        \<lparr>bs_target = map (\<lambda>(ids, msk). batched_prefill f ids msk) rows,
         bs_draft = map (\<lambda>(ids, msk). batched_prefill g ids msk) rows,
         bs_outputs = replicate n [], bs_done = replicate n False, bs_accepted = 0, bs_proposed = 0, bs_rounds = 0,
         bs_true_accepted = 0, bs_commit_hist = []\<rparr>)"

section \<open>Every row decodes as if alone\<close>

text \<open>
  One row of a coherent batch in one round: what it would emit is a greedy chain of the
  target after its context, and cropping to any commit length and feeding the last
  committed token leaves both caches holding exactly the committed context.
\<close>

lemma active_row:
  assumes t: "row_holds f ctx trow" and d: "row_holds g ctx drow" and depth: "0 < depth"
    and w: "length (br_mask trow) = w" "length (br_mask drow) = w"
    and ps: "draft_row g depth drow = (ps, drow')" and v: "verify_row f trow ps = (trow', preds)"
    and cs: "row_verdict depth trow ps preds = (acc, cs)"
  shows "greedy_chain (seq_lm f) ctx cs" and "cs \<noteq> []"
    and "0 < commit \<Longrightarrow> commit \<le> length cs \<Longrightarrow>
      row_holds f (ctx @ take commit cs) (batched_decode f (crop_row (w + commit - 1) trow') (cs ! (commit - 1))) \<and>
      row_holds g (ctx @ take commit cs) (batched_decode g (crop_row (w + commit - 1) drow') (cs ! (commit - 1)))"
proof -
  let ?h = "seq_lm f"
  from draft_row_holds [OF d, of depth] ps have dr: "length ps = depth" "row_holds g (ctx @ ps) drow'"
    "br_cache drow' = br_cache drow @ zip ps (map int [length ctx..<length ctx + length ps])"
    "br_mask drow' = br_mask drow @ replicate (length ps) True" by auto
  from verify_row_holds [OF t, of ps] v have vr: "preds = forward_preds ?h ctx ps"
    "br_cache trow' = br_cache trow @ zip ps (map int [length ctx..<length ctx + length ps])"
    "br_mask trow' = br_mask trow @ replicate (length ps) True" by auto
  let ?v = "forward_preds ?h ctx ps"
  have ne: "?v \<noteq> []" using dr(1) depth by (cases ps) auto
  have nx: "br_next trow = ?h ctx" using t by (simp add: row_holds_def)
  have eqs: "butlast (?h ctx # ?v) = ?h ctx # butlast ?v" "last (?h ctx # ?v) = last ?v" using ne by simp_all
  have cs': "cs = round_candidates ps (?h ctx # butlast ?v) (last ?v)" "acc = match_len ps (?h ctx # butlast ?v)"
    using cs dr(1) by (auto simp: row_verdict_def round_candidates_def Let_def vr(1) nx)
  show "greedy_chain ?h ctx cs" using candidates_chain [of ?h ctx ps] unfolding eqs cs'(1) .
  show "cs \<noteq> []" using cs row_verdict_nonempty [of depth trow ps preds] by simp
  have lt: "length ps = length (?h ctx # butlast ?v)" using dr(1) depth by simp
  note len = length_candidates [OF lt, of "last ?v", folded cs']
  assume c: "0 < commit" "commit \<le> length cs"
  have acc: "acc \<le> length ps" using match_len_le(1) cs'(2) by simp
  have k: "commit - 1 \<le> length ps" "commit - 1 \<le> acc" using c len acc by simp_all
  have "take acc cs = take acc ps" using acc by (auto simp: cs' round_candidates_def Let_def)
  then have "take (commit - 1) cs = take (commit - 1) ps" using k(2) by (metis min_def take_take)
  moreover have "take commit cs = take (commit - 1) cs @ [cs ! (commit - 1)]"
    using c by (metis One_nat_def Suc_pred diff_Suc_less order_less_le_trans take_Suc_conv_app_nth)
  ultimately have e: "ctx @ take commit cs = (ctx @ take (commit - 1) ps) @ [cs ! (commit - 1)]" by simp
  have wk: "w + commit - 1 = w + (commit - 1)" using c by simp
  have "row_ctx (ctx @ take (commit - 1) ps) (br_cache (crop_row (w + (commit - 1)) trow')) (br_mask (crop_row (w + (commit - 1)) trow'))"
    using crop_holds [OF _ vr(2,3) k(1)] t unfolding w(1) row_holds_def by blast
  moreover have "row_ctx (ctx @ take (commit - 1) ps) (br_cache (crop_row (w + (commit - 1)) drow')) (br_mask (crop_row (w + (commit - 1)) drow'))"
    using crop_holds [OF _ dr(3,4) k(1)] d unfolding w(2) row_holds_def by blast
  ultimately show "row_holds f (ctx @ take commit cs) (batched_decode f (crop_row (w + commit - 1) trow') (cs ! (commit - 1))) \<and>
      row_holds g (ctx @ take commit cs) (batched_decode g (crop_row (w + commit - 1) drow') (cs ! (commit - 1)))"
    unfolding e wk by (blast intro: decode_holds)
qed

text \<open>
  The batch invariant: \<open>n\<close> tokens out of every open row, at most \<open>n\<close> of every closed one,
  all rows \<open>w\<close> columns wide, and the plain run of each prompt splits at its output.
\<close>

definition batch_inv :: "plm \<Rightarrow> plm \<Rightarrow> int set \<Rightarrow> nat \<Rightarrow> int list list \<Rightarrow> nat \<Rightarrow> nat \<Rightarrow> batch_run \<Rightarrow> bool" where
  "batch_inv f g eos maxn ctxs n w s \<longleftrightarrow>
     length (bs_target s) = length ctxs \<and> length (bs_draft s) = length ctxs \<and> length (bs_outputs s) = length ctxs \<and>
     length (bs_done s) = length ctxs \<and> n \<le> maxn \<and>
     (\<forall>i < length ctxs. length (br_mask (bs_target s ! i)) = w \<and> length (br_mask (bs_draft s ! i)) = w \<and>
        (let out = bs_outputs s ! i; ctx = ctxs ! i in
         if bs_done s ! i then length out \<le> n \<and> out = plain (seq_lm f) eos ctx maxn
         else length out = n \<and> plain (seq_lm f) eos ctx maxn = out @ plain (seq_lm f) eos (ctx @ out) (maxn - n) \<and>
           (n < maxn \<longrightarrow> row_holds f (ctx @ out) (bs_target s ! i) \<and> row_holds g (ctx @ out) (bs_draft s ! i))))"

lemma mask_widths:
  "length (br_mask (batched_decode f row t)) = Suc (length (br_mask row))"
  "length (br_mask (snd (draft_row g k row))) = length (br_mask row) + k"
  "length (br_mask (fst (verify_row f row ps))) = length (br_mask row) + length ps"
  "length (br_mask (crop_row len row)) = min len (length (br_mask row))"
proof -
  show one: "length (br_mask (batched_decode f row t)) = Suc (length (br_mask row))" for f row t
    by (simp add: batched_decode_def Let_def)
  show "length (br_mask (snd (draft_row g k row))) = length (br_mask row) + k"
    by (induction k arbitrary: row) (simp_all add: one case_prod_beta Let_def)
qed (simp_all add: verify_row_def crop_row_def Let_def)

lemma length_draft_row [simp]: "length (fst (draft_row g k row)) = k"
  by (induction k arbitrary: row) (simp_all add: case_prod_beta Let_def)

lemma cut_eos_open: "first_in eos (take n ts) = None \<Longrightarrow> take n (cut_eos eos ts) = take n ts"
proof (induction ts arbitrary: n)
  case (Cons t ts)
  then show ?case by (cases n) (auto split: if_splits)
qed simp

lemma commit_row:
  assumes out: "length out = n" and split: "plain (seq_lm f) eos ctx maxn = out @ plain (seq_lm f) eos (ctx @ out) (maxn - n)"
    and room: "n < maxn" and cs: "greedy_chain (seq_lm f) (ctx @ out) cs" "cs \<noteq> []" and c: "0 < commit" "commit \<le> length cs"
    and rows: "row_holds f ((ctx @ out) @ take commit cs) trow \<and> row_holds g ((ctx @ out) @ take commit cs) drow"
  shows "let out' = fst (commit_tokens eos maxn out False (take commit cs)) in
    if snd (commit_tokens eos maxn out False (take commit cs)) then
      length out' \<le> min maxn (n + commit) \<and> out' = plain (seq_lm f) eos ctx maxn
    else length out' = min maxn (n + commit) \<and>
      plain (seq_lm f) eos ctx maxn = out' @ plain (seq_lm f) eos (ctx @ out') (maxn - min maxn (n + commit)) \<and>
      (min maxn (n + commit) < maxn \<longrightarrow> row_holds f (ctx @ out') trow \<and> row_holds g (ctx @ out') drow)"
proof -
  let ?ts = "take commit cs" and ?k = "maxn - n"
  have ts: "greedy_chain (seq_lm f) (ctx @ out) ?ts" "?ts \<noteq> []" "length ?ts = commit"
    using greedy_chain_take [OF cs(1)] cs(2) c by auto
  have k: "0 < ?k" using room by simp
  note pl = plain_round [OF ts(1,2) k, of eos]
  have ct: "commit_tokens eos maxn out False ?ts = (out @ take ?k (cut_eos eos ?ts), first_in eos (take ?k ?ts) \<noteq> None)"
    by (simp add: commit_tokens_eq out)
  show ?thesis
  proof (cases "first_in eos (take ?k ?ts)")
    case (Some x)
    then have "first_in eos ?ts \<noteq> None" using first_in_take by fastforce
    then have "plain (seq_lm f) eos ctx maxn = out @ take ?k (cut_eos eos ?ts)" using pl split by auto
    moreover have "length (cut_eos eos ?ts) \<le> commit" using cut_eos_bounds(1) [of eos ?ts] ts(3) by simp
    moreover from this have "n + length (take ?k (cut_eos eos ?ts)) \<le> min maxn (n + commit)" using room by simp linarith
    ultimately show ?thesis unfolding ct Let_def using Some out room by simp
  next
    case None
    have cut: "take ?k (cut_eos eos ?ts) = take ?k ?ts" by (rule cut_eos_open [OF None])
    show ?thesis
    proof (cases "commit < ?k")
      case True
      then have "take ?k ?ts = ?ts" using ts(3) by simp
      with None cut pl split rows True out room ts(3) show ?thesis unfolding ct Let_def by (auto simp: min_def)
    next
      case False
      then have "min maxn (n + commit) = maxn" using room by simp
      moreover have "plain (seq_lm f) eos ctx maxn = out @ take ?k ?ts" using pl split cut False ts(3) by auto
      ultimately show ?thesis unfolding ct Let_def cut using None False out room ts(3) by (simp add: plain_def)
    qed
  qed
qed

lemma if_weaken: "a \<and> b \<and> (if c then p else q \<and> r) \<Longrightarrow> if c then p else q"
  by (cases c) simp_all

lemma batch_inv_row:
  assumes "batch_inv f g eos maxn ctxs n w s" "k < length ctxs"
  shows "if bs_done s ! k then length (bs_outputs s ! k) \<le> n \<and> bs_outputs s ! k = plain (seq_lm f) eos (ctxs ! k) maxn
    else length (bs_outputs s ! k) = n"
proof -
  have "\<forall>i < length ctxs. length (br_mask (bs_target s ! i)) = w \<and> length (br_mask (bs_draft s ! i)) = w \<and>
      (if bs_done s ! i then length (bs_outputs s ! i) \<le> n \<and> bs_outputs s ! i = plain (seq_lm f) eos (ctxs ! i) maxn
       else length (bs_outputs s ! i) = n \<and> plain (seq_lm f) eos (ctxs ! i) maxn =
         bs_outputs s ! i @ plain (seq_lm f) eos (ctxs ! i @ bs_outputs s ! i) (maxn - n) \<and>
         (n < maxn \<longrightarrow> row_holds f (ctxs ! i @ bs_outputs s ! i) (bs_target s ! i) \<and> row_holds g (ctxs ! i @ bs_outputs s ! i) (bs_draft s ! i)))"
    using assms(1) unfolding batch_inv_def Let_def by (elim conjE)
  from spec [OF this, THEN mp, OF assms(2)] show ?thesis by (rule if_weaken)
qed

lemma batch_inv_done:
  assumes "batch_inv f g eos maxn ctxs n w s" "k < length ctxs" "bs_done s ! k"
  shows "length (bs_outputs s ! k) \<le> n" "bs_outputs s ! k = plain (seq_lm f) eos (ctxs ! k) maxn"
  using batch_inv_row [OF assms(1,2)] unfolding if_P [OF assms(3)] by (rule conjunct1, rule conjunct2)

lemma batch_inv_open:
  "batch_inv f g eos maxn ctxs n w s \<Longrightarrow> k < length ctxs \<Longrightarrow> \<not> bs_done s ! k \<Longrightarrow> length (bs_outputs s ! k) = n"
  unfolding batch_inv_def Let_def by (elim conjE, drule spec [of _ k]) simp

lemma batch_round_inv:
  assumes inv: "batch_inv f g eos maxn ctxs n w s" and depth: "0 < depth" and room: "n < maxn"
    and some: "\<not> list_all id (bs_done s)"
  shows "\<exists>s' n' w'. batch_round f g eos pad maxn depth s = Inr (False, s') \<and> batch_inv f g eos maxn ctxs n' w' s'"
proof -
  let ?N = "length ctxs"
  note i = inv [unfolded batch_inv_def Let_def]
  define drafted where "drafted = map (draft_row g depth) (bs_draft s)"
  define verified where "verified = map (\<lambda>i. verify_row f (bs_target s ! i) (fst (drafted ! i))) [0..<?N]"
  define verdict where "verdict = map (\<lambda>i. if bs_done s ! i then (0, [])
     else row_verdict depth (bs_target s ! i) (fst (drafted ! i)) (snd (verified ! i))) [0..<?N]"
  define active where "active = filter (\<lambda>i. \<not> bs_done s ! i) [0..<?N]"
  define commit where "commit = min_list (map (\<lambda>i. length (snd (verdict ! i))) active)"
  define committed where "committed = map (\<lambda>i. if bs_done s ! i then (bs_outputs s ! i, True)
     else commit_tokens eos maxn (bs_outputs s ! i) False (take commit (snd (verdict ! i)))) [0..<?N]"
  define crop_len where "crop_len = length (br_mask (bs_target s ! 0)) + commit - 1"
  define lastc where "lastc = map (\<lambda>i. if bs_done s ! i then pad else snd (verdict ! i) ! (commit - 1)) [0..<?N]"
  define s' where "s' = \<lparr>bs_target = map (\<lambda>i. batched_decode f (crop_row crop_len (fst (verified ! i))) (lastc ! i)) [0..<?N],
     bs_draft = map (\<lambda>i. batched_decode g (crop_row crop_len (snd (drafted ! i))) (lastc ! i)) [0..<?N],
     bs_outputs = map fst committed, bs_done = map snd committed,
     bs_accepted = bs_accepted s + sum_list (map (\<lambda>i. min (fst (verdict ! i)) commit) active),
     bs_proposed = bs_proposed s + depth * ?N, bs_rounds = bs_rounds s + 1,
     bs_true_accepted = bs_true_accepted s + sum_list (map (\<lambda>i. fst (verdict ! i)) active),
     bs_commit_hist = count_commit commit (bs_commit_hist s)\<rparr>"
  have lens: "length (bs_target s) = ?N" "length (bs_draft s) = ?N" "length (bs_outputs s) = ?N" "length (bs_done s) = ?N"
    using i by auto
  obtain j where j: "j < ?N" "\<not> bs_done s ! j" using some lens(4) by (auto simp: list_all_length)
  then have act: "active \<noteq> []" by (auto simp: active_def filter_empty_conv)
  have run: "batch_round f g eos pad maxn depth s = Inr (False, s')"
    using depth act unfolding batch_round_def Let_def lens(3) s'_def crop_len_def lastc_def committed_def commit_def
      active_def verdict_def verified_def drafted_def by simp
  have widths: "length (br_mask (bs_target s ! k)) = w" "length (br_mask (bs_draft s ! k)) = w" if "k < ?N" for k using i that by blast+
  have dk: "drafted ! k = draft_row g depth (bs_draft s ! k)" if "k < ?N" for k using that lens by (simp add: drafted_def)
  have vk: "verified ! k = verify_row f (bs_target s ! k) (fst (drafted ! k))" if "k < ?N" for k using that by (simp add: verified_def)
  have verd: "verdict ! k = row_verdict depth (bs_target s ! k) (fst (drafted ! k)) (snd (verified ! k))"
    if "k < ?N" "\<not> bs_done s ! k" for k using that by (simp add: verdict_def)
  have nonempty: "snd (verdict ! k) \<noteq> []" if "k < ?N" "\<not> bs_done s ! k" for k
    using verd [OF that] row_verdict_nonempty by simp
  have "commit = Min (set (map (\<lambda>i. length (snd (verdict ! i))) active))" using act by (simp add: min_list_Min commit_def)
  moreover have fin: "finite (set (map (\<lambda>i. length (snd (verdict ! i))) active))" "set (map (\<lambda>i. length (snd (verdict ! i))) active) \<noteq> {}"
    using act by auto
  ultimately have "commit \<in> set (map (\<lambda>i. length (snd (verdict ! i))) active)"
    and "\<forall>x \<in> set (map (\<lambda>i. length (snd (verdict ! i))) active). commit \<le> x" using Min_in [OF fin] by auto
  then have c_pos: "0 < commit" and c_le: "\<And>k. k < ?N \<Longrightarrow> \<not> bs_done s ! k \<Longrightarrow> commit \<le> length (snd (verdict ! k))"
    using nonempty by (auto simp: active_def)
  have crop_len: "crop_len = w + commit - 1" using widths [of 0] j by (cases ctxs) (auto simp: crop_len_def)
  have c_dep: "commit - 1 \<le> depth"
  proof -
    have "length (fst (drafted ! j)) = depth" using dk [OF j(1)] by simp
    then have "length (snd (verdict ! j)) \<le> Suc depth"
      using verd [OF j] by (auto simp: row_verdict_def Let_def)
    with c_le [OF j] show ?thesis by simp
  qed
  define w' where "w' = Suc crop_len"
  define n' where "n' = min maxn (n + commit)"
  have width': "length (br_mask (bs_target s' ! k)) = w'" "length (br_mask (bs_draft s' ! k)) = w'" if "k < ?N" for k
  proof -
    have "crop_len \<le> w + depth" using c_dep c_pos crop_len by linarith
    then show "length (br_mask (bs_target s' ! k)) = w'" "length (br_mask (bs_draft s' ! k)) = w'"
      using that widths [OF that] dk [OF that] vk [OF that] by (simp_all add: s'_def w'_def mask_widths min_absorb1)
  qed
  have row: "let out = bs_outputs s' ! k; ctx = ctxs ! k in
         if bs_done s' ! k then length out \<le> n' \<and> out = plain (seq_lm f) eos ctx maxn
         else length out = n' \<and> plain (seq_lm f) eos ctx maxn = out @ plain (seq_lm f) eos (ctx @ out) (maxn - n') \<and>
           (n' < maxn \<longrightarrow> row_holds f (ctx @ out) (bs_target s' ! k) \<and> row_holds g (ctx @ out) (bs_draft s' ! k))"
    if k: "k < ?N" for k
  proof (cases "bs_done s ! k")
    case True
    have "n \<le> maxn" using i by blast
    moreover have "bs_outputs s' ! k = bs_outputs s ! k" "bs_done s' ! k" using True k by (simp_all add: s'_def committed_def)
    moreover have "length (bs_outputs s ! k) \<le> n'" using batch_inv_done(1) [OF inv k True] \<open>n \<le> maxn\<close> by (simp add: n'_def)
    ultimately show ?thesis using batch_inv_done(2) [OF inv k True] unfolding Let_def by (subst if_P) (assumption, metis)
  next
    case False
    obtain ps drow where d: "draft_row g depth (bs_draft s ! k) = (ps, drow)" by fastforce
    obtain trow preds where v: "verify_row f (bs_target s ! k) ps = (trow, preds)" by fastforce
    obtain acc cs where cs: "row_verdict depth (bs_target s ! k) ps preds = (acc, cs)" by fastforce
    have old: "length (bs_outputs s ! k) = n" "plain (seq_lm f) eos (ctxs ! k) maxn =
        bs_outputs s ! k @ plain (seq_lm f) eos (ctxs ! k @ bs_outputs s ! k) (maxn - n)"
      and hold: "row_holds f (ctxs ! k @ bs_outputs s ! k) (bs_target s ! k)" "row_holds g (ctxs ! k @ bs_outputs s ! k) (bs_draft s ! k)"
      using i k False room by auto
    have vc: "verdict ! k = (acc, cs)" using verd [OF k False] vk [OF k] dk [OF k] d v cs by simp
    note ar = active_row [OF hold depth widths [OF k] d v cs]
    have c: "commit \<le> length cs" using c_le [OF k False] vc by simp
    have eqs: "bs_outputs s' ! k = fst (commit_tokens eos maxn (bs_outputs s ! k) False (take commit cs))"
      "bs_done s' ! k = snd (commit_tokens eos maxn (bs_outputs s ! k) False (take commit cs))"
      "bs_target s' ! k = batched_decode f (crop_row (w + commit - 1) trow) (cs ! (commit - 1))"
      "bs_draft s' ! k = batched_decode g (crop_row (w + commit - 1) drow) (cs ! (commit - 1))"
      using k False vc vk [OF k] dk [OF k] d v crop_len by (simp_all add: s'_def committed_def lastc_def)
    show ?thesis
      using commit_row [OF old room ar(1,2) c_pos c ar(3) [OF c_pos c]] unfolding eqs n'_def Let_def .
  qed
  have "batch_inv f g eos maxn ctxs n' w' s'"
    unfolding batch_inv_def using width' row by (simp add: s'_def committed_def n'_def)
  with run show ?thesis by blast
qed

lemma batch_loop_inv:
  assumes "0 < depth" and "batch_inv f g eos maxn ctxs n w s"
  shows "\<exists>s'. batch_loop f g eos pad maxn depth s = Inr s' \<and> bs_outputs s' = map (\<lambda>ctx. plain (seq_lm f) eos ctx maxn) ctxs"
  using assms
proof (induction f g eos pad maxn depth s arbitrary: n w rule: batch_loop.induct)
  case (1 f g eos pad maxn depth s)
  note i = 1(3) [unfolded batch_inv_def Let_def] and eq = batch_loop.simps [of f g eos pad maxn depth s]
  show ?case
  proof (cases "list_all id (bs_done s) \<or> \<not> list_all (\<lambda>out. length out < maxn) (bs_outputs s)")
    case True
    have "bs_outputs s ! k = plain (seq_lm f) eos (ctxs ! k) maxn" if k: "k < length ctxs" for k
    proof (cases "bs_done s ! k")
      case False
      then have "\<not> list_all (\<lambda>out. length out < maxn) (bs_outputs s)" using True i k by (auto simp: list_all_length)
      then obtain j where "j < length ctxs" "maxn \<le> length (bs_outputs s ! j)" using i by (auto simp: list_all_length not_less)
      then have "n = maxn" using i by (metis le_antisym order_trans)
      with i k False show ?thesis by (auto simp: plain_def)
    qed (use i k in auto)
    then have "bs_outputs s = map (\<lambda>ctx. plain (seq_lm f) eos ctx maxn) ctxs" using i by (intro nth_equalityI) auto
    with True show ?thesis by (simp add: eq)
  next
    case False
    have dlen: "length (bs_done s) = length ctxs" using i by blast
    from False obtain j where j: "j < length ctxs" "\<not> bs_done s ! j" unfolding list_all_length dlen by auto
    then have "length (bs_outputs s ! j) = n" by (rule batch_inv_open [OF 1(3)])
    moreover have "length (bs_outputs s) = length ctxs" using i by blast
    then have "length (bs_outputs s ! j) < maxn" using False j by (simp add: list_all_length)
    ultimately have room: "n < maxn" by simp
    from batch_round_inv [OF 1(3,2) room] False obtain s1 n' w' where
      r: "batch_round f g eos pad maxn depth s = Inr (False, s1)" "batch_inv f g eos maxn ctxs n' w' s1" by blast
    from 1(1) [OF False r(1) refl _ 1(2) r(2)] obtain s' where
      "batch_loop f g eos pad maxn depth s1 = Inr s'" "bs_outputs s' = map (\<lambda>ctx. plain (seq_lm f) eos ctx maxn) ctxs" by auto
    with r(1) False show ?thesis by (simp add: eq)
  qed
qed

lemma fold_max_le: "x \<in> set xs \<Longrightarrow> x \<le> fold max xs (y :: nat)" "y \<le> fold max xs y"
proof -
  have mono: "y \<le> fold max xs y" for xs :: "nat list" and y by (induction xs arbitrary: y) (auto intro: order_trans [OF max.cobounded2])
  show "y \<le> fold max xs y" by (rule mono)
  have "x \<le> fold max xs (max x y)" for xs :: "nat list" and y using mono [of "max x y" xs] by linarith
  then show "x \<in> set xs \<Longrightarrow> x \<le> fold max xs y" by (induction xs arbitrary: y) auto
qed

text \<open>
  C27: batching changes no output. For every draft model, prompts of which one is nonempty,
  and a positive depth, the lockstep loop over the left-padded batch returns, and every
  row's output is the plain greedy decoding of its own prompt by the target at positions
  \<open>0, 1, 2, \<dots>\<close>: the other rows, the padding and the common commit length do not show.
\<close>

theorem batched_rows_decode_alone:
  assumes "\<exists>p \<in> set prompts. encode p \<noteq> []" and "0 < speculation_depth"
  shows "\<exists>s. batched_generate encode f g eos pad prompts max_new_tokens speculation_depth = Inr s \<and>
    bs_outputs s = map (\<lambda>p. fst (greedy_run (seq_lm f) {} eos False (encode p) (nat max_new_tokens))) prompts"
proof -
  define width where "width = fold max (map (\<lambda>p. length (encode p)) prompts) 0"
  define rows where "rows = map (\<lambda>p. left_pad pad width (encode p)) prompts"
  let ?s = "\<lparr>bs_target = map (\<lambda>(ids, msk). batched_prefill f ids msk) rows,
         bs_draft = map (\<lambda>(ids, msk). batched_prefill g ids msk) rows,
         bs_outputs = replicate (length prompts) [], bs_done = replicate (length prompts) False, bs_accepted = 0,
         bs_proposed = 0, bs_rounds = 0, bs_true_accepted = 0, bs_commit_hist = []\<rparr>"
  let ?m = "nat max_new_tokens"
  have wide: "length (encode p) \<le> width" if "p \<in> set prompts" for p
    using fold_max_le(1) [of "length (encode p)" "map (\<lambda>p. length (encode p)) prompts" 0] that by (auto simp: width_def)
  have "width \<noteq> 0"
  proof -
    obtain p where "p \<in> set prompts" "encode p \<noteq> []" using assms(1) by blast
    then have "0 < length (encode p)" "length (encode p) \<le> width" using wide by simp_all
    then show ?thesis by linarith
  qed
  have row: "row_holds h (encode (prompts ! k)) (case rows ! k of (ids, msk) \<Rightarrow> batched_prefill h ids msk) \<and>
      length (br_mask (case rows ! k of (ids, msk) \<Rightarrow> batched_prefill h ids msk)) = width" if k: "k < length prompts" for h k
  proof -
    obtain ids msk where r: "left_pad pad width (encode (prompts ! k)) = (ids, msk)" by fastforce
    have "length msk = width" using r wide k by (auto simp: left_pad_def)
    moreover have "rows ! k = (ids, msk)" using r k by (simp add: rows_def)
    ultimately show ?thesis using prefill_holds [OF r, of h] by (simp add: batched_prefill_def Let_def)
  qed
  have "batch_inv f g eos ?m (map encode prompts) 0 width ?s"
    using row by (simp add: batch_inv_def Let_def rows_def)
  moreover have "0 < nat speculation_depth" using assms(2) by simp
  ultimately obtain s where "batch_loop f g eos pad ?m (nat speculation_depth) ?s = Inr s"
    "bs_outputs s = map (\<lambda>ctx. plain (seq_lm f) eos ctx ?m) (map encode prompts)" using batch_loop_inv by blast
  with \<open>width \<noteq> 0\<close> show ?thesis
    by (simp add: batched_generate_def Let_def width_def [symmetric] rows_def [symmetric] plain_def comp_def)
qed

theorem batched_rows_decode_alone_witness:
  "\<exists>s. batched_generate (\<lambda>p. if p = ''a'' then [5] else [6, 7]) (\<lambda>cols. int (length cols)) (\<lambda>cols. 1) {3} 0 [''a'', ''b''] 4 2
      = Inr s \<and> bs_outputs s = [[1, 2, 3], [2, 3]]"
proof -
  let ?enc = "\<lambda>p. if p = ''a'' then [5] else [6, 7 :: int]"
  have p: "\<exists>p \<in> set [''a'', ''b'']. ?enc p \<noteq> []" "0 < (2 :: int)" by simp_all
  obtain s where s: "batched_generate ?enc (\<lambda>cols. int (length cols)) (\<lambda>cols. 1) {3} 0 [''a'', ''b''] 4 2 = Inr s"
    "bs_outputs s = map (\<lambda>p. fst (greedy_run (seq_lm (\<lambda>cols. int (length cols))) {} {3} False (?enc p) (nat 4))) [''a'', ''b'']"
    using batched_rows_decode_alone [OF p, of "\<lambda>cols. int (length cols)" "\<lambda>cols. 1" "{3}" 0 4] by blast
  moreover have "fst (greedy_run (seq_lm (\<lambda>cols. int (length cols))) {} {3} False [5] (nat 4)) = [1, 2, 3]"
    "fst (greedy_run (seq_lm (\<lambda>cols. int (length cols))) {} {3} False [6, 7] (nat 4)) = [2, 3]"
    by (simp_all add: eval_nat_numeral Let_def seq_lm_def)
  ultimately show ?thesis by simp
qed

end
