(* ===== verification/Runners.thy ===== *)
theory Runners
  imports Batched_Speculative
begin

text \<open>
  The two baselines that decode without the engine: the single-request runner of
  \<open>engine/model/runner.py\<close>, its stream, and the fixed batch of \<open>engine/batching/static.py\<close>.

  As in the speculative decoders a cache is the tokens it was fed, and in a padded batch the
  tokens with their positions under a mask; the model and the tokenizer are parameters; the
  tokenizer gives a prompt the same ids in a batch as alone, padded on the left. Clock
  and memory readings are left out, of the timed decode forwards their number is kept.
\<close>

section \<open>End-of-sequence ids\<close>

text \<open>
  The argument, else the model's configuration, else the tokenizer; \<open>None\<close> everywhere leaves
  \<open>set(None)\<close>, which raises. Only \<open>None\<close> falls through: 0 and the empty list count.
\<close>

definition eos_ids_of :: "eos_value \<Rightarrow> eos_value \<Rightarrow> eos_value \<Rightarrow> int set result" where
  "eos_ids_of arg configured tok =
     (let v = (if arg = NoEos then configured else arg) in
      case (if v = NoEos then tok else v) of NoEos \<Rightarrow> Inl TypeError | EosInt k \<Rightarrow> Inr {k} | EosList ks \<Rightarrow> Inr (set ks))"

section \<open>The single-request runner\<close>

definition run_prefill :: "lm \<Rightarrow> int list \<Rightarrow> model_state result" where
  "run_prefill f ids =
     (if ids = [] then Inl IndexError else Inr \<lparr>ms_cache = ids, ms_mask = length ids, ms_next = f ids\<rparr>)"

definition decode_one :: "lm \<Rightarrow> int \<Rightarrow> model_state \<Rightarrow> model_state" where
  "decode_one f t st =
     \<lparr>ms_cache = ms_cache st @ [t], ms_mask = ms_mask st + 1, ms_next = f (ms_cache st @ [t])\<rparr>"

text \<open>The loop over \<open>range(max_new_tokens)\<close>: the tokens and the number of decode forwards.\<close>

fun generate_loop :: "lm \<Rightarrow> int set \<Rightarrow> nat \<Rightarrow> model_state \<Rightarrow> int list \<times> nat" where
  "generate_loop f eos 0 st = ([], 0)"
| "generate_loop f eos (Suc n) st =
     (let t = ms_next st in
      if t \<in> eos \<or> n = 0 then ([t], 0)
      else let (ts, k) = generate_loop f eos n (decode_one f t st) in (t # ts, k + 1))"

record generation_result =
  rg_token_ids :: "int list"
  rg_text :: string
  rg_decode_steps :: nat

definition runner_generate ::
  "(string \<Rightarrow> int list) \<Rightarrow> (int list \<Rightarrow> string) \<Rightarrow> lm \<Rightarrow> eos_value \<Rightarrow> eos_value \<Rightarrow> eos_value \<Rightarrow> string \<Rightarrow> int \<Rightarrow> generation_result result" where
  "runner_generate encode decode f arg configured tok prompt max_new_tokens =
     (if prompt = [] then Inl ValueError
      else if max_new_tokens < 1 then Inl ValueError
      else and_then (eos_ids_of arg configured tok) (\<lambda>eos.
        and_then (run_prefill f (encode prompt)) (\<lambda>st.
          let (ts, k) = generate_loop f eos (nat max_new_tokens) st in
          Inr \<lparr>rg_token_ids = ts, rg_text = decode ts, rg_decode_steps = k\<rparr>)))"

text \<open>\<open>stream_generate\<close>: token, text, index and finish reason of each event.\<close>

datatype runner_event = RunnerEvent "int option" string "nat option" "string option"

fun stream_loop :: "(int list \<Rightarrow> string) \<Rightarrow> lm \<Rightarrow> int set \<Rightarrow> nat \<Rightarrow> nat \<Rightarrow> model_state \<Rightarrow> runner_event list" where
  "stream_loop decode f eos 0 i st = []"
| "stream_loop decode f eos (Suc n) i st =
     (let t = ms_next st in
      RunnerEvent (Some t) (decode [t]) (Some i) (if t \<in> eos then Some ''EOS'' else None) #
      (if t \<in> eos then []
       else if n = 0 then [RunnerEvent None [] None (Some ''LENGTH'')]
       else stream_loop decode f eos n (i + 1) (decode_one f t st)))"

definition stream_generate ::
  "(string \<Rightarrow> int list) \<Rightarrow> (int list \<Rightarrow> string) \<Rightarrow> lm \<Rightarrow> eos_value \<Rightarrow> eos_value \<Rightarrow> eos_value \<Rightarrow> string \<Rightarrow> int \<Rightarrow> runner_event list result" where
  "stream_generate encode decode f arg configured tok prompt max_new_tokens =
     (if prompt = [] then Inl ValueError
      else if max_new_tokens < 1 then Inl ValueError
      else and_then (eos_ids_of arg configured tok) (\<lambda>eos.
        and_then (run_prefill f (encode prompt)) (\<lambda>st.
          Inr (stream_loop decode f eos (nat max_new_tokens) 0 st))))"

section \<open>The static batch\<close>

definition prefill_positions :: "bool list \<Rightarrow> int list" where
  "prefill_positions msk = map (\<lambda>(m, c). if m then c - 1 else 0) (zip msk (cumsum_mask msk))"

definition static_prefill :: "plm \<Rightarrow> int list \<times> bool list \<Rightarrow> batch_row" where
  "static_prefill f padded =
     (case padded of (ids, msk) \<Rightarrow> let cols = zip ids (prefill_positions msk) in
      \<lparr>br_cache = cols, br_mask = msk, br_next = f (visible cols msk)\<rparr>)"

definition static_decode :: "plm \<Rightarrow> batch_row \<Rightarrow> int \<Rightarrow> batch_row" where
  "static_decode f row t =
     (let new_mask = br_mask row @ [True]; pos = int (length (filter id new_mask)) - 1;
          cols = br_cache row @ [(t, pos)] in
      \<lparr>br_cache = cols, br_mask = new_mask, br_next = f (visible cols new_mask)\<rparr>)"

text \<open>
  One round: active rows take their token, those that drew an end-of-sequence id become inactive,
  and every row is fed, an inactive one the filler. The result counts the decode forwards.
\<close>

definition static_append :: "bool list \<Rightarrow> batch_row list \<Rightarrow> int list list \<Rightarrow> int list list" where
  "static_append act rows gen =
     map (\<lambda>i. if act ! i then gen ! i @ [br_next (rows ! i)] else gen ! i) [0..<length rows]"

definition static_active :: "int set \<Rightarrow> bool list \<Rightarrow> batch_row list \<Rightarrow> bool list" where
  "static_active eos act rows = map (\<lambda>i. act ! i \<and> br_next (rows ! i) \<notin> eos) [0..<length rows]"

definition static_feed :: "plm \<Rightarrow> int \<Rightarrow> bool list \<Rightarrow> batch_row list \<Rightarrow> batch_row list" where
  "static_feed f filler act rows =
     map (\<lambda>i. static_decode f (rows ! i) (if act ! i then br_next (rows ! i) else filler)) [0..<length rows]"

fun static_loop ::
  "plm \<Rightarrow> int set \<Rightarrow> int \<Rightarrow> nat \<Rightarrow> batch_row list \<Rightarrow> bool list \<Rightarrow> int list list \<Rightarrow> int list list \<times> nat" where
  "static_loop f eos filler 0 rows act gen = (gen, 0)"
| "static_loop f eos filler (Suc n) rows act gen =
     (let gen' = static_append act rows gen; act' = static_active eos act rows in
      if \<not> list_ex id act' \<or> n = 0 then (gen', 0)
      else let (out, k) = static_loop f eos filler n (static_feed f filler act' rows) act' gen' in (out, k + 1))"

record static_batch_result =
  sb_token_ids :: "int list list"
  sb_texts :: "string list"
  sb_decode_steps :: nat

text \<open>The filler is the least end-of-sequence id, or the tokenizer's when there is none.\<close>

definition filler_token :: "int set \<Rightarrow> eos_value \<Rightarrow> int result" where
  "filler_token eos tok =
     (if eos \<noteq> {} then Inr (Min eos)
      else case tok of NoEos \<Rightarrow> Inl ValueError | EosInt k \<Rightarrow> Inr k | EosList _ \<Rightarrow> Inl TypeError)"

definition static_generate ::
  "(string \<Rightarrow> int list) \<Rightarrow> (int list \<Rightarrow> string) \<Rightarrow> int \<Rightarrow> plm \<Rightarrow> eos_value \<Rightarrow> eos_value \<Rightarrow> eos_value \<Rightarrow> string list \<Rightarrow> int \<Rightarrow>
     static_batch_result result" where
  "static_generate encode decode pad f arg configured tok prompts max_new_tokens =
     (if prompts = [] \<or> list_ex (\<lambda>p. p = []) prompts then Inl ValueError
      else if max_new_tokens < 1 then Inl ValueError
      else let width = fold max (map (\<lambda>p. length (encode p)) prompts) 0 in
        and_then (eos_ids_of arg configured tok) (\<lambda>eos.
        and_then (filler_token eos tok) (\<lambda>filler.
          if width = 0 then Inl IndexError
          else let (out, k) = static_loop f eos filler (nat max_new_tokens)
                 (map (\<lambda>p. static_prefill f (left_pad pad width (encode p))) prompts)
                 (replicate (length prompts) True) (replicate (length prompts) []) in
            Inr \<lparr>sb_token_ids = out, sb_texts = map decode out, sb_decode_steps = k\<rparr>)))"

section \<open>The runner decodes greedily\<close>

lemma plain_0 [simp]: "plain f eos ctx 0 = []"
  by (simp add: plain_def)

lemma plain_Suc:
  "plain f eos ctx (Suc n) = f ctx # (if f ctx \<in> eos then [] else plain f eos (ctx @ [f ctx]) n)"
  by (simp add: plain_def Let_def case_prod_beta)

lemma generate_loop_plain:
  assumes "ms_next st = f (ms_cache st)"
  shows "fst (generate_loop f eos n st) = plain f eos (ms_cache st) n \<and>
    (0 < n \<longrightarrow> length (fst (generate_loop f eos n st)) = snd (generate_loop f eos n st) + 1)"
  using assms
proof (induction n arbitrary: st)
  case (Suc n)
  let ?st = "decode_one f (ms_next st) st"
  have "ms_next ?st = f (ms_cache ?st)" "ms_cache ?st = ms_cache st @ [f (ms_cache st)]"
    using Suc.prems by (simp_all add: decode_one_def)
  with Suc.IH [of ?st] Suc.prems show ?case by (auto simp: plain_Suc Let_def case_prod_beta)
qed simp

text \<open>
  The single-request runner is plain greedy decoding, and its stream yields the same tokens in
  order, each with its own text and index; the reason \<open>EOS\<close> comes with the token, the reason
  \<open>LENGTH\<close> in an event of its own.
\<close>

lemma runner_generate_plain:
  assumes "prompt \<noteq> []" and "encode prompt \<noteq> []" and "1 \<le> max_new_tokens" and "eos_ids_of arg configured tok = Inr eos"
  shows "\<exists>g. runner_generate encode decode f arg configured tok prompt max_new_tokens = Inr g \<and>
    rg_token_ids g = plain f eos (encode prompt) (nat max_new_tokens) \<and> rg_text g = decode (rg_token_ids g) \<and>
    length (rg_token_ids g) = rg_decode_steps g + 1"
proof -
  let ?st = "\<lparr>ms_cache = encode prompt, ms_mask = length (encode prompt), ms_next = f (encode prompt)\<rparr>"
  let ?run = "generate_loop f eos (nat max_new_tokens) ?st"
  have st: "ms_next ?st = f (ms_cache ?st)" by simp
  have run: "fst ?run = plain f eos (encode prompt) (nat max_new_tokens) \<and> (0 < nat max_new_tokens \<longrightarrow> length (fst ?run) = snd ?run + 1)"
    using generate_loop_plain [where st = ?st and f = f, OF st, of eos "nat max_new_tokens"] unfolding model_state.select_convs .
  moreover have "0 < nat max_new_tokens" using assms(3) by simp
  moreover have "runner_generate encode decode f arg configured tok prompt max_new_tokens =
      Inr \<lparr>rg_token_ids = fst ?run, rg_text = decode (fst ?run), rg_decode_steps = snd ?run\<rparr>"
    using assms by (simp add: runner_generate_def run_prefill_def case_prod_beta)
  ultimately show ?thesis by auto
qed

fun token_of :: "runner_event \<Rightarrow> int list" where
  "token_of (RunnerEvent t s i r) = (case t of None \<Rightarrow> [] | Some x \<Rightarrow> [x])"

fun index_of :: "runner_event \<Rightarrow> nat list" where
  "index_of (RunnerEvent t s i r) = (case i of None \<Rightarrow> [] | Some x \<Rightarrow> [x])"

fun reason_of :: "runner_event \<Rightarrow> string option" where
  "reason_of (RunnerEvent t s i r) = r"

lemma stream_loop_plain:
  assumes "ms_next st = f (ms_cache st)"
  shows "concat (map token_of (stream_loop decode f eos n i st)) = plain f eos (ms_cache st) n \<and>
    concat (map index_of (stream_loop decode f eos n i st)) = [i..<i + length (plain f eos (ms_cache st) n)] \<and>
    (0 < n \<longrightarrow> reason_of (last (stream_loop decode f eos n i st)) = Some (snd (greedy_run f {} eos False (ms_cache st) n)))"
  using assms
proof (induction n arbitrary: st i)
  case (Suc n)
  let ?st = "decode_one f (ms_next st) st"
  have st: "ms_next ?st = f (ms_cache ?st)" "ms_cache ?st = ms_cache st @ [f (ms_cache st)]"
    using Suc.prems by (simp_all add: decode_one_def)
  have ne: "stream_loop decode f eos n (i + 1) ?st \<noteq> []" if "n \<noteq> 0" using that by (cases n) (simp_all add: Let_def)
  show ?case
  proof (cases "f (ms_cache st) \<in> eos \<or> n = 0")
    case True
    with Suc.prems show ?thesis by (auto simp: plain_Suc Let_def)
  next
    case False
    with Suc.IH [of ?st "i + 1"] st ne Suc.prems show ?thesis
      by (simp add: plain_Suc Let_def upt_conv_Cons case_prod_beta del: upt_Suc)
  qed
qed simp

section \<open>A row of the static batch is the runner\<close>

lemma static_prefill_holds: "row_holds f ids (static_prefill f (left_pad pad width ids))"
proof -
  define k where "k = width - length ids"
  have p: "left_pad pad width ids = (replicate k pad @ ids, replicate k False @ replicate (length ids) True)"
    by (simp add: left_pad_def k_def)
  let ?msk = "replicate k False @ replicate (length ids) True"
  have "prefill_positions ?msk = replicate k 0 @ map int [0..<length ids]"
    by (rule nth_equalityI) (auto simp: prefill_positions_def cumsum_mask_def nth_append min_def)
  then have "visible (zip (replicate k pad @ ids) (prefill_positions ?msk)) ?msk = positioned ids"
    unfolding visible_def positioned_def by (simp add: zip_replicate2 filter_map o_def zip_append1)
  moreover have "length (zip (replicate k pad @ ids) (prefill_positions ?msk)) = length ?msk"
    by (simp add: prefill_positions_def cumsum_mask_def)
  ultimately show ?thesis by (simp add: p row_holds_def static_prefill_def Let_def row_ctx_def seq_lm_def)
qed

lemma static_decode_holds:
  assumes "row_holds f ctx row"
  shows "row_holds f (ctx @ [t]) (static_decode f row t)"
proof -
  have r: "row_ctx ctx (br_cache row) (br_mask row)" using assms by (simp add: row_holds_def)
  from row_ctx_snoc [OF r, of t] row_ctx_count [OF r] show ?thesis
    by (simp add: row_holds_def static_decode_def Let_def seq_lm_def row_ctx_def)
qed

lemma static_lengths [simp]:
  "length (static_append act rows gen) = length rows" "length (static_active eos act rows) = length rows"
  "length (static_feed f filler act rows) = length rows"
  by (simp_all add: static_append_def static_active_def static_feed_def)

text \<open>What each row holds, where it is active, and the round keeps it.\<close>

definition rows_hold :: "plm \<Rightarrow> int list list \<Rightarrow> bool list \<Rightarrow> batch_row list \<Rightarrow> bool" where
  "rows_hold f ctxs act rows \<longleftrightarrow> (\<forall>i < length rows. act ! i \<longrightarrow> row_holds f (ctxs ! i) (rows ! i))"

definition fed_ctxs :: "batch_row list \<Rightarrow> int list list \<Rightarrow> int list list" where
  "fed_ctxs rows ctxs = map (\<lambda>i. ctxs ! i @ [br_next (rows ! i)]) [0..<length rows]"

lemma static_active_nth [simp]:
  "i < length rows \<Longrightarrow> static_active eos act rows ! i \<longleftrightarrow> act ! i \<and> br_next (rows ! i) \<notin> eos"
  by (simp add: static_active_def)

lemma static_feed_holds:
  assumes "rows_hold f ctxs act rows"
  shows "rows_hold f (fed_ctxs rows ctxs) (static_active eos act rows) (static_feed f filler (static_active eos act rows) rows)"
proof (unfold rows_hold_def, intro allI impI)
  fix i
  assume i: "i < length (static_feed f filler (static_active eos act rows) rows)" and a: "static_active eos act rows ! i"
  have l: "i < length rows" using i by simp
  then have "row_holds f (ctxs ! i) (rows ! i)" using assms a by (simp add: rows_hold_def)
  from static_decode_holds [OF this, of "br_next (rows ! i)"]
  show "row_holds f (fed_ctxs rows ctxs ! i) (static_feed f filler (static_active eos act rows) rows ! i)"
    using l a by (simp add: fed_ctxs_def static_feed_def)
qed

lemma active_row_plain:
  assumes "rows_hold f ctxs act rows" and "i < length rows" and "act ! i"
  shows "plain (seq_lm f) eos (ctxs ! i) (Suc n) = br_next (rows ! i) #
    (if static_active eos act rows ! i then plain (seq_lm f) eos (fed_ctxs rows ctxs ! i) n else [])"
proof -
  have "br_next (rows ! i) = seq_lm f (ctxs ! i)" using assms by (simp add: rows_hold_def row_holds_def)
  with assms(2,3) show ?thesis by (simp add: plain_Suc fed_ctxs_def)
qed

lemma none_active: "\<not> list_ex id act \<Longrightarrow> i < length act \<Longrightarrow> \<not> act ! i"
  by (auto simp: list_ex_length)

lemma static_loop_rows:
  assumes "length act = length rows" and "length gen = length rows" and "rows_hold f ctxs act rows"
  shows "length (fst (static_loop f eos filler n rows act gen)) = length rows \<and>
    (\<forall>i < length rows. fst (static_loop f eos filler n rows act gen) ! i =
       gen ! i @ (if act ! i then plain (seq_lm f) eos (ctxs ! i) n else []))"
  using assms
proof (induction n arbitrary: rows act gen ctxs)
  case (Suc n)
  let ?act = "static_active eos act rows" and ?gen = "static_append act rows gen"
  let ?rest = "static_loop f eos filler n (static_feed f filler ?act rows) ?act ?gen"
  note row = active_row_plain [OF Suc.prems(3), of _ eos n]
  have g: "?gen ! i = gen ! i @ (if act ! i then [br_next (rows ! i)] else [])" if "i < length rows" for i
    using that by (simp add: static_append_def)
  show ?case
  proof (cases "\<not> list_ex id ?act \<or> n = 0")
    case True
    have "?gen ! i = gen ! i @ (if act ! i then plain (seq_lm f) eos (ctxs ! i) (Suc n) else [])" if "i < length rows" for i
      using True none_active [of ?act i] g [OF that] row [OF that] that by (cases "act ! i") (auto simp del: static_active_nth)
    moreover have "static_loop f eos filler (Suc n) rows act gen = (?gen, 0)" using True by simp
    ultimately show ?thesis by simp
  next
    case False
    have len: "length ?act = length (static_feed f filler ?act rows)" "length ?gen = length (static_feed f filler ?act rows)" by simp_all
    have ih: "length (fst ?rest) = length rows" "\<forall>i < length rows. fst ?rest ! i =
        ?gen ! i @ (if ?act ! i then plain (seq_lm f) eos (fed_ctxs rows ctxs ! i) n else [])"
      using Suc.IH [OF len(1,2) static_feed_holds [OF Suc.prems(3)]] by (simp_all del: static_active_nth)
    have "fst ?rest ! i = gen ! i @ (if act ! i then plain (seq_lm f) eos (ctxs ! i) (Suc n) else [])" if "i < length rows" for i
      using ih(2) g [OF that] row [OF that] that by (cases "act ! i") simp_all
    moreover have "fst (static_loop f eos filler (Suc n) rows act gen) = fst ?rest"
      using False by (simp add: Let_def case_prod_beta)
    ultimately show ?thesis using ih(1) by simp
  qed
qed simp

text \<open>The batch runs as long as its longest row.\<close>

lemma static_loop_steps:
  assumes "length act = length rows" and "rows_hold f ctxs act rows" and "0 < n" and "list_ex id act"
  shows "(\<forall>i < length rows. act ! i \<longrightarrow> length (plain (seq_lm f) eos (ctxs ! i) n) \<le> snd (static_loop f eos filler n rows act gen) + 1) \<and>
    (\<exists>i < length rows. act ! i \<and> length (plain (seq_lm f) eos (ctxs ! i) n) = snd (static_loop f eos filler n rows act gen) + 1)"
  using assms
proof (induction n arbitrary: rows act gen ctxs)
  case (Suc n)
  let ?act = "static_active eos act rows" and ?gen = "static_append act rows gen"
  let ?rest = "static_loop f eos filler n (static_feed f filler ?act rows) ?act ?gen"
  note row = active_row_plain [OF Suc.prems(2), of _ eos n]
  show ?case
  proof (cases "\<not> list_ex id ?act \<or> n = 0")
    case True
    have one: "length (plain (seq_lm f) eos (ctxs ! i) (Suc n)) = 1" if "i < length rows" "act ! i" for i
      using True none_active [of ?act i] row [OF that] that by (auto simp del: static_active_nth)
    have k: "snd (static_loop f eos filler (Suc n) rows act gen) = 0" using True by simp
    obtain j where "j < length rows" "act ! j" using Suc.prems(1,4) by (auto simp: list_ex_length)
    then show ?thesis unfolding k using one by auto
  next
    case False
    then have any: "0 < n" "list_ex id ?act" by auto
    have len: "length ?act = length (static_feed f filler ?act rows)" by simp
    have "(\<forall>i < length rows. ?act ! i \<longrightarrow> length (plain (seq_lm f) eos (fed_ctxs rows ctxs ! i) n) \<le> snd ?rest + 1) \<and>
        (\<exists>i < length rows. ?act ! i \<and> length (plain (seq_lm f) eos (fed_ctxs rows ctxs ! i) n) = snd ?rest + 1)"
      using Suc.IH [OF len static_feed_holds [OF Suc.prems(2)] any, where gen = ?gen] unfolding static_lengths .
    then obtain j where all: "\<forall>i < length rows. ?act ! i \<longrightarrow> length (plain (seq_lm f) eos (fed_ctxs rows ctxs ! i) n) \<le> snd ?rest + 1"
      and j: "j < length rows" "?act ! j" "length (plain (seq_lm f) eos (fed_ctxs rows ctxs ! j) n) = snd ?rest + 1" by blast
    have k: "snd (static_loop f eos filler (Suc n) rows act gen) = snd ?rest + 1"
      using False by (simp add: Let_def case_prod_beta)
    have "length (plain (seq_lm f) eos (ctxs ! i) (Suc n)) \<le> snd ?rest + 1 + 1" if "i < length rows" "act ! i" for i
      using row [OF that] all that(1) by (simp del: static_active_nth)
    moreover have aj: "act ! j" using j(1,2) by simp
    moreover have "length (plain (seq_lm f) eos (ctxs ! j) (Suc n)) = snd ?rest + 1 + 1"
      using row [OF j(1) aj] j(2,3) by (simp del: static_active_nth)
    ultimately show ?thesis unfolding k using j(1) by blast
  qed
qed simp

section \<open>Properties\<close>

text \<open>
  C40: a static batch changes nobody's text. For nonempty prompts that tokenize to something, a
  positive token limit and end-of-sequence ids (or at least a filler token), the batch returns;
  each row's tokens and text are those the single-request runner returns for its prompt alone
  under the same settings, which is plain greedy decoding, although rows are padded on the left
  to the longest prompt and a row that ended is fed filler until the last one ends. The batch
  runs exactly as many decode forwards as its longest row needs.
\<close>

theorem static_batch_decodes_alone:
  assumes "prompts \<noteq> []" and "\<forall>p \<in> set prompts. p \<noteq> [] \<and> encode p \<noteq> []" and "1 \<le> max_new_tokens"
    and "eos_ids_of arg configured tok = Inr eos" and "filler_token eos tok = Inr filler"
  shows "\<exists>r. static_generate encode decode pad f arg configured tok prompts max_new_tokens = Inr r \<and>
    length (sb_token_ids r) = length prompts \<and>
    (\<forall>i < length prompts. \<exists>g. runner_generate encode decode (seq_lm f) arg configured tok (prompts ! i) max_new_tokens = Inr g \<and>
       sb_token_ids r ! i = rg_token_ids g \<and> sb_texts r ! i = rg_text g \<and>
       rg_token_ids g = fst (greedy_run (seq_lm f) {} eos False (encode (prompts ! i)) (nat max_new_tokens)) \<and>
       length (rg_token_ids g) = rg_decode_steps g + 1 \<and> rg_decode_steps g \<le> sb_decode_steps r) \<and>
    (\<exists>i < length prompts. length (sb_token_ids r ! i) = sb_decode_steps r + 1)"
proof -
  let ?width = "fold max (map (\<lambda>p. length (encode p)) prompts) 0" and ?n = "nat max_new_tokens"
  let ?rows = "map (\<lambda>p. static_prefill f (left_pad pad ?width (encode p))) prompts"
  let ?act = "replicate (length prompts) True" and ?gen = "replicate (length prompts) ([] :: int list)"
  let ?ctxs = "map encode prompts"
  define run where "run = static_loop f eos filler ?n ?rows ?act ?gen"
  have holds: "rows_hold f ?ctxs ?act ?rows" by (simp add: rows_hold_def static_prefill_holds)
  have some: "list_ex id ?act" using assms(1) by (cases prompts) simp_all
  have pos: "0 < ?n" using assms(3) by simp
  have lens: "length ?act = length ?rows" "length ?gen = length ?rows" by simp_all
  have rows: "length (fst run) = length prompts"
    "\<forall>i < length prompts. fst run ! i = plain (seq_lm f) eos (encode (prompts ! i)) ?n"
    using static_loop_rows [OF lens holds, of eos filler ?n] by (simp_all add: run_def)
  have steps: "\<forall>i < length prompts. length (fst run ! i) \<le> snd run + 1" "\<exists>i < length prompts. length (fst run ! i) = snd run + 1"
    using static_loop_steps [OF lens(1) holds pos some, where eos = eos and filler = filler and gen = ?gen] rows(2) by (auto simp: run_def)
  obtain p where p: "p \<in> set prompts" using assms(1) by (meson last_in_set)
  have "length (encode p) \<le> ?width" using p by (intro fold_max_le(1)) simp
  moreover have "0 < length (encode p)" using p assms(2) by simp
  ultimately have w: "?width \<noteq> 0" by linarith
  have ne: "\<not> list_ex (\<lambda>p. p = []) prompts" using assms(2) by (auto simp: list_ex_iff)
  let ?r = "\<lparr>sb_token_ids = fst run, sb_texts = map decode (fst run), sb_decode_steps = snd run\<rparr>"
  have gen: "static_generate encode decode pad f arg configured tok prompts max_new_tokens = Inr ?r"
    using assms(1,3-5) ne w by (simp add: static_generate_def Let_def case_prod_beta run_def)
  have alone: "\<exists>g. runner_generate encode decode (seq_lm f) arg configured tok (prompts ! i) max_new_tokens = Inr g \<and>
      fst run ! i = rg_token_ids g \<and> map decode (fst run) ! i = rg_text g \<and>
      rg_token_ids g = fst (greedy_run (seq_lm f) {} eos False (encode (prompts ! i)) ?n) \<and>
      length (rg_token_ids g) = rg_decode_steps g + 1 \<and> rg_decode_steps g \<le> snd run"
    if i: "i < length prompts" for i
  proof -
    have q: "prompts ! i \<noteq> []" "encode (prompts ! i) \<noteq> []" using assms(2) i by simp_all
    from runner_generate_plain [of "prompts ! i" encode, OF q assms(3,4), of decode "seq_lm f"] obtain g where
      g: "runner_generate encode decode (seq_lm f) arg configured tok (prompts ! i) max_new_tokens = Inr g"
        "rg_token_ids g = plain (seq_lm f) eos (encode (prompts ! i)) ?n" "rg_text g = decode (rg_token_ids g)"
        "length (rg_token_ids g) = rg_decode_steps g + 1" by blast
    have "fst run ! i = rg_token_ids g" using rows(2) i g(2) by simp
    moreover have "map decode (fst run) ! i = rg_text g" using rows i g(2,3) by simp
    moreover have "rg_decode_steps g \<le> snd run" using steps(1) i g(4) \<open>fst run ! i = rg_token_ids g\<close> by fastforce
    ultimately show ?thesis using g(1,2,4) unfolding plain_def by blast
  qed
  show ?thesis using gen rows(1) alone steps(2) by (intro exI [of _ ?r]) simp
qed

text \<open>Two prompts of different length; the second ends first and is fed filler.\<close>

definition demo_step :: plm where
  "demo_step cols = (fst (last cols) + 1) mod 10"

theorem static_batch_decodes_alone_witness:
  "\<exists>r. static_generate (\<lambda>p. if p = ''ab'' then [1, 2] else [7]) (\<lambda>ts. []) 0 demo_step NoEos (EosInt 9) NoEos [''ab'', ''c''] 5 = Inr r \<and>
     sb_token_ids r = [[3, 4, 5, 6, 7], [8, 9]] \<and> sb_decode_steps r = 4"
proof -
  let ?encode = "\<lambda>p. if p = ''ab'' then [1, 2] else [7 :: int]"
  let ?gen = "static_generate ?encode (\<lambda>ts. []) 0 demo_step NoEos (EosInt 9) NoEos [''ab'', ''c''] 5"
  have e: "eos_ids_of NoEos (EosInt 9) NoEos = Inr {9}" "filler_token {9} NoEos = Inr 9"
    by (simp_all add: eos_ids_of_def filler_token_def)
  have a: "[''ab'', ''c''] \<noteq> []" "\<forall>p \<in> set [''ab'', ''c'']. p \<noteq> [] \<and> ?encode p \<noteq> []" "(1 :: int) \<le> 5" by simp_all
  have n: "seq_lm demo_step (ctx @ [t]) = (t + 1) mod 10" for ctx t by (simp add: seq_lm_def demo_step_def positioned_snoc)
  have rows: "plain (seq_lm demo_step) {9} [1, 2] 5 = [3, 4, 5, 6, 7]" "plain (seq_lm demo_step) {9} [7] 5 = [8, 9]"
    using n [of "[1]" 2] n [of "[]" 7] n [of "[7]" 8] n [of "[1, 2]" 3] n [of "[1, 2, 3]" 4] n [of "[1, 2, 3, 4]" 5] n [of "[1, 2, 3, 4, 5]" 6]
    by (simp_all add: plain_Suc numeral_eq_Suc)
  let ?row = "\<lambda>r i. sb_token_ids r ! i = plain (seq_lm demo_step) {9} (?encode ([''ab'', ''c''] ! i)) (nat 5) \<and>
    length (sb_token_ids r ! i) \<le> sb_decode_steps r + 1"
  from static_batch_decodes_alone [OF a e, of "\<lambda>ts. []" 0 demo_step, folded plain_def]
  have "\<exists>r. ?gen = Inr r \<and> length (sb_token_ids r) = length [''ab'', ''c''] \<and> (\<forall>i < length [''ab'', ''c'']. ?row r i) \<and>
      (\<exists>i < length [''ab'', ''c'']. length (sb_token_ids r ! i) = sb_decode_steps r + 1)"
    by (elim ex_forward conj_forward all_forward imp_forward) (assumption | elim exE conjE, simp)+
  then obtain r where r: "?gen = Inr r" "length (sb_token_ids r) = 2" "\<forall>i < 2. ?row r i"
      "\<exists>i < 2. length (sb_token_ids r ! i) = sb_decode_steps r + 1" by (auto simp: numeral_2_eq_2)
  obtain x y where xy: "sb_token_ids r = [x, y]" using r(2) by (auto simp: numeral_2_eq_2 length_Suc_conv)
  have out: "sb_token_ids r = [[3, 4, 5, 6, 7], [8, 9]]"
    using r(3) [rule_format, of 0] r(3) [rule_format, of 1] rows by (simp add: xy)
  have len: "length (sb_token_ids r ! 0) = 5" "length (sb_token_ids r ! 1) = 2" by (simp_all add: out)
  have "5 \<le> sb_decode_steps r + 1" using r(3) [rule_format, of 0] len(1) by linarith
  moreover have "5 = sb_decode_steps r + 1 \<or> 2 = sb_decode_steps r + 1"
    using r(4) len by (auto simp: less_2_cases_iff)
  ultimately have "sb_decode_steps r = 4" by linarith
  with r(1) out show ?thesis by blast
qed

end
