(* ===== verification/Contiguous_Allocator.thy ===== *)
theory Contiguous_Allocator
  imports Prelude "HOL-Library.Product_Lexorder"
begin

text \<open>
  The contiguous baseline of the KV cache: \<open>KVCacheGeometry\<close> and
  \<open>observed_kv_cache_bytes\<close> of \<open>engine/cache/kv_cache.py\<close>, and the first-fit
  \<open>ContiguousKVAllocator\<close> of \<open>engine/cache/allocator.py\<close>. The allocator's free list
  refines a set of free tokens: an allocation is the lowest hole that is large enough,
  and only the absence of such a hole makes it fail.
\<close>

section \<open>KV-cache geometry\<close>

text \<open>
  A dtype is its name; \<open>torch\<close>'s element size of a dtype is the argument \<open>esize\<close>.
  Divisions by a possibly zero size raise as they do in Python.
\<close>

record kv_geometry =
  num_layers :: int
  num_kv_heads :: int
  head_dim :: int
  kv_dtype :: string
  num_query_heads :: "int option"

record model_config =
  cfg_num_hidden_layers :: "int option"
  cfg_num_key_value_heads :: "int option"
  cfg_num_attention_heads :: "int option"
  cfg_head_dim :: "int option"
  cfg_hidden_size :: "int option"

definition truthy :: "int option \<Rightarrow> bool" where
  "truthy v = (case v of None \<Rightarrow> False | Some n \<Rightarrow> n \<noteq> 0)"

definition positive :: "int option \<Rightarrow> bool" where
  "positive v = (case v of None \<Rightarrow> False | Some n \<Rightarrow> 0 < n)"

definition config_head_dim :: "model_config \<Rightarrow> int option" where
  "config_head_dim c =
     (if cfg_head_dim c = None \<and> truthy (cfg_hidden_size c) \<and> truthy (cfg_num_attention_heads c)
      then Some (the (cfg_hidden_size c) div the (cfg_num_attention_heads c)) else cfg_head_dim c)"

definition from_model_config :: "model_config \<Rightarrow> string \<Rightarrow> kv_geometry result" where
  "from_model_config c dtype =
     (let layers = cfg_num_hidden_layers c;
          kv_heads = (case cfg_num_key_value_heads c of None \<Rightarrow> cfg_num_attention_heads c | Some n \<Rightarrow> Some n);
          dim = config_head_dim c in
      if \<not> list_all positive [layers, kv_heads, dim] then Inl ValueError
      else Inr \<lparr>num_layers = the layers, num_kv_heads = the kv_heads, head_dim = the dim, kv_dtype = dtype,
                num_query_heads = cfg_num_attention_heads c\<rparr>)"

definition bytes_per_token :: "(string \<Rightarrow> int) \<Rightarrow> kv_geometry \<Rightarrow> int" where
  "bytes_per_token esize g = 2 * num_layers g * num_kv_heads g * head_dim g * esize (kv_dtype g)"

definition gqa_group_size :: "kv_geometry \<Rightarrow> real option result" where
  "gqa_group_size g = (case num_query_heads g of None \<Rightarrow> Inr None
     | Some q \<Rightarrow> if num_kv_heads g = 0 then Inl ZeroDivisionError else Inr (Some (q / num_kv_heads g)))"

definition mha_bytes_per_token :: "(string \<Rightarrow> int) \<Rightarrow> kv_geometry \<Rightarrow> int option" where
  "mha_bytes_per_token esize g = (case num_query_heads g of None \<Rightarrow> None
     | Some q \<Rightarrow> Some (2 * num_layers g * q * head_dim g * esize (kv_dtype g)))"

definition bytes_for_tokens :: "(string \<Rightarrow> int) \<Rightarrow> kv_geometry \<Rightarrow> int \<Rightarrow> int result" where
  "bytes_for_tokens esize g tokens = (if tokens < 0 then Inl ValueError else Inr (bytes_per_token esize g * tokens))"

definition py_floordiv :: "int \<Rightarrow> int \<Rightarrow> int result" where
  "py_floordiv a b = (if b = 0 then Inl ZeroDivisionError else Inr (a div b))"

definition max_tokens_for_budget :: "(string \<Rightarrow> int) \<Rightarrow> kv_geometry \<Rightarrow> int \<Rightarrow> int result" where
  "max_tokens_for_budget esize g budget = (if budget < 0 then Inl ValueError else py_floordiv budget (bytes_per_token esize g))"

definition max_concurrent_requests :: "(string \<Rightarrow> int) \<Rightarrow> kv_geometry \<Rightarrow> int \<Rightarrow> int \<Rightarrow> int result" where
  "max_concurrent_requests esize g budget tokens =
     (if tokens \<le> 0 then Inl ValueError else and_then (bytes_for_tokens esize g tokens) (py_floordiv budget))"

record geometry_report =
  gr_geometry :: kv_geometry
  gr_dtype_bytes :: int
  gr_bytes_per_token :: int
  gr_gqa_group_size :: "real option"
  gr_mha_bytes_per_token :: "int option"
  gr_savings :: "real option"

definition geometry_as_dict :: "(string \<Rightarrow> int) \<Rightarrow> kv_geometry \<Rightarrow> geometry_report result" where
  "geometry_as_dict esize g =
     and_then (gqa_group_size g) (\<lambda>group.
     and_then (case mha_bytes_per_token esize g of None \<Rightarrow> Inr None
        | Some m \<Rightarrow> if m = 0 then Inl ZeroDivisionError else Inr (Some (1 - bytes_per_token esize g / m))) (\<lambda>savings.
     Inr \<lparr>gr_geometry = g, gr_dtype_bytes = esize (kv_dtype g), gr_bytes_per_token = bytes_per_token esize g,
          gr_gqa_group_size = group, gr_mha_bytes_per_token = mha_bytes_per_token esize g, gr_savings = savings\<rparr>))"

text \<open>
  The cache representations \<open>observed_kv_cache_bytes\<close> accepts. A tensor is its element
  count and element size; \<open>None\<close> stands for an attribute or element that is no tensor.
\<close>

record tensor_size =
  numel :: int
  element_bytes :: int

datatype cache_item = ItemSequence "tensor_size option list" | ItemOther

datatype cache_repr =
    CacheLayers "(tensor_size option \<times> tensor_size option) list"
  | KeyValueLists "tensor_size option list" "tensor_size option list"
  | CacheSequence "cache_item list"
  | CacheUnsupported

definition some_values :: "'a option list \<Rightarrow> 'a list" where
  "some_values xs = concat (map (\<lambda>v. case v of None \<Rightarrow> [] | Some x \<Rightarrow> [x]) xs)"

definition cache_tensors :: "cache_repr \<Rightarrow> tensor_size list result" where
  "cache_tensors r = (case r of
       CacheLayers ls \<Rightarrow> Inr (concat (map (\<lambda>(k, v). some_values [k, v]) ls))
     | KeyValueLists ks vs \<Rightarrow> Inr (some_values ks @ some_values vs)
     | CacheSequence ls \<Rightarrow> Inr (concat (map (\<lambda>i. case i of ItemSequence vs \<Rightarrow> some_values vs | ItemOther \<Rightarrow> []) ls))
     | CacheUnsupported \<Rightarrow> Inl TypeError)"

definition observed_kv_cache_bytes :: "cache_repr \<Rightarrow> int result" where
  "observed_kv_cache_bytes r =
     and_then (cache_tensors r) (\<lambda>ts.
       if ts = [] then Inl ValueError else Inr (sum_list (map (\<lambda>t. numel t * element_bytes t) ts)))"

section \<open>The first-fit allocator\<close>

record contiguous_allocation =
  ca_request_id :: string
  start_token :: int
  ca_capacity :: int

record contiguous_allocator =
  ct_capacity :: int
  ct_geometry :: kv_geometry
  free_ranges :: "(int \<times> int) list"
  ct_allocations :: "(string \<times> contiguous_allocation) list"

definition contiguous_init :: "int \<Rightarrow> kv_geometry \<Rightarrow> contiguous_allocator result" where
  "contiguous_init capacity g =
     (if capacity \<le> 0 then Inl ValueError
      else Inr \<lparr>ct_capacity = capacity, ct_geometry = g, free_ranges = [(0, capacity)], ct_allocations = []\<rparr>)"

text \<open>The scan of \<open>allocate\<close>: the start it finds and the free list it leaves.\<close>

fun first_fit :: "int \<Rightarrow> (int \<times> int) list \<Rightarrow> (int \<times> (int \<times> int) list) option" where
  "first_fit n [] = None"
| "first_fit n ((start, len) # rs) =
     (if len < n then map_option (\<lambda>(a, rs'). (a, (start, len) # rs')) (first_fit n rs)
      else Some (start, if len - n \<noteq> 0 then (start + n, len - n) # rs else rs))"

definition contiguous_allocate ::
  "contiguous_allocator \<Rightarrow> string \<Rightarrow> int \<Rightarrow> (contiguous_allocation option \<times> contiguous_allocator) result" where
  "contiguous_allocate al rid n =
     (if rid = [] then Inl ValueError
      else if n \<le> 0 then Inl ValueError
      else if map_of (ct_allocations al) rid \<noteq> None then Inl ValueError
      else case first_fit n (free_ranges al) of
        None \<Rightarrow> Inr (None, al)
      | Some (start, rs) \<Rightarrow>
          let allocation = \<lparr>ca_request_id = rid, start_token = start, ca_capacity = n\<rparr> in
          Inr (Some allocation,
               al\<lparr>free_ranges := rs, ct_allocations := AList.update rid allocation (ct_allocations al)\<rparr>))"

definition merge_step :: "int \<times> int \<Rightarrow> (int \<times> int) list \<Rightarrow> (int \<times> int) list" where
  "merge_step r merged = (case r of (start, len) \<Rightarrow>
     if merged \<noteq> [] \<and> fst (last merged) + snd (last merged) = start
     then butlast merged @ [(fst (last merged), snd (last merged) + len)] else merged @ [(start, len)])"

definition contiguous_release ::
  "contiguous_allocator \<Rightarrow> string \<Rightarrow> (contiguous_allocation \<times> contiguous_allocator) result" where
  "contiguous_release al rid =
     (case map_of (ct_allocations al) rid of
        None \<Rightarrow> Inl KeyError
      | Some a \<Rightarrow>
          let rs = sort (free_ranges al @ [(start_token a, ca_capacity a)]) in
          Inr (a, al\<lparr>free_ranges := fold merge_step rs [], ct_allocations := AList.delete rid (ct_allocations al)\<rparr>))"

definition free_tokens :: "contiguous_allocator \<Rightarrow> int" where
  "free_tokens al = sum_list (map snd (free_ranges al))"

definition used_tokens :: "contiguous_allocator \<Rightarrow> int" where
  "used_tokens al = ct_capacity al - free_tokens al"

definition largest_free_range :: "contiguous_allocator \<Rightarrow> int" where
  "largest_free_range al = (case map snd (free_ranges al) of [] \<Rightarrow> 0 | l # ls \<Rightarrow> fold max ls l)"

definition external_fragmentation :: "contiguous_allocator \<Rightarrow> real" where
  "external_fragmentation al =
     (if free_tokens al = 0 then 0 else 1 - largest_free_range al / free_tokens al)"

record contiguous_snapshot =
  cs_capacity_tokens :: int
  cs_used_tokens :: int
  cs_free_tokens :: int
  cs_largest :: int
  cs_fragmentation :: real
  cs_active :: int
  cs_capacity_bytes :: int
  cs_used_bytes :: int
  cs_free_bytes :: int
  cs_free_ranges :: "(int \<times> int) list"

definition contiguous_snapshot_of :: "(string \<Rightarrow> int) \<Rightarrow> contiguous_allocator \<Rightarrow> contiguous_snapshot result" where
  "contiguous_snapshot_of esize al =
     and_then (bytes_for_tokens esize (ct_geometry al) (ct_capacity al)) (\<lambda>cb.
     and_then (bytes_for_tokens esize (ct_geometry al) (used_tokens al)) (\<lambda>ub.
     and_then (bytes_for_tokens esize (ct_geometry al) (free_tokens al)) (\<lambda>fb.
     Inr \<lparr>cs_capacity_tokens = ct_capacity al, cs_used_tokens = used_tokens al, cs_free_tokens = free_tokens al,
          cs_largest = largest_free_range al, cs_fragmentation = external_fragmentation al,
          cs_active = int (length (ct_allocations al)), cs_capacity_bytes = cb, cs_used_bytes = ub, cs_free_bytes = fb,
          cs_free_ranges = free_ranges al\<rparr>)))"

section \<open>Free ranges as a set of tokens\<close>

text \<open>
  \<open>separated lo rs\<close>: the ranges are nonempty, in increasing order from \<open>lo\<close>, and no two
  touch. \<open>ordered_ranges\<close> allows them to touch, which is what sorting gives before merging.
\<close>

fun separated :: "int \<Rightarrow> (int \<times> int) list \<Rightarrow> bool" where
  "separated lo [] = True"
| "separated lo ((s, l) # rs) = (lo \<le> s \<and> 0 < l \<and> separated (s + l + 1) rs)"

fun ordered_ranges :: "int \<Rightarrow> (int \<times> int) list \<Rightarrow> bool" where
  "ordered_ranges lo [] = True"
| "ordered_ranges lo ((s, l) # rs) = (lo \<le> s \<and> 0 < l \<and> ordered_ranges (s + l) rs)"

definition tspan :: "int \<times> int \<Rightarrow> int set" where
  "tspan r = {fst r ..< fst r + snd r}"

definition ranges_set :: "(int \<times> int) list \<Rightarrow> int set" where
  "ranges_set rs = (\<Union>r \<in> set rs. tspan r)"

lemma ranges_set_simps [simp]:
  "ranges_set [] = {}" "ranges_set (r # rs) = tspan r \<union> ranges_set rs" "ranges_set (xs @ ys) = ranges_set xs \<union> ranges_set ys"
  by (auto simp: ranges_set_def)

lemma in_tspan [simp]: "t \<in> tspan (s, l) \<longleftrightarrow> s \<le> t \<and> t < s + l"
  by (simp add: tspan_def)

lemma separated_ordered: "separated lo rs \<Longrightarrow> ordered_ranges lo rs"
proof (induction lo rs rule: separated.induct)
  case (2 lo s l rs)
  have "ordered_ranges a rs \<Longrightarrow> b \<le> a \<Longrightarrow> ordered_ranges b rs" for a b :: int by (cases rs) auto
  with 2 show ?case by auto
qed simp

lemma ordered_above: "ordered_ranges lo rs \<Longrightarrow> t \<in> ranges_set rs \<Longrightarrow> lo \<le> t"
  by (induction lo rs rule: ordered_ranges.induct) fastforce+

lemma separated_above: "separated lo rs \<Longrightarrow> t \<in> ranges_set rs \<Longrightarrow> lo \<le> t"
  by (blast intro: ordered_above separated_ordered)

lemma ordered_fold_max: "0 \<le> m \<Longrightarrow> ordered_ranges lo rs \<Longrightarrow> 0 \<le> fold max (map snd rs) (m :: int)"
  by (induction rs arbitrary: m lo) auto

lemma sum_ordered: "ordered_ranges lo rs \<Longrightarrow> sum_list (map snd rs) = int (card (ranges_set rs)) \<and> finite (ranges_set rs)"
proof (induction lo rs rule: ordered_ranges.induct)
  case (2 lo s l rs)
  then have ih: "sum_list (map snd rs) = int (card (ranges_set rs))" "finite (ranges_set rs)" by auto
  have "tspan (s, l) \<inter> ranges_set rs = {}" using 2(2) ordered_above [of "s + l" rs] by fastforce
  then have "card (tspan (s, l) \<union> ranges_set rs) = card (tspan (s, l)) + card (ranges_set rs)"
    using ih(2) by (intro card_Un_disjoint) (simp_all add: tspan_def)
  then show ?case using 2(2) ih by (simp add: tspan_def)
qed simp

lemma separated_member: "separated lo rs \<Longrightarrow> r \<in> set rs \<Longrightarrow> lo \<le> fst r \<and> 0 < snd r"
  by (induction lo rs rule: separated.induct) fastforce+

lemma separated_disjoint:
  "separated lo rs \<Longrightarrow> distinct rs \<and> (\<forall>p \<in> set rs. \<forall>q \<in> set rs. p \<noteq> q \<longrightarrow> tspan p \<inter> tspan q = {})"
proof (induction lo rs rule: separated.induct)
  case (2 lo s l rs)
  have "tspan (s, l) \<inter> tspan q = {}" if "q \<in> set rs" for q
    using 2(2) separated_member [of "s + l + 1" rs q] that by (auto simp: tspan_def)
  moreover from this have "(s, l) \<notin> set rs" using 2(2) by (force simp: tspan_def)
  ultimately show ?case using 2 by (simp add: Int_commute)
qed simp

text \<open>An interval of free tokens lies inside one range, because ranges do not touch.\<close>

lemma interval_in_one_range:
  "separated lo rs \<Longrightarrow> 0 < n \<Longrightarrow> {a..<a + n} \<subseteq> ranges_set rs \<Longrightarrow> \<exists>r \<in> set rs. fst r \<le> a \<and> a + n \<le> fst r + snd r"
proof (induction lo rs rule: separated.induct)
  case (1 lo)
  then have "a \<in> {a..<a + n}" by simp
  with 1 show ?case by (simp only: ranges_set_simps) blast
next
  case (2 lo s l rs)
  have a: "a \<in> ranges_set ((s, l) # rs)" using 2(3) subsetD [OF 2(4), of a] by simp
  have gap: "s + l \<notin> ranges_set ((s, l) # rs)" using 2(2) separated_above [of "s + l + 1" rs "s + l"] by auto
  show ?case
  proof (cases "a < s + l")
    case True
    have "s \<le> a" using a True 2(2) separated_above [of "s + l + 1" rs a] by auto
    moreover have "a + n \<le> s + l"
    proof (rule ccontr)
      assume "\<not> ?thesis"
      with True have "s + l \<in> {a..<a + n}" by simp
      with 2(4) gap show False by blast
    qed
    ultimately show ?thesis by auto
  next
    case False
    then have "{a..<a + n} \<subseteq> ranges_set rs" using 2(4) by fastforce
    with 2 show ?thesis by auto
  qed
qed

lemma first_fit_hit:
  "first_fit n rs = Some (a, rs') \<Longrightarrow> separated lo rs \<Longrightarrow> 0 < n \<Longrightarrow>
   tspan (a, n) \<subseteq> ranges_set rs \<and> ranges_set rs' = ranges_set rs - tspan (a, n) \<and> separated lo rs' \<and>
   (\<forall>r \<in> set rs. n \<le> snd r \<longrightarrow> a \<le> fst r)"
proof (induction n rs arbitrary: lo a rs' rule: first_fit.induct)
  case (2 n s l rs)
  show ?case
  proof (cases "l < n")
    case True
    then obtain rs1 where r: "first_fit n rs = Some (a, rs1)" "rs' = (s, l) # rs1" using 2(2) by auto
    have sep: "separated (s + l + 1) rs" using 2(3) by simp
    note ih = 2(1) [OF True r(1) sep 2(4)]
    then have "a \<in> ranges_set rs" using 2(4) by (meson in_tspan less_add_same_cancel1 order_refl subsetD)
    then have "s + l + 1 \<le> a" by (rule separated_above [OF sep])
    then have "tspan (s, l) \<inter> tspan (a, n) = {}" by (auto simp: tspan_def)
    with ih r(2) 2(3) True show ?thesis by auto
  next
    case False
    have rest: "\<forall>t \<in> ranges_set rs. s + l + 1 \<le> t" using 2(3) separated_above [of "s + l + 1" rs] by auto
    have firsts: "s \<le> fst r" if "r \<in> set rs" for r
    proof -
      have "separated k xs \<Longrightarrow> r \<in> set xs \<Longrightarrow> k \<le> fst r" for k xs by (induction k xs rule: separated.induct) fastforce+
      with that 2(3) show ?thesis by fastforce
    qed
    have mono: "separated k xs \<Longrightarrow> j \<le> k \<Longrightarrow> separated j xs" for j k xs by (cases xs) auto
    show ?thesis
    proof (cases "l = n")
      case True
      then have "a = s" "rs' = rs" using 2(2) by auto
      moreover have "tspan (s, n) \<inter> ranges_set rs = {}" using rest True by fastforce
      ultimately show ?thesis using 2(3) firsts mono [of "s + l + 1" rs lo] True by auto
    next
      case ne: False
      then have "a = s" "rs' = (s + n, l - n) # rs" using 2(2) False by auto
      moreover have "tspan (s, n) \<inter> ranges_set rs = {}" using rest False by fastforce
      moreover have "tspan (s + n, l - n) = tspan (s, l) - tspan (s, n)" using 2(4) False by (auto simp: tspan_def)
      moreover have "tspan (s, n) \<subseteq> tspan (s, l)" using False by (auto simp: tspan_def)
      ultimately show ?thesis using 2(3,4) firsts False ne by auto
    qed
  qed
qed simp

lemma first_fit_miss: "first_fit n rs = None \<Longrightarrow> r \<in> set rs \<Longrightarrow> snd r < n"
  by (induction n rs rule: first_fit.induct) (auto split: if_splits)

text \<open>Sorting the free list with the returned range, and merging what touches.\<close>

lemma sorted_disjoint_ordered:
  "sorted rs \<Longrightarrow> \<forall>r \<in> set rs. lo \<le> fst r \<and> 0 < snd r \<Longrightarrow> distinct rs \<Longrightarrow>
   (\<forall>p \<in> set rs. \<forall>q \<in> set rs. p \<noteq> q \<longrightarrow> tspan p \<inter> tspan q = {}) \<Longrightarrow> ordered_ranges lo rs"
proof (induction rs arbitrary: lo)
  case (Cons p rs)
  obtain s l where p: "p = (s, l)" by (cases p)
  have "s + l \<le> fst q" if q: "q \<in> set rs" for q
  proof -
    obtain s' l' where q': "q = (s', l')" by (cases q)
    have "p \<le> q" "p \<noteq> q" using Cons.prems(1,3) q by auto
    moreover have "tspan p \<inter> tspan q = {}" using Cons.prems(4) q \<open>p \<noteq> q\<close> by auto
    then have "s' \<notin> tspan p" using Cons.prems(2) q q' by fastforce
    ultimately show ?thesis using Cons.prems(2) p q' by (auto simp: less_eq_prod_def)
  qed
  with Cons p show ?case by auto
qed simp

fun merge_from :: "int \<Rightarrow> int \<Rightarrow> (int \<times> int) list \<Rightarrow> (int \<times> int) list" where
  "merge_from s l [] = [(s, l)]"
| "merge_from s l ((s', l') # rs) = (if s + l = s' then merge_from s (l + l') rs else (s, l) # merge_from s' l' rs)"

lemma fold_merge_step: "fold merge_step rs (m @ [(s, l)]) = m @ merge_from s l rs"
proof (induction s l rs arbitrary: m rule: merge_from.induct)
  case (2 s l s' l' rs)
  then show ?case
    using 2(2) [of "m @ [(s, l)]"] by (simp add: merge_step_def butlast_append)
qed (simp add: merge_step_def)

lemma merge_from_spec:
  "ordered_ranges (s + l) rs \<Longrightarrow> 0 < l \<Longrightarrow> lo \<le> s \<Longrightarrow>
   separated lo (merge_from s l rs) \<and> ranges_set (merge_from s l rs) = tspan (s, l) \<union> ranges_set rs"
proof (induction s l rs arbitrary: lo rule: merge_from.induct)
  case (2 s l s' l' rs)
  show ?case
  proof (cases "s + l = s'")
    case True
    then have "tspan (s, l + l') = tspan (s, l) \<union> tspan (s', l')" using 2(3,4) by (auto simp: tspan_def)
    moreover have "separated lo (merge_from s (l + l') rs) \<and> ranges_set (merge_from s (l + l') rs) = tspan (s, l + l') \<union> ranges_set rs"
      using 2(3-5) True by (intro 2(1)) (auto simp: add.assoc [symmetric])
    ultimately show ?thesis using True by (simp add: Un_assoc)
  next
    case False
    with 2 show ?thesis by auto
  qed
qed simp

lemma merge_spec:
  assumes "ordered_ranges lo rs"
  shows "separated lo (fold merge_step rs []) \<and> ranges_set (fold merge_step rs []) = ranges_set rs"
proof (cases rs)
  case (Cons p ps)
  obtain s l where p: "p = (s, l)" by (cases p)
  have "fold merge_step rs [] = merge_from s l ps" using fold_merge_step [of ps "[]" s l] by (simp add: Cons p merge_step_def)
  with merge_from_spec [of s l ps lo] assms show ?thesis by (simp add: Cons p)
qed simp

section \<open>The arena the allocator promises\<close>

text \<open>
  What a client of a token arena relies on, over the requests' holdings alone: a map
  from request to its range. A hole is a range no holding touches.
\<close>

type_synonym holdings = "string \<rightharpoonup> int \<times> int"

definition hole :: "int \<Rightarrow> holdings \<Rightarrow> int \<Rightarrow> int \<Rightarrow> bool" where
  "hole capacity m a n \<longleftrightarrow> tspan (a, n) \<subseteq> {0..<capacity} \<and> (\<forall>r \<in> ran m. tspan (a, n) \<inter> tspan r = {})"

inductive arena_alloc :: "int \<Rightarrow> holdings \<Rightarrow> string \<Rightarrow> int \<Rightarrow> int option \<Rightarrow> holdings \<Rightarrow> bool" for capacity m rid n where
  granted: "m rid = None \<Longrightarrow> hole capacity m a n \<Longrightarrow> (\<And>b. hole capacity m b n \<Longrightarrow> a \<le> b) \<Longrightarrow>
    arena_alloc capacity m rid n (Some a) (m(rid \<mapsto> (a, n)))"
| refused: "m rid = None \<Longrightarrow> (\<And>b. \<not> hole capacity m b n) \<Longrightarrow> arena_alloc capacity m rid n None m"

inductive_cases arena_granted [elim]: "arena_alloc capacity m rid n (Some a) m'"
inductive_cases arena_refused [elim]: "arena_alloc capacity m rid n None m'"

locale token_arena =
  fixes inv :: "'s \<Rightarrow> bool" and arena_size :: "'s \<Rightarrow> int" and holdings_of :: "'s \<Rightarrow> holdings"
    and alloc :: "'s \<Rightarrow> string \<Rightarrow> int \<Rightarrow> (int option \<times> 's) result"
    and dealloc :: "'s \<Rightarrow> string \<Rightarrow> 's result"
  assumes alloc_law: "inv s \<Longrightarrow> alloc s rid n = Inr (res, s') \<Longrightarrow>
      inv s' \<and> arena_size s' = arena_size s \<and> arena_alloc (arena_size s) (holdings_of s) rid n res (holdings_of s')"
    and dealloc_law: "inv s \<Longrightarrow> dealloc s rid = Inr s' \<Longrightarrow>
      inv s' \<and> arena_size s' = arena_size s \<and> holdings_of s' = (holdings_of s)(rid := None)"
    and dealloc_total: "inv s \<Longrightarrow> holdings_of s rid \<noteq> None \<Longrightarrow> \<exists>s'. dealloc s rid = Inr s'"
begin

inductive reachable_from :: "'s \<Rightarrow> 's \<Rightarrow> bool" for s0 where
  start: "reachable_from s0 s0"
| allocated: "reachable_from s0 s \<Longrightarrow> alloc s rid n = Inr (res, s') \<Longrightarrow> reachable_from s0 s'"
| released: "reachable_from s0 s \<Longrightarrow> dealloc s rid = Inr s' \<Longrightarrow> reachable_from s0 s'"

lemma reachable_inv: "reachable_from s0 s \<Longrightarrow> inv s0 \<Longrightarrow> inv s \<and> arena_size s = arena_size s0"
  by (induction rule: reachable_from.induct) (use alloc_law dealloc_law in metis)+

lemma grant_release_restores:
  assumes "inv s" "alloc s rid n = Inr (Some a, s')"
  shows "\<exists>s''. dealloc s' rid = Inr s'' \<and> inv s'' \<and> holdings_of s'' = holdings_of s"
proof -
  have h: "inv s'" "arena_alloc (arena_size s) (holdings_of s) rid n (Some a) (holdings_of s')" using alloc_law [OF assms] by auto
  then have "holdings_of s rid = None" "holdings_of s' = (holdings_of s)(rid \<mapsto> (a, n))" by auto
  with dealloc_total [OF h(1), of rid] obtain s'' where d: "dealloc s' rid = Inr s''" by auto
  from dealloc_law [OF h(1) d] \<open>holdings_of s rid = None\<close> \<open>holdings_of s' = _\<close> d show ?thesis
    by (intro exI [of _ s'']) (auto simp: fun_eq_iff)
qed

lemma refused_means_no_hole: "inv s \<Longrightarrow> alloc s rid n = Inr (None, s') \<Longrightarrow> \<not> hole (arena_size s) (holdings_of s) b n"
  using alloc_law by blast

end

section \<open>The allocator provides the arena\<close>

definition held :: "contiguous_allocator \<Rightarrow> holdings" where
  "held al rid = map_option (\<lambda>a. (start_token a, ca_capacity a)) (map_of (ct_allocations al) rid)"

definition contiguous_inv :: "contiguous_allocator \<Rightarrow> bool" where
  "contiguous_inv al \<longleftrightarrow> separated 0 (free_ranges al) \<and> 0 < ct_capacity al \<and>
     (\<forall>r \<in> ran (held al). 0 < snd r) \<and>
     (\<forall>i j p q. held al i = Some p \<longrightarrow> held al j = Some q \<longrightarrow> i \<noteq> j \<longrightarrow> tspan p \<inter> tspan q = {}) \<and>
     ranges_set (free_ranges al) = {0..<ct_capacity al} - (\<Union>r \<in> ran (held al). tspan r) \<and>
     (\<Union>r \<in> ran (held al). tspan r) \<subseteq> {0..<ct_capacity al}"

definition start_of_grant :: "(contiguous_allocation option \<times> contiguous_allocator) result \<Rightarrow> (int option \<times> contiguous_allocator) result" where
  "start_of_grant r = and_then r (\<lambda>(res, al). Inr (map_option start_token res, al))"

lemma contiguous_init_inv: "contiguous_init capacity g = Inr al \<Longrightarrow> contiguous_inv al \<and> held al = Map.empty \<and> ct_capacity al = capacity"
  by (auto simp: contiguous_init_def contiguous_inv_def held_def fun_eq_iff ran_def split: if_splits)

lemma hole_iff_free: "contiguous_inv al \<Longrightarrow> hole (ct_capacity al) (held al) a n \<longleftrightarrow> tspan (a, n) \<subseteq> ranges_set (free_ranges al)"
  by (auto simp: contiguous_inv_def hole_def)

lemma hole_in_range:
  assumes "contiguous_inv al" "0 < n" "hole (ct_capacity al) (held al) b n"
  shows "\<exists>r \<in> set (free_ranges al). fst r \<le> b \<and> n \<le> snd r"
proof -
  have "{b..<b + n} \<subseteq> ranges_set (free_ranges al)" using assms hole_iff_free by (simp add: tspan_def)
  then obtain r where "r \<in> set (free_ranges al)" "fst r \<le> b" "b + n \<le> fst r + snd r"
    using interval_in_one_range [OF _ assms(2)] assms(1) unfolding contiguous_inv_def by meson
  then show ?thesis by force
qed

lemma contiguous_alloc_law:
  assumes inv: "contiguous_inv al" and run: "contiguous_allocate al rid n = Inr (res, al')"
  shows "contiguous_inv al' \<and> ct_capacity al' = ct_capacity al \<and>
    arena_alloc (ct_capacity al) (held al) rid n (map_option start_token res) (held al')"
proof -
  have n: "0 < n" "map_of (ct_allocations al) rid = None" using run by (auto simp: contiguous_allocate_def split: if_splits)
  have free: "held al rid = None" using n by (simp add: held_def)
  show ?thesis
  proof (cases "first_fit n (free_ranges al)")
    case None
    have "\<not> hole (ct_capacity al) (held al) b n" for b
      using hole_in_range [OF inv n(1), of b] first_fit_miss [OF None] by fastforce
    moreover have "res = None" "al' = al" using run None n by (auto simp: contiguous_allocate_def split: if_splits)
    ultimately show ?thesis using inv free by (auto intro: arena_alloc.refused)
  next
    case (Some p)
    obtain a rs where p: "p = (a, rs)" by (cases p)
    have res: "res = Some \<lparr>ca_request_id = rid, start_token = a, ca_capacity = n\<rparr>"
      "al' = al\<lparr>free_ranges := rs, ct_allocations := AList.update rid \<lparr>ca_request_id = rid, start_token = a, ca_capacity = n\<rparr> (ct_allocations al)\<rparr>"
      using run Some p n by (auto simp: contiguous_allocate_def Let_def split: if_splits)
    have held': "held al' = (held al)(rid \<mapsto> (a, n))" by (simp add: res held_def fun_eq_iff AList.update_conv')
    have sep: "separated 0 (free_ranges al)" using inv by (simp add: contiguous_inv_def)
    note hit = first_fit_hit [OF Some [unfolded p] sep n(1)]
    have ran': "ran (held al') = insert (a, n) (ran (held al))" using free held' by (simp add: ran_map_upd)
    have lowest: "a \<le> b" if "hole (ct_capacity al) (held al) b n" for b
      using hole_in_range [OF inv n(1) that] hit by force
    have disj: "tspan (a, n) \<inter> tspan q = {}" if "held al j = Some q" for j q
    proof -
      have "q \<in> ran (held al)" using that by (rule ranI)
      moreover have "ranges_set (free_ranges al) = {0..<ct_capacity al} - (\<Union>r \<in> ran (held al). tspan r)"
        using inv by (simp add: contiguous_inv_def)
      ultimately have "ranges_set (free_ranges al) \<inter> tspan q = {}" by blast
      with hit show ?thesis by blast
    qed
    have "contiguous_inv al'"
      unfolding contiguous_inv_def ran'
    proof (intro conjI)
      show "\<forall>i j p q. held al' i = Some p \<longrightarrow> held al' j = Some q \<longrightarrow> i \<noteq> j \<longrightarrow> tspan p \<inter> tspan q = {}"
        using inv disj unfolding held' contiguous_inv_def by (auto simp: Int_commute)
      show "\<Union> (tspan ` insert (a, n) (ran (held al))) \<subseteq> {0..<ct_capacity al'}"
        using hit inv by (auto simp: contiguous_inv_def res)
    qed (use hit inv n res in \<open>auto simp: contiguous_inv_def\<close>)
    moreover have "hole (ct_capacity al) (held al) a n" using hit hole_iff_free [OF inv] by simp
    then have "arena_alloc (ct_capacity al) (held al) rid n (Some a) (held al')"
      unfolding held' using free lowest by (intro arena_alloc.granted)
    ultimately show ?thesis using res by simp
  qed
qed

lemma contiguous_dealloc_law:
  assumes inv: "contiguous_inv al" and run: "contiguous_release al rid = Inr (a, al')"
  shows "contiguous_inv al' \<and> ct_capacity al' = ct_capacity al \<and> held al' = (held al)(rid := None) \<and>
    held al rid = Some (start_token a, ca_capacity a)"
proof -
  let ?r = "(start_token a, ca_capacity a)"
  let ?rs = "free_ranges al @ [?r]"
  have a: "map_of (ct_allocations al) rid = Some a"
    and al': "al' = al\<lparr>free_ranges := fold merge_step (sort ?rs) [], ct_allocations := AList.delete rid (ct_allocations al)\<rparr>"
    using run by (auto simp: contiguous_release_def Let_def split: option.splits)
  have old: "held al rid = Some ?r" using a by (simp add: held_def)
  have held': "held al' = (held al)(rid := None)" by (simp add: al' held_def fun_eq_iff AList.delete_conv')
  have fr: "ranges_set (free_ranges al) = {0..<ct_capacity al} - (\<Union>r \<in> ran (held al). tspan r)" "separated 0 (free_ranges al)"
    and sub: "(\<Union>r \<in> ran (held al). tspan r) \<subseteq> {0..<ct_capacity al}" and pos: "\<forall>r \<in> ran (held al). 0 < snd r"
    and disj: "\<forall>i j p q. held al i = Some p \<longrightarrow> held al j = Some q \<longrightarrow> i \<noteq> j \<longrightarrow> tspan p \<inter> tspan q = {}"
    using inv unfolding contiguous_inv_def by simp_all
  have rin: "?r \<in> ran (held al)" using old by (auto simp: ran_def)
  have r_in: "tspan ?r \<subseteq> {0..<ct_capacity al}" "0 < ca_capacity a" using sub pos rin by (blast, force)
  have new_disj: "tspan ?r \<inter> ranges_set (free_ranges al) = {}" using fr(1) rin by blast
  have ord: "ordered_ranges 0 (sort ?rs)"
  proof (rule sorted_disjoint_ordered)
    have "0 \<le> start_token a" "0 < ca_capacity a" using r_in by (auto simp: tspan_def)
    then show "\<forall>r \<in> set (sort ?rs). 0 \<le> fst r \<and> 0 < snd r" using separated_member [OF fr(2)] by auto
    note dis = separated_disjoint [OF fr(2)]
    have "?r \<notin> set (free_ranges al)" using new_disj \<open>0 < ca_capacity a\<close> by (force simp: ranges_set_def tspan_def)
    then show "distinct (sort ?rs)" using dis by simp
    show "\<forall>p \<in> set (sort ?rs). \<forall>q \<in> set (sort ?rs). p \<noteq> q \<longrightarrow> tspan p \<inter> tspan q = {}"
      using dis new_disj unfolding set_sort set_append ranges_set_def by (simp, blast)
  qed simp
  have set_eq: "ranges_set (sort ?rs) = ranges_set (free_ranges al) \<union> tspan ?r" by (auto simp: ranges_set_def)
  have rest: "(\<Union>r \<in> ran (held al'). tspan r) = (\<Union>r \<in> ran (held al). tspan r) - tspan ?r"
  proof (intro equalityI subsetI)
    fix t assume "t \<in> (\<Union>r \<in> ran (held al'). tspan r)"
    then obtain j q where q: "j \<noteq> rid" "held al j = Some q" "t \<in> tspan q" unfolding held' ran_def by (auto split: if_splits)
    then have "tspan q \<inter> tspan ?r = {}" using disj old by metis
    with q show "t \<in> (\<Union>r \<in> ran (held al). tspan r) - tspan ?r" by (auto intro: ranI)
  next
    fix t assume "t \<in> (\<Union>r \<in> ran (held al). tspan r) - tspan ?r"
    then obtain j q where q: "held al j = Some q" "t \<in> tspan q" "t \<notin> tspan ?r" by (auto simp: ran_def)
    then have "j \<noteq> rid" using old by auto
    with q have "q \<in> ran (held al')" unfolding held' ran_def by auto
    with q show "t \<in> (\<Union>r \<in> ran (held al'). tspan r)" by blast
  qed
  have "contiguous_inv al'"
    unfolding contiguous_inv_def rest
  proof (intro conjI)
    show "\<forall>r \<in> ran (held al'). 0 < snd r" using pos by (auto simp: held' ran_def split: if_splits)
    show "\<forall>i j p q. held al' i = Some p \<longrightarrow> held al' j = Some q \<longrightarrow> i \<noteq> j \<longrightarrow> tspan p \<inter> tspan q = {}"
      using disj by (simp add: held')
    show "ranges_set (free_ranges al') = {0..<ct_capacity al'} - ((\<Union>r \<in> ran (held al). tspan r) - tspan ?r)"
      using merge_spec [OF ord] fr(1) r_in set_eq by (auto simp: al')
  qed (use merge_spec [OF ord] inv in \<open>auto simp: al' contiguous_inv_def\<close>)
  with held' old show ?thesis by (simp add: al')
qed

interpretation ca: token_arena contiguous_inv ct_capacity held "\<lambda>al rid n. start_of_grant (contiguous_allocate al rid n)"
  "\<lambda>al rid. and_then (contiguous_release al rid) (\<lambda>(a, al'). Inr al')"
proof unfold_locales
  fix s rid n res s'
  assume "contiguous_inv s" "start_of_grant (contiguous_allocate s rid n) = Inr (res, s')"
  then show "contiguous_inv s' \<and> ct_capacity s' = ct_capacity s \<and> arena_alloc (ct_capacity s) (held s) rid n res (held s')"
    using contiguous_alloc_law by (auto simp: start_of_grant_def)
next
  fix s rid s'
  assume "contiguous_inv s" "and_then (contiguous_release s rid) (\<lambda>(a, al'). Inr al') = Inr s'"
  then show "contiguous_inv s' \<and> ct_capacity s' = ct_capacity s \<and> held s' = (held s)(rid := None)"
    using contiguous_dealloc_law by auto
next
  fix s rid
  assume "contiguous_inv s" "held s rid \<noteq> None"
  then show "\<exists>s'. and_then (contiguous_release s rid) (\<lambda>(a, al'). Inr al') = Inr s'"
    by (auto simp: held_def contiguous_release_def Let_def)
qed

lemma contiguous_reachable_inv:
  "contiguous_init capacity g = Inr al0 \<Longrightarrow> ca.reachable_from al0 al \<Longrightarrow> contiguous_inv al \<and> ct_capacity al = capacity"
  using ca.reachable_inv [of al0 al] contiguous_init_inv [of capacity g al0] by auto

lemma used_is_held:
  assumes "contiguous_inv al"
  shows "used_tokens al = int (card (\<Union>r \<in> ran (held al). tspan r))"
proof -
  let ?U = "\<Union>r \<in> ran (held al). tspan r"
  have inv: "separated 0 (free_ranges al)" "ranges_set (free_ranges al) = {0..<ct_capacity al} - ?U" "?U \<subseteq> {0..<ct_capacity al}"
    "0 < ct_capacity al" using assms by (simp_all add: contiguous_inv_def)
  have "card ({0..<ct_capacity al} - ?U) = card {0..<ct_capacity al} - card ?U" "card ?U \<le> card {0..<ct_capacity al}"
    using card_Diff_subset [OF finite_subset [OF inv(3)] inv(3)] card_mono [OF _ inv(3)] by simp_all
  then show ?thesis
    using sum_ordered [OF separated_ordered [OF inv(1)]] inv(2,4) by (simp add: used_tokens_def free_tokens_def)
qed

lemma fold_max_ge: "x \<in> insert m (set xs) \<Longrightarrow> x \<le> fold max xs (m :: int)"
proof (induction xs arbitrary: m x)
  case (Cons a xs)
  have "max a m \<le> fold max xs (max a m)" by (rule Cons.IH) simp
  with Cons show ?case by auto
qed simp

lemma fold_max_in: "fold max xs (m :: int) \<in> insert m (set xs)"
proof (induction xs arbitrary: m)
  case (Cons a xs)
  from Cons.IH [of "max a m"] show ?case by (auto simp: max_def split: if_splits)
qed simp

lemma largest_free_range_spec:
  assumes "contiguous_inv al"
  shows "(\<exists>b. hole (ct_capacity al) (held al) b n) \<longleftrightarrow> n \<le> largest_free_range al"
proof
  assume "n \<le> largest_free_range al"
  show "\<exists>b. hole (ct_capacity al) (held al) b n"
  proof (cases "0 < n")
    case True
    then obtain r where r: "r \<in> set (free_ranges al)" "n \<le> snd r"
      using \<open>n \<le> largest_free_range al\<close> fold_max_in by (fastforce simp: largest_free_range_def split: list.splits)
    then have "tspan (fst r, n) \<subseteq> ranges_set (free_ranges al)" by (force simp: ranges_set_def tspan_def)
    then show ?thesis using hole_iff_free [OF assms] by blast
  qed (auto simp: hole_def tspan_def)
next
  assume "\<exists>b. hole (ct_capacity al) (held al) b n"
  then obtain b where b: "hole (ct_capacity al) (held al) b n" ..
  have le: "snd r \<le> largest_free_range al" if "r \<in> set (free_ranges al)" for r
    using that by (auto simp: largest_free_range_def split: list.splits intro!: fold_max_ge)
  show "n \<le> largest_free_range al"
  proof (cases "0 < n")
    case True
    with hole_in_range [OF assms True b] le show ?thesis by fastforce
  next
    case False
    moreover have "0 \<le> largest_free_range al"
    proof (cases "free_ranges al")
      case (Cons r rs)
      with assms have "0 < snd r" by (cases r) (simp add: contiguous_inv_def)
      with le [of r] Cons show ?thesis by simp
    qed (simp add: largest_free_range_def)
    ultimately show ?thesis by simp
  qed
qed

section \<open>Properties\<close>

text \<open>
  C28: the first-fit free list refines the arena of free tokens. In every state reached
  from an empty arena by any calls, a grant is the lowest range of the requested length
  that no request holds, \<open>None\<close> is returned only when there is no such range anywhere,
  a refusal changes no holding, and a release gives back exactly the range that was granted.
\<close>

theorem first_fit_refines_arena:
  assumes "contiguous_init capacity g = Inr al0" and "ca.reachable_from al0 al"
  shows "(\<forall>res al'. contiguous_allocate al rid n = Inr (res, al') \<longrightarrow>
      arena_alloc capacity (held al) rid n (map_option start_token res) (held al')) \<and>
    (\<forall>a al'. contiguous_release al rid = Inr (a, al') \<longrightarrow>
      held al rid = Some (start_token a, ca_capacity a) \<and> held al' = (held al)(rid := None)) \<and>
    used_tokens al = int (card (\<Union>r \<in> ran (held al). tspan r)) \<and>
    ((\<exists>b. hole capacity (held al) b n) \<longleftrightarrow> n \<le> largest_free_range al)"
proof -
  note i = contiguous_reachable_inv [OF assms, THEN conjunct1] and c = contiguous_reachable_inv [OF assms, THEN conjunct2]
  show ?thesis
    using contiguous_alloc_law [OF i, unfolded c] contiguous_dealloc_law [OF i] used_is_held [OF i]
      largest_free_range_spec [OF i, unfolded c] by simp
qed

definition demo_geometry :: kv_geometry where
  "demo_geometry = \<lparr>num_layers = 2, num_kv_heads = 1, head_dim = 4, kv_dtype = ''float16'', num_query_heads = Some 2\<rparr>"

text \<open>Two requests in an arena of eight tokens; the first leaves, a request of three reuses its hole.\<close>

definition demo_arena :: contiguous_allocator where
  "demo_arena = \<lparr>ct_capacity = 8, ct_geometry = demo_geometry, free_ranges = [(0, 3), (5, 3)],
     ct_allocations = [(''b'', \<lparr>ca_request_id = ''b'', start_token = 3, ca_capacity = 2\<rparr>)]\<rparr>"

lemma demo_arena_reachable:
  "\<exists>al0. contiguous_init 8 demo_geometry = Inr al0 \<and> ca.reachable_from al0 demo_arena"
proof -
  let ?a = "\<lparr>ca_request_id = ''a'', start_token = 0, ca_capacity = 3\<rparr>"
  let ?b = "\<lparr>ca_request_id = ''b'', start_token = 3, ca_capacity = 2\<rparr>"
  define al0 where "al0 = \<lparr>ct_capacity = 8, ct_geometry = demo_geometry, free_ranges = [(0, 8)], ct_allocations = []\<rparr>"
  define al1 where "al1 = \<lparr>ct_capacity = 8, ct_geometry = demo_geometry, free_ranges = [(3, 5)], ct_allocations = [(''a'', ?a)]\<rparr>"
  define al2 where "al2 = \<lparr>ct_capacity = 8, ct_geometry = demo_geometry, free_ranges = [(5, 3)], ct_allocations = [(''a'', ?a), (''b'', ?b)]\<rparr>"
  have a: "start_of_grant (contiguous_allocate al0 ''a'' 3) = Inr (Some 0, al1)"
    by (simp add: al0_def al1_def start_of_grant_def contiguous_allocate_def Let_def)
  have b: "start_of_grant (contiguous_allocate al1 ''b'' 2) = Inr (Some 3, al2)"
    by (simp add: al1_def al2_def start_of_grant_def contiguous_allocate_def Let_def)
  have c: "and_then (contiguous_release al2 ''a'') (\<lambda>(a, al'). Inr al') = Inr demo_arena"
    by (simp add: al2_def contiguous_release_def demo_arena_def merge_step_def insort_key_def Let_def)
  have "ca.reachable_from al0 demo_arena"
    by (rule ca.released [OF ca.allocated [OF ca.allocated [OF ca.start a] b] c])
  then show ?thesis by (intro exI [of _ al0]) (simp add: contiguous_init_def al0_def)
qed

theorem first_fit_refines_arena_witness:
  "contiguous_allocate demo_arena ''c'' 3 \<noteq> Inr (None, demo_arena) \<and>
   arena_alloc 8 (held demo_arena) ''c'' 3 (Some 0) ((held demo_arena)(''c'' \<mapsto> (0, 3))) \<and> \<not> hole 8 (held demo_arena) 0 4"
proof -
  obtain al0 where r: "contiguous_init 8 demo_geometry = Inr al0" "ca.reachable_from al0 demo_arena" using demo_arena_reachable by blast
  let ?c = "\<lparr>ca_request_id = ''c'', start_token = 0, ca_capacity = 3\<rparr>"
  define al' where "al' = demo_arena\<lparr>free_ranges := [(5, 3)], ct_allocations := ct_allocations demo_arena @ [(''c'', ?c)]\<rparr>"
  have "contiguous_allocate demo_arena ''c'' 3 = Inr (Some ?c, al')"
    by (simp add: contiguous_allocate_def demo_arena_def al'_def Let_def)
  moreover have "held al' = (held demo_arena)(''c'' \<mapsto> (0, 3))"
    by (simp add: demo_arena_def held_def fun_eq_iff al'_def)
  moreover have "largest_free_range demo_arena = 3" by (simp add: largest_free_range_def demo_arena_def)
  ultimately show ?thesis
    using first_fit_refines_arena [OF r, of "''c''" 3] first_fit_refines_arena [OF r, of "''c''" 4] by auto
qed

end
