(* ===== verification/Sampler.thy ===== *)
theory Sampler
  imports Request "HOL-Library.Option_ord"
begin

text \<open>
  Batched sampling: \<open>BatchedSampler\<close> of \<open>engine/batching/sampler.py\<close>. Logits are exact
  reals; a masked logit (minus infinity) is \<open>None\<close>, the least element of the option
  order. What \<open>torch\<close> decides is the argument \<open>ops\<close>: seeding, the multinomial draws,
  the order \<open>sort\<close> and \<open>topk\<close> give to equal values, and which of several values written to
  one index \<open>scatter\<close> keeps.
\<close>

section \<open>What torch provides\<close>

record 'g torch_ops =
  manual_seed :: "int \<Rightarrow> 'g"
  multinomial :: "'g \<Rightarrow> real list \<Rightarrow> nat \<times> 'g"
  multinomial_rows :: "'g \<Rightarrow> real list list \<Rightarrow> nat list \<times> 'g"
  ranking :: "real option list \<Rightarrow> nat list"
  scattered :: "real list \<Rightarrow> real"

type_synonym logits = "real list"
type_synonym masked_logits = "real option list"

definition argmax :: "'a::linorder list \<Rightarrow> nat" where
  "argmax xs = greatest_by (\<lambda>i. xs ! i) 0 [1..<length xs]"

definition weight :: "real option \<Rightarrow> real" where
  "weight x = (case x of None \<Rightarrow> 0 | Some v \<Rightarrow> exp v)"

definition softmax :: "masked_logits \<Rightarrow> real list" where
  "softmax row = map (\<lambda>x. weight x / sum_list (map weight row)) row"

definition cumsum :: "real list \<Rightarrow> real list" where
  "cumsum ps = map (\<lambda>i. sum_list (take (Suc i) ps)) [0..<length ps]"

section \<open>The sampler's state\<close>

datatype gen_key = RequestKey string | RowKey nat

record 'g sampler =
  shared_generator :: 'g
  seeded :: "(gen_key \<times> 'g) list"
  max_generators :: int

text \<open>\<open>torch_default\<close> is the state of torch's own generator, used when no seed is given.\<close>

definition sampler_init :: "'g torch_ops \<Rightarrow> 'g \<Rightarrow> int option \<Rightarrow> int \<Rightarrow> 'g sampler" where
  "sampler_init ops torch_default generator_seed limit =
     \<lparr>shared_generator = (case generator_seed of None \<Rightarrow> torch_default | Some s \<Rightarrow> manual_seed ops s),
      seeded = [], max_generators = limit\<rparr>"

text \<open>
  The \<open>OrderedDict\<close> of per-request generators, least recently used first. Popping from an
  empty dictionary, which only a negative limit reaches, raises.
\<close>

definition row_generator :: "'g torch_ops \<Rightarrow> gen_key \<Rightarrow> int \<Rightarrow> 'g sampler \<Rightarrow> ('g \<times> 'g sampler) result" where
  "row_generator ops key s st =
     (case map_of (seeded st) key of
        None \<Rightarrow>
          let g = manual_seed ops s; entries = seeded st @ [(key, g)] in
          if max_generators st < 0 then Inl KeyError
          else Inr (g, st\<lparr>seeded := drop (nat (int (length entries) - max_generators st)) entries\<rparr>)
      | Some g \<Rightarrow> Inr (g, st\<lparr>seeded := AList.delete key (seeded st) @ [(key, g)]\<rparr>))"

definition sampler_forget :: "gen_key list \<Rightarrow> 'g sampler \<Rightarrow> 'g sampler" where
  "sampler_forget keys st = st\<lparr>seeded := fold AList.delete keys (seeded st)\<rparr>"

section \<open>Penalties\<close>

fun add_occurrence :: "nat \<Rightarrow> (nat \<times> nat) list \<Rightarrow> (nat \<times> nat) list" where
  "add_occurrence t [] = [(t, 1)]"
| "add_occurrence t ((u, n) # occ) = (if u = t then (u, n + 1) # occ else (u, n) # add_occurrence t occ)"

definition occurrences :: "nat list \<Rightarrow> (nat \<times> nat) list" where
  "occurrences toks = fold add_occurrence toks []"

definition penalize :: "sampling_params \<Rightarrow> real \<Rightarrow> real \<Rightarrow> real" where
  "penalize p x n = (if x > 0 then x / repetition_penalty p else x * repetition_penalty p)
     - presence_penalty p - frequency_penalty p * n"

definition packed_row :: "sampling_params \<Rightarrow> nat list \<Rightarrow> (nat \<times> nat) list" where
  "packed_row p toks = (if \<not> has_penalties p \<or> toks = [] then [] else occurrences toks)"

text \<open>
  The writes of one row of the gather-scatter: its packed tokens, then padding up to the
  batch's width. Padding, and any token outside the vocabulary, is redirected to index 0
  and writes back the value gathered there.
\<close>

definition row_writes :: "sampling_params \<Rightarrow> nat \<Rightarrow> (nat \<times> nat) list \<Rightarrow> logits \<Rightarrow> (nat \<times> real) list" where
  "row_writes p width packed row =
     map (\<lambda>(t, n). if t < length row then (t, penalize p (row ! t) (real n)) else (0, row ! 0)) packed
     @ replicate (width - length packed) (0, row ! 0)"

definition scatter_row :: "'g torch_ops \<Rightarrow> (nat \<times> real) list \<Rightarrow> logits \<Rightarrow> logits" where
  "scatter_row ops writes row =
     map (\<lambda>j. let vs = map snd (filter (\<lambda>(i, v). i = j) writes) in
        if vs = [] then row ! j else scattered ops vs) [0..<length row]"

definition apply_penalties :: "'g torch_ops \<Rightarrow> logits list \<Rightarrow> sampling_params list \<Rightarrow> nat list list \<Rightarrow> logits list" where
  "apply_penalties ops rows params ctxs =
     (let packed = map2 packed_row params ctxs;
          width = fold max (map length packed) 0 in
      if width = 0 then rows
      else map (\<lambda>i. scatter_row ops (row_writes (params ! i) width (packed ! i) (rows ! i)) (rows ! i)) [0..<length rows])"

definition apply_temperature :: "logits list \<Rightarrow> sampling_params list \<Rightarrow> logits list" where
  "apply_temperature rows params =
     map2 (\<lambda>row p. map (\<lambda>x. x / (if sp_greedy p then 1 else temperature p)) row) rows params"

section \<open>Filters\<close>

definition top_k_of :: "nat \<Rightarrow> sampling_params \<Rightarrow> nat" where
  "top_k_of vocab p = (if 0 < top_k p \<and> top_k p < int vocab \<and> \<not> sp_greedy p then nat (top_k p) else 0)"

definition top_p_of :: "sampling_params \<Rightarrow> real" where
  "top_p_of p = (if top_p p < 1 \<and> \<not> sp_greedy p then top_p p else 1)"

definition min_p_of :: "sampling_params \<Rightarrow> real" where
  "min_p_of p = (if min_p p > 0 \<and> \<not> sp_greedy p then min_p p else 0)"

definition keep_at_least :: "bool \<Rightarrow> real option \<Rightarrow> masked_logits \<Rightarrow> masked_logits" where
  "keep_at_least enabled threshold row = map (\<lambda>x. if enabled \<and> x < threshold then None else x) row"

definition top_k_stage :: "nat list \<Rightarrow> masked_logits list \<Rightarrow> masked_logits list" where
  "top_k_stage ks rows =
     (if list_ex (\<lambda>k. k \<noteq> 0) ks
      then let limit = fold max ks 0; kth = map (\<lambda>row. take limit (rev (sort row))) rows in
        map (\<lambda>i. keep_at_least (ks ! i \<noteq> 0) (kth ! i ! (if ks ! i \<noteq> 0 then ks ! i - 1 else 0)) (rows ! i)) [0..<length rows]
      else rows)"

definition min_p_row :: "real \<Rightarrow> masked_logits \<Rightarrow> masked_logits" where
  "min_p_row m row =
     (let ps = softmax row; floor = fold max ps 0 * m in map2 (\<lambda>p x. if p < floor then None else x) ps row)"

definition min_p_stage :: "real list \<Rightarrow> masked_logits list \<Rightarrow> masked_logits list" where
  "min_p_stage ms rows = (if list_ex (\<lambda>m. m > 0) ms then map2 min_p_row ms rows else rows)"

definition top_p_row :: "'g torch_ops \<Rightarrow> real \<Rightarrow> masked_logits \<Rightarrow> masked_logits" where
  "top_p_row ops limit row =
     (let order = ranking ops row; ordered = map (\<lambda>j. row ! j) order; ps = softmax ordered; cum = cumsum ps;
          kept = map (\<lambda>i. if cum ! i - ps ! i \<ge> limit then None else ordered ! i) [0..<length ordered] in
      fold (\<lambda>(j, x) out. out[j := x]) (zip order kept) (replicate (length row) None))"

definition top_p_stage :: "'g torch_ops \<Rightarrow> real list \<Rightarrow> masked_logits list \<Rightarrow> masked_logits list" where
  "top_p_stage ops limits rows = (if list_ex (\<lambda>l. l < 1) limits then map2 (top_p_row ops) limits rows else rows)"

definition sampler_filter :: "'g torch_ops \<Rightarrow> nat \<Rightarrow> logits list \<Rightarrow> sampling_params list \<Rightarrow> masked_logits list" where
  "sampler_filter ops vocab rows params =
     top_p_stage ops (map top_p_of params)
       (min_p_stage (map min_p_of params)
         (top_k_stage (map (top_k_of vocab) params) (map (map Some) rows)))"

section \<open>Draws\<close>

fun draw_seeded ::
  "'g torch_ops \<Rightarrow> sampling_params list \<Rightarrow> (nat \<Rightarrow> gen_key) \<Rightarrow> real list list \<Rightarrow> nat list \<Rightarrow> nat list \<Rightarrow> 'g sampler
     \<Rightarrow> (nat list \<times> 'g sampler) result" where
  "draw_seeded ops params key probs [] toks st = Inr (toks, st)"
| "draw_seeded ops params key probs (row # rows) toks st =
     (case seed (params ! row) of
        None \<Rightarrow> draw_seeded ops params key probs rows toks st
      | Some s \<Rightarrow>
          and_then (row_generator ops (key row) s st) (\<lambda>(g, st1).
            let (t, g') = multinomial ops g (probs ! row) in
            draw_seeded ops params key probs rows (toks[row := t])
              (st1\<lparr>seeded := AList.map_entry (key row) (\<lambda>_. g') (seeded st1)\<rparr>)))"

definition set_rows :: "nat list \<Rightarrow> nat list \<Rightarrow> nat list \<Rightarrow> nat list" where
  "set_rows rows vals toks = fold (\<lambda>(row, t) ts. ts[row := t]) (zip rows vals) toks"

definition sampler_draw ::
  "'g torch_ops \<Rightarrow> masked_logits list \<Rightarrow> sampling_params list \<Rightarrow> string list option \<Rightarrow> 'g sampler
     \<Rightarrow> (nat list \<times> 'g sampler) result" where
  "sampler_draw ops rows params request_ids st =
     (let greedy_rows = filter (\<lambda>i. sp_greedy (params ! i)) [0..<length params];
          sampled_rows = filter (\<lambda>i. \<not> sp_greedy (params ! i)) [0..<length params];
          toks0 = set_rows greedy_rows (map (\<lambda>i. argmax (rows ! i)) greedy_rows) (replicate (length params) 0) in
      if sampled_rows = [] then Inr (toks0, st)
      else let probs = map softmax rows;
          unseeded = filter (\<lambda>i. seed (params ! i) = None) sampled_rows;
          (toks1, st1) = (if unseeded = [] then (toks0, st)
             else let (drawn, g') = multinomial_rows ops (shared_generator st) (map (\<lambda>i. probs ! i) unseeded) in
               (set_rows unseeded drawn toks0, st\<lparr>shared_generator := g'\<rparr>));
          key = (\<lambda>i. case request_ids of None \<Rightarrow> RowKey i | Some ids \<Rightarrow> RequestKey (ids ! i)) in
        draw_seeded ops params key probs sampled_rows toks1 st1)"

definition log_softmax :: "logits \<Rightarrow> real list" where
  "log_softmax row = map (\<lambda>x. x - ln (sum_list (map exp row))) row"

definition wanted_logprobs :: "sampling_params \<Rightarrow> nat" where
  "wanted_logprobs p = nat (case sp_logprobs p of None \<Rightarrow> 0 | Some k \<Rightarrow> k)"

text \<open>
  \<open>_logprobs\<close>: the chosen token first, then the row's best alternatives; the \<open>topk\<close> of the
  batch raises when it asks for more columns than the vocabulary has.
\<close>

definition row_logprobs :: "'g torch_ops \<Rightarrow> nat \<Rightarrow> nat \<Rightarrow> logits \<Rightarrow> nat \<Rightarrow> (nat \<times> real) list" where
  "row_logprobs ops wanted cnt row chosen =
     (let selected = log_softmax row; top_ids = take wanted (ranking ops (map Some selected));
          top_values = map (\<lambda>j. selected ! j) top_ids in
      take (cnt + 1) ((chosen, selected ! chosen) # filter (\<lambda>(t, v). t \<noteq> chosen) (zip (take cnt top_ids) (take cnt top_values))))"

definition sampler_logprobs ::
  "'g torch_ops \<Rightarrow> nat \<Rightarrow> logits list option \<Rightarrow> sampling_params list \<Rightarrow> nat list \<Rightarrow> (nat \<times> (nat \<times> real) list) list result" where
  "sampler_logprobs ops vocab source params chosen =
     (case source of None \<Rightarrow> Inr []
      | Some rows \<Rightarrow>
          let wanting = filter (\<lambda>i. sp_logprobs (params ! i) \<noteq> None) [0..<length params];
              wanted = fold max (map (\<lambda>i. wanted_logprobs (params ! i)) wanting) 0 in
          if wanting = [] then Inr []
          else if wanted > vocab then Inl RuntimeError
          else Inr (map (\<lambda>i. (i, row_logprobs ops wanted (wanted_logprobs (params ! i)) (rows ! i) (chosen ! i))) wanting))"

record sample_result =
  sr_token_ids :: "nat list"
  sr_logprobs :: "(nat \<times> (nat \<times> real) list) list"

definition sample_working :: "'g torch_ops \<Rightarrow> logits list \<Rightarrow> sampling_params list \<Rightarrow> nat list list option \<Rightarrow> logits list" where
  "sample_working ops rows params ctxs =
     apply_temperature
       (if list_ex has_penalties params \<and> ctxs \<noteq> None then apply_penalties ops rows params (the ctxs) else rows) params"

definition sample ::
  "'g torch_ops \<Rightarrow> 'g sampler \<Rightarrow> nat \<Rightarrow> logits list \<Rightarrow> sampling_params list \<Rightarrow> nat list list option \<Rightarrow> string list option
     \<Rightarrow> (sample_result \<times> 'g sampler) result" where
  "sample ops st vocab rows params ctxs request_ids =
     (if length params \<noteq> length rows then Inl ValueError
      else if (case ctxs of None \<Rightarrow> False | Some cs \<Rightarrow> length cs \<noteq> length rows) then Inl ValueError
      else if (case request_ids of None \<Rightarrow> False | Some ids \<Rightarrow> length ids \<noteq> length rows) then Inl ValueError
      else let wants = list_ex (\<lambda>p. sp_logprobs p \<noteq> None) params;
               unmodified = list_all (\<lambda>p. sp_greedy p \<and> \<not> has_penalties p) params in
        if unmodified \<and> \<not> wants then Inr (\<lparr>sr_token_ids = map argmax rows, sr_logprobs = []\<rparr>, st)
        else let working = sample_working ops rows params ctxs in
          and_then (sampler_draw ops (sampler_filter ops vocab working params) params request_ids st) (\<lambda>(chosen, st').
          and_then (sampler_logprobs ops vocab (if wants then Some working else None) params chosen) (\<lambda>lps.
          Inr (\<lparr>sr_token_ids = chosen, sr_logprobs = lps\<rparr>, st'))))"

section \<open>What the documentation of torch promises\<close>

text \<open>
  \<open>sort\<close> and \<open>topk\<close> return a permutation in descending order, \<open>scatter\<close> keeps one of the
  values written to an index, and \<open>multinomial\<close> draws an index of positive probability.
\<close>

definition torch_laws :: "'g torch_ops \<Rightarrow> bool" where
  "torch_laws ops \<longleftrightarrow>
     (\<forall>r. mset (ranking ops r) = mset [0..<length r]) \<and>
     (\<forall>r i j. i \<le> j \<longrightarrow> j < length r \<longrightarrow> r ! (ranking ops r ! j) \<le> r ! (ranking ops r ! i)) \<and>
     (\<forall>vs. vs \<noteq> [] \<longrightarrow> scattered ops vs \<in> set vs) \<and>
     (\<forall>g ps. (\<exists>p \<in> set ps. 0 < p) \<longrightarrow> fst (multinomial ops g ps) < length ps \<and> 0 < ps ! fst (multinomial ops g ps))"

lemma torch_perm: "torch_laws ops \<Longrightarrow> mset (ranking ops r) = mset [0..<length r]"
  and torch_desc: "torch_laws ops \<Longrightarrow> i \<le> j \<Longrightarrow> j < length r \<Longrightarrow> r ! (ranking ops r ! j) \<le> r ! (ranking ops r ! i)"
  and torch_scatter: "torch_laws ops \<Longrightarrow> vs \<noteq> [] \<Longrightarrow> scattered ops vs \<in> set vs"
  and torch_multinomial: "torch_laws ops \<Longrightarrow> \<exists>p \<in> set ps. 0 < p \<Longrightarrow>
      fst (multinomial ops g ps) < length ps \<and> 0 < ps ! fst (multinomial ops g ps)"
  unfolding torch_laws_def by blast+

lemma torch_order:
  assumes "torch_laws ops"
  shows "length (ranking ops r) = length r" "distinct (ranking ops r)" "set (ranking ops r) = {0..<length r}"
proof -
  note m = torch_perm [OF assms, of r]
  show "length (ranking ops r) = length r" using mset_eq_length [OF m] by simp
  show "distinct (ranking ops r)" using mset_eq_imp_distinct_iff [OF m] by simp
  show "set (ranking ops r) = {0..<length r}" using mset_eq_setD [OF m] by simp
qed

section \<open>The reference: one row at a time\<close>

definition penalized_row :: "sampling_params \<Rightarrow> nat list \<Rightarrow> logits \<Rightarrow> logits" where
  "penalized_row p toks row =
     map (\<lambda>j. if has_penalties p \<and> j \<in> set toks then penalize p (row ! j) (real (count_list toks j)) else row ! j) [0..<length row]"

definition filter_row :: "'g torch_ops \<Rightarrow> nat \<Rightarrow> sampling_params \<Rightarrow> masked_logits \<Rightarrow> masked_logits" where
  "filter_row ops vocab p row =
     (let k = top_k_of vocab p; m = min_p_of p; l = top_p_of p;
          r1 = (if k = 0 then row else keep_at_least True (rev (sort row) ! (k - 1)) row);
          r2 = (if m > 0 then min_p_row m r1 else r1) in
      if l < 1 then top_p_row ops l r2 else r2)"

subsection \<open>Penalties\<close>

lemma add_occurrence_spec:
  "distinct (map fst occ) \<Longrightarrow> distinct (map fst (add_occurrence t occ)) \<and> fst ` set (add_occurrence t occ) = insert t (fst ` set occ) \<and>
   map_of (add_occurrence t occ) u = (if u = t then Some (Suc (case map_of occ t of None \<Rightarrow> 0 | Some n \<Rightarrow> n)) else map_of occ u)"
  by (induction t occ rule: add_occurrence.induct) (auto split: option.splits)

lemma occurrences_distinct: "distinct (map fst (occurrences toks))"
  by (induction toks rule: rev_induct) (simp_all add: occurrences_def add_occurrence_spec)

lemma occurrences_spec: "map_of (occurrences toks) u = (if u \<in> set toks then Some (count_list toks u) else None)"
proof (induction toks arbitrary: u rule: rev_induct)
  case (snoc t toks)
  have "map_of (occurrences (toks @ [t])) u =
      (if u = t then Some (Suc (case map_of (occurrences toks) t of None \<Rightarrow> 0 | Some n \<Rightarrow> n)) else map_of (occurrences toks) u)"
    using add_occurrence_spec [OF occurrences_distinct [of toks], of t u] by (simp add: occurrences_def)
  then show ?case by (simp only: snoc.IH) (simp add: count_list_0_iff)
qed (simp add: occurrences_def)

lemma occurrences_member: "(u, n) \<in> set (occurrences toks) \<longleftrightarrow> u \<in> set toks \<and> n = count_list toks u"
proof -
  have "(u, n) \<in> set (occurrences toks) \<longleftrightarrow> map_of (occurrences toks) u = Some n"
    by (rule map_of_eq_Some_iff [OF occurrences_distinct, symmetric])
  then show ?thesis by (auto simp only: occurrences_spec split: if_splits)
qed

lemma packed_member: "(u, n) \<in> set (packed_row p toks) \<longleftrightarrow> has_penalties p \<and> u \<in> set toks \<and> n = count_list toks u"
  by (auto simp: packed_row_def occurrences_member)

lemma packed_empty: "packed_row p toks = [] \<longleftrightarrow> \<not> has_penalties p \<or> toks = []"
proof
  assume "packed_row p toks = []"
  then have "\<not> (has_penalties p \<and> u \<in> set toks)" for u using packed_member [of u "count_list toks u" p toks] by simp
  then show "\<not> has_penalties p \<or> toks = []" by (cases toks) auto
qed (auto simp: packed_row_def)

lemma scatter_row_is_penalized:
  assumes laws: "torch_laws ops"
    and safe: "0 \<notin> set toks \<or> (\<forall>t \<in> set toks. t < length row) \<and> width \<le> length (packed_row p toks)"
  shows "scatter_row ops (row_writes p width (packed_row p toks) row) row = penalized_row p toks row"
proof (rule nth_equalityI)
  fix j assume "j < length (scatter_row ops (row_writes p width (packed_row p toks) row) row)"
  then have j: "j < length row" by (simp add: scatter_row_def)
  let ?w = "row_writes p width (packed_row p toks) row"
  let ?vs = "map snd (filter (\<lambda>(i, v). i = j) ?w)"
  have target: "v = penalized_row p toks row ! j" if "v \<in> set ?vs" for v
  proof -
    from that have "(j, v) \<in> set ?w" by auto
    then consider (token) n where "(j, n) \<in> set (packed_row p toks)" "v = penalize p (row ! j) (real n)"
      | (outside) t n where "(t, n) \<in> set (packed_row p toks)" "\<not> t < length row" "j = 0" "v = row ! 0"
      | (padding) "j = 0" "v = row ! 0" "length (packed_row p toks) < width"
      by (auto simp: row_writes_def split: if_splits)
    then show ?thesis
    proof cases
      case token
      with j show ?thesis by (simp add: penalized_row_def packed_member)
    next
      case outside
      with safe j show ?thesis by (auto simp: penalized_row_def packed_member)
    next
      case padding
      with safe j show ?thesis by (auto simp: penalized_row_def)
    qed
  qed
  show "scatter_row ops ?w row ! j = penalized_row p toks row ! j"
  proof (cases "?vs = []")
    case True
    have "\<not> (has_penalties p \<and> j \<in> set toks)"
    proof
      assume "has_penalties p \<and> j \<in> set toks"
      then have "(j, count_list toks j) \<in> set (packed_row p toks)" by (simp add: packed_member)
      then have "(j, penalize p (row ! j) (real (count_list toks j))) \<in> set ?w" using j by (force simp: row_writes_def)
      with True show False by (force simp: filter_empty_conv)
    qed
    then have "penalized_row p toks row ! j = row ! j" using j unfolding penalized_row_def by (subst nth_map) auto
    with True j show ?thesis by (simp add: scatter_row_def Let_def)
  next
    case False
    have "scattered ops ?vs = penalized_row p toks row ! j" by (rule target [OF torch_scatter [OF laws False]])
    with False j show ?thesis unfolding scatter_row_def Let_def by simp
  qed
qed (simp add: scatter_row_def penalized_row_def)

lemma fold_max_ge_nat: "x \<in> set xs \<Longrightarrow> x \<le> fold max xs (m :: nat)"
proof -
  have mono: "m \<le> fold max xs m" for m :: nat and xs by (induction xs arbitrary: m) (auto intro: order_trans [OF max.cobounded2])
  show "x \<in> set xs \<Longrightarrow> x \<le> fold max xs m"
  proof (induction xs arbitrary: m)
    case (Cons a xs)
    have "max a m \<le> fold max xs (max a m)" by (rule mono)
    with Cons show ?case by auto
  qed simp
qed

lemma fold_max_in_nat: "fold max xs (m :: nat) \<in> insert m (set xs)"
proof (induction xs arbitrary: m)
  case (Cons a xs)
  from Cons.IH [of "max a m"] show ?case by (auto simp: max_def split: if_splits)
qed simp

text \<open>The condition under which no padding collides with a penalty of the row on token 0.\<close>

definition penalty_safe :: "nat \<Rightarrow> sampling_params list \<Rightarrow> nat list list \<Rightarrow> nat \<Rightarrow> bool" where
  "penalty_safe vocab params ctxs i \<longleftrightarrow> \<not> has_penalties (params ! i) \<or> 0 \<notin> set (ctxs ! i) \<or>
     (\<forall>t \<in> set (ctxs ! i). t < vocab) \<and>
     (\<forall>j < length params. length (packed_row (params ! j) (ctxs ! j)) \<le> length (packed_row (params ! i) (ctxs ! i)))"

lemma apply_penalties_row:
  assumes "torch_laws ops" "length params = length rows" "length ctxs = length rows" "i < length rows"
    and "penalty_safe (length (rows ! i)) params ctxs i"
  shows "apply_penalties ops rows params ctxs ! i = penalized_row (params ! i) (ctxs ! i) (rows ! i)"
proof -
  define packed where "packed = map2 packed_row params ctxs"
  define width where "width = fold max (map length packed) 0"
  have p: "packed ! j = packed_row (params ! j) (ctxs ! j)" if "j < length rows" for j using that assms(2,3) by (simp add: packed_def)
  have len: "length packed = length rows" using assms(2,3) by (simp add: packed_def)
  have ap: "apply_penalties ops rows params ctxs = (if width = 0 then rows
      else map (\<lambda>i. scatter_row ops (row_writes (params ! i) width (packed ! i) (rows ! i)) (rows ! i)) [0..<length rows])"
    by (simp add: apply_penalties_def packed_def width_def Let_def)
  show ?thesis
  proof (cases "width = 0")
    case True
    have "length (packed ! i) \<le> width" unfolding width_def by (rule fold_max_ge_nat) (use assms(4) len in simp)
    then have "packed_row (params ! i) (ctxs ! i) = []" using True p [OF assms(4)] by simp
    then have "\<not> (has_penalties (params ! i) \<and> j \<in> set (ctxs ! i))" for j by (auto simp: packed_empty)
    then have "penalized_row (params ! i) (ctxs ! i) (rows ! i) = rows ! i" unfolding penalized_row_def by (simp only: if_False map_nth)
    with True show ?thesis by (simp add: ap)
  next
    case False
    have "width \<in> set (map length packed)" using fold_max_in_nat [of "map length packed" 0] False by (auto simp: width_def)
    then obtain j where "j < length rows" "width = length (packed ! j)" using len by (auto simp: in_set_conv_nth)
    then have "0 \<notin> set (ctxs ! i) \<or> (\<forall>t \<in> set (ctxs ! i). t < length (rows ! i)) \<and> width \<le> length (packed_row (params ! i) (ctxs ! i))"
      if "has_penalties (params ! i)" using assms(2,5) p that by (auto simp: penalty_safe_def)
    then have "scatter_row ops (row_writes (params ! i) width (packed_row (params ! i) (ctxs ! i)) (rows ! i)) (rows ! i) =
        penalized_row (params ! i) (ctxs ! i) (rows ! i)"
      using scatter_row_is_penalized [OF assms(1), of "[]" "rows ! i" width "params ! i"]
      by (cases "has_penalties (params ! i)") (blast intro: scatter_row_is_penalized [OF assms(1)], simp add: packed_row_def penalized_row_def)
    then show ?thesis using False assms(4) p by (simp add: ap)
  qed
qed

subsection \<open>Filters\<close>

lemma weight_nonneg [simp]: "0 \<le> weight x"
  by (simp add: weight_def split: option.split)

lemma weight_pos_iff [simp]: "0 < weight x \<longleftrightarrow> x \<noteq> None"
  by (simp add: weight_def split: option.split)

lemma weight_mono: "x \<le> y \<Longrightarrow> weight x \<le> weight y"
  by (cases x; cases y) (simp_all add: weight_def)

lemma length_softmax [simp]: "length (softmax row) = length row"
  by (simp add: softmax_def)

lemma sum_weight_nonneg [simp]: "0 \<le> sum_list (map weight row)"
  by (induction row) auto

lemma nth_softmax: "i < length row \<Longrightarrow> softmax row ! i = weight (row ! i) / sum_list (map weight row)"
  by (simp add: softmax_def)

lemma softmax_nonneg: "p \<in> set (softmax row) \<Longrightarrow> 0 \<le> p"
  by (auto simp: softmax_def)

lemma sum_weight_pos: "x \<in> set row \<Longrightarrow> x \<noteq> None \<Longrightarrow> 0 < sum_list (map weight row)"
proof -
  assume "x \<in> set row" "x \<noteq> None"
  then have "0 < weight x" "weight x \<le> sum_list (map weight row)" by (auto intro!: member_le_sum_list)
  then show ?thesis by linarith
qed

lemma softmax_pos: "i < length row \<Longrightarrow> 0 < softmax row ! i \<longleftrightarrow> row ! i \<noteq> None"
  using sum_weight_pos [of "row ! i" row] nth_mem [of i row] by (cases "row ! i") (simp_all add: nth_softmax weight_def)

lemma sum_softmax: "x \<in> set row \<Longrightarrow> x \<noteq> None \<Longrightarrow> sum_list (softmax row) = 1"
  using sum_weight_pos [of x row] by (simp add: softmax_def divide_inverse sum_list_mult_const comp_def)

text \<open>The probability mass before position \<open>i\<close>, which \<open>cumulative - p\<close> computes.\<close>

lemma exclusive_mass: "i < length ps \<Longrightarrow> cumsum ps ! i - ps ! i = sum_list (take i ps)"
  by (simp add: cumsum_def take_Suc_conv_app_nth)

lemma exclusive_below_one:
  assumes "i < length row" "row ! i \<noteq> None"
  shows "cumsum (softmax row) ! i - softmax row ! i < 1"
proof -
  let ?ps = "softmax row"
  have "sum_list ?ps = sum_list (take i ?ps) + ?ps ! i + sum_list (drop (Suc i) ?ps)"
    using assms(1) by (metis add.assoc id_take_nth_drop length_softmax sum_list.Cons sum_list_append)
  moreover have "0 \<le> sum_list (drop (Suc i) ?ps)" by (rule sum_list_nonneg) (auto dest: in_set_dropD intro: softmax_nonneg)
  moreover have "0 < ?ps ! i" using assms by (simp add: softmax_pos)
  moreover have "sum_list ?ps = 1" by (rule sum_softmax [OF nth_mem [OF assms(1)] assms(2)])
  ultimately show ?thesis using assms(1) by (simp add: exclusive_mass)
qed

lemma fold_write:
  "distinct (map fst zs) \<Longrightarrow> j < length out \<Longrightarrow>
   fold (\<lambda>(j, x) out. out[j := x]) zs out ! j = (case map_of zs j of None \<Rightarrow> out ! j | Some x \<Rightarrow> x)"
proof (induction zs arbitrary: out)
  case (Cons z zs)
  obtain k x where z: "z = (k, x)" by (cases z)
  have "map_of zs k = None" using Cons.prems(1) by (simp add: z map_of_eq_None_iff)
  with Cons z show ?case by (auto simp: nth_list_update split: option.split)
qed simp

lemma length_fold_write [simp]: "length (fold (\<lambda>(j, x) out. out[j := x]) zs out) = length out"
  by (induction zs arbitrary: out) auto

lemma top_p_row_nth:
  assumes "torch_laws ops" "i < length row"
  shows "length (top_p_row ops l row) = length row"
    and "top_p_row ops l row ! (ranking ops row ! i) =
      (let ordered = map (\<lambda>j. row ! j) (ranking ops row); ps = softmax ordered in
       if sum_list (take i ps) \<ge> l then None else row ! (ranking ops row ! i))"
proof -
  let ?order = "ranking ops row"
  define ordered where "ordered = map (\<lambda>j. row ! j) ?order"
  define kept where "kept = map (\<lambda>i. if cumsum (softmax ordered) ! i - softmax ordered ! i \<ge> l then None else ordered ! i) [0..<length ordered]"
  have def_: "top_p_row ops l row = fold (\<lambda>(j, x) out. out[j := x]) (zip ?order kept) (replicate (length row) None)"
    unfolding top_p_row_def Let_def kept_def ordered_def by (rule refl)
  then show "length (top_p_row ops l row) = length row" by simp
  note order = torch_order [OF assms(1), of row]
  have lens: "length ordered = length row" "length kept = length row" using order by (simp_all add: ordered_def kept_def)
  have keys: "map fst (zip ?order kept) = ?order" using order lens by simp
  have "(?order ! i, kept ! i) \<in> set (zip ?order kept)" using assms(2) order lens by (auto simp: set_zip)
  then have "map_of (zip ?order kept) (?order ! i) = Some (kept ! i)" using order keys by (intro map_of_is_SomeI) simp_all
  moreover have "?order ! i < length row" using order assms(2) nth_mem [of i ?order] by auto
  ultimately have "top_p_row ops l row ! (?order ! i) = kept ! i" unfolding def_ by (subst fold_write) (use order keys in simp_all)
  also have "\<dots> = (if sum_list (take i (softmax ordered)) \<ge> l then None else row ! (?order ! i))"
    using assms(2) order lens by (simp add: kept_def exclusive_mass) (simp add: ordered_def)
  finally show "top_p_row ops l row ! (?order ! i) =
      (let ordered = map (\<lambda>j. row ! j) ?order; ps = softmax ordered in if sum_list (take i ps) \<ge> l then None else row ! (?order ! i))"
    by (simp add: ordered_def Let_def)
qed

lemma rank_of: "torch_laws ops \<Longrightarrow> j < length row \<Longrightarrow> \<exists>i < length row. ranking ops row ! i = j"
  using torch_order [of ops row] by (metis atLeast0LessThan in_set_conv_nth lessThan_iff)

lemma top_p_row_one:
  assumes "torch_laws ops"
  shows "top_p_row ops 1 row = row"
proof (rule nth_equalityI)
  show "length (top_p_row ops 1 row) = length row" by (simp add: top_p_row_def Let_def)
  fix j assume "j < length (top_p_row ops 1 row)"
  then have "j < length row" by (simp add: top_p_row_def Let_def)
  then obtain i where i: "i < length row" "ranking ops row ! i = j" using rank_of [OF assms] by blast
  define ordered where "ordered = map (\<lambda>j. row ! j) (ranking ops row)"
  have o: "i < length ordered" "ordered ! i = row ! j" using i torch_order [OF assms] by (simp_all add: ordered_def)
  have "\<not> sum_list (take i (softmax ordered)) \<ge> 1" if "row ! j \<noteq> None"
    using exclusive_below_one [OF o(1)] that o by (simp add: exclusive_mass)
  with top_p_row_nth(2) [OF assms i(1), of 1] i(2) show "top_p_row ops 1 row ! j = row ! j"
    unfolding Let_def ordered_def [symmetric] by (cases "row ! j = None") (simp_all split: if_splits)
qed

lemma fold_max_real_ge: "x \<in> insert m (set xs) \<Longrightarrow> x \<le> fold max xs (m :: real)"
proof (induction xs arbitrary: m x)
  case (Cons a xs)
  have "max a m \<le> fold max xs (max a m)" by (rule Cons.IH) simp
  with Cons show ?case by auto
qed simp

lemma fold_max_real_in: "fold max xs (m :: real) \<in> insert m (set xs)"
proof (induction xs arbitrary: m)
  case (Cons a xs)
  from Cons.IH [of "max a m"] show ?case by (auto simp: max_def split: if_splits)
qed simp

lemma min_p_row_zero: "min_p_row 0 row = row"
proof (rule nth_equalityI)
  fix j assume "j < length (min_p_row 0 row)"
  then have j: "j < length row" by (simp add: min_p_row_def Let_def)
  then have "0 \<le> softmax row ! j" by (intro softmax_nonneg [OF nth_mem]) simp
  with j show "min_p_row 0 row ! j = row ! j" by (simp add: min_p_row_def Let_def)
qed (simp add: min_p_row_def Let_def)

lemma keep_at_least_off [simp]: "keep_at_least False th row = row"
  by (simp add: keep_at_least_def)

lemma list_ex_nth: "list_ex P xs \<longleftrightarrow> (\<exists>i < length xs. P (xs ! i))"
  unfolding list_ex_iff by (metis in_set_conv_nth)

lemma top_k_stage_row:
  assumes "length ks = length rows" "i < length rows"
  shows "top_k_stage ks rows ! i = (if ks ! i = 0 then rows ! i else keep_at_least True (rev (sort (rows ! i)) ! (ks ! i - 1)) (rows ! i))"
proof (cases "list_ex (\<lambda>k. k \<noteq> 0) ks")
  case True
  have "ks ! i \<le> fold max ks 0" using assms by (intro fold_max_ge_nat) simp
  with True assms show ?thesis by (auto simp: top_k_stage_def Let_def)
next
  case False
  with assms show ?thesis by (auto simp: top_k_stage_def list_ex_nth)
qed

lemma length_top_k_stage: "length ks = length rows \<Longrightarrow> length (top_k_stage ks rows) = length rows"
  by (simp add: top_k_stage_def Let_def)

lemma min_p_of_nonneg: "0 \<le> min_p_of p"
  by (simp add: min_p_of_def)

lemma top_p_of_le: "top_p_of p \<le> 1"
  by (simp add: top_p_of_def)

lemma sampler_filter_row:
  assumes laws: "torch_laws ops" and len: "length params = length rows" and i: "i < length rows"
  shows "sampler_filter ops vocab rows params ! i = filter_row ops vocab (params ! i) (map Some (rows ! i))"
proof -
  define s1 where "s1 = top_k_stage (map (top_k_of vocab) params) (map (map Some) rows)"
  define s2 where "s2 = min_p_stage (map min_p_of params) s1"
  have l1: "length s1 = length rows" by (simp add: s1_def length_top_k_stage len)
  then have l2: "length s2 = length rows" by (simp add: s2_def min_p_stage_def len)
  have r1: "s1 ! i = (let k = top_k_of vocab (params ! i); row = map Some (rows ! i) in
      if k = 0 then row else keep_at_least True (rev (sort row) ! (k - 1)) row)"
    using top_k_stage_row [of "map (top_k_of vocab) params" "map (map Some) rows" i] len i by (simp add: s1_def Let_def)
  have r2: "s2 ! i = (if min_p_of (params ! i) > 0 then min_p_row (min_p_of (params ! i)) (s1 ! i) else s1 ! i)"
  proof (cases "list_ex (\<lambda>m. m > 0) (map min_p_of params)")
    case True
    then show ?thesis using len i l1 min_p_of_nonneg [of "params ! i"] by (auto simp: s2_def min_p_stage_def min_p_row_zero not_less)
  next
    case False
    then have "\<not> min_p_of (params ! i) > 0" using len i by (auto simp: list_ex_nth)
    with False show ?thesis by (simp add: s2_def min_p_stage_def)
  qed
  have "top_p_stage ops (map top_p_of params) s2 ! i =
      (if top_p_of (params ! i) < 1 then top_p_row ops (top_p_of (params ! i)) (s2 ! i) else s2 ! i)"
  proof (cases "list_ex (\<lambda>l. l < 1) (map top_p_of params)")
    case True
    moreover have "top_p_of (params ! i) = 1" if "\<not> top_p_of (params ! i) < 1" using that top_p_of_le [of "params ! i"] by simp
    ultimately show ?thesis using len i l2 by (auto simp: top_p_stage_def top_p_row_one [OF laws])
  next
    case False
    then have "\<not> top_p_of (params ! i) < 1" using len i by (auto simp: list_ex_nth)
    with False show ?thesis by (simp add: top_p_stage_def)
  qed
  then show ?thesis by (simp add: sampler_filter_def filter_row_def Let_def s1_def [symmetric] s2_def [symmetric] r1 r2)
qed

lemma length_sampler_filter: "length params = length rows \<Longrightarrow> length (sampler_filter ops vocab rows params) = length rows"
  by (simp add: sampler_filter_def top_p_stage_def min_p_stage_def length_top_k_stage)

lemma filter_row_greedy: "sp_greedy p \<Longrightarrow> filter_row ops vocab p row = row"
  by (simp add: filter_row_def top_k_of_def min_p_of_def top_p_of_def)

subsection \<open>Draws\<close>

lemma greatest_by_cong:
  "(\<And>a b. a \<in> insert x (set ys) \<Longrightarrow> b \<in> insert x (set ys) \<Longrightarrow> (f a < f b) = (g a < g b)) \<Longrightarrow> greatest_by f x ys = greatest_by g x ys"
proof (induction ys arbitrary: x)
  case (Cons y ys)
  have step: "(f x < f y) = (g x < g y)" by (rule Cons.prems) simp_all
  have "greatest_by f z ys = greatest_by g z ys" if "z \<in> {x, y}" for z
    by (rule Cons.IH, rule Cons.prems) (use that in auto)
  with step show ?case by simp
qed simp

lemma argmax_Some: "argmax (map Some row) = argmax row"
proof (cases "row = []")
  case False
  then show ?thesis unfolding argmax_def by (simp, intro greatest_by_cong) auto
qed (simp add: argmax_def)

lemma set_rows_nth:
  "length rows = length vals \<Longrightarrow> distinct rows \<Longrightarrow> i < length toks \<Longrightarrow>
   set_rows rows vals toks ! i = (case map_of (zip rows vals) i of None \<Rightarrow> toks ! i | Some t \<Rightarrow> t)"
  by (simp add: set_rows_def fold_write)

lemma length_set_rows [simp]: "length (set_rows rows vals toks) = length toks"
  by (simp add: set_rows_def)

lemma set_rows_other: "i \<notin> set rows \<Longrightarrow> set_rows rows vals toks ! i = toks ! i"
proof (induction rows arbitrary: vals toks)
  case (Cons r rows)
  then show ?case by (cases vals) (auto simp: set_rows_def)
qed (simp add: set_rows_def)

lemma draw_seeded_step:
  "draw_seeded ops params key probs (row # rows) toks st = Inr r \<Longrightarrow> seed (params ! row) = Some s \<Longrightarrow>
   \<exists>g st1. row_generator ops (key row) s st = Inr (g, st1) \<and>
     draw_seeded ops params key probs rows (toks[row := fst (multinomial ops g (probs ! row))])
       (st1\<lparr>seeded := AList.map_entry (key row) (\<lambda>_. snd (multinomial ops g (probs ! row))) (seeded st1)\<rparr>) = Inr r"
  by (auto simp: case_prod_beta)

lemma draw_seeded_other:
  "draw_seeded ops params key probs rows toks st = Inr (toks', st') \<Longrightarrow>
   length toks' = length toks \<and> (i \<notin> set rows \<or> seed (params ! i) = None \<longrightarrow> toks' ! i = toks ! i)"
proof (induction rows arbitrary: toks st)
  case (Cons row rows)
  show ?case
  proof (cases "seed (params ! row)")
    case None
    with Cons show ?thesis by fastforce
  next
    case (Some s)
    with Cons.prems obtain g st1 where rg: "row_generator ops (key row) s st = Inr (g, st1)"
      and rest: "draw_seeded ops params key probs rows (toks[row := fst (multinomial ops g (probs ! row))])
       (st1\<lparr>seeded := AList.map_entry (key row) (\<lambda>_. snd (multinomial ops g (probs ! row))) (seeded st1)\<rparr>) = Inr (toks', st')"
      using draw_seeded_step by blast
    have "i \<noteq> row" if "i \<notin> set (row # rows) \<or> seed (params ! i) = None" using that Some by auto
    with Cons.IH [OF rest] show ?thesis by auto
  qed
qed simp

definition generator_of :: "'g torch_ops \<Rightarrow> 'g sampler \<Rightarrow> gen_key \<Rightarrow> int \<Rightarrow> 'g" where
  "generator_of ops st k s = (case map_of (seeded st) k of None \<Rightarrow> manual_seed ops s | Some g \<Rightarrow> g)"

lemma row_generator_spec:
  assumes "row_generator ops k s st = Inr (g, st1)"
  shows "g = generator_of ops st k s"
  using assms by (auto simp: row_generator_def generator_of_def Let_def split: option.splits if_splits)

lemma length_delete: "length (AList.delete k al) \<le> length al"
  by (rule AList.length_delete_le)

lemma row_generator_room:
  assumes "row_generator ops k s st = Inr (g, st1)" "int (length (seeded st)) < max_generators st"
  shows "max_generators st1 = max_generators st" "k' \<noteq> k \<Longrightarrow> map_of (seeded st1) k' = map_of (seeded st) k'"
    "length (seeded st1) \<le> length (seeded st) + 1"
proof -
  have "nat (1 + int (length (seeded st)) - max_generators st) = 0" using assms(2) by simp
  then have st1: "max_generators st1 = max_generators st \<and> (\<exists>g. seeded st1 = seeded st @ [(k, g)] \<or> seeded st1 = AList.delete k (seeded st) @ [(k, g)])"
    using assms(1) by (auto simp: row_generator_def Let_def split: option.splits if_splits)
  then show "max_generators st1 = max_generators st" by simp
  show "k' \<noteq> k \<Longrightarrow> map_of (seeded st1) k' = map_of (seeded st) k'"
    using st1 by (auto simp: map_add_def AList.delete_conv' split: option.splits)
  show "length (seeded st1) \<le> length (seeded st) + 1" using st1 length_delete [of k "seeded st"] by auto
qed

lemma draw_seeded_at:
  assumes "draw_seeded ops params key probs rows toks st = Inr (toks', st')"
    and "distinct rows" "inj_on key (set rows)" "i \<in> set rows" "seed (params ! i) = Some s" "i < length toks"
    and "int (length (seeded st) + length rows) \<le> max_generators st"
  shows "toks' ! i = fst (multinomial ops (generator_of ops st (key i) s) (probs ! i))"
  using assms
proof (induction rows arbitrary: toks st)
  case (Cons row rows)
  show ?case
  proof (cases "seed (params ! row)")
    case None
    with Cons show ?thesis by auto
  next
    case (Some s')
    with Cons.prems(1) obtain g st1 where rg: "row_generator ops (key row) s' st = Inr (g, st1)"
      and rest: "draw_seeded ops params key probs rows (toks[row := fst (multinomial ops g (probs ! row))])
       (st1\<lparr>seeded := AList.map_entry (key row) (\<lambda>_. snd (multinomial ops g (probs ! row))) (seeded st1)\<rparr>) = Inr (toks', st')"
      using draw_seeded_step by blast
    show ?thesis
    proof (cases "i = row")
      case True
      then have "i \<notin> set rows" using Cons.prems(2) by simp
      with draw_seeded_other [OF rest, of i] True row_generator_spec [OF rg] Some Cons.prems(5,6) show ?thesis by simp
    next
      case False
      have room: "int (length (seeded st)) < max_generators st" using Cons.prems(7) by simp
      note rr = row_generator_room [OF rg room]
      have ne: "key i \<noteq> key row" using False Cons.prems(4) inj_onD [OF Cons.prems(3), of i row] by auto
      let ?st2 = "st1\<lparr>seeded := AList.map_entry (key row) (\<lambda>_. snd (multinomial ops g (probs ! row))) (seeded st1)\<rparr>"
      have "generator_of ops ?st2 (key i) s = generator_of ops st (key i) s"
        using rr(2) [OF ne] ne by (simp add: generator_of_def map_of_map_entry_app)
      moreover have "toks' ! i = fst (multinomial ops (generator_of ops ?st2 (key i) s) (probs ! i))"
        using Cons.prems False rr(1,3) by (intro Cons.IH [OF rest]) auto
      ultimately show ?thesis by simp
    qed
  qed
qed simp

lemma map_of_zip_map_self: "map_of (zip xs (map f xs)) i = (if i \<in> set xs then Some (f i) else None)"
  by (induction xs) auto

lemma draw_greedy:
  assumes "sampler_draw ops rows params ids st = Inr (toks, st')" "i < length params" "sp_greedy (params ! i)"
  shows "toks ! i = argmax (rows ! i)"
proof -
  let ?gr = "filter (\<lambda>i. sp_greedy (params ! i)) [0..<length params]"
  let ?sr = "filter (\<lambda>i. \<not> sp_greedy (params ! i)) [0..<length params]"
  define toks0 where "toks0 = set_rows ?gr (map (\<lambda>i. argmax (rows ! i)) ?gr) (replicate (length params) 0)"
  have g: "toks0 ! i = argmax (rows ! i)" using assms(2,3) by (simp add: toks0_def set_rows_nth map_of_zip_map_self)
  show ?thesis
  proof (cases "?sr = []")
    case True
    with assms(1) g show ?thesis by (simp add: sampler_draw_def Let_def toks0_def)
  next
    case False
    define un where "un = filter (\<lambda>i. seed (params ! i) = None) ?sr"
    obtain toks1 st1 where t1: "(if un = [] then (toks0, st) else let (drawn, g') = multinomial_rows ops (shared_generator st) (map (\<lambda>i. map softmax rows ! i) un) in
        (set_rows un drawn toks0, st\<lparr>shared_generator := g'\<rparr>)) = (toks1, st1)" by fastforce
    have "toks1 ! i = toks0 ! i"
      using t1 assms(3) by (auto simp: un_def set_rows_other Let_def split: if_splits prod.splits)
    moreover have "draw_seeded ops params (\<lambda>i. case ids of None \<Rightarrow> RowKey i | Some ids \<Rightarrow> RequestKey (ids ! i)) (map softmax rows) ?sr toks1 st1 = Inr (toks, st')"
      using assms(1) False t1 unfolding sampler_draw_def Let_def toks0_def [symmetric] un_def [symmetric] by (simp split: prod.splits)
    from draw_seeded_other [OF this, of i] have "toks ! i = toks1 ! i" using assms(3) by simp
    ultimately show ?thesis using g by simp
  qed
qed

lemma draw_from_seed:
  assumes "sampler_draw ops rows params (Some ids) st = Inr (toks, st')" "i < length params" "\<not> sp_greedy (params ! i)"
    and "seed (params ! i) = Some s" "length rows = length params" "length ids = length params" "distinct ids"
    and "int (length (seeded st) + length params) \<le> max_generators st"
  shows "toks ! i = fst (multinomial ops (generator_of ops st (RequestKey (ids ! i)) s) (softmax (rows ! i)))"
proof -
  let ?gr = "filter (\<lambda>i. sp_greedy (params ! i)) [0..<length params]"
  let ?sr = "filter (\<lambda>i. \<not> sp_greedy (params ! i)) [0..<length params]"
  define toks0 where "toks0 = set_rows ?gr (map (\<lambda>i. argmax (rows ! i)) ?gr) (replicate (length params) 0)"
  have sr: "i \<in> set ?sr" "?sr \<noteq> []" using assms(2,3) by (auto simp: filter_empty_conv)
  define un where "un = filter (\<lambda>i. seed (params ! i) = None) ?sr"
  obtain toks1 st1 where t1: "(if un = [] then (toks0, st) else let (drawn, g') = multinomial_rows ops (shared_generator st) (map (\<lambda>i. map softmax rows ! i) un) in
      (set_rows un drawn toks0, st\<lparr>shared_generator := g'\<rparr>)) = (toks1, st1)" by fastforce
  have len: "length toks1 = length params" "seeded st1 = seeded st" "max_generators st1 = max_generators st"
    using t1 by (auto simp: toks0_def Let_def split: if_splits prod.splits)
  have run: "draw_seeded ops params (\<lambda>i. RequestKey (ids ! i)) (map softmax rows) ?sr toks1 st1 = Inr (toks, st')"
    using assms(1) sr(2) t1 unfolding sampler_draw_def Let_def toks0_def [symmetric] un_def [symmetric] by (simp split: prod.splits)
  have "length ?sr \<le> length params" using length_filter_le [of _ "[0..<length params]"] by simp
  then have room: "int (length (seeded st1) + length ?sr) \<le> max_generators st1" using assms(8) len by simp
  have inj: "inj_on (\<lambda>i. RequestKey (ids ! i)) (set ?sr)" using assms(6,7) by (auto simp: inj_on_def nth_eq_iff_index_eq)
  have "toks ! i = fst (multinomial ops (generator_of ops st1 (RequestKey (ids ! i)) s) (map softmax rows ! i))"
    by (rule draw_seeded_at [OF run _ inj sr(1) assms(4) _ room]) (use assms(2) len in simp_all)
  then show ?thesis using assms(2,5) len by (simp add: generator_of_def)
qed

section \<open>A row of the batch is the row alone\<close>

definition row_working :: "sampling_params \<Rightarrow> nat list option \<Rightarrow> logits \<Rightarrow> logits" where
  "row_working p toks row =
     map (\<lambda>x. x / (if sp_greedy p then 1 else temperature p)) (case toks of None \<Rightarrow> row | Some ts \<Rightarrow> penalized_row p ts row)"

definition row_token :: "'g torch_ops \<Rightarrow> 'g sampler \<Rightarrow> nat \<Rightarrow> logits \<Rightarrow> sampling_params \<Rightarrow> nat list option \<Rightarrow> string \<Rightarrow> nat" where
  "row_token ops st vocab row p toks rid =
     (let f = filter_row ops vocab p (map Some (row_working p toks row)) in
      if sp_greedy p then argmax f
      else fst (multinomial ops (generator_of ops st (RequestKey rid) (the (seed p))) (softmax f)))"

definition ctx_safe :: "nat \<Rightarrow> sampling_params list \<Rightarrow> nat list list option \<Rightarrow> nat \<Rightarrow> bool" where
  "ctx_safe vocab params ctxs i = (case ctxs of None \<Rightarrow> True | Some cs \<Rightarrow> penalty_safe vocab params cs i)"

definition room_for :: "'g sampler \<Rightarrow> sampling_params list \<Rightarrow> string list \<Rightarrow> nat \<Rightarrow> bool" where
  "room_for st params ids i \<longleftrightarrow> sp_greedy (params ! i) \<or>
     seed (params ! i) \<noteq> None \<and> distinct ids \<and> int (length (seeded st) + length params) \<le> max_generators st"

lemma penalized_row_none: "\<not> has_penalties p \<Longrightarrow> penalized_row p toks row = row"
  by (simp add: penalized_row_def map_nth)

lemma sample_working_row:
  assumes "torch_laws ops" "length params = length rows" "case ctxs of None \<Rightarrow> True | Some cs \<Rightarrow> length cs = length rows"
    and "i < length rows" "ctx_safe (length (rows ! i)) params ctxs i"
  shows "sample_working ops rows params ctxs ! i = row_working (params ! i) (map_option (\<lambda>cs. cs ! i) ctxs) (rows ! i)"
proof -
  define pen where "pen = (if list_ex has_penalties params \<and> ctxs \<noteq> None then apply_penalties ops rows params (the ctxs) else rows)"
  have len: "length pen = length rows" by (simp add: pen_def apply_penalties_def Let_def)
  have "pen ! i = (case map_option (\<lambda>cs. cs ! i) ctxs of None \<Rightarrow> rows ! i | Some ts \<Rightarrow> penalized_row (params ! i) ts (rows ! i))"
  proof (cases ctxs)
    case (Some cs)
    show ?thesis
    proof (cases "list_ex has_penalties params")
      case True
      with Some assms show ?thesis by (simp add: pen_def ctx_safe_def apply_penalties_row)
    next
      case False
      then have "\<not> has_penalties (params ! i)" using assms(2,4) by (auto simp: list_ex_nth)
      with False Some show ?thesis by (simp add: pen_def penalized_row_none)
    qed
  qed (simp add: pen_def)
  then show ?thesis
    using assms(2,4) len unfolding sample_working_def apply_temperature_def row_working_def pen_def [symmetric] by simp
qed

lemma length_sample_working: "length params = length rows \<Longrightarrow> length (sample_working ops rows params ctxs) = length rows"
  by (simp add: sample_working_def apply_temperature_def apply_penalties_def Let_def)

lemma sample_row:
  assumes laws: "torch_laws ops" and run: "sample ops st vocab rows params ctxs (Some ids) = Inr (res, st')"
    and i: "i < length rows" and safe: "ctx_safe (length (rows ! i)) params ctxs i" and room: "room_for st params ids i"
  shows "sr_token_ids res ! i = row_token ops st vocab (rows ! i) (params ! i) (map_option (\<lambda>cs. cs ! i) ctxs) (ids ! i)"
proof -
  have len: "length params = length rows" "case ctxs of None \<Rightarrow> True | Some cs \<Rightarrow> length cs = length rows" "length ids = length rows"
    using run by (auto simp: sample_def split: if_splits option.splits)
  note w = sample_working_row [OF laws len(1,2) i safe]
  show ?thesis
  proof (cases "list_all (\<lambda>p. sp_greedy p \<and> \<not> has_penalties p) params \<and> \<not> list_ex (\<lambda>p. sp_logprobs p \<noteq> None) params")
    case True
    then have "sr_token_ids res = map argmax rows" using run by (auto simp: sample_def Let_def split: if_splits)
    moreover have g: "sp_greedy (params ! i)" "\<not> has_penalties (params ! i)" using True i len(1) by (auto simp: list_all_length)
    ultimately show ?thesis
      using i by (simp add: row_token_def Let_def filter_row_greedy row_working_def penalized_row_none argmax_Some split: option.split)
  next
    case False
    define working where "working = sample_working ops rows params ctxs"
    define filtered where "filtered = sampler_filter ops vocab working params"
    have lw: "length working = length rows" "length filtered = length rows"
      using len(1) by (simp_all add: working_def filtered_def length_sample_working length_sampler_filter)
    obtain st1 where draw: "sampler_draw ops filtered params (Some ids) st = Inr (sr_token_ids res, st1)"
      using run False by (auto simp: sample_def Let_def working_def filtered_def split: if_splits)
    have f: "filtered ! i = filter_row ops vocab (params ! i) (map Some (row_working (params ! i) (map_option (\<lambda>cs. cs ! i) ctxs) (rows ! i)))"
      unfolding filtered_def by (subst sampler_filter_row [OF laws]) (use len(1) lw i w in \<open>simp_all add: working_def\<close>)
    show ?thesis
    proof (cases "sp_greedy (params ! i)")
      case True
      with draw_greedy [OF draw _ True] i len(1) f show ?thesis by (simp add: row_token_def Let_def)
    next
      case ng: False
      then obtain s where s: "seed (params ! i) = Some s" and r: "distinct ids" "int (length (seeded st) + length params) \<le> max_generators st"
        using room by (auto simp: room_for_def)
      have "sr_token_ids res ! i = fst (multinomial ops (generator_of ops st (RequestKey (ids ! i)) s) (softmax (filtered ! i)))"
        by (rule draw_from_seed [OF draw _ ng s]) (use i len lw r in simp_all)
      with ng s f show ?thesis by (simp add: row_token_def Let_def)
    qed
  qed
qed

lemma draw_seeded_total: "0 \<le> max_generators st \<Longrightarrow> \<exists>r. draw_seeded ops params key probs rows toks st = Inr r"
proof (induction rows arbitrary: toks st)
  case (Cons row rows)
  show ?case
  proof (cases "seed (params ! row)")
    case None
    with Cons show ?thesis by simp
  next
    case (Some s)
    obtain g st1 where "row_generator ops (key row) s st = Inr (g, st1)" "0 \<le> max_generators st1"
      using Cons.prems by (cases "map_of (seeded st) (key row)") (simp_all add: row_generator_def Let_def)
    with Some Cons.IH show ?thesis by (simp add: case_prod_beta)
  qed
qed simp

lemma draw_total: "list_all sp_greedy params \<or> 0 \<le> max_generators st \<Longrightarrow> \<exists>r. sampler_draw ops rows params ids st = Inr r"
proof (elim disjE)
  assume "list_all sp_greedy params"
  then have "filter (\<lambda>i. \<not> sp_greedy (params ! i)) [0..<length params] = []" by (auto simp: filter_empty_conv list_all_length)
  then show ?thesis by (simp add: sampler_draw_def Let_def)
next
  assume m: "0 \<le> max_generators st"
  have total: "\<exists>a b. draw_seeded ops params key probs rs toks st = Inr (a, b)" "\<exists>a b. draw_seeded ops params key probs rs toks (st\<lparr>shared_generator := g\<rparr>) = Inr (a, b)"
    for ops params key probs rs toks and g using draw_seeded_total [of st] draw_seeded_total [of "st\<lparr>shared_generator := g\<rparr>"] m by fastforce+
  show ?thesis by (simp add: sampler_draw_def Let_def case_prod_beta total)
qed

lemma logprobs_wanted:
  assumes "sampler_logprobs ops vocab (Some rows) params chosen = Inr lps" "i < length params" "sp_logprobs (params ! i) \<noteq> None"
  shows "wanted_logprobs (params ! i) \<le> vocab"
proof -
  let ?w = "filter (\<lambda>i. sp_logprobs (params ! i) \<noteq> None) [0..<length params]"
  have i: "i \<in> set ?w" using assms(2,3) by simp
  then have "wanted_logprobs (params ! i) \<le> fold max (map (\<lambda>i. wanted_logprobs (params ! i)) ?w) 0" by (intro fold_max_ge_nat) auto
  moreover have "fold max (map (\<lambda>i. wanted_logprobs (params ! i)) ?w) 0 \<le> vocab"
    using assms(1) i by (auto simp: sampler_logprobs_def Let_def split: if_splits)
  ultimately show ?thesis by simp
qed

text \<open>
  C29: a request's token does not depend on who else is in the batch. Let a step sample a
  batch, and take a row that is greedy, or that is seeded while the request ids are distinct
  and the generator table has room for the whole batch, so that no generator of it is evicted.
  If the row is penalised, let token 0 not be in its context, or let the context lie in the
  vocabulary and hold as many distinct tokens as any penalised row of the batch (\<open>ctx_safe\<close>: no
  padding write collides with the penalty of token 0). Then sampling the row alone from the
  same sampler state does not raise and gives the same token: the whole-batch stages, skipped
  when no row wants them and padded to the widest row when one does, do not show. Where
  \<open>ctx_safe\<close> fails they can, as the counterexample below shows.
\<close>

theorem sampled_row_alone:
  assumes "torch_laws ops" and "sample ops st vocab rows params ctxs (Some ids) = Inr (res, st')"
    and "i < length rows" and "ctx_safe (length (rows ! i)) params ctxs i" and "room_for st params ids i"
  shows "\<exists>res1 st1. sample ops st vocab [rows ! i] [params ! i] (map_option (\<lambda>cs. [cs ! i]) ctxs) (Some [ids ! i]) = Inr (res1, st1) \<and>
    sr_token_ids res1 ! 0 = sr_token_ids res ! i"
proof -
  let ?p = "params ! i" and ?ctx = "map_option (\<lambda>cs. [cs ! i]) ctxs"
  have len: "length params = length rows" "length ids = length rows"
    using assms(2) by (auto simp: sample_def split: if_splits option.splits)
  have total: "\<exists>r. sampler_draw ops fs [?p] (Some [ids ! i]) st = Inr r" for fs
    using assms(5) by (intro draw_total) (auto simp: room_for_def)
  have lps: "wanted_logprobs ?p \<le> vocab" if "sp_logprobs ?p \<noteq> None"
  proof -
    have "list_ex (\<lambda>p. sp_logprobs p \<noteq> None) params" using that assms(3) len(1) by (auto simp: list_ex_nth)
    then obtain chosen lps where "sampler_logprobs ops vocab (Some (sample_working ops rows params ctxs)) params chosen = Inr lps"
      using assms(2) by (auto simp: sample_def Let_def split: if_splits option.splits)
    from logprobs_wanted [OF this _ that] assms(3) len(1) show ?thesis by simp
  qed
  have upt1: "[0..<Suc 0] = [0]" by simp
  have lps1: "\<exists>l. sampler_logprobs ops vocab src [?p] chosen = Inr l" for src chosen
    using lps by (cases src; cases "sp_logprobs ?p") (auto simp: sampler_logprobs_def Let_def)
  have "\<exists>r. sample ops st vocab [rows ! i] [?p] ?ctx (Some [ids ! i]) = Inr r"
  proof (cases "list_all (\<lambda>p. sp_greedy p \<and> \<not> has_penalties p) [?p] \<and> \<not> list_ex (\<lambda>p. sp_logprobs p \<noteq> None) [?p]")
    case True
    then show ?thesis by (cases ctxs) (simp_all add: sample_def Let_def)
  next
    case False
    obtain chosen st1 where d: "sampler_draw ops (sampler_filter ops vocab (sample_working ops [rows ! i] [?p] ?ctx) [?p]) [?p] (Some [ids ! i]) st = Inr (chosen, st1)"
      using total by fastforce
    have lens: "\<not> (case ?ctx of None \<Rightarrow> False | Some cs \<Rightarrow> length cs \<noteq> length [rows ! i])" by (cases ctxs) simp_all
    show ?thesis using False lens d by (cases ctxs) (simp_all add: sample_def Let_def lps1)
  qed
  then obtain res1 st1 where alone: "sample ops st vocab [rows ! i] [?p] ?ctx (Some [ids ! i]) = Inr (res1, st1)" by fastforce
  have safe: "ctx_safe (length ([rows ! i] ! 0)) [?p] ?ctx 0"
    using assms(3,4) len(1) by (auto simp: ctx_safe_def penalty_safe_def split: option.splits)
  have room: "room_for st [?p] [ids ! i] 0" using assms(3,5) len(1) by (auto simp: room_for_def)
  have "sr_token_ids res1 ! 0 = sr_token_ids res ! i"
    using sample_row [OF assms(1) alone _ safe room] sample_row [OF assms] by (simp add: option.map_comp comp_def)
  with alone show ?thesis by blast
qed

text \<open>A concrete torch: integer generators, the last write wins, ties in reverse index order.\<close>

definition demo_ops :: "int torch_ops" where
  "demo_ops = \<lparr>manual_seed = (\<lambda>s. s),
     multinomial = (\<lambda>g ps. (let good = filter (\<lambda>i. 0 < ps ! i) [0..<length ps] in
        (if good = [] then 0 else good ! (nat (g mod int (length good))), g + 1))),
     multinomial_rows = (\<lambda>g rows. (map (\<lambda>ps. 0) rows, g + 1)),
     ranking = (\<lambda>r. rev (sort_key (\<lambda>i. r ! i) [0..<length r])),
     scattered = last\<rparr>"

lemma demo_ops_laws: "torch_laws demo_ops"
  unfolding torch_laws_def
proof (intro conjI allI impI)
  fix g and ps :: "real list" assume "\<exists>p \<in> set ps. 0 < p"
  then have ne: "filter (\<lambda>i. 0 < ps ! i) [0..<length ps] \<noteq> []" by (fastforce simp: filter_empty_conv in_set_conv_nth)
  let ?good = "filter (\<lambda>i. 0 < ps ! i) [0..<length ps]"
  have "nat (g mod int (length ?good)) < length ?good" using ne by (simp add: nat_less_iff)
  then have "?good ! nat (g mod int (length ?good)) \<in> set ?good" by (rule nth_mem)
  moreover have "fst (multinomial demo_ops g ps) = ?good ! nat (g mod int (length ?good))" using ne by (simp add: demo_ops_def Let_def)
  ultimately show "fst (multinomial demo_ops g ps) < length ps" "0 < ps ! fst (multinomial demo_ops g ps)" by auto
next
  fix r :: masked_logits and i j assume ij: "i \<le> j" "j < length r"
  let ?o = "sort_key (\<lambda>i. r ! i) [0..<length r]"
  have "sorted (map (\<lambda>i. r ! i) ?o)" by simp
  then have "map (\<lambda>i. r ! i) ?o ! (length r - Suc j) \<le> map (\<lambda>i. r ! i) ?o ! (length r - Suc i)" by (rule sorted_nth_mono) (use ij in simp_all)
  then show "r ! (ranking demo_ops r ! j) \<le> r ! (ranking demo_ops r ! i)" using ij by (simp add: demo_ops_def rev_nth)
qed (auto simp: demo_ops_def)

definition demo_penalty :: sampling_params where
  "demo_penalty = GREEDY\<lparr>repetition_penalty := 2\<rparr>"

text \<open>Row 1 is sampled from seed 7; row 0 is penalised for its token 1.\<close>

definition demo_params :: "sampling_params list" where
  "demo_params = [demo_penalty, GREEDY\<lparr>temperature := 1, seed := Some 7, top_k := 2\<rparr>]"

theorem sampled_row_alone_witness:
  "\<exists>res res0 st0. sample demo_ops (sampler_init demo_ops 0 None 1024) 3 [[1, 3, 2], [5, 4, 9]] demo_params (Some [[1], [2]]) (Some [''a'', ''b''])
      = Inr res \<and> sample demo_ops (sampler_init demo_ops 0 None 1024) 3 [[1, 3, 2]] [demo_penalty] (Some [[1]]) (Some [''a'']) = Inr (res0, st0) \<and>
    sr_token_ids res0 ! 0 = sr_token_ids (fst res) ! 0"
proof -
  let ?st = "sampler_init demo_ops 0 None 1024"
  let ?rows = "[[1, 3, 2], [5, 4, 9]] :: logits list"
  have "0 \<le> max_generators ?st" by (simp add: sampler_init_def)
  from draw_total [OF disjI2 [OF this]] obtain toks st' where
    d: "sampler_draw demo_ops (sampler_filter demo_ops 3 (sample_working demo_ops ?rows demo_params (Some [[1], [2]])) demo_params) demo_params (Some [''a'', ''b'']) ?st = Inr (toks, st')"
    by fastforce
  then have run: "sample demo_ops ?st 3 ?rows demo_params (Some [[1], [2]]) (Some [''a'', ''b'']) = Inr (\<lparr>sr_token_ids = toks, sr_logprobs = []\<rparr>, st')"
    by (simp add: sample_def Let_def demo_params_def demo_penalty_def GREEDY_def sp_greedy_def has_penalties_def sampler_logprobs_def)
  have "ctx_safe (length (?rows ! 0)) demo_params (Some [[1], [2]]) 0" "room_for ?st demo_params [''a'', ''b''] 0"
    by (simp_all add: ctx_safe_def penalty_safe_def room_for_def demo_params_def demo_penalty_def sp_greedy_def GREEDY_def)
  from sampled_row_alone [OF demo_ops_laws run _ this] show ?thesis using run by (fastforce simp: demo_params_def)
qed

text \<open>
  C31: the penalty on token 0 is lost to a neighbour. With torch's last write winning, a
  request whose context holds token 0 gets token 1 when it is sampled alone, because its
  repetition penalty is applied, and token 0 when it shares the batch with a request whose
  context holds two distinct tokens: the padding of its row writes token 0's old logit back.
\<close>

theorem token_zero_penalty_depends_on_batch:
  "\<exists>st alone shared. sample demo_ops (sampler_init demo_ops 0 None 1024) 3 [[3, 2, 1]] [demo_penalty] (Some [[0]]) (Some [''a'']) = Inr (alone, st) \<and>
     sample demo_ops (sampler_init demo_ops 0 None 1024) 3 [[3, 2, 1], [3, 2, 1]] [demo_penalty, demo_penalty] (Some [[0], [1, 2]]) (Some [''a'', ''b''])
       = Inr (shared, st) \<and>
     sr_token_ids alone ! 0 = 1 \<and> sr_token_ids shared ! 0 = 0"
proof -
  let ?st = "sampler_init demo_ops 0 None 1024"
  have g: "sp_greedy demo_penalty" "has_penalties demo_penalty" "sp_logprobs demo_penalty = None"
    by (simp_all add: demo_penalty_def GREEDY_def sp_greedy_def has_penalties_def)
  have pen: "penalize demo_penalty x n = (if x > 0 then x / 2 else x * 2)" for x n by (simp add: penalize_def demo_penalty_def GREEDY_def)
  have f: "sampler_filter demo_ops 3 rows ps = map (map Some) rows" if "set ps \<subseteq> {demo_penalty}" "length ps = length rows" for rows ps
  proof (rule nth_equalityI)
    fix i assume "i < length (sampler_filter demo_ops 3 rows ps)"
    then have i: "i < length rows" using that by (simp add: length_sampler_filter)
    then have "ps ! i \<in> set ps" using that(2) by simp
    then have "ps ! i = demo_penalty" using that(1) by blast
    then show "sampler_filter demo_ops 3 rows ps ! i = map (map Some) rows ! i"
      using i that g by (simp add: sampler_filter_row [OF demo_ops_laws] filter_row_greedy)
  qed (use that in \<open>simp add: length_sampler_filter\<close>)
  have upt: "[0..<1] = [0 :: nat]" "[0..<2] = [0, 1 :: nat]" "[0..<3] = [0, 1, 2 :: nat]" by (simp_all add: upt_rec)
  have w1: "sample_working demo_ops [[3, 2, 1]] [demo_penalty] (Some [[0]]) = [[3 / 2, 2, 1]]"
    using g by (simp add: sample_working_def apply_temperature_def apply_penalties_def Let_def packed_row_def occurrences_def
      scatter_row_def row_writes_def pen demo_ops_def)
  have w2: "sample_working demo_ops [[3, 2, 1], [3, 2, 1]] [demo_penalty, demo_penalty] (Some [[0], [1, 2]]) = [[3, 2, 1], [3, 1, 1 / 2]]"
    using g by (simp add: sample_working_def apply_temperature_def apply_penalties_def Let_def packed_row_def occurrences_def
      scatter_row_def row_writes_def pen demo_ops_def)
  have a: "argmax (map Some [3 / 2, 2, 1 :: real]) = 1" "argmax (map Some [3, 2, 1 :: real]) = 0" "argmax (map Some [3, 1, 1 / 2 :: real]) = 0"
    by (simp_all add: argmax_def upt_rec)
  have r1: "sample demo_ops ?st 3 [[3, 2, 1]] [demo_penalty] (Some [[0]]) (Some [''a'']) = Inr (\<lparr>sr_token_ids = [1], sr_logprobs = []\<rparr>, ?st)"
    using g a by (simp add: sample_def Let_def w1 f sampler_draw_def sampler_logprobs_def set_rows_def upt_rec)
  have r2: "sample demo_ops ?st 3 [[3, 2, 1], [3, 2, 1]] [demo_penalty, demo_penalty] (Some [[0], [1, 2]]) (Some [''a'', ''b''])
      = Inr (\<lparr>sr_token_ids = [0, 0], sr_logprobs = []\<rparr>, ?st)"
    using g a by (simp add: sample_def Let_def w2 [unfolded One_nat_def] f sampler_draw_def sampler_logprobs_def set_rows_def upt_rec)
  show ?thesis using r1 r2 by fastforce
qed

section \<open>What the filters keep\<close>

text \<open>\<open>masks row r\<close>: \<open>r\<close> is \<open>row\<close> with some entries masked, and the best entries of \<open>row\<close> are not all masked.\<close>

definition best_at :: "masked_logits \<Rightarrow> nat \<Rightarrow> bool" where
  "best_at row j \<longleftrightarrow> j < length row \<and> (\<forall>i < length row. row ! i \<le> row ! j)"

definition masks :: "masked_logits \<Rightarrow> masked_logits \<Rightarrow> bool" where
  "masks row r \<longleftrightarrow> length r = length row \<and> (\<forall>j < length row. r ! j = None \<or> r ! j = row ! j) \<and>
     (\<exists>j. best_at row j \<and> r ! j = row ! j)"

lemma masks_refl: "best_at row j \<Longrightarrow> masks row row"
  by (auto simp: masks_def)

lemma masks_trans:
  assumes "masks a b" "masks b c" shows "masks a c"
proof -
  obtain j where j: "best_at a j" "b ! j = a ! j" using assms(1) by (auto simp: masks_def)
  obtain k where k: "best_at b k" "c ! k = b ! k" using assms(2) by (auto simp: masks_def)
  have len: "length b = length a" "length c = length a" using assms by (simp_all add: masks_def)
  have "a ! j \<le> b ! k" using k(1) j len by (auto simp: best_at_def)
  moreover have kl: "b ! k = None \<or> b ! k = a ! k" "k < length a" using assms(1) k(1) len by (auto simp: masks_def best_at_def)
  moreover have "a ! k \<le> a ! j" using j(1) kl(2) by (simp add: best_at_def)
  ultimately have bk: "a ! j \<le> a ! k \<and> b ! k = a ! k" by (cases "a ! j"; cases "a ! k") auto
  then have "best_at a k" using j(1) kl(2) by (auto simp: best_at_def intro: order_trans)
  moreover have "c ! i = None \<or> c ! i = a ! i" if "i < length a" for i
  proof -
    have "b ! i = None \<or> b ! i = a ! i" "c ! i = None \<or> c ! i = b ! i" using assms that len by (simp_all add: masks_def)
    then show ?thesis by auto
  qed
  ultimately show ?thesis using bk k(2) len by (auto simp: masks_def)
qed

lemma best_exists: "row \<noteq> [] \<Longrightarrow> \<exists>j. best_at (row :: masked_logits) j"
proof -
  assume "row \<noteq> []"
  then have "Max (set row) \<in> set row" by simp
  then obtain j where "j < length row" "row ! j = Max (set row)" by (metis in_set_conv_nth)
  then show ?thesis by (auto simp: best_at_def)
qed

lemma masks_best: "masks row r \<Longrightarrow> \<exists>j. best_at r j"
  using best_exists [of r] by (cases "r = []") (auto simp: masks_def best_at_def)

lemma top_k_masks:
  assumes "0 < k" "k < length row"
  shows "masks row (keep_at_least True (rev (sort row) ! (k - 1)) row)"
proof -
  obtain j where j: "best_at row j" using best_exists [of row] assms by fastforce
  have "rev (sort row) ! (k - 1) \<in> set row" using assms nth_mem [of "k - 1" "rev (sort row)"] by simp
  then have "rev (sort row) ! (k - 1) \<le> row ! j" using j by (auto simp: best_at_def in_set_conv_nth)
  then show ?thesis using j by (auto simp: masks_def keep_at_least_def best_at_def not_less intro!: exI [of _ j])
qed

lemma min_p_masks:
  assumes "best_at row j" "m \<le> 1" "0 \<le> m"
  shows "masks row (min_p_row m row)"
proof -
  let ?ps = "softmax row"
  have j: "j < length row" using assms(1) by (simp add: best_at_def)
  have le: "p \<le> ?ps ! j" if p: "p \<in> insert 0 (set ?ps)" for p
  proof (cases "p = 0")
    case True
    then show ?thesis using softmax_nonneg [OF nth_mem, of j row] j by simp
  next
    case False
    then obtain i where "i < length row" "p = ?ps ! i" using p by (auto simp: in_set_conv_nth)
    then show ?thesis using assms(1) j by (auto simp: nth_softmax best_at_def intro!: divide_right_mono weight_mono)
  qed
  have "0 \<le> ?ps ! j" by (rule le) simp
  moreover have "fold max ?ps 0 \<le> ?ps ! j" by (rule le [OF fold_max_real_in])
  moreover have "0 \<le> fold max ?ps 0" by (rule fold_max_real_ge) simp
  ultimately have "fold max ?ps 0 * m \<le> ?ps ! j" using assms(2,3) mult_left_le [of m "fold max ?ps 0"] by linarith
  then show ?thesis using j assms(1) by (auto simp: masks_def min_p_row_def Let_def intro!: exI [of _ j])
qed

lemma top_p_masks:
  assumes "torch_laws ops" "best_at row j" "0 < l"
  shows "masks row (top_p_row ops l row)"
proof -
  let ?order = "ranking ops row"
  have len: "0 < length row" using assms(2) by (auto simp: best_at_def)
  have r: "top_p_row ops l row ! (?order ! i) = None \<or> top_p_row ops l row ! (?order ! i) = row ! (?order ! i)" if "i < length row" for i
    using top_p_row_nth(2) [OF assms(1) that, of l] by (auto simp: Let_def)
  have first: "top_p_row ops l row ! (?order ! 0) = row ! (?order ! 0)"
    using top_p_row_nth(2) [OF assms(1) len, of l] assms(3) by (simp add: Let_def)
  have "?order ! 0 < length row" using torch_order [OF assms(1), of row] nth_mem [of 0 ?order] len by auto
  moreover have "row ! i \<le> row ! (?order ! 0)" if "i < length row" for i
    using rank_of [OF assms(1) that] torch_desc [OF assms(1), of 0] by fastforce
  ultimately have "best_at row (?order ! 0)" by (simp add: best_at_def)
  then show ?thesis
    unfolding masks_def using top_p_row_nth(1) [OF assms(1) len] first r rank_of [OF assms(1)] by metis
qed

lemma length_filter_mono: "(\<And>x. P x \<Longrightarrow> Q x) \<Longrightarrow> length (filter P xs) \<le> length (filter Q xs)"
  by (induction xs) auto

lemma count_above_kth:
  assumes "0 < k" "k \<le> length (row :: 'a::linorder list)"
  shows "length (filter (\<lambda>x. rev (sort row) ! (k - 1) < x) row) < k"
proof -
  let ?d = "rev (sort row)" and ?th = "rev (sort row) ! (k - 1)"
  have low: "\<not> ?th < x" if x: "x \<in> set (drop (k - 1) ?d)" for x
  proof -
    obtain i where i: "i < length ?d - (k - 1)" "x = ?d ! (k - 1 + i)" using x by (auto simp: in_set_conv_nth)
    have "sort row ! (length row - Suc (k - 1 + i)) \<le> sort row ! (length row - Suc (k - 1))"
      by (rule sorted_nth_mono) (use i assms in auto)
    then show ?thesis using i assms by (simp add: rev_nth not_less)
  qed
  have "mset ?d = mset row" by simp
  then have "length (filter (\<lambda>x. ?th < x) row) = length (filter (\<lambda>x. ?th < x) ?d)" by (metis mset_filter size_mset)
  also have "\<dots> = length (filter (\<lambda>x. ?th < x) (take (k - 1) ?d)) + length (filter (\<lambda>x. ?th < x) (drop (k - 1) ?d))"
    by (metis append_take_drop_id filter_append length_append)
  also have "filter (\<lambda>x. ?th < x) (drop (k - 1) ?d) = []" using low by (simp add: filter_empty_conv)
  also have "length (filter (\<lambda>x. ?th < x) (take (k - 1) ?d)) \<le> k - 1" by (rule order_trans [OF length_filter_le]) simp
  finally show ?thesis using assms(1) by simp
qed

text \<open>The two stages before top-p, and what each rules out.\<close>

definition top_k_row :: "nat \<Rightarrow> sampling_params \<Rightarrow> masked_logits \<Rightarrow> masked_logits" where
  "top_k_row vocab p row =
     (if top_k_of vocab p = 0 then row else keep_at_least True (rev (sort row) ! (top_k_of vocab p - 1)) row)"

definition floor_row :: "sampling_params \<Rightarrow> masked_logits \<Rightarrow> masked_logits" where
  "floor_row p row = (if min_p_of p > 0 then min_p_row (min_p_of p) row else row)"

lemma filter_row_stages:
  "filter_row ops vocab p row =
     (let r2 = floor_row p (top_k_row vocab p row) in if top_p_of p < 1 then top_p_row ops (top_p_of p) r2 else r2)"
  by (simp add: filter_row_def top_k_row_def floor_row_def Let_def)

lemma stage_masks:
  assumes "validate_sampling p = Inr p'" and "row \<noteq> []"
  shows "masks row (top_k_row (length row) p row)"
    and "masks (top_k_row (length row) p row) (floor_row p (top_k_row (length row) p row))"
proof -
  have m: "min_p_of p \<le> 1" using assms(1) by (auto simp: validate_sampling_def min_p_of_def split: if_splits)
  have kl: "top_k_of (length row) p < length row" if "top_k_of (length row) p \<noteq> 0"
    using that by (auto simp: top_k_of_def split: if_splits)
  obtain b where b: "best_at row b" using best_exists [OF assms(2)] by blast
  show m1: "masks row (top_k_row (length row) p row)"
    using masks_refl [OF b] top_k_masks [of "top_k_of (length row) p" row] kl by (simp add: top_k_row_def)
  obtain b1 where b1: "best_at (top_k_row (length row) p row) b1" using masks_best [OF m1] by blast
  show "masks (top_k_row (length row) p row) (floor_row p (top_k_row (length row) p row))"
    using masks_refl [OF b1] min_p_masks [OF b1 m] by (simp add: floor_row_def)
qed

lemma filter_row_masks:
  assumes laws: "torch_laws ops" and valid: "validate_sampling p = Inr p'" and row: "row \<noteq> []"
  shows "masks row (filter_row ops (length row) p row)"
    and "masks (floor_row p (top_k_row (length row) p row)) (filter_row ops (length row) p row)"
proof -
  let ?r2 = "floor_row p (top_k_row (length row) p row)"
  note m = stage_masks [OF valid row]
  have l: "0 < top_p_of p" using valid by (auto simp: validate_sampling_def top_p_of_def split: if_splits)
  obtain b where b: "best_at ?r2 b" using masks_best [OF m(2)] by blast
  show last_stage: "masks ?r2 (filter_row ops (length row) p row)"
    unfolding filter_row_stages Let_def using masks_refl [OF b] top_p_masks [OF laws b l] by simp
  show "masks row (filter_row ops (length row) p row)" by (rule masks_trans [OF m(1) masks_trans [OF m(2) last_stage]])
qed

text \<open>A token at least as likely as a kept one passes top-k and min-p.\<close>

lemma top_k_row_up:
  "top_k_row vocab p row ! t \<noteq> None \<Longrightarrow> row ! t \<le> row ! k \<Longrightarrow> t < length row \<Longrightarrow> k < length row \<Longrightarrow> top_k_row vocab p row ! k = row ! k"
  by (auto simp: top_k_row_def keep_at_least_def not_less split: if_splits)

lemma softmax_mono: "t < length row \<Longrightarrow> k < length row \<Longrightarrow> row ! t \<le> row ! k \<Longrightarrow> softmax row ! t \<le> softmax row ! k"
  by (simp add: nth_softmax divide_right_mono weight_mono)

lemma floor_row_up:
  assumes "floor_row p row ! t \<noteq> None" and "row ! t \<le> row ! k" and "t < length row" and "k < length row"
  shows "floor_row p row ! k = row ! k"
  using assms softmax_mono [OF assms(3,4,2)] by (auto simp: floor_row_def min_p_row_def Let_def split: if_splits)

lemma filter_row_top_k:
  assumes "validate_sampling p = Inr p'" and "row \<noteq> []" and "top_k_of (length row) p = k" and "0 < k" and "t < length row"
    and "top_k_row (length row) p row ! t \<noteq> None"
  shows "length (filter (\<lambda>x. row ! t < x) row) < k"
proof -
  have "rev (sort row) ! (k - 1) \<le> row ! t"
    using assms(3-6) by (auto simp: top_k_row_def keep_at_least_def not_less split: if_splits)
  then have "length (filter (\<lambda>x. row ! t < x) row) \<le> length (filter (\<lambda>x. rev (sort row) ! (k - 1) < x) row)"
    by (intro length_filter_mono) (auto intro: order.strict_trans1)
  also have "\<dots> < k" using assms(3,4) by (intro count_above_kth) (auto simp: top_k_of_def split: if_splits)
  finally show ?thesis .
qed

lemma filter_row_min_p:
  assumes "validate_sampling p = Inr p'" and "row \<noteq> []" and "t < length row" and "0 < min_p_of p" and "k < length row"
    and "floor_row p (top_k_row (length row) p row) ! t \<noteq> None"
  shows "min_p_of p * weight (row ! k) \<le> weight (row ! t)"
proof -
  let ?r = "top_k_row (length row) p row"
  note m = stage_masks [OF assms(1,2)]
  have len: "length ?r = length row" using m(1) by (simp add: masks_def)
  obtain j where j: "best_at row j" "?r ! j = row ! j" using m(1) by (auto simp: masks_def)
  have jl: "j < length row" using j(1) by (simp add: best_at_def)
  have some: "?r ! t \<noteq> None" using m(2) assms(3,6) len by (auto simp: masks_def)
  then have rt: "?r ! t = row ! t" using m(1) assms(3) by (auto simp: masks_def)
  have pos: "0 < sum_list (map weight ?r)" using sum_weight_pos [OF nth_mem some] assms(3) len by simp
  have "fold max (softmax ?r) 0 * min_p_of p \<le> softmax ?r ! t"
    using assms(3,4,6) len by (auto simp: floor_row_def min_p_row_def Let_def split: if_splits)
  moreover have "softmax ?r ! j \<in> set (softmax ?r)" by (rule nth_mem) (simp add: jl len)
  then have "softmax ?r ! j \<le> fold max (softmax ?r) 0" by (intro fold_max_real_ge) simp
  ultimately have "softmax ?r ! j * min_p_of p \<le> softmax ?r ! t"
    using mult_right_mono [of "softmax ?r ! j" "fold max (softmax ?r) 0" "min_p_of p"] assms(4) by linarith
  then have "weight (row ! j) * min_p_of p \<le> weight (row ! t)"
    using pos jl assms(3) len by (simp add: nth_softmax j(2) rt divide_le_cancel)
  moreover have "weight (row ! k) \<le> weight (row ! j)" using j(1) assms(5) by (intro weight_mono) (simp add: best_at_def)
  then have "weight (row ! k) * min_p_of p \<le> weight (row ! j) * min_p_of p" using assms(4) by (intro mult_right_mono) simp_all
  ultimately show ?thesis by (simp add: mult.commute)
qed

lemma filter_row_top_p:
  assumes laws: "torch_laws ops" and valid: "validate_sampling p = Inr p'" and row: "row \<noteq> []" and t: "t < length row"
    and kept: "filter_row ops (length row) p row ! t \<noteq> None" and on: "top_p_of p < 1"
  shows "(\<Sum>k | k < length row \<and> row ! t < row ! k. weight (row ! k)) < top_p_of p * (\<Sum>k < length row. weight (row ! k))"
proof -
  let ?r1 = "top_k_row (length row) p row" and ?B = "{k. k < length row \<and> row ! t < row ! k}"
  define r2 where "r2 = floor_row p ?r1"
  note m = stage_masks [OF valid row] filter_row_masks [OF laws valid row]
  have len: "length ?r1 = length row" "length r2 = length row" using m(1,2) by (simp_all add: masks_def r2_def)
  have r2t: "r2 ! t \<noteq> None" using m(4) kept t len by (auto simp: masks_def r2_def)
  then have r1t: "?r1 ! t \<noteq> None" using m(2) t len by (auto simp: masks_def r2_def)
  then have r1v: "?r1 ! t = row ! t" using m(1) t by (auto simp: masks_def)
  then have r2v: "r2 ! t = row ! t" using m(2) t r2t len by (auto simp: masks_def r2_def)
  have up: "r2 ! k = row ! k" if "k \<in> ?B" for k
  proof -
    have k: "k < length row" "row ! t \<le> row ! k" using that by auto
    have "?r1 ! k = row ! k" by (rule top_k_row_up [OF r1t k(2) t k(1)])
    with floor_row_up [of p ?r1 t k] k t len r1v r2t show ?thesis by (simp add: r2_def)
  qed
  define order where "order = ranking ops r2"
  note o = torch_order [OF laws, of r2, folded order_def]
  obtain i where i: "i < length r2" "order ! i = t" using rank_of [OF laws, of t r2] t len by (auto simp: order_def)
  define ordered where "ordered = map (\<lambda>j. r2 ! j) order"
  have ol: "length ordered = length row" using o(1) len by (simp add: ordered_def)
  have W: "sum_list (map weight ordered) = (\<Sum>k < length row. weight (r2 ! k))"
    using o len by (simp add: ordered_def comp_def sum_list_distinct_conv_sum_set atLeast0LessThan)
  have "t < length r2" using t len by simp
  have pos: "0 < sum_list (map weight ordered)"
    using sum_weight_pos [of "r2 ! t" ordered] r2t i o(1) unfolding ordered_def by (metis image_eqI list.set_map nth_mem)
  have "\<not> sum_list (take i (softmax ordered)) \<ge> top_p_of p"
    using top_p_row_nth(2) [OF laws i(1), of "top_p_of p"] kept on i(2)
    unfolding filter_row_stages Let_def r2_def [symmetric] order_def [symmetric] ordered_def [symmetric] by (auto split: if_splits)
  moreover have "sum_list (take i (softmax ordered)) = sum_list (map weight (take i ordered)) / sum_list (map weight ordered)"
    by (simp add: softmax_def take_map divide_inverse sum_list_mult_const comp_def)
  ultimately have mass: "sum_list (map weight (take i ordered)) < top_p_of p * sum_list (map weight ordered)"
    using pos by (simp add: not_le pos_divide_less_eq)
  have before: "k \<in> set (take i order)" if "k \<in> ?B" for k
  proof -
    have k: "k < length r2" "row ! t < row ! k" using that len by auto
    obtain i' where i': "i' < length r2" "order ! i' = k" using rank_of [OF laws k(1)] by (auto simp: order_def)
    have "i' < i"
    proof (rule ccontr)
      assume "\<not> i' < i"
      then have "r2 ! k \<le> r2 ! t" using torch_desc [OF laws, of i i' r2] i i' by (simp add: order_def)
      with up [OF that] r2v k(2) show False by simp
    qed
    then show ?thesis using i' o(1) by (auto simp: in_set_conv_nth)
  qed
  have "(\<Sum>k \<in> ?B. weight (row ! k)) = (\<Sum>k \<in> ?B. weight (r2 ! k))" using up by (intro sum.cong) simp_all
  also have "\<dots> \<le> (\<Sum>k \<in> set (take i order). weight (r2 ! k))" using before by (intro sum_mono2) auto
  also have "\<dots> = sum_list (map weight (take i ordered))"
    using o(2) by (simp add: ordered_def take_map comp_def sum_list_distinct_conv_sum_set)
  also have "\<dots> < top_p_of p * (\<Sum>k < length row. weight (r2 ! k))" using mass W by simp
  also have "\<dots> \<le> top_p_of p * (\<Sum>k < length row. weight (row ! k))"
  proof (rule mult_left_mono)
    have "weight (r2 ! k) \<le> weight (row ! k)" if "k < length row" for k
      using m(1,2) that len unfolding masks_def r2_def by (cases "row ! k") (fastforce simp: weight_def)+
    then show "(\<Sum>k < length row. weight (r2 ! k)) \<le> (\<Sum>k < length row. weight (row ! k))" by (intro sum_mono) simp
    show "0 \<le> top_p_of p" using valid by (auto simp: validate_sampling_def top_p_of_def split: if_splits)
  qed
  finally show ?thesis .
qed

text \<open>
  What a draw returns: the argmax of a greedy row, and for any other row an index that
  \<open>multinomial\<close> drew from the row's probabilities. \<open>torch.multinomial\<close> over several rows draws
  one index of positive probability for each.
\<close>

definition multinomial_law :: "'g torch_ops \<Rightarrow> bool" where
  "multinomial_law ops \<longleftrightarrow> (\<forall>g pss. (\<forall>ps \<in> set pss. \<exists>p \<in> set ps. 0 < p) \<longrightarrow>
     length (fst (multinomial_rows ops g pss)) = length pss \<and>
     (\<forall>k < length pss. fst (multinomial_rows ops g pss) ! k < length (pss ! k) \<and> 0 < pss ! k ! (fst (multinomial_rows ops g pss) ! k)))"

lemma draw_seeded_some:
  assumes "draw_seeded ops params key probs rows toks st = Inr (toks', st')" and "i \<in> set rows" and "seed (params ! i) = Some s"
    and "i < length toks"
  shows "\<exists>g. toks' ! i = fst (multinomial ops g (probs ! i))"
  using assms
proof (induction rows arbitrary: toks st)
  case (Cons row rows)
  show ?case
  proof (cases "seed (params ! row)")
    case None
    with Cons show ?thesis by auto
  next
    case (Some s')
    with Cons.prems(1) obtain g st1 where rest: "draw_seeded ops params key probs rows (toks[row := fst (multinomial ops g (probs ! row))]) st1 = Inr (toks', st')"
      using draw_seeded_step by blast
    show ?thesis
    proof (cases "i \<in> set rows")
      case True
      with Cons.IH [OF rest True Cons.prems(3)] Cons.prems(4) show ?thesis by simp
    next
      case False
      with draw_seeded_other [OF rest, of i] Cons.prems(2,4) show ?thesis by auto
    qed
  qed
qed simp

lemma draw_positive:
  assumes laws: "torch_laws ops" "multinomial_law ops" and run: "sampler_draw ops rows params ids st = Inr (toks, st')"
    and i: "i < length params" and ng: "\<not> sp_greedy (params ! i)" and len: "length rows = length params"
    and some: "\<forall>row \<in> set rows. \<exists>p \<in> set (softmax row). 0 < p"
  shows "toks ! i < length (rows ! i) \<and> 0 < softmax (rows ! i) ! (toks ! i)"
proof -
  let ?gr = "filter (\<lambda>i. sp_greedy (params ! i)) [0..<length params]"
  let ?sr = "filter (\<lambda>i. \<not> sp_greedy (params ! i)) [0..<length params]"
  define toks0 where "toks0 = set_rows ?gr (map (\<lambda>i. argmax (rows ! i)) ?gr) (replicate (length params) 0)"
  define un where "un = filter (\<lambda>i. seed (params ! i) = None) ?sr"
  define drawn where "drawn = fst (multinomial_rows ops (shared_generator st) (map (\<lambda>i. map softmax rows ! i) un))"
  have sr: "i \<in> set ?sr" "?sr \<noteq> []" using i ng by (auto simp: filter_empty_conv)
  obtain toks1 st1 where t1: "(if un = [] then (toks0, st) else let (drawn, g') = multinomial_rows ops (shared_generator st) (map (\<lambda>i. map softmax rows ! i) un) in
      (set_rows un drawn toks0, st\<lparr>shared_generator := g'\<rparr>)) = (toks1, st1)" by fastforce
  have seeded_run: "draw_seeded ops params (\<lambda>i. case ids of None \<Rightarrow> RowKey i | Some ids \<Rightarrow> RequestKey (ids ! i)) (map softmax rows) ?sr toks1 st1 = Inr (toks, st')"
    using run sr(2) t1 unfolding sampler_draw_def Let_def toks0_def [symmetric] un_def [symmetric] by (simp split: prod.splits)
  have l1: "length toks1 = length params" using t1 by (auto simp: toks0_def Let_def split: if_splits prod.splits)
  have at_row: "map softmax rows ! k = softmax (rows ! k)" if "k < length params" for k using that len by simp
  have ex: "\<exists>p \<in> set (softmax (rows ! i)). 0 < p" using some i len by simp
  show ?thesis
  proof (cases "seed (params ! i)")
    case (Some s)
    from draw_seeded_some [OF seeded_run sr(1) Some] l1 i obtain g where "toks ! i = fst (multinomial ops g (softmax (rows ! i)))"
      using at_row by auto
    with torch_multinomial [OF laws(1) ex, of g] show ?thesis by simp
  next
    case None
    then have iu: "i \<in> set un" using sr(1) by (simp add: un_def)
    then obtain k where k: "k < length un" "un ! k = i" by (auto simp: in_set_conv_nth)
    have "un \<noteq> []" using iu by auto
    then have toks1: "toks1 = set_rows un drawn toks0" using t1 by (auto simp: drawn_def split: prod.splits)
    have "\<forall>ps \<in> set (map (\<lambda>i. map softmax rows ! i) un). \<exists>p \<in> set ps. 0 < p"
      using some len by (auto simp: un_def)
    with laws(2) have d: "length drawn = length (map (\<lambda>i. map softmax rows ! i) un) \<and>
      (\<forall>k < length (map (\<lambda>i. map softmax rows ! i) un). drawn ! k < length (map (\<lambda>i. map softmax rows ! i) un ! k) \<and>
         0 < map (\<lambda>i. map softmax rows ! i) un ! k ! (drawn ! k))"
      unfolding multinomial_law_def drawn_def by blast
    then have dl: "length drawn = length un" by simp
    have "drawn ! k < length (rows ! i) \<and> 0 < softmax (rows ! i) ! (drawn ! k)"
    proof -
      have "map (\<lambda>i. map softmax rows ! i) un ! k = softmax (rows ! i)" using k at_row [OF i] by (subst nth_map) simp_all
      moreover have "k < length (map (\<lambda>i. map softmax rows ! i) un)" using k(1) by simp
      with d have "drawn ! k < length (map (\<lambda>i. map softmax rows ! i) un ! k) \<and>
        0 < map (\<lambda>i. map softmax rows ! i) un ! k ! (drawn ! k)" by blast
      ultimately show ?thesis by (simp only: length_softmax)
    qed
    moreover have "toks1 ! i = drawn ! k"
    proof -
      have "map_of (zip un drawn) i = Some (drawn ! k)" using map_of_zip_nth [of un drawn k] k dl by (simp add: un_def)
      then show ?thesis unfolding toks1 using dl i by (subst set_rows_nth) (simp_all add: un_def toks0_def)
    qed
    moreover have "toks ! i = toks1 ! i" using draw_seeded_other [OF seeded_run, of i] None by simp
    ultimately show ?thesis by simp
  qed
qed

lemma argmax_best: "row \<noteq> [] \<Longrightarrow> argmax row < length row \<and> (\<forall>k < length row. row ! k \<le> row ! argmax row)"
proof -
  assume "row \<noteq> []"
  then have all: "insert 0 (set [1..<length row]) = {..<length row}" by (auto simp: Suc_le_eq)
  have "argmax row \<in> {..<length row}" unfolding argmax_def all [symmetric] by (rule greatest_by_in)
  moreover have "row ! k \<le> row ! argmax row" if "k \<in> {..<length row}" for k
    using that unfolding argmax_def all [symmetric] by (rule greatest_by_ge)
  ultimately show ?thesis by simp
qed

lemma sample_chosen:
  assumes "sample ops st vocab rows params ctxs ids = Inr (res, st')"
  shows "length params = length rows" and "case ctxs of None \<Rightarrow> True | Some cs \<Rightarrow> length cs = length rows"
    and "(list_all (\<lambda>p. sp_greedy p \<and> \<not> has_penalties p) params \<and> sr_token_ids res = map argmax rows) \<or>
      (\<exists>st1. sampler_draw ops (sampler_filter ops vocab (sample_working ops rows params ctxs) params) params ids st = Inr (sr_token_ids res, st1))"
  using assms by (auto simp: sample_def Let_def split: if_splits option.splits)

lemma sample_working_lengths:
  assumes "length params = length rows" and "\<forall>row \<in> set rows. length row = vocab" and "i < length rows"
  shows "length (sample_working ops rows params ctxs ! i) = vocab"
proof -
  have "length ((if list_ex has_penalties params \<and> ctxs \<noteq> None then apply_penalties ops rows params (the ctxs) else rows) ! i) = vocab"
    using assms by (simp add: apply_penalties_def Let_def scatter_row_def)
  then show ?thesis using assms(1,3)
    by (simp add: sample_working_def apply_temperature_def apply_penalties_def Let_def split: if_splits)
qed

lemma sample_working_plain:
  assumes "list_all (\<lambda>p. sp_greedy p \<and> \<not> has_penalties p) params" and "length params = length rows" and "i < length rows"
  shows "sample_working ops rows params ctxs ! i = rows ! i"
proof -
  have "\<not> list_ex has_penalties params" "sp_greedy (params ! i)" using assms by (auto simp: list_ex_iff list_all_iff)
  then show ?thesis using assms(2,3) by (simp add: sample_working_def apply_temperature_def)
qed

text \<open>
  C30: sampling obeys its filters. Take a batch that \<open>sample\<close> answers, with validated
  parameters and a nonempty vocabulary, and one of its rows, with its logits after penalties
  and temperature. Of the row that top-k, min-p and top-p leave, one of the most likely tokens
  is not masked, nothing that is not masked is changed, and the sampled token is not masked.
  A greedy row gets a most likely token. For any other row, with top-k active fewer than
  \<open>top_k\<close> tokens have a higher logit than the sampled one; with min-p active it is at least
  \<open>min_p\<close> times as likely as any token; with top-p active the tokens more likely than it have
  together less than \<open>top_p\<close> of the probability.
\<close>

theorem drawn_token_survives_filters:
  assumes "torch_laws ops" and "multinomial_law ops" and "sample ops st vocab rows params ctxs ids = Inr (res, st')"
    and "\<forall>p \<in> set params. \<exists>p'. validate_sampling p = Inr p'" and "\<forall>row \<in> set rows. length row = vocab" and "0 < vocab"
    and "i < length rows"
    and "p = params ! i" and "row = sample_working ops rows params ctxs ! i"
    and "kept = sampler_filter ops vocab (sample_working ops rows params ctxs) params ! i" and "t = sr_token_ids res ! i"
  shows "(\<exists>j < vocab. kept ! j = Some (row ! j) \<and> (\<forall>k < vocab. row ! k \<le> row ! j)) \<and>
    (\<forall>k < vocab. kept ! k = None \<or> kept ! k = Some (row ! k)) \<and> t < vocab \<and> kept ! t = Some (row ! t) \<and>
    (sp_greedy p \<longrightarrow> (\<forall>k < vocab. row ! k \<le> row ! t)) \<and>
    (\<not> sp_greedy p \<and> 0 < top_k p \<and> top_k p < int vocab \<longrightarrow> int (length (filter (\<lambda>x. row ! t < x) row)) < top_k p) \<and>
    (\<not> sp_greedy p \<and> 0 < min_p p \<longrightarrow> (\<forall>k < vocab. min_p p * exp (row ! k) \<le> exp (row ! t))) \<and>
    (\<not> sp_greedy p \<and> top_p p < 1 \<longrightarrow>
      (\<Sum>k | k < vocab \<and> row ! t < row ! k. exp (row ! k)) < top_p p * (\<Sum>k < vocab. exp (row ! k)))"
proof -
  note s = sample_chosen [OF assms(3)]
  let ?working = "sample_working ops rows params ctxs"
  have lw: "length ?working = length rows" by (rule length_sample_working [OF s(1)])
  have lf: "length (sampler_filter ops vocab ?working params) = length rows" using lw s(1) by (simp add: length_sampler_filter)
  have row_at: "length (?working ! j) = vocab" if "j < length rows" for j by (rule sample_working_lengths [OF s(1) assms(5) that])
  have filtered: "sampler_filter ops vocab ?working params ! j = filter_row ops vocab (params ! j) (map Some (?working ! j))" if "j < length rows" for j
    using sampler_filter_row [OF assms(1), of params ?working j vocab] lw s(1) that by simp
  have valid: "\<exists>p'. validate_sampling (params ! j) = Inr p'" if "j < length rows" for j using assms(4) s(1) that by simp
  have m: "masks (map Some (?working ! j)) (sampler_filter ops vocab ?working params ! j)" if j: "j < length rows" for j
  proof -
    obtain p' where "validate_sampling (params ! j) = Inr p'" using valid [OF j] by blast
    from filter_row_masks(1) [OF assms(1) this, of "map Some (?working ! j)"] show ?thesis using row_at [OF j] assms(6) filtered [OF j] by fastforce
  qed
  obtain p' where v: "validate_sampling p = Inr p'" using valid [OF assms(7)] assms(8) by blast
  have row: "length row = vocab" "map Some row \<noteq> []" "length (map Some row) = vocab" using row_at [OF assms(7)] assms(6,9) by auto
  have kept: "kept = filter_row ops (length (map Some row)) p (map Some row)" using filtered [OF assms(7)] row assms(8-10) by simp
  have mk: "masks (map Some row) kept" using m [OF assms(7)] assms(9,10) by simp
  have lk: "length kept = vocab" using mk row by (simp add: masks_def)
  obtain j where j: "best_at (map Some row) j" "kept ! j = map Some row ! j" using mk by (auto simp: masks_def)
  then have one: "j < vocab \<and> kept ! j = Some (row ! j) \<and> (\<forall>k < vocab. row ! k \<le> row ! j)" using row(1) by (auto simp: best_at_def)
  have two: "\<forall>k < vocab. kept ! k = None \<or> kept ! k = Some (row ! k)" using mk row(1) by (auto simp: masks_def)
  have greedy: "t = argmax row" if g: "sp_greedy p"
  proof (cases "list_all (\<lambda>p. sp_greedy p \<and> \<not> has_penalties p) params \<and> sr_token_ids res = map argmax rows")
    case True
    then have "row = rows ! i" using sample_working_plain [OF _ s(1) assms(7)] assms(9) by simp
    with True assms(7,11) show ?thesis by simp
  next
    case False
    then obtain st1 where "sampler_draw ops (sampler_filter ops vocab ?working params) params ids st = Inr (sr_token_ids res, st1)" using s(3) by blast
    from draw_greedy [OF this] g s(1) assms(7,8) have "t = argmax kept" by (simp add: assms(10,11))
    moreover have "kept = map Some row" using g by (simp add: kept filter_row_greedy)
    ultimately show ?thesis by (simp add: argmax_Some)
  qed
  have drawn: "t < vocab \<and> kept ! t \<noteq> None" if ng: "\<not> sp_greedy p"
  proof -
    have "\<not> list_all (\<lambda>p. sp_greedy p \<and> \<not> has_penalties p) params" using ng assms(7,8) s(1) by (auto simp: list_all_length)
    then obtain st1 where run: "sampler_draw ops (sampler_filter ops vocab ?working params) params ids st = Inr (sr_token_ids res, st1)" using s(3) by blast
    have pos: "\<exists>q \<in> set (softmax r). 0 < q" if r: "r \<in> set (sampler_filter ops vocab ?working params)" for r
    proof -
      obtain k where k: "k < length rows" "r = sampler_filter ops vocab ?working params ! k" using r lf by (auto simp: in_set_conv_nth)
      from m [OF k(1)] obtain b where b: "b < length r" "r ! b \<noteq> None" unfolding k(2) by (auto simp: masks_def best_at_def)
      then have "0 < softmax r ! b" by (simp add: softmax_pos)
      moreover have "softmax r ! b \<in> set (softmax r)" by (rule nth_mem) (simp add: b(1))
      ultimately show ?thesis by blast
    qed
    have "t < length kept \<and> 0 < softmax kept ! t"
      unfolding assms(10,11) by (rule draw_positive [OF assms(1,2) run]) (use assms(7,8) s(1) lf ng pos in simp_all)
    then show ?thesis using softmax_pos [of t kept] lk by simp
  qed
  have best_t: "argmax row < vocab \<and> (\<forall>k < vocab. row ! k \<le> row ! argmax row)" using argmax_best [of row] row by simp
  have three: "t < vocab \<and> kept ! t = Some (row ! t)"
  proof (cases "sp_greedy p")
    case True
    then have "t = argmax row" "kept = map Some row" using greedy by (simp_all add: kept filter_row_greedy)
    with best_t row(1) show ?thesis by (simp add: nth_map)
  next
    case False
    then have "t < vocab" "kept ! t \<noteq> None" using drawn by simp_all
    with two [rule_format, of t] show ?thesis by simp
  qed
  have four: "sp_greedy p \<longrightarrow> (\<forall>k < vocab. row ! k \<le> row ! t)" using greedy best_t by simp
  note fm = filter_row_masks(2) [OF assms(1) v row(2), folded kept] and sm = stage_masks(2) [OF v row(2)] and sm1 = stage_masks(1) [OF v row(2)]
  have r2: "floor_row p (top_k_row (length (map Some row)) p (map Some row)) ! t \<noteq> None"
    using fm three row lk by (auto simp: masks_def)
  have r1: "top_k_row (length (map Some row)) p (map Some row) ! t \<noteq> None"
    using sm sm1 r2 three row by (auto simp: masks_def)
  have tr: "t < length (map Some row)" using three row by simp
  have five: "int (length (filter (\<lambda>x. row ! t < x) row)) < top_k p" if a: "\<not> sp_greedy p \<and> 0 < top_k p \<and> top_k p < int vocab"
  proof -
    have k: "top_k_of (length (map Some row)) p = nat (top_k p)" "0 < nat (top_k p)" using a row(1) by (simp_all add: top_k_of_def)
    have "length (filter (\<lambda>x. map Some row ! t < x) (map Some row)) < nat (top_k p)" by (rule filter_row_top_k [OF v row(2) k tr r1])
    then show ?thesis using tr by (simp add: filter_map comp_def)
  qed
  have six: "min_p p * exp (row ! k) \<le> exp (row ! t)" if a: "\<not> sp_greedy p \<and> 0 < min_p p" and k: "k < vocab" for k
  proof -
    have mp: "min_p_of p = min_p p" using a by (simp add: min_p_of_def)
    have "min_p_of p * weight (map Some row ! k) \<le> weight (map Some row ! t)"
      by (rule filter_row_min_p [OF v row(2) tr _ _ r2]) (use a k row mp in simp_all)
    then show ?thesis using k tr row(1) by (simp add: mp weight_def)
  qed
  have seven: "(\<Sum>k | k < vocab \<and> row ! t < row ! k. exp (row ! k)) < top_p p * (\<Sum>k < vocab. exp (row ! k))"
    if a: "\<not> sp_greedy p \<and> top_p p < 1"
  proof -
    have tp: "top_p_of p = top_p p" "top_p_of p < 1" using a by (simp_all add: top_p_of_def)
    have "filter_row ops (length (map Some row)) p (map Some row) ! t \<noteq> None" using three kept by simp
    from filter_row_top_p [OF assms(1) v row(2) tr this tp(2)] have
      "(\<Sum>k | k < vocab \<and> map Some row ! t < map Some row ! k. weight (map Some row ! k)) < top_p p * (\<Sum>k < vocab. weight (map Some row ! k))"
      by (simp only: tp(1) row(3))
    moreover have "(\<Sum>k | k < vocab \<and> map Some row ! t < map Some row ! k. weight (map Some row ! k)) = (\<Sum>k | k < vocab \<and> row ! t < row ! k. exp (row ! k))"
      using tr row(1) by (intro sum.cong) (auto simp: weight_def)
    moreover have "(\<Sum>k < vocab. weight (map Some row ! k)) = (\<Sum>k < vocab. exp (row ! k))" using row(1) by (intro sum.cong) (auto simp: weight_def)
    ultimately show ?thesis by simp
  qed
  show ?thesis using one two three four five six seven by blast
qed

definition fair_ops :: "int torch_ops" where
  "fair_ops = demo_ops\<lparr>multinomial_rows := (\<lambda>g rows. (map (\<lambda>ps. fst (multinomial demo_ops g ps)) rows, g + 1))\<rparr>"

lemma fair_ops_laws: "torch_laws fair_ops" "multinomial_law fair_ops"
  using demo_ops_laws torch_multinomial [OF demo_ops_laws]
  by (simp_all add: torch_laws_def fair_ops_def multinomial_law_def)

theorem drawn_token_survives_filters_witness:
  "\<exists>res st'. sample fair_ops (sampler_init fair_ops 0 None 1024) 3 [[5, 4, 9], [1, 3, 2]]
       [GREEDY\<lparr>temperature := 1, top_k := 2\<rparr>, GREEDY] None None = Inr (res, st') \<and>
     sr_token_ids res ! 0 < 3 \<and> length (filter (\<lambda>x. [5, 4, 9 :: real] ! (sr_token_ids res ! 0) < x) [5, 4, 9]) < 2"
proof -
  let ?p = "GREEDY\<lparr>temperature := 1, top_k := 2\<rparr>" and ?rows = "[[5, 4, 9], [1, 3, 2]] :: logits list"
  let ?st = "sampler_init fair_ops 0 None 1024"
  have p: "\<not> sp_greedy ?p" "\<not> has_penalties ?p" "sp_logprobs ?p = None" "sp_greedy GREEDY" "\<not> has_penalties GREEDY" "sp_logprobs GREEDY = None"
    "temperature ?p = 1" "top_k ?p = 2" by (simp_all add: sp_greedy_def has_penalties_def GREEDY_def)
  have "0 \<le> max_generators ?st" by (simp add: sampler_init_def)
  from draw_total [OF disjI2 [OF this]] obtain toks st' where
    "sampler_draw fair_ops (sampler_filter fair_ops 3 (sample_working fair_ops ?rows [?p, GREEDY] None) [?p, GREEDY]) [?p, GREEDY] None ?st = Inr (toks, st')"
    by fastforce
  then have run: "sample fair_ops ?st 3 ?rows [?p, GREEDY] None None = Inr (\<lparr>sr_token_ids = toks, sr_logprobs = []\<rparr>, st')"
    using p by (simp add: sample_def Let_def sampler_logprobs_def)
  have v: "\<forall>q \<in> set [?p, GREEDY]. \<exists>p'. validate_sampling q = Inr p'" by (simp add: validate_sampling_def GREEDY_def)
  have w: "sample_working fair_ops ?rows [?p, GREEDY] None ! 0 = [5, 4, 9]" using p by (simp add: sample_working_def apply_temperature_def)
  have "\<forall>row \<in> set ?rows. length row = 3" "0 < (3 :: nat)" "0 < length ?rows" by simp_all
  from drawn_token_survives_filters [OF fair_ops_laws run v this refl refl refl refl] have
    "toks ! 0 < 3" "length (filter (\<lambda>x. [5, 4, 9 :: real] ! (toks ! 0) < x) [5, 4, 9]) < 2"
    unfolding w using p by simp_all
  with run show ?thesis by fastforce
qed

end
