(* ===== verification/Backends.thy ===== *)
theory Backends
  imports Prelude "HOL-Library.Product_Lexorder" "HOL-Library.List_Lexorder" "HOL-Library.Char_ord" "HOL-Library.Log_Nat"
begin

text \<open>
  Which attention kernel serves a phase: the registry and its resolution
  (\<open>engine/backends/registry.py\<close>), the shipped backends and what each needs
  (\<open>builtin.py\<close>, with the checks of \<open>engine/kernels/flash_paged.py\<close>), the per-device
  defaults (\<open>policy.py\<close>, \<open>arch.py\<close>, \<open>engine/kernels/device.py\<close>) and the launch
  parameters of paged decode (\<open>engine/kernels/paged_decode_config.py\<close>). What is installed
  on the machine is a \<open>machine\<close>; the kernels themselves are not modelled, so a backend has
  no \<open>run\<close> field here, nor its free-text summary. Reasons are values, not sentences.
\<close>

section \<open>Machine, device and geometry\<close>

datatype phase = Decode | Prefill

record geometry =
  num_q_heads :: int
  num_kv_heads :: int
  head_dim :: int
  block_size :: int
  ge_dtype :: string
  kv_dtype :: string

definition gqa_group :: "geometry \<Rightarrow> int" where
  "gqa_group g = num_q_heads g div num_kv_heads g"

record device_profile =
  dp_name :: string
  capability :: "int \<times> int"
  total_memory_gb :: real
  multiprocessors :: int
  l2_cache_mb :: real

definition sm :: "device_profile \<Rightarrow> int" where
  "sm p = fst (capability p) * 10 + snd (capability p)"

definition supports_async_copy :: "device_profile \<Rightarrow> bool" where
  "supports_async_copy p = (sm p \<ge> 80)"

record machine =
  cuda_available :: bool
  device_major :: int
  triton_importable :: bool
  flash_kvcache_importable :: bool
  flash_dense_importable :: bool

datatype reason =
    HeadDimOver int
  | TritonMissing
  | NoCudaDevice
  | FlashMissing
  | FlashNeedsSm80 int
  | PageSizeNot256 int
  | FlashHeadDim int
  | FlashDtype string
  | FlashDenseMissing
  | NoDequantGather string
  | GroupNotTwo int
  | NoQuantVariant string
  | NoTensorCores int

section \<open>Availability of the shipped backends\<close>

definition quantized_pool :: "geometry \<Rightarrow> string option" where
  "quantized_pool g = (if kv_dtype g = ''int8'' then Some ''INT8'' else if kv_dtype g = ''fp8'' then Some ''FP8'' else None)"

definition triton_available :: "machine \<Rightarrow> device_profile option \<Rightarrow> geometry \<Rightarrow> reason option" where
  "triton_available m p g =
     (if head_dim g > 128 then Some (HeadDimOver (head_dim g))
      else if \<not> triton_importable m then Some TritonMissing else None)"

definition flash_unavailable :: "machine \<Rightarrow> reason option" where
  "flash_unavailable m =
     (if \<not> cuda_available m then Some NoCudaDevice
      else if \<not> flash_kvcache_importable m then Some FlashMissing
      else if device_major m < 8 then Some (FlashNeedsSm80 (device_major m)) else None)"

definition flash_head_dim_dtype :: "int \<Rightarrow> string \<Rightarrow> reason option" where
  "flash_head_dim_dtype d dt =
     (if d mod 8 \<noteq> 0 \<or> d > 256 then Some (FlashHeadDim d)
      else if dt \<notin> {''float16'', ''bfloat16''} then Some (FlashDtype dt) else None)"

definition flash_supports :: "int \<Rightarrow> int \<Rightarrow> string \<Rightarrow> reason option" where
  "flash_supports page d dt = (if page mod 256 \<noteq> 0 then Some (PageSizeNot256 page) else flash_head_dim_dtype d dt)"

definition flash_supports_dense :: "machine \<Rightarrow> int \<Rightarrow> string \<Rightarrow> reason option" where
  "flash_supports_dense m d dt =
     (case flash_unavailable m of Some r \<Rightarrow> Some r
      | None \<Rightarrow> if \<not> flash_dense_importable m then Some FlashDenseMissing else flash_head_dim_dtype d dt)"

definition flash_dtype :: "geometry \<Rightarrow> string" where
  "flash_dtype g = (if ge_dtype g = ''float16'' then ''float16'' else ''bfloat16'')"

definition flash_available :: "machine \<Rightarrow> device_profile option \<Rightarrow> geometry \<Rightarrow> reason option" where
  "flash_available m p g =
     (case flash_unavailable m of Some r \<Rightarrow> Some r | None \<Rightarrow> flash_supports (block_size g) (head_dim g) (flash_dtype g))"

definition flash_dense_available :: "machine \<Rightarrow> device_profile option \<Rightarrow> geometry \<Rightarrow> reason option" where
  "flash_dense_available m p g =
     (case quantized_pool g of Some q \<Rightarrow> Some (NoDequantGather q) | None \<Rightarrow> flash_supports_dense m (head_dim g) (flash_dtype g))"

definition gqa_available :: "machine \<Rightarrow> device_profile option \<Rightarrow> geometry \<Rightarrow> reason option" where
  "gqa_available m p g =
     (if gqa_group g \<noteq> 2 then Some (GroupNotTwo (gqa_group g))
      else case quantized_pool g of Some q \<Rightarrow> Some (NoQuantVariant q) | None \<Rightarrow> triton_available m p g)"

definition split_k_available :: "machine \<Rightarrow> device_profile option \<Rightarrow> geometry \<Rightarrow> reason option" where
  "split_k_available m p g =
     (case quantized_pool g of Some q \<Rightarrow> Some (NoQuantVariant q) | None \<Rightarrow> triton_available m p g)"

definition sdpa_available :: "machine \<Rightarrow> device_profile option \<Rightarrow> geometry \<Rightarrow> reason option" where
  "sdpa_available m p g = map_option NoDequantGather (quantized_pool g)"

definition tiled_available :: "machine \<Rightarrow> device_profile option \<Rightarrow> geometry \<Rightarrow> reason option" where
  "tiled_available m p g =
     (case p of
        Some d \<Rightarrow> if sm d < 80 then Some (NoTensorCores (sm d))
          else (case quantized_pool g of Some q \<Rightarrow> Some (NoQuantVariant q) | None \<Rightarrow> triton_available m p g)
      | None \<Rightarrow> (case quantized_pool g of Some q \<Rightarrow> Some (NoQuantVariant q) | None \<Rightarrow> triton_available m p g))"

section \<open>The registry\<close>

record backend =
  be_name :: string
  be_phase :: phase
  be_available :: "machine \<Rightarrow> device_profile option \<Rightarrow> geometry \<Rightarrow> reason option"
  be_priority :: int
  be_graph_safe :: bool
  be_tags :: "string list"

type_synonym registry = "((phase \<times> string) \<times> backend) list"

definition register :: "backend \<Rightarrow> bool \<Rightarrow> registry \<Rightarrow> registry result" where
  "register b replace reg =
     (let key = (be_phase b, be_name b) in
      if map_of reg key \<noteq> None \<and> \<not> replace then Inl ValueError else Inr (AList.update key b reg))"

definition unregister :: "phase \<Rightarrow> string \<Rightarrow> registry \<Rightarrow> registry" where
  "unregister ph n reg = AList.delete (ph, n) reg"

definition registry_get :: "registry \<Rightarrow> phase \<Rightarrow> string \<Rightarrow> backend result" where
  "registry_get reg ph n = (case map_of reg (ph, n) of None \<Rightarrow> Inl KeyError | Some b \<Rightarrow> Inr b)"

definition registry_names :: "registry \<Rightarrow> phase \<Rightarrow> string list" where
  "registry_names reg ph = sort (map snd (filter (\<lambda>(q, n). q = ph) (map fst reg)))"

definition phase_backends :: "registry \<Rightarrow> phase \<Rightarrow> backend list" where
  "phase_backends reg ph = map (\<lambda>n. the (map_of reg (ph, n))) (registry_names reg ph)"

record backend_row =
  row_name :: string
  row_available :: bool
  row_reason :: "reason option"
  row_priority :: int
  row_graph_safe :: bool
  row_tags :: "string list"

definition describe :: "registry \<Rightarrow> phase \<Rightarrow> machine \<Rightarrow> device_profile option \<Rightarrow> geometry \<Rightarrow> backend_row list" where
  "describe reg ph m p g =
     map (\<lambda>n. let b = the (map_of reg (ph, n)); r = be_available b m p g in
       \<lparr>row_name = n, row_available = (r = None), row_reason = r, row_priority = be_priority b,
        row_graph_safe = be_graph_safe b, row_tags = be_tags b\<rparr>) (registry_names reg ph)"

text \<open>\<open>requested\<close> is \<open>None\<close>, the empty string, \<open>"auto"\<close>, or a name.\<close>

definition names_backend :: "string option \<Rightarrow> bool" where
  "names_backend requested = (case requested of None \<Rightarrow> False | Some n \<Rightarrow> n \<noteq> [] \<and> n \<noteq> ''auto'')"

definition resolve :: "registry \<Rightarrow> phase \<Rightarrow> string option \<Rightarrow> machine \<Rightarrow> device_profile option \<Rightarrow> geometry \<Rightarrow> backend result" where
  "resolve reg ph requested m p g =
     (if names_backend requested
      then and_then (registry_get reg ph (the requested)) (\<lambda>b.
        case be_available b m p g of Some r \<Rightarrow> Inl ValueError | None \<Rightarrow> Inr b)
      else case filter (\<lambda>b. be_available b m p g = None) (phase_backends reg ph) of
        [] \<Rightarrow> Inl RuntimeError
      | b # bs \<Rightarrow> Inr (greatest_by (\<lambda>b. (be_priority b, be_name b)) b bs))"

definition builtin_backends :: "backend list" where
  "builtin_backends =
    [\<lparr>be_name = ''per_head'', be_phase = Decode, be_available = triton_available, be_priority = 50,
      be_graph_safe = True, be_tags = [''triton'', ''paged'', ''int8-capable'']\<rparr>,
     \<lparr>be_name = ''gqa'', be_phase = Decode, be_available = gqa_available, be_priority = 10,
      be_graph_safe = True, be_tags = [''triton'', ''paged'', ''negative-result'']\<rparr>,
     \<lparr>be_name = ''split_k'', be_phase = Decode, be_available = split_k_available, be_priority = 20,
      be_graph_safe = True, be_tags = [''triton'', ''paged'', ''unmeasured'']\<rparr>,
     \<lparr>be_name = ''flash'', be_phase = Decode, be_available = flash_available, be_priority = 80,
      be_graph_safe = False, be_tags = [''flash-attn'', ''paged'', ''sm80+'']\<rparr>,
     \<lparr>be_name = ''sdpa'', be_phase = Prefill, be_available = sdpa_available, be_priority = 50,
      be_graph_safe = True, be_tags = [''torch'', ''gather'']\<rparr>,
     \<lparr>be_name = ''per_token'', be_phase = Prefill, be_available = triton_available, be_priority = 30,
      be_graph_safe = True, be_tags = [''triton'', ''paged'', ''int8-capable'']\<rparr>,
     \<lparr>be_name = ''tiled'', be_phase = Prefill, be_available = tiled_available, be_priority = 40,
      be_graph_safe = True, be_tags = [''triton'', ''paged'', ''sm80+'']\<rparr>,
     \<lparr>be_name = ''flash'', be_phase = Prefill, be_available = flash_available, be_priority = 80,
      be_graph_safe = False, be_tags = [''flash-attn'', ''paged'', ''sm80+'']\<rparr>,
     \<lparr>be_name = ''flash_dense'', be_phase = Prefill, be_available = flash_dense_available, be_priority = 45,
      be_graph_safe = False, be_tags = [''flash-attn'', ''gather'', ''sm80+'']\<rparr>]"

fun register_all :: "backend list \<Rightarrow> registry \<Rightarrow> registry result" where
  "register_all [] reg = Inr reg"
| "register_all (b # bs) reg = and_then (register b False reg) (register_all bs)"

section \<open>Per-device defaults\<close>

datatype provenance =
    Measured string
  | MeasuredCannotRun string string
  | MeasuredNoAlternative string
  | VerifyUnmeasured int string
  | VerifyUsesPrefill
  | HighestPriority "int option" bool
  | DtypeBf16
  | DtypeFp16
  | MeasureIt

record device_defaults =
  decode_attention :: string
  prefill_attention :: string
  dd_dtype :: string
  reasons :: "(string \<times> provenance) list"
  verify_attention :: string

definition profile_sm :: "device_profile option \<Rightarrow> int" where
  "profile_sm p = (case p of None \<Rightarrow> 0 | Some d \<Rightarrow> sm d)"

definition verify_default :: "device_profile option \<Rightarrow> string set \<Rightarrow> string \<times> provenance" where
  "verify_default p available =
     (if profile_sm p \<ge> 80 \<and> ''tiled'' \<in> available then (''tiled'', VerifyUnmeasured (profile_sm p) ''tiled'')
      else if ''per_token'' \<in> available then (''per_token'', VerifyUnmeasured (profile_sm p) ''per_token'')
      else (''prefill'', VerifyUsesPrefill))"

record measured_entry =
  me_decode :: string
  me_prefill :: string
  me_dtype :: string
  me_reasons :: "(string \<times> provenance) list"

definition measured_on :: "string \<Rightarrow> (string \<times> provenance) list" where
  "measured_on d = [(''decode_attention'', Measured d), (''prefill_attention'', Measured d), (''dtype'', Measured d)]"

definition MEASURED :: "int \<rightharpoonup> measured_entry" where
  "MEASURED = [75 \<mapsto> \<lparr>me_decode = ''per_head'', me_prefill = ''sdpa'', me_dtype = ''float16'', me_reasons = measured_on ''T4''\<rparr>,
     89 \<mapsto> \<lparr>me_decode = ''per_head'', me_prefill = ''tiled'', me_dtype = ''float16'', me_reasons = measured_on ''RTX 4060''\<rparr>]"

definition available_names :: "registry \<Rightarrow> phase \<Rightarrow> machine \<Rightarrow> device_profile option \<Rightarrow> geometry \<Rightarrow> string list" where
  "available_names reg ph m p g = map row_name (filter row_available (describe reg ph m p g))"

definition best_name :: "registry \<Rightarrow> phase \<Rightarrow> string list \<Rightarrow> string result" where
  "best_name reg ph ns =
     (case ns of [] \<Rightarrow> Inl ValueError
      | n # ns' \<Rightarrow> Inr (greatest_by (\<lambda>n. (be_priority (the (map_of reg (ph, n))), n)) n ns'))"

definition pick :: "registry \<Rightarrow> phase \<Rightarrow> machine \<Rightarrow> device_profile option \<Rightarrow> geometry \<Rightarrow> (string \<times> bool) result" where
  "pick reg ph m p g =
     (case resolve reg ph None m p g of
        Inr b \<Rightarrow> Inr (be_name b, False)
      | Inl RuntimeError \<Rightarrow> and_then (best_name reg ph (registry_names reg ph)) (\<lambda>n. Inr (n, True))
      | Inl e \<Rightarrow> Inl e)"

text \<open>One iteration of the loop over the measured choices.\<close>

definition measured_choice ::
  "registry \<Rightarrow> phase \<Rightarrow> string \<Rightarrow> string \<Rightarrow> machine \<Rightarrow> device_profile option \<Rightarrow> geometry \<Rightarrow> (string \<times> provenance) list
     \<Rightarrow> (string \<times> (string \<times> provenance) list) result" where
  "measured_choice reg ph field chosen m p g rs =
     (let available = available_names reg ph m p g in
      if chosen \<in> set available then Inr (chosen, rs)
      else if available \<noteq> [] then
        and_then (best_name reg ph available) (\<lambda>r. Inr (r, AList.update field (MeasuredCannotRun chosen r) rs))
      else Inr (chosen, AList.update field (MeasuredNoAlternative chosen) rs))"

definition defaults_for :: "registry \<Rightarrow> machine \<Rightarrow> device_profile option \<Rightarrow> geometry \<Rightarrow> device_defaults result" where
  "defaults_for reg m p g =
     (let available_prefill = set (available_names reg Prefill m p g);
          (verify, verify_reason) = verify_default p available_prefill in
      case (case p of None \<Rightarrow> None | Some d \<Rightarrow> MEASURED (sm d)) of
        Some entry \<Rightarrow>
          and_then (measured_choice reg Decode ''decode_attention'' (me_decode entry) m p g (me_reasons entry)) (\<lambda>(decode, rs1).
          and_then (measured_choice reg Prefill ''prefill_attention'' (me_prefill entry) m p g rs1) (\<lambda>(prefill, rs2).
          Inr \<lparr>decode_attention = decode, prefill_attention = prefill, dd_dtype = me_dtype entry,
               reasons = AList.update ''verify_attention'' verify_reason rs2, verify_attention = verify\<rparr>))
      | None \<Rightarrow>
          and_then (pick reg Decode m p g) (\<lambda>(decode, decode_note).
          and_then (pick reg Prefill m p g) (\<lambda>(prefill, prefill_note).
          let dtype = (if p \<noteq> None \<and> profile_sm p \<ge> 80 then ''bfloat16'' else ''float16'');
              on = map_option sm p in
          Inr \<lparr>decode_attention = decode, prefill_attention = prefill, dd_dtype = dtype,
               reasons = [(''decode_attention'', HighestPriority on decode_note),
                 (''prefill_attention'', HighestPriority on prefill_note), (''verify_attention'', verify_reason),
                 (''dtype'', if dtype = ''bfloat16'' then DtypeBf16 else DtypeFp16), (''measure'', MeasureIt)],
               verify_attention = verify\<rparr>)))"

record backend_report =
  rp_device :: "device_profile option"
  rp_measured :: bool
  rp_defaults :: "string \<times> string \<times> string"
  rp_reasons :: "(string \<times> provenance) list"
  rp_decode_backends :: "backend_row list"
  rp_prefill_backends :: "backend_row list"

definition backend_report_of :: "registry \<Rightarrow> machine \<Rightarrow> device_profile option \<Rightarrow> geometry \<Rightarrow> backend_report result" where
  "backend_report_of reg m p g =
     and_then (defaults_for reg m p g) (\<lambda>d.
       Inr \<lparr>rp_device = p, rp_measured = (case p of None \<Rightarrow> False | Some dev \<Rightarrow> MEASURED (sm dev) \<noteq> None),
            rp_defaults = (decode_attention d, prefill_attention d, dd_dtype d), rp_reasons = reasons d,
            rp_decode_backends = describe reg Decode m p g, rp_prefill_backends = describe reg Prefill m p g\<rparr>)"

section \<open>Architecture tiers and launch parameters\<close>

definition path_for :: "device_profile option \<Rightarrow> string" where
  "path_for p = (if profile_sm p \<ge> 80 then ''sm80plus'' else ''sm75'')"

record tier =
  tier_path :: string
  tier_sm :: int
  mma_sync :: bool
  async_copy :: bool
  bf16_tensor_cores :: bool
  fp8 :: bool
  wgmma :: bool
  fp4 :: bool

definition capabilities :: "device_profile option \<Rightarrow> tier" where
  "capabilities p = (let s = profile_sm p in
     \<lparr>tier_path = path_for p, tier_sm = s, mma_sync = (s \<ge> 80), async_copy = (s \<ge> 80), bf16_tensor_cores = (s \<ge> 80),
      fp8 = (s \<ge> 89), wgmma = (s \<ge> 90), fp4 = (s \<ge> 100)\<rparr>)"

record tile =
  block_m :: int
  block_n :: int
  num_warps :: int
  num_stages :: int

definition device_tile_defaults :: "device_profile \<Rightarrow> int \<Rightarrow> int \<Rightarrow> tile" where
  "device_tile_defaults p head_dim' query_len =
     \<lparr>block_m = (if query_len \<ge> 256 then 64 else 32), block_n = 64, num_warps = 8,
      num_stages = (if supports_async_copy p then 3 else 2)\<rparr>"

definition prefill_tile_defaults :: "device_profile option \<Rightarrow> int \<Rightarrow> int \<Rightarrow> tile" where
  "prefill_tile_defaults current head_dim' query_len =
     (case current of None \<Rightarrow> \<lparr>block_m = 32, block_n = 64, num_warps = 8, num_stages = 2\<rparr>
      | Some p \<Rightarrow> device_tile_defaults p head_dim' query_len)"

definition fits_in_memory :: "device_profile option \<Rightarrow> int \<Rightarrow> int \<Rightarrow> real \<Rightarrow> bool" where
  "fits_in_memory current weight_bytes kv_pool_bytes headroom =
     (case current of None \<Rightarrow> True
      | Some p \<Rightarrow> real_of_int (weight_bytes + kv_pool_bytes) \<le> total_memory_gb p * 10 ^ 9 * (1 - headroom))"

definition select_paged_decode_config :: "int \<Rightarrow> int \<Rightarrow> (int \<times> int) result" where
  "select_paged_decode_config max_len batch =
     (if max_len \<le> 0 \<or> batch \<le> 0 then Inl ValueError else Inr (if max_len \<ge> 128 then 128 else 64, 4))"

text \<open>\<open>1 << (splits.bit_length() - 1)\<close> is the largest power of two not above \<open>splits\<close>.\<close>

definition choose_splits :: "int \<Rightarrow> int \<Rightarrow> int \<Rightarrow> int \<Rightarrow> int \<Rightarrow> int \<Rightarrow> int result" where
  "choose_splits rows heads max_len sms tile_n limit =
     (if rows \<le> 0 \<or> heads \<le> 0 \<or> max_len \<le> 0 then Inl ValueError
      else if tile_n = 0 then Inl ZeroDivisionError
      else let programs = rows * heads;
               wanted = max 1 (- ((- 2 * sms) div programs));
               by_length = max 1 (max_len div tile_n);
               splits = min (min wanted by_length) limit in
        Inr (if splits > 0 then 2 ^ (nat (bitlen splits) - 1) else 1))"

section \<open>Well-formed registries\<close>

definition registry_ok :: "registry \<Rightarrow> bool" where
  "registry_ok reg \<longleftrightarrow> distinct (map fst reg) \<and> (\<forall>((ph, n), b) \<in> set reg. be_phase b = ph \<and> be_name b = n)"

inductive registry_reachable :: "registry \<Rightarrow> bool" where
  empty: "registry_reachable []"
| registered: "registry_reachable reg \<Longrightarrow> register b rep reg = Inr reg' \<Longrightarrow> registry_reachable reg'"
| unregistered: "registry_reachable reg \<Longrightarrow> registry_reachable (unregister ph n reg)"

lemma set_AList_update: "x \<in> set (AList.update k v al) \<Longrightarrow> x = (k, v) \<or> x \<in> set al"
  by (induction al) (auto split: if_splits)

lemma registry_reachable_ok: "registry_reachable reg \<Longrightarrow> registry_ok reg"
proof (induction rule: registry_reachable.induct)
  case (registered reg b rep reg')
  then have "reg' = AList.update (be_phase b, be_name b) b reg" by (auto simp: register_def Let_def split: if_splits)
  with registered.IH show ?case
    by (auto simp: registry_ok_def AList.distinct_update dest!: set_AList_update)
next
  case (unregistered reg ph n)
  then show ?case using AList.distinct_delete [of reg "(ph, n)"] by (auto simp: registry_ok_def unregister_def AList.delete_eq)
qed (simp add: registry_ok_def)

lemma registry_ok_get: "registry_ok reg \<Longrightarrow> map_of reg (ph, n) = Some b \<Longrightarrow> be_phase b = ph \<and> be_name b = n"
  unfolding registry_ok_def using map_of_SomeD [of reg "(ph, n)" b] by fastforce

lemma names_iff: "n \<in> set (registry_names reg ph) \<longleftrightarrow> map_of reg (ph, n) \<noteq> None"
proof -
  have "n \<in> set (registry_names reg ph) \<longleftrightarrow> (ph, n) \<in> fst ` set reg" by (force simp: registry_names_def)
  then show ?thesis by (simp add: map_of_eq_None_iff)
qed

lemma phase_backends_iff:
  assumes "registry_ok reg"
  shows "b \<in> set (phase_backends reg ph) \<longleftrightarrow> map_of reg (ph, be_name b) = Some b"
proof
  assume "b \<in> set (phase_backends reg ph)"
  then obtain n where "n \<in> set (registry_names reg ph)" "b = the (map_of reg (ph, n))" by (auto simp: phase_backends_def)
  then have "map_of reg (ph, n) = Some b" using names_iff [of n reg ph] by auto
  with registry_ok_get [OF assms this] show "map_of reg (ph, be_name b) = Some b" by simp
next
  assume "map_of reg (ph, be_name b) = Some b"
  then show "b \<in> set (phase_backends reg ph)"
    using names_iff [of "be_name b" reg ph] by (force simp: phase_backends_def)
qed

lemma available_names_iff:
  "n \<in> set (available_names reg ph m p g) \<longleftrightarrow> (\<exists>b. map_of reg (ph, n) = Some b \<and> be_available b m p g = None)"
  using names_iff [of n reg ph] by (force simp: available_names_def describe_def Let_def)

lemma resolve_auto:
  assumes "registry_reachable reg" "\<not> names_backend req"
  shows "case resolve reg ph req m p g of
       Inr b \<Rightarrow> map_of reg (ph, be_name b) = Some b \<and> be_available b m p g = None \<and>
         (\<forall>c. map_of reg (ph, be_name c) = Some c \<longrightarrow> be_available c m p g = None \<longrightarrow>
            be_priority c < be_priority b \<or> be_priority c = be_priority b \<and> be_name c \<le> be_name b)
     | Inl e \<Rightarrow> e = RuntimeError \<and> (\<forall>c. map_of reg (ph, be_name c) = Some c \<longrightarrow> be_available c m p g \<noteq> None)"
proof -
  note ok = registry_reachable_ok [OF assms(1)]
  let ?cs = "filter (\<lambda>b. be_available b m p g = None) (phase_backends reg ph)"
  have mem: "c \<in> set ?cs \<longleftrightarrow> map_of reg (ph, be_name c) = Some c \<and> be_available c m p g = None" for c
    using phase_backends_iff [OF ok, of c ph] by auto
  show ?thesis
  proof (cases ?cs)
    case Nil
    then have "\<not> (map_of reg (ph, be_name c) = Some c \<and> be_available c m p g = None)" for c using mem [of c] by simp
    with assms(2) Nil show ?thesis by (auto simp: resolve_def)
  next
    case (Cons b bs)
    let ?key = "\<lambda>b. (be_priority b, be_name b)"
    have r: "resolve reg ph req m p g = Inr (greatest_by ?key b bs)" using assms(2) Cons by (simp add: resolve_def)
    have "greatest_by ?key b bs \<in> set ?cs" using greatest_by_in [of ?key b bs] Cons by simp
    moreover have "?key c \<le> ?key (greatest_by ?key b bs)" if "c \<in> set ?cs" for c
      by (rule greatest_by_ge) (use that Cons in simp)
    then have "be_priority c < be_priority (greatest_by ?key b bs) \<or>
        be_priority c = be_priority (greatest_by ?key b bs) \<and> be_name c \<le> be_name (greatest_by ?key b bs)" if "c \<in> set ?cs" for c
      using that by (fastforce simp: less_eq_prod_def)
    ultimately show ?thesis unfolding r using mem by simp
  qed
qed

text \<open>
  C32: the registry never substitutes a kernel. In every registry built by registrations
  and removals, naming a backend yields that very backend when it can run, \<open>ValueError\<close>
  when it is registered but cannot, and \<open>KeyError\<close> when it is not registered; asking for
  \<open>"auto"\<close> yields an available backend with no available one of higher priority (or of the
  same priority and a later name), and \<open>RuntimeError\<close> exactly when none can run.
\<close>

theorem resolve_never_substitutes:
  assumes "registry_reachable reg"
  shows "(names_backend (Some n) \<longrightarrow> resolve reg ph (Some n) m p g =
      (case map_of reg (ph, n) of None \<Rightarrow> Inl KeyError
       | Some b \<Rightarrow> if be_available b m p g = None then Inr b else Inl ValueError)) \<and>
    (\<not> names_backend req \<longrightarrow> (case resolve reg ph req m p g of
       Inr b \<Rightarrow> map_of reg (ph, be_name b) = Some b \<and> be_available b m p g = None \<and>
         (\<forall>c. map_of reg (ph, be_name c) = Some c \<longrightarrow> be_available c m p g = None \<longrightarrow>
            be_priority c < be_priority b \<or> be_priority c = be_priority b \<and> be_name c \<le> be_name b)
     | Inl e \<Rightarrow> e = RuntimeError \<and> (\<forall>c. map_of reg (ph, be_name c) = Some c \<longrightarrow> be_available c m p g \<noteq> None)))"
  using resolve_auto [OF assms, of req ph m p g] by (auto simp: resolve_def registry_get_def split: option.split)

definition builtin_registry :: registry where
  "builtin_registry = map (\<lambda>b. ((be_phase b, be_name b), b)) builtin_backends"

lemma builtin_registered: "register_all builtin_backends [] = Inr builtin_registry"
  by (simp add: builtin_backends_def builtin_registry_def register_def)

lemma register_all_reachable: "register_all bs reg = Inr reg' \<Longrightarrow> registry_reachable reg \<Longrightarrow> registry_reachable reg'"
  by (induction bs arbitrary: reg) (auto intro: registry_reachable.registered)

lemma builtin_reachable: "registry_reachable builtin_registry"
  by (rule register_all_reachable [OF builtin_registered registry_reachable.empty])

definition t4 :: device_profile where
  "t4 = \<lparr>dp_name = ''Tesla T4'', capability = (7, 5), total_memory_gb = 15, multiprocessors = 40, l2_cache_mb = 4\<rparr>"

definition demo_machine :: machine where
  "demo_machine = \<lparr>cuda_available = True, device_major = 7, triton_importable = True, flash_kvcache_importable = False,
     flash_dense_importable = False\<rparr>"

definition demo_shape :: geometry where
  "demo_shape = \<lparr>num_q_heads = 16, num_kv_heads = 8, head_dim = 128, block_size = 16, ge_dtype = ''float16'', kv_dtype = ''float16''\<rparr>"

theorem resolve_never_substitutes_witness:
  "resolve builtin_registry Prefill (Some ''tiled'') demo_machine (Some t4) demo_shape = Inl ValueError \<and>
   resolve builtin_registry Prefill (Some ''nope'') demo_machine (Some t4) demo_shape = Inl KeyError"
  using resolve_never_substitutes [OF builtin_reachable, of "''tiled''" Prefill demo_machine "Some t4" demo_shape None]
    resolve_never_substitutes [OF builtin_reachable, of "''nope''" Prefill demo_machine "Some t4" demo_shape None]
  by (simp add: names_backend_def builtin_registry_def builtin_backends_def tiled_available_def sm_def t4_def)

section \<open>Defaults that run\<close>

definition runnable :: "registry \<Rightarrow> phase \<Rightarrow> machine \<Rightarrow> device_profile option \<Rightarrow> geometry \<Rightarrow> string \<Rightarrow> bool" where
  "runnable reg ph m p g n \<longleftrightarrow> (\<exists>b. map_of reg (ph, n) = Some b \<and> be_available b m p g = None)"

lemma best_name_in: "best_name reg ph ns = Inr n \<Longrightarrow> n \<in> set ns"
proof (cases ns)
  case (Cons k ks)
  assume "best_name reg ph ns = Inr n"
  then have n: "n = greatest_by (\<lambda>n. (be_priority (the (map_of reg (ph, n))), n)) k ks" by (simp add: best_name_def Cons)
  show ?thesis unfolding n Cons list.set by (rule greatest_by_in)
qed (simp add: best_name_def)

lemma best_name_total: "ns \<noteq> [] \<Longrightarrow> \<exists>n. best_name reg ph ns = Inr n"
  by (cases ns) (simp_all add: best_name_def)

lemma measured_choice_spec:
  "\<exists>n rs'. measured_choice reg ph field chosen m p g rs = Inr (n, rs') \<and>
     (runnable reg ph m p g n \<or> (\<forall>k. \<not> runnable reg ph m p g k) \<and> n = chosen) \<and>
     (runnable reg ph m p g chosen \<longrightarrow> n = chosen \<and> rs' = rs)"
proof -
  define av where "av = available_names reg ph m p g"
  have a: "n \<in> set av \<longleftrightarrow> runnable reg ph m p g n" for n by (simp add: av_def available_names_iff runnable_def)
  consider "chosen \<in> set av" | "chosen \<notin> set av" "av = []" | "chosen \<notin> set av" "av \<noteq> []" by blast
  then show ?thesis
  proof cases
    case 3
    then obtain n where n: "best_name reg ph av = Inr n" using best_name_total by blast
    then have "runnable reg ph m p g n" "\<not> runnable reg ph m p g chosen" using best_name_in [of reg ph av n] a 3(1) by blast+
    with n 3 show ?thesis unfolding measured_choice_def Let_def av_def [symmetric] by simp
  qed (use a [symmetric] in \<open>simp_all add: measured_choice_def Let_def av_def [symmetric]\<close>)
qed

lemma pick_spec:
  assumes "registry_reachable reg" "registry_names reg ph \<noteq> []"
  shows "\<exists>n note. pick reg ph m p g = Inr (n, note) \<and> (runnable reg ph m p g n \<or> (\<forall>k. \<not> runnable reg ph m p g k))"
proof -
  have rs: "case resolve reg ph None m p g of Inr b \<Rightarrow> map_of reg (ph, be_name b) = Some b \<and> be_available b m p g = None
     | Inl e \<Rightarrow> e = RuntimeError \<and> (\<forall>c. map_of reg (ph, be_name c) = Some c \<longrightarrow> be_available c m p g \<noteq> None)"
    using resolve_auto [OF assms(1), of None ph m p g] by (auto simp: names_backend_def split: sum.splits)
  show ?thesis
  proof (cases "resolve reg ph None m p g")
    case (Inl e)
    then have "e = RuntimeError" "\<not> runnable reg ph m p g k" for k
      using rs registry_ok_get [OF registry_reachable_ok [OF assms(1)]] by (auto simp: runnable_def)
    moreover obtain n where "best_name reg ph (registry_names reg ph) = Inr n" using best_name_total [OF assms(2)] by blast
    ultimately show ?thesis using Inl by (intro exI [of _ n] exI [of _ True]) (simp add: pick_def)
  next
    case (Inr b)
    with rs show ?thesis by (auto simp: pick_def runnable_def)
  qed
qed

text \<open>
  Serving defaults never point at a kernel that cannot run while another could.
  For every machine, device and geometry \<open>defaults_for\<close> returns, over any registry that has
  a backend per phase; each phase's default can run unless nothing of that phase can, so
  the engine's own \<open>resolve\<close> of it succeeds; the verification backend can run or is
  \<open>"prefill"\<close>; and on a measured architecture the measured choice is kept whenever it can run.
\<close>

theorem defaults_can_run:
  assumes "registry_reachable reg" and "registry_names reg Decode \<noteq> []" and "registry_names reg Prefill \<noteq> []"
  shows "\<exists>d. defaults_for reg m p g = Inr d \<and>
    (runnable reg Decode m p g (decode_attention d) \<or> (\<forall>n. \<not> runnable reg Decode m p g n)) \<and>
    (runnable reg Prefill m p g (prefill_attention d) \<or> (\<forall>n. \<not> runnable reg Prefill m p g n)) \<and>
    (verify_attention d = ''prefill'' \<or> runnable reg Prefill m p g (verify_attention d)) \<and>
    (\<forall>dev e. p = Some dev \<and> MEASURED (sm dev) = Some e \<longrightarrow> dd_dtype d = me_dtype e \<and>
      (runnable reg Decode m p g (me_decode e) \<longrightarrow> decode_attention d = me_decode e) \<and>
      (runnable reg Prefill m p g (me_prefill e) \<longrightarrow> prefill_attention d = me_prefill e))"
proof -
  obtain v r where v: "verify_default p (set (available_names reg Prefill m p g)) = (v, r)" by fastforce
  have vr: "v = ''prefill'' \<or> runnable reg Prefill m p g v"
    using v by (auto simp: verify_default_def runnable_def available_names_iff split: if_splits)
  show ?thesis
  proof (cases "case p of None \<Rightarrow> None | Some d \<Rightarrow> MEASURED (sm d)")
    case (Some e)
    obtain d rs1 where d: "measured_choice reg Decode ''decode_attention'' (me_decode e) m p g (me_reasons e) = Inr (d, rs1)"
      "runnable reg Decode m p g d \<or> (\<forall>k. \<not> runnable reg Decode m p g k)" "runnable reg Decode m p g (me_decode e) \<longrightarrow> d = me_decode e"
      using measured_choice_spec by blast
    obtain f rs2 where f: "measured_choice reg Prefill ''prefill_attention'' (me_prefill e) m p g rs1 = Inr (f, rs2)"
      "runnable reg Prefill m p g f \<or> (\<forall>k. \<not> runnable reg Prefill m p g k)" "runnable reg Prefill m p g (me_prefill e) \<longrightarrow> f = me_prefill e"
      using measured_choice_spec by blast
    show ?thesis using Some v vr d f by (auto simp: defaults_for_def Let_def)
  next
    case None
    obtain d n1 where d: "pick reg Decode m p g = Inr (d, n1)" "runnable reg Decode m p g d \<or> (\<forall>k. \<not> runnable reg Decode m p g k)"
      using pick_spec [OF assms(1,2)] by blast
    obtain f n2 where f: "pick reg Prefill m p g = Inr (f, n2)" "runnable reg Prefill m p g f \<or> (\<forall>k. \<not> runnable reg Prefill m p g k)"
      using pick_spec [OF assms(1,3)] by blast
    show ?thesis using None v vr d f by (auto simp: defaults_for_def Let_def)
  qed
qed

section \<open>Split-K\<close>

lemma int_div_less: "(0 :: int) < b \<Longrightarrow> a div b < c \<Longrightarrow> a < c * b"
proof -
  assume b: "0 < b" and "a div b < c"
  then have "(a div b + 1) * b \<le> c * b" by (intro mult_right_mono) linarith+
  then have le: "a div b * b + b \<le> c * b" by (simp add: distrib_right)
  have eq: "a = a div b * b + a mod b" by simp
  have "a mod b < b" using b by simp
  with le eq show ?thesis by linarith
qed

lemma bitlen_power: "1 \<le> s \<Longrightarrow> 2 ^ (nat (bitlen s) - 1) \<le> s"
proof -
  assume "1 \<le> s"
  moreover have "nat (bitlen s) - 1 = nat (bitlen s - 1)" by simp
  ultimately show ?thesis using bitlen_bounds [of s] by simp
qed

text \<open>
  Split-K cuts are what its merge kernel can take. For positive rows, heads and
  length, a positive tile and a positive limit, the number of splits is a power of two, at
  most the limit, at most what fills the device (less than \<open>2 * SMs / programs + 1\<close>), and
  every slice has at least one full tile of keys unless the kernel is not split at all.
\<close>

theorem choose_splits_bounds:
  assumes "0 < rows" and "0 < heads" and "0 < max_len" and "0 < tile_n" and "0 < limit"
  shows "\<exists>k n. choose_splits rows heads max_len sms tile_n limit = Inr n \<and> n = 2 ^ k \<and> n \<le> limit \<and>
    (n = 1 \<or> n * tile_n \<le> max_len \<and> (n - 1) * (rows * heads) < 2 * sms)"
proof -
  let ?w = "max 1 (- ((- 2 * sms) div (rows * heads)))"
  let ?b = "max 1 (max_len div tile_n)"
  let ?s = "min (min ?w ?b) limit"
  have s: "1 \<le> ?s" using assms(5) by simp
  define k where "k = nat (bitlen ?s) - 1"
  have "choose_splits rows heads max_len sms tile_n limit = Inr (2 ^ k)"
  proof -
    have "0 < ?s" using s by linarith
    then show ?thesis using assms(1-4) unfolding choose_splits_def Let_def k_def by (simp only: if_True if_False not_le [symmetric]) simp
  qed
  moreover have "(2 :: int) ^ k \<le> ?s" unfolding k_def by (rule bitlen_power [OF s])
  moreover have "(2 :: int) ^ k * tile_n \<le> max_len \<and> (2 ^ k - 1) * (rows * heads) < 2 * sms" if "(2 :: int) ^ k \<noteq> 1"
  proof -
    have two: "2 \<le> (2 :: int) ^ k" using that by (cases k) simp_all
    with \<open>2 ^ k \<le> ?s\<close> have b: "2 ^ k \<le> max_len div tile_n" and w: "2 ^ k \<le> - ((- 2 * sms) div (rows * heads))" by linarith+
    have "2 ^ k * tile_n \<le> max_len div tile_n * tile_n" using b assms(4) by (simp add: mult_right_mono)
    also have "\<dots> \<le> max_len" using assms(4) by (simp add: minus_mod_eq_div_mult [symmetric])
    finally have l: "2 ^ k * tile_n \<le> max_len" .
    have pos: "0 < rows * heads" using assms by simp
    have "(- 2 * sms) div (rows * heads) < - (2 ^ k - 1)" using w by linarith
    then have "- 2 * sms < - (2 ^ k - 1) * (rows * heads)" using int_div_less [OF pos] by simp
    then show ?thesis using l by (simp add: algebra_simps)
  qed
  ultimately show ?thesis using \<open>2 ^ k \<le> ?s\<close> by (intro exI [of _ k] exI [of _ "2 ^ k"]) linarith
qed

end
