(* ===== verification/Metrics.thy ===== *)
theory Metrics
  imports Request "HOL-Library.Product_Lexorder" "HOL-Library.List_Lexorder" "HOL-Library.Char_ord"
begin

text \<open>
  What the server reports: \<open>engine/metrics/prometheus.py\<close> (counters, gauges, histograms
  and their text rendering, as a list of lines), \<open>engine/metrics/stats.py\<close> (percentiles)
  and the record of \<open>engine/metrics/metrics.py\<close>. Floats are exact reals and numbers are
  not formatted: a sample line holds its value.
\<close>

section \<open>Histograms\<close>

record histogram =
  buckets :: "real list"
  counts :: "nat list"
  total :: real
  observed :: nat

definition new_histogram :: "real list \<Rightarrow> histogram" where
  "new_histogram edges = \<lparr>buckets = edges, counts = replicate (length edges) 0, total = 0, observed = 0\<rparr>"

definition observe :: "real \<Rightarrow> histogram \<Rightarrow> histogram" where
  "observe v h = h\<lparr>total := total h + v, observed := observed h + 1,
     counts := map2 (\<lambda>edge c. if v \<le> edge then c + 1 else c) (buckets h) (counts h)\<rparr>"

datatype metric_line =
    HelpLine string string
  | TypeLine string string
  | SampleLine string real
  | BucketLine string "real option" nat

fun render_buckets :: "string \<Rightarrow> nat \<Rightarrow> (real \<times> nat) list \<Rightarrow> metric_line list" where
  "render_buckets name cumulative [] = []"
| "render_buckets name cumulative ((edge, c) # ecs) =
     BucketLine name (Some edge) (cumulative + c) # render_buckets name (cumulative + c) ecs"

definition render_histogram :: "string \<Rightarrow> string \<Rightarrow> histogram \<Rightarrow> metric_line list" where
  "render_histogram name help_text h =
     [HelpLine name help_text, TypeLine name ''histogram'']
     @ render_buckets name 0 (zip (buckets h) (counts h))
     @ [BucketLine name None (observed h), SampleLine (name @ ''_sum'') (total h), SampleLine (name @ ''_count'') (real (observed h))]"

definition LATENCY_BUCKETS :: "real list" where
  "LATENCY_BUCKETS = [0.005, 0.01, 0.025, 0.05, 0.1, 0.25, 0.5, 1, 2.5, 5, 10, 30, 60]"

definition TOKEN_BUCKETS :: "real list" where
  "TOKEN_BUCKETS = [1, 2, 5, 10, 20, 50, 100, 200, 500, 1000, 2000, 4096]"

section \<open>The server's metrics\<close>

record server_metrics =
  namespace :: string
  counters :: "(string \<times> real) list"
  gauges :: "(string \<times> real) list"
  histograms :: "(string \<times> histogram) list"
  help_texts :: "(string \<times> string) list"

definition server_metrics_init :: "string \<Rightarrow> server_metrics" where
  "server_metrics_init ns =
     \<lparr>namespace = ns, counters = [], gauges = [],
      histograms = [(''time_to_first_token_seconds'', new_histogram LATENCY_BUCKETS),
        (''inter_token_latency_seconds'', new_histogram LATENCY_BUCKETS),
        (''e2e_request_latency_seconds'', new_histogram LATENCY_BUCKETS),
        (''request_queue_time_seconds'', new_histogram LATENCY_BUCKETS),
        (''request_prompt_tokens'', new_histogram TOKEN_BUCKETS),
        (''request_generation_tokens'', new_histogram TOKEN_BUCKETS)],
      help_texts = [(''time_to_first_token_seconds'', ''Time from arrival to the first generated token.''),
        (''inter_token_latency_seconds'', ''Mean gap between generated tokens, per request.''),
        (''e2e_request_latency_seconds'', ''Arrival to final token, including queueing and stalls.''),
        (''request_queue_time_seconds'', ''Time spent waiting for admission, including after preemption.''),
        (''request_prompt_tokens'', ''Prompt length per request.''),
        (''request_generation_tokens'', ''Generated tokens per request.'')]\<rparr>"

fun comma_separated :: "string list \<Rightarrow> string" where
  "comma_separated [] = []"
| "comma_separated [s] = s"
| "comma_separated (s # t # ts) = s @ '','' @ comma_separated (t # ts)"

definition metric_labels :: "(string \<times> string) list \<Rightarrow> string" where
  "metric_labels labels =
     (if labels = [] then []
      else ''{'' @ comma_separated (map (\<lambda>(k, v). k @ ''='' @ [CHR 0x22] @ v @ [CHR 0x22]) (sort labels)) @ ''}'')"

definition metric_key :: "string \<Rightarrow> (string \<times> string) list \<Rightarrow> string" where
  "metric_key name labels = name @ metric_labels labels"

definition add_to :: "string \<Rightarrow> real \<Rightarrow> (string \<times> real) list \<Rightarrow> (string \<times> real) list" where
  "add_to key v cs = AList.update key ((case map_of cs key of None \<Rightarrow> 0 | Some c \<Rightarrow> c) + v) cs"

definition increment :: "string \<Rightarrow> real \<Rightarrow> (string \<times> string) list \<Rightarrow> server_metrics \<Rightarrow> server_metrics" where
  "increment name v labels m = m\<lparr>counters := add_to (metric_key name labels) v (counters m)\<rparr>"

definition set_gauge :: "string \<Rightarrow> real \<Rightarrow> (string \<times> string) list \<Rightarrow> server_metrics \<Rightarrow> server_metrics" where
  "set_gauge name v labels m = m\<lparr>gauges := AList.update (metric_key name labels) v (gauges m)\<rparr>"

definition observe_in :: "string \<Rightarrow> real \<Rightarrow> server_metrics \<Rightarrow> server_metrics" where
  "observe_in name v m = m\<lparr>histograms := AList.map_entry name (observe v) (histograms m)\<rparr>"

text \<open>\<open>if value: observe(value / 1000)\<close>: nothing is recorded for \<open>None\<close> or zero.\<close>

definition observe_ms :: "string \<Rightarrow> real option \<Rightarrow> server_metrics \<Rightarrow> server_metrics" where
  "observe_ms name v m = (case v of None \<Rightarrow> m | Some x \<Rightarrow> if x = 0 then m else observe_in name (x / 1000) m)"

definition or_zero :: "real option \<Rightarrow> real" where
  "or_zero v = (case v of None \<Rightarrow> 0 | Some x \<Rightarrow> x)"

definition end_to_end_ms :: "request \<Rightarrow> real" where
  "end_to_end_ms r = or_zero (total_queue_time_ms r) + or_zero (generation_time_ms r)"

definition request_counts :: "request \<Rightarrow> string \<Rightarrow> (string \<times> real) list" where
  "request_counts r outcome =
     [(''requests_total'' @ metric_labels [(''outcome'', outcome)], 1),
      (''prompt_tokens_total'', real_of_int (prompt_token_count r)),
      (''generation_tokens_total'', real (length (output_token_ids r))),
      (''preemptions_total'', real_of_int (preempted_count r)),
      (''recomputed_tokens_total'', real_of_int (recomputed_token_count r))]"

definition observe_request :: "request \<Rightarrow> string \<Rightarrow> server_metrics \<Rightarrow> server_metrics" where
  "observe_request r outcome m =
     (let report = latency_report_of r;
          m1 = m\<lparr>counters := fold (\<lambda>(k, v). add_to k v) (request_counts r outcome) (counters m)\<rparr>;
          m2 = observe_in ''request_prompt_tokens'' (real_of_int (prompt_token_count r)) m1;
          m3 = observe_in ''request_generation_tokens'' (real (length (output_token_ids r))) m2;
          m4 = observe_ms ''time_to_first_token_seconds'' (lr_ttft_ms report) m3;
          m5 = observe_ms ''inter_token_latency_seconds'' (lr_mean_itl_ms report) m4;
          m6 = observe_ms ''request_queue_time_seconds'' (lr_total_queue_ms report) m5 in
      observe_ms ''e2e_request_latency_seconds'' (Some (end_to_end_ms r)) m6)"

definition engine_gauges :: "(string \<times> string) list" where
  "engine_gauges =
     [(''requests_running'', ''active_requests''), (''requests_waiting'', ''waiting_requests''),
      (''decode_batch_size'', ''decode_batch''), (''decode_mean_context_tokens'', ''decode_mean_context''),
      (''kv_cache_utilization'', ''kv_utilization''), (''kv_blocks_used'', ''kv_blocks_used''),
      (''kv_blocks_total'', ''kv_blocks_total''), (''prefix_cache_blocks'', ''prefix_cache_blocks''),
      (''graph_captures_in_service'', ''lazy_graph_captures'')]"

text \<open>\<open>stats\<close> maps a key to \<open>None\<close> when the engine reports no value for it.\<close>

definition observe_engine :: "(string \<rightharpoonup> real option) \<Rightarrow> server_metrics \<Rightarrow> server_metrics" where
  "observe_engine stats m = m\<lparr>gauges := fold (\<lambda>(metric, key) gs.
     case stats key of Some (Some v) \<Rightarrow> AList.update metric v gs | _ \<Rightarrow> gs) engine_gauges (gauges m)\<rparr>"

definition render_series :: "string \<Rightarrow> string \<Rightarrow> (string \<times> real) list \<Rightarrow> metric_line list" where
  "render_series ns kind series =
     concat (map (\<lambda>key. let name = takeWhile (\<lambda>c. c \<noteq> CHR ''{'') key; labels = dropWhile (\<lambda>c. c \<noteq> CHR ''{'') key in
       [TypeLine (ns @ ''_'' @ name) kind, SampleLine (ns @ ''_'' @ name @ labels) (the (map_of series key))]) (sort (map fst series)))"

definition render_metrics :: "server_metrics \<Rightarrow> metric_line list" where
  "render_metrics m =
     render_series (namespace m) ''counter'' (counters m) @ render_series (namespace m) ''gauge'' (gauges m)
     @ concat (map (\<lambda>(name, h). render_histogram (namespace m @ ''_'' @ name)
         (case map_of (help_texts m) name of None \<Rightarrow> name | Some t \<Rightarrow> t) h) (histograms m))"

section \<open>Sample statistics\<close>

definition percentile :: "real list \<Rightarrow> real \<Rightarrow> real result" where
  "percentile samples percent =
     (if samples = [] then Inl ValueError
      else if \<not> (0 \<le> percent \<and> percent \<le> 100) then Inl ValueError
      else let ordered = sort samples; position = real (length ordered - 1) * (percent / 100);
               lower = nat \<lfloor>position\<rfloor>; upper = min (lower + 1) (length ordered - 1) in
        Inr (ordered ! lower + (ordered ! upper - ordered ! lower) * (position - real lower)))"

record latency_summary =
  su_mean :: real
  su_p50 :: real
  su_p95 :: real
  su_p99 :: real
  su_min :: real
  su_max :: real

definition latency_summary_ms :: "real list \<Rightarrow> latency_summary result" where
  "latency_summary_ms samples =
     (if samples = [] then Inl ValueError
      else and_then (percentile samples 50) (\<lambda>p50. and_then (percentile samples 95) (\<lambda>p95. and_then (percentile samples 99) (\<lambda>p99.
        Inr \<lparr>su_mean = sum_list samples / real (length samples), su_p50 = p50, su_p95 = p95, su_p99 = p99,
             su_min = fold min (tl samples) (hd samples), su_max = fold max (tl samples) (hd samples)\<rparr>))))"

record generation_metrics =
  gm_tokenization_ms :: real
  gm_prefill_ms :: real
  gm_first_token_ms :: real
  gm_ttft_ms :: real
  gm_decode_ms :: "real list"
  gm_total_ms :: real
  gm_peak_allocated :: int
  gm_peak_reserved :: int

definition mean_decode_ms :: "generation_metrics \<Rightarrow> real" where
  "mean_decode_ms m = (if gm_decode_ms m \<noteq> [] then sum_list (gm_decode_ms m) / real (length (gm_decode_ms m)) else 0)"

section \<open>Properties\<close>

lemma percentile_position:
  assumes "samples \<noteq> []" "0 \<le> percent" "percent \<le> 100"
  defines "n \<equiv> length samples - 1" and "pos \<equiv> real (length samples - 1) * (percent / 100)"
  shows "0 \<le> pos" "pos \<le> real n" "nat \<lfloor>pos\<rfloor> \<le> n" "real (nat \<lfloor>pos\<rfloor>) \<le> pos" "pos < real (nat \<lfloor>pos\<rfloor>) + 1"
proof -
  show "0 \<le> pos" using assms by (simp add: pos_def)
  have "real n * (percent / 100) \<le> real n * 1" using assms by (intro mult_left_mono) auto
  then show le: "pos \<le> real n" by (simp add: pos_def n_def)
  have f: "0 \<le> \<lfloor>pos\<rfloor>" using \<open>0 \<le> pos\<close> by simp
  then have r: "real (nat \<lfloor>pos\<rfloor>) = of_int \<lfloor>pos\<rfloor>" by simp
  show "real (nat \<lfloor>pos\<rfloor>) \<le> pos" "pos < real (nat \<lfloor>pos\<rfloor>) + 1" unfolding r by linarith+
  then show "nat \<lfloor>pos\<rfloor> \<le> n" using le by linarith
qed

text \<open>
  Percentiles are sound. For any samples and any percent in range the percentile is
  returned, lies between the two neighbouring order statistics, is the minimum at 0 and the
  maximum at 100; outside the range, and for no samples, it raises.
\<close>

theorem percentile_between_neighbours:
  "(samples \<noteq> [] \<and> 0 \<le> percent \<and> percent \<le> 100 \<longrightarrow> (\<exists>v i. percentile samples percent = Inr v \<and> i < length samples \<and>
      sort samples ! i \<le> v \<and> v \<le> sort samples ! min (i + 1) (length samples - 1) \<and> Min (set samples) \<le> v \<and> v \<le> Max (set samples) \<and>
      (percent = 0 \<longrightarrow> v = Min (set samples)) \<and> (percent = 100 \<longrightarrow> v = Max (set samples)))) \<and>
   (samples = [] \<or> \<not> (0 \<le> percent \<and> percent \<le> 100) \<longrightarrow> percentile samples percent = Inl ValueError)"
proof (intro conjI impI)
  assume a: "samples \<noteq> [] \<and> 0 \<le> percent \<and> percent \<le> 100"
  let ?o = "sort samples" and ?n = "length samples - 1"
  define pos where "pos = real ?n * (percent / 100)"
  define i where "i = nat \<lfloor>pos\<rfloor>"
  define j where "j = min (i + 1) ?n"
  have p: "0 \<le> pos" "pos \<le> real ?n" "i \<le> ?n" "real i \<le> pos" "pos < real i + 1"
    using percentile_position [of samples percent] a by (simp_all add: pos_def i_def)
  have len: "i < length samples" "j < length samples" using a p by (auto simp: j_def less_eq_Suc_le [symmetric] intro: le_less_trans)
  define v where "v = ?o ! i + (?o ! j - ?o ! i) * (pos - real i)"
  have run: "percentile samples percent = Inr v"
    using a by (simp add: percentile_def Let_def v_def i_def j_def pos_def)
  have "i \<le> j" using p by (simp add: j_def)
  then have o: "?o ! i \<le> ?o ! j" using len by (intro sorted_nth_mono) simp_all
  have w: "0 \<le> pos - real i" "pos - real i \<le> 1" using p by simp_all
  have lo: "?o ! i \<le> v" using o w by (simp add: v_def)
  have hi: "v \<le> ?o ! j"
  proof -
    have "(?o ! j - ?o ! i) * (pos - real i) \<le> (?o ! j - ?o ! i) * 1" using o w by (intro mult_left_mono) auto
    then show ?thesis by (simp add: v_def)
  qed
  have "?o ! i \<in> set ?o" "?o ! j \<in> set ?o" using len by (simp_all only: nth_mem length_sort)
  then have mem: "?o ! i \<in> set samples" "?o ! j \<in> set samples" by simp_all
  have ends: "?o ! 0 = Min (set samples)" "?o ! ?n = Max (set samples)"
  proof -
    have ne: "samples \<noteq> []" using a by simp
    have all: "?o ! 0 \<le> x \<and> x \<le> ?o ! ?n" if "x \<in> set samples" for x
    proof -
      have "x \<in> set ?o" using that by simp
      then obtain k where k: "k < length ?o" "x = ?o ! k" by (auto simp only: in_set_conv_nth)
      have "?o ! 0 \<le> ?o ! k" by (rule sorted_nth_mono) (use k in simp_all)
      moreover have "?o ! k \<le> ?o ! ?n" by (rule sorted_nth_mono) (use k in auto)
      ultimately show ?thesis using k(2) by simp
    qed
    have "0 < length ?o" "?n < length ?o" using ne by simp_all
    then have "?o ! 0 \<in> set ?o" "?o ! ?n \<in> set ?o" by (simp_all only: nth_mem)
    then have in0: "?o ! 0 \<in> set samples" "?o ! ?n \<in> set samples" by simp_all
    show "?o ! 0 = Min (set samples)" using all in0 by (intro Min_eqI [symmetric]) auto
    show "?o ! ?n = Max (set samples)" using all in0 by (intro Max_eqI [symmetric]) auto
  qed
  have "percent = 0 \<longrightarrow> v = Min (set samples)" using ends(1) by (simp add: v_def i_def pos_def)
  moreover have "percent = 100 \<longrightarrow> v = Max (set samples)" using ends(2) by (simp add: v_def i_def pos_def)
  moreover have "Min (set samples) \<le> v" using lo mem(1) by (meson List.finite_set Min_le order_trans)
  moreover have "v \<le> Max (set samples)" using hi mem(2) by (meson List.finite_set Max_ge order_trans)
  ultimately show "\<exists>v i. percentile samples percent = Inr v \<and> i < length samples \<and>
      ?o ! i \<le> v \<and> v \<le> ?o ! min (i + 1) (length samples - 1) \<and> Min (set samples) \<le> v \<and> v \<le> Max (set samples) \<and>
      (percent = 0 \<longrightarrow> v = Min (set samples)) \<and> (percent = 100 \<longrightarrow> v = Max (set samples))"
    using run lo hi len unfolding j_def by blast
qed (auto simp: percentile_def)

lemma observe_fields [simp]:
  "buckets (observe v h) = buckets h" "observed (observe v h) = observed h + 1" "total (observe v h) = total h + v"
  by (simp_all add: observe_def)

definition histogram_of :: "real list \<Rightarrow> real list \<Rightarrow> histogram" where
  "histogram_of edges vs = fold observe vs (new_histogram edges)"

lemma histogram_of_spec:
  "buckets (histogram_of edges vs) = edges \<and> observed (histogram_of edges vs) = length vs \<and> total (histogram_of edges vs) = sum_list vs \<and>
   counts (histogram_of edges vs) = map (\<lambda>e. length (filter (\<lambda>v. v \<le> e) vs)) edges"
proof (induction vs rule: rev_induct)
  case Nil
  then show ?case by (simp add: histogram_of_def new_histogram_def map_replicate_const)
next
  case (snoc v vs)
  then show ?case by (simp add: histogram_of_def observe_def map2_map_map [of _ "\<lambda>e. e", simplified] if_distrib)
qed

lemma render_buckets_sums:
  "render_buckets name c ecs = map (\<lambda>i. BucketLine name (Some (fst (ecs ! i))) (c + (\<Sum>j\<le>i. snd (ecs ! j)))) [0..<length ecs]"
proof (induction name c ecs rule: render_buckets.induct)
  case (2 name c edge k ecs)
  have "(\<Sum>j\<le>Suc i. snd (((edge, k) # ecs) ! j)) = k + (\<Sum>j\<le>i. snd (ecs ! j))" for i
    by (subst sum.atMost_Suc_shift) simp
  with 2 show ?case by (simp add: upt_conv_Cons map_Suc_upt [symmetric] del: upt_Suc sum.atMost_Suc)
qed simp

text \<open>
  C33: the rendered histogram is cumulated twice. After any observations the line of bucket
  \<open>i\<close> carries the sum over all buckets up to \<open>i\<close> of the number of observations at or below
  that bucket's edge, not the number of observations at or below edge \<open>i\<close>; one observation
  at or below the first of several edges makes every later bucket exceed the \<open>_count\<close> of 1.
\<close>

theorem histogram_cumulates_twice:
  "render_buckets name 0 (zip (buckets (histogram_of edges vs)) (counts (histogram_of edges vs)))
     = map (\<lambda>i. BucketLine name (Some (edges ! i)) (\<Sum>j\<le>i. length (filter (\<lambda>v. v \<le> edges ! j) vs))) [0..<length edges] \<and>
   (sorted edges \<and> vs = [v] \<and> i < length edges \<and> v \<le> edges ! 0 \<longrightarrow>
     (\<Sum>j\<le>i. length (filter (\<lambda>v. v \<le> edges ! j) vs)) = i + 1 \<and> observed (histogram_of edges vs) = 1)"
proof (intro conjI impI)
  show "render_buckets name 0 (zip (buckets (histogram_of edges vs)) (counts (histogram_of edges vs)))
     = map (\<lambda>i. BucketLine name (Some (edges ! i)) (\<Sum>j\<le>i. length (filter (\<lambda>v. v \<le> edges ! j) vs))) [0..<length edges]"
    unfolding render_buckets_sums using histogram_of_spec [of edges vs] by (auto intro!: sum.cong)
next
  assume a: "sorted edges \<and> vs = [v] \<and> i < length edges \<and> v \<le> edges ! 0"
  then have "v \<le> edges ! j" if "j \<le> i" for j using that sorted_nth_mono [of edges 0 j] by (auto intro: order_trans)
  then have "(\<Sum>j\<le>i. length (filter (\<lambda>v. v \<le> edges ! j) vs)) = (\<Sum>j\<le>i. 1)" using a by (intro sum.cong) auto
  then show "(\<Sum>j\<le>i. length (filter (\<lambda>v. v \<le> edges ! j) vs)) = i + 1" by simp
  show "observed (histogram_of edges vs) = 1" using histogram_of_spec [of edges vs] a by simp
qed

theorem histogram_cumulates_twice_witness:
  "(\<Sum>j\<le>11. length (filter (\<lambda>v. v \<le> TOKEN_BUCKETS ! j) [1])) = 12 \<and> observed (histogram_of TOKEN_BUCKETS [1]) = 1"
  using histogram_cumulates_twice [of "''h''" TOKEN_BUCKETS "[1]" 1 11] by (simp add: TOKEN_BUCKETS_def)

text \<open>What one finished request adds to the end-to-end histogram.\<close>

lemma map_of_observe_in [simp]:
  "map_of (histograms (observe_in name v m)) key =
     (if key = name then map_option (observe v) (map_of (histograms m) key) else map_of (histograms m) key)"
  by (simp add: observe_in_def AList.map_of_map_entry split: option.split)

lemma map_of_observe_ms [simp]:
  "map_of (histograms (observe_ms name v m)) key =
     (if key = name \<and> v \<noteq> None \<and> v \<noteq> Some 0 then map_option (observe (the v / 1000)) (map_of (histograms m) key)
      else map_of (histograms m) key)"
  by (simp add: observe_ms_def split: option.split)

lemma observe_request_e2e:
  "map_of (histograms (observe_request r outcome m)) ''e2e_request_latency_seconds'' =
     (if end_to_end_ms r = 0 then id else map_option (observe (end_to_end_ms r / 1000)))
       (map_of (histograms m) ''e2e_request_latency_seconds'')"
  by (simp add: observe_request_def Let_def)

lemma observe_requests_e2e:
  assumes "map_of (histograms m) ''e2e_request_latency_seconds'' = Some (histogram_of LATENCY_BUCKETS vs)"
  shows "map_of (histograms (fold (\<lambda>(r, outcome). observe_request r outcome) rs m)) ''e2e_request_latency_seconds'' =
    Some (histogram_of LATENCY_BUCKETS (vs @ filter (\<lambda>v. v \<noteq> 0) (map (\<lambda>(r, _). end_to_end_ms r / 1000) rs)))"
  using assms
proof (induction rs arbitrary: m vs)
  case (Cons p rs)
  obtain r outcome where p: "p = (r, outcome)" by (cases p)
  let ?v = "end_to_end_ms r / 1000"
  have "map_of (histograms (observe_request r outcome m)) ''e2e_request_latency_seconds'' =
    Some (histogram_of LATENCY_BUCKETS (vs @ (if ?v = 0 then [] else [?v])))"
    using Cons.prems by (simp add: observe_request_e2e histogram_of_def)
  from Cons.IH [OF this] show ?case by (simp add: p)
qed simp

text \<open>The seconds that are recorded for a request that was admitted and produced tokens.\<close>

definition recorded_seconds :: "request \<Rightarrow> real" where
  "recorded_seconds r = real_of_int ((the (last_token_ns r) - created_ns r) - (the (first_token_ns r) - the (admitted_ns r))
     + preempted_wait_ns r) / 10 ^ 9"

definition timed :: "request \<Rightarrow> bool" where
  "timed r \<longleftrightarrow> admitted_ns r \<noteq> None \<and> first_token_ns r \<noteq> None \<and> last_token_ns r \<noteq> None"

lemma end_to_end_recorded:
  assumes "timed r"
  shows "end_to_end_ms r / 1000 = recorded_seconds r"
  using assms by (auto simp: timed_def end_to_end_ms_def or_zero_def total_queue_time_ms_def queue_time_ms_def generation_time_ms_def
    preempted_wait_time_ms_def recorded_seconds_def field_simps)

text \<open>
  C34: the end-to-end histogram leaves out the prefill. After the server has recorded any
  finished requests that were admitted and produced tokens, the histogram documented as
  "Arrival to final token, including queueing and stalls" holds one sample for each request,
  zeros skipped: the time from arrival to the last token, less the time between admission and
  the first token, plus its preemption waits (those after the first token are in the
  generation time already and count twice). Its sum is the sum of these and each bucket
  counts those at or below its edge; so for requests that were never preempted and spent time
  between admission and first token, the sum is below the sum of the true latencies.
\<close>

theorem end_to_end_omits_prefill:
  assumes "\<forall>(r, _) \<in> set rs. timed r"
  shows "\<exists>h. map_of (histograms (fold (\<lambda>(r, outcome). observe_request r outcome) rs (server_metrics_init ns)))
        ''e2e_request_latency_seconds'' = Some h \<and>
      total h = (\<Sum>(r, _) \<leftarrow> rs. real_of_int ((the (last_token_ns r) - created_ns r)
        - (the (first_token_ns r) - the (admitted_ns r)) + preempted_wait_ns r) / 10 ^ 9) \<and>
      observed h = length (filter (\<lambda>(r, _). recorded_seconds r \<noteq> 0) rs) \<and>
      counts h = map (\<lambda>edge. length (filter (\<lambda>(r, _). recorded_seconds r \<noteq> 0 \<and> recorded_seconds r \<le> edge) rs)) LATENCY_BUCKETS \<and>
      ((\<forall>(r, _) \<in> set rs. preempted_wait_ns r = 0 \<and> the (admitted_ns r) < the (first_token_ns r)) \<and> rs \<noteq> [] \<longrightarrow>
        total h < (\<Sum>(r, _) \<leftarrow> rs. real_of_int (the (last_token_ns r) - created_ns r) / 10 ^ 9))"
proof -
  let ?h = "histogram_of LATENCY_BUCKETS (filter (\<lambda>v. v \<noteq> 0) (map (\<lambda>(r, _). end_to_end_ms r / 1000) rs))"
  have vals: "map (\<lambda>(r, _). end_to_end_ms r / 1000) rs = map (\<lambda>(r, _). recorded_seconds r) rs"
    using assms end_to_end_recorded by (fastforce intro: map_cong)
  have "map_of (histograms (server_metrics_init ns)) ''e2e_request_latency_seconds'' = Some (histogram_of LATENCY_BUCKETS [])"
    by (simp add: server_metrics_init_def histogram_of_def)
  note at = observe_requests_e2e [OF this, of rs, simplified append_Nil]
  have nz: "sum_list (filter (\<lambda>v. v \<noteq> 0) vs) = sum_list vs" for vs :: "real list" by (induction vs) auto
  have tot: "total ?h = (\<Sum>(r, _) \<leftarrow> rs. recorded_seconds r)"
  proof -
    have "total ?h = sum_list (filter (\<lambda>v. v \<noteq> 0) (map (\<lambda>(r, _). end_to_end_ms r / 1000) rs))"
      using histogram_of_spec [of LATENCY_BUCKETS] by blast
    then show ?thesis unfolding nz vals .
  qed
  have spec: "observed ?h = length (filter (\<lambda>v. v \<noteq> 0) (map (\<lambda>(r, _). end_to_end_ms r / 1000) rs))"
    "counts ?h = map (\<lambda>e. length (filter (\<lambda>v. v \<le> e) (filter (\<lambda>v. v \<noteq> 0) (map (\<lambda>(r, _). end_to_end_ms r / 1000) rs)))) LATENCY_BUCKETS"
    using histogram_of_spec [of LATENCY_BUCKETS] by blast+
  have obs: "observed ?h = length (filter (\<lambda>(r, _). recorded_seconds r \<noteq> 0) rs)"
    using spec(1) unfolding vals by (simp add: filter_map comp_def case_prod_unfold)
  have cnt: "counts ?h = map (\<lambda>edge. length (filter (\<lambda>(r, _). recorded_seconds r \<noteq> 0 \<and> recorded_seconds r \<le> edge) rs)) LATENCY_BUCKETS"
    using spec(2) unfolding vals by (simp add: filter_map comp_def case_prod_unfold)
  have less: "total ?h < (\<Sum>(r, _) \<leftarrow> rs. real_of_int (the (last_token_ns r) - created_ns r) / 10 ^ 9)"
    if "\<forall>(r, _) \<in> set rs. preempted_wait_ns r = 0 \<and> the (admitted_ns r) < the (first_token_ns r)" "rs \<noteq> []"
    unfolding tot using that
    by (intro sum_list_strict_mono) (auto simp: recorded_seconds_def divide_strict_right_mono)
  show ?thesis
    using at tot obs cnt less unfolding recorded_seconds_def by blast
qed

definition slow_request :: request where
  "slow_request = (new_request ''a'' 1 2 [1] GREEDY 0)\<lparr>admitted_ns := Some 1000000000, first_token_ns := Some 8000000000,
     last_token_ns := Some 9000000000\<rparr>"

theorem end_to_end_omits_prefill_witness:
  "\<exists>h. map_of (histograms (observe_request slow_request ''FINISHED'' (server_metrics_init ''e''))) ''e2e_request_latency_seconds'' = Some h \<and>
     total h = 2 \<and> total h < real_of_int (the (last_token_ns slow_request) - created_ns slow_request) / 10 ^ 9"
proof -
  have "\<forall>(r, _) \<in> set [(slow_request, ''FINISHED'')]. timed r" by (simp add: slow_request_def timed_def)
  from end_to_end_omits_prefill [OF this, of "''e''"] obtain h where
    "map_of (histograms (observe_request slow_request ''FINISHED'' (server_metrics_init ''e''))) ''e2e_request_latency_seconds'' = Some h"
    "total h = real_of_int ((the (last_token_ns slow_request) - created_ns slow_request)
        - (the (first_token_ns slow_request) - the (admitted_ns slow_request)) + preempted_wait_ns slow_request) / 10 ^ 9"
    by auto
  then show ?thesis by (intro exI [of _ h]) (simp add: slow_request_def new_request_def)
qed

end
