(* ===== verification/Server_Api.thy ===== *)
theory Server_Api
  imports Request "HOL-Library.Sublist"
begin

text \<open>
  The HTTP surface: the native routes of \<open>engine/server/api.py\<close> and the OpenAI-compatible
  translation layer of \<open>engine/server/openai.py\<close>. A response is its status or its body; an
  \<open>HTTPException\<close> is the status. The tokenizer is a parameter (\<open>encode\<close>, \<open>decode\<close>), and a
  handler that polls its handle is a function of the sequence of observations it makes.
  FastAPI routing, JSON encoding, the demo page and model loading are not modelled.
\<close>

section \<open>Handles as a handler sees them\<close>

datatype handle_error = ShutdownError | OtherError

record handle_view =
  hv_completed :: bool
  hv_request :: request
  hv_error :: "handle_error option"

type_synonym 'a response = "int + 'a"

section \<open>The native routes\<close>

record generate_request =
  gr_prompt :: string
  gr_max_new_tokens :: int

definition generate_request_ok :: "generate_request \<Rightarrow> bool" where
  "generate_request_ok p \<longleftrightarrow> gr_prompt p \<noteq> [] \<and> 1 \<le> gr_max_new_tokens p \<and> gr_max_new_tokens p \<le> 4096"

definition TERMINAL_STATUS :: "request_state \<times> string option \<Rightarrow> int option" where
  "TERMINAL_STATUS =
     [(REJECTED, Some ''QUEUE_FULL'') \<mapsto> 429, (REJECTED, Some ''KV_CAPACITY_EXCEEDED'') \<mapsto> 413,
      (FAILED, Some ''KV_POOL_EXHAUSTED'') \<mapsto> 503, (CANCELLED, Some ''TIMEOUT'') \<mapsto> 504,
      (CANCELLED, Some ''SERVER_SHUTDOWN'') \<mapsto> 503, (CANCELLED, Some ''CLIENT_DISCONNECTED'') \<mapsto> 499]"

definition terminal_status :: "handle_view \<Rightarrow> int option" where
  "terminal_status h =
     (let r = hv_request h in
      if req_done r then
        if state r = FINISHED then None
        else case TERMINAL_STATUS (state r, finish_reason r) of
            Some s \<Rightarrow> Some s
          | None \<Rightarrow> if state r = REJECTED then Some 429 else if state r = CANCELLED then Some 499 else Some 500
      else case hv_error h of
          None \<Rightarrow> None
        | Some e \<Rightarrow> if e = ShutdownError then Some 503 else Some 500)"

record app_config =
  ac_max_active :: int
  ac_num_blocks :: int
  ac_block_size :: int
  ac_max_pending :: int
  ac_max_prompt_tokens :: int
  ac_speculation_depth :: int
  ac_draft_model :: "string option"
  ac_speculative_ngram :: bool
  ac_target_device :: string
  ac_draft_device :: string
  ac_request_timeout :: real
  ac_drain_timeout :: real

definition check_app :: "app_config \<Rightarrow> unit result" where
  "check_app c =
     (if fold min [ac_num_blocks c, ac_block_size c, ac_max_pending c, ac_max_prompt_tokens c, ac_speculation_depth c]
           (ac_max_active c) \<le> 0 then Inl ValueError
      else if ac_draft_model c \<noteq> None \<and> ac_speculative_ngram c then Inl ValueError
      else if ac_draft_model c \<noteq> None \<and> ac_target_device c = ac_draft_device c then Inl ValueError
      else if ac_request_timeout c \<le> 0 \<or> ac_drain_timeout c < 0 then Inl ValueError
      else Inr ())"

definition graph_buckets_for :: "int \<Rightarrow> int list \<Rightarrow> int list option" where
  "graph_buckets_for max_active buckets =
     (let kept = filter (\<lambda>s. s \<le> max_active) buckets in if kept = [] then None else Some kept)"

text \<open>
  The checks of \<open>submit\<close> before the service is asked. \<open>ready\<close> is \<open>None\<close> while the model is
  loading. \<open>service_submit\<close> is the service's own answer: a status hint or a handle.
\<close>

definition native_submit ::
  "bool option \<Rightarrow> (string \<Rightarrow> int list) \<Rightarrow> int \<Rightarrow> int option \<Rightarrow> (int list \<Rightarrow> int \<Rightarrow> 'h response) \<Rightarrow> generate_request \<Rightarrow> 'h response" where
  "native_submit ready encode max_prompt max_model_len service_submit p =
     (if ready \<noteq> Some True then Inl 503
      else let toks = encode (gr_prompt p) in
        if int (length toks) > max_prompt then Inl 413
        else if (case max_model_len of None \<Rightarrow> False | Some m \<Rightarrow> int (length toks) + gr_max_new_tokens p > m) then Inl 400
        else service_submit toks (gr_max_new_tokens p))"

record generate_body =
  gb_request_id :: string
  gb_text :: string
  gb_token_ids :: "int list"
  gb_finish_reason :: "string option"
  gb_latency :: latency_report
  gb_recompute :: recompute_overhead

definition failure_response :: "handle_view \<Rightarrow> int option" where
  "failure_response h = terminal_status h"

text \<open>\<open>POST /generate\<close> once submitted: \<open>in_time\<close> tells whether the handle completed before the deadline.\<close>

definition generate_response ::
  "(int list \<Rightarrow> string) \<Rightarrow> bool \<Rightarrow> handle_view \<Rightarrow> string option \<times> generate_body response" where
  "generate_response decode in_time h =
     (if \<not> in_time then (Some ''TIMEOUT'', Inl 504)
      else case failure_response h of
        Some s \<Rightarrow> (None, Inl s)
      | None \<Rightarrow> let r = hv_request h in
          (None, Inr \<lparr>gb_request_id = request_id r, gb_text = decode (output_token_ids r), gb_token_ids = output_token_ids r,
             gb_finish_reason = finish_reason r, gb_latency = latency_report_of r, gb_recompute = recompute_overhead_of r\<rparr>))"

datatype native_event = TokenEvent int string nat | NativeError "string option" int | NativeFinish "string option" | DeadlineEvent

definition token_events :: "(int list \<Rightarrow> string) \<Rightarrow> nat \<Rightarrow> int list \<Rightarrow> native_event list" where
  "token_events decode sent toks = map (\<lambda>i. TokenEvent (toks ! i) (decode [toks ! i]) i) [sent..<length toks]"

text \<open>
  \<open>POST /generate/stream\<close> after admission. Each observation is whether the client has gone,
  whether the deadline has passed, and the handle; the result is the events sent and the
  cancellations queued, with the one of the \<open>finally\<close> clause. The loop condition reads
  \<open>completed\<close> first; an exhausted list is a handler that is still waiting.
\<close>

fun native_stream ::
  "(int list \<Rightarrow> string) \<Rightarrow> nat \<Rightarrow> (bool \<times> bool \<times> handle_view) list \<Rightarrow> native_event list \<times> string list" where
  "native_stream decode sent [] = ([], [])"
| "native_stream decode sent ((gone, late, h) # polls) =
     (let toks = output_token_ids (hv_request h); reason = finish_reason (hv_request h) in
      if hv_completed h then
        case terminal_status h of
          Some s \<Rightarrow> ([NativeError reason s], [])
        | None \<Rightarrow> (token_events decode sent toks @ [NativeFinish reason], [])
      else if gone then ([], [''CLIENT_DISCONNECTED''])
      else if late then ([DeadlineEvent], [''TIMEOUT'', ''CLIENT_DISCONNECTED''])
      else let (evs, cs) = native_stream decode (max sent (length toks)) polls in (token_events decode sent toks @ evs, cs))"

section \<open>The OpenAI translation\<close>

datatype stop_field = NoStop | OneStop string | StopList "string list"

record sampling_fields =
  sf_max_tokens :: "int option"
  sf_temperature :: real
  sf_top_p :: real
  sf_top_k :: int
  sf_min_p :: real
  sf_presence_penalty :: real
  sf_frequency_penalty :: real
  sf_repetition_penalty :: real
  sf_seed :: "int option"
  sf_stop :: stop_field
  sf_stop_token_ids :: "int list option"
  sf_ignore_eos :: bool
  sf_stream :: bool
  sf_include_usage :: bool
  sf_n :: int
  sf_echo :: bool
  sf_best_of :: "int option"
  sf_logit_bias :: bool

text \<open>The field constraints (\<open>ge\<close>, \<open>le\<close>, \<open>gt\<close>) that are checked before a handler runs.\<close>

definition fields_ok :: "sampling_fields \<Rightarrow> bool" where
  "fields_ok f \<longleftrightarrow>
     (case sf_max_tokens f of None \<Rightarrow> True | Some n \<Rightarrow> 1 \<le> n \<and> n \<le> 8192) \<and>
     0 \<le> sf_temperature f \<and> sf_temperature f \<le> 2 \<and> 0 < sf_top_p f \<and> sf_top_p f \<le> 1 \<and> 0 \<le> sf_top_k f \<and>
     0 \<le> sf_min_p f \<and> sf_min_p f \<le> 1 \<and> - 2 \<le> sf_presence_penalty f \<and> sf_presence_penalty f \<le> 2 \<and>
     - 2 \<le> sf_frequency_penalty f \<and> sf_frequency_penalty f \<le> 2 \<and> 0 < sf_repetition_penalty f \<and> sf_repetition_penalty f \<le> 2 \<and>
     (case sf_seed f of None \<Rightarrow> True | Some s \<Rightarrow> 0 \<le> s)"

definition optional_count_ok :: "int option \<Rightarrow> bool" where
  "optional_count_ok v = (case v of None \<Rightarrow> True | Some n \<Rightarrow> 0 \<le> n \<and> n \<le> 20)"

datatype prompt_field = OnePrompt string | PromptList "string list"

record completion_request =
  cr_fields :: sampling_fields
  cr_prompt :: prompt_field
  cr_logprobs :: "int option"

record chat_request =
  ch_fields :: sampling_fields
  ch_messages :: "(string \<times> string) list"
  ch_logprobs :: bool
  ch_top_logprobs :: "int option"

definition chat_request_ok :: "chat_request \<Rightarrow> bool" where
  "chat_request_ok p \<longleftrightarrow> fields_ok (ch_fields p) \<and> ch_messages p \<noteq> [] \<and> optional_count_ok (ch_top_logprobs p) \<and>
     (\<forall>m \<in> set (ch_messages p). fst m \<in> {''system'', ''user'', ''assistant'', ''tool''})"

definition unsupported :: "sampling_fields \<Rightarrow> bool" where
  "unsupported f \<longleftrightarrow> sf_n f \<noteq> 1 \<or> sf_echo f \<or> sf_best_of f \<notin> {None, Some 1} \<or> sf_logit_bias f"

definition sampling_from :: "sampling_fields \<Rightarrow> int option \<Rightarrow> sampling_params result" where
  "sampling_from f logprobs = validate_sampling
     \<lparr>temperature = sf_temperature f, top_p = sf_top_p f, top_k = sf_top_k f, min_p = sf_min_p f,
      repetition_penalty = sf_repetition_penalty f, presence_penalty = sf_presence_penalty f,
      frequency_penalty = sf_frequency_penalty f, penalize_prompt = False, seed = sf_seed f,
      stop_token_ids = set (case sf_stop_token_ids f of None \<Rightarrow> [] | Some ts \<Rightarrow> ts), ignore_eos = sf_ignore_eos f,
      sp_logprobs = logprobs\<rparr>"

definition stop_strings :: "sampling_fields \<Rightarrow> string list" where
  "stop_strings f = (case sf_stop f of NoStop \<Rightarrow> [] | OneStop s \<Rightarrow> [s] | StopList ss \<Rightarrow> ss)"

definition openai_finish_reason :: "handle_view \<Rightarrow> string" where
  "openai_finish_reason h = (if finish_reason (hv_request h) = Some ''LENGTH'' then ''length'' else ''stop'')"

text \<open>\<open>text.find(stop)\<close>: the first position where \<open>stop\<close> occurs.\<close>

fun text_find :: "string \<Rightarrow> string \<Rightarrow> nat option" where
  "text_find stop [] = (if stop = [] then Some 0 else None)"
| "text_find stop (c # cs) = (if prefix stop (c # cs) then Some 0 else map_option Suc (text_find stop cs))"

fun earliest_stop :: "string \<Rightarrow> string list \<Rightarrow> nat option \<Rightarrow> nat option" where
  "earliest_stop body [] best = best"
| "earliest_stop body (stop # stops) best =
     (if stop = [] then earliest_stop body stops best
      else case text_find stop body of
        None \<Rightarrow> earliest_stop body stops best
      | Some i \<Rightarrow> earliest_stop body stops (case best of None \<Rightarrow> Some i | Some c \<Rightarrow> if i < c then Some i else Some c))"

definition truncate_at_stop :: "string \<Rightarrow> string list \<Rightarrow> string \<times> bool" where
  "truncate_at_stop body stops = (case earliest_stop body stops None of None \<Rightarrow> (body, False) | Some i \<Rightarrow> (take i body, True))"

text \<open>
  \<open>_chat_prompt\<close>: the model's template when it has one, otherwise a plain rendering.
\<close>

fun join_lines :: "string list \<Rightarrow> string" where
  "join_lines [] = []"
| "join_lines [s] = s"
| "join_lines (s # t # ts) = s @ [CHR 0x0A] @ join_lines (t # ts)"

definition chat_prompt :: "((string \<times> string) list \<Rightarrow> string) option \<Rightarrow> (string \<times> string) list \<Rightarrow> string" where
  "chat_prompt template messages =
     (case template of
        Some render \<Rightarrow> render messages
      | None \<Rightarrow> join_lines (map (\<lambda>(role, content). role @ '': '' @ content) messages) @ [CHR 0x0A] @ ''assistant:'')"

definition openai_submit ::
  "bool option \<Rightarrow> int \<Rightarrow> int \<Rightarrow> int option \<Rightarrow> (int list \<Rightarrow> int \<Rightarrow> sampling_params \<Rightarrow> 'h response) \<Rightarrow>
   sampling_fields \<Rightarrow> int list \<Rightarrow> sampling_params \<Rightarrow> 'h response" where
  "openai_submit ready max_prompt default_max max_model_len service_submit f toks params =
     (if ready \<noteq> Some True then Inl 503
      else if unsupported f then Inl 400
      else if toks = [] then Inl 400
      else if int (length toks) > max_prompt then Inl 413
      else let max_tokens = (case sf_max_tokens f of None \<Rightarrow> default_max | Some n \<Rightarrow> if n = 0 then default_max else n) in
        if (case max_model_len of None \<Rightarrow> False | Some m \<Rightarrow> int (length toks) + max_tokens > m) then Inl 400
        else service_submit toks max_tokens params)"

record usage =
  us_prompt_tokens :: int
  us_completion_tokens :: int
  us_total_tokens :: int

definition usage_of :: "int \<Rightarrow> handle_view \<Rightarrow> usage" where
  "usage_of prompt_tokens h = (let generated = int (length (output_token_ids (hv_request h))) in
     \<lparr>us_prompt_tokens = prompt_tokens, us_completion_tokens = generated, us_total_tokens = prompt_tokens + generated\<rparr>)"

text \<open>
  \<open>_collect\<close>: each observation is whether the deadline has passed and the handle; the result
  is the cancellation it queues, if any, and the response; \<open>None\<close> is still waiting.
\<close>

definition collected :: "(int list \<Rightarrow> string) \<Rightarrow> string list \<Rightarrow> handle_view \<Rightarrow> (string \<times> string) response" where
  "collected decode stops h =
     (if hv_error h \<noteq> None \<and> \<not> req_done (hv_request h) then Inl 503
      else let body = decode (output_token_ids (hv_request h)); (trimmed, hit) = truncate_at_stop body stops in
        if stops \<noteq> [] \<and> hit then Inr (trimmed, ''stop'') else Inr (body, openai_finish_reason h))"

fun collect ::
  "(int list \<Rightarrow> string) \<Rightarrow> string list \<Rightarrow> (bool \<times> handle_view) list \<Rightarrow> (string option \<times> (string \<times> string) response) option" where
  "collect decode stops [] = None"
| "collect decode stops ((late, h) # polls) =
     (if hv_completed h then Some (None, collected decode stops h)
      else if late then Some (Some ''TIMEOUT'', Inl 504)
      else let (trimmed, hit) = truncate_at_stop (decode (output_token_ids (hv_request h))) stops in
        if stops \<noteq> [] \<and> hit then Some (Some ''STOP_SEQUENCE'', Inr (trimmed, ''stop''))
        else collect decode stops polls)"

datatype stream_event = DeltaEvent string | FinishEvent string | UsageEvent usage | DoneEvent

definition closing_events :: "bool \<Rightarrow> int \<Rightarrow> handle_view \<Rightarrow> string \<Rightarrow> stream_event list" where
  "closing_events include_usage prompt_tokens h finish =
     [FinishEvent finish] @ (if include_usage then [UsageEvent (usage_of prompt_tokens h)] else []) @ [DoneEvent]"

fun openai_stream ::
  "(int list \<Rightarrow> string) \<Rightarrow> string list \<Rightarrow> bool \<Rightarrow> int \<Rightarrow> string \<Rightarrow> (bool \<times> bool \<times> handle_view) list \<Rightarrow> stream_event list \<times> string list" where
  "openai_stream decode stops include_usage prompt_tokens sent [] = ([], [])"
| "openai_stream decode stops include_usage prompt_tokens sent ((gone, late, h) # polls) =
     (let abandon = (if hv_completed h then [] else [''CLIENT_DISCONNECTED'']);
          cancel_as = (\<lambda>reason. if hv_completed h then [] else [reason]);
          body = decode (output_token_ids (hv_request h));
          (trimmed, hit) = (if stops \<noteq> [] then truncate_at_stop body stops else (body, False));
          fresh = length trimmed > length sent;
          delta = (if fresh then [DeltaEvent (drop (length sent) trimmed)] else []);
          sent' = (if fresh then trimmed else sent) in
      if gone then ([], abandon @ abandon)
      else if late then (closing_events include_usage prompt_tokens h ''length'', cancel_as ''TIMEOUT'' @ abandon)
      else if hit then (delta @ closing_events include_usage prompt_tokens h ''stop'', cancel_as ''STOP_SEQUENCE'' @ abandon)
      else if hv_completed h then (delta @ closing_events include_usage prompt_tokens h (openai_finish_reason h), [])
      else let (evs, cs) = openai_stream decode stops include_usage prompt_tokens sent' polls in (delta @ evs, cs))"

record completion_body =
  cb_text :: string
  cb_finish_reason :: string
  cb_usage :: usage

text \<open>\<open>POST /v1/completions\<close>, up to the submission, and the body of its non-streamed answer.\<close>

definition completion_submit ::
  "bool option \<Rightarrow> (string \<Rightarrow> int list) \<Rightarrow> int \<Rightarrow> int \<Rightarrow> int option \<Rightarrow> (int list \<Rightarrow> int \<Rightarrow> sampling_params \<Rightarrow> 'h response) \<Rightarrow>
   completion_request \<Rightarrow> 'h response" where
  "completion_submit ready encode max_prompt default_max max_model_len service_submit p =
     (case cr_prompt p of
        PromptList ps \<Rightarrow> if length ps \<noteq> 1 then Inl 400 else if ready = None then Inl 503 else
          (case sampling_from (cr_fields p) (cr_logprobs p) of
             Inl _ \<Rightarrow> Inl 500
           | Inr s \<Rightarrow> openai_submit ready max_prompt default_max max_model_len service_submit (cr_fields p) (encode (hd ps)) s)
      | OnePrompt body \<Rightarrow> if ready = None then Inl 503 else
          (case sampling_from (cr_fields p) (cr_logprobs p) of
             Inl _ \<Rightarrow> Inl 500
           | Inr s \<Rightarrow> openai_submit ready max_prompt default_max max_model_len service_submit (cr_fields p) (encode body) s))"

definition chat_logprobs :: "chat_request \<Rightarrow> int option" where
  "chat_logprobs p = (if ch_logprobs p then ch_top_logprobs p else None)"

definition chat_submit ::
  "bool option \<Rightarrow> (string \<Rightarrow> int list) \<Rightarrow> ((string \<times> string) list \<Rightarrow> string) option \<Rightarrow> int \<Rightarrow> int \<Rightarrow> int option \<Rightarrow>
   (int list \<Rightarrow> int \<Rightarrow> sampling_params \<Rightarrow> 'h response) \<Rightarrow> chat_request \<Rightarrow> 'h response" where
  "chat_submit ready encode template max_prompt default_max max_model_len service_submit p =
     (if ready = None then Inl 503
      else case sampling_from (ch_fields p) (chat_logprobs p) of
        Inl _ \<Rightarrow> Inl 500
      | Inr s \<Rightarrow> openai_submit ready max_prompt default_max max_model_len service_submit (ch_fields p)
          (encode (chat_prompt template (ch_messages p))) s)"

definition completion_response :: "(int list \<Rightarrow> string) \<Rightarrow> string list \<Rightarrow> int \<Rightarrow> handle_view \<Rightarrow> completion_body response" where
  "completion_response decode stops prompt_tokens h =
     (case collected decode stops h of
        Inl s \<Rightarrow> Inl s
      | Inr (body, fin) \<Rightarrow> Inr \<lparr>cb_text = body, cb_finish_reason = fin, cb_usage = usage_of prompt_tokens h\<rparr>)"


text \<open>\<open>_logprob_payload\<close>: decoded token, its value (the first option's) and the options by decoded token.\<close>

record logprob_body =
  lp_tokens :: "string list"
  lp_token_logprobs :: "real option list"
  lp_top :: "(string \<times> real) list list"

definition top_options :: "int \<Rightarrow> 'a list \<Rightarrow> 'a list" where
  "top_options count_limit options = take (nat (if count_limit = 0 then int (length options) else count_limit)) options"

definition logprob_payload ::
  "(int list \<Rightarrow> string) \<Rightarrow> int \<Rightarrow> int list \<Rightarrow> (int \<times> real) list list \<Rightarrow> logprob_body option" where
  "logprob_payload decode count_limit outputs entries =
     (if entries = [] then None
      else Some \<lparr>lp_tokens = map (\<lambda>(t, _). decode [t]) (zip outputs entries),
        lp_token_logprobs = map (\<lambda>(_, opts). case opts of [] \<Rightarrow> None | o1 # _ \<Rightarrow> Some (snd o1)) (zip outputs entries),
        lp_top = map (\<lambda>(_, opts). fold (\<lambda>(t, v) d. AList.update (decode [t]) v d) (top_options count_limit opts) [])
          (zip outputs entries)\<rparr>)"

section \<open>Stop strings\<close>

lemma text_find_Some: "text_find stop body = Some i \<Longrightarrow> i \<le> length body \<and> prefix stop (drop i body)"
  by (induction body arbitrary: i) (auto split: if_splits)

lemma text_find_least: "prefix stop (drop j body) \<Longrightarrow> j \<le> length body \<Longrightarrow> \<exists>i \<le> j. text_find stop body = Some i"
proof (induction body arbitrary: j)
  case (Cons c cs)
  show ?case
  proof (cases "prefix stop (c # cs)")
    case False
    with Cons.prems obtain k where "j = Suc k" by (cases j) auto
    with Cons show ?thesis by fastforce
  qed simp
qed simp

lemma text_find_None: "text_find stop body = None \<longleftrightarrow> \<not> sublist stop body"
proof
  assume none: "text_find stop body = None"
  show "\<not> sublist stop body"
  proof
    assume "sublist stop body"
    then obtain a b where "body = a @ (stop @ b)" by (auto simp: sublist_def)
    then have "prefix stop (drop (length a) body)" and "length a \<le> length body" by auto
    from text_find_least [OF this] none show False by auto
  qed
next
  assume "\<not> sublist stop body"
  then show "text_find stop body = None"
    by (metis append_take_drop_id option.exhaust prefix_def sublist_appendI text_find_Some)
qed

lemma earliest_stop_le: "earliest_stop body stops (Some i) = Some j \<Longrightarrow> j \<le> i"
  by (induction stops arbitrary: i) (auto split: if_splits option.splits, metis less_imp_le_nat order.trans)

lemma earliest_stop_some: "earliest_stop body stops (Some i) \<noteq> None"
  by (induction stops arbitrary: i) (auto split: option.splits)

lemma earliest_stop_source:
  "earliest_stop body stops best = Some i \<Longrightarrow> best = Some i \<or> (\<exists>stop \<in> set stops. stop \<noteq> [] \<and> text_find stop body = Some i)"
  by (induction stops arbitrary: best) (fastforce split: if_splits option.splits)+

lemma earliest_stop_bound:
  "earliest_stop body stops best = Some i \<Longrightarrow> stop \<in> set stops \<Longrightarrow> stop \<noteq> [] \<Longrightarrow> text_find stop body = Some j \<Longrightarrow> i \<le> j"
proof (induction stops arbitrary: best)
  case (Cons s ss)
  show ?case
  proof (cases "s = stop")
    case True
    with Cons.prems show ?thesis
      by (auto split: option.splits if_splits dest!: earliest_stop_le)
  next
    case False
    with Cons show ?thesis by (auto split: option.splits if_splits)
  qed
qed simp

lemma earliest_stop_none:
  "earliest_stop body stops best = None \<longleftrightarrow> best = None \<and> (\<forall>stop \<in> set stops. stop \<noteq> [] \<longrightarrow> \<not> sublist stop body)"
  by (induction stops arbitrary: best)
     (auto split: option.splits simp: earliest_stop_some text_find_None [symmetric])

lemma truncate_at_stop_keeps: "truncate_at_stop body stops = (t, hit) \<Longrightarrow> prefix t body \<and> (\<not> hit \<longrightarrow> t = body)"
  by (auto simp: truncate_at_stop_def take_is_prefix split: option.splits)

lemma truncate_at_stop_hit: "snd (truncate_at_stop body stops) \<longleftrightarrow> (\<exists>stop \<in> set stops. stop \<noteq> [] \<and> sublist stop body)"
  using earliest_stop_none [of body stops None] by (auto simp: truncate_at_stop_def split: option.splits)


section \<open>What the two surfaces report\<close>

lemma terminal_status_failure:
  "req_done (hv_request h) \<Longrightarrow> state (hv_request h) \<noteq> FINISHED \<Longrightarrow> \<exists>s \<ge> 400. terminal_status h = Some s"
  by (cases "state (hv_request h)")
     (auto simp: terminal_status_def TERMINAL_STATUS_def req_done_def Let_def split: option.splits)

text \<open>A handler that is still waiting: nothing completed, the client there, the deadline not reached.\<close>

definition waiting_poll :: "bool \<times> bool \<times> handle_view \<Rightarrow> bool" where
  "waiting_poll p \<longleftrightarrow> \<not> fst p \<and> \<not> fst (snd p) \<and> \<not> hv_completed (snd (snd p))"

lemma failed_collected:
  assumes "req_done (hv_request h)" and "finish_reason (hv_request h) \<noteq> Some ''LENGTH''"
  shows "\<exists>body. collected decode stops h = Inr (body, ''stop'')"
  using assms by (auto simp: collected_def Let_def openai_finish_reason_def split: prod.split)

lemma failed_collect:
  assumes "list_all waiting_poll ws" and "hv_completed h" and "req_done (hv_request h)"
    and "finish_reason (hv_request h) \<noteq> Some ''LENGTH''"
  shows "\<exists>c body. collect decode stops (map snd (ws @ [(False, False, h)])) = Some (c, Inr (body, ''stop''))"
  using assms(1)
proof (induction ws)
  case Nil
  then show ?case using failed_collected [OF assms(3,4), of decode stops] assms(2) by simp
next
  case (Cons p ws)
  then show ?case by (cases p) (auto simp: waiting_poll_def Let_def split: prod.split)
qed

lemma failed_openai_stream:
  assumes "list_all waiting_poll ws" and "hv_completed h" and "finish_reason (hv_request h) \<noteq> Some ''LENGTH''"
  shows "FinishEvent ''stop'' \<in> set (fst (openai_stream decode stops iu n sent (ws @ [(False, False, h)])))"
  using assms(1)
proof (induction ws arbitrary: sent)
  case Nil
  then show ?case using assms(2,3) by (auto simp: closing_events_def openai_finish_reason_def Let_def split: prod.split)
next
  case (Cons p ws)
  obtain h' where p: "p = (False, False, h')" and w: "\<not> hv_completed h'" "list_all waiting_poll ws"
    using Cons.prems by (cases p) (simp add: waiting_poll_def [of "(_, _, _)"])
  from Cons.IH [OF w(2)] w(1) show ?case by (auto simp: p closing_events_def Let_def case_prod_beta)
qed

lemma failed_native_stream:
  assumes "list_all waiting_poll ws" and "hv_completed h" and "terminal_status h = Some s"
  shows "NativeError (finish_reason (hv_request h)) s \<in> set (fst (native_stream decode sent (ws @ [(gone, late, h)])))"
  using assms(1)
proof (induction ws arbitrary: sent)
  case Nil
  then show ?case using assms(2,3) by simp
next
  case (Cons p ws)
  obtain h' where p: "p = (False, False, h')" and w: "\<not> hv_completed h'" "list_all waiting_poll ws"
    using Cons.prems by (cases p) (simp add: waiting_poll_def [of "(_, _, _)"])
  from Cons.IH [OF w(2)] w(1) show ?case by (auto simp: p Let_def case_prod_beta)
qed

text \<open>
  C35: the two surfaces disagree about a request that ended badly. Take a handle that was
  polled any number of times while it waited and then completes, the client still there and
  the deadline not reached, with a request that is \<open>FAILED\<close>, \<open>REJECTED\<close> or \<open>CANCELLED\<close> under
  any reason but \<open>LENGTH\<close>. On the native routes it is an error status of at least 400, and a
  stream ends in an error event with that status. On the OpenAI routes, collected or streamed
  and whatever the stop strings, it is a success whose finish reason is \<open>stop\<close>. (A deadline
  is no such case: it is 504 when collected and \<open>length\<close> when streamed.)
\<close>

theorem openai_reports_failure_as_stop:
  assumes "list_all waiting_poll ws" and "hv_completed h" and "req_done (hv_request h)"
    and "state (hv_request h) \<noteq> FINISHED" and "finish_reason (hv_request h) \<noteq> Some ''LENGTH''"
  shows "(\<exists>s \<ge> 400. generate_response decode True h = (None, Inl s) \<and>
      NativeError (finish_reason (hv_request h)) s \<in> set (fst (native_stream decode 0 (ws @ [(False, False, h)])))) \<and>
    (\<exists>c body. collect decode stops (map snd (ws @ [(False, False, h)])) = Some (c, Inr (body, ''stop''))) \<and>
    (\<exists>b. completion_response decode stops n h = Inr b \<and> cb_finish_reason b = ''stop'') \<and>
    FinishEvent ''stop'' \<in> set (fst (openai_stream decode stops iu n [] (ws @ [(False, False, h)])))"
proof -
  from terminal_status_failure [OF assms(3,4)] obtain s where s: "400 \<le> s" "terminal_status h = Some s" by blast
  from s(2) have "generate_response decode True h = (None, Inl s)" by (simp add: generate_response_def failure_response_def)
  moreover obtain body where "collected decode stops h = Inr (body, ''stop'')" using failed_collected [OF assms(3,5)] by blast
  then have "\<exists>b. completion_response decode stops n h = Inr b \<and> cb_finish_reason b = ''stop''"
    by (simp add: completion_response_def)
  ultimately show ?thesis
    using s(1) failed_native_stream [OF assms(1,2) s(2)] failed_collect [OF assms(1,2,3,5)] failed_openai_stream [OF assms(1,2,5)]
    by blast
qed

definition failed_view :: handle_view where
  "failed_view = \<lparr>hv_completed = True,
     hv_request = (new_request ''r'' 2 8 [5, 6] GREEDY 0)\<lparr>state := FAILED, finish_reason := Some ''KV_POOL_EXHAUSTED''\<rparr>,
     hv_error = None\<rparr>"

theorem openai_reports_failure_as_stop_witness:
  "\<exists>s \<ge> 400. generate_response (\<lambda>_. ''x'') True failed_view = (None, Inl s) \<and>
     FinishEvent ''stop'' \<in> set (fst (openai_stream (\<lambda>_. ''x'') [] True 2 []
       [(False, False, failed_view\<lparr>hv_completed := False\<rparr>), (False, False, failed_view)]))"
proof -
  let ?ws = "[(False, False, failed_view\<lparr>hv_completed := False\<rparr>)]"
  have "list_all waiting_poll ?ws" by (simp add: waiting_poll_def)
  moreover have "hv_completed failed_view" "req_done (hv_request failed_view)" "state (hv_request failed_view) \<noteq> FINISHED"
    "finish_reason (hv_request failed_view) \<noteq> Some ''LENGTH''" by (simp_all add: failed_view_def new_request_def req_done_def)
  ultimately show ?thesis
    using openai_reports_failure_as_stop [of ?ws failed_view "\<lambda>_. ''x''" "[]" 2 True] by auto
qed

section \<open>The native stream\<close>

definition outputs_of :: "bool \<times> bool \<times> handle_view \<Rightarrow> int list" where
  "outputs_of p = output_token_ids (hv_request (snd (snd p)))"

text \<open>Between two observations the worker only appends output tokens.\<close>

fun outputs_grow :: "int list \<Rightarrow> (bool \<times> bool \<times> handle_view) list \<Rightarrow> bool" where
  "outputs_grow before [] = True"
| "outputs_grow before (p # polls) = (prefix before (outputs_of p) \<and> outputs_grow (outputs_of p) polls)"

definition final_outputs :: "int list \<Rightarrow> (bool \<times> bool \<times> handle_view) list \<Rightarrow> int list" where
  "final_outputs before polls = (if polls = [] then before else outputs_of (last polls))"

fun is_token :: "native_event \<Rightarrow> bool" where
  "is_token (TokenEvent _ _ _) = True"
| "is_token _ = False"

lemma final_outputs_simps [simp]:
  "final_outputs before [] = before"
  "final_outputs before (p # polls) = final_outputs (outputs_of p) polls"
  by (simp_all add: final_outputs_def)

lemma outputs_grow_prefix: "outputs_grow before polls \<Longrightarrow> prefix before (final_outputs before polls)"
  by (induction polls arbitrary: before) (auto intro: prefix_order.trans)

lemma is_token_events [simp]: "filter is_token (token_events decode n toks) = token_events decode n toks"
  by (auto simp: token_events_def filter_map o_def)

lemma token_events_split:
  assumes "prefix a b" and "k \<le> length a"
  shows "token_events decode k a @ token_events decode (length a) b = token_events decode k b"
proof -
  have "[k..<length b] = [k..<length a] @ [length a..<length b]"
    using assms prefix_length_le [OF assms(1)] by (metis le_add_diff_inverse upt_add_eq_append)
  moreover have "\<forall>i < length a. a ! i = b ! i"
    using assms(1) by (auto simp: prefix_def nth_append)
  ultimately show ?thesis by (simp add: token_events_def)
qed

lemma native_stream_tokens:
  "outputs_grow before polls \<Longrightarrow>
   \<exists>toks. prefix before toks \<and> prefix toks (final_outputs before polls) \<and>
     filter is_token (fst (native_stream decode (length before) polls)) = token_events decode (length before) toks"
proof (induction polls arbitrary: before)
  case Nil
  then show ?case by (auto simp: token_events_def)
next
  case (Cons p polls)
  obtain gone late h where p: "p = (gone, late, h)" by (cases p)
  let ?out = "output_token_ids (hv_request h)"
  have out: "outputs_of (g, l, h) = ?out" for g l by (simp add: outputs_of_def)
  have grow: "prefix before ?out" "outputs_grow ?out polls" using Cons.prems by (simp_all add: p out)
  have whole: "prefix ?out (final_outputs ?out polls)" using outputs_grow_prefix [OF grow(2)] .
  have len: "max (length before) (length ?out) = length ?out"
    using prefix_length_le [OF grow(1)] by simp
  show ?case
  proof (cases "hv_completed h \<or> gone \<or> late")
    case True
    have none: "token_events decode (length before) before = []" by (simp add: token_events_def)
    show ?thesis
    proof (cases "hv_completed h \<and> terminal_status h = None")
      case True
      then show ?thesis using grow(1) whole by (auto simp: p out Let_def intro!: exI [of _ ?out])
    next
      case False
      with \<open>hv_completed h \<or> gone \<or> late\<close> show ?thesis
        using grow(1) whole none
        by (auto simp: p out Let_def split: option.splits intro!: exI [of _ before] intro: prefix_order.trans)
    qed
  next
    case False
    from Cons.IH [OF grow(2)] obtain toks where
      t: "prefix ?out toks" "prefix toks (final_outputs ?out polls)"
        "filter is_token (fst (native_stream decode (length ?out) polls)) = token_events decode (length ?out) toks"
      by blast
    have "token_events decode (length before) ?out @ token_events decode (length ?out) toks
        = token_events decode (length before) toks"
      using token_events_split [OF t(1)] prefix_length_le [OF grow(1)] by blast
    with t grow(1) False show ?thesis
      by (auto simp: p out Let_def len split: prod.splits intro!: exI [of _ toks] intro: prefix_order.trans)
  qed
qed

lemma native_stream_finish:
  "outputs_grow before polls \<Longrightarrow> NativeFinish r \<in> set (fst (native_stream decode (length before) polls)) \<Longrightarrow>
   \<exists>p \<in> set polls. hv_completed (snd (snd p)) \<and> finish_reason (hv_request (snd (snd p))) = r \<and>
     terminal_status (snd (snd p)) = None \<and>
     filter is_token (fst (native_stream decode (length before) polls)) = token_events decode (length before) (outputs_of p)"
proof (induction polls arbitrary: before)
  case (Cons p polls)
  obtain gone late h where p: "p = (gone, late, h)" by (cases p)
  let ?out = "output_token_ids (hv_request h)"
  have out: "outputs_of (g, l, h) = ?out" for g l by (simp add: outputs_of_def)
  have grow: "prefix before ?out" "outputs_grow ?out polls" using Cons.prems by (simp_all add: p out)
  have len: "max (length before) (length ?out) = length ?out"
    using prefix_length_le [OF grow(1)] by simp
  have no_finish: "NativeFinish r \<notin> set (token_events decode k ts)" for k ts by (auto simp: token_events_def)
  show ?case
  proof (cases "hv_completed h \<or> gone \<or> late")
    case True
    have "hv_completed h \<and> terminal_status h = None \<and> finish_reason (hv_request h) = r"
      using True Cons.prems(2) no_finish
      by (cases "hv_completed h"; cases gone; cases late; cases "terminal_status h") (auto simp: p Let_def)
    then show ?thesis by (simp add: p outputs_of_def Let_def)
  next
    case False
    with Cons.prems(2) no_finish have "NativeFinish r \<in> set (fst (native_stream decode (length ?out) polls))"
      by (auto simp: p Let_def len split: prod.splits)
    from Cons.IH [OF grow(2) this] obtain q where q: "q \<in> set polls" "hv_completed (snd (snd q))"
      "finish_reason (hv_request (snd (snd q))) = r" "terminal_status (snd (snd q)) = None"
      "filter is_token (fst (native_stream decode (length ?out) polls)) = token_events decode (length ?out) (outputs_of q)"
      by blast
    have pre: "prefix ?out (outputs_of q)" using grow(2) q(1)
    proof (induction polls arbitrary: h)
      case (Cons s ss)
      then show ?case by (cases s) (fastforce simp: outputs_of_def intro: prefix_order.trans)
    qed simp
    have "token_events decode (length before) ?out @ token_events decode (length ?out) (outputs_of q)
        = token_events decode (length before) (outputs_of q)"
      using token_events_split [OF pre] prefix_length_le [OF grow(1)] by blast
    with q False show ?thesis
      by (auto simp: p out Let_def len split: prod.splits intro!: bexI [of _ q])
  qed
qed simp


text \<open>
  C36: The native stream sends every output token once, in order and with consecutive
  indices, whatever the polling times; when it ends normally it has sent exactly the
  outputs of the completed request.
\<close>

theorem native_stream_in_order:
  "outputs_grow [] polls \<Longrightarrow>
   (\<exists>toks. prefix toks (final_outputs [] polls) \<and>
      filter is_token (fst (native_stream decode 0 polls)) = token_events decode 0 toks) \<and>
   (NativeFinish r \<in> set (fst (native_stream decode 0 polls)) \<longrightarrow>
      (\<exists>p \<in> set polls. hv_completed (snd (snd p)) \<and> finish_reason (hv_request (snd (snd p))) = r \<and>
         filter is_token (fst (native_stream decode 0 polls)) = token_events decode 0 (outputs_of p)))"
  using native_stream_tokens [of "[]" polls decode] native_stream_finish [of "[]" polls r decode] by auto

definition view_of :: "bool \<Rightarrow> request_state \<Rightarrow> string option \<Rightarrow> int list \<Rightarrow> handle_view" where
  "view_of don st reason toks = \<lparr>hv_completed = don,
     hv_request = (new_request ''r'' 2 8 [5, 6] GREEDY 0)\<lparr>state := st, finish_reason := reason, output_token_ids := toks\<rparr>,
     hv_error = None\<rparr>"

definition demo_polls :: "(bool \<times> bool \<times> handle_view) list" where
  "demo_polls = [(False, False, view_of False DECODING None [7]), (False, False, view_of False DECODING None [7, 8]),
     (False, False, view_of True FINISHED (Some ''LENGTH'') [7, 8, 9])]"

lemmas demo_views = demo_polls_def view_of_def new_request_def outputs_of_def

theorem native_stream_in_order_witness:
  "\<exists>toks. prefix toks (final_outputs [] demo_polls) \<and>
      filter is_token (fst (native_stream (\<lambda>_. ''x'') 0 demo_polls)) = token_events (\<lambda>_. ''x'') 0 toks"
  using native_stream_in_order [of demo_polls "\<lambda>_. ''x''" None] by (simp add: demo_views)

section \<open>Streamed and collected text\<close>

fun delta_text :: "stream_event list \<Rightarrow> string" where
  "delta_text [] = []"
| "delta_text (DeltaEvent d # evs) = d @ delta_text evs"
| "delta_text (_ # evs) = delta_text evs"

definition text_of :: "(int list \<Rightarrow> string) \<Rightarrow> bool \<times> bool \<times> handle_view \<Rightarrow> string" where
  "text_of decode p = decode (outputs_of p)"

text \<open>Decoding a longer output extends the decoded text.\<close>

fun texts_grow :: "(int list \<Rightarrow> string) \<Rightarrow> string \<Rightarrow> (bool \<times> bool \<times> handle_view) list \<Rightarrow> bool" where
  "texts_grow decode before [] = True"
| "texts_grow decode before (p # polls) = (prefix before (text_of decode p) \<and> texts_grow decode (text_of decode p) polls)"

lemma delta_text_append [simp]: "delta_text (a @ b) = delta_text a @ delta_text b"
  by (induction a rule: delta_text.induct) auto

lemma delta_text_closing [simp]: "delta_text (closing_events iu n h fin) = []"
  by (simp add: closing_events_def)

lemma collected_no_stops:
  "collected decode [] h = Inr (body, fin) \<Longrightarrow> body = decode (output_token_ids (hv_request h)) \<and> fin = openai_finish_reason h"
  by (auto simp: collected_def Let_def split: prod.splits if_splits)

lemma openai_stream_collects:
  "collect decode [] (map snd polls) = Some (None, Inr (body, fin)) \<Longrightarrow> \<forall>p \<in> set polls. \<not> fst p \<and> \<not> fst (snd p) \<Longrightarrow>
   texts_grow decode sent polls \<Longrightarrow>
   sent @ delta_text (fst (openai_stream decode [] iu n sent polls)) = body \<and>
   FinishEvent fin \<in> set (fst (openai_stream decode [] iu n sent polls)) \<and> snd (openai_stream decode [] iu n sent polls) = []"
proof (induction polls arbitrary: sent)
  case (Cons p polls)
  obtain gone late h where p: "p = (gone, late, h)" by (cases p)
  let ?t = "decode (output_token_ids (hv_request h))"
  have on: "\<not> gone" "\<not> late" using Cons.prems(2) by (simp_all add: p)
  have grow: "prefix sent ?t" "texts_grow decode ?t polls"
    using Cons.prems(3) by (simp_all add: p text_of_def outputs_of_def)
  have fresh: "sent @ (if length sent < length ?t then drop (length sent) ?t else []) = ?t"
    "(if length sent < length ?t then ?t else sent) = ?t"
    using grow(1) by (auto simp: prefix_def)
  show ?case
  proof (cases "hv_completed h")
    case True
    with Cons.prems(1) have "collected decode [] h = Inr (body, fin)" by (simp add: p)
    from collected_no_stops [OF this] True on fresh show ?thesis
      by (auto simp: p Let_def closing_events_def split: if_splits)
  next
    case False
    with Cons.prems(1) on have "collect decode [] (map snd polls) = Some (None, Inr (body, fin))"
      by (simp add: p Let_def split: prod.splits)
    from Cons.IH [OF this _ grow(2)] Cons.prems(2) False on fresh show ?thesis
      by (auto simp: p Let_def split: prod.splits if_splits)
  qed
qed simp

text \<open>
  C37: while the client stays and the deadline is not reached, without stop strings, and for a
  tokenizer under which more tokens only extend the text, a streamed OpenAI completion carries
  exactly the text and the finish reason of the collected one, and queues no cancellation.
  (No poll is \<open>gone\<close> or \<open>late\<close>. At the deadline the two differ: \<open>stream_reads_clock_first\<close>.)
\<close>

theorem stream_equals_collect:
  "collect decode [] (map snd polls) = Some (None, Inr (body, fin)) \<Longrightarrow> \<forall>p \<in> set polls. \<not> fst p \<and> \<not> fst (snd p) \<Longrightarrow>
   texts_grow decode [] polls \<Longrightarrow>
   delta_text (fst (openai_stream decode [] iu n [] polls)) = body \<and>
   FinishEvent fin \<in> set (fst (openai_stream decode [] iu n [] polls)) \<and> snd (openai_stream decode [] iu n [] polls) = []"
  using openai_stream_collects [of decode polls body fin "[]" iu n] by simp

definition letters :: "int list \<Rightarrow> string" where
  "letters toks = map (\<lambda>t. if t = 7 then CHR ''E'' else if t = 8 then CHR ''N'' else CHR ''D'') toks"

theorem stream_equals_collect_witness:
  "delta_text (fst (openai_stream letters [] True 2 [] demo_polls)) = ''END'' \<and>
   FinishEvent ''length'' \<in> set (fst (openai_stream letters [] True 2 [] demo_polls)) \<and>
   snd (openai_stream letters [] True 2 [] demo_polls) = []"
  by (rule stream_equals_collect)
     (simp_all add: demo_views letters_def text_of_def collected_def openai_finish_reason_def truncate_at_stop_def Let_def)

text \<open>
  The stream reads the clock before \<open>completed\<close>, the collected route after it: a request that
  is complete when the deadline has passed is delivered in full by the one, and closed with
  \<open>length\<close> and none of the text that was still to be sent by the other.
\<close>

lemma stream_reads_clock_first:
  "hv_completed h \<Longrightarrow> collect decode [] [(True, h)] = Some (None, collected decode [] h) \<and>
     openai_stream decode [] iu n sent [(False, True, h)] = (closing_events iu n h ''length'', [])"
  by simp

text \<open>
  With stop strings the two differ: text that turns out to begin a stop string has already
  been sent when the rest of it arrives, so the stream leaks a part the collected answer cuts.
\<close>

lemma stream_leaks_stop_prefix:
  "delta_text (fst (openai_stream letters [''END''] False 2 [] demo_polls)) = ''EN'' \<and>
   collect letters [''END''] (map snd demo_polls) = Some (None, Inr ([], ''stop''))"
  by (simp add: demo_views letters_def collected_def truncate_at_stop_def closing_events_def Let_def)

text \<open>
  Nor is decoding always an extension: a token that ends inside a character decodes to a
  placeholder that the next token replaces, and the placeholder is what the stream keeps.
\<close>

definition split_character :: "int list \<Rightarrow> string" where
  "split_character toks = (if toks = [7] then ''?'' else if toks = [7, 8] then ''e'' else if toks = [] then [] else ''es'')"

lemma stream_keeps_placeholder:
  "delta_text (fst (openai_stream split_character [] False 2 [] demo_polls)) = ''?s'' \<and>
   collect split_character [] (map snd demo_polls) = Some (None, Inr (''es'', ''length''))"
  by (simp add: demo_views split_character_def collected_def truncate_at_stop_def closing_events_def openai_finish_reason_def Let_def)

section \<open>Requests that pass the field checks\<close>

text \<open>
  The field checks put no upper bound on \<open>seed\<close>, \<open>SamplingParams\<close> does: the constructor
  raises in the handler, which is an internal error and not a refusal of the request.
\<close>

lemma large_seed_is_internal_error:
  "fields_ok f \<Longrightarrow> sf_seed f = Some (2 ^ 63) \<Longrightarrow>
   completion_submit (Some True) encode mp dm mm svc \<lparr>cr_fields = f, cr_prompt = OnePrompt body, cr_logprobs = None\<rparr> = Inl 500"
  by (auto simp: completion_submit_def sampling_from_def validate_sampling_def fields_ok_def split: sum.splits)

end
