(* ===== verification/Engine_Memory.thy ===== *)
theory Engine_Memory
  imports Scheduling
begin

text \<open>
  How \<open>ContinuousBatchingEngine\<close> (\<open>engine/batching/continuous_batching.py\<close>) obtains KV
  memory: graph shape buckets, the pages reserved for padded graph rows, copy-on-write of a
  shared tail, growth by eviction and, when that is not enough, by preempting newer requests.

  The functions work on the scheduler (which owns the pool and shares the prefix cache) and
  on the KV contents \<open>kv\<close>, the world of \<open>sched_step\<close>. A request object is its id; its
  \<open>allocation\<close> attribute is its table in the manager, present exactly while it is active.
\<close>

lemma ceil_div_mult: "0 < s \<Longrightarrow> ceil_div (k * s) s = k"
  using ceil_div_le_iff [of s "k * s" k] ceil_div_covers [of s "k * s"] by simp

section \<open>Shape buckets\<close>

text \<open>\<open>while bucket < total: bucket *= 2\<close>; the code starts at 256.\<close>

function double_until :: "int \<Rightarrow> int \<Rightarrow> int" where
  "double_until len bucket = (if 0 < bucket \<and> bucket < len then double_until len (2 * bucket) else bucket)"
  by pat_completeness auto
termination
  by (relation "measure (\<lambda>(len, bucket). nat (len - bucket))") auto

declare double_until.simps [simp del]

definition prefill_context_bucket :: "int \<Rightarrow> int" where
  "prefill_context_bucket len = double_until len 256"

function bucket_ladder :: "int \<Rightarrow> int \<Rightarrow> int list" where
  "bucket_ladder capacity bucket =
     bucket # (if bucket \<ge> capacity \<or> bucket \<le> 0 then [] else bucket_ladder capacity (2 * bucket))"
  by pat_completeness auto
termination
  by (relation "measure (\<lambda>(capacity, bucket). nat (capacity - bucket))") auto

declare bucket_ladder.simps [simp del]

definition warmup_context_buckets :: "int \<Rightarrow> int \<Rightarrow> int option \<Rightarrow> int list" where
  "warmup_context_buckets nblocks block_size max_model_len =
     (let capacity = nblocks * block_size in
      bucket_ladder (case max_model_len of None \<Rightarrow> capacity | Some m \<Rightarrow> if m \<noteq> 0 then min capacity m else capacity) 256)"

definition shape_is_reachable :: "int \<Rightarrow> int \<Rightarrow> int \<Rightarrow> bool" where
  "shape_is_reachable rows context_len pool_tokens = (context_len \<le> 0 \<or> rows * context_len \<le> pool_tokens)"

definition graph_bucket :: "int list \<Rightarrow> int \<Rightarrow> int \<Rightarrow> int option" where
  "graph_bucket sizes max_active cnt = find (\<lambda>size. cnt \<le> size \<and> size \<le> max_active) sizes"

definition prefill_row_bucket :: "int list \<Rightarrow> int \<Rightarrow> int \<Rightarrow> int option \<Rightarrow> int option" where
  "prefill_row_bucket sizes max_active cnt limit =
     (if sizes = [] then None
      else case graph_bucket (1 # sizes) max_active cnt of
        None \<Rightarrow> None
      | Some b \<Rightarrow> (case limit of None \<Rightarrow> Some b | Some l \<Rightarrow> if b > l then None else Some b))"

text \<open>
  The shapes warm-up captures directly, in the order of its loops, when graphs are enabled and
  no capture fails; \<open>limit\<close> is \<open>prefill_graph_rows\<close>, \<open>regimes\<close> the decode kernel configurations.
\<close>

definition warmup_contexts :: "int \<Rightarrow> int \<Rightarrow> int option \<Rightarrow> bool \<Rightarrow> int list" where
  "warmup_contexts nblocks block_size max_model_len sdpa =
     (if sdpa then warmup_context_buckets nblocks block_size max_model_len else [0])"

definition warmup_prefill_shapes :: "int \<Rightarrow> int \<Rightarrow> int option \<Rightarrow> int list \<Rightarrow> int option \<Rightarrow> bool \<Rightarrow> (int \<times> int) list" where
  "warmup_prefill_shapes nblocks block_size max_model_len sizes limit sdpa =
     (if sizes = [] then []
      else concat (map (\<lambda>rows.
        if (case limit of None \<Rightarrow> False | Some l \<Rightarrow> rows > l) then []
        else map (Pair rows) (filter (\<lambda>context_len. shape_is_reachable rows context_len (nblocks * block_size))
               (warmup_contexts nblocks block_size max_model_len sdpa))) (1 # sizes)))"

definition warmup_fused_shapes ::
  "int \<Rightarrow> int \<Rightarrow> int option \<Rightarrow> int list \<Rightarrow> int \<Rightarrow> int \<Rightarrow> bool \<Rightarrow> 'c list \<Rightarrow> (int \<times> int \<times> int \<times> 'c) list" where
  "warmup_fused_shapes nblocks block_size max_model_len sizes max_active fused_limit sdpa regimes =
     concat (map (\<lambda>decode_rows. concat (map (\<lambda>prefill_rows. concat (map (\<lambda>context_len.
       if shape_is_reachable prefill_rows context_len (nblocks * block_size)
       then map (\<lambda>cfg. (decode_rows, prefill_rows, context_len, cfg)) regimes else [])
         (warmup_contexts nblocks block_size max_model_len sdpa)))
       (filter (\<lambda>rows. prefill_row_bucket sizes max_active rows (Some fused_limit) = Some rows) (1 # sizes)))) sizes)"

text \<open>The shapes a chunk batch and a fused step ask for; \<open>None\<close> runs eagerly.\<close>

definition context_length_for :: "bool \<Rightarrow> int \<Rightarrow> int" where
  "context_length_for sdpa total_len = (if sdpa then prefill_context_bucket total_len else 0)"

definition prefill_graph_key :: "int list \<Rightarrow> int \<Rightarrow> int option \<Rightarrow> bool \<Rightarrow> int \<Rightarrow> int \<Rightarrow> (int \<times> int) option" where
  "prefill_graph_key sizes max_active limit sdpa cnt total_len =
     map_option (\<lambda>rows. (rows, context_length_for sdpa total_len)) (prefill_row_bucket sizes max_active cnt limit)"

definition fused_graph_key ::
  "int list \<Rightarrow> int \<Rightarrow> int \<Rightarrow> bool \<Rightarrow> int \<Rightarrow> int \<Rightarrow> int \<Rightarrow> 'c \<Rightarrow> (int \<times> int \<times> int \<times> 'c) option" where
  "fused_graph_key sizes max_active fused_limit sdpa decode_count prefill_count total_len cfg =
     (case (graph_bucket sizes max_active decode_count, prefill_row_bucket sizes max_active prefill_count (Some fused_limit)) of
        (Some d, Some p) \<Rightarrow> Some (d, p, context_length_for sdpa total_len, cfg)
      | _ \<Rightarrow> None)"

section \<open>Pages for padded graph rows\<close>

definition dummy_rows_id :: string where
  "dummy_rows_id = ''__cuda_graph_dummy_rows__''"

definition reserve_graph_dummy_blocks ::
  "int list \<Rightarrow> kv_manager \<Rightarrow> (nat list \<times> (nat \<times> int) list \<times> kv_manager) result" where
  "reserve_graph_dummy_blocks sizes m =
     (if sizes = [] then Inr ([], [], m)
      else let required = fold max sizes (hd sizes); pages = ceil_div required (mgr_block_size m) in
        if required \<le> 0 then Inr ([], [], m)
        else and_then (reserve m dummy_rows_id (pages * mgr_block_size m) 0) (\<lambda>(a, m').
          case a of
            None \<Rightarrow> Inl ValueError
          | Some al \<Rightarrow> let blocks = physical_block_ids al in
              Inr (blocks, map (\<lambda>i. (blocks ! nat (i div mgr_block_size m), i mod mgr_block_size m)) [0..required - 1], m')))"

section \<open>Capacity for one request\<close>

definition evict_pages :: "int \<Rightarrow> sched \<Rightarrow> sched result" where
  "evict_pages k s =
     (case cache s of
        None \<Rightarrow> Inl TypeError
      | Some pc \<Rightarrow> and_then (evict_until_free k pc (manager s))
          (\<lambda>(_, pc', m'). Inr (s\<lparr>manager := m', cache := Some pc'\<rparr>)))"

text \<open>The device copy of a copied page is the update of \<open>kv\<close>.\<close>

definition ensure_writable_tail :: "string \<Rightarrow> sched_world \<Rightarrow> (bool \<times> sched_world) result" where
  "ensure_writable_tail rid w =
     (let (s, kv) = w in
      case requests (manager s) rid of
        None \<Rightarrow> Inr (True, w)
      | Some a \<Rightarrow>
          if sequence_length a mod mgr_block_size (manager s) = 0 then Inr (True, w)
          else if physical_block_ids a = [] then Inl IndexError
          else let tail = last (physical_block_ids a) in
            and_then (block_refcount (allocator (manager s)) tail) (\<lambda>n.
            if n \<le> 1 then Inr (True, w)
            else and_then (if free_block_count (allocator (manager s)) = 0 then evict_pages 1 s else Inr s) (\<lambda>s1.
            and_then (block_refcount (allocator (manager s1)) tail) (\<lambda>n1.
            if n1 \<le> 1 then Inr (True, s1, kv)
            else and_then (copy_on_write_tail (manager s1) rid) (\<lambda>(c, m').
              case c of
                None \<Rightarrow> Inr (False, s1\<lparr>manager := m'\<rparr>, kv)
              | Some (old, new) \<Rightarrow> Inr (True, s1\<lparr>manager := m'\<rparr>, kv(new := kv old)))))))"

definition ensure_kv_capacity :: "string \<Rightarrow> int \<Rightarrow> sched_world \<Rightarrow> (bool \<times> sched_world) result" where
  "ensure_kv_capacity rid target w =
     (case requests (manager (fst w)) rid of
        None \<Rightarrow> Inr (False, w)
      | Some a \<Rightarrow>
          and_then (if target > sequence_length a then ensure_writable_tail rid w else Inr (True, w)) (\<lambda>(writable, s1, kv1).
          if \<not> writable then Inr (False, s1, kv1)
          else let extra = max 0 (ceil_div target (mgr_block_size (manager s1)) - int (length (physical_block_ids a))) in
            and_then (if extra > free_block_count (allocator (manager s1)) then evict_pages extra s1 else Inr s1) (\<lambda>s2.
            and_then (ensure_capacity (manager s2) rid target) (\<lambda>(fits, m').
              Inr (fits, s2\<lparr>manager := m'\<rparr>, kv1)))))"

text \<open>Capacity never touches the queues.\<close>

lemma evict_pages_active: "evict_pages k s = Inr s' \<Longrightarrow> active s' = active s"
  by (auto simp: evict_pages_def split: option.splits)

lemma ensure_tail_active: "ensure_writable_tail rid w = Inr (b, w') \<Longrightarrow> active (fst w') = active (fst w)"
  by (cases w) (auto simp: ensure_writable_tail_def Let_def split: option.splits if_splits dest!: evict_pages_active)

lemma ensure_kv_active: "ensure_kv_capacity rid target w = Inr (b, w') \<Longrightarrow> active (fst w') = active (fst w)"
  by (auto simp: ensure_kv_capacity_def Let_def dest!: evict_pages_active ensure_tail_active
      split: option.splits if_splits)

lemma preempt_active:
  "preempt now rid reason s = Inr (r, s') \<Longrightarrow>
     active s' = AList.delete rid (active s) \<and> map_of (active s) rid \<noteq> None"
  by (auto simp: preempt_def pop_active_def release_pages_def split: option.splits)

text \<open>
  \<open>_acquire_capacity\<close>: while the request does not fit, the newest active request yields.
  Every turn removes one request from the active set.
\<close>

function acquire_capacity ::
  "(string \<Rightarrow> int) \<Rightarrow> string \<Rightarrow> int \<Rightarrow> sched_world \<Rightarrow> (bool \<times> sched_world) result" where
  "acquire_capacity clk rid target w =
     and_then (ensure_kv_capacity rid target w) (\<lambda>(fits, w1).
       if fits then Inr (True, w1)
       else case newest_active (fst w1) of
         None \<Rightarrow> Inr (False, w1)
       | Some victim \<Rightarrow>
           if request_id victim = rid \<and> length (active (fst w1)) \<le> 1 then Inr (False, w1)
           else and_then (preempt (clk (request_id victim)) (request_id victim) ''PREEMPTED'' (fst w1)) (\<lambda>(_, s2).
             if request_id victim = rid then Inr (False, s2, snd w1)
             else acquire_capacity clk rid target (s2, snd w1)))"
  by pat_completeness auto
termination
  by (relation "measure (\<lambda>(clk, rid, target, w). length (active (fst w)))")
     (auto dest!: ensure_kv_active preempt_active simp: length_delete_less)

declare acquire_capacity.simps [simp del]


section \<open>What memory management keeps of a request's table\<close>

text \<open>
  A block is a request's own when nobody else, request or cache, holds it: only such a
  block may be written. Memory management may drop a table, replace a shared block by a
  copy of it and append fresh blocks; it never changes what a surviving table holds and
  never takes away a block that is a request's own.
\<close>

definition sole :: "kv_manager \<Rightarrow> string \<Rightarrow> nat \<Rightarrow> bool" where
  "sole m rid b \<longleftrightarrow> owners (allocator m) b = {Req rid}"

definition table_kept ::
  "kv_manager \<Rightarrow> (nat \<Rightarrow> int list) \<Rightarrow> kv_allocation \<Rightarrow> kv_manager \<Rightarrow> (nat \<Rightarrow> int list) \<Rightarrow> kv_allocation \<Rightarrow> string \<Rightarrow> bool" where
  "table_kept m kv a m' kv' a' rid \<longleftrightarrow>
     sequence_length a' = sequence_length a \<and> length (physical_block_ids a) \<le> length (physical_block_ids a') \<and>
     (\<forall>i < length (physical_block_ids a). kv' (physical_block_ids a' ! i) = kv (physical_block_ids a ! i) \<and>
        (sole m rid (physical_block_ids a ! i) \<longrightarrow> sole m' rid (physical_block_ids a' ! i))) \<and>
     (\<forall>i < length (physical_block_ids a'). length (physical_block_ids a) \<le> i \<longrightarrow> sole m' rid (physical_block_ids a' ! i))"

definition keeps_tables :: "kv_manager \<Rightarrow> (nat \<Rightarrow> int list) \<Rightarrow> kv_manager \<Rightarrow> (nat \<Rightarrow> int list) \<Rightarrow> bool" where
  "keeps_tables m kv m' kv' \<longleftrightarrow> mgr_block_size m' = mgr_block_size m \<and>
     (\<forall>rid a'. requests m' rid = Some a' \<longrightarrow> (\<exists>a. requests m rid = Some a \<and> table_kept m kv a m' kv' a' rid))"

lemma table_kept_refl: "table_kept m kv a m kv a rid"
  by (simp add: table_kept_def)

lemma keeps_tables_refl [simp]: "keeps_tables m kv m kv"
  by (simp add: keeps_tables_def table_kept_refl)

lemma table_kept_trans:
  assumes "table_kept m kv a m1 kv1 a1 rid" and "table_kept m1 kv1 a1 m2 kv2 a2 rid"
  shows "table_kept m kv a m2 kv2 a2 rid"
  unfolding table_kept_def
proof (intro conjI allI impI)
  show "sole m2 rid (physical_block_ids a2 ! i)"
    if "i < length (physical_block_ids a2)" "length (physical_block_ids a) \<le> i" for i
    using assms that by (cases "i < length (physical_block_ids a1)") (auto simp: table_kept_def)
qed (use assms in \<open>auto simp: table_kept_def\<close>)

lemma keeps_tablesD:
  "keeps_tables m kv m' kv' \<Longrightarrow> requests m' rid = Some a' \<Longrightarrow> requests m rid = Some a \<Longrightarrow> table_kept m kv a m' kv' a' rid"
  unfolding keeps_tables_def by (metis option.inject)

lemma keeps_tables_trans [trans]:
  "keeps_tables m kv m1 kv1 \<Longrightarrow> keeps_tables m1 kv1 m2 kv2 \<Longrightarrow> keeps_tables m kv m2 kv2"
  unfolding keeps_tables_def by (metis table_kept_trans)

lemma sole_own: "mgr_inv m \<Longrightarrow> requests m rid = Some a \<Longrightarrow> b \<in> set (physical_block_ids a) \<Longrightarrow> Req rid \<in> owners (allocator m) b"
  by (rule mgr_owner(1))

lemma sole_refcount:
  assumes inv: "mgr_inv m" and a: "requests m rid = Some a" and b: "b \<in> set (physical_block_ids a)"
  shows "refcounts (allocator m) ! b \<le> 1 \<longleftrightarrow> sole m rid b" and "block_refcount (allocator m) b = Inr (refcounts (allocator m) ! b)"
proof -
  note own = mgr_owner [OF inv a b]
  show "block_refcount (allocator m) b = Inr (refcounts (allocator m) ! b)" using own(2) by (simp add: block_refcount_def)
  have "refcounts (allocator m) ! b = int (card (owners (allocator m) b))"
    by (rule alloc_inv_refcount [OF mgr_invD(1) [OF inv] own(2)])
  then have "refcounts (allocator m) ! b \<le> 1 \<longleftrightarrow> card (owners (allocator m) b) = 1"
    using own(3) by linarith
  also have "\<dots> \<longleftrightarrow> sole m rid b"
    using own(1) by (auto simp: sole_def card_1_singleton_iff)
  finally show "refcounts (allocator m) ! b \<le> 1 \<longleftrightarrow> sole m rid b" .
qed

text \<open>Dropping owners: eviction drops cache entries, preemption a whole table.\<close>

lemma keeps_tables_drop:
  assumes inv: "mgr_inv m" "mgr_inv m'" and bs: "mgr_block_size m' = mgr_block_size m"
    and rq: "\<And>rid a. requests m' rid = Some a \<Longrightarrow> requests m rid = Some a"
    and al: "\<And>w. allocations (allocator m') w = None \<or> allocations (allocator m') w = allocations (allocator m) w"
  shows "keeps_tables m kv m' kv"
  unfolding keeps_tables_def
proof (intro conjI allI impI)
  fix rid a assume a: "requests m' rid = Some a"
  have sub: "owners (allocator m') b \<subseteq> owners (allocator m) b" for b
  proof
    fix w assume "w \<in> owners (allocator m') b"
    then obtain bs where "allocations (allocator m') w = Some bs" "b \<in> set bs" by (auto simp: owners_of_def)
    then show "w \<in> owners (allocator m) b" using al [of w] by (auto simp: owners_of_def dest: sym)
  qed
  have "sole m' rid b" if "b \<in> set (physical_block_ids a)" "sole m rid b" for b
    using sole_own [OF inv(2) a that(1)] sub [of b] that(2) by (auto simp: sole_def)
  then show "\<exists>c. requests m rid = Some c \<and> table_kept m kv c m' kv a rid"
    using rq [OF a] by (auto simp: table_kept_def)
qed (rule bs)

lemma evict_one_owners:
  "evict_one f pc m = Inr (b, pc', m') \<Longrightarrow>
     allocations (allocator m') w = None \<or> allocations (allocator m') w = allocations (allocator m) w"
  by (auto simp: evict_one_def Let_def block_release_def split: list.splits option.splits prod.splits if_splits)

lemma evict_while_owners:
  "evict_while cond f pc m = Inr (pc', m') \<Longrightarrow>
     allocations (allocator m') w = None \<or> allocations (allocator m') w = allocations (allocator m) w"
proof (induction cond f pc m rule: evict_while.induct)
  case (1 cond f pc m)
  note run = 1(2) [unfolded evict_while.simps [of cond f pc m]]
  show ?case
  proof (cases "cond pc m")
    case True
    then obtain b p1 m1 where one: "evict_one f pc m = Inr (b, p1, m1)"
      using run by (cases "evict_one f pc m") auto
    note own = evict_one_owners [OF one, of w]
    show ?thesis
    proof (cases b)
      case more: True
      with one True run have "evict_while cond f p1 m1 = Inr (pc', m')" by simp
      moreover have "evict_one f pc m = Inr (True, p1, m1)" using one more by simp
      ultimately have "allocations (allocator m') w = None \<or> allocations (allocator m') w = allocations (allocator m1) w"
        using 1(1) True by blast
      with own show ?thesis by auto
    qed (use one True run own in simp)
  qed (use run in simp)
qed

lemma keeps_tables_cow:
  assumes inv: "mgr_inv m" and run: "copy_on_write_tail m rid = Inr (Some (old, new), m')"
  shows "keeps_tables m kv m' (kv(new := kv old))"
    and "requests m' rid = Some a' \<Longrightarrow> sole m' rid (last (physical_block_ids a'))"
proof -
  from copy_on_write_run [OF inv run] obtain a al where c: "requests m rid = Some a"
    "block_replace_shared (allocator m) (Req rid) (-1) = Inr (Some (old, new), al)" "old = last (physical_block_ids a)"
    "m' = m\<lparr>allocator := al, requests := (requests m)(rid \<mapsto>
           a\<lparr>physical_block_ids := (physical_block_ids a)[length (physical_block_ids a) - 1 := new]\<rparr>)\<rparr>"
    "allocations al = (allocations (allocator m))(Req rid \<mapsto> (physical_block_ids a)[length (physical_block_ids a) - 1 := new])"
    by blast
  from copy_on_write_private [OF inv run] obtain a1 where p: "requests m' rid = Some a1"
    "new = last (physical_block_ids a1)" "owners (allocator m') new = {Req rid}" "owners (allocator m) new = {}" by blast
  then show "requests m' rid = Some a' \<Longrightarrow> sole m' rid (last (physical_block_ids a'))" by (simp add: sole_def)
  have ne: "physical_block_ids a \<noteq> []" using mgr_inv_request(7) [OF inv c(1)] .
  note dist = mgr_inv_request(6) [OF inv c(1)]
  have not_new: "b \<noteq> new" if "requests m r = Some x" "b \<in> set (physical_block_ids x)" for r x b
    using sole_own [OF inv that] p(4) by auto
  have own: "owners (allocator m') b = (if b \<in> set ((physical_block_ids a)[length (physical_block_ids a) - 1 := new])
      then insert (Req rid) (owners (allocator m) b) else owners (allocator m) b - {Req rid})" for b
    unfolding c(4) using c(5) by (auto simp: owners_of_def)
  show "keeps_tables m kv m' (kv(new := kv old))"
    unfolding keeps_tables_def
  proof (intro conjI allI impI)
    show "mgr_block_size m' = mgr_block_size m" by (simp add: c(4))
    fix r x assume x: "requests m' r = Some x"
    show "\<exists>y. requests m r = Some y \<and> table_kept m kv y m' (kv(new := kv old)) x r"
    proof (cases "r = rid")
      case True
      with x have xe: "x = a\<lparr>physical_block_ids := (physical_block_ids a)[length (physical_block_ids a) - 1 := new]\<rparr>"
        by (simp add: c(4))
      have "table_kept m kv a m' (kv(new := kv old)) x rid"
        unfolding table_kept_def xe
      proof (intro conjI allI impI)
        fix i assume i: "i < length (physical_block_ids a)"
        show "(kv(new := kv old)) (physical_block_ids (a\<lparr>physical_block_ids := (physical_block_ids a)[length (physical_block_ids a) - 1 := new]\<rparr>) ! i)
            = kv (physical_block_ids a ! i)"
          using i ne c(3) not_new [OF c(1) nth_mem [OF i]] by (auto simp: nth_list_update last_conv_nth)
        assume "sole m rid (physical_block_ids a ! i)"
        then show "sole m' rid (physical_block_ids (a\<lparr>physical_block_ids := (physical_block_ids a)[length (physical_block_ids a) - 1 := new]\<rparr>) ! i)"
          using i p(3) own [of "physical_block_ids a ! i"] nth_mem [of i "(physical_block_ids a)[length (physical_block_ids a) - 1 := new]"]
          by (auto simp: sole_def nth_list_update split: if_splits)
      qed auto
      with c(1) True show ?thesis by blast
    next
      case False
      with x have y: "requests m r = Some x" by (simp add: c(4))
      have "sole m' r b" if "b \<in> set (physical_block_ids x)" "sole m r b" for b
        using that False own [of b] not_new [OF y that(1)] mgr_inv_request(8) [OF inv c(1)]
        by (auto simp: sole_def dest!: set_update_subset_insert [THEN subsetD] dest: sole_own [OF inv c(1)])
      then show ?thesis using y not_new [OF y] by (auto simp: table_kept_def)
    qed
  qed
qed


lemma keeps_tables_grow:
  assumes inv: "mgr_inv m" and run: "ensure_capacity m rid target = Inr (b, m')"
  shows "keeps_tables m kv m' kv"
  using inv run
proof (cases rule: ensure_capacity_run)
  case (1 a)
  show ?thesis
  proof (cases "m' = m")
    case False
    with 1(3,4) obtain ids al n where x: "block_extend (allocator m) (Req rid) n = Inr (Some ids, al)"
      and m': "m' = m\<lparr>allocator := al, requests := (requests m)(rid \<mapsto> a\<lparr>physical_block_ids := physical_block_ids a @ ids\<rparr>)\<rparr>"
      by (cases b) auto
    note q = mgr_inv_request [OF inv 1(1)]
    from pool.grow_some [OF mgr_invD(1) [OF inv] x] q(5) have al: "allocations al = (allocations (allocator m))(Req rid \<mapsto> physical_block_ids a @ ids)"
      and fresh: "\<And>w ws. allocations (allocator m) w = Some ws \<Longrightarrow> set ws \<inter> set ids = {}" by auto
    have none: "owners (allocator m) y = {}" if "y \<in> set ids" for y
      using fresh that by (fastforce simp: owners_of_def)
    have own: "owners (allocator m') y = (if y \<in> set ids then {Req rid} else owners (allocator m) y)" for y
      using none [of y] q(5) al unfolding m' by (auto simp: owners_of_def split: if_splits)
    have keep: "sole m' r y" if "sole m r y" for r y
      using that none [of y] own [of y] by (auto simp: sole_def)
    show ?thesis
      unfolding keeps_tables_def
    proof (intro conjI allI impI)
      fix r x assume r: "requests m' r = Some x"
      show "\<exists>c. requests m r = Some c \<and> table_kept m kv c m' kv x r"
      proof (cases "r = rid")
        case True
        have "sole m' rid ((physical_block_ids a @ ids) ! i)"
          if "length (physical_block_ids a) \<le> i" "i < length (physical_block_ids a @ ids)" for i
          using that own [of "(physical_block_ids a @ ids) ! i"] by (auto simp: nth_append sole_def)
        with True r 1(1) keep show ?thesis
          by (intro exI [of _ a]) (auto simp: m' table_kept_def nth_append)
      next
        case False
        with r keep show ?thesis by (intro exI [of _ x]) (auto simp: m' table_kept_def)
      qed
    qed (simp add: m')
  qed simp
qed

text \<open>
  Sharing only reaches complete blocks and the last one: a shared block holds a cached
  token, and when it is not full it ends the table.
\<close>

definition shared_shape :: "kv_manager \<Rightarrow> bool" where
  "shared_shape m \<longleftrightarrow> (\<forall>rid a i. requests m rid = Some a \<longrightarrow> i < length (physical_block_ids a) \<longrightarrow>
     \<not> sole m rid (physical_block_ids a ! i) \<longrightarrow>
     int i * mgr_block_size m < sequence_length a \<and>
     (int (Suc i) * mgr_block_size m \<le> sequence_length a \<or> Suc i = length (physical_block_ids a)))"

text \<open>Every block that holds a position from the sequence's end on is the request's own.\<close>

definition owns_rest :: "kv_manager \<Rightarrow> string \<Rightarrow> bool" where
  "owns_rest m rid \<longleftrightarrow> (\<forall>a i. requests m rid = Some a \<longrightarrow> i < length (physical_block_ids a) \<longrightarrow>
     sequence_length a < int (Suc i) * mgr_block_size m \<longrightarrow> sole m rid (physical_block_ids a ! i))"

lemma shared_shape_kept:
  assumes kept: "keeps_tables m kv m' kv'" and shape: "shared_shape m"
    and grown: "\<And>r a'. requests m' r = Some a' \<Longrightarrow>
      (\<exists>a. requests m r = Some a \<and> length (physical_block_ids a') = length (physical_block_ids a)) \<or> owns_rest m' r"
  shows "shared_shape m'"
  unfolding shared_shape_def
proof (intro allI impI)
  fix r a' i assume a': "requests m' r = Some a'" and i: "i < length (physical_block_ids a')"
    and shared: "\<not> sole m' r (physical_block_ids a' ! i)"
  from kept a' obtain a where a: "requests m r = Some a" and k: "table_kept m kv a m' kv' a' r"
    and bs: "mgr_block_size m' = mgr_block_size m" by (auto simp: keeps_tables_def)
  from k i shared have lt: "i < length (physical_block_ids a)" by (auto simp: table_kept_def not_less)
  with k shared have ns: "\<not> sole m r (physical_block_ids a ! i)" by (auto simp: table_kept_def)
  have seq: "sequence_length a' = sequence_length a" using k by (simp add: table_kept_def)
  from shape [unfolded shared_shape_def, rule_format, OF a lt ns] grown [OF a'] a a' i shared
  show "int i * mgr_block_size m' < sequence_length a' \<and>
      (int (Suc i) * mgr_block_size m' \<le> sequence_length a' \<or> Suc i = length (physical_block_ids a'))"
    unfolding bs seq by (metis bs not_le owns_rest_def seq option.inject)
qed

section \<open>Getting memory keeps the engine's world intact\<close>

definition world_ok :: "string set \<Rightarrow> sched_world \<Rightarrow> bool" where
  "world_ok D w \<longleftrightarrow> sched_inv (snd w) (fst w) \<and> pages_inv D (fst w) \<and> cache (fst w) \<noteq> None"

definition mem_step :: "sched_world \<Rightarrow> sched_world \<Rightarrow> bool" where
  "mem_step w w' \<longleftrightarrow> keeps_tables (manager (fst w)) (snd w) (manager (fst w')) (snd w') \<and>
     (shared_shape (manager (fst w)) \<longrightarrow> shared_shape (manager (fst w')))"

lemma mem_step_refl [simp]: "mem_step w w"
  by (simp add: mem_step_def)

lemma mem_step_trans [trans]: "mem_step w w1 \<Longrightarrow> mem_step w1 w2 \<Longrightarrow> mem_step w w2"
  unfolding mem_step_def by (blast intro: keeps_tables_trans)

lemma mem_step_same_lengths:
  assumes kept: "keeps_tables (manager s) kv (manager s') kv'"
    and len: "\<And>r a'. requests (manager s') r = Some a' \<Longrightarrow>
      \<exists>a. requests (manager s) r = Some a \<and> length (physical_block_ids a') = length (physical_block_ids a)"
  shows "mem_step (s, kv) (s', kv')"
  using kept shared_shape_kept [OF kept] len by (auto simp: mem_step_def)

lemma world_okD:
  assumes "world_ok D (s, kv)"
  shows "sched_inv kv s" and "pages_inv D s" and "mgr_inv (manager s)" and "\<exists>pc. cache s = Some pc \<and> cache_good kv pc (manager s)"
  using assms by (auto simp: world_ok_def sched_inv_def pool_good_def)

lemma pool_changed_manager [simp]:
  "num_blocks (allocator m) = num_blocks (allocator (manager s)) \<Longrightarrow> mgr_block_size m = mgr_block_size (manager s) \<Longrightarrow>
   pool_changed s (s\<lparr>manager := m\<rparr>)"
  by (simp add: pool_changed_def)

lemma pool_changed_refl [simp]: "pool_changed s s"
  by (simp add: pool_changed_def)

lemma pool_changed_trans [trans]: "pool_changed s s1 \<Longrightarrow> pool_changed s1 s2 \<Longrightarrow> pool_changed s s2"
  unfolding pool_changed_def
  by (metis (no_types, lifting) sched.surjective sched.update_convs(1,3))

lemma world_manager_op:
  assumes ok: "world_ok D (s, kv)" and opn: "\<not> is_cache_call opn"
    and dom: "dom (requests (mgr_exec opn (manager s))) = dom (requests (manager s))"
  shows "world_ok D (s\<lparr>manager := mgr_exec opn (manager s)\<rparr>, kv)"
proof -
  note d = world_okD [OF ok]
  from d(4) obtain pc where pc: "cache s = Some pc" by blast
  have "s\<lparr>manager := mgr_exec opn (manager s), cache := Some pc\<rparr> = s\<lparr>manager := mgr_exec opn (manager s)\<rparr>"
    using pc by simp
  with pool_step [OF d(1,2) pc step_manager [OF opn] dom] pc show ?thesis by (simp add: world_ok_def)
qed

lemma world_write:
  assumes ok: "world_ok D (s, kv)" and a: "requests (manager s) rid = Some a"
    and b: "b \<in> set (physical_block_ids a)" and own: "sole (manager s) rid b"
  shows "world_ok D (s, kv(b := xs))"
proof -
  note d = world_okD [OF ok]
  from d(4) obtain pc where pc: "cache s = Some pc" by blast
  have "refcounts (allocator (manager s)) ! b = 1"
    using sole_refcount(1) [OF d(3) a b] own mgr_owner(3) [OF d(3) a b] by linarith
  note step = pool_step [OF d(1,2) pc step_write [OF a b this] refl]
  have same: "s\<lparr>manager := manager s, cache := Some pc\<rparr> = s" using pc by (cases s) simp
  from step [of xs, unfolded same] pc show ?thesis by (simp add: world_ok_def)
qed

lemma evict_pages_ok:
  assumes ok: "world_ok D (s, kv)" and k: "0 \<le> k"
  shows "\<exists>s'. evict_pages k s = Inr s' \<and> world_ok D (s', kv) \<and> pool_changed s s' \<and> mem_step (s, kv) (s', kv) \<and>
    requests (manager s') = requests (manager s)"
proof -
  note d = world_okD [OF ok]
  from d(4) obtain pc where pc: "cache s = Some pc" "cache_good kv pc (manager s)" by blast
  from evict_while_good [OF pc(2), of "\<lambda>pc m. free_block_count (allocator m) < k" True] obtain pc' m' where
    e: "evict_while (\<lambda>pc m. free_block_count (allocator m) < k) True pc (manager s) = Inr (pc', m')"
      "cache_good kv pc' m'" "same_pool (manager s) m'" by blast
  obtain n where run: "evict_until_free k pc (manager s) = Inr (n, pc', m')"
    using e(1) k by (simp add: evict_until_free_def)
  have w: "world_ok D (s\<lparr>manager := m', cache := Some pc'\<rparr>, kv)"
    using pool_step [OF d(1,2) pc(1) step_evict [OF run]] e(3) by (simp add: world_ok_def same_pool_def)
  moreover have "keeps_tables (manager s) kv m' kv"
    using e(3) evict_while_owners [OF e(1)] world_okD(3) [OF w]
    by (intro keeps_tables_drop d(3)) (simp_all add: same_pool_def)
  then have "mem_step (s, kv) (s\<lparr>manager := m', cache := Some pc'\<rparr>, kv)"
    using e(3) by (intro mem_step_same_lengths) (simp_all add: same_pool_def)
  ultimately show ?thesis
    using run pc(1) e(3) by (simp add: evict_pages_def pool_changed_def same_pool_def)
qed


lemma copy_on_write_const:
  "copy_on_write_tail m rid = Inr (c, m') \<Longrightarrow>
     num_blocks (allocator m') = num_blocks (allocator m) \<and> mgr_block_size m' = mgr_block_size m"
  by (auto simp: copy_on_write_tail_def Let_def split: option.splits if_splits dest!: replace_shared_const)

lemma copy_on_write_total:
  assumes inv: "mgr_inv m" and a: "requests m rid = Some a" and "sequence_length a mod mgr_block_size m \<noteq> 0"
    and "\<not> refcounts (allocator m) ! last (physical_block_ids a) \<le> 1"
  shows "\<exists>c m'. copy_on_write_tail m rid = Inr (c, m')"
proof -
  note r = mgr_inv_request [OF inv a]
  have idx: "nat (- 1 mod int (length (physical_block_ids a))) = length (physical_block_ids a) - 1"
    using r(7) by (cases "physical_block_ids a") (simp_all add: zmod_minus1 nat_diff_distrib)
  have "last (physical_block_ids a) = physical_block_ids a ! (length (physical_block_ids a) - 1)"
    using r(7) by (rule last_conv_nth)
  moreover have "Suc 0 \<le> length (physical_block_ids a)" using r(7) by (cases "physical_block_ids a") simp_all
  ultimately have "\<exists>q al. block_replace_shared (allocator m) (Req rid) (- 1) = Inr (q, al)"
    using r(5) assms(4) idx by (cases "free_blocks (allocator m) = []") (simp_all add: block_replace_shared_def Let_def)
  then obtain q al where "block_replace_shared (allocator m) (Req rid) (- 1) = Inr (q, al)" by blast
  then show ?thesis using a assms(3) by (cases q) (auto simp: copy_on_write_tail_def Let_def)
qed

text \<open>The tail: afterwards the block the next token goes to is the request's own.\<close>

lemma tail_ok:
  assumes ok: "world_ok D (s, kv)" and a: "requests (manager s) rid = Some a"
  shows "\<exists>b s' kv'. ensure_writable_tail rid (s, kv) = Inr (b, s', kv') \<and> world_ok D (s', kv') \<and> pool_changed s s' \<and>
    mem_step (s, kv) (s', kv') \<and> dom (requests (manager s')) = dom (requests (manager s)) \<and>
    (\<forall>a'. requests (manager s') rid = Some a' \<longrightarrow> length (physical_block_ids a') = length (physical_block_ids a) \<and>
       (b \<and> sequence_length a mod mgr_block_size (manager s) \<noteq> 0 \<longrightarrow> sole (manager s') rid (last (physical_block_ids a'))))"
    (is "\<exists>b s' kv'. ?P b s' kv'")
proof -
  let ?m = "manager s" and ?tail = "last (physical_block_ids a)"
  note d = world_okD [OF ok]
  have ne: "physical_block_ids a \<noteq> []" by (rule mgr_inv_request(7) [OF d(3) a])
  then have mem: "?tail \<in> set (physical_block_ids a)" by simp
  note count = sole_refcount [OF d(3) a mem]
  show ?thesis
  proof (cases "sequence_length a mod mgr_block_size ?m = 0 \<or> sole ?m rid ?tail")
    case True
    then have "ensure_writable_tail rid (s, kv) = Inr (True, s, kv)"
      using a ne count by (auto simp: ensure_writable_tail_def Let_def)
    with True ok a show ?thesis by (intro exI [of _ True] exI [of _ s] exI [of _ kv]) auto
  next
    case False
    then have shared: "\<not> refcounts (allocator ?m) ! ?tail \<le> 1" and part: "sequence_length a mod mgr_block_size ?m \<noteq> 0"
      using count by simp_all
    obtain s1 where s1: "(if free_block_count (allocator ?m) = 0 then evict_pages 1 s else Inr s) = Inr s1"
      "world_ok D (s1, kv)" "pool_changed s s1" "mem_step (s, kv) (s1, kv)" "requests (manager s1) = requests ?m"
      using evict_pages_ok [OF ok, of 1] ok by (cases "free_block_count (allocator ?m) = 0") auto
    note d1 = world_okD [OF s1(2)]
    have a1: "requests (manager s1) rid = Some a" using s1(5) a by simp
    note count1 = sole_refcount [OF d1(3) a1 mem]
    have bs: "mgr_block_size (manager s1) = mgr_block_size ?m" using s1(3) by (simp add: pool_changed_def)
    show ?thesis
    proof (cases "sole (manager s1) rid ?tail")
      case True
      then have "ensure_writable_tail rid (s, kv) = Inr (True, s1, kv)"
        using a ne count count1 shared part s1(1) by (simp add: ensure_writable_tail_def Let_def)
      with True s1 a1 show ?thesis by (intro exI [of _ True] exI [of _ s1] exI [of _ kv]) auto
    next
      case False
      then have shared1: "\<not> refcounts (allocator (manager s1)) ! ?tail \<le> 1" using count1 by simp
      obtain c m' where cow: "copy_on_write_tail (manager s1) rid = Inr (c, m')"
        using copy_on_write_total [OF d1(3) a1 _ shared1] part bs by auto
      have run: "ensure_writable_tail rid (s, kv) = Inr (case c of None \<Rightarrow> (False, s1\<lparr>manager := m'\<rparr>, kv)
          | Some (old, new) \<Rightarrow> (True, s1\<lparr>manager := m'\<rparr>, kv(new := kv old)))"
        using a ne count count1 shared shared1 part s1(1) cow
        by (cases c) (auto simp: ensure_writable_tail_def Let_def)
      have m': "m' = mgr_exec (CopyOnWrite rid) (manager s1)" using cow by simp
      show ?thesis
      proof (cases c)
        case None
        then have same: "m' = manager s1"
          using cow a1 by (auto simp: copy_on_write_tail_def block_replace_shared_def Let_def split: option.splits if_splits)
        with None run s1 a1 show ?thesis by (intro exI [of _ False] exI [of _ s1] exI [of _ kv]) simp
      next
        case (Some p)
        obtain old new where p: "p = (old, new)" by fastforce
        note cow' = cow [unfolded Some p]
        from copy_on_write_run [OF d1(3) cow'] obtain a2 al where a2: "requests (manager s1) rid = Some a2"
          "old = last (physical_block_ids a2)"
          "m' = manager s1\<lparr>allocator := al, requests := (requests (manager s1))(rid \<mapsto>
             a2\<lparr>physical_block_ids := (physical_block_ids a2)[length (physical_block_ids a2) - 1 := new]\<rparr>)\<rparr>" by blast
        have dom: "dom (requests m') = dom (requests (manager s1))" using a2(1,3) by auto
        have ok2: "world_ok D (s1\<lparr>manager := m'\<rparr>, kv)"
          unfolding m' using world_manager_op [OF s1(2), of "CopyOnWrite rid"] dom [unfolded m'] by simp
        obtain a3 where a3: "requests m' rid = Some a3" "length (physical_block_ids a3) = length (physical_block_ids a)"
          "last (physical_block_ids a3) = new" "physical_block_ids a3 \<noteq> []"
          using a2 a1 ne by (auto simp: last_conv_nth)
        have own: "sole m' rid new" using keeps_tables_cow(2) [OF d1(3) cow' a3(1)] a3(3) by simp
        have "new \<in> set (physical_block_ids a3)" using a3(3,4) last_in_set by blast
        then have "world_ok D (s1\<lparr>manager := m'\<rparr>, kv(new := kv old))"
          using world_write [OF ok2, of rid a3 new] a3(1) own by simp
        moreover have "mem_step (s1, kv) (s1\<lparr>manager := m'\<rparr>, kv(new := kv old))"
          using keeps_tables_cow(1) [OF d1(3) cow'] a2(1,3) by (intro mem_step_same_lengths) (auto split: if_splits)
        then have "mem_step (s, kv) (s1\<lparr>manager := m'\<rparr>, kv(new := kv old))" using s1(4) mem_step_trans by blast
        moreover have "pool_changed s (s1\<lparr>manager := m'\<rparr>)"
          using s1(3) copy_on_write_const [OF cow] by (auto intro: pool_changed_trans)
        ultimately have "?P True (s1\<lparr>manager := m'\<rparr>) (kv(new := kv old))"
          using run Some p s1(5) a3 own dom by simp
        then show ?thesis by blast
      qed
    qed
  qed
qed


text \<open>
  The contract of one attempt: it answers, and success means the table covers the target
  and the block of the next position is the request's own.
\<close>

definition writable_to :: "kv_manager \<Rightarrow> string \<Rightarrow> int \<Rightarrow> bool" where
  "writable_to m rid target \<longleftrightarrow>
     (\<exists>a. requests m rid = Some a \<and> target \<le> capacity_tokens a)"

lemma ensure_capacity_total:
  assumes inv: "mgr_inv m" and a: "requests m rid = Some a" and "sequence_length a \<le> target"
  shows "\<exists>b m'. ensure_capacity m rid target = Inr (b, m')"
proof -
  let ?x = "ceil_div target (mgr_block_size m) - int (length (physical_block_ids a))"
  have "\<exists>q al. block_extend (allocator m) (Req rid) ?x = Inr (q, al)" if "\<not> ?x \<le> 0"
    using that mgr_inv_request(5) [OF inv a] by (auto simp: block_extend_def split: prod.splits)
  then have "\<not> ?x \<le> 0 \<Longrightarrow> \<exists>al ids. block_extend (allocator m) (Req rid) ?x = Inr (None, al) \<or>
      block_extend (allocator m) (Req rid) ?x = Inr (Some ids, al)" by (metis option.exhaust)
  with assms(2,3) show ?thesis
    by (cases "?x \<le> 0") (fastforce simp: ensure_capacity_def Let_def)+
qed

lemma ensure_capacity_other:
  assumes inv: "mgr_inv m" and run: "ensure_capacity m rid target = Inr (b, m')"
    and "r \<noteq> rid \<or> requests m rid = Some c \<and> target = sequence_length c"
  shows "requests m' r = requests m r"
  using inv run
proof (cases rule: ensure_capacity_run)
  case (1 a)
  have "m' = m" if "r = rid"
  proof -
    from that assms(3) 1(1) have t: "target = sequence_length a" by auto
    have "ceil_div target (mgr_block_size m) - int (length (physical_block_ids a)) \<le> 0"
      using mgr_inv_request(2,4) [OF inv 1(1)] t ceil_div_le_iff [OF mgr_invD(4) [OF inv]] by (simp add: capacity_tokens_def)
    with run 1(1) show ?thesis by (auto simp: ensure_capacity_def Let_def split: if_splits)
  qed
  show ?thesis
  proof (cases "r = rid")
    case True
    with \<open>r = rid \<Longrightarrow> m' = m\<close> show ?thesis by simp
  next
    case False
    with run show ?thesis by (auto simp: ensure_capacity_def Let_def split: option.splits if_splits)
  qed
qed

lemma ensure_capacity_const:
  "ensure_capacity m rid target = Inr (b, m') \<Longrightarrow>
     num_blocks (allocator m') = num_blocks (allocator m) \<and> mgr_block_size m' = mgr_block_size m \<and>
     dom (requests m') = dom (requests m)"
  by (auto simp: ensure_capacity_def Let_def split: option.splits if_splits dest!: extend_const)

lemma kv_capacity_ok:
  assumes ok: "world_ok D w" and a: "requests (manager (fst w)) rid = Some a" and le: "sequence_length a \<le> target"
  shows "\<exists>b w'. ensure_kv_capacity rid target w = Inr (b, w') \<and> world_ok D w' \<and> pool_changed (fst w) (fst w') \<and>
    mem_step w w' \<and> dom (requests (manager (fst w'))) = dom (requests (manager (fst w))) \<and>
    (b \<longrightarrow> writable_to (manager (fst w')) rid target) \<and>
    (b \<and> shared_shape (manager (fst w)) \<and> sequence_length a < target \<longrightarrow> owns_rest (manager (fst w')) rid)"
proof -
  obtain s kv where w: "w = (s, kv)" by (cases w)
  let ?m = "manager s"
  have a: "requests ?m rid = Some a" and ok: "world_ok D (s, kv)" using a ok by (simp_all add: w)
  obtain b1 s1 kv1 where t: "(if target > sequence_length a then ensure_writable_tail rid (s, kv) else Inr (True, s, kv)) = Inr (b1, s1, kv1)"
    "world_ok D (s1, kv1)" "pool_changed s s1" "mem_step (s, kv) (s1, kv1)" "dom (requests (manager s1)) = dom (requests ?m)"
    and tail: "\<forall>a'. requests (manager s1) rid = Some a' \<longrightarrow> length (physical_block_ids a') = length (physical_block_ids a) \<and>
       (b1 \<and> sequence_length a < target \<and> sequence_length a mod mgr_block_size ?m \<noteq> 0 \<longrightarrow> sole (manager s1) rid (last (physical_block_ids a')))"
    using tail_ok [OF ok a] ok a by (cases "target > sequence_length a") auto
  from t(5) a obtain a1 where a1: "requests (manager s1) rid = Some a1" by blast
  from t(4) a1 a have k1: "table_kept ?m kv a (manager s1) kv1 a1 rid" by (simp add: mem_step_def keeps_tablesD)
  then have seq1: "sequence_length a1 = sequence_length a" by (simp add: table_kept_def)
  show ?thesis
  proof (cases b1)
    case False
    have "ensure_kv_capacity rid target (s, kv) = Inr (False, s1, kv1)" using a t(1) False by (simp add: ensure_kv_capacity_def)
    with t show ?thesis by (intro exI [of _ False] exI [of _ "(s1, kv1)"]) (simp add: w)
  next
    case True
    let ?extra = "max 0 (ceil_div target (mgr_block_size (manager s1)) - int (length (physical_block_ids a)))"
    obtain s2 where e: "(if ?extra > free_block_count (allocator (manager s1)) then evict_pages ?extra s1 else Inr s1) = Inr s2"
      "world_ok D (s2, kv1)" "pool_changed s1 s2" "mem_step (s1, kv1) (s2, kv1)" "requests (manager s2) = requests (manager s1)"
      using evict_pages_ok [OF t(2), of ?extra] t(2) by (cases "?extra > free_block_count (allocator (manager s1))") auto
    note d2 = world_okD [OF e(2)]
    have a2: "requests (manager s2) rid = Some a1" using e(5) a1 by simp
    obtain b m' where g: "ensure_capacity (manager s2) rid target = Inr (b, m')"
      using ensure_capacity_total [OF d2(3) a2, of target] seq1 le by auto
    note const = ensure_capacity_const [OF g]
    have run: "ensure_kv_capacity rid target (s, kv) = Inr (b, s2\<lparr>manager := m'\<rparr>, kv1)"
      using a t(1) True e(1) g by (simp add: ensure_kv_capacity_def Let_def)
    have m': "m' = mgr_exec (EnsureCapacity rid target) (manager s2)" using g by simp
    have ok': "world_ok D (s2\<lparr>manager := m'\<rparr>, kv1)"
      unfolding m' using const [unfolded m'] by (intro world_manager_op [OF e(2)]) simp_all
    have kept: "keeps_tables ?m kv m' kv1"
      using t(4) e(4) keeps_tables_grow [OF d2(3) g, of kv1] by (auto simp: mem_step_def intro: keeps_tables_trans)
    have changed: "pool_changed s (s2\<lparr>manager := m'\<rparr>)"
      using t(3) e(3) const by (auto intro: pool_changed_trans)
    have dom: "dom (requests m') = dom (requests ?m)" using const e(5) t(5) by simp
    have fits: "writable_to m' rid target" if b
      using ensure_capacity_fits [OF d2(3), of rid target m'] g that unfolding writable_to_def by auto
    have own: "owns_rest m' rid" if shape: "shared_shape ?m" and more: "sequence_length a < target"
      unfolding owns_rest_def
    proof (intro allI impI)
      fix a' i assume a': "requests m' rid = Some a'" and i: "i < length (physical_block_ids a')"
        and past: "sequence_length a' < int (Suc i) * mgr_block_size m'"
      have "table_kept (manager s1) kv1 a1 m' kv1 a' rid"
        using keeps_tables_trans [OF _ keeps_tables_grow [OF d2(3) g, of kv1]] e(4) a' a1
        by (auto simp: mem_step_def intro: keeps_tablesD)
      moreover have "sole (manager s1) rid (physical_block_ids a1 ! i)" if lt: "i < length (physical_block_ids a1)"
      proof (cases "sole ?m rid (physical_block_ids a ! i)")
        case True
        with k1 lt show ?thesis using tail a1 by (auto simp: table_kept_def)
      next
        case False
        have len: "length (physical_block_ids a1) = length (physical_block_ids a)" using tail a1 by simp
        have bs: "mgr_block_size m' = mgr_block_size ?m" using const changed by (simp add: pool_changed_def)
        have "sequence_length a' = sequence_length a"
          using keeps_tablesD [OF kept a' a] by (simp add: table_kept_def)
        with past bs have near2: "sequence_length a < int (Suc i) * mgr_block_size ?m" by simp
        have "i < length (physical_block_ids a)" using lt len by simp
        from shape [unfolded shared_shape_def, rule_format, OF a this] False near2 have
          near: "int i * mgr_block_size ?m < sequence_length a" "sequence_length a < int (Suc i) * mgr_block_size ?m"
          and last: "Suc i = length (physical_block_ids a)" by linarith+
        have pos: "0 < mgr_block_size ?m" by (rule mgr_invD(4) [OF world_okD(3) [OF ok]])
        have "sequence_length a mod mgr_block_size ?m \<noteq> 0"
        proof
          assume "sequence_length a mod mgr_block_size ?m = 0"
          then obtain q where q: "sequence_length a = mgr_block_size ?m * q" by (auto simp: mod_eq_0_iff_dvd elim: dvdE)
          with near pos have "int i < q" "q < int (Suc i)" by (simp_all add: mult.commute)
          then show False by simp
        qed
        with tail a1 True \<open>b1\<close> more have "sole (manager s1) rid (last (physical_block_ids a1))" by simp
        moreover have "last (physical_block_ids a1) = physical_block_ids a1 ! i"
          using last len lt by (metis diff_Suc_1 last_conv_nth length_0_conv not_less_zero)
        ultimately show ?thesis by simp
      qed
      ultimately show "sole m' rid (physical_block_ids a' ! i)"
        using i by (cases "i < length (physical_block_ids a1)") (auto simp: table_kept_def)
    qed
    have "shared_shape m'" if shape: "shared_shape ?m"
    proof (rule shared_shape_kept [OF keeps_tables_grow [OF d2(3) g, of kv1]])
      show "shared_shape (manager s2)" using shape t(4) e(4) by (simp add: mem_step_def)
      fix r x assume x: "requests m' r = Some x"
      show "(\<exists>c. requests (manager s2) r = Some c \<and> length (physical_block_ids x) = length (physical_block_ids c)) \<or> owns_rest m' r"
      proof (cases "r = rid \<and> sequence_length a < target")
        case True
        with own shape show ?thesis by simp
      next
        case False
        with le seq1 a2 have "r \<noteq> rid \<or> requests (manager s2) rid = Some a1 \<and> target = sequence_length a1" by auto
        from ensure_capacity_other [OF d2(3) g this] x have "requests (manager s2) r = Some x" by simp
        then show ?thesis by blast
      qed
    qed
    with kept have "mem_step (s, kv) (s2\<lparr>manager := m'\<rparr>, kv1)" by (simp add: mem_step_def)
    then show ?thesis
      unfolding w using run ok' changed dom fits own
      by (intro exI [of _ b] exI [of _ "(s2\<lparr>manager := m'\<rparr>, kv1)"]) simp
  qed
qed


section \<open>Yielding\<close>

lemma newest_activeD:
  assumes "newest_active s = Some v"
  shows "v \<in> snd ` set (active s)" and "\<forall>q \<in> snd ` set (active s). arrival_key q \<le> arrival_key v"
proof -
  from assms obtain r rs where rs: "map snd (active s) = r # rs" and v: "v = greatest_by arrival_key r rs"
    by (auto simp: newest_active_def split: list.splits)
  have set: "snd ` set (active s) = insert r (set rs)" using arg_cong [OF rs, of set] by simp
  show "v \<in> snd ` set (active s)" using greatest_by_in [of arrival_key r rs] set v by simp
  show "\<forall>q \<in> snd ` set (active s). arrival_key q \<le> arrival_key v"
    using greatest_by_ge [of _ r rs arrival_key] set v by simp
qed

lemma newest_active_None: "newest_active s = None \<longleftrightarrow> active s = []"
  by (auto simp: newest_active_def split: list.splits)

text \<open>What one call of \<open>_acquire_capacity\<close> does to the requests: \<open>older\<close> is the requester.\<close>

definition yielded :: "request \<Rightarrow> sched \<Rightarrow> sched \<Rightarrow> bool" where
  "yielded older s s' \<longleftrightarrow>
     set (waiting s) \<subseteq> set (waiting s') \<and> progress_epoch s' = progress_epoch s \<and>
     (\<forall>x. map_of (active s) x = None \<longrightarrow> map_of (active s') x = None) \<and>
     (\<forall>x r. map_of (active s) x = Some r \<longrightarrow>
        map_of (active s') x = Some r \<or>
        map_of (active s') x = None \<and> arrival_key older \<le> arrival_key r \<and>
        (\<exists>q \<in> set (waiting s'). request_id q = x \<and> output_token_ids q = output_token_ids r \<and> state q = WAITING))"

lemma yielded_refl: "active s' = active s \<Longrightarrow> waiting s' = waiting s \<Longrightarrow> progress_epoch s' = progress_epoch s \<Longrightarrow> yielded r s s'"
  by (auto simp: yielded_def)

lemma yielded_trans:
  assumes 1: "yielded r s s1" and 2: "yielded r s1 s2"
  shows "yielded r s s2"
proof -
  have "map_of (active s2) x = Some q \<or>
      map_of (active s2) x = None \<and> arrival_key r \<le> arrival_key q \<and>
      (\<exists>z \<in> set (waiting s2). request_id z = x \<and> output_token_ids z = output_token_ids q \<and> state z = WAITING)"
    if q: "map_of (active s) x = Some q" for x q
  proof (cases "map_of (active s1) x = Some q")
    case True
    with 2 show ?thesis by (auto simp: yielded_def)
  next
    case False
    with 1 q have gone: "map_of (active s1) x = None" "arrival_key r \<le> arrival_key q"
      "\<exists>z \<in> set (waiting s1). request_id z = x \<and> output_token_ids z = output_token_ids q \<and> state z = WAITING"
      by (auto simp: yielded_def)
    with 2 show ?thesis by (auto simp: yielded_def)
  qed
  with 1 2 show ?thesis by (auto simp: yielded_def)
qed

lemma preempt_world:
  assumes ok: "world_ok D (s, kv)" and v: "map_of (active s) vid = Some v"
  shows "\<exists>r' s'. preempt now vid reason s = Inr (r', s') \<and> world_ok D (s', kv) \<and> mem_step (s, kv) (s', kv) \<and>
    active s' = AList.delete vid (active s) \<and>
    requests (manager s') = (requests (manager s))(vid := None) \<and>
    (\<forall>older. arrival_key older \<le> arrival_key v \<longrightarrow> yielded older s s')"
proof -
  note d = world_okD [OF ok]
  from preempt_ok [OF d(1) v, of now reason] obtain r' s' where p: "preempt now vid reason s = Inr (r', s')"
    "sched_inv kv s'" "request_id r' = vid" "output_token_ids r' = output_token_ids v" "state r' = WAITING"
    "active s' = AList.delete vid (active s)" "waiting s' = requeue_in_arrival_order r' (waiting s)"
    "requests (manager s') = (requests (manager s))(vid := None)" "progress_epoch s' = progress_epoch s" "cache s' = cache s"
    "mgr_block_size (manager s') = mgr_block_size (manager s)" by blast
  have ok': "world_ok D (s', kv)"
    using preempt_step [OF d(1,2) p(1)] p(10) ok by (simp add: world_ok_def)
  have "allocations (allocator (manager s')) w = None \<or>
      allocations (allocator (manager s')) w = allocations (allocator (manager s)) w" for w
    using p(1) by (auto simp: preempt_def pop_active_def release_pages_def mgr_release_def block_release_def
        split: option.splits prod.splits)
  then have "keeps_tables (manager s) kv (manager s') kv"
    using p(8,11) world_okD(3) [OF ok'] d(3) by (intro keeps_tables_drop) (auto split: if_splits)
  then have "mem_step (s, kv) (s', kv)" using p(8) by (intro mem_step_same_lengths) (auto split: if_splits)
  moreover have "yielded older s s'" if "arrival_key older \<le> arrival_key v" for older
    using that v p(3-7,9) by (auto simp: yielded_def requeue_set delete_conv')
  ultimately show ?thesis using p ok' by auto
qed

text \<open>The outcomes: the request fits, or it has yielded itself, or it is alone and the pool is too small.\<close>

definition acquired :: "string \<Rightarrow> int \<Rightarrow> request \<Rightarrow> sched_world \<Rightarrow> bool \<Rightarrow> sched_world \<Rightarrow> bool" where
  "acquired rid target r w b w' \<longleftrightarrow>
     (if b then map_of (active (fst w')) rid = Some r \<and> writable_to (manager (fst w')) rid target \<and>
        (shared_shape (manager (fst w)) \<and> (\<forall>a. requests (manager (fst w)) rid = Some a \<longrightarrow> sequence_length a < target) \<longrightarrow>
           owns_rest (manager (fst w')) rid)
      else map_of (active (fst w')) rid = None \<or> active (fst w') = [(rid, r)])"

lemma acquire_ok:
  assumes ok: "world_ok D w" and r: "map_of (active (fst w)) rid = Some r"
    and le: "\<And>a. requests (manager (fst w)) rid = Some a \<Longrightarrow> sequence_length a \<le> target"
  shows "\<exists>b w'. acquire_capacity clk rid target w = Inr (b, w') \<and> world_ok D w' \<and> mem_step w w' \<and>
    yielded r (fst w) (fst w') \<and>
    acquired rid target r w b w'"
  using assms
proof (induction clk rid target w rule: acquire_capacity.induct)
  case (1 clk rid target w)
  note ok = 1(2) and r = 1(3) and le = 1(4)
  note d = sched_invD [of "snd w" "fst w"]
  have inv: "sched_inv (snd w) (fst w)" using ok by (simp add: world_ok_def)
  obtain a where a: "requests (manager (fst w)) rid = Some a" using sched_invD(6) [OF inv r] by blast
  from kv_capacity_ok [OF ok a le [OF a]] obtain b w1 where e: "ensure_kv_capacity rid target w = Inr (b, w1)"
    "world_ok D w1" "pool_changed (fst w) (fst w1)" "mem_step w w1"
    "dom (requests (manager (fst w1))) = dom (requests (manager (fst w)))"
    "b \<longrightarrow> writable_to (manager (fst w1)) rid target"
    "b \<and> shared_shape (manager (fst w)) \<and> sequence_length a < target \<longrightarrow> owns_rest (manager (fst w1)) rid" by blast
  note same = pool_changedD [OF e(3)]
  have y1: "yielded r (fst w) (fst w1)" using same by (intro yielded_refl) simp_all
  have eq: "acquire_capacity clk rid target w = (if b then Inr (True, w1) else case newest_active (fst w1) of
      None \<Rightarrow> Inr (False, w1)
    | Some victim \<Rightarrow>
        if request_id victim = rid \<and> length (active (fst w1)) \<le> 1 then Inr (False, w1)
        else and_then (preempt (clk (request_id victim)) (request_id victim) ''PREEMPTED'' (fst w1)) (\<lambda>(_, s2).
          if request_id victim = rid then Inr (False, s2, snd w1)
          else acquire_capacity clk rid target (s2, snd w1)))"
    using e(1) by (simp add: acquire_capacity.simps [of clk rid target w])
  have r1: "map_of (active (fst w1)) rid = Some r" using r same by simp
  show ?case
  proof (cases b)
    case True
    with eq e y1 r1 a show ?thesis by (intro exI [of _ True] exI [of _ w1]) (simp add: acquired_def)
  next
    case False
    from r1 have "active (fst w1) \<noteq> []" by auto
    then obtain v where v: "newest_active (fst w1) = Some v" using newest_active_None by (cases "newest_active (fst w1)") auto
    note nv = newest_activeD [OF v]
    have inv1: "sched_inv (snd w1) (fst w1)" using e(2) by (simp add: world_ok_def)
    from nv(1) obtain vid where "(vid, v) \<in> set (active (fst w1))" by auto
    then have "map_of (active (fst w1)) vid = Some v" using sched_invD(3) [OF inv1] by simp
    with sched_invD(6) [OF inv1 this] have mv: "map_of (active (fst w1)) (request_id v) = Some v" by simp
    have "r \<in> snd ` set (active (fst w1))" using map_of_SomeD [OF r1] by force
    then have key: "arrival_key r \<le> arrival_key v" using nv(2) by blast
    have ok1: "world_ok D (fst w1, snd w1)" using e(2) by simp
    from preempt_world [OF ok1 mv, of "clk (request_id v)" "''PREEMPTED''"] obtain r' s2 where
      p: "preempt (clk (request_id v)) (request_id v) ''PREEMPTED'' (fst w1) = Inr (r', s2)"
        "world_ok D (s2, snd w1)" "mem_step w1 (s2, snd w1)" "active s2 = AList.delete (request_id v) (active (fst w1))"
        "requests (manager s2) = (requests (manager (fst w1)))(request_id v := None)" "yielded r (fst w1) s2"
      using key by auto
    show ?thesis
    proof (cases "request_id v = rid")
      case self: True
      show ?thesis
      proof (cases "length (active (fst w1)) \<le> 1")
        case True
        then obtain x where x: "active (fst w1) = [x]" using \<open>active (fst w1) \<noteq> []\<close>
          by (cases "active (fst w1)"; cases "tl (active (fst w1))") auto
        with r1 have "active (fst w1) = [(rid, r)]" by (cases x) (auto split: if_splits)
        with eq False v self True e(2,4) y1 show ?thesis by (intro exI [of _ False] exI [of _ w1]) (simp add: acquired_def)
      next
        case more: False
        then have "acquire_capacity clk rid target w = Inr (False, s2, snd w1)"
          using eq False v self p(1) by simp
        moreover have "mem_step w (s2, snd w1)" using e(4) p(3) by (rule mem_step_trans)
        moreover have "yielded r (fst w) s2" using y1 p(6) by (rule yielded_trans)
        moreover have "map_of (active s2) rid = None" using p(4) self by (simp add: delete_conv')
        ultimately show ?thesis using p(2) by (intro exI [of _ False] exI [of _ "(s2, snd w1)"]) (simp add: acquired_def)
      qed
    next
      case other: False
      have r2: "map_of (active s2) rid = Some r" using p(4) r1 other by (simp add: delete_conv')
      have seqs: "sequence_length a2 = sequence_length a" if "requests (manager s2) rid = Some a2" for a2
      proof -
        have "keeps_tables (manager (fst w)) (snd w) (manager s2) (snd w1)"
          using mem_step_trans [OF e(4) p(3)] by (simp add: mem_step_def)
        from keeps_tablesD [OF this that a] show ?thesis by (simp add: table_kept_def)
      qed
      have "\<exists>b w'. acquire_capacity clk rid target (s2, snd w1) = Inr (b, w') \<and> world_ok D w' \<and> mem_step (s2, snd w1) w' \<and>
        yielded r (fst (s2, snd w1)) (fst w') \<and>
        acquired rid target r (s2, snd w1) b w'"
        by (rule 1(1) [OF e(1) refl False v _ p(1) refl other p(2)]) (use other r2 seqs le a in auto)
      then obtain b' w' where i: "acquire_capacity clk rid target (s2, snd w1) = Inr (b', w')" "world_ok D w'"
        "mem_step (s2, snd w1) w'" "yielded r s2 (fst w')"
        "acquired rid target r (s2, snd w1) b' w'" by auto
      have run: "acquire_capacity clk rid target w = Inr (b', w')" using eq False v other p(1) i(1) by simp
      have m2: "mem_step w (s2, snd w1)" using e(4) p(3) by (rule mem_step_trans)
      then have m: "mem_step w w'" using i(3) by (rule mem_step_trans)
      have y: "yielded r (fst w) (fst w')" using yielded_trans [OF yielded_trans [OF y1 p(6)] i(4)] .
      have "shared_shape (manager (fst w)) \<longrightarrow> shared_shape (manager s2)" using m2 by (simp add: mem_step_def)
      then have "acquired rid target r w b' w'" using i(5) a seqs by (auto simp: acquired_def split: if_splits)
      with run m y i(2) show ?thesis by blast
    qed
  qed
qed


section \<open>The prefix cache of an engine is always there\<close>

lemma acquire_pages_cache: "acquire_pages r s = Inr (got, s1) \<Longrightarrow> cache s \<noteq> None \<Longrightarrow> cache s1 \<noteq> None"
  by (auto simp: acquire_pages_def lookup_prefix_def Let_def split: option.splits if_splits)

lemma admit_loop_cache: "admit_loop clk mx s = Inr (adm, s') \<Longrightarrow> cache s \<noteq> None \<Longrightarrow> cache s' \<noteq> None"
proof (induction clk mx s arbitrary: adm s' rule: admit_loop.induct)
  case (1 clk mx s)
  note eq = admit_loop.simps [of clk mx s]
  show ?case
  proof (cases "waiting s")
    case Nil
    with 1(3,4) show ?thesis by (simp add: eq)
  next
    case (Cons r rest)
    show ?thesis
    proof (cases "over_limit mx s \<or> \<not> reserved_tokens r > effective_capacity_tokens s \<and> epoch_gated r s")
      case True
      with 1(3,4) Cons show ?thesis by (auto simp: eq split: if_splits)
    next
      case live: False
      show ?thesis
      proof (cases "reserved_tokens r > effective_capacity_tokens s")
        case True
        with 1(3) Cons live obtain r' where
          t: "req_transition (clk (request_id r)) REJECTED (Some ''KV_CAPACITY_EXCEEDED'') r = Inr r'"
          and run: "admit_loop clk mx (s\<lparr>waiting := rest, rejected_count := rejected_count s + 1, dropped := dropped s @ [r']\<rparr>) = Inr (adm, s')"
          by (auto simp: eq)
        from 1(1) [OF Cons _ True t run] live 1(4) show ?thesis by simp
      next
        case False
        with 1(3) Cons live obtain got s1 where a: "acquire_pages r s = Inr (got, s1)" by (auto simp: eq)
        note c = acquire_pages_cache [OF a 1(4)]
        show ?thesis
        proof (cases got)
          case None
          with 1(3) Cons live False a c show ?thesis by (auto simp: eq)
        next
          case (Some p)
          obtain k nxt where p: "p = (k, nxt)" by fastforce
          from 1(3) Cons live False a Some p obtain r' more where adr: "admit_request (clk (request_id r)) k nxt r = Inr r'"
            and run: "admit_loop clk mx (s1\<lparr>waiting := rest, active := AList.update (request_id r') r' (active s1),
                 prefill_order := prefill_order s1 @ [request_id r'], admission_count := admission_count s1 + 1\<rparr>) = Inr (more, s')"
            by (auto simp: eq)
          from 1(2) [OF Cons _ False _ a refl Some p [symmetric] adr run] live False c show ?thesis by simp
        qed
      qed
    qed
  qed
qed

lemma sched_step_cache: "sched_step (s, kv) (s', kv') \<Longrightarrow> cache s \<noteq> None \<Longrightarrow> cache s' \<noteq> None"
proof (induction "(s, kv)" "(s', kv')" rule: sched_step.induct)
  case (ss_admit clk mx adm)
  then show ?case by (auto simp: admit_available_def split: if_splits dest: admit_loop_cache)
qed (auto simp: sched_submit_def mark_decoding_def finish_def fail_def cancel_def leave_def pop_active_def release_pages_def
    advance_progress_def preempt_def plan_prefill_def split: option.splits if_splits prod.splits)

section \<open>Graph shapes\<close>

lemma double_until_covers: "0 < b \<Longrightarrow> len \<le> double_until len b"
  by (induction len b rule: double_until.induct) (subst double_until.simps, auto)

lemma double_until_positive: "0 < b \<Longrightarrow> 0 < double_until len b"
  by (induction len b rule: double_until.induct) (subst double_until.simps, auto)

lemma double_until_in_ladder: "0 < b \<Longrightarrow> len \<le> cap \<Longrightarrow> double_until len b \<in> set (bucket_ladder cap b)"
proof (induction len b rule: double_until.induct)
  case (1 len b)
  show ?case
  proof (cases "b < len")
    case True
    with 1 have "double_until len (2 * b) \<in> set (bucket_ladder cap (2 * b))" by simp
    with True 1(2,3) show ?thesis by (simp add: double_until.simps [of len b] bucket_ladder.simps [of cap b])
  next
    case False
    with 1(2) show ?thesis by (simp add: double_until.simps [of len b] bucket_ladder.simps [of cap b])
  qed
qed

lemma graph_bucket_fits: "graph_bucket sizes mx cnt = Some b \<Longrightarrow> b \<in> set sizes \<and> cnt \<le> b \<and> b \<le> mx"
  by (auto simp: graph_bucket_def find_Some_iff)

lemma prefill_row_bucket_fits:
  assumes "prefill_row_bucket sizes mx cnt limit = Some b"
  shows "sizes \<noteq> [] \<and> b \<in> set (1 # sizes) \<and> cnt \<le> b \<and> b \<le> mx \<and> (\<forall>l. limit = Some l \<longrightarrow> b \<le> l)"
proof -
  from assms have "sizes \<noteq> []" "graph_bucket (1 # sizes) mx cnt = Some b" "\<forall>l. limit = Some l \<longrightarrow> b \<le> l"
    by (auto simp: prefill_row_bucket_def split: if_splits option.splits)
  with graph_bucket_fits [OF this(2)] show ?thesis by blast
qed

text \<open>A bucket is its own bucket, as the first that is large enough.\<close>

lemma prefill_row_bucket_own:
  assumes "prefill_row_bucket sizes mx cnt limit = Some b"
  shows "prefill_row_bucket sizes mx b limit = Some b"
proof -
  from assms have g: "graph_bucket (1 # sizes) mx cnt = Some b"
    and rest: "\<And>c. graph_bucket (1 # sizes) mx c = Some b \<Longrightarrow> prefill_row_bucket sizes mx c limit = Some b"
    by (auto simp: prefill_row_bucket_def split: if_splits option.splits)
  from g obtain i where i: "i < length (1 # sizes)" "b = (1 # sizes) ! i" "cnt \<le> b" "b \<le> mx"
    and first: "\<forall>j < i. \<not> (cnt \<le> (1 # sizes) ! j \<and> (1 # sizes) ! j \<le> mx)"
    unfolding graph_bucket_def find_Some_iff by blast
  have "\<forall>j < i. \<not> (b \<le> (1 # sizes) ! j \<and> (1 # sizes) ! j \<le> mx)" using first i(3) by fastforce
  then have "graph_bucket (1 # sizes) mx b = Some b" unfolding graph_bucket_def find_Some_iff using i by blast
  then show ?thesis by (rule rest)
qed

lemma warmup_context:
  assumes "len \<le> (case max_len of None \<Rightarrow> nblocks * bs | Some m \<Rightarrow> if m \<noteq> 0 then min (nblocks * bs) m else nblocks * bs)"
  shows "context_length_for sdpa len \<in> set (warmup_contexts nblocks bs max_len sdpa)"
    and "sdpa \<Longrightarrow> len \<le> context_length_for sdpa len"
    and "(context_length_for sdpa len \<le> 0) = (\<not> sdpa)"
proof -
  show "context_length_for sdpa len \<in> set (warmup_contexts nblocks bs max_len sdpa)"
    using double_until_in_ladder [of 256 len] assms
    by (simp add: context_length_for_def warmup_contexts_def prefill_context_bucket_def warmup_context_buckets_def Let_def)
  show "sdpa \<Longrightarrow> len \<le> context_length_for sdpa len"
    using double_until_covers [of 256 len] by (simp add: context_length_for_def prefill_context_bucket_def)
  show "(context_length_for sdpa len \<le> 0) = (\<not> sdpa)"
    using double_until_positive [of 256 len] by (simp add: context_length_for_def prefill_context_bucket_def)
qed

lemma warmup_prefill_member:
  "(rows, ctx) \<in> set (warmup_prefill_shapes nblocks bs max_len sizes limit sdpa) \<longleftrightarrow>
     sizes \<noteq> [] \<and> rows \<in> set (1 # sizes) \<and> (\<forall>l. limit = Some l \<longrightarrow> rows \<le> l) \<and>
     ctx \<in> set (warmup_contexts nblocks bs max_len sdpa) \<and> shape_is_reachable rows ctx (nblocks * bs)"
proof -
  have "(case limit of None \<Rightarrow> False | Some l \<Rightarrow> r > l) \<longleftrightarrow> \<not> (\<forall>l. limit = Some l \<longrightarrow> r \<le> l)" for r
    by (cases limit) auto
  then show ?thesis unfolding warmup_prefill_shapes_def by auto
qed

lemma warmup_fused_member:
  "(drows, prows, ctx, cfg) \<in> set (warmup_fused_shapes nblocks bs max_len sizes mx fused_limit sdpa regimes) \<longleftrightarrow>
     drows \<in> set sizes \<and> prows \<in> set (1 # sizes) \<and> prefill_row_bucket sizes mx prows (Some fused_limit) = Some prows \<and>
     ctx \<in> set (warmup_contexts nblocks bs max_len sdpa) \<and> shape_is_reachable prows ctx (nblocks * bs) \<and> cfg \<in> set regimes"
proof -
  have row: "(drows, prows, ctx, cfg) \<in> set (if shape_is_reachable p c (nblocks * bs) then map (\<lambda>cfg. (d, p, c, cfg)) regimes else []) \<longleftrightarrow>
      d = drows \<and> p = prows \<and> c = ctx \<and> shape_is_reachable p c (nblocks * bs) \<and> cfg \<in> set regimes" for d p c by auto
  show ?thesis unfolding warmup_fused_shapes_def set_concat set_map UN_iff image_image set_filter mem_Collect_eq bex_simps row by blast
qed

lemma fold_max_int: "x \<in> insert m (set xs) \<Longrightarrow> x \<le> fold max xs (m :: int)"
proof (induction xs arbitrary: m x)
  case (Cons a xs)
  have "max a m \<le> fold max xs (max a m)" by (rule Cons.IH) simp
  with Cons.IH [of x "max a m"] Cons.prems show ?case by auto
qed simp

lemma dummy_slots_ok:
  assumes inv: "mgr_inv m" and run: "reserve_graph_dummy_blocks sizes m = Inr (blocks, slots, m')"
  shows "distinct slots" and "\<forall>(b, off) \<in> set slots. b \<in> set blocks \<and> 0 \<le> off \<and> off < mgr_block_size m"
    and "sizes \<noteq> [] \<Longrightarrow> 0 < x \<Longrightarrow> x \<in> set sizes \<Longrightarrow> x \<le> int (length slots)"
proof -
  let ?n = "fold max sizes (hd sizes)" and ?s = "mgr_block_size m"
  have pos: "0 < ?s" by (rule mgr_invD(4) [OF inv])
  have top: "x \<le> ?n" if "x \<in> set sizes" for x using fold_max_int [of x "hd sizes" sizes] that by simp
  consider "slots = []" "sizes = [] \<or> ?n \<le> 0" | a where "reserve m dummy_rows_id (ceil_div ?n ?s * ?s) 0 = Inr (Some a, m')" "0 < ?n"
      "blocks = physical_block_ids a" "slots = map (\<lambda>i. (blocks ! nat (i div ?s), i mod ?s)) [0..?n - 1]"
    using run by (auto simp: reserve_graph_dummy_blocks_def Let_def split: if_splits option.splits)
  then show "distinct slots" and "\<forall>(b, off) \<in> set slots. b \<in> set blocks \<and> 0 \<le> off \<and> off < ?s"
    and "sizes \<noteq> [] \<Longrightarrow> 0 < x \<Longrightarrow> x \<in> set sizes \<Longrightarrow> x \<le> int (length slots)"
  proof (atomize (full), cases)
    case 1
    then show "distinct slots \<and> (\<forall>(b, off) \<in> set slots. b \<in> set blocks \<and> 0 \<le> off \<and> off < ?s) \<and>
        (sizes \<noteq> [] \<longrightarrow> 0 < x \<longrightarrow> x \<in> set sizes \<longrightarrow> x \<le> int (length slots))"
      using top [of x] by auto
  next
    case (2 a)
    have a: "requests m' dummy_rows_id = Some a" using reserve_effect [OF 2(1)] by simp
    have inv': "mgr_inv m'" by (rule reserve_inv [OF inv 2(1)])
    have "physical_block_ids a = blocks" "distinct blocks" using 2(3) mgr_inv_request(6) [OF inv' a] by simp_all
    have len: "int (length blocks) = ceil_div ?n ?s"
    proof -
      from 2(1) pos have "block_allocate (allocator m) (Req dummy_rows_id) (ceil_div (ceil_div ?n ?s * ?s) ?s)
          = Inr (Some blocks, allocator m')"
        using 2(3) by (auto simp: reserve_def Let_def split: if_splits option.splits)
      then have "int (length blocks) = ceil_div (ceil_div ?n ?s * ?s) ?s"
        using pool.alloc_some [OF mgr_invD(1) [OF inv]] by blast
      also have "\<dots> = ceil_div ?n ?s" using ceil_div_mult [OF pos] .
      finally show ?thesis .
    qed
    have idx: "nat (i div ?s) < length blocks" "0 \<le> i div ?s" if "0 \<le> i" "i < ?n" for i
      using page_index [OF pos that(1), of "length blocks"] ceil_div_covers [OF pos, of ?n] that(2) len by auto
    have "inj_on (\<lambda>i. (blocks ! nat (i div ?s), i mod ?s)) (set [0..?n - 1])"
    proof (rule inj_onI)
      fix i j assume i: "i \<in> set [0..?n - 1]" and j: "j \<in> set [0..?n - 1]"
        and eq: "(blocks ! nat (i div ?s), i mod ?s) = (blocks ! nat (j div ?s), j mod ?s)"
      then have "nat (i div ?s) = nat (j div ?s)"
        using nth_eq_iff_index_eq [OF \<open>distinct blocks\<close> idx(1) [of i] idx(1) [of j]] by simp
      with idx(2) [of i] idx(2) [of j] i j have "i div ?s = j div ?s" by simp
      with eq show "i = j" by (metis div_mult_mod_eq prod.inject)
    qed
    then have "distinct slots" unfolding 2(4) by (simp add: distinct_map)
    moreover have "\<forall>(b, off) \<in> set slots. b \<in> set blocks \<and> 0 \<le> off \<and> off < ?s"
      unfolding 2(4) using idx pos by auto
    moreover have "int (length slots) = ?n" unfolding 2(4) using 2(2) by simp
    ultimately show "distinct slots \<and> (\<forall>(b, off) \<in> set slots. b \<in> set blocks \<and> 0 \<le> off \<and> off < ?s) \<and>
        (sizes \<noteq> [] \<longrightarrow> 0 < x \<longrightarrow> x \<in> set sizes \<longrightarrow> x \<le> int (length slots))"
      using top [of x] by auto
  qed
qed


section \<open>Properties\<close>



end
