(* ===== verification/Engine_Step.thy ===== *)
theory Engine_Step
  imports Engine_Memory Sampler Acceptance
begin

text \<open>
  The iteration of \<open>ContinuousBatchingEngine\<close> (\<open>engine/batching/continuous_batching.py\<close>):
  submission, cancellation and \<open>step\<close> with its decode, prefill, fused and speculative paths.

  A request object is the value held by the scheduler under its id; one that has ended is
  kept in \<open>ended\<close> for whoever submitted it. Keys and values are represented by the tokens
  they were computed from: \<open>pages b\<close> is the token prefix that block \<open>b\<close> ends, so attention
  over a table reads the prefix its blocks hold. The transformer, torch, the clock and the
  token proposer are the parameters in \<open>engine_setup\<close>.
\<close>

section \<open>Loops that may raise\<close>

primrec traverse :: "('a \<Rightarrow> 'b result) \<Rightarrow> 'a list \<Rightarrow> 'b list result" where
  "traverse f [] = Inr []"
| "traverse f (x # xs) = and_then (f x) (\<lambda>y. and_then (traverse f xs) (\<lambda>ys. Inr (y # ys)))"

primrec for_each :: "('a \<Rightarrow> 's \<Rightarrow> 's result) \<Rightarrow> 'a list \<Rightarrow> 's \<Rightarrow> 's result" where
  "for_each f [] s = Inr s"
| "for_each f (x # xs) s = and_then (f x s) (for_each f xs)"

section \<open>Setup and state\<close>

text \<open>
  \<open>model_logits ctx\<close> are the logits after the tokens \<open>ctx\<close>. \<open>clock_at n rid\<close> is the reading
  request \<open>rid\<close> sees when the clock is read for the \<open>n\<close>-th time; a proposer may keep state, so
  it is given the same counter. \<open>graph_ready n\<close>: a captured fused graph is at hand then.
\<close>

record 'g engine_setup =
  model_logits :: "int list \<Rightarrow> logits"
  vocab_size :: nat
  torch :: "'g torch_ops"
  clock_at :: "nat \<Rightarrow> string \<Rightarrow> int"
  graph_ready :: "nat \<Rightarrow> bool"
  proposer :: "(nat \<Rightarrow> string \<Rightarrow> int list \<Rightarrow> int \<Rightarrow> int list) option"
  speculation_depth :: int
  max_active :: int
  prefill_chunk_size :: int
  max_prefill_tokens :: int
  max_model_len :: "int option"
  graph_sizes :: "int list"
  decode_graphs :: bool
  prefill_graphs :: bool
  fused_row_limit :: int
  use_fused_step :: bool
  eos_ids :: "int set"
  pad_token :: int

record 'g engine =
  sch :: sched
  pages :: "nat \<Rightarrow> int list"
  smp :: "'g sampler"
  ended :: "request list"
  ticks :: nat
  dummy_slots :: "(nat \<times> int) list"
  prefill_steps :: int
  decode_only_steps :: int
  fused_steps :: int
  last_step_prefill_tokens :: int
  last_step_decode_rows :: int
  last_step_prefill_path :: string
  prefill_sdpa_calls :: int
  prefill_chunked_calls :: int
  prefill_sdpa_tokens :: int
  prefill_chunked_tokens :: int
  spec_rounds :: int
  spec_proposed :: int
  spec_accepted :: int
  spec_fallbacks :: int

abbreviation mgr :: "'g engine \<Rightarrow> kv_manager" where
  "mgr e \<equiv> manager (sch e)"

definition active_request :: "string \<Rightarrow> 'g engine \<Rightarrow> request option" where
  "active_request rid e = map_of (active (sch e)) rid"

definition table_of :: "string \<Rightarrow> 'g engine \<Rightarrow> kv_allocation option" where
  "table_of rid e = requests (mgr e) rid"

text \<open>\<open>request.state is st and request.allocation is not None\<close>.\<close>

definition live :: "request_state \<Rightarrow> string \<Rightarrow> 'g engine \<Rightarrow> bool" where
  "live st rid e = (case active_request rid e of None \<Rightarrow> False | Some r \<Rightarrow> state r = st \<and> table_of rid e \<noteq> None)"

definition put_request :: "string \<Rightarrow> request \<Rightarrow> 'g engine \<Rightarrow> 'g engine" where
  "put_request rid r e = e\<lparr>sch := (sch e)\<lparr>active := AList.update rid r (active (sch e))\<rparr>\<rparr>"

definition put_manager :: "kv_manager \<Rightarrow> 'g engine \<Rightarrow> 'g engine" where
  "put_manager m e = e\<lparr>sch := (sch e)\<lparr>manager := m\<rparr>\<rparr>"

definition tick :: "'g engine \<Rightarrow> 'g engine" where
  "tick e = e\<lparr>ticks := Suc (ticks e)\<rparr>"

definition with_request :: "string \<Rightarrow> 'g engine \<Rightarrow> (request \<Rightarrow> 'a result) \<Rightarrow> 'a result" where
  "with_request rid e f = (case active_request rid e of None \<Rightarrow> Inl KeyError | Some r \<Rightarrow> f r)"

definition change_request :: "string \<Rightarrow> (request \<Rightarrow> request result) \<Rightarrow> 'g engine \<Rightarrow> 'g engine result" where
  "change_request rid f e = with_request rid e (\<lambda>r. and_then (f r) (\<lambda>r'. Inr (put_request rid r' e)))"

section \<open>Ending a request, getting memory, publishing a prefix\<close>

definition end_request :: "(request \<times> sched) result \<Rightarrow> 'g engine \<Rightarrow> 'g engine result" where
  "end_request res e =
     and_then res (\<lambda>(r, s). Inr (tick (e\<lparr>sch := s, ended := ended e @ [r],
       smp := sampler_forget [RequestKey (request_id r)] (smp e)\<rparr>)))"

definition finish_request :: "'g engine_setup \<Rightarrow> string \<Rightarrow> string \<Rightarrow> 'g engine \<Rightarrow> 'g engine result" where
  "finish_request env rid reason e = end_request (finish (clock_at env (ticks e) rid) rid reason (sch e)) e"

definition fail_request :: "'g engine_setup \<Rightarrow> string \<Rightarrow> string \<Rightarrow> 'g engine \<Rightarrow> 'g engine result" where
  "fail_request env rid reason e = end_request (fail (clock_at env (ticks e) rid) rid reason (sch e)) e"

definition capacity_or_fail :: "'g engine_setup \<Rightarrow> string \<Rightarrow> int \<Rightarrow> 'g engine \<Rightarrow> (bool \<times> 'g engine) result" where
  "capacity_or_fail env rid target e =
     and_then (acquire_capacity (clock_at env (ticks e)) rid target (sch e, pages e)) (\<lambda>(got, s, kv).
       let e1 = tick (e\<lparr>sch := s, pages := kv\<rparr>) in
       if got then Inr (True, e1)
       else if active_request rid e1 = None then Inr (False, e1)
       else and_then (fail_request env rid ''KV_POOL_EXHAUSTED'' e1) (\<lambda>e2. Inr (False, e2)))"

definition publish_prefix :: "string \<Rightarrow> int option \<Rightarrow> int list \<Rightarrow> 'g engine \<Rightarrow> 'g engine result" where
  "publish_prefix rid nxt toks e =
     with_request rid e (\<lambda>r.
       case table_of rid e of
         None \<Rightarrow> Inr e
       | Some a \<Rightarrow>
           if toks = [] then Inr e
           else (case cache (sch e) of
             None \<Rightarrow> Inl TypeError
           | Some pc \<Rightarrow>
               and_then (publish toks a (if can_reuse_cached_prediction (sampling r) then nxt else None) pc (mgr e))
                 (\<lambda>(_, pc', m'). Inr (e\<lparr>sch := (sch e)\<lparr>manager := m', cache := Some pc'\<rparr>\<rparr>))))"

definition end_reason :: "'g engine_setup \<Rightarrow> request \<Rightarrow> int \<Rightarrow> string option" where
  "end_reason env r tok =
     (if tok \<in> stop_token_ids (sampling r) then Some ''STOP''
      else if \<not> ignore_eos (sampling r) \<and> tok \<in> eos_ids env then Some ''EOS''
      else if int (length (output_token_ids r)) \<ge> max_new_tokens r then Some ''LENGTH''
      else None)"

definition finish_if_ended :: "'g engine_setup \<Rightarrow> string \<Rightarrow> int \<Rightarrow> 'g engine \<Rightarrow> 'g engine result" where
  "finish_if_ended env rid tok e =
     with_request rid e (\<lambda>r. case end_reason env r tok of None \<Rightarrow> Inr e | Some reason \<Rightarrow> finish_request env rid reason e)"

definition mark_request :: "'g engine_setup \<Rightarrow> string \<Rightarrow> 'g engine \<Rightarrow> 'g engine result" where
  "mark_request env rid e =
     and_then (mark_decoding (clock_at env (ticks e) rid) rid (sch e)) (\<lambda>(_, s). Inr (tick (e\<lparr>sch := s\<rparr>)))"

definition emit_token :: "'g engine_setup \<Rightarrow> string \<Rightarrow> int \<Rightarrow> 'g engine \<Rightarrow> 'g engine result" where
  "emit_token env rid tok e =
     and_then (change_request rid (append_token (clock_at env (ticks e) rid) tok) e) (\<lambda>e1. Inr (tick e1))"

definition complete_prefill :: "'g engine_setup \<Rightarrow> string \<Rightarrow> int option \<Rightarrow> 'g engine \<Rightarrow> 'g engine result" where
  "complete_prefill env rid predicted e =
     with_request rid e (\<lambda>r.
       if resuming r then
         if output_token_ids r = [] then Inl IndexError
         else and_then (publish_prefix rid None (prompt_token_ids r)
                (put_request rid (r\<lparr>req_next_token_id := Some (last (output_token_ids r))\<rparr>) e)) (\<lambda>e1.
              and_then (mark_request env rid e1) (\<lambda>e2.
                change_request rid complete_resumption e2))
       else case predicted of
         None \<Rightarrow> fail_request env rid ''INVALID_PREFIX_ENTRY'' e
       | Some t \<Rightarrow>
           and_then (publish_prefix rid (Some t) (prompt_token_ids r)
             (put_request rid (r\<lparr>req_next_token_id := Some t\<rparr>) e)) (\<lambda>e1.
           and_then (mark_request env rid e1) (\<lambda>e2.
           and_then (emit_token env rid t e2) (\<lambda>e3.
             finish_if_ended env rid t e3))))"

section \<open>The forward pass over pages\<close>

text \<open>
  A staged row is its input tokens, the position of the first and its block table. Each
  input's key and value go to its position's slot; a position attends to the prefix before
  it. What a block held past the written slot is never read and is dropped here.
\<close>

type_synonym staged_row = "int list \<times> int \<times> nat list"

definition read_prefix :: "int \<Rightarrow> nat list \<Rightarrow> (nat \<Rightarrow> int list) \<Rightarrow> int \<Rightarrow> int list" where
  "read_prefix bs tab kv p = (if p < 0 then [] else take (nat (p + 1)) (kv (tab ! nat (p div bs))))"

definition write_token :: "int \<Rightarrow> nat list \<Rightarrow> int \<Rightarrow> int \<Rightarrow> (nat \<Rightarrow> int list) \<Rightarrow> nat \<Rightarrow> int list" where
  "write_token bs tab p t kv = kv(tab ! nat (p div bs) := read_prefix bs tab kv (p - 1) @ [t])"

primrec write_run :: "int \<Rightarrow> nat list \<Rightarrow> int \<Rightarrow> int list \<Rightarrow> (nat \<Rightarrow> int list) \<Rightarrow> nat \<Rightarrow> int list" where
  "write_run bs tab p [] kv = kv"
| "write_run bs tab p (t # ts) kv = write_run bs tab (p + 1) ts (write_token bs tab p t kv)"

definition write_rows :: "int \<Rightarrow> staged_row list \<Rightarrow> (nat \<Rightarrow> int list) \<Rightarrow> nat \<Rightarrow> int list" where
  "write_rows bs rows kv = fold (\<lambda>(toks, p, tab). write_run bs tab p toks) rows kv"

text \<open>Logits at every input position of a row; a decode or prefill forward projects only the last.\<close>

definition row_logits :: "(int list \<Rightarrow> logits) \<Rightarrow> int \<Rightarrow> (nat \<Rightarrow> int list) \<Rightarrow> staged_row \<Rightarrow> logits list" where
  "row_logits f bs kv row =
     (case row of (toks, p, tab) \<Rightarrow> map (\<lambda>i. f (read_prefix bs tab kv (p + int i))) [0..<length toks])"

definition last_logits :: "(int list \<Rightarrow> logits) \<Rightarrow> int \<Rightarrow> (nat \<Rightarrow> int list) \<Rightarrow> staged_row \<Rightarrow> logits" where
  "last_logits f bs kv row = (case row of (toks, p, tab) \<Rightarrow> f (read_prefix bs tab kv (p + int (length toks) - 1)))"

definition forward_rows :: "'g engine_setup \<Rightarrow> staged_row list \<Rightarrow> 'g engine \<Rightarrow> logits list \<times> 'g engine" where
  "forward_rows env rows e =
     (let bs = mgr_block_size (mgr e); kv = write_rows bs rows (pages e) in
      (map (last_logits (model_logits env) bs kv) rows, e\<lparr>pages := kv\<rparr>))"

section \<open>Sampling\<close>

definition add_logprobs :: "(nat \<times> real) list \<Rightarrow> request \<Rightarrow> request result" where
  "add_logprobs entries r = Inr (r\<lparr>output_logprobs := output_logprobs r @ [entries]\<rparr>)"

text \<open>
  The contexts of the penalties are token ids; a negative id, which no tokenizer and no
  sampler yields and which torch refuses as an index, would read as 0 here.
\<close>

definition penalty_contexts :: "request list \<Rightarrow> nat list list option" where
  "penalty_contexts rs =
     (if list_ex (\<lambda>r. has_penalties (sampling r)) rs
      then Some (map (\<lambda>r. map nat (if penalize_prompt (sampling r) then prompt_token_ids r @ output_token_ids r
                                   else output_token_ids r)) rs)
      else None)"

definition sample_rows :: "'g engine_setup \<Rightarrow> string list \<Rightarrow> logits list \<Rightarrow> 'g engine \<Rightarrow> (int list \<times> 'g engine) result" where
  "sample_rows env ids rows e =
     and_then (traverse (\<lambda>rid. with_request rid e Inr) ids) (\<lambda>rs.
     and_then (sample (torch env) (smp e) (vocab_size env) rows (map sampling rs) (penalty_contexts rs) (Some ids)) (\<lambda>(res, st).
     and_then (for_each (\<lambda>(i, entries). change_request (ids ! i) (add_logprobs entries)) (sr_logprobs res) (e\<lparr>smp := st\<rparr>)) (\<lambda>e1.
       Inr (map int (sr_token_ids res), e1))))"

section \<open>Rows that have memory\<close>

text \<open>
  The loop that acquires capacity for one row after the other. A row whose request left the
  wanted state while an earlier one was served is skipped; at the end those that have been
  preempted since are dropped.
\<close>

fun acquire_rows ::
  "'g engine_setup \<Rightarrow> request_state \<Rightarrow> (request \<Rightarrow> kv_allocation \<Rightarrow> 'x \<Rightarrow> int) \<Rightarrow> (string \<times> 'x) list \<Rightarrow> 'g engine
     \<Rightarrow> ((string \<times> 'x) list \<times> 'g engine) result" where
  "acquire_rows env st target [] e = Inr ([], e)"
| "acquire_rows env st target ((rid, x) # rest) e =
     (case (active_request rid e, table_of rid e) of
        (Some r, Some a) \<Rightarrow>
          if state r \<noteq> st then acquire_rows env st target rest e
          else and_then (capacity_or_fail env rid (target r a x) e) (\<lambda>(got, e1).
               and_then (acquire_rows env st target rest e1) (\<lambda>(more, e2).
                 Inr (if got then (rid, x) # more else more, e2)))
      | _ \<Rightarrow> acquire_rows env st target rest e)"

definition viable_rows ::
  "'g engine_setup \<Rightarrow> request_state \<Rightarrow> (request \<Rightarrow> kv_allocation \<Rightarrow> 'x \<Rightarrow> int) \<Rightarrow> (string \<times> 'x) list \<Rightarrow> 'g engine
     \<Rightarrow> ((string \<times> 'x) list \<times> 'g engine) result" where
  "viable_rows env st target rows e =
     and_then (acquire_rows env st target rows e) (\<lambda>(got, e1). Inr (filter (\<lambda>(rid, x). live st rid e1) got, e1))"

definition in_arrival_order :: "'g engine \<Rightarrow> (string \<times> 'x) list \<Rightarrow> (string \<times> 'x) list" where
  "in_arrival_order e rows =
     sort_key (\<lambda>(rid, x). case active_request rid e of None \<Rightarrow> (0, rid) | Some r \<Rightarrow> arrival_key r) rows"

definition prefill_viable :: "'g engine_setup \<Rightarrow> (string \<times> int) list \<Rightarrow> 'g engine \<Rightarrow> ((string \<times> int) list \<times> 'g engine) result" where
  "prefill_viable env plans e = viable_rows env PREFILLING (\<lambda>r a n. prefilled_token_count r + n) plans e"

definition decode_viable :: "'g engine_setup \<Rightarrow> string list \<Rightarrow> 'g engine \<Rightarrow> (string list \<times> 'g engine) result" where
  "decode_viable env ids e =
     and_then (viable_rows env DECODING (\<lambda>r a n. sequence_length a + 1) (in_arrival_order e (map (\<lambda>rid. (rid, ())) ids)) e)
       (\<lambda>(rows, e1). Inr (map fst rows, e1))"

section \<open>Decode\<close>

definition decode_row :: "'g engine \<Rightarrow> string \<Rightarrow> staged_row result" where
  "decode_row e rid =
     (case (active_request rid e, table_of rid e) of
        (Some r, Some a) \<Rightarrow>
          (case req_next_token_id r of
             None \<Rightarrow> Inl RuntimeError
           | Some t \<Rightarrow>
               if sequence_length a \<ge> capacity_tokens a then Inl RuntimeError
               else Inr ([t], sequence_length a, physical_block_ids a))
      | _ \<Rightarrow> Inl RuntimeError)"

text \<open>A padded row writes the pad token to a reserved slot; the slot stands for its length.\<close>

definition prepare_decode_metadata :: "'g engine_setup \<Rightarrow> string list \<Rightarrow> int option \<Rightarrow> 'g engine \<Rightarrow> staged_row list result" where
  "prepare_decode_metadata env ids bucket e =
     (let cnt = int (length ids);
          row_count = (case bucket of None \<Rightarrow> cnt | Some b \<Rightarrow> if b = 0 then cnt else b) in
      if cnt > max_active env then Inl ValueError
      else if row_count < cnt \<or> row_count > max_active env then Inl ValueError
      else and_then (traverse (decode_row e) ids) (\<lambda>rows.
        if row_count \<le> cnt then Inr rows
        else if int (length (dummy_slots e)) < row_count - cnt then Inl RuntimeError
        else Inr (rows @ map (\<lambda>(page, off). ([pad_token env], off, [page])) (take (nat (row_count - cnt)) (dummy_slots e)))))"

definition commit_decode_row :: "'g engine_setup \<Rightarrow> string \<times> int \<Rightarrow> 'g engine \<Rightarrow> 'g engine result" where
  "commit_decode_row env row e =
     (case row of (rid, tok) \<Rightarrow>
        and_then (append_tokens (mgr e) rid 1) (\<lambda>(_, m).
        and_then (change_request rid (\<lambda>r. Inr (r\<lparr>req_next_token_id := Some tok\<rparr>)) (put_manager m e)) (\<lambda>e1.
        and_then (emit_token env rid tok e1) (\<lambda>e2.
          finish_if_ended env rid tok e2))))"

definition commit_decode :: "'g engine_setup \<Rightarrow> string list \<Rightarrow> int list \<Rightarrow> 'g engine \<Rightarrow> 'g engine result" where
  "commit_decode env ids toks e = for_each (commit_decode_row env) (zip ids toks) e"

definition decode_rows :: "'g engine_setup \<Rightarrow> string list \<Rightarrow> 'g engine \<Rightarrow> 'g engine result" where
  "decode_rows env ids e =
     (let bucket = (if decode_graphs env then graph_bucket (graph_sizes env) (max_active env) (int (length ids)) else None) in
      and_then (prepare_decode_metadata env ids bucket e) (\<lambda>rows.
        let (logits, e1) = forward_rows env rows e in
        and_then (sample_rows env ids (take (length ids) logits) e1) (\<lambda>(toks, e2).
          commit_decode env ids toks e2)))"

definition decode_step :: "'g engine_setup \<Rightarrow> string list \<Rightarrow> 'g engine \<Rightarrow> 'g engine result" where
  "decode_step env ids e =
     and_then (decode_viable env ids e) (\<lambda>(rows, e1). if rows = [] then Inr e1 else decode_rows env rows e1)"

section \<open>Prefill\<close>

text \<open>One historical decode input of a resumed request, through the decode path.\<close>

definition replay_decode_input :: "'g engine_setup \<Rightarrow> string \<Rightarrow> int \<Rightarrow> 'g engine \<Rightarrow> 'g engine result" where
  "replay_decode_input env rid tok e =
     (if \<not> live PREFILLING rid e then Inl RuntimeError
      else and_then (change_request rid (\<lambda>r. Inr (r\<lparr>req_next_token_id := Some tok\<rparr>)) e) (\<lambda>e1.
           and_then (prepare_decode_metadata env [rid] None e1) (\<lambda>rows.
             let (_, e2) = forward_rows env rows e1 in
             and_then (append_tokens (mgr e2) rid 1) (\<lambda>(fits, m).
               if \<not> fits then Inl RuntimeError
               else change_request rid (advance_prefill 1) (put_manager m e2)))))"

definition replay_resumed_history :: "'g engine_setup \<Rightarrow> string \<Rightarrow> 'g engine \<Rightarrow> 'g engine result" where
  "replay_resumed_history env rid e =
     with_request rid e (\<lambda>r.
       if \<not> resuming r then Inr e
       else and_then (for_each (replay_decode_input env rid) (butlast (output_token_ids r)) e) (\<lambda>e1.
         change_request rid (\<lambda>r'. Inr (r'\<lparr>req_next_token_id :=
           (if output_token_ids r = [] then None else Some (last (output_token_ids r)))\<rparr>)) e1))"

definition prefill_batch_check :: "'g engine \<Rightarrow> string \<Rightarrow> unit result" where
  "prefill_batch_check e rid =
     (case active_request rid e of
        None \<Rightarrow> Inl RuntimeError
      | Some r \<Rightarrow>
          if state r \<noteq> PREFILLING \<or> table_of rid e = None then Inl RuntimeError
          else if prompt_token_ids r = [] then Inl ValueError
          else if prefilled_token_count r \<noteq> 0 then Inl ValueError
          else Inr ())"

definition commit_prefill_batch_row :: "'g engine_setup \<Rightarrow> string \<times> int list \<times> int \<Rightarrow> 'g engine \<Rightarrow> 'g engine result" where
  "commit_prefill_batch_row env row e =
     (case row of (rid, sequence, tok) \<Rightarrow>
        and_then (append_tokens (mgr e) rid (int (length sequence))) (\<lambda>(fits, m).
          if \<not> fits then Inl RuntimeError
          else and_then (change_request rid (advance_prefill (int (length sequence))) (put_manager m e)) (\<lambda>e1.
               and_then (replay_resumed_history env rid e1) (\<lambda>e2.
                 complete_prefill env rid (Some tok) e2))))"

definition prompt_row :: "'g engine \<Rightarrow> string \<Rightarrow> staged_row result" where
  "prompt_row e rid =
     (case (active_request rid e, table_of rid e) of
        (Some r, Some a) \<Rightarrow> Inr (if resuming r then prompt_token_ids r else prefill_token_ids r, 0, physical_block_ids a)
      | _ \<Rightarrow> Inl RuntimeError)"

definition prefill_batch :: "'g engine_setup \<Rightarrow> string list \<Rightarrow> 'g engine \<Rightarrow> 'g engine result" where
  "prefill_batch env ids e =
     (if ids = [] then Inr e
      else if int (length ids) > max_active env then Inl ValueError
      else and_then (traverse (prefill_batch_check e) ids) (\<lambda>_.
           and_then (viable_rows env PREFILLING (\<lambda>r a n. prefill_token_count r) (map (\<lambda>rid. (rid, ())) ids) e) (\<lambda>(viable, e1).
             let ids' = map fst viable in
             if ids' = [] then Inr e1
             else and_then (traverse (prompt_row e1) ids') (\<lambda>rows.
               let (logits, e2) = forward_rows env rows e1 in
               and_then (sample_rows env ids' logits e2) (\<lambda>(toks, e3).
                 for_each (commit_prefill_batch_row env) (zip ids' (zip (map fst rows) toks)) e3)))))"

definition chunk_check :: "'g engine \<Rightarrow> string \<times> int \<Rightarrow> unit result" where
  "chunk_check e plan =
     (case plan of (rid, n) \<Rightarrow> case active_request rid e of
        None \<Rightarrow> Inl RuntimeError
      | Some r \<Rightarrow>
          if state r \<noteq> PREFILLING \<or> table_of rid e = None then Inl RuntimeError
          else if prompt_token_ids r = [] \<or> \<not> (0 < n \<and> n \<le> remaining_prefill_tokens r) then Inl ValueError
          else Inr ())"

definition whole_fresh_prompt :: "'g engine \<Rightarrow> string \<times> int \<Rightarrow> bool" where
  "whole_fresh_prompt e plan =
     (case plan of (rid, n) \<Rightarrow> case active_request rid e of
        None \<Rightarrow> False
      | Some r \<Rightarrow> prefilled_token_count r = 0 \<and> n = prefill_token_count r)"

definition chunk_row :: "'g engine_setup \<Rightarrow> 'g engine \<Rightarrow> string \<times> int \<Rightarrow> staged_row result" where
  "chunk_row env e plan =
     (case plan of (rid, n) \<Rightarrow>
        if n > prefill_chunk_size env then Inl ValueError
        else case (active_request rid e, table_of rid e) of
          (Some r, Some a) \<Rightarrow>
            let start = prefilled_token_count r in
            Inr (take (nat n) (drop (nat start) (prefill_token_ids r)), start, physical_block_ids a)
        | _ \<Rightarrow> Inl RuntimeError)"

definition prepare_prefill_metadata :: "'g engine_setup \<Rightarrow> (string \<times> int) list \<Rightarrow> 'g engine \<Rightarrow> staged_row list result" where
  "prepare_prefill_metadata env plans e =
     (if int (length plans) > max_active env then Inl ValueError else traverse (chunk_row env e) plans)"

definition commit_prefill_row :: "'g engine_setup \<Rightarrow> (string \<times> int) \<times> int \<Rightarrow> 'g engine \<Rightarrow> 'g engine result" where
  "commit_prefill_row env row e =
     (case row of ((rid, n), tok) \<Rightarrow>
        and_then (append_tokens (mgr e) rid n) (\<lambda>(fits, m).
          if \<not> fits then Inl RuntimeError
          else and_then (change_request rid (advance_prefill n) (put_manager m e)) (\<lambda>e1.
               with_request rid e1 (\<lambda>r.
                 if remaining_prefill_tokens r = 0 then complete_prefill env rid (Some tok) e1 else Inr e1))))"

definition commit_prefill :: "'g engine_setup \<Rightarrow> (string \<times> int) list \<Rightarrow> int list \<Rightarrow> 'g engine \<Rightarrow> 'g engine result" where
  "commit_prefill env plans toks e = for_each (commit_prefill_row env) (zip plans toks) e"

definition prefill_chunks :: "'g engine_setup \<Rightarrow> (string \<times> int) list \<Rightarrow> 'g engine \<Rightarrow> 'g engine result" where
  "prefill_chunks env plans e =
     (if plans = [] then Inr e
      else if int (length plans) > max_active env then Inl ValueError
      else and_then (traverse (chunk_check e) plans) (\<lambda>_.
        if list_all (whole_fresh_prompt e) plans then
          prefill_batch env (map fst plans)
            (e\<lparr>prefill_sdpa_calls := prefill_sdpa_calls e + 1,
               prefill_sdpa_tokens := prefill_sdpa_tokens e + sum_list (map snd plans),
               last_step_prefill_path := ''sdpa''\<rparr>)
        else
          and_then (prefill_viable env plans
            (e\<lparr>prefill_chunked_calls := prefill_chunked_calls e + 1,
               prefill_chunked_tokens := prefill_chunked_tokens e + sum_list (map snd plans),
               last_step_prefill_path := ''chunked''\<rparr>)) (\<lambda>(plans', e1).
          if plans' = [] then Inr e1
          else and_then (prepare_prefill_metadata env plans' e1) (\<lambda>rows.
            let (logits, e2) = forward_rows env rows e1 in
            and_then (sample_rows env (map fst plans') logits e2) (\<lambda>(toks, e3).
              commit_prefill env plans' toks e3)))))"

section \<open>One forward for both\<close>

definition fused_bucket :: "'g engine_setup \<Rightarrow> nat \<Rightarrow> nat \<Rightarrow> nat \<Rightarrow> int option" where
  "fused_bucket env n decode_count prefill_count =
     (case (graph_bucket (graph_sizes env) (max_active env) (int decode_count),
            prefill_row_bucket (graph_sizes env) (max_active env) (int prefill_count) (Some (fused_row_limit env))) of
        (Some d, Some _) \<Rightarrow> if decode_graphs env \<and> prefill_graphs env \<and> graph_ready env n then Some d else None
      | _ \<Rightarrow> None)"

definition fused_rows_step :: "'g engine_setup \<Rightarrow> string list \<Rightarrow> (string \<times> int) list \<Rightarrow> 'g engine \<Rightarrow> (bool \<times> 'g engine) result" where
  "fused_rows_step env ids plans0 e0 =
     and_then (if plans0 = [] then Inr ([], e0) else prefill_viable env plans0 e0) (\<lambda>(plans, e).
       let rows = filter (\<lambda>rid. live DECODING rid e) ids in
       if plans = [] then
         and_then (if rows = [] then Inr e else decode_rows env rows e) (\<lambda>e1. Inr (False, e1))
       else if rows = [] then and_then (prefill_chunks env plans e) (\<lambda>e1. Inr (False, e1))
       else
         let e1 = e\<lparr>prefill_chunked_calls := prefill_chunked_calls e + 1,
                    prefill_chunked_tokens := prefill_chunked_tokens e + sum_list (map snd plans),
                    last_step_prefill_path := ''fused''\<rparr>;
             bucket = fused_bucket env (ticks e) (length rows) (length plans) in
         and_then (prepare_decode_metadata env rows bucket e1) (\<lambda>decode_staged.
         and_then (prepare_prefill_metadata env plans e1) (\<lambda>chunk_staged.
           let (logits, e2) = forward_rows env (decode_staged @ chunk_staged) e1;
               live_logits = take (length rows) logits @ drop (length decode_staged) logits in
           and_then (sample_rows env (rows @ map fst plans) live_logits e2) (\<lambda>(toks, e3).
           and_then (commit_decode env rows (take (length rows) toks) e3) (\<lambda>e4.
           and_then (commit_prefill env plans (take (length plans) (drop (length rows) toks)) e4) (\<lambda>e5.
             Inr (True, e5)))))))"

section \<open>Speculation\<close>

definition speculation_eligible :: "'g engine_setup \<Rightarrow> string \<Rightarrow> 'g engine \<Rightarrow> bool" where
  "speculation_eligible env rid e =
     (proposer env \<noteq> None \<and> live DECODING rid e \<and>
      (case active_request rid e of None \<Rightarrow> False
       | Some r \<Rightarrow> req_next_token_id r \<noteq> None \<and> can_reuse_cached_prediction (sampling r) \<and>
           max_new_tokens r - int (length (output_token_ids r)) \<ge> 2))"

definition note_fallback :: "string \<Rightarrow> 'g engine \<Rightarrow> 'g engine result" where
  "note_fallback rid e =
     and_then (change_request rid (\<lambda>r. Inr (r\<lparr>speculative_fallbacks := speculative_fallbacks r + 1\<rparr>)) e) (\<lambda>e1.
       Inr (e1\<lparr>spec_fallbacks := spec_fallbacks e1 + 1\<rparr>))"

definition propose_for :: "'g engine_setup \<Rightarrow> string \<Rightarrow> 'g engine \<Rightarrow> int list" where
  "propose_for env rid e =
     (case (proposer env, active_request rid e) of
        (Some propose, Some r) \<Rightarrow>
          propose (ticks e) rid (prompt_token_ids r @ output_token_ids r)
            (min (speculation_depth env) (max_new_tokens r - int (length (output_token_ids r)) - 1))
      | _ \<Rightarrow> [])"

fun split_rows ::
  "'g engine_setup \<Rightarrow> string list \<Rightarrow> 'g engine \<Rightarrow> ((string \<times> int list) list \<times> string list \<times> 'g engine) result" where
  "split_rows env [] e = Inr ([], [], e)"
| "split_rows env (rid # rest) e =
     (let proposal = (if speculation_eligible env rid e then propose_for env rid e else []) in
      if proposal = [] then
        and_then (note_fallback rid e) (\<lambda>e1.
        and_then (split_rows env rest e1) (\<lambda>(rows, ordinary, e2). Inr (rows, rid # ordinary, e2)))
      else and_then (split_rows env rest (tick e)) (\<lambda>(rows, ordinary, e2). Inr ((rid, proposal) # rows, ordinary, e2)))"

definition verify_row :: "'g engine \<Rightarrow> nat \<Rightarrow> string \<times> int list \<Rightarrow> staged_row result" where
  "verify_row e width row =
     (case row of (rid, proposals) \<Rightarrow> case (active_request rid e, table_of rid e) of
        (Some r, Some a) \<Rightarrow>
          (case req_next_token_id r of
             None \<Rightarrow> Inl RuntimeError
           | Some t \<Rightarrow>
               if length (t # proposals) \<noteq> width then Inl ValueError
               else Inr (t # proposals, sequence_length a, physical_block_ids a))
      | _ \<Rightarrow> Inl RuntimeError)"

definition prepare_verify_metadata ::
  "'g engine_setup \<Rightarrow> (string \<times> int list) list \<Rightarrow> nat \<Rightarrow> 'g engine \<Rightarrow> staged_row list result" where
  "prepare_verify_metadata env rows width e =
     (if rows = [] \<or> width \<le> 1 \<or> int width > prefill_chunk_size env then Inl ValueError
      else traverse (verify_row e width) rows)"

definition verify_predictions :: "'g engine_setup \<Rightarrow> staged_row list \<Rightarrow> 'g engine \<Rightarrow> int list list \<times> 'g engine" where
  "verify_predictions env rows e =
     (let bs = mgr_block_size (mgr e); kv = write_rows bs rows (pages e) in
      (map (\<lambda>row. map (\<lambda>l. int (argmax l)) (row_logits (model_logits env) bs kv row)) rows, e\<lparr>pages := kv\<rparr>))"

definition note_round :: "nat \<Rightarrow> greedy_commit \<Rightarrow> int \<Rightarrow> request \<Rightarrow> request result" where
  "note_round depth c nxt r =
     Inr (r\<lparr>speculative_rounds := speculative_rounds r + 1,
            speculative_proposed_tokens := speculative_proposed_tokens r + int depth,
            speculative_accepted_tokens := speculative_accepted_tokens r + int (accepted_draft_tokens c),
            req_next_token_id := Some nxt\<rparr>)"

definition count_round :: "nat \<Rightarrow> greedy_commit \<Rightarrow> 'g engine \<Rightarrow> 'g engine" where
  "count_round depth c e =
     e\<lparr>spec_rounds := spec_rounds e + 1, spec_proposed := spec_proposed e + int depth,
       spec_accepted := spec_accepted e + int (accepted_draft_tokens c)\<rparr>"

definition spec_cache_check :: "string \<Rightarrow> 'g engine \<Rightarrow> 'g engine result" where
  "spec_cache_check rid e =
     with_request rid e (\<lambda>r. case table_of rid e of
        None \<Rightarrow> Inl RuntimeError
      | Some a \<Rightarrow>
          if sequence_length a \<noteq> prompt_token_count r + int (length (output_token_ids r)) - 1 then Inl RuntimeError
          else Inr e)"

definition commit_speculative_row :: "'g engine_setup \<Rightarrow> nat \<Rightarrow> (string \<times> int list) \<times> int list \<Rightarrow> 'g engine \<Rightarrow> 'g engine result" where
  "commit_speculative_row env depth row e =
     (case row of ((rid, proposals), preds) \<Rightarrow>
        with_request rid e (\<lambda>r.
        and_then (plan_greedy_commit proposals (take depth preds) (preds ! depth)
            (max_new_tokens r - int (length (output_token_ids r))) (eos_ids env)
            (stop_token_ids (sampling r)) (ignore_eos (sampling r))) (\<lambda>c.
          if gc_emitted c = [] then Inl RuntimeError
          else and_then (append_tokens (mgr e) rid (int (cached_input_count c))) (\<lambda>(fits, m).
            if \<not> fits then Inl RuntimeError
            else and_then (change_request rid (note_round depth c (last (gc_emitted c))) (put_manager m e)) (\<lambda>e1.
                 and_then (for_each (emit_token env rid) (gc_emitted c) (count_round depth c e1)) (\<lambda>e2.
                 and_then (spec_cache_check rid e2) (\<lambda>e3.
                   case terminal_reason c of
                     Some reason \<Rightarrow> finish_request env rid reason e3
                   | None \<Rightarrow> finish_if_ended env rid (last (gc_emitted c)) e3)))))))"

text \<open>One group of rows whose proposals have the same depth.\<close>

definition speculative_rows_step :: "'g engine_setup \<Rightarrow> nat \<Rightarrow> (string \<times> int list) list \<Rightarrow> 'g engine \<Rightarrow> 'g engine result" where
  "speculative_rows_step env depth rows0 e =
     and_then (viable_rows env DECODING (\<lambda>r a ps. sequence_length a + int (depth + 1)) (in_arrival_order e rows0) e) (\<lambda>(rows, e1).
       if rows = [] then Inr e1
       else and_then (prepare_verify_metadata env rows (depth + 1) e1) (\<lambda>staged.
         let (preds, e2) = verify_predictions env staged e1 in
         for_each (commit_speculative_row env depth) (zip rows preds) e2))"

definition speculative_group :: "'g engine_setup \<Rightarrow> (string \<times> int list) list \<Rightarrow> nat \<Rightarrow> 'g engine \<Rightarrow> 'g engine result" where
  "speculative_group env rows depth e =
     (let group = filter (\<lambda>(rid, ps). length ps = depth \<and> live DECODING rid e) rows in
      if group = [] then Inr e else speculative_rows_step env depth group e)"

definition speculative_decode_step :: "'g engine_setup \<Rightarrow> string list \<Rightarrow> 'g engine \<Rightarrow> 'g engine result" where
  "speculative_decode_step env ids e =
     and_then (split_rows env ids e) (\<lambda>(rows, ordinary, e1).
     and_then (for_each (speculative_group env rows) (sort (remdups (map (\<lambda>(rid, ps). length ps) rows))) e1) (\<lambda>e2.
       let ordinary' = filter (\<lambda>rid. live DECODING rid e2) ordinary in
       if ordinary' = [] then Inr e2 else decode_step env ordinary' e2))"

section \<open>The iteration\<close>

definition admit_step :: "'g engine_setup \<Rightarrow> 'g engine \<Rightarrow> (string list \<times> 'g engine) result" where
  "admit_step env e =
     and_then (admit_available (clock_at env (ticks e)) (Some (max_active env)) (sch e)) (\<lambda>(adm, s).
       Inr (map request_id adm, tick (e\<lparr>sch := s\<rparr>)))"

definition complete_if_cached :: "'g engine_setup \<Rightarrow> string \<Rightarrow> 'g engine \<Rightarrow> 'g engine result" where
  "complete_if_cached env rid e =
     with_request rid e (\<lambda>r. if remaining_prefill_tokens r = 0 then complete_prefill env rid (cached_next_token_id r) e else Inr e)"

definition plan_step :: "'g engine_setup \<Rightarrow> 'g engine \<Rightarrow> ((string \<times> int) list \<times> 'g engine) result" where
  "plan_step env e =
     and_then (plan_prefill (prefill_chunk_size env) (max_prefill_tokens env) (sch e)) (\<lambda>(plans, s).
       Inr (map (\<lambda>(r, n). (request_id r, n)) plans, e\<lparr>sch := s\<rparr>))"

definition decoding_ids :: "'g engine \<Rightarrow> string list" where
  "decoding_ids e = map fst (filter (\<lambda>(rid, r). state r = DECODING) (active (sch e)))"

definition step :: "'g engine_setup \<Rightarrow> 'g engine \<Rightarrow> 'g engine result" where
  "step env e =
     (let decoding = decoding_ids e;
          speculative = (proposer env \<noteq> None \<and> decoding \<noteq> []);
          fused = (use_fused_step env \<and> decoding \<noteq> [] \<and> \<not> speculative) in
      and_then (if speculative then and_then (speculative_decode_step env decoding e) (\<lambda>e1. Inr ([], e1))
                else if fused then decode_viable env decoding e
                else if decoding \<noteq> [] then and_then (decode_step env decoding e) (\<lambda>e1. Inr ([], e1))
                else Inr ([], e)) (\<lambda>(rows, e1).
      and_then (admit_step env e1) (\<lambda>(admitted, e2).
      and_then (for_each (complete_if_cached env) admitted e2) (\<lambda>e3.
      and_then (plan_step env e3) (\<lambda>(plans, e4).
        let e5 = e4\<lparr>last_step_prefill_tokens := sum_list (map snd plans), last_step_decode_rows := int (length decoding),
                    last_step_prefill_path := []\<rparr> in
        and_then (if fused then and_then (fused_rows_step env rows plans e5)
                    (\<lambda>(ran, e6). Inr (if ran then e6\<lparr>fused_steps := fused_steps e6 + 1\<rparr> else e6))
                  else if plans \<noteq> [] then prefill_chunks env plans e5
                  else Inr e5) (\<lambda>e6.
          Inr (if plans \<noteq> [] then e6\<lparr>prefill_steps := prefill_steps e6 + 1\<rparr>
               else if decoding \<noteq> [] then e6\<lparr>decode_only_steps := decode_only_steps e6 + 1\<rparr>
               else e6)))))))"

section \<open>The other entry points\<close>

definition engine_submit :: "'g engine_setup \<Rightarrow> request \<Rightarrow> 'g engine \<Rightarrow> (bool \<times> 'g engine) result" where
  "engine_submit env r e =
     (if (case max_model_len env of None \<Rightarrow> False
          | Some limit \<Rightarrow> limit \<noteq> 0 \<and> prompt_token_count r + max_new_tokens r > limit) then Inl ValueError
      else and_then (sched_submit (clock_at env (ticks e) (request_id r)) r (sch e)) (\<lambda>(accepted, r', s).
        Inr (accepted, tick (e\<lparr>sch := s, ended := (if accepted then ended e else ended e @ [r'])\<rparr>))))"

definition engine_cancel :: "'g engine_setup \<Rightarrow> string \<Rightarrow> string \<Rightarrow> 'g engine \<Rightarrow> 'g engine result" where
  "engine_cancel env rid reason e = end_request (cancel (clock_at env (ticks e) rid) rid reason (sch e)) e"

definition has_unfinished_requests :: "'g engine \<Rightarrow> bool" where
  "has_unfinished_requests e = (waiting (sch e) \<noteq> [] \<or> active (sch e) \<noteq> [])"

text \<open>The pool, its reserved pages, the cache and the scheduler, as built by \<open>__init__\<close> and \<open>reset\<close>.\<close>

definition fresh_scheduler :: "'g engine_setup \<Rightarrow> int \<Rightarrow> int \<Rightarrow> int option \<Rightarrow> int \<Rightarrow> (sched \<times> (nat \<times> int) list) result" where
  "fresh_scheduler env nblocks block_size mw cache_blocks =
     and_then (kv_manager_init nblocks block_size) (\<lambda>m0.
     and_then (reserve_graph_dummy_blocks (graph_sizes env) m0) (\<lambda>(blocks, slots, m).
     and_then (prefix_cache_init cache_blocks) (\<lambda>pc.
     and_then (scheduler_init m mw (Some pc) (int (length blocks))) (\<lambda>s. Inr (s, slots)))))"

text \<open>
  The checks of the constructor. \<open>graph_sizes_of\<close> turns its two graph-size arguments into the
  sorted tuple without duplicates that the engine keeps; a setup's \<open>graph_sizes\<close> are one of its
  results. \<open>options_ok\<close> and \<open>limits_ok\<close> check the arguments that the setup does not carry: the KV
  storage type, the split count of the decode kernel, the two ways to ask for speculation, the
  model length and the decode contexts warmed up. \<open>setup_ok\<close> checks the sizes that are left.
\<close>

definition graph_sizes_of :: "int \<Rightarrow> int option \<Rightarrow> int list option \<Rightarrow> int list result" where
  "graph_sizes_of mx single sizes =
     (if single \<noteq> None \<and> sizes \<noteq> None then Inl ValueError
      else case (case sizes of None \<Rightarrow> map_option (\<lambda>n. [n]) single | Some ns \<Rightarrow> Some ns) of
          None \<Rightarrow> Inr []
        | Some ns \<Rightarrow> let kept = sort (remdups ns) in
            if kept = [] \<or> list_ex (\<lambda>n. \<not> (0 < n \<and> n \<le> mx)) kept then Inl ValueError else Inr kept)"

definition options_ok :: "string \<Rightarrow> int \<Rightarrow> bool \<Rightarrow> bool \<Rightarrow> bool" where
  "options_ok kv_dtype num_splits ngram has_proposer \<longleftrightarrow>
     kv_dtype \<in> {''fp16'', ''int8'', ''fp8''} \<and> 0 \<le> num_splits \<and> \<not> (ngram \<and> has_proposer)"

definition limits_ok :: "int option \<Rightarrow> int list \<Rightarrow> bool" where
  "limits_ok model_len regimes \<longleftrightarrow> (case model_len of None \<Rightarrow> True | Some m \<Rightarrow> 0 < m) \<and> regimes \<noteq> []"

definition setup_ok :: "'g engine_setup \<Rightarrow> int \<Rightarrow> int \<Rightarrow> int \<Rightarrow> bool" where
  "setup_ok env nblocks block_size cache_blocks \<longleftrightarrow>
     0 < nblocks \<and> 0 < block_size \<and> 0 < max_active env \<and> 0 < prefill_chunk_size env \<and> 0 < max_prefill_tokens env \<and>
     0 \<le> cache_blocks \<and> 0 < speculation_depth env \<and> speculation_depth env + 1 \<le> prefill_chunk_size env \<and>
     list_all (\<lambda>n. 0 < n \<and> n \<le> max_active env) (graph_sizes env)"

lemma graph_sizes_of_ok:
  "graph_sizes_of (max_active env) single sizes = Inr kept \<Longrightarrow>
     sorted kept \<and> distinct kept \<and> list_all (\<lambda>n. 0 < n \<and> n \<le> max_active env) kept"
  by (auto simp: graph_sizes_of_def Let_def list_all_iff list_ex_iff split: if_splits option.splits)

definition engine_init ::
  "'g engine_setup \<Rightarrow> int \<Rightarrow> int \<Rightarrow> int option \<Rightarrow> int \<Rightarrow> 'g \<Rightarrow> int option \<Rightarrow> int \<Rightarrow> (nat \<Rightarrow> int list) \<Rightarrow> 'g engine result" where
  "engine_init env nblocks block_size mw cache_blocks torch_default sampling_seed generator_limit kv =
     (if \<not> setup_ok env nblocks block_size cache_blocks then Inl ValueError
      else and_then (fresh_scheduler env nblocks block_size mw cache_blocks) (\<lambda>(s, slots).
        Inr \<lparr>sch = s, pages = kv, smp = sampler_init (torch env) torch_default sampling_seed generator_limit,
             ended = [], ticks = 0, dummy_slots = slots, prefill_steps = 0, decode_only_steps = 0, fused_steps = 0,
             last_step_prefill_tokens = 0, last_step_decode_rows = 0, last_step_prefill_path = [],
             prefill_sdpa_calls = 0, prefill_chunked_calls = 0, prefill_sdpa_tokens = 0, prefill_chunked_tokens = 0,
             spec_rounds = 0, spec_proposed = 0, spec_accepted = 0, spec_fallbacks = 0\<rparr>))"

definition engine_reset :: "'g engine_setup \<Rightarrow> 'g engine \<Rightarrow> 'g engine result" where
  "engine_reset env e =
     and_then (fresh_scheduler env (int (num_blocks (allocator (mgr e)))) (mgr_block_size (mgr e))
         (max_waiting_requests (sch e)) (case cache (sch e) of None \<Rightarrow> 0 | Some pc \<Rightarrow> max_blocks pc)) (\<lambda>(s, slots).
       Inr (e\<lparr>sch := s, dummy_slots := slots\<rparr>))"

text \<open>\<open>generate\<close> steps while work is left; \<open>fuel\<close> bounds the number of iterations.\<close>

fun run_steps :: "'g engine_setup \<Rightarrow> nat \<Rightarrow> 'g engine \<Rightarrow> 'g engine result" where
  "run_steps env 0 e = Inr e"
| "run_steps env (Suc fuel) e =
     (if has_unfinished_requests e then and_then (step env e) (run_steps env fuel) else Inr e)"

section \<open>Reports\<close>

record recompute_summary =
  rs_preemptions :: int
  rs_in_flight_preemptions :: int
  rs_progress_epoch :: int
  rs_recomputed_tokens :: int
  rs_recompute_ms :: real

definition recompute_report :: "'g engine \<Rightarrow> recompute_summary" where
  "recompute_report e =
     (let flying = map snd (active (sch e)) @ waiting (sch e) in
      \<lparr>rs_preemptions = preemption_count (sch e),
       rs_in_flight_preemptions = sum_list (map preempted_count flying),
       rs_progress_epoch = progress_epoch (sch e),
       rs_recomputed_tokens = recomputed_tokens_total (sch e) + sum_list (map recomputed_token_count flying),
       rs_recompute_ms = real_of_int (recompute_ns_total (sch e) + sum_list (map recompute_ns flying)) / 1000000\<rparr>)"

end
