(* ===== verification/Engine_Content.thy ===== *)
theory Engine_Content
  imports Engine_Step
begin

text \<open>
  What a request's block table holds, and how a forward pass over staged rows changes it:
  the facts the iteration of \<open>engine/batching/continuous_batching.py\<close> rests on.
\<close>

section \<open>Tables and the tokens they hold\<close>

text \<open>
  \<open>covers\<close>: every block up to the end of the text holds it; the last one may hold more, as
  rejected proposals leave it. \<open>table_holds\<close> is the exact form.
\<close>

definition covers :: "(nat \<Rightarrow> int list) \<Rightarrow> nat \<Rightarrow> int list \<Rightarrow> nat list \<Rightarrow> bool" where
  "covers kv s h tab \<longleftrightarrow> (\<forall>i < length tab. i * s < length h \<longrightarrow>
     take (length h) (kv (tab ! i)) = take (Suc i * s) h \<and> length (kv (tab ! i)) \<le> Suc i * s)"

lemma holds_covers: "table_holds kv s h tab \<Longrightarrow> covers kv s h tab"
  by (auto simp: table_holds_def covers_def min_def)

lemma covers_take: "covers kv s h tab \<Longrightarrow> covers kv s (take k h) tab"
proof (cases "k \<le> length h")
  case True
  assume c: "covers kv s h tab"
  show ?thesis
    unfolding covers_def
  proof (intro allI impI)
    fix i assume i: "i < length tab" "i * s < length (take k h)"
    with True c have b: "take (length h) (kv (tab ! i)) = take (Suc i * s) h" "length (kv (tab ! i)) \<le> Suc i * s"
      by (auto simp: covers_def)
    have "take k (kv (tab ! i)) = take k (take (length h) (kv (tab ! i)))" using True by (simp add: min_def)
    also have "\<dots> = take (Suc i * s) (take k h)" by (simp only: b(1) take_take min.commute)
    finally have step: "take k (kv (tab ! i)) = take (Suc i * s) (take k h)" .
    have len: "length (take k h) = k" using True by simp
    show "take (length (take k h)) (kv (tab ! i)) = take (Suc i * s) (take k h) \<and> length (kv (tab ! i)) \<le> Suc i * s"
      unfolding len using step b(2) by blast
  qed
qed simp

lemma covers_complete:
  assumes "covers kv s h tab" and "i < length tab" and "Suc i * s \<le> length h" and "0 < s"
  shows "kv (tab ! i) = take (Suc i * s) h"
proof -
  have "i * s < length h" using assms(3,4) by simp
  with assms have "take (length h) (kv (tab ! i)) = take (Suc i * s) h" "length (kv (tab ! i)) \<le> Suc i * s"
    by (auto simp: covers_def)
  with assms(3) show ?thesis by simp
qed

lemma holds_complete_prefix:
  assumes "covers kv s h tab" and "0 < s" and "n * s \<le> length h"
  shows "table_holds kv s (take (n * s) h) tab"
  unfolding table_holds_def
proof (intro allI impI)
  fix i assume i: "i < length tab" "i * s < length (take (n * s) h)"
  then have "i * s < n * s" by simp
  then have "i < n" by simp
  then have le: "Suc i * s \<le> n * s" by (intro mult_le_mono1) simp
  with covers_complete [OF assms(1) i(1) _ assms(2)] assms(3)
  show "kv (tab ! i) = take (Suc i * s) (take (n * s) h)" by (simp only: take_take min.absorb1 le order.trans [OF le])
qed

lemma holds_take_full:
  assumes "table_holds kv s h tab" and "s > 0"
  shows "covers kv s (take k h) tab"
  by (rule covers_take [OF holds_covers [OF assms(1)]])

lemma covers_cong:
  assumes "covers kv s h tab" and "length h \<le> length tab * s" and "length tab \<le> length tab'"
    and "\<And>i. i < length tab \<Longrightarrow> kv' (tab' ! i) = kv (tab ! i)"
  shows "covers kv' s h tab'"
proof -
  have "i < length tab" if "i * s < length h" for i
    using that assms(2) by (metis leD le_less_trans mult_le_mono1 not_le)
  then show ?thesis using assms(1,4) unfolding covers_def by metis
qed

lemma table_holds_cong:
  assumes "table_holds kv s h tab" and "length h \<le> length tab * s" and "length tab \<le> length tab'"
    and "\<And>i. i < length tab \<Longrightarrow> kv' (tab' ! i) = kv (tab ! i)"
  shows "table_holds kv' s h tab'"
proof -
  have "i < length tab" if "i * s < length h" for i
    using that assms(2) by (metis leD le_less_trans mult_le_mono1 not_le)
  then show ?thesis using assms(1,4) unfolding table_holds_def by metis
qed

section \<open>Reading and writing through a table\<close>

lemma nat_div_int: "0 < bs \<Longrightarrow> 0 \<le> p \<Longrightarrow> nat (p div bs) = nat p div nat bs"
  by (simp add: nat_div_distrib)

lemma read_covered:
  assumes c: "covers kv (nat bs) h tab" and p: "0 \<le> p" "nat p < length h" and bs: "0 < bs"
    and len: "length h \<le> length tab * nat bs"
  shows "read_prefix bs tab kv p = take (nat p + 1) h"
proof -
  let ?i = "nat p div nat bs"
  have s: "0 < nat bs" using bs by simp
  have "?i * nat bs \<le> nat p" by simp
  then have lt: "?i * nat bs < length h" using p(2) by linarith
  have i: "?i < length tab" using p(2) len s by (metis less_le_trans less_mult_imp_div_less)
  from c lt i have k: "take (length h) (kv (tab ! ?i)) = take (Suc ?i * nat bs) h" by (simp add: covers_def)
  have "nat p < Suc ?i * nat bs" using s by (metis dividend_less_div_times mult.commute mult_Suc_right add.commute)
  then have b: "nat p + 1 \<le> Suc ?i * nat bs" by simp
  have "take (nat p + 1) (kv (tab ! ?i)) = take (nat p + 1) (take (length h) (kv (tab ! ?i)))"
    using p(2) by (simp add: min_def)
  also have "\<dots> = take (nat p + 1) h" unfolding k take_take using b by (simp add: min_def)
  finally show ?thesis
    using p bs by (simp add: read_prefix_def nat_div_int nat_add_distrib)
qed

text \<open>Writing the next token makes the table hold the longer text exactly.\<close>

lemma write_token_holds:
  assumes c: "covers kv (nat bs) h tab" and d: "distinct tab" and bs: "0 < bs"
    and len: "length h < length tab * nat bs"
  shows "table_holds (write_token bs tab (int (length h)) t kv) (nat bs) (h @ [t]) tab"
proof -
  let ?s = "nat bs" and ?j = "length h div nat bs"
  have s: "0 < ?s" using bs by simp
  have j: "?j < length tab" using len s by (metis less_mult_imp_div_less)
  have before: "read_prefix bs tab kv (int (length h) - 1) = h"
  proof (cases "h = []")
    case False
    then have "0 \<le> int (length h) - 1" "nat (int (length h) - 1) < length h" by (cases h; simp)+
    from read_covered [OF c this bs] len show ?thesis using False by simp
  qed (simp add: read_prefix_def)
  have w: "write_token bs tab (int (length h)) t kv = kv(tab ! ?j := h @ [t])"
    using bs by (simp add: write_token_def before nat_div_int)
  show ?thesis
    unfolding table_holds_def w
  proof (intro allI impI)
    fix i assume i: "i < length tab" "i * ?s < length (h @ [t])"
    then have le: "i \<le> ?j" using s by (simp add: less_eq_div_iff_mult_less_eq)
    show "(kv(tab ! ?j := h @ [t])) (tab ! i) = take (Suc i * ?s) (h @ [t])"
    proof (cases "i = ?j")
      case True
      have "length h < Suc ?j * ?s" using s by (metis dividend_less_div_times mult.commute mult_Suc_right add.commute)
      with True show ?thesis by simp
    next
      case False
      with le have "Suc i \<le> ?j" by simp
      then have "Suc i * ?s \<le> ?j * ?s" by (rule mult_le_mono1)
      then have full: "Suc i * ?s \<le> length h" using div_times_less_eq_dividend [of "length h" ?s] by linarith
      have "tab ! i \<noteq> tab ! ?j" using False i(1) j d by (simp add: nth_eq_iff_index_eq)
      then show ?thesis using covers_complete [OF c i(1) full s] full by simp
    qed
  qed
qed

lemma write_run_holds:
  assumes c: "covers kv (nat bs) h tab" and d: "distinct tab" and bs: "0 < bs" and ne: "ts \<noteq> []"
    and len: "length h + length ts \<le> length tab * nat bs"
  shows "table_holds (write_run bs tab (int (length h)) ts kv) (nat bs) (h @ ts) tab"
  using c ne len
proof (induction ts arbitrary: h kv)
  case (Cons t ts)
  note w = write_token_holds [OF Cons.prems(1) d bs, of t]
  show ?case
  proof (cases ts)
    case Nil
    with w Cons.prems show ?thesis by simp
  next
    case (Cons t' ts')
    have "covers (write_token bs tab (int (length h)) t kv) (nat bs) (h @ [t]) tab"
      using w Cons.prems(3) Cons by (intro holds_covers) simp
    from Cons.IH [OF this] Cons Cons.prems(3) show ?thesis by (simp add: add.commute)
  qed
qed simp

text \<open>The slot of a position inside a table.\<close>

lemma slot_of:
  assumes bs: "0 < bs" and p: "0 \<le> p" "p < int n * bs"
  shows "nat (p div bs) < n" and "p < int (Suc (nat (p div bs))) * bs"
proof -
  show "nat (p div bs) < n" using page_index(2) [OF bs p] .
  have "p = p div bs * bs + p mod bs" by simp
  with pos_mod_bound [OF bs, of p] have "p < p div bs * bs + bs" by linarith
  then have "p < (p div bs + 1) * bs" by (simp add: algebra_simps)
  moreover have "int (Suc (nat (p div bs))) = p div bs + 1" using p(1) bs by (simp add: pos_imp_zdiv_nonneg_iff)
  ultimately show "p < int (Suc (nat (p div bs))) * bs" by (simp only:)
qed

text \<open>A run touches only the blocks from its first position on.\<close>

definition run_blocks :: "int \<Rightarrow> nat list \<Rightarrow> int \<Rightarrow> nat set" where
  "run_blocks bs tab p = {tab ! i |i. i < length tab \<and> p < int (Suc i) * bs}"

lemma run_blocks_mono: "p \<le> q \<Longrightarrow> run_blocks bs tab q \<subseteq> run_blocks bs tab p"
  by (auto simp: run_blocks_def)

lemma slot_in_run: "0 < bs \<Longrightarrow> 0 \<le> p \<Longrightarrow> p < int (length tab) * bs \<Longrightarrow> tab ! nat (p div bs) \<in> run_blocks bs tab p"
  using slot_of [of bs p "length tab"] unfolding run_blocks_def by blast

lemma write_run_frame:
  assumes bs: "0 < bs" and p: "0 \<le> p" and fits: "p + int (length ts) \<le> int (length tab) * bs"
    and "b \<notin> run_blocks bs tab p"
  shows "write_run bs tab p ts kv b = kv b"
  using p fits assms(4)
proof (induction ts arbitrary: p kv)
  case (Cons t ts)
  have "tab ! nat (p div bs) \<in> run_blocks bs tab p" using Cons.prems(1,2) by (intro slot_in_run [OF bs]) simp_all
  with Cons.prems(3) have "write_token bs tab p t kv b = kv b" by (auto simp: write_token_def)
  moreover have "b \<notin> run_blocks bs tab (p + 1)" using Cons.prems(3) run_blocks_mono [of p "p + 1" bs tab] by auto
  ultimately show ?case using Cons.IH [of "p + 1" "write_token bs tab p t kv"] Cons.prems(1,2) by simp
qed simp

section \<open>A batch of staged rows\<close>

definition row_blocks :: "int \<Rightarrow> staged_row \<Rightarrow> nat set" where
  "row_blocks bs row = (case row of (toks, p, tab) \<Rightarrow> run_blocks bs tab p)"

definition row_fits :: "int \<Rightarrow> staged_row \<Rightarrow> bool" where
  "row_fits bs row = (case row of (toks, p, tab) \<Rightarrow> 0 \<le> p \<and> p + int (length toks) \<le> int (length tab) * bs)"

lemma write_rows_simps [simp]:
  "write_rows bs [] kv = kv"
  "write_rows bs ((toks, p, tab) # rows) kv = write_rows bs rows (write_run bs tab p toks kv)"
  "write_rows bs (xs @ ys) kv = write_rows bs ys (write_rows bs xs kv)"
  by (simp_all add: write_rows_def)

lemma write_rows_frame:
  assumes "0 < bs" and "\<forall>row \<in> set rows. row_fits bs row \<and> b \<notin> row_blocks bs row"
  shows "write_rows bs rows kv b = kv b"
  using assms(2)
proof (induction rows arbitrary: kv)
  case (Cons row rows)
  obtain toks p tab where row: "row = (toks, p, tab)" by (cases row)
  with Cons.prems have "write_run bs tab p toks kv b = kv b"
    by (intro write_run_frame [OF assms(1)]) (auto simp: row_fits_def row_blocks_def)
  with Cons row show ?case by simp
qed simp

lemma write_rows_holds:
  assumes bs: "0 < bs" and c: "covers kv (nat bs) h tab" and d: "distinct tab" and ne: "toks \<noteq> []"
    and len: "length h + length toks \<le> length tab * nat bs"
    and others: "\<forall>row \<in> set xs \<union> set ys. row_fits bs row \<and> row_blocks bs row \<inter> set tab = {}"
  shows "table_holds (write_rows bs (xs @ (toks, int (length h), tab) # ys) kv) (nat bs) (h @ toks) tab"
proof -
  let ?kv1 = "write_rows bs xs kv" and ?kv2 = "write_run bs tab (int (length h)) toks (write_rows bs xs kv)"
  have "covers ?kv1 (nat bs) h tab"
    by (rule covers_cong [OF c]) (use others len in \<open>fastforce intro!: write_rows_frame [OF bs]\<close>)+
  from write_run_holds [OF this d bs ne len] have "table_holds ?kv2 (nat bs) (h @ toks) tab" .
  then have "table_holds (write_rows bs ys ?kv2) (nat bs) (h @ toks) tab"
    by (rule table_holds_cong) (use others len in \<open>fastforce intro!: write_rows_frame [OF bs]\<close>)+
  then show ?thesis by simp
qed

text \<open>The logits of a row are the model's on that row's own text.\<close>

lemma last_logits_text:
  assumes bs: "0 < bs" and h: "table_holds kv (nat bs) (h @ toks) tab" and ne: "toks \<noteq> []"
    and len: "length h + length toks \<le> length tab * nat bs"
  shows "last_logits f bs kv (toks, int (length h), tab) = f (h @ toks)"
proof -
  let ?p = "int (length h) + int (length toks) - 1"
  have p: "0 \<le> ?p" "nat ?p < length (h @ toks)" "nat ?p + 1 = length (h @ toks)"
    using ne by (cases toks; auto simp: nat_add_distrib)+
  have "read_prefix bs tab kv ?p = take (nat ?p + 1) (h @ toks)"
    by (rule read_covered [OF holds_covers [OF h] p(1,2) bs]) (use len in simp)
  then show ?thesis unfolding p(3) by (simp add: last_logits_def)
qed

lemma row_logits_text:
  assumes bs: "0 < bs" and h: "table_holds kv (nat bs) (h @ toks) tab"
    and len: "length h + length toks \<le> length tab * nat bs"
  shows "row_logits f bs kv (toks, int (length h), tab) = map (\<lambda>i. f (h @ take (Suc i) toks)) [0..<length toks]"
proof -
  have "read_prefix bs tab kv (int (length h) + int i) = h @ take (Suc i) toks" if "i < length toks" for i
    using read_covered [OF holds_covers [OF h], of "int (length h) + int i"] that bs len
    by (simp add: nat_add_distrib Suc_diff_le)
  then show ?thesis by (auto simp: row_logits_def)
qed

text \<open>A batch that only writes blocks with a single owner keeps the world intact.\<close>

definition singly_owned :: "kv_manager \<Rightarrow> nat \<Rightarrow> bool" where
  "singly_owned m b \<longleftrightarrow> (\<exists>rid a. requests m rid = Some a \<and> b \<in> set (physical_block_ids a) \<and> sole m rid b)"

lemma world_write_run:
  assumes ok: "world_ok D (s, kv)" and bs: "0 < bs" and p: "0 \<le> p" "p + int (length ts) \<le> int (length tab) * bs"
    and own: "\<forall>b \<in> run_blocks bs tab p. singly_owned (manager s) b"
  shows "world_ok D (s, write_run bs tab p ts kv)"
  using ok p own
proof (induction ts arbitrary: p kv)
  case (Cons t ts)
  have "tab ! nat (p div bs) \<in> run_blocks bs tab p" using Cons.prems(2,3) by (intro slot_in_run [OF bs]) simp_all
  with Cons.prems(4) have "singly_owned (manager s) (tab ! nat (p div bs))" by blast
  then have "world_ok D (s, write_token bs tab p t kv)"
    using world_write [OF Cons.prems(1)] by (auto simp: singly_owned_def write_token_def)
  moreover have "\<forall>b \<in> run_blocks bs tab (p + 1). singly_owned (manager s) b"
    using Cons.prems(4) run_blocks_mono [of p "p + 1" bs tab] by auto
  ultimately show ?case using Cons.IH [of "write_token bs tab p t kv" "p + 1"] Cons.prems(2,3) by simp
qed simp

lemma world_write_rows:
  assumes "world_ok D (s, kv)" and "0 < bs"
    and "\<forall>row \<in> set rows. row_fits bs row \<and> (\<forall>b \<in> row_blocks bs row. singly_owned (manager s) b)"
  shows "world_ok D (s, write_rows bs rows kv)"
  using assms(1,3)
proof (induction rows arbitrary: kv)
  case (Cons row rows)
  obtain toks p tab where row: "row = (toks, p, tab)" by (cases row)
  with Cons.prems have "world_ok D (s, write_run bs tab p toks kv)"
    by (intro world_write_run [OF _ assms(2)]) (auto simp: row_fits_def row_blocks_def)
  with Cons row show ?case by simp
qed simp

section \<open>What publishing adds\<close>

text \<open>
  Publishing adds owners only to blocks of the published table, and the only prediction it
  can add is the one it is given.
\<close>

lemma publish_walk_adds:
  "publish_walk toks phys is parent pc m = Inr (k, pc', m') \<Longrightarrow>
     exact pc' = exact pc \<and> mgr_block_size m' = mgr_block_size m \<and>
     (\<forall>w. allocations (allocator m') w = allocations (allocator m) w \<or>
       (\<exists>i \<in> set is. i < length phys \<and> allocations (allocator m') w = Some [phys ! i]))"
proof (induction "is" arbitrary: parent pc m k)
  case (Cons i "is")
  let ?tb = "block_at (mgr_block_size m) toks i"
  show ?case
  proof (cases "edges pc (parent, ?tb)")
    case (Some nid)
    with Cons.prems have "publish_walk toks phys is (Some nid) (touch_node nid pc) m = Inr (k, pc', m')"
      by (simp add: Let_def split: option.splits)
    from Cons.IH [OF this] show ?thesis by (auto simp: touch_node_def)
  next
    case None
    let ?own = "CacheOwner (next_node_id pc)"
    from Cons.prems None obtain q al where i: "i < length phys" and att: "block_attach (allocator m) ?own [phys ! i] = Inr (q, al)"
      by (auto simp: Let_def split: if_splits)
    have "\<exists>pc1 k'. publish_walk toks phys is (Some (next_node_id pc)) pc1 (m\<lparr>allocator := al\<rparr>) = Inr (k', pc', m') \<and> exact pc1 = exact pc"
    proof (cases parent)
      case top: None
      show ?thesis using Cons.prems None i att unfolding top
        by (clarsimp simp: Let_def) (rule exI, rule conjI, rule exI, assumption, simp)
    next
      case (Some p)
      show ?thesis using Cons.prems None i att unfolding Some
        by (clarsimp simp: Let_def require_def split: if_splits) (rule exI, rule conjI, rule exI, assumption, simp)
    qed
    then obtain pc1 k' where "publish_walk toks phys is (Some (next_node_id pc)) pc1 (m\<lparr>allocator := al\<rparr>) = Inr (k', pc', m')"
      and "exact pc1 = exact pc" by blast
    with Cons.IH [OF this(1)] have ih: "exact pc' = exact pc" "mgr_block_size m' = mgr_block_size m" "\<And>w. allocations (allocator m') w = allocations al w \<or>
       (\<exists>i \<in> set is. i < length phys \<and> allocations (allocator m') w = Some [phys ! i])" by simp_all
    have "allocations al = (allocations (allocator m))(?own \<mapsto> [phys ! i])"
      using att by (auto simp: block_attach_def split: if_splits)
    then have new: "allocations al w = allocations (allocator m) w \<or> allocations al w = Some [phys ! i]" for w
      by (cases "w = ?own") auto
    have "allocations (allocator m') w = allocations (allocator m) w \<or>
        (\<exists>j \<in> set (i # is). j < length phys \<and> allocations (allocator m') w = Some [phys ! j])" for w
      using ih(3) [of w] new [of w] i by (elim disjE bexE) auto
    with ih(1,2) show ?thesis by blast
  qed
qed simp

lemma publish_adds:
  assumes good: "cache_good kv pc m" and a: "requests m rid = Some a" and ne: "toks \<noteq> []"
    and len: "int (length toks) \<le> sequence_length a"
    and holds: "publishable kv (nat (mgr_block_size m)) toks (physical_block_ids a) t"
    and run: "publish toks a t pc m = Inr (k, pc', m')"
  shows "map_of (exact pc') key = Some e' \<Longrightarrow>
      (\<exists>e. map_of (exact pc) key = Some e \<and> next_token_id e' = next_token_id e) \<or> key = toks \<and> t = Some (next_token_id e')"
    and "w \<in> owners (allocator m') b \<Longrightarrow> w \<in> owners (allocator m) b \<or> (\<exists>i < length (physical_block_ids a). b = physical_block_ids a ! i \<and>
      (Suc i * nat (mgr_block_size m) \<le> length toks \<or> t \<noteq> None \<and> i * nat (mgr_block_size m) < length toks))"
proof -
  let ?phys = "physical_block_ids a" and ?s = "nat (mgr_block_size m)"
  define new where "new b \<longleftrightarrow> (\<exists>i < length ?phys. b = ?phys ! i \<and> (Suc i * ?s \<le> length toks \<or> t \<noteq> None \<and> i * ?s < length toks))" for b
  have minv: "mgr_inv m" using good by (simp add: cache_good_def)
  note bs = mgr_invD(4) [OF minv]
  have "(map_of (exact pc') key = Some e' \<longrightarrow>
      (\<exists>e. map_of (exact pc) key = Some e \<and> next_token_id e' = next_token_id e) \<or> key = toks \<and> t = Some (next_token_id e')) \<and>
    (w \<in> owners (allocator m') b \<longrightarrow> w \<in> owners (allocator m) b \<or> new b)"
  proof (cases "max_blocks pc = 0")
    case True
    with run show ?thesis by (auto simp: publish_def)
  next
    case False
    from publish_stages [OF good a ne len holds] obtain k1 pc1 m1 pc2 m2 where
      w: "publish_walk toks ?phys [0..<nat (min (int (length toks) div mgr_block_size m) (int (length ?phys)))] None pc m = Inr (k1, pc1, m1)"
        "publish_exact toks ?phys t pc1 m1 = Inr (pc2, m2)" and g2: "cache_good kv pc2 m2" by blast
    from g2 have "mgr_inv m2" "cache_inv pc2 m2" by (simp_all add: cache_good_def)
    from evict_while_run [OF this, of "\<lambda>pc m. int (length (references pc)) > max_blocks pc" False] obtain pc3 m3 where
      e: "evict_to_limit pc2 m2 = Inr (pc3, m3)" "shrinks pc2 pc3" unfolding evict_to_limit_def by blast
    have eq: "pc' = pc3" "m' = m3" using run False w e(1) by (simp_all add: publish_def Let_def)
    note adds = publish_walk_adds [OF w(1)]
    have ms: "mgr_block_size m1 = mgr_block_size m" using adds by blast
    let ?pb = "ceil_div (int (length toks)) (mgr_block_size m1)"
    have x: "map_of (exact pc2) key = Some e2 \<Longrightarrow> map_of (exact pc1) key = Some e2 \<or> key = toks \<and> t = Some (next_token_id e2)"
      and y: "allocations (allocator m2) w = allocations (allocator m1) w \<or>
        t \<noteq> None \<and> allocations (allocator m2) w = Some (take (nat ?pb) ?phys)" for e2 w
      using w(2) by (auto simp: publish_exact_def Let_def block_attach_def alist_simps split: option.splits if_splits)
    have "\<exists>e. map_of (exact pc) key = Some e \<and> next_token_id e' = next_token_id e \<or> key = toks \<and> t = Some (next_token_id e')"
      if "map_of (exact pc') key = Some e'"
    proof -
      from that e(2) obtain e2 where "map_of (exact pc2) key = Some e2" "next_token_id e' = next_token_id e2"
        unfolding shrinks_def eq by blast
      with x adds show ?thesis by auto
    qed
    moreover have "w \<in> owners (allocator m) b \<or> new b" if "w \<in> owners (allocator m') b"
    proof -
      from that obtain bl where bl: "allocations (allocator m3) w = Some bl" "b \<in> set bl" by (auto simp: owners_of_def eq)
      with evict_while_owners [OF e(1) [unfolded evict_to_limit_def], of w] have a2: "allocations (allocator m2) w = Some bl" by auto
      show ?thesis
      proof (cases "allocations (allocator m1) w = Some bl")
        case True
        from adds [THEN conjunct2, THEN conjunct2, THEN spec, of w] consider "allocations (allocator m) w = Some bl"
          | i where "i < nat (min (int (length toks) div mgr_block_size m) (int (length ?phys)))" "i < length ?phys" "bl = [?phys ! i]"
          using True by auto
        then show ?thesis
        proof cases
          case 1
          with bl show ?thesis by (auto simp: owners_of_def)
        next
          case (2 i)
          then have "int (Suc i) \<le> int (length toks) div mgr_block_size m" by linarith
          then have "int (Suc i) * mgr_block_size m \<le> int (length toks)"
            using bs by (metis mult_right_mono order.trans less_imp_le minus_mod_eq_div_mult diff_le_eq le_add_same_cancel1 pos_mod_sign)
          then have "int (Suc i * ?s) \<le> int (length toks)" using bs by (simp add: algebra_simps)
          then have "Suc i * ?s \<le> length toks" by (simp only: of_nat_le_iff)
          with 2 bl(2) show ?thesis unfolding new_def by auto
        qed
      next
        case False
        with y [of w] a2 have t: "t \<noteq> None" and bl': "bl = take (nat ?pb) ?phys" by auto
        from bl(2) bl' obtain i where i: "i < length ?phys" "i < nat ?pb" "b = ?phys ! i"
          by (auto simp: in_set_conv_nth)
        have "?pb = ceil_div (int (length toks)) (mgr_block_size m)" using ms by simp
        then have "int i \<le> ceil_div (int (length toks)) (mgr_block_size m) - 1" using i(2) by linarith
        then have "int i * mgr_block_size m \<le> (ceil_div (int (length toks)) (mgr_block_size m) - 1) * mgr_block_size m"
          using bs by (simp add: mult_right_mono)
        also have "\<dots> < int (length toks)" by (rule ceil_div_tight [OF bs])
        finally have "int (i * ?s) < int (length toks)" using bs by simp
        then have "i * ?s < length toks" by (simp only: of_nat_less_iff)
        with i t show ?thesis unfolding new_def by auto
      qed
    qed
    ultimately show ?thesis by blast
  qed
  then show "map_of (exact pc') key = Some e' \<Longrightarrow>
      (\<exists>e. map_of (exact pc) key = Some e \<and> next_token_id e' = next_token_id e) \<or> key = toks \<and> t = Some (next_token_id e')"
    and "w \<in> owners (allocator m') b \<Longrightarrow> w \<in> owners (allocator m) b \<or> (\<exists>i < length (physical_block_ids a). b = physical_block_ids a ! i \<and>
      (Suc i * nat (mgr_block_size m) \<le> length toks \<or> t \<noteq> None \<and> i * nat (mgr_block_size m) < length toks))"
    unfolding new_def by blast+
qed

end
