(* ===== verification/Engine_Invariant.thy ===== *)
theory Engine_Invariant
  imports Engine_Content "HOL-Library.Sublist"
begin

text \<open>
  The invariant of \<open>ContinuousBatchingEngine\<close> (\<open>engine/batching/continuous_batching.py\<close>) and
  what the parts of an iteration keep of it. \<open>pend rid\<close> are the tokens a forward pass has
  already written for a request and no commit has recorded yet; \<open>X\<close> are the requests an
  operation is in the middle of changing. Between iterations there are none of either.
\<close>

section \<open>The invariant\<close>

definition prediction :: "'g engine_setup \<Rightarrow> int list \<Rightarrow> int" where
  "prediction env ctx = int (argmax (model_logits env ctx))"

definition text_of :: "request \<Rightarrow> int list" where
  "text_of r = prompt_token_ids r @ output_token_ids r"

abbreviation plain :: "request \<Rightarrow> bool" where
  "plain r \<equiv> can_reuse_cached_prediction (sampling r)"

abbreviation greedy_from :: "'g engine_setup \<Rightarrow> request \<Rightarrow> int list \<Rightarrow> nat \<Rightarrow> int list \<times> string" where
  "greedy_from env r \<equiv> greedy_run (prediction env) (stop_token_ids (sampling r)) (eos_ids env) (ignore_eos (sampling r))"

text \<open>
  The reference: plain greedy decoding of the request's own prompt with the model, one
  token at a time, until a stop token, an end-of-sequence token or the length bound.
\<close>

definition reference :: "'g engine_setup \<Rightarrow> request \<Rightarrow> int list \<times> string" where
  "reference env r = greedy_from env r (prompt_token_ids r) (nat (max_new_tokens r))"

text \<open>What is still to come after the outputs so far completes them to the reference.\<close>

definition continues :: "'g engine_setup \<Rightarrow> request \<Rightarrow> bool" where
  "continues env r \<longleftrightarrow> (plain r \<longrightarrow>
     (let rest = greedy_from env r (text_of r) (nat (max_new_tokens r) - length (output_token_ids r)) in
      reference env r = (output_token_ids r @ fst rest, snd rest)))"

text \<open>A plain greedy request that has ended has a part of the reference, a finished one all of it.\<close>

definition outputs_ok :: "'g engine_setup \<Rightarrow> request \<Rightarrow> bool" where
  "outputs_ok env r \<longleftrightarrow> (plain r \<longrightarrow>
     prefix (output_token_ids r) (fst (reference env r)) \<and>
     (state r = FINISHED \<longrightarrow> reference env r = (output_token_ids r, the (finish_reason r))))"

definition body_ok :: "'g engine_setup \<Rightarrow> request \<Rightarrow> bool" where
  "body_ok env r \<longleftrightarrow> prompt_token_ids r \<noteq> [] \<and> validate_sampling (sampling r) = Inr (sampling r) \<and>
     int (length (output_token_ids r)) < max_new_tokens r \<and> continues env r"

lemma continues_prefix: "continues env r \<Longrightarrow> plain r \<Longrightarrow> prefix (output_token_ids r) (fst (reference env r))"
  by (auto simp: continues_def Let_def)

lemma same_reference:
  "sampling q = sampling r \<Longrightarrow> prompt_token_ids q = prompt_token_ids r \<Longrightarrow> max_new_tokens q = max_new_tokens r \<Longrightarrow>
     reference env q = reference env r"
  by (simp add: reference_def)

text \<open>One more token of the model.\<close>

lemma continues_append:
  assumes c: "continues env r" and pl: "plain r \<Longrightarrow> t = prediction env (text_of r)"
    and n: "int (length (output_token_ids r)) < max_new_tokens r"
    and q: "output_token_ids q = output_token_ids r @ [t]" "prompt_token_ids q = prompt_token_ids r"
      "sampling q = sampling r" "max_new_tokens q = max_new_tokens r"
  shows "end_reason env q t = None \<Longrightarrow> continues env q"
    and "end_reason env q t = Some reason \<Longrightarrow> plain q \<Longrightarrow> reference env q = (output_token_ids q, reason)"
proof -
  obtain k where k: "nat (max_new_tokens r) - length (output_token_ids r) = Suc k"
    using n by (cases "nat (max_new_tokens r) - length (output_token_ids r)") auto
  then have k': "nat (max_new_tokens r) - Suc (length (output_token_ids r)) = k" by simp
  have ref: "reference env q = reference env r" by (rule same_reference [OF q(3,2,4)])
  have whole: "text_of q = text_of r @ [t]" by (simp add: text_of_def q)
  have len: "int (length (output_token_ids q)) \<ge> max_new_tokens q \<longleftrightarrow> k = 0" using k q n by auto
  have step: "reference env r = (let rest = (if t \<in> stop_token_ids (sampling r) then ([t], ''STOP'')
       else if \<not> ignore_eos (sampling r) \<and> t \<in> eos_ids env then ([t], ''EOS'')
       else let (ts, reason) = greedy_from env r (text_of r @ [t]) k in (t # ts, reason)) in
      (output_token_ids r @ fst rest, snd rest))" if "plain r"
    using c that pl [OF that] by (simp add: continues_def k Let_def)
  show "continues env q" if "end_reason env q t = None"
    using that step len unfolding continues_def ref whole q
    by (auto simp: end_reason_def q Let_def k' split: if_splits prod.splits)
  show "reference env q = (output_token_ids q, reason)" if "end_reason env q t = Some reason" "plain q"
    using that step len unfolding ref q
    by (auto simp: end_reason_def q Let_def split: if_splits prod.splits)
qed

definition waiting_ok :: "'g engine_setup \<Rightarrow> request \<Rightarrow> bool" where
  "waiting_ok env r \<longleftrightarrow> body_ok env r \<and> (resuming r \<longleftrightarrow> output_token_ids r \<noteq> []) \<and> cached_next_token_id r = None \<and>
     prefilled_token_count r = 0"

definition cached_ok :: "'g engine_setup \<Rightarrow> request \<Rightarrow> bool" where
  "cached_ok env r \<longleftrightarrow> (\<forall>t. cached_next_token_id r = Some t \<longrightarrow> \<not> resuming r \<longrightarrow> plain r \<longrightarrow>
     t = prediction env (prompt_token_ids r))"

definition written :: "kv_allocation \<Rightarrow> int list \<Rightarrow> request \<Rightarrow> int list" where
  "written a p r = take (nat (sequence_length a)) (text_of r) @ p"

definition holding :: "'g engine_setup \<Rightarrow> (nat \<Rightarrow> int list) \<Rightarrow> int \<Rightarrow> kv_allocation \<Rightarrow> int list \<Rightarrow> request \<Rightarrow> bool" where
  "holding env kv bs a p r \<longleftrightarrow>
     sequence_length a + int (length p) \<le> capacity_tokens a \<and>
     (state r = PREFILLING \<longrightarrow> sequence_length a = prefilled_token_count r \<and> (resuming r \<longleftrightarrow> output_token_ids r \<noteq> []) \<and>
        cached_ok env r \<and> int (length (physical_block_ids a)) \<le> ceil_div (prefill_token_count r) bs \<and>
        table_holds kv (nat bs) (written a p r) (physical_block_ids a)) \<and>
     (state r = DECODING \<longrightarrow> \<not> resuming r \<and> output_token_ids r \<noteq> [] \<and>
        sequence_length a = int (length (text_of r)) - 1 \<and> req_next_token_id r = Some (last (output_token_ids r)) \<and>
        covers kv (nat bs) (written a p r) (physical_block_ids a))"

definition predictions_ok :: "'g engine_setup \<Rightarrow> prefix_cache \<Rightarrow> bool" where
  "predictions_ok env pc \<longleftrightarrow> (\<forall>key x. map_of (exact pc) key = Some x \<longrightarrow> next_token_id x = prediction env key)"

definition slots_ok :: "string set \<Rightarrow> 'g engine_setup \<Rightarrow> 'g engine \<Rightarrow> bool" where
  "slots_ok D env e \<longleftrightarrow> (\<forall>x \<in> set (graph_sizes env). x \<le> int (length (dummy_slots e))) \<and>
     (dummy_slots e \<noteq> [] \<longrightarrow> dummy_rows_id \<in> D) \<and>
     (\<forall>(page, off) \<in> set (dummy_slots e). 0 \<le> off \<and> off < mgr_block_size (mgr e) \<and>
        (\<exists>a. table_of dummy_rows_id e = Some a \<and> page \<in> set (physical_block_ids a) \<and> sole (mgr e) dummy_rows_id page))"

definition requests_ok :: "'g engine_setup \<Rightarrow> string set \<Rightarrow> (string \<Rightarrow> int list) \<Rightarrow> 'g engine \<Rightarrow> bool" where
  "requests_ok env X pend e \<longleftrightarrow>
     (\<forall>rid r a. rid \<notin> X \<longrightarrow> active_request rid e = Some r \<longrightarrow> table_of rid e = Some a \<longrightarrow>
        body_ok env r \<and> holding env (pages e) (mgr_block_size (mgr e)) a (pend rid) r)"

definition rest_ok :: "'g engine_setup \<Rightarrow> 'g engine \<Rightarrow> bool" where
  "rest_ok env e \<longleftrightarrow>
     (\<forall>r \<in> set (waiting (sch e)). waiting_ok env r) \<and>
     (\<forall>pc. cache (sch e) = Some pc \<longrightarrow> predictions_ok env pc) \<and>
     (\<forall>r \<in> set (ended e) \<union> set (dropped (sch e)). outputs_ok env r) \<and>
     0 \<le> max_generators (smp e) \<and> int (length (active (sch e))) \<le> max_active env"

definition engine_ok :: "string set \<Rightarrow> 'g engine_setup \<Rightarrow> string set \<Rightarrow> (string \<Rightarrow> int list) \<Rightarrow> 'g engine \<Rightarrow> bool" where
  "engine_ok D env X pend e \<longleftrightarrow>
     world_ok D (sch e, pages e) \<and> shared_shape (mgr e) \<and> requests_ok env X pend e \<and> slots_ok D env e \<and> rest_ok env e"

text \<open>What is asked of the setup: torch keeps its promises, and the sizes are sensible.\<close>

definition setup_laws :: "'g engine_setup \<Rightarrow> bool" where
  "setup_laws env \<longleftrightarrow> torch_laws (torch env) \<and> 20 \<le> vocab_size env \<and>
     0 < max_active env \<and> 0 < prefill_chunk_size env \<and> 0 < max_prefill_tokens env \<and>
     speculation_depth env + 1 \<le> prefill_chunk_size env \<and> (\<forall>n \<in> set (graph_sizes env). 0 < n \<and> n \<le> max_active env) \<and>
     (\<forall>propose n rid ctx k. proposer env = Some propose \<longrightarrow> int (length (propose n rid ctx k)) \<le> max 0 k)"

lemma engine_okD:
  assumes "engine_ok D env X pend e"
  shows "world_ok D (sch e, pages e)" and "sched_inv (pages e) (sch e)" and "pages_inv D (sch e)" and "mgr_inv (mgr e)"
    and "\<exists>pc. cache (sch e) = Some pc \<and> cache_good (pages e) pc (mgr e)" and "shared_shape (mgr e)"
    and "requests_ok env X pend e" and "slots_ok D env e" and "rest_ok env e" and "0 < mgr_block_size (mgr e)"
proof -
  show w: "world_ok D (sch e, pages e)" and "shared_shape (mgr e)" and "requests_ok env X pend e" and "slots_ok D env e"
    and "rest_ok env e" using assms by (simp_all add: engine_ok_def)
  from world_okD [OF w] show "sched_inv (pages e) (sch e)" and "pages_inv D (sch e)" and "mgr_inv (mgr e)"
    and "\<exists>pc. cache (sch e) = Some pc \<and> cache_good (pages e) pc (mgr e)" by blast+
  then show "0 < mgr_block_size (mgr e)" using mgr_invD(4) by blast
qed

text \<open>An active request and its table.\<close>

lemma active_table:
  assumes ok: "engine_ok D env X pend e" and r: "active_request rid e = Some r"
  obtains a where "table_of rid e = Some a" and "request_id r = rid" and "req_inv r"
    and "state r = PREFILLING \<or> state r = DECODING"
    and "capacity_tokens a = int (length (physical_block_ids a)) * mgr_block_size (mgr e)" and "0 \<le> sequence_length a"
    and "sequence_length a \<le> capacity_tokens a" and "distinct (physical_block_ids a)"
proof -
  note d = engine_okD [OF ok]
  have r': "map_of (active (sch e)) rid = Some r" using r by (simp add: active_request_def)
  from sched_invD(6) [OF d(2) r'] obtain a where a: "table_of rid e = Some a" and i: "request_id r = rid" "req_inv r"
    "state r = PREFILLING \<or> state r = DECODING" by (auto simp: table_of_def)
  have q: "requests (mgr e) rid = Some a" using a by (simp add: table_of_def)
  note m = mgr_inv_request [OF d(4) q]
  show thesis
    using that [OF a i] m by (simp add: capacity_tokens_def)
qed

lemma active_ok:
  assumes "engine_ok D env X pend e" and "rid \<notin> X" and "active_request rid e = Some r" and "table_of rid e = Some a"
  shows "body_ok env r" and "holding env (pages e) (mgr_block_size (mgr e)) a (pend rid) r"
  using engine_okD(7) [OF assms(1)] assms(2-4) by (auto simp: requests_ok_def)

lemma active_not_reserved:
  assumes ok: "engine_ok D env X pend e" and r: "active_request rid e = Some r"
  shows "rid \<notin> D"
proof -
  have "rid \<in> set (map fst (active (sch e)))" using r active_id_iff [of "active (sch e)" rid] by (simp add: active_request_def)
  with engine_okD(3) [OF ok] show ?thesis unfolding pages_inv_def by blast
qed

lemma live_iff: "engine_ok D env X pend e \<Longrightarrow> live st rid e \<longleftrightarrow> (\<exists>r. active_request rid e = Some r \<and> state r = st)"
  by (auto simp: live_def split: option.splits elim: active_table)

lemma prompt_length: "req_inv r \<Longrightarrow> body_ok env r \<Longrightarrow> int (length (prompt_token_ids r)) = prompt_token_count r"
  by (auto simp: req_inv_def body_ok_def)

text \<open>How a holding survives changes of the table, the pages and the request.\<close>

lemma written_le:
  assumes "sequence_length a + int (length p) \<le> capacity_tokens a" and "0 \<le> sequence_length a"
    and "capacity_tokens a = int n * bs" and "0 < bs"
  shows "length (written a p r) \<le> n * nat bs"
proof -
  have "int (length (written a p r)) \<le> sequence_length a + int (length p)"
    using assms(2) by (auto simp: written_def min_def)
  also have "\<dots> \<le> int (n * nat bs)" using assms by simp
  finally show ?thesis by (simp only: of_nat_le_iff)
qed

lemma holding_cong:
  assumes h: "holding env kv bs a p r" and a': "sequence_length a' = sequence_length a"
    and nn: "0 \<le> sequence_length a" and bs: "0 < bs"
    and c: "capacity_tokens a = int (length (physical_block_ids a)) * bs"
    and c': "capacity_tokens a' = int (length (physical_block_ids a')) * bs"
    and le: "length (physical_block_ids a) \<le> length (physical_block_ids a')"
    and few: "state r = PREFILLING \<Longrightarrow> int (length (physical_block_ids a')) \<le>
        max (int (length (physical_block_ids a))) (ceil_div (prefill_token_count r) bs)"
    and kv: "\<And>i. i < length (physical_block_ids a) \<Longrightarrow> kv' (physical_block_ids a' ! i) = kv (physical_block_ids a ! i)"
  shows "holding env kv' bs a' p r"
proof -
  have w: "written a' p r = written a p r" by (simp add: written_def a')
  have len: "length (written a p r) \<le> length (physical_block_ids a) * nat bs"
    using h written_le [OF _ nn c bs] by (simp add: holding_def)
  have "capacity_tokens a \<le> capacity_tokens a'" unfolding c c' using le bs by (simp add: mult_right_mono)
  then show ?thesis
    using h few table_holds_cong [of kv "nat bs" "written a p r" "physical_block_ids a" "physical_block_ids a'" kv', OF _ len le kv]
      covers_cong [of kv "nat bs" "written a p r" "physical_block_ids a" "physical_block_ids a'" kv', OF _ len le kv]
    unfolding holding_def w a' by auto
qed


text \<open>The fields of a request its holding does not look at.\<close>

definition same_request :: "request \<Rightarrow> request \<Rightarrow> bool" where
  "same_request r q \<longleftrightarrow> (\<exists>l f. q = r\<lparr>output_logprobs := l, speculative_fallbacks := f\<rparr>)"

lemma same_requestD:
  assumes "same_request r q"
  shows "holding env kv bs a p q = holding env kv bs a p r" and "body_ok env q = body_ok env r" and "req_inv q = req_inv r"
    and "state q = state r" and "request_id q = request_id r" and "text_of q = text_of r" and "sampling q = sampling r"
    and "prompt_token_ids q = prompt_token_ids r" and "output_token_ids q = output_token_ids r"
    and "resuming q = resuming r" and "prefilled_token_count q = prefilled_token_count r"
    and "prefill_token_ids q = prefill_token_ids r" and "prefill_token_count q = prefill_token_count r"
    and "remaining_prefill_tokens q = remaining_prefill_tokens r" and "max_new_tokens q = max_new_tokens r"
    and "req_next_token_id q = req_next_token_id r" and "prompt_token_count q = prompt_token_count r"
    and "created_ns q = created_ns r"
proof -
  from assms obtain l f where q: "q = r\<lparr>output_logprobs := l, speculative_fallbacks := f\<rparr>" unfolding same_request_def by blast
  note defs = holding_def body_ok_def req_inv_def text_of_def written_def cached_ok_def continues_def reference_def
      prefill_token_ids_def prefill_token_count_def remaining_prefill_tokens_def
  show "holding env kv bs a p q = holding env kv bs a p r" and "body_ok env q = body_ok env r" and "req_inv q = req_inv r"
    and "state q = state r" and "request_id q = request_id r" and "text_of q = text_of r" and "sampling q = sampling r"
    and "prompt_token_ids q = prompt_token_ids r" and "output_token_ids q = output_token_ids r"
    and "resuming q = resuming r" and "prefilled_token_count q = prefilled_token_count r"
    and "prefill_token_ids q = prefill_token_ids r" and "prefill_token_count q = prefill_token_count r"
    and "remaining_prefill_tokens q = remaining_prefill_tokens r" and "max_new_tokens q = max_new_tokens r"
    and "req_next_token_id q = req_next_token_id r" and "prompt_token_count q = prompt_token_count r"
    and "created_ns q = created_ns r"
    unfolding q by (simp_all add: defs)
qed

lemma same_request_refl [simp]: "same_request r r"
  unfolding same_request_def by (intro exI [of _ "output_logprobs r"] exI [of _ "speculative_fallbacks r"]) simp

lemma same_request_trans: "same_request a b \<Longrightarrow> same_request b c \<Longrightarrow> same_request a c"
  unfolding same_request_def by (elim exE) (simp, intro exI, rule refl)

section \<open>What happens to the other requests\<close>

text \<open>
  An operation on one request keeps the others: their values up to bookkeeping, their
  tables, and that the blocks past their end are their own.
\<close>

definition others_kept :: "string \<Rightarrow> 'g engine \<Rightarrow> 'g engine \<Rightarrow> bool" where
  "others_kept rid e e' \<longleftrightarrow> (\<forall>x. x \<noteq> rid \<longrightarrow>
     active_request x e' = active_request x e \<and> table_of x e' = table_of x e \<and>
     (owns_rest (mgr e) x \<longrightarrow> owns_rest (mgr e') x))"

lemma others_kept_refl [simp]: "others_kept rid e e"
  by (simp add: others_kept_def)

lemma others_kept_trans [trans]: "others_kept rid e e1 \<Longrightarrow> others_kept rid e1 e2 \<Longrightarrow> others_kept rid e e2"
  by (simp add: others_kept_def)

text \<open>The frame rule: an operation on a request that is being changed.\<close>

lemma engine_ok_frame:
  assumes ok: "engine_ok D env X pend e"
    and w: "world_ok D (sch e', pages e')" "shared_shape (mgr e')" "mgr_block_size (mgr e') = mgr_block_size (mgr e)"
    and others: "\<And>x q. x \<notin> X \<Longrightarrow> active_request x e' = Some q \<Longrightarrow>
        active_request x e = Some q \<and> table_of x e' = table_of x e \<and>
        (\<forall>a. table_of x e = Some a \<longrightarrow> (\<forall>b \<in> set (physical_block_ids a). pages e' b = pages e b))"
    and s: "slots_ok D env e'" and rest: "rest_ok env e'"
  shows "engine_ok D env X pend e'"
proof -
  note d = engine_okD [OF ok]
  have "requests_ok env X pend e'"
    unfolding requests_ok_def
  proof (intro allI impI)
    fix x q a assume x: "x \<notin> X" and q: "active_request x e' = Some q" and a: "table_of x e' = Some a"
    note other = others [OF x q]
    have tab: "table_of x e = Some a" using other a by simp
    have o: "active_request x e = Some q" "\<forall>b \<in> set (physical_block_ids a). pages e' b = pages e b" using other tab by blast+
    from active_table [OF ok o(1)] obtain a0 where a0: "table_of x e = Some a0"
      "capacity_tokens a0 = int (length (physical_block_ids a0)) * mgr_block_size (mgr e)" "0 \<le> sequence_length a0" .
    with tab have eq: "a0 = a" by simp
    note h = active_ok [OF ok x o(1) tab]
    show "body_ok env q \<and> holding env (pages e') (mgr_block_size (mgr e')) a (pend x) q"
      using h(1) holding_cong [OF h(2) refl _ d(10) _ _ le_refl max.cobounded1] a0(2,3) o(2) unfolding eq w(3) by simp
  qed
  with w s rest show ?thesis by (simp add: engine_ok_def)
qed

lemma engine_ok_open: "engine_ok D env X pend e \<Longrightarrow> X \<subseteq> Y \<Longrightarrow> engine_ok D env Y pend e"
  by (auto simp: engine_ok_def requests_ok_def)

lemma engine_ok_close:
  assumes "engine_ok D env X pend e"
    and "\<And>r a. active_request rid e = Some r \<Longrightarrow> table_of rid e = Some a \<Longrightarrow>
      body_ok env r \<and> holding env (pages e) (mgr_block_size (mgr e)) a p r"
  shows "engine_ok D env (X - {rid}) (pend(rid := p)) e"
  using assms by (auto simp: engine_ok_def requests_ok_def)

lemma engine_ok_gone:
  assumes "engine_ok D env X pend e" and "active_request rid e = None"
  shows "engine_ok D env (X - {rid}) (pend(rid := p)) e"
  by (rule engine_ok_close [OF assms(1)]) (simp add: assms(2))

text \<open>Only bookkeeping of the engine changes.\<close>

lemma engine_ok_same_core:
  assumes "engine_ok D env X pend e" and "sch e' = sch e" and "pages e' = pages e" and "dummy_slots e' = dummy_slots e"
    and "rest_ok env e'"
  shows "engine_ok D env X pend e'"
  using assms unfolding engine_ok_def requests_ok_def slots_ok_def active_request_def table_of_def by simp

lemma tick_simps [simp]:
  "sch (tick e) = sch e" "pages (tick e) = pages e" "smp (tick e) = smp e" "ended (tick e) = ended e"
  "dummy_slots (tick e) = dummy_slots e" "active_request rid (tick e) = active_request rid e"
  "table_of rid (tick e) = table_of rid e" "live st rid (tick e) = live st rid e"
  "others_kept rid e (tick e') = others_kept rid e e'" "others_kept rid (tick e) e' = others_kept rid e e'"
  by (simp_all add: tick_def active_request_def table_of_def live_def others_kept_def cong: option.case_cong)

lemma engine_ok_tick [simp]: "engine_ok D env X pend (tick e) = engine_ok D env X pend e"
  by (simp add: engine_ok_def requests_ok_def slots_ok_def rest_ok_def)

section \<open>Changing an open request\<close>

lemma active_put_request [simp]:
  "active_request x (put_request rid q e) = (if x = rid then Some q else active_request x e)"
  by (simp add: active_request_def put_request_def update_conv')

lemma put_request_simps [simp]:
  "mgr (put_request rid q e) = mgr e" "pages (put_request rid q e) = pages e" "smp (put_request rid q e) = smp e"
  "table_of x (put_request rid q e) = table_of x e" "ended (put_request rid q e) = ended e"
  "dummy_slots (put_request rid q e) = dummy_slots e" "ticks (put_request rid q e) = ticks e"
  "cache (sch (put_request rid q e)) = cache (sch e)" "waiting (sch (put_request rid q e)) = waiting (sch e)"
  "dropped (sch (put_request rid q e)) = dropped (sch e)"
  "put_request rid q (put_request rid r e) = put_request rid q e" "tick (put_request rid q e) = put_request rid q (tick e)"
  by (simp_all add: put_request_def table_of_def update_last tick_def)

lemma put_request_open:
  assumes ok: "engine_ok D env X pend e" and x: "rid \<in> X" and r: "active_request rid e = Some r"
    and q: "request_id q = rid" "req_inv q" "state q = PREFILLING \<or> state q = DECODING"
  shows "engine_ok D env X pend (put_request rid q e)" and "others_kept rid e (put_request rid q e)"
proof -
  note d = engine_okD [OF ok]
  have r': "map_of (active (sch e)) rid = Some r" using r by (simp add: active_request_def)
  have "sched_inv (pages e) (sch (put_request rid q e))"
    using sched_inv_set_active [OF d(2) r' q] by (simp add: put_request_def)
  moreover have "pages_inv D (sch (put_request rid q e))"
    using pages_inv_update [OF d(3)] r' by (simp add: put_request_def)
  moreover have "cache (sch (put_request rid q e)) \<noteq> None" using d(5) by auto
  ultimately have w: "world_ok D (sch (put_request rid q e), pages (put_request rid q e))" by (simp add: world_ok_def)
  have len: "length (active (sch (put_request rid q e))) = length (active (sch e))"
  proof -
    have "map fst (AList.update rid q (active (sch e))) = map fst (active (sch e))"
      using r' by (simp add: update_keys map_of_eq_None_iff [symmetric])
    from arg_cong [OF this, of length] show ?thesis by (simp add: put_request_def)
  qed
  show "engine_ok D env X pend (put_request rid q e)"
  proof (rule engine_ok_frame [OF ok w])
    show "slots_ok D env (put_request rid q e)" using d(8) by (simp add: slots_ok_def)
    show "rest_ok env (put_request rid q e)" using d(9) len by (simp add: rest_ok_def)
  qed (use d(6) x in \<open>auto split: if_splits\<close>)
  show "others_kept rid e (put_request rid q e)" by (simp add: others_kept_def)
qed

lemma put_manager_simps [simp]:
  "mgr (put_manager m e) = m" "pages (put_manager m e) = pages e" "smp (put_manager m e) = smp e"
  "active_request x (put_manager m e) = active_request x e" "ended (put_manager m e) = ended e"
  "dummy_slots (put_manager m e) = dummy_slots e" "table_of x (put_manager m e) = requests m x"
  "ticks (put_manager m e) = ticks e" "active (sch (put_manager m e)) = active (sch e)"
  "cache (sch (put_manager m e)) = cache (sch e)" "waiting (sch (put_manager m e)) = waiting (sch e)"
  "dropped (sch (put_manager m e)) = dropped (sch e)"
  by (simp_all add: put_manager_def active_request_def table_of_def)

lemma append_tokens_fits:
  assumes "mgr_inv m" and a: "requests m rid = Some a" and "0 < n" and "sequence_length a + n \<le> capacity_tokens a"
  shows "append_tokens m rid n = Inr (True, m\<lparr>requests := (requests m)(rid \<mapsto> a\<lparr>sequence_length := sequence_length a + n\<rparr>)\<rparr>)"
proof -
  have "ceil_div (sequence_length a + n) (mgr_block_size m) - int (length (physical_block_ids a)) \<le> 0"
    using mgr_inv_request(2) [OF assms(1) a] assms(4) ceil_div_le_iff [OF mgr_invD(4) [OF assms(1)]]
    by (simp add: capacity_tokens_def)
  with assms(3) a show ?thesis by (simp add: append_tokens_def ensure_capacity_def Let_def)
qed

lemma append_open:
  assumes ok: "engine_ok D env X pend e" and x: "rid \<in> X" and a: "table_of rid e = Some a"
    and r: "active_request rid e = Some r" and n: "0 < n" "sequence_length a + n \<le> capacity_tokens a"
  obtains m where "append_tokens (mgr e) rid n = Inr (True, m)" and "engine_ok D env X pend (put_manager m e)"
    and "others_kept rid e (put_manager m e)" and "mgr_block_size m = mgr_block_size (mgr e)"
    and "table_of rid (put_manager m e) = Some (a\<lparr>sequence_length := sequence_length a + n\<rparr>)"
    and "owns_rest (mgr e) rid \<Longrightarrow> owns_rest m rid"
proof -
  note d = engine_okD [OF ok]
  have a': "requests (mgr e) rid = Some a" using a by (simp add: table_of_def)
  define m where "m = (mgr e)\<lparr>requests := (requests (mgr e))(rid \<mapsto> a\<lparr>sequence_length := sequence_length a + n\<rparr>)\<rparr>"
  note run = append_tokens_fits [OF d(4) a' n, folded m_def]
  have ms: "allocator m = allocator (mgr e)" "mgr_block_size m = mgr_block_size (mgr e)"
    "requests m x = (if x = rid then Some (a\<lparr>sequence_length := sequence_length a + n\<rparr>) else requests (mgr e) x)" for x
    by (simp_all add: m_def)
  have sole: "sole m = sole (mgr e)" by (simp add: sole_def ms fun_eq_iff)
  have "m = mgr_exec (AppendTokens rid n) (mgr e)" using run by simp
  moreover have "dom (requests m) = dom (requests (mgr e))" using a' by (auto simp: m_def)
  ultimately have w: "world_ok D (sch (put_manager m e), pages (put_manager m e))"
    using world_manager_op [OF d(1), of "AppendTokens rid n"] by (simp add: put_manager_def)
  have shape: "shared_shape m"
    unfolding shared_shape_def sole
  proof (intro allI impI)
    fix x b i assume b: "requests m x = Some b" and i: "i < length (physical_block_ids b)"
      and ns: "\<not> sole (mgr e) x (physical_block_ids b ! i)"
    show "int i * mgr_block_size m < sequence_length b \<and>
        (int (Suc i) * mgr_block_size m \<le> sequence_length b \<or> Suc i = length (physical_block_ids b))"
      using d(6) [unfolded shared_shape_def, rule_format, of x _ i] a' b i ns n(1)
      by (cases "x = rid") (fastforce simp: ms)+
  qed
  have "engine_ok D env X pend (put_manager m e)"
  proof (rule engine_ok_frame [OF ok w])
    show "slots_ok D env (put_manager m e)"
    proof -
      have "dummy_rows_id \<noteq> rid" if "dummy_slots e \<noteq> []" using d(8) that active_not_reserved [OF ok r] by (auto simp: slots_ok_def)
      then show ?thesis using d(8) by (fastforce simp: slots_ok_def ms sole table_of_def)
    qed
    show "rest_ok env (put_manager m e)" using d(9) by (simp add: rest_ok_def)
  qed (use shape ms x in \<open>auto simp: table_of_def\<close>)
  moreover have "others_kept rid e (put_manager m e)"
    by (simp add: others_kept_def ms table_of_def owns_rest_def sole)
  moreover have "owns_rest m rid" if "owns_rest (mgr e) rid"
    using that a' n(1) by (fastforce simp: owns_rest_def ms sole)
  ultimately show thesis using that [of m] run ms(2) by (simp add: m_def)
qed

section \<open>A request leaves\<close>

lemma leave_run:
  assumes "leave now nxt rid reason s = Inr (r', s')" and "map_of (active s) rid = Some r"
  shows "prompt_token_ids r' = prompt_token_ids r" and "output_token_ids r' = output_token_ids r" and "sampling r' = sampling r"
    and "max_new_tokens r' = max_new_tokens r" and "state r' = nxt" and "terminal nxt \<Longrightarrow> finish_reason r' = Some reason"
    and "cache s' = cache s" and "dropped s' = dropped s" and "mgr_block_size (manager s') = mgr_block_size (manager s)"
    and "max_waiting_requests s' = max_waiting_requests s"
    and "allocations (allocator (manager s')) w = None \<or>
      allocations (allocator (manager s')) w = allocations (allocator (manager s)) w"
proof -
  from assms obtain s1 s2 r1 where pop: "pop_active rid s = Inr (r, s1)" and rel: "release_pages rid s1 = Inr s2"
    and t: "req_transition now nxt (Some reason) r = Inr r1" and adv: "advance_progress r1 s2 = (r', s')"
    by (auto simp: leave_def pop_active_def)
  note sh = transition_shape(1) [OF t]
  have r': "r' = r1\<lparr>held_pages_at_exit := True\<rparr>" using adv by (simp add: advance_progress_def)
  show "prompt_token_ids r' = prompt_token_ids r" and "output_token_ids r' = output_token_ids r" and "sampling r' = sampling r"
    and "max_new_tokens r' = max_new_tokens r"
    using sh by (simp_all add: r' same_shape_def)
  show "state r' = nxt" using transition_shape(2) [OF t] by (simp add: r')
  show "finish_reason r' = Some reason" if "terminal nxt"
    using t that by (cases nxt) (auto simp: r' req_transition_def Let_def split: if_splits)
  show "cache s' = cache s" and "dropped s' = dropped s" and "mgr_block_size (manager s') = mgr_block_size (manager s)"
    and "max_waiting_requests s' = max_waiting_requests s"
    and "allocations (allocator (manager s')) w = None \<or>
      allocations (allocator (manager s')) w = allocations (allocator (manager s)) w"
    using pop rel adv assms(2)
    by (auto simp: pop_active_def release_pages_def advance_progress_def mgr_release_def block_release_def
        split: option.splits prod.splits)
qed

lemma leave_world:
  assumes ok: "world_ok D (s, kv)" and r: "map_of (active s) rid = Some r"
    and nxt: "nxt \<in> allowed_transitions (state r)" "terminal nxt"
  obtains r' s' where "leave now nxt rid reason s = Inr (r', s')" and "world_ok D (s', kv)" and "request_id r' = rid"
    and "prompt_token_ids r' = prompt_token_ids r" and "output_token_ids r' = output_token_ids r" and "sampling r' = sampling r"
    and "max_new_tokens r' = max_new_tokens r" and "state r' = nxt" and "finish_reason r' = Some reason"
    and "active s' = AList.delete rid (active s)" and "waiting s' = waiting s" and "cache s' = cache s" and "dropped s' = dropped s"
    and "requests (manager s') = (requests (manager s))(rid := None)" and "mem_step (s, kv) (s', kv)"
    and "mgr_block_size (manager s') = mgr_block_size (manager s)"
proof -
  note d = world_okD [OF ok]
  from leave_ok [OF d(1) r nxt, of now reason] obtain r' s' where l: "leave now nxt rid reason s = Inr (r', s')"
    "request_id r' = rid" "active s' = AList.delete rid (active s)" "waiting s' = waiting s"
    "requests (manager s') = (requests (manager s))(rid := None)" by blast
  note q = leave_run [OF l(1) r]
  have w: "world_ok D (s', kv)" using leave_step [OF d(1,2) nxt(2) l(1)] q(7) ok by (simp add: world_ok_def)
  have "keeps_tables (manager s) kv (manager s') kv"
    by (rule keeps_tables_drop [OF d(3) world_okD(3) [OF w] q(9)]) (use l(5) q(11) in \<open>auto split: if_splits\<close>)
  then have "mem_step (s, kv) (s', kv)" by (rule mem_step_same_lengths) (use l(5) in \<open>auto split: if_splits\<close>)
  with that l w q(1-9) q(6) [OF nxt(2)] show thesis by blast
qed

lemma kept_owns_rest:
  assumes k: "keeps_tables m kv m' kv'" and o: "owns_rest m rid" shows "owns_rest m' rid"
  unfolding owns_rest_def
proof (intro allI impI)
  fix a' i assume a': "requests m' rid = Some a'" and i: "i < length (physical_block_ids a')"
    and rest: "sequence_length a' < int (Suc i) * mgr_block_size m'"
  from k a' obtain a where a: "requests m rid = Some a" and t: "table_kept m kv a m' kv' a' rid"
    and bs: "mgr_block_size m' = mgr_block_size m" by (auto simp: keeps_tables_def)
  show "sole m' rid (physical_block_ids a' ! i)"
  proof (cases "i < length (physical_block_ids a)")
    case True
    moreover from t rest bs have "sequence_length a < int (Suc i) * mgr_block_size m" by (simp add: table_kept_def)
    ultimately show ?thesis using o a t by (auto simp: owns_rest_def table_kept_def)
  next
    case False
    with t i show ?thesis by (simp add: table_kept_def)
  qed
qed

lemma slots_kept:
  assumes s: "slots_ok D env e" and k: "keeps_tables (mgr e) kv (mgr e') kv'" and d: "dummy_slots e' = dummy_slots e"
    and live: "table_of dummy_rows_id e' = table_of dummy_rows_id e"
  shows "slots_ok D env e'"
proof -
  have bs: "mgr_block_size (mgr e') = mgr_block_size (mgr e)" using k by (simp add: keeps_tables_def)
  have "sole (mgr e') dummy_rows_id page"
    if a: "table_of dummy_rows_id e = Some a" and p: "page \<in> set (physical_block_ids a)" and o: "sole (mgr e) dummy_rows_id page" for a page
  proof -
    have a': "requests (mgr e) dummy_rows_id = Some a" "requests (mgr e') dummy_rows_id = Some a"
      using a live by (simp_all add: table_of_def)
    from p obtain i where "i < length (physical_block_ids a)" "page = physical_block_ids a ! i" by (auto simp: in_set_conv_nth)
    with keeps_tablesD [OF k a'(2,1)] o show ?thesis by (auto simp: table_kept_def)
  qed
  with s show ?thesis by (fastforce simp: slots_ok_def d bs live)
qed

lemma end_open:
  assumes ok: "engine_ok D env X pend e" and x: "rid \<in> X" and r: "active_request rid e = Some r" and out: "plain r \<Longrightarrow> prefix (output_token_ids r) (fst (reference env r))"
    and fin: "nxt = FINISHED \<Longrightarrow> plain r \<Longrightarrow> reference env r = (output_token_ids r, reason)"
    and nxt: "nxt \<in> allowed_transitions (state r)" "terminal nxt"
  obtains e' where "end_request (leave now nxt rid reason (sch e)) e = Inr e'" and "engine_ok D env X pend e'"
    and "active_request rid e' = None" and "others_kept rid e e'"
proof -
  note d = engine_okD [OF ok]
  have r': "map_of (active (sch e)) rid = Some r" using r by (simp add: active_request_def)
  from leave_world [OF d(1) r' nxt, of now reason] obtain q s' where l: "leave now nxt rid reason (sch e) = Inr (q, s')"
    "world_ok D (s', pages e)" "request_id q = rid" "prompt_token_ids q = prompt_token_ids r"
    "output_token_ids q = output_token_ids r" "sampling q = sampling r" "max_new_tokens q = max_new_tokens r" "state q = nxt" "finish_reason q = Some reason" "active s' = AList.delete rid (active (sch e))"
    "waiting s' = waiting (sch e)" "cache s' = cache (sch e)" "dropped s' = dropped (sch e)"
    "requests (manager s') = (requests (mgr e))(rid := None)" "mem_step (sch e, pages e) (s', pages e)"
    "mgr_block_size (manager s') = mgr_block_size (mgr e)" .
  define e' where "e' = tick (e\<lparr>sch := s', ended := ended e @ [q], smp := sampler_forget [RequestKey (request_id q)] (smp e)\<rparr>)"
  have e': "sch e' = s'" "pages e' = pages e" "dummy_slots e' = dummy_slots e" "ended e' = ended e @ [q]"
    "max_generators (smp e') = max_generators (smp e)"
    by (simp_all add: e'_def sampler_forget_def)
  have act: "active_request y e' = (if y = rid then None else active_request y e)" for y
    by (simp add: active_request_def e' l(10) delete_conv')
  have tab: "table_of y e' = (if y = rid then None else table_of y e)" for y by (simp add: table_of_def e' l(14))
  have keep: "keeps_tables (mgr e) (pages e) (mgr e') (pages e')" using l(15) by (simp add: mem_step_def e')
  have shape: "shared_shape (mgr e')" using l(15) d(6) by (simp add: mem_step_def e')
  note nd = active_not_reserved [OF ok r]
  have slots: "slots_ok D env e'"
  proof (cases "dummy_slots e = []")
    case True
    with d(8) e'(3) show ?thesis by (simp add: slots_ok_def)
  next
    case False
    then have "dummy_rows_id \<noteq> rid" using d(8) nd by (auto simp: slots_ok_def)
    then show ?thesis using slots_kept [OF d(8) keep e'(3)] tab by simp
  qed
  have "length (AList.delete rid (active (sch e))) \<le> length (active (sch e))" by (rule length_delete_le)
  moreover have "outputs_ok env q"
    using out fin l(4-9) by (simp add: outputs_ok_def same_reference [OF l(6,4,7)])
  ultimately have rest: "rest_ok env e'"
    using d(9) by (auto simp: rest_ok_def e' l(10-13))
  have "engine_ok D env X pend e'"
    by (rule engine_ok_frame [OF ok _ shape _ _ slots rest]) (use l(2,16) x act tab in \<open>auto simp: e'(1,2) split: if_splits\<close>)
  moreover have "others_kept rid e e'" using act tab kept_owns_rest [OF keep] by (simp add: others_kept_def)
  moreover have "end_request (leave now nxt rid reason (sch e)) e = Inr e'" using l(1) by (simp add: end_request_def e'_def)
  ultimately show thesis using that act by simp
qed

section \<open>Publishing the prompt of an open request\<close>

lemma publish_open:
  assumes ok: "engine_ok D env X pend e" and x: "rid \<in> X" and r: "active_request rid e = Some r"
    and a: "table_of rid e = Some a" and ne: "toks \<noteq> []" and len: "int (length toks) \<le> sequence_length a"
    and t: "t = (if plain r then nxt else None)"
    and holds: "publishable (pages e) (nat (mgr_block_size (mgr e))) toks (physical_block_ids a) t"
    and right: "\<And>v. t = Some v \<Longrightarrow> v = prediction env toks"
    and tail: "t \<noteq> None \<Longrightarrow> sequence_length a = int (length toks) \<and>
        int (length (physical_block_ids a)) \<le> ceil_div (sequence_length a) (mgr_block_size (mgr e))"
  obtains e' where "publish_prefix rid nxt toks e = Inr e'" and "engine_ok D env X pend e'" and "others_kept rid e e'"
    and "pages e' = pages e" and "active (sch e') = active (sch e)" and "requests (mgr e') = requests (mgr e)"
    and "mgr_block_size (mgr e') = mgr_block_size (mgr e)" and "ticks e' = ticks e"
proof -
  note d = engine_okD [OF ok]
  let ?m = "mgr e" and ?s = "nat (mgr_block_size (mgr e))" and ?tab = "physical_block_ids a"
  obtain pc where pc: "cache (sch e) = Some pc" "cache_good (pages e) pc ?m" using d(5) by blast
  have a': "requests ?m rid = Some a" using a by (simp add: table_of_def)
  from publish_run [OF pc(2) a' ne len holds] obtain k pc' m' where
    run: "publish toks a t pc ?m = Inr (k, pc', m')" and good: "cache_good (pages e) pc' m'" and same: "same_pool ?m m'" by blast
  note adds = publish_adds [OF pc(2) a' ne len holds run]
  define e' where "e' = e\<lparr>sch := (sch e)\<lparr>manager := m', cache := Some pc'\<rparr>\<rparr>"
  have e': "mgr e' = m'" "pages e' = pages e" "active_request y e' = active_request y e" "dummy_slots e' = dummy_slots e"
    "waiting (sch e') = waiting (sch e)" "active (sch e') = active (sch e)" "cache (sch e') = Some pc'"
    "ended e' = ended e" "dropped (sch e') = dropped (sch e)" "smp e' = smp e" for y
    by (simp_all add: e'_def active_request_def)
  have m': "requests m' = requests ?m" "mgr_block_size m' = mgr_block_size ?m"
    "\<And>r. allocations (allocator m') (Req r) = allocations (allocator ?m) (Req r)" using same by (auto simp: same_pool_def)
  have tab: "table_of y e' = table_of y e" for y by (simp add: table_of_def e'(1) m'(1))
  have w: "world_ok D (sch e', pages e')"
  proof -
    have "cache_step (pc, ?m, pages e) (pc', m', pages e)" by (rule step_publish [OF a' ne len holds run])
    with pool_step [OF d(2,3) pc(1), of pc' m' "pages e"] m'(1) show ?thesis by (simp add: world_ok_def e'_def)
  qed
  \<comment> \<open>only blocks of the published table are shared now\<close>
  have keep: "sole m' y b" if "requests ?m y = Some c" "b \<in> set (physical_block_ids c)" "sole ?m y b"
    and "\<not> (\<exists>i < length ?tab. b = ?tab ! i \<and> (Suc i * ?s \<le> length toks \<or> t \<noteq> None \<and> i * ?s < length toks))" for y b c
  proof -
    have "Req y \<in> owners (allocator m') b" using mgr_owner(1) [of m' y c] world_okD(3) [OF w] that(1,2) m'(1) e'(1) by simp
    moreover have "owners (allocator m') b \<subseteq> owners (allocator ?m) b" using adds(2) that(4) by blast
    ultimately show ?thesis using that(3) by (auto simp: sole_def)
  qed
  have other: "sole m' y b" if "y \<noteq> rid" "requests ?m y = Some c" "b \<in> set (physical_block_ids c)" "sole ?m y b" for y b c
  proof (rule keep [OF that(2-4)], clarify)
    fix i assume "i < length ?tab" "b = ?tab ! i"
    then have "Req rid \<in> owners (allocator ?m) b" using mgr_owner(1) [OF d(4) a'] by simp
    with that(1,4) show False by (simp add: sole_def)
  qed
  have shape: "shared_shape m'"
    unfolding shared_shape_def m'(1,2)
  proof (intro allI impI)
    fix y c i assume c: "requests ?m y = Some c" and i: "i < length (physical_block_ids c)"
      and ns: "\<not> sole m' y (physical_block_ids c ! i)"
    show "int i * mgr_block_size ?m < sequence_length c \<and>
        (int (Suc i) * mgr_block_size ?m \<le> sequence_length c \<or> Suc i = length (physical_block_ids c))"
    proof (cases "sole ?m y (physical_block_ids c ! i)")
      case False
      with d(6) c i show ?thesis unfolding shared_shape_def by blast
    next
      case True
      with other [OF _ c nth_mem [OF i]] ns have y: "y = rid" by blast
      with c a' have ca: "c = a" by simp
      from keep [OF c nth_mem [OF i] True] ns obtain j where j: "j < length ?tab" "?tab ! i = ?tab ! j"
        "Suc j * ?s \<le> length toks \<or> t \<noteq> None \<and> j * ?s < length toks" unfolding ca by blast
      have "distinct ?tab" by (rule mgr_inv_request(6) [OF d(4) a'])
      then have ij: "i = j" using i j(1,2) nth_eq_iff_index_eq unfolding ca by blast
      have bs: "int (n * ?s) = int n * mgr_block_size ?m" for n using d(10) by simp
      from j(3) have "Suc j * ?s \<le> length toks \<or> t \<noteq> None \<and> Suc j = length ?tab \<and> j * ?s < length toks"
      proof (elim disjE conjE)
        assume tn: "t \<noteq> None" and lt: "j * ?s < length toks"
        have "Suc j = length ?tab" if "\<not> Suc j * ?s \<le> length toks"
        proof -
          from that have "int (length toks) < int (Suc j * ?s)" by (simp only: of_nat_less_iff not_le)
          then have "sequence_length a \<le> int (Suc j) * mgr_block_size ?m" using tail [OF tn] by (simp only: bs)
          then have "ceil_div (sequence_length a) (mgr_block_size ?m) \<le> int (Suc j)" using ceil_div_le_iff [OF d(10)] by blast
          with tail [OF tn] j(1) show ?thesis by linarith
        qed
        with tn lt show ?thesis by blast
      qed simp
      moreover have "int j * mgr_block_size ?m < sequence_length a" if "j * ?s < length toks"
      proof -
        from that have "int (j * ?s) < int (length toks)" by (simp only: of_nat_less_iff)
        with len show ?thesis unfolding bs by linarith
      qed
      moreover have "int (Suc j) * mgr_block_size ?m \<le> sequence_length a" if "Suc j * ?s \<le> length toks"
      proof -
        from that have "int (Suc j * ?s) \<le> int (length toks)" by (simp only: of_nat_le_iff)
        with len show ?thesis unfolding bs by linarith
      qed
      moreover have "j * ?s < length toks" if "Suc j * ?s \<le> length toks" using that d(10) by simp
      ultimately show ?thesis unfolding ca ij by blast
    qed
  qed
  have "engine_ok D env X pend e'"
  proof (rule engine_ok_frame [OF ok w])
    show "shared_shape (mgr e')" using shape e'(1) by simp
    show "slots_ok D env e'"
    proof -
      have "sole m' dummy_rows_id p" if "dummy_slots e \<noteq> []" "table_of dummy_rows_id e = Some c" "p \<in> set (physical_block_ids c)"
        "sole ?m dummy_rows_id p" for p c
      proof (rule other)
        show "dummy_rows_id \<noteq> rid" using d(8) that(1) active_not_reserved [OF ok r] by (auto simp: slots_ok_def)
      qed (use that in \<open>simp_all add: table_of_def\<close>)
      then show ?thesis using d(8) by (fastforce simp: slots_ok_def e' m' tab)
    qed
    have "predictions_ok env pc'" using d(9) pc(1) adds(1) right by (fastforce simp: predictions_ok_def rest_ok_def)
    then show "rest_ok env e'" using d(9) by (simp add: rest_ok_def e')
  qed (simp_all add: e' m' tab)
  moreover have "owns_rest m' y" if "owns_rest ?m y" "y \<noteq> rid" for y
    unfolding owns_rest_def m'(1,2)
  proof (intro allI impI)
    fix c i assume c: "requests ?m y = Some c" "i < length (physical_block_ids c)" "sequence_length c < int (Suc i) * mgr_block_size ?m"
    show "sole m' y (physical_block_ids c ! i)"
      by (rule other [OF that(2) c(1) nth_mem [OF c(2)]]) (use that(1) c in \<open>auto simp: owns_rest_def\<close>)
  qed
  then have "others_kept rid e e'" by (simp add: others_kept_def e' tab)
  moreover have "publish_prefix rid nxt toks e = Inr e'"
    using r a ne pc(1) run t by (simp add: publish_prefix_def with_request_def e'_def)
  ultimately show thesis using that [of e'] by (simp add: e' m' e'_def)
qed

end
