(* ===== verification/Engine_Forward.thy ===== *)
theory Engine_Forward
  imports Engine_Invariant
begin

text \<open>
  One forward pass of \<open>engine/batching/continuous_batching.py\<close> over a batch of staged rows:
  every row's logits are the model's on that request's own text, whoever else is in the
  batch, and the pages of requests outside the batch are untouched.
\<close>

section \<open>Rows and their owners\<close>

text \<open>A row writes only blocks of its owner's table that nobody else holds.\<close>

definition row_owned :: "'g engine \<Rightarrow> string \<times> staged_row \<Rightarrow> bool" where
  "row_owned e x \<longleftrightarrow> (case x of (rid, row) \<Rightarrow> row_fits (mgr_block_size (mgr e)) row \<and>
     (\<exists>a. table_of rid e = Some a \<and>
        (\<forall>b \<in> row_blocks (mgr_block_size (mgr e)) row. b \<in> set (physical_block_ids a) \<and> sole (mgr e) rid b)))"

lemma request_row_owned:
  assumes ok: "engine_ok D env X pend e" and r: "active_request rid e = Some r" and a: "table_of rid e = Some a"
    and fits: "sequence_length a + int (length toks) \<le> capacity_tokens a" and own: "owns_rest (mgr e) rid"
  shows "row_owned e (rid, (toks, sequence_length a, physical_block_ids a))"
proof -
  from active_table [OF ok r] a have c: "capacity_tokens a = int (length (physical_block_ids a)) * mgr_block_size (mgr e)"
    "0 \<le> sequence_length a" by (metis option.inject)+
  have "requests (mgr e) rid = Some a" using a by (simp add: table_of_def)
  with own have "\<forall>b \<in> run_blocks (mgr_block_size (mgr e)) (physical_block_ids a) (sequence_length a).
      b \<in> set (physical_block_ids a) \<and> sole (mgr e) rid b"
    by (auto simp: run_blocks_def owns_rest_def)
  with a c fits show ?thesis by (simp add: row_owned_def row_fits_def row_blocks_def)
qed

lemma dummy_row_owned:
  assumes s: "slots_ok D env e" and p: "(page, off) \<in> set (dummy_slots e)"
  shows "row_owned e (dummy_rows_id, ([pad], off, [page]))"
proof -
  from s p obtain a where a: "0 \<le> off" "off < mgr_block_size (mgr e)" "table_of dummy_rows_id e = Some a"
    "page \<in> set (physical_block_ids a)" "sole (mgr e) dummy_rows_id page" by (fastforce simp: slots_ok_def)
  then show ?thesis by (auto simp: row_owned_def row_fits_def row_blocks_def run_blocks_def)
qed

text \<open>Blocks of another table are not written by an owned row.\<close>

lemma owned_disjoint:
  assumes inv: "mgr_inv (mgr e)" and o: "row_owned e (y, row)" and a: "table_of x e = Some a" and "x \<noteq> y"
  shows "row_blocks (mgr_block_size (mgr e)) row \<inter> set (physical_block_ids a) = {}"
proof -
  have "Req x \<in> owners (allocator (mgr e)) b" if "b \<in> set (physical_block_ids a)" for b
    using mgr_owner(1) [OF inv _ that] a by (simp add: table_of_def)
  then show ?thesis using o assms(4) by (fastforce simp: row_owned_def sole_def)
qed

lemma forward_frame:
  assumes ok: "engine_ok D env X pend e" and own: "\<forall>x \<in> set orows. row_owned e x"
    and kv: "kv' = write_rows (mgr_block_size (mgr e)) (map snd orows) (pages e)"
  shows "engine_ok D env (X \<union> fst ` set orows) pend (e\<lparr>pages := kv'\<rparr>)"
    and "x \<notin> fst ` set orows \<Longrightarrow> table_of x e = Some a \<Longrightarrow> b \<in> set (physical_block_ids a) \<Longrightarrow> kv' b = pages e b"
proof -
  note d = engine_okD [OF ok]
  have same: "kv' b = pages e b" if "x \<notin> fst ` set orows" "table_of x e = Some a" "b \<in> set (physical_block_ids a)" for x a b
    unfolding kv
  proof (rule write_rows_frame [OF d(10)], intro ballI conjI)
    fix row assume "row \<in> set (map snd orows)"
    then obtain y where y: "(y, row) \<in> set orows" by auto
    with own have o: "row_owned e (y, row)" by blast
    then show "row_fits (mgr_block_size (mgr e)) row" by (simp add: row_owned_def)
    have "x \<noteq> y" using y that(1) by force
    from owned_disjoint [OF d(4) o that(2) this] that(3) show "b \<notin> row_blocks (mgr_block_size (mgr e)) row" by blast
  qed
  then show "x \<notin> fst ` set orows \<Longrightarrow> table_of x e = Some a \<Longrightarrow> b \<in> set (physical_block_ids a) \<Longrightarrow> kv' b = pages e b" .
  have "\<forall>row \<in> set (map snd orows). row_fits (mgr_block_size (mgr e)) row \<and>
      (\<forall>b \<in> row_blocks (mgr_block_size (mgr e)) row. singly_owned (mgr e) b)"
    using own by (fastforce simp: row_owned_def singly_owned_def table_of_def)
  from world_write_rows [OF d(1,10) this] have w: "world_ok D (sch e, kv')" unfolding kv .
  have act: "active_request x (e\<lparr>pages := kv'\<rparr>) = active_request x e" "table_of x (e\<lparr>pages := kv'\<rparr>) = table_of x e" for x
    by (simp_all add: active_request_def table_of_def)
  show "engine_ok D env (X \<union> fst ` set orows) pend (e\<lparr>pages := kv'\<rparr>)"
  proof (rule engine_ok_frame [OF engine_ok_open [OF ok Un_upper1]])
    show "slots_ok D env (e\<lparr>pages := kv'\<rparr>)" using d(8) by (simp add: slots_ok_def table_of_def)
    show "rest_ok env (e\<lparr>pages := kv'\<rparr>)" using d(9) by (simp add: rest_ok_def)
  qed (use w d(6) same act in auto)
qed

text \<open>What a request's row leaves behind, and what the model sees of it.\<close>

lemma forward_row:
  assumes ok: "engine_ok D env X pend e" and own: "\<forall>x \<in> set orows. row_owned e x"
    and rows: "orows = xs @ (rid, (toks, int (length h), physical_block_ids a)) # ys"
    and others: "\<forall>x \<in> set xs \<union> set ys. fst x \<noteq> rid"
    and r: "active_request rid e = Some r" and a: "table_of rid e = Some a"
    and cov: "covers (pages e) (nat (mgr_block_size (mgr e))) h (physical_block_ids a)" and ne: "toks \<noteq> []"
    and fits: "int (length h) + int (length toks) \<le> capacity_tokens a"
    and kv: "kv' = write_rows (mgr_block_size (mgr e)) (map snd orows) (pages e)"
  shows "table_holds kv' (nat (mgr_block_size (mgr e))) (h @ toks) (physical_block_ids a)"
    and "last_logits f (mgr_block_size (mgr e)) kv' (toks, int (length h), physical_block_ids a) = f (h @ toks)"
    and "row_logits f (mgr_block_size (mgr e)) kv' (toks, int (length h), physical_block_ids a) =
      map (\<lambda>i. f (h @ take (Suc i) toks)) [0..<length toks]"
proof -
  let ?bs = "mgr_block_size (mgr e)" and ?tab = "physical_block_ids a"
  note d = engine_okD [OF ok]
  from active_table [OF ok r] a have c: "capacity_tokens a = int (length ?tab) * ?bs" "distinct ?tab" by (metis option.inject)+
  have "int (length h + length toks) \<le> int (length ?tab * nat ?bs)" using fits c(1) d(10) by simp
  then have len: "length h + length toks \<le> length ?tab * nat ?bs" by (simp only: of_nat_le_iff)
  have o: "\<forall>row \<in> set (map snd xs) \<union> set (map snd ys). row_fits ?bs row \<and> row_blocks ?bs row \<inter> set ?tab = {}"
  proof
    fix row assume "row \<in> set (map snd xs) \<union> set (map snd ys)"
    then obtain z where "z \<in> set xs \<union> set ys" "row = snd z" by auto
    then obtain y where y: "(y, row) \<in> set xs \<union> set ys" by (cases z) auto
    then have o: "row_owned e (y, row)" "rid \<noteq> y" using own others by (force simp: rows)+
    then show "row_fits ?bs row \<and> row_blocks ?bs row \<inter> set ?tab = {}"
      using owned_disjoint [OF d(4) o(1) a o(2)] by (simp add: row_owned_def)
  qed
  show h: "table_holds kv' (nat ?bs) (h @ toks) ?tab"
    using write_rows_holds [OF d(10) cov c(2) ne len o] by (simp add: kv rows)
  show "last_logits f ?bs kv' (toks, int (length h), ?tab) = f (h @ toks)"
    by (rule last_logits_text [OF d(10) h ne len])
  show "row_logits f ?bs kv' (toks, int (length h), ?tab) = map (\<lambda>i. f (h @ take (Suc i) toks)) [0..<length toks]"
    by (rule row_logits_text [OF d(10) h len])
qed

section \<open>The whole batch\<close>

text \<open>A request that can run \<open>toks\<close>: it has the room, and the blocks it writes are its own.\<close>

definition runnable :: "'g engine \<Rightarrow> string \<times> int list \<Rightarrow> bool" where
  "runnable e x \<longleftrightarrow> (case x of (rid, toks) \<Rightarrow> \<exists>r a. active_request rid e = Some r \<and> table_of rid e = Some a \<and>
     toks \<noteq> [] \<and> sequence_length a + int (length toks) \<le> capacity_tokens a \<and> owns_rest (mgr e) rid)"

definition stage :: "'g engine \<Rightarrow> string \<times> int list \<Rightarrow> staged_row" where
  "stage e x = (case x of (rid, toks) \<Rightarrow> (toks, sequence_length (the (table_of rid e)), physical_block_ids (the (table_of rid e))))"

text \<open>The text a row's last input ends.\<close>

definition row_text :: "'g engine \<Rightarrow> string \<times> int list \<Rightarrow> int list" where
  "row_text e x = (case x of (rid, toks) \<Rightarrow>
     take (nat (sequence_length (the (table_of rid e)))) (text_of (the (active_request rid e))) @ toks)"

definition pending :: "(string \<times> int list) list \<Rightarrow> string \<Rightarrow> int list" where
  "pending rows rid = (case map_of rows rid of None \<Rightarrow> [] | Some toks \<Rightarrow> toks)"

definition dummy_row :: "int \<Rightarrow> nat \<times> int \<Rightarrow> staged_row" where
  "dummy_row pad slot = ([pad], snd slot, [fst slot])"

lemma text_long:
  assumes "holding env kv bs a p r" and "req_inv r" and "body_ok env r" and "state r = PREFILLING \<or> state r = DECODING"
    and "0 \<le> sequence_length a"
  shows "sequence_length a \<le> int (length (text_of r))"
proof -
  note pl = prompt_length [OF assms(2,3)]
  have "prefill_token_count r \<le> int (length (text_of r))" using pl by (auto simp: prefill_token_count_def text_of_def)
  moreover have "prefilled_token_count r \<le> prefill_token_count r" using assms(2) by (simp add: req_inv_def)
  ultimately show ?thesis using assms(1,4) by (auto simp: holding_def)
qed

lemma runnable_covers:
  assumes ok: "engine_ok D env X (\<lambda>_. []) e" and "rid \<notin> X" and "runnable e (rid, toks)"
  obtains r a h where "active_request rid e = Some r" and "table_of rid e = Some a" and "toks \<noteq> []"
    and "owns_rest (mgr e) rid" and "h = take (nat (sequence_length a)) (text_of r)" and "int (length h) = sequence_length a"
    and "covers (pages e) (nat (mgr_block_size (mgr e))) h (physical_block_ids a)"
    and "int (length h) + int (length toks) \<le> capacity_tokens a"
    and "stage e (rid, toks) = (toks, int (length h), physical_block_ids a)" and "row_text e (rid, toks) = h @ toks"
    and "body_ok env r" and "holding env (pages e) (mgr_block_size (mgr e)) a [] r"
proof -
  from assms(3) obtain r a where r: "active_request rid e = Some r" and a: "table_of rid e = Some a" and t: "toks \<noteq> []"
    and f: "sequence_length a + int (length toks) \<le> capacity_tokens a" and o: "owns_rest (mgr e) rid"
    by (auto simp: runnable_def)
  note h = active_ok [OF ok assms(2) r a]
  from active_table [OF ok r] a have i: "req_inv r" "state r = PREFILLING \<or> state r = DECODING" "0 \<le> sequence_length a"
    by (metis option.inject)+
  have len: "int (length (take (nat (sequence_length a)) (text_of r))) = sequence_length a"
    using text_long [OF h(2) i(1) h(1) i(2,3)] i(3) by simp
  have "covers (pages e) (nat (mgr_block_size (mgr e))) (take (nat (sequence_length a)) (text_of r)) (physical_block_ids a)"
    using h(2) i(2) holds_covers by (auto simp: holding_def written_def)
  from that [OF r a t o refl len this _ _ _ h] len f a r show thesis by (simp add: stage_def row_text_def)
qed

lemma forward_ok:
  assumes ok: "engine_ok D env {} (\<lambda>_. []) e" and can: "\<forall>x \<in> set (xs @ ys). runnable e x"
    and dist: "distinct (map fst (xs @ ys))" and slots: "set slots \<subseteq> set (dummy_slots e)"
    and kv: "kv' = write_rows (mgr_block_size (mgr e)) (map (stage e) xs @ map (dummy_row pad) slots @ map (stage e) ys) (pages e)"
  shows "engine_ok D env {} (pending (xs @ ys)) (e\<lparr>pages := kv'\<rparr>)"
    and "x \<in> set (xs @ ys) \<Longrightarrow> last_logits f (mgr_block_size (mgr e)) kv' (stage e x) = f (row_text e x)"
    and "(rid, toks) \<in> set (xs @ ys) \<Longrightarrow> row_logits f (mgr_block_size (mgr e)) kv' (stage e (rid, toks)) =
      map (\<lambda>i. f (row_text e (rid, take (Suc i) toks))) [0..<length toks]"
proof -
  note d = engine_okD [OF ok]
  define own where "own x = (fst x, stage e x)" for x
  define orows where "orows = map own xs @ map (\<lambda>s. (dummy_rows_id, dummy_row pad s)) slots @ map own ys"
  have own_keys: "fst ` set (map own zs) = fst ` set zs" for zs by (auto simp: own_def image_image)
  have kv1: "kv' = write_rows (mgr_block_size (mgr e)) (map snd orows) (pages e)"
    by (simp add: kv orows_def own_def o_def)
  have owned: "\<forall>x \<in> set orows. row_owned e x"
  proof -
    have "row_owned e (own x)" if x: "x \<in> set (xs @ ys)" for x
    proof -
      obtain rid toks where xx: "x = (rid, toks)" by (cases x)
      with x can have "runnable e (rid, toks)" by blast
      then obtain r a where "active_request rid e = Some r" "table_of rid e = Some a"
        "sequence_length a + int (length toks) \<le> capacity_tokens a" "owns_rest (mgr e) rid" by (auto simp: runnable_def)
      from request_row_owned [OF ok this] this show ?thesis by (simp add: own_def xx stage_def)
    qed
    moreover have "row_owned e (dummy_rows_id, dummy_row pad s)" if "s \<in> set slots" for s
      using dummy_row_owned [OF d(8), of "fst s" "snd s"] that slots by (auto simp: dummy_row_def)
    ultimately show ?thesis by (auto simp: orows_def)
  qed
  note frame = forward_frame [OF ok owned kv1]
  have not_dummy: "fst x \<noteq> dummy_rows_id" if "x \<in> set (xs @ ys)" "slots \<noteq> []" for x
  proof -
    have "runnable e x" using can that(1) by blast
    then obtain r where "active_request (fst x) e = Some r" by (auto simp: runnable_def)
    from active_not_reserved [OF ok this] d(8) that(2) slots show ?thesis by (auto simp: slots_ok_def)
  qed
  have row: "table_holds kv' (nat (mgr_block_size (mgr e))) (row_text e (rid, toks)) (physical_block_ids (the (table_of rid e))) \<and>
      last_logits f (mgr_block_size (mgr e)) kv' (stage e (rid, toks)) = f (row_text e (rid, toks)) \<and>
      row_logits f (mgr_block_size (mgr e)) kv' (stage e (rid, toks)) = map (\<lambda>i. f (row_text e (rid, take (Suc i) toks))) [0..<length toks]"
    if x: "(rid, toks) \<in> set (xs @ ys)" for rid toks and f
  proof -
    have "runnable e (rid, toks)" using can x by blast
    from runnable_covers [OF ok empty_iff [THEN iffD1, THEN notI] this] obtain r a h where h: "active_request rid e = Some r"
      "table_of rid e = Some a" "toks \<noteq> []" "owns_rest (mgr e) rid"
      "h = take (nat (sequence_length a)) (text_of r)" "int (length h) = sequence_length a"
      "covers (pages e) (nat (mgr_block_size (mgr e))) h (physical_block_ids a)"
      "int (length h) + int (length toks) \<le> capacity_tokens a"
      "stage e (rid, toks) = (toks, int (length h), physical_block_ids a)" "row_text e (rid, toks) = h @ toks"
      "body_ok env r" "holding env (pages e) (mgr_block_size (mgr e)) a [] r" .
    have "rid \<notin> fst ` set (map (\<lambda>s. (dummy_rows_id, dummy_row pad s)) slots)"
      using not_dummy [OF x] by (cases "slots = []") auto
    note keys = own_keys this
    obtain us vs where split: "orows = us @ own (rid, toks) # vs" "rid \<notin> fst ` set us \<union> fst ` set vs"
    proof -
      from x consider "(rid, toks) \<in> set xs" | "(rid, toks) \<in> set ys" by auto
      then show thesis
      proof cases
        case 1
        then obtain p q where pq: "xs = p @ (rid, toks) # q" by (meson split_list)
        have "rid \<notin> fst ` set p \<union> fst ` set q \<union> fst ` set ys" using dist by (auto simp: pq)
        with keys show thesis
          by (intro that [of "map own p" "map own q @ map (\<lambda>s. (dummy_rows_id, dummy_row pad s)) slots @ map own ys"])
            (simp_all add: orows_def pq image_Un)
      next
        case 2
        then obtain p q where pq: "ys = p @ (rid, toks) # q" by (meson split_list)
        have "rid \<notin> fst ` set p \<union> fst ` set q \<union> fst ` set xs" using dist by (auto simp: pq)
        with keys show thesis
          by (intro that [of "map own xs @ map (\<lambda>s. (dummy_rows_id, dummy_row pad s)) slots @ map own p" "map own q"])
            (simp_all add: orows_def pq image_Un)
      qed
    qed
    then have apart: "\<forall>y \<in> set us \<union> set vs. fst y \<noteq> rid" by blast
    have sp: "orows = us @ (rid, (toks, int (length h), physical_block_ids a)) # vs"
      using split(1) h(9) by (simp add: own_def)
    note fr = forward_row [OF ok owned sp apart h(1,2,7,3,8) kv1]
    have "row_text e (rid, take k toks) = h @ take k toks" for k using h(1,2,5) by (simp add: row_text_def)
    with fr(1) fr(2,3) [of f] h(2,9,10) show ?thesis by simp
  qed
  show "last_logits f (mgr_block_size (mgr e)) kv' (stage e x) = f (row_text e x)" if "x \<in> set (xs @ ys)" for f
    using row [of "fst x" "snd x" f] that by simp
  show "row_logits f (mgr_block_size (mgr e)) kv' (stage e (rid, toks)) =
      map (\<lambda>i. f (row_text e (rid, take (Suc i) toks))) [0..<length toks]" if "(rid, toks) \<in> set (xs @ ys)" for f
    using row [OF that] by blast
  let ?e = "e\<lparr>pages := kv'\<rparr>"
  have act: "active_request x ?e = active_request x e" "table_of x ?e = table_of x e" for x
    by (simp_all add: active_request_def table_of_def)
  have "requests_ok env {} (pending (xs @ ys)) ?e"
    unfolding requests_ok_def
  proof (intro allI impI)
    fix rid r a assume r: "active_request rid ?e = Some r" and a: "table_of rid ?e = Some a"
    then have r': "active_request rid e = Some r" and a': "table_of rid e = Some a" by (simp_all add: act)
    note h = active_ok [OF ok _ r' a', simplified]
    show "body_ok env r \<and> holding env (pages ?e) (mgr_block_size (mgr ?e)) a (pending (xs @ ys) rid) r"
    proof (cases "map_of (xs @ ys) rid")
      case (Some toks)
      then have x: "(rid, toks) \<in> set (xs @ ys)" by (rule map_of_SomeD)
      then have "runnable e (rid, toks)" using can by blast
      then have f: "sequence_length a + int (length toks) \<le> capacity_tokens a" using r' a' by (auto simp: runnable_def)
      have "written a toks r = row_text e (rid, toks)" using r' a' by (simp add: written_def row_text_def)
      with row [OF x] a' have "table_holds kv' (nat (mgr_block_size (mgr e))) (written a toks r) (physical_block_ids a)" by simp
      then have "holding env kv' (mgr_block_size (mgr e)) a toks r"
        using h(2) f holds_covers unfolding holding_def by blast
      with h(1) Some show ?thesis by (simp add: pending_def)
    next
      case None
      have "rid \<notin> fst ` set orows"
      proof
        assume "rid \<in> fst ` set orows"
        then have "rid \<in> fst ` set (map own xs) \<union> fst ` set (map own ys) \<or> rid = dummy_rows_id \<and> slots \<noteq> []"
          by (auto simp: orows_def)
        then have "rid = dummy_rows_id \<and> slots \<noteq> []"
          using None unfolding own_keys map_of_eq_None_iff by auto
        with active_not_reserved [OF ok r'] d(8) slots show False by (auto simp: slots_ok_def)
      qed
      from frame(2) [OF this a'] have same: "kv' b = pages e b" if "b \<in> set (physical_block_ids a)" for b using that by blast
      from active_table [OF ok r'] a' have t: "capacity_tokens a = int (length (physical_block_ids a)) * mgr_block_size (mgr e)"
        "0 \<le> sequence_length a" by (metis option.inject)+
      have "holding env kv' (mgr_block_size (mgr e)) a [] r"
        by (rule holding_cong [OF h(2) refl t(2) d(10) t(1,1) le_refl max.cobounded1]) (simp add: same)
      moreover have "pending (xs @ ys) rid = []" unfolding pending_def None by simp
      ultimately show ?thesis using h(1) by simp
    qed
  qed
  with frame(1) show "engine_ok D env {} (pending (xs @ ys)) ?e" by (simp add: engine_ok_def)
qed

end
