(* ===== verification/Engine_Commit.thy ===== *)
theory Engine_Commit
  imports Engine_Forward
begin

text \<open>
  Committing what a forward computed, row by row: \<open>_complete_prefill\<close>, \<open>_commit_decode\<close>,
  \<open>_commit_prefill\<close>, the replay of a resumed history and the speculative commit of
  \<open>engine/batching/continuous_batching.py\<close>. Every commit of a row succeeds, closes the row
  in the invariant and leaves the other rows as they were.
\<close>

section \<open>One request at a time\<close>

lemma transition_fields:
  assumes "req_transition now nxt reason r = Inr r'"
  shows "req_next_token_id r' = req_next_token_id r" and "text_of r' = text_of r" and "max_new_tokens r' = max_new_tokens r"
    and "sampling r' = sampling r" and "prompt_token_ids r' = prompt_token_ids r" and "output_token_ids r' = output_token_ids r"
    and "resuming r' = resuming r" and "prefilled_token_count r' = prefilled_token_count r" and "request_id r' = request_id r"
proof -
  note sh = transition_shape(1) [OF assms]
  show "req_next_token_id r' = req_next_token_id r"
    using assms by (cases nxt; auto simp: req_transition_def Let_def enter_prefilling_def enter_decoding_def close_wait_def
        split: if_splits option.splits)
  show "text_of r' = text_of r" and "max_new_tokens r' = max_new_tokens r" and "sampling r' = sampling r"
    and "prompt_token_ids r' = prompt_token_ids r" and "output_token_ids r' = output_token_ids r"
    and "resuming r' = resuming r" and "prefilled_token_count r' = prefilled_token_count r" and "request_id r' = request_id r"
    using sh by (simp_all add: same_shape_def text_of_def)
qed

lemma body_ok_cong:
  assumes "prompt_token_ids q = prompt_token_ids r" and "output_token_ids q = output_token_ids r"
    and "sampling q = sampling r" and "max_new_tokens q = max_new_tokens r"
  shows "body_ok env q = body_ok env r"
  using assms by (simp add: body_ok_def continues_def reference_def text_of_def)

lemma next_token_shape [simp]:
  "req_inv (r\<lparr>req_next_token_id := x\<rparr>) = req_inv r" "text_of (r\<lparr>req_next_token_id := x\<rparr>) = text_of r"
  "prefill_token_count (r\<lparr>req_next_token_id := x\<rparr>) = prefill_token_count r"
  "prefill_token_ids (r\<lparr>req_next_token_id := x\<rparr>) = prefill_token_ids r"
  "remaining_prefill_tokens (r\<lparr>req_next_token_id := x\<rparr>) = remaining_prefill_tokens r"
  by (simp_all add: req_inv_def text_of_def prefill_token_count_def prefill_token_ids_def remaining_prefill_tokens_def
      cong: if_cong)

lemma append_token_run:
  assumes inv: "req_inv r" and st: "state r = DECODING" and n: "int (length (output_token_ids r)) < max_new_tokens r"
  obtains q where "append_token now t r = Inr q" and "req_inv q" and "state q = DECODING" and "request_id q = request_id r"
    and "output_token_ids q = output_token_ids r @ [t]" and "prompt_token_ids q = prompt_token_ids r"
    and "sampling q = sampling r" and "max_new_tokens q = max_new_tokens r" and "resuming q = resuming r"
    and "req_next_token_id q = req_next_token_id r" and "prompt_token_count q = prompt_token_count r"
proof -
  define q where "q = r\<lparr>output_token_ids := output_token_ids r @ [t],
      first_token_ns := (if first_token_ns r = None then Some now else first_token_ns r),
      last_token_ns := Some now, token_timestamps_ns := token_timestamps_ns r @ [now]\<rparr>"
  have run: "append_token now t r = Inr q" using st n by (simp add: append_token_def q_def)
  then have "req_inv q" using req_apply_inv [OF inv, of now "AppendToken t" q] by simp
  then show thesis using that run st by (simp add: q_def)
qed

text \<open>Closing a decoding row.\<close>

lemma close_decoding:
  assumes ok: "engine_ok D env X pend e" and r: "active_request rid e = Some r" and a: "table_of rid e = Some a"
    and body: "body_ok env r" and st: "state r = DECODING" and ne: "\<not> resuming r" "output_token_ids r \<noteq> []"
    and nxt: "req_next_token_id r = Some (last (output_token_ids r))"
    and seq: "sequence_length a = int (length (text_of r)) - 1"
    and cov: "covers (pages e) (nat (mgr_block_size (mgr e))) (take (nat (sequence_length a)) (text_of r)) (physical_block_ids a)"
  shows "engine_ok D env (X - {rid}) (pend(rid := [])) e"
proof (rule engine_ok_close [OF ok])
  fix r' a' assume "active_request rid e = Some r'" "table_of rid e = Some a'"
  with r a have eq: "r' = r" "a' = a" by simp_all
  from active_table [OF ok r] a have "sequence_length a \<le> capacity_tokens a" by (metis option.inject)
  then have "holding env (pages e) (mgr_block_size (mgr e)) a [] r"
    unfolding holding_def written_def append_Nil2 using st ne nxt seq cov by simp
  with body show "body_ok env r' \<and> holding env (pages e) (mgr_block_size (mgr e)) a' [] r'" unfolding eq by blast
qed

lemma finish_if_ended_ok:
  assumes ok: "engine_ok D env X pend e" and x: "rid \<in> X" and r: "active_request rid e = Some r" and a: "table_of rid e = Some a"
    and st: "state r = DECODING" and ne: "\<not> resuming r" "output_token_ids r \<noteq> []"
    and nxt: "req_next_token_id r = Some (last (output_token_ids r))"
    and seq: "sequence_length a = int (length (text_of r)) - 1"
    and cov: "covers (pages e) (nat (mgr_block_size (mgr e))) (take (nat (sequence_length a)) (text_of r)) (physical_block_ids a)"
    and valid: "prompt_token_ids r \<noteq> []" "validate_sampling (sampling r) = Inr (sampling r)"
    and go: "end_reason env r t = None \<Longrightarrow> continues env r"
    and stop: "\<And>reason. end_reason env r t = Some reason \<Longrightarrow> plain r \<Longrightarrow> reference env r = (output_token_ids r, reason)"
  obtains e' where "finish_if_ended env rid t e = Inr e'" and "engine_ok D env (X - {rid}) (pend(rid := [])) e'"
    and "others_kept rid e e'"
proof (cases "end_reason env r t")
  case None
  have "int (length (output_token_ids r)) < max_new_tokens r" using None by (simp add: end_reason_def split: if_splits)
  with go [OF None] valid have "body_ok env r" by (simp add: body_ok_def)
  from close_decoding [OF ok r a this st ne nxt seq cov] show thesis
    using that [of e] None r by (simp add: finish_if_ended_def with_request_def)
next
  case (Some reason)
  have "FINISHED \<in> allowed_transitions (state r)" "terminal FINISHED" by (simp_all add: st)
  from end_open [OF ok x r _ _ this, of reason "clock_at env (ticks e) rid"] stop [OF Some] obtain e' where e':
    "end_request (leave (clock_at env (ticks e) rid) FINISHED rid reason (sch e)) e = Inr e'" "engine_ok D env X pend e'"
    "active_request rid e' = None" "others_kept rid e e'" by (metis fst_conv prefix_order.refl)
  then have "finish_if_ended env rid t e = Inr e'"
    using Some r by (simp add: finish_if_ended_def with_request_def finish_request_def finish_def)
  with that [OF _ engine_ok_gone [OF e'(2,3)] e'(4)] show thesis .
qed

lemma emit_open:
  assumes ok: "engine_ok D env X pend e" and x: "rid \<in> X" and r: "active_request rid e = Some r"
    and st: "state r = DECODING" and n: "int (length (output_token_ids r)) < max_new_tokens r"
  obtains e' q where "emit_token env rid t e = Inr e'" and "engine_ok D env X pend e'" and "others_kept rid e e'"
    and "active_request rid e' = Some q" and "table_of rid e' = table_of rid e" and "pages e' = pages e" and "mgr e' = mgr e"
    and "state q = DECODING" and "output_token_ids q = output_token_ids r @ [t]" and "prompt_token_ids q = prompt_token_ids r"
    and "sampling q = sampling r" and "max_new_tokens q = max_new_tokens r" and "resuming q = resuming r"
    and "req_next_token_id q = req_next_token_id r" and "prompt_token_count q = prompt_token_count r"
proof -
  from active_table [OF ok r] have i: "request_id r = rid" "req_inv r" by blast+
  from append_token_run [OF i(2) st n, of "clock_at env (ticks e) rid" t] obtain q where
    q: "append_token (clock_at env (ticks e) rid) t r = Inr q" "req_inv q" "state q = DECODING" "request_id q = request_id r"
      "output_token_ids q = output_token_ids r @ [t]" "prompt_token_ids q = prompt_token_ids r"
      "sampling q = sampling r" "max_new_tokens q = max_new_tokens r" "resuming q = resuming r"
      "req_next_token_id q = req_next_token_id r" "prompt_token_count q = prompt_token_count r" .
  have st': "state q = PREFILLING \<or> state q = DECODING" using q(3) by simp
  have run: "emit_token env rid t e = Inr (tick (put_request rid q e))"
    using r q(1) by (simp add: emit_token_def change_request_def with_request_def)
  have id: "request_id q = rid" using q(4) i(1) by simp
  have "engine_ok D env X pend (tick e)" "active_request rid (tick e) = Some r" using ok r by simp_all
  note put = put_request_open [OF this(1) x this(2) id q(2) st']
  show thesis
    by (rule that [OF run, of q]) (use put q in simp_all)
qed

section \<open>The end of a prefill\<close>

lemma mark_open:
  assumes ok: "engine_ok D env X pend e" and x: "rid \<in> X" and r: "active_request rid e = Some r"
    and st: "state r = PREFILLING" and rem: "remaining_prefill_tokens r = 0"
  obtains e' q where "mark_request env rid e = Inr e'" and "engine_ok D env X pend e'" and "others_kept rid e e'"
    and "active_request rid e' = Some q" and "table_of rid e' = table_of rid e" and "pages e' = pages e" and "mgr e' = mgr e"
    and "state q = DECODING" and "req_next_token_id q = req_next_token_id r" and "text_of q = text_of r"
    and "max_new_tokens q = max_new_tokens r" and "sampling q = sampling r" and "prompt_token_ids q = prompt_token_ids r"
    and "output_token_ids q = output_token_ids r" and "resuming q = resuming r"
proof -
  from active_table [OF ok r] have i: "request_id r = rid" "req_inv r" by blast+
  have r': "map_of (active (sch e)) rid = Some r" using r by (simp add: active_request_def)
  obtain q where t: "req_transition (clock_at env (ticks e) rid) DECODING None r = Inr q"
    using transition_total [of DECODING r "clock_at env (ticks e) rid" None] st rem by auto
  note f = transition_fields [OF t]
  have run: "mark_request env rid e = Inr (tick (put_request rid q e))"
    using r' t by (simp add: mark_request_def mark_decoding_def put_request_def)
  have id: "request_id q = rid" "req_inv q" "state q = DECODING"
    using f(9) i transition_inv [OF i(2) t] transition_shape(2) [OF t] by simp_all
  have ok': "engine_ok D env X pend (tick e)" "active_request rid (tick e) = Some r" using ok r by simp_all
  note put = put_request_open [OF ok'(1) x ok'(2) id(1,2) disjI2 [OF id(3)]]
  show thesis
    by (rule that [OF run, of q]) (use put id f in simp_all)
qed

lemma complete_prefill_ok:
  assumes ok: "engine_ok D env X pend e" and x: "rid \<in> X" and r: "active_request rid e = Some r" and a: "table_of rid e = Some a"
    and st: "state r = PREFILLING" and rem: "remaining_prefill_tokens r = 0" and body: "body_ok env r"
    and res: "resuming r \<longleftrightarrow> output_token_ids r \<noteq> []" and seq: "sequence_length a = prefilled_token_count r"
    and len: "int (length (physical_block_ids a)) \<le> ceil_div (prefill_token_count r) (mgr_block_size (mgr e))"
    and holds: "table_holds (pages e) (nat (mgr_block_size (mgr e))) (take (nat (sequence_length a)) (text_of r)) (physical_block_ids a)"
    and pred: "\<And>t. \<not> resuming r \<Longrightarrow> plain r \<Longrightarrow> predicted = Some t \<Longrightarrow> t = prediction env (prompt_token_ids r)"
  obtains e' where "complete_prefill env rid predicted e = Inr e'" and "engine_ok D env (X - {rid}) (pend(rid := [])) e'"
    and "others_kept rid e e'"
proof -
  let ?bs = "mgr_block_size (mgr e)" and ?tab = "physical_block_ids a"
  note d = engine_okD [OF ok]
  from active_table [OF ok r] have i: "request_id r = rid" "req_inv r" by blast+
  note pl = prompt_length [OF i(2) body]
  have bs: "0 < nat ?bs" using d(10) by simp
  have seq': "sequence_length a = prefill_token_count r" using seq rem by (simp add: remaining_prefill_tokens_def)
  have cov: "covers (pages e) (nat ?bs) (take (nat (sequence_length a)) (text_of r)) ?tab" by (rule holds_covers [OF holds])
  have valid: "prompt_token_ids r \<noteq> []" "validate_sampling (sampling r) = Inr (sampling r)" using body by (simp_all add: body_ok_def)
  have mx: "int (length (output_token_ids r)) < max_new_tokens r" using body by (simp add: body_ok_def)
  have publish: "publishable (pages e) (nat ?bs) (prompt_token_ids r) ?tab t" if "t = None \<or> output_token_ids r = []" for t
  proof -
    have "length (prompt_token_ids r) \<le> nat (sequence_length a)"
      using pl seq' res by (cases "output_token_ids r") (auto simp: prefill_token_count_def)
    then obtain zs where h: "take (nat (sequence_length a)) (text_of r) = prompt_token_ids r @ zs"
      by (simp add: text_of_def)
    have "pages e (?tab ! j) = take (Suc j * nat ?bs) (prompt_token_ids r)"
      if "j < length ?tab" "Suc j * nat ?bs \<le> length (prompt_token_ids r)" for j
      using covers_complete [OF cov that(1) _ bs] that(2) unfolding h by simp
    moreover have "zs = []" if "output_token_ids r = []"
      using arg_cong [OF h, of length] that pl seq' by (simp add: prefill_token_count_def text_of_def)
    ultimately show ?thesis using that holds h by (auto simp: publishable_def)
  qed
  show thesis
  proof (cases "resuming r")
    case True
    then have ne: "output_token_ids r \<noteq> []" using res by blast
    define q0 where "q0 = r\<lparr>req_next_token_id := Some (last (output_token_ids r))\<rparr>"
    have q0: "request_id q0 = rid" "req_inv q0" "state q0 = PREFILLING \<or> state q0 = DECODING"
      using i st by (simp_all add: q0_def)
    note put = put_request_open [OF ok x r q0]
    let ?e0 = "put_request rid q0 e"
    have act0: "active_request rid ?e0 = Some q0" "table_of rid ?e0 = Some a" using a by simp_all
    have le: "int (length (prompt_token_ids r)) \<le> sequence_length a"
      using seq' pl prefill_count_ge [of r] i(2) by (simp add: req_inv_def)
    have none: "None = (if plain q0 then None else None)" by simp
    have pub0: "publishable (pages ?e0) (nat (mgr_block_size (mgr ?e0))) (prompt_token_ids r) ?tab None" using publish by simp
    obtain e1 where e1: "publish_prefix rid None (prompt_token_ids r) ?e0 = Inr e1" "engine_ok D env X pend e1"
      "others_kept rid ?e0 e1" "pages e1 = pages ?e0" "active (sch e1) = active (sch ?e0)" "requests (mgr e1) = requests (mgr ?e0)"
      "mgr_block_size (mgr e1) = mgr_block_size (mgr ?e0)"
      by (rule publish_open [OF put(1) x act0 valid(1) le none pub0]) auto
    have act1: "active_request rid e1 = Some q0" using act0(1) e1(5) by (simp add: active_request_def)
    have "state q0 = PREFILLING" "remaining_prefill_tokens q0 = 0"
      using st rem by (simp_all add: q0_def)
    from mark_open [OF e1(2) x act1 this] obtain e2 q2 where
      e2: "mark_request env rid e1 = Inr e2" "engine_ok D env X pend e2" "others_kept rid e1 e2" "active_request rid e2 = Some q2"
        "table_of rid e2 = table_of rid e1" "pages e2 = pages e1" "mgr e2 = mgr e1"
      and q2: "state q2 = DECODING" "req_next_token_id q2 = req_next_token_id q0" "text_of q2 = text_of q0"
        "max_new_tokens q2 = max_new_tokens q0" "sampling q2 = sampling q0" "prompt_token_ids q2 = prompt_token_ids q0"
        "output_token_ids q2 = output_token_ids q0" "resuming q2 = resuming q0" .
    define q3 where "q3 = q2\<lparr>resuming := False, prefilled_token_count := prompt_token_count q2\<rparr>"
    have run3: "complete_resumption q2 = Inr q3"
      using q2(1,8) True by (simp add: complete_resumption_def q3_def q0_def)
    from active_table [OF e2(2,4)] have i2: "request_id q2 = rid" "req_inv q2" by blast+
    have q3: "request_id q3 = rid" "req_inv q3" "state q3 = DECODING" "\<not> resuming q3" "text_of q3 = text_of r"
      "output_token_ids q3 = output_token_ids r" "req_next_token_id q3 = Some (last (output_token_ids r))"
      using req_apply_inv [OF i2(2), of 0 CompleteResumption q3] run3 i2(1) q2
      by (simp_all add: q3_def q0_def text_of_def)
    note put3 = put_request_open [OF e2(2) x e2(4) q3(1,2) disjI2 [OF q3(3)]]
    let ?e3 = "put_request rid q3 e2"
    have tab3: "table_of rid ?e3 = Some a" using e2(5) e1(6) a by (simp add: table_of_def)
    have bs3: "mgr_block_size (mgr ?e3) = ?bs" using e2(7) e1(7) by simp
    have pg3: "pages ?e3 = pages e" using e2(6) e1(4) by simp
    have body3: "body_ok env q3" using body body_ok_cong [of q3 r env] q2 by (simp add: q3_def q0_def)
    have close: "engine_ok D env (X - {rid}) (pend(rid := [])) ?e3"
      by (rule close_decoding [OF put3(1) _ tab3 body3 q3(3,4)])
        (use q3 ne seq' res True pl cov bs3 pg3 in \<open>simp_all add: prefill_token_count_def text_of_def\<close>)
    have "complete_prefill env rid predicted e = Inr ?e3"
      using r True ne e1(1) e2(1,4) run3 by (simp add: complete_prefill_def with_request_def q0_def change_request_def)
    moreover have "others_kept rid e ?e3"
      using put(2) e1(3) e2(3) put3(2) by (metis others_kept_trans)
    ultimately show thesis using that close by blast
  next
    case False
    then have ne: "output_token_ids r = []" using res by blast
    have seq0: "sequence_length a = int (length (prompt_token_ids r))"
      using seq' ne pl by (simp add: prefill_token_count_def)
    show thesis
    proof (cases predicted)
      case None
      have "FAILED \<in> allowed_transitions (state r)" "terminal FAILED" by (simp_all add: st)
      from end_open [OF ok x r _ _ this, of "''INVALID_PREFIX_ENTRY''" "clock_at env (ticks e) rid"] obtain e' where e':
        "end_request (leave (clock_at env (ticks e) rid) FAILED rid ''INVALID_PREFIX_ENTRY'' (sch e)) e = Inr e'"
        "engine_ok D env X pend e'" "active_request rid e' = None" "others_kept rid e e'" using ne by auto
      then have "complete_prefill env rid predicted e = Inr e'"
        using None r False by (simp add: complete_prefill_def with_request_def fail_request_def fail_def)
      with that [OF _ engine_ok_gone [OF e'(2,3)] e'(4)] show thesis .
    next
      case (Some t)
      define q0 where "q0 = r\<lparr>req_next_token_id := Some t\<rparr>"
      have q0: "request_id q0 = rid" "req_inv q0" "state q0 = PREFILLING \<or> state q0 = DECODING"
        using i st by (simp_all add: q0_def)
      note put = put_request_open [OF ok x r q0]
      let ?e0 = "put_request rid q0 e"
      have act0: "active_request rid ?e0 = Some q0" "table_of rid ?e0 = Some a" using a by simp_all
      have le: "int (length (prompt_token_ids r)) \<le> sequence_length a" using seq0 by simp
      have pub0: "publishable (pages ?e0) (nat (mgr_block_size (mgr ?e0))) (prompt_token_ids r) ?tab z" for z
        using publish ne by simp
      have right: "v = prediction env (prompt_token_ids r)" if "(if plain q0 then Some t else None) = Some v" for v
        using pred [OF False _ Some] that by (auto simp: q0_def split: if_splits)
      obtain e1 where e1: "publish_prefix rid (Some t) (prompt_token_ids r) ?e0 = Inr e1" "engine_ok D env X pend e1"
        "others_kept rid ?e0 e1" "pages e1 = pages ?e0" "active (sch e1) = active (sch ?e0)" "requests (mgr e1) = requests (mgr ?e0)"
        "mgr_block_size (mgr e1) = mgr_block_size (mgr ?e0)"
        by (rule publish_open [OF put(1) x act0 valid(1) le refl pub0 right])
          (use seq0 len seq' in \<open>auto simp: prefill_token_count_def\<close>)
      have act1: "active_request rid e1 = Some q0" using act0(1) e1(5) by (simp add: active_request_def)
      have "state q0 = PREFILLING" "remaining_prefill_tokens q0 = 0"
        using st rem by (simp_all add: q0_def)
      from mark_open [OF e1(2) x act1 this] obtain e2 q2 where
        e2: "mark_request env rid e1 = Inr e2" "engine_ok D env X pend e2" "others_kept rid e1 e2" "active_request rid e2 = Some q2"
          "table_of rid e2 = table_of rid e1" "pages e2 = pages e1" "mgr e2 = mgr e1"
        and q2: "state q2 = DECODING" "req_next_token_id q2 = req_next_token_id q0" "text_of q2 = text_of q0"
          "max_new_tokens q2 = max_new_tokens q0" "sampling q2 = sampling q0" "prompt_token_ids q2 = prompt_token_ids q0"
          "output_token_ids q2 = output_token_ids q0" "resuming q2 = resuming q0" .
      have mx2: "int (length (output_token_ids q2)) < max_new_tokens q2" using mx q2 by (simp add: q0_def)
      from emit_open [OF e2(2) x e2(4) q2(1) mx2, of t] obtain e3 q3 where
        e3: "emit_token env rid t e2 = Inr e3" "engine_ok D env X pend e3" "others_kept rid e2 e3" "active_request rid e3 = Some q3"
          "table_of rid e3 = table_of rid e2" "pages e3 = pages e2" "mgr e3 = mgr e2"
        and q3: "state q3 = DECODING" "output_token_ids q3 = output_token_ids q2 @ [t]" "prompt_token_ids q3 = prompt_token_ids q2"
          "sampling q3 = sampling q2" "max_new_tokens q3 = max_new_tokens q2" "resuming q3 = resuming q2"
          "req_next_token_id q3 = req_next_token_id q2" .
      have q3r: "output_token_ids q3 = output_token_ids r @ [t]" "prompt_token_ids q3 = prompt_token_ids r"
          "sampling q3 = sampling r" "max_new_tokens q3 = max_new_tokens r" "req_next_token_id q3 = Some t" "\<not> resuming q3"
        using q3 q2 False by (simp_all add: q0_def)
      have c: "continues env r" using body by (simp add: body_ok_def)
      have "t = prediction env (text_of r)" if "plain r" using pred [OF False that Some] ne by (simp add: text_of_def)
      note app = continues_append [OF c this mx q3r(1-4)]
      have tab3: "table_of rid e3 = Some a" using e3(5) e2(5) e1(6) a by (simp add: table_of_def)
      have bs3: "mgr_block_size (mgr e3) = ?bs" using e3(7) e2(7) e1(7) by simp
      have pg3: "pages e3 = pages e" using e3(6) e2(6) e1(4) by simp
      have cov3: "covers (pages e3) (nat (mgr_block_size (mgr e3))) (take (nat (sequence_length a)) (text_of q3)) ?tab"
        using cov seq0 ne by (simp add: bs3 pg3 text_of_def q3r)
      obtain e4 where e4: "finish_if_ended env rid t e3 = Inr e4" "engine_ok D env (X - {rid}) (pend(rid := [])) e4"
        "others_kept rid e3 e4"
        by (rule finish_if_ended_ok [OF e3(2) x e3(4) tab3 q3(1) q3r(6) _ _ _ cov3 _ _ app])
          (use q3r ne seq0 valid in \<open>simp_all add: text_of_def\<close>)
      have "complete_prefill env rid predicted e = Inr e4"
        using r False Some e1(1) e2(1) e3(1) e4(1) by (simp add: complete_prefill_def with_request_def q0_def)
      moreover have "others_kept rid e e4"
        using put(2) e1(3) e2(3) e3(3) e4(3) by (metis others_kept_trans)
      ultimately show thesis using that e4(2) by blast
    qed
  qed
qed

section \<open>Committing a decode row\<close>

text \<open>The row of an iteration: it is closed before and after, and what it has pending is committed.\<close>

lemma insert_pop [simp]: "rid \<notin> X \<Longrightarrow> insert rid X - {rid} = X"
  by simp

lemma decoding_text:
  assumes "output_token_ids r \<noteq> []" and "n = int (length (text_of r)) - 1"
  shows "take (nat n) (text_of r) @ [last (output_token_ids r)] = text_of r"
proof -
  have "last (output_token_ids r) = last (text_of r)" "text_of r \<noteq> []" using assms(1) by (simp_all add: text_of_def)
  moreover have "nat n = length (text_of r) - 1" unfolding assms(2) by linarith
  ultimately show ?thesis using append_butlast_last_id [of "text_of r"] by (simp add: butlast_conv_take)
qed

lemma commit_decode_row_ok:
  assumes ok: "engine_ok D env X pend e" and x: "rid \<notin> X" and r: "active_request rid e = Some r" and st: "state r = DECODING"
    and p: "pend rid = [last (output_token_ids r)]" and tok: "plain r \<Longrightarrow> tok = prediction env (text_of r)"
  obtains e' where "commit_decode_row env (rid, tok) e = Inr e'" and "engine_ok D env X (pend(rid := [])) e'"
    and "others_kept rid e e'"
proof -
  let ?bs = "mgr_block_size (mgr e)" and ?X = "insert rid X"
  from active_table [OF ok r] obtain a where a: "table_of rid e = Some a" and i: "request_id r = rid" "req_inv r"
    and nn: "0 \<le> sequence_length a" .
  note h = active_ok [OF ok x r a]
  have ne: "\<not> resuming r" "output_token_ids r \<noteq> []" and seq: "sequence_length a = int (length (text_of r)) - 1"
    and fits: "sequence_length a + 1 \<le> capacity_tokens a"
    and cov: "covers (pages e) (nat ?bs) (written a (pend rid) r) (physical_block_ids a)"
    using h(2) st p by (simp_all add: holding_def)
  have w: "written a (pend rid) r = text_of r" using decoding_text [OF ne(2) seq] by (simp add: written_def p)
  have body: "prompt_token_ids r \<noteq> []" "validate_sampling (sampling r) = Inr (sampling r)" "continues env r"
    and mx: "int (length (output_token_ids r)) < max_new_tokens r" using h(1) by (simp_all add: body_ok_def)
  have ok0: "engine_ok D env ?X pend e" by (rule engine_ok_open [OF ok]) blast
  have xx: "rid \<in> ?X" by simp
  from append_open [OF ok0 xx a r zero_less_one fits] obtain m where
    m: "append_tokens (mgr e) rid 1 = Inr (True, m)" "engine_ok D env ?X pend (put_manager m e)"
      "others_kept rid e (put_manager m e)" "mgr_block_size m = ?bs"
      "table_of rid (put_manager m e) = Some (a\<lparr>sequence_length := sequence_length a + 1\<rparr>)" by auto
  have r1: "active_request rid (put_manager m e) = Some r" using r by simp
  define q1 where "q1 = r\<lparr>req_next_token_id := Some tok\<rparr>"
  have q1: "request_id q1 = rid" "req_inv q1" "state q1 = PREFILLING \<or> state q1 = DECODING"
    using i st by (simp_all add: q1_def)
  note put = put_request_open [OF m(2) xx r1 q1]
  let ?e1 = "put_request rid q1 (put_manager m e)"
  have r2: "active_request rid ?e1 = Some q1" "state q1 = DECODING" "int (length (output_token_ids q1)) < max_new_tokens q1"
    using st mx by (simp_all add: q1_def)
  from emit_open [OF put(1) xx r2, of tok] obtain e2 q where
    e2: "emit_token env rid tok ?e1 = Inr e2" "engine_ok D env ?X pend e2" "others_kept rid ?e1 e2" "active_request rid e2 = Some q"
      "table_of rid e2 = table_of rid ?e1" "pages e2 = pages ?e1" "mgr e2 = mgr ?e1"
    and q: "state q = DECODING" "output_token_ids q = output_token_ids q1 @ [tok]" "prompt_token_ids q = prompt_token_ids q1"
      "sampling q = sampling q1" "max_new_tokens q = max_new_tokens q1" "resuming q = resuming q1"
      "req_next_token_id q = req_next_token_id q1" .
  have qr: "output_token_ids q = output_token_ids r @ [tok]" "prompt_token_ids q = prompt_token_ids r" "sampling q = sampling r"
    "max_new_tokens q = max_new_tokens r" "\<not> resuming q" "req_next_token_id q = Some tok"
    using q ne by (simp_all add: q1_def)
  note app = continues_append [OF body(3) tok mx qr(1-4)]
  have tab: "table_of rid e2 = Some (a\<lparr>sequence_length := sequence_length a + 1\<rparr>)" using e2(5) m(5) by simp
  have txt_q: "text_of q = text_of r @ [tok]" by (simp add: text_of_def qr)
  have cov2: "covers (pages e2) (nat (mgr_block_size (mgr e2)))
      (take (nat (sequence_length (a\<lparr>sequence_length := sequence_length a + 1\<rparr>))) (text_of q))
      (physical_block_ids (a\<lparr>sequence_length := sequence_length a + 1\<rparr>))"
    using cov w seq e2(6,7) m(4) by (simp add: txt_q)
  obtain e3 where e3: "finish_if_ended env rid tok e2 = Inr e3" "engine_ok D env (?X - {rid}) (pend(rid := [])) e3"
    "others_kept rid e2 e3"
    by (rule finish_if_ended_ok [OF e2(2) xx e2(4) tab q(1) qr(5) _ _ _ cov2 _ _ app])
      (use qr seq body txt_q in simp_all)
  have "commit_decode_row env (rid, tok) e = Inr e3"
    using m(1) r1 e2(1) e3(1) by (simp add: commit_decode_row_def change_request_def with_request_def q1_def)
  moreover have "others_kept rid e e3" using m(3) put(2) e2(3) e3(3) by (metis others_kept_trans)
  ultimately show thesis using that e3(2) x by simp
qed

section \<open>Committing a prefill row\<close>

lemma prefill_text:
  assumes "req_inv r" and "body_ok env r" and "resuming r \<longleftrightarrow> output_token_ids r \<noteq> []"
  shows "prefill_token_ids r = take (nat (prefill_token_count r)) (text_of r)"
    and "0 < prefill_token_count r" and "prefill_token_count r \<le> int (length (text_of r))"
    and "int (length (prefill_token_ids r)) = prefill_token_count r"
proof -
  note pl = prompt_length [OF assms(1,2)]
  have pos: "0 < prompt_token_count r" using assms(1) by (simp add: req_inv_def)
  have "prefill_token_count r = int (length (prefill_token_ids r)) \<and> prefix (prefill_token_ids r) (text_of r)"
  proof (cases "output_token_ids r = []")
    case True
    with pl show ?thesis by (simp add: prefill_token_count_def prefill_token_ids_def text_of_def)
  next
    case False
    with assms(3) have "resuming r" by blast
    moreover obtain n where "length (output_token_ids r) = Suc n" using False by (cases "output_token_ids r") auto
    moreover have "prefix (butlast (output_token_ids r)) (output_token_ids r)"
      using append_butlast_last_id [OF False] by (metis prefixI)
    ultimately show ?thesis using pl by (simp add: prefill_token_count_def prefill_token_ids_def text_of_def)
  qed
  then obtain zs where c: "prefill_token_count r = int (length (prefill_token_ids r))" "text_of r = prefill_token_ids r @ zs"
    by (auto simp: prefix_def)
  then show "prefill_token_ids r = take (nat (prefill_token_count r)) (text_of r)"
    and "prefill_token_count r \<le> int (length (text_of r))" and "int (length (prefill_token_ids r)) = prefill_token_count r" by simp_all
  show "0 < prefill_token_count r" using prefill_count_ge [OF pos] pos by linarith
qed

text \<open>Appending to the table and advancing the prefill of an open request.\<close>

lemma advance_open:
  assumes ok: "engine_ok D env X pend e" and x: "rid \<in> X" and r: "active_request rid e = Some r" and a: "table_of rid e = Some a"
    and st: "state r = PREFILLING" and n: "0 < n" "n \<le> remaining_prefill_tokens r" and fits: "sequence_length a + n \<le> capacity_tokens a"
  obtains m q where "append_tokens (mgr e) rid n = Inr (True, m)"
    and "change_request rid (advance_prefill n) (put_manager m e) = Inr (put_request rid q (put_manager m e))"
    and "engine_ok D env X pend (put_request rid q (put_manager m e))"
    and "others_kept rid e (put_request rid q (put_manager m e))"
    and "requests m rid = Some (a\<lparr>sequence_length := sequence_length a + n\<rparr>)"
    and "mgr_block_size m = mgr_block_size (mgr e)" and "owns_rest (mgr e) rid \<Longrightarrow> owns_rest m rid"
    and "req_inv q" and "state q = PREFILLING" and "prefilled_token_count q = prefilled_token_count r + n"
    and "prefill_token_count q = prefill_token_count r" and "text_of q = text_of r" and "resuming q = resuming r"
    and "output_token_ids q = output_token_ids r" and "prompt_token_ids q = prompt_token_ids r" and "sampling q = sampling r"
    and "max_new_tokens q = max_new_tokens r" and "cached_next_token_id q = cached_next_token_id r"
    and "req_next_token_id q = req_next_token_id r" and "body_ok env q = body_ok env r"
proof -
  from active_table [OF ok r] have i: "request_id r = rid" "req_inv r" by blast+
  from append_open [OF ok x a r n(1) fits] obtain m where
    m: "append_tokens (mgr e) rid n = Inr (True, m)" "engine_ok D env X pend (put_manager m e)"
      "others_kept rid e (put_manager m e)" "mgr_block_size m = mgr_block_size (mgr e)"
      "table_of rid (put_manager m e) = Some (a\<lparr>sequence_length := sequence_length a + n\<rparr>)"
      "owns_rest (mgr e) rid \<Longrightarrow> owns_rest m rid" by blast
  define r1 where "r1 = (if recomputing r then r\<lparr>recomputed_token_count := recomputed_token_count r + n\<rparr> else r)"
  define q where "q = r1\<lparr>prefilled_token_count := prefilled_token_count r1 + n\<rparr>"
  have run: "advance_prefill n r = Inr q" using st n by (simp add: advance_prefill_def q_def r1_def Let_def)
  have inv: "req_inv q" using req_apply_inv [OF i(2), of 0 "Advance n" q] run by simp
  have q: "request_id q = request_id r" "state q = PREFILLING" "prefilled_token_count q = prefilled_token_count r + n"
    "prefill_token_count q = prefill_token_count r" "text_of q = text_of r" "resuming q = resuming r"
    "output_token_ids q = output_token_ids r" "prompt_token_ids q = prompt_token_ids r" "sampling q = sampling r"
    "max_new_tokens q = max_new_tokens r" "cached_next_token_id q = cached_next_token_id r"
    "req_next_token_id q = req_next_token_id r"
    using st by (simp_all add: q_def r1_def prefill_token_count_def text_of_def)
  have r1: "active_request rid (put_manager m e) = Some r" using r by simp
  have id: "request_id q = rid" using q(1) i(1) by simp
  note put = put_request_open [OF m(2) x r1 id inv disjI1 [OF q(2)]]
  have "change_request rid (advance_prefill n) (put_manager m e) = Inr (put_request rid q (put_manager m e))"
    using r1 run by (simp add: change_request_def with_request_def)
  moreover have "others_kept rid e (put_request rid q (put_manager m e))" using m(3) put(2) by (rule others_kept_trans)
  moreover have "requests m rid = Some (a\<lparr>sequence_length := sequence_length a + n\<rparr>)" using m(5) by simp
  ultimately show thesis
    using that [OF m(1) _ put(1) _ _ m(4,6) inv q(2-12) body_ok_cong [OF q(8,7,9,10)]] by blast
qed

lemma close_prefilling:
  assumes ok: "engine_ok D env X pend e" and r: "active_request rid e = Some r" and a: "table_of rid e = Some a"
    and body: "body_ok env r" and st: "state r = PREFILLING" and res: "resuming r \<longleftrightarrow> output_token_ids r \<noteq> []"
    and seq: "sequence_length a = prefilled_token_count r" and c: "cached_ok env r"
    and len: "int (length (physical_block_ids a)) \<le> ceil_div (prefill_token_count r) (mgr_block_size (mgr e))"
    and holds: "table_holds (pages e) (nat (mgr_block_size (mgr e))) (take (nat (sequence_length a)) (text_of r)) (physical_block_ids a)"
  shows "engine_ok D env (X - {rid}) (pend(rid := [])) e"
proof (rule engine_ok_close [OF ok])
  fix r' a' assume "active_request rid e = Some r'" "table_of rid e = Some a'"
  with r a have eq: "r' = r" "a' = a" by simp_all
  from active_table [OF ok r] a have "sequence_length a \<le> capacity_tokens a" by (metis option.inject)
  then have "holding env (pages e) (mgr_block_size (mgr e)) a [] r"
    unfolding holding_def written_def append_Nil2 using st res seq c len holds by simp
  with body show "body_ok env r' \<and> holding env (pages e) (mgr_block_size (mgr e)) a' [] r'" unfolding eq by blast
qed

lemma commit_prefill_row_ok:
  assumes ok: "engine_ok D env X pend e" and x: "rid \<notin> X" and r: "active_request rid e = Some r" and st: "state r = PREFILLING"
    and n: "0 < n" "n \<le> remaining_prefill_tokens r"
    and p: "pend rid = take (nat n) (drop (nat (prefilled_token_count r)) (prefill_token_ids r))"
    and tok: "plain r \<Longrightarrow> \<not> resuming r \<Longrightarrow> n = remaining_prefill_tokens r \<Longrightarrow> tok = prediction env (prompt_token_ids r)"
  obtains e' where "commit_prefill_row env ((rid, n), tok) e = Inr e'" and "engine_ok D env X (pend(rid := [])) e'"
    and "others_kept rid e e'"
proof -
  let ?bs = "mgr_block_size (mgr e)" and ?X = "insert rid X"
  from active_table [OF ok r] obtain a where a: "table_of rid e = Some a" and i: "request_id r = rid" "req_inv r"
    and nn: "0 \<le> sequence_length a" .
  note h = active_ok [OF ok x r a]
  have seq: "sequence_length a = prefilled_token_count r" and res: "resuming r \<longleftrightarrow> output_token_ids r \<noteq> []" and c: "cached_ok env r"
    and len: "int (length (physical_block_ids a)) \<le> ceil_div (prefill_token_count r) ?bs"
    and fits: "sequence_length a + int (length (pend rid)) \<le> capacity_tokens a"
    and holds: "table_holds (pages e) (nat ?bs) (written a (pend rid) r) (physical_block_ids a)"
    using h(2) st by (simp_all add: holding_def)
  note pt = prefill_text [OF i(2) h(1) res]
  have le: "prefilled_token_count r + n \<le> prefill_token_count r" using n(2) by (simp add: remaining_prefill_tokens_def)
  have "length (pend rid) = nat n" using pt(4) le nn seq n(1) by (simp add: p)
  with fits n(1) have fits': "sequence_length a + n \<le> capacity_tokens a" by simp
  have "take (nat n) (drop (nat (sequence_length a)) (take (nat (prefill_token_count r)) (text_of r))) =
      take (nat n) (drop (nat (sequence_length a)) (text_of r))"
    using le nn seq n(1) by (simp add: drop_take min_def)
  then have w: "written a (pend rid) r = take (nat (sequence_length a + n)) (text_of r)"
    using nn n(1) by (simp add: written_def p seq [symmetric] pt(1) nat_add_distrib take_add)
  have ok0: "engine_ok D env ?X pend e" by (rule engine_ok_open [OF ok]) blast
  have xx: "rid \<in> ?X" by simp
  from advance_open [OF ok0 xx r a st n fits'] obtain m q where
    m: "append_tokens (mgr e) rid n = Inr (True, m)"
      "change_request rid (advance_prefill n) (put_manager m e) = Inr (put_request rid q (put_manager m e))"
      "engine_ok D env ?X pend (put_request rid q (put_manager m e))"
      "others_kept rid e (put_request rid q (put_manager m e))"
      "requests m rid = Some (a\<lparr>sequence_length := sequence_length a + n\<rparr>)" "mgr_block_size m = ?bs"
    and q: "req_inv q" "state q = PREFILLING" "prefilled_token_count q = prefilled_token_count r + n"
      "prefill_token_count q = prefill_token_count r" "text_of q = text_of r" "resuming q = resuming r"
      "output_token_ids q = output_token_ids r" "prompt_token_ids q = prompt_token_ids r" "sampling q = sampling r"
      "max_new_tokens q = max_new_tokens r" "cached_next_token_id q = cached_next_token_id r"
      "req_next_token_id q = req_next_token_id r" "body_ok env q = body_ok env r" by blast
  let ?e = "put_request rid q (put_manager m e)" and ?a = "a\<lparr>sequence_length := sequence_length a + n\<rparr>"
  have act: "active_request rid ?e = Some q" "table_of rid ?e = Some ?a" using m(5) by simp_all
  have body: "body_ok env q" and res': "resuming q \<longleftrightarrow> output_token_ids q \<noteq> []"
    and seq': "sequence_length ?a = prefilled_token_count q" and c': "cached_ok env q"
    using h(1) res seq c q by (simp_all add: cached_ok_def)
  have len': "int (length (physical_block_ids ?a)) \<le> ceil_div (prefill_token_count q) (mgr_block_size (mgr ?e))"
    and holds': "table_holds (pages ?e) (nat (mgr_block_size (mgr ?e))) (take (nat (sequence_length ?a)) (text_of q)) (physical_block_ids ?a)"
    using len holds w q m(6) by simp_all
  have eq: "commit_prefill_row env ((rid, n), tok) e =
      (if remaining_prefill_tokens q = 0 then complete_prefill env rid (Some tok) ?e else Inr ?e)"
    using m(1,2) act by (simp add: commit_prefill_row_def with_request_def)
  show thesis
  proof (cases "remaining_prefill_tokens q = 0")
    case True
    then have "n = remaining_prefill_tokens r" using q by (simp add: remaining_prefill_tokens_def)
    then have pred: "t = prediction env (prompt_token_ids q)" if "\<not> resuming q" "plain q" "Some tok = Some t" for t
      using tok that q by simp
    from complete_prefill_ok [OF m(3) xx act q(2) True body res' seq' len' holds' pred] obtain e' where
      "complete_prefill env rid (Some tok) ?e = Inr e'" "engine_ok D env (?X - {rid}) (pend(rid := [])) e'"
      "others_kept rid ?e e'" by blast
    with that eq True x others_kept_trans [OF m(4)] show thesis by simp
  next
    case False
    from close_prefilling [OF m(3) act body q(2) res' seq' c' len' holds'] that eq False x m(4) show thesis by simp
  qed
qed

section \<open>Rebuilding a preempted request\<close>

text \<open>An open request whose table holds the first \<open>k\<close> tokens of its text and has room for the rest.\<close>

definition rebuilding ::
  "string set \<Rightarrow> 'g engine_setup \<Rightarrow> string set \<Rightarrow> (string \<Rightarrow> int list) \<Rightarrow> string \<Rightarrow> request \<Rightarrow> int \<Rightarrow> 'g engine \<Rightarrow> bool" where
  "rebuilding D env X pend rid r k e \<longleftrightarrow> engine_ok D env X pend e \<and> rid \<in> X \<and>
     (\<exists>q a. active_request rid e = Some q \<and> table_of rid e = Some a \<and> state q = PREFILLING \<and>
        sequence_length a = k \<and> prefilled_token_count q = k \<and> prefill_token_count q = prefill_token_count r \<and>
        text_of q = text_of r \<and> resuming q = resuming r \<and> output_token_ids q = output_token_ids r \<and>
        prompt_token_ids q = prompt_token_ids r \<and> sampling q = sampling r \<and> body_ok env q \<and>
        prefill_token_count r \<le> capacity_tokens a \<and> owns_rest (mgr e) rid \<and>
        int (length (physical_block_ids a)) \<le> ceil_div (prefill_token_count r) (mgr_block_size (mgr e)) \<and>
        table_holds (pages e) (nat (mgr_block_size (mgr e))) (take (nat k) (text_of r)) (physical_block_ids a))"

lemma replay_step:
  assumes re: "rebuilding D env X pend rid r k e" and k: "0 \<le> k" "k < prefill_token_count r" "k < int (length (text_of r))"
    and mx: "0 < max_active env"
  obtains e' where "replay_decode_input env rid (text_of r ! nat k) e = Inr e'" and "rebuilding D env X pend rid r (k + 1) e'"
    and "others_kept rid e e'"
proof -
  let ?bs = "mgr_block_size (mgr e)" and ?tok = "text_of r ! nat k"
  from re obtain q a where ok: "engine_ok D env X pend e" and x: "rid \<in> X" and q: "active_request rid e = Some q" and a: "table_of rid e = Some a"
    and st: "state q = PREFILLING" and seq: "sequence_length a = k" "prefilled_token_count q = k"
    and same: "prefill_token_count q = prefill_token_count r" "text_of q = text_of r" "resuming q = resuming r"
      "output_token_ids q = output_token_ids r" "prompt_token_ids q = prompt_token_ids r" "sampling q = sampling r"
    and body: "body_ok env q" and room: "prefill_token_count r \<le> capacity_tokens a" and own: "owns_rest (mgr e) rid"
    and len: "int (length (physical_block_ids a)) \<le> ceil_div (prefill_token_count r) ?bs"
    and holds: "table_holds (pages e) (nat ?bs) (take (nat k) (text_of r)) (physical_block_ids a)"
    unfolding rebuilding_def by blast
  from active_table [OF ok q] have i: "request_id q = rid" "req_inv q" by blast+
  define q1 where "q1 = q\<lparr>req_next_token_id := Some ?tok\<rparr>"
  have q1: "request_id q1 = rid" "req_inv q1" "state q1 = PREFILLING \<or> state q1 = DECODING"
    using i st by (simp_all add: q1_def)
  note put = put_request_open [OF ok x q q1]
  let ?e1 = "put_request rid q1 e"
  have act1: "active_request rid ?e1 = Some q1" "table_of rid ?e1 = Some a" using a by simp_all
  define h where "h = take (nat k) (text_of r)"
  have h: "int (length h) = k" using k by (simp add: h_def)
  have hs: "h @ [?tok] = take (nat (k + 1)) (text_of r)"
    using k by (simp add: h_def nat_add_distrib take_Suc_conv_app_nth)
  define row where "row = ([?tok], k, physical_block_ids a)"
  have one: "sequence_length a + int (length [?tok]) \<le> capacity_tokens a" using seq k room by simp
  have "owns_rest (mgr ?e1) rid" using own by simp
  from request_row_owned [OF put(1) act1 one this] have owned: "\<forall>z \<in> set [(rid, row)]. row_owned ?e1 z"
    by (simp add: row_def seq)
  define kv where "kv = write_rows (mgr_block_size (mgr ?e1)) (map snd [(rid, row)]) (pages ?e1)"
  let ?e2 = "?e1\<lparr>pages := kv\<rparr>"
  have ok2: "engine_ok D env X pend ?e2"
    using forward_frame(1) [OF put(1) owned kv_def] x by (simp add: insert_absorb)
  have act2: "active_request rid ?e2 = Some q1" "table_of rid ?e2 = Some a"
    using act1 by (simp_all add: active_request_def table_of_def)
  have holds2: "table_holds kv (nat ?bs) (h @ [?tok]) (physical_block_ids a)"
    using forward_row(1) [OF put(1) owned _ _ act1 _ _ _ kv_def, of "[]" "[?tok]" h "[]"] one seq h holds_covers [OF holds]
    by (simp add: row_def h_def)
  have st1: "state q1 = PREFILLING" using st by (simp add: q1_def)
  have rem1: "1 \<le> remaining_prefill_tokens q1" using seq(2) same(1) k(2) by (simp add: q1_def remaining_prefill_tokens_def)
  have one': "sequence_length a + 1 \<le> capacity_tokens a" using one by simp
  from advance_open [OF ok2 x act2 st1 zero_less_one rem1 one'] obtain m q2 where
    m: "append_tokens (mgr ?e2) rid 1 = Inr (True, m)"
      "change_request rid (advance_prefill 1) (put_manager m ?e2) = Inr (put_request rid q2 (put_manager m ?e2))"
      "engine_ok D env X pend (put_request rid q2 (put_manager m ?e2))"
      "others_kept rid ?e2 (put_request rid q2 (put_manager m ?e2))"
      "requests m rid = Some (a\<lparr>sequence_length := sequence_length a + 1\<rparr>)" "mgr_block_size m = mgr_block_size (mgr ?e2)"
      "owns_rest (mgr ?e2) rid \<Longrightarrow> owns_rest m rid"
    and q2: "req_inv q2" "state q2 = PREFILLING" "prefilled_token_count q2 = prefilled_token_count q1 + 1"
      "prefill_token_count q2 = prefill_token_count q1" "text_of q2 = text_of q1" "resuming q2 = resuming q1"
      "output_token_ids q2 = output_token_ids q1" "prompt_token_ids q2 = prompt_token_ids q1" "sampling q2 = sampling q1"
      "max_new_tokens q2 = max_new_tokens q1" "cached_next_token_id q2 = cached_next_token_id q1"
      "req_next_token_id q2 = req_next_token_id q1" "body_ok env q2 = body_ok env q1" by blast
  let ?e3 = "put_request rid q2 (put_manager m ?e2)"
  have q2r: "prefilled_token_count q2 = k + 1" "prefill_token_count q2 = prefill_token_count r" "text_of q2 = text_of r"
    "resuming q2 = resuming r" "output_token_ids q2 = output_token_ids r" "prompt_token_ids q2 = prompt_token_ids r"
    "sampling q2 = sampling r" "body_ok env q2"
    using q2 seq same body body_ok_cong [of q1 q env] by (simp_all add: q1_def)
  have "rebuilding D env X pend rid r (k + 1) ?e3"
    unfolding rebuilding_def
  proof (intro conjI exI)
    show "active_request rid ?e3 = Some q2" by simp
    show "table_of rid ?e3 = Some (a\<lparr>sequence_length := sequence_length a + 1\<rparr>)" using m(5) by simp
    show "owns_rest (mgr ?e3) rid" using m(7) own by simp
  qed (use m(3,6) x q2r q2(2) seq room len holds2 hs in \<open>simp_all add: capacity_tokens_def\<close>)
  moreover have "live PREFILLING rid e" using q a st by (simp add: live_def)
  moreover have "decode_row ?e1 rid = Inr row"
    using act1 one seq by (simp add: decode_row_def row_def q1_def)
  then have "prepare_decode_metadata env [rid] None ?e1 = Inr [row]"
    using mx by (simp add: prepare_decode_metadata_def Let_def)
  moreover have "snd (forward_rows env [row] ?e1) = ?e2" by (simp add: forward_rows_def kv_def Let_def)
  then obtain l where "forward_rows env [row] ?e1 = (l, ?e2)" by (metis prod.collapse)
  ultimately have run: "replay_decode_input env rid ?tok e = Inr ?e3"
    using q m(1,2) by (simp add: replay_decode_input_def change_request_def with_request_def q1_def)
  have "others_kept rid ?e1 ?e2" by (simp add: others_kept_def active_request_def table_of_def)
  then have "others_kept rid e ?e3" using put(2) m(4) by (metis others_kept_trans)
  with that run \<open>rebuilding D env X pend rid r (k + 1) ?e3\<close> show thesis by blast
qed

lemma replay_history:
  assumes "rebuilding D env X pend rid r k e" and "0 \<le> k" and "k + int (length hs) \<le> prefill_token_count r"
    and "hs = take (length hs) (drop (nat k) (text_of r))" and "k + int (length hs) \<le> int (length (text_of r))" and mx: "0 < max_active env"
  shows "\<exists>e'. for_each (replay_decode_input env rid) hs e = Inr e' \<and> rebuilding D env X pend rid r (k + int (length hs)) e' \<and>
    others_kept rid e e'"
  using assms(1-5)
proof (induction hs arbitrary: k e)
  case (Cons t hs)
  have lt: "k < prefill_token_count r" "k < int (length (text_of r))" using Cons.prems(3,5) by simp_all
  have dr: "drop (nat k) (text_of r) = text_of r ! nat k # drop (nat (k + 1)) (text_of r)"
    using lt(2) Cons.prems(2) Cons_nth_drop_Suc [of "nat k" "text_of r"] by (simp add: nat_add_distrib)
  from Cons.prems(4) have t: "t = text_of r ! nat k" "hs = take (length hs) (drop (nat (k + 1)) (text_of r))"
    unfolding dr by simp_all
  from replay_step [OF Cons.prems(1,2) lt mx] obtain e1 where e1: "replay_decode_input env rid t e = Inr e1"
    "rebuilding D env X pend rid r (k + 1) e1" "others_kept rid e e1" unfolding t(1) by blast
  from Cons.IH [OF e1(2)] t(2) Cons.prems(2,3,5) obtain e' where "for_each (replay_decode_input env rid) hs e1 = Inr e'"
    "rebuilding D env X pend rid r (k + 1 + int (length hs)) e'" "others_kept rid e1 e'" by (auto simp: add.assoc)
  with e1 show ?case by (auto simp: add.assoc add.commute [of 1] intro: others_kept_trans)
qed simp

lemma commit_prefill_batch_row_ok:
  assumes ok: "engine_ok D env X pend e" and x: "rid \<notin> X" and r: "active_request rid e = Some r" and a: "table_of rid e = Some a"
    and st: "state r = PREFILLING" and fresh: "prefilled_token_count r = 0"
    and p: "pend rid = (if resuming r then prompt_token_ids r else prefill_token_ids r)"
    and room: "prefill_token_count r \<le> capacity_tokens a" and own: "owns_rest (mgr e) rid" and mx: "0 < max_active env"
    and tok: "plain r \<Longrightarrow> \<not> resuming r \<Longrightarrow> tok = prediction env (prompt_token_ids r)"
  obtains e' where "commit_prefill_batch_row env (rid, pend rid, tok) e = Inr e'" and "engine_ok D env X (pend(rid := [])) e'"
    and "others_kept rid e e'"
proof -
  let ?bs = "mgr_block_size (mgr e)" and ?X = "insert rid X" and ?n = "int (length (pend rid))"
  from active_table [OF ok r] have i: "request_id r = rid" "req_inv r" by blast+
  note h = active_ok [OF ok x r a]
  have seq: "sequence_length a = 0" and res: "resuming r \<longleftrightarrow> output_token_ids r \<noteq> []" and c: "cached_ok env r"
    and len: "int (length (physical_block_ids a)) \<le> ceil_div (prefill_token_count r) ?bs"
    and holds: "table_holds (pages e) (nat ?bs) (pend rid) (physical_block_ids a)"
    using h(2) st fresh by (auto simp: holding_def written_def)
  have p': "pend rid = prompt_token_ids r" unfolding p using res by (simp add: prefill_token_ids_def)
  note pl = prompt_length [OF i(2) h(1)]
  have n0: "0 < ?n" using i(2) pl by (simp add: p' req_inv_def)
  have pc: "prompt_token_count r \<le> prefill_token_count r" using prefill_count_ge [of r] i(2) by (simp add: req_inv_def)
  then have n1: "?n \<le> remaining_prefill_tokens r" using pl fresh by (simp add: p' remaining_prefill_tokens_def)
  have n2: "sequence_length a + ?n \<le> capacity_tokens a" using seq room pl pc by (simp add: p')
  have ok0: "engine_ok D env ?X pend e" by (rule engine_ok_open [OF ok]) blast
  have xx: "rid \<in> ?X" by simp
  from advance_open [OF ok0 xx r a st n0 n1 n2] obtain m q where
    m: "append_tokens (mgr e) rid ?n = Inr (True, m)"
      "change_request rid (advance_prefill ?n) (put_manager m e) = Inr (put_request rid q (put_manager m e))"
      "engine_ok D env ?X pend (put_request rid q (put_manager m e))"
      "others_kept rid e (put_request rid q (put_manager m e))"
      "requests m rid = Some (a\<lparr>sequence_length := sequence_length a + ?n\<rparr>)" "mgr_block_size m = ?bs"
      "owns_rest (mgr e) rid \<Longrightarrow> owns_rest m rid"
    and q: "req_inv q" "state q = PREFILLING" "prefilled_token_count q = prefilled_token_count r + ?n"
      "prefill_token_count q = prefill_token_count r" "text_of q = text_of r" "resuming q = resuming r"
      "output_token_ids q = output_token_ids r" "prompt_token_ids q = prompt_token_ids r" "sampling q = sampling r"
      "max_new_tokens q = max_new_tokens r" "cached_next_token_id q = cached_next_token_id r"
      "req_next_token_id q = req_next_token_id r" "body_ok env q = body_ok env r" by blast
  let ?e1 = "put_request rid q (put_manager m e)"
  have txt_r: "take (length (prompt_token_ids r)) (text_of r) = prompt_token_ids r" by (simp add: text_of_def)
  have re: "rebuilding D env ?X pend rid r ?n ?e1"
    unfolding rebuilding_def
  proof (intro conjI exI)
    show "active_request rid ?e1 = Some q" by simp
    show "table_of rid ?e1 = Some (a\<lparr>sequence_length := sequence_length a + ?n\<rparr>)" using m(5) by simp
    show "owns_rest (mgr ?e1) rid" using m(7) own by simp
  qed (use m(3,6) q h(1) seq fresh room len holds txt_r in \<open>simp_all add: p' capacity_tokens_def\<close>)
  \<comment> \<open>the replay ends with the whole prefill held\<close>
  have "\<exists>e2. replay_resumed_history env rid ?e1 = Inr e2 \<and> rebuilding D env ?X pend rid r (prefill_token_count r) e2 \<and>
      others_kept rid ?e1 e2"
  proof (cases "resuming r")
    case False
    then have "?n = prefill_token_count r" using pl res by (simp add: p' prefill_token_count_def)
    with re False q(6) show ?thesis by (simp add: replay_resumed_history_def with_request_def)
  next
    case True
    then have ne: "output_token_ids r \<noteq> []" using res by blast
    let ?hs = "butlast (output_token_ids r)"
    have cnt: "?n + int (length ?hs) = prefill_token_count r"
    proof -
      have "int (length ?hs) = int (length (output_token_ids r)) - 1" using ne by (cases "output_token_ids r") auto
      then show ?thesis using pl True ne by (simp add: p' prefill_token_count_def)
    qed
    have eq: "?hs = take (length ?hs) (drop (nat ?n) (text_of r))"
      by (simp add: text_of_def p' butlast_conv_take)
    have le: "?n + int (length ?hs) \<le> int (length (text_of r))" by (simp add: p' text_of_def)
    obtain e2 where e2: "for_each (replay_decode_input env rid) ?hs ?e1 = Inr e2"
      "rebuilding D env ?X pend rid r (prefill_token_count r) e2" "others_kept rid ?e1 e2"
      using replay_history [OF re of_nat_0_le_iff eq_refl [OF cnt] eq le mx] unfolding cnt by blast
    from e2(2) obtain q2 a2 where q2: "engine_ok D env ?X pend e2" "active_request rid e2 = Some q2" "table_of rid e2 = Some a2"
      "state q2 = PREFILLING" "sequence_length a2 = prefill_token_count r" "prefilled_token_count q2 = prefill_token_count r"
      "prefill_token_count q2 = prefill_token_count r" "text_of q2 = text_of r" "resuming q2 = resuming r"
      "output_token_ids q2 = output_token_ids r" "prompt_token_ids q2 = prompt_token_ids r" "sampling q2 = sampling r" "body_ok env q2"
      "prefill_token_count r \<le> capacity_tokens a2" "owns_rest (mgr e2) rid"
      "int (length (physical_block_ids a2)) \<le> ceil_div (prefill_token_count r) (mgr_block_size (mgr e2))"
      "table_holds (pages e2) (nat (mgr_block_size (mgr e2))) (take (nat (prefill_token_count r)) (text_of r)) (physical_block_ids a2)"
      unfolding rebuilding_def by blast
    define q3 where "q3 = q2\<lparr>req_next_token_id := Some (last (output_token_ids r))\<rparr>"
    from active_table [OF q2(1,2)] have i2: "request_id q2 = rid" "req_inv q2" by blast+
    have q3: "request_id q3 = rid" "req_inv q3" "state q3 = PREFILLING \<or> state q3 = DECODING"
      using i2 q2(4) by (simp_all add: q3_def)
    note put = put_request_open [OF q2(1) xx q2(2) q3]
    let ?e3 = "put_request rid q3 e2"
    have "rebuilding D env ?X pend rid r (prefill_token_count r) ?e3"
      unfolding rebuilding_def
    proof (intro conjI exI)
      show "active_request rid ?e3 = Some q3" by simp
      show "table_of rid ?e3 = Some a2" using q2(3) by simp
    qed (use put(1) q2 body_ok_cong [of q3 q2 env] in \<open>simp_all add: q3_def\<close>)
    moreover have "replay_resumed_history env rid ?e1 = Inr ?e3"
      using True q(6,7) ne e2(1) q2(2) by (simp add: replay_resumed_history_def change_request_def with_request_def q3_def)
    moreover have "others_kept rid ?e1 ?e3" using e2(3) put(2) by (rule others_kept_trans)
    ultimately show ?thesis by blast
  qed
  then obtain e2 where e2: "replay_resumed_history env rid ?e1 = Inr e2" "rebuilding D env ?X pend rid r (prefill_token_count r) e2"
    "others_kept rid ?e1 e2" by blast
  from e2(2) obtain q2 a2 where q2: "engine_ok D env ?X pend e2" "active_request rid e2 = Some q2" "table_of rid e2 = Some a2"
    "state q2 = PREFILLING" "sequence_length a2 = prefill_token_count r" "prefilled_token_count q2 = prefill_token_count r"
    "prefill_token_count q2 = prefill_token_count r" "text_of q2 = text_of r" "resuming q2 = resuming r"
    "output_token_ids q2 = output_token_ids r" "prompt_token_ids q2 = prompt_token_ids r" "sampling q2 = sampling r" "body_ok env q2"
    "int (length (physical_block_ids a2)) \<le> ceil_div (prefill_token_count r) (mgr_block_size (mgr e2))"
    "table_holds (pages e2) (nat (mgr_block_size (mgr e2))) (take (nat (prefill_token_count r)) (text_of r)) (physical_block_ids a2)"
    unfolding rebuilding_def by blast
  have rem: "remaining_prefill_tokens q2 = 0" using q2(6,7) by (simp add: remaining_prefill_tokens_def)
  have res2: "resuming q2 \<longleftrightarrow> output_token_ids q2 \<noteq> []" using res q2(9,10) by simp
  have seq2: "sequence_length a2 = prefilled_token_count q2" using q2(5,6) by simp
  have len2: "int (length (physical_block_ids a2)) \<le> ceil_div (prefill_token_count q2) (mgr_block_size (mgr e2))"
    and holds2: "table_holds (pages e2) (nat (mgr_block_size (mgr e2))) (take (nat (sequence_length a2)) (text_of q2)) (physical_block_ids a2)"
    using q2(14,15) by (simp_all add: q2(5,7,8))
  have pred: "t = prediction env (prompt_token_ids q2)" if "\<not> resuming q2" "plain q2" "Some tok = Some t" for t
    using tok that q2(9,11,12) by simp
  from complete_prefill_ok [OF q2(1) xx q2(2,3,4) rem q2(13) res2 seq2 len2 holds2 pred] obtain e3 where
    e3: "complete_prefill env rid (Some tok) e2 = Inr e3" "engine_ok D env (?X - {rid}) (pend(rid := [])) e3" "others_kept rid e2 e3" by blast
  have "commit_prefill_batch_row env (rid, pend rid, tok) e = Inr e3"
    using m(1,2) e2(1) e3(1) by (simp add: commit_prefill_batch_row_def)
  moreover have "others_kept rid e e3" using m(4) e2(3) e3(3) by (metis others_kept_trans)
  ultimately show thesis using that e3(2) x by simp
qed

section \<open>Committing a speculative row\<close>

lemma predictions_after: "map (\<lambda>i. f (ctx @ take i ds)) [0..<Suc (length ds)] = f ctx # forward_preds f ctx ds"
proof (induction ds arbitrary: ctx)
  case (Cons d ds)
  have "map (\<lambda>i. f (ctx @ take i (d # ds))) [0..<Suc (length (d # ds))] =
      f ctx # map (\<lambda>i. f ((ctx @ [d]) @ take i ds)) [0..<Suc (length ds)]"
    by (simp only: length_Cons upt_conv_Cons [of 0 "Suc (Suc (length ds))"] map_Suc_upt [symmetric]) (simp add: o_def del: upt_Suc)
  then show ?case unfolding Cons.IH by simp
qed simp

lemma emit_until_going: "emit_until stop eos ign ts = (es, None) \<Longrightarrow> \<forall>t \<in> set es. t \<notin> stop \<and> (ign \<or> t \<notin> eos)"
  by (induction ts arbitrary: es) (auto split: if_splits prod.splits)

text \<open>All but the last committed token are proposals; without a terminal reason none of them ends the request.\<close>

lemma commit_shape:
  assumes run: "plan_greedy_commit draft target bonus remaining eos stop ign = Inr c" and ne: "gc_emitted c \<noteq> []"
  shows "butlast (gc_emitted c) = take (length (gc_emitted c) - 1) draft"
    and "terminal_reason c = None \<Longrightarrow> t \<in> set (gc_emitted c) \<Longrightarrow> t \<notin> stop \<and> (ign \<or> t \<notin> eos)"
proof -
  let ?cs = "take (nat remaining) (round_candidates draft target bonus)"
  obtain es r where e: "emit_until stop eos ign ?cs = (es, r)" by fastforce
  have c: "gc_emitted c = es" "terminal_reason c = None \<Longrightarrow> r = None"
    using run e by (auto simp: plan_greedy_commit_def Let_def split: if_splits)
  then show "terminal_reason c = None \<Longrightarrow> t \<in> set (gc_emitted c) \<Longrightarrow> t \<notin> stop \<and> (ign \<or> t \<notin> eos)"
    using emit_until_going e by blast
  have "prefix es (round_candidates draft target bonus)"
    using emit_until_take_chain [OF e] by (metis prefix_order.trans take_is_prefix)
  then obtain zs where zs: "round_candidates draft target bonus = es @ zs" by (auto simp: prefix_def)
  have "prefix (butlast (round_candidates draft target bonus)) draft"
    using match_len_le(1) [of draft target] by (auto simp: round_candidates_def Let_def take_is_prefix)
  then obtain ws where ws: "draft = butlast (es @ zs) @ ws" unfolding zs by (auto simp: prefix_def)
  then show "butlast (gc_emitted c) = take (length (gc_emitted c) - 1) draft"
    using ne unfolding c(1) by (cases "zs = []") (simp_all add: butlast_append butlast_conv_take)
qed

lemma emit_loop:
  assumes "engine_ok D env X pend e" and "rid \<in> X" and "active_request rid e = Some r" and "state r = DECODING"
    and "int (length (output_token_ids r) + length ts) \<le> max_new_tokens r"
  shows "\<exists>e' q. for_each (emit_token env rid) ts e = Inr e' \<and> engine_ok D env X pend e' \<and> others_kept rid e e' \<and>
    active_request rid e' = Some q \<and> table_of rid e' = table_of rid e \<and> pages e' = pages e \<and> mgr e' = mgr e \<and>
    state q = DECODING \<and> output_token_ids q = output_token_ids r @ ts \<and> prompt_token_ids q = prompt_token_ids r \<and>
    sampling q = sampling r \<and> max_new_tokens q = max_new_tokens r \<and> resuming q = resuming r \<and>
    req_next_token_id q = req_next_token_id r \<and> prompt_token_count q = prompt_token_count r"
  using assms
proof (induction ts arbitrary: e r)
  case (Cons t ts)
  have "int (length (output_token_ids r)) < max_new_tokens r" using Cons.prems(5) by simp
  from emit_open [OF Cons.prems(1-4) this, of t] obtain e1 q1 where
    e1: "emit_token env rid t e = Inr e1" "engine_ok D env X pend e1" "others_kept rid e e1" "active_request rid e1 = Some q1"
      "table_of rid e1 = table_of rid e" "pages e1 = pages e" "mgr e1 = mgr e"
    and q1: "state q1 = DECODING" "output_token_ids q1 = output_token_ids r @ [t]" "prompt_token_ids q1 = prompt_token_ids r"
      "sampling q1 = sampling r" "max_new_tokens q1 = max_new_tokens r" "resuming q1 = resuming r"
      "req_next_token_id q1 = req_next_token_id r" "prompt_token_count q1 = prompt_token_count r" .
  have "int (length (output_token_ids q1) + length ts) \<le> max_new_tokens q1" using Cons.prems(5) q1 by simp
  from Cons.IH [OF e1(2) Cons.prems(2) e1(4) q1(1) this] obtain e' q where
    "for_each (emit_token env rid) ts e1 = Inr e'" "engine_ok D env X pend e'" "others_kept rid e1 e'"
    "active_request rid e' = Some q" "table_of rid e' = table_of rid e1" "pages e' = pages e1" "mgr e' = mgr e1"
    "state q = DECODING" "output_token_ids q = output_token_ids q1 @ ts" "prompt_token_ids q = prompt_token_ids q1"
    "sampling q = sampling q1" "max_new_tokens q = max_new_tokens q1" "resuming q = resuming q1"
    "req_next_token_id q = req_next_token_id q1" "prompt_token_count q = prompt_token_count q1" by blast
  with e1 q1 others_kept_trans [OF e1(3)] show ?case by (intro exI [of _ e'] exI [of _ q]) simp
qed (intro exI conjI; simp)

lemma commit_speculative_row_ok:
  assumes ok: "engine_ok D env X pend e" and x: "rid \<notin> X" and r: "active_request rid e = Some r" and st: "state r = DECODING"
    and pl: "plain r" and ps: "proposals \<noteq> []" "depth = length proposals"
    and p: "pend rid = last (output_token_ids r) # proposals"
    and preds: "preds = map (\<lambda>i. prediction env (text_of r @ take i proposals)) [0..<Suc depth]"
  obtains e' where "commit_speculative_row env depth ((rid, proposals), preds) e = Inr e'"
    and "engine_ok D env X (pend(rid := [])) e'" and "others_kept rid e e'"
proof -
  let ?bs = "mgr_block_size (mgr e)" and ?X = "insert rid X" and ?f = "prediction env"
  let ?rem = "max_new_tokens r - int (length (output_token_ids r))"
  from active_table [OF ok r] obtain a where a: "table_of rid e = Some a" and i: "request_id r = rid" "req_inv r"
    and nn: "0 \<le> sequence_length a" .
  note h = active_ok [OF ok x r a]
  have ne: "\<not> resuming r" "output_token_ids r \<noteq> []" and seq: "sequence_length a = int (length (text_of r)) - 1"
    and fits: "sequence_length a + int (Suc depth) \<le> capacity_tokens a"
    and cov: "covers (pages e) (nat ?bs) (written a (pend rid) r) (physical_block_ids a)"
    using h(2) st p ps by (auto simp: holding_def)
  have w: "written a (pend rid) r = text_of r @ proposals"
    using decoding_text [OF ne(2) seq] by (simp add: written_def p)
  have body: "prompt_token_ids r \<noteq> []" "validate_sampling (sampling r) = Inr (sampling r)" "continues env r"
    and mx: "int (length (output_token_ids r)) < max_new_tokens r" using h(1) by (simp_all add: body_ok_def)
  note plen = prompt_length [OF i(2) h(1)]
  have all: "?f (text_of r) # forward_preds ?f (text_of r) proposals = take depth preds @ [preds ! depth]"
  proof -
    have "preds = ?f (text_of r) # forward_preds ?f (text_of r) proposals" unfolding preds ps(2) by (rule predictions_after)
    moreover have "length preds = Suc depth" by (simp add: preds)
    ultimately show ?thesis using take_Suc_conv_app_nth [of depth preds] by simp
  qed
  have rem: "0 < ?rem" "nat ?rem = nat (max_new_tokens r) - length (output_token_ids r)" using mx by linarith+
  from commit_round [OF ps(1) rem(1) all, of "eos_ids env" "stop_token_ids (sampling r)" "ignore_eos (sampling r)"] obtain c where
    c: "plan_greedy_commit proposals (take depth preds) (preds ! depth) ?rem (eos_ids env) (stop_token_ids (sampling r)) (ignore_eos (sampling r)) = Inr c"
      "gc_emitted c \<noteq> []" "int (length (gc_emitted c)) \<le> ?rem" "cached_input_count c = length (gc_emitted c)"
      "length (gc_emitted c) \<le> Suc (length proposals)"
    and run: "case terminal_reason c of
        Some reason \<Rightarrow> greedy_from env r (text_of r) (nat ?rem) = (gc_emitted c, reason)
      | None \<Rightarrow> greedy_from env r (text_of r) (nat ?rem) =
          (gc_emitted c @ fst (greedy_from env r (text_of r @ gc_emitted c) (nat ?rem - length (gc_emitted c))),
           snd (greedy_from env r (text_of r @ gc_emitted c) (nat ?rem - length (gc_emitted c)))) \<and>
          int (length (gc_emitted c)) < ?rem"
    by (auto simp: Let_def)
  note shape = commit_shape [OF c(1,2)]
  let ?em = "gc_emitted c" and ?k = "int (length (gc_emitted c))"
  have ref: "reference env r = (output_token_ids r @ fst (greedy_from env r (text_of r) (nat ?rem)), snd (greedy_from env r (text_of r) (nat ?rem)))"
    using body(3) pl by (simp add: continues_def rem(2) Let_def)
  have ok0: "engine_ok D env ?X pend e" by (rule engine_ok_open [OF ok]) blast
  have xx: "rid \<in> ?X" by simp
  have k: "0 < ?k" "sequence_length a + ?k \<le> capacity_tokens a" using c(2,5) fits ps(2) by simp_all
  from append_open [OF ok0 xx a r k] obtain m where
    m: "append_tokens (mgr e) rid ?k = Inr (True, m)" "engine_ok D env ?X pend (put_manager m e)"
      "others_kept rid e (put_manager m e)" "mgr_block_size m = ?bs"
      "table_of rid (put_manager m e) = Some (a\<lparr>sequence_length := sequence_length a + ?k\<rparr>)" by auto
  have r1: "active_request rid (put_manager m e) = Some r" using r by simp
  define q1 where "q1 = r\<lparr>speculative_rounds := speculative_rounds r + 1,
            speculative_proposed_tokens := speculative_proposed_tokens r + int depth,
            speculative_accepted_tokens := speculative_accepted_tokens r + int (accepted_draft_tokens c),
            req_next_token_id := Some (last ?em)\<rparr>"
  have q1: "request_id q1 = rid" "req_inv q1" "state q1 = PREFILLING \<or> state q1 = DECODING"
    using i st by (simp_all add: q1_def req_inv_def prefill_token_count_def cong: if_cong)
  note put = put_request_open [OF m(2) xx r1 q1]
  let ?e1 = "put_request rid q1 (put_manager m e)"
  let ?e2 = "count_round depth c ?e1"
  have e2_core: "sch ?e2 = sch ?e1" "pages ?e2 = pages ?e1" "dummy_slots ?e2 = dummy_slots ?e1"
    "active_request y ?e2 = active_request y ?e1" "table_of y ?e2 = table_of y ?e1" for y
    by (simp_all add: count_round_def active_request_def table_of_def)
  have "rest_ok env ?e2" using engine_okD(9) [OF put(1)] by (simp add: rest_ok_def count_round_def)
  from engine_ok_same_core [OF put(1) e2_core(1-3) this] have ok2: "engine_ok D env ?X pend ?e2" .
  have act2: "active_request rid ?e2 = Some q1" "state q1 = DECODING" "int (length (output_token_ids q1) + length ?em) \<le> max_new_tokens q1"
    using e2_core(4) st c(3) by (simp_all add: q1_def)
  from emit_loop [OF ok2 xx act2] obtain e3 q where
    e3: "for_each (emit_token env rid) ?em ?e2 = Inr e3" "engine_ok D env ?X pend e3" "others_kept rid ?e2 e3"
      "active_request rid e3 = Some q" "table_of rid e3 = table_of rid ?e2" "pages e3 = pages ?e2" "mgr e3 = mgr ?e2"
    and q: "state q = DECODING" "output_token_ids q = output_token_ids q1 @ ?em" "prompt_token_ids q = prompt_token_ids q1"
      "sampling q = sampling q1" "max_new_tokens q = max_new_tokens q1" "resuming q = resuming q1"
      "req_next_token_id q = req_next_token_id q1" "prompt_token_count q = prompt_token_count q1" by blast
  have qr: "output_token_ids q = output_token_ids r @ ?em" "prompt_token_ids q = prompt_token_ids r" "sampling q = sampling r"
    "max_new_tokens q = max_new_tokens r" "\<not> resuming q" "req_next_token_id q = Some (last ?em)" "prompt_token_count q = prompt_token_count r"
    using q ne by (simp_all add: q1_def)
  let ?a = "a\<lparr>sequence_length := sequence_length a + ?k\<rparr>"
  have tab: "table_of rid e3 = Some ?a" using e3(5) e2_core(5) m(5) by simp
  have whole: "text_of q = text_of r @ ?em" by (simp add: text_of_def qr)
  have seq3: "sequence_length ?a = int (length (text_of q)) - 1" using seq whole by simp
  have refq: "reference env q = reference env r" by (rule same_reference [OF qr(3,2,4)])
  have cov3: "covers (pages e3) (nat (mgr_block_size (mgr e3))) (take (nat (sequence_length ?a)) (text_of q)) (physical_block_ids ?a)"
  proof -
    have "nat (sequence_length ?a) = length (text_of r) + (length ?em - 1)" using seq c(2) by (cases ?em) (simp_all add: nat_add_distrib)
    then have "take (nat (sequence_length ?a)) (text_of q) = text_of r @ butlast ?em"
      by (simp add: whole butlast_conv_take)
    also have "\<dots> = take (length (text_of r) + (length ?em - 1)) (text_of r @ proposals)" using shape(1) by simp
    finally have t: "take (nat (sequence_length ?a)) (text_of q) = take (length (text_of r) + (length ?em - 1)) (text_of r @ proposals)" .
    have "pages e3 = pages e" "mgr_block_size (mgr e3) = ?bs" using e3(6,7) e2_core(1,2) m(4) by simp_all
    then show ?thesis unfolding t using covers_take [OF cov [unfolded w], of "length (text_of r) + (length ?em - 1)"] by simp
  qed
  have check: "spec_cache_check rid e3 = Inr e3"
    using e3(4) tab seq3 plen by (simp add: spec_cache_check_def with_request_def whole qr(1,2,7) text_of_def)
  have kept: "others_kept rid e e3"
  proof -
    have "others_kept rid ?e1 ?e2" using e2_core by (simp add: others_kept_def)
    with m(3) put(2) e3(3) show ?thesis by (metis others_kept_trans)
  qed
  have eq: "commit_speculative_row env depth ((rid, proposals), preds) e =
      (case terminal_reason c of Some reason \<Rightarrow> finish_request env rid reason e3 | None \<Rightarrow> finish_if_ended env rid (last ?em) e3)"
    using r r1 c(1,2,4) m(1) e3(1) check
    by (simp add: commit_speculative_row_def with_request_def change_request_def note_round_def q1_def)
  show thesis
  proof (cases "terminal_reason c")
    case (Some reason)
    have fin: "reference env q = (output_token_ids q, reason)" using run Some ref by (simp add: refq qr(1))
    have nxt: "FINISHED \<in> allowed_transitions (state q)" "terminal FINISHED" by (simp_all add: q(1))
    have out: "prefix (output_token_ids q) (fst (reference env q))" if "plain q" unfolding fin by simp
    from end_open [OF e3(2) xx e3(4) out fin nxt, of "clock_at env (ticks e3) rid"] obtain e4 where
      e4: "end_request (leave (clock_at env (ticks e3) rid) FINISHED rid reason (sch e3)) e3 = Inr e4" "engine_ok D env ?X pend e4"
        "active_request rid e4 = None" "others_kept rid e3 e4" by blast
    have "engine_ok D env (?X - {rid}) (pend(rid := [])) e4" by (rule engine_ok_gone [OF e4(2,3)])
    then show thesis using that eq Some e4(1) others_kept_trans [OF kept e4(4)] x by (simp add: finish_request_def finish_def)
  next
    case None
    have lt: "?k < ?rem" using run None by simp
    have none: "end_reason env q (last ?em) = None"
      using shape(2) [OF None last_in_set [OF c(2)]] lt by (auto simp: end_reason_def qr)
    have "nat (max_new_tokens q) - length (output_token_ids q) = nat ?rem - length ?em"
      unfolding rem(2) qr(1,4) by simp
    then have go: "continues env q"
      using run None ref by (simp add: continues_def refq qr(1,3) whole Let_def)
    obtain e4 where e4: "finish_if_ended env rid (last ?em) e3 = Inr e4" "engine_ok D env (?X - {rid}) (pend(rid := [])) e4"
      "others_kept rid e3 e4"
      by (rule finish_if_ended_ok [OF e3(2) xx e3(4) tab q(1) qr(5) _ _ seq3 cov3, of "last ?em"])
        (use qr c(2) body go none in simp_all)
    then show thesis using that eq None others_kept_trans [OF kept e4(3)] x by simp
  qed
qed

end
