(* ===== verification/Engine_Sample.thy ===== *)
theory Engine_Sample
  imports Engine_Invariant
begin

text \<open>
  \<open>_sample\<close> of \<open>engine/batching/continuous_batching.py\<close>: sampling a batch never fails in a
  good engine, gives every plain greedy row the arg-max of its own logits whatever the other
  rows ask for, and changes nothing of the requests but their log-probability notes.
\<close>

section \<open>The sampler on a batch\<close>

lemma sample_plain_row:
  assumes laws: "torch_laws ops" and run: "sample ops st vocab rows params ctxs (Some ids) = Inr (res, st')"
    and i: "i < length rows" and pl: "can_reuse_cached_prediction (params ! i)"
  shows "sr_token_ids res ! i = argmax (rows ! i)"
proof -
  have g: "sp_greedy (params ! i)" "\<not> has_penalties (params ! i)" using pl by (simp_all add: can_reuse_cached_prediction_def)
  have "ctx_safe (length (rows ! i)) params ctxs i" "room_for st params ids i"
    using g by (simp_all add: ctx_safe_def penalty_safe_def room_for_def split: option.split)
  from sample_row [OF laws run i this] g show ?thesis
    by (simp add: row_token_def Let_def filter_row_greedy row_working_def penalized_row_none argmax_Some split: option.split)
qed

lemma draw_seeded_shape:
  "draw_seeded ops params key probs rows toks st = Inr (toks', st') \<Longrightarrow>
     length toks' = length toks \<and> max_generators st' = max_generators st"
proof (induction rows arbitrary: toks st)
  case (Cons row rows)
  show ?case
  proof (cases "seed (params ! row)")
    case None
    with Cons show ?thesis by simp
  next
    case (Some s)
    from draw_seeded_step [OF Cons.prems Some] obtain g st1 where rg: "row_generator ops (key row) s st = Inr (g, st1)"
      and rest: "draw_seeded ops params key probs rows (toks[row := fst (multinomial ops g (probs ! row))])
        (st1\<lparr>seeded := AList.map_entry (key row) (\<lambda>_. snd (multinomial ops g (probs ! row))) (seeded st1)\<rparr>) = Inr (toks', st')" by blast
    have "max_generators st1 = max_generators st" using rg by (auto simp: row_generator_def Let_def split: option.splits if_splits)
    with Cons.IH [OF rest] show ?thesis by simp
  qed
qed simp

lemma sampler_draw_shape:
  assumes "sampler_draw ops rows params ids st = Inr (toks, st')"
  shows "length toks = length params" and "max_generators st' = max_generators st"
  using assms by (auto simp: sampler_draw_def Let_def split: if_splits prod.splits dest!: draw_seeded_shape)

lemma sample_total:
  assumes len: "length params = length rows" "length ids = length rows" "case ctxs of None \<Rightarrow> True | Some cs \<Rightarrow> length cs = length rows"
    and gens: "0 \<le> max_generators st" and lp: "\<forall>p \<in> set params. wanted_logprobs p \<le> vocab"
  obtains res st' where "sample ops st vocab rows params ctxs (Some ids) = Inr (res, st')"
    and "length (sr_token_ids res) = length rows" and "max_generators st' = max_generators st"
    and "\<forall>(i, entries) \<in> set (sr_logprobs res). i < length rows"
proof (cases "list_all (\<lambda>p. sp_greedy p \<and> \<not> has_penalties p) params \<and> \<not> list_ex (\<lambda>p. sp_logprobs p \<noteq> None) params")
  case True
  have c: "\<not> (case ctxs of None \<Rightarrow> False | Some cs \<Rightarrow> length cs \<noteq> length rows)" using len(3) by (auto split: option.splits)
  have "sample ops st vocab rows params ctxs (Some ids) = Inr (\<lparr>sr_token_ids = map argmax rows, sr_logprobs = []\<rparr>, st)"
    unfolding sample_def if_not_P [OF c] using True len(1,2) by simp
  with that show thesis by simp
next
  case False
  have c: "\<not> (case ctxs of None \<Rightarrow> False | Some cs \<Rightarrow> length cs \<noteq> length rows)" using len(3) by (auto split: option.splits)
  define wants where "wants = list_ex (\<lambda>p. sp_logprobs p \<noteq> None) params"
  define w where "w = sample_working ops rows params ctxs"
  from draw_total [OF disjI2 [OF gens]] obtain toks st' where
    d: "sampler_draw ops (sampler_filter ops vocab w params) params (Some ids) st = Inr (toks, st')" by fastforce
  note sh = sampler_draw_shape [OF d]
  let ?want = "filter (\<lambda>i. sp_logprobs (params ! i) \<noteq> None) [0..<length params]"
  have "fold max (map (\<lambda>i. wanted_logprobs (params ! i)) ?want) 0 \<le> vocab"
    using fold_max_in_nat [of "map (\<lambda>i. wanted_logprobs (params ! i)) ?want" 0] lp by auto
  then obtain lps where l: "sampler_logprobs ops vocab (if wants then Some w else None) params toks = Inr lps"
    and k: "\<forall>(i, entries) \<in> set lps. i < length rows"
    using len(1) by (cases wants; cases "?want = []") (auto simp: sampler_logprobs_def Let_def)
  have "sample ops st vocab rows params ctxs (Some ids) = Inr (\<lparr>sr_token_ids = toks, sr_logprobs = lps\<rparr>, st')"
    unfolding sample_def if_not_P [OF c] Let_def if_not_P [OF False]
    using len(1,2) d [unfolded w_def] l [unfolded w_def wants_def] by simp
  with that k sh len(1) show thesis by simp
qed

section \<open>Notes on the requests\<close>

text \<open>Only notes of active requests differ.\<close>

definition noted :: "'g engine \<Rightarrow> 'g engine \<Rightarrow> bool" where
  "noted e e' \<longleftrightarrow> mgr e' = mgr e \<and> pages e' = pages e \<and>
     (\<forall>x. active_request x e = None \<longrightarrow> active_request x e' = None) \<and>
     (\<forall>x r. active_request x e = Some r \<longrightarrow> (\<exists>q. active_request x e' = Some q \<and> same_request r q))"

lemma noted_refl [simp]: "noted e e"
  by (simp add: noted_def)

lemma noted_trans [trans]: "noted e e1 \<Longrightarrow> noted e1 e2 \<Longrightarrow> noted e e2"
proof -
  assume a: "noted e e1" "noted e1 e2"
  have "\<exists>q. active_request x e2 = Some q \<and> same_request r q" if "active_request x e = Some r" for x r
  proof -
    from a(1) that obtain q1 where q1: "active_request x e1 = Some q1" "same_request r q1" unfolding noted_def by blast
    with a(2) obtain q2 where "active_request x e2 = Some q2" "same_request q1 q2" unfolding noted_def by blast
    with q1(2) show ?thesis using same_request_trans by blast
  qed
  with a show "noted e e2" by (simp add: noted_def)
qed

lemma noted_table: "noted e e' \<Longrightarrow> table_of x e' = table_of x e"
  by (simp add: noted_def table_of_def)

lemma put_same:
  assumes ok: "engine_ok D env {} pend e" and r: "active_request rid e = Some r" and q: "same_request r q"
  shows "engine_ok D env {} pend (put_request rid q e)" and "noted e (put_request rid q e)"
proof -
  from active_table [OF ok r] obtain a where a: "table_of rid e = Some a" and i: "request_id r = rid" "req_inv r"
    "state r = PREFILLING \<or> state r = DECODING" .
  note s = same_requestD [OF q]
  have id: "request_id q = rid" "req_inv q" "state q = PREFILLING \<or> state q = DECODING" using i s(3-5) by simp_all
  have ok': "engine_ok D env {rid} pend e" by (rule engine_ok_open [OF ok]) simp
  note put = put_request_open [OF ok' singletonI r id]
  have "engine_ok D env ({rid} - {rid}) (pend(rid := pend rid)) (put_request rid q e)"
  proof (rule engine_ok_close [OF put(1)])
    fix r' a' assume "active_request rid (put_request rid q e) = Some r'" "table_of rid (put_request rid q e) = Some a'"
    then have eq: "r' = q" "a' = a" using a by simp_all
    show "body_ok env r' \<and> holding env (pages (put_request rid q e)) (mgr_block_size (mgr (put_request rid q e))) a' (pend rid) r'"
      using active_ok [OF ok _ r a] by (simp add: s(1,2) eq)
  qed
  then show "engine_ok D env {} pend (put_request rid q e)" by simp
  show "noted e (put_request rid q e)" using r q by (simp add: noted_def)
qed

lemma add_logprobs_loop:
  assumes "engine_ok D env {} pend e" and "\<forall>(i, entries) \<in> set lps. active_request (ids ! i) e \<noteq> None"
  shows "\<exists>e'. for_each (\<lambda>(i, entries). change_request (ids ! i) (add_logprobs entries)) lps e = Inr e' \<and>
    engine_ok D env {} pend e' \<and> noted e e'"
  using assms
proof (induction lps arbitrary: e)
  case (Cons l lps)
  obtain i entries where l: "l = (i, entries)" by (cases l)
  with Cons.prems(2) obtain r where r: "active_request (ids ! i) e = Some r" by auto
  let ?q = "r\<lparr>output_logprobs := output_logprobs r @ [entries]\<rparr>"
  have same: "same_request r ?q" unfolding same_request_def by (intro exI [of _ "speculative_fallbacks r"] exI) simp
  note put = put_same [OF Cons.prems(1) r same]
  have "\<forall>(i, entries) \<in> set lps. active_request (ids ! i) (put_request (ids ! i) ?q e) \<noteq> None" by auto
  moreover have "\<forall>(j, entries) \<in> set lps. active_request (ids ! j) (put_request (ids ! i) ?q e) \<noteq> None"
    using Cons.prems(2) by auto
  ultimately obtain e' where "for_each (\<lambda>(i, entries). change_request (ids ! i) (add_logprobs entries)) lps (put_request (ids ! i) ?q e) = Inr e'"
    "engine_ok D env {} pend e'" "noted (put_request (ids ! i) ?q e) e'" using Cons.IH [OF put(1)] by blast
  moreover have "noted e e'" using put(2) \<open>noted (put_request (ids ! i) ?q e) e'\<close> by (rule noted_trans)
  moreover have "change_request (ids ! i) (add_logprobs entries) e = Inr (put_request (ids ! i) ?q e)"
    using r by (simp add: change_request_def with_request_def add_logprobs_def)
  ultimately show ?case using l by (intro exI [of _ e']) simp
qed simp

lemma traverse_total: "(\<And>x. x \<in> set xs \<Longrightarrow> f x = Inr (g x)) \<Longrightarrow> traverse f xs = Inr (map g xs)"
  by (induction xs) simp_all

lemma sample_rows_ok:
  assumes ok: "engine_ok D env {} pend e" and laws: "setup_laws env"
    and act: "\<forall>rid \<in> set ids. active_request rid e \<noteq> None" and len: "length rows = length ids"
  obtains toks e' where "sample_rows env ids rows e = Inr (toks, e')" and "length toks = length ids"
    and "engine_ok D env {} pend e'" and "noted e e'"
    and "\<forall>i r. i < length ids \<longrightarrow> active_request (ids ! i) e = Some r \<longrightarrow> plain r \<longrightarrow> toks ! i = int (argmax (rows ! i))"
proof -
  define rs where "rs = map (\<lambda>rid. the (active_request rid e)) ids"
  have trav: "traverse (\<lambda>rid. with_request rid e Inr) ids = Inr rs"
    unfolding rs_def by (rule traverse_total) (use act in \<open>auto simp: with_request_def\<close>)
  have valid: "validate_sampling p = Inr p" if "p \<in> set (map sampling rs)" for p
  proof -
    from that obtain rid where rid: "rid \<in> set ids" "p = sampling (the (active_request rid e))" by (auto simp: rs_def)
    with act obtain r where r: "active_request rid e = Some r" by blast
    from active_table [OF ok r] obtain a where "table_of rid e = Some a" .
    from active_ok(1) [OF ok _ r this] rid(2) r show ?thesis by (simp add: body_ok_def)
  qed
  have lp: "\<forall>p \<in> set (map sampling rs). wanted_logprobs p \<le> vocab_size env"
  proof
    fix p assume "p \<in> set (map sampling rs)"
    then have "validate_sampling p = Inr p" by (rule valid)
    then have "wanted_logprobs p \<le> 20"
      by (auto simp: validate_sampling_def wanted_logprobs_def split: if_splits option.splits)
    then show "wanted_logprobs p \<le> vocab_size env" using laws by (simp add: setup_laws_def)
  qed
  have gens: "0 \<le> max_generators (smp e)" using engine_okD(9) [OF ok] by (simp add: rest_ok_def)
  have lens: "length (map sampling rs) = length rows" "length ids = length rows"
    "case penalty_contexts rs of None \<Rightarrow> True | Some cs \<Rightarrow> length cs = length rows"
    using len by (simp_all add: rs_def penalty_contexts_def)
  from sample_total [OF lens gens lp] obtain res st where
    s: "sample (torch env) (smp e) (vocab_size env) rows (map sampling rs) (penalty_contexts rs) (Some ids) = Inr (res, st)"
      "length (sr_token_ids res) = length rows" "max_generators st = max_generators (smp e)"
      "\<forall>(i, entries) \<in> set (sr_logprobs res). i < length rows" .
  let ?e1 = "e\<lparr>smp := st\<rparr>"
  have "rest_ok env ?e1" using engine_okD(9) [OF ok] s(3) by (simp add: rest_ok_def)
  then have ok1: "engine_ok D env {} pend ?e1" by (rule engine_ok_same_core [OF ok, rotated -1]) simp_all
  have a1: "active_request x ?e1 = active_request x e" for x by (simp add: active_request_def)
  have "\<forall>(i, entries) \<in> set (sr_logprobs res). active_request (ids ! i) ?e1 \<noteq> None"
    unfolding a1 using s(4) act len by auto
  from add_logprobs_loop [OF ok1 this] obtain e' where
    l: "for_each (\<lambda>(i, entries). change_request (ids ! i) (add_logprobs entries)) (sr_logprobs res) ?e1 = Inr e'"
      "engine_ok D env {} pend e'" "noted ?e1 e'" by blast
  have "noted e ?e1" by (simp add: noted_def a1)
  then have n: "noted e e'" using l(3) by (rule noted_trans)
  have run: "sample_rows env ids rows e = Inr (map int (sr_token_ids res), e')"
    using trav s(1) l(1) by (simp add: sample_rows_def)
  show thesis
  proof (rule that [OF run _ l(2) n])
    show "\<forall>i r. i < length ids \<longrightarrow> active_request (ids ! i) e = Some r \<longrightarrow> plain r \<longrightarrow>
      map int (sr_token_ids res) ! i = int (argmax (rows ! i))"
    proof (intro allI impI)
      fix i r assume i: "i < length ids" and r: "active_request (ids ! i) e = Some r" and pl: "plain r"
      have "can_reuse_cached_prediction (map sampling rs ! i)" using i r pl by (simp add: rs_def)
      moreover have "torch_laws (torch env)" using laws by (simp add: setup_laws_def)
      ultimately have "sr_token_ids res ! i = argmax (rows ! i)" using sample_plain_row [OF _ s(1)] i len by simp
      then show "map int (sr_token_ids res) ! i = int (argmax (rows ! i))" using i len s(2) by simp
    qed
  qed (use s(2) len in simp)
qed

end
