(* ===== verification/Engine_Acquire.thy ===== *)
theory Engine_Acquire
  imports Engine_Invariant
begin

text \<open>
  Getting KV memory for the rows of a batch in \<open>engine/batching/continuous_batching.py\<close>:
  what \<open>_acquire_capacity\<close> does beside what it is asked for, and that the loops over the
  rows keep the engine's invariant and leave every row they return ready to run.
\<close>

section \<open>Side effects of getting memory\<close>

text \<open>A request after its preemption: the same request, waiting, to be resumed from its outputs.\<close>

definition parked :: "request \<Rightarrow> request \<Rightarrow> bool" where
  "parked r q \<longleftrightarrow> sampling q = sampling r \<and> prompt_token_ids q = prompt_token_ids r \<and> output_token_ids q = output_token_ids r \<and>
     max_new_tokens q = max_new_tokens r \<and> (resuming q \<longleftrightarrow> output_token_ids q \<noteq> []) \<and> cached_next_token_id q = None \<and>
     prefilled_token_count q = 0"

text \<open>
  The cache only loses entries, active requests only leave, those that left wait, and only
  the requester's table grows, to at most \<open>n\<close> blocks.
\<close>

definition side :: "string \<Rightarrow> int \<Rightarrow> sched \<Rightarrow> sched \<Rightarrow> bool" where
  "side rid n s s' \<longleftrightarrow> dropped s' = dropped s \<and> mgr_block_size (manager s') = mgr_block_size (manager s) \<and>
     (\<forall>pc. cache s = Some pc \<longrightarrow> (\<exists>pc'. cache s' = Some pc' \<and> shrinks pc pc')) \<and>
     (\<forall>x q. map_of (active s') x = Some q \<longrightarrow> map_of (active s) x = Some q) \<and> length (active s') \<le> length (active s) \<and>
     (\<forall>q \<in> set (waiting s'). q \<in> set (waiting s) \<or> (\<exists>x r. map_of (active s) x = Some r \<and> parked r q)) \<and>
     (\<forall>x. x \<noteq> rid \<longrightarrow> requests (manager s') x = requests (manager s) x \<or> map_of (active s) x \<noteq> None \<and> map_of (active s') x = None) \<and>
     (\<forall>a'. requests (manager s') rid = Some a' \<longrightarrow> (\<exists>a. requests (manager s) rid = Some a \<and>
        int (length (physical_block_ids a')) \<le> max (int (length (physical_block_ids a))) n))"

lemma side_refl [simp]: "side rid n s s"
  by (auto simp: side_def)

lemma side_trans [trans]:
  assumes 1: "side rid n s s1" and 2: "side rid n s1 s2"
  shows "side rid n s s2"
  unfolding side_def
proof (intro conjI allI impI ballI)
  fix pc assume "cache s = Some pc"
  with 1 obtain pc1 where "cache s1 = Some pc1" "shrinks pc pc1" unfolding side_def by blast
  moreover from 2 this(1) obtain pc2 where "cache s2 = Some pc2" "shrinks pc1 pc2" unfolding side_def by blast
  ultimately show "\<exists>pc'. cache s2 = Some pc' \<and> shrinks pc pc'" using shrinks_trans by blast
next
  fix q assume "q \<in> set (waiting s2)"
  with 2 consider "q \<in> set (waiting s1)" | x r where "map_of (active s1) x = Some r" "parked r q" unfolding side_def by blast
  then show "q \<in> set (waiting s) \<or> (\<exists>x r. map_of (active s) x = Some r \<and> parked r q)"
    using 1 unfolding side_def by cases blast+
next
  fix x assume x: "x \<noteq> rid"
  have a1: "requests (manager s1) x = requests (manager s) x \<or> map_of (active s) x \<noteq> None \<and> map_of (active s1) x = None"
    and a2: "requests (manager s2) x = requests (manager s1) x \<or> map_of (active s1) x \<noteq> None \<and> map_of (active s2) x = None"
    using 1 2 x unfolding side_def by blast+
  have m: "map_of (active s1) x = None \<Longrightarrow> map_of (active s2) x = None" "map_of (active s) x = None \<Longrightarrow> map_of (active s1) x = None"
    using 1 2 unfolding side_def by (metis option.exhaust)+
  show "requests (manager s2) x = requests (manager s) x \<or> map_of (active s) x \<noteq> None \<and> map_of (active s2) x = None"
    using a1 a2 m by metis
next
  fix a' assume "requests (manager s2) rid = Some a'"
  with 2 obtain a1 where a1: "requests (manager s1) rid = Some a1"
    "int (length (physical_block_ids a')) \<le> max (int (length (physical_block_ids a1))) n" unfolding side_def by blast
  with 1 obtain a where "requests (manager s) rid = Some a"
    "int (length (physical_block_ids a1)) \<le> max (int (length (physical_block_ids a))) n" unfolding side_def by blast
  with a1(2) show "\<exists>a. requests (manager s) rid = Some a \<and> int (length (physical_block_ids a')) \<le> max (int (length (physical_block_ids a))) n"
    by auto
next
  show "map_of (active s) x = Some q" if "map_of (active s2) x = Some q" for x q
    using 1 2 that unfolding side_def by blast
qed (use 1 2 in \<open>simp_all add: side_def\<close>)

text \<open>The pool operations on the requester.\<close>

lemma side_pool:
  assumes "manager s' = m'" and "cache s' = cache s" and "active s' = active s" and "waiting s' = waiting s" and "dropped s' = dropped s"
    and "mgr_block_size m' = mgr_block_size (manager s)"
    and "\<And>x. x \<noteq> rid \<Longrightarrow> requests m' x = requests (manager s) x"
    and "\<And>a'. requests m' rid = Some a' \<Longrightarrow> \<exists>a. requests (manager s) rid = Some a \<and>
        int (length (physical_block_ids a')) \<le> max (int (length (physical_block_ids a))) n"
  shows "side rid n s s'"
  using assms by (auto simp: side_def)

lemma side_evict:
  assumes ok: "world_ok D (s, kv)" and run: "evict_pages k s = Inr s'" and k: "0 \<le> k"
  shows "side rid n s s'"
proof -
  from world_okD(4) [OF ok] obtain pc where pc: "cache s = Some pc" "cache_good kv pc (manager s)" by blast
  then have "mgr_inv (manager s)" "cache_inv pc (manager s)" by (simp_all add: cache_good_def)
  from evict_while_run [OF this, of "\<lambda>pc m. free_block_count (allocator m) < k" True] obtain pc' m' where
    e: "evict_while (\<lambda>pc m. free_block_count (allocator m) < k) True pc (manager s) = Inr (pc', m')" "shrinks pc pc'"
      "requests m' = requests (manager s)" "mgr_block_size m' = mgr_block_size (manager s)" by blast
  have "s' = s\<lparr>manager := m', cache := Some pc'\<rparr>"
    using run pc(1) e(1) k by (simp add: evict_pages_def evict_until_free_def)
  with e pc(1) show ?thesis by (auto simp: side_def)
qed

lemma side_cow:
  assumes inv: "mgr_inv (manager s)" and run: "copy_on_write_tail (manager s) rid = Inr (c, m')"
  shows "side rid n s (s\<lparr>manager := m'\<rparr>)"
proof (cases c)
  case None
  then have "m' = manager s"
    using run by (auto simp: copy_on_write_tail_def block_replace_shared_def Let_def split: option.splits if_splits)
  then show ?thesis by simp
next
  case (Some p)
  then obtain old new where run': "copy_on_write_tail (manager s) rid = Inr (Some (old, new), m')" using run by (cases p) simp
  from copy_on_write_run [OF inv run'] obtain a al where a: "requests (manager s) rid = Some a"
    "m' = (manager s)\<lparr>allocator := al, requests := (requests (manager s))(rid \<mapsto>
       a\<lparr>physical_block_ids := (physical_block_ids a)[length (physical_block_ids a) - 1 := new]\<rparr>)\<rparr>" by blast
  then show ?thesis by (intro side_pool [where m' = m']) auto
qed

lemma side_tail:
  assumes ok: "world_ok D (s, kv)" and run: "ensure_writable_tail rid (s, kv) = Inr (b, s', kv')"
  shows "side rid n s s'"
proof -
  from run consider "s' = s" | s1 where "(if free_block_count (allocator (manager s)) = 0 then evict_pages 1 s else Inr s) = Inr s1"
      "s' = s1 \<or> (\<exists>c m'. copy_on_write_tail (manager s1) rid = Inr (c, m') \<and> s' = s1\<lparr>manager := m'\<rparr>)"
    by (auto simp: ensure_writable_tail_def Let_def split: option.splits if_splits)
  then show ?thesis
  proof cases
    case 2
    have s1: "world_ok D (s1, kv)" "side rid n s s1"
      using 2(1) evict_pages_ok [OF ok, of 1] side_evict [OF ok, of 1 s1] ok by (auto split: if_splits)
    from 2(2) have "side rid n s1 s'" using side_cow [OF world_okD(3) [OF s1(1)]] by auto
    with s1(2) show ?thesis by (rule side_trans)
  qed simp
qed

lemma side_grow:
  assumes inv: "mgr_inv (manager s)" and run: "ensure_capacity (manager s) rid target = Inr (b, m')"
  shows "side rid (ceil_div target (mgr_block_size (manager s))) s (s\<lparr>manager := m'\<rparr>)"
  using inv run
proof (cases rule: ensure_capacity_run)
  case (1 a)
  show ?thesis
  proof (cases "m' = manager s")
    case False
    with 1(3,4) obtain ids al where x: "block_extend (allocator (manager s)) (Req rid)
        (ceil_div target (mgr_block_size (manager s)) - int (length (physical_block_ids a))) = Inr (Some ids, al)"
      and m': "m' = (manager s)\<lparr>allocator := al, requests := (requests (manager s))(rid \<mapsto> a\<lparr>physical_block_ids := physical_block_ids a @ ids\<rparr>)\<rparr>"
      by (cases b) auto
    from pool.grow_some [OF mgr_invD(1) [OF inv] x]
    have "int (length ids) = ceil_div target (mgr_block_size (manager s)) - int (length (physical_block_ids a))" by blast
    with 1(1) show ?thesis by (intro side_pool [where m' = m']) (auto simp: m')
  qed simp
qed

lemma side_capacity:
  assumes ok: "world_ok D w" and run: "ensure_kv_capacity rid target w = Inr (b, w')"
  shows "side rid (ceil_div target (mgr_block_size (manager (fst w)))) (fst w) (fst w')"
proof -
  obtain s kv where w: "w = (s, kv)" by (cases w)
  obtain s' kv' where w': "w' = (s', kv')" by (cases w')
  let ?n = "ceil_div target (mgr_block_size (manager s))"
  have ok: "world_ok D (s, kv)" using ok w by simp
  show ?thesis
  proof (cases "requests (manager s) rid")
    case None
    with run show ?thesis by (simp add: ensure_kv_capacity_def w w')
  next
    case (Some a)
    with run obtain b1 s1 kv1 where t: "(if target > sequence_length a then ensure_writable_tail rid (s, kv) else Inr (True, s, kv)) = Inr (b1, s1, kv1)"
      by (cases "if target > sequence_length a then ensure_writable_tail rid (s, kv) else Inr (True, s, kv)") (auto simp: ensure_kv_capacity_def w)
    have s1: "world_ok D (s1, kv1)" "side rid ?n s s1"
      using t tail_ok [OF ok Some] side_tail [OF ok, of rid b1 s1 kv1 ?n] ok by (auto split: if_splits)
    have bs: "mgr_block_size (manager s1) = mgr_block_size (manager s)" using s1(2) by (simp add: side_def)
    show ?thesis
    proof (cases b1)
      case False
      with run Some t s1(2) show ?thesis by (simp add: ensure_kv_capacity_def w w' split: if_splits)
    next
      case True
      let ?x = "max 0 (ceil_div target (mgr_block_size (manager s1)) - int (length (physical_block_ids a)))"
      from run Some t True obtain s2 m' where e: "(if ?x > free_block_count (allocator (manager s1)) then evict_pages ?x s1 else Inr s1) = Inr s2"
        and g: "ensure_capacity (manager s2) rid target = Inr (b, m')" and s': "s' = s2\<lparr>manager := m'\<rparr>"
        by (auto simp: ensure_kv_capacity_def Let_def w w' simp del: max.commute)
      have s2: "world_ok D (s2, kv1)" "side rid ?n s1 s2"
        using e evict_pages_ok [OF s1(1), of ?x] side_evict [OF s1(1), of ?x s2 rid ?n] s1(1) by (auto split: if_splits)
      have "mgr_block_size (manager s2) = mgr_block_size (manager s)" using s2(2) bs by (simp add: side_def)
      with side_grow [OF world_okD(3) [OF s2(1)] g] have "side rid ?n s2 s'" by (simp add: s')
      with side_trans [OF s1(2) side_trans [OF s2(2)]] show ?thesis by (simp add: w w')
    qed
  qed
qed

section \<open>Preemption and the whole of \<open>_acquire_capacity\<close>\<close>

lemma preempt_parks:
  assumes run: "preempt now vid reason s = Inr (q, s')" and r: "map_of (active s) vid = Some r"
  shows "parked r q" and "dropped s' = dropped s"
proof -
  from run r obtain s1 s2 r1 where pop: "pop_active vid s = Inr (r, s1)" and rel: "release_pages vid s1 = Inr s2"
    and t: "req_transition now WAITING (Some reason) r = Inr r1"
    and q: "q = r1\<lparr>allocation := None, prefilled_token_count := 0, cached_prefix_tokens := 0,
        cached_next_token_id := None, resuming := (output_token_ids r1 \<noteq> []), recomputing := True,
        preempted_count := preempted_count r1 + 1, preempted_at_epoch := progress_epoch s2, preempted_ns := Some now, resume_started_ns := None\<rparr>"
    and s': "s' = s2\<lparr>waiting := requeue_in_arrival_order q (waiting s2), preemption_count := preemption_count s2 + 1\<rparr>"
    by (auto simp: preempt_def req_preempt_def pop_active_def split: if_splits)
  show "parked r q" using transition_shape(1) [OF t] by (simp add: q parked_def same_shape_def)
  show "dropped s' = dropped s" using pop rel s' by (auto simp: pop_active_def release_pages_def split: option.splits)
qed

lemma side_preempt:
  assumes ok: "world_ok D (s, kv)" and run: "preempt now vid reason s = Inr (q, s')" and r: "map_of (active s) vid = Some r"
  shows "side rid n s s'"
proof -
  from preempt_ok [OF world_okD(1) [OF ok] r, of now reason] run have p: "active s' = AList.delete vid (active s)"
    "waiting s' = requeue_in_arrival_order q (waiting s)" "requests (manager s') = (requests (manager s))(vid := None)"
    "cache s' = cache s" "mgr_block_size (manager s') = mgr_block_size (manager s)" by auto
  note q = preempt_parks [OF run r]
  show ?thesis
    unfolding side_def p
    using q r by (auto simp: p requeue_set delete_conv' length_delete_le)
qed

lemma side_acquire:
  assumes "world_ok D w" and "map_of (active (fst w)) rid = Some r"
    and "\<And>a. requests (manager (fst w)) rid = Some a \<Longrightarrow> sequence_length a \<le> target"
    and "acquire_capacity clk rid target w = Inr (b, w')"
  shows "side rid (ceil_div target (mgr_block_size (manager (fst w)))) (fst w) (fst w')"
  using assms
proof (induction clk rid target w arbitrary: b w' rule: acquire_capacity.induct)
  case (1 clk rid target w)
  note ok = 1(2) and r = 1(3) and le = 1(4) and run = 1(5) [unfolded acquire_capacity.simps [of clk rid target w]]
  let ?n = "ceil_div target (mgr_block_size (manager (fst w)))"
  have inv: "sched_inv (snd w) (fst w)" using ok by (simp add: world_ok_def)
  obtain a where a: "requests (manager (fst w)) rid = Some a" using sched_invD(6) [OF inv r] by blast
  from kv_capacity_ok [OF ok a le [OF a]] obtain c w1 where e: "ensure_kv_capacity rid target w = Inr (c, w1)"
    "world_ok D w1" "pool_changed (fst w) (fst w1)" "mem_step w w1" by blast
  note s1 = side_capacity [OF ok e(1)]
  have act: "active (fst w1) = active (fst w)" by (rule pool_changedD(2) [OF e(3)])
  show ?case
  proof (cases "c \<or> newest_active (fst w1) = None")
    case True
    with run e(1) s1 show ?thesis by (auto split: if_splits option.splits)
  next
    case False
    then obtain v where c: "\<not> c" and v: "newest_active (fst w1) = Some v" by auto
    show ?thesis
    proof (cases "request_id v = rid \<and> length (active (fst w1)) \<le> 1")
      case True
      with run e(1) s1 c v show ?thesis by simp
    next
      case more: False
      with run e(1) c v obtain q s2 where p: "preempt (clk (request_id v)) (request_id v) ''PREEMPTED'' (fst w1) = Inr (q, s2)"
        and rest: "(if request_id v = rid then Inr (False, s2, snd w1) else acquire_capacity clk rid target (s2, snd w1)) = Inr (b, w')"
        by auto
      from preempt_active [OF p] obtain vr where vr: "map_of (active (fst w1)) (request_id v) = Some vr" by blast
      have ok1: "world_ok D (fst w1, snd w1)" using e(2) by simp
      from preempt_world [OF ok1 vr, of "clk (request_id v)" "''PREEMPTED''"] p
      have w2: "world_ok D (s2, snd w1)" "mem_step w1 (s2, snd w1)" "active s2 = AList.delete (request_id v) (active (fst w1))" by auto
      have s2: "side rid ?n (fst w) s2" using side_trans [OF s1 side_preempt [OF ok1 p vr]] .
      show ?thesis
      proof (cases "request_id v = rid")
        case True
        with rest s2 show ?thesis by auto
      next
        case other: False
        with rest have run2: "acquire_capacity clk rid target (s2, snd w1) = Inr (b, w')" by simp
        have r2: "map_of (active s2) rid = Some r" using r act w2(3) other by (simp add: delete_conv')
        have "keeps_tables (manager (fst w)) (snd w) (manager s2) (snd w1)"
          using mem_step_trans [OF e(4) w2(2)] by (simp add: mem_step_def)
        from keeps_tablesD [OF this _ a] le [OF a]
        have le2: "sequence_length a2 \<le> target" if "requests (manager s2) rid = Some a2" for a2
          using that by (fastforce simp: table_kept_def)
        have bs: "mgr_block_size (manager s2) = mgr_block_size (manager (fst w))" using s2 by (simp add: side_def)
        have "side rid (ceil_div target (mgr_block_size (manager (fst (s2, snd w1))))) (fst (s2, snd w1)) (fst w')"
          by (rule 1(1) [OF e(1) refl c v more p refl other w2(1) _ _ run2]) (use r2 le2 in auto)
        then have "side rid ?n s2 (fst w')" using bs by simp
        with s2 show ?thesis by (rule side_trans)
      qed
    qed
  qed
qed

section \<open>On the engine\<close>

text \<open>
  Requests may only leave: one that stays is unchanged, its table holds the same number of
  tokens, has no less room, and blocks past its end that were its own still are.
\<close>

definition yields :: "'g engine \<Rightarrow> 'g engine \<Rightarrow> bool" where
  "yields e e' \<longleftrightarrow> (\<forall>x q. active_request x e' = Some q \<longrightarrow> active_request x e = Some q \<and>
     (\<forall>a'. table_of x e' = Some a' \<longrightarrow> (\<exists>a. table_of x e = Some a \<and>
        sequence_length a' = sequence_length a \<and> capacity_tokens a \<le> capacity_tokens a')) \<and>
     (owns_rest (mgr e) x \<longrightarrow> owns_rest (mgr e') x))"

lemma yieldsD:
  assumes "yields e e'" and "active_request x e' = Some q"
  shows "active_request x e = Some q" and "owns_rest (mgr e) x \<Longrightarrow> owns_rest (mgr e') x"
    and "table_of x e' = Some a' \<Longrightarrow> table_of x e = Some a \<Longrightarrow>
      sequence_length a' = sequence_length a \<and> capacity_tokens a \<le> capacity_tokens a'"
    and "table_of x e' = Some a' \<Longrightarrow> \<exists>a. table_of x e = Some a \<and> sequence_length a' = sequence_length a"
  using assms unfolding yields_def by (blast, blast, fastforce, blast)

lemma yields_refl [simp]: "yields e e"
  by (simp add: yields_def)

lemma yields_trans [trans]:
  assumes 1: "yields e e1" and 2: "yields e1 e2"
  shows "yields e e2"
  unfolding yields_def
proof (intro allI impI conjI)
  fix x q assume q: "active_request x e2 = Some q"
  from 2 q have q1: "active_request x e1 = Some q" by (simp add: yields_def)
  with 1 show "active_request x e = Some q" by (simp add: yields_def)
  show "owns_rest (mgr e2) x" if "owns_rest (mgr e) x" using 1 2 q q1 that by (simp add: yields_def)
  fix a2 assume "table_of x e2 = Some a2"
  with 2 q obtain a1 where a1: "table_of x e1 = Some a1" "sequence_length a2 = sequence_length a1"
    "capacity_tokens a1 \<le> capacity_tokens a2" unfolding yields_def by blast
  with 1 q1 obtain a where "table_of x e = Some a" "sequence_length a1 = sequence_length a"
    "capacity_tokens a \<le> capacity_tokens a1" unfolding yields_def by blast
  with a1 show "\<exists>a. table_of x e = Some a \<and> sequence_length a2 = sequence_length a \<and> capacity_tokens a \<le> capacity_tokens a2"
    by auto
qed

lemma others_yield:
  assumes o: "others_kept rid e e'" and "active_request rid e' = None"
  shows "yields e e'"
  unfolding yields_def
proof (intro allI impI)
  fix x q assume "active_request x e' = Some q"
  with assms have "x \<noteq> rid" by auto
  with o \<open>active_request x e' = Some q\<close> show "active_request x e = Some q \<and>
     (\<forall>a'. table_of x e' = Some a' \<longrightarrow> (\<exists>a. table_of x e = Some a \<and>
        sequence_length a' = sequence_length a \<and> capacity_tokens a \<le> capacity_tokens a')) \<and>
     (owns_rest (mgr e) x \<longrightarrow> owns_rest (mgr e') x)" by (simp add: others_kept_def)
qed

lemma predictions_shrink: "predictions_ok env pc \<Longrightarrow> shrinks pc pc' \<Longrightarrow> predictions_ok env pc'"
  unfolding predictions_ok_def shrinks_def by metis

lemma parked_ok:
  assumes "parked r q" and "body_ok env r"
  shows "waiting_ok env q"
  using assms by (auto simp: waiting_ok_def parked_def body_ok_def continues_def reference_def text_of_def)

text \<open>The engine after \<open>_acquire_capacity\<close>.\<close>

lemma acquired_engine:
  assumes ok: "engine_ok D env {} pend e" and r: "active_request rid e = Some r" and a: "table_of rid e = Some a"
    and le: "sequence_length a \<le> target" and few: "state r = PREFILLING \<Longrightarrow> target \<le> prefill_token_count r"
    and w: "world_ok D (s, kv)" and m: "mem_step (sch e, pages e) (s, kv)"
    and side: "side rid (ceil_div target (mgr_block_size (mgr e))) (sch e) s"
    and e': "sch e' = s" "pages e' = kv" "dummy_slots e' = dummy_slots e" "ended e' = ended e" "smp e' = smp e"
  shows "engine_ok D env {} pend e'" and "yields e e'"
proof -
  note d = engine_okD [OF ok]
  have keep: "keeps_tables (mgr e) (pages e) (manager s) kv" and shape: "shared_shape (manager s)"
    using m d(6) by (simp_all add: mem_step_def)
  have act: "active_request x e = Some q" if "active_request x e' = Some q" for x q
    using side that by (simp add: side_def active_request_def e')
  have bs: "mgr_block_size (manager s) = mgr_block_size (mgr e)" using side by (simp add: side_def)
  have pos: "0 < mgr_block_size (mgr e)" by (rule d(10))
  have tab: "\<exists>a. table_of x e = Some a \<and> table_kept (mgr e) (pages e) a (manager s) kv a' x" if "table_of x e' = Some a'" for x a'
    using keep that unfolding keeps_tables_def table_of_def e' by blast
  have w': "world_ok D (sch e', pages e')" using w by (simp add: e')
  have cap: "capacity_tokens a' = int (length (physical_block_ids a')) * mgr_block_size (mgr e)" if "table_of x e' = Some a'" for x a'
    using mgr_inv_request(2) [OF world_okD(3) [OF w]] that bs by (simp add: table_of_def e' capacity_tokens_def)
  have cap0: "capacity_tokens a' = int (length (physical_block_ids a')) * mgr_block_size (mgr e)" if "table_of x e = Some a'" for x a'
    using mgr_inv_request(2) [OF d(4)] that by (simp add: table_of_def capacity_tokens_def)
  have "requests_ok env {} pend e'"
    unfolding requests_ok_def
  proof (intro allI impI)
    fix x q a' assume q: "active_request x e' = Some q" and a': "table_of x e' = Some a'"
    from tab [OF a'] obtain a0 where a0: "table_of x e = Some a0" and k: "table_kept (mgr e) (pages e) a0 (manager s) kv a' x" by blast
    note h = active_ok [OF ok _ act [OF q] a0, simplified]
    from active_table [OF ok act [OF q]] a0 have nn: "0 \<le> sequence_length a0" by (metis option.inject)
    have k': "sequence_length a' = sequence_length a0" "length (physical_block_ids a0) \<le> length (physical_block_ids a')"
      "\<And>i. i < length (physical_block_ids a0) \<Longrightarrow> kv (physical_block_ids a' ! i) = pages e (physical_block_ids a0 ! i)"
      using k by (simp_all add: table_kept_def)
    have len: "int (length (physical_block_ids a')) \<le>
        max (int (length (physical_block_ids a0))) (ceil_div (prefill_token_count q) (mgr_block_size (mgr e)))"
      if st: "state q = PREFILLING"
    proof (cases "x = rid")
      case True
      with q act r have "q = r" by fastforce
      with few st have "ceil_div target (mgr_block_size (mgr e)) \<le> ceil_div (prefill_token_count q) (mgr_block_size (mgr e))"
        using ceil_div_le_iff [OF pos] ceil_div_covers [OF pos, of "prefill_token_count q"] by fastforce
      moreover from side a' a0 True have "int (length (physical_block_ids a')) \<le>
          max (int (length (physical_block_ids a0))) (ceil_div target (mgr_block_size (mgr e)))"
        unfolding side_def table_of_def e' by fastforce
      ultimately show ?thesis by linarith
    next
      case False
      with side q have "requests (manager s) x = requests (mgr e) x"
        unfolding side_def active_request_def e' by (metis option.distinct(1))
      with a' a0 have "a' = a0" by (simp add: table_of_def e')
      then show ?thesis by simp
    qed
    have "holding env kv (mgr_block_size (mgr e)) a' (pend x) q"
      by (rule holding_cong [OF h(2) k'(1) nn pos cap0 [OF a0] cap [OF a'] k'(2) len k'(3)])
    with h(1) show "body_ok env q \<and> holding env (pages e') (mgr_block_size (mgr e')) a' (pend x) q" by (simp add: e' bs)
  qed
  moreover have "slots_ok D env e'"
  proof (cases "dummy_slots e = []")
    case True
    with d(8) e'(3) show ?thesis by (simp add: slots_ok_def)
  next
    case False
    then have nd: "dummy_rows_id \<in> D" using d(8) by (auto simp: slots_ok_def)
    then have "map_of (active (sch e)) dummy_rows_id = None"
      using active_not_reserved [OF ok, of dummy_rows_id] by (cases "map_of (active (sch e)) dummy_rows_id") (auto simp: active_request_def)
    moreover have "dummy_rows_id \<noteq> rid" using nd active_not_reserved [OF ok r] by blast
    ultimately have "table_of dummy_rows_id e' = table_of dummy_rows_id e"
      using side unfolding side_def table_of_def e' by metis
    then show ?thesis using slots_kept [OF d(8) _ e'(3), of "pages e" kv] keep by (simp add: e')
  qed
  moreover have "rest_ok env e'"
  proof -
    have "waiting_ok env q" if q: "q \<in> set (waiting s)" for q
    proof -
      from side q consider "q \<in> set (waiting (sch e))" | x r0 where "map_of (active (sch e)) x = Some r0" "parked r0 q"
        unfolding side_def by blast
      then show ?thesis
      proof cases
        case 1
        with d(9) show ?thesis by (simp add: rest_ok_def)
      next
        case 2
        then have act2: "active_request x e = Some r0" by (simp add: active_request_def)
        from active_table [OF ok act2] obtain a2 where "table_of x e = Some a2" .
        from active_ok(1) [OF ok _ act2 this] 2(2) show ?thesis by (simp add: parked_ok)
      qed
    qed
    moreover have "predictions_ok env pc'" if "cache s = Some pc'" for pc'
    proof -
      from d(5) obtain pc where pc: "cache (sch e) = Some pc" by blast
      with side that have "shrinks pc pc'" unfolding side_def by (metis option.inject)
      with pc d(9) predictions_shrink show ?thesis by (auto simp: rest_ok_def)
    qed
    moreover have "dropped s = dropped (sch e)" "length (active s) \<le> length (active (sch e))" using side by (simp_all add: side_def)
    ultimately show ?thesis using d(9) by (simp add: rest_ok_def e')
  qed
  ultimately show "engine_ok D env {} pend e'" using w' shape by (simp add: engine_ok_def e')
  show "yields e e'"
    unfolding yields_def
  proof (intro allI impI conjI)
    fix x q assume q: "active_request x e' = Some q"
    show "active_request x e = Some q" by (rule act [OF q])
    show "owns_rest (mgr e') x" if "owns_rest (mgr e) x" using kept_owns_rest [OF keep that] by (simp add: e')
    fix a' assume a': "table_of x e' = Some a'"
    from tab [OF a'] obtain a0 where a0: "table_of x e = Some a0" and k: "table_kept (mgr e) (pages e) a0 (manager s) kv a' x" by blast
    have "capacity_tokens a0 \<le> capacity_tokens a'"
      unfolding cap0 [OF a0] cap [OF a'] using k pos by (simp add: table_kept_def mult_right_mono)
    with a0 k show "\<exists>a. table_of x e = Some a \<and> sequence_length a' = sequence_length a \<and> capacity_tokens a \<le> capacity_tokens a'"
      by (auto simp: table_kept_def)
  qed
qed

lemma yields_tick [simp]: "yields e (tick e') = yields e e'" "yields (tick e) e' = yields e e'"
  by (simp_all add: yields_def)

lemma capacity_or_fail_ok:
  assumes ok: "engine_ok D env {} pend e" and r: "active_request rid e = Some r" and a: "table_of rid e = Some a"
    and lt: "sequence_length a < target" and few: "state r = PREFILLING \<Longrightarrow> target \<le> prefill_token_count r"
  obtains got e' where "capacity_or_fail env rid target e = Inr (got, e')" and "engine_ok D env {} pend e'" and "yields e e'"
    and "got \<Longrightarrow> active_request rid e' = Some r \<and> owns_rest (mgr e') rid \<and>
      (\<exists>a'. table_of rid e' = Some a' \<and> target \<le> capacity_tokens a')"
proof -
  note d = engine_okD [OF ok]
  let ?w = "(sch e, pages e)"
  have r': "map_of (active (fst ?w)) rid = Some r" using r by (simp add: active_request_def)
  have a': "requests (mgr e) rid = Some a" using a by (simp add: table_of_def)
  have le: "sequence_length b \<le> target" if "requests (manager (fst ?w)) rid = Some b" for b using that a' lt by simp
  from acquire_ok [OF d(1) r' le, of "clock_at env (ticks e)"] obtain b s kv where
    q: "acquire_capacity (clock_at env (ticks e)) rid target ?w = Inr (b, s, kv)" "world_ok D (s, kv)" "mem_step ?w (s, kv)"
      "acquired rid target r ?w b (s, kv)" by auto
  have side: "side rid (ceil_div target (mgr_block_size (mgr e))) (sch e) s"
    using side_acquire [OF d(1) r' le q(1)] by simp
  define e1 where "e1 = tick (e\<lparr>sch := s, pages := kv\<rparr>)"
  have e1: "sch e1 = s" "pages e1 = kv" "dummy_slots e1 = dummy_slots e" "ended e1 = ended e" "smp e1 = smp e"
    by (simp_all add: e1_def tick_def)
  have le': "sequence_length a \<le> target" using lt by simp
  have done1: "engine_ok D env {} pend e1" "yields e e1"
    using acquired_engine [OF ok r a le' _ q(2,3) side e1] few by blast+
  have run: "capacity_or_fail env rid target e = (if b then Inr (True, e1)
      else if active_request rid e1 = None then Inr (False, e1)
      else and_then (fail_request env rid ''KV_POOL_EXHAUSTED'' e1) (\<lambda>e2. Inr (False, e2)))"
    using q(1) by (simp add: capacity_or_fail_def e1_def Let_def)
  show thesis
  proof (cases b)
    case True
    have "owns_rest (manager s) rid" "\<exists>a'. requests (manager s) rid = Some a' \<and> target \<le> capacity_tokens a'"
      "map_of (active s) rid = Some r"
      using q(4) True d(6) a' lt by (auto simp: acquired_def writable_to_def)
    with that [of True e1] run True done1 show thesis by (simp add: active_request_def table_of_def e1)
  next
    case False
    show thesis
    proof (cases "active_request rid e1")
      case None
      with that [of False e1] run False done1 show thesis by simp
    next
      case (Some q)
      then have "q = r" using done1(2) r by (fastforce simp: yields_def)
      with Some have r1: "active_request rid e1 = Some r" by simp
      from active_table [OF ok r] have st: "state r = PREFILLING \<or> state r = DECODING" by blast
      have pl: "prefix (output_token_ids r) (fst (reference env r))" if "plain r"
        using active_ok(1) [OF ok _ r a] that by (simp add: body_ok_def continues_prefix)
      have ok1: "engine_ok D env {rid} pend e1" by (rule engine_ok_open [OF done1(1)]) blast
      have nxt: "FAILED \<in> allowed_transitions (state r)" "terminal FAILED" using st by auto
      have fin: "FAILED = FINISHED \<Longrightarrow> plain r \<Longrightarrow> reference env r = (output_token_ids r, ''KV_POOL_EXHAUSTED'')" by simp
      from end_open [OF ok1 singletonI r1 pl fin nxt] obtain e2 where e2:
        "end_request (leave (clock_at env (ticks e1) rid) FAILED rid ''KV_POOL_EXHAUSTED'' (sch e1)) e1 = Inr e2"
        "engine_ok D env {rid} pend e2" "active_request rid e2 = None" "others_kept rid e1 e2" .
      have "engine_ok D env ({rid} - {rid}) (pend(rid := pend rid)) e2" by (rule engine_ok_gone [OF e2(2,3)])
      moreover have "yields e e2" by (rule yields_trans [OF done1(2) others_yield [OF e2(4,3)]])
      ultimately show thesis
        using that [of False e2] run False Some e2(1) by (simp add: fail_request_def fail_def)
    qed
  qed
qed

section \<open>Rows\<close>

text \<open>A row whose request is in the wanted state and has the room and the blocks it will write.\<close>

definition fits :: "request_state \<Rightarrow> (request \<Rightarrow> kv_allocation \<Rightarrow> 'x \<Rightarrow> int) \<Rightarrow> 'g engine \<Rightarrow> string \<times> 'x \<Rightarrow> bool" where
  "fits st target e row \<longleftrightarrow> (case row of (rid, x) \<Rightarrow> \<exists>r a. active_request rid e = Some r \<and> table_of rid e = Some a \<and>
     state r = st \<and> target r a x \<le> capacity_tokens a \<and> owns_rest (mgr e) rid)"

text \<open>A target that asks for more than the table holds, and not for more than the prefill needs.\<close>

definition sensible :: "request_state \<Rightarrow> (request \<Rightarrow> kv_allocation \<Rightarrow> 'x \<Rightarrow> int) \<Rightarrow> 'g engine \<Rightarrow> string \<times> 'x \<Rightarrow> bool" where
  "sensible st target e row \<longleftrightarrow> (case row of (rid, x) \<Rightarrow> \<forall>r a. active_request rid e = Some r \<longrightarrow> state r = st \<longrightarrow>
     (\<exists>a0. table_of rid e = Some a0 \<and> sequence_length a0 = sequence_length a) \<longrightarrow>
     sequence_length a < target r a x \<and> (st = PREFILLING \<longrightarrow> target r a x \<le> prefill_token_count r) \<and>
     (\<forall>a'. sequence_length a' = sequence_length a \<longrightarrow> target r a' x = target r a x))"

lemma sensibleD:
  assumes "sensible st target e (rid, x)" and "active_request rid e = Some r" and "state r = st"
    and "table_of rid e = Some a0" and "sequence_length a = sequence_length a0"
  shows "sequence_length a < target r a x" and "st = PREFILLING \<longrightarrow> target r a x \<le> prefill_token_count r"
    and "sequence_length a' = sequence_length a \<Longrightarrow> target r a' x = target r a x"
proof -
  have "\<exists>a0. table_of rid e = Some a0 \<and> sequence_length a0 = sequence_length a" using assms(4,5) by simp
  with assms(1) [unfolded sensible_def prod.case, THEN spec, THEN spec, THEN mp, THEN mp, OF assms(2,3)]
  have all: "sequence_length a < target r a x \<and> (st = PREFILLING \<longrightarrow> target r a x \<le> prefill_token_count r) \<and>
     (\<forall>a'. sequence_length a' = sequence_length a \<longrightarrow> target r a' x = target r a x)" by (rule mp)
  then show "sequence_length a < target r a x" and "st = PREFILLING \<longrightarrow> target r a x \<le> prefill_token_count r"
    by (rule conjunct1, rule conjunct1 [OF conjunct2])
  show "target r a' x = target r a x" if "sequence_length a' = sequence_length a" using all that by blast
qed

lemma sensible_yields:
  assumes s: "sensible st target e row" and y: "yields e e'"
  shows "sensible st target e' row"
proof -
  obtain rid x where row: "row = (rid, x)" by (cases row)
  have "sequence_length a < target r a x \<and> (st = PREFILLING \<longrightarrow> target r a x \<le> prefill_token_count r) \<and>
     (\<forall>a'. sequence_length a' = sequence_length a \<longrightarrow> target r a' x = target r a x)"
    if r: "active_request rid e' = Some r" "state r = st" and a0: "table_of rid e' = Some a0" "sequence_length a0 = sequence_length a"
    for r a a0
  proof -
    from yieldsD(4) [OF y r(1) a0(1)] obtain a1 where a1: "table_of rid e = Some a1" "sequence_length a = sequence_length a1"
      using a0(2) by auto
    note d = sensibleD [OF s [unfolded row] yieldsD(1) [OF y r(1)] r(2) a1]
    show ?thesis using d(1,2) d(3) by blast
  qed
  then show ?thesis unfolding row sensible_def by blast
qed

lemma fits_yields:
  assumes f: "fits st target e (rid, x)" and s: "sensible st target e (rid, x)" and y: "yields e e'"
    and ok: "engine_ok D env X pend e'" and act: "active_request rid e' \<noteq> None"
  shows "fits st target e' (rid, x)"
proof -
  from act obtain q where q: "active_request rid e' = Some q" by blast
  from active_table [OF ok q] obtain a' where a': "table_of rid e' = Some a'" .
  from f obtain r a where r: "active_request rid e = Some r" "table_of rid e = Some a" "state r = st"
    "target r a x \<le> capacity_tokens a" "owns_rest (mgr e) rid" by (auto simp: fits_def)
  have eq: "q = r" using yieldsD(1) [OF y q] r(1) by simp
  note k = yieldsD(3) [OF y q a' r(2)] yieldsD(2) [OF y q r(5)]
  have "target r a' x = target r a x" using sensibleD(3) [OF s r(1,3,2) refl] k(1) by blast
  then have "target r a' x \<le> capacity_tokens a'" using r(4) k(1) by linarith
  with q a' r(3) k(2) eq show ?thesis unfolding fits_def by blast
qed

lemma acquire_rows_ok:
  assumes "engine_ok D env {} pend e" and "\<forall>row \<in> set rows. sensible st target e row"
  shows "\<exists>got e'. acquire_rows env st target rows e = Inr (got, e') \<and> engine_ok D env {} pend e' \<and> yields e e' \<and>
    subseq got rows \<and> (\<forall>(rid, x) \<in> set got. active_request rid e' \<noteq> None \<longrightarrow> fits st target e' (rid, x))"
  using assms
proof (induction rows arbitrary: e)
  case (Cons row rows)
  obtain rid x where row: "row = (rid, x)" by (cases row)
  note ok = Cons.prems(1)
  have skip: "\<exists>got e'. acquire_rows env st target rows e = Inr (got, e') \<and> engine_ok D env {} pend e' \<and> yields e e' \<and>
      subseq got (row # rows) \<and> (\<forall>(rid, x) \<in> set got. active_request rid e' \<noteq> None \<longrightarrow> fits st target e' (rid, x))"
    using Cons.IH [OF ok] Cons.prems(2) by (meson list.set_intros(2) list_emb_Cons)
  show ?case
  proof (cases "active_request rid e")
    case None
    with skip row show ?thesis by simp
  next
    case (Some r)
    from active_table [OF ok Some] obtain a where a: "table_of rid e = Some a" .
    show ?thesis
    proof (cases "state r = st")
      case False
      with skip row Some a show ?thesis by simp
    next
      case True
      have sens: "sensible st target e (rid, x)" using Cons.prems(2) row by simp
      then have t: "sequence_length a < target r a x" "st = PREFILLING \<longrightarrow> target r a x \<le> prefill_token_count r"
        using sensibleD(1,2) [OF sens Some True a refl] by blast+
      from capacity_or_fail_ok [OF ok Some a t(1)] t(2) True obtain got e1 where c:
        "capacity_or_fail env rid (target r a x) e = Inr (got, e1)" "engine_ok D env {} pend e1" "yields e e1"
        "got \<Longrightarrow> active_request rid e1 = Some r \<and> owns_rest (mgr e1) rid \<and>
          (\<exists>a'. table_of rid e1 = Some a' \<and> target r a x \<le> capacity_tokens a')" by blast
      have sens1: "sensible st target e1 z" if "z \<in> set (row # rows)" for z
        using sensible_yields [OF _ c(3)] Cons.prems(2) that by blast
      from Cons.IH [OF c(2)] sens1 obtain more e2 where m: "acquire_rows env st target rows e1 = Inr (more, e2)"
        "engine_ok D env {} pend e2" "yields e1 e2" "subseq more rows"
        "\<forall>(rid, x) \<in> set more. active_request rid e2 \<noteq> None \<longrightarrow> fits st target e2 (rid, x)" by (meson list.set_intros(2))
      have y: "yields e e2" using c(3) m(3) by (rule yields_trans)
      have run: "acquire_rows env st target (row # rows) e = Inr (if got then row # more else more, e2)"
        using row Some a True c(1) m(1) by simp
      have "fits st target e1 (rid, x)" if got
      proof -
        from c(4) that obtain a' where a': "active_request rid e1 = Some r" "owns_rest (mgr e1) rid" "table_of rid e1 = Some a'"
          "target r a x \<le> capacity_tokens a'" by blast
        have "sequence_length a' = sequence_length a" using yieldsD(3) [OF c(3) a'(1,3) a] by blast
        then have "target r a' x = target r a x" using sensibleD(3) [OF sens Some True a refl] by blast
        with a' True show ?thesis unfolding fits_def by auto
      qed
      then have "active_request rid e2 \<noteq> None \<longrightarrow> fits st target e2 (rid, x)" if got
        using fits_yields [of st target e1 rid x, OF _ _ m(3,2)] sens1 [of "(rid, x)"] row that by simp
      with run m y row show ?thesis by (intro exI [of _ "if got then row # more else more"] exI [of _ e2]) auto
    qed
  qed
qed simp

lemma viable_rows_ok:
  assumes ok: "engine_ok D env {} pend e" and s: "\<forall>row \<in> set rows. sensible st target e row"
  obtains got e' where "viable_rows env st target rows e = Inr (got, e')" and "engine_ok D env {} pend e'" and "yields e e'"
    and "subseq got rows" and "\<forall>row \<in> set got. fits st target e' row"
proof -
  from acquire_rows_ok [OF ok s] obtain got e' where g: "acquire_rows env st target rows e = Inr (got, e')"
    "engine_ok D env {} pend e'" "yields e e'" "subseq got rows"
    "\<forall>(rid, x) \<in> set got. active_request rid e' \<noteq> None \<longrightarrow> fits st target e' (rid, x)" by blast
  let ?live = "filter (\<lambda>(rid, x). live st rid e') got"
  have "subseq ?live rows" using subseq_filter_left g(4) subseq_order.order_trans by blast
  moreover have "\<forall>row \<in> set ?live. fits st target e' row"
    using g(5) live_iff [OF g(2)] by auto
  moreover have "viable_rows env st target rows e = Inr (?live, e')" using g(1) by (simp add: viable_rows_def)
  ultimately show thesis using that g(2,3) by blast
qed

end
