(* ===== verification/Engine_Rows.thy ===== *)
theory Engine_Rows
  imports Engine_Commit Engine_Sample Engine_Acquire
begin

text \<open>
  The batched paths of an iteration of \<open>engine/batching/continuous_batching.py\<close>, each from
  the memory its rows have to the last commit: decode, chunked and whole-prompt prefill, the
  fused forward and a group of speculative rows. None of them can fail, and each keeps the
  engine's invariant.
\<close>

section \<open>Committing row after row\<close>

text \<open>Requests outside \<open>K\<close> are as they were.\<close>

definition kept_outside :: "string set \<Rightarrow> 'g engine \<Rightarrow> 'g engine \<Rightarrow> bool" where
  "kept_outside K e e' \<longleftrightarrow> (\<forall>x. x \<notin> K \<longrightarrow>
     active_request x e' = active_request x e \<and> table_of x e' = table_of x e \<and>
     (owns_rest (mgr e) x \<longrightarrow> owns_rest (mgr e') x))"

lemma kept_outside_refl [simp]: "kept_outside K e e"
  by (simp add: kept_outside_def)

lemma commit_loop:
  assumes "engine_ok D env {} pend e" and "distinct (map key rows)"
    and "\<forall>row \<in> set rows. Q row e \<and> pend (key row) = p row"
    and keep: "\<And>row rid e e'. Q row e \<Longrightarrow> others_kept rid e e' \<Longrightarrow> key row \<noteq> rid \<Longrightarrow> Q row e'"
    and one: "\<And>row e pend. engine_ok D env {} pend e \<Longrightarrow> Q row e \<Longrightarrow> pend (key row) = p row \<Longrightarrow>
      \<exists>e'. f row e = Inr e' \<and> engine_ok D env {} (pend(key row := [])) e' \<and> others_kept (key row) e e'"
  shows "\<exists>e'. for_each f rows e = Inr e' \<and>
    engine_ok D env {} (\<lambda>x. if x \<in> key ` set rows then [] else pend x) e' \<and> kept_outside (key ` set rows) e e'"
  using assms(1-3)
proof (induction rows arbitrary: e pend)
  case (Cons row rows)
  from one [OF Cons.prems(1), of row] Cons.prems(3) obtain e1 where e1: "f row e = Inr e1"
    "engine_ok D env {} (pend(key row := [])) e1" "others_kept (key row) e e1" by auto
  have "\<forall>r \<in> set rows. Q r e1 \<and> (pend(key row := [])) (key r) = p r"
  proof
    fix r assume r: "r \<in> set rows"
    then have "key r \<noteq> key row" using Cons.prems(2) by (metis distinct.simps(2) image_eqI image_set list.simps(9))
    with keep [OF _ e1(3)] Cons.prems(3) r show "Q r e1 \<and> (pend(key row := [])) (key r) = p r" by simp
  qed
  with Cons.IH [OF e1(2)] Cons.prems(2) obtain e2 where e2: "for_each f rows e1 = Inr e2"
    "engine_ok D env {} (\<lambda>x. if x \<in> key ` set rows then [] else (pend(key row := [])) x) e2"
    "kept_outside (key ` set rows) e1 e2" by auto
  have "(\<lambda>x. if x \<in> key ` set rows then [] else (pend(key row := [])) x) =
      (\<lambda>x. if x \<in> key ` set (row # rows) then [] else pend x)" by auto
  with e2(2) have "engine_ok D env {} (\<lambda>x. if x \<in> key ` set (row # rows) then [] else pend x) e2" by simp
  moreover have "kept_outside (key ` set (row # rows)) e e2"
    using e1(3) e2(3) by (auto simp: kept_outside_def others_kept_def)
  ultimately show ?case using e1(1) e2(1) by simp
qed simp

text \<open>The common case: what a commit asks for is about the request and what is pending for it.\<close>

lemma commit_requests:
  assumes ok: "engine_ok D env {} pend e" and dist: "distinct (map key rows)"
    and all: "\<forall>row \<in> set rows. \<exists>r. active_request (key row) e = Some r \<and> A row r (pend (key row))"
    and one: "\<And>row e pend r. engine_ok D env {} pend e \<Longrightarrow> active_request (key row) e = Some r \<Longrightarrow> A row r (pend (key row)) \<Longrightarrow>
      \<exists>e'. f row e = Inr e' \<and> engine_ok D env {} (pend(key row := [])) e' \<and> others_kept (key row) e e'"
  shows "\<exists>e'. for_each f rows e = Inr e' \<and>
    engine_ok D env {} (\<lambda>x. if x \<in> key ` set rows then [] else pend x) e' \<and> kept_outside (key ` set rows) e e'"
proof (rule commit_loop [where Q = "\<lambda>row e. \<exists>r. active_request (key row) e = Some r \<and> A row r (pend (key row))"
      and p = "\<lambda>row. pend (key row)", OF ok dist])
  show "\<exists>r. active_request (key row) e2 = Some r \<and> A row r (pend (key row))"
    if "\<exists>r. active_request (key row) e1 = Some r \<and> A row r (pend (key row))" "others_kept rid e1 e2" "key row \<noteq> rid" for row rid e1 e2
    using that by (simp add: others_kept_def)
  show "\<exists>e'. f row e1 = Inr e' \<and> engine_ok D env {} (pend1(key row := [])) e' \<and> others_kept (key row) e1 e'"
    if "engine_ok D env {} pend1 e1" "\<exists>r. active_request (key row) e1 = Some r \<and> A row r (pend (key row))"
      "pend1 (key row) = pend (key row)" for row e1 pend1
    using one [OF that(1)] that(2,3) by auto
qed (use all in blast)

lemma zip_rows:
  assumes "length ys = length xs"
  shows "(\<And>i. i < length xs \<Longrightarrow> P (xs ! i, ys ! i)) \<Longrightarrow> \<forall>row \<in> set (zip xs ys). P row" and "fst ` set (zip xs ys) = set xs"
proof -
  have "map fst (zip xs ys) = xs" using assms by simp
  then show "fst ` set (zip xs ys) = set xs" by (metis image_set)
  show "\<forall>row \<in> set (zip xs ys). P row" if "\<And>i. i < length xs \<Longrightarrow> P (xs ! i, ys ! i)" using that assms by (auto simp: set_zip)
qed

section \<open>Distinct rows of active requests\<close>

lemma rows_at_most_active:
  assumes ok: "engine_ok D env X pend e" and d: "distinct ids" and act: "\<forall>rid \<in> set ids. active_request rid e \<noteq> None"
  shows "int (length ids) \<le> max_active env"
proof -
  have "set ids \<subseteq> set (map fst (active (sch e)))"
    using act active_id_iff [of "active (sch e)"] by (auto simp: active_request_def)
  then have "length ids \<le> length (map fst (active (sch e)))"
    using d by (metis card_mono card_length distinct_card finite_set le_trans)
  with engine_okD(9) [OF ok] show ?thesis by (simp add: rest_ok_def)
qed

lemma subseq_rows:
  assumes "subseq xs ys"
  shows "set xs \<subseteq> set ys" and "distinct ys \<Longrightarrow> distinct xs"
proof -
  have "set xs \<subseteq> set ys \<and> (distinct ys \<longrightarrow> distinct xs)"
    using assms by (induction rule: list_emb.induct) auto
  then show "set xs \<subseteq> set ys" and "distinct ys \<Longrightarrow> distinct xs" by blast+
qed

lemma fitsD:
  assumes "fits st target e (rid, x)"
  obtains r a where "active_request rid e = Some r" and "table_of rid e = Some a" and "state r = st"
    and "target r a x \<le> capacity_tokens a" and "owns_rest (mgr e) rid"
  using assms by (auto simp: fits_def)

text \<open>Only bookkeeping fields of the engine differ.\<close>

lemma engine_ok_bookkeeping:
  assumes "engine_ok D env X pend e" and "sch e' = sch e" and "pages e' = pages e" and "dummy_slots e' = dummy_slots e"
    and "ended e' = ended e" and "smp e' = smp e"
  shows "engine_ok D env X pend e'"
  by (rule engine_ok_same_core [OF assms(1-4)]) (use engine_okD(9) [OF assms(1)] assms in \<open>simp add: rest_ok_def\<close>)

lemma same_engine:
  assumes "sch e' = sch e"
  shows "active_request x e' = active_request x e" and "table_of x e' = table_of x e" and "live st x e' = live st x e"
  using assms by (simp_all add: active_request_def table_of_def live_def cong: option.case_cong)

section \<open>Forward and sample\<close>

text \<open>
  One batch from its staged rows to the sampled tokens: padded rows are cut out of the
  logits, and a plain greedy row gets the model's prediction for its own text.
\<close>

lemma forward_sample_ok:
  assumes ok: "engine_ok D env {} (\<lambda>_. []) e" and laws: "setup_laws env" and can: "\<forall>x \<in> set (xs @ ys). runnable e x"
    and dist: "distinct (map fst (xs @ ys))" and slots: "set slots \<subseteq> set (dummy_slots e)"
  obtains logits e1 toks e2
  where "forward_rows env (map (stage e) xs @ map (dummy_row (pad_token env)) slots @ map (stage e) ys) e = (logits, e1)"
    and "sample_rows env (map fst (xs @ ys)) (take (length xs) logits @ drop (length xs + length slots) logits) e1 = Inr (toks, e2)"
    and "length toks = length (xs @ ys)" and "engine_ok D env {} (pending (xs @ ys)) e2" and "noted e1 e2" and "sch e1 = sch e"
    and "\<forall>x r. active_request x e = Some r \<longrightarrow> (\<exists>q. active_request x e2 = Some q \<and> same_request r q)"
    and "\<forall>i r. i < length (xs @ ys) \<longrightarrow> active_request (fst ((xs @ ys) ! i)) e = Some r \<longrightarrow> plain r \<longrightarrow>
      toks ! i = prediction env (row_text e ((xs @ ys) ! i))"
    and "\<forall>x. table_of x e2 = table_of x e" and "mgr e2 = mgr e"
proof -
  let ?rows = "map (stage e) xs @ map (dummy_row (pad_token env)) slots @ map (stage e) ys"
  define kv where "kv = write_rows (mgr_block_size (mgr e)) ?rows (pages e)"
  define logits where "logits = map (last_logits (model_logits env) (mgr_block_size (mgr e)) kv) ?rows"
  define e1 where "e1 = e\<lparr>pages := kv\<rparr>"
  have fwd: "forward_rows env ?rows e = (logits, e1)" by (simp add: forward_rows_def Let_def kv_def logits_def e1_def)
  have sch1: "sch e1 = sch e" by (simp add: e1_def)
  note f = forward_ok [OF ok can dist slots kv_def]
  let ?live = "take (length xs) logits @ drop (length xs + length slots) logits"
  have live: "?live = map (\<lambda>x. model_logits env (row_text e x)) (xs @ ys)"
    using f(2) [of _ "model_logits env"] by (simp add: logits_def)
  have act1: "\<forall>rid \<in> set (map fst (xs @ ys)). active_request rid e1 \<noteq> None"
  proof
    fix rid assume "rid \<in> set (map fst (xs @ ys))"
    then obtain x where "x \<in> set (xs @ ys)" "rid = fst x" by auto
    with can have "active_request rid e \<noteq> None" by (cases x) (fastforce simp: runnable_def)
    then show "active_request rid e1 \<noteq> None" by (simp add: active_request_def sch1)
  qed
  have ok1: "engine_ok D env {} (pending (xs @ ys)) e1" using f(1) by (simp add: e1_def)
  have len1: "length ?live = length (map fst (xs @ ys))" unfolding live by simp
  from sample_rows_ok [OF ok1 laws act1 len1] obtain toks e2 where s: "sample_rows env (map fst (xs @ ys)) ?live e1 = Inr (toks, e2)"
    "length toks = length (map fst (xs @ ys))" "engine_ok D env {} (pending (xs @ ys)) e2" "noted e1 e2"
    "\<forall>i r. i < length (map fst (xs @ ys)) \<longrightarrow> active_request (map fst (xs @ ys) ! i) e1 = Some r \<longrightarrow> plain r \<longrightarrow>
       toks ! i = int (argmax (?live ! i))" .
  have act: "active_request x e1 = active_request x e" for x by (simp add: active_request_def sch1)
  show thesis
  proof (rule that [OF fwd s(1) _ s(3,4) sch1])
    show "length toks = length (xs @ ys)" using s(2) by simp
    show "\<forall>x r. active_request x e = Some r \<longrightarrow> (\<exists>q. active_request x e2 = Some q \<and> same_request r q)"
      using s(4) act unfolding noted_def by metis
    show "\<forall>i r. i < length (xs @ ys) \<longrightarrow> active_request (fst ((xs @ ys) ! i)) e = Some r \<longrightarrow> plain r \<longrightarrow>
      toks ! i = prediction env (row_text e ((xs @ ys) ! i))"
    proof (intro allI impI)
      fix i r assume i: "i < length (xs @ ys)" and r: "active_request (fst ((xs @ ys) ! i)) e = Some r" "plain r"
      have "active_request (map fst (xs @ ys) ! i) e1 = Some r" using i r(1) by (simp only: act nth_map)
      with s(5) i r(2) have "toks ! i = int (argmax (?live ! i))" by simp
      then show "toks ! i = prediction env (row_text e ((xs @ ys) ! i))" unfolding live prediction_def using i by (simp only: nth_map)
    qed
    show m: "mgr e2 = mgr e" using s(4) sch1 by (simp add: noted_def)
    show "\<forall>x. table_of x e2 = table_of x e" by (simp add: table_of_def m)
  qed
qed

lemma forward_sample_rows:
  assumes ok: "engine_ok D env {} (\<lambda>_. []) e" and laws: "setup_laws env" and can: "\<forall>x \<in> set ys. runnable e x"
    and dist: "distinct (map fst ys)"
  obtains logits e1 toks e2 where "forward_rows env (map (stage e) ys) e = (logits, e1)"
    and "sample_rows env (map fst ys) logits e1 = Inr (toks, e2)" and "length toks = length ys" and "engine_ok D env {} (pending ys) e2"
    and "\<forall>x r. active_request x e = Some r \<longrightarrow> (\<exists>q. active_request x e2 = Some q \<and> same_request r q)"
    and "\<forall>i r. i < length ys \<longrightarrow> active_request (fst (ys ! i)) e = Some r \<longrightarrow> plain r \<longrightarrow>
      toks ! i = prediction env (row_text e (ys ! i))"
    and "\<forall>x. table_of x e2 = table_of x e" and "mgr e2 = mgr e"
proof -
  have can': "\<forall>x \<in> set ([] @ ys). runnable e x" and dist': "distinct (map fst ([] @ ys))" and "set [] \<subseteq> set (dummy_slots e)"
    using can dist by simp_all
  note f = forward_sample_ok [OF ok laws this]
  show thesis by (rule f [simplified]) (rule that, (assumption | simp)+)
qed

lemma pending_row: "distinct (map fst rows) \<Longrightarrow> (rid, toks) \<in> set rows \<Longrightarrow> pending rows rid = toks"
  by (simp add: pending_def)

lemma pending_none: "rid \<notin> fst ` set rows \<Longrightarrow> pending rows rid = []"
  by (simp add: pending_def map_of_eq_None_iff [THEN iffD2])

lemma nothing_pending: "fst ` set rows \<subseteq> K \<Longrightarrow> (\<lambda>x. if x \<in> K then [] else pending rows x) = (\<lambda>_. [])"
  by (auto simp: fun_eq_iff intro: pending_none)

section \<open>Decode\<close>

text \<open>The row of a decoding request: its last token.\<close>

definition decode_input :: "'g engine \<Rightarrow> string \<Rightarrow> string \<times> int list" where
  "decode_input e rid = (rid, [last (output_token_ids (the (active_request rid e)))])"

abbreviation decode_target :: "request \<Rightarrow> kv_allocation \<Rightarrow> unit \<Rightarrow> int" where
  "decode_target \<equiv> \<lambda>r a n. sequence_length a + 1"

lemma decode_fits:
  assumes ok: "engine_ok D env {} pend e" and f: "fits DECODING decode_target e (rid, ())"
  obtains r a where "active_request rid e = Some r" and "table_of rid e = Some a" and "state r = DECODING"
    and "output_token_ids r \<noteq> []" and "req_next_token_id r = Some (last (output_token_ids r))"
    and "sequence_length a = int (length (text_of r)) - 1" and "sequence_length a + 1 \<le> capacity_tokens a" and "owns_rest (mgr e) rid"
    and "decode_row e rid = Inr (stage e (decode_input e rid))" and "runnable e (decode_input e rid)"
    and "row_text e (decode_input e rid) = text_of r" and "decode_input e rid = (rid, [last (output_token_ids r)])"
proof -
  from f obtain r a where r: "active_request rid e = Some r" and a: "table_of rid e = Some a" and st: "state r = DECODING"
    and c: "sequence_length a + 1 \<le> capacity_tokens a" and o: "owns_rest (mgr e) rid" by (elim fitsD) auto
  have h: "output_token_ids r \<noteq> []" "req_next_token_id r = Some (last (output_token_ids r))"
    "sequence_length a = int (length (text_of r)) - 1"
    using active_ok(2) [OF ok _ r a] st by (simp_all add: holding_def)
  have i: "decode_input e rid = (rid, [last (output_token_ids r)])" using r by (simp add: decode_input_def)
  have s: "decode_row e rid = Inr (stage e (decode_input e rid))"
    using r a h c by (simp add: decode_row_def stage_def i)
  have run: "runnable e (decode_input e rid)" using r a c o by (simp add: runnable_def i)
  have "row_text e (decode_input e rid) = text_of r"
    using decoding_text [OF h(1,3)] r a by (simp add: row_text_def i)
  with that [OF r a st h c o s run] i show thesis by blast
qed

lemma decode_metadata:
  assumes ok: "engine_ok D env {} pend e" and laws: "setup_laws env" and d: "distinct ids"
    and f: "\<forall>rid \<in> set ids. fits DECODING decode_target e (rid, ())"
    and b: "\<forall>b. bucket = Some b \<longrightarrow> b \<in> set (graph_sizes env) \<and> int (length ids) \<le> b \<and> b \<le> max_active env"
  obtains slots where "set slots \<subseteq> set (dummy_slots e)"
    and "prepare_decode_metadata env ids bucket e =
      Inr (map (stage e) (map (decode_input e) ids) @ map (dummy_row (pad_token env)) slots)"
proof -
  have act: "\<forall>rid \<in> set ids. active_request rid e \<noteq> None" using f by (auto simp: fits_def)
  have cnt: "int (length ids) \<le> max_active env" by (rule rows_at_most_active [OF ok d act])
  have trav: "traverse (decode_row e) ids = Inr (map (\<lambda>rid. stage e (decode_input e rid)) ids)"
  proof (rule traverse_total)
    fix rid assume "rid \<in> set ids"
    with f have "fits DECODING decode_target e (rid, ())" by blast
    from decode_fits [OF ok this] show "decode_row e rid = Inr (stage e (decode_input e rid))" by blast
  qed
  let ?k = "case bucket of None \<Rightarrow> int (length ids) | Some b \<Rightarrow> if b = 0 then int (length ids) else b"
  have k: "int (length ids) \<le> ?k" "?k \<le> max_active env" using b cnt by (auto split: option.splits)
  have slots: "?k - int (length ids) \<le> int (length (dummy_slots e))"
  proof (cases bucket)
    case (Some b')
    then have "b' \<le> int (length (dummy_slots e))" using b engine_okD(8) [OF ok] by (simp add: slots_ok_def)
    with Some show ?thesis by auto
  qed simp
  show thesis
  proof (rule that [of "take (nat (?k - int (length ids))) (dummy_slots e)"])
    have "(\<lambda>(page, off). ([pad_token env], off, [page])) = dummy_row (pad_token env)" by (auto simp: dummy_row_def fun_eq_iff)
    then show "prepare_decode_metadata env ids bucket e =
      Inr (map (stage e) (map (decode_input e) ids) @ map (dummy_row (pad_token env)) (take (nat (?k - int (length ids))) (dummy_slots e)))"
      using trav k slots cnt by (auto simp: prepare_decode_metadata_def Let_def comp_def)
  qed (rule set_take_subset)
qed

lemma commit_decode_ok:
  assumes ok: "engine_ok D env {} pend e" and d: "distinct ids" and len: "length toks = length ids"
    and rows: "\<And>i. i < length ids \<Longrightarrow> \<exists>r. active_request (ids ! i) e = Some r \<and> state r = DECODING \<and>
      pend (ids ! i) = [last (output_token_ids r)] \<and> (plain r \<longrightarrow> toks ! i = prediction env (text_of r))"
  shows "\<exists>e'. commit_decode env ids toks e = Inr e' \<and>
    engine_ok D env {} (\<lambda>x. if x \<in> set ids then [] else pend x) e' \<and> kept_outside (set ids) e e'"
proof -
  let ?A = "\<lambda>(row :: string \<times> int) r p. state r = DECODING \<and> p = [last (output_token_ids r)] \<and>
      (plain r \<longrightarrow> snd row = prediction env (text_of r))"
  have "\<exists>e'. for_each (commit_decode_row env) (zip ids toks) e = Inr e' \<and>
      engine_ok D env {} (\<lambda>x. if x \<in> fst ` set (zip ids toks) then [] else pend x) e' \<and> kept_outside (fst ` set (zip ids toks)) e e'"
  proof (rule commit_requests [where A = ?A, OF ok])
    show "distinct (map fst (zip ids toks))" using d len by simp
    show "\<forall>row \<in> set (zip ids toks). \<exists>r. active_request (fst row) e = Some r \<and> ?A row r (pend (fst row))"
      by (rule zip_rows(1) [OF len]) (use rows in simp)
    show "\<exists>e'. commit_decode_row env row e1 = Inr e' \<and> engine_ok D env {} (pend1(fst row := [])) e' \<and> others_kept (fst row) e1 e'"
      if ok1: "engine_ok D env {} pend1 e1" and r: "active_request (fst row) e1 = Some r" and q: "?A row r (pend1 (fst row))" for row e1 pend1 r
      using commit_decode_row_ok [OF ok1 _ r, of "snd row"] q by (metis empty_iff prod.collapse)
  qed
  then show ?thesis unfolding zip_rows(2) [OF len] by (simp add: commit_decode_def)
qed

lemma decode_bucket:
  assumes "(if g then graph_bucket sizes mx n else None) = Some b"
  shows "b \<in> set sizes \<and> n \<le> b \<and> b \<le> mx"
  using assms graph_bucket_fits by (simp split: if_splits)

lemma decode_rows_ok:
  assumes ok: "engine_ok D env {} (\<lambda>_. []) e" and laws: "setup_laws env" and d: "distinct ids"
    and f: "\<forall>rid \<in> set ids. fits DECODING decode_target e (rid, ())"
  shows "\<exists>e'. decode_rows env ids e = Inr e' \<and> engine_ok D env {} (\<lambda>_. []) e'"
proof -
  let ?bucket = "if decode_graphs env then graph_bucket (graph_sizes env) (max_active env) (int (length ids)) else None"
  let ?xs = "map (decode_input e) ids"
  have "\<forall>b. ?bucket = Some b \<longrightarrow> b \<in> set (graph_sizes env) \<and> int (length ids) \<le> b \<and> b \<le> max_active env"
    using decode_bucket by blast
  from decode_metadata [OF ok laws d f this] obtain slots where
    m: "set slots \<subseteq> set (dummy_slots e)"
      "prepare_decode_metadata env ids ?bucket e = Inr (map (stage e) ?xs @ map (dummy_row (pad_token env)) slots)" .
  have keys: "map fst ?xs = ids" by (simp add: decode_input_def comp_def)
  have can: "\<forall>x \<in> set (?xs @ []). runnable e x"
  proof
    fix x assume "x \<in> set (?xs @ [])"
    then obtain rid where rid: "rid \<in> set ids" "x = decode_input e rid" by auto
    with f have "fits DECODING decode_target e (rid, ())" by blast
    from decode_fits [OF ok this] rid(2) show "runnable e x" by blast
  qed
  have "distinct (map fst (?xs @ []))" using d keys by simp
  from forward_sample_ok [OF ok laws can this m(1)] obtain logits e1 toks e2 where
    s: "forward_rows env (map (stage e) ?xs @ map (dummy_row (pad_token env)) slots @ map (stage e) []) e = (logits, e1)"
      "sample_rows env (map fst (?xs @ [])) (take (length ?xs) logits @ drop (length ?xs + length slots) logits) e1 = Inr (toks, e2)"
      "length toks = length (?xs @ [])" "engine_ok D env {} (pending (?xs @ [])) e2" "noted e1 e2" "sch e1 = sch e"
      "\<forall>x r. active_request x e = Some r \<longrightarrow> (\<exists>q. active_request x e2 = Some q \<and> same_request r q)"
      "\<forall>i r. i < length (?xs @ []) \<longrightarrow> active_request (fst ((?xs @ []) ! i)) e = Some r \<longrightarrow> plain r \<longrightarrow>
        toks ! i = prediction env (row_text e ((?xs @ []) ! i))"
      "\<forall>x. table_of x e2 = table_of x e" "mgr e2 = mgr e" .
  have ll: "length logits = length ids + length slots" using s(1) by (auto simp: forward_rows_def Let_def)
  have rows: "\<exists>r. active_request (ids ! i) e2 = Some r \<and> state r = DECODING \<and>
      pending (?xs @ []) (ids ! i) = [last (output_token_ids r)] \<and> (plain r \<longrightarrow> toks ! i = prediction env (text_of r))"
    if i: "i < length ids" for i
  proof -
    from i f have "fits DECODING decode_target e (ids ! i, ())" by simp
    from decode_fits [OF ok this] obtain r where r: "active_request (ids ! i) e = Some r" "state r = DECODING"
      "row_text e (decode_input e (ids ! i)) = text_of r" "decode_input e (ids ! i) = (ids ! i, [last (output_token_ids r)])" .
    from s(7) r(1) obtain q where q: "active_request (ids ! i) e2 = Some q" "same_request r q" by blast
    note same = same_requestD [OF q(2)]
    have "decode_input e (ids ! i) \<in> set (?xs @ [])" using i by simp
    then have "pending (?xs @ []) (ids ! i) = [last (output_token_ids r)]"
      unfolding r(4) by (rule pending_row [rotated]) (use d keys in simp)
    moreover have "toks ! i = prediction env (text_of r)" if "plain r"
      using s(8) i r(1,3,4) that by simp
    ultimately show ?thesis using q(1) r(2) same(4,6,7,9) by simp
  qed
  have len: "length toks = length ids" using s(3) by simp
  from commit_decode_ok [OF s(4) d len rows] obtain e3 where c: "commit_decode env ids toks e2 = Inr e3"
    "engine_ok D env {} (\<lambda>x. if x \<in> set ids then [] else pending (?xs @ []) x) e3" by blast
  have "(\<lambda>x. if x \<in> set ids then [] else pending (?xs @ []) x) = (\<lambda>_. [])"
    by (rule nothing_pending) (auto simp: decode_input_def)
  with c s(1,2) m(2) keys ll show ?thesis by (simp add: decode_rows_def Let_def)
qed

lemma decode_viable_ok:
  assumes ok: "engine_ok D env {} (\<lambda>_. []) e" and d: "distinct ids"
  obtains rows e' where "decode_viable env ids e = Inr (rows, e')" and "engine_ok D env {} (\<lambda>_. []) e'" and "yields e e'"
    and "distinct rows" and "set rows \<subseteq> set ids" and "\<forall>rid \<in> set rows. fits DECODING decode_target e' (rid, ())"
proof -
  let ?in = "in_arrival_order e (map (\<lambda>rid. (rid, ())) ids)"
  have "sensible DECODING decode_target e row" for row by (cases row) (simp add: sensible_def)
  then have "\<forall>row \<in> set ?in. sensible DECODING decode_target e row" by blast
  from viable_rows_ok [OF ok this] obtain got e' where g: "viable_rows env DECODING decode_target ?in e = Inr (got, e')"
    "engine_ok D env {} (\<lambda>_. []) e'" "yields e e'" "subseq got ?in" "\<forall>row \<in> set got. fits DECODING decode_target e' row" .
  have "distinct (map fst ?in)"
  proof -
    have "mset (map fst ?in) = mset (map fst (map (\<lambda>rid. (rid, ())) ids))" unfolding in_arrival_order_def by (simp only: mset_map mset_sort)
    also have "map fst (map (\<lambda>rid. (rid, ())) ids) = ids" by (simp add: comp_def)
    finally show ?thesis using d by (metis mset_eq_imp_distinct_iff)
  qed
  moreover have "subseq (map fst got) (map fst ?in)" using g(4) by (rule subseq_map)
  ultimately have "distinct (map fst got)" by (rule subseq_rows(2) [rotated])
  moreover have "set (map fst got) \<subseteq> set ids"
    using subseq_rows(1) [OF g(4)] by (auto simp: in_arrival_order_def)
  moreover have "decode_viable env ids e = Inr (map fst got, e')" using g(1) by (simp add: decode_viable_def)
  moreover have "\<forall>rid \<in> set (map fst got). fits DECODING decode_target e' (rid, ())" using g(5) by auto
  ultimately show thesis using that g(2,3) by blast
qed

lemma decode_step_ok:
  assumes ok: "engine_ok D env {} (\<lambda>_. []) e" and laws: "setup_laws env" and d: "distinct ids"
  shows "\<exists>e'. decode_step env ids e = Inr e' \<and> engine_ok D env {} (\<lambda>_. []) e'"
proof -
  from decode_viable_ok [OF ok d] obtain rows e1 where v: "decode_viable env ids e = Inr (rows, e1)"
    "engine_ok D env {} (\<lambda>_. []) e1" "distinct rows" "\<forall>rid \<in> set rows. fits DECODING decode_target e1 (rid, ())" .
  from decode_rows_ok [OF v(2) laws v(3,4)] v(1,2) show ?thesis by (cases "rows = []") (simp_all add: decode_step_def)
qed

section \<open>Prefill in chunks\<close>

text \<open>What the plan of an iteration promises about a row.\<close>

definition planned :: "'g engine_setup \<Rightarrow> 'g engine \<Rightarrow> string \<times> int \<Rightarrow> bool" where
  "planned env e plan \<longleftrightarrow> (case plan of (rid, n) \<Rightarrow> \<exists>r. active_request rid e = Some r \<and> state r = PREFILLING \<and>
     0 < n \<and> n \<le> remaining_prefill_tokens r \<and> n \<le> prefill_chunk_size env)"

definition chunk_input :: "'g engine \<Rightarrow> string \<times> int \<Rightarrow> string \<times> int list" where
  "chunk_input e plan = (case plan of (rid, n) \<Rightarrow> let r = the (active_request rid e) in
     (rid, take (nat n) (drop (nat (prefilled_token_count r)) (prefill_token_ids r))))"

abbreviation chunk_target :: "request \<Rightarrow> kv_allocation \<Rightarrow> int \<Rightarrow> int" where
  "chunk_target \<equiv> \<lambda>r a n. prefilled_token_count r + n"

lemma chunk_key [simp]: "fst (chunk_input e plan) = fst plan"
  by (cases plan) (simp add: chunk_input_def Let_def)

lemma planned_sensible:
  assumes ok: "engine_ok D env {} pend e" and p: "planned env e (rid, n)"
  shows "sensible PREFILLING chunk_target e (rid, n)"
proof -
  from p obtain r where r: "active_request rid e = Some r" "state r = PREFILLING" "0 < n" "n \<le> remaining_prefill_tokens r"
    by (auto simp: planned_def)
  from active_table [OF ok r(1)] obtain a where a: "table_of rid e = Some a" .
  have "sequence_length a = prefilled_token_count r" using active_ok(2) [OF ok _ r(1) a] r(2) by (simp add: holding_def)
  with r a show ?thesis by (auto simp: sensible_def remaining_prefill_tokens_def)
qed

lemma planned_stays:
  "planned env e (rid, n) \<Longrightarrow> yields e e' \<Longrightarrow> active_request rid e' \<noteq> None \<Longrightarrow> planned env e' (rid, n)"
  unfolding planned_def by (auto dest: yieldsD(1))

lemma chunk_fits:
  assumes ok: "engine_ok D env {} (\<lambda>_. []) e" and p: "planned env e (rid, n)" and f: "fits PREFILLING chunk_target e (rid, n)"
  obtains r where "active_request rid e = Some r" and "state r = PREFILLING" and "0 < n" and "n \<le> remaining_prefill_tokens r"
    and "chunk_row env e (rid, n) = Inr (stage e (chunk_input e (rid, n)))" and "runnable e (chunk_input e (rid, n))"
    and "chunk_input e (rid, n) = (rid, take (nat n) (drop (nat (prefilled_token_count r)) (prefill_token_ids r)))"
    and "\<not> resuming r \<longrightarrow> n = remaining_prefill_tokens r \<longrightarrow> row_text e (chunk_input e (rid, n)) = prompt_token_ids r"
proof -
  from p obtain r where r: "active_request rid e = Some r" "state r = PREFILLING" and n: "0 < n" "n \<le> remaining_prefill_tokens r"
    "n \<le> prefill_chunk_size env" by (auto simp: planned_def)
  from f r(1) obtain a where a: "table_of rid e = Some a" and c: "prefilled_token_count r + n \<le> capacity_tokens a"
    and o: "owns_rest (mgr e) rid" by (elim fitsD) auto
  note h = active_ok [OF ok _ r(1) a, simplified]
  from active_table [OF ok r(1)] a have i: "req_inv r" and nn: "0 \<le> sequence_length a" by (metis option.inject)+
  have seq: "sequence_length a = prefilled_token_count r" and res: "resuming r \<longleftrightarrow> output_token_ids r \<noteq> []"
    using h(2) r(2) by (simp_all add: holding_def)
  note pt = prefill_text [OF i h(1) res]
  let ?toks = "take (nat n) (drop (nat (prefilled_token_count r)) (prefill_token_ids r))"
  have inp: "chunk_input e (rid, n) = (rid, ?toks)" using r(1) by (simp add: chunk_input_def)
  have len: "int (length ?toks) = n" using pt(4) n seq nn by (auto simp: remaining_prefill_tokens_def)
  then have ne: "?toks \<noteq> []" using n(1) by auto
  have run: "runnable e (chunk_input e (rid, n))"
    unfolding runnable_def inp prod.case using r(1) a ne c o len seq by auto
  have row: "chunk_row env e (rid, n) = Inr (stage e (chunk_input e (rid, n)))"
    unfolding inp using r(1) a n(3) seq by (simp add: chunk_row_def stage_def Let_def)
  have "row_text e (chunk_input e (rid, n)) = prompt_token_ids r" if "\<not> resuming r" "n = remaining_prefill_tokens r"
  proof -
    have whole: "text_of r = prompt_token_ids r" "prefill_token_ids r = prompt_token_ids r"
      using that(1) res by (simp_all add: text_of_def prefill_token_ids_def)
    have "nat (prefilled_token_count r) + nat n = length (prompt_token_ids r)"
      using pt(4) that(2) n(1) seq nn unfolding whole by (simp add: remaining_prefill_tokens_def)
    then have "take (nat (prefilled_token_count r)) (prompt_token_ids r) @
        take (nat n) (drop (nat (prefilled_token_count r)) (prompt_token_ids r)) = prompt_token_ids r"
      by (metis append_take_drop_id take_add take_all order_refl)
    then show ?thesis using r(1) a seq by (simp add: row_text_def inp whole)
  qed
  with that [OF r n(1,2) row run inp] show thesis by blast
qed

lemma commit_prefill_ok:
  assumes ok: "engine_ok D env {} pend e" and d: "distinct (map fst plans)" and len: "length toks = length plans"
    and rows: "\<And>i. i < length plans \<Longrightarrow> \<exists>r. active_request (fst (plans ! i)) e = Some r \<and> state r = PREFILLING \<and>
      0 < snd (plans ! i) \<and> snd (plans ! i) \<le> remaining_prefill_tokens r \<and>
      pend (fst (plans ! i)) = take (nat (snd (plans ! i))) (drop (nat (prefilled_token_count r)) (prefill_token_ids r)) \<and>
      (plain r \<longrightarrow> \<not> resuming r \<longrightarrow> snd (plans ! i) = remaining_prefill_tokens r \<longrightarrow> toks ! i = prediction env (prompt_token_ids r))"
  shows "\<exists>e'. commit_prefill env plans toks e = Inr e' \<and>
    engine_ok D env {} (\<lambda>x. if x \<in> fst ` set plans then [] else pend x) e'"
proof -
  let ?A = "\<lambda>(row :: (string \<times> int) \<times> int) r p. state r = PREFILLING \<and> 0 < snd (fst row) \<and>
      snd (fst row) \<le> remaining_prefill_tokens r \<and>
      p = take (nat (snd (fst row))) (drop (nat (prefilled_token_count r)) (prefill_token_ids r)) \<and>
      (plain r \<longrightarrow> \<not> resuming r \<longrightarrow> snd (fst row) = remaining_prefill_tokens r \<longrightarrow> snd row = prediction env (prompt_token_ids r))"
  have keys: "(\<lambda>row. fst (fst row)) ` set (zip plans toks) = fst ` set plans"
    using zip_rows(2) [OF len] by (metis image_image)
  have "\<exists>e'. for_each (commit_prefill_row env) (zip plans toks) e = Inr e' \<and>
      engine_ok D env {} (\<lambda>x. if x \<in> (\<lambda>row. fst (fst row)) ` set (zip plans toks) then [] else pend x) e' \<and>
      kept_outside ((\<lambda>row. fst (fst row)) ` set (zip plans toks)) e e'"
  proof (rule commit_requests [where A = ?A, OF ok])
    have "map (\<lambda>row. fst (fst row)) (zip plans toks) = map fst (map fst (zip plans toks))" by simp
    then show "distinct (map (\<lambda>row. fst (fst row)) (zip plans toks))" using d len by (simp del: map_map)
    show "\<forall>row \<in> set (zip plans toks). \<exists>r. active_request (fst (fst row)) e = Some r \<and> ?A row r (pend (fst (fst row)))"
      by (rule zip_rows(1) [OF len]) (use rows in simp)
    show "\<exists>e'. commit_prefill_row env row e1 = Inr e' \<and> engine_ok D env {} (pend1(fst (fst row) := [])) e' \<and>
        others_kept (fst (fst row)) e1 e'"
      if ok1: "engine_ok D env {} pend1 e1" and r: "active_request (fst (fst row)) e1 = Some r"
        and q: "?A row r (pend1 (fst (fst row)))" for row e1 pend1 r
      using commit_prefill_row_ok [OF ok1 _ r, of "snd (fst row)" "snd row"] q by (metis empty_iff prod.collapse)
  qed
  then show ?thesis unfolding keys by (auto simp: commit_prefill_def)
qed

section \<open>Whole prompts\<close>

definition batch_input :: "'g engine \<Rightarrow> string \<Rightarrow> string \<times> int list" where
  "batch_input e rid = (rid, prompt_token_ids (the (active_request rid e)))"

definition fresh_row :: "'g engine \<Rightarrow> string \<Rightarrow> bool" where
  "fresh_row e rid \<longleftrightarrow> (\<exists>r. active_request rid e = Some r \<and> state r = PREFILLING \<and> prefilled_token_count r = 0)"

abbreviation batch_target :: "request \<Rightarrow> kv_allocation \<Rightarrow> unit \<Rightarrow> int" where
  "batch_target \<equiv> \<lambda>r a n. prefill_token_count r"

lemma fresh_row_facts:
  assumes ok: "engine_ok D env {} pend e" and f: "fresh_row e rid"
  obtains r a where "active_request rid e = Some r" and "table_of rid e = Some a" and "state r = PREFILLING"
    and "prefilled_token_count r = 0" and "sequence_length a = 0" and "prompt_token_ids r \<noteq> []"
    and "(if resuming r then prompt_token_ids r else prefill_token_ids r) = prompt_token_ids r"
    and "0 < prefill_token_count r" and "int (length (prompt_token_ids r)) \<le> prefill_token_count r"
proof -
  from f obtain r where r: "active_request rid e = Some r" "state r = PREFILLING" "prefilled_token_count r = 0"
    by (auto simp: fresh_row_def)
  from active_table [OF ok r(1)] obtain a where a: "table_of rid e = Some a" and i: "req_inv r" .
  note h = active_ok [OF ok _ r(1) a, simplified]
  have res: "resuming r \<longleftrightarrow> output_token_ids r \<noteq> []" and seq: "sequence_length a = 0" using h(2) r by (simp_all add: holding_def)
  have "(if resuming r then prompt_token_ids r else prefill_token_ids r) = prompt_token_ids r"
    by (simp add: prefill_token_ids_def)
  moreover have "int (length (prompt_token_ids r)) \<le> prefill_token_count r"
    using prompt_length [OF i h(1)] prefill_count_ge [of r] i by (simp add: req_inv_def)
  moreover have "prompt_token_ids r \<noteq> []" using h(1) by (simp add: body_ok_def)
  ultimately show thesis using that [OF r(1) a r(2,3) seq] prefill_text(2) [OF i h(1) res] by blast
qed

lemma batch_fits:
  assumes ok: "engine_ok D env {} (\<lambda>_. []) e" and fr: "fresh_row e rid" and f: "fits PREFILLING batch_target e (rid, ())"
  obtains r a where "active_request rid e = Some r" and "table_of rid e = Some a" and "state r = PREFILLING"
    and "prefilled_token_count r = 0" and "prefill_token_count r \<le> capacity_tokens a" and "owns_rest (mgr e) rid"
    and "(if resuming r then prompt_token_ids r else prefill_token_ids r) = prompt_token_ids r"
    and "prompt_row e rid = Inr (stage e (batch_input e rid))" and "runnable e (batch_input e rid)"
    and "row_text e (batch_input e rid) = prompt_token_ids r" and "batch_input e rid = (rid, prompt_token_ids r)"
proof -
  from fresh_row_facts [OF ok fr] obtain r a where r: "active_request rid e = Some r" "table_of rid e = Some a" "state r = PREFILLING"
    "prefilled_token_count r = 0" "sequence_length a = 0" "prompt_token_ids r \<noteq> []"
    "(if resuming r then prompt_token_ids r else prefill_token_ids r) = prompt_token_ids r"
    "0 < prefill_token_count r" "int (length (prompt_token_ids r)) \<le> prefill_token_count r" .
  from f r(1,2) have c: "prefill_token_count r \<le> capacity_tokens a" "owns_rest (mgr e) rid" by (auto elim: fitsD)
  have inp: "batch_input e rid = (rid, prompt_token_ids r)" using r(1) by (simp add: batch_input_def)
  have "prompt_row e rid = Inr (stage e (batch_input e rid))" using r(1,2,5,7) by (simp add: prompt_row_def stage_def inp)
  moreover have "runnable e (batch_input e rid)" unfolding runnable_def inp prod.case using r c by auto
  moreover have "row_text e (batch_input e rid) = prompt_token_ids r" using r(1,2,5) by (simp add: row_text_def inp)
  ultimately show thesis using that [OF r(1-4) c r(7)] inp by blast
qed

lemma fresh_stays: "fresh_row e rid \<Longrightarrow> yields e e' \<Longrightarrow> active_request rid e' \<noteq> None \<Longrightarrow> fresh_row e' rid"
  unfolding fresh_row_def by (auto dest: yieldsD(1))

lemma fits_active: "fits st target e (rid, x) \<Longrightarrow> active_request rid e \<noteq> None"
  by (auto elim: fitsD)

definition whole_ready :: "'g engine_setup \<Rightarrow> string \<times> int list \<times> int \<Rightarrow> 'g engine \<Rightarrow> bool" where
  "whole_ready env row e \<longleftrightarrow> (case row of (rid, sequence, tok) \<Rightarrow> \<exists>r a. active_request rid e = Some r \<and> table_of rid e = Some a \<and>
     state r = PREFILLING \<and> prefilled_token_count r = 0 \<and>
     sequence = (if resuming r then prompt_token_ids r else prefill_token_ids r) \<and>
     prefill_token_count r \<le> capacity_tokens a \<and> owns_rest (mgr e) rid \<and>
     (plain r \<longrightarrow> \<not> resuming r \<longrightarrow> tok = prediction env (prompt_token_ids r)))"

lemma commit_whole_ok:
  assumes ok: "engine_ok D env {} pend e" and laws: "setup_laws env" and d: "distinct (map fst rows)"
    and all: "\<forall>row \<in> set rows. whole_ready env row e \<and> pend (fst row) = fst (snd row)"
  shows "\<exists>e'. for_each (commit_prefill_batch_row env) rows e = Inr e' \<and>
    engine_ok D env {} (\<lambda>x. if x \<in> fst ` set rows then [] else pend x) e'"
proof -
  have "\<exists>e'. for_each (commit_prefill_batch_row env) rows e = Inr e' \<and>
    engine_ok D env {} (\<lambda>x. if x \<in> fst ` set rows then [] else pend x) e' \<and> kept_outside (fst ` set rows) e e'"
  proof (rule commit_loop [where Q = "whole_ready env" and p = "\<lambda>row. fst (snd row)", OF ok d all])
    show "whole_ready env row e2" if "whole_ready env row e1" "others_kept rid e1 e2" "fst row \<noteq> rid" for row rid e1 e2
      using that by (cases row) (auto simp: whole_ready_def others_kept_def)
    show "\<exists>e'. commit_prefill_batch_row env row e1 = Inr e' \<and> engine_ok D env {} (pend1(fst row := [])) e' \<and> others_kept (fst row) e1 e'"
      if ok1: "engine_ok D env {} pend1 e1" and w: "whole_ready env row e1" and p: "pend1 (fst row) = fst (snd row)" for row e1 pend1
    proof -
      obtain rid ts tok where row: "row = (rid, ts, tok)" by (cases row)
      from w obtain r a where r: "active_request rid e1 = Some r" "table_of rid e1 = Some a" "state r = PREFILLING"
        "prefilled_token_count r = 0" "ts = (if resuming r then prompt_token_ids r else prefill_token_ids r)"
        "prefill_token_count r \<le> capacity_tokens a" "owns_rest (mgr e1) rid"
        "plain r \<Longrightarrow> \<not> resuming r \<Longrightarrow> tok = prediction env (prompt_token_ids r)" by (auto simp: whole_ready_def row)
      have mx: "0 < max_active env" using laws by (simp add: setup_laws_def)
      have pend: "pend1 rid = (if resuming r then prompt_token_ids r else prefill_token_ids r)" using p r(5) by (simp add: row)
      show ?thesis
        by (rule commit_prefill_batch_row_ok [OF ok1 _ r(1-4) pend r(6,7) mx r(8)]) (use p in \<open>auto simp: row\<close>)
    qed
  qed
  then show ?thesis by blast
qed

lemma prefill_batch_ok:
  assumes ok: "engine_ok D env {} (\<lambda>_. []) e" and laws: "setup_laws env" and d: "distinct ids"
    and fresh: "\<forall>rid \<in> set ids. fresh_row e rid"
  shows "\<exists>e'. prefill_batch env ids e = Inr e' \<and> engine_ok D env {} (\<lambda>_. []) e'"
proof -
  have act: "\<forall>rid \<in> set ids. active_request rid e \<noteq> None" using fresh by (auto simp: fresh_row_def)
  have cnt: "int (length ids) \<le> max_active env" by (rule rows_at_most_active [OF ok d act])
  have check: "traverse (prefill_batch_check e) ids = Inr (map (\<lambda>_. ()) ids)"
  proof (rule traverse_total)
    fix rid assume "rid \<in> set ids"
    with fresh have "fresh_row e rid" by blast
    from fresh_row_facts [OF ok this] obtain r a where "active_request rid e = Some r" "table_of rid e = Some a" "state r = PREFILLING"
      "prefilled_token_count r = 0" "prompt_token_ids r \<noteq> []" .
    then show "prefill_batch_check e rid = Inr ()" by (simp add: prefill_batch_check_def)
  qed
  let ?in = "map (\<lambda>rid. (rid, ())) ids"
  have "\<forall>row \<in> set ?in. sensible PREFILLING batch_target e row"
  proof
    fix row assume "row \<in> set ?in"
    then obtain rid where row: "row = (rid, ())" "fresh_row e rid" using fresh by auto
    from fresh_row_facts [OF ok row(2)] obtain r a where "active_request rid e = Some r" "table_of rid e = Some a"
      "sequence_length a = 0" "0 < prefill_token_count r" .
    then show "sensible PREFILLING batch_target e row" by (auto simp: sensible_def row(1))
  qed
  from viable_rows_ok [OF ok this] obtain got e1 where g: "viable_rows env PREFILLING batch_target ?in e = Inr (got, e1)"
    "engine_ok D env {} (\<lambda>_. []) e1" "yields e e1" "subseq got ?in" "\<forall>row \<in> set got. fits PREFILLING batch_target e1 row" .
  define ids' where "ids' = map fst got"
  have fits': "fits PREFILLING batch_target e1 (rid, ())" if "rid \<in> set ids'" for rid using g(5) that by (auto simp: ids'_def)
  have sub: "set ids' \<subseteq> set ids" using subseq_rows(1) [OF g(4)] by (auto simp: ids'_def)
  have fresh': "fresh_row e1 rid" if "rid \<in> set ids'" for rid
    using fresh_stays [OF _ g(3) fits_active [OF fits' [OF that]]] fresh sub that by blast
  have "distinct (map fst ?in)" using d by (simp add: comp_def)
  then have d': "distinct ids'" using subseq_rows(2) [OF subseq_map [OF g(4), of fst]] by (simp only: ids'_def)
  let ?ys = "map (batch_input e1) ids'"
  have keys: "map fst ?ys = ids'" by (simp add: batch_input_def comp_def)
  have staged: "traverse (prompt_row e1) ids' = Inr (map (\<lambda>rid. stage e1 (batch_input e1 rid)) ids')"
  proof (rule traverse_total)
    fix rid assume "rid \<in> set ids'"
    from batch_fits [OF g(2) fresh' [OF this] fits' [OF this]] show "prompt_row e1 rid = Inr (stage e1 (batch_input e1 rid))" by blast
  qed
  have can: "\<forall>x \<in> set ?ys. runnable e1 x"
  proof
    fix x assume "x \<in> set ?ys"
    then obtain rid where x: "rid \<in> set ids'" "x = batch_input e1 rid" by auto
    from batch_fits [OF g(2) fresh' [OF x(1)] fits' [OF x(1)]] x(2) show "runnable e1 x" by blast
  qed
  have dk: "distinct (map fst ?ys)" using d' keys by simp
  from forward_sample_rows [OF g(2) laws can dk] obtain logits e2 toks e3 where
    s: "forward_rows env (map (stage e1) ?ys) e1 = (logits, e2)" "sample_rows env (map fst ?ys) logits e2 = Inr (toks, e3)"
      "length toks = length ?ys" "engine_ok D env {} (pending ?ys) e3"
      "\<forall>x r. active_request x e1 = Some r \<longrightarrow> (\<exists>q. active_request x e3 = Some q \<and> same_request r q)"
      "\<forall>i r. i < length ?ys \<longrightarrow> active_request (fst (?ys ! i)) e1 = Some r \<longrightarrow> plain r \<longrightarrow>
        toks ! i = prediction env (row_text e1 (?ys ! i))"
      "\<forall>x. table_of x e3 = table_of x e1" "mgr e3 = mgr e1" .
  let ?seqs = "map fst (map (stage e1) ?ys)"
  have len: "length (zip ?seqs toks) = length ids'" "length toks = length ids'" using s(3) by simp_all
  have rows: "whole_ready env (ids' ! i, zip ?seqs toks ! i) e3 \<and> pending ?ys (ids' ! i) = fst (zip ?seqs toks ! i)"
    if i: "i < length ids'" for i
  proof -
    have mem: "ids' ! i \<in> set ids'" using i by simp
    from batch_fits [OF g(2) fresh' [OF mem] fits' [OF mem]] obtain r a where
      r: "active_request (ids' ! i) e1 = Some r" "table_of (ids' ! i) e1 = Some a" "state r = PREFILLING"
        "prefilled_token_count r = 0" "prefill_token_count r \<le> capacity_tokens a" "owns_rest (mgr e1) (ids' ! i)"
        "(if resuming r then prompt_token_ids r else prefill_token_ids r) = prompt_token_ids r"
        "row_text e1 (batch_input e1 (ids' ! i)) = prompt_token_ids r"
        "batch_input e1 (ids' ! i) = (ids' ! i, prompt_token_ids r)" .
    from s(5) r(1) obtain q where q: "active_request (ids' ! i) e3 = Some q" "same_request r q" by blast
    note same = same_requestD [OF q(2)]
    have seq: "zip ?seqs toks ! i = (prompt_token_ids r, toks ! i)" using i len(2) r(9) by (simp add: stage_def)
    have "batch_input e1 (ids' ! i) \<in> set ?ys" using i by simp
    then have "pending ?ys (ids' ! i) = prompt_token_ids r" unfolding r(9) by (rule pending_row [OF dk])
    moreover have "toks ! i = prediction env (prompt_token_ids r)" if "plain r" using s(6) i r(1,8,9) that by simp
    ultimately show ?thesis
      using q(1) r(2-7) s(7,8) seq by (auto simp: whole_ready_def same)
  qed
  let ?rows = "zip ids' (zip ?seqs toks)"
  have "\<forall>row \<in> set ?rows. whole_ready env row e3 \<and> pending ?ys (fst row) = fst (snd row)"
    by (rule zip_rows(1) [OF len(1)]) (use rows in simp)
  moreover have "distinct (map fst ?rows)" using d' len(1) by simp
  ultimately obtain e4 where c: "for_each (commit_prefill_batch_row env) ?rows e3 = Inr e4"
    "engine_ok D env {} (\<lambda>x. if x \<in> fst ` set ?rows then [] else pending ?ys x) e4"
    using commit_whole_ok [OF s(4) laws] by blast
  have "(\<lambda>x. if x \<in> fst ` set ?rows then [] else pending ?ys x) = (\<lambda>_. [])"
    unfolding zip_rows(2) [OF len(1)] by (rule nothing_pending) (auto simp: batch_input_def)
  with c(2) have done2: "engine_ok D env {} (\<lambda>_. []) e4" by simp
  have "map (\<lambda>rid. stage e1 (batch_input e1 rid)) ids' = map (stage e1) ?ys" by simp
  note st = staged [unfolded this]
  show ?thesis
  proof (cases "ids = [] \<or> ids' = []")
    case True
    with ok g(1,2) cnt check show ?thesis by (auto simp: prefill_batch_def ids'_def)
  next
    case False
    then have "got \<noteq> []" by (auto simp: ids'_def)
    then have "prefill_batch env ids e = Inr e4"
      using False cnt check g(1) st s(1,2) c(1) unfolding keys by (simp add: prefill_batch_def ids'_def [symmetric] del: map_map)
    with done2 show ?thesis by blast
  qed
qed

end
