(* ===== verification/Engine_Batch.thy ===== *)
theory Engine_Batch
  imports Engine_Rows
begin

text \<open>
  The plan of an iteration carried out: chunked prefill, the fused forward over decode rows
  and prefill chunks, and speculative decoding with its groups of equal depth
  (\<open>engine/batching/continuous_batching.py\<close>). None of them can fail, and each keeps the
  engine's invariant.
\<close>

section \<open>Chunks\<close>

lemma prefill_viable_ok:
  assumes ok: "engine_ok D env {} (\<lambda>_. []) e" and d: "distinct (map fst plans)" and p: "\<forall>plan \<in> set plans. planned env e plan"
  obtains got e' where "prefill_viable env plans e = Inr (got, e')" and "engine_ok D env {} (\<lambda>_. []) e'" and "yields e e'"
    and "distinct (map fst got)" and "\<forall>plan \<in> set got. planned env e' plan \<and> fits PREFILLING chunk_target e' plan"
proof -
  have "\<forall>row \<in> set plans. sensible PREFILLING chunk_target e row"
    using planned_sensible [OF ok] p by (metis prod.collapse)
  from viable_rows_ok [OF ok this] obtain got e' where g: "viable_rows env PREFILLING chunk_target plans e = Inr (got, e')"
    "engine_ok D env {} (\<lambda>_. []) e'" "yields e e'" "subseq got plans" "\<forall>row \<in> set got. fits PREFILLING chunk_target e' row" .
  have "planned env e' plan" if "plan \<in> set got" for plan
  proof (cases plan)
    case (Pair rid n)
    have "planned env e (rid, n)" using p subseq_rows(1) [OF g(4)] that Pair by blast
    moreover have "fits PREFILLING chunk_target e' (rid, n)" using g(5) that Pair by blast
    then have "active_request rid e' \<noteq> None" by (rule fits_active)
    ultimately show ?thesis using planned_stays [OF _ g(3)] Pair by blast
  qed
  moreover have "distinct (map fst got)" using subseq_rows(2) [OF subseq_map [OF g(4), of fst] d] .
  ultimately show thesis using that [of got e'] g(1-3,5) by (simp add: prefill_viable_def)
qed

text \<open>Staging chunk rows.\<close>

lemma chunks_staged:
  assumes ok: "engine_ok D env {} (\<lambda>_. []) e" and d: "distinct (map fst plans)"
    and p: "\<forall>plan \<in> set plans. planned env e plan \<and> fits PREFILLING chunk_target e plan"
  shows "prepare_prefill_metadata env plans e = Inr (map (stage e) (map (chunk_input e) plans))"
    and "\<forall>x \<in> set (map (chunk_input e) plans). runnable e x" and "map fst (map (chunk_input e) plans) = map fst plans"
proof -
  have each: "chunk_row env e plan = Inr (stage e (chunk_input e plan)) \<and> runnable e (chunk_input e plan)" if "plan \<in> set plans" for plan
  proof (cases plan)
    case (Pair rid n)
    from p that Pair have "planned env e (rid, n)" "fits PREFILLING chunk_target e (rid, n)" by blast+
    from chunk_fits [OF ok this] Pair show ?thesis by blast
  qed
  then have "traverse (chunk_row env e) plans = Inr (map (\<lambda>plan. stage e (chunk_input e plan)) plans)"
    by (intro traverse_total) blast
  moreover have "int (length (map fst plans)) \<le> max_active env"
    by (rule rows_at_most_active [OF ok d]) (use p fits_active in fastforce)
  ultimately show "prepare_prefill_metadata env plans e = Inr (map (stage e) (map (chunk_input e) plans))"
    by (simp add: prepare_prefill_metadata_def comp_def)
  show "\<forall>x \<in> set (map (chunk_input e) plans). runnable e x" using each by auto
  show "map fst (map (chunk_input e) plans) = map fst plans" by (simp add: comp_def)
qed

text \<open>What a chunk's commit finds after the forward and the sampling.\<close>

lemma chunk_commit_ready:
  assumes ok: "engine_ok D env {} (\<lambda>_. []) e" and p: "planned env e plan \<and> fits PREFILLING chunk_target e plan"
    and rows: "distinct (map fst rows)" "chunk_input e plan \<in> set rows"
    and after: "\<forall>x r. active_request x e = Some r \<longrightarrow> (\<exists>q. active_request x e' = Some q \<and> same_request r q)"
    and tok: "\<forall>r. active_request (fst plan) e = Some r \<longrightarrow> plain r \<longrightarrow> tok = prediction env (row_text e (chunk_input e plan))"
  shows "\<exists>r. active_request (fst plan) e' = Some r \<and> state r = PREFILLING \<and> 0 < snd plan \<and> snd plan \<le> remaining_prefill_tokens r \<and>
      pending rows (fst plan) = take (nat (snd plan)) (drop (nat (prefilled_token_count r)) (prefill_token_ids r)) \<and>
      (plain r \<longrightarrow> \<not> resuming r \<longrightarrow> snd plan = remaining_prefill_tokens r \<longrightarrow> tok = prediction env (prompt_token_ids r))"
proof (cases plan)
  case (Pair rid n)
  from p Pair have "planned env e (rid, n)" "fits PREFILLING chunk_target e (rid, n)" by blast+
  from chunk_fits [OF ok this] obtain r where r: "active_request rid e = Some r" "state r = PREFILLING" "0 < n" "n \<le> remaining_prefill_tokens r"
    "chunk_input e (rid, n) = (rid, take (nat n) (drop (nat (prefilled_token_count r)) (prefill_token_ids r)))"
    "\<not> resuming r \<longrightarrow> n = remaining_prefill_tokens r \<longrightarrow> row_text e (chunk_input e (rid, n)) = prompt_token_ids r" by blast
  from after r(1) obtain q where q: "active_request rid e' = Some q" "same_request r q" by blast
  note same = same_requestD [OF q(2)]
  have "pending rows rid = take (nat n) (drop (nat (prefilled_token_count r)) (prefill_token_ids r))"
    by (rule pending_row [OF rows(1)]) (use rows(2) r(5) Pair in simp)
  moreover have "tok = prediction env (prompt_token_ids r)" if "plain r" "\<not> resuming r" "n = remaining_prefill_tokens r"
    using tok r(1,6) that Pair by simp
  ultimately show ?thesis using q(1) r(2-4) by (simp add: Pair same)
qed

lemma prefill_chunks_ok:
  assumes ok: "engine_ok D env {} (\<lambda>_. []) e" and laws: "setup_laws env" and d: "distinct (map fst plans)"
    and p: "\<forall>plan \<in> set plans. planned env e plan"
  shows "\<exists>e'. prefill_chunks env plans e = Inr e' \<and> engine_ok D env {} (\<lambda>_. []) e'"
proof -
  have act: "\<forall>rid \<in> set (map fst plans). active_request rid e \<noteq> None" using p by (auto simp: planned_def)
  have cnt: "int (length plans) \<le> max_active env" using rows_at_most_active [OF ok d act] by simp
  have check: "traverse (chunk_check e) plans = Inr (map (\<lambda>_. ()) plans)"
  proof (rule traverse_total)
    fix plan assume plan: "plan \<in> set plans"
    obtain rid n where rn: "plan = (rid, n)" by (cases plan)
    from p plan rn obtain r where r: "active_request rid e = Some r" "state r = PREFILLING" "0 < n" "n \<le> remaining_prefill_tokens r"
      by (auto simp: planned_def)
    from active_table [OF ok r(1)] obtain a where a: "table_of rid e = Some a" .
    have "prompt_token_ids r \<noteq> []" using active_ok(1) [OF ok _ r(1) a] by (simp add: body_ok_def)
    with r a show "chunk_check e plan = Inr ()" by (simp add: chunk_check_def rn)
  qed
  consider "plans = []" | "plans \<noteq> []" "list_all (whole_fresh_prompt e) plans" | "plans \<noteq> []" "\<not> list_all (whole_fresh_prompt e) plans" by blast
  then show ?thesis
  proof cases
    case 1
    with ok show ?thesis by (simp add: prefill_chunks_def)
  next
    case 2
    let ?e = "e\<lparr>prefill_sdpa_calls := prefill_sdpa_calls e + 1,
      prefill_sdpa_tokens := prefill_sdpa_tokens e + sum_list (map snd plans), last_step_prefill_path := ''sdpa''\<rparr>"
    have ok': "engine_ok D env {} (\<lambda>_. []) ?e" by (rule engine_ok_bookkeeping [OF ok]) simp_all
    have "fresh_row ?e rid" if "rid \<in> set (map fst plans)" for rid
    proof -
      from that obtain n where n: "(rid, n) \<in> set plans" by auto
      with 2(2) have "whole_fresh_prompt e (rid, n)" by (auto simp: list_all_iff)
      moreover from p n obtain r where "active_request rid e = Some r" "state r = PREFILLING" by (auto simp: planned_def)
      ultimately show ?thesis by (simp add: fresh_row_def whole_fresh_prompt_def active_request_def)
    qed
    with prefill_batch_ok [OF ok' laws d] 2 cnt check show ?thesis by (simp add: prefill_chunks_def)
  next
    case 3
    let ?e = "e\<lparr>prefill_chunked_calls := prefill_chunked_calls e + 1,
      prefill_chunked_tokens := prefill_chunked_tokens e + sum_list (map snd plans), last_step_prefill_path := ''chunked''\<rparr>"
    have ok': "engine_ok D env {} (\<lambda>_. []) ?e" by (rule engine_ok_bookkeeping [OF ok]) simp_all
    have p': "\<forall>plan \<in> set plans. planned env ?e plan" using p by (simp add: planned_def active_request_def)
    from prefill_viable_ok [OF ok' d p'] obtain got e1 where v: "prefill_viable env plans ?e = Inr (got, e1)"
      "engine_ok D env {} (\<lambda>_. []) e1" "yields ?e e1" "distinct (map fst got)"
      "\<forall>plan \<in> set got. planned env e1 plan \<and> fits PREFILLING chunk_target e1 plan" .
    note st = chunks_staged [OF v(2,4,5)]
    let ?ys = "map (chunk_input e1) got"
    have dk: "distinct (map fst ?ys)" using v(4) unfolding st(3) .
    from forward_sample_rows [OF v(2) laws st(2) dk] obtain logits e2 toks e3 where
      s: "forward_rows env (map (stage e1) ?ys) e1 = (logits, e2)" "sample_rows env (map fst ?ys) logits e2 = Inr (toks, e3)"
        "length toks = length ?ys" "engine_ok D env {} (pending ?ys) e3"
        "\<forall>x r. active_request x e1 = Some r \<longrightarrow> (\<exists>q. active_request x e3 = Some q \<and> same_request r q)"
        "\<forall>i r. i < length ?ys \<longrightarrow> active_request (fst (?ys ! i)) e1 = Some r \<longrightarrow> plain r \<longrightarrow>
          toks ! i = prediction env (row_text e1 (?ys ! i))" .
    have len: "length toks = length got" using s(3) by simp
    have ready: "\<exists>r. active_request (fst (got ! i)) e3 = Some r \<and> state r = PREFILLING \<and>
      0 < snd (got ! i) \<and> snd (got ! i) \<le> remaining_prefill_tokens r \<and>
      pending ?ys (fst (got ! i)) = take (nat (snd (got ! i))) (drop (nat (prefilled_token_count r)) (prefill_token_ids r)) \<and>
      (plain r \<longrightarrow> \<not> resuming r \<longrightarrow> snd (got ! i) = remaining_prefill_tokens r \<longrightarrow> toks ! i = prediction env (prompt_token_ids r))"
      if i: "i < length got" for i
      by (rule chunk_commit_ready [OF v(2) _ dk _ s(5)]) (use v(5) s(6) i in simp_all)
    from commit_prefill_ok [OF s(4) v(4) len ready] obtain e4 where c: "commit_prefill env got toks e3 = Inr e4"
      "engine_ok D env {} (\<lambda>x. if x \<in> fst ` set got then [] else pending ?ys x) e4" by blast
    have "(\<lambda>x. if x \<in> fst ` set got then [] else pending ?ys x) = (\<lambda>_. [])"
      by (rule nothing_pending) (auto simp: image_image)
    with c(2) have ok4: "engine_ok D env {} (\<lambda>_. []) e4" by simp
    show ?thesis
    proof (cases "got = []")
      case True
      with 3 cnt check v(1,2) show ?thesis by (simp add: prefill_chunks_def)
    next
      case False
      have "prefill_chunks env plans e = Inr e4"
        using 3 cnt check v(1) False st(1) s(1,2) c(1) unfolding st(3) by (simp add: prefill_chunks_def del: map_map)
      with ok4 show ?thesis by blast
    qed
  qed
qed

section \<open>The fused forward\<close>

lemma decode_sensible: "sensible DECODING decode_target e row"
  by (cases row) (simp add: sensible_def)

text \<open>What a decode commit finds after the forward and the sampling.\<close>

lemma decode_commit_ready:
  assumes ok: "engine_ok D env {} (\<lambda>_. []) e" and f: "fits DECODING decode_target e (rid, ())"
    and rows: "distinct (map fst rows)" "decode_input e rid \<in> set rows"
    and after: "\<forall>x r. active_request x e = Some r \<longrightarrow> (\<exists>q. active_request x e' = Some q \<and> same_request r q)"
    and tok: "\<forall>r. active_request rid e = Some r \<longrightarrow> plain r \<longrightarrow> tok = prediction env (row_text e (decode_input e rid))"
  shows "\<exists>r. active_request rid e' = Some r \<and> state r = DECODING \<and>
      pending rows rid = [last (output_token_ids r)] \<and> (plain r \<longrightarrow> tok = prediction env (text_of r))"
proof -
  from decode_fits [OF ok f] obtain r where r: "active_request rid e = Some r" "state r = DECODING"
    "row_text e (decode_input e rid) = text_of r" "decode_input e rid = (rid, [last (output_token_ids r)])" .
  from after r(1) obtain q where q: "active_request rid e' = Some q" "same_request r q" by blast
  note same = same_requestD [OF q(2)]
  have "pending rows rid = [last (output_token_ids r)]"
    by (rule pending_row [OF rows(1)]) (use rows(2) r(4) in simp)
  with q(1) r tok show ?thesis by (simp add: same)
qed

lemma fused_bucket_fits:
  "fused_bucket env n d p = Some b \<Longrightarrow> b \<in> set (graph_sizes env) \<and> int d \<le> b \<and> b \<le> max_active env"
  by (auto simp: fused_bucket_def split: option.splits if_splits dest: graph_bucket_fits)

lemma fused_forward_ok:
  assumes ok: "engine_ok D env {} (\<lambda>_. []) e" and laws: "setup_laws env" and dr: "distinct rows"
    and fr: "\<forall>rid \<in> set rows. fits DECODING decode_target e (rid, ())" and dp: "distinct (map fst plans)"
    and p: "\<forall>plan \<in> set plans. planned env e plan \<and> fits PREFILLING chunk_target e plan"
    and b: "bucket = fused_bucket env n (length rows) (length plans)"
  shows "\<exists>staged chunks logits e2 toks e3 e4 e5. prepare_decode_metadata env rows bucket e = Inr staged \<and>
    prepare_prefill_metadata env plans e = Inr chunks \<and> forward_rows env (staged @ chunks) e = (logits, e2) \<and>
    sample_rows env (rows @ map fst plans) (take (length rows) logits @ drop (length staged) logits) e2 = Inr (toks, e3) \<and>
    commit_decode env rows (take (length rows) toks) e3 = Inr e4 \<and>
    commit_prefill env plans (take (length plans) (drop (length rows) toks)) e4 = Inr e5 \<and> engine_ok D env {} (\<lambda>_. []) e5"
proof -
  let ?xs = "map (decode_input e) rows" and ?ys = "map (chunk_input e) plans"
  have "\<forall>b'. bucket = Some b' \<longrightarrow> b' \<in> set (graph_sizes env) \<and> int (length rows) \<le> b' \<and> b' \<le> max_active env"
    using fused_bucket_fits b by metis
  from decode_metadata [OF ok laws dr fr this] obtain slots where m: "set slots \<subseteq> set (dummy_slots e)"
    "prepare_decode_metadata env rows bucket e = Inr (map (stage e) ?xs @ map (dummy_row (pad_token env)) slots)" .
  note st = chunks_staged [OF ok dp p]
  have kx: "map fst ?xs = rows" by (simp add: decode_input_def comp_def)
  have rx: "\<forall>x \<in> set ?xs. runnable e x"
  proof
    fix x assume "x \<in> set ?xs"
    then obtain rid where rid: "rid \<in> set rows" "x = decode_input e rid" by auto
    with fr have "fits DECODING decode_target e (rid, ())" by blast
    from decode_fits [OF ok this] rid(2) show "runnable e x" by blast
  qed
  have apart: "set rows \<inter> fst ` set plans = {}"
  proof (rule ccontr)
    assume "set rows \<inter> fst ` set plans \<noteq> {}"
    then obtain rid k where rk: "rid \<in> set rows" "(rid, k) \<in> set plans" by auto
    with fr obtain r where "active_request rid e = Some r" "state r = DECODING" by (blast elim: fitsD)
    moreover from p rk obtain q where "active_request rid e = Some q" "state q = PREFILLING" by (auto simp: planned_def)
    ultimately show False by simp
  qed
  have keys: "map fst (?xs @ ?ys) = rows @ map fst plans" unfolding map_append kx st(3) ..
  have dist: "distinct (map fst (?xs @ ?ys))" unfolding keys using dr dp apart by simp
  have "\<forall>x \<in> set (?xs @ ?ys). runnable e x" using rx st(2) by auto
  from forward_sample_ok [OF ok laws this dist m(1)] obtain logits e2 toks e3 where
    s: "forward_rows env (map (stage e) ?xs @ map (dummy_row (pad_token env)) slots @ map (stage e) ?ys) e = (logits, e2)"
      "sample_rows env (map fst (?xs @ ?ys)) (take (length ?xs) logits @ drop (length ?xs + length slots) logits) e2 = Inr (toks, e3)"
      "length toks = length (?xs @ ?ys)" "engine_ok D env {} (pending (?xs @ ?ys)) e3" "noted e2 e3" "sch e2 = sch e"
      "\<forall>x r. active_request x e = Some r \<longrightarrow> (\<exists>q. active_request x e3 = Some q \<and> same_request r q)"
      "\<forall>i r. i < length (?xs @ ?ys) \<longrightarrow> active_request (fst ((?xs @ ?ys) ! i)) e = Some r \<longrightarrow> plain r \<longrightarrow>
        toks ! i = prediction env (row_text e ((?xs @ ?ys) ! i))"
      "\<forall>x. table_of x e3 = table_of x e" "mgr e3 = mgr e" .
  let ?t1 = "take (length rows) toks" and ?t2 = "take (length plans) (drop (length rows) toks)"
  have l1: "length ?t1 = length rows" and l2: "length ?t2 = length plans" using s(3) by simp_all
  have ready1: "\<exists>r. active_request (rows ! i) e3 = Some r \<and> state r = DECODING \<and>
      pending (?xs @ ?ys) (rows ! i) = [last (output_token_ids r)] \<and> (plain r \<longrightarrow> ?t1 ! i = prediction env (text_of r))"
    if i: "i < length rows" for i
  proof (rule decode_commit_ready [OF ok _ dist _ s(7)])
    show "\<forall>r. active_request (rows ! i) e = Some r \<longrightarrow> plain r \<longrightarrow> ?t1 ! i = prediction env (row_text e (decode_input e (rows ! i)))"
      using s(8) [THEN spec, of i] i by (simp add: nth_append decode_input_def)
  qed (use i fr in simp_all)
  from commit_decode_ok [OF s(4) dr l1 ready1] obtain e4 where c1: "commit_decode env rows ?t1 e3 = Inr e4"
    "engine_ok D env {} (\<lambda>x. if x \<in> set rows then [] else pending (?xs @ ?ys) x) e4" "kept_outside (set rows) e3 e4" by blast
  have ready2: "\<exists>r. active_request (fst (plans ! i)) e4 = Some r \<and> state r = PREFILLING \<and>
      0 < snd (plans ! i) \<and> snd (plans ! i) \<le> remaining_prefill_tokens r \<and>
      (if fst (plans ! i) \<in> set rows then [] else pending (?xs @ ?ys) (fst (plans ! i))) =
        take (nat (snd (plans ! i))) (drop (nat (prefilled_token_count r)) (prefill_token_ids r)) \<and>
      (plain r \<longrightarrow> \<not> resuming r \<longrightarrow> snd (plans ! i) = remaining_prefill_tokens r \<longrightarrow> ?t2 ! i = prediction env (prompt_token_ids r))"
    if i: "i < length plans" for i
  proof -
    have "fst (plans ! i) \<notin> set rows" using apart i by (metis disjoint_iff image_eqI nth_mem)
    moreover from this have "active_request (fst (plans ! i)) e4 = active_request (fst (plans ! i)) e3"
      using c1(3) by (simp add: kept_outside_def)
    moreover have "\<exists>r. active_request (fst (plans ! i)) e3 = Some r \<and> state r = PREFILLING \<and>
      0 < snd (plans ! i) \<and> snd (plans ! i) \<le> remaining_prefill_tokens r \<and>
      pending (?xs @ ?ys) (fst (plans ! i)) = take (nat (snd (plans ! i))) (drop (nat (prefilled_token_count r)) (prefill_token_ids r)) \<and>
      (plain r \<longrightarrow> \<not> resuming r \<longrightarrow> snd (plans ! i) = remaining_prefill_tokens r \<longrightarrow> ?t2 ! i = prediction env (prompt_token_ids r))"
    proof (rule chunk_commit_ready [OF ok _ dist _ s(7)])
      show "\<forall>r. active_request (fst (plans ! i)) e = Some r \<longrightarrow> plain r \<longrightarrow> ?t2 ! i = prediction env (row_text e (chunk_input e (plans ! i)))"
        using s(8) [THEN spec, of "length rows + i"] s(3) i by (simp add: nth_append)
    qed (use i p in simp_all)
    ultimately show ?thesis by simp
  qed
  from commit_prefill_ok [OF c1(2) dp l2 ready2] obtain e5 where c2: "commit_prefill env plans ?t2 e4 = Inr e5"
    "engine_ok D env {} (\<lambda>x. if x \<in> fst ` set plans then [] else if x \<in> set rows then [] else pending (?xs @ ?ys) x) e5" by blast
  have "(\<lambda>x. if x \<in> fst ` set plans then [] else if x \<in> set rows then [] else pending (?xs @ ?ys) x) =
      (\<lambda>x. if x \<in> set rows \<union> fst ` set plans then [] else pending (?xs @ ?ys) x)" by auto
  also have "\<dots> = (\<lambda>_. [])"
  proof (rule nothing_pending)
    show "fst ` set (?xs @ ?ys) \<subseteq> set rows \<union> fst ` set plans"
      using arg_cong [OF keys, of set] by (simp only: set_map set_append order_refl)
  qed
  finally have "engine_ok D env {} (\<lambda>_. []) e5" using c2(2) by simp
  with m(2) st(1) s(1,2) c1(1) c2(1) show ?thesis unfolding keys by simp
qed

lemma fused_rows_ok:
  assumes ok: "engine_ok D env {} (\<lambda>_. []) e" and laws: "setup_laws env" and di: "distinct ids"
    and f: "\<forall>rid \<in> set ids. fits DECODING decode_target e (rid, ())" and dp: "distinct (map fst plans)"
    and p: "\<forall>plan \<in> set plans. planned env e plan"
  shows "\<exists>ran e'. fused_rows_step env ids plans e = Inr (ran, e') \<and> engine_ok D env {} (\<lambda>_. []) e'"
proof -
  have "\<exists>got e1. (if plans = [] then Inr ([], e) else prefill_viable env plans e) = Inr (got, e1) \<and>
      engine_ok D env {} (\<lambda>_. []) e1 \<and> yields e e1 \<and> distinct (map fst got) \<and>
      (\<forall>plan \<in> set got. planned env e1 plan \<and> fits PREFILLING chunk_target e1 plan)"
  proof (cases "plans = []")
    case True
    with ok show ?thesis by simp
  next
    case False
    with prefill_viable_ok [OF ok dp p] show ?thesis by (metis (no_types, lifting))
  qed
  then obtain got e1 where g: "(if plans = [] then Inr ([], e) else prefill_viable env plans e) = Inr (got, e1)"
    "engine_ok D env {} (\<lambda>_. []) e1" "yields e e1" "distinct (map fst got)"
    "\<forall>plan \<in> set got. planned env e1 plan \<and> fits PREFILLING chunk_target e1 plan" by blast
  define rows where "rows = filter (\<lambda>rid. live DECODING rid e1) ids"
  have dr: "distinct rows" using di by (simp add: rows_def)
  have fr: "\<forall>rid \<in> set rows. fits DECODING decode_target e1 (rid, ())"
  proof
    fix rid assume "rid \<in> set rows"
    then have rid: "rid \<in> set ids" "active_request rid e1 \<noteq> None" by (auto simp: rows_def live_iff [OF g(2)])
    show "fits DECODING decode_target e1 (rid, ())"
      by (rule fits_yields [OF _ decode_sensible g(3,2) rid(2)]) (use f rid(1) in blast)
  qed
  note start = fused_rows_step_def [of env ids plans e, unfolded g(1) and_then_simps prod.case Let_def, folded rows_def]
  consider "got = []" | "got \<noteq> []" "rows = []" | "got \<noteq> []" "rows \<noteq> []" by blast
  then show ?thesis
  proof cases
    case 1
    from decode_rows_ok [OF g(2) laws dr fr] g(2) 1 show ?thesis unfolding start by (cases "rows = []") auto
  next
    case 2
    from prefill_chunks_ok [OF g(2) laws g(4)] g(5) 2 show ?thesis unfolding start by auto
  next
    case 3
    let ?e = "e1\<lparr>prefill_chunked_calls := prefill_chunked_calls e1 + 1,
        prefill_chunked_tokens := prefill_chunked_tokens e1 + sum_list (map snd got), last_step_prefill_path := ''fused''\<rparr>"
    have ok': "engine_ok D env {} (\<lambda>_. []) ?e" by (rule engine_ok_bookkeeping [OF g(2)]) simp_all
    have same: "fits st target ?e row = fits st target e1 row" "planned env ?e plan = planned env e1 plan" for st target row plan
      by (simp_all add: fits_def planned_def active_request_def table_of_def)
    have fr': "\<forall>rid \<in> set rows. fits DECODING decode_target ?e (rid, ())" using fr by (simp only: same)
    have p': "\<forall>plan \<in> set got. planned env ?e plan \<and> fits PREFILLING chunk_target ?e plan" using g(5) by (simp only: same)
    from fused_forward_ok [OF ok' laws dr fr' g(4) p' refl, of "ticks e1"] obtain staged chunks logits e2 toks e3 e4 e5 where
      w: "prepare_decode_metadata env rows (fused_bucket env (ticks e1) (length rows) (length got)) ?e = Inr staged"
        "prepare_prefill_metadata env got ?e = Inr chunks" "forward_rows env (staged @ chunks) ?e = (logits, e2)"
        "sample_rows env (rows @ map fst got) (take (length rows) logits @ drop (length staged) logits) e2 = Inr (toks, e3)"
        "commit_decode env rows (take (length rows) toks) e3 = Inr e4"
        "commit_prefill env got (take (length got) (drop (length rows) toks)) e4 = Inr e5" "engine_ok D env {} (\<lambda>_. []) e5" by blast
    with 3 show ?thesis unfolding start by (intro exI [of _ True] exI [of _ e5]) simp
  qed
qed

section \<open>Speculation\<close>

definition proposal_row :: "'g engine_setup \<Rightarrow> 'g engine \<Rightarrow> string \<times> int list \<Rightarrow> bool" where
  "proposal_row env e row \<longleftrightarrow> snd row \<noteq> [] \<and> int (length (snd row)) + 1 \<le> prefill_chunk_size env \<and>
     (\<forall>r. active_request (fst row) e = Some r \<longrightarrow> plain r)"

lemma note_fallback_ok:
  assumes ok: "engine_ok D env {} pend e" and r: "active_request rid e = Some r"
  obtains e' where "note_fallback rid e = Inr e'" and "engine_ok D env {} pend e'" and "noted e e'"
proof -
  let ?q = "r\<lparr>speculative_fallbacks := speculative_fallbacks r + 1\<rparr>"
  have same: "same_request r ?q" unfolding same_request_def by (intro exI [of _ "output_logprobs r"] exI) simp
  note put = put_same [OF ok r same]
  define e' where "e' = (put_request rid ?q e)\<lparr>spec_fallbacks := spec_fallbacks (put_request rid ?q e) + 1\<rparr>"
  have "engine_ok D env {} pend e'" by (rule engine_ok_bookkeeping [OF put(1)]) (simp_all add: e'_def)
  moreover have "noted e e'" using put(2) by (simp add: noted_def e'_def active_request_def)
  moreover have "note_fallback rid e = Inr e'" using r by (simp add: note_fallback_def change_request_def with_request_def e'_def)
  ultimately show thesis using that by blast
qed

lemma propose_bound:
  assumes laws: "setup_laws env" and el: "speculation_eligible env rid e"
  shows "int (length (propose_for env rid e)) + 1 \<le> prefill_chunk_size env" and "\<exists>r. active_request rid e = Some r \<and> plain r"
proof -
  from el obtain f r where f: "proposer env = Some f" and r: "active_request rid e = Some r" "plain r"
    "max_new_tokens r - int (length (output_token_ids r)) \<ge> 2" by (auto simp: speculation_eligible_def split: option.splits)
  then show "\<exists>r. active_request rid e = Some r \<and> plain r" by blast
  let ?k = "min (speculation_depth env) (max_new_tokens r - int (length (output_token_ids r)) - 1)"
  have "int (length (propose_for env rid e)) \<le> max 0 ?k"
    using laws f r by (simp add: setup_laws_def propose_for_def)
  with laws show "int (length (propose_for env rid e)) + 1 \<le> prefill_chunk_size env" by (auto simp: setup_laws_def)
qed

lemma noted_tick [simp]: "noted e (tick e') = noted e e'" "noted (tick e) e' = noted e e'"
  by (simp_all add: noted_def)

lemma noted_back:
  assumes "noted e e'" and "active_request x e' = Some q"
  shows "\<exists>r. active_request x e = Some r \<and> same_request r q"
proof (cases "active_request x e")
  case None
  with assms show ?thesis by (auto simp: noted_def)
next
  case (Some r)
  with assms obtain q' where "active_request x e' = Some q'" "same_request r q'" unfolding noted_def by blast
  with assms(2) Some show ?thesis by simp
qed

lemma proposal_row_noted:
  assumes p: "proposal_row env e row" and n: "noted e e'"
  shows "proposal_row env e' row"
proof -
  have "plain q" if "active_request (fst row) e' = Some q" for q
  proof -
    from noted_back [OF n that] obtain r where r: "active_request (fst row) e = Some r" "same_request r q" by blast
    with p have "plain r" by (simp add: proposal_row_def)
    then show ?thesis by (simp add: same_requestD(7) [OF r(2)])
  qed
  with p show ?thesis by (simp add: proposal_row_def)
qed

lemma split_rows_ok:
  assumes laws: "setup_laws env" and "engine_ok D env {} pend e" and "distinct ids" and "\<forall>rid \<in> set ids. active_request rid e \<noteq> None"
  shows "\<exists>rows ordinary e'. split_rows env ids e = Inr (rows, ordinary, e') \<and> engine_ok D env {} pend e' \<and> noted e e' \<and>
    distinct (map fst rows) \<and> distinct ordinary \<and> fst ` set rows \<subseteq> set ids \<and> set ordinary \<subseteq> set ids \<and>
    (\<forall>row \<in> set rows. proposal_row env e' row)"
  using assms(2-4)
proof (induction ids arbitrary: e)
  case (Cons rid ids)
  note ok = Cons.prems(1)
  obtain r where r: "active_request rid e = Some r" using Cons.prems(3) by auto
  define ps where "ps = (if speculation_eligible env rid e then propose_for env rid e else [])"
  show ?case
  proof (cases "ps = []")
    case True
    from note_fallback_ok [OF ok r] obtain e1 where e1: "note_fallback rid e = Inr e1" "engine_ok D env {} pend e1" "noted e e1" .
    have "\<forall>x \<in> set ids. active_request x e1 \<noteq> None"
    proof
      fix x assume "x \<in> set ids"
      with Cons.prems(3) obtain q where "active_request x e = Some q" by auto
      with e1(3) show "active_request x e1 \<noteq> None" unfolding noted_def by blast
    qed
    with Cons.IH [OF e1(2)] Cons.prems(2) obtain rows ordinary e2 where i: "split_rows env ids e1 = Inr (rows, ordinary, e2)"
      "engine_ok D env {} pend e2" "noted e1 e2" "distinct (map fst rows)" "distinct ordinary" "fst ` set rows \<subseteq> set ids"
      "set ordinary \<subseteq> set ids" "\<forall>row \<in> set rows. proposal_row env e2 row" by auto
    have "split_rows env (rid # ids) e = Inr (rows, rid # ordinary, e2)"
      using True e1(1) i(1) by (simp add: ps_def Let_def)
    moreover have "noted e e2" using e1(3) i(3) by (rule noted_trans)
    ultimately show ?thesis using i Cons.prems(2) by (intro exI [of _ rows] exI [of _ "rid # ordinary"] exI [of _ e2]) auto
  next
    case False
    then have el: "speculation_eligible env rid e" by (auto simp: ps_def split: if_splits)
    note b = propose_bound [OF laws el]
    have ok1: "engine_ok D env {} pend (tick e)" using ok by simp
    have "\<forall>x \<in> set ids. active_request x (tick e) \<noteq> None" using Cons.prems(3) by simp
    with Cons.IH [OF ok1] Cons.prems(2) obtain rows ordinary e2 where i: "split_rows env ids (tick e) = Inr (rows, ordinary, e2)"
      "engine_ok D env {} pend e2" "noted (tick e) e2" "distinct (map fst rows)" "distinct ordinary" "fst ` set rows \<subseteq> set ids"
      "set ordinary \<subseteq> set ids" "\<forall>row \<in> set rows. proposal_row env e2 row" by auto
    have n: "noted e e2" using i(3) by simp
    have "split_rows env (rid # ids) e = Inr ((rid, ps) # rows, ordinary, e2)"
      using False i(1) by (simp add: ps_def Let_def)
    moreover have "proposal_row env e (rid, ps)" using False b el by (auto simp: proposal_row_def ps_def)
    then have "proposal_row env e2 (rid, ps)" using n by (rule proposal_row_noted)
    ultimately show ?thesis using i n Cons.prems(2)
      by (intro exI [of _ "(rid, ps) # rows"] exI [of _ ordinary] exI [of _ e2]) auto
  qed
qed simp

definition verify_input :: "'g engine \<Rightarrow> string \<times> int list \<Rightarrow> string \<times> int list" where
  "verify_input e row = (fst row, last (output_token_ids (the (active_request (fst row) e))) # snd row)"

abbreviation verify_target :: "nat \<Rightarrow> request \<Rightarrow> kv_allocation \<Rightarrow> int list \<Rightarrow> int" where
  "verify_target depth \<equiv> \<lambda>r a ps. sequence_length a + int (depth + 1)"

lemma verify_fits:
  assumes ok: "engine_ok D env {} (\<lambda>_. []) e" and f: "fits DECODING (verify_target depth) e (rid, ps)" and len: "length ps = depth"
  obtains r where "active_request rid e = Some r" and "state r = DECODING"
    and "verify_row e (depth + 1) (rid, ps) = Inr (stage e (verify_input e (rid, ps)))" and "runnable e (verify_input e (rid, ps))"
    and "verify_input e (rid, ps) = (rid, last (output_token_ids r) # ps)"
    and "\<forall>i. row_text e (rid, take (Suc i) (last (output_token_ids r) # ps)) = text_of r @ take i ps"
proof -
  from f obtain r a where r: "active_request rid e = Some r" and a: "table_of rid e = Some a" and st: "state r = DECODING"
    and c: "sequence_length a + int (depth + 1) \<le> capacity_tokens a" and o: "owns_rest (mgr e) rid" by (elim fitsD) auto
  have h: "output_token_ids r \<noteq> []" "req_next_token_id r = Some (last (output_token_ids r))"
    "sequence_length a = int (length (text_of r)) - 1"
    using active_ok(2) [OF ok _ r a] st by (simp_all add: holding_def)
  have inp: "verify_input e (rid, ps) = (rid, last (output_token_ids r) # ps)" using r by (simp add: verify_input_def)
  have "verify_row e (depth + 1) (rid, ps) = Inr (stage e (verify_input e (rid, ps)))"
    using r a h(2) len by (simp add: verify_row_def stage_def inp)
  moreover have "runnable e (verify_input e (rid, ps))" using r a c o len by (simp add: runnable_def inp)
  moreover have "row_text e (rid, take (Suc i) (last (output_token_ids r) # ps)) = text_of r @ take i ps" for i
    using decoding_text [OF h(1,3)] r a by (simp add: row_text_def append_eq_append_conv2)
  ultimately show thesis using that [OF r st] inp by blast
qed

text \<open>Requests outside \<open>K\<close> that are still there have not changed.\<close>

definition survives_outside :: "string set \<Rightarrow> 'g engine \<Rightarrow> 'g engine \<Rightarrow> bool" where
  "survives_outside K e e' \<longleftrightarrow> (\<forall>x q. x \<notin> K \<longrightarrow> active_request x e' = Some q \<longrightarrow> active_request x e = Some q)"

lemma in_order_rows [simp]: "set (in_arrival_order e rows) = set rows"
  by (simp add: in_arrival_order_def)

lemma in_order_distinct: "distinct (map fst rows) \<Longrightarrow> distinct (map fst (in_arrival_order e rows))"
proof -
  assume d: "distinct (map fst rows)"
  have "mset (map fst (in_arrival_order e rows)) = mset (map fst rows)" by (simp add: in_arrival_order_def)
  with d show ?thesis by (metis mset_eq_imp_distinct_iff)
qed

lemma verify_sensible: "sensible DECODING (verify_target depth) e row"
  by (cases row) (simp add: sensible_def)

lemma commit_speculative_ok:
  assumes ok: "engine_ok D env {} pend e" and d: "distinct (map fst rows)" and len: "length preds = length rows" and dep: "0 < depth"
    and rows: "\<And>i. i < length rows \<Longrightarrow> \<exists>r. active_request (fst (rows ! i)) e = Some r \<and> state r = DECODING \<and> plain r \<and>
      length (snd (rows ! i)) = depth \<and> pend (fst (rows ! i)) = last (output_token_ids r) # snd (rows ! i) \<and>
      preds ! i = map (\<lambda>k. prediction env (text_of r @ take k (snd (rows ! i)))) [0..<Suc depth]"
  shows "\<exists>e'. for_each (commit_speculative_row env depth) (zip rows preds) e = Inr e' \<and>
    engine_ok D env {} (\<lambda>x. if x \<in> fst ` set rows then [] else pend x) e' \<and> kept_outside (fst ` set rows) e e'"
proof -
  let ?A = "\<lambda>(row :: (string \<times> int list) \<times> int list) r p. state r = DECODING \<and> plain r \<and> length (snd (fst row)) = depth \<and>
      p = last (output_token_ids r) # snd (fst row) \<and>
      snd row = map (\<lambda>k. prediction env (text_of r @ take k (snd (fst row)))) [0..<Suc depth]"
  have keys: "(\<lambda>row. fst (fst row)) ` set (zip rows preds) = fst ` set rows"
    using zip_rows(2) [OF len] by (metis image_image)
  have "\<exists>e'. for_each (commit_speculative_row env depth) (zip rows preds) e = Inr e' \<and>
      engine_ok D env {} (\<lambda>x. if x \<in> (\<lambda>row. fst (fst row)) ` set (zip rows preds) then [] else pend x) e' \<and>
      kept_outside ((\<lambda>row. fst (fst row)) ` set (zip rows preds)) e e'"
  proof (rule commit_requests [where A = ?A, OF ok])
    have "map (\<lambda>row. fst (fst row)) (zip rows preds) = map fst (map fst (zip rows preds))" by simp
    then show "distinct (map (\<lambda>row. fst (fst row)) (zip rows preds))" using d len by (simp del: map_map)
    show "\<forall>row \<in> set (zip rows preds). \<exists>r. active_request (fst (fst row)) e = Some r \<and> ?A row r (pend (fst (fst row)))"
      by (rule zip_rows(1) [OF len]) (use rows in simp)
    show "\<exists>e'. commit_speculative_row env depth row e1 = Inr e' \<and> engine_ok D env {} (pend1(fst (fst row) := [])) e' \<and>
        others_kept (fst (fst row)) e1 e'"
      if ok1: "engine_ok D env {} pend1 e1" and r: "active_request (fst (fst row)) e1 = Some r"
        and q: "?A row r (pend1 (fst (fst row)))" for row e1 pend1 r
    proof -
      obtain rid ps pr where row: "row = ((rid, ps), pr)" by (metis prod.collapse)
      have ne: "ps \<noteq> []" using q dep by (auto simp: row)
      show ?thesis
        by (rule commit_speculative_row_ok [OF ok1 _ _ _ _ ne, of rid r depth pr]) (use r q in \<open>auto simp: row\<close>)
    qed
  qed
  then show ?thesis unfolding keys .
qed

lemma speculative_rows_ok:
  assumes ok: "engine_ok D env {} (\<lambda>_. []) e" and d: "distinct (map fst rows0)" and dep: "0 < depth"
    and p: "\<forall>row \<in> set rows0. length (snd row) = depth \<and> proposal_row env e row"
  shows "\<exists>e'. speculative_rows_step env depth rows0 e = Inr e' \<and> engine_ok D env {} (\<lambda>_. []) e' \<and>
    survives_outside (fst ` set rows0) e e'"
proof -
  let ?in = "in_arrival_order e rows0"
  have "\<forall>row \<in> set ?in. sensible DECODING (verify_target depth) e row" using verify_sensible by blast
  from viable_rows_ok [OF ok this] obtain rows e1 where v: "viable_rows env DECODING (verify_target depth) ?in e = Inr (rows, e1)"
    "engine_ok D env {} (\<lambda>_. []) e1" "yields e e1" "subseq rows ?in" "\<forall>row \<in> set rows. fits DECODING (verify_target depth) e1 row" .
  have sub: "set rows \<subseteq> set rows0" using subseq_rows(1) [OF v(4)] by simp
  have dr: "distinct (map fst rows)"
    using subseq_rows(2) [OF subseq_map [OF v(4), of fst] in_order_distinct [OF d]] .
  have y: "survives_outside (fst ` set rows0) e e1" using yieldsD(1) [OF v(3)] by (auto simp: survives_outside_def)
  show ?thesis
  proof (cases "rows = []")
    case True
    with v(1,2) y show ?thesis by (simp add: speculative_rows_step_def)
  next
    case False
    let ?ys = "map (verify_input e1) rows"
    have each: "\<exists>r. active_request (fst row) e1 = Some r \<and> state r = DECODING \<and> plain r \<and> length (snd row) = depth \<and>
        verify_row e1 (depth + 1) row = Inr (stage e1 (verify_input e1 row)) \<and> runnable e1 (verify_input e1 row) \<and>
        verify_input e1 row = (fst row, last (output_token_ids r) # snd row) \<and>
        (\<forall>i. row_text e1 (fst row, take (Suc i) (last (output_token_ids r) # snd row)) = text_of r @ take i (snd row))"
      if row: "row \<in> set rows" for row
    proof -
      from p sub row have pr: "length (snd row) = depth" "proposal_row env e row" by blast+
      have "fits DECODING (verify_target depth) e1 (fst row, snd row)" using v(5) row by simp
      from verify_fits [OF v(2) this pr(1)] obtain r where r: "active_request (fst row) e1 = Some r" "state r = DECODING"
        "verify_row e1 (depth + 1) (fst row, snd row) = Inr (stage e1 (verify_input e1 (fst row, snd row)))"
        "runnable e1 (verify_input e1 (fst row, snd row))" "verify_input e1 (fst row, snd row) = (fst row, last (output_token_ids r) # snd row)"
        "\<forall>i. row_text e1 (fst row, take (Suc i) (last (output_token_ids r) # snd row)) = text_of r @ take i (snd row)" .
      have "plain r" using pr(2) yieldsD(1) [OF v(3) r(1)] by (simp add: proposal_row_def)
      with r pr(1) show ?thesis by simp
    qed
    have "int (depth + 1) \<le> prefill_chunk_size env"
    proof -
      from False obtain row where "row \<in> set rows" by (cases rows) auto
      with p sub have "length (snd row) = depth" "proposal_row env e row" by blast+
      then show ?thesis by (simp add: proposal_row_def)
    qed
    moreover have "traverse (verify_row e1 (depth + 1)) rows = Inr (map (\<lambda>row. stage e1 (verify_input e1 row)) rows)"
      by (rule traverse_total) (use each in blast)
    ultimately have st: "prepare_verify_metadata env rows (depth + 1) e1 = Inr (map (stage e1) ?ys)"
      using False dep by (simp add: prepare_verify_metadata_def comp_def)
    have can: "\<forall>x \<in> set ([] @ ?ys). runnable e1 x" using each by auto
    have keys: "map fst ?ys = map fst rows" by (simp add: verify_input_def comp_def)
    have dk: "distinct (map fst ([] @ ?ys))" using dr by (simp only: append_Nil keys)
    define kv where "kv = write_rows (mgr_block_size (mgr e1)) (map (stage e1) ?ys) (pages e1)"
    define preds where "preds = map (\<lambda>row. map (\<lambda>l. int (argmax l)) (row_logits (model_logits env) (mgr_block_size (mgr e1)) kv row)) (map (stage e1) ?ys)"
    have ver: "verify_predictions env (map (stage e1) ?ys) e1 = (preds, e1\<lparr>pages := kv\<rparr>)"
      by (simp add: verify_predictions_def Let_def kv_def preds_def)
    have kv': "kv = write_rows (mgr_block_size (mgr e1)) (map (stage e1) [] @ map (dummy_row 0) [] @ map (stage e1) ?ys) (pages e1)"
      by (simp add: kv_def)
    have no_slots: "set [] \<subseteq> set (dummy_slots e1)" by simp
    note f = forward_ok [OF v(2) can dk no_slots kv']
    let ?e = "e1\<lparr>pages := kv\<rparr>"
    have ok2: "engine_ok D env {} (pending ?ys) ?e" using f(1) by simp
    have act: "active_request x ?e = active_request x e1" for x by (simp add: active_request_def)
    have lp: "length preds = length rows" by (simp add: preds_def)
    have ready: "\<exists>r. active_request (fst (rows ! i)) ?e = Some r \<and> state r = DECODING \<and> plain r \<and>
      length (snd (rows ! i)) = depth \<and> pending ?ys (fst (rows ! i)) = last (output_token_ids r) # snd (rows ! i) \<and>
      preds ! i = map (\<lambda>k. prediction env (text_of r @ take k (snd (rows ! i)))) [0..<Suc depth]"
      if i: "i < length rows" for i
    proof -
      have mem: "rows ! i \<in> set rows" using i by simp
      from each [OF mem] obtain r where r: "active_request (fst (rows ! i)) e1 = Some r" "state r = DECODING" "plain r"
        "length (snd (rows ! i)) = depth" "verify_input e1 (rows ! i) = (fst (rows ! i), last (output_token_ids r) # snd (rows ! i))"
        "\<forall>k. row_text e1 (fst (rows ! i), take (Suc k) (last (output_token_ids r) # snd (rows ! i))) = text_of r @ take k (snd (rows ! i))" by blast
      have inp: "(fst (rows ! i), last (output_token_ids r) # snd (rows ! i)) \<in> set ?ys"
        using r(5) mem by (metis image_eqI image_set)
      have "pending ?ys (fst (rows ! i)) = last (output_token_ids r) # snd (rows ! i)"
        by (rule pending_row [OF _ inp]) (use dk in simp)
      moreover have "row_logits (model_logits env) (mgr_block_size (mgr e1)) kv (stage e1 (verify_input e1 (rows ! i))) =
          map (\<lambda>k. model_logits env (text_of r @ take k (snd (rows ! i)))) [0..<Suc depth]"
      proof -
        have "(fst (rows ! i), last (output_token_ids r) # snd (rows ! i)) \<in> set ([] @ ?ys)" using inp by simp
        from f(3) [OF this, of "model_logits env"] show ?thesis unfolding r(5) by (simp only: r(6) length_Cons r(4))
      qed
      then have "preds ! i = map (\<lambda>k. prediction env (text_of r @ take k (snd (rows ! i)))) [0..<Suc depth]"
        using i by (simp add: preds_def prediction_def)
      ultimately show ?thesis using r(1-4) by (simp add: act)
    qed
    from commit_speculative_ok [OF ok2 dr lp dep ready] obtain e3 where c: "for_each (commit_speculative_row env depth) (zip rows preds) ?e = Inr e3"
      "engine_ok D env {} (\<lambda>x. if x \<in> fst ` set rows then [] else pending ?ys x) e3" "kept_outside (fst ` set rows) ?e e3" by blast
    have "(\<lambda>x. if x \<in> fst ` set rows then [] else pending ?ys x) = (\<lambda>_. [])"
      by (rule nothing_pending) (use arg_cong [OF keys, of set] in \<open>simp only: set_map order_refl\<close>)
    with c(2) have ok3: "engine_ok D env {} (\<lambda>_. []) e3" by simp
    have "survives_outside (fst ` set rows0) e e3"
      unfolding survives_outside_def
    proof (intro allI impI)
      fix x q assume x: "x \<notin> fst ` set rows0" and q: "active_request x e3 = Some q"
      from x sub have "x \<notin> fst ` set rows" by blast
      with c(3) q have "active_request x e1 = Some q" by (simp add: kept_outside_def act)
      then show "active_request x e = Some q" by (rule yieldsD(1) [OF v(3)])
    qed
    moreover have "speculative_rows_step env depth rows0 e = Inr e3"
      using v(1) False st ver c(1) by (simp add: speculative_rows_step_def del: map_map)
    ultimately show ?thesis using ok3 by blast
  qed
qed

lemma groups_ok:
  assumes "engine_ok D env {} (\<lambda>_. []) e" and dr: "distinct (map fst rows)" and "distinct depths"
    and "\<forall>row \<in> set rows. length (snd row) \<in> set depths \<longrightarrow> proposal_row env e row"
  shows "\<exists>e'. for_each (speculative_group env rows) depths e = Inr e' \<and> engine_ok D env {} (\<lambda>_. []) e'"
  using assms(1,3,4)
proof (induction depths arbitrary: e)
  case (Cons depth depths)
  let ?g = "filter (\<lambda>(rid, ps). length ps = depth \<and> live DECODING rid e) rows"
  have g: "set ?g \<subseteq> set rows" "distinct (map fst ?g)" using dr by (auto simp: distinct_map_filter)
  have "\<exists>e1. speculative_group env rows depth e = Inr e1 \<and> engine_ok D env {} (\<lambda>_. []) e1 \<and> survives_outside (fst ` set ?g) e e1"
  proof (cases "?g = []")
    case True
    with Cons.prems(1) show ?thesis by (simp add: speculative_group_def survives_outside_def)
  next
    case False
    have rows: "\<forall>row \<in> set ?g. length (snd row) = depth \<and> proposal_row env e row" using Cons.prems(3) by auto
    have "0 < depth"
    proof -
      from False obtain row where row: "row \<in> set ?g" by (cases ?g) auto
      with rows have "length (snd row) = depth" "snd row \<noteq> []" by (auto simp: proposal_row_def)
      then show ?thesis by auto
    qed
    from speculative_rows_ok [OF Cons.prems(1) g(2) this rows] False show ?thesis by (simp add: speculative_group_def)
  qed
  then obtain e1 where e1: "speculative_group env rows depth e = Inr e1" "engine_ok D env {} (\<lambda>_. []) e1"
    "survives_outside (fst ` set ?g) e e1" by blast
  have "\<forall>row \<in> set rows. length (snd row) \<in> set depths \<longrightarrow> proposal_row env e1 row"
  proof (intro ballI impI)
    fix row assume row: "row \<in> set rows" and len: "length (snd row) \<in> set depths"
    have "fst row \<notin> fst ` set ?g"
    proof
      assume "fst row \<in> fst ` set ?g"
      then obtain row' where row': "row' \<in> set ?g" "fst row' = fst row" by auto
      have "row' \<in> set rows" by (rule subsetD [OF g(1) row'(1)])
      moreover have "(fst row, snd row') = row'" using row'(2) by (simp add: prod_eq_iff)
      ultimately have "(fst row, snd row') \<in> set rows" "(fst row, snd row) \<in> set rows" using row by simp_all
      from eq_key_imp_eq_value [OF dr this] have "length (snd row) = depth" using row'(1) by auto
      with len Cons.prems(2) show False by simp
    qed
    with e1(3) Cons.prems(3) row len show "proposal_row env e1 row" by (auto simp: survives_outside_def proposal_row_def)
  qed
  with Cons.IH [OF e1(2)] Cons.prems(2) e1(1) show ?case by simp
qed simp

lemma speculative_step_ok:
  assumes ok: "engine_ok D env {} (\<lambda>_. []) e" and laws: "setup_laws env" and d: "distinct ids"
    and act: "\<forall>rid \<in> set ids. active_request rid e \<noteq> None"
  shows "\<exists>e'. speculative_decode_step env ids e = Inr e' \<and> engine_ok D env {} (\<lambda>_. []) e'"
proof -
  from split_rows_ok [OF laws ok d act] obtain rows ordinary e1 where s: "split_rows env ids e = Inr (rows, ordinary, e1)"
    "engine_ok D env {} (\<lambda>_. []) e1" "distinct (map fst rows)" "distinct ordinary" "\<forall>row \<in> set rows. proposal_row env e1 row" by blast
  let ?depths = "sort (remdups (map (\<lambda>(rid, ps). length ps) rows))"
  have "distinct ?depths" by simp
  from groups_ok [OF s(2,3) this] s(5) obtain e2 where g: "for_each (speculative_group env rows) ?depths e1 = Inr e2"
    "engine_ok D env {} (\<lambda>_. []) e2" by blast
  have "distinct (filter (\<lambda>rid. live DECODING rid e2) ordinary)" using s(4) by simp
  from decode_step_ok [OF g(2) laws this] s(1) g show ?thesis by (auto simp: speculative_decode_step_def Let_def)
qed

end
