(* ===== verification/Engine_Admit.thy ===== *)
theory Engine_Admit
  imports Engine_Batch
begin

text \<open>
  Admission into \<open>ContinuousBatchingEngine\<close>: a request that gets pages, from the prefix
  cache or fresh, starts in the engine's invariant, and the requests already active keep
  their tables and the blocks that are their own.
\<close>

section \<open>Pages for a waiting request\<close>

lemma lookup_prediction:
  "cache_lookup m toks allow pc = Inr (x, pc') \<Longrightarrow> match_next_token_id x = Some t \<Longrightarrow>
     \<exists>e. map_of (exact pc) toks = Some e \<and> next_token_id e = t"
  by (auto simp: cache_lookup_def Let_def split: option.splits if_splits)

text \<open>What the other requests see of it.\<close>

definition pool_gain :: "string \<Rightarrow> sched \<Rightarrow> sched \<Rightarrow> bool" where
  "pool_gain rid s s1 \<longleftrightarrow> pool_changed s s1 \<and>
     (\<forall>pc. cache s = Some pc \<longrightarrow> (\<exists>pc1. cache s1 = Some pc1 \<and> shrinks pc pc1)) \<and>
     (\<forall>x. x \<noteq> rid \<longrightarrow> requests (manager s1) x = requests (manager s) x) \<and>
     (\<forall>x b. x \<noteq> rid \<longrightarrow> sole (manager s) x b \<longrightarrow> sole (manager s1) x b)"

lemma sole_stays:
  assumes own: "owners (allocator m1) b \<subseteq> owners (allocator m) b"
    and keep: "allocations (allocator m1) (Req x) = allocations (allocator m) (Req x)" and s: "sole m x b"
  shows "sole m1 x b"
proof -
  have "Req x \<in> owners (allocator m) b" using s by (simp add: sole_def)
  then have "Req x \<in> owners (allocator m1) b" using keep by (simp add: owners_of_def)
  with own s show ?thesis by (auto simp: sole_def)
qed

text \<open>The new table, as the invariant of a prefilling request asks for it.\<close>

definition starts :: "(nat \<Rightarrow> int list) \<Rightarrow> int \<Rightarrow> request \<Rightarrow> int \<Rightarrow> kv_allocation \<Rightarrow> bool" where
  "starts kv bs r k a \<longleftrightarrow> sequence_length a = k \<and>
     int (length (physical_block_ids a)) \<le> ceil_div (prefill_token_count r) bs \<and>
     table_holds kv (nat bs) (take (nat k) (prefill_token_ids r)) (physical_block_ids a)"

lemma attach_gain:
  assumes minv: "mgr_inv m" and good: "good_match kv m toks x" and new: "requests m rid = None"
    and shape: "shared_shape m" and run: "attach_prefix m rid (match_block_ids x) (token_count x) = Inr (a, m1)"
    and toks: "toks = prefill_token_ids r" "int (length toks) = prefill_token_count r"
    and full: "\<not> exact_match x \<Longrightarrow> token_count x = int (length (match_block_ids x)) * mgr_block_size m"
  shows "starts kv (mgr_block_size m) r (token_count x) a" and "requests m1 = (requests m)(rid \<mapsto> a)"
    and "y \<noteq> rid \<Longrightarrow> sole m y b \<Longrightarrow> sole m1 y b" and "shared_shape m1" and "mgr_block_size m1 = mgr_block_size m"
    and "num_blocks (allocator m1) = num_blocks (allocator m)"
proof -
  let ?bs = "mgr_block_size m" and ?tab = "match_block_ids x"
  note pos = mgr_invD(4) [OF minv]
  from run obtain q al where al: "block_attach (allocator m) (Req rid) ?tab = Inr (q, al)"
    and a: "a = \<lparr>kv_request_id = rid, kv_block_size = ?bs, physical_block_ids = ?tab, sequence_length = token_count x\<rparr>"
    and m1: "m1 = m\<lparr>allocator := al, requests := (requests m)(rid \<mapsto> a)\<rparr>"
    by (auto simp: attach_prefix_def Let_def split: if_splits)
  show "requests m1 = (requests m)(rid \<mapsto> a)" "mgr_block_size m1 = ?bs" by (simp_all add: m1)
  show "num_blocks (allocator m1) = num_blocks (allocator m)" using attach_const [OF al] by (simp add: m1)
  from good have g: "0 \<le> token_count x" "token_count x \<le> int (length toks)"
    "int (length ?tab) = ceil_div (token_count x) ?bs"
    "\<And>j. j < length ?tab \<Longrightarrow> kv (?tab ! j) = take (Suc j * nat ?bs) toks \<and> (\<exists>w. \<not> is_request w \<and> w \<in> owners (allocator m) (?tab ! j))"
    "exact_match x \<Longrightarrow> token_count x = int (length toks)"
    by (auto simp: good_match_def split: if_splits)
  have "ceil_div (token_count x) ?bs \<le> ceil_div (prefill_token_count r) ?bs"
    using g(2) toks(2) ceil_div_le_iff [OF pos] ceil_div_covers [OF pos, of "prefill_token_count r"] by fastforce
  moreover have "table_holds kv (nat ?bs) (take (nat (token_count x)) toks) ?tab"
    unfolding table_holds_def
  proof (intro allI impI)
    fix i assume i: "i < length ?tab" "i * nat ?bs < length (take (nat (token_count x)) toks)"
    have "take (Suc i * nat ?bs) toks = take (Suc i * nat ?bs) (take (nat (token_count x)) toks)"
    proof (cases "exact_match x")
      case True
      with g(5) show ?thesis by simp
    next
      case False
      have "int (Suc i) * ?bs \<le> int (length ?tab) * ?bs" by (rule mult_right_mono) (use i(1) pos in simp_all)
      moreover have "int (Suc i * nat ?bs) = int (Suc i) * ?bs" using pos by (simp add: algebra_simps)
      ultimately have "Suc i * nat ?bs \<le> nat (token_count x)" using full [OF False] by linarith
      then show ?thesis by (simp add: min_absorb1)
    qed
    with g(4) [OF i(1)] show "kv (?tab ! i) = take (Suc i * nat ?bs) (take (nat (token_count x)) toks)" by simp
  qed
  ultimately show "starts kv ?bs r (token_count x) a" using g(3) toks(1) by (simp add: starts_def a)
  have alloc: "allocations al = (allocations (allocator m))(Req rid \<mapsto> ?tab)"
    using pool.share_ok [OF mgr_invD(1) [OF minv] al] by blast
  have not_sole: "\<not> sole m y b" if "b \<in> set ?tab" for y b
    using that g(4) by (fastforce simp: in_set_conv_nth sole_def)
  show stays: "sole m1 y b" if y: "y \<noteq> rid" and s: "sole m y b" for y b
  proof (rule sole_stays [OF _ _ s])
    have "b \<notin> set ?tab" using not_sole s by blast
    then show "owners (allocator m1) b \<subseteq> owners (allocator m) b" by (auto simp: m1 alloc owners_of_def split: if_splits)
  qed (use y in \<open>simp add: m1 alloc\<close>)
  show "shared_shape m1"
    unfolding shared_shape_def
  proof (intro allI impI)
    fix y c i assume c: "requests m1 y = Some c" and i: "i < length (physical_block_ids c)"
      and ns: "\<not> sole m1 y (physical_block_ids c ! i)"
    show "int i * mgr_block_size m1 < sequence_length c \<and>
        (int (Suc i) * mgr_block_size m1 \<le> sequence_length c \<or> Suc i = length (physical_block_ids c))"
    proof (cases "y = rid")
      case False
      with c ns stays have "requests m y = Some c" "\<not> sole m y (physical_block_ids c ! i)" by (auto simp: m1)
      with shape i show ?thesis unfolding shared_shape_def by (simp add: m1)
    next
      case True
      with c have ca: "c = a" by (simp add: m1)
      have i': "i < length ?tab" using i by (simp add: ca a)
      then have "int i < ceil_div (token_count x) ?bs" using g(3) by linarith
      then have lt: "int i * ?bs < token_count x" using ceil_div_le_iff [OF pos, of "token_count x" "int i"] by linarith
      have "int (Suc i) * ?bs \<le> token_count x \<or> Suc i = length ?tab"
      proof (cases "Suc i = length ?tab")
        case False
        with i' have "int (Suc i) < ceil_div (token_count x) ?bs" using g(3) by linarith
        then show ?thesis using ceil_div_le_iff [OF pos, of "token_count x" "int (Suc i)"] by linarith
      qed simp
      with lt show ?thesis by (simp add: ca a m1)
    qed
  qed
qed

lemma reserve_gain:
  assumes minv: "mgr_inv m" and new: "requests m rid = None" and shape: "shared_shape m" and cnt: "0 < prefill_token_count r"
    and run: "reserve m rid (min (prefill_token_count r) (mgr_block_size m)) 0 = Inr (got, m1)"
  shows "got = None \<Longrightarrow> m1 = m" and "got = Some a \<Longrightarrow> starts kv (mgr_block_size m) r 0 a \<and> requests m1 = (requests m)(rid \<mapsto> a)"
    and "y \<noteq> rid \<Longrightarrow> sole m y b \<Longrightarrow> sole m1 y b" and "shared_shape m1" and "mgr_block_size m1 = mgr_block_size m"
    and "num_blocks (allocator m1) = num_blocks (allocator m)"
proof -
  let ?bs = "mgr_block_size m"
  note pos = mgr_invD(4) [OF minv]
  let ?cap = "min (prefill_token_count r) ?bs"
  from run obtain ids al where al: "block_allocate (allocator m) (Req rid) (ceil_div ?cap ?bs) = Inr (ids, al)"
    and res: "(got, m1) = (case ids of None \<Rightarrow> (None, m\<lparr>allocator := al\<rparr>)
       | Some bs \<Rightarrow> (let a = \<lparr>kv_request_id = rid, kv_block_size = ?bs, physical_block_ids = bs, sequence_length = 0\<rparr> in
           (Some a, m\<lparr>allocator := al, requests := (requests m)(rid \<mapsto> a)\<rparr>)))"
    by (auto simp: reserve_def Let_def split: if_splits option.splits)
  show const: "mgr_block_size m1 = ?bs" "num_blocks (allocator m1) = num_blocks (allocator m)"
    using reserve_effect [OF run] by simp_all
  have none: "m1 = m" if "got = None"
    using that res pool.alloc_none [OF mgr_invD(1) [OF minv]] al by (cases ids) (auto simp: Let_def)
  then show "got = None \<Longrightarrow> m1 = m" .
  have "(\<forall>a. got = Some a \<longrightarrow> starts kv ?bs r 0 a \<and> requests m1 = (requests m)(rid \<mapsto> a)) \<and>
      (\<forall>y b. y \<noteq> rid \<longrightarrow> sole m y b \<longrightarrow> sole m1 y b) \<and> shared_shape m1"
  proof (cases got)
    case None
    with none shape show ?thesis by simp
  next
    case (Some a)
    then obtain bs where bs: "ids = Some bs" and a: "a = \<lparr>kv_request_id = rid, kv_block_size = ?bs, physical_block_ids = bs, sequence_length = 0\<rparr>"
      and m1: "m1 = m\<lparr>allocator := al, requests := (requests m)(rid \<mapsto> a)\<rparr>" using res by (cases ids) (auto simp: Let_def)
    from pool.alloc_some [OF mgr_invD(1) [OF minv] al [unfolded bs]] have g: "allocations al = (allocations (allocator m))(Req rid \<mapsto> bs)"
      "int (length bs) = ceil_div ?cap ?bs" "\<And>v vs. allocations (allocator m) v = Some vs \<Longrightarrow> set vs \<inter> set bs = {}" by auto
    have "ceil_div ?cap ?bs \<le> ceil_div (prefill_token_count r) ?bs"
      using ceil_div_le_iff [OF pos] ceil_div_covers [OF pos, of "prefill_token_count r"] by fastforce
    then have st: "starts kv ?bs r 0 a" using g(2) by (simp add: starts_def a table_holds_def)
    have stays: "sole m1 y b" if y: "y \<noteq> rid" and s: "sole m y b" for y b
    proof (rule sole_stays [OF _ _ s])
      have "Req y \<in> owners (allocator m) b" using s by (simp add: sole_def)
      then obtain vs where "allocations (allocator m) (Req y) = Some vs" "b \<in> set vs" by (auto simp: owners_of_def)
      then have "b \<notin> set bs" using g(3) by blast
      then show "owners (allocator m1) b \<subseteq> owners (allocator m) b" by (auto simp: m1 g(1) owners_of_def split: if_splits)
    qed (use y in \<open>simp add: m1 g(1)\<close>)
    have mine: "sole m1 rid b" if "b \<in> set bs" for b
      using that g(1,3) by (auto simp: sole_def owners_of_def m1)
    have "shared_shape m1"
      unfolding shared_shape_def
    proof (intro allI impI)
      fix y c i assume c: "requests m1 y = Some c" and i: "i < length (physical_block_ids c)"
        and ns: "\<not> sole m1 y (physical_block_ids c ! i)"
      have "y \<noteq> rid" using c i ns mine by (auto simp: m1 a)
      with c ns stays have "requests m y = Some c" "\<not> sole m y (physical_block_ids c ! i)" by (auto simp: m1)
      with shape i show "int i * mgr_block_size m1 < sequence_length c \<and>
        (int (Suc i) * mgr_block_size m1 \<le> sequence_length c \<or> Suc i = length (physical_block_ids c))"
        unfolding shared_shape_def by (simp add: m1)
    qed
    with st stays show ?thesis using Some by (simp add: m1)
  qed
  then show "got = Some a \<Longrightarrow> starts kv ?bs r 0 a \<and> requests m1 = (requests m)(rid \<mapsto> a)"
    and "y \<noteq> rid \<Longrightarrow> sole m y b \<Longrightarrow> sole m1 y b" and "shared_shape m1" by blast+
qed

lemma lookup_full:
  "cache_lookup m toks allow pc = Inr (x, pc') \<Longrightarrow> \<not> exact_match x \<Longrightarrow>
     token_count x = int (length (match_block_ids x)) * mgr_block_size m \<and> match_next_token_id x = None"
  by (auto simp: cache_lookup_def Let_def split: option.splits if_splits)

lemma evict_gain:
  assumes good: "cache_good kv pc m" and run: "evict_until_free k pc m = Inr (n, pc', m')"
  shows "cache_good kv pc' m'" and "shrinks pc pc'" and "requests m' = requests m" and "mgr_block_size m' = mgr_block_size m"
    and "num_blocks (allocator m') = num_blocks (allocator m)" and "sole m x b \<Longrightarrow> sole m' x b" and "shared_shape m \<Longrightarrow> shared_shape m'"
proof -
  let ?c = "\<lambda>pc m. free_block_count (allocator m) < k"
  from run have e: "evict_while ?c True pc m = Inr (pc', m')" by (auto simp: evict_until_free_def split: if_splits)
  from evict_while_good [OF good, of ?c True] e have g: "cache_good kv pc' m'" "same_pool m m'" by auto
  from evict_while_run [of m pc ?c True] good e show "shrinks pc pc'" by (auto simp: cache_good_def)
  show "cache_good kv pc' m'" by (rule g(1))
  from g(2) show q: "requests m' = requests m" "mgr_block_size m' = mgr_block_size m"
    and "num_blocks (allocator m') = num_blocks (allocator m)" by (simp_all add: same_pool_def)
  show sole: "sole m' x b" if "sole m x b" for x b
  proof (rule sole_stays [OF _ _ that])
    show "owners (allocator m') b \<subseteq> owners (allocator m) b"
    proof
      fix w assume "w \<in> owners (allocator m') b"
      then obtain bs where bs: "allocations (allocator m') w = Some bs" "b \<in> set bs" by (auto simp: owners_of_def)
      from evict_while_owners [OF e, of w] bs(1) have "allocations (allocator m) w = Some bs" by (elim disjE) simp_all
      with bs(2) show "w \<in> owners (allocator m) b" by (auto simp: owners_of_def)
    qed
  qed (use g(2) in \<open>simp add: same_pool_def\<close>)
  show "shared_shape m'" if "shared_shape m" using that sole unfolding shared_shape_def q by blast
qed

lemma acquire_pages_content:
  assumes good: "pool_good kv s" and pc: "cache s = Some pc" and r: "req_inv r" and new: "requests (manager s) (request_id r) = None"
    and shape: "shared_shape (manager s)" and toks: "prefill_token_ids r \<noteq> []" "int (length (prefill_token_ids r)) = prefill_token_count r"
    and run: "acquire_pages r s = Inr (got, s1)"
  shows "pool_gain (request_id r) s s1 \<and> shared_shape (manager s1) \<and>
    (\<forall>k nxt. got = Some (k, nxt) \<longrightarrow> (\<exists>a. requests (manager s1) = (requests (manager s))(request_id r \<mapsto> a) \<and>
       starts kv (mgr_block_size (manager s)) r k a \<and>
       (\<forall>t. nxt = Some t \<longrightarrow> (\<exists>x. map_of (exact pc) (prefill_token_ids r) = Some x \<and> next_token_id x = t))))"
proof -
  let ?m = "manager s" and ?rid = "request_id r" and ?t = "prefill_token_ids r"
  have g: "cache_good kv pc ?m" using good pc by (simp add: pool_good_def)
  then have minv: "mgr_inv ?m" and "cache_inv pc ?m" and "content_ok kv (nat (mgr_block_size ?m)) pc" by (simp_all add: cache_good_def)
  from cache_lookup_run [OF this, of ?t "can_reuse_cached_prediction (sampling r)"] obtain x c where
    l: "cache_lookup ?m ?t (can_reuse_cached_prediction (sampling r)) pc = Inr (x, c)" "shrinks pc c" "good_match kv ?m ?t x" by blast
  have look: "lookup_prefix r s = Inr (Some x, s\<lparr>cache := Some c\<rparr>)" using pc toks l(1) by (simp add: lookup_prefix_def)
  have gc: "cache_good kv c ?m" by (rule store.lookup_good [OF g l(1)])
  have "0 < length (prefill_token_ids r)" using toks(1) by simp
  then have pos: "0 < prefill_token_count r" using toks(2) by linarith
  show ?thesis
  proof (cases "token_count x = 0")
    case False
    from run look False obtain a m' where at: "attach_prefix ?m ?rid (match_block_ids x) (token_count x) = Inr (a, m')"
      and s1: "s1 = s\<lparr>cache := Some c, manager := m'\<rparr>" and got: "got = Some (token_count x, match_next_token_id x)"
      by (auto simp: acquire_pages_def)
    note a = attach_gain [OF minv l(3) new shape at refl toks(2) lookup_full [THEN conjunct1, OF l(1)]]
    have "pool_gain ?rid s s1" using a(2,3,5,6) pc l(2) by (auto simp: pool_gain_def s1 pool_changed_def)
    then show ?thesis using a(1,2,4) got lookup_prediction [OF l(1)] by (auto simp: s1)
  next
    case True
    let ?init = "min (prefill_token_count r) (mgr_block_size ?m)"
    from run look True obtain a1 m1 where r1: "reserve ?m ?rid ?init 0 = Inr (a1, m1)"
      by (auto simp: acquire_pages_def Let_def)
    note b = reserve_gain [OF minv new shape pos r1]
    show ?thesis
    proof (cases a1)
      case (Some al)
      with run look True r1 have s1: "s1 = s\<lparr>cache := Some c, manager := m1\<rparr>" and got: "got = Some (0, None)"
        by (auto simp: acquire_pages_def Let_def)
      have "pool_gain ?rid s s1" using b(2) [OF Some] b(3,5,6) pc l(2) by (auto simp: pool_gain_def s1 pool_changed_def)
      then show ?thesis using b(2) [OF Some] b(4) got by (auto simp: s1)
    next
      case None
      then have same: "m1 = ?m" by (rule b(1))
      from run look True r1 None same obtain n c2 m2 a2 m3 where ev: "evict_until_free 1 c ?m = Inr (n, c2, m2)"
        and r2: "reserve m2 ?rid ?init 0 = Inr (a2, m3)" and s1: "s1 = s\<lparr>cache := Some c2, manager := m3\<rparr>"
        and got: "got = map_option (\<lambda>_. (0, None)) a2"
        by (auto simp: acquire_pages_def Let_def)
      note e = evict_gain [OF gc ev]
      have minv2: "mgr_inv m2" using e(1) by (simp add: cache_good_def)
      have new2: "requests m2 ?rid = None" using new e(3) by simp
      note f = reserve_gain [OF minv2 new2 e(7) [OF shape] pos, of a2 m3, unfolded e(4), OF r2]
      have sh: "shrinks pc c2" using l(2) e(2) by (rule shrinks_trans)
      have keep: "x \<noteq> ?rid \<Longrightarrow> sole ?m x b \<Longrightarrow> sole m3 x b" for x b using e(6) f(3) by blast
      show ?thesis
      proof (cases a2)
        case None
        then have "m3 = m2" by (rule f(1))
        then have "pool_gain ?rid s s1" using keep e(3-5) pc sh by (auto simp: pool_gain_def s1 pool_changed_def)
        then show ?thesis using f(4) None got by (simp add: s1)
      next
        case (Some al)
        have "pool_gain ?rid s s1" using f(2) [OF Some] f(5,6) keep e(3-5) pc sh by (auto simp: pool_gain_def s1 pool_changed_def)
        then show ?thesis using f(2) [OF Some] f(4) e(3) got Some by (auto simp: s1)
      qed
    qed
  qed
qed

section \<open>The admission loop\<close>

lemma transition_keeps_prediction:
  "req_transition now nxt reason r = Inr r' \<Longrightarrow> cached_next_token_id r' = cached_next_token_id r"
  by (cases nxt; auto simp: req_transition_def Let_def enter_prefilling_def enter_decoding_def
      close_wait_def split: if_splits option.splits)

lemma admit_fields:
  assumes "admit_request now k nxt h = Inr q"
  shows "request_id q = request_id h" and "prompt_token_ids q = prompt_token_ids h" and "prompt_token_count q = prompt_token_count h"
    and "output_token_ids q = output_token_ids h" and "sampling q = sampling h" and "max_new_tokens q = max_new_tokens h"
    and "resuming q = resuming h" and "prefilled_token_count q = (if k \<noteq> 0 then k else prefilled_token_count h)"
    and "cached_next_token_id q = (if k \<noteq> 0 then nxt else cached_next_token_id h)" and "state q = PREFILLING"
proof -
  let ?r1 = "if k \<noteq> 0 then h\<lparr>prefilled_token_count := k, cached_prefix_tokens := k, cached_next_token_id := nxt\<rparr> else h"
  from assms have t: "req_transition now PREFILLING None (?r1\<lparr>allocation := Some (request_id ?r1)\<rparr>) = Inr q"
    by (simp add: admit_request_def Let_def)
  note ts = transition_shape(1,2) [OF t] transition_keeps_prediction [OF t]
  show "request_id q = request_id h" and "prompt_token_ids q = prompt_token_ids h" and "prompt_token_count q = prompt_token_count h"
    and "output_token_ids q = output_token_ids h" and "sampling q = sampling h" and "max_new_tokens q = max_new_tokens h"
    and "resuming q = resuming h" and "prefilled_token_count q = (if k \<noteq> 0 then k else prefilled_token_count h)"
    using ts(1) by (auto simp: same_shape_def split: if_splits)
  show "cached_next_token_id q = (if k \<noteq> 0 then nxt else cached_next_token_id h)" using ts(3) by simp
  show "state q = PREFILLING" using ts(2) .
qed

text \<open>A request that starts to prefill, with the pages it was given.\<close>

definition started :: "'g engine_setup \<Rightarrow> (nat \<Rightarrow> int list) \<Rightarrow> kv_manager \<Rightarrow> string \<Rightarrow> request \<Rightarrow> bool" where
  "started env kv m x q \<longleftrightarrow> body_ok env q \<and> state q = PREFILLING \<and>
     (\<forall>a. requests m x = Some a \<longrightarrow> holding env kv (mgr_block_size m) a [] q)"

lemma admitted_started:
  assumes w: "waiting_ok env h" and inv: "req_inv h" and st: "starts kv bs h k a" and k: "0 \<le> k" "k \<le> prefill_token_count h"
    and cap: "k \<le> capacity_tokens a" and run: "admit_request now k nxt h = Inr q"
    and hit: "\<forall>t. nxt = Some t \<longrightarrow> (\<exists>x. map_of (exact pc) (prefill_token_ids h) = Some x \<and> next_token_id x = t)"
    and pred: "predictions_ok env pc"
  shows "body_ok env q \<and> state q = PREFILLING \<and> holding env kv bs a [] q"
proof -
  note f = admit_fields [OF run]
  from w have body: "body_ok env h" and res: "resuming h \<longleftrightarrow> output_token_ids h \<noteq> []"
    and none: "cached_next_token_id h = None" "prefilled_token_count h = 0" by (simp_all add: waiting_ok_def)
  note pt = prefill_text [OF inv body res]
  have txt_same: "text_of q = text_of h" using f by (simp add: text_of_def)
  have cnt: "prefill_token_count q = prefill_token_count h" using f by (simp add: prefill_token_count_def)
  have "nat k \<le> nat (prefill_token_count h)" using k by simp
  then have "written a [] q = take (nat k) (prefill_token_ids h)"
    using st unfolding written_def txt_same pt(1) by (simp add: starts_def min_absorb1)
  moreover have "cached_ok env q"
    unfolding cached_ok_def
  proof (intro allI impI)
    fix t assume t: "cached_next_token_id q = Some t" "\<not> resuming q" "plain q"
    with f(9) none have "nxt = Some t" by (simp split: if_splits)
    with hit pred have "t = prediction env (prefill_token_ids h)" by (auto simp: predictions_ok_def)
    moreover have "prefill_token_ids h = prompt_token_ids h" using t(2) f(7) by (simp add: prefill_token_ids_def)
    ultimately show "t = prediction env (prompt_token_ids q)" using f(2) by simp
  qed
  ultimately have "holding env kv bs a [] q"
    using st cap res none f(4,7,8,10) cnt by (simp add: holding_def starts_def)
  with body_ok_cong [of q h env] f(2,4-6) body f(10) show ?thesis by simp
qed

definition admitting :: "'g engine_setup \<Rightarrow> (nat \<Rightarrow> int list) \<Rightarrow> sched \<Rightarrow> sched \<Rightarrow> bool" where
  "admitting env kv s0 s \<longleftrightarrow> shared_shape (manager s) \<and> mgr_block_size (manager s) = mgr_block_size (manager s0) \<and>
     (\<forall>x. requests (manager s0) x \<noteq> None \<longrightarrow> requests (manager s) x = requests (manager s0) x \<and>
        (\<forall>b. sole (manager s0) x b \<longrightarrow> sole (manager s) x b)) \<and>
     (\<exists>pc. cache s = Some pc \<and> predictions_ok env pc) \<and>
     (\<forall>r \<in> set (waiting s). waiting_ok env r) \<and> (\<forall>r \<in> set (dropped s). outputs_ok env r) \<and>
     (\<forall>x q. map_of (active s0) x = Some q \<longrightarrow> map_of (active s) x = Some q) \<and>
     (\<forall>x q. map_of (active s) x = Some q \<longrightarrow> map_of (active s0) x = Some q \<or>
        map_of (active s0) x = None \<and> started env kv (manager s) x q)"

lemma admittingD:
  assumes "admitting env kv s0 s"
  shows "shared_shape (manager s)" and "mgr_block_size (manager s) = mgr_block_size (manager s0)"
    and "requests (manager s0) x \<noteq> None \<Longrightarrow> requests (manager s) x = requests (manager s0) x"
    and "requests (manager s0) x \<noteq> None \<Longrightarrow> sole (manager s0) x b \<Longrightarrow> sole (manager s) x b"
    and "\<exists>pc. cache s = Some pc \<and> predictions_ok env pc"
    and "r \<in> set (waiting s) \<Longrightarrow> waiting_ok env r" and "r \<in> set (dropped s) \<Longrightarrow> outputs_ok env r"
    and "map_of (active s0) x = Some q \<Longrightarrow> map_of (active s) x = Some q"
    and "map_of (active s) x = Some q \<Longrightarrow> map_of (active s0) x = Some q \<or>
        map_of (active s0) x = None \<and> started env kv (manager s) x q"
  using assms unfolding admitting_def by blast+

text \<open>The pool moved for the head of the queue only.\<close>

lemma admitting_pool:
  assumes adm: "admitting env kv s0 s" and gain: "pool_gain rid s s1" and new: "requests (manager s) rid = None"
    and shape: "shared_shape (manager s1)"
    and s2: "manager s2 = manager s1" "cache s2 = cache s1" "dropped s2 = dropped s1"
    and wait: "set (waiting s2) \<subseteq> set (waiting s)"
    and act: "\<forall>x. x \<noteq> rid \<longrightarrow> map_of (active s2) x = map_of (active s) x" and gone: "map_of (active s) rid = None"
    and mine: "\<forall>q. map_of (active s2) rid = Some q \<longrightarrow> started env kv (manager s2) rid q"
  shows "admitting env kv s0 s2"
proof -
  note d = admittingD [OF adm]
  from gain have g: "pool_changed s s1" "\<forall>pc. cache s = Some pc \<longrightarrow> (\<exists>pc1. cache s1 = Some pc1 \<and> shrinks pc pc1)"
    "\<forall>x. x \<noteq> rid \<longrightarrow> requests (manager s1) x = requests (manager s) x"
    "\<forall>x b. x \<noteq> rid \<longrightarrow> sole (manager s) x b \<longrightarrow> sole (manager s1) x b" by (simp_all add: pool_gain_def)
  have bs: "mgr_block_size (manager s2) = mgr_block_size (manager s)" using g(1) s2(1) by (simp add: pool_changed_def)
  have drop: "dropped s2 = dropped s" using pool_changedD(6) [OF g(1)] s2(3) by simp
  have old: "x \<noteq> rid" if "requests (manager s0) x \<noteq> None" for x using d(3) [OF that] that new by auto
  have "\<exists>pc. cache s2 = Some pc \<and> predictions_ok env pc"
    using d(5) g(2) predictions_shrink s2(2) by fastforce
  moreover have "map_of (active s0) x = Some q \<Longrightarrow> map_of (active s2) x = Some q" for x q
    using d(8) [of x q] gone act by (cases "x = rid") auto
  moreover have "map_of (active s0) x = Some q \<or> map_of (active s0) x = None \<and> started env kv (manager s2) x q"
    if q: "map_of (active s2) x = Some q" for x q
  proof (cases "x = rid")
    case True
    have "map_of (active s0) rid = None" using d(8) [of rid] gone by (cases "map_of (active s0) rid") auto
    with True q mine show ?thesis by simp
  next
    case False
    then have "map_of (active s) x = Some q" using q act by simp
    from d(9) [OF this] show ?thesis
    proof
      assume "map_of (active s0) x = None \<and> started env kv (manager s) x q"
      moreover have "requests (manager s2) x = requests (manager s) x" using g(3) s2(1) False by simp
      ultimately show ?thesis using bs by (simp add: started_def)
    qed simp
  qed
  ultimately show ?thesis
    unfolding admitting_def bs drop
    using shape s2(1) d(2-4,6,7) old g(3,4) wait by (simp add: subset_iff)
qed

lemma admitting_loop:
  assumes inv: "sched_inv kv s0" and run: "admit_loop clk mx s0 = Inr (adm, s')" and start: "admitting env kv s0 s0"
  shows "admitting env kv s0 s'"
proof (rule admit_loop_steps [of kv s0 clk mx adm s' "admitting env kv s0", OF inv run start])
  fix s s1 :: sched and h :: request and rest
  assume i: "sched_inv kv s" and adm: "admitting env kv s0 s" and w: "waiting s = h # rest"
  note d = sched_invD [OF i] and a = admittingD [OF adm]
  have h: "state h = WAITING" "req_inv h" "requests (manager s) (request_id h) = None" using d(5) [of h] w by simp_all
  have wok: "waiting_ok env h" using a(6) [of h] w by simp
  then have body: "body_ok env h" and res: "resuming h \<longleftrightarrow> output_token_ids h \<noteq> []" by (simp_all add: waiting_ok_def)
  note pt = prefill_text [OF h(2) body res]
  have ne: "prefill_token_ids h \<noteq> []" using pt(2,4) by auto
  have gone: "map_of (active s) (request_id h) = None" using d(4) w by (auto simp: map_of_eq_None_iff)
  obtain pc where pc: "cache s = Some pc" "predictions_ok env pc" using a(5) by blast
  note content = acquire_pages_content [OF d(1) pc(1) h(2,3) a(1) ne pt(4)]
  from acquire_pages_ok [OF d(1) h(2,3)] obtain got s2 where
    o: "acquire_pages h s = Inr (got, s2)" "pool_good kv s2" "pool_changed s s2"
      "got = None \<longrightarrow> requests (manager s2) = requests (manager s)"
      "\<forall>k nxt. got = Some (k, nxt) \<longrightarrow> 0 \<le> k \<and> k \<le> prefill_token_count h" by blast
  show "admitting env kv s0 s1" if acq: "acquire_pages h s = Inr (None, s1)"
  proof -
    note c = content [OF acq]
    have same: "pool_changed s s1" using o(1,3) acq by simp
    show ?thesis
      by (rule admitting_pool [OF adm conjunct1 [OF c] h(3) conjunct1 [OF conjunct2 [OF c]] refl refl refl])
        (use pool_changedD(1,2) [OF same] gone in simp_all)
  qed
  fix h' m nxt now assume acq: "acquire_pages h s = Inr (Some (m, nxt), s1)" and adr: "admit_request now m nxt h = Inr h'"
  note f = admit_fields [OF adr]
  have good1: "pool_good kv s1" and same: "pool_changed s s1" and m: "0 \<le> m" "m \<le> prefill_token_count h" using o acq by auto
  note c = content [OF acq]
  from c obtain al where al: "requests (manager s1) = (requests (manager s))(request_id h \<mapsto> al)"
    "starts kv (mgr_block_size (manager s)) h m al"
    "\<forall>t. nxt = Some t \<longrightarrow> (\<exists>x. map_of (exact pc) (prefill_token_ids h) = Some x \<and> next_token_id x = t)" by blast
  have minv: "mgr_inv (manager s1)" using good1 by (auto simp: pool_good_def cache_good_def split: option.splits)
  have "requests (manager s1) (request_id h) = Some al" using al(1) by simp
  then have "m \<le> capacity_tokens al" using mgr_inv_request(4) [OF minv] al(2) by (auto simp: starts_def)
  note new = admitted_started [OF wok h(2) al(2) m this adr al(3) pc(2)]
  have bs: "mgr_block_size (manager s1) = mgr_block_size (manager s)" using same by (simp add: pool_changed_def)
  show "admitting env kv s0 (activated rest h' s1)"
    by (rule admitting_pool [OF adm conjunct1 [OF c] h(3) conjunct1 [OF conjunct2 [OF c]]])
      (use pool_changedD(2) [OF same] gone w new al(1) bs f(1) in \<open>auto simp: update_conv' started_def\<close>)
next
  fix s :: sched and h h' :: request and rest now
  assume adm: "admitting env kv s0 s" and w: "waiting s = h # rest"
    and t: "req_transition now REJECTED (Some ''KV_CAPACITY_EXCEEDED'') h = Inr h'"
  note ts = transition_shape(1,2) [OF t]
  have "body_ok env h" using admittingD(6) [OF adm, of h] w by (simp add: waiting_ok_def)
  then have "plain h \<Longrightarrow> prefix (output_token_ids h) (fst (reference env h))" using continues_prefix by (auto simp: body_ok_def)
  then have "outputs_ok env h'"
    using ts same_reference [of h' h env] by (auto simp: outputs_ok_def same_shape_def)
  with adm w show "admitting env kv s0 (rejected_head rest h' s)" by (auto simp: admitting_def)
qed

section \<open>The admission of an iteration\<close>

text \<open>The requests that were active are as they were, with their tables and their own blocks.\<close>

definition joins :: "'g engine \<Rightarrow> 'g engine \<Rightarrow> bool" where
  "joins e e' \<longleftrightarrow> (\<forall>x r. active_request x e = Some r \<longrightarrow> active_request x e' = Some r \<and> table_of x e' = table_of x e \<and>
     (owns_rest (mgr e) x \<longrightarrow> owns_rest (mgr e') x))"

lemma joins_refl [simp]: "joins e e"
  by (simp add: joins_def)

lemma joins_trans [trans]: "joins e e1 \<Longrightarrow> joins e1 e2 \<Longrightarrow> joins e e2"
  by (simp add: joins_def)

lemma joins_others: "others_kept rid e e' \<Longrightarrow> active_request rid e0 = None \<Longrightarrow> joins e0 e \<Longrightarrow> joins e0 e'"
  unfolding joins_def others_kept_def by (metis option.distinct(1))

lemma joins_fits: "joins e e' \<Longrightarrow> fits st target e row \<Longrightarrow> fits st target e' row"
  unfolding joins_def fits_def by (auto split: prod.splits)

lemma admit_step_ok:
  assumes ok: "engine_ok D env {} (\<lambda>_. []) e" and mx: "0 < max_active env"
  obtains ids e' where "admit_step env e = Inr (ids, e')" and "engine_ok D env {} (\<lambda>_. []) e'" and "joins e e'" and "distinct ids"
    and "\<forall>rid \<in> set ids. active_request rid e = None \<and> (\<exists>r. active_request rid e' = Some r \<and> state r = PREFILLING)"
proof -
  note d = engine_okD [OF ok]
  let ?s = "sch e" and ?kv = "pages e" and ?clk = "clock_at env (ticks e)"
  obtain pc where pc: "cache ?s = Some pc" using d(5) by blast
  from d(9) have rest: "\<And>r. r \<in> set (waiting ?s) \<Longrightarrow> waiting_ok env r" "predictions_ok env pc"
    "\<And>r. r \<in> set (dropped ?s) \<Longrightarrow> outputs_ok env r" "\<And>r. r \<in> set (ended e) \<Longrightarrow> outputs_ok env r" "0 \<le> max_generators (smp e)"
    "int (length (active ?s)) \<le> max_active env" using pc by (auto simp: rest_ok_def)
  from admit_loop_run [OF d(2), of ?clk "Some (max_active env)"] obtain adm s' where
    run: "admit_loop ?clk (Some (max_active env)) ?s = Inr (adm, s')" and inv': "sched_inv ?kv s'"
    and keys: "map fst (active s') = map fst (active ?s) @ map request_id adm" by blast
  have avail: "admit_available ?clk (Some (max_active env)) ?s = Inr (adm, s')" using run mx by (simp add: admit_available_def)
  have start: "admitting env ?kv ?s ?s" using d(6) pc rest(1-3) by (auto simp: admitting_def)
  note a = admittingD [OF admitting_loop [OF d(2) run start]]
  define e' where "e' = tick (e\<lparr>sch := s'\<rparr>)"
  have e': "sch e' = s'" "pages e' = ?kv" "dummy_slots e' = dummy_slots e" "ended e' = ended e" "smp e' = smp e" by (simp_all add: e'_def)
  have act: "active_request x e' = map_of (active s') x" and tab: "table_of x e' = requests (manager s') x" for x
    by (simp_all add: active_request_def table_of_def e')
  have world: "world_ok D (sch e', pages e')"
  proof -
    have st: "sched_step (?s, ?kv) (s', ?kv)" using avail by (rule ss_admit)
    from sched_step_inv [OF st d(2,3)] sched_step_cache [OF st] pc show ?thesis by (simp add: world_ok_def e')
  qed
  have held: "requests (mgr e) x \<noteq> None" if "map_of (active ?s) x = Some r" for x r using sched_invD(6) [OF d(2) that] by blast
  have reqs: "requests_ok env {} (\<lambda>_. []) e'"
    unfolding requests_ok_def
  proof (intro allI impI)
    fix x r al assume r: "active_request x e' = Some r" and al: "table_of x e' = Some al"
    from a(9) r act have "map_of (active ?s) x = Some r \<or> started env ?kv (manager s') x r" by auto
    then show "body_ok env r \<and> holding env (pages e') (mgr_block_size (mgr e')) al [] r"
    proof
      assume old: "map_of (active ?s) x = Some r"
      have "table_of x e = Some al" using al tab a(3) [OF held [OF old]] by (simp add: table_of_def)
      with active_ok [OF ok _ _ this] old show ?thesis by (simp add: active_request_def e' a(2))
    next
      assume "started env ?kv (manager s') x r"
      then show ?thesis using al tab by (simp add: started_def e')
    qed
  qed
  have slots: "slots_ok D env e'"
    using d(8) a(3,4) by (fastforce simp: slots_ok_def e' table_of_def a(2))
  have restr: "rest_ok env e'"
    using a(5-7) rest admit_limit [OF d(2) run rest(6)] by (auto simp: rest_ok_def e')
  have ok': "engine_ok D env {} (\<lambda>_. []) e'" using world a(1) reqs slots restr by (simp add: engine_ok_def e')
  have join: "joins e e'"
    unfolding joins_def
  proof (intro allI impI)
    fix x r assume "active_request x e = Some r"
    then have r: "map_of (active ?s) x = Some r" by (simp add: active_request_def)
    note keep = a(3) [OF held [OF r]]
    have "owns_rest (mgr e') x" if o: "owns_rest (mgr e) x"
      using o a(4) [OF held [OF r]] keep unfolding owns_rest_def e' a(2) by simp
    then show "active_request x e' = Some r \<and> table_of x e' = table_of x e \<and> (owns_rest (mgr e) x \<longrightarrow> owns_rest (mgr e') x)"
      using a(8) [OF r] keep act tab by (simp add: table_of_def)
  qed
  have dist: "distinct (map fst (active ?s) @ map request_id adm)" using sched_invD(3) [OF inv'] keys by simp
  have fresh: "active_request rid e = None \<and> (\<exists>r. active_request rid e' = Some r \<and> state r = PREFILLING)"
    if "rid \<in> set (map request_id adm)" for rid
  proof -
    from that dist have none: "map_of (active ?s) rid = None" by (auto simp: map_of_eq_None_iff)
    have "rid \<in> set (map fst (active s'))" using that keys by simp
    then obtain r where r: "map_of (active s') rid = Some r" using active_id_iff [of "active s'" rid] by auto
    from a(9) [OF r] none have "started env ?kv (manager s') rid r" by simp
    with r none act show ?thesis by (simp add: started_def active_request_def)
  qed
  have "admit_step env e = Inr (map request_id adm, e')" using avail by (simp add: admit_step_def e'_def)
  with that ok' join dist fresh show thesis by simp
qed

section \<open>Requests whose whole prompt was cached\<close>

lemma complete_if_cached_ok:
  assumes ok: "engine_ok D env {} (\<lambda>_. []) e" and r: "active_request rid e = Some r" and st: "state r = PREFILLING"
  obtains e' where "complete_if_cached env rid e = Inr e'" and "engine_ok D env {} (\<lambda>_. []) e'" and "others_kept rid e e'"
proof (cases "remaining_prefill_tokens r = 0")
  case False
  with that [of e] r ok show thesis by (simp add: complete_if_cached_def with_request_def)
next
  case True
  from active_table [OF ok r] obtain a where a: "table_of rid e = Some a" .
  note h = active_ok [OF ok _ r a]
  have body: "body_ok env r" and hold: "holding env (pages e) (mgr_block_size (mgr e)) a [] r" using h by simp_all
  have ok1: "engine_ok D env {rid} (\<lambda>_. []) e" by (rule engine_ok_open [OF ok]) simp
  have g: "sequence_length a = prefilled_token_count r" "resuming r \<longleftrightarrow> output_token_ids r \<noteq> []" "cached_ok env r"
    "int (length (physical_block_ids a)) \<le> ceil_div (prefill_token_count r) (mgr_block_size (mgr e))"
    "table_holds (pages e) (nat (mgr_block_size (mgr e))) (take (nat (sequence_length a)) (text_of r)) (physical_block_ids a)"
    using hold st by (auto simp: holding_def written_def)
  have pred: "\<And>t. \<not> resuming r \<Longrightarrow> plain r \<Longrightarrow> cached_next_token_id r = Some t \<Longrightarrow> t = prediction env (prompt_token_ids r)"
    using g(3) by (simp add: cached_ok_def)
  from complete_prefill_ok [OF ok1 singletonI r a st True body g(2,1,4,5) pred] obtain e' where
    c: "complete_prefill env rid (cached_next_token_id r) e = Inr e'"
      "engine_ok D env ({rid} - {rid}) ((\<lambda>_. [])(rid := [])) e'" "others_kept rid e e'" by blast
  have "((\<lambda>_. [])(rid := [])) = (\<lambda>_::string. []::int list)" by auto
  with c(2) have "engine_ok D env {} (\<lambda>_. []) e'" by simp
  with that [of e'] c(1,3) r True show thesis by (simp add: complete_if_cached_def with_request_def)
qed

lemma complete_cached_ok:
  assumes "engine_ok D env {} (\<lambda>_. []) e" and "distinct ids" and "joins e0 e"
    and "\<forall>rid \<in> set ids. active_request rid e0 = None \<and> (\<exists>r. active_request rid e = Some r \<and> state r = PREFILLING)"
  shows "\<exists>e'. for_each (complete_if_cached env) ids e = Inr e' \<and> engine_ok D env {} (\<lambda>_. []) e' \<and> joins e0 e'"
  using assms
proof (induction ids arbitrary: e)
  case (Cons rid ids)
  from Cons.prems(4) obtain r where r: "active_request rid e = Some r" "state r = PREFILLING" and new: "active_request rid e0 = None" by auto
  from complete_if_cached_ok [OF Cons.prems(1) r] obtain e1 where
    c: "complete_if_cached env rid e = Inr e1" "engine_ok D env {} (\<lambda>_. []) e1" "others_kept rid e e1" .
  have join: "joins e0 e1" by (rule joins_others [OF c(3) new Cons.prems(3)])
  have "\<forall>x \<in> set ids. active_request x e0 = None \<and> (\<exists>r. active_request x e1 = Some r \<and> state r = PREFILLING)"
  proof
    fix x assume x: "x \<in> set ids"
    then have "x \<noteq> rid" using Cons.prems(2) by auto
    then have "active_request x e1 = active_request x e" using c(3) by (simp add: others_kept_def)
    then show "active_request x e0 = None \<and> (\<exists>r. active_request x e1 = Some r \<and> state r = PREFILLING)"
      using Cons.prems(4) x by simp
  qed
  with Cons.IH [OF c(2) _ join] Cons.prems(2) c(1) show ?case by simp
qed simp

section \<open>The prefill plan of an iteration\<close>

lemma plan_step_ok:
  assumes ok: "engine_ok D env {} (\<lambda>_. []) e" and laws: "setup_laws env"
  obtains plans e' where "plan_step env e = Inr (plans, e')" and "engine_ok D env {} (\<lambda>_. []) e'" and "joins e e'"
    and "distinct (map fst plans)" and "\<forall>plan \<in> set plans. planned env e' plan"
proof -
  note d = engine_okD [OF ok]
  let ?s = "sch e" and ?kv = "pages e" and ?c = "prefill_chunk_size env" and ?b = "max_prefill_tokens env"
  have pos: "0 < ?c" "0 < ?b" using laws by (simp_all add: setup_laws_def)
  let ?pick = "\<lambda>k. filter (plannable (active ?s)) (take k (prefill_order ?s))"
  from plan_loop_run [OF le_refl prefill_order_active [OF d(2)] pos(2,1) remaining_nonneg [OF d(2)]] obtain k plans where
    loop: "plan_loop (length (prefill_order ?s)) ?c ?b (active ?s) (prefill_order ?s) =
       (plans, drop k (prefill_order ?s) @ take k (prefill_order ?s))"
    and rs: "map fst plans = map (\<lambda>x. the (map_of (active ?s) x)) (?pick k)"
    and size_ok: "\<forall>(r, c) \<in> set plans. 0 < c \<and> c \<le> ?c \<and> c \<le> remaining_prefill_tokens r" by blast
  define s' where "s' = ?s\<lparr>prefill_order := drop k (prefill_order ?s) @ take k (prefill_order ?s)\<rparr>"
  define e' where "e' = e\<lparr>sch := s'\<rparr>"
  let ?ids = "map (\<lambda>(r, n). (request_id r, n)) plans"
  have plan: "plan_prefill ?c ?b ?s = Inr (plans, s')" using loop pos by (simp add: plan_prefill_def s'_def)
  have run: "plan_step env e = Inr (?ids, e')" using plan by (simp add: plan_step_def e'_def)
  have same: "active_request x e' = active_request x e" "table_of x e' = table_of x e" "mgr e' = mgr e" "pages e' = pages e"
    "dummy_slots e' = dummy_slots e" for x by (simp_all add: active_request_def table_of_def e'_def s'_def)
  have w: "world_ok D (sch e', pages e')"
  proof -
    have st: "sched_step (?s, ?kv) (s', ?kv)" using plan by (rule ss_plan)
    from sched_step_inv [OF st d(2,3)] d(5) show ?thesis by (auto simp: world_ok_def e'_def s'_def)
  qed
  have slots: "slots_ok D env e'" using d(8) unfolding slots_ok_def same .
  have rest: "rest_ok env e'" using d(9) by (simp add: rest_ok_def e'_def s'_def)
  have ok': "engine_ok D env {} (\<lambda>_. []) e'"
    by (rule engine_ok_frame [OF ok w _ _ _ slots rest]) (use d(6) in \<open>simp_all add: same\<close>)
  have join: "joins e e'" by (simp add: joins_def same)
  have found: "map_of (active ?s) x = Some (the (map_of (active ?s) x)) \<and> request_id (the (map_of (active ?s) x)) = x \<and>
      state (the (map_of (active ?s) x)) = PREFILLING" if "x \<in> set (?pick k)" for x
    using that sched_invD(6) [OF d(2), of x] by (auto simp: plannable_def)
  have "map fst ?ids = map request_id (map fst plans)" by (simp add: case_prod_beta)
  also have "\<dots> = map (\<lambda>x. x) (?pick k)" unfolding rs map_map using found by (intro map_cong) auto
  finally have ids: "map fst ?ids = ?pick k" by simp
  have "distinct (map fst ?ids)" unfolding ids using sched_invD(7) [OF d(2)] by simp
  moreover have "planned env e' plan" if p: "plan \<in> set ?ids" for plan
  proof -
    from p obtain r n where rn: "(r, n) \<in> set plans" and eq: "plan = (request_id r, n)" by auto
    from rn have "r \<in> set (map fst plans)" by force
    then obtain x where x: "x \<in> set (?pick k)" "r = the (map_of (active ?s) x)" unfolding rs by auto
    from found [OF x(1)] x(2) have "active_request (request_id r) e = Some r" "state r = PREFILLING"
      by (simp_all add: active_request_def)
    with size_ok rn eq show ?thesis by (auto simp: planned_def same(1))
  qed
  ultimately show thesis using that [OF run ok' join] by blast
qed

end
