(* ===== verification/Engine_Correct.thy ===== *)
theory Engine_Correct
  imports Engine_Admit
begin

text \<open>
  \<open>ContinuousBatchingEngine\<close> as a whole: an iteration of \<open>step\<close> never raises and keeps the
  engine's invariant, as do \<open>submit\<close>, \<open>cancel\<close> and \<open>reset\<close>, so it holds in every engine these
  calls can reach; and with it what a request gets does not depend on the batches it ran in.
\<close>

section \<open>An iteration\<close>

lemma decoding_ids_ok:
  assumes ok: "engine_ok D env {} (\<lambda>_. []) e"
  shows "distinct (decoding_ids e)" and "\<forall>rid \<in> set (decoding_ids e). active_request rid e \<noteq> None"
proof -
  have d: "distinct (map fst (active (sch e)))" using sched_invD(3) [OF engine_okD(2) [OF ok]] .
  show "distinct (decoding_ids e)"
    unfolding decoding_ids_def using d by (rule distinct_map_filter)
  show "\<forall>rid \<in> set (decoding_ids e). active_request rid e \<noteq> None"
    by (auto simp: decoding_ids_def active_request_def map_of_eq_None_iff rev_image_eqI)
qed

text \<open>What the first part of an iteration hands to the fused forward.\<close>

abbreviation decode_phase :: "'g engine_setup \<Rightarrow> 'g engine \<Rightarrow> (string list \<times> 'g engine) result" where
  "decode_phase env e \<equiv>
     (let decoding = decoding_ids e;
          speculative = (proposer env \<noteq> None \<and> decoding \<noteq> []);
          fused = (use_fused_step env \<and> decoding \<noteq> [] \<and> \<not> speculative) in
      if speculative then and_then (speculative_decode_step env decoding e) (\<lambda>e1. Inr ([], e1))
      else if fused then decode_viable env decoding e
      else if decoding \<noteq> [] then and_then (decode_step env decoding e) (\<lambda>e1. Inr ([], e1))
      else Inr ([], e))"

lemma decode_phase_ok:
  assumes ok: "engine_ok D env {} (\<lambda>_. []) e" and laws: "setup_laws env"
  obtains rows e1 where "decode_phase env e = Inr (rows, e1)" and "engine_ok D env {} (\<lambda>_. []) e1" and "distinct rows"
    and "\<forall>rid \<in> set rows. fits DECODING decode_target e1 (rid, ())"
proof -
  note d = decoding_ids_ok [OF ok]
  note give = that
  have plainly: thesis if "decode_phase env e = and_then (f env (decoding_ids e) e) (\<lambda>e1. Inr ([], e1))"
    and "\<exists>e'. f env (decoding_ids e) e = Inr e' \<and> engine_ok D env {} (\<lambda>_. []) e'" for f
    using that(2) by (elim exE conjE) (rule give [of "[]"], use that(1) in simp_all)
  consider "proposer env \<noteq> None \<and> decoding_ids e \<noteq> []" | "\<not> (proposer env \<noteq> None \<and> decoding_ids e \<noteq> [])" "use_fused_step env" "decoding_ids e \<noteq> []"
    | "\<not> (proposer env \<noteq> None \<and> decoding_ids e \<noteq> [])" "\<not> use_fused_step env" "decoding_ids e \<noteq> []" | "decoding_ids e = []" by blast
  then show thesis
  proof cases
    case 1
    with plainly [of speculative_decode_step] speculative_step_ok [OF ok laws d] show thesis by (simp add: Let_def)
  next
    case 2
    from decode_viable_ok [OF ok d(1)] obtain rows e1 where v: "decode_viable env (decoding_ids e) e = Inr (rows, e1)"
      "engine_ok D env {} (\<lambda>_. []) e1" "distinct rows" "\<forall>rid \<in> set rows. fits DECODING decode_target e1 (rid, ())" .
    with that [of rows e1] 2 show thesis by (simp add: Let_def)
  next
    case 3
    with plainly [of decode_step] decode_step_ok [OF ok laws d(1)] show thesis by (simp add: Let_def)
  next
    case 4
    with that [of "[]" e] ok show thesis by (simp add: Let_def)
  qed
qed

lemma step_phases:
  "step env e =
     (let decoding = decoding_ids e;
          fused = (use_fused_step env \<and> decoding \<noteq> [] \<and> \<not> (proposer env \<noteq> None \<and> decoding \<noteq> [])) in
      and_then (decode_phase env e) (\<lambda>(rows, e1).
      and_then (admit_step env e1) (\<lambda>(admitted, e2).
      and_then (for_each (complete_if_cached env) admitted e2) (\<lambda>e3.
      and_then (plan_step env e3) (\<lambda>(plans, e4).
        let e5 = e4\<lparr>last_step_prefill_tokens := sum_list (map snd plans), last_step_decode_rows := int (length decoding),
                    last_step_prefill_path := []\<rparr> in
        and_then (if fused then and_then (fused_rows_step env rows plans e5)
                    (\<lambda>(ran, e6). Inr (if ran then e6\<lparr>fused_steps := fused_steps e6 + 1\<rparr> else e6))
                  else if plans \<noteq> [] then prefill_chunks env plans e5
                  else Inr e5) (\<lambda>e6.
          Inr (if plans \<noteq> [] then e6\<lparr>prefill_steps := prefill_steps e6 + 1\<rparr>
               else if decoding \<noteq> [] then e6\<lparr>decode_only_steps := decode_only_steps e6 + 1\<rparr>
               else e6)))))))"
  by (simp add: step_def Let_def)

lemma step_ok:
  assumes ok: "engine_ok D env {} (\<lambda>_. []) e" and laws: "setup_laws env"
  obtains e' where "step env e = Inr e'" and "engine_ok D env {} (\<lambda>_. []) e'"
proof -
  from decode_phase_ok [OF ok laws] obtain rows e1 where p: "decode_phase env e = Inr (rows, e1)" "engine_ok D env {} (\<lambda>_. []) e1"
    "distinct rows" "\<forall>rid \<in> set rows. fits DECODING decode_target e1 (rid, ())" .
  have mx: "0 < max_active env" using laws by (simp add: setup_laws_def)
  from admit_step_ok [OF p(2) mx] obtain ids e2 where a: "admit_step env e1 = Inr (ids, e2)" "engine_ok D env {} (\<lambda>_. []) e2"
    "joins e1 e2" "distinct ids"
    "\<forall>rid \<in> set ids. active_request rid e1 = None \<and> (\<exists>r. active_request rid e2 = Some r \<and> state r = PREFILLING)" .
  from complete_cached_ok [OF a(2,4,3,5)] obtain e3 where c: "for_each (complete_if_cached env) ids e2 = Inr e3"
    "engine_ok D env {} (\<lambda>_. []) e3" "joins e1 e3" by blast
  from plan_step_ok [OF c(2) laws] obtain plans e4 where q: "plan_step env e3 = Inr (plans, e4)" "engine_ok D env {} (\<lambda>_. []) e4"
    "joins e3 e4" "distinct (map fst plans)" "\<forall>plan \<in> set plans. planned env e4 plan" .
  define fused where "fused \<longleftrightarrow> use_fused_step env \<and> decoding_ids e \<noteq> [] \<and> \<not> (proposer env \<noteq> None \<and> decoding_ids e \<noteq> [])"
  define e5 where "e5 = e4\<lparr>last_step_prefill_tokens := sum_list (map snd plans),
      last_step_decode_rows := int (length (decoding_ids e)), last_step_prefill_path := []\<rparr>"
  have e5: "sch e5 = sch e4" by (simp add: e5_def)
  have ok5: "engine_ok D env {} (\<lambda>_. []) e5" by (rule engine_ok_bookkeeping [OF q(2)]) (simp_all add: e5_def)
  have join: "joins e1 e5" using joins_trans [OF c(3) q(3)] by (simp add: joins_def same_engine [OF e5] e5)
  have f5: "\<forall>rid \<in> set rows. fits DECODING decode_target e5 (rid, ())" using joins_fits [OF join] p(4) by blast
  have p5: "\<forall>plan \<in> set plans. planned env e5 plan" using q(5) by (simp add: planned_def same_engine [OF e5])
  define last where "last = (if fused then and_then (fused_rows_step env rows plans e5)
        (\<lambda>(ran, e6). Inr (if ran then e6\<lparr>fused_steps := fused_steps e6 + 1\<rparr> else e6))
      else if plans \<noteq> [] then prefill_chunks env plans e5 else Inr e5)"
  have "\<exists>e6. last = Inr e6 \<and> engine_ok D env {} (\<lambda>_. []) e6"
  proof (cases fused)
    case True
    from fused_rows_ok [OF ok5 laws p(3) f5 q(4) p5] obtain ran e6 where f: "fused_rows_step env rows plans e5 = Inr (ran, e6)"
      "engine_ok D env {} (\<lambda>_. []) e6" by blast
    have "engine_ok D env {} (\<lambda>_. []) (e6\<lparr>fused_steps := fused_steps e6 + 1\<rparr>)"
      by (rule engine_ok_bookkeeping [OF f(2)]) simp_all
    with f True show ?thesis unfolding last_def by (cases ran) simp_all
  next
    case False
    with prefill_chunks_ok [OF ok5 laws q(4) p5] ok5 show ?thesis by (simp add: last_def)
  qed
  then obtain e6 where e6: "last = Inr e6" "engine_ok D env {} (\<lambda>_. []) e6" by blast
  define e7 where "e7 = (if plans \<noteq> [] then e6\<lparr>prefill_steps := prefill_steps e6 + 1\<rparr>
      else if decoding_ids e \<noteq> [] then e6\<lparr>decode_only_steps := decode_only_steps e6 + 1\<rparr> else e6)"
  have "engine_ok D env {} (\<lambda>_. []) e7" by (rule engine_ok_bookkeeping [OF e6(2)]) (simp_all add: e7_def)
  moreover have "step env e = and_then last (\<lambda>e6. Inr (if plans \<noteq> [] then e6\<lparr>prefill_steps := prefill_steps e6 + 1\<rparr>
      else if decoding_ids e \<noteq> [] then e6\<lparr>decode_only_steps := decode_only_steps e6 + 1\<rparr> else e6))"
    by (simp only: step_phases Let_def p(1) [unfolded Let_def] a(1) c(1) q(1) and_then_simps prod.case last_def fused_def e5_def)
  then have "step env e = Inr e7" by (simp only: e6(1) and_then_simps e7_def)
  ultimately show thesis using that by blast
qed

section \<open>A fresh pool\<close>

lemma reserve_dummy:
  assumes m0: "kv_manager_init n bs = Inr m0" and run: "reserve_graph_dummy_blocks sizes m0 = Inr (blocks, slots, m)"
  obtains (none) "slots = []" "blocks = []" "m = m0" "requests m = Map.empty"
    | (some) a where "requests m = [dummy_rows_id \<mapsto> a]" "physical_block_ids a = blocks" "mgr_block_size m = bs"
      "allocations (allocator m) = [Req dummy_rows_id \<mapsto> blocks]" "sequence_length a = 0"
      "\<exists>c. reserve m0 dummy_rows_id c 0 = Inr (Some a, m)"
proof -
  from m0 obtain al0 where al0: "block_allocator_init n bs = Inr al0" and m0': "m0 = \<lparr>allocator = al0, mgr_block_size = bs, requests = Map.empty\<rparr>"
    by (auto simp: kv_manager_init_def)
  have empty: "allocations al0 = Map.empty" using al0 by (auto simp: block_allocator_init_def split: if_splits)
  have inv0: "mgr_inv m0" using manager_run_inv [OF m0, of "[]"] by simp
  let ?n = "fold max sizes (hd sizes)"
  let ?c = "ceil_div ?n (mgr_block_size m0) * mgr_block_size m0"
  consider "sizes = [] \<or> ?n \<le> 0" | "sizes \<noteq> []" "0 < ?n" by linarith
  then show thesis
  proof cases
    case 1
    then have "(blocks, slots, m) = ([], [], m0)" using run by (cases "sizes = []") (simp_all add: reserve_graph_dummy_blocks_def Let_def)
    with none m0' show thesis by simp
  next
    case 2
    with run obtain a where r: "reserve m0 dummy_rows_id ?c 0 = Inr (Some a, m)" and b: "blocks = physical_block_ids a"
      by (auto simp: reserve_graph_dummy_blocks_def Let_def split: option.splits)
    from r obtain bs' al where al: "block_allocate (allocator m0) (Req dummy_rows_id) (ceil_div ?c (mgr_block_size m0)) = Inr (Some bs', al)"
      and a: "a = \<lparr>kv_request_id = dummy_rows_id, kv_block_size = mgr_block_size m0, physical_block_ids = bs', sequence_length = 0\<rparr>"
      and m: "m = m0\<lparr>allocator := al, requests := (requests m0)(dummy_rows_id \<mapsto> a)\<rparr>"
      by (auto simp: reserve_def Let_def split: if_splits option.splits)
    have "allocations al = (allocations (allocator m0))(Req dummy_rows_id \<mapsto> bs')"
      using pool.alloc_some [OF mgr_invD(1) [OF inv0] al] by blast
    with some [of a] r a m m0' empty b show thesis by auto
  qed
qed

lemma fresh_scheduler_ok:
  assumes laws: "setup_laws env" and run: "fresh_scheduler env n bs mw cb = Inr (s, slots)"
  obtains D where "D \<subseteq> {dummy_rows_id}" and "\<forall>e. sch e = s \<longrightarrow> dummy_slots e = slots \<longrightarrow>
    (\<forall>r \<in> set (ended e). outputs_ok env r) \<longrightarrow> 0 \<le> max_generators (smp e) \<longrightarrow> engine_ok D env {} (\<lambda>_. []) e"
proof -
  from run obtain m0 blocks m pc where m0: "kv_manager_init n bs = Inr m0"
    and dm: "reserve_graph_dummy_blocks (graph_sizes env) m0 = Inr (blocks, slots, m)" and pc: "prefix_cache_init cb = Inr pc"
    and s: "scheduler_init m mw (Some pc) (int (length blocks)) = Inr s" by (auto simp: fresh_scheduler_def)
  have inv0: "mgr_inv m0" using manager_run_inv [OF m0, of "[]"] by simp
  have bs0: "mgr_block_size m0 = bs" using m0 by (auto simp: kv_manager_init_def)
  note slot = dummy_slots_ok [OF inv0 dm, unfolded bs0]
  let ?D = "dom (requests m)"
  have sub: "?D \<subseteq> {dummy_rows_id}" by (cases rule: reserve_dummy [OF m0 dm]) auto
  have sole_all: "sole m x b" if "requests m x = Some a" "b \<in> set (physical_block_ids a)" for x a b
    using that by (cases rule: reserve_dummy [OF m0 dm]) (auto simp: sole_def owners_of_def split: if_splits)
  have fields: "manager s = m" "cache s = Some pc" "waiting s = []" "active s = []" "dropped s = []"
    using s by (auto simp: scheduler_init_def split: if_splits)
  have start: "sched_inv kv s \<and> pages_inv ?D s" for kv
  proof (cases rule: reserve_dummy [OF m0 dm, case_names none some])
    case none
    have "\<forall>opn \<in> set []. \<not> is_cache_call opn" by simp
    from sched_start_inv [OF m0 this _ pc s] none show ?thesis by simp
  next
    case (some a)
    then obtain c where r: "reserve m0 dummy_rows_id c 0 = Inr (Some a, m)" by blast
    then have "m = fold mgr_exec [Reserve dummy_rows_id c 0] m0" by (simp add: commit_def)
    from sched_start_inv [OF m0 _ this pc s] show ?thesis by simp
  qed
  have sizes: "\<forall>x \<in> set (graph_sizes env). x \<le> int (length slots)"
  proof
    fix x assume x: "x \<in> set (graph_sizes env)"
    then have "0 < x" "graph_sizes env \<noteq> []" using laws by (auto simp: setup_laws_def)
    with slot(3) x show "x \<le> int (length slots)" by blast
  qed
  have shape: "shared_shape m"
    unfolding shared_shape_def using sole_all nth_mem by blast
  have slots_m: "(slots \<noteq> [] \<longrightarrow> dummy_rows_id \<in> ?D) \<and> (\<forall>(page, off) \<in> set slots. 0 \<le> off \<and> off < mgr_block_size m \<and>
     (\<exists>a. requests m dummy_rows_id = Some a \<and> page \<in> set (physical_block_ids a) \<and> sole m dummy_rows_id page))"
  proof (cases rule: reserve_dummy [OF m0 dm, case_names none some])
    case (some a)
    have "requests m dummy_rows_id = Some a" using some(1) by simp
    with slot(2) some(2,3) sole_all [OF this] show ?thesis by fastforce
  qed simp
  have pred: "predictions_ok env pc" using pc by (auto simp: prefix_cache_init_def predictions_ok_def split: if_splits)
  have mx: "0 < max_active env" using laws by (simp add: setup_laws_def)
  have "engine_ok ?D env {} (\<lambda>_. []) e" if e: "sch e = s" "dummy_slots e = slots" "\<forall>r \<in> set (ended e). outputs_ok env r" "0 \<le> max_generators (smp e)" for e :: "'a engine"
  proof -
    have "world_ok ?D (sch e, pages e)" using start fields(2) e(1) by (simp add: world_ok_def)
    moreover have "requests_ok env {} (\<lambda>_. []) e" by (simp add: requests_ok_def active_request_def e(1) fields)
    moreover have "slots_ok ?D env e" using slots_m sizes by (simp add: slots_ok_def e table_of_def fields)
    moreover have "rest_ok env e" using e(3,4) pred mx by (simp add: rest_ok_def e(1) fields)
    ultimately show ?thesis using shape by (simp add: engine_ok_def e(1) fields)
  qed
  then have "\<forall>e. sch e = s \<longrightarrow> dummy_slots e = slots \<longrightarrow> (\<forall>r \<in> set (ended e). outputs_ok env r) \<longrightarrow>
      0 \<le> max_generators (smp e) \<longrightarrow> engine_ok ?D env {} (\<lambda>_. []) e" by blast
  with that [OF sub] show thesis .
qed

section \<open>The other entry points\<close>

lemma init_ok:
  assumes laws: "setup_laws env" and limit: "0 \<le> limit"
    and run: "engine_init env n bs mw cb dflt sd limit kv = Inr e"
  obtains D where "D \<subseteq> {dummy_rows_id}" and "engine_ok D env {} (\<lambda>_. []) e"
proof -
  from run obtain s slots where f: "fresh_scheduler env n bs mw cb = Inr (s, slots)"
    and e: "sch e = s" "dummy_slots e = slots" "ended e = []" "max_generators (smp e) = limit"
    by (auto simp: engine_init_def sampler_init_def split: if_splits)
  from fresh_scheduler_ok [OF laws f] obtain D where D: "D \<subseteq> {dummy_rows_id}"
    and ok: "\<forall>e. sch e = s \<longrightarrow> dummy_slots e = slots \<longrightarrow>
      (\<forall>r \<in> set (ended e). outputs_ok env r) \<longrightarrow> 0 \<le> max_generators (smp e) \<longrightarrow> engine_ok D env {} (\<lambda>_. []) e" .
  have "engine_ok D env {} (\<lambda>_. []) e" by (rule ok [rule_format]) (use e limit in simp_all)
  with that [OF D] show thesis .
qed

lemma reset_ok:
  assumes laws: "setup_laws env" and ok: "engine_ok D0 env {} (\<lambda>_. []) e0" and run: "engine_reset env e0 = Inr e"
  obtains D where "D \<subseteq> {dummy_rows_id}" and "engine_ok D env {} (\<lambda>_. []) e"
proof -
  from run obtain n bs mw cb s slots where f: "fresh_scheduler env n bs mw cb = Inr (s, slots)"
    and e: "sch e = s" "dummy_slots e = slots" "ended e = ended e0" "smp e = smp e0"
    by (auto simp: engine_reset_def)
  from fresh_scheduler_ok [OF laws f] obtain D where D: "D \<subseteq> {dummy_rows_id}"
    and fresh: "\<forall>e. sch e = s \<longrightarrow> dummy_slots e = slots \<longrightarrow>
      (\<forall>r \<in> set (ended e). outputs_ok env r) \<longrightarrow> 0 \<le> max_generators (smp e) \<longrightarrow> engine_ok D env {} (\<lambda>_. []) e" .
  have "\<forall>r \<in> set (ended e0). outputs_ok env r" "0 \<le> max_generators (smp e0)" using engine_okD(9) [OF ok] by (simp_all add: rest_ok_def)
  then have "engine_ok D env {} (\<lambda>_. []) e" by (intro fresh [rule_format]) (use e in simp_all)
  with that [OF D] show thesis .
qed

text \<open>A new request has its whole reference still to come.\<close>

lemma new_request_waiting:
  assumes "ids \<noteq> []" and "validate_sampling sp = Inr sp" and "0 < mx"
  shows "waiting_ok env (new_request rid cnt mx ids sp now)"
  using assms by (auto simp: waiting_ok_def body_ok_def continues_def reference_def text_of_def new_request_def Let_def)

lemma entry_frame:
  assumes ok: "engine_ok D env {} (\<lambda>_. []) e" and w: "world_ok D (sch e', pages e')"
    and same: "manager (sch e') = mgr e" "active (sch e') = active (sch e)" "cache (sch e') = cache (sch e)"
      "dropped (sch e') = dropped (sch e)" "pages e' = pages e" "dummy_slots e' = dummy_slots e" "max_generators (smp e') = max_generators (smp e)"
    and wait: "\<forall>r \<in> set (waiting (sch e')). waiting_ok env r" and fin: "\<forall>r \<in> set (ended e'). outputs_ok env r"
  shows "engine_ok D env {} (\<lambda>_. []) e'"
proof -
  note d = engine_okD [OF ok]
  have act: "active_request x e' = active_request x e" "table_of x e' = table_of x e" for x
    using same by (simp_all add: active_request_def table_of_def)
  have slots: "slots_ok D env e'" using d(8) unfolding slots_ok_def same act .
  have rest: "rest_ok env e'" using d(9) wait fin by (auto simp: rest_ok_def same)
  show ?thesis by (rule engine_ok_frame [OF ok w _ _ _ slots rest]) (use d(6) in \<open>simp_all add: same act\<close>)
qed

lemma engine_submit_ok:
  assumes ok: "engine_ok D env {} (\<lambda>_. []) e" and D: "D \<subseteq> {dummy_rows_id}"
    and r: "post_init (new_request rid cnt mx ids sp now) = Inr r" and ids: "ids \<noteq> []" and rid: "rid \<noteq> dummy_rows_id"
    and sp: "validate_sampling sp = Inr sp" and run: "engine_submit env r e = Inr (b, e')"
  shows "engine_ok D env {} (\<lambda>_. []) e'"
proof -
  note d = engine_okD [OF ok]
  have rr: "r = new_request rid cnt mx ids sp now" and mx: "0 < mx"
    using r by (auto simp: post_init_def new_request_def split: if_splits)
  from run obtain r' s where sub: "sched_submit (clock_at env (ticks e) (request_id r)) r (sch e) = Inr (b, r', s)"
    and e': "e' = tick (e\<lparr>sch := s, ended := (if b then ended e else ended e @ [r'])\<rparr>)"
    by (auto simp: engine_submit_def split: if_splits)
  have id: "request_id r = rid" by (simp add: rr new_request_def)
  have "map_of (active (sch e)) rid = None" using sub id by (auto simp: sched_submit_def split: if_splits)
  then have "rid \<notin> set (map fst (active (sch e)))" by (simp add: map_of_eq_None_iff)
  moreover have "rid \<notin> D" using rid D by auto
  ultimately have free: "requests (mgr e) rid = None" using d(3) by (auto simp: pages_inv_def)
  have st: "sched_step (sch e, pages e) (s, pages e)" by (rule ss_submit [OF r free sub])
  from sched_step_inv [OF st d(2,3)] sched_step_cache [OF st] d(5) have w: "world_ok D (sch e', pages e')"
    by (auto simp: world_ok_def e')
  from sub have s: "manager s = mgr e" "active s = active (sch e)" "cache s = cache (sch e)" "dropped s = dropped (sch e)"
    "set (waiting s) \<subseteq> insert r (set (waiting (sch e)))"
    by (auto simp: sched_submit_def split: if_splits)
  have wait: "\<forall>q \<in> set (waiting s). waiting_ok env q"
    using s(5) new_request_waiting [OF ids sp mx, of env rid cnt now] d(9) by (auto simp: rest_ok_def rr)
  have "outputs_ok env r'" if "\<not> b"
  proof -
    from sub that obtain now' reason where t: "req_transition now' REJECTED reason r = Inr r'"
      by (auto simp: sched_submit_def split: if_splits)
    from transition_shape(1,2) [OF t] show ?thesis by (simp add: outputs_ok_def same_shape_def rr new_request_def)
  qed
  then have fin: "\<forall>q \<in> set (ended e'). outputs_ok env q" using d(9) by (auto simp: rest_ok_def e')
  show ?thesis by (rule entry_frame [OF ok w _ _ _ _ _ _ _ _ fin]) (use s wait in \<open>simp_all add: e'\<close>)
qed

lemma engine_cancel_ok:
  assumes ok: "engine_ok D env {} (\<lambda>_. []) e" and run: "engine_cancel env rid reason e = Inr e'"
  shows "engine_ok D env {} (\<lambda>_. []) e'"
proof -
  note d = engine_okD [OF ok]
  let ?now = "clock_at env (ticks e) rid" and ?s = "sch e"
  from run obtain q s where c: "cancel ?now rid reason ?s = Inr (q, s)"
    and e': "e' = tick (e\<lparr>sch := s, ended := ended e @ [q], smp := sampler_forget [RequestKey (request_id q)] (smp e)\<rparr>)"
    by (auto simp: engine_cancel_def end_request_def)
  show ?thesis
  proof (cases "find (\<lambda>q. request_id q = rid) (waiting ?s)")
    case None
    then have l: "leave ?now CANCELLED rid reason ?s = Inr (q, s)" using c by (simp add: cancel_def)
    then obtain r where r': "map_of (active ?s) rid = Some r" by (auto simp: leave_def pop_active_def split: option.splits)
    then have r: "active_request rid e = Some r" by (simp add: active_request_def)
    from active_table [OF ok r] obtain a where a: "table_of rid e = Some a" and st: "state r = PREFILLING \<or> state r = DECODING" .
    have pl: "prefix (output_token_ids r) (fst (reference env r))" if "plain r"
      using active_ok(1) [OF ok _ r a] that by (simp add: body_ok_def continues_prefix)
    have ok1: "engine_ok D env {rid} (\<lambda>_. []) e" by (rule engine_ok_open [OF ok]) simp
    have nxt: "CANCELLED \<in> allowed_transitions (state r)" "terminal CANCELLED" using st by auto
    have fin: "CANCELLED = FINISHED \<Longrightarrow> plain r \<Longrightarrow> reference env r = (output_token_ids r, reason)" by simp
    from end_open [OF ok1 singletonI r pl fin nxt] obtain e2 where e2: "end_request (leave ?now CANCELLED rid reason ?s) e = Inr e2"
      "engine_ok D env {rid} (\<lambda>_. []) e2" "active_request rid e2 = None" by blast
    have "e2 = e'" using e2(1) l e' by (simp add: end_request_def)
    moreover have "engine_ok D env ({rid} - {rid}) ((\<lambda>_. [])(rid := [])) e2" by (rule engine_ok_gone [OF e2(2,3)])
    moreover have "((\<lambda>_. [])(rid := [])) = (\<lambda>_::string. []::int list)" by auto
    ultimately show ?thesis by simp
  next
    case (Some r)
    then have mem: "r \<in> set (waiting ?s)" by (auto simp: find_Some_iff)
    from c Some obtain t: "req_transition ?now CANCELLED (Some reason) r = Inr q" and s: "s = ?s\<lparr>waiting := remove1 r (waiting ?s)\<rparr>"
      by (auto simp: cancel_def)
    have st: "sched_step (?s, pages e) (s, pages e)" using c by (rule ss_cancel)
    from sched_step_inv [OF st d(2,3)] sched_step_cache [OF st] d(5) have w: "world_ok D (sch e', pages e')"
      by (auto simp: world_ok_def e')
    have wr: "\<And>r. r \<in> set (waiting ?s) \<Longrightarrow> waiting_ok env r" using d(9) by (simp add: rest_ok_def)
    have "body_ok env r" using wr [OF mem] by (simp add: waiting_ok_def)
    then have "plain r \<Longrightarrow> prefix (output_token_ids r) (fst (reference env r))" using continues_prefix by (auto simp: body_ok_def)
    then have "outputs_ok env q"
      using transition_shape(1,2) [OF t] same_reference [of q r env] by (auto simp: outputs_ok_def same_shape_def)
    then have fin: "\<forall>q \<in> set (ended e'). outputs_ok env q" using d(9) by (auto simp: rest_ok_def e')
    have wait: "\<forall>q \<in> set (remove1 r (waiting ?s)). waiting_ok env q" using wr notin_set_remove1 by metis
    show ?thesis
      by (rule entry_frame [OF ok w _ _ _ _ _ _ _ _ fin]) (use wait in \<open>simp_all add: e' s sampler_forget_def\<close>)
  qed
qed

section \<open>Every engine the calls can reach\<close>

text \<open>
  A submitted request passed \<open>__post_init__\<close> and brings its prompt as token ids. The check of
  \<open>__post_init__\<close> is skipped for an empty list, so the class also accepts a request with a
  positive count and no ids; an engine could not prefill it and its \<open>step\<close> would raise. The
  service refuses such a prompt before it builds a request.
\<close>

inductive engine_reachable :: "'g engine_setup \<Rightarrow> 'g engine \<Rightarrow> bool" for env where
  er_start: "0 \<le> limit \<Longrightarrow> engine_init env n bs mw cb dflt sd limit kv = Inr e \<Longrightarrow> engine_reachable env e"
| er_submit: "engine_reachable env e \<Longrightarrow> post_init (new_request rid cnt mx ids sp now) = Inr r \<Longrightarrow> ids \<noteq> [] \<Longrightarrow>
    rid \<noteq> dummy_rows_id \<Longrightarrow> validate_sampling sp = Inr sp \<Longrightarrow> engine_submit env r e = Inr (b, e') \<Longrightarrow> engine_reachable env e'"
| er_step: "engine_reachable env e \<Longrightarrow> step env e = Inr e' \<Longrightarrow> engine_reachable env e'"
| er_cancel: "engine_reachable env e \<Longrightarrow> engine_cancel env rid reason e = Inr e' \<Longrightarrow> engine_reachable env e'"
| er_reset: "engine_reachable env e \<Longrightarrow> engine_reset env e = Inr e' \<Longrightarrow> engine_reachable env e'"

lemma engine_reachable_ok:
  assumes laws: "setup_laws env"
  shows "engine_reachable env e \<Longrightarrow> \<exists>D. D \<subseteq> {dummy_rows_id} \<and> engine_ok D env {} (\<lambda>_. []) e"
proof (induction rule: engine_reachable.induct)
  case (er_start limit n bs mw cb dflt sd kv e)
  from init_ok [OF laws er_start] show ?case by blast
next
  case (er_submit e rid cnt mx ids sp now r b e')
  then obtain D where D: "D \<subseteq> {dummy_rows_id}" "engine_ok D env {} (\<lambda>_. []) e" by blast
  from engine_submit_ok [OF D(2,1) er_submit(2-6)] D(1) show ?case by blast
next
  case (er_step e e')
  then obtain D where D: "D \<subseteq> {dummy_rows_id}" "engine_ok D env {} (\<lambda>_. []) e" by blast
  from step_ok [OF D(2) laws] obtain e1 where "step env e = Inr e1" "engine_ok D env {} (\<lambda>_. []) e1" .
  with er_step(2) D(1) show ?case by auto
next
  case (er_cancel e rid reason e')
  then obtain D where D: "D \<subseteq> {dummy_rows_id}" "engine_ok D env {} (\<lambda>_. []) e" by blast
  from engine_cancel_ok [OF D(2) er_cancel(2)] D(1) show ?case by blast
next
  case (er_reset e e')
  then obtain D where "engine_ok D env {} (\<lambda>_. []) e" by blast
  from reset_ok [OF laws this er_reset(2)] show ?case by blast
qed

end
