(* ===== verification/Engine_Properties.thy ===== *)
theory Engine_Properties
  imports Engine_Correct
begin

text \<open>
  What \<open>ContinuousBatchingEngine\<close> promises its callers, in every engine that \<open>__init__\<close>,
  \<open>submit\<close>, \<open>step\<close>, \<open>cancel\<close> and \<open>reset\<close> can reach, and a concrete run of two requests.
\<close>

section \<open>A concrete run\<close>

text \<open>A model over twenty tokens that always predicts the successor of the last one.\<close>

definition demo_logits :: "int list \<Rightarrow> logits" where
  "demo_logits ctx = map (\<lambda>i. if i = nat ((last ctx + 1) mod 20) then 1 else 0) [0..<20]"

lemma demo_argmax: "argmax (demo_logits ctx) = nat ((last ctx + 1) mod 20)"
proof -
  let ?k = "nat ((last ctx + 1) mod 20)" and ?xs = "demo_logits ctx"
  have k: "?k < length ?xs" by (simp add: demo_logits_def)
  have "?xs ! ?k \<le> ?xs ! argmax ?xs" unfolding argmax_def by (rule greatest_by_ge) (use k in auto)
  moreover have "argmax ?xs < length ?xs" using greatest_by_in [of "\<lambda>i. ?xs ! i" 0 "[1..<length ?xs]"] k by (auto simp: argmax_def)
  ultimately show ?thesis by (auto simp: demo_logits_def split: if_splits)
qed

definition demo_env :: "int engine_setup" where
  "demo_env = \<lparr>model_logits = demo_logits, vocab_size = 20, torch = demo_ops,
     clock_at = (\<lambda>n rid. int n), graph_ready = (\<lambda>_. False), proposer = None, speculation_depth = 1, max_active = 2,
     prefill_chunk_size = 4, max_prefill_tokens = 8, max_model_len = None, graph_sizes = [], decode_graphs = False,
     prefill_graphs = False, fused_row_limit = 0, use_fused_step = True, eos_ids = {0}, pad_token = 0\<rparr>"

lemma demo_laws: "setup_laws demo_env"
  by (simp add: setup_laws_def demo_env_def demo_ops_laws)

text \<open>The engine over the scheduler's demo pool, before and after its two requests are submitted.\<close>

definition demo_fresh :: "int engine" where
  "demo_fresh = \<lparr>sch = demo_sched\<lparr>waiting := []\<rparr>, pages = \<lambda>_. [], smp = sampler_init demo_ops 0 None 1024,
     ended = [], ticks = 0, dummy_slots = [], prefill_steps = 0, decode_only_steps = 0, fused_steps = 0,
     last_step_prefill_tokens = 0, last_step_decode_rows = 0, last_step_prefill_path = [],
     prefill_sdpa_calls = 0, prefill_chunked_calls = 0, prefill_sdpa_tokens = 0, prefill_chunked_tokens = 0,
     spec_rounds = 0, spec_proposed = 0, spec_accepted = 0, spec_fallbacks = 0\<rparr>"

definition demo_engine :: "int engine" where
  "demo_engine = demo_fresh\<lparr>sch := demo_sched, ticks := 2\<rparr>"

lemma demo_init: "engine_init demo_env 4 2 None 0 0 None 1024 (\<lambda>_. []) = Inr demo_fresh"
  by (simp add: engine_init_def setup_ok_def demo_env_def fresh_scheduler_def kv_manager_init_def block_allocator_init_def
      reserve_graph_dummy_blocks_def prefix_cache_init_def scheduler_init_def demo_fresh_def demo_sched_def demo_pool_def
      demo_empty_def sampler_init_def upt_rec eval_nat_numeral)

lemma demo_submits:
  "\<exists>e. engine_submit demo_env (new_request ''a'' 2 2 [5, 6] GREEDY 0) demo_fresh = Inr (True, e) \<and>
     engine_submit demo_env (new_request ''b'' 2 2 [7, 8] GREEDY 1) e = Inr (True, demo_engine)"
  by (auto simp: demo_env_def demo_fresh_def demo_engine_def demo_sched_def engine_submit_def new_request_def sched_submit_def tick_def)

lemma demo_post:
  "post_init (new_request ''a'' 2 2 [5, 6] GREEDY 0) = Inr (new_request ''a'' 2 2 [5, 6] GREEDY 0)"
  "post_init (new_request ''b'' 2 2 [7, 8] GREEDY 1) = Inr (new_request ''b'' 2 2 [7, 8] GREEDY 1)"
  by (simp_all add: post_init_def new_request_def)

lemma demo_engine_reachable: "engine_reachable demo_env demo_engine"
proof -
  have start: "engine_reachable demo_env demo_fresh" by (rule er_start [OF _ demo_init]) simp
  have greedy: "validate_sampling GREEDY = Inr GREEDY" by (simp add: validate_sampling_def GREEDY_def)
  obtain e where e: "engine_submit demo_env (new_request ''a'' 2 2 [5, 6] GREEDY 0) demo_fresh = Inr (True, e)"
    "engine_submit demo_env (new_request ''b'' 2 2 [7, 8] GREEDY 1) e = Inr (True, demo_engine)" using demo_submits by blast
  have "engine_reachable demo_env e"
    by (rule er_submit [OF start demo_post(1) _ _ greedy e(1)]) (simp_all add: dummy_rows_id_def)
  then show ?thesis
    by (rule er_submit [OF _ demo_post(2) _ _ greedy e(2)]) (simp_all add: dummy_rows_id_def)
qed

text \<open>Two iterations: both prompts in one batch, then one token for each in another.\<close>

lemma acquire_now: "ensure_kv_capacity rid target w = Inr (True, w1) \<Longrightarrow> acquire_capacity clk rid target w = Inr (True, w1)"
  by (simp add: acquire_capacity.simps [of clk rid target w])

lemmas pool_eval = block_allocate_def block_extend_def block_release_def ceil_div_def reserve_def capacity_tokens_def
  append_tokens_def ensure_capacity_def mgr_release_def acquire_now ensure_kv_capacity_def ensure_writable_tail_def
  free_block_count_def block_refcount_def

lemmas request_eval = new_request_def admit_request_def req_transition_def prefill_token_ids_def prefill_token_count_def
  enter_prefilling_def enter_decoding_def close_wait_def remaining_prefill_tokens_def advance_prefill_def append_token_def
  reserved_tokens_def GREEDY_def sp_greedy_def has_penalties_def can_reuse_cached_prediction_def

lemmas queue_eval = admit_available_def admit_loop.simps demo_sched_def demo_pool_def demo_empty_def prefix_cache_init_def
  over_limit_def effective_capacity_tokens_def epoch_gated_def acquire_pages_def lookup_prefix_def cache_lookup_def Let_def
  plan_prefill_def mark_decoding_def finish_def leave_def pop_active_def release_pages_def advance_progress_def arrival_key_def

lemmas engine_eval = demo_env_def demo_fresh_def demo_engine_def tick_def decoding_ids_def admit_step_def complete_if_cached_def
  with_request_def active_request_def table_of_def live_def put_request_def put_manager_def change_request_def end_request_def
  plan_step_def in_arrival_order_def capacity_or_fail_def viable_rows_def

lemmas forward_eval = forward_rows_def write_rows_def write_token_def read_prefix_def last_logits_def demo_argmax
  sample_rows_def sample_def penalty_contexts_def sampler_forget_def sampler_init_def

lemmas prefill_eval = prefill_chunks_def chunk_check_def whole_fresh_prompt_def prefill_batch_def prefill_batch_check_def
  prompt_row_def commit_prefill_batch_row_def replay_resumed_history_def complete_prefill_def publish_prefix_def publish_def
  mark_request_def emit_token_def finish_if_ended_def end_reason_def finish_request_def

lemmas decode_eval = step_def fused_rows_step_def decode_viable_def decode_rows_def prepare_decode_metadata_def decode_row_def
  commit_decode_def commit_decode_row_def

lemma demo_first_step:
  "\<exists>e. step demo_env demo_engine = Inr e \<and>
     map (\<lambda>(rid, r). (rid, state r, output_token_ids r)) (active (sch e)) = [(''a'', DECODING, [7]), (''b'', DECODING, [9])] \<and>
     map_option sequence_length (table_of ''a'' e) = Some 2"
  by (simp add: pool_eval request_eval queue_eval engine_eval forward_eval prefill_eval decode_eval del: and_then_Inr_iff)

lemma demo_two_steps:
  "\<exists>e1 e2. step demo_env demo_engine = Inr e1 \<and> step demo_env e1 = Inr e2 \<and>
     map (\<lambda>r. (request_id r, state r, output_token_ids r, finish_reason r, sampling r)) (ended e2) =
       [(''a'', FINISHED, [7, 8], Some ''LENGTH'', GREEDY), (''b'', FINISHED, [9, 10], Some ''LENGTH'', GREEDY)]"
  by (simp add: pool_eval request_eval queue_eval engine_eval forward_eval prefill_eval decode_eval del: and_then_Inr_iff)

section \<open>Properties\<close>

text \<open>
  C2: a running engine never raises. In every reachable engine an iteration of \<open>step\<close>
  returns, whatever is queued, active, shared or short of memory, whichever of the prefill,
  decode, fused and speculative paths it takes; and so does any number of iterations, in an
  engine that is reachable again.
\<close>

theorem engine_never_raises:
  assumes "setup_laws env" and "engine_reachable env e"
  shows "(\<exists>e'. step env e = Inr e' \<and> engine_reachable env e') \<and> (\<exists>e'. run_steps env fuel e = Inr e' \<and> engine_reachable env e')"
proof -
  have one: "\<exists>e'. step env e = Inr e' \<and> engine_reachable env e'" if r: "engine_reachable env e" for e
  proof -
    from engine_reachable_ok [OF assms(1) r] obtain D where ok: "engine_ok D env {} (\<lambda>_. []) e" by blast
    from step_ok [OF ok assms(1)] obtain e' where s: "step env e = Inr e'" by blast
    with er_step [OF r s] show ?thesis by blast
  qed
  moreover have "\<exists>e'. run_steps env fuel e = Inr e' \<and> engine_reachable env e'" using assms(2)
  proof (induction fuel arbitrary: e)
    case (Suc fuel)
    from one [OF Suc.prems] obtain e1 where "step env e = Inr e1" "engine_reachable env e1" by blast
    with Suc.IH [of e1] Suc.prems show ?case by simp
  qed simp
  ultimately show ?thesis using assms(2) by blast
qed

theorem engine_never_raises_witness:
  "(\<exists>e. step demo_env demo_engine = Inr e) \<and> (\<exists>e. run_steps demo_env 5 demo_engine = Inr e)"
  using engine_never_raises [OF demo_laws demo_engine_reachable] by blast

text \<open>
  C1: batching is invisible. Every plain greedy request that has left the engine holds a
  prefix of what plain greedy decoding of its own prompt gives, and a finished one holds all
  of it, with the same reason for ending: the batches it shared, the prompts it took cached
  blocks from, its preemptions and the tokens speculation proposed for it leave no trace.
\<close>

theorem batching_is_invisible:
  assumes "setup_laws env" and "engine_reachable env e" and "r \<in> set (ended e)" and "can_reuse_cached_prediction (sampling r)"
  shows "prefix (output_token_ids r) (fst (reference env r)) \<and>
    (state r = FINISHED \<longrightarrow> reference env r = (output_token_ids r, the (finish_reason r)))"
proof -
  from engine_reachable_ok [OF assms(1,2)] obtain D where "engine_ok D env {} (\<lambda>_. []) e" by blast
  then have "outputs_ok env r" using assms(3) by (simp add: engine_ok_def rest_ok_def)
  with assms(4) show ?thesis by (simp add: outputs_ok_def)
qed

theorem batching_is_invisible_witness:
  "\<exists>e r. engine_reachable demo_env e \<and> r \<in> set (ended e) \<and> state r = FINISHED \<and> reference demo_env r = ([9, 10], ''LENGTH'')"
proof -
  obtain e1 e2 where e: "step demo_env demo_engine = Inr e1" "step demo_env e1 = Inr e2"
    and out: "map (\<lambda>r. (request_id r, state r, output_token_ids r, finish_reason r, sampling r)) (ended e2) =
       [(''a'', FINISHED, [7, 8], Some ''LENGTH'', GREEDY), (''b'', FINISHED, [9, 10], Some ''LENGTH'', GREEDY)]"
    using demo_two_steps by (elim exE conjE) (rule that)
  have reach: "engine_reachable demo_env e2" by (rule er_step [OF er_step [OF demo_engine_reachable e(1)] e(2)])
  from out obtain q r where "ended e2 = [q, r]" and r': "state r = FINISHED" "output_token_ids r = [9, 10]"
    "finish_reason r = Some ''LENGTH''" "sampling r = GREEDY" by (auto simp: map_eq_Cons_conv)
  then have "r \<in> set (ended e2)" by simp
  note r = this r'
  have "can_reuse_cached_prediction (sampling r)"
    by (simp add: r(5) GREEDY_def can_reuse_cached_prediction_def sp_greedy_def has_penalties_def)
  from batching_is_invisible [OF demo_laws reach r(1) this] r(2-4) have "reference demo_env r = ([9, 10], ''LENGTH'')" by simp
  with reach r(1,2) show ?thesis by (intro exI conjI)
qed

text \<open>
  C3: attention sees the request's own text. In every reachable engine the key-value pages
  of an active request, read through its block table up to any of its positions, hold
  exactly its own prompt and outputs up to there, though blocks are shared, copied, evicted
  and handed to other requests; never more tokens are held than the text has, and at most
  \<open>max_active\<close> requests are active.
\<close>

theorem pages_hold_own_text:
  assumes "setup_laws env" and "engine_reachable env e" and "active_request rid e = Some r" and "table_of rid e = Some a"
  shows "(\<forall>p. 0 \<le> p \<longrightarrow> p < sequence_length a \<longrightarrow>
      read_prefix (mgr_block_size (mgr e)) (physical_block_ids a) (pages e) p = take (nat p + 1) (prompt_token_ids r @ output_token_ids r)) \<and>
    sequence_length a \<le> int (length (prompt_token_ids r @ output_token_ids r)) \<and> int (length (active (sch e))) \<le> max_active env"
proof -
  from engine_reachable_ok [OF assms(1,2)] obtain D where ok: "engine_ok D env {} (\<lambda>_. []) e" by blast
  let ?bs = "mgr_block_size (mgr e)" and ?tab = "physical_block_ids a"
  let ?h = "take (nat (sequence_length a)) (text_of r)"
  note d = engine_okD [OF ok]
  have few: "int (length (active (sch e))) \<le> max_active env" using d(9) by (simp add: rest_ok_def)
  from active_table [OF ok assms(3)] have i: "req_inv r" "state r = PREFILLING \<or> state r = DECODING" by blast+
  have "requests (mgr e) rid = Some a" using assms(4) by (simp add: table_of_def)
  note t = mgr_inv_request [OF d(4) this]
  have body: "body_ok env r" by (rule active_ok(1) [OF ok _ assms(3,4)]) simp
  have h: "holding env (pages e) ?bs a [] r" by (rule active_ok(2) [OF ok _ assms(3,4)]) simp
  have le: "sequence_length a \<le> int (length (text_of r))"
  proof (rule disjE [OF i(2)])
    assume "state r = PREFILLING"
    with h have "sequence_length a = prefilled_token_count r" "resuming r \<longleftrightarrow> output_token_ids r \<noteq> []" by (simp_all add: holding_def)
    with prefill_text(3) [OF i(1) body] i(1) show ?thesis by (simp add: req_inv_def)
  qed (use h in \<open>simp add: holding_def\<close>)
  have c: "covers (pages e) (nat ?bs) ?h ?tab"
  proof (rule disjE [OF i(2)])
    assume "state r = PREFILLING"
    with h have "table_holds (pages e) (nat ?bs) ?h ?tab" by (auto simp: holding_def written_def)
    then show ?thesis by (rule holds_covers)
  qed (use h in \<open>auto simp: holding_def written_def\<close>)
  have len: "length ?h = nat (sequence_length a)" using le by simp
  have "capacity_tokens a = int (length ?tab) * ?bs" using t(2) by (simp add: capacity_tokens_def)
  then have "int (nat (sequence_length a)) \<le> int (length ?tab * nat ?bs)" using t(3,4) d(10) by simp
  then have fits: "length ?h \<le> length ?tab * nat ?bs" unfolding len by (simp only: of_nat_le_iff)
  have "read_prefix ?bs ?tab (pages e) p = take (nat p + 1) (text_of r)" if p: "0 \<le> p" "p < sequence_length a" for p
  proof -
    have "nat p < length ?h" unfolding len using p by simp
    from read_covered [OF c p(1) this d(10) fits] have "read_prefix ?bs ?tab (pages e) p = take (nat p + 1) ?h" .
    moreover have "nat p + 1 \<le> nat (sequence_length a)" using p by simp
    ultimately show ?thesis by (simp add: min_absorb1)
  qed
  with le few show ?thesis by (simp add: text_of_def)
qed

theorem pages_hold_own_text_witness:
  "\<exists>e a r. engine_reachable demo_env e \<and> table_of ''a'' e = Some a \<and> active_request ''a'' e = Some r \<and> output_token_ids r = [7] \<and>
     read_prefix (mgr_block_size (mgr e)) (physical_block_ids a) (pages e) 1 = take 2 (prompt_token_ids r @ output_token_ids r)"
proof -
  obtain e where e: "step demo_env demo_engine = Inr e"
    "map (\<lambda>(rid, r). (rid, state r, output_token_ids r)) (active (sch e)) = [(''a'', DECODING, [7]), (''b'', DECODING, [9])]"
    "map_option sequence_length (table_of ''a'' e) = Some 2" using demo_first_step by (elim exE conjE) (rule that)
  have reach: "engine_reachable demo_env e" by (rule er_step [OF demo_engine_reachable e(1)])
  from e(2) obtain r where r: "active_request ''a'' e = Some r" "output_token_ids r = [7]"
    by (auto simp: active_request_def map_eq_Cons_conv)
  from e(3) obtain a where a: "table_of ''a'' e = Some a" "sequence_length a = 2" by auto
  from pages_hold_own_text [OF demo_laws reach r(1) a(1)] a(2)
  have "read_prefix (mgr_block_size (mgr e)) (physical_block_ids a) (pages e) 1 = take 2 (prompt_token_ids r @ output_token_ids r)"
    by (elim conjE allE [of _ 1]) (simp add: numeral_2_eq_2)
  with reach a(1) r show ?thesis by (intro exI conjI)
qed

text \<open>
  C38: getting KV memory for a request always ends and answers. In every reachable engine, and
  for every active request and every target its table may have to cover (no less than what it
  holds), \<open>_acquire_capacity\<close> returns without raising. On success the request is still active
  and its table covers the target; when the target goes past what it holds, every block from
  there on is the request's own, so writing there touches nobody else. On failure the request
  has yielded itself, or it is the only active one and the pool is too small. Only requests
  that arrived no earlier than it have been preempted; they wait again with their tokens. No
  surviving table has changed what it holds.
\<close>

theorem acquire_capacity_answers:
  assumes "setup_laws env" and "engine_reachable env e" and "active_request rid e = Some r" and "table_of rid e = Some a"
    and "sequence_length a \<le> target"
  shows "\<exists>b s kv. acquire_capacity clk rid target (sch e, pages e) = Inr (b, s, kv) \<and>
    (b \<longrightarrow> map_of (active s) rid = Some r \<and> writable_to (manager s) rid target \<and>
       (sequence_length a < target \<longrightarrow> owns_rest (manager s) rid)) \<and>
    (\<not> b \<longrightarrow> map_of (active s) rid = None \<or> active s = [(rid, r)]) \<and>
    yielded r (sch e) s \<and> keeps_tables (mgr e) (pages e) (manager s) kv"
proof -
  from engine_reachable_ok [OF assms(1,2)] obtain D where ok: "engine_ok D env {} (\<lambda>_. []) e" by blast
  note d = engine_okD [OF ok]
  have r: "map_of (active (fst (sch e, pages e))) rid = Some r" using assms(3) by (simp add: active_request_def)
  have a: "requests (manager (fst (sch e, pages e))) rid = Some a" using assms(4) by (simp add: table_of_def)
  have le: "\<And>a. requests (manager (fst (sch e, pages e))) rid = Some a \<Longrightarrow> sequence_length a \<le> target" using a assms(5) by simp
  from acquire_ok [OF d(1) r le, of clk] obtain b w' where w: "acquire_capacity clk rid target (sch e, pages e) = Inr (b, w')"
    "mem_step (sch e, pages e) w'" "yielded r (sch e) (fst w')" "acquired rid target r (sch e, pages e) b w'" by auto
  obtain s kv where w': "w' = (s, kv)" by (cases w')
  have "keeps_tables (mgr e) (pages e) (manager s) kv" using w(2) by (simp add: mem_step_def w')
  moreover have "b \<longrightarrow> map_of (active s) rid = Some r \<and> writable_to (manager s) rid target \<and>
       (sequence_length a < target \<longrightarrow> owns_rest (manager s) rid)"
    using w(4) d(6) a by (cases b) (simp_all add: acquired_def w')
  moreover have "\<not> b \<longrightarrow> map_of (active s) rid = None \<or> active s = [(rid, r)]" using w(4) by (auto simp: acquired_def w')
  ultimately show ?thesis using w(1,3) by (auto simp: w')
qed

text \<open>After the first iteration of the demo run, request \<open>a\<close> asks for room for a third token.\<close>

lemma demo_acquires:
  "\<exists>e. step demo_env demo_engine = Inr e \<and> (\<exists>r. active_request ''a'' e = Some r) \<and> map_option sequence_length (table_of ''a'' e) = Some 2 \<and>
     (\<exists>w. ensure_kv_capacity ''a'' 3 (sch e, pages e) = Inr (True, w))"
  by (simp add: pool_eval request_eval queue_eval engine_eval forward_eval prefill_eval decode_eval del: and_then_Inr_iff)

theorem acquire_capacity_answers_witness:
  "\<exists>e s kv. engine_reachable demo_env e \<and> acquire_capacity (\<lambda>_. 9) ''a'' 3 (sch e, pages e) = Inr (True, s, kv) \<and>
     writable_to (manager s) ''a'' 3 \<and> owns_rest (manager s) ''a''"
proof -
  obtain e r w where e: "step demo_env demo_engine = Inr e" "active_request ''a'' e = Some r"
    "map_option sequence_length (table_of ''a'' e) = Some 2" "ensure_kv_capacity ''a'' 3 (sch e, pages e) = Inr (True, w)"
    using demo_acquires by (elim exE conjE) (rule that)
  have reach: "engine_reachable demo_env e" by (rule er_step [OF demo_engine_reachable e(1)])
  from e(3) obtain a where a: "table_of ''a'' e = Some a" "sequence_length a = 2" by auto
  then have "sequence_length a \<le> 3" by simp
  from acquire_capacity_answers [OF demo_laws reach e(2) a(1) this, of "\<lambda>_. 9"] obtain b s kv where
    s: "acquire_capacity (\<lambda>_. 9) ''a'' 3 (sch e, pages e) = Inr (b, s, kv)"
      "b \<longrightarrow> map_of (active s) ''a'' = Some r \<and> writable_to (manager s) ''a'' 3 \<and> (sequence_length a < 3 \<longrightarrow> owns_rest (manager s) ''a'')"
    by (elim exE conjE) (rule that)
  have b: "b" using s(1) acquire_now [OF e(4), of "\<lambda>_. 9"] by simp
  then have "writable_to (manager s) ''a'' 3" "owns_rest (manager s) ''a''" using s(2) a(2) by simp_all
  with reach s(1) b show ?thesis by (intro exI [of _ e] exI [of _ s] exI [of _ kv]) simp
qed

end
