(* ===== verification/Engine_Requests.thy ===== *)
theory Engine_Requests
  imports Engine_Correct "HOL-Library.Multiset"
begin

text \<open>
  No iteration of \<open>ContinuousBatchingEngine.step\<close> loses or duplicates a request: every
  operation below it only moves requests between the queue, the active set and those that
  have ended or been refused at admission.
\<close>

section \<open>In the scheduler\<close>

definition live_ids :: "sched \<Rightarrow> string list" where
  "live_ids s = map request_id (waiting s) @ map fst (active s)"

definition keyed :: "sched \<Rightarrow> bool" where
  "keyed s \<longleftrightarrow> distinct (live_ids s) \<and> (\<forall>k r. map_of (active s) k = Some r \<longrightarrow> request_id r = k) \<and>
     (\<forall>r \<in> set (dropped s). req_done r)"

text \<open>What a request is for as long as it exists: its identifier and what was asked.\<close>

type_synonym ticket = "string \<times> int list \<times> int \<times> sampling_params"

definition ticket_of :: "request \<Rightarrow> ticket" where
  "ticket_of r = (request_id r, prompt_token_ids r, max_new_tokens r, sampling r)"

lemma ticket_shape: "same_shape r q \<Longrightarrow> ticket_of q = ticket_of r"
  by (simp add: same_shape_def ticket_of_def)

lemma ticket_id: "ticket_of q = ticket_of r \<Longrightarrow> request_id q = request_id r"
  by (simp add: ticket_of_def)

definition known :: "sched \<Rightarrow> ticket multiset" where
  "known s = mset (map ticket_of (waiting s)) + mset (map (ticket_of \<circ> snd) (active s)) + mset (map ticket_of (dropped s))"

lemma inv_keyed:
  assumes "sched_inv kv s" and "\<forall>r \<in> set (dropped s). req_done r" shows "keyed s"
proof -
  note d = sched_invD [OF assms(1)]
  have "distinct (live_ids s)" using d(2-4) by (simp add: live_ids_def del: set_map)
  with d(6) assms(2) show ?thesis unfolding keyed_def by blast
qed

text \<open>An operation on the scheduler moves the requests \<open>out\<close> out of it, keeps the others, and brings none to life.\<close>

definition moves :: "ticket multiset \<Rightarrow> sched \<Rightarrow> sched \<Rightarrow> bool" where
  "moves out s s' \<longleftrightarrow> (keyed s \<longrightarrow> keyed s' \<and> known s = known s' + out \<and> set (live_ids s') \<subseteq> set (live_ids s))"

lemma moves_refl [simp]: "moves {#} s s"
  by (simp add: moves_def)

lemma moves_trans: "moves a s s1 \<Longrightarrow> moves b s1 s2 \<Longrightarrow> moves (a + b) s s2"
  by (auto simp: moves_def ac_simps)

lemma moves_then: "moves {#} s s1 \<Longrightarrow> moves b s1 s2 \<Longrightarrow> moves b s s2"
  using moves_trans [of "{#}" s s1 b s2] by simp

lemma moves_same: "waiting s' = waiting s \<Longrightarrow> active s' = active s \<Longrightarrow> dropped s' = dropped s \<Longrightarrow> moves {#} s s'"
  by (simp add: moves_def keyed_def known_def live_ids_def)

lemma mset_delete:
  "distinct (map fst al) \<Longrightarrow> map_of al k = Some r \<Longrightarrow> mset (map f al) = add_mset (f (k, r)) (mset (map f (AList.delete k al)))"
proof (induction al)
  case (Cons p al)
  show ?case
  proof (cases "fst p = k")
    case True
    with Cons.prems have "k \<notin> fst ` set al" by auto
    then have "AList.delete k al = al" by (rule delete_id)
    with True Cons.prems show ?thesis by (cases p) simp
  next
    case False
    with Cons show ?thesis by (cases p) auto
  qed
qed simp

lemma update_tickets:
  "map_of al k = Some r \<Longrightarrow> ticket_of q = ticket_of r \<Longrightarrow> map (ticket_of \<circ> snd) (AList.update k q al) = map (ticket_of \<circ> snd) al"
  by (induction al) (auto split: if_splits)

lemma keyed_delete:
  assumes k: "keyed s" and r: "map_of (active s) rid = Some r"
  shows "request_id r = rid" and "mset (live_ids s) = add_mset rid (mset (map request_id (waiting s) @ map fst (AList.delete rid (active s))))"
    and "mset (map (ticket_of \<circ> snd) (active s)) = add_mset (ticket_of r) (mset (map (ticket_of \<circ> snd) (AList.delete rid (active s))))"
proof -
  from k have d: "distinct (map fst (active s))" by (simp add: keyed_def live_ids_def)
  show "request_id r = rid" using k r by (simp add: keyed_def)
  show "mset (live_ids s) = add_mset rid (mset (map request_id (waiting s) @ map fst (AList.delete rid (active s))))"
    using mset_delete [OF d r, of fst] by (simp add: live_ids_def)
  show "mset (map (ticket_of \<circ> snd) (active s)) = add_mset (ticket_of r) (mset (map (ticket_of \<circ> snd) (AList.delete rid (active s))))"
    using mset_delete [OF d r, of "ticket_of \<circ> snd"] by simp
qed

lemma keyed_mset:
  assumes k: "keyed s" and live: "mset (live_ids s) = mset (live_ids s') + out"
    and act: "\<forall>x q. map_of (active s') x = Some q \<longrightarrow> request_id q = x" and drop: "dropped s' = dropped s"
  shows "keyed s'"
proof -
  obtain xs where "out = mset xs" using ex_mset by metis
  then have "mset (live_ids s) = mset (live_ids s' @ xs)" using live by simp
  from mset_eq_imp_distinct_iff [OF this] k have "distinct (live_ids s' @ xs)" by (simp add: keyed_def)
  with act k drop show ?thesis by (simp add: keyed_def)
qed

lemma fewer_live: "mset (live_ids s) = mset (live_ids s') + out \<Longrightarrow> set (live_ids s') \<subseteq> set (live_ids s)"
  by (metis set_mset_mset set_mset_mono mset_subset_eq_add_left)

lemma leave_state: "leave now nxt rid reason s = Inr (q, s') \<Longrightarrow> state q = nxt"
  by (auto simp: leave_def pop_active_def release_pages_def advance_progress_def dest!: transition_shape(2) split: option.splits)

lemma leave_moves:
  assumes run: "leave now nxt rid reason s = Inr (q, s')" shows "moves {#ticket_of q#} s s'"
  unfolding moves_def
proof
  assume k: "keyed s"
  from run obtain r where r: "map_of (active s) rid = Some r" by (auto simp: leave_def pop_active_def split: option.splits)
  with run have t: "ticket_of q = ticket_of r"
    and s': "waiting s' = waiting s" "active s' = AList.delete rid (active s)" "dropped s' = dropped s"
    by (auto simp: leave_def pop_active_def release_pages_def advance_progress_def dest!: transition_shape(1) ticket_shape simp: ticket_of_def)
  note d = keyed_delete [OF k r]
  have live: "mset (live_ids s) = mset (live_ids s') + {#rid#}" using d(2) s' by (simp add: live_ids_def)
  have act: "\<forall>x p. map_of (active s') x = Some p \<longrightarrow> request_id p = x" using k by (simp add: keyed_def s' delete_conv')
  show "keyed s' \<and> known s = known s' + {#ticket_of q#} \<and> set (live_ids s') \<subseteq> set (live_ids s)"
    using keyed_mset [OF k live act s'(3)] fewer_live [OF live] d(3) s' t by (simp add: known_def)
qed

lemma preempt_moves:
  assumes run: "preempt now rid reason s = Inr (q, s')" shows "moves {#} s s'"
  unfolding moves_def
proof
  assume k: "keyed s"
  from run obtain r e where r: "map_of (active s) rid = Some r" and p: "req_preempt now reason e r = Inr q"
    and s': "waiting s' = requeue_in_arrival_order q (waiting s)" "active s' = AList.delete rid (active s)" "dropped s' = dropped s"
    by (fastforce simp: preempt_def pop_active_def release_pages_def split: option.splits)
  note d = keyed_delete [OF k r]
  have t: "ticket_of q = ticket_of r"
    by (rule preempt_run [OF p]) (auto dest!: transition_shape(1) simp: same_shape_def ticket_of_def)
  then have id: "request_id q = rid" using d(1) by (simp add: ticket_of_def)
  have "mset (map request_id (waiting s')) = add_mset rid (mset (map request_id (waiting s)))"
    using id by (simp add: s' requeue_mset)
  then have live: "mset (live_ids s) = mset (live_ids s') + {#}" using d(2) s' by (simp add: live_ids_def)
  have act: "\<forall>x p. map_of (active s') x = Some p \<longrightarrow> request_id p = x" using k by (simp add: keyed_def s' delete_conv')
  show "keyed s' \<and> known s = known s' + {#} \<and> set (live_ids s') \<subseteq> set (live_ids s)"
    using keyed_mset [OF k live act s'(3)] fewer_live [OF live] d(3) s' t by (simp add: known_def requeue_mset)
qed

lemma update_moves:
  assumes r: "map_of (active s) rid = Some r" and id: "ticket_of q = ticket_of r"
    and s': "waiting s' = waiting s" "active s' = AList.update rid q (active s)" "dropped s' = dropped s"
  shows "moves {#} s s'"
  unfolding moves_def
proof
  assume k: "keyed s"
  have "rid \<in> set (map fst (active s))" using r active_id_iff [of "active s" rid] by simp
  then have keys: "map fst (active s') = map fst (active s)" using s' by (simp add: update_keys)
  have live: "mset (live_ids s) = mset (live_ids s') + {#}" by (simp only: live_ids_def keys s'(1) add_0_right)
  have "request_id r = rid" using keyed_delete(1) [OF k r] .
  then have act: "\<forall>x p. map_of (active s') x = Some p \<longrightarrow> request_id p = x" using k ticket_id [OF id] by (auto simp: keyed_def s' update_conv')
  show "keyed s' \<and> known s = known s' + {#} \<and> set (live_ids s') \<subseteq> set (live_ids s)"
    using keyed_mset [OF k live act s'(3)] fewer_live [OF live] update_tickets [OF r id] s' by (simp add: known_def del: map_map)
qed

text \<open>Pool operations leave the queues alone.\<close>

lemma pool_moves: "pool_changed s s' \<Longrightarrow> moves {#} s s'"
  by (rule moves_same) (simp_all add: pool_changedD(1,2,6))

lemma acquire_pages_queues:
  assumes "acquire_pages r s = Inr (got, s')"
  shows "waiting s' = waiting s \<and> active s' = active s \<and> dropped s' = dropped s"
  using assms
  by (auto simp: acquire_pages_def lookup_prefix_def Let_def split: option.splits if_splits prod.splits)

lemma update_new: "k \<notin> fst ` set al \<Longrightarrow> AList.update k v al = al @ [(k, v)]"
  by (induction al) auto

lemma admit_loop_moves:
  "admit_loop clk mx s = Inr (adm, s') \<Longrightarrow> moves {#} s s'"
proof (induction clk mx s arbitrary: adm s' rule: admit_loop.induct)
  case (1 clk mx s)
  note eq = admit_loop.simps [of clk mx s]
  show ?case
  proof (cases "waiting s")
    case Nil
    with 1(3) show ?thesis by (simp add: eq)
  next
    case (Cons h rest)
    consider "s' = s" | (refuse) h' where "\<not> over_limit mx s" "reserved_tokens h > effective_capacity_tokens s"
        "req_transition (clk (request_id h)) REJECTED (Some ''KV_CAPACITY_EXCEEDED'') h = Inr h'"
        "admit_loop clk mx (s\<lparr>waiting := rest, rejected_count := rejected_count s + 1, dropped := dropped s @ [h']\<rparr>) = Inr (adm, s')"
      | (stall) got where "acquire_pages h s = Inr (got, s')"
      | (take) m nxt s1 h' more where "\<not> over_limit mx s" "\<not> reserved_tokens h > effective_capacity_tokens s" "\<not> epoch_gated h s"
          "acquire_pages h s = Inr (Some (m, nxt), s1)" "admit_request (clk (request_id h)) m nxt h = Inr h'"
          "admit_loop clk mx (s1\<lparr>waiting := rest, active := AList.update (request_id h') h' (active s1),
             prefill_order := prefill_order s1 @ [request_id h'], admission_count := admission_count s1 + 1\<rparr>) = Inr (more, s')"
      using 1(3) Cons unfolding eq by (auto split: if_splits option.splits)
    then show ?thesis
    proof cases
      case 1
      then show ?thesis by simp
    next
      case refuse
      have t: "ticket_of h' = ticket_of h" by (rule ticket_shape [OF transition_shape(1) [OF refuse(3)]])
      have "moves {#} s (s\<lparr>waiting := rest, rejected_count := rejected_count s + 1, dropped := dropped s @ [h']\<rparr>)"
        using Cons t ticket_id [OF t] transition_shape(2) [OF refuse(3)] by (auto simp: moves_def keyed_def known_def live_ids_def req_done_def)
      with 1(1) [OF Cons refuse(1-3) refuse(4)] show ?thesis using moves_then by blast
    next
      case stall
      then show ?thesis using acquire_pages_queues moves_same by blast
    next
      case take
      note q = acquire_pages_queues [OF take(4)]
      let ?s2 = "s1\<lparr>waiting := rest, active := AList.update (request_id h') h' (active s1),
             prefill_order := prefill_order s1 @ [request_id h'], admission_count := admission_count s1 + 1\<rparr>"
      have t: "ticket_of h' = ticket_of h"
        using take(5) by (auto simp: admit_request_def Let_def same_shape_def ticket_of_def dest!: transition_shape(1) split: if_splits)
      then have id: "request_id h' = request_id h" by (rule ticket_id)
      have "moves {#} s ?s2"
        unfolding moves_def
      proof
        assume k: "keyed s"
        then have "request_id h \<notin> set (map fst (active s))" using Cons by (auto simp: keyed_def live_ids_def)
        then have keys: "map fst (active ?s2) = map fst (active s) @ [request_id h]" using id q by (simp add: update_keys)
        have live: "mset (live_ids s) = mset (live_ids ?s2) + {#}"
          unfolding live_ids_def keys using Cons by simp
        have act: "\<forall>x p. map_of (active ?s2) x = Some p \<longrightarrow> request_id p = x" using k q by (auto simp: keyed_def update_conv')
        have new: "map (ticket_of \<circ> snd) (active ?s2) = map (ticket_of \<circ> snd) (active s) @ [ticket_of h]"
          using k q id t Cons by (simp add: keyed_def live_ids_def update_new)
        show "keyed ?s2 \<and> known s = known ?s2 + {#} \<and> set (live_ids ?s2) \<subseteq> set (live_ids s)"
          using keyed_mset [OF k live act] fewer_live [OF live] new q Cons by (simp add: known_def del: map_map)
      qed
      with 1(2) [OF Cons take(1-3) take(4) refl refl refl take(5,6)] show ?thesis using moves_then by blast
    qed
  qed
qed

text \<open>Getting memory only evicts cached blocks, copies a tail, or preempts.\<close>

lemma evict_queues: "evict_pages k s = Inr s' \<Longrightarrow> waiting s' = waiting s \<and> active s' = active s \<and> dropped s' = dropped s"
  by (auto simp: evict_pages_def split: option.splits)

lemma tail_queues:
  "ensure_writable_tail rid w = Inr (b, w') \<Longrightarrow>
     waiting (fst w') = waiting (fst w) \<and> active (fst w') = active (fst w) \<and> dropped (fst w') = dropped (fst w)"
  by (auto simp: ensure_writable_tail_def Let_def split: option.splits if_splits prod.splits dest!: evict_queues)

lemma capacity_queues:
  "ensure_kv_capacity rid target w = Inr (b, w') \<Longrightarrow>
     waiting (fst w') = waiting (fst w) \<and> active (fst w') = active (fst w) \<and> dropped (fst w') = dropped (fst w)"
  by (auto simp: ensure_kv_capacity_def Let_def split: option.splits if_splits dest!: evict_queues tail_queues)

lemma acquire_moves:
  "acquire_capacity clk rid target w = Inr (b, w') \<Longrightarrow> moves {#} (fst w) (fst w')"
proof (induction clk rid target w arbitrary: b w' rule: acquire_capacity.induct)
  case (1 clk rid target w)
  note eq = acquire_capacity.simps [of clk rid target w]
  from 1(2) obtain c w1 where e: "ensure_kv_capacity rid target w = Inr (c, w1)" by (auto simp: eq)
  have first: "moves {#} (fst w) (fst w1)" using capacity_queues [OF e] by (intro moves_same) simp_all
  consider (same) "w' = w1" | (yield) v q s2 where "\<not> c" "newest_active (fst w1) = Some v" "\<not> (request_id v = rid \<and> length (active (fst w1)) \<le> 1)"
      "preempt (clk (request_id v)) (request_id v) ''PREEMPTED'' (fst w1) = Inr (q, s2)"
      "(if request_id v = rid then Inr (False, s2, snd w1) else acquire_capacity clk rid target (s2, snd w1)) = Inr (b, w')"
    using 1(2) e by (auto simp: eq split: if_splits option.splits)
  then show ?case
  proof cases
    case same
    with first show ?thesis by simp
  next
    case yield
    have second: "moves {#} (fst w) s2" by (rule moves_then [OF first preempt_moves [OF yield(4)]])
    show ?thesis
    proof (cases "request_id v = rid")
      case True
      with yield(5) second show ?thesis by auto
    next
      case False
      with yield(5) have "acquire_capacity clk rid target (s2, snd w1) = Inr (b, w')" by simp
      from 1(1) [OF e refl yield(1,2,3,4) refl False this] have "moves {#} s2 (fst w')" by simp
      with second show ?thesis by (rule moves_then)
    qed
  qed
qed

section \<open>In the engine\<close>

text \<open>All the requests the engine knows, wherever they are.\<close>

definition roll :: "'g engine \<Rightarrow> ticket multiset" where
  "roll e = known (sch e) + mset (map ticket_of (ended e))"

definition enrolled :: "'g engine \<Rightarrow> bool" where
  "enrolled e \<longleftrightarrow> keyed (sch e) \<and> (\<forall>r \<in> set (ended e). req_done r)"

definition keeps_roll :: "'g engine \<Rightarrow> 'g engine \<Rightarrow> bool" where
  "keeps_roll e e' \<longleftrightarrow>
     (enrolled e \<longrightarrow> enrolled e' \<and> roll e' = roll e \<and> set (live_ids (sch e')) \<subseteq> set (live_ids (sch e)))"

lemma keeps_roll_refl [simp]: "keeps_roll e e"
  by (simp add: keeps_roll_def)

lemma keeps_roll_trans [trans]: "keeps_roll e e1 \<Longrightarrow> keeps_roll e1 e2 \<Longrightarrow> keeps_roll e e2"
  by (auto simp: keeps_roll_def)

lemma roll_moves: "moves {#} (sch e) (sch e') \<Longrightarrow> ended e' = ended e \<Longrightarrow> keeps_roll e e'"
  by (simp add: keeps_roll_def moves_def roll_def enrolled_def)

lemma roll_same: "sch e' = sch e \<Longrightarrow> ended e' = ended e \<Longrightarrow> keeps_roll e e'"
  by (rule roll_moves) simp_all

lemma keeps_roll_fields [simp]:
  "keeps_roll e (tick e') = keeps_roll e e'" "keeps_roll e (e'\<lparr>pages := kv\<rparr>) = keeps_roll e e'"
  "keeps_roll e (e'\<lparr>smp := st\<rparr>) = keeps_roll e e'"
  "keeps_roll e (e'\<lparr>last_step_prefill_tokens := i\<rparr>) = keeps_roll e e'" "keeps_roll e (e'\<lparr>last_step_decode_rows := i\<rparr>) = keeps_roll e e'"
  "keeps_roll e (e'\<lparr>last_step_prefill_path := p\<rparr>) = keeps_roll e e'" "keeps_roll e (e'\<lparr>fused_steps := i\<rparr>) = keeps_roll e e'"
  "keeps_roll e (e'\<lparr>prefill_steps := i\<rparr>) = keeps_roll e e'" "keeps_roll e (e'\<lparr>decode_only_steps := i\<rparr>) = keeps_roll e e'"
  "keeps_roll e (e'\<lparr>spec_fallbacks := i\<rparr>) = keeps_roll e e'"
  by (simp_all add: keeps_roll_def roll_def enrolled_def)

lemma keeps_roll_source [simp]:
  "keeps_roll (tick e') e = keeps_roll e' e" "keeps_roll (e'\<lparr>pages := kv\<rparr>) e = keeps_roll e' e" "keeps_roll (e'\<lparr>smp := st\<rparr>) e = keeps_roll e' e"
  "keeps_roll (e'\<lparr>prefill_sdpa_calls := a, prefill_sdpa_tokens := b, last_step_prefill_path := p\<rparr>) e = keeps_roll e' e"
  "keeps_roll (e'\<lparr>prefill_chunked_calls := a, prefill_chunked_tokens := b, last_step_prefill_path := p\<rparr>) e = keeps_roll e' e"
  "keeps_roll (count_round d c e') e = keeps_roll e' e"
  "keeps_roll (e'\<lparr>last_step_prefill_tokens := a, last_step_decode_rows := b, last_step_prefill_path := p\<rparr>) e = keeps_roll e' e"
  by (simp_all add: keeps_roll_def roll_def enrolled_def count_round_def)

lemma keeps_roll_manager [simp]:
  "keeps_roll (put_manager m e) e' = keeps_roll e e'" "keeps_roll e (put_manager m e') = keeps_roll e e'"
  by (simp_all add: keeps_roll_def roll_def enrolled_def put_manager_def keyed_def known_def live_ids_def)

lemma put_roll: "active_request rid e = Some r \<Longrightarrow> ticket_of q = ticket_of r \<Longrightarrow> keeps_roll e (put_request rid q e)"
  by (rule roll_moves, rule update_moves [of _ rid r q]) (simp_all add: put_request_def active_request_def)

lemma change_roll:
  assumes "change_request rid f e = Inr e'" and "\<And>r q. f r = Inr q \<Longrightarrow> ticket_of q = ticket_of r"
  shows "keeps_roll e e'"
  using assms by (auto simp: change_request_def with_request_def intro!: put_roll split: option.splits)

lemma advance_roll: "change_request rid (advance_prefill n) e = Inr e' \<Longrightarrow> keeps_roll e e'"
  by (erule change_roll) (auto simp: advance_prefill_def ticket_of_def Let_def split: if_splits)

lemma set_next_roll: "change_request rid (\<lambda>r. Inr (r\<lparr>req_next_token_id := v\<rparr>)) e = Inr e' \<Longrightarrow> keeps_roll e e'"
  by (erule change_roll) (auto simp: ticket_of_def)

lemma end_roll:
  assumes "end_request (leave now nxt rid reason (sch e)) e = Inr e'" and nxt: "terminal nxt"
  shows "keeps_roll e e'"
proof -
  from assms(1) obtain q s where l: "leave now nxt rid reason (sch e) = Inr (q, s)" and e': "sch e' = s" "ended e' = ended e @ [q]"
    by (auto simp: end_request_def)
  have "req_done q" using leave_state [OF l] nxt by (cases nxt) (simp_all add: req_done_def)
  with leave_moves [OF l] show ?thesis by (auto simp: keeps_roll_def moves_def roll_def enrolled_def e')
qed

lemma finish_roll: "finish_request env rid reason e = Inr e' \<Longrightarrow> keeps_roll e e'"
  unfolding finish_request_def finish_def by (erule end_roll) simp

lemma fail_roll: "fail_request env rid reason e = Inr e' \<Longrightarrow> keeps_roll e e'"
  unfolding fail_request_def fail_def by (erule end_roll) simp

lemma capacity_roll:
  assumes "capacity_or_fail env rid target e = Inr (b, e')"
  shows "keeps_roll e e'"
proof -
  from assms obtain got s kv where a: "acquire_capacity (clock_at env (ticks e)) rid target (sch e, pages e) = Inr (got, s, kv)"
    by (auto simp: capacity_or_fail_def)
  let ?e1 = "tick (e\<lparr>sch := s, pages := kv\<rparr>)"
  have first: "keeps_roll e ?e1" by (rule roll_moves) (use acquire_moves [OF a] in simp_all)
  from assms a have "e' = ?e1 \<or> fail_request env rid ''KV_POOL_EXHAUSTED'' ?e1 = Inr e'"
    by (auto simp: capacity_or_fail_def Let_def split: if_splits)
  with first show ?thesis using fail_roll keeps_roll_trans by blast
qed

lemma publish_roll: "publish_prefix rid nxt toks e = Inr e' \<Longrightarrow> keeps_roll e e'"
  by (rule roll_moves, rule moves_same)
    (auto simp: publish_prefix_def with_request_def split: option.splits if_splits)

lemma finish_if_roll: "finish_if_ended env rid tok e = Inr e' \<Longrightarrow> keeps_roll e e'"
  by (auto simp: finish_if_ended_def with_request_def dest: finish_roll split: option.splits)

lemma mark_roll:
  assumes "mark_request env rid e = Inr e'"
  shows "keeps_roll e e'"
proof -
  from assms obtain r q s where r: "map_of (active (sch e)) rid = Some r" and t: "\<exists>now. req_transition now DECODING None r = Inr q"
    and s: "s = (sch e)\<lparr>active := AList.update rid q (active (sch e))\<rparr>" and e': "e' = tick (e\<lparr>sch := s\<rparr>)"
    by (fastforce simp: mark_request_def mark_decoding_def split: option.splits)
  have "ticket_of q = ticket_of r" using t transition_shape(1) ticket_shape by blast
  then show ?thesis unfolding e' using r s by (intro roll_moves update_moves [OF r]) simp_all
qed

lemma emit_roll: "emit_token env rid tok e = Inr e' \<Longrightarrow> keeps_roll e e'"
  by (auto simp: emit_token_def append_token_def ticket_of_def dest!: change_roll split: if_splits)

lemma complete_roll:
  assumes "complete_prefill env rid predicted e = Inr e'"
  shows "keeps_roll e e'"
proof -
  from assms obtain r where r: "active_request rid e = Some r" by (auto simp: complete_prefill_def with_request_def split: option.splits)
  have put: "keeps_roll e (put_request rid (r\<lparr>req_next_token_id := v\<rparr>) e)" for v by (rule put_roll [OF r]) (simp add: ticket_of_def)
  have resumed: "keeps_roll e1 e2" if "change_request rid complete_resumption e1 = Inr e2" for e1 e2 :: "'a engine"
    by (rule change_roll [OF that]) (auto simp: complete_resumption_def ticket_of_def split: if_splits)
  consider (resume) e1 e2 where "publish_prefix rid None (prompt_token_ids r) (put_request rid (r\<lparr>req_next_token_id := Some (last (output_token_ids r))\<rparr>) e) = Inr e1"
      "mark_request env rid e1 = Inr e2" "change_request rid complete_resumption e2 = Inr e'"
    | (bad) "fail_request env rid ''INVALID_PREFIX_ENTRY'' e = Inr e'"
    | (first) t e1 e2 e3 where "publish_prefix rid (Some t) (prompt_token_ids r) (put_request rid (r\<lparr>req_next_token_id := Some t\<rparr>) e) = Inr e1"
      "mark_request env rid e1 = Inr e2" "emit_token env rid t e2 = Inr e3" "finish_if_ended env rid t e3 = Inr e'"
    using assms r by (auto simp: complete_prefill_def with_request_def split: if_splits option.splits)
  then show ?thesis
  proof cases
    case resume
    with put publish_roll mark_roll resumed show ?thesis by (meson keeps_roll_trans)
  next
    case bad
    then show ?thesis by (rule fail_roll)
  next
    case first
    with put publish_roll mark_roll emit_roll finish_if_roll show ?thesis by (meson keeps_roll_trans)
  qed
qed

text \<open>Loops.\<close>

lemma for_each_roll:
  assumes "for_each f xs e = Inr e'" and "\<And>x e e'. f x e = Inr e' \<Longrightarrow> keeps_roll e e'"
  shows "keeps_roll e e'"
  using assms(1)
proof (induction xs arbitrary: e)
  case (Cons x xs)
  then obtain e1 where "f x e = Inr e1" "for_each f xs e1 = Inr e'" by auto
  with Cons.IH assms(2) show ?case using keeps_roll_trans by blast
qed simp

lemma acquire_rows_roll: "acquire_rows env st target rows e = Inr (got, e') \<Longrightarrow> keeps_roll e e'"
proof (induction rows arbitrary: e got)
  case (Cons row rest)
  obtain rid x where row: "row = (rid, x)" by (cases row)
  consider (skip) "acquire_rows env st target rest e = Inr (got, e')"
    | (serve) r a b e1 more where "capacity_or_fail env rid (target r a x) e = Inr (b, e1)" "acquire_rows env st target rest e1 = Inr (more, e')"
    using Cons.prems row by (auto split: option.splits if_splits)
  then show ?case using Cons.IH capacity_roll keeps_roll_trans by cases blast+
qed simp

lemma viable_roll: "viable_rows env st target rows e = Inr (got, e') \<Longrightarrow> keeps_roll e e'"
  by (auto simp: viable_rows_def dest: acquire_rows_roll)

lemma decode_viable_roll: "decode_viable env ids e = Inr (got, e') \<Longrightarrow> keeps_roll e e'"
  by (auto simp: decode_viable_def dest: viable_roll)

lemma sample_rows_roll:
  assumes "sample_rows env ids rows e = Inr (toks, e')"
  shows "keeps_roll e e'"
proof -
  from assms obtain st lps where "for_each (\<lambda>(i, entries). change_request (ids ! i) (add_logprobs entries)) lps (e\<lparr>smp := st\<rparr>) = Inr e'"
    by (auto simp: sample_rows_def)
  then have "keeps_roll (e\<lparr>smp := st\<rparr>) e'"
    by (rule for_each_roll) (auto simp: add_logprobs_def ticket_of_def dest!: change_roll split: prod.splits)
  then show ?thesis by simp
qed

section \<open>Steps of the engine\<close>

lemma commit_decode_row_roll:
  assumes "commit_decode_row env row e = Inr e'"
  shows "keeps_roll e e'"
proof -
  obtain rid tok where row: "row = (rid, tok)" by (cases row)
  from assms obtain m e1 e2 where c: "change_request rid (\<lambda>r. Inr (r\<lparr>req_next_token_id := Some tok\<rparr>)) (put_manager m e) = Inr e1"
    "emit_token env rid tok e1 = Inr e2" "finish_if_ended env rid tok e2 = Inr e'" by (auto simp: commit_decode_row_def row)
  have "keeps_roll e e1" using set_next_roll [OF c(1)] by simp
  from keeps_roll_trans [OF this keeps_roll_trans [OF emit_roll [OF c(2)] finish_if_roll [OF c(3)]]] show ?thesis .
qed

lemma commit_decode_roll: "commit_decode env ids toks e = Inr e' \<Longrightarrow> keeps_roll e e'"
  unfolding commit_decode_def by (erule for_each_roll) (rule commit_decode_row_roll)

lemma decode_rows_roll:
  assumes "decode_rows env ids e = Inr e'"
  shows "keeps_roll e e'"
proof -
  from assms obtain kv logits toks e1 where s: "sample_rows env ids logits (e\<lparr>pages := kv\<rparr>) = Inr (toks, e1)" "commit_decode env ids toks e1 = Inr e'"
    by (auto simp: decode_rows_def forward_rows_def Let_def)
  from sample_rows_roll [OF s(1)] commit_decode_roll [OF s(2)] show ?thesis by simp (rule keeps_roll_trans)
qed

lemma decode_step_roll: "decode_step env ids e = Inr e' \<Longrightarrow> keeps_roll e e'"
  by (auto simp: decode_step_def dest!: decode_viable_roll decode_rows_roll intro: keeps_roll_trans split: if_splits)

lemma replay_input_roll:
  assumes "replay_decode_input env rid tok e = Inr e'"
  shows "keeps_roll e e'"
proof -
  from assms obtain e1 kv m where c: "change_request rid (\<lambda>r. Inr (r\<lparr>req_next_token_id := Some tok\<rparr>)) e = Inr e1"
    "change_request rid (advance_prefill 1) (put_manager m (e1\<lparr>pages := kv\<rparr>)) = Inr e'"
    by (auto simp: replay_decode_input_def forward_rows_def Let_def split: if_splits)
  have "keeps_roll e1 e'" using advance_roll [OF c(2)] by simp
  with set_next_roll [OF c(1)] show ?thesis by (rule keeps_roll_trans)
qed

lemma replay_history_roll:
  assumes "replay_resumed_history env rid e = Inr e'"
  shows "keeps_roll e e'"
proof -
  obtain r where r: "active_request rid e = Some r" using assms by (auto simp: replay_resumed_history_def with_request_def split: option.splits)
  let ?v = "if output_token_ids r = [] then None else Some (last (output_token_ids r))"
  consider "e' = e" | e1 where "for_each (replay_decode_input env rid) (butlast (output_token_ids r)) e = Inr e1"
    "change_request rid (\<lambda>r'. Inr (r'\<lparr>req_next_token_id := ?v\<rparr>)) e1 = Inr e'"
    using assms r by (cases "resuming r") (auto simp: replay_resumed_history_def with_request_def simp del: change_request_def)
  then show ?thesis
  proof cases
    case (2 e1)
    have "keeps_roll e e1" by (rule for_each_roll [OF 2(1)]) (rule replay_input_roll)
    from keeps_roll_trans [OF this set_next_roll [OF 2(2)]] show ?thesis .
  qed simp
qed

lemma commit_prefill_batch_roll:
  assumes "commit_prefill_batch_row env row e = Inr e'"
  shows "keeps_roll e e'"
proof -
  obtain rid sequence tok where row: "row = (rid, sequence, tok)" by (cases row)
  from assms obtain m e1 e2 where c: "change_request rid (advance_prefill (int (length sequence))) (put_manager m e) = Inr e1"
    "replay_resumed_history env rid e1 = Inr e2" "complete_prefill env rid (Some tok) e2 = Inr e'"
    by (auto simp: commit_prefill_batch_row_def row split: if_splits)
  have "keeps_roll e e1" using advance_roll [OF c(1)] by simp
  from keeps_roll_trans [OF this keeps_roll_trans [OF replay_history_roll [OF c(2)] complete_roll [OF c(3)]]] show ?thesis .
qed

lemma prefill_batch_roll:
  assumes "prefill_batch env ids e = Inr e'"
  shows "keeps_roll e e'"
proof -
  consider "e' = e" | viable where "viable_rows env PREFILLING (\<lambda>r a n. prefill_token_count r) (map (\<lambda>rid. (rid, ())) ids) e = Inr (viable, e')"
    | viable e1 kv logits toks e2 ps where "viable_rows env PREFILLING (\<lambda>r a n. prefill_token_count r) (map (\<lambda>rid. (rid, ())) ids) e = Inr (viable, e1)"
      "sample_rows env (map fst viable) logits (e1\<lparr>pages := kv\<rparr>) = Inr (toks, e2)"
      "for_each (commit_prefill_batch_row env) (zip (map fst viable) ps) e2 = Inr e'"
    using assms by (fastforce simp: prefill_batch_def forward_rows_def Let_def split: if_splits)
  then show ?thesis
  proof cases
    case 1
    then show ?thesis by simp
  next
    case 2
    then show ?thesis by (rule viable_roll)
  next
    case 3
    have "keeps_roll e e1" "keeps_roll e1 e2" using viable_roll [OF 3(1)] sample_rows_roll [OF 3(2)] by simp_all
    moreover have "keeps_roll e2 e'" by (rule for_each_roll [OF 3(3)]) (rule commit_prefill_batch_roll)
    ultimately show ?thesis using keeps_roll_trans by blast
  qed
qed

lemma commit_prefill_row_roll:
  assumes "commit_prefill_row env row e = Inr e'"
  shows "keeps_roll e e'"
proof -
  obtain rid n tok where row: "row = ((rid, n), tok)" by (metis prod.exhaust)
  from assms obtain m e1 where c: "change_request rid (advance_prefill n) (put_manager m e) = Inr e1"
    "e' = e1 \<or> complete_prefill env rid (Some tok) e1 = Inr e'"
    by (auto simp: commit_prefill_row_def row with_request_def split: if_splits option.splits)
  have "keeps_roll e e1" using advance_roll [OF c(1)] by simp
  with c(2) complete_roll keeps_roll_trans show ?thesis by blast
qed

lemma commit_prefill_roll: "commit_prefill env plans toks e = Inr e' \<Longrightarrow> keeps_roll e e'"
  unfolding commit_prefill_def by (erule for_each_roll) (rule commit_prefill_row_roll)

lemma chunks_roll:
  assumes "prefill_chunks env plans e = Inr e'"
  shows "keeps_roll e e'"
proof -
  let ?whole = "e\<lparr>prefill_sdpa_calls := prefill_sdpa_calls e + 1, prefill_sdpa_tokens := prefill_sdpa_tokens e + sum_list (map snd plans),
      last_step_prefill_path := ''sdpa''\<rparr>"
  let ?chunked = "e\<lparr>prefill_chunked_calls := prefill_chunked_calls e + 1,
      prefill_chunked_tokens := prefill_chunked_tokens e + sum_list (map snd plans), last_step_prefill_path := ''chunked''\<rparr>"
  consider "e' = e" | "prefill_batch env (map fst plans) ?whole = Inr e'" | got where "prefill_viable env plans ?chunked = Inr (got, e')"
    | got e1 logits kv toks e2 where "prefill_viable env plans ?chunked = Inr (got, e1)"
      "sample_rows env (map fst got) logits (e1\<lparr>pages := kv\<rparr>) = Inr (toks, e2)" "commit_prefill env got toks e2 = Inr e'"
    using assms by (fastforce simp: prefill_chunks_def forward_rows_def Let_def split: if_splits)
  then show ?thesis
  proof cases
    case 1
    then show ?thesis by simp
  next
    case 2
    from prefill_batch_roll [OF this] show ?thesis by simp
  next
    case (3 got)
    from viable_roll [OF this [unfolded prefill_viable_def]] show ?thesis by simp
  next
    case (4 got e1 logits kv toks e2)
    have "keeps_roll e e1" "keeps_roll e1 e2" using viable_roll [OF 4(1) [unfolded prefill_viable_def]] sample_rows_roll [OF 4(2)] by simp_all
    from keeps_roll_trans [OF this(1) keeps_roll_trans [OF this(2) commit_prefill_roll [OF 4(3)]]] show ?thesis .
  qed
qed

lemma fused_roll:
  assumes "fused_rows_step env ids plans0 e0 = Inr (b, e')"
  shows "keeps_roll e0 e'"
proof -
  from assms obtain plans e where v: "(if plans0 = [] then Inr ([], e0) else prefill_viable env plans0 e0) = Inr (plans, e)"
    by (auto simp: fused_rows_step_def)
  have first: "keeps_roll e0 e" using v by (auto simp: prefill_viable_def dest: viable_roll split: if_splits)
  let ?e1 = "e\<lparr>prefill_chunked_calls := prefill_chunked_calls e + 1,
      prefill_chunked_tokens := prefill_chunked_tokens e + sum_list (map snd plans), last_step_prefill_path := ''fused''\<rparr>"
  consider "e' = e" | rows where "decode_rows env rows e = Inr e'" | "prefill_chunks env plans e = Inr e'"
    | rids logits kv toks e3 rows dtoks e4 ptoks where "sample_rows env rids logits (?e1\<lparr>pages := kv\<rparr>) = Inr (toks, e3)"
      "commit_decode env rows dtoks e3 = Inr e4" "commit_prefill env plans ptoks e4 = Inr e'"
    using assms v by (fastforce simp: fused_rows_step_def forward_rows_def Let_def split: if_splits)
  then have "keeps_roll e e'"
  proof cases
    case 1
    then show ?thesis by simp
  next
    case 2
    then show ?thesis by (rule decode_rows_roll)
  next
    case 3
    then show ?thesis by (rule chunks_roll)
  next
    case 4
    have "keeps_roll e e3" using sample_rows_roll [OF 4(1)] by simp
    from keeps_roll_trans [OF this keeps_roll_trans [OF commit_decode_roll [OF 4(2)] commit_prefill_roll [OF 4(3)]]] show ?thesis .
  qed
  with first show ?thesis by (rule keeps_roll_trans)
qed

lemma fallback_roll:
  assumes "note_fallback rid e = Inr e'"
  shows "keeps_roll e e'"
proof -
  from assms obtain e1 where c: "change_request rid (\<lambda>r. Inr (r\<lparr>speculative_fallbacks := speculative_fallbacks r + 1\<rparr>)) e = Inr e1"
    and e': "e' = e1\<lparr>spec_fallbacks := spec_fallbacks e1 + 1\<rparr>" by (auto simp: note_fallback_def)
  have "keeps_roll e e1" by (rule change_roll [OF c]) (auto simp: ticket_of_def)
  with e' show ?thesis by simp
qed

lemma split_roll: "split_rows env ids e = Inr (rows, ordinary, e') \<Longrightarrow> keeps_roll e e'"
proof (induction ids arbitrary: e rows ordinary)
  case (Cons rid ids)
  consider (fall) e1 a b where "note_fallback rid e = Inr e1" "split_rows env ids e1 = Inr (a, b, e')"
    | (propose) a b where "split_rows env ids (tick e) = Inr (a, b, e')"
    using Cons.prems by (fastforce simp: Let_def split: if_splits)
  then show ?case
  proof cases
    case fall
    from fallback_roll [OF fall(1)] Cons.IH [OF fall(2)] show ?thesis by (rule keeps_roll_trans)
  next
    case propose
    from Cons.IH [OF propose] show ?thesis by simp
  qed
qed simp

lemma commit_speculative_roll:
  assumes "commit_speculative_row env depth row e = Inr e'"
  shows "keeps_roll e e'"
proof -
  obtain rid proposals preds where row: "row = ((rid, proposals), preds)" by (metis prod.exhaust)
  from assms obtain c m e1 e2 e3 where
    x: "change_request rid (note_round depth c (last (gc_emitted c))) (put_manager m e) = Inr e1"
      "for_each (emit_token env rid) (gc_emitted c) (count_round depth c e1) = Inr e2" "spec_cache_check rid e2 = Inr e3"
      "(case terminal_reason c of Some reason \<Rightarrow> finish_request env rid reason e3
        | None \<Rightarrow> finish_if_ended env rid (last (gc_emitted c)) e3) = Inr e'"
    by (auto simp: commit_speculative_row_def row with_request_def split: option.splits if_splits)
  have "keeps_roll (put_manager m e) e1" by (rule change_roll [OF x(1)]) (auto simp: note_round_def ticket_of_def)
  then have a: "keeps_roll e e1" by simp
  have "keeps_roll (count_round depth c e1) e2" by (rule for_each_roll [OF x(2)]) (rule emit_roll)
  then have b: "keeps_roll e1 e2" by simp
  have "e3 = e2" using x(3) by (auto simp: spec_cache_check_def with_request_def split: option.splits if_splits)
  moreover have "keeps_roll e3 e'" using x(4) finish_roll finish_if_roll by (cases "terminal_reason c") auto
  ultimately show ?thesis using keeps_roll_trans [OF a b] keeps_roll_trans by blast
qed

lemma speculative_rows_roll:
  assumes "speculative_rows_step env depth rows0 e = Inr e'"
  shows "keeps_roll e e'"
proof -
  let ?v = "viable_rows env DECODING (\<lambda>r a ps. sequence_length a + int (depth + 1)) (in_arrival_order e rows0) e"
  consider got where "?v = Inr (got, e')" | got e1 kv zs where "?v = Inr (got, e1)"
      "for_each (commit_speculative_row env depth) zs (e1\<lparr>pages := kv\<rparr>) = Inr e'"
    using assms by (fastforce simp: speculative_rows_step_def verify_predictions_def Let_def split: if_splits)
  then show ?thesis
  proof cases
    case 1
    then show ?thesis by (rule viable_roll)
  next
    case (2 got e1 kv zs)
    have "keeps_roll (e1\<lparr>pages := kv\<rparr>) e'" by (rule for_each_roll [OF 2(2)]) (rule commit_speculative_roll)
    then have "keeps_roll e1 e'" by simp
    with viable_roll [OF 2(1)] show ?thesis by (rule keeps_roll_trans)
  qed
qed

lemma speculative_group_roll: "speculative_group env rows depth e = Inr e' \<Longrightarrow> keeps_roll e e'"
  by (auto simp: speculative_group_def Let_def dest: speculative_rows_roll split: if_splits)

lemma speculative_step_roll:
  assumes "speculative_decode_step env ids e = Inr e'"
  shows "keeps_roll e e'"
proof -
  from assms obtain rows ordinary e1 e2 where s: "split_rows env ids e = Inr (rows, ordinary, e1)"
    "for_each (speculative_group env rows) (sort (remdups (map (\<lambda>(rid, ps). length ps) rows))) e1 = Inr e2"
    and last: "e' = e2 \<or> (\<exists>live_ids. decode_step env live_ids e2 = Inr e')"
    by (fastforce simp: speculative_decode_step_def Let_def split: if_splits)
  have "keeps_roll e1 e2" by (rule for_each_roll [OF s(2)]) (rule speculative_group_roll)
  with split_roll [OF s(1)] have "keeps_roll e e2" by (rule keeps_roll_trans)
  with last decode_step_roll keeps_roll_trans show ?thesis by blast
qed

lemma admit_step_roll:
  assumes "admit_step env e = Inr (ids, e')"
  shows "keeps_roll e e'"
proof -
  from assms obtain adm s where a: "admit_loop (clock_at env (ticks e)) (Some (max_active env)) (sch e) = Inr (adm, s)"
    and e': "e' = tick (e\<lparr>sch := s\<rparr>)" by (auto simp: admit_step_def admit_available_def split: if_splits)
  from admit_loop_moves [OF a] have "keeps_roll e (e\<lparr>sch := s\<rparr>)" by (intro roll_moves) simp_all
  then show ?thesis by (simp add: e')
qed

lemma complete_if_roll: "complete_if_cached env rid e = Inr e' \<Longrightarrow> keeps_roll e e'"
  by (auto simp: complete_if_cached_def with_request_def dest: complete_roll split: option.splits if_splits)

lemma plan_roll: "plan_step env e = Inr (plans, e') \<Longrightarrow> keeps_roll e e'"
  by (rule roll_moves, rule moves_same) (auto simp: plan_step_def plan_prefill_def Let_def split: if_splits prod.splits)

lemma step_roll:
  assumes "step env e = Inr e'"
  shows "keeps_roll e e'"
proof -
  define fused where "fused \<longleftrightarrow> use_fused_step env \<and> decoding_ids e \<noteq> [] \<and> \<not> (proposer env \<noteq> None \<and> decoding_ids e \<noteq> [])"
  from assms [unfolded step_phases] obtain rows e1 adm e2 e3 plans e4 e6 where p: "decode_phase env e = Inr (rows, e1)"
    "admit_step env e1 = Inr (adm, e2)" "for_each (complete_if_cached env) adm e2 = Inr e3" "plan_step env e3 = Inr (plans, e4)"
    and l: "(if fused then and_then (fused_rows_step env rows plans (e4\<lparr>last_step_prefill_tokens := sum_list (map snd plans),
          last_step_decode_rows := int (length (decoding_ids e)), last_step_prefill_path := []\<rparr>))
            (\<lambda>(ran, e6). Inr (if ran then e6\<lparr>fused_steps := fused_steps e6 + 1\<rparr> else e6))
          else if plans \<noteq> [] then prefill_chunks env plans (e4\<lparr>last_step_prefill_tokens := sum_list (map snd plans),
            last_step_decode_rows := int (length (decoding_ids e)), last_step_prefill_path := []\<rparr>)
          else Inr (e4\<lparr>last_step_prefill_tokens := sum_list (map snd plans),
            last_step_decode_rows := int (length (decoding_ids e)), last_step_prefill_path := []\<rparr>)) = Inr e6"
    and e': "e' = e6 \<or> e' = e6\<lparr>prefill_steps := prefill_steps e6 + 1\<rparr> \<or> e' = e6\<lparr>decode_only_steps := decode_only_steps e6 + 1\<rparr>"
    unfolding fused_def [symmetric] Let_def by (fastforce split: if_splits)
  have a: "keeps_roll e e1"
    using p(1) by (auto simp: Let_def dest: speculative_step_roll decode_step_roll decode_viable_roll split: if_splits)
  have b: "keeps_roll e2 e3" by (rule for_each_roll [OF p(3)]) (rule complete_if_roll)
  note c = keeps_roll_trans [OF keeps_roll_trans [OF a admit_step_roll [OF p(2)]] keeps_roll_trans [OF b plan_roll [OF p(4)]]]
  have "keeps_roll e4 e6" using l by (auto dest!: fused_roll chunks_roll split: if_splits prod.splits)
  with c have "keeps_roll e e6" by (rule keeps_roll_trans)
  with e' show ?thesis by auto
qed

section \<open>Every reachable engine\<close>

lemma transition_id: "req_transition now nxt reason r = Inr q \<Longrightarrow> ticket_of q = ticket_of r \<and> state q = nxt"
  using transition_shape(1,2) ticket_shape by blast

lemma submit_roll:
  assumes run: "engine_submit env r e = Inr (b, e')" and ok: "enrolled e"
  shows "enrolled e' \<and> roll e' = add_mset (ticket_of r) (roll e)"
proof -
  from run obtain r' s where sub: "sched_submit (clock_at env (ticks e) (request_id r)) r (sch e) = Inr (b, r', s)"
    and e': "e' = tick (e\<lparr>sch := s, ended := (if b then ended e else ended e @ [r'])\<rparr>)"
    by (auto simp: engine_submit_def split: if_splits)
  from sub consider (queued) "b" "s = (sch e)\<lparr>waiting := waiting (sch e) @ [r]\<rparr>" "map_of (active (sch e)) (request_id r) = None"
      "\<not> list_ex (\<lambda>q. request_id q = request_id r) (waiting (sch e))"
    | (full) "\<not> b" "s = (sch e)\<lparr>rejected_count := rejected_count (sch e) + 1\<rparr>" "ticket_of r' = ticket_of r" "req_done r'"
    by (auto simp: sched_submit_def req_done_def dest!: transition_id split: if_splits)
  then show ?thesis
  proof cases
    case queued
    have "request_id r \<notin> set (live_ids (sch e))"
      using queued(3,4) by (auto simp: live_ids_def map_of_eq_None_iff list_ex_iff)
    then show ?thesis
      using ok queued(1,2) by (auto simp: e' enrolled_def keyed_def roll_def known_def live_ids_def)
  next
    case full
    then show ?thesis using ok by (auto simp: e' enrolled_def keyed_def roll_def known_def live_ids_def)
  qed
qed

lemma leave_live:
  assumes run: "leave now nxt rid reason s = Inr (q, s')" and k: "keyed s"
  shows "mset (live_ids s) = add_mset rid (mset (live_ids s'))"
proof -
  from run obtain r where r: "map_of (active s) rid = Some r" by (auto simp: leave_def pop_active_def split: option.splits)
  with run have "waiting s' = waiting s" "active s' = AList.delete rid (active s)"
    by (auto simp: leave_def pop_active_def release_pages_def advance_progress_def)
  with keyed_delete(2) [OF k r] show ?thesis by (simp add: live_ids_def)
qed

text \<open>A cancelled request, queued or active, leaves the live ones.\<close>

lemma image_mset_remove1: "x \<in> set xs \<Longrightarrow> mset (map f xs) = add_mset (f x) (mset (map f (remove1 x xs)))"
  by (metis image_mset_add_mset insert_DiffM mset_map mset_remove1 set_mset_mset)

lemma cancel_live:
  assumes run: "engine_cancel env rid reason e = Inr e'" and ok: "enrolled e"
  shows "mset (live_ids (sch e)) = add_mset rid (mset (live_ids (sch e')))"
proof (cases "find (\<lambda>q. request_id q = rid) (waiting (sch e))")
  case None
  with run obtain q s where "leave (clock_at env (ticks e) rid) CANCELLED rid reason (sch e) = Inr (q, s)" "sch e' = s"
    by (auto simp: engine_cancel_def cancel_def end_request_def)
  with leave_live ok show ?thesis by (simp add: enrolled_def)
next
  case (Some r)
  then have r: "r \<in> set (waiting (sch e))" "request_id r = rid" by (auto simp: find_Some_iff)
  from run Some have e': "sch e' = (sch e)\<lparr>waiting := remove1 r (waiting (sch e))\<rparr>"
    by (auto simp: engine_cancel_def cancel_def end_request_def)
  have "mset (waiting (sch e)) = add_mset r (mset (remove1 r (waiting (sch e))))" using r by simp
  then have "image_mset request_id (mset (waiting (sch e))) = add_mset rid (image_mset request_id (mset (remove1 r (waiting (sch e)))))"
    using r(2) by (metis image_mset_add_mset)
  then show ?thesis by (simp add: live_ids_def e')
qed

lemma cancel_roll:
  assumes run: "engine_cancel env rid reason e = Inr e'"
  shows "keeps_roll e e'"
proof (cases "find (\<lambda>q. request_id q = rid) (waiting (sch e))")
  case None
  then have "end_request (leave (clock_at env (ticks e) rid) CANCELLED rid reason (sch e)) e = Inr e'"
    using run by (simp add: engine_cancel_def cancel_def)
  then show ?thesis by (rule end_roll) simp
next
  case (Some r)
  then have mem: "r \<in> set (waiting (sch e))" by (auto simp: find_Some_iff)
  from run Some obtain q where t: "req_transition (clock_at env (ticks e) rid) CANCELLED (Some reason) r = Inr q"
    and e': "sch e' = (sch e)\<lparr>waiting := remove1 r (waiting (sch e))\<rparr>" "ended e' = ended e @ [q]"
    by (auto simp: engine_cancel_def cancel_def end_request_def)
  note ts = transition_shape(1,2) [OF t]
  have q: "ticket_of q = ticket_of r" "req_done q" using ts ticket_shape by (simp_all add: req_done_def)
  have id: "request_id r = rid" using Some by (auto simp: find_Some_iff)
  have "enrolled e' \<and> roll e' = roll e \<and> set (live_ids (sch e')) \<subseteq> set (live_ids (sch e))" if ok: "enrolled e"
  proof -
    have live: "mset (live_ids (sch e)) = mset (live_ids (sch e')) + {#request_id r#}" using cancel_live [OF run ok] id by simp
    have k: "keyed (sch e)" using ok by (simp add: enrolled_def)
    have "\<forall>x p. map_of (active (sch e')) x = Some p \<longrightarrow> request_id p = x" using k by (simp add: keyed_def e')
    from keyed_mset [OF k live this] have "keyed (sch e')" by (simp add: e')
    moreover have "mset (map ticket_of (waiting (sch e))) = add_mset (ticket_of r) (mset (map ticket_of (remove1 r (waiting (sch e)))))"
      by (rule image_mset_remove1 [OF mem])
    ultimately show ?thesis using ok fewer_live [OF live] q by (auto simp: enrolled_def roll_def known_def e')
  qed
  then show ?thesis by (simp add: keeps_roll_def)
qed

lemma fresh_enrolled:
  assumes "fresh_scheduler env n bs mw cb = Inr (s, slots)"
  shows "keyed s" and "known s = {#}"
proof -
  have "waiting s = []" "active s = []" "dropped s = []" using assms by (auto simp: fresh_scheduler_def scheduler_init_def split: if_splits)
  then show "keyed s" and "known s = {#}" by (simp_all add: keyed_def known_def live_ids_def)
qed

lemma engine_reachable_enrolled: "engine_reachable env e \<Longrightarrow> enrolled e"
proof (induction rule: engine_reachable.induct)
  case (er_start limit n bs mw cb dflt sd kv e)
  from er_start(2) obtain s slots where "fresh_scheduler env n bs mw cb = Inr (s, slots)" "sch e = s" "ended e = []"
    by (auto simp: engine_init_def split: if_splits)
  then show ?case using fresh_enrolled(1) by (simp add: enrolled_def)
next
  case (er_submit e rid cnt mx ids sp now r b e')
  with submit_roll show ?case by blast
next
  case (er_step e e')
  with step_roll [OF er_step(2)] show ?case by (simp add: keeps_roll_def)
next
  case (er_cancel e rid reason e')
  with cancel_roll [OF er_cancel(2)] show ?case by (simp add: keeps_roll_def)
next
  case (er_reset e e')
  from er_reset(2) obtain n bs mw cb s slots where "fresh_scheduler env n bs mw cb = Inr (s, slots)" "sch e' = s" "ended e' = ended e"
    by (auto simp: engine_reset_def)
  then show ?case using fresh_enrolled(1) er_reset(3) by (simp add: enrolled_def)
qed

end
