(* ===== verification/Service.thy ===== *)
theory Service
  imports Engine_Requests
begin

text \<open>
  \<open>server/continuous.py\<close>: the worker thread that owns the engine, the handles its callers
  hold, and their interleaving. The worker is a program counter over the body of its loop; one
  step of it takes one item of the inbox or of the cancellations with what follows, or runs the
  engine once and publishes what completed. A caller's submission may reach the inbox long
  after its checks, so the two are separate steps, and draining and stopping may come between
  any two steps of the worker. \<open>Thread.join\<close> is taken to have joined. Waiting, the wake-up
  event, metrics and the published statistics are left out.
\<close>

section \<open>Handles\<close>

datatype handle_error = Rejected string | ServerShutdown | Fatal py_error

text \<open>\<open>h_request\<close> is the request as it was submitted; its later states are \<open>request_of\<close> below.\<close>

record handle =
  h_request :: request
  completed :: bool
  accepted :: bool
  h_error :: "handle_error option"
  callbacks :: "nat list"
  accept_callbacks :: "nat list"
  called :: "nat list"

definition new_handle :: "request \<Rightarrow> handle" where
  "new_handle r = \<lparr>h_request = r, completed = False, accepted = False, h_error = None, callbacks = [], accept_callbacks = [], called = []\<rparr>"

text \<open>An observer runs when the event comes, or at once when it has come. \<open>called\<close> are those that ran.\<close>

definition on_complete :: "nat \<Rightarrow> handle \<Rightarrow> handle" where
  "on_complete cb h = (if completed h then h\<lparr>called := called h @ [cb]\<rparr> else h\<lparr>callbacks := callbacks h @ [cb]\<rparr>)"

definition on_accept :: "nat \<Rightarrow> handle \<Rightarrow> handle" where
  "on_accept cb h = (if accepted h then h\<lparr>called := called h @ [cb]\<rparr> else h\<lparr>accept_callbacks := accept_callbacks h @ [cb]\<rparr>)"

definition accept_handle :: "handle \<Rightarrow> handle" where
  "accept_handle h =
     (if accepted h then h
      else h\<lparr>accepted := True, called := called h @ accept_callbacks h, accept_callbacks := []\<rparr>)"

definition complete_handle :: "handle_error option \<Rightarrow> handle \<Rightarrow> handle" where
  "complete_handle err h =
     (if completed h then h
      else accept_handle (h\<lparr>h_error := (if err \<noteq> None \<and> h_error h = None then err else h_error h),
        completed := True, called := called h @ callbacks h, callbacks := []\<rparr>))"

section \<open>The service\<close>

datatype worker_at = NotStarted | AtTop | DrainInbox | Applying | Running | Exited

record 'g service =
  sv_engine :: "'g engine"
  handles :: "string \<rightharpoonup> handle"
  inbox :: "request list"
  cancellations :: "(string \<times> string) list"
  in_flight :: "string list"
  max_pending :: int
  draining :: bool
  stopping :: bool
  fatal_error :: "py_error option"
  worker :: worker_at
  completed_count :: int
  cancelled_count :: int
  failed_count :: int

definition service_init :: "'g engine \<Rightarrow> int \<Rightarrow> 'g service result" where
  "service_init e limit =
     (if limit \<le> 0 then Inl ValueError
      else Inr \<lparr>sv_engine = e, handles = Map.empty, inbox = [], cancellations = [], in_flight = [], max_pending = limit,
        draining = False, stopping = False, fatal_error = None, worker = NotStarted,
        completed_count = 0, cancelled_count = 0, failed_count = 0\<rparr>)"

definition service_start :: "'g service \<Rightarrow> 'g service" where
  "service_start s = (if worker s = NotStarted then s\<lparr>worker := AtTop\<rparr> else s)"

definition alive :: "'g service \<Rightarrow> bool" where
  "alive s = (fatal_error s = None \<and> worker s \<noteq> NotStarted \<and> worker s \<noteq> Exited)"

definition ready :: "'g service \<Rightarrow> bool" where
  "ready s = (alive s \<and> \<not> draining s \<and> \<not> stopping s)"

text \<open>
  \<open>submit\<close>: its checks give the HTTP status of a refusal; then the request, under the fresh
  identifier \<open>uuid4\<close> gave, goes into the bounded inbox.
\<close>

definition submit_refusal :: "int list \<Rightarrow> int \<Rightarrow> 'g service \<Rightarrow> nat option" where
  "submit_refusal ids mx s =
     (if fatal_error s \<noteq> None then Some 503
      else if worker s = Exited then Some 503
      else if draining s \<or> stopping s then Some 503
      else if ids = [] then Some 400
      else if mx \<le> 0 then Some 400
      else None)"

definition submitted_request :: "string \<Rightarrow> int \<Rightarrow> int list \<Rightarrow> int \<Rightarrow> sampling_params option \<Rightarrow> request" where
  "submitted_request rid now ids mx sp =
     new_request rid (int (length ids)) mx ids (case sp of None \<Rightarrow> GREEDY | Some p \<Rightarrow> p) now"

definition put_submission :: "request \<Rightarrow> 'g service \<Rightarrow> nat + 'g service" where
  "put_submission r s =
     (if int (length (inbox s)) \<ge> max_pending s then Inl 429
      else Inr (s\<lparr>inbox := inbox s @ [r], handles := (handles s)(request_id r \<mapsto> new_handle r)\<rparr>))"

definition service_submit ::
  "string \<Rightarrow> int \<Rightarrow> int list \<Rightarrow> int \<Rightarrow> sampling_params option \<Rightarrow> 'g service \<Rightarrow> nat + 'g service" where
  "service_submit rid now ids mx sp s =
     (case submit_refusal ids mx s of
        Some code \<Rightarrow> Inl code
      | None \<Rightarrow> put_submission (submitted_request rid now ids mx sp) s)"

definition service_cancel :: "string \<Rightarrow> string \<Rightarrow> 'g service \<Rightarrow> 'g service" where
  "service_cancel rid reason s =
     (case handles s rid of
        None \<Rightarrow> s
      | Some h \<Rightarrow> if completed h then s else s\<lparr>cancellations := cancellations s @ [(rid, reason)]\<rparr>)"

text \<open>What a handle sees of its request: the one object the engine moves around.\<close>

definition request_of :: "string \<Rightarrow> 'g engine \<Rightarrow> request option" where
  "request_of rid e =
     find (\<lambda>r. request_id r = rid) (waiting (sch e) @ map snd (active (sch e)) @ ended e @ dropped (sch e))"

definition request_done :: "string \<Rightarrow> 'g engine \<Rightarrow> bool" where
  "request_done rid e = (case request_of rid e of None \<Rightarrow> False | Some r \<Rightarrow> req_done r)"

definition complete_as :: "handle_error option \<Rightarrow> string list \<Rightarrow> 'g service \<Rightarrow> 'g service" where
  "complete_as err rids s =
     s\<lparr>handles := (\<lambda>x. if x \<in> set rids then map_option (complete_handle err) (handles s x) else handles s x)\<rparr>"

definition fail_all :: "py_error option \<Rightarrow> handle_error \<Rightarrow> 'g service \<Rightarrow> 'g service" where
  "fail_all mark err s =
     (let s1 = (if mark \<noteq> None then s\<lparr>fatal_error := mark\<rparr> else s) in
      complete_as (Some err) (in_flight s1 @ map request_id (inbox s1)) (s1\<lparr>in_flight := [], inbox := []\<rparr>))"

text \<open>An exception that escapes the loop ends the worker.\<close>

definition guarded :: "'g service \<Rightarrow> 'a result \<Rightarrow> ('a \<Rightarrow> 'g service) \<Rightarrow> 'g service" where
  "guarded s m f = (case m of Inl x \<Rightarrow> (fail_all (Some x) (Fatal x) s)\<lparr>worker := Exited\<rparr> | Inr y \<Rightarrow> f y)"

text \<open>One turn of \<open>_drain_inbox\<close>.\<close>

definition drain_inbox_turn :: "'g engine_setup \<Rightarrow> 'g service \<Rightarrow> 'g service" where
  "drain_inbox_turn env s =
     (case inbox s of
        [] \<Rightarrow> s\<lparr>worker := Applying\<rparr>
      | r # rest \<Rightarrow>
          guarded (s\<lparr>inbox := rest\<rparr>) (engine_submit env r (sv_engine s)) (\<lambda>(taken, e).
            let s1 = s\<lparr>inbox := rest, sv_engine := e\<rparr> in
            if \<not> taken then
              complete_as (Some (Rejected (case request_of (request_id r) e of None \<Rightarrow> [] | Some q \<Rightarrow> case finish_reason q of None \<Rightarrow> ''request rejected'' | Some x \<Rightarrow> x)))
                [request_id r] (s1\<lparr>failed_count := failed_count s + 1\<rparr>)
            else s1\<lparr>in_flight := in_flight s @ [request_id r],
                    handles := (\<lambda>x. if x = request_id r then map_option accept_handle (handles s x) else handles s x)\<rparr>))"

text \<open>One turn of \<open>_apply_cancellations\<close>.\<close>

definition apply_cancellation_turn :: "'g engine_setup \<Rightarrow> 'g service \<Rightarrow> 'g service" where
  "apply_cancellation_turn env s =
     (case cancellations s of
        [] \<Rightarrow> s\<lparr>worker := Running\<rparr>
      | (rid, reason) # rest \<Rightarrow>
          let s0 = s\<lparr>cancellations := rest\<rparr> in
          if rid \<notin> set (in_flight s) \<or> request_done rid (sv_engine s) then s0
          else guarded s0 (engine_cancel env rid reason (sv_engine s)) (\<lambda>e.
            complete_as None [rid] (s0\<lparr>sv_engine := e, in_flight := filter (\<lambda>x. x \<noteq> rid) (in_flight s),
              cancelled_count := cancelled_count s + 1\<rparr>)))"

definition publish_completed :: "'g service \<Rightarrow> 'g service" where
  "publish_completed s =
     (let finished = filter (\<lambda>rid. request_done rid (sv_engine s)) (in_flight s);
          broken = filter (\<lambda>rid. \<exists>r \<in> set_option (request_of rid (sv_engine s)). state r = FAILED) finished in
      complete_as None finished
        (s\<lparr>in_flight := filter (\<lambda>rid. \<not> request_done rid (sv_engine s)) (in_flight s),
           failed_count := failed_count s + int (length broken),
           completed_count := completed_count s + int (length finished - length broken)\<rparr>))"

definition run_turn :: "'g engine_setup \<Rightarrow> 'g service \<Rightarrow> 'g service" where
  "run_turn env s =
     (if has_unfinished_requests (sv_engine s) then
        guarded s (step env (sv_engine s)) (\<lambda>e. publish_completed (s\<lparr>sv_engine := e, worker := AtTop\<rparr>))
      else s\<lparr>worker := AtTop\<rparr>)"

definition worker_turn :: "'g engine_setup \<Rightarrow> 'g service \<Rightarrow> 'g service" where
  "worker_turn env s =
     (case worker s of
        NotStarted \<Rightarrow> s
      | AtTop \<Rightarrow> s\<lparr>worker := (if stopping s then Exited else DrainInbox)\<rparr>
      | DrainInbox \<Rightarrow> drain_inbox_turn env s
      | Applying \<Rightarrow> apply_cancellation_turn env s
      | Running \<Rightarrow> run_turn env s
      | Exited \<Rightarrow> s)"

text \<open>
  \<open>drain\<close> closes the door and, at its deadline, cancels what is left; \<open>stop\<close> tells the worker
  to leave and, once it has, completes whatever still waits.
\<close>

definition begin_drain :: "'g service \<Rightarrow> 'g service" where
  "begin_drain s = s\<lparr>draining := True\<rparr>"

definition cancel_leftovers :: "'g service \<Rightarrow> 'g service" where
  "cancel_leftovers s = fold (\<lambda>rid. service_cancel rid ''SERVER_SHUTDOWN'') (in_flight s) s"

definition begin_stop :: "'g service \<Rightarrow> 'g service" where
  "begin_stop s = s\<lparr>stopping := True\<rparr>"

definition finish_stop :: "'g service \<Rightarrow> 'g service" where
  "finish_stop s = fail_all None ServerShutdown s"

record service_snapshot =
  sn_active_handles :: nat
  sn_pending_submissions :: nat
  sn_completed_requests :: int
  sn_cancelled_requests :: int
  sn_failed_requests :: int
  sn_worker_failed :: bool
  sn_draining :: bool

definition service_snapshot_of :: "'g service \<Rightarrow> service_snapshot" where
  "service_snapshot_of s =
     \<lparr>sn_active_handles = length (in_flight s), sn_pending_submissions = length (inbox s),
      sn_completed_requests = completed_count s, sn_cancelled_requests = cancelled_count s,
      sn_failed_requests = failed_count s, sn_worker_failed = (fatal_error s \<noteq> None), sn_draining = draining s\<rparr>"

section \<open>What can happen to a service\<close>

definition change_handle :: "string \<Rightarrow> (handle \<Rightarrow> handle) \<Rightarrow> 'g service \<Rightarrow> 'g service" where
  "change_handle rid f s = s\<lparr>handles := (handles s)(rid := map_option f (handles s rid))\<rparr>"

definition well_submitted :: "request \<Rightarrow> bool" where
  "well_submitted r \<longleftrightarrow> (\<exists>rid now ids mx sp. r = submitted_request rid now ids mx sp \<and> rid \<noteq> [] \<and> rid \<noteq> dummy_rows_id \<and>
     ids \<noteq> [] \<and> 0 < mx \<and> (\<forall>p. sp = Some p \<longrightarrow> validate_sampling p = Inr p))"

text \<open>
  A caller whose submission passed the checks puts it into the inbox at some later moment; its
  identifier is new.
\<close>

inductive service_step :: "'g engine_setup \<Rightarrow> 'g service \<Rightarrow> 'g service \<Rightarrow> bool" for env where
  sv_start: "service_step env s (service_start s)"
| sv_put: "well_submitted r \<Longrightarrow> handles s (request_id r) = None \<Longrightarrow> put_submission r s = Inr s' \<Longrightarrow> service_step env s s'"
| sv_cancel: "service_step env s (service_cancel rid reason s)"
| sv_complete_observer: "service_step env s (change_handle rid (on_complete cb) s)"
| sv_accept_observer: "service_step env s (change_handle rid (on_accept cb) s)"
| sv_turn: "service_step env s (worker_turn env s)"
| sv_drain: "service_step env s (begin_drain s)"
| sv_leftovers: "draining s \<Longrightarrow> service_step env s (cancel_leftovers s)"
| sv_stop: "service_step env s (begin_stop s)"
| sv_stopped: "stopping s \<Longrightarrow> worker s = NotStarted \<or> worker s = Exited \<Longrightarrow> service_step env s (finish_stop s)"

inductive service_reachable :: "'g engine_setup \<Rightarrow> 'g service \<Rightarrow> bool" for env where
  sr_start: "0 \<le> limit \<Longrightarrow> engine_init env n bs mw cb dflt sd limit kv = Inr e \<Longrightarrow> service_init e most = Inr s \<Longrightarrow>
    service_reachable env s"
| sr_next: "service_reachable env s \<Longrightarrow> service_step env s s' \<Longrightarrow> service_reachable env s'"

text \<open>\<open>submit\<close> as a whole is one of these steps when nothing comes between.\<close>

lemma submit_is_put:
  assumes "service_submit rid now ids mx sp s = Inr s'" and "rid \<noteq> []" and "rid \<noteq> dummy_rows_id"
    and "\<forall>p. sp = Some p \<longrightarrow> validate_sampling p = Inr p" and "handles s rid = None"
  shows "service_step env s s'"
proof -
  let ?r = "submitted_request rid now ids mx sp"
  from assms(1) have put: "put_submission ?r s = Inr s'" and "ids \<noteq> []" "0 < mx"
    by (auto simp: service_submit_def submit_refusal_def split: option.splits if_splits)
  with assms(2-4) have "well_submitted ?r" unfolding well_submitted_def by blast
  then show ?thesis by (rule sv_put) (use put assms(5) in \<open>simp_all add: submitted_request_def new_request_def\<close>)
qed

end
