(* ===== verification/Service_Correct.thy ===== *)
theory Service_Correct
  imports Service Engine_Properties
begin

text \<open>
  The worker and its callers: what a handle tells its observers, the invariant that ties the
  handles, the inbox and the active dictionary to the engine's requests, and what follows for
  a caller.
\<close>

section \<open>Handles\<close>

datatype handle_call = Watch nat | Watch_Accept nat | Take | Decide "handle_error option"

primrec handle_does :: "handle_call \<Rightarrow> handle \<Rightarrow> handle" where
  "handle_does (Watch cb) = on_complete cb"
| "handle_does (Watch_Accept cb) = on_accept cb"
| "handle_does Take = accept_handle"
| "handle_does (Decide err) = complete_handle err"

primrec observers :: "handle_call \<Rightarrow> nat list" where
  "observers (Watch cb) = [cb]"
| "observers (Watch_Accept cb) = [cb]"
| "observers Take = []"
| "observers (Decide err) = []"

definition handle_ok :: "handle \<Rightarrow> bool" where
  "handle_ok h \<longleftrightarrow> (completed h \<longrightarrow> accepted h \<and> callbacks h = []) \<and> (accepted h \<longrightarrow> accept_callbacks h = [])"

lemmas handle_eval = on_complete_def on_accept_def accept_handle_def complete_handle_def new_handle_def

lemma handle_does_ok: "handle_ok h \<Longrightarrow> handle_ok (handle_does c h)"
  by (cases c) (auto simp: handle_eval handle_ok_def)

lemma handle_does_observers:
  "mset (called (handle_does c h)) + mset (callbacks (handle_does c h)) + mset (accept_callbacks (handle_does c h)) =
     mset (called h) + mset (callbacks h) + mset (accept_callbacks h) + mset (observers c)"
  by (cases c) (auto simp: handle_eval)

lemma handle_calls_ok: "handle_ok h \<Longrightarrow> handle_ok (fold handle_does calls h)"
  by (induction calls arbitrary: h) (simp_all add: handle_does_ok)

lemma handle_calls_observers:
  "mset (called (fold handle_does calls h)) + mset (callbacks (fold handle_does calls h)) + mset (accept_callbacks (fold handle_does calls h)) =
     mset (called h) + mset (callbacks h) + mset (accept_callbacks h) + mset (concat (map observers calls))"
proof (induction calls arbitrary: h)
  case (Cons c calls)
  from Cons.IH [of "handle_does c h"] handle_does_observers [of c h] show ?case by (simp add: ac_simps)
qed simp

text \<open>The first decision is the one that stands.\<close>

primrec verdict :: "handle_call list \<Rightarrow> handle_error option option" where
  "verdict [] = None"
| "verdict (c # cs) = (case c of Decide err \<Rightarrow> Some err | _ \<Rightarrow> verdict cs)"

lemma decision_of_call:
  "completed (handle_does c h) \<longleftrightarrow> completed h \<or> (\<exists>err. c = Decide err)"
  "completed h \<or> h_error h = None \<Longrightarrow>
     h_error (handle_does c h) = (if completed h then h_error h else case c of Decide err \<Rightarrow> err | _ \<Rightarrow> None)"
  by (cases c; auto simp: handle_eval)+

lemma verdict_of_calls:
  "(completed h \<or> h_error h = None) \<Longrightarrow>
     (if completed (fold handle_does calls h) then Some (h_error (fold handle_does calls h)) else None) =
     (if completed h then Some (h_error h) else verdict calls)"
proof (induction calls arbitrary: h)
  case (Cons c calls)
  note d = decision_of_call(1) [of c h] decision_of_call(2) [OF Cons.prems, of c]
  have "completed (handle_does c h) \<or> h_error (handle_does c h) = None"
    using Cons.prems by (auto simp: d split: handle_call.splits)
  note rest = Cons.IH [OF this]
  have "(if completed (handle_does c h) then Some (h_error (handle_does c h)) else verdict calls) =
      (if completed h then Some (h_error h) else verdict (c # calls))"
    unfolding d by (cases c) simp_all
  with rest show ?case unfolding fold_simps by (rule trans)
qed simp

text \<open>What the outside sees of a handle, and what deciding it does to that.\<close>

definition outlook :: "handle \<Rightarrow> bool \<times> bool \<times> handle_error option" where
  "outlook h = (completed h, accepted h, h_error h)"

fun decided :: "handle_error option \<Rightarrow> bool \<times> bool \<times> handle_error option \<Rightarrow> bool \<times> bool \<times> handle_error option" where
  "decided err (c, a, er) = (if c then (c, a, er) else (True, True, if er = None then err else er))"

lemma outlook_ops [simp]:
  "outlook (on_complete cb h) = outlook h" "outlook (on_accept cb h) = outlook h"
  "outlook (complete_handle err h) = decided err (outlook h)"
  "outlook (accept_handle h) = (completed h, True, h_error h)"
  "outlook (new_handle r) = (False, False, None)"
  by (auto simp: outlook_def handle_eval)

lemma h_request_ops [simp]:
  "h_request (on_complete cb h) = h_request h" "h_request (on_accept cb h) = h_request h"
  "h_request (complete_handle err h) = h_request h" "h_request (accept_handle h) = h_request h" "h_request (new_handle r) = r"
  by (auto simp: handle_eval)

section \<open>What the engine knows of a request\<close>

definition too_long :: "'g engine_setup \<Rightarrow> request \<Rightarrow> bool" where
  "too_long env r \<longleftrightarrow>
     (\<exists>limit. max_model_len env = Some limit \<and> limit \<noteq> 0 \<and> prompt_token_count r + max_new_tokens r > limit)"

definition settled :: "string \<Rightarrow> 'g engine \<Rightarrow> bool" where
  "settled rid e \<longleftrightarrow> rid \<in> fst ` set_mset (roll e) \<and> rid \<notin> set (live_ids (sch e))"

text \<open>The requests in the scheduler's hands, and those that have left them.\<close>

definition present :: "'g engine \<Rightarrow> request list" where
  "present e = waiting (sch e) @ map snd (active (sch e))"

definition gone :: "'g engine \<Rightarrow> request list" where
  "gone e = ended e @ dropped (sch e)"

lemma request_of_parts: "request_of rid e = find (\<lambda>r. request_id r = rid) (present e @ gone e)"
  by (simp add: request_of_def present_def gone_def)

lemma roll_parts: "set_mset (roll e) = ticket_of ` set (present e @ gone e)"
  by (auto simp: roll_def known_def present_def gone_def)

lemma roll_ids: "fst ` set_mset (roll e) = request_id ` set (present e @ gone e)"
  unfolding roll_parts image_image ticket_of_def by simp

lemma find_first: "x \<in> set xs \<Longrightarrow> P x \<Longrightarrow> \<exists>y \<in> set xs. P y \<and> find P (xs @ ys) = Some y"
  by (induction xs) auto

lemma find_later: "\<forall>x \<in> set xs. \<not> P x \<Longrightarrow> find P (xs @ ys) = find P ys"
  by (induction xs) auto

lemma engine_parts:
  assumes "setup_laws env" and "engine_reachable env e"
  shows "set (live_ids (sch e)) = request_id ` set (present e)" (is ?ids)
    and "\<And>r. r \<in> set (present e) \<Longrightarrow> \<not> req_done r"
    and "\<And>r. r \<in> set (gone e) \<Longrightarrow> req_done r \<and> outputs_ok env r"
proof -
  from engine_reachable_ok [OF assms] obtain D where ok: "engine_ok D env {} (\<lambda>_. []) e" by blast
  note d = sched_invD [OF engine_okD(2) [OF ok]]
  have act: "request_id r = k \<and> \<not> req_done r" if "(k, r) \<in> set (active (sch e))" for k r
    using d(6) [of k r] map_of_is_SomeI [OF d(3) that] by (auto simp: req_done_def)
  then have "map (request_id \<circ> snd) (active (sch e)) = map fst (active (sch e))" by (auto simp: map_eq_conv)
  then have "live_ids (sch e) = map request_id (present e)" by (simp add: live_ids_def present_def)
  then show ?ids by simp
  show "\<not> req_done r" if "r \<in> set (present e)" for r using that act d(5) [of r] by (auto simp: present_def req_done_def)
  show "req_done r \<and> outputs_ok env r" if "r \<in> set (gone e)" for r
    using that engine_reachable_enrolled [OF assms(2)] engine_okD(9) [OF ok]
    by (auto simp: gone_def enrolled_def keyed_def rest_ok_def)
qed

lemma live_known: "setup_laws env \<Longrightarrow> engine_reachable env e \<Longrightarrow> set (live_ids (sch e)) \<subseteq> fst ` set_mset (roll e)"
  using engine_parts(1) [of env e] by (simp only: roll_ids) auto

lemma request_of_live:
  assumes "setup_laws env" and "engine_reachable env e" and "rid \<in> set (live_ids (sch e))"
  shows "\<not> request_done rid e"
proof -
  note p = engine_parts [OF assms(1,2)]
  from assms(3) obtain r where r: "r \<in> set (present e)" "request_id r = rid" unfolding p(1) by (elim imageE) (rule that, simp_all)
  from find_first [of _ _ "\<lambda>r. request_id r = rid", OF r, of "gone e"] obtain q where "q \<in> set (present e)" "request_of rid e = Some q"
    unfolding request_of_parts by blast
  with p(2) show ?thesis by (simp add: request_done_def)
qed

lemma request_of_settled:
  assumes "setup_laws env" and "engine_reachable env e" and "settled rid e"
  obtains r where "request_of rid e = Some r" and "request_id r = rid" and "r \<in> set (gone e)"
proof -
  note p = engine_parts [OF assms(1,2)]
  from assms(3) have none: "\<forall>r \<in> set (present e). request_id r \<noteq> rid" unfolding settled_def p(1) by blast
  from assms(3) obtain r where "r \<in> set (present e @ gone e)" "request_id r = rid"
    unfolding settled_def roll_ids by (elim conjE imageE) (rule that, simp_all)
  with none have r: "r \<in> set (gone e)" "request_id r = rid" by auto
  from find_first [of _ _ "\<lambda>r. request_id r = rid", OF r, of "[]"] obtain q where q: "q \<in> set (gone e)" "request_id q = rid"
    "find (\<lambda>r. request_id r = rid) (gone e) = Some q" by auto
  have "request_of rid e = Some q" unfolding request_of_parts using find_later [OF none] q(3) by simp
  then show thesis using that q(1,2) by blast
qed

lemma done_settled:
  assumes "setup_laws env" and "engine_reachable env e" and "rid \<in> fst ` set_mset (roll e)"
  shows "request_done rid e \<longleftrightarrow> rid \<notin> set (live_ids (sch e))"
proof
  assume "request_done rid e"
  with request_of_live [OF assms(1,2)] show "rid \<notin> set (live_ids (sch e))" by blast
next
  assume "rid \<notin> set (live_ids (sch e))"
  with assms(3) have "settled rid e" by (simp add: settled_def)
  from request_of_settled [OF assms(1,2) this] obtain r where "request_of rid e = Some r" "r \<in> set (gone e)" .
  with engine_parts(3) [OF assms(1,2)] show "request_done rid e" by (simp add: request_done_def)
qed

section \<open>What the worker's calls on the engine do\<close>

lemma GREEDY_valid: "validate_sampling GREEDY = Inr GREEDY"
  by (simp add: validate_sampling_def GREEDY_def)

text \<open>A submission is taken, refused, or raises because it can never fit.\<close>

lemma submit_new:
  assumes "setup_laws env" and e: "engine_reachable env e" and r: "well_submitted r" and new: "request_id r \<notin> fst ` set_mset (roll e)"
  shows "if too_long env r then engine_submit env r e = Inl ValueError
    else \<exists>b e'. engine_submit env r e = Inr (b, e') \<and> engine_reachable env e' \<and> roll e' = add_mset (ticket_of r) (roll e) \<and>
      set (live_ids (sch e')) = (if b then insert (request_id r) (set (live_ids (sch e))) else set (live_ids (sch e)))"
proof (cases "too_long env r")
  case True
  then show ?thesis by (auto simp: too_long_def engine_submit_def)
next
  case False
  then have fits: "\<not> (case max_model_len env of None \<Rightarrow> False | Some limit \<Rightarrow> limit \<noteq> 0 \<and> prompt_token_count r + max_new_tokens r > limit)"
    by (auto simp: too_long_def split: option.splits)
  from r obtain rid now ids mx sp where rr: "r = submitted_request rid now ids mx sp" "rid \<noteq> []" "rid \<noteq> dummy_rows_id" "ids \<noteq> []" "0 < mx"
    "\<forall>p. sp = Some p \<longrightarrow> validate_sampling p = Inr p" unfolding well_submitted_def by (elim exE conjE) (rule that)
  define p where "p = (case sp of None \<Rightarrow> GREEDY | Some p \<Rightarrow> p)"
  have p: "validate_sampling p = Inr p" using rr(6) GREEDY_valid by (simp add: p_def split: option.splits)
  have req: "r = new_request rid (int (length ids)) mx ids p now" by (simp add: rr(1) p_def submitted_request_def)
  have post: "post_init (new_request rid (int (length ids)) mx ids p now) = Inr r"
    using rr(2,4,5) by (auto simp: req post_init_def new_request_def)
  have st: "state r = WAITING" by (simp add: req new_request_def)
  have "request_id r \<notin> set (live_ids (sch e))" using new live_known [OF assms(1,2)] by blast
  then have "map_of (active (sch e)) (request_id r) = None" "\<not> list_ex (\<lambda>q. request_id q = request_id r) (waiting (sch e))"
    by (auto simp: live_ids_def map_of_eq_None_iff list_ex_iff image_iff)
  note dup = this
  obtain r1 where t: "req_transition (clock_at env (ticks e) (request_id r)) REJECTED (Some ''QUEUE_FULL'') r = Inr r1"
    using st by (simp add: req_transition_def Let_def)
  have "\<exists>b r' s. sched_submit (clock_at env (ticks e) (request_id r)) r (sch e) = Inr (b, r', s) \<and>
      s = (if b then (sch e)\<lparr>waiting := waiting (sch e) @ [r]\<rparr> else (sch e)\<lparr>rejected_count := rejected_count (sch e) + 1\<rparr>)"
    by (auto simp: sched_submit_def st dup t)
  then obtain b r' s where sub: "sched_submit (clock_at env (ticks e) (request_id r)) r (sch e) = Inr (b, r', s)"
    and s: "s = (if b then (sch e)\<lparr>waiting := waiting (sch e) @ [r]\<rparr> else (sch e)\<lparr>rejected_count := rejected_count (sch e) + 1\<rparr>)"
    by (elim exE conjE) (rule that)
  from sub obtain e' where run: "engine_submit env r e = Inr (b, e')" "sch e' = s" using fits by (auto simp: engine_submit_def)
  have "engine_reachable env e'" by (rule er_submit [OF e post rr(4,3) p run(1)])
  moreover have "roll e' = add_mset (ticket_of r) (roll e)" using submit_roll [OF run(1) engine_reachable_enrolled [OF e]] by blast
  moreover have "set (live_ids (sch e')) = (if b then insert (request_id r) (set (live_ids (sch e))) else set (live_ids (sch e)))"
    by (auto simp: run(2) s live_ids_def)
  ultimately show ?thesis using run(1) False by auto
qed

text \<open>Cancelling a request the engine works on succeeds and takes it out.\<close>

lemma cancel_known:
  assumes "setup_laws env" and e: "engine_reachable env e" and live: "rid \<in> set (live_ids (sch e))"
  obtains e' where "engine_cancel env rid reason e = Inr e'" and "engine_reachable env e'" and "roll e' = roll e"
    and "set (live_ids (sch e')) = set (live_ids (sch e)) - {rid}"
proof -
  from engine_reachable_ok [OF assms(1,2)] obtain D where ok: "engine_ok D env {} (\<lambda>_. []) e" by blast
  note d = sched_invD [OF engine_okD(2) [OF ok]]
  have "\<exists>q s. cancel (clock_at env (ticks e) rid) rid reason (sch e) = Inr (q, s)"
  proof (cases "find (\<lambda>q. request_id q = rid) (waiting (sch e))")
    case None
    then have "rid \<notin> request_id ` set (waiting (sch e))" by (auto simp: find_None_iff)
    with live have "map_of (active (sch e)) rid \<noteq> None" unfolding active_id_iff by (auto simp: live_ids_def)
    then obtain r where r: "map_of (active (sch e)) rid = Some r" by blast
    have "CANCELLED \<in> allowed_transitions (state r)" "terminal CANCELLED" using d(6) [OF r] by auto
    note w = leave_world [OF engine_okD(1) [OF ok] r this]
    obtain q s where "leave (clock_at env (ticks e) rid) CANCELLED rid reason (sch e) = Inr (q, s)"
      by (rule w) (rule that)
    with None show ?thesis by (simp add: cancel_def)
  next
    case (Some q)
    then have "state q = WAITING" using d(5) by (auto simp: find_Some_iff)
    with Some show ?thesis by (simp add: cancel_def req_transition_def Let_def)
  qed
  then obtain e' where run: "engine_cancel env rid reason e = Inr e'" by (auto simp: engine_cancel_def end_request_def)
  note en = engine_reachable_enrolled [OF e]
  have "mset (live_ids (sch e)) = mset (rid # live_ids (sch e'))" using cancel_live [OF run en] by simp
  moreover have "distinct (live_ids (sch e))" using en by (simp add: enrolled_def keyed_def)
  ultimately have "distinct (rid # live_ids (sch e'))" and "set (live_ids (sch e)) = set (rid # live_ids (sch e'))"
    using mset_eq_imp_distinct_iff mset_eq_setD by blast+
  then have "set (live_ids (sch e')) = set (live_ids (sch e)) - {rid}" by auto
  moreover have "roll e' = roll e" using cancel_roll [OF run] en by (simp add: keeps_roll_def)
  ultimately show thesis using that run er_cancel [OF e run] by blast
qed

lemma step_known:
  assumes "setup_laws env" and e: "engine_reachable env e"
  obtains e' where "step env e = Inr e'" and "engine_reachable env e'" and "roll e' = roll e"
    and "set (live_ids (sch e')) \<subseteq> set (live_ids (sch e))"
proof -
  from engine_reachable_ok [OF assms] obtain D where ok: "engine_ok D env {} (\<lambda>_. []) e" by blast
  from step_ok [OF ok assms(1)] obtain e' where run: "step env e = Inr e'" by blast
  from step_roll [OF run] engine_reachable_enrolled [OF e] show thesis
    using that [OF run er_step [OF e run]] by (simp add: keeps_roll_def)
qed

section \<open>The invariant of the service\<close>

definition view :: "'g service \<Rightarrow> string \<Rightarrow> (bool \<times> bool \<times> handle_error option) option" where
  "view s rid = map_option outlook (handles s rid)"

definition ticket_at :: "'g service \<Rightarrow> string \<Rightarrow> ticket option" where
  "ticket_at s rid = map_option (ticket_of \<circ> h_request) (handles s rid)"

definition inbox_ids :: "'g service \<Rightarrow> string list" where
  "inbox_ids s = map request_id (inbox s)"

text \<open>
  Handles in the inbox are undecided and unknown to the engine, those in flight are accepted
  and undecided; while the worker lives the active dictionary is the engine's live requests;
  no handle is elsewhere undecided unless the worker failed; what the engine knows is what was
  asked; and a handle completed without an error belongs to a request that ended.
\<close>

definition queue_ok :: "'g service \<Rightarrow> bool" where
  "queue_ok s \<longleftrightarrow> distinct (inbox_ids s @ in_flight s) \<and>
     (\<forall>r \<in> set (inbox s). well_submitted r \<and> view s (request_id r) = Some (False, False, None) \<and>
        ticket_at s (request_id r) = Some (ticket_of r) \<and> request_id r \<notin> fst ` set_mset (roll (sv_engine s))) \<and>
     (\<forall>rid \<in> set (in_flight s). view s rid = Some (False, True, None) \<and> rid \<in> fst ` set_mset (roll (sv_engine s)))"

definition worker_ok :: "'g service \<Rightarrow> bool" where
  "worker_ok s \<longleftrightarrow>
     (worker s \<noteq> Exited \<longrightarrow> set (in_flight s) = set (live_ids (sch (sv_engine s))) \<and> fatal_error s = None) \<and>
     (worker s = NotStarted \<longrightarrow> in_flight s = [])"

definition handles_ok :: "'g service \<Rightarrow> bool" where
  "handles_ok s \<longleftrightarrow>
     (\<forall>rid a er. view s rid = Some (False, a, er) \<longrightarrow> rid \<in> set (inbox_ids s @ in_flight s) \<or> fatal_error s \<noteq> None) \<and>
     (\<forall>t \<in># roll (sv_engine s). ticket_at s (fst t) = Some t) \<and>
     (\<forall>rid a. view s rid = Some (True, a, None) \<longrightarrow> settled rid (sv_engine s))"

definition service_ok :: "'g engine_setup \<Rightarrow> 'g service \<Rightarrow> bool" where
  "service_ok env s \<longleftrightarrow> engine_reachable env (sv_engine s) \<and> queue_ok s \<and> worker_ok s \<and> handles_ok s"

lemmas service_parts = service_ok_def queue_ok_def worker_ok_def handles_ok_def

lemma service_okD:
  assumes "service_ok env s"
  shows "engine_reachable env (sv_engine s)" and "queue_ok s"
    and "view s x = Some (False, a, er) \<Longrightarrow> x \<in> set (inbox_ids s) \<or> x \<in> set (in_flight s) \<or> fatal_error s \<noteq> None"
    and "t \<in># roll (sv_engine s) \<Longrightarrow> ticket_at s (fst t) = Some t"
    and "view s x = Some (True, b, None) \<Longrightarrow> settled x (sv_engine s)"
  using assms unfolding service_ok_def handles_ok_def set_append by blast+

text \<open>Steps that leave all of that alone.\<close>

lemma service_ok_same:
  assumes "service_ok env s" and "sv_engine s' = sv_engine s" and "inbox s' = inbox s" and "in_flight s' = in_flight s"
    and "fatal_error s' = fatal_error s" and "worker s' = Exited \<or> worker s' = worker s \<or> worker s' \<noteq> NotStarted \<and> worker s \<noteq> Exited"
    and "\<And>x. view s' x = view s x" and "\<And>x. ticket_at s' x = ticket_at s x"
  shows "service_ok env s'"
proof -
  have ids: "inbox_ids s' = inbox_ids s" by (simp add: inbox_ids_def assms(3))
  have "queue_ok s'" using assms(1) by (simp add: service_parts assms(2-4,7,8) ids)
  moreover have "handles_ok s'" using assms(1) by (simp add: service_parts assms(2-5,7,8) ids)
  moreover have "worker_ok s'" using assms(1,6) by (auto simp: service_parts assms(2,4,5))
  ultimately show ?thesis using assms(1) by (simp add: service_ok_def assms(2))
qed

lemma view_fields [simp]:
  "view (s\<lparr>worker := w\<rparr>) = view s" "view (s\<lparr>inbox := i\<rparr>) = view s" "view (s\<lparr>sv_engine := e\<rparr>) = view s"
  "view (s\<lparr>in_flight := f\<rparr>) = view s" "view (s\<lparr>cancellations := c\<rparr>) = view s" "view (s\<lparr>draining := b\<rparr>) = view s"
  "view (s\<lparr>stopping := b\<rparr>) = view s" "view (s\<lparr>fatal_error := x\<rparr>) = view s" "view (s\<lparr>completed_count := n\<rparr>) = view s"
  "view (s\<lparr>cancelled_count := n\<rparr>) = view s" "view (s\<lparr>failed_count := n\<rparr>) = view s"
  by (simp_all add: view_def fun_eq_iff)

lemma ticket_fields [simp]:
  "ticket_at (s\<lparr>worker := w\<rparr>) = ticket_at s" "ticket_at (s\<lparr>inbox := i\<rparr>) = ticket_at s" "ticket_at (s\<lparr>sv_engine := e\<rparr>) = ticket_at s"
  "ticket_at (s\<lparr>in_flight := f\<rparr>) = ticket_at s" "ticket_at (s\<lparr>cancellations := c\<rparr>) = ticket_at s" "ticket_at (s\<lparr>draining := b\<rparr>) = ticket_at s"
  "ticket_at (s\<lparr>stopping := b\<rparr>) = ticket_at s" "ticket_at (s\<lparr>fatal_error := x\<rparr>) = ticket_at s" "ticket_at (s\<lparr>completed_count := n\<rparr>) = ticket_at s"
  "ticket_at (s\<lparr>cancelled_count := n\<rparr>) = ticket_at s" "ticket_at (s\<lparr>failed_count := n\<rparr>) = ticket_at s"
  by (simp_all add: ticket_at_def fun_eq_iff)

lemma view_complete [simp]:
  "view (complete_as err rids s) x = (if x \<in> set rids then map_option (decided err) (view s x) else view s x)"
  "ticket_at (complete_as err rids s) x = ticket_at s x"
  by (simp_all add: view_def ticket_at_def complete_as_def option.map_comp comp_def)

lemma complete_fields [simp]:
  "sv_engine (complete_as err rids s) = sv_engine s" "inbox (complete_as err rids s) = inbox s"
  "in_flight (complete_as err rids s) = in_flight s" "fatal_error (complete_as err rids s) = fatal_error s"
  "worker (complete_as err rids s) = worker s" "stopping (complete_as err rids s) = stopping s"
  by (simp_all add: complete_as_def)

lemma change_handle_ok:
  assumes "service_ok env s" and "\<And>h. outlook (f h) = outlook h" and "\<And>h. h_request (f h) = h_request h"
  shows "service_ok env (change_handle rid f s)"
  by (rule service_ok_same [OF assms(1)])
    (auto simp: change_handle_def view_def ticket_at_def option.map_comp comp_def assms(2,3))

lemma service_cancel_ok: "service_ok env s \<Longrightarrow> service_ok env (service_cancel rid reason s)"
  by (erule service_ok_same) (auto simp: service_cancel_def split: option.splits)

lemma cancel_leftovers_ok: "service_ok env s \<Longrightarrow> service_ok env (cancel_leftovers s)"
proof -
  have "service_ok env s \<Longrightarrow> service_ok env (fold (\<lambda>rid. service_cancel rid reason) xs s)" for xs reason
    by (induction xs arbitrary: s) (simp_all add: service_cancel_ok)
  then show "service_ok env s \<Longrightarrow> service_ok env (cancel_leftovers s)" by (simp add: cancel_leftovers_def)
qed

text \<open>A submission reaches the inbox.\<close>

lemma put_ok:
  assumes ok: "service_ok env s" and r: "well_submitted r" and new: "handles s (request_id r) = None"
    and put: "put_submission r s = Inr s'"
  shows "service_ok env s'"
proof -
  let ?x = "request_id r"
  from put have s': "s' = s\<lparr>inbox := inbox s @ [r], handles := (handles s)(?x \<mapsto> new_handle r)\<rparr>"
    by (simp add: put_submission_def split: if_splits)
  have v: "view s' y = (if y = ?x then Some (False, False, None) else view s y)"
    and c: "ticket_at s' y = (if y = ?x then Some (ticket_of r) else ticket_at s y)" for y
    by (simp_all add: s' view_def ticket_at_def)
  have none: "view s ?x = None" "ticket_at s ?x = None" using new by (simp_all add: view_def ticket_at_def)
  have roll: "?x \<notin> fst ` set_mset (roll (sv_engine s))" using ok none(2) by (auto simp: service_parts)
  have f: "sv_engine s' = sv_engine s" "inbox s' = inbox s @ [r]" "in_flight s' = in_flight s" "fatal_error s' = fatal_error s"
    "worker s' = worker s" "inbox_ids s' = inbox_ids s @ [?x]" by (simp_all add: s' inbox_ids_def)
  have out: "\<forall>q \<in> set (inbox s). request_id q \<noteq> ?x" "?x \<notin> set (in_flight s)" "?x \<notin> set (inbox_ids s)"
    using ok none(1) by (auto simp: service_parts inbox_ids_def)
  have known: "t \<in># roll (sv_engine s) \<Longrightarrow> fst t \<noteq> ?x" for t using roll by (metis imageI)
  have "queue_ok s'" using ok r roll out unfolding service_parts f v c by auto
  moreover have "worker_ok s'" using ok by (simp add: service_parts f)
  moreover have "handles_ok s'" using ok known unfolding service_parts f v c by auto
  ultimately show ?thesis using ok by (simp add: service_ok_def f)
qed

text \<open>Abandoning everything that waits, because the worker failed or the server stops.\<close>

lemma fail_fields [simp]:
  "sv_engine (fail_all mark err s) = sv_engine s" "inbox (fail_all mark err s) = []" "in_flight (fail_all mark err s) = []"
  "fatal_error (fail_all mark err s) = (if mark \<noteq> None then mark else fatal_error s)" "worker (fail_all mark err s) = worker s"
  "view (fail_all mark err s) x =
     (if x \<in> set (in_flight s @ inbox_ids s) then map_option (decided (Some err)) (view s x) else view s x)"
  "ticket_at (fail_all mark err s) x = ticket_at s x"
  by (simp_all add: fail_all_def Let_def inbox_ids_def)

lemma fail_all_ok:
  assumes ok: "service_ok env s" and rest: "set rest \<subseteq> set (inbox s)" and lost: "mark = None \<longrightarrow> rest = inbox s"
    and w: "w = Exited \<or> w = NotStarted \<and> worker s = NotStarted \<and> mark = None"
  shows "service_ok env ((fail_all mark err (s\<lparr>inbox := rest\<rparr>))\<lparr>worker := w\<rparr>)"
proof -
  let ?s = "(fail_all mark err (s\<lparr>inbox := rest\<rparr>))\<lparr>worker := w\<rparr>"
  have in_s: "\<exists>a. view s x = Some (False, a, None)" if "x \<in> set (in_flight s) \<or> x \<in> request_id ` set rest" for x
    using that ok rest by (auto simp: service_parts)
  have v: "view ?s x = (if x \<in> set (in_flight s) \<or> x \<in> request_id ` set rest then map_option (decided (Some err)) (view s x) else view s x)" for x
    by (simp add: inbox_ids_def)
  have "queue_ok ?s" by (simp add: queue_ok_def inbox_ids_def)
  moreover have "worker_ok ?s" using w ok by (auto simp: service_parts)
  moreover have "handles_ok ?s"
    unfolding handles_ok_def
  proof (intro conjI allI impI ballI)
    fix x a er
    assume f: "view ?s x = Some (False, a, er)"
    have "\<not> (x \<in> set (in_flight s) \<or> x \<in> request_id ` set rest)" using f [unfolded v] in_s [of x] by auto
    with f [unfolded v] have "view s x = Some (False, a, er)" by simp
    with ok have "x \<in> set (inbox_ids s @ in_flight s) \<or> fatal_error s \<noteq> None" by (auto simp: service_parts)
    with \<open>\<not> _\<close> lost show "x \<in> set (inbox_ids ?s @ in_flight ?s) \<or> fatal_error ?s \<noteq> None" by (auto simp: inbox_ids_def)
  next
    fix t assume "t \<in># roll (sv_engine ?s)"
    with ok show "ticket_at ?s (fst t) = Some t" by (simp add: service_parts)
  next
    fix x a
    assume f: "view ?s x = Some (True, a, None)"
    have "\<not> (x \<in> set (in_flight s) \<or> x \<in> request_id ` set rest)" using f [unfolded v] in_s [of x] by auto
    with f [unfolded v] have "view s x = Some (True, a, None)" by simp
    with ok show "settled x (sv_engine ?s)" by (simp add: service_parts)
  qed
  ultimately show ?thesis using ok by (simp add: service_ok_def)
qed

lemma finish_stop_ok:
  assumes "service_ok env s" and "worker s = NotStarted \<or> worker s = Exited"
  shows "service_ok env (finish_stop s)"
proof -
  have "service_ok env ((fail_all None ServerShutdown (s\<lparr>inbox := inbox s\<rparr>))\<lparr>worker := worker s\<rparr>)"
    by (rule fail_all_ok) (use assms in auto)
  then show ?thesis by (rule service_ok_same) (simp_all add: finish_stop_def)
qed

lemma raised_ok:
  "service_ok env s \<Longrightarrow> set rest \<subseteq> set (inbox s) \<Longrightarrow> service_ok env (guarded (s\<lparr>inbox := rest\<rparr>) (Inl x) f)"
  unfolding guarded_def by (simp add: fail_all_ok)

section \<open>The worker keeps it\<close>

text \<open>One request out of the inbox: it can never fit, is refused, or is in flight.\<close>

lemma drain_turn_ok:
  assumes laws: "setup_laws env" and ok: "service_ok env s" and w: "worker s = DrainInbox"
  shows "service_ok env (drain_inbox_turn env s)"
proof (cases "inbox s")
  case Nil
  have "service_ok env (s\<lparr>worker := Applying\<rparr>)" by (rule service_ok_same [OF ok]) (use w in simp_all)
  with Nil show ?thesis by (simp add: drain_inbox_turn_def)
next
  case (Cons r rest)
  let ?e = "sv_engine s" and ?x = "request_id r"
  from ok have e: "engine_reachable env ?e" by (simp add: service_ok_def)
  from ok Cons have r: "well_submitted r" "?x \<notin> fst ` set_mset (roll ?e)" "view s ?x = Some (False, False, None)"
    "ticket_at s ?x = Some (ticket_of r)" and q: "queue_ok s"
    and x: "?x \<notin> request_id ` set rest" "?x \<notin> set (in_flight s)" by (auto simp: service_parts inbox_ids_def)
  note sub = submit_new [OF laws e r(1,2)]
  show ?thesis
  proof (cases "too_long env r")
    case True
    with sub Cons have "drain_inbox_turn env s = guarded (s\<lparr>inbox := rest\<rparr>) (Inl ValueError :: (bool \<times> 'a engine) result)
        (\<lambda>(b, e). s)" by (simp add: drain_inbox_turn_def guarded_def)
    with raised_ok [OF ok, of rest] Cons show ?thesis by auto
  next
    case False
    with sub obtain b e' where run: "engine_submit env r ?e = Inr (b, e')" "engine_reachable env e'" "roll e' = add_mset (ticket_of r) (roll ?e)"
      "set (live_ids (sch e')) = (if b then insert ?x (set (live_ids (sch ?e))) else set (live_ids (sch ?e)))"
      by (auto split: if_splits)
    have t: "fst (ticket_of r) = ?x" by (simp add: ticket_of_def)
    define s' where "s' = drain_inbox_turn env s"
    have f: "sv_engine s' = e'" "inbox s' = rest" "in_flight s' = (if b then in_flight s @ [?x] else in_flight s)"
      "fatal_error s' = fatal_error s" "worker s' = worker s" "inbox_ids s' = map request_id rest"
      using Cons run(1) by (simp_all add: s'_def drain_inbox_turn_def guarded_def inbox_ids_def Let_def)
    have x': "\<forall>q \<in> set rest. request_id q \<noteq> ?x" using x(1) by (metis imageI)
    from r(3) obtain h where h: "handles s ?x = Some h" "completed h = False" "h_error h = None" by (auto simp: view_def outlook_def)
    define why where "why = (case request_of ?x e' of None \<Rightarrow> [] | Some q \<Rightarrow> case finish_reason q of None \<Rightarrow> ''request rejected'' | Some x \<Rightarrow> x)"
    have v: "view s' y = (if y = ?x then Some (if b then (False, True, None) else (True, True, Some (Rejected why))) else view s y)"
      and c: "ticket_at s' y = ticket_at s y" for y
      using Cons run(1) h r(3)
      by (auto simp: s'_def drain_inbox_turn_def guarded_def why_def view_def ticket_at_def complete_as_def Let_def)
    from q Cons have q': "distinct (map request_id rest @ in_flight s)" by (simp add: queue_ok_def inbox_ids_def)
    have "queue_ok s'"
      unfolding queue_ok_def f v c run(3) using q q' x x' Cons t by (auto simp: queue_ok_def)
    moreover have "worker_ok s'" using ok run(4) w by (auto simp: service_parts f)
    moreover have "handles_ok s'"
      unfolding handles_ok_def
    proof (intro conjI allI impI ballI)
      fix y a er
      assume u: "view s' y = Some (False, a, er)"
      show "y \<in> set (inbox_ids s' @ in_flight s') \<or> fatal_error s' \<noteq> None"
      proof (cases "y = ?x")
        case True
        then show ?thesis using u by (simp add: v f split: if_splits)
      next
        case False
        with u service_okD(3) [OF ok, of y] Cons show ?thesis by (auto simp: v f inbox_ids_def)
      qed
    next
      fix k assume "k \<in># roll (sv_engine s')"
      then show "ticket_at s' (fst k) = Some k" using service_okD(4) [OF ok, of k] r(4) t by (auto simp: f run(3) c)
    next
      fix y a
      assume u: "view s' y = Some (True, a, None)"
      then have y: "y \<noteq> ?x" by (auto simp: v split: if_splits)
      with u have "settled y ?e" using service_okD(5) [OF ok, of y] by (simp add: v)
      then show "settled y (sv_engine s')" using y run(4) by (auto simp: settled_def f run(3))
    qed
    ultimately have "service_ok env s'" using run(2) by (simp add: service_ok_def f)
    then show ?thesis by (simp add: s'_def)
  qed
qed

text \<open>One cancellation: of a request that is gone, or of one the engine then drops.\<close>

lemma cancel_turn_ok:
  assumes laws: "setup_laws env" and ok: "service_ok env s" and w: "worker s = Applying"
  shows "service_ok env (apply_cancellation_turn env s)"
proof (cases "cancellations s")
  case Nil
  have "service_ok env (s\<lparr>worker := Running\<rparr>)" by (rule service_ok_same [OF ok]) (use w in simp_all)
  with Nil show ?thesis by (simp add: apply_cancellation_turn_def)
next
  case (Cons c rest)
  let ?e = "sv_engine s"
  obtain x reason where c: "c = (x, reason)" by (cases c)
  show ?thesis
  proof (cases "x \<notin> set (in_flight s) \<or> request_done x ?e")
    case True
    have "service_ok env (s\<lparr>cancellations := rest\<rparr>)" by (rule service_ok_same [OF ok]) simp_all
    with True Cons c show ?thesis by (simp add: apply_cancellation_turn_def Let_def)
  next
    case False
    from ok have e: "engine_reachable env ?e" and q: "queue_ok s" by (simp_all add: service_ok_def)
    have live: "set (in_flight s) = set (live_ids (sch ?e))" using ok w by (simp add: service_parts)
    with False have "x \<in> set (live_ids (sch ?e))" by blast
    from cancel_known [OF laws e this, of reason] obtain e' where run: "engine_cancel env x reason ?e = Inr e'"
      "engine_reachable env e'" "roll e' = roll ?e" "set (live_ids (sch e')) = set (live_ids (sch ?e)) - {x}" .
    define s' where "s' = apply_cancellation_turn env s"
    have f: "sv_engine s' = e'" "inbox s' = inbox s" "in_flight s' = filter (\<lambda>y. y \<noteq> x) (in_flight s)" "fatal_error s' = fatal_error s"
      "worker s' = worker s" "inbox_ids s' = inbox_ids s"
      using Cons c run(1) False by (simp_all add: s'_def apply_cancellation_turn_def guarded_def inbox_ids_def)
    have x: "view s x = Some (False, True, None)" "x \<in> fst ` set_mset (roll ?e)" "x \<notin> set (inbox_ids s)"
      using q False by (auto simp: queue_ok_def)
    have v: "view s' y = (if y = x then Some (True, True, None) else view s y)" and t: "ticket_at s' y = ticket_at s y" for y
      using Cons c run(1) False x(1) by (simp_all add: s'_def apply_cancellation_turn_def guarded_def)
    have ids: "\<forall>r \<in> set (inbox s). request_id r \<noteq> x" using x(3) by (auto simp: inbox_ids_def)
    have "queue_ok s'" unfolding queue_ok_def f v t run(3) using q ids by (auto simp: queue_ok_def)
    moreover have "worker_ok s'" using w live run(4) ok by (auto simp: service_parts f)
    moreover have "handles_ok s'" unfolding handles_ok_def f v t run(3) settled_def using ok x run(4)
      by (auto simp: service_parts settled_def)
    ultimately have "service_ok env s'" using run(2) by (simp add: service_ok_def f)
    then show ?thesis by (simp add: s'_def)
  qed
qed

text \<open>One iteration of the engine and what it completed.\<close>

lemma run_turn_ok:
  assumes laws: "setup_laws env" and ok: "service_ok env s" and w: "worker s = Running"
  shows "service_ok env (run_turn env s)"
proof (cases "has_unfinished_requests (sv_engine s)")
  case False
  have "service_ok env (s\<lparr>worker := AtTop\<rparr>)" by (rule service_ok_same [OF ok]) (use w in simp_all)
  with False show ?thesis by (simp add: run_turn_def)
next
  case True
  let ?e = "sv_engine s"
  from ok have e: "engine_reachable env ?e" and q: "queue_ok s" by (simp_all add: service_ok_def)
  have live: "set (in_flight s) = set (live_ids (sch ?e))" using ok w by (simp add: service_parts)
  from step_known [OF laws e] obtain e' where run: "step env ?e = Inr e'" "engine_reachable env e'" "roll e' = roll ?e"
    "set (live_ids (sch e')) \<subseteq> set (live_ids (sch ?e))" .
  define s' where "s' = run_turn env s"
  have f: "sv_engine s' = e'" "inbox s' = inbox s" "in_flight s' = filter (\<lambda>x. \<not> request_done x e') (in_flight s)"
    "fatal_error s' = fatal_error s" "worker s' = AtTop" "inbox_ids s' = inbox_ids s"
    using True run(1) by (simp_all add: s'_def run_turn_def guarded_def publish_completed_def Let_def inbox_ids_def)
  have v: "view s' y = (if y \<in> set (in_flight s) \<and> request_done y e' then map_option (decided None) (view s y) else view s y)"
    and t: "ticket_at s' y = ticket_at s y" for y
    using True run(1) by (simp_all add: s'_def run_turn_def guarded_def publish_completed_def Let_def)
  have fl: "view s y = Some (False, True, None)" "y \<notin> set (inbox_ids s)" "request_done y e' \<longleftrightarrow> y \<notin> set (live_ids (sch e'))"
    "y \<in> fst ` set_mset (roll ?e)" if "y \<in> set (in_flight s)" for y
    using that q done_settled [OF laws run(2)] by (auto simp: queue_ok_def run(3))
  have ids: "\<forall>r \<in> set (inbox s). request_id r \<notin> set (in_flight s)" using q by (auto simp: queue_ok_def inbox_ids_def)
  have "queue_ok s'" unfolding queue_ok_def f v t run(3) using q ids by (auto simp: queue_ok_def)
  moreover have "worker_ok s'" using live run(4) ok w fl(3) by (auto simp: service_parts f)
  moreover have "handles_ok s'"
    unfolding handles_ok_def
  proof (intro conjI allI impI ballI)
    fix x a er
    assume "view s' x = Some (False, a, er)"
    then have "view s x = Some (False, a, er)" "\<not> (x \<in> set (in_flight s) \<and> request_done x e')"
      using fl(1) [of x] by (auto simp: v split: if_splits)
    with service_okD(3) [OF ok] show "x \<in> set (inbox_ids s' @ in_flight s') \<or> fatal_error s' \<noteq> None" by (auto simp: f)
  next
    fix k assume "k \<in># roll (sv_engine s')"
    with service_okD(4) [OF ok] show "ticket_at s' (fst k) = Some k" by (simp add: f run(3) t)
  next
    fix x a
    assume c: "view s' x = Some (True, a, None)"
    show "settled x (sv_engine s')"
    proof (cases "x \<in> set (in_flight s) \<and> request_done x e'")
      case True
      then show ?thesis using fl(3,4) by (auto simp: settled_def f run(3))
    next
      case False
      with c have "view s x = Some (True, a, None)" by (simp add: v split: if_splits)
      then have "settled x ?e" by (rule service_okD(5) [OF ok])
      then show ?thesis using run(4) by (auto simp: settled_def f run(3))
    qed
  qed
  ultimately have "service_ok env s'" using run(2) by (simp add: service_ok_def f)
  then show ?thesis by (simp add: s'_def)
qed

lemma worker_turn_ok:
  assumes "setup_laws env" and "service_ok env s"
  shows "service_ok env (worker_turn env s)"
proof (cases "worker s")
  case AtTop
  have "service_ok env (s\<lparr>worker := w\<rparr>)" if "w = Exited \<or> w = DrainInbox" for w
    by (rule service_ok_same [OF assms(2)]) (use that AtTop in auto)
  with AtTop show ?thesis by (simp add: worker_turn_def)
qed (use assms drain_turn_ok cancel_turn_ok run_turn_ok in \<open>simp_all add: worker_turn_def\<close>)

section \<open>Every reachable service\<close>

lemma service_init_ok:
  assumes "0 \<le> limit" and e: "engine_init env n bs mw cb dflt sd limit kv = Inr e" and s: "service_init e most = Inr s"
  shows "service_ok env s"
proof -
  have r: "engine_reachable env e" by (rule er_start [OF assms(1) e])
  from e obtain sc slots where f: "fresh_scheduler env n bs mw cb = Inr (sc, slots)" "sch e = sc" "ended e = []"
    by (auto simp: engine_init_def split: if_splits)
  have "live_ids sc = []" using f(1) by (auto simp: fresh_scheduler_def scheduler_init_def live_ids_def split: if_splits)
  with f have roll: "roll e = {#}" "live_ids (sch e) = []" using fresh_enrolled(2) [OF f(1)] by (simp_all add: roll_def)
  from s have p: "sv_engine s = e" "inbox s = []" "in_flight s = []" "handles s = Map.empty" "fatal_error s = None" "worker s = NotStarted"
    by (auto simp: service_init_def split: if_splits)
  show ?thesis by (simp add: service_parts inbox_ids_def view_def ticket_at_def p roll r)
qed

lemma service_start_ok:
  assumes ok: "service_ok env s"
  shows "service_ok env (service_start s)"
proof (cases "worker s = NotStarted")
  case True
  have "service_ok env (s\<lparr>worker := AtTop\<rparr>)" by (rule service_ok_same [OF ok]) (use True in simp_all)
  with True show ?thesis by (simp add: service_start_def)
qed (use ok in \<open>simp add: service_start_def\<close>)

lemma begin_ok:
  assumes "service_ok env s"
  shows "service_ok env (begin_drain s)" and "service_ok env (begin_stop s)"
  unfolding begin_drain_def begin_stop_def by (rule service_ok_same [OF assms]; simp)+

lemma service_step_ok:
  assumes laws: "setup_laws env" and step: "service_step env s s'" and ok: "service_ok env s"
  shows "service_ok env s'"
  using step
proof cases
  case sv_start
  show ?thesis unfolding sv_start by (rule service_start_ok [OF ok])
next
  case (sv_put r)
  show ?thesis by (rule put_ok [OF ok sv_put])
next
  case (sv_cancel rid reason)
  show ?thesis unfolding sv_cancel by (rule service_cancel_ok [OF ok])
next
  case (sv_complete_observer rid cb)
  show ?thesis unfolding sv_complete_observer by (rule change_handle_ok [OF ok]) simp_all
next
  case (sv_accept_observer rid cb)
  show ?thesis unfolding sv_accept_observer by (rule change_handle_ok [OF ok]) simp_all
next
  case sv_turn
  show ?thesis unfolding sv_turn by (rule worker_turn_ok [OF laws ok])
next
  case sv_drain
  show ?thesis unfolding sv_drain by (rule begin_ok(1) [OF ok])
next
  case sv_leftovers
  show ?thesis unfolding sv_leftovers(1) by (rule cancel_leftovers_ok [OF ok])
next
  case sv_stop
  show ?thesis unfolding sv_stop by (rule begin_ok(2) [OF ok])
next
  case sv_stopped
  show ?thesis unfolding sv_stopped(1) by (rule finish_stop_ok [OF ok sv_stopped(3)])
qed

lemma service_reachable_ok:
  assumes laws: "setup_laws env" and "service_reachable env s"
  shows "service_ok env s"
  using assms(2)
proof induction
  case (sr_start limit n bs mw cb dflt sd kv e most s)
  show ?case by (rule service_init_ok [OF sr_start])
next
  case (sr_next s s')
  show ?case by (rule service_step_ok [OF laws sr_next(2,3)])
qed

end
