(* ===== verification/Service_Properties.thy ===== *)
theory Service_Properties
  imports Service_Correct
begin

text \<open>
  What the engine promises of the requests it was given, and what the worker promises the
  callers that hold their handles, in every service that submissions, cancellations, observers,
  draining, stopping and the worker's own steps can reach, in any order.
\<close>

section \<open>A concrete service\<close>

text \<open>The demo engine's two requests submitted through a service, up to the engine's first iteration.\<close>

lemma next_turn: "service_reachable env s \<Longrightarrow> service_reachable env (worker_turn env s)"
  by (rule sr_next [OF _ sv_turn])

definition demo_a :: request where
  "demo_a = submitted_request ''a'' 0 [5, 6] 2 None"

definition demo_b :: request where
  "demo_b = submitted_request ''b'' 1 [7, 8] 2 None"

lemma demo_requests:
  "demo_a = new_request ''a'' 2 2 [5, 6] GREEDY 0" "demo_b = new_request ''b'' 2 2 [7, 8] GREEDY 1"
  by (simp_all add: demo_a_def demo_b_def submitted_request_def)

lemma demo_well: "well_submitted demo_a" "well_submitted demo_b"
  by (auto simp: well_submitted_def demo_a_def demo_b_def dummy_rows_id_def intro!: exI)

definition demo_parked :: "int service" where
  "demo_parked = \<lparr>sv_engine = demo_fresh, handles = [''a'' \<mapsto> new_handle demo_a, ''b'' \<mapsto> new_handle demo_b], inbox = [demo_a, demo_b],
     cancellations = [], in_flight = [], max_pending = 2, draining = False, stopping = False, fatal_error = None,
     worker = NotStarted, completed_count = 0, cancelled_count = 0, failed_count = 0\<rparr>"

definition demo_idle :: "int service" where
  "demo_idle = demo_parked\<lparr>worker := DrainInbox\<rparr>"

lemma demo_parked_reachable:
  assumes "engine_init env 4 2 None 0 0 None 1024 (\<lambda>_. []) = Inr demo_fresh"
  shows "service_reachable env demo_parked"
proof -
  obtain s where s: "service_init demo_fresh 2 = Inr s" by (simp add: service_init_def)
  have r0: "service_reachable env s" by (rule sr_start [OF _ assms s]) simp
  have id: "request_id demo_a = ''a''" "request_id demo_b = ''b''" by (simp_all add: demo_requests new_request_def)
  obtain s1 where s1: "put_submission demo_a s = Inr s1" using s by (auto simp: put_submission_def service_init_def)
  have r1: "service_reachable env s1"
    by (rule sr_next [OF r0 sv_put [OF demo_well(1) _ s1]]) (use s in \<open>auto simp: service_init_def\<close>)
  have s2: "put_submission demo_b s1 = Inr demo_parked"
    using s s1 id by (auto simp: put_submission_def service_init_def demo_parked_def)
  show ?thesis
    by (rule sr_next [OF r1 sv_put [OF demo_well(2) _ s2]]) (use s s1 id in \<open>auto simp: put_submission_def service_init_def\<close>)
qed

lemma demo_idle_reachable:
  assumes "engine_init env 4 2 None 0 0 None 1024 (\<lambda>_. []) = Inr demo_fresh"
  shows "service_reachable env demo_idle"
proof -
  have "worker_turn env (service_start demo_parked) = demo_idle"
    by (simp add: demo_parked_def demo_idle_def service_start_def worker_turn_def)
  with next_turn [OF sr_next [OF demo_parked_reachable [OF assms] sv_start]] show ?thesis by simp
qed

lemmas demo_service_eval = demo_idle_def demo_parked_def

lemma demo_running:
  obtains s where "service_reachable demo_env s" and "worker s = Running" and "sv_engine s = demo_engine" and "inbox s = []"
    and "in_flight s = [''a'', ''b'']" and "fatal_error s = None" and "cancellations s = []" and "\<not> stopping s"
    and "handles s ''b'' = Some (accept_handle (new_handle demo_b))"
proof -
  obtain e where e: "engine_submit demo_env demo_a demo_fresh = Inr (True, e)" "engine_submit demo_env demo_b e = Inr (True, demo_engine)"
    using demo_submits unfolding demo_requests by blast
  have id: "request_id demo_a = ''a''" "request_id demo_b = ''b''" by (simp_all add: demo_requests new_request_def)
  let ?t = "worker_turn demo_env"
  define u where "u = ?t (?t (?t (?t demo_idle)))"
  have r: "service_reachable demo_env u" unfolding u_def by (intro next_turn demo_idle_reachable demo_init)
  have "worker u = Running" "sv_engine u = demo_engine" "inbox u = []" "in_flight u = [''a'', ''b'']" "fatal_error u = None"
    "cancellations u = []" "\<not> stopping u" "handles u ''b'' = Some (accept_handle (new_handle demo_b))"
    by (simp_all add: u_def worker_turn_def drain_inbox_turn_def apply_cancellation_turn_def guarded_def Let_def demo_service_eval e id)
  then show thesis by (rule that [OF r])
qed

section \<open>A caller nobody will answer\<close>

definition stranded :: "string \<Rightarrow> 'g service \<Rightarrow> bool" where
  "stranded x s \<longleftrightarrow> worker s = Exited \<and> x \<notin> set (inbox_ids s) \<and> x \<notin> set (in_flight s) \<and> (\<exists>h. handles s x = Some h \<and> \<not> completed h)"

lemma stranded_view:
  "stranded x s \<longleftrightarrow> worker s = Exited \<and> x \<notin> set (inbox_ids s) \<and> x \<notin> set (in_flight s) \<and> (\<exists>a er. view s x = Some (False, a, er))"
  by (auto simp: stranded_def view_def outlook_def)

lemma stranded_same:
  "stranded x s \<Longrightarrow> worker s' = worker s \<Longrightarrow> inbox s' = inbox s \<Longrightarrow> in_flight s' = in_flight s \<Longrightarrow> view s' x = view s x \<Longrightarrow> stranded x s'"
  by (simp add: stranded_view inbox_ids_def)

lemma cancel_stranded: "stranded x s \<Longrightarrow> stranded x (service_cancel rid reason s)"
  by (erule stranded_same) (simp_all add: service_cancel_def split: option.splits)

lemma cancels_stranded: "stranded x s \<Longrightarrow> stranded x (fold (\<lambda>rid. service_cancel rid reason) rids s)"
  by (induction rids arbitrary: s) (simp_all add: cancel_stranded)

lemma change_stranded: "stranded x s \<Longrightarrow> (\<And>h. outlook (f h) = outlook h) \<Longrightarrow> stranded x (change_handle rid f s)"
  by (erule stranded_same) (simp_all add: change_handle_def view_def option.map_comp comp_def)

lemma stranded_step:
  assumes "service_step env s s'" and x: "stranded x s"
  shows "stranded x s'"
  using assms(1)
proof cases
  case sv_start
  then show ?thesis using x by (simp add: service_start_def stranded_def)
next
  case (sv_put r)
  then have "request_id r \<noteq> x" using x by (auto simp: stranded_def)
  with sv_put(3) x show ?thesis by (auto simp: put_submission_def stranded_def inbox_ids_def split: if_splits)
next
  case (sv_cancel rid reason)
  then show ?thesis using cancel_stranded [OF x] by simp
next
  case (sv_complete_observer rid cb)
  then show ?thesis using change_stranded [OF x] by simp
next
  case (sv_accept_observer rid cb)
  then show ?thesis using change_stranded [OF x] by simp
next
  case sv_turn
  then show ?thesis using x by (simp add: worker_turn_def stranded_def)
next
  case sv_drain
  then show ?thesis using x by (simp add: begin_drain_def stranded_def inbox_ids_def)
next
  case sv_leftovers
  then show ?thesis using cancels_stranded [OF x] by (simp add: cancel_leftovers_def)
next
  case sv_stop
  then show ?thesis using x by (simp add: begin_stop_def stranded_def inbox_ids_def)
next
  case sv_stopped
  have "in_flight s' = []" "inbox s' = []" "worker s' = worker s" "view s' x = view s x"
    using x by (simp_all add: sv_stopped(1) finish_stop_def stranded_view)
  then show ?thesis using x by (simp add: stranded_view inbox_ids_def)
qed

lemma over_long_turn:
  assumes laws: "setup_laws env" and ok: "service_ok env s" and w: "worker s = DrainInbox" and i: "inbox s = r # rest"
    and long: "too_long env r"
  shows "stranded (request_id r) (worker_turn env s)" and "fatal_error (worker_turn env s) = Some ValueError"
    and "x \<in> set (in_flight s @ map request_id rest) \<Longrightarrow>
      \<exists>h. handles (worker_turn env s) x = Some h \<and> completed h \<and> h_error h = Some (Fatal ValueError)"
proof -
  note q = service_okD(2) [OF ok]
  from q i have r: "well_submitted r" "request_id r \<notin> fst ` set_mset (roll (sv_engine s))" by (simp_all add: queue_ok_def)
  let ?s = "s\<lparr>inbox := rest\<rparr>"
  from submit_new [OF laws service_okD(1) [OF ok] r] w i long
  have t: "worker_turn env s = (fail_all (Some ValueError) (Fatal ValueError) ?s)\<lparr>worker := Exited\<rparr>"
    by (simp add: worker_turn_def drain_inbox_turn_def guarded_def)
  have out: "request_id r \<notin> set (in_flight s @ inbox_ids ?s)" using q i by (auto simp: queue_ok_def inbox_ids_def)
  have "view s (request_id r) = Some (False, False, None)" using q i by (simp add: queue_ok_def)
  with out show "stranded (request_id r) (worker_turn env s)" by (auto simp: t stranded_view inbox_ids_def)
  show "fatal_error (worker_turn env s) = Some ValueError" by (simp add: t)
  assume x: "x \<in> set (in_flight s @ map request_id rest)"
  then have "\<exists>a. view s x = Some (False, a, None)" using q i by (auto simp: queue_ok_def)
  with x have "view (worker_turn env s) x = Some (True, True, Some (Fatal ValueError))" by (auto simp: t inbox_ids_def)
  then show "\<exists>h. handles (worker_turn env s) x = Some h \<and> completed h \<and> h_error h = Some (Fatal ValueError)"
    by (auto simp: view_def outlook_def)
qed

section \<open>Properties\<close>

text \<open>
  C5: no request is lost. An iteration of the engine keeps every request it knows, with its
  identifier, prompt, token limit and sampling parameters, in exactly one of the queue, the
  active set, the ended and the refused; and no request that has left the queue and the active
  set comes back.
\<close>

theorem no_request_is_lost:
  assumes "engine_reachable env e" and "step env e = Inr e'"
  shows "roll e' = roll e \<and> distinct (live_ids (sch e')) \<and> set (live_ids (sch e')) \<subseteq> set (live_ids (sch e))"
  using step_roll [OF assms(2)] engine_reachable_enrolled [OF assms(1)] unfolding keeps_roll_def enrolled_def keyed_def by blast

theorem no_request_is_lost_witness:
  "\<exists>e. step demo_env demo_engine = Inr e \<and> roll e = {#ticket_of demo_a, ticket_of demo_b#}"
proof -
  obtain e where e: "step demo_env demo_engine = Inr e" using demo_two_steps by (elim exE conjE) (rule that)
  have "roll demo_engine = {#ticket_of demo_a, ticket_of demo_b#}"
    by (simp add: roll_def known_def demo_engine_def demo_fresh_def demo_sched_def demo_requests)
  with no_request_is_lost [OF demo_engine_reachable e] e show ?thesis by simp
qed

text \<open>
  C6: no caller is forgotten. While the worker has not failed, a handle is either completed,
  or waits in the inbox, or is in flight, and never two of these; while it runs, the active
  dictionary holds exactly the requests the engine still works on.
\<close>

theorem handles_are_accounted:
  assumes "setup_laws env" and "service_reachable env s" and "fatal_error s = None" and "handles s rid = Some h"
  shows "(completed h \<longleftrightarrow> rid \<notin> set (map request_id (inbox s) @ in_flight s)) \<and> distinct (map request_id (inbox s) @ in_flight s) \<and>
    (worker s \<noteq> Exited \<longrightarrow> set (in_flight s) = set (live_ids (sch (sv_engine s))))"
proof -
  note ok = service_reachable_ok [OF assms(1,2)]
  have v: "view s rid = Some (completed h, accepted h, h_error h)" using assms(4) by (simp add: view_def outlook_def)
  have "completed h \<or> rid \<in> set (inbox_ids s @ in_flight s)"
    using service_okD(3) [OF ok, of rid] v assms(3) by (cases "completed h") auto
  moreover have "\<not> completed h" if "rid \<in> set (inbox_ids s @ in_flight s)"
    using that v ok by (auto simp: service_parts inbox_ids_def)
  ultimately show ?thesis using ok by (auto simp: service_parts inbox_ids_def)
qed

theorem handles_are_accounted_witness:
  "\<exists>s h. service_reachable demo_env s \<and> handles s ''b'' = Some h \<and> \<not> completed h \<and> set (in_flight s) = set (live_ids (sch (sv_engine s)))"
proof -
  obtain s where s: "service_reachable demo_env s" "worker s = Running" "in_flight s = [''a'', ''b'']" "fatal_error s = None"
    "handles s ''b'' = Some (accept_handle (new_handle demo_b))" by (rule demo_running) (rule that)
  from handles_are_accounted [OF demo_laws s(1,4,5)] s(1,2,3,5) show ?thesis by auto
qed

text \<open>
  C7: only a request that can never fit ends the worker. A turn of the worker of a running
  service fails exactly when it takes a request from the inbox whose prompt and token limit
  exceed \<open>max_model_len\<close>: neither the iterations of the engine, nor submissions, refusals and
  cancellations, nor any interleaving of them can.
\<close>

theorem only_over_long_is_fatal:
  assumes "setup_laws env" and "service_reachable env s" and "fatal_error s = None"
  shows "fatal_error (worker_turn env s) \<noteq> None \<longleftrightarrow>
    worker s = DrainInbox \<and> (\<exists>r rest. inbox s = r # rest \<and> too_long env r)"
proof -
  note ok = service_reachable_ok [OF assms(1,2)]
  note e = service_okD(1) [OF ok]
  show ?thesis
  proof (cases "worker s")
    case DrainInbox
    show ?thesis
    proof (cases "inbox s")
      case (Cons r rest)
      then have "well_submitted r" "request_id r \<notin> fst ` set_mset (roll (sv_engine s))" using service_okD(2) [OF ok] by (simp_all add: queue_ok_def)
      from submit_new [OF assms(1) e this] DrainInbox Cons assms(3) show ?thesis
        by (auto simp: worker_turn_def drain_inbox_turn_def guarded_def Let_def split: if_splits)
    qed (use DrainInbox assms(3) in \<open>simp add: worker_turn_def drain_inbox_turn_def\<close>)
  next
    case Applying
    have live: "set (in_flight s) = set (live_ids (sch (sv_engine s)))" using ok Applying by (simp add: service_parts)
    have cancels: "\<exists>e'. engine_cancel env x reason (sv_engine s) = Inr e'" if "x \<in> set (in_flight s)" for x reason
      by (rule cancel_known [OF assms(1) e that [unfolded live]]) blast
    show ?thesis
    proof (cases "cancellations s")
      case (Cons c rest)
      obtain x reason where c: "c = (x, reason)" by (cases c)
      show ?thesis
      proof (cases "x \<in> set (in_flight s)")
        case True
        from cancels [OF True, of reason] obtain e' where "engine_cancel env x reason (sv_engine s) = Inr e'" ..
        with Applying assms(3) Cons c show ?thesis by (simp add: worker_turn_def apply_cancellation_turn_def guarded_def Let_def)
      qed (use Applying assms(3) Cons c in \<open>simp add: worker_turn_def apply_cancellation_turn_def Let_def\<close>)
    qed (use Applying assms(3) in \<open>simp add: worker_turn_def apply_cancellation_turn_def\<close>)
  next
    case Running
    from step_known [OF assms(1) e] obtain e' where "step env (sv_engine s) = Inr e'" .
    with Running assms(3) show ?thesis by (simp add: worker_turn_def run_turn_def guarded_def publish_completed_def Let_def)
  qed (use assms(3) in \<open>simp_all add: worker_turn_def\<close>)
qed

theorem only_over_long_is_fatal_witness:
  "\<exists>s. service_reachable demo_env s \<and> worker s = Running \<and> fatal_error (worker_turn demo_env s) = None"
proof -
  obtain s where s: "service_reachable demo_env s" "worker s = Running" "fatal_error s = None" by (rule demo_running) (rule that)
  from only_over_long_is_fatal [OF demo_laws s(1,3)] s(1,2) show ?thesis by auto
qed

text \<open>
  C8: such a request takes everyone down and strands its own caller. When the worker takes an
  over-long request it stops for good: every other caller, in flight or still in the inbox, is
  completed with the error, but the caller of that very request is never completed, whatever
  happens afterwards, a stop of the server included.
\<close>

theorem over_long_strands_its_caller:
  assumes "setup_laws env" and "service_reachable env s" and "worker s = DrainInbox" and "inbox s = r # rest" and "too_long env r"
    and "(service_step env)\<^sup>*\<^sup>* (worker_turn env s) s'"
  shows "fatal_error (worker_turn env s) = Some ValueError \<and> (\<exists>h. handles s' (request_id r) = Some h \<and> \<not> completed h) \<and>
    (\<forall>x \<in> set (in_flight s @ map request_id rest).
       \<exists>h. handles (worker_turn env s) x = Some h \<and> completed h \<and> h_error h = Some (Fatal ValueError))"
proof -
  note turn = over_long_turn [OF assms(1) service_reachable_ok [OF assms(1,2)] assms(3-5)]
  from assms(6) turn(1) have "stranded (request_id r) s'" by (induction rule: rtranclp_induct) (auto dest: stranded_step)
  with turn(2,3) show ?thesis by (auto simp: stranded_def)
qed

theorem over_long_strands_its_caller_witness:
  "\<exists>h. handles (worker_turn (demo_env\<lparr>max_model_len := Some 3\<rparr>) demo_idle) ''a'' = Some h \<and> \<not> completed h"
proof -
  let ?env = "demo_env\<lparr>max_model_len := Some 3\<rparr>"
  have laws: "setup_laws ?env" using demo_laws by (simp add: setup_laws_def)
  have "engine_init ?env 4 2 None 0 0 None 1024 (\<lambda>_. []) = Inr demo_fresh"
    using demo_init by (simp add: engine_init_def setup_ok_def demo_env_def fresh_scheduler_def)
  from demo_idle_reachable [OF this] have r: "service_reachable ?env demo_idle" .
  have "worker demo_idle = DrainInbox" "inbox demo_idle = [demo_a, demo_b]" "too_long ?env demo_a" "request_id demo_a = ''a''"
    by (simp_all add: demo_service_eval too_long_def demo_requests new_request_def)
  with over_long_strands_its_caller [OF laws r _ _ _ rtranclp.rtrancl_refl] show ?thesis by auto
qed

text \<open>
  C9: a stop answers everyone. Unless the worker had failed, once the server has stopped every
  handle that was submitted is completed.
\<close>

theorem stop_completes_every_handle:
  assumes "setup_laws env" and "service_reachable env s" and "fatal_error s = None" and "worker s = NotStarted \<or> worker s = Exited"
    and "handles (finish_stop s) rid = Some h"
  shows "completed h \<and> (\<forall>q. handles s rid = Some q \<longrightarrow> completed q \<longrightarrow> h = q)"
proof -
  note ok = finish_stop_ok [OF service_reachable_ok [OF assms(1,2)] assms(4)]
  have v: "view (finish_stop s) rid = Some (completed h, accepted h, h_error h)" using assms(5) by (simp add: view_def outlook_def)
  have "completed h"
  proof (rule ccontr)
    assume "\<not> completed h"
    with v service_okD(3) [OF ok, of rid] assms(3) show False by (simp add: finish_stop_def inbox_ids_def)
  qed
  moreover have "h = q" if "handles s rid = Some q" "completed q" for q
    using assms(5) that by (simp add: finish_stop_def fail_all_def complete_as_def Let_def complete_handle_def split: if_splits)
  ultimately show ?thesis by blast
qed

theorem stop_completes_every_handle_witness:
  "\<exists>s h. service_reachable demo_env s \<and> handles (finish_stop s) ''b'' = Some h \<and> completed h"
proof -
  have s: "worker demo_parked = NotStarted" "fatal_error demo_parked = None" by (simp_all add: demo_parked_def)
  obtain h where h: "handles (finish_stop demo_parked) ''b'' = Some h"
    by (auto simp: demo_parked_def finish_stop_def fail_all_def complete_as_def Let_def demo_requests new_request_def)
  from stop_completes_every_handle [OF demo_laws demo_parked_reachable [OF demo_init] s(2) disjI1 [OF s(1)] h] h
  show ?thesis using demo_parked_reachable [OF demo_init] by blast
qed

text \<open>
  C4: what a caller gets is its own text. A handle completed without an error belongs to a
  request that has ended, and still asks what was submitted; for a plain greedy one the tokens
  are a prefix of what one-token-at-a-time greedy decoding of the submitted prompt gives, and
  all of it, with the same reason, when it finished: whatever else the server ran, cancelled,
  refused or shared meanwhile.
\<close>

theorem served_text_is_sequential:
  assumes "setup_laws env" and "service_reachable env s" and "handles s rid = Some h" and "completed h" and "h_error h = None"
  shows "\<exists>r. request_of rid (sv_engine s) = Some r \<and> req_done r \<and> prompt_token_ids r = prompt_token_ids (h_request h) \<and>
    (can_reuse_cached_prediction (sampling (h_request h)) \<longrightarrow> prefix (output_token_ids r) (fst (reference env (h_request h))) \<and>
      (state r = FINISHED \<longrightarrow> reference env (h_request h) = (output_token_ids r, the (finish_reason r))))"
proof -
  note ok = service_reachable_ok [OF assms(1,2)]
  note e = service_okD(1) [OF ok]
  have "view s rid = Some (True, accepted h, None)" using assms(3-5) by (simp add: view_def outlook_def)
  from request_of_settled [OF assms(1) e service_okD(5) [OF ok this]] obtain r
    where r: "request_of rid (sv_engine s) = Some r" "request_id r = rid" "r \<in> set (gone (sv_engine s))" .
  have "ticket_of r \<in># roll (sv_engine s)" using r(3) by (simp add: roll_parts)
  from service_okD(4) [OF ok this] r(2) assms(3) have "ticket_of (h_request h) = ticket_of r" by (simp add: ticket_at_def ticket_of_def)
  then have t: "prompt_token_ids r = prompt_token_ids (h_request h)" "sampling (h_request h) = sampling r"
    "reference env (h_request h) = reference env r" by (auto simp: ticket_of_def intro: same_reference)
  from engine_parts(3) [OF assms(1) e r(3)] have "req_done r" "outputs_ok env r" by simp_all
  then show ?thesis using r(1) by (simp add: t outputs_ok_def)
qed

text \<open>The demo service serves its second caller.\<close>

lemma run_turn_view:
  assumes "worker s = Running" and "has_unfinished_requests (sv_engine s)" and "step env (sv_engine s) = Inr e"
  obtains s' where "s' = worker_turn env s" and "sv_engine s' = e" and "worker s' = AtTop" and "inbox s' = inbox s"
    and "cancellations s' = cancellations s" and "stopping s' = stopping s" and "fatal_error s' = fatal_error s"
    and "\<And>x. view s' x = view s x \<or> view s' x = map_option (decided None) (view s x)"
  using assms that [of "worker_turn env s"]
  by (simp add: worker_turn_def run_turn_def guarded_def publish_completed_def Let_def) (auto simp: complete_as_def)

lemma demo_ended:
  assumes "step demo_env demo_engine = Inr e1" and "step demo_env e1 = Inr e2" and "length (ended e2) = 2"
  shows "waiting (sch e2) = [] \<and> active (sch e2) = [] \<and> dropped (sch e2) = []"
proof -
  have "roll e2 = roll demo_engine"
    using keeps_roll_trans [OF step_roll [OF assms(1)] step_roll [OF assms(2)]] engine_reachable_enrolled [OF demo_engine_reachable]
    by (simp add: keeps_roll_def)
  then have "size (roll e2) = 2" by (simp add: roll_def known_def demo_engine_def demo_fresh_def demo_sched_def)
  then show ?thesis using assms(3) by (simp add: roll_def known_def)
qed

lemma demo_served:
  obtains s h r where "service_reachable demo_env s" and "handles s ''b'' = Some h" and "completed h" and "h_error h = None"
    and "request_of ''b'' (sv_engine s) = Some r" and "state r = FINISHED" and "output_token_ids r = [9, 10]" and "finish_reason r = Some ''LENGTH''"
    and "sampling r = GREEDY"
proof -
  obtain s where s: "service_reachable demo_env s" "worker s = Running" "sv_engine s = demo_engine" "inbox s = []" "fatal_error s = None"
    "cancellations s = []" "\<not> stopping s" "handles s ''b'' = Some (accept_handle (new_handle demo_b))" by (rule demo_running) (rule that)
  obtain e1 e2 where e: "step demo_env demo_engine = Inr e1" "step demo_env e1 = Inr e2"
    and out: "map (\<lambda>r. (request_id r, state r, output_token_ids r, finish_reason r, sampling r)) (ended e2) =
       [(''a'', FINISHED, [7, 8], Some ''LENGTH'', GREEDY), (''b'', FINISHED, [9, 10], Some ''LENGTH'', GREEDY)]"
    using demo_two_steps by (elim exE conjE) (rule that)
  have u0: "has_unfinished_requests demo_engine" by (simp add: has_unfinished_requests_def demo_engine_def demo_fresh_def demo_sched_def)
  have u1: "has_unfinished_requests e1" using demo_first_step e(1) by (auto simp: has_unfinished_requests_def)
  obtain s1 where s1: "s1 = worker_turn demo_env s" "sv_engine s1 = e1" "worker s1 = AtTop" "inbox s1 = []" "cancellations s1 = []"
    "\<not> stopping s1" "fatal_error s1 = None" "\<And>x. view s1 x = view s x \<or> view s1 x = map_option (decided None) (view s x)"
    by (rule run_turn_view [OF s(2) u0 [folded s(3)] e(1) [folded s(3)]]) (use s in \<open>auto intro: that\<close>)
  let ?s4 = "s1\<lparr>worker := Running\<rparr>"
  have r4: "service_reachable demo_env ?s4"
  proof -
    have "worker_turn demo_env (worker_turn demo_env (worker_turn demo_env s1)) = ?s4"
      using s1(3-6) by (simp add: worker_turn_def drain_inbox_turn_def apply_cancellation_turn_def)
    with next_turn [OF next_turn [OF next_turn [OF next_turn [OF s(1)]]]] s1(1) show ?thesis by simp
  qed
  have run: "worker ?s4 = Running" "has_unfinished_requests (sv_engine ?s4)" "step demo_env (sv_engine ?s4) = Inr e2"
    using s1(2) u1 e(2) by simp_all
  obtain s5 where s5: "s5 = worker_turn demo_env ?s4" "sv_engine s5 = e2" "worker s5 = AtTop" "inbox s5 = []" "fatal_error s5 = None"
    "\<And>x. view s5 x = view ?s4 x \<or> view s5 x = map_option (decided None) (view ?s4 x)"
    by (rule run_turn_view [OF run]) (use s1 in \<open>auto intro: that\<close>)
  have r5: "service_reachable demo_env s5" using next_turn [OF r4] s5(1) by simp
  note ok = service_reachable_ok [OF demo_laws r5]
  have "length (ended e2) = 2" using arg_cong [OF out, of length] by simp
  note q = demo_ended [OF e this]
  have "view s ''b'' = Some (False, True, None)" by (simp add: view_def s(8)) (simp add: handle_eval)
  then have "view s5 ''b'' = Some (False, True, None) \<or> view s5 ''b'' = Some (True, True, None)"
    using s1(8) [of "''b''"] s5(6) [of "''b''"] by auto
  moreover have "view s5 ''b'' \<noteq> Some (False, True, None)"
  proof
    assume "view s5 ''b'' = Some (False, True, None)"
    from service_okD(3) [OF ok this] s5(4,5) have "''b'' \<in> set (in_flight s5)" by (simp add: inbox_ids_def)
    also have "set (in_flight s5) = set (live_ids (sch e2))" using ok s5(2,3) by (simp add: service_parts)
    finally show False using q by (simp add: live_ids_def)
  qed
  ultimately obtain h where h: "handles s5 ''b'' = Some h" "completed h" "h_error h = None" by (auto simp: view_def outlook_def)
  from out obtain p r where g: "ended e2 = [p, r]" "request_id p = ''a''" "request_id r = ''b''" and r: "state r = FINISHED"
    "output_token_ids r = [9, 10]" "finish_reason r = Some ''LENGTH''" "sampling r = GREEDY" by (auto simp: map_eq_Cons_conv)
  have "request_of ''b'' (sv_engine s5) = Some r" by (simp add: request_of_def s5(2) q g)
  then show thesis by (rule that [OF r5 h _ r])
qed

theorem served_text_is_sequential_witness:
  "\<exists>s h. service_reachable demo_env s \<and> handles s ''b'' = Some h \<and> completed h \<and>
     (can_reuse_cached_prediction (sampling (h_request h)) \<longrightarrow> reference demo_env (h_request h) = ([9, 10], ''LENGTH''))"
proof -
  obtain s h r where s: "service_reachable demo_env s" "handles s ''b'' = Some h" "completed h" "h_error h = None"
    "request_of ''b'' (sv_engine s) = Some r" "state r = FINISHED" "output_token_ids r = [9, 10]" "finish_reason r = Some ''LENGTH''"
    by (rule demo_served) (rule that)
  from served_text_is_sequential [OF demo_laws s(1-4)] s(5-8) s(1-3) show ?thesis by auto
qed

text \<open>
  Every observer hears once. Whatever calls a handle gets and in whatever order, each
  observer given to it has run once or is still registered once; none is left registered after
  the decision it waits for; and the first decision and its error stand.
\<close>

theorem observers_hear_once:
  "let h = fold handle_does calls (new_handle r) in
     mset (called h) + mset (callbacks h) + mset (accept_callbacks h) = mset (concat (map observers calls)) \<and>
     (accepted h \<longrightarrow> accept_callbacks h = []) \<and> (completed h \<longrightarrow> accepted h \<and> callbacks h = []) \<and>
     (if completed h then Some (h_error h) else None) = verdict calls"
proof -
  let ?h = "fold handle_does calls (new_handle r)"
  have new: "handle_ok (new_handle r)" "\<not> completed (new_handle r)" "h_error (new_handle r) = None" "called (new_handle r) = []"
    "callbacks (new_handle r) = []" "accept_callbacks (new_handle r) = []" by (simp_all add: handle_ok_def new_handle_def)
  have ok: "handle_ok ?h" by (rule handle_calls_ok [OF new(1)])
  have heard: "mset (called ?h) + mset (callbacks ?h) + mset (accept_callbacks ?h) = mset (concat (map observers calls))"
    using handle_calls_observers [of calls "new_handle r"] by (simp add: new(4-6))
  have "(if completed ?h then Some (h_error ?h) else None) = verdict calls"
    using verdict_of_calls [OF disjI2 [OF new(3)], of calls] new(2) by simp
  with ok heard show ?thesis unfolding Let_def handle_ok_def by blast
qed

end
