(* ===== verification/Spec2Isabelle.thy ===== *)
theory Spec2Isabelle
  imports Scheduling Proposers Runners Contiguous_Allocator Sampler Backends Metrics Server_Api
    Engine_Properties Service_Properties
begin

text \<open>
  Verification library for full-inference-engine, a continuous-batching LLM inference
  engine in Python over PyTorch and Triton (\<open>src/engine\<close>).

  \<^bold>\<open>The program.\<close> An HTTP server (\<open>engine/server\<close>) hands token lists to a worker that owns
  one engine (\<open>engine/batching\<close>). The engine keeps a FCFS scheduler (\<open>engine/scheduler\<close>) over
  a pool of fixed-size KV-cache blocks (\<open>engine/cache\<close>), shares the blocks of common prompt
  prefixes through a radix cache, runs prefill and decode forwards for many requests at
  once, samples a token per row (\<open>engine/batching/sampler.py\<close>) and can speculate with a
  proposer (\<open>engine/speculative\<close>). Attention backends are chosen from a registry
  (\<open>engine/backends\<close>), and metrics are exported (\<open>engine/metrics\<close>).

  \<^bold>\<open>Theories and code.\<close>
  \<^item> \<open>Prelude\<close>: Python exceptions as values (\<open>py_error + 'a\<close>), rounding-up division, keyed
    minimum and maximum, dictionaries that are iterated.
  \<^item> \<open>Block_Allocator\<close>: \<open>BlockAllocator\<close> of \<open>cache/allocator.py\<close>, reference counts and the free
    list; locale \<open>block_pool\<close> is what its clients rely on.
  \<^item> \<open>Paging\<close>: \<open>KVBlockManager\<close> of \<open>cache/paging.py\<close> and \<open>cache/block_table.py\<close>, tables, capacity,
    copy-on-write.
  \<^item> \<open>Prefix_Cache\<close>: \<open>PrefixCache\<close> of \<open>cache/prefix.py\<close>; the KV a block holds is abstracted to the
    tokens from the start of the sequence to the block's end; locale \<open>prefix_store\<close>.
  \<^item> \<open>Request\<close>: \<open>runtime/request.py\<close> and \<open>runtime/sampling.py\<close>, the lifecycle and its clocks.
  \<^item> \<open>Scheduler\<close>, \<open>Scheduling\<close>: \<open>FCFSScheduler\<close> of \<open>scheduler/scheduler.py\<close>, and the worlds reachable
    when it runs among the other steps of an engine.
  \<^item> \<open>Acceptance\<close>, \<open>Proposers\<close>, \<open>Speculative\<close>, \<open>Batched_Speculative\<close>: greedy commit planning, the
    n-gram and draft-model proposers, and the vanilla, optimized and batched decoders.
  \<^item> \<open>Runners\<close>: the single-request runner and its stream (\<open>model/runner.py\<close>) and the fixed
    padded batch (\<open>batching/static.py\<close>); a row of the batch is the runner on its prompt.
  \<^item> \<open>Contiguous_Allocator\<close>: the first-fit allocator the paged pool replaces; locale \<open>token_arena\<close>.
  \<^item> \<open>Sampler\<close>: \<open>BatchedSampler\<close>; PyTorch's sort, scatter and generators are the record
    \<open>torch_ops\<close>, what is relied on of them is \<open>torch_laws\<close>.
  \<^item> \<open>Backends\<close>: the attention registry, device policy and launch parameters.
  \<^item> \<open>Metrics\<close>: Prometheus histograms and sample statistics.
  \<^item> \<open>Server_Api\<close>: status mapping, native and OpenAI routes as functions of the observations a
    handler makes of its request.
  \<^item> \<open>Engine_Memory\<close>: shape buckets, the graph shapes that warm-up captures and batches ask for,
    reserved dummy slots and \<open>_acquire_capacity\<close> of
    \<open>batching/continuous_batching.py\<close>: eviction, copy-on-write, preemption.
  \<^item> \<open>Engine_Step\<close>: \<open>ContinuousBatchingEngine.step\<close> with every path below it, \<open>__init__\<close>,
    \<open>submit\<close>, \<open>cancel\<close>, \<open>reset\<close> and \<open>generate\<close>'s loop.
  \<^item> The engine's correctness, in the order the proof goes. \<open>Engine_Content\<close>: what a forward
    over staged rows leaves in the pages and reads from them. \<open>Engine_Invariant\<close>: the invariant
    \<open>engine_ok\<close> and its frame rules. \<open>Engine_Forward\<close>: a batch writes only slots of its own rows
    and every row's logits are the model's for its own text. \<open>Engine_Commit\<close>: committing a
    decode, prefill, resumed or speculative row. \<open>Engine_Sample\<close>: sampling a batch.
    \<open>Engine_Acquire\<close>: what getting memory, with preemption, leaves of the other requests.
    \<open>Engine_Rows\<close>, \<open>Engine_Batch\<close>: the decode, prefill, fused and speculative steps.
    \<open>Engine_Admit\<close>: admission, cached completions and the prefill plan. \<open>Engine_Correct\<close>: \<open>step\<close>
    and the other entry points, and the reachable engines. \<open>Engine_Properties\<close>: what that gives
    callers, and a concrete run.
  \<^item> \<open>Engine_Requests\<close>: every function of the engine only moves requests between the queue, the
    active set, the ended and the refused, and keeps what they ask (\<open>roll\<close>, \<open>ticket_of\<close>).
  \<^item> \<open>Service\<close>: \<open>server/continuous.py\<close>, handles, inbox, cancellations and the worker thread as a
    step relation in which callers interleave with the worker. \<open>Service_Correct\<close>: the invariant
    between handles, inbox, active dictionary and engine. \<open>Service_Properties\<close>: what a caller can
    rely on, and the demo run as a server serves it.

  \<^bold>\<open>The engine's theorems.\<close> The reference of a request is one-token-at-a-time greedy decoding
    of its own prompt with the model (\<open>reference\<close>). The invariant says that after the outputs so
    far that run completes to the reference, that a table's pages hold the request's text, that
    a block only one request owns is the only one it writes, that an exact-cache entry predicts
    what the model predicts, and that nothing that ended differs from its reference. Every
    operation keeps it and none can raise, so both hold for every sequence of calls.

  \<^bold>\<open>Conventions.\<close> Python integers are \<open>int\<close>, block numbers \<open>nat\<close>; every raise is an \<open>Inl\<close>; clocks,
  random generators, the tokenizer and the model are parameters. Floating-point numbers are
  reals. Loops are total functions with a measure, or carry fuel with a lemma that says how
  much is enough.

  \<^bold>\<open>The service's theorems.\<close> Whatever callers submit, cancel, observe, drain and stop, a handle is
  completed, in the inbox or in flight, the active dictionary is the engine's live requests, and
  text served without an error is the reference of the prompt that was submitted. Only a request
  longer than \<open>max_model_len\<close> can end the worker, and then its own caller waits forever.

  \<^bold>\<open>Not modelled.\<close> Triton and CUDA kernels, the capture of CUDA graphs and the synthetic requests
  of warm-up (which shapes it captures is modelled), model loading, weight and KV quantization,
  the tensor caches of \<open>cache/paged_cache.py\<close>, the HTTP and JSON layers, timers and waiting,
  benchmarks, scripts and notebooks: device code, floating-point tensors, or calls into
  libraries, whose results enter as parameters.
\<close>

end
